(* ===== verification/Huron_Prelude.thy ===== *)
theory Huron_Prelude
  imports Main "HOL-Library.Word" "HOL-Library.Multiset"
begin

text \<open>
  What every other theory of the development shares: the machine integers of the sources, the
  ways a C++ run can end without a result, and the containers of the C++ standard library that
  the sources use. A \<^verbatim>\<open>std::map\<close> is an association list with strictly increasing keys,
  because its iteration order is the key order; a \<^verbatim>\<open>std::unordered_map\<close> is an association
  list with distinct keys in insertion order, and every function whose result can depend on the
  iteration order takes that order as a parameter of its own. The two locales state what the
  clients rely on, and both container models interpret them.
\<close>

section \<open>Machine integers and abnormal ends\<close>

type_synonym u8 = "8 word"
type_synonym u16 = "16 word"
type_synonym u32 = "32 word"
type_synonym u64 = "64 word"

text \<open>\<^verbatim>\<open>size_t\<close> and \<^verbatim>\<open>uintptr_t\<close> on the 64-bit targets of the tool chain.\<close>

type_synonym size_t = u64

text \<open>
  A thrown exception, a failed \<^verbatim>\<open>assert\<close>, a call of \<^verbatim>\<open>abort\<close> or \<^verbatim>\<open>exit\<close>, and an operation
  the language leaves undefined (an out-of-range index, a signed overflow, a shift by the width).
\<close>

datatype cxx_error =
    InvalidArgument string
  | AssertFail string
  | Aborted string
  | Undefined string

type_synonym 'a result = "cxx_error + 'a"

primrec bindE :: "'a result \<Rightarrow> ('a \<Rightarrow> 'b result) \<Rightarrow> 'b result" where
  "bindE (Inl e) f = Inl e"
| "bindE (Inr x) f = f x"

primrec foldE :: "('a \<Rightarrow> 's \<Rightarrow> 's result) \<Rightarrow> 'a list \<Rightarrow> 's \<Rightarrow> 's result" where
  "foldE f [] s = Inr s"
| "foldE f (x # xs) s = bindE (f x s) (foldE f xs)"

primrec mapE :: "('a \<Rightarrow> 'b result) \<Rightarrow> 'a list \<Rightarrow> 'b list result" where
  "mapE f [] = Inr []"
| "mapE f (x # xs) = bindE (f x) (\<lambda>y. bindE (mapE f xs) (\<lambda>ys. Inr (y # ys)))"

definition guardE :: "bool \<Rightarrow> cxx_error \<Rightarrow> unit result" where
  "guardE b e = (if b then Inr () else Inl e)"

named_theorems err_simps \<open>rewrite rules for results\<close>

lemma bindE_eq_Inr [err_simps]: "bindE m f = Inr y \<longleftrightarrow> (\<exists>x. m = Inr x \<and> f x = Inr y)"
  by (cases m) auto

lemma bindE_eq_Inl [err_simps]: "bindE m f = Inl e \<longleftrightarrow> m = Inl e \<or> (\<exists>x. m = Inr x \<and> f x = Inl e)"
  by (cases m) auto

lemma guardE_eq_Inr [err_simps]: "guardE b e = Inr u \<longleftrightarrow> b"
  by (simp add: guardE_def)

lemma guardE_eq_Inl [err_simps]: "guardE b e = Inl e' \<longleftrightarrow> \<not> b \<and> e' = e"
  by (auto simp: guardE_def)

lemma guardE_True [simp]: "guardE True e = Inr ()"
  by (simp add: guardE_def)

lemma guardE_False [simp]: "guardE False e = Inl e"
  by (simp add: guardE_def)

lemma bindE_cong [fundef_cong]:
  "m = m' \<Longrightarrow> (\<And>x. m' = Inr x \<Longrightarrow> f x = f' x) \<Longrightarrow> bindE m f = bindE m' f'"
  by (cases m') auto

lemma foldE_append: "foldE f (xs @ ys) s = bindE (foldE f xs s) (foldE f ys)"
proof (induction xs arbitrary: s)
  case (Cons x xs)
  then show ?case by (cases "f x s") auto
qed simp

lemma foldE_invariant:
  assumes "foldE f xs s = Inr s'" and "I s"
    and "\<And>x s s'. x \<in> set xs \<Longrightarrow> I s \<Longrightarrow> f x s = Inr s' \<Longrightarrow> I s'"
  shows "I s'"
  using assms
proof (induction xs arbitrary: s)
  case (Cons x xs)
  then obtain t where t: "f x s = Inr t" "foldE f xs t = Inr s'"
    by (auto simp: err_simps)
  with Cons.prems have "I t" by auto
  with t(2) Cons.prems show ?case by (auto intro: Cons.IH)
qed simp

lemma foldE_total:
  assumes "\<And>x s. x \<in> set xs \<Longrightarrow> f x s = Inr (g x s)"
  shows "foldE f xs s = Inr (fold g xs s)"
  using assms by (induction xs arbitrary: s) auto

lemma mapE_eq_Inr: "mapE f xs = Inr ys \<longleftrightarrow> list_all2 (\<lambda>x y. f x = Inr y) xs ys"
proof (induction xs arbitrary: ys)
  case Nil
  then show ?case by auto
next
  case (Cons x xs)
  then show ?case by (cases ys) (auto simp: err_simps)
qed

lemma mapE_total: "(\<And>x. x \<in> set xs \<Longrightarrow> f x = Inr (g x)) \<Longrightarrow> mapE f xs = Inr (map g xs)"
  by (induction xs) auto

section \<open>Words\<close>

lemma unat_Suc_word: "x \<noteq> - 1 \<Longrightarrow> unat (x + 1) = Suc (unat x)" for x :: "'a::len word"
proof -
  assume x: "x \<noteq> - 1"
  have m: "unat (x + 1) = (unat x + 1) mod 2 ^ LENGTH('a)" by (simp add: unat_word_ariths)
  have "unat x < 2 ^ LENGTH('a)" by (rule unsigned_less)
  then have "unat x + 1 \<le> 2 ^ LENGTH('a)" by linarith
  moreover have "unat x + 1 \<noteq> 2 ^ LENGTH('a)"
  proof
    assume "unat x + 1 = 2 ^ LENGTH('a)"
    with m have "unat (x + 1) = 0" by simp
    then have "x + 1 = 0" by (simp add: unat_eq_0)
    with x max_word_wrap show False by blast
  qed
  ultimately have "unat x + 1 < 2 ^ LENGTH('a)" by (rule le_neq_implies_less)
  then have "(unat x + 1) mod 2 ^ LENGTH('a) = unat x + 1" by (rule mod_less)
  with m show ?thesis by simp
qed

lemma word_less_Suc: "x \<noteq> - 1 \<Longrightarrow> x < x + 1" for x :: "'a::len word"
  by (simp add: word_less_nat_alt unat_Suc_word)

lemma uint_neq_minus_one [simp]: "uint w \<noteq> - 1" "- 1 \<noteq> uint w" for w :: "'a::len word"
proof -
  have "0 \<le> uint w" by simp
  then show "uint w \<noteq> - 1" "- 1 \<noteq> uint w" by linarith+
qed

lemma unat_plus_fits: "unat a + unat b < 2 ^ LENGTH('a) \<Longrightarrow> unat (a + b) = unat a + unat b"
  for a b :: "'a::len word"
  by (simp add: unat_word_ariths)

section \<open>Association lists as the containers of the standard library\<close>

text \<open>
  \<open>smap_alter k f d m\<close> is \<^verbatim>\<open>m[k] = f(m[k])\<close> on a \<^verbatim>\<open>std::map\<close>: a missing key is first inserted
  with the value-initialised \<open>d\<close>. \<^verbatim>\<open>m[k] = v\<close> ignores the old value, \<^verbatim>\<open>m.emplace(k, v)\<close> keeps it.
\<close>

fun smap_alter :: "'k::linorder \<Rightarrow> ('v \<Rightarrow> 'v) \<Rightarrow> 'v \<Rightarrow> ('k \<times> 'v) list \<Rightarrow> ('k \<times> 'v) list" where
  "smap_alter k f d [] = [(k, f d)]"
| "smap_alter k f d ((k', v) # m) =
     (if k < k' then (k, f d) # (k', v) # m
      else if k = k' then (k', f v) # m
      else (k', v) # smap_alter k f d m)"

definition smap_put :: "'k::linorder \<Rightarrow> 'v \<Rightarrow> ('k \<times> 'v) list \<Rightarrow> ('k \<times> 'v) list" where
  "smap_put k v = smap_alter k (\<lambda>_. v) v"

definition smap_emplace :: "'k::linorder \<Rightarrow> 'v \<Rightarrow> ('k \<times> 'v) list \<Rightarrow> ('k \<times> 'v) list" where
  "smap_emplace k v = smap_alter k (\<lambda>w. w) v"

definition smap_erase :: "'k \<Rightarrow> ('k \<times> 'v) list \<Rightarrow> ('k \<times> 'v) list" where
  "smap_erase k m = filter (\<lambda>p. fst p \<noteq> k) m"

definition smap_ok :: "('k::linorder \<times> 'v) list \<Rightarrow> bool" where
  "smap_ok m \<longleftrightarrow> sorted_wrt (<) (map fst m)"

text \<open>
  \<^verbatim>\<open>it = m.upper_bound(x)\<close> followed by the test against \<^verbatim>\<open>m.begin()\<close> and \<^verbatim>\<open>it--\<close>: the entry
  with the greatest key that is at most \<open>x\<close>.
\<close>

definition smap_floor :: "('k::linorder \<times> 'v) list \<Rightarrow> 'k \<Rightarrow> ('k \<times> 'v) option" where
  "smap_floor m x =
     (let ps = takeWhile (\<lambda>p. fst p \<le> x) m in if ps = [] then None else Some (last ps))"

text \<open>\<^verbatim>\<open>emplace\<close> on a \<^verbatim>\<open>std::multimap\<close> goes behind the entries with an equal key.\<close>

fun mmap_emplace :: "'k::linorder \<Rightarrow> 'v \<Rightarrow> ('k \<times> 'v) list \<Rightarrow> ('k \<times> 'v) list" where
  "mmap_emplace k v [] = [(k, v)]"
| "mmap_emplace k v ((k', v') # m) =
     (if k < k' then (k, v) # (k', v') # m else (k', v') # mmap_emplace k v m)"

fun umap_alter :: "'k \<Rightarrow> ('v \<Rightarrow> 'v) \<Rightarrow> 'v \<Rightarrow> ('k \<times> 'v) list \<Rightarrow> ('k \<times> 'v) list" where
  "umap_alter k f d [] = [(k, f d)]"
| "umap_alter k f d ((k', v) # m) =
     (if k = k' then (k', f v) # m else (k', v) # umap_alter k f d m)"

definition umap_put :: "'k \<Rightarrow> 'v \<Rightarrow> ('k \<times> 'v) list \<Rightarrow> ('k \<times> 'v) list" where
  "umap_put k v = umap_alter k (\<lambda>_. v) v"

definition umap_emplace :: "'k \<Rightarrow> 'v \<Rightarrow> ('k \<times> 'v) list \<Rightarrow> ('k \<times> 'v) list" where
  "umap_emplace k v = umap_alter k (\<lambda>w. w) v"

definition umap_ok :: "('k \<times> 'v) list \<Rightarrow> bool" where
  "umap_ok m \<longleftrightarrow> distinct (map fst m)"

abbreviation value_or :: "'v \<Rightarrow> 'v option \<Rightarrow> 'v" where
  "value_or d ov \<equiv> (case ov of None \<Rightarrow> d | Some v \<Rightarrow> v)"

section \<open>The interface of a keyed container\<close>

text \<open>
  Clients fill containers with loops of the form \<^verbatim>\<open>for (x : xs) m[key(x)] op= x\<close>. What such a
  loop leaves behind follows from the two laws of one update.
\<close>

locale keyed_store =
  fixes lookup :: "'m \<Rightarrow> 'k \<Rightarrow> 'v option"
    and alter :: "'k \<Rightarrow> ('v \<Rightarrow> 'v) \<Rightarrow> 'v \<Rightarrow> 'm \<Rightarrow> 'm"
    and ok :: "'m \<Rightarrow> bool"
  assumes ok_alter: "ok m \<Longrightarrow> ok (alter k f d m)"
    and lookup_alter: "ok m \<Longrightarrow>
      lookup (alter k f d m) k' = (if k' = k then Some (f (value_or d (lookup m k))) else lookup m k')"
begin

lemma ok_fold_alter: "ok m \<Longrightarrow> ok (fold (\<lambda>x. alter (key x) (g x) d) xs m)"
  by (induction xs arbitrary: m) (auto intro: ok_alter)

lemma lookup_fold_alter:
  "ok m \<Longrightarrow> lookup (fold (\<lambda>x. alter (key x) (g x) d) xs m) k =
     (if k \<in> key ` set xs
      then Some (fold g (filter (\<lambda>x. key x = k) xs) (value_or d (lookup m k)))
      else lookup m k)"
proof (induction xs arbitrary: m)
  case Nil
  then show ?case by simp
next
  case (Cons x xs)
  from Cons.prems have ok: "ok (alter (key x) (g x) d m)" by (rule ok_alter)
  have empty: "filter (\<lambda>y. key y = k) xs = []" if "k \<notin> key ` set xs"
    using that by (auto simp: filter_empty_conv)
  show ?case
    using Cons.IH[OF ok] Cons.prems empty by (auto simp: lookup_alter)
qed

end

text \<open>
  An ordered container adds iteration in key order and the \<^verbatim>\<open>upper_bound\<close>/decrement idiom. With
  keys that start disjoint intervals, the idiom finds the interval a point lies in.
\<close>

locale ordered_store = keyed_store lookup alter ok
  for lookup :: "'m \<Rightarrow> 'k::linorder \<Rightarrow> 'v option" and alter and ok +
  fixes iter :: "'m \<Rightarrow> ('k \<times> 'v) list"
    and floor :: "'m \<Rightarrow> 'k \<Rightarrow> ('k \<times> 'v) option"
  assumes iter_sorted: "ok m \<Longrightarrow> sorted_wrt (<) (map fst (iter m))"
    and iter_lookup: "ok m \<Longrightarrow> (k, v) \<in> set (iter m) \<longleftrightarrow> lookup m k = Some v"
    and floor_Some: "ok m \<Longrightarrow> floor m x = Some (k, v) \<longleftrightarrow>
      lookup m k = Some v \<and> k \<le> x \<and> (\<forall>k' v'. lookup m k' = Some v' \<longrightarrow> k' \<le> x \<longrightarrow> k' \<le> k)"
begin

lemma floor_in_interval:
  assumes "ok m"
    and disj: "\<And>k v k' v'. lookup m k = Some v \<Longrightarrow> lookup m k' = Some v' \<Longrightarrow> k < k' \<Longrightarrow> hi k v \<le> k'"
    and "lookup m k = Some v" "k \<le> x" "x < hi k v"
  shows "floor m x = Some (k, v)"
proof -
  have "k' \<le> k" if "lookup m k' = Some v'" "k' \<le> x" for k' v'
    using disj[OF assms(3) that(1)] that(2) assms(5) by (meson leD le_less_trans not_less order_trans)
  with assms show ?thesis by (auto simp: floor_Some)
qed

lemma iter_distinct: "ok m \<Longrightarrow> distinct (iter m)"
  using iter_sorted[of m] by (metis distinct_map strict_sorted_iff)

end

section \<open>Both container models satisfy the interface\<close>

lemma map_of_smap_alter:
  "smap_ok m \<Longrightarrow>
   map_of (smap_alter k f d m) k' = (if k' = k then Some (f (value_or d (map_of m k))) else map_of m k')"
proof (induction m)
  case Nil
  then show ?case by simp
next
  case (Cons p m)
  obtain a v where p: "p = (a, v)" by (cases p)
  have sm: "smap_ok m" and less: "\<forall>x \<in> fst ` set m. a < x"
    using Cons.prems by (auto simp: smap_ok_def p)
  have none: "map_of m k = None" if "k < a"
    using less that by (force simp: map_of_eq_None_iff)
  show ?case
    using Cons.IH[OF sm] none by (auto simp: p)
qed

lemma set_fst_smap_alter: "fst ` set (smap_alter k f d m) = insert k (fst ` set m)"
  by (induction k f d m rule: smap_alter.induct) (simp_all add: insert_commute)

lemma smap_ok_alter: "smap_ok m \<Longrightarrow> smap_ok (smap_alter k f d m)"
proof (induction m)
  case Nil
  then show ?case by (simp add: smap_ok_def)
next
  case (Cons p m)
  obtain a v where p: "p = (a, v)" by (cases p)
  show ?case
    using Cons set_fst_smap_alter[of k f d m] by (auto simp: smap_ok_def p)
qed

lemma smap_ok_distinct: "smap_ok m \<Longrightarrow> distinct (map fst m)"
  by (simp add: smap_ok_def strict_sorted_iff)

lemma smap_ok_Nil [simp]: "smap_ok []"
  by (simp add: smap_ok_def)

lemma smap_ok_Cons: "smap_ok ((k, v) # m) \<longleftrightarrow> (\<forall>q \<in> set m. k < fst q) \<and> smap_ok m"
  by (auto simp: smap_ok_def)

lemma map_of_iff_smap: "smap_ok m \<Longrightarrow> (k, v) \<in> set m \<longleftrightarrow> map_of m k = Some v"
  using smap_ok_distinct by force

lemma smap_floor_Nil [simp]: "smap_floor [] x = None"
  by (simp add: smap_floor_def)

lemma smap_floor_Cons:
  "smap_floor (p # m) x =
     (if fst p \<le> x then (case smap_floor m x of None \<Rightarrow> Some p | Some q \<Rightarrow> Some q) else None)"
  by (simp add: smap_floor_def Let_def)

lemma smap_floor_mem: "smap_floor m x = Some p \<Longrightarrow> p \<in> set m \<and> fst p \<le> x"
  by (induction m) (auto simp: smap_floor_Cons split: if_splits option.splits)

lemma smap_floor_None: "smap_ok m \<Longrightarrow> smap_floor m x = None \<Longrightarrow> q \<in> set m \<Longrightarrow> x < fst q"
proof (cases m)
  case (Cons a m')
  assume "smap_ok m" "smap_floor m x = None" "q \<in> set m"
  with Cons have "x < fst a" "q = a \<or> fst a < fst q"
    by (cases a; auto simp: smap_floor_Cons smap_ok_Cons split: if_splits option.splits)+
  then show ?thesis by auto
qed simp

lemma smap_floor_greatest:
  "smap_ok m \<Longrightarrow> smap_floor m x = Some p \<Longrightarrow> q \<in> set m \<Longrightarrow> fst q \<le> x \<Longrightarrow> fst q \<le> fst p"
proof (induction m)
  case Nil
  then show ?case by simp
next
  case (Cons a m)
  obtain k v where a: "a = (k, v)" by (cases a)
  have le: "fst a \<le> x"
    using Cons.prems(2) by (auto simp: smap_floor_Cons split: if_splits)
  show ?case
  proof (cases "smap_floor m x")
    case None
    then have "q \<notin> set m \<or> \<not> fst q \<le> x"
      using Cons.prems(1) smap_floor_None[of m x q] by (auto simp: a smap_ok_Cons)
    with None le Cons.prems show ?thesis by (auto simp: smap_floor_Cons)
  next
    case (Some r)
    then have "p = r" using Cons.prems(2) le by (simp add: smap_floor_Cons)
    with Some Cons show ?thesis
      using smap_floor_mem[OF Some] by (auto simp: a smap_ok_Cons)
  qed
qed

lemma smap_floor_exists: "smap_ok m \<Longrightarrow> q \<in> set m \<Longrightarrow> fst q \<le> x \<Longrightarrow> \<exists>p. smap_floor m x = Some p"
proof (induction m)
  case (Cons a m)
  obtain k v where a: "a = (k, v)" by (cases a)
  from Cons have "fst a \<le> x" by (auto simp: a smap_ok_Cons)
  then show ?case by (auto simp: smap_floor_Cons split: option.splits)
qed simp

lemma smap_floor_iff:
  assumes "smap_ok m"
  shows "smap_floor m x = Some (k, v) \<longleftrightarrow>
    map_of m k = Some v \<and> k \<le> x \<and> (\<forall>k' v'. map_of m k' = Some v' \<longrightarrow> k' \<le> x \<longrightarrow> k' \<le> k)"
    (is "?L \<longleftrightarrow> ?R")
proof
  assume ?L
  then show ?R
    using smap_floor_mem[of m x "(k, v)"] smap_floor_greatest[OF assms, of x "(k, v)"]
      map_of_iff_smap[OF assms] by fastforce
next
  assume R: ?R
  then have "(k, v) \<in> set m" using map_of_iff_smap[OF assms] by blast
  then obtain p where p: "smap_floor m x = Some p"
    using smap_floor_exists[OF assms, of "(k, v)" x] R by auto
  obtain k' v' where k': "p = (k', v')" by (cases p)
  have "map_of m k' = Some v'" "k' \<le> x"
    using smap_floor_mem[OF p] map_of_iff_smap[OF assms] k' by auto
  moreover have "k \<le> k'"
    using smap_floor_greatest[OF assms p \<open>(k, v) \<in> set m\<close>] R k' by simp
  ultimately have "k' = k" using R by (meson order_antisym)
  with \<open>map_of m k' = Some v'\<close> R p k' show ?L by simp
qed

interpretation smap: ordered_store map_of smap_alter smap_ok "\<lambda>m. m" smap_floor
proof unfold_locales
  fix m :: "('k::linorder \<times> 'v) list" and k k' :: 'k and f :: "'v \<Rightarrow> 'v" and d :: 'v
  assume "smap_ok m"
  then show "smap_ok (smap_alter k f d m)"
    and "map_of (smap_alter k f d m) k' =
      (if k' = k then Some (f (value_or d (map_of m k))) else map_of m k')"
    by (auto simp: smap_ok_alter map_of_smap_alter)
next
  fix m :: "('k::linorder \<times> 'v) list" and k x :: 'k and v :: 'v
  assume "smap_ok m"
  then show "sorted_wrt (<) (map fst m)" "((k, v) \<in> set m) = (map_of m k = Some v)"
    and "(smap_floor m x = Some (k, v)) =
      (map_of m k = Some v \<and> k \<le> x \<and> (\<forall>k' v'. map_of m k' = Some v' \<longrightarrow> k' \<le> x \<longrightarrow> k' \<le> k))"
    using map_of_iff_smap[of m] smap_floor_iff[of m] by (auto simp: smap_ok_def)
qed

lemma set_fst_umap_alter: "fst ` set (umap_alter k f d m) = insert k (fst ` set m)"
  by (induction k f d m rule: umap_alter.induct) (simp_all add: insert_commute)

lemma umap_ok_alter: "umap_ok m \<Longrightarrow> umap_ok (umap_alter k f d m)"
proof (induction m)
  case (Cons p m)
  then show ?case
    using set_fst_umap_alter[of k f d m] by (cases p) (auto simp: umap_ok_def)
qed (simp add: umap_ok_def)

lemma map_of_umap_alter:
  "map_of (umap_alter k f d m) k' = (if k' = k then Some (f (value_or d (map_of m k))) else map_of m k')"
  by (induction m) auto

interpretation umap: keyed_store map_of umap_alter umap_ok
  by unfold_locales (auto simp: umap_ok_alter map_of_umap_alter)

section \<open>Facts about the containers that several components use\<close>

lemma map_of_umap_put: "map_of (umap_put k v m) x = (if x = k then Some v else map_of m x)"
  unfolding umap_put_def by (induction m) auto

lemma umap_ok_Nil [simp]: "umap_ok []"
  by (simp add: umap_ok_def)

lemma smap_ok_put [simp]: "smap_ok m \<Longrightarrow> smap_ok (smap_put k v m)"
  by (simp add: smap_put_def smap_ok_alter)

lemma map_of_smap_put [simp]: "smap_ok m \<Longrightarrow> map_of (smap_put k v m) = (map_of m)(k \<mapsto> v)"
  by (auto simp: smap_put_def map_of_smap_alter)

lemma smap_ok_emplace [simp]: "smap_ok m \<Longrightarrow> smap_ok (smap_emplace k v m)"
  by (simp add: smap_emplace_def smap_ok_alter)

lemma map_of_smap_emplace [simp]:
  "smap_ok m \<Longrightarrow> map_of (smap_emplace k v m) = (map_of m)(k \<mapsto> value_or v (map_of m k))"
  by (auto simp: smap_emplace_def map_of_smap_alter)

lemma smap_alter_last: "\<forall>q \<in> set m. fst q < k \<Longrightarrow> smap_alter k f d m = m @ [(k, f d)]"
  by (induction k f d m rule: smap_alter.induct) auto

text \<open>Filling a map from an ordered range of entries keeps the range.\<close>

lemma fold_emplace_sorted:
  "smap_ok (m @ ps) \<Longrightarrow> fold (\<lambda>q. smap_emplace (fst q) (snd q)) ps m = m @ ps"
proof (induction ps arbitrary: m)
  case (Cons p ps)
  have "\<forall>q \<in> set m. fst q < fst p"
    using Cons.prems by (auto simp: smap_ok_def sorted_wrt_append)
  then have "smap_emplace (fst p) (snd p) m = m @ [p]"
    by (simp add: smap_emplace_def smap_alter_last)
  with Cons show ?case by simp
qed simp

text \<open>An ordered map is determined by its lookups.\<close>

lemma smap_ext:
  assumes "smap_ok m" "smap_ok m'" "map_of m = map_of m'"
  shows "m = m'"
proof -
  have "set m = set m'"
    using assms map_of_iff_smap[OF assms(1)] map_of_iff_smap[OF assms(2)] by auto
  moreover have "inj_on fst (set m \<union> set m')"
    using calculation smap_ok_distinct[OF assms(1)] by (simp add: distinct_map)
  ultimately show ?thesis
    using assms(1,2) by (intro map_sorted_distinct_set_unique[of fst m m'])
      (auto simp: smap_ok_def strict_sorted_iff)
qed

lemma smap_ok_erase [simp]: "smap_ok m \<Longrightarrow> smap_ok (smap_erase k m)"
  by (induction m) (auto simp: smap_erase_def smap_ok_def)

lemma map_of_smap_erase [simp]: "map_of (smap_erase k m) = (map_of m)(k := None)"
proof
  fix x
  show "map_of (smap_erase k m) x = ((map_of m)(k := None)) x"
    by (induction m) (auto simp: smap_erase_def)
qed

lemma set_mmap_emplace [simp]: "set (mmap_emplace k v m) = insert (k, v) (set m)"
  by (induction k v m rule: mmap_emplace.induct) auto

lemma mset_mmap_emplace [simp]: "mset (mmap_emplace k v m) = add_mset (k, v) (mset m)"
  by (induction k v m rule: mmap_emplace.induct) auto

lemma sorted_mmap_emplace: "sorted (map fst m) \<Longrightarrow> sorted (map fst (mmap_emplace k v m))"
proof (induction m)
  case (Cons p m)
  then show ?case by (cases p) (auto simp: order_less_le_trans intro: less_imp_le)
qed simp

section \<open>Shifts and the signed reading of an address\<close>

lemma unat_drop_bit: "unat (drop_bit n (w :: 'a::len word)) = unat w div 2 ^ n"
proof -
  have "take_bit LENGTH('a) (unat w) = unat w" using unsigned_less[of w, where ?'a = nat] by (rule take_bit_nat_eq_self)
  then show ?thesis unfolding unsigned_drop_bit_eq by (simp only: drop_bit_eq_div)
qed

lemma sint_small: "(a :: u64) < 2 ^ 63 \<Longrightarrow> sint a = uint a"
proof -
  assume "a < 2 ^ 63"
  then have "uint a < 2 ^ 63" by (simp add: word_less_def)
  moreover have "0 \<le> uint a" by (rule uint_ge_0)
  ultimately have "- (2 ^ 63) \<le> uint a \<and> uint a < 2 ^ 63" by linarith
  then show ?thesis by (simp add: sint_uint signed_take_bit_int_eq_self_iff)
qed

lemma sint_large:
  fixes a :: u64
  assumes "\<not> a < 2 ^ 63"
  shows "sint a < 0"
proof (rule ccontr)
  assume "\<not> sint a < 0"
  moreover have "sint a < 2 ^ 63" using sint_lt[of a] by simp
  ultimately have "take_bit 64 (sint a) = sint a" by (simp add: take_bit_int_eq_self_iff)
  then have "uint a = sint a" by (simp add: uint_sint)
  with \<open>sint a < 2 ^ 63\<close> assms show False by (simp add: word_less_def)
qed

end
