(* ===== verification/Cxx_Text.thy ===== *)
theory Cxx_Text
  imports Huron_Prelude
begin

text \<open>
  Text as the sources read and write it: the digits that \<^verbatim>\<open>printf\<close> and \<^verbatim>\<open>operator<<\<close> produce for
  unsigned numbers, the lines that \<^verbatim>\<open>getline\<close> delivers, and the formatted extraction
  \<^verbatim>\<open>is >> x\<close> for unsigned \<open>x\<close> with its sticky failure flag. The lemmas are the round trips
  between the two directions, which the components use for their file formats.
\<close>

section \<open>Characters and digits\<close>

definition is_digit :: "char \<Rightarrow> bool" where
  "is_digit c \<longleftrightarrow> 48 \<le> (of_char c :: nat) \<and> (of_char c :: nat) \<le> 57"

definition digit_val :: "char \<Rightarrow> nat" where
  "digit_val c = (of_char c :: nat) - 48"

text \<open>White space as \<^verbatim>\<open>isspace\<close> classifies it in the C locale.\<close>

definition is_space :: "char \<Rightarrow> bool" where
  "is_space c \<longleftrightarrow> (of_char c :: nat) = 32 \<or> 9 \<le> (of_char c :: nat) \<and> (of_char c :: nat) \<le> 13"

text \<open>The value of a \<^verbatim>\<open>char\<close> in an expression: \<^verbatim>\<open>char\<close> is signed on the targets.\<close>

definition char_int :: "char \<Rightarrow> int" where
  "char_int c = (if (of_char c :: int) \<ge> 128 then of_char c - 256 else of_char c)"

text \<open>The digit \<open>d\<close> in bases up to 16, with small letters, as \<^verbatim>\<open>%lu\<close>, \<^verbatim>\<open>%x\<close> and \<^verbatim>\<open>%p\<close> print it.\<close>

definition digit_char :: "nat \<Rightarrow> char" where
  "digit_char d = (if d < 10 then char_of (48 + d) else char_of (87 + d))"

function print_base :: "nat \<Rightarrow> nat \<Rightarrow> string" where
  "print_base b n =
     (if b < 2 \<or> n < b then [digit_char n]
      else print_base b (n div b) @ [digit_char (n mod b)])"
  by pat_completeness auto
termination
  by (relation "measure snd") auto

declare print_base.simps [simp del]

abbreviation dec :: "nat \<Rightarrow> string" where
  "dec n \<equiv> print_base 10 n"

definition dec_val :: "string \<Rightarrow> nat" where
  "dec_val ds = fold (\<lambda>c v. v * 10 + digit_val c) ds 0"

section \<open>Lines and formatted extraction\<close>

text \<open>The lines that repeated \<^verbatim>\<open>getline\<close> calls deliver from a file with the given contents.\<close>

abbreviation newline :: char where
  "newline \<equiv> CHR 0x0A"

function getlines :: "string \<Rightarrow> string list" where
  "getlines s =
     (if s = [] then []
      else takeWhile (\<lambda>c. c \<noteq> newline) s #
        getlines (drop 1 (dropWhile (\<lambda>c. c \<noteq> newline) s)))"
  by pat_completeness auto
termination
proof (relation "measure length")
  fix s :: string
  assume "s \<noteq> []"
  then have "0 < length s" by simp
  moreover have "length (dropWhile (\<lambda>c. c \<noteq> newline) s) \<le> length s" by (rule length_dropWhile_le)
  ultimately have "length (dropWhile (\<lambda>c. c \<noteq> newline) s) - 1 < length s" by linarith
  then show "(drop 1 (dropWhile (\<lambda>c. c \<noteq> newline) s), s) \<in> measure length"
    by (simp only: in_measure length_drop)
qed simp

declare getlines.simps [simp del]

record istream =
  is_rest :: string
  is_fail :: bool

definition open_in :: "string \<Rightarrow> istream" where
  "open_in s = \<lparr>is_rest = s, is_fail = False\<rparr>"

text \<open>
  \<^verbatim>\<open>is >> x\<close> for an unsigned \<open>x\<close>: a failed stream and the end of input leave \<open>x\<close> as it was
  (\<open>None\<close> is an uninitialised variable), a missing number stores 0, a number that does not fit
  stores the maximum, and a minus sign negates modulo the width. All but the good case set the
  failure flag.
\<close>

definition extract_u :: "'a::len word option \<Rightarrow> istream \<Rightarrow> 'a word option \<times> istream" where
  "extract_u x s =
     (let r = dropWhile is_space (is_rest s) in
      if is_fail s then (x, s)
      else if r = [] then (x, \<lparr>is_rest = [], is_fail = True\<rparr>)
      else
        let neg = (hd r = CHR ''-'');
            r1 = (if neg \<or> hd r = CHR ''+'' then tl r else r);
            ds = takeWhile is_digit r1;
            r2 = dropWhile is_digit r1
        in if ds = [] then (Some 0, \<lparr>is_rest = r2, is_fail = True\<rparr>)
           else if dec_val ds \<ge> 2 ^ LENGTH('a) then (Some (- 1), \<lparr>is_rest = r2, is_fail = True\<rparr>)
           else (Some (if neg then - word_of_nat (dec_val ds) else word_of_nat (dec_val ds)),
             \<lparr>is_rest = r2, is_fail = False\<rparr>))"

section \<open>Printing and reading back\<close>

lemma of_char_char_of_small: "n < 256 \<Longrightarrow> (of_char (char_of n :: char) :: nat) = n"
  by simp

lemma of_char_digit_char: "d < 10 \<Longrightarrow> (of_char (digit_char d) :: nat) = 48 + d"
  by (simp add: digit_char_def)

lemma is_digit_digit_char [simp]: "d < 10 \<Longrightarrow> is_digit (digit_char d)"
  by (simp add: is_digit_def of_char_digit_char)

lemma digit_val_digit_char [simp]: "d < 10 \<Longrightarrow> digit_val (digit_char d) = d"
  by (simp add: digit_val_def of_char_digit_char)

lemma print_base_nonempty [simp]: "print_base b n \<noteq> []"
  by (subst print_base.simps) auto

lemma dec_digits: "\<forall>c \<in> set (dec n). is_digit c"
proof (induction n rule: less_induct)
  case (less n)
  show ?case
    using less.IH[of "n div 10"] by (subst print_base.simps) auto
qed

lemma dec_val_append: "dec_val (xs @ [c]) = dec_val xs * 10 + digit_val c"
  by (simp add: dec_val_def)

lemma dec_val_dec [simp]: "dec_val (dec n) = n"
proof (induction n rule: less_induct)
  case (less n)
  show ?case
  proof (cases "n < 10")
    case True
    then show ?thesis by (subst print_base.simps) (simp add: dec_val_def)
  next
    case False
    then have "dec_val (dec (n div 10)) = n div 10" by (intro less.IH) auto
    with False show ?thesis by (subst print_base.simps) (simp add: dec_val_append)
  qed
qed

lemma is_digit_not_space: "is_digit c \<Longrightarrow> \<not> is_space c"
  by (auto simp: is_digit_def is_space_def)

lemma is_digit_not_sign: "is_digit c \<Longrightarrow> c \<noteq> CHR ''-'' \<and> c \<noteq> CHR ''+''"
  by (auto simp: is_digit_def)

lemma takeWhile_digits_dec:
  "(rest = [] \<or> \<not> is_digit (hd rest)) \<Longrightarrow> takeWhile is_digit (dec n @ rest) = dec n"
  by (cases rest) (auto simp: dec_digits takeWhile_append2)

lemma dropWhile_digits_dec:
  "(rest = [] \<or> \<not> is_digit (hd rest)) \<Longrightarrow> dropWhile is_digit (dec n @ rest) = rest"
  by (cases rest) (auto simp: dec_digits dropWhile_append2)

lemma hd_dec_digit: "is_digit (hd (dec n))"
  using dec_digits[of n] print_base_nonempty[of 10 n] by (cases "dec n") auto

lemma dropWhile_space_dec: "dropWhile is_space (dec n @ rest) = dec n @ rest"
  using hd_dec_digit[of n] print_base_nonempty[of 10 n]
  by (cases "dec n") (auto dest: is_digit_not_space)

text \<open>A number that was written, behind any white space, reads back.\<close>

lemma extract_u_dec:
  fixes w :: "'a::len word"
  assumes "\<forall>c \<in> set ws. is_space c" and "rest = [] \<or> \<not> is_digit (hd rest)"
  shows "extract_u x \<lparr>is_rest = ws @ dec (unat w) @ rest, is_fail = False\<rparr> =
    (Some w, \<lparr>is_rest = rest, is_fail = False\<rparr>)"
proof -
  have skip: "dropWhile is_space (ws @ dec (unat w) @ rest) = dec (unat w) @ rest"
    using assms(1) by (simp add: dropWhile_append2 dropWhile_space_dec)
  have sign: "hd (dec (unat w) @ rest) \<noteq> CHR ''-''" "hd (dec (unat w) @ rest) \<noteq> CHR ''+''"
    using is_digit_not_sign[OF hd_dec_digit[of "unat w"]] by simp_all
  have "\<not> 2 ^ LENGTH('a) \<le> unat w" using unsigned_less[of w] by (simp add: not_le)
  then show ?thesis
    using sign assms(2)
    by (simp add: extract_u_def skip Let_def takeWhile_digits_dec dropWhile_digits_dec)
qed

lemma extract_u_fail [simp]: "is_fail s \<Longrightarrow> extract_u x s = (x, s)"
  by (simp add: extract_u_def)

text \<open>A successful extraction consumes input, which bounds the loops over it.\<close>

lemma extract_u_progress:
  assumes "extract_u x s = (y, s')" and "\<not> is_fail s'"
  shows "length (is_rest s') < length (is_rest s)"
proof -
  let ?r = "dropWhile is_space (is_rest s)"
  let ?r1 = "if hd ?r = CHR ''-'' \<or> hd ?r = CHR ''+'' then tl ?r else ?r"
  have ne: "takeWhile is_digit ?r1 \<noteq> []" and rest: "is_rest s' = dropWhile is_digit ?r1"
    using assms by (auto simp: extract_u_def Let_def split: if_splits)
  have "length (takeWhile is_digit ?r1) + length (dropWhile is_digit ?r1) = length ?r1"
    by (metis length_append takeWhile_dropWhile_id)
  with ne rest have "length (is_rest s') < length ?r1"
    by (metis length_greater_0_conv less_add_same_cancel2)
  also have "length ?r1 \<le> length ?r" by auto
  also have "length ?r \<le> length (is_rest s)" by (rule length_dropWhile_le)
  finally show ?thesis .
qed

lemma extract_u_rest_le:
  assumes "extract_u x s = (y, s')"
  shows "length (is_rest s') \<le> length (is_rest s)"
proof (cases "is_fail s")
  case False
  let ?r = "dropWhile is_space (is_rest s)"
  let ?r1 = "if hd ?r = CHR ''-'' \<or> hd ?r = CHR ''+'' then tl ?r else ?r"
  have "is_rest s' = [] \<or> is_rest s' = dropWhile is_digit ?r1"
    using assms False by (auto simp: extract_u_def Let_def split: if_splits)
  moreover have "length (dropWhile is_digit ?r1) \<le> length ?r1" by (rule length_dropWhile_le)
  moreover have "length ?r1 \<le> length ?r" by auto
  moreover have "length ?r \<le> length (is_rest s)" by (rule length_dropWhile_le)
  ultimately show ?thesis by auto
qed (use assms in simp)

text \<open>Lines that end in a newline are delivered one by one.\<close>

lemma getlines_Nil [simp]: "getlines [] = []"
  by (subst getlines.simps) simp

lemma getlines_line:
  assumes "newline \<notin> set l"
  shows "getlines (l @ newline # s) = l # getlines s"
proof -
  have "\<forall>c \<in> set l. c \<noteq> newline" using assms by auto
  then have "takeWhile (\<lambda>c. c \<noteq> newline) (l @ newline # s) = l"
    and "dropWhile (\<lambda>c. c \<noteq> newline) (l @ newline # s) = newline # s"
    by (induction l) auto
  then show ?thesis by (subst getlines.simps) simp
qed

lemma getlines_concat:
  "(\<And>l. l \<in> set ls \<Longrightarrow> newline \<notin> set l) \<Longrightarrow> getlines (concat (map (\<lambda>l. l @ [newline]) ls)) = ls"
  by (induction ls) (auto simp: getlines_line)

end
