(* ===== verification/PP_Utils.thy ===== *)
theory PP_Utils
  imports Cxx_Text
begin

text \<open>
  The value types and text helpers of the post-processor, \<^verbatim>\<open>postprocess/Utils.h\<close> and
  \<^verbatim>\<open>postprocess/Utils.cpp\<close>: read/write counters, program counters, half-open byte ranges with
  their merging, the CSV line splitter, the digit parsers, and the all-equal observer.
\<close>

section \<open>Counters, program counters, segments\<close>

datatype RW = RW (rw_r: u32) (rw_w: u32)

definition rw_plus :: "RW \<Rightarrow> RW \<Rightarrow> RW" where
  "rw_plus a b = RW (rw_r a + rw_r b) (rw_w a + rw_w b)"

definition rw_dump :: "RW \<Rightarrow> string" where
  "rw_dump x = ''('' @ dec (unat (rw_r x)) @ '', '' @ dec (unat (rw_w x)) @ '')''"

datatype PC = PC (pc_func: u16) (pc_inst: u16)

definition pc_null :: PC where
  "pc_null = PC (2 ^ 16 - 1) (2 ^ 16 - 1)"

definition pc_less :: "PC \<Rightarrow> PC \<Rightarrow> bool" where
  "pc_less a b =
     (if pc_func a < pc_func b then True
      else if pc_func a > pc_func b then False
      else pc_inst a < pc_inst b)"

definition pc_print :: "PC \<Rightarrow> string" where
  "pc_print p = dec (unat (pc_func p)) @ '' '' @ dec (unat (pc_inst p))"

definition pc_dump :: "PC \<Rightarrow> string" where
  "pc_dump p = ''('' @ dec (unat (pc_func p)) @ '', '' @ dec (unat (pc_inst p)) @ '')''"

text \<open>\<^verbatim>\<open>is >> pc.func >> pc.inst\<close>; a default-constructed \<open>PC\<close> starts as \<^const>\<open>pc_null\<close>.\<close>

definition pc_read :: "PC \<Rightarrow> istream \<Rightarrow> PC \<times> istream" where
  "pc_read p s =
     (let (f, s1) = extract_u (Some (pc_func p)) s;
          (i, s2) = extract_u (Some (pc_inst p)) s1
      in (PC (the f) (the i), s2))"

datatype Segment = Segment (seg_start: size_t) (seg_end: size_t)

definition seg_less :: "Segment \<Rightarrow> Segment \<Rightarrow> bool" where
  "seg_less a b \<longleftrightarrow>
     seg_start a < seg_start b \<or> (seg_start a = seg_start b \<and> seg_end a < seg_end b)"

definition overlap :: "Segment \<Rightarrow> Segment \<Rightarrow> bool" where
  "overlap a b \<longleftrightarrow>
     (seg_start a < seg_end b \<and> seg_end a > seg_start b) \<or>
     (seg_start b < seg_end a \<and> seg_end b > seg_start a)"

definition seg_print :: "Segment \<Rightarrow> string" where
  "seg_print s = dec (unat (seg_start s)) @ '' '' @ dec (unat (seg_end s))"

definition seg_read :: "Segment \<Rightarrow> istream \<Rightarrow> Segment \<times> istream" where
  "seg_read g s =
     (let (a, s1) = extract_u (Some (seg_start g)) s;
          (b, s2) = extract_u (Some (seg_end g)) s1
      in (Segment (the a) (the b), s2))"

definition seg_dump :: "Segment \<Rightarrow> string" where
  "seg_dump s = ''('' @ dec (unat (seg_start s)) @ '', '' @ dec (unat (seg_end s)) @ '')''"

definition shift_by :: "Segment \<Rightarrow> size_t \<Rightarrow> bool \<Rightarrow> Segment" where
  "shift_by s sz positive =
     (if positive then Segment (seg_start s + sz) (seg_end s + sz)
      else Segment (seg_start s - sz) (seg_end s - sz))"

definition touch :: "Segment \<Rightarrow> Segment \<Rightarrow> bool" where
  "touch a b \<longleftrightarrow> seg_end a = seg_start b"

fun merge_neighbors_loop :: "Segment \<Rightarrow> Segment list \<Rightarrow> Segment list \<Rightarrow> Segment list" where
  "merge_neighbors_loop lst [] ret = ret @ [lst]"
| "merge_neighbors_loop lst (s # segs) ret =
     (if touch lst s then merge_neighbors_loop (Segment (seg_start lst) (seg_end s)) segs ret
      else merge_neighbors_loop s segs (ret @ [lst]))"

fun merge_neighbors :: "Segment list \<Rightarrow> Segment list" where
  "merge_neighbors [] = []"
| "merge_neighbors (s # segs) = merge_neighbors_loop s segs []"

section \<open>Hashing\<close>

text \<open>\<^verbatim>\<open>std::hash\<close> is a parameter; \<open>s ^= h(v) + 0x9e3779b9 + (s << 6) + (s >> 2)\<close>.\<close>

definition hash_combine :: "('a \<Rightarrow> size_t) \<Rightarrow> size_t \<Rightarrow> 'a \<Rightarrow> size_t" where
  "hash_combine h s v = xor s (h v + 0x9e3779b9 + push_bit 6 s + drop_bit 2 s)"

definition hash_PC :: "(u16 \<Rightarrow> size_t) \<Rightarrow> PC \<Rightarrow> size_t" where
  "hash_PC h p = hash_combine h (hash_combine h 0 (pc_func p)) (pc_inst p)"

definition hash_Segment :: "(size_t \<Rightarrow> size_t) \<Rightarrow> Segment \<Rightarrow> size_t" where
  "hash_Segment h s = hash_combine h (hash_combine h 0 (seg_start s)) (seg_end s)"

definition hash_pair :: "('a \<Rightarrow> size_t) \<Rightarrow> ('b \<Rightarrow> size_t) \<Rightarrow> 'a \<times> 'b \<Rightarrow> size_t" where
  "hash_pair h1 h2 p = xor (h1 (fst p)) (h2 (snd p))"

section \<open>Splitting a CSV line and parsing numbers\<close>

text \<open>\<^verbatim>\<open>memchr\<close> from a start offset, and the string searches, as positions in the whole string.\<close>

definition find_from :: "char \<Rightarrow> nat \<Rightarrow> string \<Rightarrow> nat option" where
  "find_from c start s =
     (let n = length (takeWhile (\<lambda>x. x \<noteq> c) (drop start s))
      in if start + n < length s then Some (start + n) else None)"

text \<open>
  The loop of \<^verbatim>\<open>read_csv_line\<close> over the field slots; \<open>npos\<close> says that the previous field ended
  the line (\<^verbatim>\<open>end == std::string::npos\<close>).
\<close>

fun read_csv_fields :: "char \<Rightarrow> string \<Rightarrow> nat \<Rightarrow> nat \<Rightarrow> bool \<Rightarrow> string list result" where
  "read_csv_fields delim line 0 start npos = Inr []"
| "read_csv_fields delim line (Suc n) start npos =
     (if npos then Inl (InvalidArgument ''csv malformed'')
      else case find_from delim start line of
        None \<Rightarrow> bindE (read_csv_fields delim line n 0 True) (\<lambda>fs. Inr (drop start line # fs))
      | Some e \<Rightarrow> bindE (read_csv_fields delim line n (Suc e) False)
          (\<lambda>fs. Inr (take (e - start) (drop start line) # fs)))"

definition read_csv_line :: "nat \<Rightarrow> char \<Rightarrow> string \<Rightarrow> string list result" where
  "read_csv_line n_fields delim line = read_csv_fields delim line n_fields 0 False"

definition to_unsigned :: "string \<Rightarrow> 'a::len word" where
  "to_unsigned str = fold (\<lambda>c val. val * 10 + of_int (char_int c - 48)) str 0"

text \<open>\<^verbatim>\<open>to_signed<int>\<close>: signed overflow and \<^verbatim>\<open>front()\<close> of an empty view are undefined.\<close>

definition in_int :: "int \<Rightarrow> bool" where
  "in_int x \<longleftrightarrow> - (2 ^ 31) \<le> x \<and> x < 2 ^ 31"

definition to_signed_step :: "char \<Rightarrow> int \<Rightarrow> int result" where
  "to_signed_step c val =
     (if in_int (val * 10) \<and> in_int (val * 10 + (char_int c - 48))
      then Inr (val * 10 + (char_int c - 48)) else Inl (Undefined ''signed overflow''))"

definition to_signed :: "string \<Rightarrow> int result" where
  "to_signed str =
     (if str = [] then Inl (Undefined ''front of an empty view'')
      else let negative = (hd str = CHR ''-'') in
        bindE (foldE to_signed_step (if negative then tl str else str) 0)
          (\<lambda>val. if negative
             then (if in_int (- val) then Inr (- val) else Inl (Undefined ''signed overflow''))
             else Inr val))"

definition to_address :: "string \<Rightarrow> size_t result" where
  "to_address str =
     (if \<not> (length str > 2 \<and> str ! 0 = CHR ''0'' \<and> str ! 1 = CHR ''x'')
      then Inl (InvalidArgument ''Invalid address format'')
      else Inr (fold (\<lambda>c val. val * 16 +
          of_int (if char_int c \<ge> 97 then char_int c - 97 + 10 else char_int c - 48))
        (drop 2 str) 0))"

definition rfind :: "char \<Rightarrow> string \<Rightarrow> nat option" where
  "rfind c s =
     (case find_from c 0 (rev s) of None \<Rightarrow> None | Some i \<Rightarrow> Some (length s - 1 - i))"

definition insert_suffix :: "string \<Rightarrow> string \<Rightarrow> string" where
  "insert_suffix path suffix =
     (let slash = (case rfind (CHR ''/'') path of None \<Rightarrow> 0 | Some i \<Rightarrow> Suc i);
          basename = drop slash path
      in case find_from (CHR ''.'') 0 basename of
           None \<Rightarrow> path @ suffix
         | Some 0 \<Rightarrow> path @ suffix
         | Some (Suc d) \<Rightarrow> let dot = Suc d + slash in take dot path @ suffix @ drop dot path)"

section \<open>The all-equal observer\<close>

record 'a all_equal =
  ae_prev :: "'a option"
  ae_is_first :: bool
  ae_is_unequal :: bool

definition ae_init :: "'a all_equal" where
  "ae_init = \<lparr>ae_prev = None, ae_is_first = True, ae_is_unequal = False\<rparr>"

definition ae_next :: "'a \<Rightarrow> 'a all_equal \<Rightarrow> 'a all_equal" where
  "ae_next t s =
     (if ae_is_unequal s then s
      else if ae_is_first s then s\<lparr>ae_prev := Some t, ae_is_first := False\<rparr>
      else if Some t \<noteq> ae_prev s then s\<lparr>ae_is_unequal := True\<rparr>
      else s)"

definition ae_is_all_equal :: "'a all_equal \<Rightarrow> bool" where
  "ae_is_all_equal s \<longleftrightarrow> \<not> ae_is_unequal s"

section \<open>The orders and the sum as instances of the library's classes\<close>

instantiation RW :: comm_monoid_add
begin

definition zero_RW :: RW where
  "zero_RW = RW 0 0"

definition plus_RW :: "RW \<Rightarrow> RW \<Rightarrow> RW" where
  "plus_RW = rw_plus"

instance
  by standard (auto simp: zero_RW_def plus_RW_def rw_plus_def ac_simps)

end

instantiation PC :: linorder
begin

definition less_PC :: "PC \<Rightarrow> PC \<Rightarrow> bool" where
  "less_PC = pc_less"

definition less_eq_PC :: "PC \<Rightarrow> PC \<Rightarrow> bool" where
  "less_eq_PC a b \<longleftrightarrow> a = b \<or> pc_less a b"

instance
proof
  fix a b c :: PC
  show "(a < b) = (a \<le> b \<and> \<not> b \<le> a)"
    by (cases a; cases b) (auto simp: less_PC_def less_eq_PC_def pc_less_def split: if_splits)
  show "a \<le> a" by (simp add: less_eq_PC_def)
  show "a \<le> b \<Longrightarrow> b \<le> c \<Longrightarrow> a \<le> c"
    by (cases a; cases b; cases c) (auto simp: less_eq_PC_def pc_less_def split: if_splits)
  show "a \<le> b \<Longrightarrow> b \<le> a \<Longrightarrow> a = b"
    by (cases a; cases b) (auto simp: less_eq_PC_def pc_less_def split: if_splits)
  show "a \<le> b \<or> b \<le> a"
    by (cases a; cases b) (auto simp: less_eq_PC_def pc_less_def)
qed

end

instantiation Segment :: linorder
begin

definition less_Segment :: "Segment \<Rightarrow> Segment \<Rightarrow> bool" where
  "less_Segment = seg_less"

definition less_eq_Segment :: "Segment \<Rightarrow> Segment \<Rightarrow> bool" where
  "less_eq_Segment a b \<longleftrightarrow> a = b \<or> seg_less a b"

instance
proof
  fix a b c :: Segment
  show "(a < b) = (a \<le> b \<and> \<not> b \<le> a)"
    by (cases a; cases b) (auto simp: less_Segment_def less_eq_Segment_def seg_less_def)
  show "a \<le> a" by (simp add: less_eq_Segment_def)
  show "a \<le> b \<Longrightarrow> b \<le> c \<Longrightarrow> a \<le> c"
    by (cases a; cases b; cases c) (auto simp: less_eq_Segment_def seg_less_def)
  show "a \<le> b \<Longrightarrow> b \<le> a \<Longrightarrow> a = b"
    by (cases a; cases b) (auto simp: less_eq_Segment_def seg_less_def)
  show "a \<le> b \<or> b \<le> a"
    by (cases a; cases b) (auto simp: less_eq_Segment_def seg_less_def)
qed

end

lemma seg_le_start: "a \<le> b \<Longrightarrow> seg_start a \<le> seg_start b"
  by (auto simp: less_eq_Segment_def seg_less_def)

lemma rw_plus_sel [simp]: "rw_r (a + b) = rw_r a + rw_r b" "rw_w (a + b) = rw_w a + rw_w b"
  by (simp_all add: plus_RW_def rw_plus_def)

lemma rw_zero_sel [simp]: "rw_r 0 = 0" "rw_w 0 = 0"
  by (simp_all add: zero_RW_def)

section \<open>Segments as sets of bytes\<close>

definition seg_bytes :: "Segment \<Rightarrow> size_t set" where
  "seg_bytes s = {seg_start s ..< seg_end s}"

definition seg_wf :: "Segment \<Rightarrow> bool" where
  "seg_wf s \<longleftrightarrow> seg_start s < seg_end s"

text \<open>On non-empty segments the test in the code is the intersection of the byte sets.\<close>

lemma overlap_bytes:
  assumes "seg_wf a" "seg_wf b"
  shows "overlap a b \<longleftrightarrow> seg_bytes a \<inter> seg_bytes b \<noteq> {}"
proof
  assume "overlap a b"
  then have "max (seg_start a) (seg_start b) \<in> seg_bytes a \<inter> seg_bytes b"
    using assms by (auto simp: overlap_def seg_bytes_def seg_wf_def max_def)
  then show "seg_bytes a \<inter> seg_bytes b \<noteq> {}" by blast
next
  assume "seg_bytes a \<inter> seg_bytes b \<noteq> {}"
  then obtain x where "x \<in> seg_bytes a" "x \<in> seg_bytes b" by blast
  then show "overlap a b"
    by (auto simp: overlap_def seg_bytes_def intro: le_less_trans)
qed

lemma merge_neighbors_loop_append:
  "merge_neighbors_loop lst segs ret = ret @ merge_neighbors_loop lst segs []"
proof (induction segs arbitrary: lst ret)
  case (Cons s segs)
  show ?case
    using Cons.IH[of s "ret @ [lst]"] Cons.IH[of s "[lst]"] Cons.IH[of _ ret]
    by (simp del: append_assoc add: append_assoc[symmetric])
qed simp

lemma merge_neighbors_Cons2:
  "merge_neighbors (a # b # segs) =
     (if touch a b then merge_neighbors (Segment (seg_start a) (seg_end b) # segs)
      else a # merge_neighbors (b # segs))"
  using merge_neighbors_loop_append[of b segs "[a]"] by simp

lemma merge_neighbors_single: "merge_neighbors [a] = [a]"
  by simp

lemmas merge_neighbors_rec = merge_neighbors.simps(1) merge_neighbors_single merge_neighbors_Cons2

declare merge_neighbors.simps [simp del]

lemma merge_neighbors_induct [case_names Nil Single Touch Apart]:
  assumes "P []" "\<And>a. P [a]"
    and "\<And>a b segs. touch a b \<Longrightarrow> P (Segment (seg_start a) (seg_end b) # segs) \<Longrightarrow> P (a # b # segs)"
    and "\<And>a b segs. \<not> touch a b \<Longrightarrow> P (b # segs) \<Longrightarrow> P (a # b # segs)"
  shows "P segs"
proof (induction segs rule: length_induct)
  case (1 segs)
  show ?case
  proof (cases segs)
    case Nil
    with assms(1) show ?thesis by simp
  next
    case (Cons a rest)
    show ?thesis
    proof (cases rest)
      case Nil
      with Cons assms(2) show ?thesis by simp
    next
      case (Cons b tail)
      then show ?thesis
        using 1 \<open>segs = a # rest\<close> assms(3)[of a b tail] assms(4)[of a b tail] by (cases "touch a b") auto
    qed
  qed
qed

lemma merge_neighbors_wf:
  "\<forall>s \<in> set segs. seg_wf s \<Longrightarrow> \<forall>s \<in> set (merge_neighbors segs). seg_wf s"
proof (induction segs rule: merge_neighbors_induct)
  case (Touch a b segs)
  then have "seg_wf (Segment (seg_start a) (seg_end b))"
    by (auto simp: seg_wf_def touch_def)
  with Touch show ?case by (simp add: merge_neighbors_rec)
qed (auto simp: merge_neighbors_rec)

lemma merge_neighbors_bytes:
  "\<forall>s \<in> set segs. seg_wf s \<Longrightarrow>
   (\<Union>s \<in> set (merge_neighbors segs). seg_bytes s) = (\<Union>s \<in> set segs. seg_bytes s)"
proof (induction segs rule: merge_neighbors_induct)
  case (Touch a b segs)
  then have "seg_wf (Segment (seg_start a) (seg_end b))"
    and "seg_bytes (Segment (seg_start a) (seg_end b)) = seg_bytes a \<union> seg_bytes b"
    by (auto simp: seg_wf_def touch_def seg_bytes_def)
  with Touch show ?case by (simp add: merge_neighbors_rec Un_assoc)
qed (auto simp: merge_neighbors_rec)

lemma merge_neighbors_contains:
  "\<forall>s \<in> set segs. seg_wf s \<Longrightarrow> s \<in> set segs \<Longrightarrow>
   \<exists>t \<in> set (merge_neighbors segs). seg_start t \<le> seg_start s \<and> seg_end s \<le> seg_end t"
proof (induction segs arbitrary: s rule: merge_neighbors_induct)
  case (Touch a b segs)
  let ?m = "Segment (seg_start a) (seg_end b)"
  have wf: "seg_wf ?m" and b: "seg_start a \<le> seg_start b" "seg_end a \<le> seg_end b"
    using Touch.prems(1) Touch.hyps by (auto simp: seg_wf_def touch_def)
  show ?case
  proof (cases "s = a \<or> s = b")
    case True
    obtain t where "t \<in> set (merge_neighbors (?m # segs))" "seg_start t \<le> seg_start a" "seg_end b \<le> seg_end t"
      using Touch.IH[of ?m] wf Touch.prems(1) by auto
    with True b Touch.hyps show ?thesis
      by (auto simp: merge_neighbors_rec intro!: bexI[of _ t] order_trans[OF _ b(1)] order_trans[OF b(2)])
  next
    case False
    with Touch wf show ?thesis by (simp add: merge_neighbors_rec)
  qed
qed (auto simp: merge_neighbors_rec)

lemma merge_neighbors_hd: "\<exists>e. hd (merge_neighbors (a # segs)) = Segment (seg_start a) e"
proof (induction "a # segs" arbitrary: a segs rule: merge_neighbors_induct)
  case (Single a)
  then show ?case by (cases a) (simp add: merge_neighbors_rec)
next
  case (Apart a b segs)
  then show ?case by (cases a) (simp add: merge_neighbors_rec)
qed (auto simp: merge_neighbors_rec)

lemma merge_neighbors_nonempty: "merge_neighbors segs = [] \<longleftrightarrow> segs = []"
  by (induction segs rule: merge_neighbors_induct) (auto simp: merge_neighbors_rec)

lemma merge_neighbors_apart: "successively (\<lambda>a b. \<not> touch a b) (merge_neighbors segs)"
proof (induction segs rule: merge_neighbors_induct)
  case (Apart a b segs)
  obtain e where "hd (merge_neighbors (b # segs)) = Segment (seg_start b) e"
    using merge_neighbors_hd by blast
  with Apart show ?case
    by (cases "merge_neighbors (b # segs)") (auto simp: merge_neighbors_rec touch_def)
qed (auto simp: merge_neighbors_rec)

section \<open>The CSV splitter against splitting at every delimiter\<close>

fun split_on :: "char \<Rightarrow> string \<Rightarrow> string list" where
  "split_on d [] = [[]]"
| "split_on d (c # s) =
     (if c = d then [] # split_on d s
      else (c # hd (split_on d s)) # tl (split_on d s))"

lemma split_on_nonempty [simp]: "split_on d s \<noteq> []"
  by (induction s) auto

lemma split_on_no_delim: "d \<notin> set s \<Longrightarrow> split_on d s = [s]"
  by (induction s) auto

lemma split_on_append_delim: "d \<notin> set s \<Longrightarrow> split_on d (s @ d # t) = s # split_on d t"
  by (induction s) auto

lemma find_from_Some:
  assumes "start \<le> length s" "c \<in> set (drop start s)"
  obtains f t where "find_from c start s = Some (start + length f)" "drop start s = f @ c # t" "c \<notin> set f"
proof -
  let ?f = "takeWhile (\<lambda>x. x \<noteq> c) (drop start s)"
  let ?t = "dropWhile (\<lambda>x. x \<noteq> c) (drop start s)"
  have eq: "drop start s = ?f @ ?t" by simp
  have "?t \<noteq> []" using assms(2) by (auto simp: dropWhile_eq_Nil_conv)
  then obtain t where t: "?t = c # t"
    using hd_dropWhile[of "\<lambda>x. x \<noteq> c" "drop start s"] by (cases ?t) auto
  have "length (drop start s) = length ?f + length ?t"
    using arg_cong[OF eq, of length] by (simp only: length_append)
  then have "length s - start = length ?f + Suc (length t)"
    by (simp only: t list.size(4) length_drop add_Suc_right add_0_right)
  then have "start + length ?f < length s" using assms(1) by linarith
  then have "find_from c start s = Some (start + length ?f)"
    by (simp add: find_from_def Let_def)
  moreover have "c \<notin> set ?f" by (auto dest: set_takeWhileD)
  ultimately show thesis using that[of ?f t] eq t by metis
qed

lemma find_from_None:
  assumes "start \<le> length s" "c \<notin> set (drop start s)"
  shows "find_from c start s = None"
proof -
  have "takeWhile (\<lambda>x. x \<noteq> c) (drop start s) = drop start s"
    using assms(2) by (auto simp: takeWhile_eq_all_conv)
  then have "length (takeWhile (\<lambda>x. x \<noteq> c) (drop start s)) = length s - start"
    by (simp only: length_drop)
  then have "start + length (takeWhile (\<lambda>x. x \<noteq> c) (drop start s)) = length s"
    using assms(1) by linarith
  then show ?thesis unfolding find_from_def Let_def by simp
qed

lemma read_csv_fields_split:
  "start \<le> length line \<Longrightarrow>
   read_csv_fields d line n start False =
     (if n \<le> length (split_on d (drop start line)) then Inr (take n (split_on d (drop start line)))
      else Inl (InvalidArgument ''csv malformed''))"
proof (induction n arbitrary: start)
  case (Suc n)
  show ?case
  proof (cases "d \<in> set (drop start line)")
    case True
    then obtain f t where f: "find_from d start line = Some (start + length f)"
      "drop start line = f @ d # t" "d \<notin> set f"
      using Suc.prems find_from_Some by blast
    have "length (drop start line) = length f + Suc (length t)" by (simp only: f(2)) simp
    then have le: "Suc (start + length f) \<le> length line"
      using Suc.prems by simp
    have "drop (Suc (length f)) (drop start line) = t" by (simp only: f(2)) simp
    then have t: "drop (Suc (start + length f)) line = t" by (simp add: add.commute)
    show ?thesis
      using Suc.IH[OF le] f by (simp add: t split_on_append_delim)
  next
    case False
    then show ?thesis
      using Suc.prems by (cases n) (auto simp: find_from_None split_on_no_delim)
  qed
qed simp

lemma read_csv_line_split:
  "read_csv_line n d line =
     (if n \<le> length (split_on d line) then Inr (take n (split_on d line))
      else Inl (InvalidArgument ''csv malformed''))"
  by (simp add: read_csv_line_def read_csv_fields_split)

text \<open>A line that was joined from delimiter-free fields splits into them.\<close>

fun csv_join :: "char \<Rightarrow> string list \<Rightarrow> string" where
  "csv_join d [] = []"
| "csv_join d [f] = f"
| "csv_join d (f # g # fs) = f @ d # csv_join d (g # fs)"

lemma split_on_csv_join:
  "fs \<noteq> [] \<Longrightarrow> (\<forall>f \<in> set fs. d \<notin> set f) \<Longrightarrow> split_on d (csv_join d fs) = fs"
  by (induction d fs rule: csv_join.induct) (auto simp: split_on_no_delim split_on_append_delim)

section \<open>Parsing the digits that were printed\<close>

lemma char_int_digit: "is_digit c \<Longrightarrow> char_int c - 48 = int (digit_val c)"
proof -
  assume d: "is_digit c"
  have "(of_char c :: int) = int (of_char c :: nat)" by (simp add: of_nat_of_char)
  with d show ?thesis by (simp add: char_int_def is_digit_def digit_val_def)
qed

lemma to_unsigned_digits:
  "\<forall>c \<in> set ds. is_digit c \<Longrightarrow> to_unsigned ds = (word_of_nat (dec_val ds) :: 'a::len word)"
proof (induction ds rule: rev_induct)
  case (snoc c ds)
  then have "to_unsigned ds = (word_of_nat (dec_val ds) :: 'a word)" by simp
  moreover have "to_unsigned (ds @ [c]) = (to_unsigned ds * 10 + of_int (char_int c - 48) :: 'a word)"
    by (simp add: to_unsigned_def)
  ultimately show ?case
    using snoc.prems by (simp only: dec_val_append) (simp add: char_int_digit)
qed (simp add: to_unsigned_def dec_val_def)

lemma to_unsigned_dec: "to_unsigned (dec n) = (word_of_nat n :: 'a::len word)"
  by (simp add: to_unsigned_digits dec_digits)

lemma dec_val_snoc_le: "dec_val ds \<le> dec_val (ds @ [c])"
  by (simp add: dec_val_append)

lemma to_signed_digits:
  "\<forall>c \<in> set ds. is_digit c \<Longrightarrow> dec_val ds < 2 ^ 31 \<Longrightarrow> foldE to_signed_step ds 0 = Inr (int (dec_val ds))"
proof (induction ds rule: rev_induct)
  case (snoc c ds)
  have "dec_val ds < 2 ^ 31" using dec_val_snoc_le[of ds c] snoc.prems(2) by linarith
  then have IH: "foldE to_signed_step ds 0 = Inr (int (dec_val ds))"
    using snoc by simp
  have "int (dec_val ds) * 10 + int (digit_val c) < 2 ^ 31"
    using snoc.prems(2) by (simp add: dec_val_append)
  moreover have "char_int c - 48 = int (digit_val c)"
    using snoc.prems(1) by (intro char_int_digit) simp
  ultimately have "to_signed_step c (int (dec_val ds)) = Inr (int (dec_val ds) * 10 + int (digit_val c))"
    unfolding to_signed_step_def by (simp add: in_int_def)
  then show ?case
    by (simp add: foldE_append IH dec_val_append)
qed (simp add: dec_val_def)

lemma to_signed_dec: "n < 2 ^ 31 \<Longrightarrow> to_signed (dec n) = Inr (int n)"
  using is_digit_not_sign[OF hd_dec_digit[of n]]
  by (simp add: to_signed_def to_signed_digits dec_digits)

lemma to_signed_neg_dec: "n < 2 ^ 31 \<Longrightarrow> to_signed (CHR ''-'' # dec n) = Inr (- int n)"
  by (simp add: to_signed_def to_signed_digits dec_digits in_int_def)

text \<open>\<^verbatim>\<open>printf("%p")\<close>: the GNU library prints the null pointer as \<^verbatim>\<open>(nil)\<close>.\<close>

definition print_ptr :: "size_t \<Rightarrow> string" where
  "print_ptr a = (if a = 0 then ''(nil)'' else ''0x'' @ print_base 16 (unat a))"

definition hex_val :: "char \<Rightarrow> int" where
  "hex_val c = (if char_int c \<ge> 97 then char_int c - 97 + 10 else char_int c - 48)"

lemma char_int_char_of: "n < 128 \<Longrightarrow> char_int (char_of n) = int n"
proof -
  assume n: "n < 128"
  then have "(of_char (char_of n :: char) :: nat) = n" by simp
  moreover have "(of_char (char_of n :: char) :: int) = int (of_char (char_of n :: char) :: nat)"
    by (simp only: of_nat_of_char)
  ultimately have "(of_char (char_of n :: char) :: int) = int n" by simp
  with n show ?thesis by (simp add: char_int_def)
qed

lemma hex_val_digit_char: "d < 16 \<Longrightarrow> hex_val (digit_char d) = int d"
  by (auto simp: hex_val_def digit_char_def char_int_char_of)

lemma hex_digits_value:
  "fold (\<lambda>c val. val * 16 + of_int (hex_val c)) (print_base 16 n) 0 = (word_of_nat n :: size_t)"
proof (induction n rule: less_induct)
  case (less n)
  show ?case
  proof (cases "n < 16")
    case True
    then show ?thesis by (subst print_base.simps) (simp add: hex_val_digit_char)
  next
    case False
    then have IH: "fold (\<lambda>c val. val * 16 + of_int (hex_val c)) (print_base 16 (n div 16)) 0 =
        (word_of_nat (n div 16) :: size_t)"
      by (intro less.IH) auto
    have n: "n = n div 16 * 16 + n mod 16" by simp
    have eq: "print_base 16 n = print_base 16 (n div 16) @ [digit_char (n mod 16)]"
      using False by (subst print_base.simps) simp
    have "fold (\<lambda>c val. val * 16 + of_int (hex_val c)) (print_base 16 n) 0 =
        (word_of_nat (n div 16) * 16 + word_of_nat (n mod 16) :: size_t)"
      by (simp add: eq IH hex_val_digit_char)
    also have "\<dots> = word_of_nat (n div 16 * 16 + n mod 16)" by (simp only: of_nat_add of_nat_mult of_nat_numeral)
    finally show ?thesis by (simp only: n[symmetric])
  qed
qed

lemma to_address_print_ptr:
  assumes "a \<noteq> 0"
  shows "to_address (print_ptr a) = Inr a"
proof -
  have "0 < length (print_base 16 (unat a))" by simp
  moreover have "fold (\<lambda>c val. val * 16 +
        of_int (if char_int c \<ge> 97 then char_int c - 97 + 10 else char_int c - 48))
      (print_base 16 (unat a)) 0 = a"
    using hex_digits_value[of "unat a"] by (simp add: hex_val_def)
  ultimately show ?thesis
    using assms by (simp add: to_address_def print_ptr_def)
qed

lemma to_address_nil: "to_address (print_ptr 0) = Inl (InvalidArgument ''Invalid address format'')"
  by (simp add: to_address_def print_ptr_def)

section \<open>The observer sees whether all values agree\<close>

lemma ae_fold_started:
  "ae_prev s = Some p \<Longrightarrow> \<not> ae_is_first s \<Longrightarrow>
   ae_is_all_equal (fold ae_next xs s) \<longleftrightarrow> ae_is_all_equal s \<and> (\<forall>x \<in> set xs. x = p)"
proof (induction xs arbitrary: s)
  case (Cons x xs)
  then show ?case by (cases "x = p") (auto simp: ae_next_def ae_is_all_equal_def)
qed simp

lemma ae_all_equal: "ae_is_all_equal (fold ae_next xs ae_init) \<longleftrightarrow> (\<forall>x \<in> set xs. x = hd xs)"
proof (cases xs)
  case (Cons x ys)
  let ?s = "\<lparr>ae_prev = Some x, ae_is_first = False, ae_is_unequal = False\<rparr>"
  have "ae_next x ae_init = ?s" by (simp add: ae_next_def ae_init_def)
  moreover have "ae_is_all_equal (fold ae_next ys ?s) \<longleftrightarrow> (\<forall>y \<in> set ys. y = x)"
    using ae_fold_started[of ?s x ys] by (simp add: ae_is_all_equal_def)
  ultimately show ?thesis by (simp add: Cons)
qed (simp add: ae_init_def ae_is_all_equal_def)

end
