(* ===== verification/PP_Detect.thy ===== *)
theory PP_Detect
  imports PP_Utils
begin

text \<open>
  The detection pass of the post-processor, \<^verbatim>\<open>postprocess/Detect.cpp\<close>, \<^verbatim>\<open>Detect.h\<close> and
  \<^verbatim>\<open>Stats.h\<close>: it reads the access log and the allocation table, groups the accesses by
  allocation and byte range, spreads the ranges over cache lines, estimates the false sharing of
  every line from groups of equal thread sets, and hands the ranges of the allocations that pass
  the threshold to the repair pass.

  Files are lists of lines. The iteration order of the two \<^verbatim>\<open>std::unordered_map\<close>s and of the
  \<^verbatim>\<open>std::unordered_multimap\<close> whose order can be seen in a result is a parameter,
  \<open>hash_order\<close>; the standard only says that it is some permutation.
\<close>

section \<open>Input records\<close>

record log_record =
  lr_addr :: size_t
  lr_m_id :: int
  lr_thread :: u16
  lr_size :: u16
  lr_pc :: PC
  lr_rw :: RW

definition log_record_init :: log_record where
  "log_record_init =
     \<lparr>lr_addr = 0, lr_m_id = 0, lr_thread = 0, lr_size = 0, lr_pc = PC 0 0, lr_rw = RW 0 0\<rparr>"

text \<open>\<^verbatim>\<open>operator>>\<close> for one delivered line: an empty line leaves the record as it was.\<close>

definition read_record :: "string \<Rightarrow> log_record \<Rightarrow> log_record result" where
  "read_record line rec =
     (if line = [] then Inr rec
      else bindE (read_csv_line 9 (CHR '','') line) (\<lambda>fields.
           bindE (to_address (fields ! 1)) (\<lambda>addr.
           bindE (to_signed (fields ! 2)) (\<lambda>m_id.
             Inr \<lparr>lr_addr = addr, lr_m_id = m_id,
                  lr_thread = to_unsigned (fields ! 0), lr_size = to_unsigned (fields ! 6),
                  lr_pc = PC (to_unsigned (fields ! 4)) (to_unsigned (fields ! 5)),
                  lr_rw = RW (to_unsigned (fields ! 7)) (to_unsigned (fields ! 8))\<rparr>))))"

record malloc_info =
  mi_start :: size_t
  mi_size :: size_t
  mi_pc :: PC
  mi_id :: int

definition malloc_info_init :: malloc_info where
  "malloc_info_init = \<lparr>mi_start = 0, mi_size = 0, mi_pc = PC 0 0, mi_id = 0\<rparr>"

definition read_malloc :: "string \<Rightarrow> malloc_info \<Rightarrow> malloc_info result" where
  "read_malloc line mal =
     (if line = [] then Inr mal
      else bindE (read_csv_line 5 (CHR '','') line) (\<lambda>fields.
           bindE (to_signed (fields ! 0)) (\<lambda>id.
           bindE (to_signed (fields ! 3)) (\<lambda>func.
             Inr \<lparr>mi_start = to_unsigned (fields ! 1), mi_size = to_unsigned (fields ! 2),
                  mi_pc = (if func = - 1 then pc_null
                           else PC (to_unsigned (fields ! 3)) (to_unsigned (fields ! 4))),
                  mi_id = id\<rparr>))))"

section \<open>The accesses to one byte range\<close>

record addr_record =
  ar_thread_rw :: "(u32 \<times> RW) list"
  ar_pc_rw :: "(PC \<times> RW) list"
  ar_pc_threads :: "(PC \<times> u32) list"
  ar_range :: Segment
  ar_malloc_start :: size_t
  ar_malloc_id :: int

definition add_record :: "log_record \<Rightarrow> addr_record \<Rightarrow> addr_record" where
  "add_record rec ar =
     ar\<lparr>ar_thread_rw := umap_alter (ucast (lr_thread rec)) (\<lambda>rw. rw_plus rw (lr_rw rec)) (RW 0 0) (ar_thread_rw ar),
        ar_pc_rw := umap_alter (lr_pc rec) (\<lambda>rw. rw_plus rw (lr_rw rec)) (RW 0 0) (ar_pc_rw ar),
        ar_pc_threads := ar_pc_threads ar @ [(lr_pc rec, ucast (lr_thread rec))]\<rparr>"

definition mk_addr_record :: "Segment \<Rightarrow> int \<Rightarrow> size_t \<Rightarrow> log_record list \<Rightarrow> addr_record" where
  "mk_addr_record rng m_id m_start records =
     fold add_record records
       \<lparr>ar_thread_rw = [], ar_pc_rw = [], ar_pc_threads = [],
        ar_range = rng, ar_malloc_start = m_start, ar_malloc_id = m_id\<rparr>"

text \<open>\<^verbatim>\<open>CACHELINE_BIT\<close> is 6.\<close>

definition cachelines :: "addr_record \<Rightarrow> size_t \<times> size_t" where
  "cachelines ar =
     (let addr_start = ar_malloc_start ar + seg_start (ar_range ar);
          addr_end_incl = ar_malloc_start ar + seg_end (ar_range ar) - 1
      in (drop_bit 6 addr_start, drop_bit 6 addr_end_incl))"

definition get_thread_ids :: "addr_record \<Rightarrow> bool list" where
  "get_thread_ids ar =
     (let max_th = fold (\<lambda>p m. max m (fst p)) (ar_thread_rw ar) 0
      in fold (\<lambda>p threads. threads[unat (fst p) := True]) (ar_thread_rw ar)
           (replicate (unat (max_th + 1)) False))"

definition get_total_rw :: "addr_record list \<Rightarrow> RW" where
  "get_total_rw records =
     fold (\<lambda>rec ret. fold (\<lambda>p ret. rw_plus ret (snd p)) (ar_thread_rw rec) ret) records (RW 0 0)"

definition get_total_rw_excluding :: "addr_record list \<Rightarrow> bool list \<Rightarrow> RW" where
  "get_total_rw_excluding records exclude_threads =
     fold (\<lambda>rec ret. fold (\<lambda>p ret.
         if length exclude_threads \<le> unat (fst p) \<or> \<not> exclude_threads ! unat (fst p)
         then rw_plus ret (snd p) else ret) (ar_thread_rw rec) ret) records (RW 0 0)"

section \<open>One cache line\<close>

record graph_group =
  gg_threads :: "bool list"
  gg_records :: "addr_record list"

record hash_order =
  ho_bucket :: "(Segment \<times> log_record list) list \<Rightarrow> (Segment \<times> log_record list) list"
  ho_groups :: "(bool list \<times> addr_record list) list \<Rightarrow> (bool list \<times> addr_record list) list"
  ho_pc_threads :: "(PC \<times> u32) list \<Rightarrow> (PC \<times> u32) list"

text \<open>The sum and the minimum are formed in 32 bits, the result is widened.\<close>

definition rhs_rw_suffer_from_lhs :: "graph_group \<Rightarrow> graph_group \<Rightarrow> size_t" where
  "rhs_rw_suffer_from_lhs lhs rhs =
     (let lhs_rw = get_total_rw (gg_records lhs);
          rhs_minus_lhs_rw = get_total_rw_excluding (gg_records rhs) (gg_threads lhs)
      in ucast (min (rw_w lhs_rw) (rw_r rhs_minus_lhs_rw + rw_w rhs_minus_lhs_rw)))"

definition thread_groups :: "hash_order \<Rightarrow> addr_record list \<Rightarrow> graph_group list" where
  "thread_groups ho v =
     (let grouping_map = fold (\<lambda>rec. umap_alter (get_thread_ids rec) (\<lambda>rs. rs @ [rec]) []) v []
      in map (\<lambda>p. \<lparr>gg_threads = fst p, gg_records = snd p\<rparr>) (ho_groups ho grouping_map))"

fun estm_loop :: "size_t \<Rightarrow> graph_group list \<Rightarrow> size_t" where
  "estm_loop total_rw [] = total_rw"
| "estm_loop total_rw (gi # groups) =
     estm_loop (total_rw + fold (\<lambda>gj max_rw. max max_rw
         (max (rhs_rw_suffer_from_lhs gi gj) (rhs_rw_suffer_from_lhs gj gi))) groups 0) groups"

definition estm_false_sharing :: "hash_order \<Rightarrow> addr_record list \<Rightarrow> size_t" where
  "estm_false_sharing ho records = estm_loop 0 (thread_groups ho records)"

record graph =
  g_clid :: size_t
  g_estm_fs :: size_t
  g_records :: "addr_record list"

definition mk_graph :: "hash_order \<Rightarrow> size_t \<times> addr_record list \<Rightarrow> graph" where
  "mk_graph ho p =
     (let records = sort_key ar_range (snd p)
      in \<lparr>g_clid = fst p, g_estm_fs = estm_false_sharing ho records, g_records = records\<rparr>)"

section \<open>One allocation\<close>

record malloc_storage =
  ms_records :: "addr_record list"
  ms_graphs :: "graph list"
  ms_minfo :: malloc_info
  ms_malloc_fs :: size_t
  ms_m_id :: int

text \<open>\<^verbatim>\<open>for (size_t i = lo; i <= hi; i++)\<close> for a bound below the maximum.\<close>

definition size_range :: "size_t \<Rightarrow> size_t \<Rightarrow> size_t list" where
  "size_range lo hi = map word_of_nat [unat lo ..< Suc (unat hi)]"

definition push_cachelines ::
  "addr_record \<Rightarrow> (size_t \<times> addr_record list) list \<Rightarrow> (size_t \<times> addr_record list) list result" where
  "push_cachelines rec cls =
     (let (lo, hi) = cachelines rec
      in bindE (guardE (lo \<le> hi) (AssertFail ''cls.first <= cls.second''))
           (\<lambda>_. Inr (fold (\<lambda>i. smap_alter i (\<lambda>rs. rs @ [rec]) []) (size_range lo hi) cls)))"

definition calc_graphs :: "hash_order \<Rightarrow> size_t \<Rightarrow> malloc_storage \<Rightarrow> malloc_storage result" where
  "calc_graphs ho threshold ms =
     bindE (foldE push_cachelines (ms_records ms) []) (\<lambda>cls.
       let cls' = map (\<lambda>p. (fst p, sort_key ar_range (snd p))) cls;
           graphs = sort_key g_clid (map (mk_graph ho) cls');
           malloc_fs = fold (\<lambda>g acc. acc + g_estm_fs g) graphs 0
       in Inr (ms\<lparr>ms_malloc_fs := malloc_fs,
                  ms_graphs := filter (\<lambda>g. \<not> g_estm_fs g < threshold) graphs\<rparr>))"

text \<open>The ranges that \<^verbatim>\<open>find_overlap\<close> warns about: neighbours in iteration order.\<close>

fun find_overlap :: "(Segment \<times> log_record list) list \<Rightarrow> (Segment \<times> Segment) list" where
  "find_overlap (p # q # ps) =
     (if overlap (fst p) (fst q) then [(fst p, fst q)] else []) @ find_overlap (q # ps)"
| "find_overlap ps = []"

definition mk_malloc_storage ::
  "hash_order \<Rightarrow> int \<Rightarrow> malloc_info \<Rightarrow> (Segment \<times> log_record list) list \<Rightarrow> size_t \<Rightarrow> malloc_storage result" where
  "mk_malloc_storage ho m_id m bucket graph_threshold =
     (let m_start = mi_start m;
          records = map (\<lambda>p. mk_addr_record (shift_by (fst p) m_start False) m_id m_start (snd p))
            (ho_bucket ho bucket)
      in calc_graphs ho graph_threshold
           \<lparr>ms_records = records, ms_graphs = [], ms_minfo = m, ms_malloc_fs = 0, ms_m_id = m_id\<rparr>)"

definition ms_valid :: "malloc_storage \<Rightarrow> bool" where
  "ms_valid ms \<longleftrightarrow> ms_graphs ms \<noteq> []"

type_synonym rec_t = "Segment \<times> PC \<times> size_t"

definition ms_api_output :: "hash_order \<Rightarrow> malloc_storage \<Rightarrow> rec_t list" where
  "ms_api_output ho ms =
     concat (map (\<lambda>rec. map (\<lambda>p. (ar_range rec, fst p, ucast (snd p))) (ho_pc_threads ho (ar_pc_threads rec)))
       (ms_records ms))"

section \<open>The pass\<close>

type_synonym bins = "(int \<times> (Segment \<times> log_record list) list) list"

definition read_mallocs_step ::
  "string \<Rightarrow> malloc_info \<times> (int \<times> malloc_info) list \<Rightarrow> (malloc_info \<times> (int \<times> malloc_info) list) result" where
  "read_mallocs_step line st =
     bindE (read_malloc line (fst st)) (\<lambda>m. Inr (m, smap_put (mi_id m) m (snd st)))"

abbreviation record_key :: "log_record \<Rightarrow> Segment" where
  "record_key r \<equiv> Segment (lr_addr r) (lr_addr r + ucast (lr_size r))"

definition bin_record :: "log_record \<Rightarrow> bins \<Rightarrow> bins" where
  "bin_record r = smap_alter (lr_m_id r) (umap_alter (record_key r) (\<lambda>rs. rs @ [r]) []) []"

definition read_log_step :: "string \<Rightarrow> log_record \<times> bins \<Rightarrow> (log_record \<times> bins) result" where
  "read_log_step line st =
     bindE (read_record line (fst st)) (\<lambda>r. Inr (r, bin_record r (snd st)))"

definition analyse_malloc ::
  "hash_order \<Rightarrow> size_t \<Rightarrow> (int \<times> malloc_info) list \<Rightarrow> int \<times> (Segment \<times> log_record list) list \<Rightarrow>
   (int \<times> malloc_storage) list \<Rightarrow> (int \<times> malloc_storage) list result" where
  "analyse_malloc ho threshold mallocs p data =
     bindE (mk_malloc_storage ho (fst p) (value_or malloc_info_init (map_of mallocs (fst p))) (snd p) threshold)
       (\<lambda>mst. Inr (if ms_valid mst then smap_emplace (fst p) mst data else data))"

definition detect_compute ::
  "hash_order \<Rightarrow> size_t \<Rightarrow> string list \<Rightarrow> string list \<Rightarrow> (int \<times> malloc_storage) list result" where
  "detect_compute ho threshold malloc_lines log_lines =
     bindE (foldE read_mallocs_step malloc_lines (malloc_info_init, [])) (\<lambda>ms.
     bindE (foldE read_log_step log_lines (log_record_init, [])) (\<lambda>ls.
       foldE (analyse_malloc ho threshold (snd ms)) (snd ls) []))"

text \<open>\<^verbatim>\<open>FSRankStat\<close>: a map from the estimate to the allocation, printed from the largest estimate down.\<close>

definition fsr_emplace :: "size_t \<Rightarrow> int \<Rightarrow> (size_t \<times> int) list \<Rightarrow> (size_t \<times> int) list" where
  "fsr_emplace fs mloc = smap_emplace fs mloc"

definition print_int :: "int \<Rightarrow> string" where
  "print_int i = (if i < 0 then CHR ''-'' # dec (nat (- i)) else dec (nat i))"

definition fsr_print :: "(size_t \<times> int) list \<Rightarrow> string" where
  "fsr_print m =
     concat (map (\<lambda>p. ''#'' @ dec (unat (fst p)) @ ''@'' @ print_int (snd p) @ [newline]) (rev m))"

definition detect_fs_rank :: "(int \<times> malloc_storage) list \<Rightarrow> (size_t \<times> int) list" where
  "detect_fs_rank data = fold (\<lambda>p. fsr_emplace (ms_malloc_fs (snd p)) (fst p)) data []"

record malloc_output =
  mo_accesses :: "rec_t list"
  mo_pc :: PC
  mo_size :: size_t

definition detect_api_output :: "hash_order \<Rightarrow> (int \<times> malloc_storage) list \<Rightarrow> malloc_output list" where
  "detect_api_output ho data =
     map (\<lambda>p. \<lparr>mo_accesses = ms_api_output ho (snd p),
               mo_pc = mi_pc (ms_minfo (snd p)), mo_size = mi_size (ms_minfo (snd p))\<rparr>) data"

definition rec_print :: "rec_t \<Rightarrow> string" where
  "rec_print p = seg_print (fst p) @ '' '' @ pc_print (fst (snd p)) @ '' '' @
     dec (unat (snd (snd p))) @ [newline]"

definition mo_print :: "malloc_output \<Rightarrow> string" where
  "mo_print mo =
     pc_print (mo_pc mo) @ '' '' @ dec (unat (mo_size mo)) @ '' '' @ dec (length (mo_accesses mo)) @ [newline] @
     concat (map rec_print (mo_accesses mo))"

definition detect_print_result :: "hash_order \<Rightarrow> (int \<times> malloc_storage) list \<Rightarrow> string" where
  "detect_print_result ho data =
     (let apit = detect_api_output ho data
      in dec (length apit) @ [newline] @ concat (map mo_print apit))"

text \<open>
  \<^verbatim>\<open>operator>>\<close> for \<^verbatim>\<open>MallocOutput\<close>. The locals \<open>lines\<close> and \<open>thread\<close> and the member \<open>size\<close> start
  uninitialised: a loop bound or a stored thread number that no extraction has set is undefined.
\<close>

primrec mo_read_accesses :: "nat \<Rightarrow> rec_t list \<Rightarrow> istream \<Rightarrow> (rec_t list \<times> istream) result" where
  "mo_read_accesses 0 acc s = Inr (acc, s)"
| "mo_read_accesses (Suc n) acc s =
     (let (seg, s1) = seg_read (Segment 0 0) s;
          (pc, s2) = pc_read pc_null s1;
          (thread, s3) = extract_u None s2
      in case thread of
           None \<Rightarrow> Inl (Undefined ''uninitialised thread'')
         | Some t \<Rightarrow> mo_read_accesses n (acc @ [(seg, pc, t)]) s3)"

definition mo_read :: "istream \<Rightarrow> (malloc_output \<times> istream) result" where
  "mo_read s =
     (let (pc, s1) = pc_read pc_null s;
          (size, s2) = extract_u None s1;
          (lines, s3) = extract_u None s2
      in case (size, lines) of
           (Some sz, Some n) \<Rightarrow>
             bindE (mo_read_accesses (unat (n :: size_t)) [] s3)
               (\<lambda>r. Inr (\<lparr>mo_accesses = fst r, mo_pc = pc, mo_size = sz\<rparr>, snd r))
         | _ \<Rightarrow> Inl (Undefined ''uninitialised size''))"

primrec mo_read_list :: "nat \<Rightarrow> istream \<Rightarrow> malloc_output list result" where
  "mo_read_list 0 s = Inr []"
| "mo_read_list (Suc n) s =
     bindE (mo_read s) (\<lambda>r. bindE (mo_read_list n (snd r)) (\<lambda>mos. Inr (fst r # mos)))"

end
