(* ===== verification/PP_Repair.thy ===== *)
theory PP_Repair
  imports PP_Detect "HOL-Library.Product_Lexorder"
begin

text \<open>
  The repair pass of the post-processor, \<^verbatim>\<open>postprocess/Repair.cpp\<close> and \<^verbatim>\<open>Repair.h\<close>. For every
  allocation it groups the accessed byte ranges by the set of threads that touch them, lays the
  groups out one after the other with a cache line between them, and prints for every program
  counter and thread by how much its accesses move. Every \<^verbatim>\<open>assert\<close> and every read that the
  language leaves undefined is an error value of the model.
\<close>

section \<open>The optional static analysis\<close>

record analysis_result =
  an_pc_replace :: "(PC \<times> Segment) list"
  an_malloc_single_size :: "(PC \<times> size_t) list"

definition analysis_init :: analysis_result where
  "analysis_init = \<lparr>an_pc_replace = [], an_malloc_single_size = []\<rparr>"

primrec analysis_read_entries :: "nat \<Rightarrow> istream \<Rightarrow> analysis_result \<Rightarrow> analysis_result \<times> istream" where
  "analysis_read_entries 0 s ar = (ar, s)"
| "analysis_read_entries (Suc n) s ar =
     (let (ipc, s1) = pc_read pc_null s;
          (seg, s2) = seg_read (Segment 0 0) s1
      in analysis_read_entries n s2 (ar\<lparr>an_pc_replace := umap_emplace ipc seg (an_pc_replace ar)\<rparr>))"

lemma extract_u_rest: "length (is_rest (snd (extract_u x s))) \<le> length (is_rest s)"
  using extract_u_rest_le[of x s "fst (extract_u x s)" "snd (extract_u x s)"] by simp

lemma pc_read_rest: "length (is_rest (snd (pc_read p s))) \<le> length (is_rest s)"
  using extract_u_rest[of "Some (pc_func p)" s]
    extract_u_rest[of "Some (pc_inst p)" "snd (extract_u (Some (pc_func p)) s)"]
  by (simp add: pc_read_def case_prod_unfold Let_def)

lemma seg_read_rest: "length (is_rest (snd (seg_read g s))) \<le> length (is_rest s)"
  using extract_u_rest[of "Some (seg_start g)" s]
    extract_u_rest[of "Some (seg_end g)" "snd (extract_u (Some (seg_start g)) s)"]
  by (simp add: seg_read_def case_prod_unfold Let_def)

lemma analysis_read_entries_rest:
  "length (is_rest (snd (analysis_read_entries n s ar))) \<le> length (is_rest s)"
proof (induction n arbitrary: s ar)
  case (Suc n)
  show ?case
    using Suc.IH pc_read_rest[of pc_null s] seg_read_rest[of "Segment 0 0" "snd (pc_read pc_null s)"]
    by (fastforce simp: case_prod_unfold Let_def intro: order_trans)
qed simp

text \<open>
  \<^verbatim>\<open>while (is >> mpc >> m_single_size >> n)\<close>: the loop ends at the first header that does not
  parse. A header consumes input, so the loop ends.
\<close>

function analysis_read :: "istream \<Rightarrow> analysis_result \<Rightarrow> analysis_result" where
  "analysis_read s ar =
     (let r1 = pc_read pc_null s;
          r2 = extract_u None (snd r1);
          r3 = extract_u None (snd r2)
      in if is_fail (snd r3) then ar
         else let r4 = analysis_read_entries (unat (the (fst r3) :: size_t)) (snd r3)
                (ar\<lparr>an_malloc_single_size := umap_emplace (fst r1) (the (fst r2)) (an_malloc_single_size ar)\<rparr>)
              in analysis_read (snd r4) (fst r4))"
  by pat_completeness auto
termination
proof (relation "measure (\<lambda>(s, ar). length (is_rest s))", goal_cases)
  case (2 s ar r1 r2 r3 r4)
  have "length (is_rest (snd r4)) \<le> length (is_rest (snd r3))"
    by (simp add: 2(5) analysis_read_entries_rest)
  also have "\<dots> < length (is_rest (snd r2))"
    using extract_u_progress[of None "snd r2" "fst r3" "snd r3"] 2(3,4) by simp
  also have "\<dots> \<le> length (is_rest (snd r1))"
    by (simp add: 2(2) extract_u_rest)
  also have "\<dots> \<le> length (is_rest s)"
    by (simp add: 2(1) pc_read_rest)
  finally show ?case by simp
qed simp

declare analysis_read.simps [simp del]

definition get_size_by_pc :: "analysis_result \<Rightarrow> PC \<Rightarrow> size_t option" where
  "get_size_by_pc ar pc = map_of (an_malloc_single_size ar) pc"

definition get_seg_by_pc :: "analysis_result \<Rightarrow> PC \<Rightarrow> Segment option" where
  "get_seg_by_pc ar pc = map_of (an_pc_replace ar) pc"

definition analysis_empty :: "analysis_result \<Rightarrow> bool" where
  "analysis_empty ar \<longleftrightarrow> an_pc_replace ar = []"

section \<open>The layout of one allocation\<close>

type_synonym access_relation = "((PC \<times> size_t) \<times> Segment list) list"
type_synonym remap_line = "size_t \<times> size_t \<times> size_t"
type_synonym affinity = "(Segment \<times> size_t) list"

record layout =
  ly_access_relation :: access_relation
  ly_remapping_lines :: "(PC \<times> remap_line) list"
  ly_after_mapped :: size_t
  ly_range_max :: size_t
  ly_target_thread_count :: int
  ly_analysis :: "analysis_result option"
  ly_m_single_size :: size_t

definition ly_push :: "PC \<Rightarrow> size_t \<Rightarrow> Segment \<Rightarrow> size_t \<Rightarrow> layout \<Rightarrow> layout" where
  "ly_push pc tid seg rmax ly =
     ly\<lparr>ly_access_relation := smap_alter (pc, tid) (\<lambda>segs. segs @ [seg]) [] (ly_access_relation ly),
        ly_range_max := max (ly_range_max ly) rmax\<rparr>"

definition ly_insert :: "PC \<Rightarrow> size_t \<Rightarrow> Segment \<Rightarrow> layout \<Rightarrow> layout result" where
  "ly_insert pc tid rng ly =
     (case ly_analysis ly of
        None \<Rightarrow> Inr (ly_push pc tid rng (seg_end rng) ly)
      | Some an \<Rightarrow> (case get_seg_by_pc an pc of
          None \<Rightarrow> Inr (ly_push pc tid rng (seg_end rng) ly)
        | Some analysis_range \<Rightarrow>
            if ly_m_single_size ly = 0 then Inl (Undefined ''division by zero'')
            else let n = seg_start rng div ly_m_single_size ly;
                     offset_range = shift_by analysis_range (n * ly_m_single_size ly) True
                 in Inr (ly_push pc tid offset_range (seg_end rng) ly)))"

text \<open>The scan that \<^verbatim>\<open>is_linear\<close> and \<^verbatim>\<open>extra_polate\<close> both start with.\<close>

definition collect_groups :: "access_relation \<Rightarrow> PC list \<times> PC list \<times> (u32 \<times> bool) list" where
  "collect_groups ar =
     fold (\<lambda>it (thread_group, main_group, thread_maps).
         let pc = fst (fst it); thread_id = snd (fst it);
             thread_maps' = smap_put (ucast thread_id) True thread_maps
         in if thread_id = 0 then (thread_group, main_group @ [pc], thread_maps')
            else if pc \<in> set thread_group then (thread_group, main_group, thread_maps')
            else (thread_group @ [pc], main_group, thread_maps'))
       ar ([], [], [])"

fun main_linear_loop :: "size_t option \<Rightarrow> Segment list \<Rightarrow> bool" where
  "main_linear_loop diff (s1 # s2 # ranges) =
     (if seg_end s1 - seg_start s1 \<noteq> seg_end s2 - seg_start s2 then False
      else case diff of
        None \<Rightarrow> main_linear_loop (Some (seg_end s2 - seg_end s1)) (s2 # ranges)
      | Some d \<Rightarrow> if d \<noteq> seg_end s2 - seg_end s1 then False else main_linear_loop diff (s2 # ranges))"
| "main_linear_loop diff ranges = True"

text \<open>\<^verbatim>\<open>access_relation[key]\<close> inserts an empty vector when the key is missing.\<close>

definition ar_index :: "PC \<times> size_t \<Rightarrow> access_relation \<Rightarrow> Segment list \<times> access_relation" where
  "ar_index k ar = (value_or [] (map_of ar k), smap_emplace k [] ar)"

fun thread_linear_loop ::
  "PC \<Rightarrow> nat \<Rightarrow> size_t \<Rightarrow> size_t option \<Rightarrow> access_relation \<Rightarrow> bool \<times> access_relation" where
  "thread_linear_loop pc 0 j diff ar = (True, ar)"
| "thread_linear_loop pc (Suc n) j diff ar =
     (let (range1, ar1) = ar_index (pc, j) ar;
          (range2, ar2) = ar_index (pc, j + 1) ar1
      in if length range1 \<noteq> 1 \<or> length range2 \<noteq> 1 then (False, ar2)
         else let s1 = hd range1; s2 = hd range2 in
           if seg_end s1 - seg_start s1 \<noteq> seg_end s2 - seg_start s2 then (False, ar2)
           else case diff of
             None \<Rightarrow> thread_linear_loop pc n (j + 1) (Some (seg_end s2 - seg_end s1)) ar2
           | Some d \<Rightarrow> if d \<noteq> seg_end s2 - seg_end s1 then (False, ar2)
                       else thread_linear_loop pc n (j + 1) diff ar2)"

fun main_linear :: "access_relation \<Rightarrow> PC list \<Rightarrow> bool result" where
  "main_linear ar [] = Inr True"
| "main_linear ar (i # main_group) =
     (case value_or [] (map_of ar (i, 0)) of
        [] \<Rightarrow> Inl (Undefined ''ranges.size() - 1 of an empty vector'')
      | ranges \<Rightarrow> if main_linear_loop None ranges then main_linear ar main_group else Inr False)"

fun thread_linear :: "nat \<Rightarrow> PC list \<Rightarrow> access_relation \<Rightarrow> bool \<times> access_relation" where
  "thread_linear n [] ar = (True, ar)"
| "thread_linear n (i # thread_group) ar =
     (let (ok, ar') = thread_linear_loop i n 1 None ar
      in if ok then thread_linear n thread_group ar' else (False, ar'))"

definition is_linear :: "layout \<Rightarrow> (bool \<times> layout) result" where
  "is_linear ly =
     (let (thread_group, main_group, thread_maps) = collect_groups (ly_access_relation ly);
          num_threads = length thread_maps
      in bindE (main_linear (ly_access_relation ly) main_group) (\<lambda>main_ok.
           if \<not> main_ok then Inr (False, ly)
           else let (ok, ar') = thread_linear (num_threads - 2) thread_group (ly_access_relation ly)
                in Inr (ok, ly\<lparr>ly_access_relation := ar'\<rparr>)))"

definition extra_main :: "nat \<Rightarrow> PC \<Rightarrow> layout \<Rightarrow> layout result" where
  "extra_main num_extra i ly =
     (let (ranges, ar) = ar_index (i, 0) (ly_access_relation ly)
      in bindE (guardE (length ranges > 1) (AssertFail ''ranges.size() > 1'')) (\<lambda>_.
           let diff = seg_end (ranges ! 1) - seg_end (ranges ! 0);
               new = map (\<lambda>j. Segment (seg_start (last ranges) + diff * word_of_nat (Suc j))
                                      (seg_end (last ranges) + diff * word_of_nat (Suc j))) [0 ..< num_extra]
           in Inr (ly\<lparr>ly_access_relation := smap_put (i, 0) (ranges @ new) ar\<rparr>)))"

definition extra_thread :: "nat \<Rightarrow> nat \<Rightarrow> PC \<Rightarrow> layout \<Rightarrow> layout result" where
  "extra_thread num_threads num_extra i ly =
     (let (range1, ar1) = ar_index (i, 1) (ly_access_relation ly);
          (range2, ar2) = ar_index (i, 2) ar1
      in if range1 = [] \<or> range2 = [] then Inl (Undefined ''range2[0] of an empty vector'')
         else let diff = seg_start (hd range2) - seg_start (hd range1);
                  (range_last, ar3) = ar_index (i, word_of_nat num_threads - 1) ar2
              in if range_last = [] then Inl (Undefined ''range_last[0] of an empty vector'')
                 else foldE (\<lambda>j. ly_insert i (word_of_nat (j + num_threads))
                        (Segment (seg_start (hd range_last) + diff * word_of_nat (Suc j))
                                 (seg_end (hd range_last) + diff * word_of_nat (Suc j))))
                      [0 ..< num_extra] (ly\<lparr>ly_access_relation := ar3\<rparr>))"

definition extra_polate :: "int \<Rightarrow> layout \<Rightarrow> layout result" where
  "extra_polate target_thread_count ly =
     (if target_thread_count = - 1 then Inr ly
      else let (thread_group, main_group, thread_maps) = collect_groups (ly_access_relation ly);
               num_threads = int (length thread_maps)
           in if num_threads - 1 \<ge> target_thread_count then Inr ly
              else let num_extra_threads = nat (target_thread_count - num_threads + 1)
                   in bindE (foldE (extra_main num_extra_threads) main_group ly)
                        (foldE (extra_thread (length thread_maps) num_extra_threads) thread_group))"

text \<open>
  \<^verbatim>\<open>1 << thread\<close> shifts an \<^verbatim>\<open>int\<close>: bit 31 is the sign bit and extends into the upper half when the
  result is or-ed into a \<^verbatim>\<open>size_t\<close>, and a shift by 32 or more is undefined.
\<close>

definition thread_bit :: "size_t \<Rightarrow> size_t result" where
  "thread_bit thread =
     (if thread < 31 then Inr (push_bit (unat thread) 1)
      else if thread = 31 then Inr 0xFFFFFFFF80000000
      else Inl (Undefined ''shift of an int by its width''))"

definition add_affinity :: "size_t \<Rightarrow> Segment \<Rightarrow> affinity \<Rightarrow> affinity result" where
  "add_affinity thread seg aff =
     bindE (guardE (thread < 64) (AssertFail ''thread < sizeof(size_t) * 8'')) (\<lambda>_.
     bindE (thread_bit thread) (\<lambda>b. Inr (smap_alter seg (\<lambda>a. or a b) 0 aff)))"

definition get_thread_affinity :: "access_relation \<Rightarrow> affinity result" where
  "get_thread_affinity ar = foldE (\<lambda>p. foldE (add_affinity (snd (fst p))) (snd p)) ar []"

fun merge_overlaps :: "Segment \<times> size_t \<Rightarrow> affinity \<Rightarrow> affinity" where
  "merge_overlaps tp [] = [tp]"
| "merge_overlaps tp (it # rest) =
     (if overlap (fst tp) (fst it)
      then merge_overlaps (Segment (seg_start (fst tp)) (max (seg_end (fst tp)) (seg_end (fst it))),
                           or (snd tp) (snd it)) rest
      else tp # merge_overlaps it rest)"

fun merge_touches :: "Segment \<times> size_t \<Rightarrow> affinity \<Rightarrow> affinity" where
  "merge_touches tp [] = [tp]"
| "merge_touches tp (nxt # rest) =
     (if touch (fst tp) (fst nxt) \<and> snd tp = snd nxt
      then merge_touches (Segment (seg_start (fst tp)) (seg_end (fst nxt)), snd tp) rest
      else tp # merge_touches nxt rest)"

definition merge_segments :: "affinity \<Rightarrow> affinity result" where
  "merge_segments arg =
     (case arg of
        [] \<Rightarrow> Inl (Undefined ''begin() of an empty map'')
      | it # rest \<Rightarrow>
          (case merge_overlaps it rest of
             [] \<Rightarrow> Inr []
           | p # overlaps \<Rightarrow> Inr (fold (\<lambda>q. smap_emplace (fst q) (snd q)) (merge_touches p overlaps) [])))"

definition group_by_affinity :: "affinity \<Rightarrow> (size_t \<times> Segment list) list" where
  "group_by_affinity aff =
     map (\<lambda>p. (fst p, sort (snd p)))
       (fold (\<lambda>p. smap_alter (snd p) (\<lambda>segs. segs @ [fst p]) []) aff [])"

definition remap_segment :: "Segment \<Rightarrow> size_t \<times> (size_t \<times> Segment) list \<Rightarrow> size_t \<times> (size_t \<times> Segment) list" where
  "remap_segment seg st =
     (let map_to = Segment (fst st) (fst st + seg_end seg - seg_start seg)
      in (seg_end map_to, smap_put (seg_start seg) map_to (snd st)))"

definition remap_group ::
  "size_t \<times> Segment list \<Rightarrow> size_t \<times> (size_t \<times> Segment) list \<Rightarrow> size_t \<times> (size_t \<times> Segment) list" where
  "remap_group p st =
     fold remap_segment (snd p) (if fst st \<noteq> 0 then fst st + push_bit 6 1 else fst st, snd st)"

definition calc_remapping :: "(size_t \<times> Segment list) list \<Rightarrow> size_t \<times> (size_t \<times> Segment) list" where
  "calc_remapping thread_grouped = fold remap_group thread_grouped (0, [])"

definition remap_one ::
  "(size_t \<times> Segment) list \<Rightarrow> size_t \<Rightarrow> Segment \<Rightarrow> size_t all_equal \<times> remap_line list \<Rightarrow>
   (size_t all_equal \<times> remap_line list) result" where
  "remap_one remappings thread seg st =
     (case smap_floor remappings (seg_start seg) of
        None \<Rightarrow> Inl (AssertFail ''it != remappings.begin()'')
      | Some (key, target) \<Rightarrow>
          let size = seg_end target - seg_start target;
              offset = seg_start target - key
          in bindE (guardE (seg_start seg \<ge> key \<and> seg_end seg \<le> key + size)
                 (AssertFail ''seg.start >= it->first && seg.end <= it->first + size''))
               (\<lambda>_. Inr (ae_next offset (fst st), snd st @ [(thread, seg_start seg, seg_start seg + offset)])))"

definition remap_entry ::
  "(size_t \<times> Segment) list \<Rightarrow> (PC \<times> size_t) \<times> Segment list \<Rightarrow> (PC \<times> remap_line) list \<Rightarrow>
   (PC \<times> remap_line) list result" where
  "remap_entry remappings p remapping_lines =
     (let pc = fst (fst p); thread = snd (fst p)
      in bindE (foldE (remap_one remappings thread) (snd p) (ae_init, [])) (\<lambda>(ae, lines).
           if \<not> ae_is_all_equal ae then Inr (fold (\<lambda>t. mmap_emplace pc t) lines remapping_lines)
           else if lines \<noteq> [] then Inr (mmap_emplace pc (hd lines) remapping_lines)
           else Inr remapping_lines))"

definition remap :: "(size_t \<times> Segment) list \<Rightarrow> access_relation \<Rightarrow> (PC \<times> remap_line) list result" where
  "remap remappings ar = foldE (remap_entry remappings) ar []"

definition ly_table :: "access_relation \<Rightarrow> (size_t \<times> (size_t \<times> Segment) list) result" where
  "ly_table ar =
     bindE (get_thread_affinity ar) (\<lambda>thread_affinity.
     bindE (merge_segments thread_affinity) (\<lambda>merged.
       Inr (calc_remapping (group_by_affinity merged))))"

definition ly_place :: "layout \<Rightarrow> layout result" where
  "ly_place ly =
     bindE (ly_table (ly_access_relation ly)) (\<lambda>(after, remappings).
     bindE (remap remappings (ly_access_relation ly)) (\<lambda>lines.
       Inr (ly\<lparr>ly_after_mapped := after, ly_remapping_lines := lines\<rparr>)))"

definition normalise_segs :: "Segment list \<Rightarrow> Segment list" where
  "normalise_segs segs = merge_neighbors (sort segs)"

definition ly_compute :: "layout \<Rightarrow> layout result" where
  "ly_compute ly0 =
     (let ly = ly0\<lparr>ly_access_relation :=
            map (\<lambda>p. (fst p, normalise_segs (snd p))) (ly_access_relation ly0)\<rparr>
      in bindE (if ly_target_thread_count ly \<noteq> - 1
                then bindE (is_linear ly) (\<lambda>(linear, ly').
                       if linear then extra_polate (ly_target_thread_count ly') ly' else Inr ly')
                else Inr ly) ly_place)"

text \<open>\<open>junk\<close> is what the uninitialised member \<^verbatim>\<open>range_max\<close> holds; nothing depends on it.\<close>

definition mk_layout ::
  "size_t \<Rightarrow> rec_t list \<Rightarrow> PC \<Rightarrow> int \<Rightarrow> analysis_result option \<Rightarrow> layout result" where
  "mk_layout junk api_input pc target_thread_count analysis =
     (let single = (case analysis of None \<Rightarrow> None | Some an \<Rightarrow> get_size_by_pc an pc);
          ly = \<lparr>ly_access_relation = [], ly_remapping_lines = [], ly_after_mapped = junk,
                ly_range_max = junk, ly_target_thread_count = target_thread_count,
                ly_analysis = (if single = None then None else analysis),
                ly_m_single_size = value_or junk single\<rparr>
      in bindE (foldE (\<lambda>p. ly_insert (fst (snd p)) (snd (snd p)) (fst p)) api_input ly) ly_compute)"

section \<open>The pass\<close>

record repair_pass =
  rp_all_fixed_mallocs :: "(PC \<times> size_t \<times> size_t) list"
  rp_all_pcs_layout :: "(PC \<times> remap_line) list"

definition repair_init :: repair_pass where
  "repair_init = \<lparr>rp_all_fixed_mallocs = [], rp_all_pcs_layout = []\<rparr>"

definition repair_malloc ::
  "size_t \<Rightarrow> int \<Rightarrow> analysis_result \<Rightarrow> malloc_output \<Rightarrow> repair_pass \<Rightarrow> repair_pass result" where
  "repair_malloc junk target analysis p rp =
     (let ap = (if analysis_empty analysis then None else Some analysis)
      in bindE (mk_layout junk (mo_accesses p) (mo_pc p) target ap) (\<lambda>ly.
           let new_size = ly_after_mapped ly
           in Inr \<lparr>rp_all_fixed_mallocs =
                     (if new_size \<noteq> mo_size p
                      then rp_all_fixed_mallocs rp @ [(mo_pc p, mo_size p, new_size)]
                      else rp_all_fixed_mallocs rp),
                   rp_all_pcs_layout =
                     fold (\<lambda>q. mmap_emplace (fst q) (snd q)) (ly_remapping_lines ly) (rp_all_pcs_layout rp)\<rparr>))"

definition repair_compute ::
  "size_t \<Rightarrow> int \<Rightarrow> analysis_result \<Rightarrow> malloc_output list \<Rightarrow> repair_pass result" where
  "repair_compute junk target analysis input =
     foldE (repair_malloc junk target analysis) input repair_init"

text \<open>
  \<^verbatim>\<open>read_from_file\<close>: the counter \<^verbatim>\<open>n\<close> starts uninitialised.
\<close>

definition repair_read :: "istream \<Rightarrow> malloc_output list result" where
  "repair_read s =
     (let (n, s1) = extract_u None s
      in case n of
           None \<Rightarrow> Inl (Undefined ''uninitialised count'')
         | Some k \<Rightarrow> mo_read_list (unat (k :: size_t)) s1)"

definition print_fixed_malloc :: "PC \<times> size_t \<times> size_t \<Rightarrow> string" where
  "print_fixed_malloc p =
     (if fst p = pc_null then ''-1 -1 0 '' @ dec (unat (snd (snd p))) @ [newline]
      else pc_print (fst p) @ '' '' @ dec (unat (fst (snd p))) @ '' '' @ dec (unat (snd (snd p))) @ [newline])"

definition print_malloc :: "(PC \<times> size_t \<times> size_t) list \<Rightarrow> string" where
  "print_malloc ms = dec (length ms) @ [newline] @ concat (map print_fixed_malloc ms)"

definition print_line :: "remap_line \<Rightarrow> string" where
  "print_line l = dec (unat (fst l)) @ '' '' @ dec (unat (fst (snd l))) @ '' '' @
     dec (unat (snd (snd l))) @ [newline]"

definition print_pc_layout :: "PC \<times> remap_line list \<Rightarrow> string" where
  "print_pc_layout p =
     pc_print (fst p) @ '' '' @ dec (length (snd p)) @ [newline] @ concat (map print_line (sort (snd p)))"

definition group_by_pc :: "(PC \<times> remap_line) list \<Rightarrow> (PC \<times> remap_line list) list" where
  "group_by_pc lay = fold (\<lambda>p. smap_alter (fst p) (\<lambda>ls. ls @ [snd p]) []) lay []"

definition print_layout :: "(PC \<times> remap_line) list \<Rightarrow> string" where
  "print_layout lay = concat (map print_pc_layout (group_by_pc lay))"

definition repair_print_result :: "repair_pass \<Rightarrow> string" where
  "repair_print_result rp =
     print_malloc (rp_all_fixed_mallocs rp) @ print_layout (rp_all_pcs_layout rp)"

end
