(* ===== verification/PP_Layout.thy ===== *)
theory PP_Layout
  imports PP_Repair
begin

text \<open>
  What the repair pass guarantees: merging keeps every accessed byte and joins the affinities of
  the ranges it merges, the placement gives every range its own bytes with at least a cache line
  between ranges of different affinity, and the lookup of \<^verbatim>\<open>remap\<close> finds the placement of every
  access, so that none of its assertions fires.
\<close>

declare split_paired_All [simp del] split_paired_Ex [simp del]

section \<open>Merging overlapping and touching ranges\<close>

definition within :: "Segment \<Rightarrow> Segment \<Rightarrow> bool" where
  "within s t \<longleftrightarrow> seg_start t \<le> seg_start s \<and> seg_end s \<le> seg_end t"

definition aff_wf :: "affinity \<Rightarrow> bool" where
  "aff_wf ps \<longleftrightarrow> (\<forall>p \<in> set ps. seg_wf (fst p))"

definition aff_apart :: "affinity \<Rightarrow> bool" where
  "aff_apart ps \<longleftrightarrow> sorted_wrt (\<lambda>p q. seg_end (fst p) \<le> seg_start (fst q)) ps"

text \<open>
  Every input range lies in an output range, the bytes of an output range are those of the input
  ranges in it, and its affinity is the union of theirs.
\<close>

definition joins :: "affinity \<Rightarrow> affinity \<Rightarrow> bool" where
  "joins ins outs \<longleftrightarrow>
     (\<forall>p \<in> set ins. \<exists>q \<in> set outs. within (fst p) (fst q)) \<and>
     (\<forall>q \<in> set outs.
        seg_bytes (fst q) = (\<Union>p \<in> {p \<in> set ins. within (fst p) (fst q)}. seg_bytes (fst p)) \<and>
        (\<forall>i. bit (snd q) i \<longleftrightarrow> (\<exists>p \<in> set ins. within (fst p) (fst q) \<and> bit (snd p) i)))"

lemma within_bytes: "seg_wf s \<Longrightarrow> within s t \<longleftrightarrow> seg_bytes s \<subseteq> seg_bytes t"
  by (auto simp: within_def seg_bytes_def seg_wf_def ivl_subset)

lemma within_refl [simp]: "within s s"
  by (simp add: within_def)

lemma within_trans: "within s t \<Longrightarrow> within t u \<Longrightarrow> within s u"
  by (auto simp: within_def)

lemma within_byte: "within s t \<Longrightarrow> x \<in> seg_bytes s \<Longrightarrow> x \<in> seg_bytes t"
  by (auto simp: within_def seg_bytes_def)

lemma apart_same:
  assumes "aff_apart ps" "aff_wf ps" "p \<in> set ps" "q \<in> set ps"
    and "x \<in> seg_bytes (fst p)" "x \<in> seg_bytes (fst q)"
  shows "p = q"
proof (rule ccontr)
  assume "p \<noteq> q"
  then have "seg_end (fst p) \<le> seg_start (fst q) \<or> seg_end (fst q) \<le> seg_start (fst p)"
    using assms(1,3,4) unfolding aff_apart_def
    by (induction ps) auto
  with assms(5,6) show False by (auto simp: seg_bytes_def)
qed

lemma apart_within:
  assumes "aff_apart ps" "aff_wf ps" "p \<in> set ps" "q \<in> set ps" "seg_wf s"
    and "within s (fst p)" "within s (fst q)"
  shows "p = q"
proof -
  have "seg_start s \<in> seg_bytes (fst p)" "seg_start s \<in> seg_bytes (fst q)"
    using assms(5-7) by (auto simp: within_def seg_bytes_def seg_wf_def)
  with assms(1-4) show ?thesis by (rule apart_same)
qed

lemma joins_refl:
  assumes "aff_apart ps" "aff_wf ps"
  shows "joins ps ps"
proof -
  have only: "p = q" if "p \<in> set ps" "q \<in> set ps" "within (fst p) (fst q)" for p q
    using apart_within[OF assms that(1,2), of "fst p"] assms(2) that by (simp add: aff_wf_def)
  have "{p \<in> set ps. within (fst p) (fst q)} = {q}" if "q \<in> set ps" for q
    using only[OF _ that] that within_refl by blast
  moreover have "(\<exists>p \<in> set ps. within (fst p) (fst q) \<and> bit (snd p) i) \<longleftrightarrow> bit (snd q) i"
    if "q \<in> set ps" for q i
    using only[OF _ that] that by (metis within_refl)
  moreover have "\<forall>p \<in> set ps. \<exists>q \<in> set ps. within (fst p) (fst q)"
    using within_refl by blast
  ultimately show ?thesis unfolding joins_def by simp
qed

lemma joins_trans:
  assumes "joins ins mid" "joins mid outs" "aff_wf ins" "aff_wf mid" "aff_apart mid" "aff_wf outs" "aff_apart outs"
  shows "joins ins outs"
proof -
  have up: "\<exists>m \<in> set mid. within (fst p) (fst m) \<and> within (fst m) (fst q)"
    if p: "p \<in> set ins" and q: "q \<in> set outs" and pq: "within (fst p) (fst q)" for p q
  proof -
    obtain m where m: "m \<in> set mid" "within (fst p) (fst m)" using assms(1) p by (auto simp: joins_def)
    obtain q' where q': "q' \<in> set outs" "within (fst m) (fst q')" using assms(2) m by (auto simp: joins_def)
    have "q' = q"
      using apart_within[OF assms(7,6) q'(1) q, of "fst p"] within_trans[OF m(2) q'(2)] pq assms(3) p
      by (auto simp: aff_wf_def)
    with m q' show ?thesis by blast
  qed
  have bytes: "seg_bytes (fst q) = (\<Union>p \<in> {p \<in> set ins. within (fst p) (fst q)}. seg_bytes (fst p))"
    if q: "q \<in> set outs" for q
  proof -
    have "seg_bytes (fst q) = (\<Union>m \<in> {m \<in> set mid. within (fst m) (fst q)}. seg_bytes (fst m))"
      using assms(2) q by (auto simp: joins_def)
    also have "\<dots> = (\<Union>m \<in> {m \<in> set mid. within (fst m) (fst q)}.
        \<Union>p \<in> {p \<in> set ins. within (fst p) (fst m)}. seg_bytes (fst p))"
      using assms(1) by (auto simp: joins_def)
    also have "\<dots> = (\<Union>p \<in> {p \<in> set ins. within (fst p) (fst q)}. seg_bytes (fst p))"
      using up[OF _ q] by (fast intro: within_trans)
    finally show ?thesis .
  qed
  have bits: "bit (snd q) i \<longleftrightarrow> (\<exists>p \<in> set ins. within (fst p) (fst q) \<and> bit (snd p) i)"
    if q: "q \<in> set outs" for q i
  proof -
    have "bit (snd q) i \<longleftrightarrow> (\<exists>m \<in> set mid. within (fst m) (fst q) \<and> bit (snd m) i)"
      using assms(2) q by (auto simp: joins_def)
    also have "\<dots> \<longleftrightarrow> (\<exists>m \<in> set mid. within (fst m) (fst q) \<and>
        (\<exists>p \<in> set ins. within (fst p) (fst m) \<and> bit (snd p) i))"
      using assms(1) by (auto simp: joins_def)
    also have "\<dots> \<longleftrightarrow> (\<exists>p \<in> set ins. within (fst p) (fst q) \<and> bit (snd p) i)"
      using up[OF _ q] within_trans by meson
    finally show ?thesis .
  qed
  have "\<forall>p \<in> set ins. \<exists>q \<in> set outs. within (fst p) (fst q)"
    using assms(1,2) unfolding joins_def by (meson within_trans)
  with bytes bits show ?thesis by (auto simp: joins_def)
qed

text \<open>The first loop of \<^verbatim>\<open>merge_segments\<close>. \<open>cur\<close> is the top of the stack.\<close>

lemma merge_overlaps_head: "\<exists>e a rest'. merge_overlaps cur rest = (Segment (seg_start (fst cur)) e, a) # rest'"
proof (induction cur rest rule: merge_overlaps.induct)
  case (1 cur)
  then show ?case by (cases cur; cases "fst cur") auto
next
  case (2 cur it rest)
  then show ?case by (cases cur; cases "fst cur") auto
qed

definition aff_sorted :: "affinity \<Rightarrow> bool" where
  "aff_sorted ps \<longleftrightarrow> sorted_wrt (\<lambda>p q. seg_start (fst p) \<le> seg_start (fst q)) ps"

lemma merge_overlaps_wf:
  "aff_wf (cur # rest) \<Longrightarrow> aff_wf (merge_overlaps cur rest)"
  by (induction cur rest rule: merge_overlaps.induct) (auto simp: aff_wf_def seg_wf_def less_max_iff_disj)

lemma merge_overlaps_starts:
  "aff_sorted (cur # rest) \<Longrightarrow> q \<in> set (merge_overlaps cur rest) \<Longrightarrow> seg_start (fst cur) \<le> seg_start (fst q)"
proof (induction cur rest rule: merge_overlaps.induct)
  case (2 cur it rest)
  show ?case
  proof (cases "overlap (fst cur) (fst it)")
    case True
    with 2 show ?thesis by (auto simp: aff_sorted_def)
  next
    case False
    with 2 show ?thesis by (auto simp: aff_sorted_def intro: order_trans)
  qed
qed simp

lemma merge_overlaps_apart:
  "aff_wf (cur # rest) \<Longrightarrow> aff_sorted (cur # rest) \<Longrightarrow> aff_apart (merge_overlaps cur rest)"
proof (induction cur rest rule: merge_overlaps.induct)
  case (2 cur it rest)
  show ?case
  proof (cases "overlap (fst cur) (fst it)")
    case True
    with 2 show ?thesis
      by (auto simp: aff_sorted_def aff_wf_def seg_wf_def less_max_iff_disj)
  next
    case False
    have tl: "aff_wf (it # rest)" "aff_sorted (it # rest)"
      using 2(3,4) by (auto simp: aff_sorted_def aff_wf_def)
    have "seg_end (fst cur) \<le> seg_start (fst it)"
      using False 2(3,4) by (auto simp: overlap_def aff_wf_def aff_sorted_def seg_wf_def)
    then have "\<forall>q \<in> set (merge_overlaps it rest). seg_end (fst cur) \<le> seg_start (fst q)"
      using merge_overlaps_starts[OF tl(2)] by (blast intro: order_trans)
    with 2(2)[OF False tl] False show ?thesis by (simp add: aff_apart_def)
  qed
qed (simp add: aff_apart_def)

text \<open>Joining two overlapping ranges first and the rest later joins all of them.\<close>

lemma joins_prefix:
  assumes "joins (m # rest) outs" "within (fst a) (fst m)" "within (fst b) (fst m)"
    and "seg_bytes (fst m) = seg_bytes (fst a) \<union> seg_bytes (fst b)" "snd m = or (snd a) (snd b)"
    and "aff_apart outs" "aff_wf outs" "seg_wf (fst a)" "seg_wf (fst b)"
  shows "joins (a # b # rest) outs"
proof -
  obtain q0 where q0: "q0 \<in> set outs" "within (fst m) (fst q0)"
    using assms(1) by (auto simp: joins_def)
  have iff: "within (fst m) (fst q) \<longleftrightarrow> within (fst a) (fst q)" "within (fst m) (fst q) \<longleftrightarrow> within (fst b) (fst q)"
    if q: "q \<in> set outs" for q
  proof -
    have "q0 = q" if "within (fst a) (fst q)"
      using apart_within[OF assms(6,7) q0(1) q assms(8)] within_trans[OF assms(2) q0(2)] that by blast
    moreover have "q0 = q" if "within (fst b) (fst q)"
      using apart_within[OF assms(6,7) q0(1) q assms(9)] within_trans[OF assms(3) q0(2)] that by blast
    ultimately show "within (fst m) (fst q) \<longleftrightarrow> within (fst a) (fst q)" "within (fst m) (fst q) \<longleftrightarrow> within (fst b) (fst q)"
      using q0(2) within_trans[OF assms(2)] within_trans[OF assms(3)] by blast+
  qed
  have filt: "{p \<in> set (a # b # rest). within (fst p) (fst q)} =
      (if within (fst m) (fst q) then {a, b} else {}) \<union> {p \<in> set rest. within (fst p) (fst q)}"
    "{p \<in> set (m # rest). within (fst p) (fst q)} =
      (if within (fst m) (fst q) then {m} else {}) \<union> {p \<in> set rest. within (fst p) (fst q)}"
    if "q \<in> set outs" for q using iff[OF that] by auto
  show ?thesis
    unfolding joins_def
  proof (intro conjI ballI allI)
    fix p assume "p \<in> set (a # b # rest)"
    then show "\<exists>q \<in> set outs. within (fst p) (fst q)"
      using assms(1) q0 iff[OF q0(1)] by (auto simp: joins_def)
  next
    fix q assume q: "q \<in> set outs"
    show "seg_bytes (fst q) = (\<Union>p \<in> {p \<in> set (a # b # rest). within (fst p) (fst q)}. seg_bytes (fst p))"
    proof -
      have "seg_bytes (fst q) = (\<Union>p \<in> {p \<in> set (m # rest). within (fst p) (fst q)}. seg_bytes (fst p))"
        using assms(1) q by (simp add: joins_def)
      then show ?thesis unfolding filt[OF q] by (simp add: assms(4) Un_assoc)
    qed
    fix i
    show "bit (snd q) i \<longleftrightarrow> (\<exists>p \<in> set (a # b # rest). within (fst p) (fst q) \<and> bit (snd p) i)"
      using assms(1) q iff[OF q] unfolding joins_def by (auto simp: assms(5) bit_or_iff)
  qed
qed

lemma joins_Cons:
  assumes "joins ps outs" "aff_wf (p # ps)" "aff_wf outs"
    and "\<forall>q \<in> set outs. seg_end (fst p) \<le> seg_start (fst q)"
  shows "joins (p # ps) (p # outs)"
proof -
  have wf: "seg_wf (fst p)" "\<And>q. q \<in> set outs \<Longrightarrow> seg_wf (fst q)" "\<And>q. q \<in> set ps \<Longrightarrow> seg_wf (fst q)"
    using assms(2,3) by (auto simp: aff_wf_def)
  have no: "\<not> within (fst p) (fst q)" if "q \<in> set outs" for q
    using assms(4) that wf(1) by (auto simp: within_def seg_wf_def)
  have no': "\<not> within (fst r) (fst p)" if r: "r \<in> set ps" for r
  proof -
    obtain q where "q \<in> set outs" "within (fst r) (fst q)" using assms(1) r by (auto simp: joins_def)
    then show ?thesis using assms(4) wf(3)[OF r] by (fastforce simp: within_def seg_wf_def)
  qed
  have p: "{r \<in> set (p # ps). within (fst r) (fst p)} = {p}" using no' by auto
  have q: "{r \<in> set (p # ps). within (fst r) (fst q)} = {r \<in> set ps. within (fst r) (fst q)}"
    if "q \<in> set outs" for q using no[OF that] by auto
  show ?thesis
    unfolding joins_def
  proof (intro conjI ballI allI)
    fix r assume "r \<in> set (p # ps)"
    then show "\<exists>q \<in> set (p # outs). within (fst r) (fst q)"
      using assms(1) by (auto simp: joins_def)
  next
    fix r assume r: "r \<in> set (p # outs)"
    show "seg_bytes (fst r) = (\<Union>s \<in> {s \<in> set (p # ps). within (fst s) (fst r)}. seg_bytes (fst s))"
    proof (cases "r = p")
      case True
      then show ?thesis by (simp only: p) simp
    next
      case False
      with r have "r \<in> set outs" by simp
      with assms(1) show ?thesis unfolding q[OF \<open>r \<in> set outs\<close>] joins_def by simp
    qed
    fix i
    show "bit (snd r) i \<longleftrightarrow> (\<exists>s \<in> set (p # ps). within (fst s) (fst r) \<and> bit (snd s) i)"
      using assms(1) r no no' by (cases "r = p") (auto simp: joins_def)
  qed
qed

lemma merge_overlaps_joins:
  "aff_wf (cur # rest) \<Longrightarrow> aff_sorted (cur # rest) \<Longrightarrow> joins (cur # rest) (merge_overlaps cur rest)"
proof (induction cur rest rule: merge_overlaps.induct)
  case (1 cur)
  then show ?case using joins_refl[of "[cur]"] by (simp add: aff_apart_def)
next
  case (2 cur it rest)
  show ?case
  proof (cases "overlap (fst cur) (fst it)")
    case True
    let ?m = "(Segment (seg_start (fst cur)) (max (seg_end (fst cur)) (seg_end (fst it))), or (snd cur) (snd it))"
    have wf: "aff_wf (?m # rest)" "aff_sorted (?m # rest)"
      using 2(3,4) by (auto simp: aff_wf_def aff_sorted_def seg_wf_def less_max_iff_disj)
    have le: "seg_start (fst cur) \<le> seg_start (fst it)" "seg_start (fst it) < seg_end (fst cur)"
      using True 2(3,4) by (auto simp: overlap_def aff_wf_def aff_sorted_def seg_wf_def)
    have "joins (cur # it # rest) (merge_overlaps ?m rest)"
    proof (rule joins_prefix[where m = ?m])
      show "seg_bytes (fst ?m) = seg_bytes (fst cur) \<union> seg_bytes (fst it)"
        using le by (auto simp: seg_bytes_def max_def)
    qed (use 2(1)[OF True wf] 2(3) le merge_overlaps_apart[OF wf] merge_overlaps_wf[OF wf(1)]
         in \<open>auto simp: within_def aff_wf_def\<close>)
    with True show ?thesis by simp
  next
    case False
    have tl: "aff_wf (it # rest)" "aff_sorted (it # rest)"
      using 2(3,4) by (auto simp: aff_sorted_def aff_wf_def)
    have "aff_apart (cur # merge_overlaps it rest)"
      using merge_overlaps_apart[OF 2(3,4)] False by simp
    then have "joins (cur # it # rest) (cur # merge_overlaps it rest)"
      using 2(2)[OF False tl] 2(3) merge_overlaps_wf[OF tl(1)] by (intro joins_Cons) (auto simp: aff_apart_def)
    with False show ?thesis by simp
  qed
qed

text \<open>The second loop joins neighbours that touch and have the same affinity.\<close>

lemma merge_touches_wf:
  "aff_wf (cur # rest) \<Longrightarrow> aff_wf (merge_touches cur rest)"
proof (induction cur rest rule: merge_touches.induct)
  case (2 cur nxt rest)
  then have "aff_wf ((Segment (seg_start (fst cur)) (seg_end (fst nxt)), snd cur) # rest)"
    if "touch (fst cur) (fst nxt)"
    using that by (auto simp: aff_wf_def seg_wf_def touch_def)
  with 2 show ?case by (auto simp: aff_wf_def)
qed simp

lemma merge_touches_nonempty: "merge_touches cur rest \<noteq> []"
  by (induction cur rest rule: merge_touches.induct) auto

lemma merge_touches_starts:
  "aff_wf (cur # rest) \<Longrightarrow> aff_apart (cur # rest) \<Longrightarrow> q \<in> set (merge_touches cur rest) \<Longrightarrow>
   seg_start (fst cur) \<le> seg_start (fst q)"
proof (induction cur rest rule: merge_touches.induct)
  case (2 cur nxt rest)
  show ?case
  proof (cases "touch (fst cur) (fst nxt) \<and> snd cur = snd nxt")
    case True
    with 2 show ?thesis by (auto simp: aff_apart_def aff_wf_def seg_wf_def touch_def)
  next
    case False
    have "seg_start (fst cur) \<le> seg_start (fst nxt)"
      using 2(3,4) by (auto simp: aff_apart_def aff_wf_def seg_wf_def)
    moreover have "aff_wf (nxt # rest)" "aff_apart (nxt # rest)" using 2(3,4) by (auto simp: aff_apart_def aff_wf_def)
    ultimately show ?thesis using 2(2)[OF False] 2(5) False by (auto intro: order_trans)
  qed
qed simp

lemma merge_touches_apart:
  "aff_wf (cur # rest) \<Longrightarrow> aff_apart (cur # rest) \<Longrightarrow> aff_apart (merge_touches cur rest)"
proof (induction cur rest rule: merge_touches.induct)
  case (2 cur nxt rest)
  show ?case
  proof (cases "touch (fst cur) (fst nxt) \<and> snd cur = snd nxt")
    case True
    with 2 show ?thesis by (auto simp: aff_apart_def aff_wf_def seg_wf_def touch_def)
  next
    case False
    have tl: "aff_wf (nxt # rest)" "aff_apart (nxt # rest)" using 2(3,4) by (auto simp: aff_apart_def aff_wf_def)
    have "seg_end (fst cur) \<le> seg_start (fst nxt)" using 2(4) by (simp add: aff_apart_def)
    then have "\<forall>q \<in> set (merge_touches nxt rest). seg_end (fst cur) \<le> seg_start (fst q)"
      using merge_touches_starts[OF tl] by (blast intro: order_trans)
    with 2(2)[OF False tl] False show ?thesis by (auto simp: aff_apart_def)
  qed
qed (simp add: aff_apart_def)

lemma merge_touches_joins:
  "aff_wf (cur # rest) \<Longrightarrow> aff_apart (cur # rest) \<Longrightarrow> joins (cur # rest) (merge_touches cur rest)"
proof (induction cur rest rule: merge_touches.induct)
  case (1 cur)
  then show ?case using joins_refl[of "[cur]"] by (simp add: aff_apart_def)
next
  case (2 cur nxt rest)
  show ?case
  proof (cases "touch (fst cur) (fst nxt) \<and> snd cur = snd nxt")
    case True
    let ?m = "(Segment (seg_start (fst cur)) (seg_end (fst nxt)), snd cur)"
    have wf: "aff_wf (?m # rest)" "aff_apart (?m # rest)"
      using 2(3,4) True by (auto simp: aff_wf_def aff_apart_def seg_wf_def touch_def)
    have le: "seg_start (fst cur) < seg_end (fst cur)" "seg_end (fst cur) = seg_start (fst nxt)"
      "seg_start (fst nxt) < seg_end (fst nxt)"
      using True 2(3) by (auto simp: touch_def aff_wf_def seg_wf_def)
    have "joins (cur # nxt # rest) (merge_touches ?m rest)"
    proof (rule joins_prefix[where m = ?m])
      show "seg_bytes (fst ?m) = seg_bytes (fst cur) \<union> seg_bytes (fst nxt)"
        using le by (auto simp: seg_bytes_def)
    qed (use 2(1)[OF True wf] 2(3) le True merge_touches_apart[OF wf] merge_touches_wf[OF wf(1)]
         in \<open>auto simp: within_def aff_wf_def\<close>)
    with True show ?thesis by simp
  next
    case False
    have tl: "aff_wf (nxt # rest)" "aff_apart (nxt # rest)"
      using 2(3,4) by (auto simp: aff_apart_def aff_wf_def)
    have "aff_apart (cur # merge_touches nxt rest)"
      using merge_touches_apart[OF 2(3,4)] False by auto
    then have "joins (cur # nxt # rest) (cur # merge_touches nxt rest)"
      using 2(2)[OF False tl] 2(3) merge_touches_wf[OF tl(1)] by (intro joins_Cons) (auto simp: aff_apart_def)
    with False show ?thesis by auto
  qed
qed

lemma apart_smap_ok: "aff_apart ps \<Longrightarrow> aff_wf ps \<Longrightarrow> smap_ok ps"
proof (induction ps)
  case (Cons p ps)
  have "fst p < fst q" if "q \<in> set ps" for q
  proof -
    have "seg_start (fst p) < seg_start (fst q)"
      using Cons.prems that by (fastforce simp: aff_apart_def aff_wf_def seg_wf_def)
    then show ?thesis by (simp add: less_Segment_def seg_less_def)
  qed
  with Cons show ?case by (auto simp: smap_ok_def aff_apart_def aff_wf_def)
qed simp

lemma smap_ok_aff_sorted: "smap_ok (ps :: affinity) \<Longrightarrow> aff_sorted ps"
  unfolding smap_ok_def aff_sorted_def sorted_wrt_map
  by (erule sorted_wrt_mono_rel[rotated]) (simp add: seg_le_start less_imp_le)

lemma merge_touches_same:
  "aff_wf (cur # rest) \<Longrightarrow> aff_apart (cur # rest) \<Longrightarrow> p \<in> set (cur # rest) \<Longrightarrow>
   \<exists>q \<in> set (merge_touches cur rest). within (fst p) (fst q) \<and> snd q = snd p"
proof (induction cur rest arbitrary: p rule: merge_touches.induct)
  case (2 cur nxt rest)
  show ?case
  proof (cases "touch (fst cur) (fst nxt) \<and> snd cur = snd nxt")
    case True
    let ?m = "(Segment (seg_start (fst cur)) (seg_end (fst nxt)), snd cur)"
    have wf: "aff_wf (?m # rest)" "aff_apart (?m # rest)"
      using 2(3,4) True by (auto simp: aff_wf_def aff_apart_def seg_wf_def touch_def)
    have in_m: "within (fst cur) (fst ?m)" "within (fst nxt) (fst ?m)"
      using 2(3) True by (auto simp: within_def aff_wf_def seg_wf_def touch_def)
    show ?thesis
    proof (cases "p = cur \<or> p = nxt")
      case p: True
      obtain q where "q \<in> set (merge_touches ?m rest)" "within (fst ?m) (fst q)" "snd q = snd ?m"
        using 2(1)[OF True wf, of ?m] by auto
      with p True in_m show ?thesis by (auto intro: within_trans)
    next
      case False
      with 2(1)[OF True wf, of p] 2(5) True show ?thesis by auto
    qed
  next
    case False
    have tl: "aff_wf (nxt # rest)" "aff_apart (nxt # rest)"
      using 2(3,4) by (auto simp: aff_apart_def aff_wf_def)
    show ?thesis using 2(2)[OF False tl, of p] 2(5) False by (cases "p = cur") auto
  qed
qed auto

text \<open>The overlap pass only joins ranges that share bytes, directly or through others.\<close>

lemma merge_overlaps_linked:
  assumes "trans E" "\<forall>p \<in> set (cur # rest). seg_bytes (fst p) \<times> seg_bytes (fst p) \<subseteq> E"
    and "aff_wf (cur # rest)" "aff_sorted (cur # rest)"
  shows "\<forall>q \<in> set (merge_overlaps cur rest). seg_bytes (fst q) \<times> seg_bytes (fst q) \<subseteq> E"
  using assms(2-4)
proof (induction cur rest rule: merge_overlaps.induct)
  case (2 cur it rest)
  show ?case
  proof (cases "overlap (fst cur) (fst it)")
    case True
    let ?m = "(Segment (seg_start (fst cur)) (max (seg_end (fst cur)) (seg_end (fst it))), or (snd cur) (snd it))"
    have wf: "aff_wf (?m # rest)" "aff_sorted (?m # rest)"
      using 2(4,5) by (auto simp: aff_wf_def aff_sorted_def seg_wf_def less_max_iff_disj)
    have le: "seg_start (fst cur) \<le> seg_start (fst it)" "seg_start (fst it) < seg_end (fst cur)"
      and itwf: "seg_start (fst it) < seg_end (fst it)"
      using True 2(4,5) by (auto simp: overlap_def aff_wf_def aff_sorted_def seg_wf_def)
    have un: "seg_bytes (fst ?m) = seg_bytes (fst cur) \<union> seg_bytes (fst it)"
      using le by (auto simp: seg_bytes_def max_def)
    have z: "seg_start (fst it) \<in> seg_bytes (fst cur)" "seg_start (fst it) \<in> seg_bytes (fst it)"
      using le itwf by (auto simp: seg_bytes_def)
    have sub: "seg_bytes (fst cur) \<times> seg_bytes (fst cur) \<subseteq> E" "seg_bytes (fst it) \<times> seg_bytes (fst it) \<subseteq> E"
      using 2(3) by auto
    have "seg_bytes (fst ?m) \<times> seg_bytes (fst ?m) \<subseteq> E"
      unfolding un using sub z transD[OF assms(1)] by blast
    with 2(1)[OF True _ wf] 2(3) True show ?thesis by simp
  next
    case False
    have tl: "aff_wf (it # rest)" "aff_sorted (it # rest)"
      using 2(4,5) by (auto simp: aff_sorted_def aff_wf_def)
    from 2(2)[OF False _ tl] 2(3) False show ?thesis by simp
  qed
qed simp

text \<open>
  What \<^verbatim>\<open>merge_segments\<close> leaves in the map: \<open>mid\<close> is the map after the overlap pass, \<open>out\<close> the
  result.
\<close>

lemma merge_segments_ok:
  assumes "smap_ok aff" "aff_wf aff" "aff \<noteq> []"
  obtains mid out where "merge_segments aff = Inr out"
    and "aff_wf mid" "aff_apart mid" "joins aff mid"
    and "aff_wf out" "aff_apart out" "joins aff out" "out \<noteq> []"
    and "\<And>p. p \<in> set mid \<Longrightarrow> \<exists>q \<in> set out. within (fst p) (fst q) \<and> snd q = snd p"
    and "\<And>E q. trans E \<Longrightarrow> \<forall>p \<in> set aff. seg_bytes (fst p) \<times> seg_bytes (fst p) \<subseteq> E \<Longrightarrow>
      q \<in> set mid \<Longrightarrow> seg_bytes (fst q) \<times> seg_bytes (fst q) \<subseteq> E"
proof -
  obtain it rest where aff: "aff = it # rest" using assms(3) by (cases aff) auto
  let ?ov = "merge_overlaps it rest"
  have srt: "aff_sorted (it # rest)" "aff_wf (it # rest)"
    using assms smap_ok_aff_sorted[of aff] by (auto simp: aff)
  have ov: "aff_wf ?ov" "aff_apart ?ov" "joins aff ?ov"
    using srt merge_overlaps_wf merge_overlaps_apart merge_overlaps_joins by (auto simp: aff)
  obtain p ps where p: "?ov = p # ps" using merge_overlaps_head by blast
  let ?out = "merge_touches p ps"
  have out: "aff_wf ?out" "aff_apart ?out" "joins ?ov ?out"
    using ov merge_touches_wf merge_touches_apart merge_touches_joins by (auto simp: p)
  have "merge_segments aff = Inr ?out"
    using fold_emplace_sorted[of "[]" ?out] apart_smap_ok[OF out(2,1)]
    by (simp add: merge_segments_def aff p)
  from this ov out(1,2) joins_trans[OF ov(3) out(3) assms(2) ov(1,2) out(1,2)] merge_touches_nonempty
  show thesis
  proof (rule that)
    show "\<exists>q \<in> set ?out. within (fst m) (fst q) \<and> snd q = snd m" if "m \<in> set ?ov" for m
      using merge_touches_same[of p ps m] ov that by (simp add: p)
    show "seg_bytes (fst q) \<times> seg_bytes (fst q) \<subseteq> E"
      if "trans E" "\<forall>p \<in> set aff. seg_bytes (fst p) \<times> seg_bytes (fst p) \<subseteq> E" "q \<in> set ?ov" for E q
      using merge_overlaps_linked[OF that(1) _ srt(2,1)] that(2,3) by (simp add: aff)
  qed
qed

section \<open>Placing the groups\<close>

definition seg_len :: "Segment \<Rightarrow> nat" where
  "seg_len s = unat (seg_end s) - unat (seg_start s)"

text \<open>
  The placement as \<^verbatim>\<open>calc_remapping\<close> computes it, with unbounded offsets: every range with its
  affinity and its new start.
\<close>

fun place_segs :: "size_t \<Rightarrow> nat \<Rightarrow> Segment list \<Rightarrow> (size_t \<times> Segment \<times> nat) list" where
  "place_segs a off [] = []"
| "place_segs a off (s # ss) = (a, s, off) # place_segs a (off + seg_len s) ss"

definition group_start :: "nat \<Rightarrow> nat" where
  "group_start off = (if off \<noteq> 0 then off + 64 else off)"

fun place_groups :: "nat \<Rightarrow> (size_t \<times> Segment list) list \<Rightarrow> (size_t \<times> Segment \<times> nat) list" where
  "place_groups off [] = []"
| "place_groups off (g # gs) =
     place_segs (fst g) (group_start off) (snd g) @
     place_groups (group_start off + sum_list (map seg_len (snd g))) gs"

fun place_end :: "nat \<Rightarrow> (size_t \<times> Segment list) list \<Rightarrow> nat" where
  "place_end off [] = off"
| "place_end off (g # gs) = place_end (group_start off + sum_list (map seg_len (snd g))) gs"

lemma group_start_ge: "off \<le> group_start off"
  by (simp add: group_start_def)

lemma place_end_ge: "off \<le> place_end off gs"
proof (induction off gs rule: place_end.induct)
  case (2 off g gs)
  then show ?case using group_start_ge[of off] by simp
qed simp

definition rm_insert :: "size_t \<times> Segment \<times> nat \<Rightarrow> (size_t \<times> Segment) list \<Rightarrow> (size_t \<times> Segment) list" where
  "rm_insert q = smap_put (seg_start (fst (snd q)))
     (Segment (word_of_nat (snd (snd q))) (word_of_nat (snd (snd q) + seg_len (fst (snd q)))))"

lemma word_seg_len: "seg_wf s \<Longrightarrow> word_of_nat (seg_len s) = seg_end s - seg_start s"
  by (simp add: seg_len_def seg_wf_def of_nat_diff word_less_nat_alt)

lemma fold_remap_segment:
  "\<forall>s \<in> set ss. seg_wf s \<Longrightarrow>
   fold remap_segment ss (word_of_nat off, rm) =
     (word_of_nat (off + sum_list (map seg_len ss)), fold rm_insert (place_segs a off ss) rm)"
proof (induction ss arbitrary: off rm)
  case (Cons s ss)
  have "remap_segment s (word_of_nat off, rm) = (word_of_nat (off + seg_len s), rm_insert (a, s, off) rm)"
    using Cons.prems word_seg_len[of s] by (simp add: remap_segment_def rm_insert_def Let_def add_diff_eq)
  with Cons show ?case by (simp add: add.assoc del: of_nat_add)
qed simp

lemma fold_remap_group:
  "place_end off gs < 2 ^ 64 \<Longrightarrow> \<forall>g \<in> set gs. \<forall>s \<in> set (snd g). seg_wf s \<Longrightarrow>
   fold remap_group gs (word_of_nat off, rm) =
     (word_of_nat (place_end off gs), fold rm_insert (place_groups off gs) rm)"
proof (induction gs arbitrary: off rm)
  case (Cons g gs)
  have "off < 2 ^ 64"
    using Cons.prems(1) place_end_ge[of off "g # gs"] by simp
  then have "(word_of_nat off :: size_t) = 0 \<longleftrightarrow> off = 0"
    by (auto simp: word_of_nat_eq_0_iff dest: dvd_imp_le)
  then have "remap_group g (word_of_nat off, rm) =
      fold remap_segment (snd g) (word_of_nat (group_start off), rm)"
    by (auto simp: remap_group_def group_start_def)
  also have "\<dots> = (word_of_nat (group_start off + sum_list (map seg_len (snd g))),
      fold rm_insert (place_segs (fst g) (group_start off) (snd g)) rm)"
    using Cons.prems(2) by (intro fold_remap_segment) simp
  finally show ?case
    using Cons by (simp del: of_nat_add)
qed simp

text \<open>Placed ranges never meet, and ranges of different groups are a cache line apart.\<close>

definition placed_apart :: "(size_t \<times> Segment \<times> nat) list \<Rightarrow> bool" where
  "placed_apart ps \<longleftrightarrow> sorted_wrt (\<lambda>p q.
     snd (snd p) + seg_len (fst (snd p)) + (if fst p \<noteq> fst q then 64 else 0) \<le> snd (snd q)) ps"

lemma place_segs_mem:
  "p \<in> set (place_segs a off ss) \<Longrightarrow>
   fst p = a \<and> fst (snd p) \<in> set ss \<and> off \<le> snd (snd p) \<and>
   snd (snd p) + seg_len (fst (snd p)) \<le> off + sum_list (map seg_len ss)"
  by (induction ss arbitrary: off) fastforce+

lemma place_groups_mem:
  "p \<in> set (place_groups off gs) \<Longrightarrow>
   group_start off \<le> snd (snd p) \<and> snd (snd p) + seg_len (fst (snd p)) \<le> place_end off gs \<and>
   (\<exists>g \<in> set gs. fst g = fst p \<and> fst (snd p) \<in> set (snd g))"
proof (induction gs arbitrary: off)
  case (Cons g gs)
  let ?e = "group_start off + sum_list (map seg_len (snd g))"
  from Cons.prems consider "p \<in> set (place_segs (fst g) (group_start off) (snd g))" | "p \<in> set (place_groups ?e gs)"
    by auto
  then show ?case
  proof cases
    case 1
    then show ?thesis using place_segs_mem[OF 1] place_end_ge[of ?e gs] by auto
  next
    case 2
    then show ?thesis using Cons.IH[OF 2] group_start_ge[of ?e] by auto
  qed
qed simp

lemma place_segs_apart: "placed_apart (place_segs a off ss)"
proof (induction ss arbitrary: off)
  case (Cons s ss)
  have "\<forall>q \<in> set (place_segs a (off + seg_len s) ss). fst q = a \<and> off + seg_len s \<le> snd (snd q)"
    using place_segs_mem by blast
  with Cons show ?case by (auto simp: placed_apart_def)
qed (simp add: placed_apart_def)

definition groups_wf :: "(size_t \<times> Segment list) list \<Rightarrow> bool" where
  "groups_wf gs \<longleftrightarrow> smap_ok gs \<and> (\<forall>g \<in> set gs. snd g \<noteq> [] \<and> (\<forall>s \<in> set (snd g). seg_wf s))"

lemma seg_len_pos: "seg_wf s \<Longrightarrow> 0 < seg_len s"
  by (simp add: seg_len_def seg_wf_def word_less_nat_alt)

lemma place_groups_apart: "groups_wf gs \<Longrightarrow> placed_apart (place_groups off gs)"
proof (induction gs arbitrary: off)
  case (Cons g gs)
  let ?s = "place_segs (fst g) (group_start off) (snd g)"
  let ?e = "group_start off + sum_list (map seg_len (snd g))"
  have gs: "groups_wf gs" and ne: "snd g \<noteq> []" "seg_wf (hd (snd g))" and key: "\<forall>h \<in> set gs. fst g < fst h"
    using Cons.prems by (cases g; auto simp: groups_wf_def smap_ok_def)+
  have "0 < sum_list (map seg_len (snd g))"
    using ne seg_len_pos[OF ne(2)] by (cases "snd g") auto
  then have "?e \<noteq> 0" by linarith
  then have "group_start ?e = ?e + 64" unfolding group_start_def[of ?e] by (rule if_P)
  then have "snd (snd p) + seg_len (fst (snd p)) + 64 \<le> snd (snd q)"
    if "p \<in> set ?s" "q \<in> set (place_groups ?e gs)" for p q
    using place_segs_mem[OF that(1)] place_groups_mem[OF that(2)] by linarith
  with Cons.IH[OF gs, of ?e] place_segs_apart[of "fst g" "group_start off" "snd g"]
  show ?case
    unfolding placed_apart_def by (simp add: sorted_wrt_append) (meson add_leD1)
qed (simp add: placed_apart_def)

text \<open>The new size: the bytes of all ranges and a cache line between two groups.\<close>

lemma place_end_pos:
  "0 < off \<Longrightarrow>
   place_end off gs = off + sum_list (map (\<lambda>g. sum_list (map seg_len (snd g))) gs) + 64 * length gs"
proof (induction gs arbitrary: off)
  case (Cons g gs)
  then show ?case by (simp add: group_start_def)
qed simp

lemma place_end_size:
  assumes "groups_wf gs" "gs \<noteq> []"
  shows "place_end 0 gs = sum_list (map (\<lambda>g. sum_list (map seg_len (snd g))) gs) + 64 * (length gs - 1)"
proof -
  obtain g rest where gs: "gs = g # rest" using assms(2) by (cases gs) auto
  then have ne: "snd g \<noteq> []" "seg_wf (hd (snd g))" using assms(1) by (auto simp: groups_wf_def)
  have pos: "0 < sum_list (map seg_len (snd g))"
    using ne seg_len_pos[OF ne(2)] by (cases "snd g") auto
  show ?thesis
    using place_end_pos[OF pos, of rest] by (simp add: gs group_start_def)
qed

text \<open>Grouping by affinity keeps every range in the group of its affinity.\<close>

lemma fold_snoc: "fold (\<lambda>x ys. ys @ [h x]) xs acc = acc @ map h xs"
  by (induction xs arbitrary: acc) auto

lemma smap_ok_map_snd [simp]: "smap_ok (map (\<lambda>p. (fst p, f (snd p))) m) = smap_ok m"
  by (simp add: smap_ok_def comp_def)

lemma mset_concat_alter:
  "mset (concat (map snd (smap_alter k (\<lambda>xs. xs @ [x]) [] m))) = add_mset x (mset (concat (map snd m)))"
  by (induction m) auto

lemma mset_concat_fold_alter:
  "mset (concat (map snd (fold (\<lambda>p. smap_alter (key p) (\<lambda>xs. xs @ [h p]) []) ps m))) =
   mset (map h ps) + mset (concat (map snd m))"
  by (induction ps arbitrary: m) (simp_all add: mset_concat_alter)

lemma group_by_affinity_mset:
  "mset (concat (map snd (group_by_affinity out))) = mset (map fst out)"
proof -
  have "mset (concat (map snd (map (\<lambda>p. (fst p, sort (snd p))) m))) = mset (concat (map snd m))"
    for m :: "(size_t \<times> Segment list) list"
    by (induction m) simp_all
  then show ?thesis
    unfolding group_by_affinity_def by (simp only: mset_concat_fold_alter) simp
qed

lemma group_by_affinity_lookup:
  "map_of (group_by_affinity out) a =
     (if a \<in> snd ` set out then Some (sort (map fst (filter (\<lambda>p. snd p = a) out))) else None)"
proof -
  let ?G = "fold (\<lambda>p. smap_alter (snd p) (\<lambda>segs. segs @ [fst p]) []) out []"
  have G: "map_of ?G a = (if a \<in> snd ` set out then Some (map fst (filter (\<lambda>p. snd p = a) out)) else None)"
    using smap.lookup_fold_alter[of "[]" snd "\<lambda>p segs. segs @ [fst p]" "[]" out a] by (simp add: fold_snoc)
  have "map_of (map (\<lambda>p. (fst p, sort (snd p))) m) a = map_option sort (map_of m a)"
    for m :: "(size_t \<times> Segment list) list"
    by (induction m) auto
  then show ?thesis using G by (simp add: group_by_affinity_def)
qed

lemma group_by_affinity_ok: "smap_ok (group_by_affinity out)"
  using smap.ok_fold_alter[of "[]" snd "\<lambda>p segs. segs @ [fst p]" "[]" out]
  by (simp add: group_by_affinity_def)

lemma group_by_affinity_mem:
  "(\<exists>g \<in> set (group_by_affinity out). fst g = a \<and> s \<in> set (snd g)) \<longleftrightarrow> (s, a) \<in> set out"
proof -
  have "(\<exists>g \<in> set (group_by_affinity out). fst g = a \<and> s \<in> set (snd g)) \<longleftrightarrow>
      (\<exists>ss. (a, ss) \<in> set (group_by_affinity out) \<and> s \<in> set ss)"
    by force
  also have "\<dots> \<longleftrightarrow> (\<exists>ss. map_of (group_by_affinity out) a = Some ss \<and> s \<in> set ss)"
    by (simp only: map_of_iff_smap[OF group_by_affinity_ok])
  also have "\<dots> \<longleftrightarrow> (s, a) \<in> set out"
    by (force simp: group_by_affinity_lookup)
  finally show ?thesis .
qed

lemma group_by_affinity_wf:
  assumes "aff_wf out"
  shows "groups_wf (group_by_affinity out)"
proof -
  have "snd g \<noteq> [] \<and> (\<forall>s \<in> set (snd g). seg_wf s)" if g: "g \<in> set (group_by_affinity out)" for g
  proof -
    have "map_of (group_by_affinity out) (fst g) = Some (snd g)"
      using map_of_iff_smap[OF group_by_affinity_ok, of "fst g" "snd g" out] g by simp
    then have "fst g \<in> snd ` set out" and ss: "sort (map fst (filter (\<lambda>p. snd p = fst g) out)) = snd g"
      by (simp_all add: group_by_affinity_lookup split: if_splits)
    then obtain p where p: "p \<in> set out" "snd p = fst g" by auto
    have "set (snd g) = fst ` set (filter (\<lambda>p. snd p = fst g) out)" by (simp add: ss[symmetric])
    then show ?thesis using assms p by (auto simp: aff_wf_def)
  qed
  then show ?thesis by (simp add: groups_wf_def group_by_affinity_ok)
qed

lemma group_by_affinity_length: "length (group_by_affinity out) = card (snd ` set out)"
proof -
  have "fst ` set (group_by_affinity out) = dom (map_of (group_by_affinity out))"
    by (simp add: dom_map_of_conv_image_fst)
  also have "\<dots> = snd ` set out" by (auto simp: dom_def group_by_affinity_lookup)
  finally show ?thesis
    using smap_ok_distinct[OF group_by_affinity_ok] by (metis distinct_card length_map list.set_map)
qed

text \<open>The remapping table holds one entry per placed range.\<close>

lemma place_groups_segs: "map (\<lambda>q. fst (snd q)) (place_groups off gs) = concat (map snd gs)"
proof -
  have "map (\<lambda>q. fst (snd q)) (place_segs a off ss) = ss" for a off ss
    by (induction ss arbitrary: off) auto
  then show ?thesis by (induction gs arbitrary: off) auto
qed

lemma place_groups_ex:
  assumes "g \<in> set gs" "s \<in> set (snd g)"
  shows "\<exists>p. (fst g, s, p) \<in> set (place_groups off gs)"
proof -
  have segs: "s \<in> set ss \<Longrightarrow> \<exists>p. (a, s, p) \<in> set (place_segs a off ss)" for a off ss
    by (induction ss arbitrary: off) auto
  show ?thesis using assms
  proof (induction gs arbitrary: off)
    case (Cons h gs)
    then show ?case
      using segs[of "snd g" "fst g" "group_start off"] by (cases "g = h") fastforce+
  qed simp
qed

lemma fold_put_lookup:
  "smap_ok m \<Longrightarrow> distinct (map key xs) \<Longrightarrow>
   smap_ok (fold (\<lambda>x. smap_put (key x) (val x)) xs m) \<and>
   (map_of (fold (\<lambda>x. smap_put (key x) (val x)) xs m) k = Some v \<longleftrightarrow>
     (\<exists>x \<in> set xs. k = key x \<and> v = val x) \<or> (k \<notin> key ` set xs \<and> map_of m k = Some v))"
proof (induction xs arbitrary: m)
  case (Cons x xs)
  then show ?case using Cons.IH[of "smap_put (key x) (val x) m"] by auto
qed simp

definition placement :: "affinity \<Rightarrow> (size_t \<times> Segment \<times> nat) list" where
  "placement out = place_groups 0 (group_by_affinity out)"

definition new_size :: "affinity \<Rightarrow> nat" where
  "new_size out = sum_list (map (\<lambda>p. seg_len (fst p)) out) + 64 * (card (snd ` set out) - 1)"

lemma placement_mem: "aff_wf out \<Longrightarrow> (\<exists>p. (a, s, p) \<in> set (placement out)) \<longleftrightarrow> (s, a) \<in> set out"
  using place_groups_ex[of _ "group_by_affinity out" s 0] place_groups_mem[of "(a, s, _)" 0 "group_by_affinity out"]
    group_by_affinity_mem[of out a s] unfolding placement_def by fastforce

lemma placement_apart: "aff_wf out \<Longrightarrow> placed_apart (placement out)"
  by (simp add: placement_def place_groups_apart group_by_affinity_wf)

lemma placement_end:
  assumes "aff_wf out" "out \<noteq> []"
  shows "place_end 0 (group_by_affinity out) = new_size out"
proof -
  let ?gs = "group_by_affinity out"
  have "?gs \<noteq> []"
    using group_by_affinity_length[of out] assms(2) by auto
  moreover have "sum_list (map (\<lambda>g. sum_list (map seg_len (snd g))) gs) = sum_list (map seg_len (concat (map snd gs)))"
    for gs :: "(size_t \<times> Segment list) list"
    by (induction gs) auto
  moreover have "sum_list (map seg_len (concat (map snd ?gs))) = sum_list (map seg_len (map fst out))"
    using group_by_affinity_mset[of out] by (metis mset_map sum_mset_sum_list)
  ultimately show ?thesis
    using place_end_size[OF group_by_affinity_wf[OF assms(1)]]
    by (simp add: new_size_def group_by_affinity_length comp_def)
qed

lemma placement_starts:
  assumes "aff_wf out" "aff_apart out"
  shows "distinct (map (\<lambda>q. seg_start (fst (snd q))) (placement out))"
proof -
  have out: "distinct (map (\<lambda>p. seg_start (fst p)) out)" using assms
  proof (induction out)
    case (Cons p out)
    then show ?case by (fastforce simp: aff_wf_def aff_apart_def seg_wf_def)
  qed simp
  have "map (\<lambda>q. seg_start (fst (snd q))) (placement out) = map seg_start (concat (map snd (group_by_affinity out)))"
    unfolding placement_def place_groups_segs[symmetric, of _ 0] by simp
  moreover have "mset \<dots> = mset (map seg_start (map fst out))"
    using group_by_affinity_mset[of out] by (metis mset_map)
  ultimately show ?thesis
    using out by (metis (no_types, lifting) comp_apply map_map mset_eq_imp_distinct_iff list.map_cong0)
qed

lemma calc_remapping_placement:
  assumes "aff_wf out" "aff_apart out" "out \<noteq> []" "new_size out < 2 ^ 64"
    and "calc_remapping (group_by_affinity out) = (after, rm)"
  shows "after = word_of_nat (new_size out)" "smap_ok rm"
    and "map_of rm k = Some v \<longleftrightarrow> (\<exists>(a, s, p) \<in> set (placement out).
      k = seg_start s \<and> v = Segment (word_of_nat p) (word_of_nat (p + seg_len s)))"
proof -
  have "calc_remapping (group_by_affinity out) =
      (word_of_nat (new_size out), fold rm_insert (placement out) [])"
    using fold_remap_group[of 0 "group_by_affinity out" "[]"] placement_end[OF assms(1,3)] assms(4)
      group_by_affinity_wf[OF assms(1)]
    by (simp add: calc_remapping_def placement_def groups_wf_def)
  then have *: "after = word_of_nat (new_size out)" "rm = fold rm_insert (placement out) []"
    using assms(5) by auto
  show "after = word_of_nat (new_size out)" by (rule *)
  let ?key = "\<lambda>q :: size_t \<times> Segment \<times> nat. seg_start (fst (snd q))"
  let ?val = "\<lambda>q :: size_t \<times> Segment \<times> nat.
    Segment (word_of_nat (snd (snd q))) (word_of_nat (snd (snd q) + seg_len (fst (snd q))))"
  have rm: "rm = fold (\<lambda>q. smap_put (?key q) (?val q)) (placement out) []"
    unfolding *(2) by (rule fold_cong) (auto simp: rm_insert_def)
  note look = fold_put_lookup[OF smap_ok_Nil placement_starts[OF assms(1,2)], of ?val, folded rm]
  show "smap_ok rm" using look by blast
  show "map_of rm k = Some v \<longleftrightarrow> (\<exists>(a, s, p) \<in> set (placement out).
      k = seg_start s \<and> v = Segment (word_of_nat p) (word_of_nat (p + seg_len s)))"
    using look[of k v] by (simp add: case_prod_unfold)
qed

text \<open>The new place of a byte, looked up the way \<^verbatim>\<open>remap\<close> looks up the start of an access.\<close>

definition new_pos :: "(size_t \<times> Segment) list \<Rightarrow> size_t \<Rightarrow> size_t option" where
  "new_pos rm x =
     (case smap_floor rm x of
        None \<Rightarrow> None
      | Some (key, target) \<Rightarrow>
          if x - key < seg_end target - seg_start target then Some (seg_start target + (x - key)) else None)"

lemma placement_floor:
  assumes "aff_wf out" "aff_apart out" "out \<noteq> []" "new_size out < 2 ^ 64"
    and "calc_remapping (group_by_affinity out) = (after, rm)"
    and "(a, s, p) \<in> set (placement out)" "x \<in> seg_bytes s"
  shows "smap_floor rm x = Some (seg_start s, Segment (word_of_nat p) (word_of_nat (p + seg_len s)))"
proof (rule smap.floor_in_interval[where hi = "\<lambda>k v. k + (seg_end v - seg_start v)"])
  note rm = calc_remapping_placement[OF assms(1-5)]
  have out: "(s, a) \<in> set out" if "(a, s, p) \<in> set (placement out)" for a s p
    using placement_mem[OF assms(1)] that by blast
  have len: "seg_start s + word_of_nat (seg_len s) = seg_end s" if "(a, s, p) \<in> set (placement out)" for a s p
    using out[OF that] assms(1) word_seg_len[of s] by (auto simp: aff_wf_def)
  show "smap_ok rm" by (rule rm(2))
  show "map_of rm (seg_start s) = Some (Segment (word_of_nat p) (word_of_nat (p + seg_len s)))"
    unfolding rm(3) using assms(6) by auto
  show "seg_start s \<le> x" using assms(7) by (simp add: seg_bytes_def)
  show "x < seg_start s + (seg_end (Segment (word_of_nat p) (word_of_nat (p + seg_len s))) -
      seg_start (Segment (word_of_nat p) (word_of_nat (p + seg_len s))))"
    using assms(7) len[OF assms(6)] by (simp add: seg_bytes_def)
  fix k v k' v'
  assume "map_of rm k = Some v" "map_of rm k' = Some v'" "k < k'"
  then obtain b t q b' t' q' where t: "(b, t, q) \<in> set (placement out)" "(b', t', q') \<in> set (placement out)"
    and k: "k = seg_start t" "k' = seg_start t'" and v: "v = Segment (word_of_nat q) (word_of_nat (q + seg_len t))"
    unfolding rm(3) by auto
  have "k + (seg_end v - seg_start v) = seg_end t" using len[OF t(1)] by (simp add: k v)
  moreover have "seg_end t \<le> seg_start t'"
  proof -
    have "seg_end (fst (t, b)) \<le> seg_start (fst (t', b')) \<or> seg_end (fst (t', b')) \<le> seg_start (fst (t, b))"
      using assms(2) out[OF t(1)] out[OF t(2)] \<open>k < k'\<close> k unfolding aff_apart_def
      by (induction out) auto
    moreover have "seg_start t' < seg_end t'" using out[OF t(2)] assms(1) by (auto simp: aff_wf_def seg_wf_def)
    ultimately show ?thesis using \<open>k < k'\<close> k by auto
  qed
  ultimately show "k + (seg_end v - seg_start v) \<le> k'" by (simp add: k)
qed

text \<open>A byte of a placed range keeps its distance from the start of the range.\<close>

lemma placement_new_pos:
  assumes "aff_wf out" "aff_apart out" "out \<noteq> []" "new_size out < 2 ^ 64"
    and "calc_remapping (group_by_affinity out) = (after, rm)"
    and "(a, s, p) \<in> set (placement out)" "x \<in> seg_bytes s"
  shows "new_pos rm x = Some (word_of_nat (p + unat (x - seg_start s)))"
    and "p + unat (x - seg_start s) < p + seg_len s" and "p + seg_len s \<le> new_size out"
proof -
  have s: "seg_wf s" using placement_mem[OF assms(1)] assms(1,6) by (force simp: aff_wf_def)
  have x: "seg_start s \<le> x" "x < seg_end s" using assms(7) by (auto simp: seg_bytes_def)
  then have "unat (x - seg_start s) = unat x - unat (seg_start s)" "unat x < unat (seg_end s)"
    by (simp_all add: unat_sub word_less_nat_alt)
  with x show lt: "p + unat (x - seg_start s) < p + seg_len s"
    by (simp add: seg_len_def word_le_nat_alt)
  show "p + seg_len s \<le> new_size out"
    using place_groups_mem[of "(a, s, p)" 0 "group_by_affinity out"] assms(6) placement_end[OF assms(1,3)]
    by (simp add: placement_def)
  have "x - seg_start s < word_of_nat (seg_len s)"
    unfolding word_seg_len[OF s] using x by (simp add: word_less_nat_alt unat_sub word_le_nat_alt s[unfolded seg_wf_def] less_imp_le)
  then show "new_pos rm x = Some (word_of_nat (p + unat (x - seg_start s)))"
    using placement_floor[OF assms] by (simp add: new_pos_def)
qed

section \<open>Thread affinity\<close>

text \<open>All accesses as pairs of a thread and a range, in iteration order.\<close>

definition accesses :: "access_relation \<Rightarrow> (size_t \<times> Segment) list" where
  "accesses ar = concat (map (\<lambda>e. map (Pair (snd (fst e))) (snd e)) ar)"

lemma accesses_mem: "(t, s) \<in> set (accesses ar) \<longleftrightarrow> (\<exists>e \<in> set ar. snd (fst e) = t \<and> s \<in> set (snd e))"
  by (auto simp: accesses_def)

lemma foldE_concat: "foldE (\<lambda>p. foldE f (h p)) ps s = foldE f (concat (map h ps)) s"
proof (induction ps arbitrary: s)
  case (Cons p ps)
  then show ?case by (cases "foldE f (h p) s") (auto simp: foldE_append)
qed simp

lemma foldE_map: "foldE f (map h xs) = foldE (\<lambda>x. f (h x)) xs"
proof
  fix s
  show "foldE f (map h xs) s = foldE (\<lambda>x. f (h x)) xs s"
  proof (induction xs arbitrary: s)
    case (Cons x xs)
    then show ?case by (cases "f (h x) s") auto
  qed simp
qed

lemma get_thread_affinity_accesses:
  "get_thread_affinity ar = foldE (\<lambda>p. add_affinity (fst p) (snd p)) (accesses ar) []"
  unfolding get_thread_affinity_def accesses_def
  by (simp add: foldE_concat[symmetric] foldE_map)

lemma bit_fold_or:
  "bit (fold (\<lambda>x a. or a (f x)) xs c) i \<longleftrightarrow> bit c i \<or> (\<exists>x \<in> set xs. bit (f x) i)"
  for c :: "'a::len word"
  by (induction xs arbitrary: c) (auto simp: bit_or_iff)

lemma get_thread_affinity_ok:
  assumes "\<forall>p \<in> set (accesses ar). fst p < 31"
  obtains aff where "get_thread_affinity ar = Inr aff" "smap_ok aff"
    "fst ` set aff = snd ` set (accesses ar)"
    "\<forall>q \<in> set aff. \<forall>i. bit (snd q) i \<longleftrightarrow> (\<exists>t. (t, fst q) \<in> set (accesses ar) \<and> i = unat t)"
proof -
  define g where "g = (\<lambda>p :: size_t \<times> Segment. smap_alter (snd p) (\<lambda>a. or a (push_bit (unat (fst p)) (1 :: size_t))) 0)"
  let ?aff = "fold g (accesses ar) []"
  have eq: "get_thread_affinity ar = Inr ?aff"
    unfolding get_thread_affinity_accesses
  proof (rule foldE_total)
    fix p aff assume "p \<in> set (accesses ar)"
    with assms have "fst p < 31" by blast
    then have "fst p < 64" by (rule less_trans) simp
    with \<open>fst p < 31\<close> show "add_affinity (fst p) (snd p) aff = Inr (g p aff)"
      by (simp add: add_affinity_def thread_bit_def g_def)
  qed
  have ok: "smap_ok ?aff"
    unfolding g_def by (rule smap.ok_fold_alter) simp
  have look: "map_of ?aff s =
      (if s \<in> snd ` set (accesses ar)
       then Some (fold (\<lambda>p a. or a (push_bit (unat (fst p)) 1)) (filter (\<lambda>p. snd p = s) (accesses ar)) 0) else None)" for s
    using smap.lookup_fold_alter[of "[]" snd "\<lambda>p a. or a (push_bit (unat (fst p)) (1 :: size_t))" 0 "accesses ar" s]
    by (simp add: g_def)
  have dom: "fst ` set ?aff = snd ` set (accesses ar)"
    unfolding dom_map_of_conv_image_fst[symmetric] by (auto simp: dom_def look)
  have bits: "bit (snd q) i \<longleftrightarrow> (\<exists>t. (t, fst q) \<in> set (accesses ar) \<and> i = unat t)" if q: "q \<in> set ?aff" for q i
  proof -
    have "map_of ?aff (fst q) = Some (snd q)" using map_of_iff_smap[OF ok, of "fst q" "snd q"] q by simp
    then have "fold (\<lambda>p a. or a (push_bit (unat (fst p)) 1)) (filter (\<lambda>p. snd p = fst q) (accesses ar)) 0 = snd q"
      by (simp add: look split: if_splits)
    then have "bit (snd q) i \<longleftrightarrow> (\<exists>p \<in> set (accesses ar). snd p = fst q \<and> bit (push_bit (unat (fst p)) (1 :: size_t)) i)"
      using bit_fold_or[of "\<lambda>p. push_bit (unat (fst p)) 1" "filter (\<lambda>p. snd p = fst q) (accesses ar)" "0 :: size_t" i]
      by auto
    also have "\<dots> \<longleftrightarrow> (\<exists>p \<in> set (accesses ar). snd p = fst q \<and> i = unat (fst p))"
    proof (intro bex_cong refl conj_cong)
      fix p assume "p \<in> set (accesses ar)"
      with assms have "unat (fst p) < 31" by (auto simp: word_less_nat_alt)
      then show "bit (push_bit (unat (fst p)) (1 :: size_t)) i \<longleftrightarrow> i = unat (fst p)"
        by (auto simp: bit_simps)
    qed
    finally show ?thesis by force
  qed
  show thesis by (rule that[OF eq ok dom]) (use bits in blast)
qed

section \<open>The table of an allocation\<close>

text \<open>
  What the pass needs of its input: at least one access, non-empty ranges, thread numbers that the
  \<^verbatim>\<open>int\<close> shift can represent, and ends that leave room for the gaps.
\<close>

definition placeable :: "access_relation \<Rightarrow> bool" where
  "placeable ar \<longleftrightarrow> accesses ar \<noteq> [] \<and>
     (\<forall>p \<in> set (accesses ar). fst p < 31 \<and> seg_wf (snd p) \<and> seg_end (snd p) \<le> 2 ^ 57)"

text \<open>Bytes that one access covers together are linked; clusters are the chains of such links.\<close>

definition linked :: "access_relation \<Rightarrow> (size_t \<times> size_t) set" where
  "linked ar = {(x, y). \<exists>p \<in> set (accesses ar). x \<in> seg_bytes (snd p) \<and> y \<in> seg_bytes (snd p)}\<^sup>*"

definition cluster_threads :: "access_relation \<Rightarrow> size_t \<Rightarrow> size_t set" where
  "cluster_threads ar x =
     {t. \<exists>s y. (t, s) \<in> set (accesses ar) \<and> y \<in> seg_bytes s \<and> (x, y) \<in> linked ar}"

definition accessed :: "access_relation \<Rightarrow> size_t set" where
  "accessed ar = (\<Union>p \<in> set (accesses ar). seg_bytes (snd p))"

lemma apart_total_len:
  "aff_wf ps \<Longrightarrow> aff_apart ps \<Longrightarrow> \<forall>p \<in> set ps. unat (seg_end (fst p)) \<le> M \<Longrightarrow> ps \<noteq> [] \<Longrightarrow>
   unat (seg_start (fst (hd ps))) + sum_list (map (\<lambda>p. seg_len (fst p)) ps) \<le> M"
proof (induction ps)
  case (Cons p ps)
  have p: "unat (seg_start (fst p)) < unat (seg_end (fst p))" "unat (seg_end (fst p)) \<le> M"
    using Cons.prems by (auto simp: aff_wf_def seg_wf_def word_less_nat_alt)
  show ?case
  proof (cases "ps = []")
    case True
    with p show ?thesis by (simp add: seg_len_def)
  next
    case False
    then have "unat (seg_end (fst p)) \<le> unat (seg_start (fst (hd ps)))"
      using Cons.prems(2) by (auto simp: aff_apart_def word_le_nat_alt)
    moreover have "unat (seg_start (fst (hd ps))) + sum_list (map (\<lambda>p. seg_len (fst p)) ps) \<le> M"
      using Cons False by (auto simp: aff_wf_def aff_apart_def)
    ultimately show ?thesis using p by (simp add: seg_len_def)
  qed
qed simp

lemma length_le_total_len:
  "aff_wf ps \<Longrightarrow> length ps \<le> sum_list (map (\<lambda>p. seg_len (fst p)) ps)"
proof (induction ps)
  case (Cons p ps)
  then have "0 < seg_len (fst p)" by (simp add: aff_wf_def seg_len_pos)
  with Cons show ?case by (simp add: aff_wf_def)
qed simp

lemma new_size_bound:
  assumes "aff_wf out" "aff_apart out" "out \<noteq> []" "\<forall>p \<in> set out. seg_end (fst p) \<le> 2 ^ 57"
  shows "new_size out < 2 ^ 64"
proof -
  have "\<forall>p \<in> set out. unat (seg_end (fst p)) \<le> 2 ^ 57"
    using assms(4) by (auto simp: word_le_nat_alt)
  then have len: "sum_list (map (\<lambda>p. seg_len (fst p)) out) \<le> 2 ^ 57"
    using apart_total_len[OF assms(1,2) _ assms(3)] by (meson add_leD2)
  have "card (snd ` set out) \<le> length out"
    by (metis card_image_le card_length finite_set le_trans)
  also have "\<dots> \<le> 2 ^ 57" using length_le_total_len[OF assms(1)] len by linarith
  finally show ?thesis using len by (simp add: new_size_def)
qed

text \<open>
  The state of the placement after the merge: \<open>aff\<close> the affinity map, \<open>mid\<close> after joining
  overlaps, \<open>out\<close> the merged map.
\<close>

lemma ly_table_ok:
  assumes "placeable ar"
  obtains aff mid out after rm where "ly_table ar = Inr (after, rm)"
    and "calc_remapping (group_by_affinity out) = (after, rm)"
    and "aff_wf aff" "fst ` set aff = snd ` set (accesses ar)"
    and "\<forall>q \<in> set aff. \<forall>i. bit (snd q) i \<longleftrightarrow> (\<exists>t. (t, fst q) \<in> set (accesses ar) \<and> i = unat t)"
    and "aff_wf mid" "aff_apart mid" "joins aff mid"
    and "aff_wf out" "aff_apart out" "joins aff out" "out \<noteq> []"
    and "\<And>p. p \<in> set mid \<Longrightarrow> \<exists>q \<in> set out. within (fst p) (fst q) \<and> snd q = snd p"
    and "\<And>q. q \<in> set mid \<Longrightarrow> seg_bytes (fst q) \<times> seg_bytes (fst q) \<subseteq> linked ar"
    and "new_size out < 2 ^ 64"
proof -
  have "\<forall>p \<in> set (accesses ar). fst p < 31" using assms by (simp add: placeable_def)
  then obtain aff where aff: "get_thread_affinity ar = Inr aff" "smap_ok aff"
    and dom: "fst ` set aff = snd ` set (accesses ar)"
    and bits: "\<forall>q \<in> set aff. \<forall>i. bit (snd q) i \<longleftrightarrow> (\<exists>t. (t, fst q) \<in> set (accesses ar) \<and> i = unat t)"
    by (rule get_thread_affinity_ok)
  have mem: "\<exists>t. (t, fst q) \<in> set (accesses ar)" if "q \<in> set aff" for q
  proof -
    have "fst q \<in> snd ` set (accesses ar)" using dom that by blast
    then show ?thesis by force
  qed
  have wf: "aff_wf aff" using mem assms by (fastforce simp: aff_wf_def placeable_def)
  have ne: "aff \<noteq> []" using dom assms by (auto simp: placeable_def)
  obtain mid out where m: "merge_segments aff = Inr out"
    "aff_wf mid" "aff_apart mid" "joins aff mid" "aff_wf out" "aff_apart out" "joins aff out" "out \<noteq> []"
    "\<And>p. p \<in> set mid \<Longrightarrow> \<exists>q \<in> set out. within (fst p) (fst q) \<and> snd q = snd p"
    "\<And>E q. trans E \<Longrightarrow> \<forall>p \<in> set aff. seg_bytes (fst p) \<times> seg_bytes (fst p) \<subseteq> E \<Longrightarrow>
      q \<in> set mid \<Longrightarrow> seg_bytes (fst q) \<times> seg_bytes (fst q) \<subseteq> E"
    by (rule merge_segments_ok[OF aff(2) wf ne]) blast
  obtain after rm where rm: "calc_remapping (group_by_affinity out) = (after, rm)" by fastforce
  have "ly_table ar = Inr (after, rm)" by (simp add: ly_table_def aff m rm)
  moreover have "seg_bytes (fst q) \<times> seg_bytes (fst q) \<subseteq> linked ar" if "q \<in> set mid" for q
  proof (rule m(10)[OF _ _ that])
    show "trans (linked ar)" by (simp add: linked_def trans_rtrancl)
    show "\<forall>p \<in> set aff. seg_bytes (fst p) \<times> seg_bytes (fst p) \<subseteq> linked ar"
      using mem by (force simp: linked_def intro!: r_into_rtrancl)
  qed
  moreover have "new_size out < 2 ^ 64"
  proof (rule new_size_bound[OF m(5,6,8)], rule ballI)
    fix q assume q: "q \<in> set out"
    show "seg_end (fst q) \<le> 2 ^ 57"
    proof (rule ccontr)
      assume "\<not> seg_end (fst q) \<le> 2 ^ 57"
      then have "max (seg_start (fst q)) (2 ^ 57) \<in> seg_bytes (fst q)"
        using q m(5) by (auto simp: aff_wf_def seg_wf_def seg_bytes_def)
      then obtain p where p: "p \<in> set aff" "max (seg_start (fst q)) (2 ^ 57) \<in> seg_bytes (fst p)"
        using q m(7) by (auto simp: joins_def)
      obtain t where "(t, fst p) \<in> set (accesses ar)" using mem[OF p(1)] by blast
      then have "seg_end (fst p) \<le> 2 ^ 57" using assms by (auto simp: placeable_def)
      with p(2) show False by (auto simp: seg_bytes_def)
    qed
  qed
  ultimately show thesis
    using that rm wf dom bits m(2-9) by blast
qed

lemma mid_cluster:
  assumes dom: "fst ` set aff = snd ` set (accesses ar)"
    and bits: "\<forall>q \<in> set aff. \<forall>i. bit (snd q) i \<longleftrightarrow> (\<exists>t. (t, fst q) \<in> set (accesses ar) \<and> i = unat t)"
    and mid: "aff_wf mid" "aff_apart mid" "joins aff mid" "aff_wf aff"
    and link: "\<And>q. q \<in> set mid \<Longrightarrow> seg_bytes (fst q) \<times> seg_bytes (fst q) \<subseteq> linked ar"
    and m: "m \<in> set mid" "x \<in> seg_bytes (fst m)"
  shows "cluster_threads ar x = {t. bit (snd m) (unat t)}"
proof -
  have up: "\<exists>q \<in> set mid. within s (fst q)" if "(t, s) \<in> set (accesses ar)" for t s
  proof -
    have "s \<in> fst ` set aff" unfolding dom using that by force
    then show ?thesis using mid(3) by (auto simp: joins_def)
  qed
  have wfs: "seg_wf s" if "(t, s) \<in> set (accesses ar)" for t s
  proof -
    have "s \<in> fst ` set aff" unfolding dom using that by force
    then show ?thesis using mid(4) by (auto simp: aff_wf_def)
  qed
  have stay: "within s (fst m)" if s: "(t, s) \<in> set (accesses ar)" "z \<in> seg_bytes s" "z \<in> seg_bytes (fst m)" for t s z
  proof -
    obtain q where q: "q \<in> set mid" "within s (fst q)" using up[OF s(1)] by blast
    then have "z \<in> seg_bytes (fst q)" using s(2) by (auto simp: within_def seg_bytes_def)
    then have "q = m" using apart_same[OF mid(2,1) q(1) m(1)] s(3) by blast
    with q show ?thesis by simp
  qed
  have in_m: "y \<in> seg_bytes (fst m)" if "(x, y) \<in> linked ar" for y
    using that unfolding linked_def
  proof (induction rule: rtrancl_induct)
    case (step y z)
    then obtain t s where s: "(t, s) \<in> set (accesses ar)" "y \<in> seg_bytes s" "z \<in> seg_bytes s" by auto
    then show ?case using stay[OF s(1,2) step.IH] by (auto simp: within_def seg_bytes_def)
  qed (rule m(2))
  have "(\<exists>s y. (t, s) \<in> set (accesses ar) \<and> y \<in> seg_bytes s \<and> (x, y) \<in> linked ar) \<longleftrightarrow>
      (\<exists>s. (t, s) \<in> set (accesses ar) \<and> within s (fst m))" (is "?L \<longleftrightarrow> ?R") for t
  proof
    assume ?L
    then show ?R using stay in_m by blast
  next
    assume ?R
    then obtain s where s: "(t, s) \<in> set (accesses ar)" "within s (fst m)" by blast
    then have "seg_start s \<in> seg_bytes s" "seg_start s \<in> seg_bytes (fst m)"
      using wfs[OF s(1)] by (auto simp: seg_bytes_def within_def seg_wf_def)
    with link[OF m(1)] m(2) s(1) show ?L by blast
  qed
  moreover have "bit (snd m) (unat t) \<longleftrightarrow> (\<exists>s. (t, s) \<in> set (accesses ar) \<and> within s (fst m))" for t
  proof -
    have "bit (snd m) (unat t) \<longleftrightarrow> (\<exists>p \<in> set aff. within (fst p) (fst m) \<and> bit (snd p) (unat t))"
      using mid(3) m(1) by (auto simp: joins_def)
    also have "\<dots> \<longleftrightarrow> (\<exists>p \<in> set aff. within (fst p) (fst m) \<and> (t, fst p) \<in> set (accesses ar))"
      using bits by (metis word_unat_eq_iff)
    also have "\<dots> \<longleftrightarrow> (\<exists>s \<in> fst ` set aff. (t, s) \<in> set (accesses ar) \<and> within s (fst m))"
      by blast
    finally show ?thesis unfolding dom by force
  qed
  ultimately show ?thesis by (simp add: cluster_threads_def)
qed

text \<open>
  Where an accessed byte goes: into a placed range whose affinity is the set of threads of the
  byte's cluster.
\<close>

definition table_places :: "access_relation \<Rightarrow> affinity \<Rightarrow> size_t \<Rightarrow> (size_t \<times> Segment) list \<Rightarrow> bool" where
  "table_places ar out after rm \<longleftrightarrow>
     aff_wf out \<and> aff_apart out \<and> out \<noteq> [] \<and> new_size out < 2 ^ 64 \<and>
     calc_remapping (group_by_affinity out) = (after, rm) \<and>
     (\<forall>x \<in> accessed ar. \<exists>q \<in> set out. x \<in> seg_bytes (fst q)) \<and>
     (\<forall>q \<in> set out. seg_bytes (fst q) \<subseteq> accessed ar \<and>
        (\<forall>x \<in> seg_bytes (fst q). cluster_threads ar x = {t. bit (snd q) (unat t)})) \<and>
     (\<forall>p \<in> set (accesses ar). \<exists>q \<in> set out. within (snd p) (fst q))"

lemma ly_table_places:
  assumes "placeable ar"
  obtains out after rm where "ly_table ar = Inr (after, rm)" "table_places ar out after rm"
proof (rule ly_table_ok[OF assms])
  fix aff mid out after rm
  assume tab: "ly_table ar = Inr (after, rm)" "calc_remapping (group_by_affinity out) = (after, rm)"
    and aff: "aff_wf aff" and dom: "fst ` set aff = snd ` set (accesses ar)"
    and bits: "\<forall>q \<in> set aff. \<forall>i. bit (snd q) i \<longleftrightarrow> (\<exists>t. (t, fst q) \<in> set (accesses ar) \<and> i = unat t)"
    and mid: "aff_wf mid" "aff_apart mid" "joins aff mid"
    and out: "aff_wf out" "aff_apart out" "joins aff out" "out \<noteq> []"
    and same: "\<And>p. p \<in> set mid \<Longrightarrow> \<exists>q \<in> set out. within (fst p) (fst q) \<and> snd q = snd p"
    and link: "\<And>q. q \<in> set mid \<Longrightarrow> seg_bytes (fst q) \<times> seg_bytes (fst q) \<subseteq> linked ar"
    and size: "new_size out < 2 ^ 64"
  have acc: "x \<in> accessed ar \<longleftrightarrow> (\<exists>p \<in> set aff. x \<in> seg_bytes (fst p))" for x
  proof -
    have "accessed ar = (\<Union>s \<in> snd ` set (accesses ar). seg_bytes s)" by (auto simp: accessed_def)
    then show ?thesis unfolding dom[symmetric] by auto
  qed
  have within_out: "\<exists>q \<in> set out. within (snd p) (fst q)" if "p \<in> set (accesses ar)" for p
  proof -
    have "snd p \<in> fst ` set aff" unfolding dom using that by blast
    then obtain r where "r \<in> set aff" "fst r = snd p" by (metis imageE)
    then show ?thesis using out(3) unfolding joins_def by metis
  qed
  have cl: "cluster_threads ar x = {t. bit (snd q) (unat t)}" and "x \<in> accessed ar"
    if q: "q \<in> set out" "x \<in> seg_bytes (fst q)" for q x
  proof -
    obtain p where p: "p \<in> set aff" "x \<in> seg_bytes (fst p)" using out(3) q by (auto simp: joins_def)
    then show "x \<in> accessed ar" using acc by blast
    obtain m where m: "m \<in> set mid" "x \<in> seg_bytes (fst m)"
      using mid(3) p by (fastforce simp: joins_def within_def seg_bytes_def)
    obtain q' where q': "q' \<in> set out" "within (fst m) (fst q')" "snd q' = snd m" using same[OF m(1)] by blast
    then have "x \<in> seg_bytes (fst q')" using m(2) by (auto simp: within_def seg_bytes_def)
    then have "q' = q" using apart_same[OF out(2,1) q'(1) q(1)] q(2) by blast
    then show "cluster_threads ar x = {t. bit (snd q) (unat t)}"
      using mid_cluster[OF dom bits mid aff link m] q'(3) by simp
  qed
  have "\<exists>q \<in> set out. x \<in> seg_bytes (fst q)" if x: "x \<in> accessed ar" for x
  proof -
    obtain p where p: "p \<in> set (accesses ar)" "x \<in> seg_bytes (snd p)" using x by (auto simp: accessed_def)
    obtain q where "q \<in> set out" "within (snd p) (fst q)" using within_out[OF p(1)] by blast
    with p(2) show ?thesis using within_byte by blast
  qed
  then have "table_places ar out after rm"
    using tab(2) out cl size within_out \<open>\<And>x q. q \<in> set out \<Longrightarrow> x \<in> seg_bytes (fst q) \<Longrightarrow> x \<in> accessed ar\<close>
    unfolding table_places_def by blast
  with tab(1) show thesis by (rule that)
qed

section \<open>Consequences for the accessed bytes\<close>

lemma sorted_wrt_pair: "sorted_wrt P xs \<Longrightarrow> a \<in> set xs \<Longrightarrow> b \<in> set xs \<Longrightarrow> a = b \<or> P a b \<or> P b a"
  by (induction xs) auto

lemma table_new_pos:
  assumes "table_places ar out after rm" "x \<in> accessed ar"
  obtains a s p d where "(a, s, p) \<in> set (placement out)" "x \<in> seg_bytes s" "d = unat (x - seg_start s)"
    "cluster_threads ar x = {t. bit a (unat t)}" "d < seg_len s" "p + seg_len s \<le> new_size out"
    "new_pos rm x = Some (word_of_nat (p + d))" "unat (word_of_nat (p + d) :: size_t) = p + d"
proof -
  obtain q where q: "q \<in> set out" "x \<in> seg_bytes (fst q)" using assms by (auto simp: table_places_def)
  have wf: "aff_wf out" "aff_apart out" "out \<noteq> []" "new_size out < 2 ^ 64"
      "calc_remapping (group_by_affinity out) = (after, rm)"
    using assms(1) by (simp_all add: table_places_def)
  obtain p where p: "(snd q, fst q, p) \<in> set (placement out)"
    using placement_mem[OF wf(1), of "snd q" "fst q"] q(1) by auto
  note pos = placement_new_pos[OF wf p q(2)]
  have "unat (word_of_nat (p + unat (x - seg_start (fst q))) :: size_t) = p + unat (x - seg_start (fst q))"
    using pos(2,3) wf(4) by (simp add: unat_of_nat del: of_nat_add)
  moreover have "cluster_threads ar x = {t. bit (snd q) (unat t)}" using assms(1) q by (auto simp: table_places_def)
  ultimately show thesis using that[OF p q(2) refl] pos by simp
qed

lemma table_separates:
  assumes "table_places ar out after rm" "x \<in> accessed ar" "y \<in> accessed ar"
    and "new_pos rm x = Some u" "new_pos rm y = Some v"
    and "(base + unat u) div 64 = (base + unat v) div 64"
  shows "cluster_threads ar x = cluster_threads ar y"
proof -
  obtain a s p d where x: "(a, s, p) \<in> set (placement out)" "cluster_threads ar x = {t. bit a (unat t)}"
    "d < seg_len s" "unat u = p + d"
    using table_new_pos[OF assms(1,2)] assms(4) by (metis option.inject)
  obtain b r q e where y: "(b, r, q) \<in> set (placement out)" "cluster_threads ar y = {t. bit b (unat t)}"
    "e < seg_len r" "unat v = q + e"
    using table_new_pos[OF assms(1,3)] assms(5) by (metis option.inject)
  have "a = b"
  proof (rule ccontr)
    assume "a \<noteq> b"
    have "placed_apart (placement out)" using assms(1) by (simp add: table_places_def placement_apart)
    then have "p + seg_len s + 64 \<le> q \<or> q + seg_len r + 64 \<le> p"
      using sorted_wrt_pair[OF _ x(1) y(1), of "\<lambda>p q. snd (snd p) + seg_len (fst (snd p)) +
        (if fst p \<noteq> fst q then 64 else 0) \<le> snd (snd q)"] \<open>a \<noteq> b\<close> by (auto simp: placed_apart_def)
    then have "unat u + 64 \<le> unat v \<or> unat v + 64 \<le> unat u" using x(3,4) y(3,4) by linarith
    with assms(6) show False by linarith
  qed
  with x y show ?thesis by simp
qed

lemma table_injective:
  assumes "table_places ar out after rm" "x \<in> accessed ar" "y \<in> accessed ar"
    and "new_pos rm x = new_pos rm y"
  shows "x = y"
proof -
  obtain a s p d where x: "(a, s, p) \<in> set (placement out)" "x \<in> seg_bytes s" "d = unat (x - seg_start s)"
    "d < seg_len s" "new_pos rm x = Some (word_of_nat (p + d))" "unat (word_of_nat (p + d) :: size_t) = p + d"
    using table_new_pos[OF assms(1,2)] by metis
  obtain b r q e where y: "(b, r, q) \<in> set (placement out)" "y \<in> seg_bytes r" "e = unat (y - seg_start r)"
    "e < seg_len r" "new_pos rm y = Some (word_of_nat (q + e))" "unat (word_of_nat (q + e) :: size_t) = q + e"
    using table_new_pos[OF assms(1,3)] by metis
  have eq: "p + d = q + e" using x(5,6) y(5,6) assms(4) by simp
  have "placed_apart (placement out)" using assms(1) by (simp add: table_places_def placement_apart)
  then have "(a, s, p) = (b, r, q) \<or> p + seg_len s \<le> q \<or> q + seg_len r \<le> p"
    using sorted_wrt_pair[OF _ x(1) y(1), of "\<lambda>p q. snd (snd p) + seg_len (fst (snd p)) +
      (if fst p \<noteq> fst q then 64 else 0) \<le> snd (snd q)"] by (auto simp: placed_apart_def)
  then have "s = r" "p = q" using eq x(4) y(4) by auto
  with eq x(3) y(3) have "unat (x - seg_start s) = unat (y - seg_start s)" by simp
  then show ?thesis by (simp add: word_unat_eq_iff[symmetric])
qed

lemma table_contiguous:
  assumes "table_places ar out after rm" "p \<in> set (accesses ar)" "x \<in> seg_bytes (snd p)"
  shows "\<exists>u. new_pos rm (seg_start (snd p)) = Some u \<and> new_pos rm x = Some (u + (x - seg_start (snd p)))"
proof -
  let ?s = "snd p"
  obtain q where q: "q \<in> set out" "within ?s (fst q)" using assms(1,2) by (auto simp: table_places_def)
  have wf: "aff_wf out" "aff_apart out" "out \<noteq> []" "new_size out < 2 ^ 64"
      "calc_remapping (group_by_affinity out) = (after, rm)"
    using assms(1) by (simp_all add: table_places_def)
  obtain n where n: "(snd q, fst q, n) \<in> set (placement out)"
    using placement_mem[OF wf(1), of "snd q" "fst q"] q(1) by auto
  have "seg_start ?s \<in> seg_bytes (fst q)" "x \<in> seg_bytes (fst q)"
    using q(2) assms(3) by (auto simp: within_def seg_bytes_def)
  then have "new_pos rm (seg_start ?s) = Some (word_of_nat n + (seg_start ?s - seg_start (fst q)))"
    "new_pos rm x = Some (word_of_nat n + (x - seg_start (fst q)))"
    using placement_new_pos(1)[OF wf n] by simp_all
  then show ?thesis by simp
qed

text \<open>The new size counts the accessed bytes and one cache line between groups.\<close>

lemma card_seg_bytes: "card (seg_bytes s) = seg_len s"
proof -
  have "unat ` seg_bytes s = {unat (seg_start s) ..< unat (seg_end s)}"
  proof (intro equalityI subsetI)
    fix n assume n: "n \<in> {unat (seg_start s) ..< unat (seg_end s)}"
    then have "n < 2 ^ 64" using unsigned_less[of "seg_end s", where ?'a = nat] by auto
    then have "unat (word_of_nat n :: size_t) = n" by (simp add: unat_of_nat)
    with n show "n \<in> unat ` seg_bytes s"
      by (intro image_eqI[of _ _ "word_of_nat n"]) (auto simp: seg_bytes_def word_le_nat_alt word_less_nat_alt)
  qed (auto simp: seg_bytes_def word_le_nat_alt word_less_nat_alt)
  then have "card (unat ` seg_bytes s) = seg_len s" by (simp add: seg_len_def)
  moreover have "card (unat ` seg_bytes s) = card (seg_bytes s)"
    by (rule card_image) (simp add: inj_on_def word_unat_eq_iff)
  ultimately show ?thesis by simp
qed

lemma card_apart:
  "aff_wf ps \<Longrightarrow> aff_apart ps \<Longrightarrow>
   card (\<Union>p \<in> set ps. seg_bytes (fst p)) = sum_list (map (\<lambda>p. seg_len (fst p)) ps)"
proof (induction ps)
  case (Cons p ps)
  have "seg_bytes (fst p) \<inter> (\<Union>p \<in> set ps. seg_bytes (fst p)) = {}"
    using Cons.prems(2) by (fastforce simp: aff_apart_def seg_bytes_def)
  then have "card (seg_bytes (fst p) \<union> (\<Union>p \<in> set ps. seg_bytes (fst p))) =
      card (seg_bytes (fst p)) + card (\<Union>p \<in> set ps. seg_bytes (fst p))"
    by (intro card_Un_disjoint) auto
  with Cons show ?case by (simp add: card_seg_bytes aff_wf_def aff_apart_def)
qed simp

lemma bits_inj: "{t :: size_t. bit a (unat t)} = {t. bit b (unat t)} \<Longrightarrow> a = b" for a b :: size_t
proof (rule bit_word_eqI)
  fix n assume "{t :: size_t. bit a (unat t)} = {t. bit b (unat t)}" "n < LENGTH(64)"
  moreover have "unat (word_of_nat n :: size_t) = n" using \<open>n < LENGTH(64)\<close> by (simp add: unat_of_nat)
  ultimately show "bit a n \<longleftrightarrow> bit b n" by (metis (mono_tags) mem_Collect_eq)
qed

lemma table_size:
  assumes "table_places ar out after rm"
  shows "unat after = card (accessed ar) + 64 * (card (cluster_threads ar ` accessed ar) - 1)"
proof -
  have wf: "aff_wf out" "aff_apart out" "out \<noteq> []" "new_size out < 2 ^ 64"
      "calc_remapping (group_by_affinity out) = (after, rm)"
    using assms by (simp_all add: table_places_def)
  have "accessed ar = (\<Union>q \<in> set out. seg_bytes (fst q))"
    using assms unfolding table_places_def by blast
  then have acc: "card (accessed ar) = sum_list (map (\<lambda>p. seg_len (fst p)) out)" and
    im: "cluster_threads ar ` accessed ar = (\<Union>q \<in> set out. cluster_threads ar ` seg_bytes (fst q))"
    using card_apart[OF wf(1,2)] by auto
  have "cluster_threads ar ` seg_bytes (fst q) = {{t. bit (snd q) (unat t)}}" if q: "q \<in> set out" for q
  proof -
    have "seg_start (fst q) \<in> seg_bytes (fst q)" using wf(1) q by (auto simp: aff_wf_def seg_wf_def seg_bytes_def)
    with assms q show ?thesis unfolding table_places_def by force
  qed
  then have "cluster_threads ar ` accessed ar = (\<lambda>a. {t. bit a (unat t)}) ` (snd ` set out)"
    unfolding im by auto
  then have "card (cluster_threads ar ` accessed ar) = card (snd ` set out)"
    using bits_inj by (simp add: card_image inj_on_def)
  moreover have "after = word_of_nat (new_size out)"
    using calc_remapping_placement(1)[OF wf] .
  moreover have "unat (word_of_nat (new_size out) :: size_t) = new_size out"
    using wf(4) by (simp add: unat_of_nat)
  ultimately show ?thesis using acc by (simp only: new_size_def)
qed

section \<open>The printed lines\<close>

definition line_offset :: "(size_t \<times> Segment) list \<Rightarrow> Segment \<Rightarrow> size_t" where
  "line_offset rm s = value_or 0 (new_pos rm (seg_start s)) - seg_start s"

definition entry_lines :: "(size_t \<times> Segment) list \<Rightarrow> (PC \<times> size_t) \<times> Segment list \<Rightarrow> remap_line list" where
  "entry_lines rm e =
     (let ls = map (\<lambda>s. (snd (fst e), seg_start s, seg_start s + line_offset rm s)) (snd e)
      in if \<forall>s \<in> set (snd e). line_offset rm s = line_offset rm (hd (snd e)) then take 1 ls else ls)"

lemma remap_one_total:
  assumes "table_places ar out after rm" "(t, s) \<in> set (accesses ar)" "seg_wf s"
  shows "remap_one rm t s st =
    Inr (ae_next (line_offset rm s) (fst st), snd st @ [(t, seg_start s, seg_start s + line_offset rm s)])"
proof -
  obtain q where q: "q \<in> set out" "within s (fst q)" using assms(1,2) by (fastforce simp: table_places_def)
  have wf: "aff_wf out" "aff_apart out" "out \<noteq> []" "new_size out < 2 ^ 64"
      "calc_remapping (group_by_affinity out) = (after, rm)"
    using assms(1) by (simp_all add: table_places_def)
  obtain n where n: "(snd q, fst q, n) \<in> set (placement out)"
    using placement_mem[OF wf(1), of "snd q" "fst q"] q(1) by auto
  have mem: "seg_start s \<in> seg_bytes (fst q)"
    using within_byte[OF q(2)] assms(3) by (simp add: seg_bytes_def seg_wf_def)
  have off: "line_offset rm s = word_of_nat n - seg_start (fst q)"
    using placement_new_pos(1)[OF wf n mem] by (simp add: line_offset_def)
  have "seg_wf (fst q)" using wf(1) q(1) by (simp add: aff_wf_def)
  then have "seg_start (fst q) + word_of_nat (seg_len (fst q)) = seg_end (fst q)" by (simp add: word_seg_len)
  with q(2) show ?thesis
    using placement_floor[OF wf n mem] by (simp add: remap_one_def off within_def Let_def)
qed

lemma foldE_remap_one:
  assumes "table_places ar out after rm" "\<forall>s \<in> set ss. (t, s) \<in> set (accesses ar) \<and> seg_wf s"
  shows "foldE (remap_one rm t) ss st = Inr (fold ae_next (map (line_offset rm) ss) (fst st),
    snd st @ map (\<lambda>s. (t, seg_start s, seg_start s + line_offset rm s)) ss)"
  using assms(2)
proof (induction ss arbitrary: st)
  case (Cons s ss)
  then show ?case by (simp add: remap_one_total[OF assms(1)])
qed simp

lemma remap_entry_total:
  assumes "table_places ar out after rm" "\<forall>p \<in> set (accesses ar). seg_wf (snd p)" "e \<in> set ar"
  shows "remap_entry rm e lines = Inr (fold (mmap_emplace (fst (fst e))) (entry_lines rm e) lines)"
proof -
  have "\<forall>s \<in> set (snd e). (snd (fst e), s) \<in> set (accesses ar) \<and> seg_wf s"
  proof
    fix s assume "s \<in> set (snd e)"
    then have "(snd (fst e), s) \<in> set (accesses ar)" using assms(3) accesses_mem by blast
    with assms(2) show "(snd (fst e), s) \<in> set (accesses ar) \<and> seg_wf s" by fastforce
  qed
  note fold = foldE_remap_one[OF assms(1) this, of "(ae_init, [])"]
  have "(\<forall>x \<in> set (map (line_offset rm) (snd e)). x = hd (map (line_offset rm) (snd e))) \<longleftrightarrow>
      (\<forall>s \<in> set (snd e). line_offset rm s = line_offset rm (hd (snd e)))"
    by (cases "snd e") auto
  then have "ae_is_all_equal (fold ae_next (map (line_offset rm) (snd e)) ae_init) \<longleftrightarrow>
      (\<forall>s \<in> set (snd e). line_offset rm s = line_offset rm (hd (snd e)))"
    by (simp only: ae_all_equal)
  moreover have "take 1 ls = (if ls = [] then [] else [hd ls])" for ls :: "remap_line list"
    by (cases ls) auto
  ultimately show ?thesis
    unfolding remap_entry_def entry_lines_def Let_def fold by (simp add: if_distrib if_distribR)
qed

lemma remap_total:
  assumes "table_places ar out after rm" "\<forall>p \<in> set (accesses ar). seg_wf (snd p)"
  shows "remap rm ar = Inr (fold (\<lambda>e. fold (mmap_emplace (fst (fst e))) (entry_lines rm e)) ar [])"
  unfolding remap_def using remap_entry_total[OF assms] by (intro foldE_total) auto

lemma mset_remap_lines:
  "mset (fold (\<lambda>e. fold (mmap_emplace (fst (fst e))) (entry_lines rm e)) ar lines) =
   mset (concat (map (\<lambda>e. map (Pair (fst (fst e))) (entry_lines rm e)) ar)) + mset lines"
proof -
  have step: "mset (fold (mmap_emplace k) ls m) = mset (map (Pair k) ls) + mset m"
    for k :: PC and ls :: "remap_line list" and m
    by (induction ls arbitrary: m) auto
  show ?thesis by (induction ar arbitrary: lines) (auto simp: step)
qed

end
