(* ===== verification/PP_Input.thy ===== *)
theory PP_Input
  imports PP_Layout
begin

text \<open>
  From the list of accesses that the detection pass hands over to the access relation of a
  layout: what the inserts and the normalisation leave, why their order does not matter, and that
  a layout without a target thread count is always computed when the input is in range.
\<close>

declare split_paired_All [simp del] split_paired_Ex [simp del]

section \<open>The inserts\<close>

definition ins_seg :: "layout \<Rightarrow> rec_t \<Rightarrow> Segment" where
  "ins_seg ly p =
     (case ly_analysis ly of
        None \<Rightarrow> fst p
      | Some an \<Rightarrow> (case get_seg_by_pc an (fst (snd p)) of
          None \<Rightarrow> fst p
        | Some g \<Rightarrow> shift_by g (seg_start (fst p) div ly_m_single_size ly * ly_m_single_size ly) True))"

definition ins_bad :: "layout \<Rightarrow> rec_t \<Rightarrow> bool" where
  "ins_bad ly p \<longleftrightarrow> ly_m_single_size ly = 0 \<and>
     (\<exists>an. ly_analysis ly = Some an \<and> get_seg_by_pc an (fst (snd p)) \<noteq> None)"

definition ins_all :: "rec_t list \<Rightarrow> layout \<Rightarrow> layout" where
  "ins_all ps ly =
     fold (\<lambda>p ly'. ly_push (fst (snd p)) (snd (snd p)) (ins_seg ly p) (seg_end (fst p)) ly') ps ly"

lemma ly_push_sel [simp]:
  "ly_analysis (ly_push pc t s r ly) = ly_analysis ly"
  "ly_m_single_size (ly_push pc t s r ly) = ly_m_single_size ly"
  "ly_target_thread_count (ly_push pc t s r ly) = ly_target_thread_count ly"
  "ly_access_relation (ly_push pc t s r ly) =
     smap_alter (pc, t) (\<lambda>segs. segs @ [s]) [] (ly_access_relation ly)"
  "ly_range_max (ly_push pc t s r ly) = max (ly_range_max ly) r"
  by (simp_all add: ly_push_def)

lemma ins_seg_push [simp]: "ins_seg (ly_push pc t s r ly) = ins_seg ly"
  by (simp add: ins_seg_def fun_eq_iff split: option.split)

lemma ins_bad_push [simp]: "ins_bad (ly_push pc t s r ly) = ins_bad ly"
  by (simp add: ins_bad_def fun_eq_iff)

lemma ly_insert_eq:
  "ly_insert (fst (snd p)) (snd (snd p)) (fst p) ly =
     (if ins_bad ly p then Inl (Undefined ''division by zero'')
      else Inr (ly_push (fst (snd p)) (snd (snd p)) (ins_seg ly p) (seg_end (fst p)) ly))"
  by (simp add: ly_insert_def ins_bad_def ins_seg_def Let_def split: option.splits)

lemma foldE_ly_insert:
  "foldE (\<lambda>p. ly_insert (fst (snd p)) (snd (snd p)) (fst p)) ps ly =
     (if \<exists>p \<in> set ps. ins_bad ly p then Inl (Undefined ''division by zero'') else Inr (ins_all ps ly))"
  by (induction ps arbitrary: ly) (auto simp: ly_insert_eq ins_all_def)

lemma ins_all_sel:
  "ly_remapping_lines (ins_all ps ly) = ly_remapping_lines ly"
  "ly_after_mapped (ins_all ps ly) = ly_after_mapped ly"
  "ly_target_thread_count (ins_all ps ly) = ly_target_thread_count ly"
  "ly_analysis (ins_all ps ly) = ly_analysis ly"
  "ly_m_single_size (ins_all ps ly) = ly_m_single_size ly"
  "ly_range_max (ins_all ps ly) = fold (\<lambda>p r. max r (seg_end (fst p))) ps (ly_range_max ly)"
  "ly_access_relation (ins_all ps ly) =
     fold (\<lambda>p. smap_alter (snd p) (\<lambda>segs. segs @ [ins_seg ly p]) []) ps (ly_access_relation ly)"
proof -
  let ?f = "\<lambda>p ly'. ly_push (fst (snd p)) (snd (snd p)) (ins_seg ly p) (seg_end (fst p)) ly'"
  have "ly_remapping_lines (fold ?f ps l) = ly_remapping_lines l \<and> ly_after_mapped (fold ?f ps l) = ly_after_mapped l \<and>
      ly_target_thread_count (fold ?f ps l) = ly_target_thread_count l \<and>
      ly_analysis (fold ?f ps l) = ly_analysis l \<and> ly_m_single_size (fold ?f ps l) = ly_m_single_size l \<and>
      ly_range_max (fold ?f ps l) = fold (\<lambda>p r. max r (seg_end (fst p))) ps (ly_range_max l) \<and>
      ly_access_relation (fold ?f ps l) =
        fold (\<lambda>p. smap_alter (snd p) (\<lambda>segs. segs @ [ins_seg ly p]) []) ps (ly_access_relation l)" for l
    by (induction ps arbitrary: l) (auto simp: ly_push_def)
  then show "ly_remapping_lines (ins_all ps ly) = ly_remapping_lines ly"
    "ly_after_mapped (ins_all ps ly) = ly_after_mapped ly"
    "ly_target_thread_count (ins_all ps ly) = ly_target_thread_count ly"
    "ly_analysis (ins_all ps ly) = ly_analysis ly"
    "ly_m_single_size (ins_all ps ly) = ly_m_single_size ly"
    "ly_range_max (ins_all ps ly) = fold (\<lambda>p r. max r (seg_end (fst p))) ps (ly_range_max ly)"
    "ly_access_relation (ins_all ps ly) =
       fold (\<lambda>p. smap_alter (snd p) (\<lambda>segs. segs @ [ins_seg ly p]) []) ps (ly_access_relation ly)"
    by (auto simp: ins_all_def)
qed

lemma ins_all_relation:
  assumes "ly_access_relation ly = []"
  shows "smap_ok (ly_access_relation (ins_all ps ly))"
    and "map_of (ly_access_relation (ins_all ps ly)) k =
      (if k \<in> snd ` set ps then Some (map (ins_seg ly) (filter (\<lambda>p. snd p = k) ps)) else None)"
  using smap.ok_fold_alter[of "[]" snd "\<lambda>p segs. segs @ [ins_seg ly p]" "[]" ps]
    smap.lookup_fold_alter[of "[]" snd "\<lambda>p segs. segs @ [ins_seg ly p]" "[]" ps k]
  by (auto simp: ins_all_sel assms fold_snoc)

section \<open>The normalised relation\<close>

definition normalise :: "layout \<Rightarrow> layout" where
  "normalise ly = ly\<lparr>ly_access_relation :=
     map (\<lambda>p. (fst p, normalise_segs (snd p))) (ly_access_relation ly)\<rparr>"

lemma ly_compute_normalise:
  "ly_compute ly =
     bindE (if ly_target_thread_count ly \<noteq> - 1
            then bindE (is_linear (normalise ly)) (\<lambda>(linear, ly').
                   if linear then extra_polate (ly_target_thread_count ly') ly' else Inr ly')
            else Inr (normalise ly)) ly_place"
  by (simp add: ly_compute_def normalise_def Let_def)

lemma map_of_map_snd: "map_of (map (\<lambda>p. (fst p, f (snd p))) m) k = map_option f (map_of m k)"
  by (induction m) auto

lemma normalise_perm:
  assumes "mset ps = mset qs" "ly_access_relation ly = []"
  shows "normalise (ins_all ps ly) = normalise (ins_all qs ly)"
proof -
  let ?norm = "\<lambda>ps. map (\<lambda>p. (fst p, normalise_segs (snd p))) (ly_access_relation (ins_all ps ly))"
  have set: "set ps = set qs" using assms(1) by (metis set_mset_mset)
  have srt: "normalise_segs (map (ins_seg ly) (filter (\<lambda>p. snd p = k) ps)) =
      normalise_segs (map (ins_seg ly) (filter (\<lambda>p. snd p = k) qs))" for k
  proof -
    have "mset (map (ins_seg ly) (filter (\<lambda>p. snd p = k) ps)) = mset (map (ins_seg ly) (filter (\<lambda>p. snd p = k) qs))"
      using assms(1) by (simp add: mset_map mset_filter)
    then have "sort (map (ins_seg ly) (filter (\<lambda>p. snd p = k) ps)) = sort (map (ins_seg ly) (filter (\<lambda>p. snd p = k) qs))"
      by (intro properties_for_sort) auto
    then show ?thesis by (simp add: normalise_segs_def)
  qed
  have "?norm ps = ?norm qs"
  proof (rule smap_ext)
    show "map_of (?norm ps) = map_of (?norm qs)"
      by (rule ext) (simp add: map_of_map_snd ins_all_relation(2)[OF assms(2)] set srt)
  qed (simp_all add: ins_all_relation[OF assms(2)])
  moreover have "fold (\<lambda>p r. max r (seg_end (fst p))) ps r = fold (\<lambda>p r. max r (seg_end (fst p))) qs r"
    for r :: size_t
    by (rule fun_cong[OF fold_multiset_equiv[OF _ assms(1)]]) (auto simp: max.assoc max.commute max.left_commute)
  ultimately show ?thesis
    by (intro layout.equality) (simp_all add: normalise_def ins_all_sel)
qed

section \<open>Layouts without extrapolation\<close>

definition input_ok :: "rec_t list \<Rightarrow> bool" where
  "input_ok api \<longleftrightarrow> api \<noteq> [] \<and>
     (\<forall>p \<in> set api. seg_wf (fst p) \<and> seg_end (fst p) \<le> 2 ^ 57 \<and> snd (snd p) < 31)"

definition input_relation :: "rec_t list \<Rightarrow> access_relation" where
  "input_relation api =
     map (\<lambda>p. (fst p, normalise_segs (snd p)))
       (fold (\<lambda>p. smap_alter (snd p) (\<lambda>segs. segs @ [fst p]) []) api [])"

lemma input_relation_lookup:
  "smap_ok (input_relation api)"
  "map_of (input_relation api) k =
     (if k \<in> snd ` set api then Some (normalise_segs (map fst (filter (\<lambda>p. snd p = k) api))) else None)"
  using smap.ok_fold_alter[of "[]" snd "\<lambda>p segs. segs @ [fst p]" "[]" api]
    smap.lookup_fold_alter[of "[]" snd "\<lambda>p segs. segs @ [fst p]" "[]" api k]
  by (auto simp: input_relation_def map_of_map_snd fold_snoc)

lemma mk_layout_place:
  "mk_layout junk api pc (- 1) None =
     ly_place \<lparr>ly_access_relation = input_relation api, ly_remapping_lines = [], ly_after_mapped = junk,
       ly_range_max = fold (\<lambda>p r. max r (seg_end (fst p))) api junk, ly_target_thread_count = - 1,
       ly_analysis = None, ly_m_single_size = junk\<rparr>"
proof -
  let ?ly = "\<lparr>ly_access_relation = [], ly_remapping_lines = [], ly_after_mapped = junk,
       ly_range_max = junk, ly_target_thread_count = - 1, ly_analysis = None, ly_m_single_size = junk\<rparr>"
  have "ins_seg ?ly = fst" by (simp add: ins_seg_def fun_eq_iff)
  then have "normalise (ins_all api ?ly) = \<lparr>ly_access_relation = input_relation api, ly_remapping_lines = [],
       ly_after_mapped = junk, ly_range_max = fold (\<lambda>p r. max r (seg_end (fst p))) api junk,
       ly_target_thread_count = - 1, ly_analysis = None, ly_m_single_size = junk\<rparr>"
    by (intro layout.equality) (simp_all add: normalise_def ins_all_sel input_relation_def)
  moreover have "ly_target_thread_count (ins_all api ?ly) = - 1" by (simp add: ins_all_sel)
  ultimately show ?thesis
    by (simp add: mk_layout_def foldE_ly_insert ins_bad_def ly_compute_normalise)
qed

text \<open>The normalisation keeps for every thread the bytes it accesses.\<close>

lemma input_relation_entry:
  assumes "e \<in> set (input_relation api)"
  shows "fst e \<in> snd ` set api" "snd e = normalise_segs (map fst (filter (\<lambda>p. snd p = fst e) api))"
  using map_of_iff_smap[OF input_relation_lookup(1), of "fst e" "snd e" api] assms
  by (simp_all add: input_relation_lookup split: if_splits)

lemma input_relation_bytes:
  assumes "\<forall>p \<in> set api. seg_wf (fst p)"
  shows "(\<exists>s. (t, s) \<in> set (accesses (input_relation api)) \<and> x \<in> seg_bytes s) \<longleftrightarrow>
    (\<exists>p \<in> set api. snd (snd p) = t \<and> x \<in> seg_bytes (fst p))"
proof -
  let ?segs = "\<lambda>k. map fst (filter (\<lambda>p. snd p = k) api)"
  have merged: "(\<exists>s \<in> set (normalise_segs (?segs k)). x \<in> seg_bytes s) \<longleftrightarrow>
      (\<exists>p \<in> set api. snd p = k \<and> x \<in> seg_bytes (fst p))" for k
    using merge_neighbors_bytes[of "sort (?segs k)"] assms unfolding normalise_segs_def by auto
  have "(\<exists>s. (t, s) \<in> set (accesses (input_relation api)) \<and> x \<in> seg_bytes s) \<longleftrightarrow>
      (\<exists>e \<in> set (input_relation api). snd (fst e) = t \<and> (\<exists>s \<in> set (snd e). x \<in> seg_bytes s))"
    by (auto simp: accesses_mem)
  also have "\<dots> \<longleftrightarrow> (\<exists>k \<in> snd ` set api. snd k = t \<and> (\<exists>s \<in> set (normalise_segs (?segs k)). x \<in> seg_bytes s))"
  proof
    assume "\<exists>e \<in> set (input_relation api). snd (fst e) = t \<and> (\<exists>s \<in> set (snd e). x \<in> seg_bytes s)"
    then show "\<exists>k \<in> snd ` set api. snd k = t \<and> (\<exists>s \<in> set (normalise_segs (?segs k)). x \<in> seg_bytes s)"
      using input_relation_entry by metis
  next
    assume "\<exists>k \<in> snd ` set api. snd k = t \<and> (\<exists>s \<in> set (normalise_segs (?segs k)). x \<in> seg_bytes s)"
    then obtain k s where k: "k \<in> snd ` set api" "snd k = t" "s \<in> set (normalise_segs (?segs k))"
      "x \<in> seg_bytes s" by blast
    then have "(k, normalise_segs (?segs k)) \<in> set (input_relation api)"
      by (simp add: map_of_iff_smap[OF input_relation_lookup(1)] input_relation_lookup(2))
    with k show "\<exists>e \<in> set (input_relation api). snd (fst e) = t \<and> (\<exists>s \<in> set (snd e). x \<in> seg_bytes s)"
      by force
  qed
  also have "\<dots> \<longleftrightarrow> (\<exists>p \<in> set api. snd (snd p) = t \<and> x \<in> seg_bytes (fst p))"
    unfolding merged by force
  finally show ?thesis .
qed

lemma merge_neighbors_ends:
  "s \<in> set (merge_neighbors segs) \<Longrightarrow> \<exists>r \<in> set segs. seg_end s = seg_end r"
proof (induction segs rule: merge_neighbors_induct)
  case (Touch a b segs)
  then show ?case by (fastforce simp: merge_neighbors_rec)
qed (auto simp: merge_neighbors_rec)

lemma input_relation_access:
  assumes "input_ok api" "p \<in> set (accesses (input_relation api))"
  shows "fst p < 31 \<and> seg_wf (snd p) \<and> seg_end (snd p) \<le> 2 ^ 57"
proof -
  obtain e where e: "e \<in> set (input_relation api)" "snd (fst e) = fst p" "snd p \<in> set (snd e)"
    using assms(2) accesses_mem[of "fst p" "snd p"] by auto
  let ?segs = "sort (map fst (filter (\<lambda>p. snd p = fst e) api))"
  have nm: "normalise_segs (map fst (filter (\<lambda>p. snd p = fst e) api)) = merge_neighbors ?segs"
    by (simp add: normalise_segs_def)
  have segs: "\<forall>s \<in> set ?segs. seg_wf s \<and> seg_end s \<le> 2 ^ 57"
    using assms(1) by (auto simp: input_ok_def)
  have "snd p \<in> set (merge_neighbors ?segs)" using e(3) input_relation_entry(2)[OF e(1)] nm by simp
  then have "seg_wf (snd p)" "seg_end (snd p) \<le> 2 ^ 57"
    using merge_neighbors_wf[of ?segs] merge_neighbors_ends[of "snd p" ?segs] segs by auto
  moreover have "fst p < 31"
    using input_relation_entry(1)[OF e(1)] e(2) assms(1) by (auto simp: input_ok_def)
  ultimately show ?thesis by blast
qed

lemma input_placeable:
  assumes "input_ok api"
  shows "placeable (input_relation api)"
proof -
  obtain p where p: "p \<in> set api" "seg_wf (fst p)" using assms by (cases api) (auto simp: input_ok_def)
  then have "\<exists>s. (snd (snd p), s) \<in> set (accesses (input_relation api)) \<and> seg_start (fst p) \<in> seg_bytes s"
    using input_relation_bytes[of api "snd (snd p)" "seg_start (fst p)"] assms
    by (auto simp: input_ok_def seg_bytes_def seg_wf_def)
  then have "accesses (input_relation api) \<noteq> []" by auto
  with input_relation_access[OF assms] show ?thesis by (simp add: placeable_def)
qed

lemma layout_run:
  assumes "input_ok api"
  obtains ly out rm where "mk_layout junk api mpc (- 1) None = Inr ly"
    "ly_access_relation ly = input_relation api" "ly_table (input_relation api) = Inr (ly_after_mapped ly, rm)"
    "table_places (input_relation api) out (ly_after_mapped ly) rm"
    "ly_remapping_lines ly =
       fold (\<lambda>e. fold (mmap_emplace (fst (fst e))) (entry_lines rm e)) (input_relation api) []"
proof -
  let ?ar = "input_relation api"
  obtain out after rm where t: "ly_table ?ar = Inr (after, rm)" "table_places ?ar out after rm"
    by (rule ly_table_places[OF input_placeable[OF assms]])
  have wf: "\<forall>p \<in> set (accesses ?ar). seg_wf (snd p)"
    using input_relation_access[OF assms] by blast
  show thesis
    by (rule that) (use t in \<open>auto simp: mk_layout_place ly_place_def remap_total[OF t(2) wf]\<close>)
qed

lemma layout_run_table:
  assumes "input_ok api" "mk_layout junk api mpc (- 1) None = Inr ly"
    and "ly_table (ly_access_relation ly) = Inr (after, rm)"
  obtains out where "ly_access_relation ly = input_relation api" "after = ly_after_mapped ly"
    "table_places (ly_access_relation ly) out after rm"
    "ly_remapping_lines ly =
       fold (\<lambda>e. fold (mmap_emplace (fst (fst e))) (entry_lines rm e)) (ly_access_relation ly) []"
  by (rule layout_run[OF assms(1), of junk mpc]) (use assms(2,3) that in auto)

lemma set_remap_lines:
  "set (fold (\<lambda>e. fold (mmap_emplace (fst (fst e))) (entry_lines rm e)) ar []) =
   {(fst (fst e), l) |e l. e \<in> set ar \<and> l \<in> set (entry_lines rm e)}"
proof -
  have "set (fold (\<lambda>e. fold (mmap_emplace (fst (fst e))) (entry_lines rm e)) ar []) =
      set (concat (map (\<lambda>e. map (Pair (fst (fst e))) (entry_lines rm e)) ar))"
    using arg_cong[OF mset_remap_lines[of rm ar "[]"], of set_mset] by simp
  then show ?thesis by auto
qed

lemma entry_lines_thread: "l \<in> set (entry_lines rm e) \<Longrightarrow> fst l = snd (fst e)"
  by (auto simp: entry_lines_def Let_def split: if_splits dest!: in_set_takeD)

lemma entry_lines_shift:
  assumes "s \<in> set (snd e)"
  shows "\<exists>a b. (snd (fst e), a, b) \<in> set (entry_lines rm e) \<and> b - a = line_offset rm s \<and>
    (a = seg_start s \<or> (\<forall>l \<in> set (entry_lines rm e). l = (snd (fst e), a, b)))"
proof (cases "\<forall>r \<in> set (snd e). line_offset rm r = line_offset rm (hd (snd e))")
  case True
  obtain r rs where r: "snd e = r # rs" using assms by (cases "snd e") auto
  with True have "entry_lines rm e = [(snd (fst e), seg_start r, seg_start r + line_offset rm r)]"
    by (simp add: entry_lines_def)
  moreover have "line_offset rm s = line_offset rm r" using True assms r by (metis list.sel(1))
  ultimately show ?thesis by auto
next
  case False
  then have "set (entry_lines rm e) =
      (\<lambda>s. (snd (fst e), seg_start s, seg_start s + line_offset rm s)) ` set (snd e)"
    by (simp add: entry_lines_def if_not_P)
  with assms show ?thesis by (intro exI[of _ "seg_start s"] exI[of _ "seg_start s + line_offset rm s"]) auto
qed

section \<open>Properties of the pass\<close>

text \<open>
  \<^bold>\<open>C2.\<close> Repair separates the threads. If two accessed bytes of an allocation end up in one
  64-byte line, wherever the allocation itself starts, then the same threads access the clusters
  of the two bytes. A cluster is a chain of accesses that share bytes, which no placement can
  separate.
\<close>

theorem repair_no_false_sharing:
  assumes "input_ok api" "mk_layout junk api mpc (- 1) None = Inr ly"
    and "ly_table (ly_access_relation ly) = Inr (after, rm)"
    and "x \<in> accessed (ly_access_relation ly)" "y \<in> accessed (ly_access_relation ly)"
    and "new_pos rm x = Some u" "new_pos rm y = Some v"
    and "(base + unat u) div 64 = (base + unat v) div 64"
  shows "cluster_threads (ly_access_relation ly) x = cluster_threads (ly_access_relation ly) y"
  by (rule layout_run_table[OF assms(1-3)]) (rule table_separates[OF _ assms(4-8)])

text \<open>
  \<^bold>\<open>C3.\<close> On every input in range the layout is computed: no assertion of \<^verbatim>\<open>remap\<close> or
  \<^verbatim>\<open>get_thread_affinity\<close> fails. The access relation holds for every thread the bytes the input
  lists for it, and the new size is the number of accessed bytes plus one cache line between any
  two groups of threads.
\<close>

theorem repair_total:
  assumes "input_ok api"
  shows "\<exists>ly. mk_layout junk api mpc (- 1) None = Inr ly \<and>
    (\<forall>t x. (\<exists>s. (t, s) \<in> set (accesses (ly_access_relation ly)) \<and> x \<in> seg_bytes s) \<longleftrightarrow>
      (\<exists>p \<in> set api. snd (snd p) = t \<and> x \<in> seg_bytes (fst p))) \<and>
    unat (ly_after_mapped ly) = card (accessed (ly_access_relation ly)) +
      64 * (card (cluster_threads (ly_access_relation ly) ` accessed (ly_access_relation ly)) - 1)"
proof (rule layout_run[OF assms, of junk mpc])
  fix ly out rm
  assume run: "mk_layout junk api mpc (- 1) None = Inr ly" "ly_access_relation ly = input_relation api"
    and tab: "table_places (input_relation api) out (ly_after_mapped ly) rm"
  have "\<forall>p \<in> set api. seg_wf (fst p)" using assms by (simp add: input_ok_def)
  from input_relation_bytes[OF this] run table_size[OF tab] show ?thesis by auto
qed

text \<open>
  \<^bold>\<open>C4.\<close> The new layout is a layout: different accessed bytes get different places below the new
  size, and an access stays contiguous.
\<close>

theorem repair_injective:
  assumes "input_ok api" "mk_layout junk api mpc (- 1) None = Inr ly"
    and "ly_table (ly_access_relation ly) = Inr (after, rm)"
  shows "inj_on (new_pos rm) (accessed (ly_access_relation ly)) \<and>
    (\<forall>x \<in> accessed (ly_access_relation ly). \<exists>u. new_pos rm x = Some u \<and> u < ly_after_mapped ly) \<and>
    (\<forall>p \<in> set (accesses (ly_access_relation ly)). \<forall>x \<in> seg_bytes (snd p).
      \<exists>u. new_pos rm (seg_start (snd p)) = Some u \<and> new_pos rm x = Some (u + (x - seg_start (snd p))))"
proof (rule layout_run_table[OF assms])
  fix out
  let ?ar = "ly_access_relation ly"
  assume after: "after = ly_after_mapped ly" and tab: "table_places ?ar out after rm"
  have "\<exists>u. new_pos rm x = Some u \<and> u < ly_after_mapped ly" if x: "x \<in> accessed ?ar" for x
  proof (rule table_new_pos[OF tab x])
    fix a s p d
    assume d: "d < seg_len s" "p + seg_len s \<le> new_size out" "new_pos rm x = Some (word_of_nat (p + d))"
      "unat (word_of_nat (p + d) :: size_t) = p + d"
    have "unat (ly_after_mapped ly) = new_size out"
      using tab calc_remapping_placement(1)[of out after rm] by (simp add: table_places_def after unat_of_nat)
    with d show ?thesis by (auto simp: word_less_nat_alt)
  qed
  then show ?thesis
    using table_injective[OF tab] table_contiguous[OF tab] by (auto simp: inj_on_def)
qed

text \<open>
  \<^bold>\<open>C9.\<close> The order in which the accesses arrive does not matter, although the detection pass
  lists them in the iteration order of hash tables: permuted inputs give the same layout, or the
  same failure, with and without an analysis file and a target thread count.
\<close>

theorem repair_order_independent:
  assumes "mset api = mset api'"
  shows "mk_layout junk api mpc target analysis = mk_layout junk api' mpc target analysis"
proof -
  have set: "set api = set api'" using assms by (metis set_mset_mset)
  have eq: "ly_compute (ins_all api ly) = ly_compute (ins_all api' ly)" if "ly_access_relation ly = []" for ly
    using normalise_perm[OF assms that] by (simp add: ly_compute_normalise ins_all_sel)
  show ?thesis by (simp add: mk_layout_def Let_def foldE_ly_insert set eq)
qed

text \<open>
  \<^bold>\<open>C6.\<close> The printed lines say where every access goes. For an access of a program counter by a
  thread there is a line of that counter and thread whose shift moves all bytes of the access to
  their new places, and either the line starts where the access starts or it is the only line of
  that counter and thread.
\<close>

theorem repair_lines_complete:
  assumes "input_ok api" "mk_layout junk api mpc (- 1) None = Inr ly"
    and "ly_table (ly_access_relation ly) = Inr (after, rm)"
    and "((pc, t), segs) \<in> set (ly_access_relation ly)" "s \<in> set segs"
  shows "\<exists>a b. (pc, (t, a, b)) \<in> set (ly_remapping_lines ly) \<and>
    (\<forall>x \<in> seg_bytes s. new_pos rm x = Some (x + (b - a))) \<and>
    (a = seg_start s \<or> (\<forall>a' b'. (pc, (t, a', b')) \<in> set (ly_remapping_lines ly) \<longrightarrow> (a', b') = (a, b)))"
proof (rule layout_run_table[OF assms(1-3)])
  fix out
  let ?ar = "ly_access_relation ly" and ?e = "((pc, t), segs)"
  assume ar: "?ar = input_relation api" and tab: "table_places ?ar out after rm"
    and lines: "ly_remapping_lines ly =
      fold (\<lambda>e. fold (mmap_emplace (fst (fst e))) (entry_lines rm e)) ?ar []"
  have only: "(pc, l) \<in> set (ly_remapping_lines ly) \<and> fst l = t \<longleftrightarrow> l \<in> set (entry_lines rm ?e)" for l
  proof
    assume "(pc, l) \<in> set (ly_remapping_lines ly) \<and> fst l = t"
    then obtain e where e: "e \<in> set ?ar" "fst (fst e) = pc" "l \<in> set (entry_lines rm e)" "fst l = t"
      unfolding lines set_remap_lines by blast
    with entry_lines_thread have "fst e = (pc, t)" by (metis prod.collapse)
    then have "e = ?e"
      using map_of_iff_smap[OF input_relation_lookup(1)[of api]] e(1) assms(4) unfolding ar
      by (metis option.inject prod.collapse)
    with e(3) show "l \<in> set (entry_lines rm ?e)" by simp
  next
    assume "l \<in> set (entry_lines rm ?e)"
    with assms(4) entry_lines_thread[of l rm ?e] show "(pc, l) \<in> set (ly_remapping_lines ly) \<and> fst l = t"
      unfolding lines set_remap_lines by force
  qed
  obtain a b where ab: "(t, a, b) \<in> set (entry_lines rm ?e)" "b - a = line_offset rm s"
    "a = seg_start s \<or> (\<forall>l \<in> set (entry_lines rm ?e). l = (t, a, b))"
    using entry_lines_shift[of s ?e rm] assms(5) by auto
  have "(t, s) \<in> set (accesses ?ar)" using assms(4,5) by (force simp: accesses_mem)
  then have "new_pos rm x = Some (x + (b - a))" if "x \<in> seg_bytes s" for x
    using table_contiguous[OF tab, of "(t, s)" x] that ab(2) by (auto simp: line_offset_def)
  moreover have "(pc, (t, a, b)) \<in> set (ly_remapping_lines ly)" using only[of "(t, a, b)"] ab(1) by simp
  moreover have "(a', b') = (a, b)" if "\<forall>l \<in> set (entry_lines rm ?e). l = (t, a, b)"
    "(pc, (t, a', b')) \<in> set (ly_remapping_lines ly)" for a' b'
    using only[of "(t, a', b')"] that by auto
  ultimately show ?thesis using ab(3) by blast
qed

definition byte_threads :: "rec_t list \<Rightarrow> size_t \<Rightarrow> size_t set" where
  "byte_threads api x = {t. \<exists>p \<in> set api. snd (snd p) = t \<and> x \<in> seg_bytes (fst p)}"

definition no_partial_overlap :: "access_relation \<Rightarrow> bool" where
  "no_partial_overlap ar \<longleftrightarrow>
     (\<forall>p \<in> set (accesses ar). \<forall>q \<in> set (accesses ar). snd p = snd q \<or> \<not> overlap (snd p) (snd q))"

lemma cluster_threads_exact:
  assumes "no_partial_overlap ar" "\<forall>p \<in> set (accesses ar). seg_wf (snd p)" "x \<in> accessed ar"
  shows "cluster_threads ar x = {t. \<exists>s. (t, s) \<in> set (accesses ar) \<and> x \<in> seg_bytes s}"
proof -
  have same: "snd p = snd q" if "p \<in> set (accesses ar)" "q \<in> set (accesses ar)"
    "z \<in> seg_bytes (snd p)" "z \<in> seg_bytes (snd q)" for p q z
    using assms(1,2) that overlap_bytes[of "snd p" "snd q"] unfolding no_partial_overlap_def by blast
  have link: "y \<in> seg_bytes (snd p)" if "(x, y) \<in> linked ar" "p \<in> set (accesses ar)" "x \<in> seg_bytes (snd p)" for y p
    using that(1) unfolding linked_def
  proof (induction rule: rtrancl_induct)
    case (step y z)
    then obtain q where "q \<in> set (accesses ar)" "y \<in> seg_bytes (snd q)" "z \<in> seg_bytes (snd q)" by blast
    with step.IH same[OF that(2)] show ?case by metis
  qed (rule that(3))
  obtain p where p: "p \<in> set (accesses ar)" "x \<in> seg_bytes (snd p)" using assms(3) by (auto simp: accessed_def)
  have "(\<exists>s y. (t, s) \<in> set (accesses ar) \<and> y \<in> seg_bytes s \<and> (x, y) \<in> linked ar) \<longleftrightarrow>
      (\<exists>s. (t, s) \<in> set (accesses ar) \<and> x \<in> seg_bytes s)" for t
  proof
    assume "\<exists>s y. (t, s) \<in> set (accesses ar) \<and> y \<in> seg_bytes s \<and> (x, y) \<in> linked ar"
    then obtain s y where s: "(t, s) \<in> set (accesses ar)" "y \<in> seg_bytes s" "(x, y) \<in> linked ar" by blast
    then have "snd p = s" using same[OF p(1) s(1), of y] link[OF s(3) p] by simp
    with s(1) p(2) show "\<exists>s. (t, s) \<in> set (accesses ar) \<and> x \<in> seg_bytes s" by blast
  next
    assume "\<exists>s. (t, s) \<in> set (accesses ar) \<and> x \<in> seg_bytes s"
    then show "\<exists>s y. (t, s) \<in> set (accesses ar) \<and> y \<in> seg_bytes s \<and> (x, y) \<in> linked ar"
      unfolding linked_def by blast
  qed
  then show ?thesis by (simp add: cluster_threads_def)
qed

text \<open>
  \<^bold>\<open>C13.\<close> Without partial overlaps the separation is complete: when any two accesses of the relation
  cover the same range or no common byte, two accessed bytes that share a line after the repair are
  accessed by exactly the same threads, as the input lists them.
\<close>

theorem repair_exact_threads:
  assumes "input_ok api" "mk_layout junk api mpc (- 1) None = Inr ly"
    and "ly_table (ly_access_relation ly) = Inr (after, rm)" "no_partial_overlap (ly_access_relation ly)"
    and "x \<in> accessed (ly_access_relation ly)" "y \<in> accessed (ly_access_relation ly)"
    and "new_pos rm x = Some u" "new_pos rm y = Some v"
    and "(base + unat u) div 64 = (base + unat v) div 64"
  shows "byte_threads api x = byte_threads api y"
proof (rule layout_run_table[OF assms(1-3)])
  fix out
  assume ar: "ly_access_relation ly = input_relation api" and tab: "table_places (ly_access_relation ly) out after rm"
  have wf: "\<forall>p \<in> set (accesses (ly_access_relation ly)). seg_wf (snd p)" "\<forall>p \<in> set api. seg_wf (fst p)"
    using input_relation_access[OF assms(1)] assms(1) unfolding ar by (auto simp: input_ok_def)
  have "cluster_threads (ly_access_relation ly) z = byte_threads api z"
    if "z \<in> accessed (ly_access_relation ly)" for z
    using cluster_threads_exact[OF assms(4) wf(1) that] input_relation_bytes[OF wf(2)]
    by (simp add: ar byte_threads_def)
  with table_separates[OF tab assms(5-9)] assms(5,6) show ?thesis by simp
qed

lemma foldE_fails:
  assumes "x \<in> set xs" "\<And>s. \<exists>e. f x s = Inl e"
  shows "\<exists>e. foldE f xs s = Inl e"
  using assms(1)
proof (induction xs arbitrary: s)
  case (Cons y ys)
  show ?case
  proof (cases "f y s")
    case (Inr s')
    then show ?thesis using Cons assms(2)[of s] by (cases "x = y") auto
  qed simp
qed simp

text \<open>
  The affinity mask is built with an \<^verbatim>\<open>int\<close> shift: although the assertion admits thread
  numbers up to 63, a layout with an access by a thread numbered 32 or more is never computed.
\<close>

theorem repair_thread_limit:
  assumes "\<forall>q \<in> set api. seg_wf (fst q)" "p \<in> set api" "32 \<le> snd (snd p)"
  shows "\<exists>e. mk_layout junk api mpc (- 1) None = Inl e"
proof -
  have "\<exists>s. (snd (snd p), s) \<in> set (accesses (input_relation api)) \<and> seg_start (fst p) \<in> seg_bytes s"
    using input_relation_bytes[OF assms(1), of "snd (snd p)" "seg_start (fst p)"] assms(1,2)
    by (auto simp: seg_bytes_def seg_wf_def)
  then obtain s where s: "(snd (snd p), s) \<in> set (accesses (input_relation api))" by blast
  have "31 < snd (snd p)" using assms(3) by (rule less_le_trans[rotated]) simp
  then have "\<exists>e. add_affinity (snd (snd p)) s aff = Inl e" for aff
    by (auto simp: add_affinity_def thread_bit_def guardE_def)
  then have "\<exists>e. get_thread_affinity (input_relation api) = Inl e"
    unfolding get_thread_affinity_accesses by (intro foldE_fails[OF s]) simp
  then show ?thesis by (auto simp: mk_layout_place ly_place_def ly_table_def)
qed

section \<open>The properties on a concrete allocation\<close>

text \<open>
  Two neighbouring words used by thread 1 from two program counters and a word used by thread 2:
  the repair keeps the first two together and moves the third to the next group.
\<close>

definition sample_accesses :: "rec_t list" where
  "sample_accesses =
     [(Segment 0 8, PC 1 2, 1), (Segment 16 24, PC 1 2, 2), (Segment 8 16, PC 1 3, 1)]"

definition sample_layout :: layout where
  "sample_layout =
     \<lparr>ly_access_relation =
        [((PC 1 2, 1), [Segment 0 8]), ((PC 1 2, 2), [Segment 16 24]), ((PC 1 3, 1), [Segment 8 16])],
      ly_remapping_lines = [(PC 1 2, 1, 0, 0), (PC 1 2, 2, 16, 80), (PC 1 3, 1, 8, 8)],
      ly_after_mapped = 88, ly_range_max = 24, ly_target_thread_count = - 1,
      ly_analysis = None, ly_m_single_size = 0\<rparr>"

definition sample_table :: "(size_t \<times> Segment) list" where
  "sample_table = [(0, Segment 0 16), (16, Segment 80 88)]"

lemma sample_input_ok: "input_ok sample_accesses"
  by code_simp

lemma sample_run: "mk_layout 0 sample_accesses (PC 0 0) (- 1) None = Inr sample_layout"
  by code_simp

lemma sample_run_table: "ly_table (ly_access_relation sample_layout) = Inr (88, sample_table)"
  by code_simp

lemma sample_accessed: "{0, 8, 16} \<subseteq> accessed (ly_access_relation sample_layout)"
  by (simp add: accessed_def accesses_def sample_layout_def seg_bytes_def)

lemma sample_pos: "new_pos sample_table 0 = Some 0" "new_pos sample_table 8 = Some 8" "new_pos sample_table 16 = Some 80"
  by code_simp+

theorem repair_no_false_sharing_witness:
  "cluster_threads (ly_access_relation sample_layout) 0 = cluster_threads (ly_access_relation sample_layout) 8"
  using repair_no_false_sharing[OF sample_input_ok sample_run sample_run_table, of 0 8 0 8 40]
    sample_accessed sample_pos by simp

theorem repair_total_witness:
  "\<exists>ly. mk_layout 0 sample_accesses (PC 0 0) (- 1) None = Inr ly \<and>
    (\<forall>t x. (\<exists>s. (t, s) \<in> set (accesses (ly_access_relation ly)) \<and> x \<in> seg_bytes s) \<longleftrightarrow>
      (\<exists>p \<in> set sample_accesses. snd (snd p) = t \<and> x \<in> seg_bytes (fst p)))"
  using repair_total[OF sample_input_ok, of 0 "PC 0 0"] by blast

theorem repair_injective_witness:
  "inj_on (new_pos sample_table) (accessed (ly_access_relation sample_layout))"
  using repair_injective[OF sample_input_ok sample_run sample_run_table] by blast

theorem repair_order_independent_witness:
  "mk_layout 0 sample_accesses (PC 0 0) (- 1) None = mk_layout 0 (rev sample_accesses) (PC 0 0) (- 1) None"
  by (rule repair_order_independent) (simp add: sample_accesses_def)

theorem repair_lines_complete_witness:
  "\<exists>a b. (PC 1 2, (2, a, b)) \<in> set (ly_remapping_lines sample_layout) \<and>
    (\<forall>x \<in> seg_bytes (Segment 16 24). new_pos sample_table x = Some (x + (b - a)))"
  using repair_lines_complete[OF sample_input_ok sample_run sample_run_table,
    of "PC 1 2" 2 "[Segment 16 24]" "Segment 16 24"] by (auto simp: sample_layout_def)

theorem repair_exact_threads_witness:
  "byte_threads sample_accesses 0 = byte_threads sample_accesses 8"
proof -
  have "no_partial_overlap (ly_access_relation sample_layout)" by code_simp
  from repair_exact_threads[OF sample_input_ok sample_run sample_run_table this, of 0 8 0 8 0]
  show ?thesis using sample_accessed sample_pos by simp
qed

theorem repair_thread_limit_witness:
  "\<exists>e. mk_layout 0 [(Segment 0 8, PC 1 2, 32)] (PC 0 0) (- 1) None = Inl e"
  by (rule repair_thread_limit[of _ "(Segment 0 8, PC 1 2, 32)"]) (auto simp: seg_wf_def)

end
