(* ===== verification/PP_Stream.thy ===== *)
theory PP_Stream
  imports PP_Repair
begin

text \<open>
  The text interface between the two passes: what the detection pass prints, the repair pass
  reads back.
\<close>

definition spaces :: "string \<Rightarrow> bool" where
  "spaces ws \<longleftrightarrow> (\<forall>c \<in> set ws. is_space c)"

definition no_digit :: "string \<Rightarrow> bool" where
  "no_digit rest \<longleftrightarrow> rest = [] \<or> \<not> is_digit (hd rest)"

abbreviation good :: "string \<Rightarrow> istream" where
  "good s \<equiv> \<lparr>is_rest = s, is_fail = False\<rparr>"

lemma sep_simps [simp]: "spaces []" "spaces '' ''" "spaces [newline]" "no_digit []"
  "no_digit (CHR '' '' # r)" "no_digit (newline # r)"
  by (simp_all add: spaces_def no_digit_def is_space_def is_digit_def)

lemma read_u:
  assumes "spaces ws" "no_digit rest"
  shows "extract_u x (good (ws @ dec (unat w) @ rest)) = (Some w, good rest)"
  using extract_u_dec[of ws rest x w] assms by (simp add: spaces_def no_digit_def)

lemma read_u_nat:
  assumes "spaces ws" "no_digit rest" "n < 2 ^ 64"
  shows "extract_u x (good (ws @ dec n @ rest)) = (Some (word_of_nat n :: size_t), good rest)"
proof -
  have "unat (word_of_nat n :: size_t) = n" using assms(3) by (simp add: unat_of_nat)
  then show ?thesis using read_u[OF assms(1,2), of x "word_of_nat n :: size_t"] by simp
qed

lemma pc_read_print:
  assumes "spaces ws" "no_digit rest"
  shows "pc_read p (good (ws @ pc_print pc @ rest)) = (pc, good rest)"
proof -
  have "extract_u (Some (pc_func p)) (good (ws @ dec (unat (pc_func pc)) @ CHR '' '' # dec (unat (pc_inst pc)) @ rest)) =
      (Some (pc_func pc), good ('' '' @ dec (unat (pc_inst pc)) @ rest))"
    using read_u[OF assms(1), of "CHR '' '' # dec (unat (pc_inst pc)) @ rest" "Some (pc_func p)" "pc_func pc"] by simp
  then show ?thesis
    using read_u[OF _ assms(2), of "'' ''" "Some (pc_inst p)" "pc_inst pc"]
    by (simp add: pc_read_def pc_print_def)
qed

lemma seg_read_print:
  assumes "spaces ws" "no_digit rest"
  shows "seg_read p (good (ws @ seg_print g @ rest)) = (g, good rest)"
proof -
  have "extract_u (Some (seg_start p)) (good (ws @ dec (unat (seg_start g)) @ CHR '' '' # dec (unat (seg_end g)) @ rest)) =
      (Some (seg_start g), good ('' '' @ dec (unat (seg_end g)) @ rest))"
    using read_u[OF assms(1), of "CHR '' '' # dec (unat (seg_end g)) @ rest" "Some (seg_start p)" "seg_start g"] by simp
  then show ?thesis
    using read_u[OF _ assms(2), of "'' ''" "Some (seg_end p)" "seg_end g"]
    by (simp add: seg_read_def seg_print_def)
qed

text \<open>Every line ends with a line end, which the next extraction skips.\<close>

lemma read_accesses:
  "spaces ws \<Longrightarrow>
   mo_read_accesses (length as) acc (good (ws @ concat (map rec_print as) @ rest)) =
     Inr (acc @ as, good (if as = [] then ws @ rest else newline # rest))"
proof (induction as arbitrary: acc ws)
  case (Cons a as)
  obtain g pc t where a: "a = (g, pc, t)" by (cases a)
  let ?r3 = "newline # concat (map rec_print as) @ rest"
  let ?r2 = "CHR '' '' # dec (unat t) @ ?r3"
  let ?r1 = "CHR '' '' # pc_print pc @ ?r2"
  have s: "ws @ concat (map rec_print (a # as)) @ rest = ws @ seg_print g @ ?r1"
    by (simp add: a rec_print_def)
  have 1: "seg_read (Segment 0 0) (good (ws @ seg_print g @ ?r1)) = (g, good ?r1)"
    by (rule seg_read_print[OF Cons.prems]) simp
  have 2: "pc_read pc_null (good ?r1) = (pc, good ?r2)"
    using pc_read_print[of "'' ''" ?r2 pc_null pc] by simp
  have 3: "extract_u None (good ?r2) = (Some t, good ?r3)"
    using read_u[of "'' ''" ?r3 None t] by simp
  have 4: "mo_read_accesses (length as) (acc @ [a]) (good ?r3) = Inr (acc @ [a] @ as, good (newline # rest))"
    using Cons.IH[of "[newline]" "acc @ [a]"] by (cases "as = []") simp_all
  show ?case unfolding s by (simp add: 1 2 3 4[unfolded a] a)
qed simp

lemma mo_read_print:
  assumes "spaces ws" "length (mo_accesses mo) < 2 ^ 64"
  shows "mo_read (good (ws @ mo_print mo @ rest)) = Inr (mo, good (newline # rest))"
proof -
  let ?r3 = "newline # concat (map rec_print (mo_accesses mo)) @ rest"
  let ?r2 = "CHR '' '' # dec (length (mo_accesses mo)) @ ?r3"
  let ?r1 = "CHR '' '' # dec (unat (mo_size mo)) @ ?r2"
  have s: "ws @ mo_print mo @ rest = ws @ pc_print (mo_pc mo) @ ?r1" by (simp add: mo_print_def)
  have 1: "pc_read pc_null (good (ws @ pc_print (mo_pc mo) @ ?r1)) = (mo_pc mo, good ?r1)"
    by (rule pc_read_print[OF assms(1)]) simp
  have 2: "extract_u None (good ?r1) = (Some (mo_size mo), good ?r2)"
    using read_u[of "'' ''" ?r2 None "mo_size mo"] by simp
  have 3: "extract_u None (good ?r2) = (Some (word_of_nat (length (mo_accesses mo)) :: size_t), good ?r3)"
    using read_u_nat[of "'' ''" ?r3 "length (mo_accesses mo)" None] assms(2) by simp
  have "unat (word_of_nat (length (mo_accesses mo)) :: size_t) = length (mo_accesses mo)"
    using assms(2) by (simp add: unat_of_nat)
  then have 4: "mo_read_accesses (unat (word_of_nat (length (mo_accesses mo)) :: size_t)) [] (good ?r3) =
      Inr (mo_accesses mo, good (newline # rest))"
    using read_accesses[of "[newline]" "mo_accesses mo" "[]" rest] by (cases "mo_accesses mo = []") simp_all
  show ?thesis unfolding s mo_read_def 1 by (simp add: 2 3 4)
qed

lemma mo_read_list_print:
  "spaces ws \<Longrightarrow> \<forall>mo \<in> set mos. length (mo_accesses mo) < 2 ^ 64 \<Longrightarrow>
   mo_read_list (length mos) (good (ws @ concat (map mo_print mos))) = Inr mos"
proof (induction mos arbitrary: ws)
  case (Cons mo mos)
  have "mo_read (good (ws @ mo_print mo @ concat (map mo_print mos))) = Inr (mo, good ([newline] @ concat (map mo_print mos)))"
    using mo_read_print[OF Cons.prems(1), of mo "concat (map mo_print mos)"] Cons.prems(2) by simp
  moreover have "mo_read_list (length mos) (good ([newline] @ concat (map mo_print mos))) = Inr mos"
    using Cons.IH[of "[newline]"] Cons.prems(2) by simp
  ultimately show ?case by simp
qed simp

lemma repair_read_print:
  assumes "length mos < 2 ^ 64" "\<forall>mo \<in> set mos. length (mo_accesses mo) < 2 ^ 64"
  shows "repair_read (open_in (dec (length mos) @ [newline] @ concat (map mo_print mos))) = Inr mos"
proof -
  let ?r = "newline # concat (map mo_print mos)"
  have "extract_u None (good (dec (length mos) @ ?r)) = (Some (word_of_nat (length mos) :: size_t), good ?r)"
    using read_u_nat[of "[]" ?r "length mos" None] assms(1) by simp
  moreover have "unat (word_of_nat (length mos) :: size_t) = length mos" using assms(1) by (simp add: unat_of_nat)
  moreover have "mo_read_list (length mos) (good ([newline] @ concat (map mo_print mos))) = Inr mos"
    by (rule mo_read_list_print[OF _ assms(2)]) simp
  ultimately show ?thesis by (simp add: repair_read_def open_in_def Let_def)
qed

text \<open>
  \<^bold>\<open>C33.\<close> The file between the passes loses nothing: reading the text the detection pass prints
  gives back the list of allocations with all accesses, in order.
\<close>

theorem detect_file_roundtrip:
  assumes "length (detect_api_output ho data) < 2 ^ 64"
    and "\<forall>mo \<in> set (detect_api_output ho data). length (mo_accesses mo) < 2 ^ 64"
  shows "repair_read (open_in (detect_print_result ho data)) = Inr (detect_api_output ho data)"
  using repair_read_print[OF assms] by (simp add: detect_print_result_def Let_def)

definition sample_order :: hash_order where
  "sample_order = \<lparr>ho_bucket = rev, ho_groups = id, ho_pc_threads = rev\<rparr>"

definition sample_data :: "(int \<times> malloc_storage) list" where
  "sample_data = [(5, \<lparr>ms_records = [mk_addr_record (Segment 0 8) 5 4096
      [\<lparr>lr_addr = 4096, lr_m_id = 5, lr_thread = 1, lr_size = 8, lr_pc = PC 1 2, lr_rw = RW 3 4\<rparr>]],
     ms_graphs = [], ms_minfo = \<lparr>mi_start = 4096, mi_size = 64, mi_pc = PC 7 8, mi_id = 5\<rparr>, ms_malloc_fs = 0, ms_m_id = 5\<rparr>)]"

theorem detect_file_roundtrip_witness:
  "repair_read (open_in (detect_print_result sample_order sample_data)) =
     Inr [\<lparr>mo_accesses = [(Segment 0 8, PC 1 2, 1)], mo_pc = PC 7 8, mo_size = 64\<rparr>]"
proof -
  have out: "detect_api_output sample_order sample_data =
      [\<lparr>mo_accesses = [(Segment 0 8, PC 1 2, 1)], mo_pc = PC 7 8, mo_size = 64\<rparr>]"
    by code_simp
  show ?thesis using detect_file_roundtrip[of sample_order sample_data] by (simp add: out)
qed

end
