(* ===== verification/LL_Ir.thy ===== *)
theory LL_Ir
  imports Huron_Prelude
begin

text \<open>
  The part of a compiler module that the passes look at: functions with basic blocks of
  instructions, each with an opcode, operands, a callee where it is a direct call, and the size of
  the memory it accesses.
\<close>

type_synonym func_ptr = nat
type_synonym inst_ptr = nat

datatype opcode =
    OpLoad | OpStore | OpAtomicRMW | OpAtomicCmpXchg | OpCall | OpInvoke | OpAsm
  | OpPtrToInt | OpAdd | OpIntToPtr | OpAlloca | OpOther

datatype val = Result inst_ptr | ConstInt int | FuncRef func_ptr | OtherVal nat

record inst =
  in_ptr :: inst_ptr
  in_op :: opcode
  in_callee :: "func_ptr option"
  in_args :: "val list"
  in_bits :: nat

record func_ir =
  fn_name :: string
  fn_decl :: bool
  fn_blocks :: "inst list list"

text \<open>A module is a list of functions; the order is the order of iteration.\<close>

type_synonym ll_module = "(func_ptr \<times> func_ir) list"

text \<open>\<^verbatim>\<open>inst_begin\<close> to \<^verbatim>\<open>inst_end\<close>.\<close>

definition fn_insts :: "func_ir \<Rightarrow> inst list" where
  "fn_insts f = concat (fn_blocks f)"

definition is_call :: "inst \<Rightarrow> bool" where
  "is_call i \<longleftrightarrow> in_op i = OpCall \<or> in_op i = OpInvoke"

definition is_decl :: "ll_module \<Rightarrow> func_ptr \<Rightarrow> bool" where
  "is_decl M f \<longleftrightarrow> (case map_of M f of None \<Rightarrow> True | Some b \<Rightarrow> fn_decl b)"

definition insts_of :: "ll_module \<Rightarrow> func_ptr \<Rightarrow> inst list" where
  "insts_of M f = (case map_of M f of None \<Rightarrow> [] | Some b \<Rightarrow> fn_insts b)"

definition name_of :: "ll_module \<Rightarrow> func_ptr option \<Rightarrow> string option" where
  "name_of M f = (case f of None \<Rightarrow> None | Some g \<Rightarrow> map_option fn_name (map_of M g))"

end
