(* ===== verification/RP_Profile.thy ===== *)
theory RP_Profile
  imports PP_Stream LL_Ir
begin

text \<open>
  The profile of the redirecting compiler pass: \<^verbatim>\<open>RedirectPtr/Utils.h\<close> and the loader of
  \<^verbatim>\<open>RedirectPtr/RedirectPtr.cpp\<close>. What the repair pass prints is what the compiler pass applies.
\<close>

section \<open>What is known of an instruction\<close>

type_synonym redirect = "size_t \<times> size_t"

text \<open>\<open>pi_malloc\<close> is a \<^verbatim>\<open>long\<close>.\<close>

record pc_info =
  pi_allRedirects :: "(size_t \<times> redirect list) list"
  pi_malloc :: int
  pi_isFirst :: bool

definition pc_info_lines :: "remap_line list \<Rightarrow> pc_info" where
  "pc_info_lines lines =
     \<lparr>pi_allRedirects = map (\<lambda>p. (fst p, sort (snd p)))
        (fold (\<lambda>l. umap_alter (fst l) (\<lambda>v. v @ [snd l]) []) lines []),
      pi_malloc = 0, pi_isFirst = True\<rparr>"

definition pc_info_malloc :: "int \<Rightarrow> pc_info" where
  "pc_info_malloc mallocSizeAdd = \<lparr>pi_allRedirects = [], pi_malloc = mallocSizeAdd, pi_isFirst = False\<rparr>"

definition getThreads :: "pc_info \<Rightarrow> size_t set" where
  "getThreads pc = (if pi_isFirst pc then fst ` set (pi_allRedirects pc) else {})"

text \<open>The two reference parameters go in and come out; only one of them is assigned.\<close>

definition getThreaded :: "pc_info \<Rightarrow> size_t \<Rightarrow> int \<times> redirect list \<Rightarrow> bool \<times> int \<times> redirect list" where
  "getThreaded pc tid out =
     (if pi_isFirst pc then (True, fst out, value_or [] (map_of (pi_allRedirects pc) tid))
      else (False, pi_malloc pc, snd out))"

record threaded_pc_info =
  tp_redirects :: "redirect list"
  tp_dupFuncs :: "func_ptr list"
  tp_malloc :: int
  tp_triSwitch :: nat

definition threaded_of :: "pc_info \<Rightarrow> size_t \<Rightarrow> threaded_pc_info" where
  "threaded_of pc tid =
     (let (isRedirect, mloc, re) = getThreaded pc tid (0, [])
      in \<lparr>tp_redirects = re, tp_dupFuncs = [], tp_malloc = mloc, tp_triSwitch = (if isRedirect then 0 else 2)\<rparr>)"

definition threaded_calls :: "func_ptr list \<Rightarrow> threaded_pc_info" where
  "threaded_calls fs = \<lparr>tp_redirects = [], tp_dupFuncs = fs, tp_malloc = 0, tp_triSwitch = 1\<rparr>"

definition getSize :: "threaded_pc_info \<Rightarrow> nat result" where
  "getSize tp =
     (if tp_triSwitch tp = 0 then Inr (length (tp_redirects tp))
      else if tp_triSwitch tp = 1 then Inr (length (tp_dupFuncs tp))
      else if tp_triSwitch tp = 2 then Inr 1
      else Inl (AssertFail ''false''))"

record expanded_pc_info =
  ex_redirect :: redirect
  ex_callee :: "func_ptr option"
  ex_malloc :: int
  ex_triSwitch :: nat

text \<open>The constructor of \<^verbatim>\<open>ExpandedPCInfo\<close> and the \<^verbatim>\<open>getLoopWise\<close> it calls.\<close>

definition expanded_of :: "threaded_pc_info \<Rightarrow> nat \<Rightarrow> expanded_pc_info result" where
  "expanded_of tp loopid =
     (let e = \<lparr>ex_redirect = (0, 0), ex_callee = None, ex_malloc = 0, ex_triSwitch = tp_triSwitch tp\<rparr>
      in if tp_triSwitch tp = 0 then
           bindE (guardE (length (tp_redirects tp) > loopid) (AssertFail ''redirects.size() > loopid'')) (\<lambda>_.
             Inr (e\<lparr>ex_redirect := tp_redirects tp ! loopid\<rparr>))
         else if tp_triSwitch tp = 1 then
           bindE (guardE (length (tp_dupFuncs tp) > loopid) (AssertFail ''dupFuncs.size() > loopid'')) (\<lambda>_.
             Inr (e\<lparr>ex_callee := Some (tp_dupFuncs tp ! loopid)\<rparr>))
         else if tp_triSwitch tp = 2 then Inr (e\<lparr>ex_malloc := tp_malloc tp\<rparr>)
         else Inl (AssertFail ''false''))"

section \<open>The loader\<close>

type_synonym profile = "((size_t \<times> size_t) \<times> pc_info) list"

definition uninit :: "'a option \<Rightarrow> 'a result" where
  "uninit x = (case x of None \<Rightarrow> Inl (Undefined ''uninitialised variable'') | Some v \<Rightarrow> Inr v)"

text \<open>\<^verbatim>\<open>(long)to - (long)from\<close>; an overflow is undefined.\<close>

definition long_diff :: "size_t \<Rightarrow> size_t \<Rightarrow> int result" where
  "long_diff to from =
     (let d = sint to - sint from
      in if - (2 ^ 63) \<le> d \<and> d < 2 ^ 63 then Inr d else Inl (Undefined ''signed overflow''))"

primrec load_mallocs :: "nat \<Rightarrow> istream \<Rightarrow> profile \<Rightarrow> (profile \<times> istream) result" where
  "load_mallocs 0 s prof = Inr (prof, s)"
| "load_mallocs (Suc n) s prof =
     (let (func, s1) = extract_u None s; (inst, s2) = extract_u None s1;
          (from, s3) = extract_u None s2; (to, s4) = extract_u None s3
      in bindE (uninit func) (\<lambda>f. bindE (uninit inst) (\<lambda>i. bindE (uninit from) (\<lambda>a. bindE (uninit to) (\<lambda>b.
           if b = a then load_mallocs n s4 prof
           else bindE (long_diff b a) (\<lambda>d.
                  load_mallocs n s4 (umap_emplace (f, i) (pc_info_malloc d) prof)))))))"

definition loadMallocInfo :: "istream \<Rightarrow> profile \<Rightarrow> (profile \<times> istream) result" where
  "loadMallocInfo s prof =
     (let (n, s1) = extract_u None s
      in bindE (uninit n) (\<lambda>n. load_mallocs (unat (n :: size_t)) s1 prof))"

primrec load_lines :: "nat \<Rightarrow> remap_line list \<Rightarrow> istream \<Rightarrow> (remap_line list \<times> istream) result" where
  "load_lines 0 acc s = Inr (acc, s)"
| "load_lines (Suc n) acc s =
     (let (tid, s1) = extract_u None s; (original, s2) = extract_u None s1; (modified, s3) = extract_u None s2
      in bindE (uninit tid) (\<lambda>t. bindE (uninit original) (\<lambda>a. bindE (uninit modified) (\<lambda>b.
           load_lines n (acc @ [(t, a, b)]) s3))))"

lemma load_lines_rest_le:
  "load_lines n acc s = Inr (ls, s') \<Longrightarrow> length (is_rest s') \<le> length (is_rest s)"
proof (induction n arbitrary: acc s)
  case (Suc n)
  obtain t s1 where 1: "extract_u (None :: size_t option) s = (t, s1)" by (cases "extract_u (None :: size_t option) s")
  obtain a s2 where 2: "extract_u (None :: size_t option) s1 = (a, s2)" by (cases "extract_u (None :: size_t option) s1")
  obtain b s3 where 3: "extract_u (None :: size_t option) s2 = (b, s3)" by (cases "extract_u (None :: size_t option) s2")
  from Suc.prems obtain acc' where "load_lines n acc' s3 = Inr (ls, s')"
    by (auto simp: 1 2 3 err_simps)
  from Suc.IH[OF this] extract_u_rest_le[OF 1] extract_u_rest_le[OF 2] extract_u_rest_le[OF 3]
  show ?case by linarith
qed simp

text \<open>\<^verbatim>\<open>while (is >> func >> inst >> n)\<close>: every round that goes on has consumed input.\<close>

function loadLocInfo :: "istream \<Rightarrow> profile \<Rightarrow> profile result" where
  "loadLocInfo s prof =
     (let (func, s1) = extract_u None s; (inst, s2) = extract_u None s1; (n, s3) = extract_u None s2
      in if is_fail s3 then Inr prof
         else bindE (uninit func) (\<lambda>f. bindE (uninit inst) (\<lambda>i. bindE (uninit n) (\<lambda>n.
              bindE (load_lines (unat (n :: size_t)) [] s3) (\<lambda>ls.
                loadLocInfo (snd ls) (umap_emplace (f, i) (pc_info_lines (fst ls)) prof))))))"
  by pat_completeness auto
termination
proof (relation "measure (\<lambda>(s, prof). length (is_rest s))")
  fix s s1 s2 s3 :: istream and prof :: profile and x1 x2 x3 y1 y2 y3 f i n ls
  assume 1: "x1 = extract_u (None :: size_t option) s" "(y1, s1) = x1"
    and 2: "x2 = extract_u (None :: size_t option) s1" "(y2, s2) = x2"
    and 3: "x3 = extract_u (None :: size_t option) s2" "(y3, s3) = x3"
    and ok: "\<not> is_fail s3" and ls: "load_lines (unat (n :: size_t)) [] s3 = Inr ls"
  have "length (is_rest (snd ls)) \<le> length (is_rest s3)"
    using load_lines_rest_le[of _ _ _ "fst ls" "snd ls"] ls by simp
  moreover have "length (is_rest s3) < length (is_rest s2)" using extract_u_progress[of None s2 y3 s3] 3 ok by simp
  moreover have "length (is_rest s2) \<le> length (is_rest s1)" using extract_u_rest_le[of None s1 y2 s2] 2 by simp
  moreover have "length (is_rest s1) \<le> length (is_rest s)" using extract_u_rest_le[of None s y1 s1] 1 by simp
  ultimately show "((snd ls, umap_emplace (f, i) (pc_info_lines (fst ls)) prof), s, prof)
      \<in> measure (\<lambda>(s, prof). length (is_rest s))" by simp
qed simp

declare loadLocInfo.simps [simp del]

definition loadProfile :: "istream \<Rightarrow> profile result" where
  "loadProfile s = bindE (loadMallocInfo s []) (\<lambda>(prof, s1). loadLocInfo s1 prof)"

section \<open>Reading what was printed\<close>

definition pc_key :: "PC \<Rightarrow> size_t \<times> size_t" where
  "pc_key pc = (ucast (pc_func pc), ucast (pc_inst pc))"

text \<open>The global segment has the null counter, which is printed as two minus ones.\<close>

definition malloc_key :: "PC \<Rightarrow> size_t \<times> size_t" where
  "malloc_key pc = (if pc = pc_null then (- 1, - 1) else pc_key pc)"

definition malloc_from :: "PC \<times> size_t \<times> size_t \<Rightarrow> size_t" where
  "malloc_from m = (if fst m = pc_null then 0 else fst (snd m))"

text \<open>The growth of every allocation whose size changes.\<close>

definition malloc_changes :: "(PC \<times> size_t \<times> size_t) list \<Rightarrow> ((size_t \<times> size_t) \<times> int) list" where
  "malloc_changes ms = map (\<lambda>m. (malloc_key (fst m), uint (snd (snd m)) - uint (malloc_from m)))
     (filter (\<lambda>m. snd (snd m) \<noteq> malloc_from m) ms)"

definition small_malloc :: "PC \<times> size_t \<times> size_t \<Rightarrow> bool" where
  "small_malloc m \<longleftrightarrow> fst (snd m) < 2 ^ 63 \<and> snd (snd m) < 2 ^ 63"

lemma read_u16:
  assumes "spaces ws" "no_digit rest"
  shows "extract_u x (good (ws @ dec (unat (f :: u16)) @ rest)) = (Some (ucast f :: size_t), good rest)"
proof -
  have "unat f < 2 ^ 16" using unsigned_less[of f] by simp
  then have "unat f < 2 ^ 64" by simp
  then have "unat (ucast f :: size_t) = unat f" by (simp add: unsigned_ucast_eq take_bit_nat_eq_self)
  then show ?thesis using read_u[OF assms, of x "ucast f :: size_t"] by simp
qed

lemma read_minus_one:
  assumes "spaces ws" "no_digit rest"
  shows "extract_u x (good (ws @ ''-1'' @ rest)) = (Some (- 1 :: size_t), good rest)"
proof -
  have ws: "dropWhile is_space (ws @ CHR ''-'' # CHR ''1'' # rest) = CHR ''-'' # CHR ''1'' # rest"
    using assms(1) by (simp add: spaces_def dropWhile_append2 is_space_def)
  have d: "is_digit (CHR ''1'')" by code_simp
  have "takeWhile is_digit rest = []" "dropWhile is_digit rest = rest"
    using assms(2) by (auto simp: no_digit_def takeWhile_eq_Nil_iff dropWhile_eq_self_iff)
  then have "takeWhile is_digit (CHR ''1'' # rest) = ''1''" "dropWhile is_digit (CHR ''1'' # rest) = rest"
    by (simp_all add: d)
  then show ?thesis by (simp add: extract_u_def Let_def ws dec_val_def digit_val_def)
qed

lemma long_diff_small:
  assumes "a < 2 ^ 63" "b < 2 ^ 63"
  shows "long_diff b a = Inr (uint b - uint a)"
proof -
  have "uint a < 2 ^ 63" "uint b < 2 ^ 63" using assms by (simp_all add: word_less_def)
  moreover have "0 \<le> uint a" "0 \<le> uint b" by (rule uint_ge_0)+
  ultimately have "- (2 ^ 63) \<le> uint b - uint a \<and> uint b - uint a < 2 ^ 63" by linarith
  then show ?thesis unfolding long_diff_def Let_def sint_small[OF assms(1)] sint_small[OF assms(2)] by (rule if_P)
qed

definition add_malloc :: "PC \<times> size_t \<times> size_t \<Rightarrow> profile \<Rightarrow> profile" where
  "add_malloc m prof =
     (if snd (snd m) = malloc_from m then prof
      else umap_emplace (malloc_key (fst m)) (pc_info_malloc (uint (snd (snd m)) - uint (malloc_from m))) prof)"

lemma read_malloc_fields:
  assumes "spaces ws"
  shows "\<exists>r1 r2 r3. extract_u None (good (ws @ print_fixed_malloc m @ rest)) = (Some (fst (malloc_key (fst m))), good r1) \<and>
    extract_u None (good r1) = (Some (snd (malloc_key (fst m))), good r2) \<and>
    extract_u None (good r2) = (Some (malloc_from m), good r3) \<and>
    extract_u None (good r3) = (Some (snd (snd m)), good (newline # rest))"
proof -
  let ?r3 = "CHR '' '' # dec (unat (snd (snd m))) @ newline # rest"
  let ?r2 = "CHR '' '' # dec (unat (malloc_from m)) @ ?r3"
  have 4: "extract_u None (good ?r3) = (Some (snd (snd m)), good (newline # rest))"
    using read_u[of "'' ''" "newline # rest" None "snd (snd m)"] by simp
  have 3: "extract_u None (good ?r2) = (Some (malloc_from m), good ?r3)"
    using read_u[of "'' ''" ?r3 None "malloc_from m"] by simp
  show ?thesis
  proof (cases "fst m = pc_null")
    case True
    let ?r1 = "CHR '' '' # ''-1'' @ ?r2"
    have "dec 0 = ''0''" by code_simp
    then have "dec (unat (malloc_from m)) = ''0''" using True by (simp add: malloc_from_def)
    then have s: "ws @ print_fixed_malloc m @ rest = ws @ ''-1'' @ ?r1" using True by (simp add: print_fixed_malloc_def)
    have "extract_u None (good (ws @ ''-1'' @ ?r1)) = (Some (- 1 :: size_t), good ?r1)"
      by (rule read_minus_one[OF assms]) simp
    moreover have "extract_u None (good ?r1) = (Some (- 1 :: size_t), good ?r2)"
      using read_minus_one[of "'' ''" ?r2 None] by simp
    ultimately show ?thesis unfolding s using 3 4 True by (auto simp: malloc_key_def)
  next
    case False
    let ?r1 = "CHR '' '' # dec (unat (pc_inst (fst m))) @ ?r2"
    have s: "ws @ print_fixed_malloc m @ rest = ws @ dec (unat (pc_func (fst m))) @ ?r1"
      using False by (simp add: print_fixed_malloc_def pc_print_def malloc_from_def)
    have "extract_u None (good (ws @ dec (unat (pc_func (fst m))) @ ?r1)) = (Some (ucast (pc_func (fst m)) :: size_t), good ?r1)"
      by (rule read_u16[OF assms]) simp
    moreover have "extract_u None (good ?r1) = (Some (ucast (pc_inst (fst m)) :: size_t), good ?r2)"
      using read_u16[of "'' ''" ?r2 None "pc_inst (fst m)"] by simp
    ultimately show ?thesis unfolding s using 3 4 False by (auto simp: malloc_key_def pc_key_def)
  qed
qed

lemma load_mallocs_print:
  "spaces ws \<Longrightarrow> \<forall>m \<in> set ms. small_malloc m \<Longrightarrow>
   load_mallocs (length ms) (good (ws @ concat (map print_fixed_malloc ms) @ rest)) prof =
     Inr (fold add_malloc ms prof, good (if ms = [] then ws @ rest else newline # rest))"
proof (induction ms arbitrary: ws prof)
  case (Cons m ms)
  let ?rest = "concat (map print_fixed_malloc ms) @ rest"
  obtain r1 r2 r3 where f:
    "extract_u None (good (ws @ print_fixed_malloc m @ ?rest)) = (Some (fst (malloc_key (fst m))), good r1)"
    "extract_u None (good r1) = (Some (snd (malloc_key (fst m))), good r2)"
    "extract_u None (good r2) = (Some (malloc_from m), good r3)"
    "extract_u None (good r3) = (Some (snd (snd m)), good (newline # ?rest))"
    using read_malloc_fields[OF Cons.prems(1)] by blast
  have d: "long_diff (snd (snd m)) (malloc_from m) = Inr (uint (snd (snd m)) - uint (malloc_from m))"
    using Cons.prems(2) by (intro long_diff_small) (auto simp: small_malloc_def malloc_from_def)
  have "load_mallocs (length ms) (good (newline # ?rest)) (add_malloc m prof) =
      Inr (fold add_malloc ms (add_malloc m prof), good (newline # rest))"
    using Cons.IH[of "[newline]" "add_malloc m prof"] Cons.prems(2) by (cases "ms = []") simp_all
  then show ?case by (simp add: f uninit_def d add_malloc_def[of m] split: if_splits)
qed simp

lemma load_lines_print:
  "spaces ws \<Longrightarrow>
   load_lines (length ls) acc (good (ws @ concat (map print_line ls) @ rest)) =
     Inr (acc @ ls, good (if ls = [] then ws @ rest else newline # rest))"
proof (induction ls arbitrary: ws acc)
  case (Cons l ls)
  let ?r3 = "newline # concat (map print_line ls) @ rest"
  let ?r2 = "CHR '' '' # dec (unat (snd (snd l))) @ ?r3"
  let ?r1 = "CHR '' '' # dec (unat (fst (snd l))) @ ?r2"
  have s: "ws @ concat (map print_line (l # ls)) @ rest = ws @ dec (unat (fst l)) @ ?r1" by (simp add: print_line_def)
  have 1: "extract_u None (good (ws @ dec (unat (fst l)) @ ?r1)) = (Some (fst l), good ?r1)"
    by (rule read_u[OF Cons.prems]) simp
  have 2: "extract_u None (good ?r1) = (Some (fst (snd l)), good ?r2)"
    using read_u[of "'' ''" ?r2 None "fst (snd l)"] by simp
  have 3: "extract_u None (good ?r2) = (Some (snd (snd l)), good ?r3)"
    using read_u[of "'' ''" ?r3 None "snd (snd l)"] by simp
  have "load_lines (length ls) (acc @ [l]) (good ?r3) = Inr (acc @ l # ls, good (newline # rest))"
    using Cons.IH[of "[newline]" "acc @ [l]"] by (cases "ls = []") simp_all
  then show ?case unfolding s by (simp add: 1 2 3 uninit_def)
qed simp

definition add_group :: "PC \<times> remap_line list \<Rightarrow> profile \<Rightarrow> profile" where
  "add_group g = umap_emplace (pc_key (fst g)) (pc_info_lines (sort (snd g)))"

lemma loadLocInfo_end: "spaces ws \<Longrightarrow> loadLocInfo (good ws) prof = Inr prof"
  by (subst loadLocInfo.simps) (simp add: spaces_def extract_u_def Let_def)

lemma loadLocInfo_print:
  "spaces ws \<Longrightarrow> \<forall>g \<in> set gs. length (snd g) < 2 ^ 64 \<Longrightarrow>
   loadLocInfo (good (ws @ concat (map print_pc_layout gs))) prof = Inr (fold add_group gs prof)"
proof (induction gs arbitrary: ws prof)
  case Nil
  then show ?case by (simp add: loadLocInfo_end)
next
  case (Cons g gs)
  let ?rest = "concat (map print_pc_layout gs)" and ?ls = "sort (snd g)"
  let ?r3 = "newline # concat (map print_line ?ls) @ ?rest"
  let ?r2 = "CHR '' '' # dec (length (snd g)) @ ?r3"
  let ?r1 = "CHR '' '' # dec (unat (pc_inst (fst g))) @ ?r2"
  have len: "length (snd g) < 2 ^ 64" using Cons.prems(2) by simp
  have s: "ws @ concat (map print_pc_layout (g # gs)) = ws @ dec (unat (pc_func (fst g))) @ ?r1"
    by (simp add: print_pc_layout_def pc_print_def)
  have 1: "extract_u None (good (ws @ dec (unat (pc_func (fst g))) @ ?r1)) = (Some (ucast (pc_func (fst g)) :: size_t), good ?r1)"
    by (rule read_u16[OF Cons.prems(1)]) simp
  have 2: "extract_u None (good ?r1) = (Some (ucast (pc_inst (fst g)) :: size_t), good ?r2)"
    using read_u16[of "'' ''" ?r2 None "pc_inst (fst g)"] by simp
  have 3: "extract_u None (good ?r2) = (Some (word_of_nat (length (snd g)) :: size_t), good ?r3)"
    using read_u_nat[of "'' ''" ?r3 "length (snd g)" None] len by simp
  have "unat (word_of_nat (length (snd g)) :: size_t) = length ?ls" using len by (simp add: unat_of_nat)
  then have 4: "load_lines (unat (word_of_nat (length (snd g)) :: size_t)) [] (good ?r3) =
      Inr (?ls, good (newline # ?rest))"
    using load_lines_print[of "[newline]" ?ls "[]" ?rest] by (cases "?ls = []") simp_all
  have 5: "loadLocInfo (good (newline # ?rest)) (add_group g prof) = Inr (fold add_group gs (add_group g prof))"
    using Cons.IH[of "[newline]" "add_group g prof"] Cons.prems(2) by simp
  show ?case unfolding s
    by (subst loadLocInfo.simps) (use 5 in \<open>simp add: 1 2 3 4 uninit_def add_group_def[of g] pc_key_def\<close>)
qed

section \<open>What the loaded profile holds\<close>

lemma map_of_umap_emplace:
  "map_of (umap_emplace k v m) k' = (case map_of m k' of Some w \<Rightarrow> Some w | None \<Rightarrow> if k' = k then Some v else None)"
  unfolding umap_emplace_def by (induction m) (auto split: option.splits)

lemma map_of_fold_emplace:
  "map_of (fold (\<lambda>x. umap_emplace (key x) (val x)) xs m) k =
     (case map_of m k of Some w \<Rightarrow> Some w | None \<Rightarrow> map_of (map (\<lambda>x. (key x, val x)) xs) k)"
  by (induction xs arbitrary: m) (auto simp: map_of_umap_emplace split: option.splits)

lemma fold_add_malloc:
  "fold add_malloc ms prof =
     fold (\<lambda>c. umap_emplace (fst c) (pc_info_malloc (snd c))) (malloc_changes ms) prof"
  by (induction ms arbitrary: prof) (simp_all add: malloc_changes_def add_malloc_def)

lemma map_of_map_inj:
  assumes "inj f"
  shows "map_of (map (\<lambda>p. (f (fst p), g (snd p))) xs) (f k) = map_option g (map_of xs k)"
  by (induction xs) (auto simp: inj_eq[OF assms])

lemma u16_of_size_t: "(ucast (ucast (x :: u16) :: size_t) :: u16) = x"
  by (rule bit_word_eqI) (simp add: bit_simps)

lemma pc_key_inj: "inj pc_key"
proof (rule injI)
  fix p q assume "pc_key p = pc_key q"
  then have "(ucast (ucast (pc_func p) :: size_t) :: u16) = ucast (ucast (pc_func q) :: size_t)"
    "(ucast (ucast (pc_inst p) :: size_t) :: u16) = ucast (ucast (pc_inst q) :: size_t)"
    by (simp_all add: pc_key_def)
  then show "p = q" unfolding u16_of_size_t by (cases p; cases q) simp
qed

lemma fold_snoc_snd: "fold (\<lambda>p ls. ls @ [snd p]) xs acc = acc @ map snd xs"
  by (induction xs arbitrary: acc) simp_all

lemma group_by_pc_lookup:
  "map_of (group_by_pc lay) pc =
     (if pc \<in> fst ` set lay then Some (map snd (filter (\<lambda>p. fst p = pc) lay)) else None)"
  unfolding group_by_pc_def
  by (subst smap.lookup_fold_alter) (simp_all add: smap_ok_def fold_snoc_snd)

lemma group_by_pc_ok: "smap_ok (group_by_pc lay)"
  unfolding group_by_pc_def by (rule smap.ok_fold_alter) (simp add: smap_ok_def)

lemma group_by_pc_length:
  assumes "g \<in> set (group_by_pc lay)"
  shows "length (snd g) \<le> length lay"
proof -
  have "distinct (map fst (group_by_pc lay))" using group_by_pc_ok[of lay] by (simp add: smap_ok_def strict_sorted_iff)
  then have "map_of (group_by_pc lay) (fst g) = Some (snd g)" using assms by simp
  then have "snd g = map snd (filter (\<lambda>p. fst p = fst g) lay)" by (simp add: group_by_pc_lookup split: if_splits)
  then show ?thesis by simp
qed

lemma group_by_pc_keys: "fst ` set (group_by_pc lay) = fst ` set lay"
proof -
  have "pc \<in> fst ` set (group_by_pc lay) \<longleftrightarrow> pc \<in> fst ` set lay" for pc
    using map_of_eq_None_iff[of "group_by_pc lay" pc] by (simp add: group_by_pc_lookup split: if_splits)
  then show ?thesis by blast
qed

lemma sort_mset_cong: "mset xs = mset ys \<Longrightarrow> sort xs = sort ys"
  by (metis sorted_list_of_multiset_mset)

lemma threaded_lines:
  "tp_redirects (threaded_of (pc_info_lines lines) tid) = sort (map snd (filter (\<lambda>l. fst l = tid) lines))"
proof -
  let ?m = "fold (\<lambda>l. umap_alter (fst l) (\<lambda>v. v @ [snd l]) []) lines []"
  have "map_of ?m tid = (if tid \<in> fst ` set lines then Some (map snd (filter (\<lambda>l. fst l = tid) lines)) else None)"
    by (subst umap.lookup_fold_alter) (simp_all add: umap_ok_def fold_snoc_snd)
  moreover have "filter (\<lambda>l. fst l = tid) lines = []" if "tid \<notin> fst ` set lines"
    using that by (auto simp: filter_empty_conv)
  moreover have "map_of (map (\<lambda>p. (fst p, sort (snd p))) ?m) tid = map_option sort (map_of ?m tid)"
    using map_of_map_inj[of "\<lambda>x. x" sort ?m tid] by simp
  ultimately show ?thesis by (simp add: threaded_of_def getThreaded_def pc_info_lines_def)
qed

lemma threaded_lines_sort:
  "tp_redirects (threaded_of (pc_info_lines (sort lines)) tid) = sort (map snd (filter (\<lambda>l. fst l = tid) lines))"
  unfolding threaded_lines by (rule sort_mset_cong) (simp add: mset_filter)

text \<open>What the loader makes of the printed file, entry by entry.\<close>

lemma profile_loaded:
  fixes rp :: repair_pass
  assumes "length (rp_all_fixed_mallocs rp) < 2 ^ 64" "length (rp_all_pcs_layout rp) < 2 ^ 64"
    and "\<forall>m \<in> set (rp_all_fixed_mallocs rp). small_malloc m"
  obtains prof where "loadProfile (open_in (repair_print_result rp)) = Inr prof"
    "\<And>k. map_of prof k = (case map_option pc_info_malloc (map_of (malloc_changes (rp_all_fixed_mallocs rp)) k) of
        Some w \<Rightarrow> Some w
      | None \<Rightarrow> map_of (map (\<lambda>g. (pc_key (fst g), pc_info_lines (sort (snd g)))) (group_by_pc (rp_all_pcs_layout rp))) k)"
proof -
  let ?ms = "rp_all_fixed_mallocs rp" and ?gs = "group_by_pc (rp_all_pcs_layout rp)"
  let ?ch = "malloc_changes ?ms"
  let ?prof = "fold add_group ?gs (fold add_malloc ?ms [])"
  let ?tail = "concat (map print_pc_layout ?gs)"
  let ?r = "newline # concat (map print_fixed_malloc ?ms) @ ?tail"
  have "extract_u None (good (dec (length ?ms) @ ?r)) = (Some (word_of_nat (length ?ms) :: size_t), good ?r)"
    using read_u_nat[of "[]" ?r "length ?ms" None] assms(1) by simp
  moreover have "unat (word_of_nat (length ?ms) :: size_t) = length ?ms" using assms(1) by (simp add: unat_of_nat)
  moreover have "load_mallocs (length ?ms) (good ?r) [] = Inr (fold add_malloc ?ms [], good (newline # ?tail))"
    using load_mallocs_print[of "[newline]" ?ms ?tail "[]"] assms(3) by (cases "?ms = []") simp_all
  moreover have "\<forall>g \<in> set ?gs. length (snd g) < 2 ^ 64"
    using group_by_pc_length assms(2) by (blast intro: le_less_trans)
  then have "loadLocInfo (good (newline # ?tail)) (fold add_malloc ?ms []) = Inr ?prof"
    using loadLocInfo_print[of "[newline]" ?gs "fold add_malloc ?ms []"] by simp
  ultimately have load: "loadProfile (open_in (repair_print_result rp)) = Inr ?prof"
    by (simp add: loadProfile_def loadMallocInfo_def repair_print_result_def print_malloc_def print_layout_def
        open_in_def uninit_def Let_def)
  have look: "map_of ?prof k = (case map_option pc_info_malloc (map_of ?ch k) of Some w \<Rightarrow> Some w
      | None \<Rightarrow> map_of (map (\<lambda>g. (pc_key (fst g), pc_info_lines (sort (snd g)))) ?gs) k)" for k
    unfolding add_group_def fold_add_malloc map_of_fold_emplace
    using map_of_map_inj[of "\<lambda>x. x" pc_info_malloc ?ch k] by simp
  show thesis using that[OF load] look by blast
qed

lemma profile_lines:
  "map_of (map (\<lambda>g. (pc_key (fst g), pc_info_lines (sort (snd g)))) (group_by_pc lay)) (pc_key pc) =
     (if pc \<in> fst ` set lay then Some (pc_info_lines (sort (map snd (filter (\<lambda>p. fst p = pc) lay)))) else None)"
  using map_of_map_inj[OF pc_key_inj, of "\<lambda>ls. pc_info_lines (sort ls)" "group_by_pc lay" pc] by (simp add: group_by_pc_lookup)

text \<open>
  \<^bold>\<open>C7.\<close> The compiler pass applies exactly the layout the repair pass computed. Loading the printed
  result gives a profile in which every resized allocation has its growth, every other instruction
  of the layout has, for every thread, the sorted list of that thread's redirections, and no other
  instruction appears.
\<close>

theorem repair_profile_exact:
  assumes "length (rp_all_fixed_mallocs rp) < 2 ^ 64" "length (rp_all_pcs_layout rp) < 2 ^ 64"
    and "\<forall>m \<in> set (rp_all_fixed_mallocs rp). small_malloc m"
  shows "\<exists>prof. loadProfile (open_in (repair_print_result rp)) = Inr prof \<and>
    (\<forall>k d. map_of (malloc_changes (rp_all_fixed_mallocs rp)) k = Some d \<longrightarrow> map_of prof k = Some (pc_info_malloc d)) \<and>
    (\<forall>pc. map_of (malloc_changes (rp_all_fixed_mallocs rp)) (pc_key pc) = None \<longrightarrow>
       pc \<in> fst ` set (rp_all_pcs_layout rp) \<longrightarrow>
       (\<exists>info. map_of prof (pc_key pc) = Some info \<and> pi_isFirst info \<and>
          (\<forall>tid. tp_redirects (threaded_of info tid) =
             sort (map snd (filter (\<lambda>l. fst l = tid) (map snd (filter (\<lambda>p. fst p = pc) (rp_all_pcs_layout rp)))))))) \<and>
    (\<forall>k. map_of (malloc_changes (rp_all_fixed_mallocs rp)) k = None \<longrightarrow>
       k \<notin> pc_key ` fst ` set (rp_all_pcs_layout rp) \<longrightarrow> map_of prof k = None)"
proof (rule profile_loaded[OF assms])
  fix prof
  let ?lay = "rp_all_pcs_layout rp" and ?ch = "malloc_changes (rp_all_fixed_mallocs rp)"
  let ?ls = "map (\<lambda>g. (pc_key (fst g), pc_info_lines (sort (snd g)))) (group_by_pc ?lay)"
  assume load: "loadProfile (open_in (repair_print_result rp)) = Inr prof"
    and look: "\<And>k. map_of prof k = (case map_option pc_info_malloc (map_of ?ch k) of Some w \<Rightarrow> Some w | None \<Rightarrow> map_of ?ls k)"
  have none: "map_of ?ls k = None" if "k \<notin> pc_key ` fst ` set ?lay" for k
    using that unfolding map_of_eq_None_iff group_by_pc_keys[of ?lay, symmetric] by (simp add: image_image)
  have first: "pi_isFirst (pc_info_lines ls)" for ls by (simp add: pc_info_lines_def)
  show ?thesis
    by (intro exI[of _ prof] conjI allI impI load) (simp_all add: look profile_lines none first threaded_lines_sort)
qed

definition sample_repair :: repair_pass where
  "sample_repair = \<lparr>rp_all_fixed_mallocs = [(PC 1 2, 64, 128), (PC 3 4, 8, 8)],
     rp_all_pcs_layout = [(PC 5 6, 1, 8, 64), (PC 5 6, 0, 0, 0), (PC 5 6, 1, 0, 72)]\<rparr>"

theorem repair_profile_exact_witness:
  "\<exists>prof info. loadProfile (open_in (repair_print_result sample_repair)) = Inr prof \<and>
    map_of prof (1, 2) = Some (pc_info_malloc 64) \<and> map_of prof (5, 6) = Some info \<and>
    tp_redirects (threaded_of info 1) = [(0, 72), (8, 64)] \<and> map_of prof (3, 4) = None"
proof -
  have ch: "malloc_changes (rp_all_fixed_mallocs sample_repair) = [((1, 2), 64)]" by code_simp
  have key: "pc_key (PC 5 6) = (5, 6)" by code_simp
  have mem: "PC 5 6 \<in> fst ` set (rp_all_pcs_layout sample_repair)" by (simp add: sample_repair_def)
  have out: "(3, 4) \<notin> pc_key ` fst ` set (rp_all_pcs_layout sample_repair)" by code_simp
  have red: "sort (map snd (filter (\<lambda>l. fst l = 1) (map snd (filter (\<lambda>p. fst p = PC 5 6)
      (rp_all_pcs_layout sample_repair))))) = [(0, 72), (8, 64)]" by code_simp
  have "length (rp_all_fixed_mallocs sample_repair) < 2 ^ 64" "length (rp_all_pcs_layout sample_repair) < 2 ^ 64"
    "\<forall>m \<in> set (rp_all_fixed_mallocs sample_repair). small_malloc m"
    by (simp_all add: sample_repair_def small_malloc_def)
  from repair_profile_exact[OF this] obtain prof where
    p: "loadProfile (open_in (repair_print_result sample_repair)) = Inr prof"
    and m: "\<forall>k d. map_of [((1, 2), 64)] k = Some d \<longrightarrow> map_of prof k = Some (pc_info_malloc d)"
    and r: "\<forall>pc. map_of [((1, 2), 64 :: int)] (pc_key pc) = None \<longrightarrow> pc \<in> fst ` set (rp_all_pcs_layout sample_repair) \<longrightarrow>
       (\<exists>info. map_of prof (pc_key pc) = Some info \<and> pi_isFirst info \<and>
          (\<forall>tid. tp_redirects (threaded_of info tid) = sort (map snd (filter (\<lambda>l. fst l = tid)
             (map snd (filter (\<lambda>p. fst p = pc) (rp_all_pcs_layout sample_repair)))))))"
    and n: "\<forall>k. map_of [((1, 2), 64 :: int)] k = None \<longrightarrow> k \<notin> pc_key ` fst ` set (rp_all_pcs_layout sample_repair) \<longrightarrow>
       map_of prof k = None"
    unfolding ch by blast
  have "map_of prof (1, 2) = Some (pc_info_malloc 64)" using m by simp
  moreover have "map_of prof (3, 4) = None" using n out by simp
  moreover obtain info where "map_of prof (5, 6) = Some info" "tp_redirects (threaded_of info 1) = [(0, 72), (8, 64)]"
    using r[rule_format, of "PC 5 6", OF _ mem] red unfolding key by auto
  ultimately show ?thesis using p by blast
qed

end
