(* ===== verification/RP_CallGraph.thy ===== *)
theory RP_CallGraph
  imports RP_Profile
begin

text \<open>
  \<^verbatim>\<open>RedirectPtr/CallGraph.h\<close>: the call graph below the thread start functions and the propagation of
  thread numbers from the profiled functions to their callers. There is one node per function, so a
  node is named by its function. The recursions carry a bound on their depth; the number of
  functions of the module is enough.
\<close>

section \<open>Nodes\<close>

record graph_node =
  gn_threads :: "size_t set"
  gn_callees :: "func_ptr list"
  gn_callers :: "func_ptr list"

type_synonym cgraph = "(func_ptr \<times> graph_node) list"

definition new_node :: graph_node where
  "new_node = \<lparr>gn_threads = {}, gn_callees = [], gn_callers = []\<rparr>"

text \<open>Updates through a node pointer.\<close>

definition node_upd :: "func_ptr \<Rightarrow> (graph_node \<Rightarrow> graph_node) \<Rightarrow> cgraph \<Rightarrow> cgraph" where
  "node_upd f u g = map (\<lambda>p. if fst p = f then (fst p, u (snd p)) else p) g"

definition node_of :: "cgraph \<Rightarrow> func_ptr \<Rightarrow> graph_node" where
  "node_of g f = value_or new_node (map_of g f)"

text \<open>The called functions as a set; \<open>order\<close> is its iteration order, \<open>None\<close> an indirect call.\<close>

definition getCallees :: "ll_module \<Rightarrow> (func_ptr option list \<Rightarrow> func_ptr option list) \<Rightarrow> func_ptr \<Rightarrow> func_ptr option list" where
  "getCallees M order f = order (remdups (map in_callee (filter is_call (insts_of M f))))"

definition addCallee :: "func_ptr \<Rightarrow> func_ptr \<Rightarrow> cgraph \<Rightarrow> cgraph" where
  "addCallee this node g =
     node_upd node (\<lambda>n. n\<lparr>gn_callers := gn_callers n @ [this]\<rparr>)
       (node_upd this (\<lambda>n. n\<lparr>gn_callees := gn_callees n @ [node]\<rparr>) g)"

definition mergeThreadInfo :: "func_ptr \<Rightarrow> size_t set \<Rightarrow> cgraph \<Rightarrow> cgraph" where
  "mergeThreadInfo f ts = node_upd f (\<lambda>n. n\<lparr>gn_threads := gn_threads n \<union> ts\<rparr>)"

definition cleanup :: "func_ptr set \<Rightarrow> graph_node \<Rightarrow> graph_node" where
  "cleanup drp n = n\<lparr>gn_callees := filter (\<lambda>x. x \<notin> drp) (gn_callees n),
                     gn_callers := filter (\<lambda>x. x \<notin> drp) (gn_callers n)\<rparr>"

section \<open>Building\<close>

text \<open>A call through a pointer has no callee, and the null pointer is dereferenced.\<close>

fun addFunc :: "ll_module \<Rightarrow> (func_ptr option list \<Rightarrow> func_ptr option list) \<Rightarrow> nat \<Rightarrow> func_ptr option \<Rightarrow>
  func_ptr option \<Rightarrow> cgraph \<Rightarrow> cgraph result" where
  "addFunc M order 0 f parent g = Inl (Aborted ''recursion depth'')"
| "addFunc M order (Suc n) None parent g = Inl (Undefined ''null function'')"
| "addFunc M order (Suc n) (Some f) parent g =
     (if is_decl M f then Inr g
      else bindE (if map_of g f = None
                  then foldE (\<lambda>f0. addFunc M order n f0 (Some f)) (getCallees M order f) (g @ [(f, new_node)])
                  else Inr g)
             (\<lambda>g'. Inr (case parent of None \<Rightarrow> g' | Some p \<Rightarrow> addCallee p f g')))"

record call_graph =
  cg_hinted :: "func_ptr list"
  cg_graph :: cgraph

definition cg_init :: call_graph where
  "cg_init = \<lparr>cg_hinted = [], cg_graph = []\<rparr>"

definition addStartFunc ::
  "ll_module \<Rightarrow> (func_ptr option list \<Rightarrow> func_ptr option list) \<Rightarrow> func_ptr \<Rightarrow> call_graph \<Rightarrow> call_graph result" where
  "addStartFunc M order f cg =
     bindE (addFunc M order (Suc (length M)) (Some f) None (cg_graph cg)) (\<lambda>g. Inr (cg\<lparr>cg_graph := g\<rparr>))"

section \<open>Thread numbers\<close>

definition hintFuncThreads :: "func_ptr \<Rightarrow> size_t set \<Rightarrow> call_graph \<Rightarrow> call_graph" where
  "hintFuncThreads f threads cg =
     (if map_of (cg_graph cg) f = None then cg
      else cg\<lparr>cg_graph := mergeThreadInfo f threads (cg_graph cg), cg_hinted := cg_hinted cg @ [f]\<rparr>)"

fun goNext :: "bool \<Rightarrow> nat \<Rightarrow> func_ptr \<Rightarrow> func_ptr set \<times> cgraph \<Rightarrow> (func_ptr set \<times> cgraph) result" where
  "goNext downward 0 node st = Inl (Aborted ''recursion depth'')"
| "goNext downward (Suc n) node (visited, g) =
     (if node \<in> visited then Inr (visited, g)
      else foldE (\<lambda>next st. goNext downward n next
                    (fst st, mergeThreadInfo next (gn_threads (node_of (snd st) node)) (snd st)))
             (if downward then gn_callees (node_of g node) else gn_callers (node_of g node))
             (insert node visited, g))"

definition dfs_node :: "bool \<Rightarrow> func_ptr \<Rightarrow> cgraph \<Rightarrow> cgraph result" where
  "dfs_node downward node g = bindE (goNext downward (Suc (length g)) node ({}, g)) (\<lambda>st. Inr (snd st))"

definition propagateFuncThreads :: "call_graph \<Rightarrow> call_graph result" where
  "propagateFuncThreads cg =
     bindE (foldE (dfs_node False) (cg_hinted cg) (cg_graph cg)) (\<lambda>g.
       let cleanups = fst ` set (filter (\<lambda>p. gn_threads (snd p) = {}) g)
       in Inr (cg\<lparr>cg_graph := map (\<lambda>p. (fst p, cleanup cleanups (snd p))) (filter (\<lambda>p. gn_threads (snd p) \<noteq> {}) g)\<rparr>))"

definition getFunctions :: "call_graph \<Rightarrow> func_ptr set" where
  "getFunctions cg = fst ` set (cg_graph cg)"

definition getFuncThreads :: "call_graph \<Rightarrow> func_ptr \<Rightarrow> size_t set" where
  "getFuncThreads cg f = (case map_of (cg_graph cg) f of None \<Rightarrow> {0} | Some n \<Rightarrow> gn_threads n)"

section \<open>Views of a graph\<close>

definition nodes :: "cgraph \<Rightarrow> func_ptr set" where
  "nodes g = fst ` set g"

lemma nodes_map_fst: "nodes g = set (map fst g)"
  by (simp add: nodes_def)

lemma nodes_cong: "map fst g = map fst g' \<Longrightarrow> nodes g = nodes g'"
  unfolding nodes_map_fst by simp

lemma nodes_basic [simp]: "finite (nodes g)" "nodes [] = {}" "nodes (g @ g') = nodes g \<union> nodes g'" "nodes [(f, n)] = {f}"
  by (simp_all add: nodes_def image_Un)

lemma map_of_None_nodes: "map_of g x = None \<longleftrightarrow> x \<notin> nodes g"
  by (simp add: nodes_def map_of_eq_None_iff)

abbreviation thr :: "cgraph \<Rightarrow> func_ptr \<Rightarrow> size_t set" where
  "thr g x \<equiv> gn_threads (node_of g x)"

abbreviation out :: "cgraph \<Rightarrow> func_ptr \<Rightarrow> func_ptr set" where
  "out g x \<equiv> set (gn_callees (node_of g x))"

abbreviation inn :: "cgraph \<Rightarrow> func_ptr \<Rightarrow> func_ptr set" where
  "inn g x \<equiv> set (gn_callers (node_of g x))"

lemma map_fst_node_upd [simp]: "map fst (node_upd f u g) = map fst g"
  by (simp add: node_upd_def)

lemma nodes_node_upd [simp]: "nodes (node_upd f u g) = nodes g"
  by (simp add: nodes_map_fst del: set_map)

lemma map_of_node_upd: "map_of (node_upd f u g) x = map_option (if x = f then u else (\<lambda>n. n)) (map_of g x)"
  by (induction g) (auto simp: node_upd_def)

lemma node_of_node_upd: "node_of (node_upd f u g) x = (if x = f \<and> x \<in> nodes g then u (node_of g x) else node_of g x)"
  using map_of_None_nodes[of g x] by (cases "map_of g x") (auto simp: node_of_def map_of_node_upd)

lemma node_of_new: "x \<notin> nodes g \<Longrightarrow> node_of g x = new_node"
  by (simp add: node_of_def map_of_None_nodes[THEN iffD2])

lemma node_of_snoc: "f \<notin> nodes g \<Longrightarrow> node_of (g @ [(f, new_node)]) x = node_of g x"
  by (cases "map_of g x") (auto simp: node_of_def map_add_def)

lemma map_fst_merge [simp]: "map fst (mergeThreadInfo f ts g) = map fst g"
  by (simp add: mergeThreadInfo_def)

lemma merge_views [simp]:
  "nodes (mergeThreadInfo f ts g) = nodes g"
  "gn_callees (node_of (mergeThreadInfo f ts g) x) = gn_callees (node_of g x)"
  "gn_callers (node_of (mergeThreadInfo f ts g) x) = gn_callers (node_of g x)"
  "thr (mergeThreadInfo f ts g) x = (if x = f \<and> x \<in> nodes g then thr g x \<union> ts else thr g x)"
  by (auto simp: mergeThreadInfo_def node_of_node_upd)

lemma addCallee_views:
  "map fst (addCallee p f g) = map fst g"
  "nodes (addCallee p f g) = nodes g"
  "thr (addCallee p f g) x = thr g x"
  "p \<in> nodes g \<Longrightarrow> out (addCallee p f g) x = out g x \<union> (if x = p then {f} else {})"
  "f \<in> nodes g \<Longrightarrow> inn (addCallee p f g) x = inn g x \<union> (if x = f then {p} else {})"
  by (auto simp: addCallee_def node_of_node_upd)

section \<open>Propagation reaches all callers and nothing else\<close>

text \<open>
  One stretch of the search. \<open>T\<close> is a set of threads the start has, \<open>R\<close> an upper bound that grows
  towards the callers.
\<close>

definition dfs_rel :: "size_t set \<Rightarrow> (func_ptr \<Rightarrow> size_t set) \<Rightarrow> func_ptr set \<Rightarrow> cgraph \<Rightarrow> func_ptr set \<Rightarrow> cgraph \<Rightarrow> bool" where
  "dfs_rel T R v g v' g' \<longleftrightarrow>
     map fst g' = map fst g \<and>
     (\<forall>x. gn_callers (node_of g' x) = gn_callers (node_of g x) \<and> gn_callees (node_of g' x) = gn_callees (node_of g x)) \<and>
     v \<subseteq> v' \<and> (\<forall>x \<in> v' - v. inn g x \<subseteq> v' \<and> T \<subseteq> thr g' x) \<and> (\<forall>x. thr g x \<subseteq> thr g' x) \<and>
     ((\<forall>x \<in> nodes g. thr g x \<subseteq> R x) \<longrightarrow> (\<forall>x \<in> nodes g. thr g' x \<subseteq> R x))"

lemma dfs_rel_nodes: "dfs_rel T R v g v' g' \<Longrightarrow> nodes g' = nodes g"
  unfolding dfs_rel_def nodes_map_fst by simp

lemma dfs_rel_refl: "dfs_rel T R v g v g"
  by (simp add: dfs_rel_def)

lemma dfs_relD:
  assumes "dfs_rel T R v g v' g'"
  shows "map fst g' = map fst g" "gn_callers (node_of g' x) = gn_callers (node_of g x)"
    "gn_callees (node_of g' x) = gn_callees (node_of g x)" "v \<subseteq> v'" "x \<in> v' - v \<Longrightarrow> inn g x \<subseteq> v'"
    "x \<in> v' - v \<Longrightarrow> T \<subseteq> thr g' x" "thr g x \<subseteq> thr g' x"
    "\<forall>x \<in> nodes g. thr g x \<subseteq> R x \<Longrightarrow> \<forall>x \<in> nodes g. thr g' x \<subseteq> R x"
  using assms unfolding dfs_rel_def by simp_all

lemma dfs_rel_trans:
  assumes 1: "dfs_rel T R v g v1 g1" and 2: "dfs_rel T R v1 g1 v2 g2"
  shows "dfs_rel T R v g v2 g2"
  unfolding dfs_rel_def
proof (intro conjI allI ballI impI)
  show "map fst g2 = map fst g" using dfs_relD(1)[OF 1] dfs_relD(1)[OF 2] by simp
  show "gn_callers (node_of g2 x) = gn_callers (node_of g x)" for x using dfs_relD(2)[OF 1] dfs_relD(2)[OF 2] by simp
  show "gn_callees (node_of g2 x) = gn_callees (node_of g x)" for x using dfs_relD(3)[OF 1] dfs_relD(3)[OF 2] by simp
  show v: "v \<subseteq> v2" by (rule subset_trans[OF dfs_relD(4)[OF 1] dfs_relD(4)[OF 2]])
  show "thr g x \<subseteq> thr g2 x" for x by (rule subset_trans[OF dfs_relD(7)[OF 1] dfs_relD(7)[OF 2]])
  fix x
  show "inn g x \<subseteq> v2" if "x \<in> v2 - v"
    using that dfs_relD(5)[OF 1, of x] dfs_relD(5)[OF 2, of x] dfs_relD(4)[OF 2] dfs_relD(2)[OF 1, of x]
    by (cases "x \<in> v1") auto
  show "T \<subseteq> thr g2 x" if "x \<in> v2 - v"
    using that dfs_relD(6)[OF 1, of x] dfs_relD(6)[OF 2, of x] dfs_relD(7)[OF 2, of x] by (cases "x \<in> v1") auto
  show "thr g2 x \<subseteq> R x" if "\<forall>x \<in> nodes g. thr g x \<subseteq> R x" "x \<in> nodes g"
  proof -
    have "\<forall>x \<in> nodes g1. thr g1 x \<subseteq> R x" unfolding dfs_rel_nodes[OF 1] by (rule dfs_relD(8)[OF 1 that(1)])
    then show ?thesis using dfs_relD(8)[OF 2] that(2) unfolding dfs_rel_nodes[OF 1] by blast
  qed
qed

lemma dfs_rel_merge:
  assumes "node \<in> nodes g" "ts \<subseteq> thr g node" "R node \<subseteq> R nxt"
  shows "dfs_rel T R v g v (mergeThreadInfo nxt ts g)"
proof -
  have "ts \<subseteq> R nxt" if "\<forall>x \<in> nodes g. thr g x \<subseteq> R x" using assms that by blast
  then show ?thesis by (auto simp: dfs_rel_def)
qed

definition upward :: "cgraph \<Rightarrow> (func_ptr \<Rightarrow> size_t set) \<Rightarrow> bool" where
  "upward g R \<longleftrightarrow> (\<forall>x \<in> nodes g. inn g x \<subseteq> nodes g \<and> (\<forall>y \<in> inn g x. R x \<subseteq> R y))"

lemma dfs_rel_upward: "dfs_rel T R' v g v' g' \<Longrightarrow> upward g R \<Longrightarrow> upward g' R"
  using dfs_rel_nodes[of T R' v g v' g'] by (simp add: upward_def dfs_rel_def)

lemma goNext_loop:
  assumes IH: "\<And>nxt v g. nxt \<in> nodes g \<Longrightarrow> upward g R \<Longrightarrow> card (nodes g - v) < n \<Longrightarrow> T \<subseteq> thr g nxt \<Longrightarrow>
      \<exists>v' g'. goNext False n nxt (v, g) = Inr (v', g') \<and> nxt \<in> v' \<and> dfs_rel T R v g v' g'"
    and "node \<in> nodes g" "upward g R" "card (nodes g - v) < n" "T \<subseteq> thr g node" "set es \<subseteq> inn g node"
  shows "\<exists>v' g'. foldE (\<lambda>next st. goNext False n next
      (fst st, mergeThreadInfo next (thr (snd st) node) (snd st))) es (v, g) = Inr (v', g') \<and>
    set es \<subseteq> v' \<and> dfs_rel T R v g v' g'"
  using assms(2-)
proof (induction es arbitrary: v g)
  case Nil
  then show ?case by (simp add: dfs_rel_refl)
next
  case (Cons e es)
  let ?g = "mergeThreadInfo e (thr g node) g"
  have e: "e \<in> nodes g" "R node \<subseteq> R e" using Cons.prems(1,2,5) by (auto simp: upward_def)
  have m: "dfs_rel T R v g v ?g" using e by (intro dfs_rel_merge[OF Cons.prems(1)]) auto
  have "\<exists>v1 g1. goNext False n e (v, ?g) = Inr (v1, g1) \<and> e \<in> v1 \<and> dfs_rel T R v ?g v1 g1"
    by (rule IH) (use e Cons.prems(3,4) dfs_rel_upward[OF m Cons.prems(2)] in auto)
  then obtain v1 g1 where 1: "goNext False n e (v, ?g) = Inr (v1, g1)" "e \<in> v1" "dfs_rel T R v ?g v1 g1" by blast
  have r: "dfs_rel T R v g v1 g1" by (rule dfs_rel_trans[OF m 1(3)])
  have n1: "nodes g1 = nodes g" by (rule dfs_rel_nodes[OF r])
  have "nodes g - v1 \<subseteq> nodes g - v" using r by (auto simp: dfs_rel_def)
  then have "card (nodes g1 - v1) < n" using Cons.prems(3) n1 card_mono[of "nodes g - v" "nodes g - v1"] by simp
  moreover have "T \<subseteq> thr g1 node" "set es \<subseteq> inn g1 node"
    using r Cons.prems(4,5) unfolding dfs_rel_def by fastforce+
  ultimately obtain v2 g2 where 2: "foldE (\<lambda>next st. goNext False n next
      (fst st, mergeThreadInfo next (thr (snd st) node) (snd st))) es (v1, g1) = Inr (v2, g2)"
    "set es \<subseteq> v2" "dfs_rel T R v1 g1 v2 g2"
    using Cons.IH[of g1 v1] Cons.prems(1) n1 dfs_rel_upward[OF r Cons.prems(2)] by blast
  have "e \<in> v2" using 1(2) 2(3) by (auto simp: dfs_rel_def)
  then show ?case using 1(1) 2 dfs_rel_trans[OF r 2(3)] by simp
qed

lemma goNext_up:
  "node \<in> nodes g \<Longrightarrow> upward g R \<Longrightarrow> card (nodes g - v) < n \<Longrightarrow> T \<subseteq> thr g node \<Longrightarrow>
   \<exists>v' g'. goNext False n node (v, g) = Inr (v', g') \<and> node \<in> v' \<and> dfs_rel T R v g v' g'"
proof (induction n arbitrary: node v g)
  case (Suc n)
  show ?case
  proof (cases "node \<in> v")
    case True
    then show ?thesis by (simp add: dfs_rel_refl)
  next
    case False
    let ?v = "insert node v"
    have "nodes g - ?v \<subset> nodes g - v" using False Suc.prems(1) by blast
    then have "card (nodes g - ?v) < card (nodes g - v)" by (intro psubset_card_mono) auto
    then have c: "card (nodes g - ?v) < n" using Suc.prems(3) by linarith
    obtain v' g' where f: "foldE (\<lambda>next st. goNext False n next
        (fst st, mergeThreadInfo next (thr (snd st) node) (snd st))) (gn_callers (node_of g node)) (?v, g) = Inr (v', g')"
      "inn g node \<subseteq> v'" "dfs_rel T R ?v g v' g'"
      using goNext_loop[OF Suc.IH Suc.prems(1,2) c Suc.prems(4) subset_refl] by blast
    have "T \<subseteq> thr g' node" using f(3) Suc.prems(4) unfolding dfs_rel_def by blast
    then have "dfs_rel T R v g v' g'" using f(2,3) unfolding dfs_rel_def by blast
    moreover have "node \<in> v'" using f(3) by (auto simp: dfs_rel_def)
    ultimately show ?thesis using f(1) False by simp
  qed
qed simp

text \<open>The callers of a function, over any number of calls.\<close>

definition above :: "cgraph \<Rightarrow> func_ptr rel" where
  "above g = {(x, y). x \<in> nodes g \<and> y \<in> inn g x}"

lemma dfs_node_up:
  assumes "h \<in> nodes g" "upward g R"
  shows "\<exists>g'. dfs_node False h g = Inr g' \<and> dfs_rel {} R {} g {} g' \<and> (\<forall>a. (h, a) \<in> (above g)\<^sup>* \<longrightarrow> thr g h \<subseteq> thr g' a)"
proof -
  have "card (nodes g - {}) < Suc (length g)" using card_length[of "map fst g"] by (simp add: nodes_def)
  then obtain v g' where g': "goNext False (Suc (length g)) h ({}, g) = Inr (v, g')" "h \<in> v" "dfs_rel (thr g h) R {} g v g'"
    using goNext_up[OF assms, of "{}" "Suc (length g)" "thr g h"] by blast
  have "a \<in> v" if "(h, a) \<in> (above g)\<^sup>*" for a
    using that
  proof (induction rule: rtrancl_induct)
    case (step y z)
    then show ?case using g'(3) unfolding above_def dfs_rel_def by blast
  qed (rule g'(2))
  then have "\<forall>a. (h, a) \<in> (above g)\<^sup>* \<longrightarrow> thr g h \<subseteq> thr g' a" using g'(3) unfolding dfs_rel_def by blast
  moreover have "dfs_rel {} R {} g {} g'" using g'(3) unfolding dfs_rel_def by blast
  ultimately show ?thesis using g'(1) by (simp add: dfs_node_def del: goNext.simps)
qed

lemma dfs_rel_above: "dfs_rel T R v g v' g' \<Longrightarrow> above g' = above g"
  using dfs_rel_nodes[of T R v g v' g'] by (simp add: above_def dfs_rel_def)

lemma dfs_all_up:
  "set hs \<subseteq> nodes g \<Longrightarrow> upward g R \<Longrightarrow>
   \<exists>g'. foldE (dfs_node False) hs g = Inr g' \<and> dfs_rel {} R {} g {} g' \<and>
     (\<forall>h \<in> set hs. \<forall>a. (h, a) \<in> (above g)\<^sup>* \<longrightarrow> thr g h \<subseteq> thr g' a)"
proof (induction hs arbitrary: g)
  case Nil
  then show ?case by (simp add: dfs_rel_refl)
next
  case (Cons h hs)
  obtain g1 where 1: "dfs_node False h g = Inr g1" "dfs_rel {} R {} g {} g1"
    "\<forall>a. (h, a) \<in> (above g)\<^sup>* \<longrightarrow> thr g h \<subseteq> thr g1 a"
    using dfs_node_up[OF _ Cons.prems(2), of h] Cons.prems(1) by auto
  have n: "nodes g1 = nodes g" by (rule dfs_rel_nodes[OF 1(2)])
  have a: "above g1 = above g" by (rule dfs_rel_above[OF 1(2)])
  obtain g2 where 2: "foldE (dfs_node False) hs g1 = Inr g2" "dfs_rel {} R {} g1 {} g2"
    "\<forall>h \<in> set hs. \<forall>a. (h, a) \<in> (above g)\<^sup>* \<longrightarrow> thr g1 h \<subseteq> thr g2 a"
    using Cons.IH[of g1] Cons.prems(1) n dfs_rel_upward[OF 1(2) Cons.prems(2)] a by auto
  have m: "thr g x \<subseteq> thr g1 x" "thr g1 x \<subseteq> thr g2 x" for x using 1(2) 2(2) by (auto simp: dfs_rel_def)
  have "thr g h' \<subseteq> thr g2 a" if "h' \<in> set (h # hs)" "(h', a) \<in> (above g)\<^sup>*" for h' a
    using that 1(3) 2(3) m by (metis set_ConsD subset_trans)
  then show ?case using 1(1) 2(1) dfs_rel_trans[OF 1(2) 2(2)] by auto
qed

section \<open>Building finds exactly the reachable functions\<close>

text \<open>The direct calls between functions with a body.\<close>

definition call_rel :: "ll_module \<Rightarrow> func_ptr rel" where
  "call_rel M = {(f, g). \<not> is_decl M f \<and> \<not> is_decl M g \<and> (\<exists>i \<in> set (insts_of M f). is_call i \<and> in_callee i = Some g)}"

definition direct_calls :: "ll_module \<Rightarrow> bool" where
  "direct_calls M \<longleftrightarrow> (\<forall>f. \<forall>i \<in> set (insts_of M f). is_call i \<longrightarrow> in_callee i \<noteq> None)"

definition linked_graph :: "cgraph \<Rightarrow> bool" where
  "linked_graph g \<longleftrightarrow> (\<forall>x \<in> nodes g. out g x \<subseteq> nodes g \<and> (\<forall>y. y \<in> inn g x \<longleftrightarrow> y \<in> nodes g \<and> x \<in> out g y))"

text \<open>What a stretch of the construction adds; \<open>E\<close> are the edges added to old nodes, \<open>S\<close> the new nodes allowed.\<close>

definition add_rel :: "ll_module \<Rightarrow> func_ptr set \<Rightarrow> (func_ptr \<Rightarrow> func_ptr set) \<Rightarrow> cgraph \<Rightarrow> cgraph \<Rightarrow> bool" where
  "add_rel M S E g g' \<longleftrightarrow>
     distinct (map fst g') \<and> nodes g \<subseteq> nodes g' \<and> nodes g' \<subseteq> nodes g \<union> S \<and>
     (\<forall>x \<in> nodes g. out g' x = out g x \<union> E x) \<and>
     (\<forall>x \<in> nodes g' - nodes g. out g' x = call_rel M `` {x} \<and> call_rel M `` {x} \<subseteq> nodes g') \<and>
     (linked_graph g \<longrightarrow> linked_graph g') \<and> (\<forall>x. thr g' x = thr g x)"

lemma add_relD:
  assumes "add_rel M S E g g'"
  shows "distinct (map fst g')" "nodes g \<subseteq> nodes g'" "nodes g' \<subseteq> nodes g \<union> S"
    "x \<in> nodes g \<Longrightarrow> out g' x = out g x \<union> E x"
    "x \<in> nodes g' - nodes g \<Longrightarrow> out g' x = call_rel M `` {x}"
    "x \<in> nodes g' - nodes g \<Longrightarrow> call_rel M `` {x} \<subseteq> nodes g'"
    "linked_graph g \<Longrightarrow> linked_graph g'" "thr g' x = thr g x"
  using assms unfolding add_rel_def by blast+

lemma add_rel_trans:
  assumes 1: "add_rel M S E g g1" and 2: "add_rel M S E' g1 g2" and e: "\<forall>x. x \<notin> nodes g \<longrightarrow> E' x = {}"
  shows "add_rel M S (\<lambda>x. E x \<union> E' x) g g2"
  unfolding add_rel_def
proof (intro conjI allI ballI impI)
  show "distinct (map fst g2)" by (rule add_relD(1)[OF 2])
  show "nodes g \<subseteq> nodes g2" by (rule subset_trans[OF add_relD(2)[OF 1] add_relD(2)[OF 2]])
  show "nodes g2 \<subseteq> nodes g \<union> S" using add_relD(3)[OF 1] add_relD(3)[OF 2] by blast
  show "thr g2 x = thr g x" for x by (rule trans[OF add_relD(8)[OF 2] add_relD(8)[OF 1]])
  show "linked_graph g2" if "linked_graph g" by (rule add_relD(7)[OF 2 add_relD(7)[OF 1 that]])
  fix x
  show "out g2 x = out g x \<union> (E x \<union> E' x)" if "x \<in> nodes g"
  proof -
    have "x \<in> nodes g1" using that add_relD(2)[OF 1] by (rule rev_subsetD)
    from add_relD(4)[OF 2 this] add_relD(4)[OF 1 that] show ?thesis by (simp add: Un_assoc)
  qed
  assume x: "x \<in> nodes g2 - nodes g"
  show "out g2 x = call_rel M `` {x}"
  proof (cases "x \<in> nodes g1")
    case True
    then have "out g1 x = call_rel M `` {x}" using add_relD(5)[OF 1] x by blast
    then show ?thesis using add_relD(4)[OF 2 True] e x by simp
  next
    case False
    then show ?thesis using add_relD(5)[OF 2] x by blast
  qed
  show "call_rel M `` {x} \<subseteq> nodes g2"
  proof (cases "x \<in> nodes g1")
    case True
    then have "call_rel M `` {x} \<subseteq> nodes g1" using add_relD(6)[OF 1] x by blast
    then show ?thesis using add_relD(2)[OF 2] by (rule subset_trans)
  next
    case False
    then show ?thesis using add_relD(6)[OF 2] x by blast
  qed
qed

lemma add_rel_refl: "distinct (map fst g) \<Longrightarrow> add_rel M S (\<lambda>_. {}) g g"
  by (simp add: add_rel_def)

lemma add_rel_mono: "add_rel M S E g g' \<Longrightarrow> S \<subseteq> S' \<Longrightarrow> add_rel M S' E g g'"
  unfolding add_rel_def by auto

lemma linked_addCallee:
  assumes "linked_graph g" "p \<in> nodes g" "f \<in> nodes g"
  shows "linked_graph (addCallee p f g)"
proof -
  have "y \<in> inn (addCallee p f g) x \<longleftrightarrow> y \<in> nodes g \<and> x \<in> out (addCallee p f g) y" if "x \<in> nodes g" for x y
    using assms(1) that assms(2) unfolding addCallee_views(4)[OF assms(2)] addCallee_views(5)[OF assms(3)] linked_graph_def
    by (cases "x = f"; cases "y = p") auto
  moreover have "out (addCallee p f g) x \<subseteq> nodes g" if "x \<in> nodes g" for x
    using assms(1,3) that unfolding addCallee_views(4)[OF assms(2)] linked_graph_def by simp
  ultimately show ?thesis unfolding linked_graph_def addCallee_views(2) by blast
qed

lemma add_rel_addCallee:
  assumes "distinct (map fst g)" "p \<in> nodes g" "f \<in> nodes g"
  shows "add_rel M S (\<lambda>x. if x = p then {f} else {}) g (addCallee p f g)"
  using assms linked_addCallee[OF _ assms(2,3)]
  unfolding add_rel_def addCallee_views(1-3) addCallee_views(4)[OF assms(2)] by simp

definition targets :: "ll_module \<Rightarrow> func_ptr option set \<Rightarrow> func_ptr set" where
  "targets M cs = {c. Some c \<in> cs \<and> \<not> is_decl M c}"

abbreviation bodies :: "ll_module \<Rightarrow> func_ptr set" where
  "bodies M \<equiv> {f. \<not> is_decl M f}"

lemma bodies_subset: "bodies M \<subseteq> fst ` set M"
  by (auto simp: is_decl_def split: option.splits dest!: map_of_SomeD) (metis fst_conv image_eqI)

lemma finite_bodies [simp]: "finite (bodies M)"
  by (rule finite_subset[OF bodies_subset]) simp

lemma targets_callees:
  assumes "\<not> is_decl M f" "\<forall>xs. set (order xs) = set xs"
  shows "targets M (set (getCallees M order f)) = call_rel M `` {f}"
  using assms by (force simp: targets_def getCallees_def call_rel_def image_iff)

lemma card_rest_mono: "nodes g \<subseteq> nodes g' \<Longrightarrow> card (bodies M - nodes g) < n \<Longrightarrow> card (bodies M - nodes g') < n"
  by (rule le_less_trans[OF card_mono]) auto

lemma addFunc_loop:
  assumes IH: "\<And>f g. \<not> is_decl M f \<Longrightarrow> p \<in> nodes g \<Longrightarrow> distinct (map fst g) \<Longrightarrow> card (bodies M - nodes g) < n \<Longrightarrow>
      \<exists>g'. addFunc M order n (Some f) (Some p) g = Inr g' \<and> f \<in> nodes g' \<and>
        add_rel M ((call_rel M)\<^sup>* `` {f}) (\<lambda>x. if x = p then {f} else {}) g g'"
    and "p \<in> nodes g" "distinct (map fst g)" "card (bodies M - nodes g) < n" "None \<notin> set cs"
    and "(call_rel M)\<^sup>* `` targets M (set cs) \<subseteq> S"
  shows "\<exists>g'. foldE (\<lambda>f0. addFunc M order n f0 (Some p)) cs g = Inr g' \<and> targets M (set cs) \<subseteq> nodes g' \<and>
    add_rel M S (\<lambda>x. if x = p then targets M (set cs) else {}) g g'"
  using assms(2-)
proof (induction cs arbitrary: g)
  case Nil
  have "(\<lambda>x. if x = p then targets M (set []) else {}) = (\<lambda>_. {})" by (rule ext) (simp add: targets_def)
  then show ?case using Nil.prems(2) by (simp add: targets_def add_rel_refl)
next
  case (Cons c cs)
  obtain f where c: "c = Some f" using Cons.prems(4) by (cases c) auto
  have sub: "targets M (set cs) \<subseteq> targets M (set (c # cs))" by (auto simp: targets_def)
  have S: "(call_rel M)\<^sup>* `` targets M (set cs) \<subseteq> S" using Cons.prems(5) sub by blast
  have n: "None \<notin> set cs" using Cons.prems(4) by simp
  show ?case
  proof (cases "is_decl M f")
    case True
    obtain m where m: "n = Suc m" using Cons.prems(3) by (cases n) auto
    have t: "targets M (set (c # cs)) = targets M (set cs)" using True by (auto simp: targets_def c)
    have "foldE (\<lambda>f0. addFunc M order n f0 (Some p)) (c # cs) g = foldE (\<lambda>f0. addFunc M order n f0 (Some p)) cs g"
      using True by (simp add: c m)
    then show ?thesis using Cons.IH[OF Cons.prems(1-3) n S] unfolding t by simp
  next
    case False
    have t: "targets M (set (c # cs)) = insert f (targets M (set cs))" using False by (auto simp: targets_def c)
    have Sf: "(call_rel M)\<^sup>* `` {f} \<subseteq> S" using Cons.prems(5) unfolding t by blast
    obtain g1 where 1: "addFunc M order n (Some f) (Some p) g = Inr g1" "f \<in> nodes g1"
      "add_rel M ((call_rel M)\<^sup>* `` {f}) (\<lambda>x. if x = p then {f} else {}) g g1"
      using IH[OF False Cons.prems(1-3)] by blast
    note sub1 = add_relD(2)[OF 1(3)]
    obtain g2 where 2: "foldE (\<lambda>f0. addFunc M order n f0 (Some p)) cs g1 = Inr g2" "targets M (set cs) \<subseteq> nodes g2"
      "add_rel M S (\<lambda>x. if x = p then targets M (set cs) else {}) g1 g2"
      using Cons.IH[OF rev_subsetD[OF Cons.prems(1) sub1] add_relD(1)[OF 1(3)] card_rest_mono[OF sub1 Cons.prems(3)] n S] by blast
    have "add_rel M S (\<lambda>x. (if x = p then {f} else {}) \<union> (if x = p then targets M (set cs) else {})) g g2"
      by (rule add_rel_trans[OF add_rel_mono[OF 1(3) Sf] 2(3)]) (use Cons.prems(1) in auto)
    moreover have "(\<lambda>x. (if x = p then {f} else {}) \<union> (if x = p then targets M (set cs) else {})) =
        (\<lambda>x. if x = p then targets M (set (c # cs)) else {})" unfolding t by (rule ext) simp
    moreover have "f \<in> nodes g2" using 1(2) add_relD(2)[OF 2(3)] by (rule rev_subsetD)
    moreover have "foldE (\<lambda>f0. addFunc M order n f0 (Some p)) (c # cs) g = Inr g2" using 1(1) 2(1) by (simp add: c)
    ultimately show ?thesis using 2(2) unfolding t by (intro exI[of _ g2]) simp
  qed
qed

lemma add_rel_new:
  assumes "f \<notin> nodes g" "distinct (map fst g)" "\<not> is_decl M f" "f \<in> S"
    and r: "add_rel M S (\<lambda>x. if x = f then call_rel M `` {f} else {}) (g @ [(f, new_node)]) g'"
    and c: "call_rel M `` {f} \<subseteq> nodes g'"
  shows "add_rel M S (\<lambda>_. {}) g g'"
proof -
  let ?g = "g @ [(f, new_node)]"
  have nodes: "nodes ?g = insert f (nodes g)" by simp
  have node: "node_of ?g x = node_of g x" for x by (rule node_of_snoc[OF assms(1)])
  have "linked_graph ?g" if l: "linked_graph g"
  proof -
    have "f \<notin> out g y" for y
      using l assms(1) node_of_new[of y g] by (cases "y \<in> nodes g") (auto simp: linked_graph_def new_node_def)
    then show ?thesis using l node_of_new[OF assms(1)]
      unfolding linked_graph_def nodes node by (auto simp: new_node_def)
  qed
  moreover have "out g' f = call_rel M `` {f}"
    using add_relD(4)[OF r, of f] unfolding node node_of_new[OF assms(1)] by (simp add: new_node_def)
  moreover have "out g' x = out g x" if "x \<in> nodes g" for x
    using add_relD(4)[OF r, of x] that assms(1) by (auto simp: node)
  moreover have "out g' x = call_rel M `` {x} \<and> call_rel M `` {x} \<subseteq> nodes g'" if "x \<in> nodes g' - nodes g" "x \<noteq> f" for x
    using add_relD(5,6)[OF r, of x] that by simp
  ultimately have "\<forall>x \<in> nodes g' - nodes g. out g' x = call_rel M `` {x} \<and> call_rel M `` {x} \<subseteq> nodes g'"
    "\<forall>x \<in> nodes g. out g' x = out g x \<union> {}" "linked_graph g \<longrightarrow> linked_graph g'"
    using c add_relD(7)[OF r] by blast+
  moreover have "nodes g \<subseteq> nodes g'" "nodes g' \<subseteq> nodes g \<union> S"
    using add_relD(2,3)[OF r] assms(4) unfolding nodes by auto
  moreover have "\<forall>x. thr g' x = thr g x" using add_relD(8)[OF r] unfolding node by blast
  ultimately show ?thesis using add_relD(1)[OF r] unfolding add_rel_def by blast
qed

lemma addFunc_body:
  assumes loop: "\<And>p g cs S. p \<in> nodes g \<Longrightarrow> distinct (map fst g) \<Longrightarrow> card (bodies M - nodes g) < n \<Longrightarrow> None \<notin> set cs \<Longrightarrow>
      (call_rel M)\<^sup>* `` targets M (set cs) \<subseteq> S \<Longrightarrow>
      \<exists>g'. foldE (\<lambda>f0. addFunc M order n f0 (Some p)) cs g = Inr g' \<and> targets M (set cs) \<subseteq> nodes g' \<and>
        add_rel M S (\<lambda>x. if x = p then targets M (set cs) else {}) g g'"
    and ord: "\<forall>xs. set (order xs) = set xs" and dir: "direct_calls M"
    and f: "\<not> is_decl M f" and g: "distinct (map fst g)" and card: "card (bodies M - nodes g) < Suc n"
  shows "\<exists>g'. (if map_of g f = None
      then foldE (\<lambda>f0. addFunc M order n f0 (Some f)) (getCallees M order f) (g @ [(f, new_node)]) else Inr g) = Inr g' \<and>
    f \<in> nodes g' \<and> add_rel M ((call_rel M)\<^sup>* `` {f}) (\<lambda>_. {}) g g'"
proof (cases "f \<in> nodes g")
  case True
  then have "map_of g f \<noteq> None" by (simp add: map_of_None_nodes)
  then show ?thesis using True g by (auto simp: add_rel_refl)
next
  case False
  let ?g = "g @ [(f, new_node)]" and ?S = "(call_rel M)\<^sup>* `` {f}"
  have t: "targets M (set (getCallees M order f)) = call_rel M `` {f}" by (rule targets_callees[OF f ord])
  have "bodies M - nodes ?g \<subset> bodies M - nodes g" using f False by auto
  then have "card (bodies M - nodes ?g) < card (bodies M - nodes g)" by (intro psubset_card_mono) auto
  then have c: "card (bodies M - nodes ?g) < n" using card by linarith
  have "None \<notin> set (getCallees M order f)" using dir ord unfolding getCallees_def direct_calls_def by fastforce
  moreover have "(call_rel M)\<^sup>* `` targets M (set (getCallees M order f)) \<subseteq> ?S"
    unfolding t by (auto intro: converse_rtrancl_into_rtrancl)
  ultimately obtain g' where g': "foldE (\<lambda>f0. addFunc M order n f0 (Some f)) (getCallees M order f) ?g = Inr g'"
    "call_rel M `` {f} \<subseteq> nodes g'" "add_rel M ?S (\<lambda>x. if x = f then call_rel M `` {f} else {}) ?g g'"
    using loop[of f ?g "getCallees M order f" ?S] g False c unfolding t by (auto simp: nodes_def)
  have "add_rel M ?S (\<lambda>_. {}) g g'" by (rule add_rel_new[OF False g f _ g'(3,2)]) simp
  moreover have "f \<in> nodes g'" using add_relD(2)[OF g'(3)] by auto
  moreover have "map_of g f = None" using False by (simp add: map_of_None_nodes)
  ultimately show ?thesis using g'(1) by simp
qed

lemma addFunc_child:
  assumes "\<forall>xs. set (order xs) = set xs" "direct_calls M"
  shows "\<not> is_decl M f \<Longrightarrow> p \<in> nodes g \<Longrightarrow> distinct (map fst g) \<Longrightarrow> card (bodies M - nodes g) < n \<Longrightarrow>
    \<exists>g'. addFunc M order n (Some f) (Some p) g = Inr g' \<and> f \<in> nodes g' \<and>
      add_rel M ((call_rel M)\<^sup>* `` {f}) (\<lambda>x. if x = p then {f} else {}) g g'"
proof (induction n arbitrary: f p g)
  case (Suc n)
  obtain g1 where 1: "(if map_of g f = None
      then foldE (\<lambda>f0. addFunc M order n f0 (Some f)) (getCallees M order f) (g @ [(f, new_node)]) else Inr g) = Inr g1"
    "f \<in> nodes g1" "add_rel M ((call_rel M)\<^sup>* `` {f}) (\<lambda>_. {}) g g1"
    using addFunc_body[OF addFunc_loop[OF Suc.IH] assms Suc.prems(1,3,4)] by blast
  have p: "p \<in> nodes g1" using Suc.prems(2) add_relD(2)[OF 1(3)] by (rule rev_subsetD)
  have "add_rel M ((call_rel M)\<^sup>* `` {f}) (\<lambda>x. {} \<union> (if x = p then {f} else {})) g (addCallee p f g1)"
    by (rule add_rel_trans[OF 1(3) add_rel_addCallee[OF add_relD(1)[OF 1(3)] p 1(2)]]) (use Suc.prems(2) in auto)
  then show ?case using 1(1,2) Suc.prems(1) by (simp add: addCallee_views(2) del: foldE.simps)
qed simp

definition built :: "ll_module \<Rightarrow> func_ptr set \<Rightarrow> cgraph \<Rightarrow> bool" where
  "built M starts g \<longleftrightarrow>
     distinct (map fst g) \<and> nodes g = (call_rel M)\<^sup>* `` (starts \<inter> bodies M) \<and>
     (\<forall>x \<in> nodes g. out g x = call_rel M `` {x}) \<and> linked_graph g \<and> (\<forall>x. thr g x = {})"

lemma addStartFunc_ok:
  assumes "\<forall>xs. set (order xs) = set xs" "direct_calls M" "distinct (map fst (cg_graph cg))"
  shows "\<exists>g'. addStartFunc M order f cg = Inr (cg\<lparr>cg_graph := g'\<rparr>) \<and> (\<not> is_decl M f \<longrightarrow> f \<in> nodes g') \<and>
    add_rel M ((call_rel M)\<^sup>* `` ({f} \<inter> bodies M)) (\<lambda>_. {}) (cg_graph cg) g'"
proof (cases "is_decl M f")
  case True
  then show ?thesis using assms(3) by (auto simp: addStartFunc_def add_rel_refl intro!: exI[of _ "cg_graph cg"])
next
  case False
  have "card (bodies M - nodes (cg_graph cg)) \<le> card (fst ` set M)"
    using bodies_subset[of M] by (intro card_mono) auto
  also have "\<dots> \<le> length M" using card_length[of "map fst M"] by simp
  finally have "card (bodies M - nodes (cg_graph cg)) < Suc (length M)" by simp
  then obtain g1 where "(if map_of (cg_graph cg) f = None
      then foldE (\<lambda>f0. addFunc M order (length M) f0 (Some f)) (getCallees M order f) (cg_graph cg @ [(f, new_node)])
      else Inr (cg_graph cg)) = Inr g1"
    "f \<in> nodes g1" "add_rel M ((call_rel M)\<^sup>* `` {f}) (\<lambda>_. {}) (cg_graph cg) g1"
    using addFunc_body[OF addFunc_loop[OF addFunc_child[OF assms(1,2)]] assms(1,2) False assms(3)] by blast
  then show ?thesis using False by (auto simp: addStartFunc_def intro!: exI[of _ g1])
qed

lemma addStartFuncs_ok:
  assumes "\<forall>xs. set (order xs) = set xs" "direct_calls M"
  shows "distinct (map fst (cg_graph cg)) \<Longrightarrow>
    \<exists>g'. foldE (addStartFunc M order) starts cg = Inr (cg\<lparr>cg_graph := g'\<rparr>) \<and> set starts \<inter> bodies M \<subseteq> nodes g' \<and>
      add_rel M ((call_rel M)\<^sup>* `` (set starts \<inter> bodies M)) (\<lambda>_. {}) (cg_graph cg) g'"
proof (induction starts arbitrary: cg)
  case Nil
  then show ?case by (auto simp: add_rel_refl intro!: exI[of _ "cg_graph cg"])
next
  case (Cons f fs)
  let ?S = "(call_rel M)\<^sup>* `` (set (f # fs) \<inter> bodies M)"
  obtain g1 where 1: "addStartFunc M order f cg = Inr (cg\<lparr>cg_graph := g1\<rparr>)" "\<not> is_decl M f \<longrightarrow> f \<in> nodes g1"
    "add_rel M ((call_rel M)\<^sup>* `` ({f} \<inter> bodies M)) (\<lambda>_. {}) (cg_graph cg) g1"
    using addStartFunc_ok[OF assms Cons.prems] by blast
  obtain g2 where 2: "foldE (addStartFunc M order) fs (cg\<lparr>cg_graph := g1\<rparr>) = Inr (cg\<lparr>cg_graph := g2\<rparr>)"
    "set fs \<inter> bodies M \<subseteq> nodes g2" "add_rel M ((call_rel M)\<^sup>* `` (set fs \<inter> bodies M)) (\<lambda>_. {}) g1 g2"
    using Cons.IH[of "cg\<lparr>cg_graph := g1\<rparr>"] add_relD(1)[OF 1(3)] by auto
  have "add_rel M ?S (\<lambda>x. {} \<union> {}) (cg_graph cg) g2"
    by (rule add_rel_trans[OF add_rel_mono[OF 1(3)] add_rel_mono[OF 2(3)]]) auto
  moreover have "set (f # fs) \<inter> bodies M \<subseteq> nodes g2" using 1(2) 2(2) add_relD(2)[OF 2(3)] by auto
  ultimately show ?case using 1(1) 2(1) by auto
qed

lemma graph_built:
  assumes "\<forall>xs. set (order xs) = set xs" "direct_calls M"
  shows "\<exists>g. foldE (addStartFunc M order) starts cg_init = Inr (cg_init\<lparr>cg_graph := g\<rparr>) \<and> built M (set starts) g"
proof -
  obtain g where g: "foldE (addStartFunc M order) starts cg_init = Inr (cg_init\<lparr>cg_graph := g\<rparr>)"
    "set starts \<inter> bodies M \<subseteq> nodes g" "add_rel M ((call_rel M)\<^sup>* `` (set starts \<inter> bodies M)) (\<lambda>_. {}) [] g"
    using addStartFuncs_ok[OF assms, of cg_init starts] by (auto simp: cg_init_def)
  have o: "out g x = call_rel M `` {x}" "call_rel M `` {x} \<subseteq> nodes g" if "x \<in> nodes g" for x
    using add_relD(5,6)[OF g(3), of x] that by simp_all
  have "y \<in> nodes g" if "(s, y) \<in> (call_rel M)\<^sup>*" "s \<in> nodes g" for s y
    using that o(2) by (induction rule: rtrancl_induct) auto
  then have "nodes g = (call_rel M)\<^sup>* `` (set starts \<inter> bodies M)" using g(2) add_relD(3)[OF g(3)] by auto
  moreover have "linked_graph g" using add_relD(7)[OF g(3)] by (simp add: linked_graph_def)
  moreover have "\<forall>x. thr g x = {}" using add_relD(8)[OF g(3)] node_of_new[of _ "[]"] by (simp add: new_node_def)
  ultimately show ?thesis using g(1) o(1) add_relD(1)[OF g(3)] unfolding built_def by blast
qed

section \<open>The thread sets\<close>

abbreviation hint_all :: "(func_ptr \<times> size_t set) list \<Rightarrow> call_graph \<Rightarrow> call_graph" where
  "hint_all \<equiv> fold (\<lambda>h. hintFuncThreads (fst h) (snd h))"

lemma hint_all_views:
  "map fst (cg_graph (hint_all hs cg)) = map fst (cg_graph cg) \<and>
   gn_callers (node_of (cg_graph (hint_all hs cg)) x) = gn_callers (node_of (cg_graph cg) x) \<and>
   gn_callees (node_of (cg_graph (hint_all hs cg)) x) = gn_callees (node_of (cg_graph cg) x) \<and>
   set (cg_hinted (hint_all hs cg)) = set (cg_hinted cg) \<union> (fst ` set hs \<inter> nodes (cg_graph cg)) \<and>
   (x \<in> nodes (cg_graph cg) \<longrightarrow>
      thr (cg_graph (hint_all hs cg)) x = thr (cg_graph cg) x \<union> \<Union> (snd ` {h \<in> set hs. fst h = x}))"
proof (induction hs arbitrary: cg)
  case (Cons h hs)
  let ?cg = "hintFuncThreads (fst h) (snd h) cg"
  have n: "nodes (cg_graph ?cg) = nodes (cg_graph cg)" by (simp add: hintFuncThreads_def)
  have v: "map fst (cg_graph ?cg) = map fst (cg_graph cg)"
    "gn_callers (node_of (cg_graph ?cg) x) = gn_callers (node_of (cg_graph cg) x)"
    "gn_callees (node_of (cg_graph ?cg) x) = gn_callees (node_of (cg_graph cg) x)"
    "set (cg_hinted ?cg) = set (cg_hinted cg) \<union> ({fst h} \<inter> nodes (cg_graph cg))"
    "x \<in> nodes (cg_graph cg) \<Longrightarrow> thr (cg_graph ?cg) x = thr (cg_graph cg) x \<union> (if x = fst h then snd h else {})"
    using map_of_None_nodes[of "cg_graph cg" "fst h"] by (auto simp: hintFuncThreads_def)
  have "\<Union> (snd ` {h' \<in> set (h # hs). fst h' = x}) = (if x = fst h then snd h else {}) \<union> \<Union> (snd ` {h' \<in> set hs. fst h' = x})"
    by auto
  then show ?case using Cons.IH[of ?cg] v unfolding n by auto
next
  case Nil
  show ?case by simp
qed

lemmas hint_all_map = hint_all_views[THEN conjunct1]
lemmas hint_all_callers = hint_all_views[THEN conjunct2, THEN conjunct1]
lemmas hint_all_hinted = hint_all_views[THEN conjunct2, THEN conjunct2, THEN conjunct2, THEN conjunct1]
lemmas hint_all_threads = hint_all_views[THEN conjunct2, THEN conjunct2, THEN conjunct2, THEN conjunct2, THEN mp]

definition below_threads :: "ll_module \<Rightarrow> (func_ptr \<times> size_t set) list \<Rightarrow> func_ptr \<Rightarrow> size_t set" where
  "below_threads M hints f = \<Union> (snd ` {h \<in> set hints. (f, fst h) \<in> (call_rel M)\<^sup>*})"

lemma map_of_filter_snd:
  "distinct (map fst g) \<Longrightarrow> map_of (filter (\<lambda>p. P (snd p)) g) x =
     (case map_of g x of None \<Rightarrow> None | Some n \<Rightarrow> if P n then Some n else None)"
proof (induction g)
  case (Cons p g)
  then show ?case using map_of_eq_None_iff[of g "fst p"] by (cases p) (auto split: option.splits)
qed simp

lemma getFuncThreads_clean:
  assumes "distinct (map fst g)" "x \<in> nodes g"
  shows "getFuncThreads (cg\<lparr>cg_graph := map (\<lambda>p. (fst p, cleanup d (snd p))) (filter (\<lambda>p. gn_threads (snd p) \<noteq> {}) g)\<rparr>) x =
    (if thr g x = {} then {0} else thr g x)"
proof -
  obtain n where n: "map_of g x = Some n" using assms(2) map_of_None_nodes[of g x] by auto
  have "map_of (map (\<lambda>p. (fst p, cleanup d (snd p))) (filter (\<lambda>p. gn_threads (snd p) \<noteq> {}) g)) x =
      map_option (cleanup d) (map_of (filter (\<lambda>p. gn_threads (snd p) \<noteq> {}) g) x)"
    using map_of_map_inj[of "\<lambda>x. x" "cleanup d" "filter (\<lambda>p. gn_threads (snd p) \<noteq> {}) g" x] by simp
  then show ?thesis
    using map_of_filter_snd[OF assms(1), of "\<lambda>n. gn_threads n \<noteq> {}" x] n
    by (simp add: getFuncThreads_def node_of_def cleanup_def)
qed

text \<open>The searches alone: \<open>g0\<close> is the built graph, \<open>g\<close> the graph with the hints.\<close>

lemma dfs_threads_exact:
  assumes b: "built M starts g0" and vm: "map fst g = map fst g0"
    and vn: "\<And>x. gn_callers (node_of g x) = gn_callers (node_of g0 x)"
    and thr: "\<And>x. x \<in> nodes g0 \<Longrightarrow> thr g x = \<Union> (snd ` {h \<in> set hints. fst h = x})"
    and vh: "set hs = fst ` set hints \<inter> nodes g0"
  shows "\<exists>g'. foldE (dfs_node False) hs g = Inr g' \<and> map fst g' = map fst g0 \<and>
    (\<forall>x \<in> nodes g0. thr g' x = below_threads M hints x)"
proof -
  let ?R = "below_threads M hints"
  have ng: "nodes g = nodes g0" by (rule nodes_cong[OF vm])
  have inn: "y \<in> inn g x \<longleftrightarrow> y \<in> nodes g0 \<and> (y, x) \<in> call_rel M" if "x \<in> nodes g0" for x y
    using b that unfolding vn built_def linked_graph_def by auto
  have "?R x \<subseteq> ?R y" if "(y, x) \<in> call_rel M" for x y
    using converse_rtrancl_into_rtrancl[OF that] by (auto simp: below_threads_def)
  then have "upward g ?R" unfolding upward_def ng using inn by blast
  moreover have "set hs \<subseteq> nodes g" unfolding ng vh by blast
  ultimately obtain g' where g': "foldE (dfs_node False) hs g = Inr g'" "dfs_rel {} ?R {} g {} g'"
    "\<forall>h \<in> set hs. \<forall>a. (h, a) \<in> (above g)\<^sup>* \<longrightarrow> thr g h \<subseteq> thr g' a"
    using dfs_all_up[of hs g ?R] by blast
  have step: "z \<in> nodes g0 \<and> (z, y) \<in> above g" if "(y, z) \<in> call_rel M" "y \<in> nodes g0" for y z
  proof -
    have "z \<in> nodes g0" using b that rtrancl_into_rtrancl[OF _ that(1)] unfolding built_def by blast
    then show ?thesis using inn that unfolding above_def ng by blast
  qed
  have closed: "y \<in> nodes g0 \<and> (y, x) \<in> (above g)\<^sup>*" if "(x, y) \<in> (call_rel M)\<^sup>*" "x \<in> nodes g0" for x y
    using that
  proof (induction rule: rtrancl_induct)
    case (step y z)
    then have "z \<in> nodes g0 \<and> (z, y) \<in> above g" using \<open>\<And>z y. (y, z) \<in> call_rel M \<Longrightarrow> y \<in> nodes g0 \<Longrightarrow> z \<in> nodes g0 \<and> (z, y) \<in> above g\<close> by blast
    then show ?case using step.IH step.prems by (blast intro: converse_rtrancl_into_rtrancl)
  qed blast
  have "\<forall>x \<in> nodes g. thr g x \<subseteq> ?R x" unfolding ng by (auto simp: thr below_threads_def)
  then have up: "\<forall>x \<in> nodes g0. thr g' x \<subseteq> ?R x" using dfs_relD(8)[OF g'(2)] unfolding ng by blast
  have "snd h \<subseteq> thr g' x" if "h \<in> set hints" "(x, fst h) \<in> (call_rel M)\<^sup>*" "x \<in> nodes g0" for h x
  proof -
    have c: "fst h \<in> nodes g0" "(fst h, x) \<in> (above g)\<^sup>*" using closed[OF that(2,3)] by blast+
    then have "thr g (fst h) \<subseteq> thr g' x" using g'(3) that(1) unfolding vh by blast
    moreover have "snd h \<subseteq> thr g (fst h)" using that(1) unfolding thr[OF c(1)] by blast
    ultimately show ?thesis by blast
  qed
  then have "\<forall>x \<in> nodes g0. ?R x \<subseteq> thr g' x" unfolding below_threads_def by blast
  then show ?thesis using up g'(1) dfs_relD(1)[OF g'(2)] vm by auto
qed

lemma propagate_exact:
  assumes b: "built M starts (cg_graph cg)" and h: "cg_hinted cg = []"
  shows "\<exists>cg'. propagateFuncThreads (hint_all hints cg) = Inr cg' \<and>
    (\<forall>f \<in> nodes (cg_graph cg). getFuncThreads cg' f =
       (if below_threads M hints f = {} then {0} else below_threads M hints f)) \<and>
    getFunctions cg' = {f \<in> nodes (cg_graph cg). below_threads M hints f \<noteq> {}}"
proof -
  define c where "c = hint_all hints cg"
  define g0 where "g0 = cg_graph cg"
  have "thr (cg_graph c) x = \<Union> (snd ` {h \<in> set hints. fst h = x})" if "x \<in> nodes g0" for x
    using hint_all_threads[of x cg hints] that b unfolding c_def g0_def built_def by simp
  moreover have "set (cg_hinted c) = fst ` set hints \<inter> nodes g0"
    using hint_all_hinted[of hints cg] h unfolding c_def g0_def by simp
  moreover have "map fst (cg_graph c) = map fst g0" unfolding c_def g0_def by (rule hint_all_map)
  moreover have "gn_callers (node_of (cg_graph c) x) = gn_callers (node_of g0 x)" for x
    unfolding c_def g0_def by (rule hint_all_callers)
  moreover have "built M starts g0" unfolding g0_def by (rule b)
  ultimately obtain g where g: "foldE (dfs_node False) (cg_hinted c) (cg_graph c) = Inr g" "map fst g = map fst g0"
    "\<forall>x \<in> nodes g0. thr g x = below_threads M hints x"
    using dfs_threads_exact[of M starts g0 "cg_graph c" hints "cg_hinted c"] by blast
  have n: "nodes g = nodes g0" by (rule nodes_cong[OF g(2)])
  have d: "distinct (map fst g)" using b unfolding g(2) g0_def built_def by blast
  define cl where "cl = fst ` set (filter (\<lambda>p. gn_threads (snd p) = {}) g)"
  define cg' where "cg' = c\<lparr>cg_graph := map (\<lambda>p. (fst p, cleanup cl (snd p))) (filter (\<lambda>p. gn_threads (snd p) \<noteq> {}) g)\<rparr>"
  have "propagateFuncThreads c = Inr cg'" unfolding propagateFuncThreads_def g(1) cg'_def cl_def by (simp add: Let_def)
  moreover have "\<forall>f \<in> nodes g0. getFuncThreads cg' f =
      (if below_threads M hints f = {} then {0} else below_threads M hints f)"
    using getFuncThreads_clean[OF d, where cg = c and d = cl] g(3) n unfolding cg'_def by simp
  moreover have "getFunctions cg' = {f \<in> nodes g. thr g f \<noteq> {}}"
  proof -
    have "thr g (fst p) = gn_threads (snd p)" if "p \<in> set g" for p
    proof -
      have "map_of g (fst p) = Some (snd p)" using that d by (intro map_of_is_SomeI) simp_all
      then show ?thesis by (simp add: node_of_def)
    qed
    then show ?thesis by (force simp: getFunctions_def nodes_def cg'_def)
  qed
  ultimately show ?thesis using n g(3) unfolding c_def g0_def by auto
qed

text \<open>
  \<^bold>\<open>C10.\<close> The call graph gives every function exactly its threads. In a module without calls through
  pointers, after adding the thread start functions, the hints of the profile and the propagation,
  the functions to clone are those reachable from a start that reach a hinted function, and the
  threads of a reachable function are the threads of all hints in the functions it can reach, or
  thread 0 when there is none. The recursions never exceed their depth bound.
\<close>

theorem call_graph_threads_exact:
  assumes "\<forall>xs. set (order xs) = set xs" "direct_calls M"
  shows "\<exists>cg cg'. foldE (addStartFunc M order) starts cg_init = Inr cg \<and>
    propagateFuncThreads (fold (\<lambda>h. hintFuncThreads (fst h) (snd h)) hints cg) = Inr cg' \<and>
    (\<forall>f \<in> (call_rel M)\<^sup>* `` (set starts \<inter> {s. \<not> is_decl M s}).
       getFuncThreads cg' f = (if below_threads M hints f = {} then {0} else below_threads M hints f)) \<and>
    getFunctions cg' =
      {f \<in> (call_rel M)\<^sup>* `` (set starts \<inter> {s. \<not> is_decl M s}). below_threads M hints f \<noteq> {}}"
proof -
  obtain g where g: "foldE (addStartFunc M order) starts cg_init = Inr (cg_init\<lparr>cg_graph := g\<rparr>)" "built M (set starts) g"
    using graph_built[OF assms] by blast
  have n: "nodes g = (call_rel M)\<^sup>* `` (set starts \<inter> {s. \<not> is_decl M s})" using g(2) by (simp add: built_def)
  show ?thesis
    using propagate_exact[of M "set starts" "cg_init\<lparr>cg_graph := g\<rparr>" hints] g n by (auto simp: cg_init_def)
qed

definition call_to :: "inst_ptr \<Rightarrow> func_ptr \<Rightarrow> inst" where
  "call_to i f = \<lparr>in_ptr = i, in_op = OpCall, in_callee = Some f, in_args = [], in_bits = 0\<rparr>"

text \<open>A start function 1 that calls 2 and 4; 2 and 3 call each other; 4 is a declaration.\<close>

definition sample_module :: ll_module where
  "sample_module =
     [(1, \<lparr>fn_name = ''worker'', fn_decl = False, fn_blocks = [[call_to 10 2, call_to 11 4]]\<rparr>),
      (2, \<lparr>fn_name = ''left'', fn_decl = False, fn_blocks = [[call_to 12 3]]\<rparr>),
      (3, \<lparr>fn_name = ''right'', fn_decl = False, fn_blocks = [[call_to 13 2]]\<rparr>),
      (4, \<lparr>fn_name = ''puts'', fn_decl = True, fn_blocks = []\<rparr>)]"

theorem call_graph_threads_exact_witness:
  "\<exists>cg cg'. foldE (addStartFunc sample_module rev) [1] cg_init = Inr cg \<and>
    propagateFuncThreads (fold (\<lambda>h. hintFuncThreads (fst h) (snd h)) [(3, {0, 5})] cg) = Inr cg' \<and>
    getFuncThreads cg' 1 = {0, 5}"
proof -
  have dir: "direct_calls sample_module"
    by (auto simp: direct_calls_def insts_of_def sample_module_def fn_insts_def call_to_def split: option.splits if_splits)
  have bodies: "\<not> is_decl sample_module 1" "\<not> is_decl sample_module 2" "\<not> is_decl sample_module 3" by code_simp+
  have "\<exists>i \<in> set (insts_of sample_module 1). is_call i \<and> in_callee i = Some 2"
    "\<exists>i \<in> set (insts_of sample_module 2). is_call i \<and> in_callee i = Some 3" by code_simp+
  then have "(1, 2) \<in> call_rel sample_module" "(2, 3) \<in> call_rel sample_module"
    using bodies unfolding call_rel_def by blast+
  then have "(1, 3) \<in> (call_rel sample_module)\<^sup>*" by (meson converse_rtrancl_into_rtrancl rtrancl.rtrancl_refl)
  then have b: "below_threads sample_module [(3, {0, 5})] 1 = {0, 5}" by (auto simp: below_threads_def)
  have "1 \<in> (call_rel sample_module)\<^sup>* `` (set [1] \<inter> {s. \<not> is_decl sample_module s})" using bodies by auto
  then show ?thesis
    using call_graph_threads_exact[of rev sample_module "[1]" "[(3, {0, 5})]"] dir b by fastforce
qed

end
