(* ===== verification/RP_Redirect.thy ===== *)
theory RP_Redirect
  imports RP_CallGraph
begin

text \<open>
  The redirecting pass: \<^verbatim>\<open>RedirectPtr/RedirectPtr.cpp\<close>, \<^verbatim>\<open>GroupFuncLoop.h\<close> and \<^verbatim>\<open>UnrollLoopPass.h\<close>. It
  clones the functions below the thread start functions once per thread, sends the calls inside a
  clone to the clones of the same thread, and rewrites every profiled instruction. Cloning a
  function, the loop structure and the unrolling of a loop are parameters.
\<close>

section \<open>Rewriting one instruction\<close>

type_synonym loop_id = nat

definition pointer_index :: "opcode \<Rightarrow> (nat \<times> bool) option" where
  "pointer_index op =
     (if op = OpLoad then Some (0, False)
      else if op = OpStore then Some (1, True)
      else if op = OpAtomicRMW then Some (0, True)
      else if op = OpAtomicCmpXchg then Some (0, True)
      else None)"

definition getPointerOperandIndex :: "inst \<Rightarrow> (nat \<times> bool) result" where
  "getPointerOperandIndex i =
     (case pointer_index (in_op i) of None \<Rightarrow> Inl (AssertFail ''false'') | Some r \<Rightarrow> Inr r)"

text \<open>Operands out of range are undefined.\<close>

definition arg_at :: "inst \<Rightarrow> nat \<Rightarrow> val result" where
  "arg_at i k = (if k < length (in_args i) then Inr (in_args i ! k) else Inl (Undefined ''operand index''))"

definition set_arg :: "nat \<Rightarrow> val \<Rightarrow> inst \<Rightarrow> inst result" where
  "set_arg k v i = (if k < length (in_args i) then Inr (i\<lparr>in_args := (in_args i)[k := v]\<rparr>)
                    else Inl (Undefined ''operand index''))"

definition mk_inst :: "inst_ptr \<Rightarrow> opcode \<Rightarrow> val list \<Rightarrow> inst" where
  "mk_inst p op args = \<lparr>in_ptr = p, in_op = op, in_callee = None, in_args = args, in_bits = 64\<rparr>"

text \<open>
  The builder inserts in front of the instruction: the address as an integer, the sum with the
  offset, and the sum as a pointer, which becomes the operand. \<open>next\<close> names the new instructions.
\<close>

definition offsetSimplInst :: "inst_ptr \<Rightarrow> inst \<Rightarrow> int \<Rightarrow> inst list result" where
  "offsetSimplInst next i offset =
     bindE (getPointerOperandIndex i) (\<lambda>(index, w).
     bindE (arg_at i index) (\<lambda>pointer.
     bindE (set_arg index (Result (next + 2)) i) (\<lambda>i'.
       Inr [mk_inst next OpPtrToInt [pointer], mk_inst (next + 1) OpAdd [Result next, ConstInt offset],
            mk_inst (next + 2) OpIntToPtr [Result (next + 1)], i'])))"

definition replaceCallFunc :: "inst \<Rightarrow> func_ptr \<Rightarrow> inst list result" where
  "replaceCallFunc i newFunc =
     bindE (guardE (in_op i = OpCall) (AssertFail ''cast<CallInst>'')) (\<lambda>_.
     bindE (set_arg 2 (FuncRef newFunc) i) (\<lambda>i'. Inr [i']))"

text \<open>The size operand of \<^verbatim>\<open>realloc\<close> is the second, but the result is stored in the first.\<close>

definition adjustMalloc :: "ll_module \<Rightarrow> inst_ptr \<Rightarrow> inst \<Rightarrow> int \<Rightarrow> inst list result" where
  "adjustMalloc M next i sizeAdd =
     bindE (guardE (in_op i = OpCall) (AssertFail ''cast<CallInst>'')) (\<lambda>_.
     bindE (case name_of M (in_callee i) of
              None \<Rightarrow> Inl (Undefined ''null function'')
            | Some nm \<Rightarrow> if nm = ''malloc'' then arg_at i 0
                        else if nm = ''calloc'' then Inl (AssertFail ''Not implemented'')
                        else if nm = ''realloc'' then arg_at i 1
                        else Inl (Undefined ''null operand'')) (\<lambda>origSize.
     bindE (set_arg 0 (Result next) i) (\<lambda>i'.
       Inr [mk_inst next OpAdd [origSize, ConstInt sizeAdd], i'])))"

text \<open>\<^verbatim>\<open>actOn\<close> with the three actions of \<^verbatim>\<open>runOnFunction\<close>.\<close>

definition act_on :: "ll_module \<Rightarrow> inst_ptr \<Rightarrow> inst \<Rightarrow> expanded_pc_info \<Rightarrow> inst list result" where
  "act_on M next i e =
     (if ex_triSwitch e = 0 then bindE (long_diff (snd (ex_redirect e)) (fst (ex_redirect e))) (offsetSimplInst next i)
      else if ex_triSwitch e = 1 then
        (case ex_callee e of None \<Rightarrow> Inl (Undefined ''null function'') | Some f \<Rightarrow> replaceCallFunc i f)
      else if ex_triSwitch e = 2 then adjustMalloc M next i (ex_malloc e)
      else Inl (AssertFail ''false''))"

section \<open>Rewriting a module\<close>

definition find_inst :: "ll_module \<Rightarrow> inst_ptr \<Rightarrow> inst option" where
  "find_inst M p = find (\<lambda>i. in_ptr i = p) (concat (map (\<lambda>f. fn_insts (snd f)) M))"

definition map_blocks :: "(inst \<Rightarrow> inst list) \<Rightarrow> func_ir \<Rightarrow> func_ir" where
  "map_blocks h b = b\<lparr>fn_blocks := map (\<lambda>bb. concat (map h bb)) (fn_blocks b)\<rparr>"

definition splice_inst :: "inst_ptr \<Rightarrow> inst list \<Rightarrow> ll_module \<Rightarrow> ll_module" where
  "splice_inst p is M =
     map (\<lambda>f. (fst f, map_blocks (\<lambda>i. if in_ptr i = p then is else [i]) (snd f))) M"

text \<open>A module with the name of the next new instruction.\<close>

type_synonym builder = "inst_ptr \<times> ll_module"

definition process_inst :: "inst_ptr \<times> expanded_pc_info \<Rightarrow> builder \<Rightarrow> builder result" where
  "process_inst pe st =
     (case find_inst (snd st) (fst pe) of
        None \<Rightarrow> Inl (Undefined ''dangling instruction'')
      | Some i \<Rightarrow> bindE (act_on (snd st) (fst st) i (snd pe)) (\<lambda>is.
          Inr (fst st + 3, splice_inst (fst pe) is (snd st))))"

section \<open>Loops\<close>

text \<open>\<open>outer\<close> is the outermost loop around an instruction, if any.\<close>

type_synonym post_clone = "(inst_ptr \<times> threaded_pc_info) list"
type_synonym post_unroll = "(inst_ptr \<times> expanded_pc_info) list"

definition group_inst :: "(inst_ptr \<Rightarrow> loop_id option) \<Rightarrow> inst_ptr \<times> threaded_pc_info \<Rightarrow>
  (loop_id \<times> post_clone) list \<times> post_unroll \<Rightarrow> ((loop_id \<times> post_clone) list \<times> post_unroll) result" where
  "group_inst outer p st =
     bindE (getSize (snd p)) (\<lambda>n.
       if n \<noteq> 1 then
         (case outer (fst p) of
            None \<Rightarrow> Inl (AssertFail ''A multiple-offset inst is not directly in a loop'')
          | Some l \<Rightarrow> Inr (umap_alter l (umap_emplace (fst p) (snd p)) [] (fst st), snd st))
       else bindE (expanded_of (snd p) 0) (\<lambda>e. Inr (fst st, umap_emplace (fst p) e (snd st))))"

definition getAllLoops :: "(inst_ptr \<Rightarrow> loop_id option) \<Rightarrow> post_clone \<Rightarrow> ((loop_id \<times> post_clone) list \<times> post_unroll) result" where
  "getAllLoops outer insts = foldE (group_inst outer) insts ([], [])"

text \<open>All instructions of a group must agree on the count.\<close>

definition getLoopUnrollCount :: "post_clone \<Rightarrow> nat result" where
  "getLoopUnrollCount insts =
     bindE (foldE (\<lambda>p sz. bindE (getSize (snd p)) (\<lambda>n. case sz of
          None \<Rightarrow> Inr (Some n)
        | Some m \<Rightarrow> if m = n then Inr (Some m) else Inl (AssertFail ''false''))) insts None) (\<lambda>sz.
       case sz of None \<Rightarrow> Inl (Undefined ''uninitialised variable'') | Some m \<Rightarrow> Inr m)"

text \<open>\<open>hook\<close> lists the copies of every instruction, in the order of the unrolled rounds.\<close>

definition store_copies :: "threaded_pc_info \<Rightarrow> inst_ptr \<times> inst_ptr list \<Rightarrow> post_unroll \<Rightarrow> post_unroll result" where
  "store_copies tp h ops =
     foldE (\<lambda>(i, p) ops. bindE (expanded_of tp i) (\<lambda>e. Inr (umap_put p e ops)))
       (enumerate 0 (fst h # snd h)) ops"

definition storeHookInfoToTable :: "(inst_ptr \<times> inst_ptr list) list \<Rightarrow> post_clone \<Rightarrow> post_unroll result" where
  "storeHookInfoToTable hook insts =
     foldE (\<lambda>h ops. case map_of insts (fst h) of
          None \<Rightarrow> Inl (AssertFail ''it != insts.end()'')
        | Some tp \<Rightarrow> store_copies tp h ops) hook []"

text \<open>\<open>unroll M l n ps\<close> unrolls a loop and reports the copies of the instructions \<open>ps\<close>.\<close>

type_synonym unroller = "loop_id \<Rightarrow> nat \<Rightarrow> inst_ptr list \<Rightarrow> builder \<Rightarrow> ((inst_ptr \<times> inst_ptr list) list \<times> builder) result"

definition runOnInstGroup :: "unroller \<Rightarrow> loop_id \<times> post_clone \<Rightarrow> builder \<Rightarrow> (post_unroll \<times> builder) result" where
  "runOnInstGroup unroll g st =
     bindE (guardE (snd g \<noteq> []) (AssertFail ''!insts.empty()'')) (\<lambda>_.
     bindE (getLoopUnrollCount (snd g)) (\<lambda>count.
     bindE (unroll (fst g) count (map fst (snd g)) st) (\<lambda>(hook, st').
     bindE (storeHookInfoToTable hook (snd g)) (\<lambda>ops. Inr (ops, st')))))"

text \<open>
  \<^verbatim>\<open>GroupFuncLoop::runOnFunction\<close>. The rewriting walks the final table in the order of the hash
  table.
\<close>

definition group_func_loop :: "(inst_ptr \<Rightarrow> loop_id option) \<Rightarrow> unroller \<Rightarrow> (post_unroll \<Rightarrow> post_unroll) \<Rightarrow>
  post_clone \<Rightarrow> builder \<Rightarrow> builder result" where
  "group_func_loop outer unroll order insts st =
     bindE (getAllLoops outer insts) (\<lambda>(unrollInsts, finalTable).
     bindE (foldE (\<lambda>g s. bindE (runOnInstGroup unroll g (snd s)) (\<lambda>(ops, st').
              Inr (fold (\<lambda>p. umap_emplace (fst p) (snd p)) ops (fst s), st'))) unrollInsts (finalTable, st)) (\<lambda>(tbl, st').
       foldE process_inst (order tbl) st'))"

section \<open>The pass\<close>

type_synonym pre_clone = "(inst_ptr \<times> pc_info) list"

record redirect_pass =
  rd_cg :: call_graph
  rd_profile :: profile
  rd_preCloneProfile :: "(func_ptr \<times> pre_clone) list"
  rd_absPosProfile :: "(func_ptr \<times> post_clone) list"
  rd_clonedFuncs :: "(func_ptr \<times> (size_t \<times> func_ptr) list) list"
  rd_funcThread :: "(func_ptr \<times> size_t) list"
  rd_module :: ll_module

text \<open>
  What the pass takes from the compiler: cloning a function, which appends the copy to the module
  and maps old to new instructions, the outermost loops, the unrolling, and the iteration orders of
  the hash tables.
\<close>

record compiler =
  cc_clone :: "func_ptr \<Rightarrow> ll_module \<Rightarrow> func_ptr \<times> (inst_ptr \<times> inst_ptr) list \<times> ll_module"
  cc_outer :: "ll_module \<Rightarrow> inst_ptr \<Rightarrow> loop_id option"
  cc_unroll :: unroller
  cc_order_callees :: "func_ptr option list \<Rightarrow> func_ptr option list"
  cc_order_funcs :: "func_ptr list \<Rightarrow> func_ptr list"
  cc_order_insts :: "post_unroll \<Rightarrow> post_unroll"
  cc_order_tables :: "(func_ptr \<times> post_clone) list \<Rightarrow> (func_ptr \<times> post_clone) list"
  cc_next :: "ll_module \<Rightarrow> inst_ptr"

definition getEquivalentInsts :: "size_t \<Rightarrow> (inst_ptr \<times> inst_ptr) list \<Rightarrow> pre_clone \<Rightarrow> post_clone result" where
  "getEquivalentInsts tid mp oldInsts =
     foldE (\<lambda>p ret. case map_of mp (fst p) of
          None \<Rightarrow> Inl (AssertFail ''it != map.end()'')
        | Some newInst \<Rightarrow> Inr (umap_emplace newInst (threaded_of (snd p) tid) ret)) oldInsts []"

definition set_name :: "func_ptr \<Rightarrow> string \<Rightarrow> ll_module \<Rightarrow> ll_module" where
  "set_name f nm M = map (\<lambda>p. if fst p = f then (f, (snd p)\<lparr>fn_name := nm\<rparr>) else p) M"

definition clone_one :: "compiler \<Rightarrow> func_ptr \<Rightarrow> size_t \<Rightarrow> (func_ptr \<times> size_t) list \<times> redirect_pass \<Rightarrow>
  ((func_ptr \<times> size_t) list \<times> redirect_pass) result" where
  "clone_one cc func tid st =
     (let rd = snd st;
          newName = value_or [] (name_of (rd_module rd) (Some func)) @ ''_'' @ dec (unat tid);
          (newFunc, mp, M) = cc_clone cc func (rd_module rd);
          rd1 = rd\<lparr>rd_module := set_name newFunc newName M\<rparr>
      in bindE (case map_of (rd_preCloneProfile rd) func of
                  None \<Rightarrow> Inr rd1
                | Some infos \<Rightarrow> bindE (getEquivalentInsts tid mp infos) (\<lambda>pc.
                    Inr (rd1\<lparr>rd_absPosProfile := umap_put newFunc pc (rd_absPosProfile rd1)\<rparr>))) (\<lambda>rd2.
           Inr (fst st @ [(newFunc, tid)], rd2)))"

text \<open>\<open>pthread\<close> is the call that starts the function, with the function it stands in.\<close>

definition cloneFunc :: "compiler \<Rightarrow> func_ptr \<Rightarrow> (inst_ptr \<times> func_ptr) option \<Rightarrow> size_t set \<Rightarrow> redirect_pass \<Rightarrow> redirect_pass result" where
  "cloneFunc cc func pthread threads rd =
     bindE (foldE (clone_one cc func) (sorted_list_of_set threads) ([], rd)) (\<lambda>(dupFuncs, rd1).
       let rd2 = (case pthread of None \<Rightarrow> rd1
                  | Some (call, inFunc) \<Rightarrow> rd1\<lparr>rd_absPosProfile :=
                      umap_alter inFunc (umap_emplace call (threaded_calls (map fst dupFuncs))) [] (rd_absPosProfile rd1)\<rparr>)
       in Inr (rd2\<lparr>rd_clonedFuncs := fold (\<lambda>p. umap_alter func (umap_emplace (snd p) (fst p)) []) dupFuncs (rd_clonedFuncs rd2),
                   rd_funcThread := fold (\<lambda>p. umap_put (fst p) (snd p)) dupFuncs (rd_funcThread rd2)\<rparr>))"

definition findReplace :: "(func_ptr \<times> (size_t \<times> func_ptr) list) list \<Rightarrow> size_t \<Rightarrow> func_ptr option \<Rightarrow> func_ptr option result" where
  "findReplace cloned tid callee =
     (case callee of None \<Rightarrow> Inr None
      | Some f \<Rightarrow> (case map_of cloned f of None \<Rightarrow> Inr None
          | Some clones \<Rightarrow> (case map_of clones tid of
                None \<Rightarrow> Inl (AssertFail ''it2 != clones.end()'')
              | Some g \<Rightarrow> Inr (Some g))))"

definition replace_call :: "(func_ptr \<times> (size_t \<times> func_ptr) list) list \<Rightarrow> size_t \<Rightarrow> inst \<Rightarrow> inst result" where
  "replace_call cloned tid i =
     (if is_call i then bindE (findReplace cloned tid (in_callee i)) (\<lambda>r.
        Inr (case r of None \<Rightarrow> i | Some g \<Rightarrow> i\<lparr>in_callee := Some g\<rparr>))
      else Inr i)"

definition replaceThreadedFuncCall :: "size_t \<Rightarrow> func_ptr \<Rightarrow> redirect_pass \<Rightarrow> redirect_pass result" where
  "replaceThreadedFuncCall tid func rd =
     bindE (mapE (\<lambda>p. if fst p = func
                      then bindE (mapE (mapE (replace_call (rd_clonedFuncs rd) tid)) (fn_blocks (snd p))) (\<lambda>bs.
                             Inr (fst p, (snd p)\<lparr>fn_blocks := bs\<rparr>))
                      else Inr p) (rd_module rd)) (\<lambda>M.
       Inr (rd\<lparr>rd_module := M\<rparr>))"

text \<open>The started function is the third operand of a call of \<^verbatim>\<open>pthread_create\<close>.\<close>

definition getThreadFuncFrom :: "ll_module \<Rightarrow> inst \<Rightarrow> func_ptr option result" where
  "getThreadFuncFrom M i =
     (if name_of M (in_callee i) = Some ''pthread_create''
      then bindE (arg_at i 2) (\<lambda>v. case v of FuncRef f \<Rightarrow> Inr (Some f) | _ \<Rightarrow> Inl (AssertFail ''cast<Function>''))
      else Inr None)"

definition find_start :: "compiler \<Rightarrow> func_ptr \<times> inst \<Rightarrow> (func_ptr \<times> inst_ptr \<times> func_ptr) list \<times> redirect_pass \<Rightarrow>
  ((func_ptr \<times> inst_ptr \<times> func_ptr) list \<times> redirect_pass) result" where
  "find_start cc fi st =
     (if is_call (snd fi) then bindE (getThreadFuncFrom (rd_module (snd st)) (snd fi)) (\<lambda>r. case r of
          None \<Rightarrow> Inr st
        | Some f \<Rightarrow> bindE (addStartFunc (rd_module (snd st)) (cc_order_callees cc) f (rd_cg (snd st))) (\<lambda>cg.
            Inr (umap_emplace f (in_ptr (snd fi), fst fi) (fst st), (snd st)\<lparr>rd_cg := cg\<rparr>)))
      else Inr st)"

definition all_insts :: "ll_module \<Rightarrow> (func_ptr \<times> inst) list" where
  "all_insts M = concat (map (\<lambda>p. map (Pair (fst p)) (fn_insts (snd p))) M)"

definition isCorrectInst :: "ll_module \<Rightarrow> pc_info \<Rightarrow> inst \<Rightarrow> bool result" where
  "isCorrectInst M pc i =
     (if pi_isFirst pc then Inr (pointer_index (in_op i) \<noteq> None)
      else if in_op i \<noteq> OpCall then Inr False
      else case name_of M (in_callee i) of
             None \<Rightarrow> Inl (Undefined ''null function'')
           | Some nm \<Rightarrow> Inr (nm = ''malloc'' \<or> nm = ''calloc'' \<or> nm = ''realloc''))"

text \<open>The profiled instructions of a function; \<open>n\<close> is the number of the function, counted from 0.\<close>

definition inst_infos :: "ll_module \<Rightarrow> profile \<Rightarrow> nat \<Rightarrow> func_ir \<Rightarrow> pre_clone result" where
  "inst_infos M prof n b =
     foldE (\<lambda>(k, i) infos. case map_of prof (word_of_nat n, word_of_nat k) of
          None \<Rightarrow> Inr infos
        | Some info \<Rightarrow> bindE (isCorrectInst M info i) (\<lambda>ok.
            bindE (guardE ok (AssertFail ''isCorrectInst'')) (\<lambda>_. Inr (umap_put (in_ptr i) info infos))))
       (enumerate 0 (fn_insts b)) []"

definition hint_function :: "nat \<times> func_ptr \<times> func_ir \<Rightarrow> redirect_pass \<Rightarrow> redirect_pass result" where
  "hint_function nf rd =
     (case nf of (n, f, b) \<Rightarrow> bindE (inst_infos (rd_module rd) (rd_profile rd) n b) (\<lambda>infos.
        if infos = [] then Inr rd
        else Inr (rd\<lparr>rd_cg := hintFuncThreads f (\<Union> (getThreads ` snd ` set infos)) (rd_cg rd),
                     rd_preCloneProfile := umap_emplace f infos (rd_preCloneProfile rd)\<rparr>)))"

definition clone_function :: "compiler \<Rightarrow> (func_ptr \<times> inst_ptr \<times> func_ptr) list \<Rightarrow> func_ptr \<Rightarrow> redirect_pass \<Rightarrow> redirect_pass result" where
  "clone_function cc starters f rd =
     (let threads = getFuncThreads (rd_cg rd) f
      in bindE (guardE (card threads > 1) (AssertFail ''threads.size() > 1'')) (\<lambda>_.
           cloneFunc cc f (map_of starters f) threads rd))"

definition keep_function :: "func_ptr set \<Rightarrow> func_ptr \<times> func_ir \<Rightarrow> redirect_pass \<Rightarrow> redirect_pass" where
  "keep_function cloned fb rd =
     (if fst fb \<in> cloned then rd
      else case map_of (rd_preCloneProfile rd) (fst fb) of
             None \<Rightarrow> rd
           | Some infos \<Rightarrow> rd\<lparr>rd_absPosProfile := fold (\<lambda>p. umap_alter (fst fb) (umap_emplace (fst p) (threaded_of (snd p) 0)) [])
                 infos (rd_absPosProfile rd)\<rparr>)"

definition rp_runOnModule :: "compiler \<Rightarrow> redirect_pass \<Rightarrow> redirect_pass result" where
  "rp_runOnModule cc rd =
     bindE (foldE (find_start cc) (all_insts (rd_module rd)) ([], rd)) (\<lambda>(starters, rd1).
     bindE (foldE hint_function (enumerate 0 (rd_module rd1)) rd1) (\<lambda>rd2.
     bindE (propagateFuncThreads (rd_cg rd2)) (\<lambda>cg.
     let cloneFunctions = getFunctions cg
     in bindE (foldE (clone_function cc starters) (cc_order_funcs cc (map fst (cg_graph cg))) (rd2\<lparr>rd_cg := cg\<rparr>)) (\<lambda>rd3.
        bindE (foldE (\<lambda>(f, clones) rd. foldE (\<lambda>(tid, g). replaceThreadedFuncCall tid g) clones rd)
                 (rd_clonedFuncs rd3) rd3) (\<lambda>rd4.
        let rd5 = fold (keep_function cloneFunctions) (rd_module rd4) rd4
        in bindE (foldE (\<lambda>(f, insts). group_func_loop (cc_outer cc (rd_module rd5)) (cc_unroll cc) (cc_order_insts cc) insts)
                    (cc_order_tables cc (rd_absPosProfile rd5)) (cc_next cc (rd_module rd5), rd_module rd5)) (\<lambda>st.
             Inr (rd5\<lparr>rd_module := snd st\<rparr>)))))))"

text \<open>\<^verbatim>\<open>doInitialization\<close> loads the profile.\<close>

definition rp_doInitialization :: "string \<Rightarrow> ll_module \<Rightarrow> redirect_pass result" where
  "rp_doInitialization locfile M =
     bindE (loadProfile (open_in locfile)) (\<lambda>prof.
       Inr \<lparr>rd_cg = cg_init, rd_profile = prof, rd_preCloneProfile = [], rd_absPosProfile = [],
            rd_clonedFuncs = [], rd_funcThread = [], rd_module = M\<rparr>)"

section \<open>What the inserted instructions compute\<close>

text \<open>\<open>oth\<close> gives the values that are not results of instructions.\<close>

definition val_of :: "(val \<Rightarrow> u64) \<Rightarrow> (inst_ptr \<Rightarrow> u64) \<Rightarrow> val \<Rightarrow> u64" where
  "val_of oth env v = (case v of Result p \<Rightarrow> env p | ConstInt c \<Rightarrow> word_of_int c | _ \<Rightarrow> oth v)"

definition exec_inst :: "(val \<Rightarrow> u64) \<Rightarrow> inst \<Rightarrow> (inst_ptr \<Rightarrow> u64) \<Rightarrow> inst_ptr \<Rightarrow> u64" where
  "exec_inst oth i env =
     (if in_op i = OpAdd then env(in_ptr i := sum_list (map (val_of oth env) (in_args i)))
      else if in_op i = OpPtrToInt \<or> in_op i = OpIntToPtr then env(in_ptr i := val_of oth env (hd (in_args i)))
      else env)"

lemma word_of_diff: "word_of_int (uint to - uint from) = (to - from :: size_t)"
  by simp

lemma offset_rewrites:
  assumes "pointer_index (in_op i) = Some (k, w)" "k < length (in_args i)" "a < 2 ^ 63" "b < 2 ^ 63"
    and "ex_triSwitch e = 0" "ex_redirect e = (a, b)" "val_of oth env (in_args i ! k) = base + a"
  shows "\<exists>pre i'. act_on M next i e = Inr (pre @ [i']) \<and> in_op i' = in_op i \<and> in_ptr i' = in_ptr i \<and>
    (\<forall>j. j \<noteq> k \<longrightarrow> in_args i' ! j = in_args i ! j) \<and>
    val_of oth (fold (exec_inst oth) pre env) (in_args i' ! k) = base + b"
proof -
  let ?pre = "[mk_inst next OpPtrToInt [in_args i ! k], mk_inst (next + 1) OpAdd [Result next, ConstInt (uint b - uint a)],
     mk_inst (next + 2) OpIntToPtr [Result (next + 1)]]"
  let ?i = "i\<lparr>in_args := (in_args i)[k := Result (next + 2)]\<rparr>"
  have d: "long_diff b a = Inr (uint b - uint a)" by (rule long_diff_small[OF assms(3,4)])
  have "act_on M next i e = Inr (?pre @ [?i])"
    using assms(1,2,5,6) by (simp add: act_on_def d offsetSimplInst_def getPointerOperandIndex_def arg_at_def set_arg_def)
  moreover have "val_of oth (fold (exec_inst oth) ?pre env) (in_args ?i ! k) = base + a + (word_of_int (uint b - uint a) + 0)"
    using assms(2,7) by (simp add: exec_inst_def mk_inst_def val_of_def)
  moreover have "base + a + (word_of_int (uint b - uint a) + 0) = base + b" unfolding word_of_diff by simp
  ultimately show ?thesis by (intro exI[of _ ?pre] exI[of _ ?i]) simp
qed

text \<open>
  Which rewriting the pass takes for which copy of an instruction. An instruction with one line is
  rewritten as it stands. One with several lines is unrolled with its group, once per line, and round
  \<open>n\<close> is the \<open>n\<close>-th copy that the unroller reports, counted from the instruction itself.
\<close>

definition applied_in :: "threaded_pc_info \<Rightarrow> nat \<Rightarrow> expanded_pc_info \<Rightarrow> bool" where
  "applied_in tp n e \<longleftrightarrow>
     (getSize tp = Inr 1 \<longrightarrow> n = 0 \<and> (\<forall>outer p. getAllLoops outer [(p, tp)] = Inr ([], [(p, e)]))) \<and>
     (\<forall>unroll loop insts st hook st' tbl p ps. map_of insts p = Some tp \<longrightarrow>
        unroll loop (length (tp_redirects tp)) (map fst insts) st = Inr (hook, st') \<longrightarrow>
        runOnInstGroup unroll (loop, insts) st = Inr (tbl, st') \<longrightarrow>
        (p, ps) \<in> set hook \<longrightarrow> distinct (concat (map (\<lambda>h. fst h # snd h) hook)) \<longrightarrow> n \<le> length ps \<longrightarrow>
        map_of tbl ((p # ps) ! n) = Some e)"

lemma fold_put_enumerate:
  assumes "foldE (\<lambda>(i, p) ops. bindE (f i) (\<lambda>e. Inr (umap_put p e ops))) (enumerate m ps) ops = Inr ops'" "distinct ps"
  shows "\<And>k. k < length ps \<Longrightarrow> \<exists>e. f (m + k) = Inr e \<and> map_of ops' (ps ! k) = Some e"
    "\<And>q. q \<notin> set ps \<Longrightarrow> map_of ops' q = map_of ops q"
  using assms
proof (induction ps arbitrary: m ops)
  case (Cons p ps)
  { case 1
    obtain e where e: "f m = Inr e" "foldE (\<lambda>(i, p) ops. bindE (f i) (\<lambda>e. Inr (umap_put p e ops))) (enumerate (Suc m) ps) (umap_put p e ops) = Inr ops'"
      using 1(2) by (auto simp: err_simps)
    show ?case
    proof (cases k)
      case 0
      then show ?thesis using Cons.IH(2)[of p "Suc m", OF _ e(2)] 1(3) e(1) by (simp add: map_of_umap_put)
    next
      case (Suc k')
      then show ?thesis using Cons.IH(1)[of k' "Suc m", OF _ e(2)] 1(1,3) by simp
    qed
  next
    case 2
    obtain e where e: "f m = Inr e" "foldE (\<lambda>(i, p) ops. bindE (f i) (\<lambda>e. Inr (umap_put p e ops))) (enumerate (Suc m) ps) (umap_put p e ops) = Inr ops'"
      using 2(2) by (auto simp: err_simps)
    show ?case using Cons.IH(2)[of q "Suc m", OF _ e(2)] 2(1,3) by (simp add: map_of_umap_put) }
qed simp_all

lemma store_hook_lookup:
  assumes "foldE (\<lambda>h ops. case map_of insts (fst h) of None \<Rightarrow> Inl (AssertFail ''it != insts.end()'') | Some tp \<Rightarrow> store_copies tp h ops) hook ops = Inr tbl"
    and "(p, ps) \<in> set hook" "distinct (concat (map (\<lambda>h. fst h # snd h) hook))" "map_of insts p = Some tp" "n \<le> length ps"
  shows "\<exists>e. expanded_of tp n = Inr e \<and> map_of tbl ((p # ps) ! n) = Some e"
  using assms
proof (induction hook arbitrary: ops)
  case (Cons h hook)
  let ?loop = "foldE (\<lambda>h ops. case map_of insts (fst h) of None \<Rightarrow> Inl (AssertFail ''it != insts.end()'') | Some tp \<Rightarrow> store_copies tp h ops)"
  obtain tph ops1 where h: "map_of insts (fst h) = Some tph" "store_copies tph h ops = Inr ops1" "?loop hook ops1 = Inr tbl"
    using Cons.prems(1) by (auto simp: err_simps split: option.splits)
  have others: "map_of tbl q = map_of ops' q" if "?loop hook ops' = Inr tbl" "q \<notin> set (concat (map (\<lambda>h. fst h # snd h) hook))"
      "distinct (concat (map (\<lambda>h. fst h # snd h) hook))" for q ops' hook
    using that
  proof (induction hook arbitrary: ops')
    case (Cons g hook)
    obtain tpg ops2 where g: "store_copies tpg g ops' = Inr ops2" "?loop hook ops2 = Inr tbl"
      using Cons.prems(1) by (auto simp: err_simps split: option.splits)
    have "map_of ops2 q = map_of ops' q"
      using fold_put_enumerate(2)[OF g(1)[unfolded store_copies_def], of q] Cons.prems(2,3) by simp
    then show ?case using Cons.IH[OF g(2)] Cons.prems(2,3) by simp
  qed simp
  show ?case
  proof (cases "(p, ps) = h")
    case True
    have d: "distinct (p # ps)" using Cons.prems(3) True by auto
    obtain e where e: "expanded_of tp n = Inr e" "map_of ops1 ((p # ps) ! n) = Some e"
      using fold_put_enumerate(1)[OF h(2)[unfolded store_copies_def], of n] d h(1) Cons.prems(4,5) True by auto
    have "(p # ps) ! n \<in> set (p # ps)" using Cons.prems(5) by (intro nth_mem) simp
    moreover have "set (p # ps) \<inter> set (concat (map (\<lambda>h. fst h # snd h) hook)) = {}"
      using Cons.prems(3) unfolding True[symmetric] list.map concat.simps distinct_append by simp
    ultimately have "(p # ps) ! n \<notin> set (concat (map (\<lambda>h. fst h # snd h) hook))" by blast
    then have "map_of tbl ((p # ps) ! n) = Some e" using others[OF h(3)] Cons.prems(3) e(2) by simp
    with e(1) show ?thesis by blast
  next
    case False
    then show ?thesis using Cons.IH[OF h(3)] Cons.prems by simp
  qed
qed simp

lemma unroll_count:
  assumes "getLoopUnrollCount insts = Inr c" "x \<in> set insts"
  shows "getSize (snd x) = Inr c"
proof -
  let ?f = "\<lambda>p sz. bindE (getSize (snd p)) (\<lambda>n. case sz of None \<Rightarrow> Inr (Some n)
    | Some m \<Rightarrow> if m = n then Inr (Some m) else Inl (AssertFail ''false''))"
  have all: "(sz = None \<or> sz = Some m) \<and> (\<forall>x \<in> set is. getSize (snd x) = Inr m)"
    if "foldE ?f is sz = Inr (Some m)" for "is" :: post_clone and sz m
    using that
  proof (induction "is" arbitrary: sz)
    case (Cons a "is")
    obtain sz' where "?f a sz = Inr sz'" "foldE ?f is sz' = Inr (Some m)" using Cons.prems by (auto simp: err_simps)
    then show ?case using Cons.IH[of sz'] by (cases sz) (auto simp: err_simps split: if_splits)
  qed simp
  have "foldE ?f insts None = Inr (Some c)" using assms(1) by (auto simp: getLoopUnrollCount_def err_simps split: option.splits)
  from all[OF this] assms(2) show ?thesis by blast
qed

lemma expanded_applied:
  assumes "expanded_of tp n = Inr e" "tp_triSwitch tp = 0"
  shows "applied_in tp n e"
proof -
  have n: "n < length (tp_redirects tp)" using assms by (auto simp: expanded_of_def Let_def err_simps)
  have "n = 0 \<and> getAllLoops outer [(p, tp)] = Inr ([], [(p, e)])" if "getSize tp = Inr 1" for outer p
    using that n assms by (simp add: getSize_def getAllLoops_def group_inst_def umap_emplace_def)
  moreover have "map_of tbl ((p # ps) ! n) = Some e"
    if tp: "map_of insts p = Some tp" and hook: "unroll loop (length (tp_redirects tp)) (map fst insts) st = Inr (hook, st')"
      and run: "runOnInstGroup unroll (loop, insts) st = Inr (tbl, st')"
      and mem: "(p, ps) \<in> set hook" "distinct (concat (map (\<lambda>h. fst h # snd h) hook))" and le: "n \<le> length ps"
    for unroll loop insts st hook st' tbl p ps
  proof -
    obtain c hook2 where c: "getLoopUnrollCount insts = Inr c" "unroll loop c (map fst insts) st = Inr (hook2, st')"
      "storeHookInfoToTable hook2 insts = Inr tbl"
      using run by (auto simp: runOnInstGroup_def err_simps split: prod.splits)
    have "c = length (tp_redirects tp)" using unroll_count[OF c(1) map_of_SomeD[OF tp]] assms(2) by (simp add: getSize_def)
    then have "hook2 = hook" using c(2) hook by simp
    from store_hook_lookup[OF c(3)[unfolded storeHookInfoToTable_def this] mem tp le] show ?thesis using assms(1) by simp
  qed
  ultimately show ?thesis unfolding applied_in_def by blast
qed

lemma sorted_rank:
  fixes y :: "'a :: linorder"
  assumes "y \<in> set xs"
  shows "sort xs ! length (filter (\<lambda>x. x < y) xs) = y" "length (filter (\<lambda>x. x < y) xs) < length xs"
proof -
  let ?n = "length (filter (\<lambda>x. x < y) xs)"
  have "sorted zs \<Longrightarrow> filter (\<lambda>x. x < y) zs = takeWhile (\<lambda>x. x < y) zs" for zs
  proof (induction zs)
    case (Cons a zs)
    then show ?case by (cases zs) auto
  qed simp
  then have "filter (\<lambda>x. x < y) (sort xs) = takeWhile (\<lambda>x. x < y) (sort xs)" by simp
  moreover have "length (filter (\<lambda>x. x < y) (sort xs)) = ?n" by (simp add: filter_sort)
  ultimately have n: "?n = length (takeWhile (\<lambda>x. x < y) (sort xs))" by simp
  show lt: "?n < length xs" using assms by (intro length_filter_less) auto
  then have ge: "y \<le> sort xs ! ?n" using nth_length_takeWhile[of "\<lambda>x. x < y" "sort xs"] n by simp
  obtain m where m: "m < length (sort xs)" "sort xs ! m = y" using assms by (metis in_set_conv_nth set_sort)
  have "\<not> m < ?n" using nth_mem[of m "takeWhile (\<lambda>x. x < y) (sort xs)"] m(2) n by (auto dest: set_takeWhileD simp: takeWhile_nth)
  then have "sort xs ! ?n \<le> y" using sorted_nth_mono[OF sorted_sort[of xs], of ?n m] m by simp
  with ge show "sort xs ! ?n = y" by simp
qed

lemma offset_of_line:
  assumes "(tid, a, b) \<in> set lines"
  defines "n \<equiv> length (filter (\<lambda>l. l < (a, b)) (map snd (filter (\<lambda>l. fst l = tid) lines)))"
  obtains e where "expanded_of (threaded_of (pc_info_lines lines) tid) n = Inr e" "ex_triSwitch e = 0" "ex_redirect e = (a, b)"
    "tp_triSwitch (threaded_of (pc_info_lines lines) tid) = 0"
proof -
  let ?tp = "threaded_of (pc_info_lines lines) tid" and ?rs = "map snd (filter (\<lambda>l. fst l = tid) lines)"
  have "(a, b) \<in> set ?rs" using assms(1) by force
  note r = sorted_rank[OF this, folded n_def]
  have "n < length (tp_redirects ?tp)" "tp_redirects ?tp ! n = (a, b)" unfolding threaded_lines using r by simp_all
  moreover have t: "tp_triSwitch ?tp = 0" by (simp add: threaded_of_def getThreaded_def pc_info_lines_def)
  ultimately have "expanded_of ?tp n = Inr \<lparr>ex_redirect = (a, b), ex_callee = None, ex_malloc = 0, ex_triSwitch = 0\<rparr>"
    by (simp add: expanded_of_def Let_def)
  with t that show thesis by simp
qed

text \<open>
  \<^bold>\<open>C14.\<close> A redirected access goes where the layout says. For every line of the layout of an
  instruction there is a round of its loop in which the rewritten instruction, run by that thread on
  an address \<open>base + from\<close>, accesses \<open>base + to\<close>; opcode and other operands are unchanged.
\<close>

theorem redirect_access_exact:
  assumes "(tid, a, b) \<in> set lines" "a < 2 ^ 63" "b < 2 ^ 63"
    and "pointer_index (in_op i) = Some (k, w)" "k < length (in_args i)"
    and "val_of oth env (in_args i ! k) = base + a"
  shows "\<exists>n e pre i'. expanded_of (threaded_of (pc_info_lines lines) tid) n = Inr e \<and>
    act_on M next i e = Inr (pre @ [i']) \<and> in_op i' = in_op i \<and> in_ptr i' = in_ptr i \<and>
    (\<forall>j. j \<noteq> k \<longrightarrow> in_args i' ! j = in_args i ! j) \<and>
    val_of oth (fold (exec_inst oth) pre env) (in_args i' ! k) = base + b"
proof (rule offset_of_line[OF assms(1)])
  let ?n = "length (filter (\<lambda>l. l < (a, b)) (map snd (filter (\<lambda>l. fst l = tid) lines)))"
  fix e assume e: "expanded_of (threaded_of (pc_info_lines lines) tid) ?n = Inr e" "ex_triSwitch e = 0" "ex_redirect e = (a, b)"
  from offset_rewrites[OF assms(4,5,2,3) e(2,3) assms(6), of M "next"] e(1) show ?thesis by blast
qed

definition sample_load :: inst where
  "sample_load = \<lparr>in_ptr = 7, in_op = OpStore, in_callee = None, in_args = [ConstInt 1, OtherVal 0], in_bits = 64\<rparr>"

theorem redirect_access_exact_witness:
  "\<exists>n e pre i'. expanded_of (threaded_of (pc_info_lines [(0, 0, 0), (1, 8, 64)]) 1) n = Inr e \<and>
    act_on [] 100 sample_load e = Inr (pre @ [i']) \<and>
    val_of (\<lambda>_. 4104) (fold (exec_inst (\<lambda>_. 4104)) pre (\<lambda>_. 0)) (in_args i' ! 1) = 4160"
proof -
  have "pointer_index (in_op sample_load) = Some (1, True)" "1 < length (in_args sample_load)"
    "val_of (\<lambda>_. 4104) (\<lambda>_. 0) (in_args sample_load ! 1) = 4096 + 8"
    by (simp_all add: sample_load_def pointer_index_def val_of_def)
  from redirect_access_exact[OF _ _ _ this, of 1 64 "[(0, 0, 0), (1, 8, 64)]" "[]" 100]
  show ?thesis by fastforce
qed

section \<open>Calls inside clones\<close>

lemma mapE_ok: "\<forall>x \<in> set xs. \<exists>y. f x = Inr y \<Longrightarrow> \<exists>ys. mapE f xs = Inr ys"
  by (induction xs) auto

lemma mapE_Inr_iff: "mapE f xs = Inr ys \<longleftrightarrow> list_all2 (\<lambda>x y. f x = Inr y) xs ys"
proof (induction xs arbitrary: ys)
  case (Cons x xs)
  then show ?case by (cases ys) (auto simp: err_simps list_all2_Cons1)
qed auto

lemma mapE_ok_iff: "(\<exists>ys. mapE f xs = Inr ys) \<longleftrightarrow> (\<forall>x \<in> set xs. \<exists>y. f x = Inr y)"
proof
  assume "\<exists>ys. mapE f xs = Inr ys"
  then obtain ys where "list_all2 (\<lambda>x y. f x = Inr y) xs ys" by (auto simp: mapE_Inr_iff)
  then show "\<forall>x \<in> set xs. \<exists>y. f x = Inr y" by (induction rule: list_all2_induct) auto
qed (rule mapE_ok)

definition has_clone :: "(func_ptr \<times> (size_t \<times> func_ptr) list) list \<Rightarrow> size_t \<Rightarrow> inst \<Rightarrow> bool" where
  "has_clone cloned tid i \<longleftrightarrow>
     (is_call i \<longrightarrow> (\<forall>g clones. in_callee i = Some g \<longrightarrow> map_of cloned g = Some clones \<longrightarrow> map_of clones tid \<noteq> None))"

lemma replace_call_total: "(\<exists>i'. replace_call cloned tid i = Inr i') \<longleftrightarrow> has_clone cloned tid i"
  by (auto simp: replace_call_def findReplace_def has_clone_def split: option.splits)

lemma replace_block_total:
  "(\<exists>bs. mapE (mapE (replace_call cloned tid)) bb = Inr bs) \<longleftrightarrow> (\<forall>i \<in> set (concat bb). has_clone cloned tid i)"
  unfolding mapE_ok_iff replace_call_total by auto

text \<open>
  Correcting the calls of a clone succeeds exactly when every cloned function it calls has a
  clone for the same thread. The thread sets only grow from callees to callers, so a caller can have
  a thread its callee has not, and the assertion fails.
\<close>

theorem clone_calls_need_thread:
  assumes "distinct (map fst (rd_module rd))" "map_of (rd_module rd) f = Some b"
  shows "(\<exists>rd'. replaceThreadedFuncCall tid f rd = Inr rd') \<longleftrightarrow>
    (\<forall>i \<in> set (fn_insts b). is_call i \<longrightarrow> (\<forall>g clones. in_callee i = Some g \<longrightarrow>
       map_of (rd_clonedFuncs rd) g = Some clones \<longrightarrow> map_of clones tid \<noteq> None))"
proof -
  let ?one = "\<lambda>p. if fst p = f
      then bindE (mapE (mapE (replace_call (rd_clonedFuncs rd) tid)) (fn_blocks (snd p))) (\<lambda>bs.
             Inr (fst p, (snd p)\<lparr>fn_blocks := bs\<rparr>))
      else Inr p"
  have one: "(\<exists>q. ?one p = Inr q) \<longleftrightarrow> (fst p = f \<longrightarrow> (\<forall>i \<in> set (fn_insts (snd p)). has_clone (rd_clonedFuncs rd) tid i))" for p
    using replace_block_total[of "rd_clonedFuncs rd" tid "fn_blocks (snd p)"]
    by (auto simp: err_simps fn_insts_def)
  have mem: "p \<in> set (rd_module rd) \<and> fst p = f \<longleftrightarrow> p = (f, b)" for p
    using map_of_is_SomeI[OF assms(1), of f "snd p"] assms(2) map_of_SomeD[OF assms(2)] by (cases p) auto
  have "(\<exists>rd'. replaceThreadedFuncCall tid f rd = Inr rd') \<longleftrightarrow> (\<exists>M. mapE ?one (rd_module rd) = Inr M)"
    by (auto simp: replaceThreadedFuncCall_def err_simps)
  also have "\<dots> \<longleftrightarrow> (\<forall>p \<in> set (rd_module rd). fst p = f \<longrightarrow> (\<forall>i \<in> set (fn_insts (snd p)). has_clone (rd_clonedFuncs rd) tid i))"
    unfolding mapE_ok_iff one ..
  also have "\<dots> \<longleftrightarrow> (\<forall>i \<in> set (fn_insts b). has_clone (rd_clonedFuncs rd) tid i)" using mem by (metis fst_conv snd_conv)
  finally show ?thesis unfolding has_clone_def .
qed

definition sample_pass :: redirect_pass where
  "sample_pass = \<lparr>rd_cg = cg_init, rd_profile = [], rd_preCloneProfile = [], rd_absPosProfile = [],
     rd_clonedFuncs = [(1, [(0, 11), (5, 12)]), (2, [(0, 21)])], rd_funcThread = [],
     rd_module = [(11, \<lparr>fn_name = ''f_0'', fn_decl = False, fn_blocks = [[call_to 30 2]]\<rparr>),
                  (12, \<lparr>fn_name = ''f_5'', fn_decl = False, fn_blocks = [[call_to 31 2]]\<rparr>)]\<rparr>"

theorem clone_calls_need_thread_witness:
  "(\<exists>rd'. replaceThreadedFuncCall 0 11 sample_pass = Inr rd') \<and>
   \<not> (\<exists>rd'. replaceThreadedFuncCall 5 12 sample_pass = Inr rd')"
proof -
  have d: "distinct (map fst (rd_module sample_pass))" by (simp add: sample_pass_def)
  have b: "map_of (rd_module sample_pass) 11 = Some \<lparr>fn_name = ''f_0'', fn_decl = False, fn_blocks = [[call_to 30 2]]\<rparr>"
    "map_of (rd_module sample_pass) 12 = Some \<lparr>fn_name = ''f_5'', fn_decl = False, fn_blocks = [[call_to 31 2]]\<rparr>"
    by (simp_all add: sample_pass_def)
  show ?thesis
    unfolding clone_calls_need_thread[OF d b(1)] clone_calls_need_thread[OF d b(2)]
    by (simp add: sample_pass_def fn_insts_def call_to_def is_call_def)
qed

text \<open>
  A thread without a redirection for an instruction stops the pass. The clone of a function
  for a thread keeps all its profiled instructions, also those the thread has no line for; outside a
  loop such an instruction fails the assertion that is meant for instructions with several offsets.
\<close>

theorem unlisted_thread_fails:
  assumes "tid \<notin> fst ` set lines" "outer p = None"
  shows "getAllLoops outer ((p, threaded_of (pc_info_lines lines) tid) # insts) =
    Inl (AssertFail ''A multiple-offset inst is not directly in a loop'')"
proof -
  let ?tp = "threaded_of (pc_info_lines lines) tid"
  have "filter (\<lambda>l. fst l = tid) lines = []" using assms(1) by (auto simp: filter_empty_conv)
  then have "tp_redirects ?tp = []" unfolding threaded_lines by simp
  moreover have "tp_triSwitch ?tp = 0" by (simp add: threaded_of_def getThreaded_def pc_info_lines_def)
  ultimately show ?thesis using assms(2) by (simp add: getAllLoops_def group_inst_def getSize_def)
qed

theorem unlisted_thread_fails_witness:
  "getAllLoops (\<lambda>_. None) [(9, threaded_of (pc_info_lines [(1, 8, 64)]) 0)] =
    Inl (AssertFail ''A multiple-offset inst is not directly in a loop'')"
  by (rule unlisted_thread_fails) simp_all

text \<open>
  Growing a \<^verbatim>\<open>realloc\<close> overwrites its pointer: the enlarged size is stored as the first
  operand, the size stays as it was.
\<close>

theorem realloc_loses_pointer:
  assumes "in_op i = OpCall" "name_of M (in_callee i) = Some ''realloc''" "in_args i = [ptr, sz]"
  shows "adjustMalloc M next i add =
    Inr [mk_inst next OpAdd [sz, ConstInt add], i\<lparr>in_args := [Result next, sz]\<rparr>]"
  using assms by (simp add: adjustMalloc_def arg_at_def set_arg_def)

theorem realloc_loses_pointer_witness:
  "adjustMalloc [(3, \<lparr>fn_name = ''realloc'', fn_decl = True, fn_blocks = []\<rparr>)] 50
     ((call_to 8 3)\<lparr>in_args := [OtherVal 1, ConstInt 16]\<rparr>) 64 =
   Inr [mk_inst 50 OpAdd [ConstInt 16, ConstInt 64], (call_to 8 3)\<lparr>in_args := [Result 50, ConstInt 16]\<rparr>]"
  using realloc_loses_pointer[of "(call_to 8 3)\<lparr>in_args := [OtherVal 1, ConstInt 16]\<rparr>"
      "[(3, \<lparr>fn_name = ''realloc'', fn_decl = True, fn_blocks = []\<rparr>)]" "OtherVal 1" "ConstInt 16" 50 64]
  by (simp add: call_to_def name_of_def)

end
