(* ===== verification/PL_Pipeline.thy ===== *)
theory PL_Pipeline
  imports PP_Input RP_Redirect
begin

text \<open>
  How the repair pass, its result file and the redirecting compiler pass fit together: the bounds and
  the lookups that let the guarantees of one stage meet the assumptions of the next.
\<close>

lemma inj_unat: "inj (unat :: size_t \<Rightarrow> nat)"
  by (rule injI) (rule word_unat_eq_iff[THEN iffD2])

section \<open>The access relation of an input\<close>

lemma input_relation_member:
  assumes "input_ok api" "(s, k) \<in> set api" "x \<in> seg_bytes s"
  obtains segs r where "(k, segs) \<in> set (input_relation api)" "r \<in> set segs" "x \<in> seg_bytes r"
proof -
  let ?segs = "map fst (filter (\<lambda>p. snd p = k) api)"
  have "\<forall>r \<in> set (sort ?segs). seg_wf r" using assms(1) by (auto simp: input_ok_def)
  moreover have mem: "s \<in> set (sort ?segs)" using assms(2) by force
  ultimately obtain r where r: "r \<in> set (normalise_segs ?segs)" "x \<in> seg_bytes r"
    using merge_neighbors_bytes[of "sort ?segs"] mem assms(3) unfolding normalise_segs_def by blast
  have "k \<in> snd ` set api" using assms(2) by force
  then have "(k, normalise_segs ?segs) \<in> set (input_relation api)"
    by (simp add: map_of_iff_smap[OF input_relation_lookup(1)] input_relation_lookup(2))
  with r that show thesis by blast
qed

lemma accessed_below:
  assumes "input_ok api" "x \<in> accessed (input_relation api)"
  shows "x < 2 ^ 57"
  using assms input_relation_access[OF assms(1)] by (fastforce simp: accessed_def seg_bytes_def)

lemma accessed_card:
  assumes "input_ok api"
  shows "card (accessed (input_relation api)) \<le> 2 ^ 57"
proof -
  have "unat ` accessed (input_relation api) \<subseteq> {..<2 ^ 57}"
    using accessed_below[OF assms] by (auto simp: word_less_nat_alt)
  then have "card (unat ` accessed (input_relation api)) \<le> 2 ^ 57"
    using card_mono[of "{..<2 ^ 57 :: nat}"] by fastforce
  moreover have "inj_on unat (accessed (input_relation api))" by (rule inj_on_subset[OF inj_unat]) simp
  ultimately show ?thesis by (simp add: card_image)
qed

lemma cluster_card:
  assumes "input_ok api"
  shows "card (cluster_threads (input_relation api) ` X) \<le> 2 ^ 31"
proof -
  let ?T = "{t :: size_t. t < 31}"
  have sub: "cluster_threads (input_relation api) ` X \<subseteq> Pow ?T"
    using input_relation_access[OF assms] by (fastforce simp: cluster_threads_def)
  have "unat ` ?T \<subseteq> {..<31}" by (auto simp: word_less_nat_alt)
  then have "card (unat ` ?T) \<le> 31" using card_mono[of "{..<31 :: nat}"] by fastforce
  then have "card ?T \<le> 31" using card_image[OF inj_on_subset[OF inj_unat, of ?T]] by simp
  then have "card (Pow ?T) \<le> 2 ^ 31" unfolding card_Pow[OF finite] by (rule power_increasing) simp
  with card_mono[OF _ sub] show ?thesis by simp
qed

lemma new_size_below:
  assumes "input_ok api" "table_places (input_relation api) merged after rm"
  shows "after < 2 ^ 63"
proof -
  have "unat after \<le> 2 ^ 57 + 64 * (2 ^ 31 - 1)"
    using table_size[OF assms(2)] accessed_card[OF assms(1)] cluster_card[OF assms(1), of "accessed (input_relation api)"]
    by (simp add: add_mono diff_le_mono)
  then show ?thesis by (simp add: word_less_nat_alt)
qed

lemma new_pos_below:
  assumes "table_places ar merged after rm" "x \<in> accessed ar"
  obtains u where "new_pos rm x = Some u" "u < after"
proof (rule table_new_pos[OF assms])
  fix a s p d
  assume d: "d < seg_len s" "p + seg_len s \<le> new_size merged" "new_pos rm x = Some (word_of_nat (p + d))"
    "unat (word_of_nat (p + d) :: size_t) = p + d"
  have "unat after = new_size merged"
    using assms(1) calc_remapping_placement(1)[of merged after rm] by (simp add: table_places_def unat_of_nat)
  with d that show thesis by (auto simp: word_less_nat_alt)
qed

section \<open>The line of an access\<close>

lemma entry_lines_start:
  "(t, a, b) \<in> set (entry_lines rm e) \<Longrightarrow> \<exists>s \<in> set (snd e). a = seg_start s \<and> b = a + line_offset rm s"
  by (auto simp: entry_lines_def Let_def split: if_splits dest!: in_set_takeD)

lemma access_line:
  assumes "input_ok api" "table_places (input_relation api) merged after rm"
    and "((pc, t), segs) \<in> set (input_relation api)" "s \<in> set segs" "x \<in> seg_bytes s"
  obtains a b where "(t, a, b) \<in> set (entry_lines rm ((pc, t), segs))" "a < 2 ^ 63" "b < 2 ^ 63"
    "new_pos rm x = Some (x + (b - a))"
    "a = seg_start s \<or> (\<forall>r \<in> set segs. \<forall>y \<in> seg_bytes r. new_pos rm y = Some (y + (b - a)))"
proof -
  let ?ar = "input_relation api" and ?e = "((pc, t), segs)"
  obtain a b where ab: "(t, a, b) \<in> set (entry_lines rm ?e)" "b - a = line_offset rm s"
    and choice: "a = seg_start s \<or> (\<forall>r \<in> set segs. line_offset rm r = line_offset rm s)"
  proof (cases "\<forall>r \<in> set segs. line_offset rm r = line_offset rm (hd segs)")
    case True
    have "segs \<noteq> []" using assms(4) by auto
    then have "(t, seg_start (hd segs), seg_start (hd segs) + line_offset rm (hd segs)) \<in> set (entry_lines rm ?e)"
      using True by (cases segs) (simp_all add: entry_lines_def Let_def)
    then show thesis by (rule that) (use True assms(4) in auto)
  next
    case False
    then have "(t, seg_start s, seg_start s + line_offset rm s) \<in> set (entry_lines rm ?e)"
      using assms(4) by (auto simp: entry_lines_def Let_def)
    then show thesis by (rule that) auto
  qed
  obtain r where r: "r \<in> set segs" "a = seg_start r" "b = a + line_offset rm r" using entry_lines_start[OF ab(1)] by auto
  have acc: "(t, r) \<in> set (accesses ?ar)" using assms(3) r(1) by (force simp: accesses_mem)
  have "seg_wf r" using input_relation_access[OF assms(1) acc] by simp
  then have a: "a \<in> accessed ?ar" using acc r(2) by (force simp: accessed_def seg_wf_def seg_bytes_def)
  obtain u where "new_pos rm a = Some u" "u < after" by (rule new_pos_below[OF assms(2) a])
  with r have "b < after" by (simp add: line_offset_def)
  then have "b < 2 ^ 63" using new_size_below[OF assms(1,2)] by simp
  moreover have "a < 2 ^ 63" using accessed_below[OF assms(1) a] by (simp add: word_less_nat_alt)
  moreover have moved: "new_pos rm y = Some (y + line_offset rm q)" if "q \<in> set segs" "y \<in> seg_bytes q" for q y
  proof -
    have "(t, q) \<in> set (accesses ?ar)" using assms(3) that(1) by (force simp: accesses_mem)
    from table_contiguous[OF assms(2) this, of y] show ?thesis using that(2) by (auto simp: line_offset_def)
  qed
  moreover have "a = seg_start s \<or> (\<forall>r \<in> set segs. \<forall>y \<in> seg_bytes r. new_pos rm y = Some (y + (b - a)))"
    using choice moved ab(2) by auto
  ultimately show thesis using that[OF ab(1)] moved[OF assms(4,5)] ab(2) by simp
qed

section \<open>The number of lines\<close>

lemma merge_neighbors_length: "length (merge_neighbors segs) \<le> length segs"
  by (induction segs rule: merge_neighbors_induct) (simp_all add: merge_neighbors_rec)

lemma total_smap_alter:
  "sum_list (map (\<lambda>p. length (snd p)) (smap_alter k (\<lambda>v. v @ [y]) [] m)) = Suc (sum_list (map (\<lambda>p. length (snd p)) m))"
  by (induction k "\<lambda>v. v @ [y]" "[] :: 'b list" m rule: smap_alter.induct) auto

lemma total_fold_alter:
  "sum_list (map (\<lambda>p. length (snd p)) (fold (\<lambda>p. smap_alter (snd p) (\<lambda>v. v @ [fst p]) []) ps m)) =
   length ps + sum_list (map (\<lambda>p. length (snd p)) m)"
  by (induction ps arbitrary: m) (simp_all add: total_smap_alter)

lemma input_relation_total: "sum_list (map (\<lambda>e. length (snd e)) (input_relation api)) \<le> length api"
proof -
  let ?m = "fold (\<lambda>p. smap_alter (snd p) (\<lambda>segs. segs @ [fst p]) []) api []"
  have "sum_list (map (\<lambda>e. length (snd e)) (input_relation api)) \<le> sum_list (map (\<lambda>e. length (snd e)) ?m)"
    unfolding input_relation_def map_map
    by (intro sum_list_mono) (simp add: normalise_segs_def le_trans[OF merge_neighbors_length])
  then show ?thesis by (simp add: total_fold_alter)
qed

lemma entry_lines_length: "length (entry_lines rm e) \<le> length (snd e)"
  by (simp add: entry_lines_def Let_def)

lemma remap_lines_length:
  "length (fold (\<lambda>e. fold (mmap_emplace (fst (fst e))) (entry_lines rm e)) (input_relation api) []) \<le> length api"
proof -
  have "length (fold (\<lambda>e. fold (mmap_emplace (fst (fst e))) (entry_lines rm e)) (input_relation api) []) =
      sum_list (map (\<lambda>e. length (entry_lines rm e)) (input_relation api))"
    using arg_cong[OF mset_remap_lines[of rm "input_relation api" "[]"], of size] by (simp add: length_concat o_def)
  also have "\<dots> \<le> sum_list (map (\<lambda>e. length (snd e)) (input_relation api))"
    by (intro sum_list_mono entry_lines_length)
  finally show ?thesis using input_relation_total[of api] by simp
qed

section \<open>The repair pass as a whole\<close>

definition pass_input_ok :: "malloc_output list \<Rightarrow> bool" where
  "pass_input_ok input \<longleftrightarrow> (\<forall>mo \<in> set input. input_ok (mo_accesses mo) \<and> mo_size mo < 2 ^ 63) \<and>
     sum_list (map (\<lambda>mo. length (mo_accesses mo)) input) < 2 ^ 64"

lemma fold_emplace_layout:
  "set (fold (\<lambda>q. mmap_emplace (fst q) (snd q)) ls lay) = set ls \<union> set lay"
  "length (fold (\<lambda>q. mmap_emplace (fst q) (snd q)) ls lay) = length ls + length lay"
proof -
  have "mset (fold (\<lambda>q. mmap_emplace (fst q) (snd q)) ls lay) = mset ls + mset lay"
    by (induction ls arbitrary: lay) simp_all
  from arg_cong[OF this, of set_mset] arg_cong[OF this, of size]
  show "set (fold (\<lambda>q. mmap_emplace (fst q) (snd q)) ls lay) = set ls \<union> set lay"
    "length (fold (\<lambda>q. mmap_emplace (fst q) (snd q)) ls lay) = length ls + length lay" by simp_all
qed

lemma repair_malloc_run:
  assumes "input_ok (mo_accesses mo)" "mo_size mo < 2 ^ 63"
  obtains ly merged rm rp' where "mk_layout junk (mo_accesses mo) (mo_pc mo) (- 1) None = Inr ly"
    "ly_access_relation ly = input_relation (mo_accesses mo)"
    "ly_table (ly_access_relation ly) = Inr (ly_after_mapped ly, rm)"
    "table_places (input_relation (mo_accesses mo)) merged (ly_after_mapped ly) rm"
    "repair_malloc junk (- 1) analysis_init mo rp = Inr rp'"
    "set (rp_all_pcs_layout rp') = set (ly_remapping_lines ly) \<union> set (rp_all_pcs_layout rp)"
    "length (rp_all_pcs_layout rp') \<le> length (mo_accesses mo) + length (rp_all_pcs_layout rp)"
    "set (rp_all_fixed_mallocs rp') \<subseteq> set (rp_all_fixed_mallocs rp) \<union> {(mo_pc mo, mo_size mo, ly_after_mapped ly)}"
    "length (rp_all_fixed_mallocs rp') \<le> Suc (length (rp_all_fixed_mallocs rp))"
    "set (ly_remapping_lines ly) =
       {(fst (fst e), l) |e l. e \<in> set (input_relation (mo_accesses mo)) \<and> l \<in> set (entry_lines rm e)}"
proof (rule layout_run[OF assms(1), of junk "mo_pc mo"])
  fix ly merged rm
  assume run: "mk_layout junk (mo_accesses mo) (mo_pc mo) (- 1) None = Inr ly"
    "ly_access_relation ly = input_relation (mo_accesses mo)"
    "ly_table (input_relation (mo_accesses mo)) = Inr (ly_after_mapped ly, rm)"
    "table_places (input_relation (mo_accesses mo)) merged (ly_after_mapped ly) rm"
    and lines: "ly_remapping_lines ly =
      fold (\<lambda>e. fold (mmap_emplace (fst (fst e))) (entry_lines rm e)) (input_relation (mo_accesses mo)) []"
  let ?rp = "\<lparr>rp_all_fixed_mallocs = (if ly_after_mapped ly \<noteq> mo_size mo
      then rp_all_fixed_mallocs rp @ [(mo_pc mo, mo_size mo, ly_after_mapped ly)] else rp_all_fixed_mallocs rp),
    rp_all_pcs_layout = fold (\<lambda>q. mmap_emplace (fst q) (snd q)) (ly_remapping_lines ly) (rp_all_pcs_layout rp)\<rparr>"
  have "repair_malloc junk (- 1) analysis_init mo rp = Inr ?rp"
    using run(1) by (simp add: repair_malloc_def analysis_empty_def analysis_init_def Let_def)
  from that[OF run(1,2) _ run(4) this] show thesis
    using run(2,3) remap_lines_length[of rm "mo_accesses mo"] set_remap_lines[of rm "input_relation (mo_accesses mo)"]
    by (cases "ly_after_mapped ly = mo_size mo") (simp_all add: fold_emplace_layout lines subset_insertI)
qed

text \<open>What holds of the state of the pass after some allocations.\<close>

definition pass_inv :: "size_t \<Rightarrow> malloc_output list \<Rightarrow> repair_pass \<Rightarrow> bool" where
  "pass_inv junk seen rp \<longleftrightarrow>
     (\<forall>mo \<in> set seen. \<forall>ly. mk_layout junk (mo_accesses mo) (mo_pc mo) (- 1) None = Inr ly \<longrightarrow>
        set (ly_remapping_lines ly) \<subseteq> set (rp_all_pcs_layout rp)) \<and>
     (\<forall>m \<in> set (rp_all_fixed_mallocs rp). small_malloc m \<and> fst m \<in> mo_pc ` set seen) \<and>
     length (rp_all_fixed_mallocs rp) \<le> length seen \<and>
     length (rp_all_pcs_layout rp) \<le> sum_list (map (\<lambda>mo. length (mo_accesses mo)) seen)"

lemma repair_malloc_inv:
  assumes "input_ok (mo_accesses mo)" "mo_size mo < 2 ^ 63" "pass_inv junk seen rp"
  shows "\<exists>rp'. repair_malloc junk (- 1) analysis_init mo rp = Inr rp' \<and> pass_inv junk (seen @ [mo]) rp'"
proof (rule repair_malloc_run[OF assms(1,2), of junk rp])
  fix ly merged rm rp'
  assume run: "mk_layout junk (mo_accesses mo) (mo_pc mo) (- 1) None = Inr ly"
    and tab: "table_places (input_relation (mo_accesses mo)) merged (ly_after_mapped ly) rm"
    and rp': "repair_malloc junk (- 1) analysis_init mo rp = Inr rp'"
    "set (rp_all_pcs_layout rp') = set (ly_remapping_lines ly) \<union> set (rp_all_pcs_layout rp)"
    "length (rp_all_pcs_layout rp') \<le> length (mo_accesses mo) + length (rp_all_pcs_layout rp)"
    "set (rp_all_fixed_mallocs rp') \<subseteq> set (rp_all_fixed_mallocs rp) \<union> {(mo_pc mo, mo_size mo, ly_after_mapped ly)}"
    "length (rp_all_fixed_mallocs rp') \<le> Suc (length (rp_all_fixed_mallocs rp))"
  have "small_malloc (mo_pc mo, mo_size mo, ly_after_mapped ly)"
    using assms(2) new_size_below[OF assms(1) tab] by (simp add: small_malloc_def)
  then have "\<forall>m \<in> set (rp_all_fixed_mallocs rp'). small_malloc m \<and> fst m \<in> mo_pc ` set (seen @ [mo])"
    using rp'(4) assms(3) by (auto simp: pass_inv_def)
  moreover have "\<forall>mo' \<in> set (seen @ [mo]). \<forall>ly'. mk_layout junk (mo_accesses mo') (mo_pc mo') (- 1) None = Inr ly' \<longrightarrow>
      set (ly_remapping_lines ly') \<subseteq> set (rp_all_pcs_layout rp')"
    using rp'(2) run assms(3) by (auto simp: pass_inv_def)
  ultimately show ?thesis using rp'(1,3,5) assms(3) by (auto simp: pass_inv_def)
qed

lemma repair_compute_inv:
  assumes "\<forall>mo \<in> set input. input_ok (mo_accesses mo) \<and> mo_size mo < 2 ^ 63" "pass_inv junk seen rp"
  shows "\<exists>rp'. foldE (repair_malloc junk (- 1) analysis_init) input rp = Inr rp' \<and> pass_inv junk (seen @ input) rp'"
  using assms
proof (induction input arbitrary: seen rp)
  case (Cons mo input)
  then obtain rp1 where "repair_malloc junk (- 1) analysis_init mo rp = Inr rp1" "pass_inv junk (seen @ [mo]) rp1"
    using repair_malloc_inv[of mo junk seen rp] by auto
  with Cons.IH[of "seen @ [mo]" rp1] Cons.prems(1) show ?case by simp
qed simp

lemma pass_runs:
  assumes "pass_input_ok input"
  obtains rp where "repair_compute junk (- 1) analysis_init input = Inr rp" "pass_inv junk input rp"
    "length (rp_all_fixed_mallocs rp) < 2 ^ 64" "length (rp_all_pcs_layout rp) < 2 ^ 64"
    "\<forall>m \<in> set (rp_all_fixed_mallocs rp). small_malloc m"
proof -
  have ok: "\<forall>mo \<in> set input. input_ok (mo_accesses mo) \<and> mo_size mo < 2 ^ 63"
    and total: "sum_list (map (\<lambda>mo. length (mo_accesses mo)) input) < 2 ^ 64"
    using assms by (simp_all add: pass_input_ok_def)
  have "pass_inv junk [] repair_init" by (simp add: pass_inv_def repair_init_def)
  from repair_compute_inv[OF ok this] obtain rp where
    rp: "repair_compute junk (- 1) analysis_init input = Inr rp" "pass_inv junk input rp"
    by (auto simp: repair_compute_def)
  have "length input \<le> sum_list (map (\<lambda>mo. length (mo_accesses mo)) input)"
    using sum_list_mono[of input "\<lambda>_. 1" "\<lambda>mo. length (mo_accesses mo)"] ok
    by (simp add: sum_list_triv input_ok_def Suc_le_eq)
  with rp total show thesis by (intro that) (auto simp: pass_inv_def)
qed

text \<open>An instruction that no allocation of the input has as its site is not in the table of sizes.\<close>

lemma no_malloc_entry:
  assumes "fst ` set ms \<subseteq> S" "pc \<notin> S"
  shows "map_of (malloc_changes ms) (pc_key pc) = None"
proof -
  have "(ucast f :: size_t) \<noteq> - 1" for f :: u16
  proof
    assume "(ucast f :: size_t) = - 1"
    then have "bit (ucast f :: size_t) 63" by simp
    then show False using bit_imp_le_length[of f 63] by (simp add: bit_ucast_iff)
  qed
  then have "malloc_key m \<noteq> pc_key pc" if "m \<in> S" for m
    using that assms(2) injD[OF pc_key_inj, of m pc] by (auto simp: malloc_key_def pc_key_def)
  with assms(1) have "\<forall>m \<in> set ms. malloc_key (fst m) \<noteq> pc_key pc" by blast
  then show ?thesis unfolding map_of_eq_None_iff malloc_changes_def by fastforce
qed

lemma loaded_lines:
  assumes "length (rp_all_fixed_mallocs rp) < 2 ^ 64" "length (rp_all_pcs_layout rp) < 2 ^ 64"
    and "\<forall>m \<in> set (rp_all_fixed_mallocs rp). small_malloc m"
    and "fst ` set (rp_all_fixed_mallocs rp) \<subseteq> S" "pc \<notin> S" "pc \<in> fst ` set (rp_all_pcs_layout rp)"
  obtains prof where "loadProfile (open_in (repair_print_result rp)) = Inr prof"
    "map_of prof (pc_key pc) = Some (pc_info_lines (sort (map snd (filter (\<lambda>p. fst p = pc) (rp_all_pcs_layout rp)))))"
proof (rule profile_loaded[OF assms(1-3)])
  fix prof
  assume load: "loadProfile (open_in (repair_print_result rp)) = Inr prof"
    and look: "\<And>k. map_of prof k = (case map_option pc_info_malloc (map_of (malloc_changes (rp_all_fixed_mallocs rp)) k) of
        Some w \<Rightarrow> Some w
      | None \<Rightarrow> map_of (map (\<lambda>g. (pc_key (fst g), pc_info_lines (sort (snd g)))) (group_by_pc (rp_all_pcs_layout rp))) k)"
  show thesis
    using that[OF load] look[of "pc_key pc"] by (simp add: no_malloc_entry[OF assms(4,5)] profile_lines assms(6))
qed

text \<open>The rank of a line among the printed ones does not depend on the order in which they were collected.\<close>

lemma printed_rank:
  fixes lay :: "(PC \<times> remap_line) list"
  shows "length (filter (\<lambda>l. l < ab) (map snd (filter (\<lambda>l. fst l = t) (sort (map snd (filter (\<lambda>p. fst p = pc) lay)))))) =
    length (filter (\<lambda>l. fst l = pc \<and> fst (snd l) = t \<and> snd (snd l) < ab) lay)"
proof -
  have "size (filter_mset (\<lambda>l. l < ab) (image_mset snd (filter_mset (\<lambda>l. fst l = t) (mset (sort (map snd (filter (\<lambda>p. fst p = pc) lay))))))) =
    size (filter_mset (\<lambda>l. fst l = pc \<and> fst (snd l) = t \<and> snd (snd l) < ab) (mset lay))"
    by (induction lay) auto
  then show ?thesis by (metis mset_filter mset_map size_mset)
qed

end
