(* ===== verification/PP_Main.thy ===== *)
theory PP_Main
  imports PP_Stream
begin

text \<open>
  The command line of the post-processor: \<^verbatim>\<open>postprocess/main.cpp\<close>, the constructors of the two passes and
  the files they write, with the summary of the detection pass. Files are a map from paths to contents.
\<close>

section \<open>The summary\<close>

text \<open>\<open>so\<close> gives the iteration orders of the two hash tables of a record.\<close>

record summary_order =
  so_threads :: "(u32 \<times> RW) list \<Rightarrow> (u32 \<times> RW) list"
  so_pcs :: "(PC \<times> RW) list \<Rightarrow> (PC \<times> RW) list"

definition hex :: "size_t \<Rightarrow> string" where
  "hex n = print_base 16 (unat n)"

fun comma_list :: "string list \<Rightarrow> string" where
  "comma_list [] = []"
| "comma_list [x] = x"
| "comma_list (x # xs) = x @ '', '' @ comma_list xs"

definition ar_print :: "summary_order \<Rightarrow> addr_record \<Rightarrow> string" where
  "ar_print so rec =
     (let p = cachelines rec;
          addr_start = ar_malloc_start rec + seg_start (ar_range rec);
          addr_end = ar_malloc_start rec + seg_end (ar_range rec);
          l = addr_start - push_bit 6 (fst p);
          r = addr_end - push_bit 6 (snd p)
      in (if fst p \<noteq> snd p then ''('' @ hex (fst p) @ ''+0x'' @ hex l @ '', '' @ hex (snd p) @ ''+0x'' @ hex r @ '');''
          else ''(0x'' @ hex l @ '', 0x'' @ hex r @ '');'') @
         ''m(0x'' @ hex (seg_start (ar_range rec)) @ '', 0x'' @ hex (seg_end (ar_range rec)) @ ''): '' @
         ''{'' @ comma_list (map (\<lambda>q. dec (unat (fst q)) @ '': '' @ rw_dump (snd q)) (so_threads so (ar_thread_rw rec))) @ ''}'' @
         ''  '' @
         ''{'' @ comma_list (map (\<lambda>q. pc_dump (fst q) @ '': '' @ rw_dump (snd q)) (so_pcs so (ar_pc_rw rec))) @ ''}'')"

definition graph_print :: "summary_order \<Rightarrow> graph \<Rightarrow> string" where
  "graph_print so g =
     ''>>>0x'' @ hex (g_clid g) @ ''('' @ dec (unat (g_estm_fs g)) @ '')<<<'' @ [newline] @
     concat (map (\<lambda>rec. ar_print so rec @ [newline]) (g_records g)) @ [newline]"

definition ms_print :: "summary_order \<Rightarrow> malloc_storage \<Rightarrow> string" where
  "ms_print so mst =
     ''================='' @ print_int (ms_m_id mst) @ ''('' @ dec (unat (ms_malloc_fs mst)) @ '')================'' @ [newline] @
     concat (map (graph_print so) (ms_graphs mst))"

section \<open>Arguments\<close>

text \<open>\<^verbatim>\<open>stoul\<close> and \<^verbatim>\<open>stoi\<close>: white space, a sign, and digits up to the first other character.\<close>

definition parse_number :: "string \<Rightarrow> string \<Rightarrow> (bool \<times> nat) result" where
  "parse_number who str =
     (let s = dropWhile is_space str;
          neg = (s \<noteq> [] \<and> hd s = CHR ''-'');
          s1 = (if s \<noteq> [] \<and> (hd s = CHR ''-'' \<or> hd s = CHR ''+'') then tl s else s);
          ds = takeWhile is_digit s1
      in if ds = [] then Inl (InvalidArgument who) else Inr (neg, dec_val ds))"

definition stoul :: "string \<Rightarrow> size_t result" where
  "stoul str = bindE (parse_number ''stoul'' str) (\<lambda>(neg, n).
     if n \<ge> 2 ^ 64 then Inl (Aborted ''out_of_range'') else Inr (if neg then - of_nat n else of_nat n))"

definition stoi :: "string \<Rightarrow> int result" where
  "stoi str = bindE (parse_number ''stoi'' str) (\<lambda>(neg, n).
     let v = (if neg then - int n else int n)
     in if v < - (2 ^ 31) \<or> v \<ge> 2 ^ 31 then Inl (Aborted ''out_of_range'') else Inr v)"

type_synonym files = "string \<Rightarrow> string option"

text \<open>What is fixed by the environment: the iteration orders and the value of an uninitialised variable.\<close>

record pp_env =
  pe_order :: hash_order
  pe_summary :: summary_order
  pe_junk :: size_t

section \<open>The passes\<close>

text \<open>
  A file has its new contents from the moment they are written. The streams of the statistics files stay open
  until the end of a run, so this is the behaviour of the program when their paths are not those of the
  result or of the analysis file.
\<close>

abbreviation summary_path :: "string \<Rightarrow> string" where
  "summary_path path \<equiv> insert_suffix path ''_summary''"

abbreviation rank_path :: "string \<Rightarrow> string" where
  "rank_path path \<equiv> insert_suffix path ''_fs_malloc''"

text \<open>The constructor and \<^verbatim>\<open>compute\<close> of \<^verbatim>\<open>DetectPass\<close>; the two statistics files are created first.\<close>

definition detect_new :: "string \<Rightarrow> string list \<Rightarrow> files \<Rightarrow> (size_t \<times> string \<times> string \<times> files) result" where
  "detect_new path rest fs =
     (let fs1 = fs(summary_path path \<mapsto> [], rank_path path \<mapsto> [])
      in bindE (guardE (length rest \<le> 2) (AssertFail ''rest.size() <= 2'')) (\<lambda>_.
         bindE (if rest \<noteq> [] then stoul (rest ! 0) else Inr 100) (\<lambda>threshold.
         let malloc_path = (if length rest = 2 then rest ! 1 else ''mallocRuntimeIDs.txt'')
         in case (fs path, fs1 malloc_path) of
              (Some log_file, Some malloc_file) \<Rightarrow> Inr (threshold, log_file, malloc_file, fs1)
            | _ \<Rightarrow> Inl (InvalidArgument (''Can't open file'' @ [newline])))))"

definition detect_run :: "pp_env \<Rightarrow> string \<Rightarrow> string list \<Rightarrow> files \<Rightarrow> ((int \<times> malloc_storage) list \<times> files) result" where
  "detect_run pe path rest fs =
     bindE (detect_new path rest fs) (\<lambda>(threshold, log_file, malloc_file, fs1).
     bindE (detect_compute (pe_order pe) threshold (getlines malloc_file) (getlines log_file)) (\<lambda>data.
       Inr (data, fs1(summary_path path \<mapsto> concat (map (\<lambda>p. ms_print (pe_summary pe) (snd p)) data),
                      rank_path path \<mapsto> fsr_print (detect_fs_rank data)))))"

text \<open>The options of \<^verbatim>\<open>RepairPass\<close>, and its two constructors. An analysis file that cannot be opened is an empty one.\<close>

definition repair_options :: "string list \<Rightarrow> files \<Rightarrow> malloc_output list result \<Rightarrow> (int \<times> malloc_output list \<times> analysis_result) result" where
  "repair_options rest fs input =
     bindE (guardE (length rest \<le> 2) (AssertFail ''rest.size() <= n_opt'')) (\<lambda>_.
     bindE (if rest = [] then Inr (- 1) else stoi (rest ! 0)) (\<lambda>target.
     bindE input (\<lambda>mos.
       Inr (target, mos,
            if length rest > 1 then (case fs (rest ! 1) of None \<Rightarrow> analysis_init | Some t \<Rightarrow> analysis_read (open_in t) analysis_init)
            else analysis_init))))"

definition repair_new_file :: "string \<Rightarrow> string list \<Rightarrow> files \<Rightarrow> (int \<times> malloc_output list \<times> analysis_result) result" where
  "repair_new_file path rest fs =
     repair_options rest fs (case fs path of None \<Rightarrow> Inl (InvalidArgument (''Can't open file'' @ [newline])) | Some t \<Rightarrow> repair_read (open_in t))"

definition repair_new_api :: "malloc_output list \<Rightarrow> string list \<Rightarrow> files \<Rightarrow> (int \<times> malloc_output list \<times> analysis_result) result" where
  "repair_new_api input rest fs = repair_options rest fs (Inr input)"

definition repair_run :: "pp_env \<Rightarrow> string \<Rightarrow> files \<Rightarrow> int \<times> malloc_output list \<times> analysis_result \<Rightarrow> files result" where
  "repair_run pe out fs pass =
     (case pass of (target, input, analysis) \<Rightarrow>
        bindE (repair_compute (pe_junk pe) target analysis input) (\<lambda>rp. Inr (fs(out \<mapsto> repair_print_result rp))))"

section \<open>The program\<close>

definition pp_main :: "pp_env \<Rightarrow> string list \<Rightarrow> files \<Rightarrow> files result" where
  "pp_main pe args fs =
     (if length args < 4 then Inl (Aborted ''exit(1)'')
      else let subcmd = args ! 1; path = args ! 2; out = args ! 3; opts = drop 4 args
           in if subcmd = ''detect'' then
                bindE (detect_run pe path opts fs) (\<lambda>(data, fs1). Inr (fs1(out \<mapsto> detect_print_result (pe_order pe) data)))
              else if subcmd = ''repair'' then
                bindE (repair_new_file path opts fs) (repair_run pe out fs)
              else if subcmd = ''all'' then
                let opt1 = min (length opts) 2; opt2 = min (length opts - opt1) 2
                in bindE (detect_run pe path (take opt1 opts) fs) (\<lambda>(data, fs1).
                   bindE (repair_new_api (detect_api_output (pe_order pe) data) (take opt2 (drop opt1 opts)) fs1) (repair_run pe out fs1))
              else Inl (Aborted ''exit(1)''))"

section \<open>One run and two runs\<close>

text \<open>The data of a detection run that fit the counts of the file format.\<close>

definition fits_file :: "malloc_output list \<Rightarrow> bool" where
  "fits_file mos \<longleftrightarrow> length mos < 2 ^ 64 \<and> (\<forall>mo \<in> set mos. length (mo_accesses mo) < 2 ^ 64)"

lemma repair_options_cong:
  assumes "length rest > 1 \<Longrightarrow> fs (rest ! 1) = fs' (rest ! 1)"
  shows "repair_options rest fs input = repair_options rest fs' input"
  using assms by (cases "length rest > 1") (simp_all add: repair_options_def)

lemma read_back:
  assumes "fits_file (detect_api_output ho data)"
  shows "repair_read (open_in (detect_print_result ho data)) = Inr (detect_api_output ho data)"
  using repair_read_print[of "detect_api_output ho data"] assms by (simp add: fits_file_def detect_print_result_def Let_def)

text \<open>
  \<^bold>\<open>C23.\<close> Running everything at once is running the two passes one after the other. If a detection run
  with the options \<open>opts1\<close> succeeds and its result fits the file format, then the repair run on the file
  it printed and the run of both passes on the log fail alike, or end with the same contents of every
  file but the one in between. The options of the first pass must be complete when the second has any,
  and the analysis file must not be one of the files the first pass writes, nor a result overwrite its statistics.
\<close>

theorem all_is_detect_then_repair:
  assumes "pp_main pe ([exe, ''detect'', log, mid] @ opts1) fs = Inr fs1"
    and "detect_run pe log opts1 fs = Inr (data, fs0)" "fits_file (detect_api_output (pe_order pe) data)"
    and "opts2 = [] \<or> length opts1 = 2" "length opts2 \<le> 2" "{mid, out} \<inter> {summary_path log, rank_path log} = {}"
    and "length opts2 = 2 \<Longrightarrow> opts2 ! 1 \<notin> {mid, summary_path log, rank_path log}"
  shows "map_sum id (\<lambda>f. f(mid := None)) (pp_main pe ([exe, ''all'', log, out] @ opts1 @ opts2) fs) =
    map_sum id (\<lambda>f. f(mid := None)) (pp_main pe ([exe, ''repair'', mid, out] @ opts2) fs1)"
proof -
  let ?api = "detect_api_output (pe_order pe) data"
  have fs1: "fs1 = fs0(mid \<mapsto> detect_print_result (pe_order pe) data)"
    using assms(1,2) by (simp add: pp_main_def Let_def)
  have l1: "length opts1 \<le> 2" using assms(2) by (auto simp: detect_run_def detect_new_def err_simps Let_def)
  have t: "take (min (length (opts1 @ opts2)) 2) (opts1 @ opts2) = opts1"
    "take (min (length (opts1 @ opts2) - min (length (opts1 @ opts2)) 2) 2) (drop (min (length (opts1 @ opts2)) 2) (opts1 @ opts2)) = opts2"
    using assms(4,5) l1 by (auto simp: min_def)
  have all: "pp_main pe ([exe, ''all'', log, out] @ opts1 @ opts2) fs = bindE (repair_options opts2 fs0 (Inr ?api)) (repair_run pe out fs0)"
    using assms(2) t by (simp add: pp_main_def Let_def repair_new_api_def)
  have "repair_new_file mid opts2 fs1 = repair_options opts2 fs1 (Inr ?api)"
    by (simp add: repair_new_file_def fs1 read_back[OF assms(3)])
  also have "\<dots> = repair_options opts2 fs0 (Inr ?api)"
    using assms(5,7) by (intro repair_options_cong) (simp add: fs1)
  finally have rep: "pp_main pe ([exe, ''repair'', mid, out] @ opts2) fs1 = bindE (repair_options opts2 fs0 (Inr ?api)) (repair_run pe out fs1)"
    by (simp add: pp_main_def Let_def)
  have "map_sum id (\<lambda>f. f(mid := None)) (repair_run pe out fs0 pass) = map_sum id (\<lambda>f. f(mid := None)) (repair_run pe out fs1 pass)" for pass
    by (cases "case pass of (target, input, analysis) \<Rightarrow> repair_compute (pe_junk pe) target analysis input")
      (auto simp: repair_run_def fs1 fun_eq_iff split: prod.splits)
  then show ?thesis unfolding all rep by (cases "repair_options opts2 fs0 (Inr ?api)") simp_all
qed

definition sample_env :: pp_env where
  "sample_env = \<lparr>pe_order = sample_order, pe_summary = \<lparr>so_threads = id, so_pcs = rev\<rparr>, pe_junk = 0\<rparr>"

text \<open>Two threads write neighbouring words of one allocation.\<close>

definition sample_log :: string where
  "sample_log = ''1,0x40,5,0,2,3,8,0,90'' @ [newline] @ ''2,0x48,5,8,2,4,8,0,90'' @ [newline]"

definition sample_mallocs :: string where
  "sample_mallocs = ''5,64,64,7,8'' @ [newline]"

definition sample_files :: files where
  "sample_files = [''run.log'' \<mapsto> sample_log, ''ids'' \<mapsto> sample_mallocs]"

definition sample_users :: "addr_record list" where
  "sample_users =
     [mk_addr_record (Segment 8 16) 5 64 [\<lparr>lr_addr = 72, lr_m_id = 5, lr_thread = 2, lr_size = 8, lr_pc = PC 2 4, lr_rw = RW 0 90\<rparr>],
      mk_addr_record (Segment 0 8) 5 64 [\<lparr>lr_addr = 64, lr_m_id = 5, lr_thread = 1, lr_size = 8, lr_pc = PC 2 3, lr_rw = RW 0 90\<rparr>]]"

definition sample_storage :: malloc_storage where
  "sample_storage = \<lparr>ms_records = sample_users, ms_graphs = [\<lparr>g_clid = 1, g_estm_fs = 90, g_records = rev sample_users\<rparr>],
     ms_minfo = \<lparr>mi_start = 64, mi_size = 64, mi_pc = PC 7 8, mi_id = 5\<rparr>, ms_malloc_fs = 90, ms_m_id = 5\<rparr>"

definition sample_found :: "(int \<times> malloc_storage) list" where
  "sample_found = [(5, sample_storage)]"

definition sample_after :: files where
  "sample_after = sample_files(''run_summary.log'' \<mapsto> concat (map (\<lambda>p. ms_print (pe_summary sample_env) (snd p)) sample_found),
     ''run_fs_malloc.log'' \<mapsto> fsr_print (detect_fs_rank sample_found))"

lemma sample_paths [simp]: "summary_path ''run.log'' = ''run_summary.log''" "rank_path ''run.log'' = ''run_fs_malloc.log''"
  by code_simp+

lemma sample_lines: "foldE push_cachelines sample_users [] = Inr [(1, sample_users)]"
  by code_simp

lemma sample_estimate: "estm_false_sharing sample_order (rev sample_users) = 90"
  by code_simp

lemma sample_sorted: "sort_key ar_range sample_users = rev sample_users" "sort_key ar_range (rev sample_users) = rev sample_users"
  by (simp_all add: sample_users_def mk_addr_record_def add_record_def less_eq_Segment_def seg_less_def)

lemma sample_graph: "mk_graph sample_order (1, rev sample_users) = \<lparr>g_clid = 1, g_estm_fs = 90, g_records = rev sample_users\<rparr>"
  by (simp add: mk_graph_def sample_estimate sample_sorted Let_def)

lemma sample_graphs:
  "calc_graphs sample_order 2 (sample_storage\<lparr>ms_graphs := [], ms_malloc_fs := 0\<rparr>) = Inr sample_storage"
  by (simp add: calc_graphs_def sample_storage_def sample_lines sample_sorted sample_graph)

definition sample_bucket :: "(Segment \<times> log_record list) list" where
  "sample_bucket =
     [(Segment 64 72, [\<lparr>lr_addr = 64, lr_m_id = 5, lr_thread = 1, lr_size = 8, lr_pc = PC 2 3, lr_rw = RW 0 90\<rparr>]),
      (Segment 72 80, [\<lparr>lr_addr = 72, lr_m_id = 5, lr_thread = 2, lr_size = 8, lr_pc = PC 2 4, lr_rw = RW 0 90\<rparr>])]"

lemma sample_read_mallocs: "foldE read_mallocs_step (getlines sample_mallocs) (malloc_info_init, []) =
    Inr (ms_minfo sample_storage, [(5, ms_minfo sample_storage)])"
  by code_simp

lemma sample_read_log: "map_sum id snd (foldE read_log_step (getlines sample_log) (log_record_init, [])) = Inr [(5, sample_bucket)]"
  by code_simp

lemma sample_records: "map (\<lambda>p. mk_addr_record (shift_by (fst p) 64 False) 5 64 (snd p)) (rev sample_bucket) = sample_users"
  by code_simp

lemma sample_build: "mk_malloc_storage sample_order 5 (ms_minfo sample_storage) sample_bucket 2 = Inr sample_storage"
  using sample_graphs sample_records by (simp add: mk_malloc_storage_def sample_storage_def sample_order_def)

lemma sample_valid: "ms_valid sample_storage"
  by (simp add: ms_valid_def sample_storage_def)

lemma sample_detect_compute: "detect_compute sample_order 2 (getlines sample_mallocs) (getlines sample_log) = Inr sample_found"
proof -
  obtain r where "foldE read_log_step (getlines sample_log) (log_record_init, []) = Inr (r, [(5, sample_bucket)])"
    using sample_read_log by (cases "foldE read_log_step (getlines sample_log) (log_record_init, [])") auto
  then show ?thesis
    by (simp add: detect_compute_def sample_read_mallocs analyse_malloc_def sample_build sample_found_def sample_valid smap_emplace_def)
qed

lemma sample_api: "detect_api_output sample_order sample_found =
    [\<lparr>mo_accesses = [(Segment 8 16, PC 2 4, 2), (Segment 0 8, PC 2 3, 1)], mo_pc = PC 7 8, mo_size = 64\<rparr>]"
  by code_simp

lemma sample_stoul: "stoul ''2'' = Inr 2"
  by (simp add: stoul_def parse_number_def is_space_def is_digit_def dec_val_def digit_val_def Let_def)

lemma sample_detect_run: "detect_run sample_env ''run.log'' [''2'', ''ids''] sample_files = Inr (sample_found, sample_after)"
proof -
  have "detect_new ''run.log'' [''2'', ''ids''] sample_files =
      Inr (2, sample_log, sample_mallocs, sample_files(''run_summary.log'' \<mapsto> [], ''run_fs_malloc.log'' \<mapsto> []))"
    by (simp add: detect_new_def guardE_def sample_stoul sample_files_def Let_def)
  then show ?thesis
    by (simp add: detect_run_def sample_env_def sample_detect_compute sample_after_def fun_eq_iff)
qed

lemma sample_detect_main:
  "pp_main sample_env ([''pp'', ''detect'', ''run.log'', ''mid''] @ [''2'', ''ids'']) sample_files =
     Inr (sample_after(''mid'' \<mapsto> detect_print_result sample_order sample_found))"
  using sample_detect_run by (simp add: pp_main_def Let_def sample_env_def)

lemma sample_env_order [simp]: "pe_order sample_env = sample_order"
  by (simp add: sample_env_def)

lemma sample_fits: "fits_file (detect_api_output sample_order sample_found)"
  by (simp add: fits_file_def sample_api)

theorem all_is_detect_then_repair_witness:
  "map_sum id (\<lambda>f. f(''mid'' := None))
     (pp_main sample_env [''pp'', ''all'', ''run.log'', ''new'', ''2'', ''ids'', ''4''] sample_files) =
   map_sum id (\<lambda>f. f(''mid'' := None))
     (pp_main sample_env [''pp'', ''repair'', ''mid'', ''new'', ''4'']
       (sample_after(''mid'' \<mapsto> detect_print_result sample_order sample_found)))"
  using all_is_detect_then_repair[OF sample_detect_main sample_detect_run, of "[''4'']" "''new''"] sample_fits
  by simp

end
