(* ===== verification/PP_Bins.thy ===== *)
theory PP_Bins
  imports PP_Detect
begin

text \<open>
  What the detection pass guarantees: every log record lands in exactly one bin, every range is
  examined on exactly the cache lines it touches, a line whose ranges are used by one set of
  threads or never written is estimated at zero, and the allocations handed on are those with a
  line at the threshold. It also states where the pass is not faithful to its input: a blank line
  repeats a record, equal estimates push each other out of the ranking, and an estimate depends
  on the order of a hash table.
\<close>

declare split_paired_All [simp del] split_paired_Ex [simp del]

section \<open>Bins\<close>

lemma fold_snoc_id: "fold (\<lambda>x ys. ys @ [x]) xs acc = acc @ xs"
  by (induction xs arbitrary: acc) auto

definition bin_of :: "bins \<Rightarrow> int \<Rightarrow> Segment \<Rightarrow> log_record list" where
  "bin_of b m k = (case map_of b m of None \<Rightarrow> [] | Some u \<Rightarrow> value_or [] (map_of u k))"

text \<open>
  No record is lost or moved in the binning: the bin of an allocation and a byte range holds
  exactly the log records of that allocation and range, in the order of the log.
\<close>

theorem detect_bins_exact:
  "bin_of (fold bin_record rs []) m k = filter (\<lambda>r. lr_m_id r = m \<and> record_key r = k) rs"
proof -
  have outer: "map_of (fold bin_record rs []) m =
      (if m \<in> lr_m_id ` set rs
       then Some (fold (\<lambda>r. umap_alter (record_key r) (\<lambda>xs. xs @ [r]) []) (filter (\<lambda>r. lr_m_id r = m) rs) [])
       else None)"
    using smap.lookup_fold_alter[of "[]" lr_m_id "\<lambda>r. umap_alter (record_key r) (\<lambda>xs. xs @ [r]) []" "[]" rs m]
    by (simp add: bin_record_def[abs_def])
  have inner: "value_or [] (map_of (fold (\<lambda>r. umap_alter (record_key r) (\<lambda>xs. xs @ [r]) []) ys []) k) =
      filter (\<lambda>r. record_key r = k) ys" for ys
  proof -
    have "filter (\<lambda>r. record_key r = k) ys = []" if "k \<notin> record_key ` set ys"
      using that by (auto simp: filter_empty_conv)
    then show ?thesis
      using umap.lookup_fold_alter[of "[]" record_key "\<lambda>r xs. xs @ [r]" "[]" ys k] by (simp add: fold_snoc_id)
  qed
  have "filter (\<lambda>r. lr_m_id r = m \<and> record_key r = k) rs = []" if "m \<notin> lr_m_id ` set rs"
    using that by (auto simp: filter_empty_conv)
  then show ?thesis by (simp add: bin_of_def outer inner conj_commute)
qed

section \<open>Cache lines\<close>

definition rec_fits :: "addr_record \<Rightarrow> bool" where
  "rec_fits rec \<longleftrightarrow> seg_wf (ar_range rec) \<and> unat (ar_malloc_start rec) + unat (seg_end (ar_range rec)) < 2 ^ 64"

definition touches :: "addr_record \<Rightarrow> size_t \<Rightarrow> bool" where
  "touches rec i \<longleftrightarrow> (\<exists>x \<in> seg_bytes (ar_range rec). drop_bit 6 (ar_malloc_start rec + x) = i)"

lemma cachelines_touches:
  assumes "rec_fits rec" "cachelines rec = (lo, hi)"
  shows "lo \<le> hi" "touches rec i \<longleftrightarrow> lo \<le> i \<and> i \<le> hi" "hi < 2 ^ 58"
proof -
  let ?m = "unat (ar_malloc_start rec)" and ?s = "unat (seg_start (ar_range rec))" and ?e = "unat (seg_end (ar_range rec))"
  have lt: "?s < ?e" "?m + ?e < 2 ^ 64" using assms(1) by (auto simp: rec_fits_def seg_wf_def word_less_nat_alt)
  have add: "unat (ar_malloc_start rec + w) = ?m + unat w" if "unat w \<le> ?e" for w
    using that lt(2) by (intro unat_plus_fits) simp
  have lo: "unat lo = (?m + ?s) div 64"
    using assms(2) add[of "seg_start (ar_range rec)"] lt by (auto simp: cachelines_def Let_def unat_drop_bit)
  have "unat (ar_malloc_start rec + seg_end (ar_range rec) - 1) = ?m + ?e - 1"
  proof -
    have e: "unat (ar_malloc_start rec + seg_end (ar_range rec)) = ?m + ?e" by (rule add) simp
    moreover have "1 \<le> ar_malloc_start rec + seg_end (ar_range rec)"
      using e lt(1) by (simp add: word_le_nat_alt)
    ultimately show ?thesis by (simp add: unat_sub)
  qed
  then have hi: "unat hi = (?m + ?e - 1) div 64"
    using assms(2) by (auto simp: cachelines_def Let_def unat_drop_bit)
  show "lo \<le> hi" using lt(1) by (simp add: word_le_nat_alt lo hi div_le_mono)
  show "hi < 2 ^ 58" using lt(2) by (simp add: word_less_nat_alt hi)
  show "touches rec i \<longleftrightarrow> lo \<le> i \<and> i \<le> hi"
  proof
    assume "touches rec i"
    then obtain x where x: "x \<in> seg_bytes (ar_range rec)" "drop_bit 6 (ar_malloc_start rec + x) = i"
      by (auto simp: touches_def)
    then have ux: "?s \<le> unat x" "unat x < ?e" by (auto simp: seg_bytes_def word_le_nat_alt word_less_nat_alt)
    then have "unat i = (?m + unat x) div 64" using x(2) add[of x] by (auto simp: unat_drop_bit)
    with ux show "lo \<le> i \<and> i \<le> hi" by (auto simp: word_le_nat_alt lo hi intro!: div_le_mono)
  next
    assume i: "lo \<le> i \<and> i \<le> hi"
    then have ui: "(?m + ?s) div 64 \<le> unat i" "unat i \<le> (?m + ?e - 1) div 64" by (auto simp: word_le_nat_alt lo hi)
    define n where "n = max (?m + ?s) (unat i * 64) - ?m"
    have n: "?s \<le> n" "n < ?e" "(?m + n) div 64 = unat i"
      using ui lt(1) by (auto simp: n_def max_def)
    have un: "unat (word_of_nat n :: size_t) = n" using n(2) lt(2) by (simp add: unat_of_nat)
    then have "word_of_nat n \<in> seg_bytes (ar_range rec)"
      using n by (auto simp: seg_bytes_def word_le_nat_alt word_less_nat_alt)
    moreover have "drop_bit 6 (ar_malloc_start rec + word_of_nat n) = i"
      using n un add[of "word_of_nat n"] by (simp add: word_unat_eq_iff unat_drop_bit)
    ultimately show "touches rec i" unfolding touches_def by blast
  qed
qed

lemma size_range_set: "hi < 2 ^ 58 \<Longrightarrow> distinct (size_range lo hi) \<and> set (size_range lo hi) = {lo .. hi}"
proof
  assume hi: "hi < 2 ^ 58"
  have un: "unat (word_of_nat n :: size_t) = n" if "n < Suc (unat hi)" for n
    using that hi by (simp add: unat_of_nat word_less_nat_alt)
  show "distinct (size_range lo hi)"
    unfolding size_range_def distinct_map inj_on_def using un by (metis atLeastLessThan_iff distinct_upt set_upt)
  show "set (size_range lo hi) = {lo .. hi}"
  proof (intro equalityI subsetI)
    fix i assume "i \<in> {lo .. hi}"
    then show "i \<in> set (size_range lo hi)"
      unfolding size_range_def by (intro image_eqI[of _ _ "unat i", THEN subsetD[OF eq_refl, OF set_map[symmetric]]])
        (auto simp: word_le_nat_alt)
  qed (auto simp: size_range_def word_le_nat_alt un)
qed

lemma fold_alter_each:
  "smap_ok m \<Longrightarrow> distinct ks \<Longrightarrow>
   smap_ok (fold (\<lambda>i. smap_alter i (\<lambda>xs. xs @ [x]) []) ks m) \<and>
   value_or [] (map_of (fold (\<lambda>i. smap_alter i (\<lambda>xs. xs @ [x]) []) ks m) k) =
     value_or [] (map_of m k) @ (if k \<in> set ks then [x] else [])"
proof (induction ks arbitrary: m)
  case (Cons i ks)
  then show ?case
    using Cons.IH[of "smap_alter i (\<lambda>xs. xs @ [x]) [] m"] by (auto simp: smap_ok_alter map_of_smap_alter)
qed simp

text \<open>
  Every range is examined on exactly the cache lines it touches: after distributing the
  records, the list of a line holds, in order, the records with a byte on that line, and the
  assertion on the line numbers never fails.
\<close>

theorem detect_lines_exact:
  assumes "\<forall>rec \<in> set records. rec_fits rec"
  shows "\<exists>cls. foldE push_cachelines records [] = Inr cls \<and>
    (\<forall>i. value_or [] (map_of cls i) = filter (\<lambda>rec. touches rec i) records)"
proof -
  have "\<exists>cls. foldE push_cachelines records m = Inr cls \<and>
    (\<forall>i. value_or [] (map_of cls i) = value_or [] (map_of m i) @ filter (\<lambda>rec. touches rec i) records)"
    if "smap_ok m" for m
    using that assms
  proof (induction records arbitrary: m)
    case (Cons rec records)
    obtain lo hi where cl: "cachelines rec = (lo, hi)" by (cases "cachelines rec")
    have fits: "rec_fits rec" using Cons.prems by simp
    note t = cachelines_touches[OF fits cl]
    let ?m = "fold (\<lambda>i. smap_alter i (\<lambda>rs. rs @ [rec]) []) (size_range lo hi) m"
    have "push_cachelines rec m = Inr ?m" using t(1) by (simp add: push_cachelines_def cl)
    moreover have "smap_ok ?m" and "value_or [] (map_of ?m i) = value_or [] (map_of m i) @ (if touches rec i then [rec] else [])" for i
      using fold_alter_each[OF Cons.prems(1), of "size_range lo hi" rec i] size_range_set[OF t(3), of lo] t(2)[of i]
      by auto
    ultimately show ?case using Cons.IH[of ?m] Cons.prems(2) by auto
  qed simp
  from this[of "[]"] show ?thesis by simp
qed

section \<open>Estimates\<close>

lemma get_total_rw_sum: "get_total_rw rs = sum_list (map (\<lambda>rec. sum_list (map snd (ar_thread_rw rec))) rs)"
proof -
  have inner: "fold (\<lambda>p ret. rw_plus ret (snd p)) ps ret = ret + sum_list (map snd ps)" for ps :: "(u32 \<times> RW) list" and ret
    by (induction ps arbitrary: ret) (simp_all add: plus_RW_def[symmetric] add.assoc)
  have "fold (\<lambda>rec ret. fold (\<lambda>p ret. rw_plus ret (snd p)) (ar_thread_rw rec) ret) rs ret =
      ret + sum_list (map (\<lambda>rec. sum_list (map snd (ar_thread_rw rec))) rs)" for ret
    by (induction rs arbitrary: ret) (simp_all add: inner add.assoc)
  then show ?thesis by (simp add: get_total_rw_def zero_RW_def[symmetric])
qed

lemma sum_list_RW_w: "rw_w (sum_list xs) = sum_list (map rw_w xs)"
  by (induction xs) simp_all

lemma sum_list_zero: "\<forall>x \<in> set xs. f x = 0 \<Longrightarrow> sum_list (map f xs) = (0 :: u32)"
  by (induction xs) auto

lemma distinct_singleton: "distinct xs \<Longrightarrow> set xs \<subseteq> {a} \<Longrightarrow> length xs \<le> 1"
  by (cases xs; cases "tl xs") auto

lemma group_records:
  assumes "mset (ho_groups ho g) = mset g" "g = fold (\<lambda>rec. umap_alter (get_thread_ids rec) (\<lambda>rs. rs @ [rec]) []) v []"
    and "gg \<in> set (thread_groups ho v)"
  shows "set (gg_records gg) \<subseteq> set v" "\<forall>rec \<in> set (gg_records gg). get_thread_ids rec = gg_threads gg"
proof -
  have ok: "umap_ok g"
    unfolding assms(2) by (rule umap.ok_fold_alter) simp
  obtain p where p: "p \<in> set (ho_groups ho g)" "gg = \<lparr>gg_threads = fst p, gg_records = snd p\<rparr>"
    using assms(3) unfolding thread_groups_def Let_def assms(2)[symmetric] by auto
  have "p \<in> set g" using p(1) assms(1) by (metis set_mset_mset)
  then have "map_of g (fst p) = Some (snd p)" using ok by (simp add: umap_ok_def)
  moreover have "map_of g (fst p) = (if fst p \<in> get_thread_ids ` set v
      then Some (filter (\<lambda>rec. get_thread_ids rec = fst p) v) else None)"
    unfolding assms(2) using umap.lookup_fold_alter[of "[]" get_thread_ids "\<lambda>rec rs. rs @ [rec]" "[]" v "fst p"]
    by (simp add: fold_snoc_id)
  ultimately have "snd p = filter (\<lambda>rec. get_thread_ids rec = fst p) v" by (simp split: if_splits)
  with p(2) show "set (gg_records gg) \<subseteq> set v" "\<forall>rec \<in> set (gg_records gg). get_thread_ids rec = gg_threads gg" by auto
qed

lemma estm_loop_zero:
  "(\<And>gi gj. gi \<in> set gs \<Longrightarrow> gj \<in> set gs \<Longrightarrow> rhs_rw_suffer_from_lhs gi gj = 0) \<Longrightarrow> estm_loop acc gs = acc"
proof (induction gs arbitrary: acc)
  case (Cons gi gs)
  have "fold (\<lambda>gj m. max m (max (rhs_rw_suffer_from_lhs gi gj) (rhs_rw_suffer_from_lhs gj gi))) hs 0 = 0"
    if "set hs \<subseteq> set gs" for hs
    using that Cons.prems by (induction hs) auto
  with Cons show ?case by simp
qed simp

text \<open>
  \<^bold>\<open>C39.\<close> What cannot be false sharing is estimated at zero, whatever the order of the hash tables: a
  line whose ranges are all used by the same set of threads, and a line nobody writes.
\<close>

theorem detect_no_false_alarm:
  assumes "\<And>g. mset (ho_groups ho g) = mset g"
    and "(\<forall>a \<in> set v. \<forall>b \<in> set v. get_thread_ids a = get_thread_ids b) \<or>
      (\<forall>a \<in> set v. \<forall>p \<in> set (ar_thread_rw a). rw_w (snd p) = 0)"
  shows "estm_false_sharing ho v = 0"
  using assms(2)
proof
  assume same: "\<forall>a \<in> set v. \<forall>b \<in> set v. get_thread_ids a = get_thread_ids b"
  let ?g = "fold (\<lambda>rec. umap_alter (get_thread_ids rec) (\<lambda>rs. rs @ [rec]) []) v []"
  have d: "distinct (map fst ?g)"
    using umap.ok_fold_alter[of "[]" get_thread_ids "\<lambda>rec rs. rs @ [rec]" "[]" v] by (simp add: umap_ok_def)
  have sub: "set (map fst ?g) \<subseteq> {get_thread_ids (hd v)}"
  proof
    fix k assume "k \<in> set (map fst ?g)"
    then have "map_of ?g k \<noteq> None" by (simp add: map_of_eq_None_iff)
    then have "k \<in> get_thread_ids ` set v"
      using umap.lookup_fold_alter[of "[]" get_thread_ids "\<lambda>rec rs. rs @ [rec]" "[]" v k] by (simp split: if_splits)
    then obtain rec where "rec \<in> set v" "k = get_thread_ids rec" by blast
    moreover from this have "hd v \<in> set v" by (cases v) auto
    ultimately show "k \<in> {get_thread_ids (hd v)}" using same by blast
  qed
  have "length ?g \<le> 1" using distinct_singleton[OF d sub] by simp
  moreover have "length (ho_groups ho ?g) = length ?g" using assms(1)[of ?g] by (rule mset_eq_length)
  ultimately have "length (thread_groups ho v) \<le> 1" by (simp add: thread_groups_def Let_def)
  then show ?thesis by (cases "thread_groups ho v") (simp_all add: estm_false_sharing_def)
next
  assume ro: "\<forall>a \<in> set v. \<forall>p \<in> set (ar_thread_rw a). rw_w (snd p) = 0"
  have "rhs_rw_suffer_from_lhs gi gj = 0" if gi: "gi \<in> set (thread_groups ho v)" for gi gj
  proof -
    have "set (gg_records gi) \<subseteq> set v" using group_records(1)[OF assms(1) refl gi] .
    then have "\<forall>rec \<in> set (gg_records gi). rw_w (sum_list (map snd (ar_thread_rw rec))) = 0"
      using ro by (auto simp: sum_list_RW_w comp_def intro!: sum_list_zero)
    then have "rw_w (get_total_rw (gg_records gi)) = 0"
      unfolding get_total_rw_sum by (simp only: sum_list_RW_w map_map comp_def sum_list_zero)
    then show ?thesis by (simp add: rhs_rw_suffer_from_lhs_def)
  qed
  then show ?thesis by (simp add: estm_false_sharing_def estm_loop_zero)
qed

section \<open>Where the pass departs from its input\<close>

text \<open>
  A blank line in the log is not skipped: the loop bins the record of the line before it once
  more, as if that line were repeated.
\<close>

theorem detect_blank_line_repeats:
  assumes "l \<noteq> []"
  shows "foldE read_log_step (l # [] # ls) st = foldE read_log_step (l # l # ls) st"
proof -
  have same: "read_record l r = read_record l r'" for r r'
    using assms by (simp add: read_record_def)
  show ?thesis
  proof (cases "read_record l (fst st)")
    case (Inr r)
    then have "read_record l r = Inr r" using same by metis
    with Inr show ?thesis by (simp add: read_log_step_def) (simp add: read_record_def)
  qed (simp add: read_log_step_def)
qed

text \<open>
  The ranking keeps one allocation per estimate: it has as many lines as there are different
  estimates, so of several allocations with equal estimates all but the first are dropped.
\<close>

theorem fs_rank_drops_ties:
  "length (detect_fs_rank data) = card ((\<lambda>p. ms_malloc_fs (snd p)) ` set data) \<and>
   (\<forall>fs. map_of (detect_fs_rank data) fs = map_of (map (\<lambda>p. (ms_malloc_fs (snd p), fst p)) data) fs)"
proof -
  let ?key = "\<lambda>p :: int \<times> malloc_storage. ms_malloc_fs (snd p)"
  have gen: "smap_ok m \<Longrightarrow> smap_ok (fold (\<lambda>p. fsr_emplace (?key p) (fst p)) data m) \<and>
      map_of (fold (\<lambda>p. fsr_emplace (?key p) (fst p)) data m) = map_of (map (\<lambda>p. (?key p, fst p)) data) ++ map_of m" for m
  proof (induction data arbitrary: m)
    case (Cons p data)
    then have "map_of (smap_emplace (?key p) (fst p) m) = (map_of m)(?key p \<mapsto> value_or (fst p) (map_of m (?key p)))"
      by simp
    with Cons.IH[of "smap_emplace (?key p) (fst p) m"] Cons.prems show ?case
      by (auto simp: fsr_emplace_def map_add_def fun_eq_iff split: option.splits)
  qed simp
  have ok: "smap_ok (detect_fs_rank data)"
    and look: "map_of (detect_fs_rank data) = map_of (map (\<lambda>p. (?key p, fst p)) data)"
    using gen[of "[]"] by (simp_all add: detect_fs_rank_def)
  have "fst ` set (detect_fs_rank data) = ?key ` set data"
    using arg_cong[OF look, of dom] by (simp add: dom_map_of_conv_image_fst image_image)
  then have "length (detect_fs_rank data) = card (?key ` set data)"
    using smap_ok_distinct[OF ok] by (metis distinct_card length_map list.set_map)
  with look show ?thesis by simp
qed

text \<open>One writer and two readers of different counts on one line.\<close>

definition line_user :: "u16 \<Rightarrow> u32 \<Rightarrow> u32 \<Rightarrow> size_t \<Rightarrow> addr_record" where
  "line_user t r w off = mk_addr_record (Segment off (off + 8)) 0 4096
     [\<lparr>lr_addr = 4096 + off, lr_m_id = 0, lr_thread = t, lr_size = 8, lr_pc = PC 1 t, lr_rw = RW r w\<rparr>]"

definition sample_line :: "addr_record list" where
  "sample_line = [line_user 1 0 5 0, line_user 2 5 0 8, line_user 3 4 0 16]"

definition order_by :: "((bool list \<times> addr_record list) list \<Rightarrow> (bool list \<times> addr_record list) list) \<Rightarrow> hash_order" where
  "order_by f = \<lparr>ho_bucket = id, ho_groups = f, ho_pc_threads = id\<rparr>"

text \<open>
  The estimate is not a function of the accesses alone: it only compares a group with the
  groups behind it, so for one and the same line two iteration orders of the hash table give
  different estimates.
\<close>

theorem estimate_depends_on_order:
  "estm_false_sharing (order_by id) sample_line = 5 \<and> estm_false_sharing (order_by rev) sample_line = 9"
  by code_simp

section \<open>Witnesses\<close>

theorem detect_lines_exact_witness:
  "\<exists>cls. foldE push_cachelines sample_line [] = Inr cls \<and>
    (\<forall>i. value_or [] (map_of cls i) = filter (\<lambda>rec. touches rec i) sample_line)"
  by (rule detect_lines_exact) (auto simp: sample_line_def line_user_def rec_fits_def mk_addr_record_def add_record_def seg_wf_def)

theorem detect_no_false_alarm_witness: "estm_false_sharing (order_by rev) [line_user 2 5 0 8, line_user 3 4 0 16] = 0"
proof (rule detect_no_false_alarm)
  show "(\<forall>a \<in> set [line_user 2 5 0 8, line_user 3 4 0 16]. \<forall>b \<in> set [line_user 2 5 0 8, line_user 3 4 0 16].
      get_thread_ids a = get_thread_ids b) \<or>
    (\<forall>a \<in> set [line_user 2 5 0 8, line_user 3 4 0 16]. \<forall>p \<in> set (ar_thread_rw a). rw_w (snd p) = 0)"
    by code_simp
qed (simp add: order_by_def)

theorem detect_blank_line_repeats_witness:
  "foldE read_log_step [''1,0x10,-1,-1,2,3,8,0,1'', [], ''2,0x10,-1,-1,2,3,8,0,1''] (log_record_init, []) =
   foldE read_log_step [''1,0x10,-1,-1,2,3,8,0,1'', ''1,0x10,-1,-1,2,3,8,0,1'', ''2,0x10,-1,-1,2,3,8,0,1''] (log_record_init, [])"
  by (rule detect_blank_line_repeats) simp

end
