(* ===== verification/RT_MallocInfo.thy ===== *)
theory RT_MallocInfo
  imports PP_Detect
begin

text \<open>
  The allocation table of the runtime, \<^verbatim>\<open>runtime/Segment.h\<close> and \<^verbatim>\<open>runtime/MallocInfo.h\<close>: the live
  blocks ordered by address, every allocation ever made grouped by backtrace, and the address
  interval that answers quickly whether an address can be on the heap. The lock of the table is
  the subject of \<^verbatim>\<open>RT_SpinLock\<close>.
\<close>

section \<open>Address intervals\<close>

record addr_seg =
  as_start :: size_t
  as_end :: size_t

definition aseg :: "size_t \<Rightarrow> size_t \<Rightarrow> addr_seg" where
  "aseg s e = \<lparr>as_start = s, as_end = e\<rparr>"

definition aseg_insert :: "addr_seg \<Rightarrow> addr_seg \<Rightarrow> addr_seg" where
  "aseg_insert rhs seg = aseg (min (as_start seg) (as_start rhs)) (max (as_end seg) (as_end rhs))"

definition aseg_shrink :: "addr_seg \<Rightarrow> addr_seg \<Rightarrow> addr_seg" where
  "aseg_shrink rhs seg =
     (if as_start rhs \<le> as_start seg \<and> as_end rhs > as_start seg then seg\<lparr>as_start := as_end rhs\<rparr>
      else if as_start rhs < as_end seg \<and> as_end rhs \<ge> as_start seg then seg\<lparr>as_end := as_start rhs\<rparr>
      else seg)"

definition aseg_contain :: "addr_seg \<Rightarrow> size_t \<Rightarrow> bool" where
  "aseg_contain seg v \<longleftrightarrow> as_start seg \<le> v \<and> v < as_end seg"

definition aseg_size :: "addr_seg \<Rightarrow> size_t" where
  "aseg_size seg = as_end seg - as_start seg"

section \<open>The table\<close>

type_synonym backtrace = "size_t list"

record per_addr =
  pa_id :: size_t
  pa_size :: size_t

record per_bt =
  pb_addr :: size_t
  pb_id :: size_t
  pb_size :: size_t
  pb_func :: size_t
  pb_inst :: size_t

record malloc_table =
  mt_alive :: "(size_t \<times> per_addr) list"
  mt_total :: "(backtrace \<times> per_bt list) list"
  mt_heap :: addr_seg
  mt_id :: size_t

definition mt_init :: malloc_table where
  "mt_init = \<lparr>mt_alive = [], mt_total = [], mt_heap = aseg (not 0) 0, mt_id = 0\<rparr>"

text \<open>\<open>bt\<close> is what \<^verbatim>\<open>backtrace\<close> returns at the call.\<close>

definition mt_insert :: "backtrace \<Rightarrow> size_t \<Rightarrow> size_t \<Rightarrow> size_t \<Rightarrow> size_t \<Rightarrow> malloc_table \<Rightarrow> malloc_table" where
  "mt_insert bt start sz func_id inst_id mt =
     \<lparr>mt_alive = smap_put start \<lparr>pa_id = mt_id mt, pa_size = sz\<rparr> (mt_alive mt),
      mt_total = umap_alter bt (\<lambda>ps. ps @ [\<lparr>pb_addr = start, pb_id = mt_id mt, pb_size = sz,
                                             pb_func = func_id, pb_inst = inst_id\<rparr>]) [] (mt_total mt),
      mt_heap = aseg_insert (aseg start (start + sz)) (mt_heap mt),
      mt_id = mt_id mt + 1\<rparr>"

definition mt_erase :: "size_t \<Rightarrow> malloc_table \<Rightarrow> bool \<times> malloc_table" where
  "mt_erase addr mt =
     (case map_of (mt_alive mt) addr of
        None \<Rightarrow> (False, mt)
      | Some pa \<Rightarrow> (True, mt\<lparr>mt_alive := smap_erase addr (mt_alive mt),
                            mt_heap := aseg_shrink (aseg addr (addr + pa_size pa)) (mt_heap mt)\<rparr>))"

definition mt_contain :: "malloc_table \<Rightarrow> size_t \<Rightarrow> bool" where
  "mt_contain mt addr = aseg_contain (mt_heap mt) addr"

definition find_id_offset :: "malloc_table \<Rightarrow> size_t \<Rightarrow> (size_t \<times> size_t) option" where
  "find_id_offset mt addr =
     (case smap_floor (mt_alive mt) addr of
        None \<Rightarrow> None
      | Some (start, pa) \<Rightarrow> if start + pa_size pa > addr then Some (pa_id pa, addr - start) else None)"

definition per_bt_line :: "per_bt \<Rightarrow> string" where
  "per_bt_line p = csv_join (CHR '','')
     [dec (unat (pb_id p)), dec (unat (pb_addr p)), dec (unat (pb_size p)), dec (unat (pb_func p)), dec (unat (pb_inst p))]"

text \<open>\<^verbatim>\<open>dump\<close>: \<open>order\<close> is the iteration order of the hash table of backtraces.\<close>

definition mt_records :: "((backtrace \<times> per_bt list) list \<Rightarrow> (backtrace \<times> per_bt list) list) \<Rightarrow> malloc_table \<Rightarrow> per_bt list" where
  "mt_records order mt = concat (map snd (order (mt_total mt)))"

definition global_line :: "addr_seg \<Rightarrow> string" where
  "global_line glob = csv_join (CHR '','')
     [''-1'', dec (unat (as_start glob)), dec (unat (aseg_size glob)), ''-1'', ''-1'']"

definition mt_dump ::
  "((backtrace \<times> per_bt list) list \<Rightarrow> (backtrace \<times> per_bt list) list) \<Rightarrow> addr_seg \<Rightarrow> malloc_table \<Rightarrow> string" where
  "mt_dump order glob mt =
     concat (map (\<lambda>l. l @ [newline]) (global_line glob # map per_bt_line (mt_records order mt)))"

section \<open>Live blocks\<close>

text \<open>A block does not wrap around the address space.\<close>

definition block_fits :: "size_t \<Rightarrow> size_t \<Rightarrow> bool" where
  "block_fits start sz \<longleftrightarrow> unat start + unat sz < 2 ^ 64"

definition block_bytes :: "size_t \<Rightarrow> size_t \<Rightarrow> size_t set" where
  "block_bytes start sz = {start ..< start + sz}"

text \<open>
  The invariant: keys in order, live blocks that end before the next one starts, identifiers
  below the counter, every live block listed under some backtrace, and no two records with one
  identifier.
\<close>

definition all_records :: "malloc_table \<Rightarrow> per_bt list" where
  "all_records mt = concat (map snd (mt_total mt))"

definition mt_wf :: "malloc_table \<Rightarrow> bool" where
  "mt_wf mt \<longleftrightarrow>
     smap_ok (mt_alive mt) \<and>
     (\<forall>k pa. map_of (mt_alive mt) k = Some pa \<longrightarrow> block_fits k (pa_size pa) \<and>
        (\<exists>p \<in> set (all_records mt). pb_addr p = k \<and> pb_id p = pa_id pa \<and> pb_size p = pa_size pa)) \<and>
     (\<forall>k pa k' pa'. map_of (mt_alive mt) k = Some pa \<longrightarrow> map_of (mt_alive mt) k' = Some pa' \<longrightarrow>
        k < k' \<longrightarrow> k + pa_size pa \<le> k') \<and>
     distinct (map pb_id (all_records mt)) \<and>
     (\<forall>p \<in> set (all_records mt). pb_id p < mt_id mt)"

text \<open>What the allocator guarantees of a new block: it fits and meets no live block.\<close>

definition fresh_block :: "malloc_table \<Rightarrow> size_t \<Rightarrow> size_t \<Rightarrow> bool" where
  "fresh_block mt start sz \<longleftrightarrow> block_fits start sz \<and>
     (\<forall>k pa. map_of (mt_alive mt) k = Some pa \<longrightarrow>
        k + pa_size pa \<le> start \<and> k \<noteq> start \<or> start + sz \<le> k \<and> k \<noteq> start)"

lemma block_fits_mono: "block_fits s n \<Longrightarrow> s \<le> s + n"
  by (simp add: block_fits_def word_le_nat_alt unat_word_ariths)

lemma mt_init_wf: "mt_wf mt_init"
  by (simp add: mt_wf_def mt_init_def all_records_def)

lemma all_records_insert:
  "mset (all_records (mt_insert bt s n f i mt)) =
     add_mset \<lparr>pb_addr = s, pb_id = mt_id mt, pb_size = n, pb_func = f, pb_inst = i\<rparr> (mset (all_records mt))"
  for mt :: malloc_table
proof -
  have "mset (concat (map snd (umap_alter k (\<lambda>ps. ps @ [x]) [] m))) = add_mset x (mset (concat (map snd m)))"
    for k :: backtrace and x :: per_bt and m
    by (induction m) auto
  then show ?thesis by (simp add: all_records_def mt_insert_def)
qed

lemma set_all_records_insert:
  "set (all_records (mt_insert bt s n f i mt)) =
     insert \<lparr>pb_addr = s, pb_id = mt_id mt, pb_size = n, pb_func = f, pb_inst = i\<rparr> (set (all_records mt))"
  for mt :: malloc_table
  using arg_cong[OF all_records_insert, of set_mset] by simp

lemma mt_insert_wf:
  fixes mt :: malloc_table
  assumes "mt_wf mt" "fresh_block mt s n" "mt_id mt \<noteq> - 1"
  shows "mt_wf (mt_insert bt s n f i mt)"
proof -
  let ?mt = "mt_insert bt s n f i mt"
  have ok: "smap_ok (mt_alive mt)" using assms(1) by (simp add: mt_wf_def)
  have alive: "map_of (mt_alive ?mt) = (map_of (mt_alive mt))(s \<mapsto> \<lparr>pa_id = mt_id mt, pa_size = n\<rparr>)"
    using ok by (simp add: mt_insert_def)
  have lt: "mt_id mt < mt_id mt + 1" using assms(3) by (rule word_less_Suc)
  have ids: "distinct (map pb_id (all_records ?mt))"
  proof -
    have "mset (map pb_id (all_records ?mt)) = mset (mt_id mt # map pb_id (all_records mt))"
      using arg_cong[OF all_records_insert[of bt s n f i mt], of "image_mset pb_id"] by simp
    moreover have "distinct (mt_id mt # map pb_id (all_records mt))"
      using assms(1) by (auto simp: mt_wf_def)
    ultimately show ?thesis by (metis mset_eq_imp_distinct_iff)
  qed
  show ?thesis
    unfolding mt_wf_def
  proof (intro conjI)
    show "smap_ok (mt_alive ?mt)" using ok by (simp add: mt_insert_def)
    show "\<forall>k pa. map_of (mt_alive ?mt) k = Some pa \<longrightarrow> block_fits k (pa_size pa) \<and>
        (\<exists>p \<in> set (all_records ?mt). pb_addr p = k \<and> pb_id p = pa_id pa \<and> pb_size p = pa_size pa)"
      using assms(1,2) unfolding alive set_all_records_insert by (auto simp: mt_wf_def fresh_block_def)
    show "\<forall>k pa k' pa'. map_of (mt_alive ?mt) k = Some pa \<longrightarrow> map_of (mt_alive ?mt) k' = Some pa' \<longrightarrow>
        k < k' \<longrightarrow> k + pa_size pa \<le> k'"
    proof (intro allI impI)
      fix k pa k' pa'
      assume a: "map_of (mt_alive ?mt) k = Some pa" "map_of (mt_alive ?mt) k' = Some pa'" "k < k'"
      consider "k \<noteq> s" "k' \<noteq> s" | "k = s" "k' \<noteq> s" | "k \<noteq> s" "k' = s" using a(3) by auto
      then show "k + pa_size pa \<le> k'"
      proof cases
        case 1
        then show ?thesis using a assms(1) unfolding alive mt_wf_def by auto
      next
        case 2
        then have "map_of (mt_alive mt) k' = Some pa'" "pa_size pa = n" using a unfolding alive by auto
        moreover from this have "k' \<le> k' + pa_size pa'" using assms(1) by (auto simp: mt_wf_def intro: block_fits_mono)
        ultimately show ?thesis using assms(2) a(3) 2 by (fastforce simp: fresh_block_def)
      next
        case 3
        then have "map_of (mt_alive mt) k = Some pa" using a unfolding alive by auto
        moreover have "s \<le> s + n" using assms(2) by (auto simp: fresh_block_def intro: block_fits_mono)
        ultimately show ?thesis using assms(2) a(3) 3 by (fastforce simp: fresh_block_def)
      qed
    qed
    show "distinct (map pb_id (all_records ?mt))" by (rule ids)
    show "\<forall>p \<in> set (all_records ?mt). pb_id p < mt_id ?mt"
      using assms(1) lt unfolding set_all_records_insert
      by (auto simp: mt_wf_def mt_insert_def intro: less_trans)
  qed
qed

lemma mt_erase_wf: "mt_wf mt \<Longrightarrow> mt_wf (snd (mt_erase a mt))" for mt :: malloc_table
  unfolding mt_erase_def
  by (cases "map_of (mt_alive mt) a") (auto simp: mt_wf_def all_records_def)

lemma mt_erase_alive:
  "map_of (mt_alive (snd (mt_erase a mt))) = (map_of (mt_alive mt))(a := None)"
  "fst (mt_erase a mt) \<longleftrightarrow> map_of (mt_alive mt) a \<noteq> None"
  for mt :: malloc_table
  by (auto simp: mt_erase_def fun_eq_iff split: option.splits)

section \<open>Lookups\<close>

lemma find_id_offset_iff:
  fixes mt :: malloc_table
  assumes "mt_wf mt"
  shows "find_id_offset mt a = Some (i, off) \<longleftrightarrow>
    (\<exists>k pa. map_of (mt_alive mt) k = Some pa \<and> a \<in> block_bytes k (pa_size pa) \<and> i = pa_id pa \<and> off = a - k)"
    (is "?L \<longleftrightarrow> ?R")
proof
  have ok: "smap_ok (mt_alive mt)" using assms by (simp add: mt_wf_def)
  {
    assume ?L
    then obtain k pa where f: "smap_floor (mt_alive mt) a = Some (k, pa)" "a < k + pa_size pa" "i = pa_id pa" "off = a - k"
      by (auto simp: find_id_offset_def split: option.splits if_splits)
    then show ?R using smap_floor_iff[OF ok, of a k pa] by (auto simp: block_bytes_def)
  next
    assume ?R
    then obtain k pa where r: "map_of (mt_alive mt) k = Some pa" "a \<in> block_bytes k (pa_size pa)" "i = pa_id pa" "off = a - k"
      by blast
    have "smap_floor (mt_alive mt) a = Some (k, pa)"
      using assms r(1,2) by (intro smap.floor_in_interval[OF ok, where hi = "\<lambda>k pa. k + pa_size pa"])
        (auto simp: mt_wf_def block_bytes_def)
    then show ?L using r by (simp add: find_id_offset_def block_bytes_def)
  }
qed

text \<open>The interval covers every live block.\<close>

definition mt_covers :: "malloc_table \<Rightarrow> bool" where
  "mt_covers mt \<longleftrightarrow>
     (\<forall>k pa a. map_of (mt_alive mt) k = Some pa \<longrightarrow> a \<in> block_bytes k (pa_size pa) \<longrightarrow> mt_contain mt a)"

lemma mt_insert_covers:
  fixes mt :: malloc_table
  assumes "mt_wf mt" "mt_covers mt"
  shows "mt_covers (mt_insert bt s n f i mt)"
proof -
  have "smap_ok (mt_alive mt)" using assms(1) by (simp add: mt_wf_def)
  then have alive: "map_of (mt_alive (mt_insert bt s n f i mt)) =
      (map_of (mt_alive mt))(s \<mapsto> \<lparr>pa_id = mt_id mt, pa_size = n\<rparr>)"
    by (simp add: mt_insert_def)
  have grow: "mt_contain (mt_insert bt s n f i mt) a" if "mt_contain mt a \<or> a \<in> block_bytes s n" for a
    using that by (auto simp: mt_contain_def aseg_contain_def mt_insert_def aseg_insert_def aseg_def block_bytes_def
        min_le_iff_disj less_max_iff_disj)
  show ?thesis
    unfolding mt_covers_def alive using assms(2) grow by (auto simp: mt_covers_def split: if_splits)
qed

section \<open>The dump is what the detection pass reads\<close>

lemma dec_no_comma: "CHR '','' \<notin> set (dec n)" "newline \<notin> set (dec n)"
  using dec_digits[of n] by (auto simp: is_digit_def)

definition malloc_info_of :: "per_bt \<Rightarrow> malloc_info" where
  "malloc_info_of p = \<lparr>mi_start = pb_addr p, mi_size = pb_size p,
     mi_pc = PC (ucast (pb_func p)) (ucast (pb_inst p)), mi_id = int (unat (pb_id p))\<rparr>"

definition global_info :: "addr_seg \<Rightarrow> malloc_info" where
  "global_info g = \<lparr>mi_start = as_start g, mi_size = aseg_size g, mi_pc = pc_null, mi_id = - 1\<rparr>"

lemma word_of_unat: "(word_of_nat (unat w) :: 'b::len word) = ucast w" for w :: "'a::len word"
  by simp

lemma read_csv_join:
  "fs \<noteq> [] \<Longrightarrow> (\<forall>f \<in> set fs. CHR '','' \<notin> set f) \<Longrightarrow> n = length fs \<Longrightarrow>
   read_csv_line n (CHR '','') (csv_join (CHR '','') fs) = Inr fs"
  by (simp add: read_csv_line_split split_on_csv_join)

lemma csv_join_Cons2: "csv_join d (f # g # fs) \<noteq> []"
  by simp

lemma read_per_bt_line:
  assumes "pb_id p < 2 ^ 31" "pb_func p < 2 ^ 31"
  shows "read_malloc (per_bt_line p) m = Inr (malloc_info_of p)"
proof -
  have "unat (pb_id p) < 2 ^ 31" "unat (pb_func p) < 2 ^ 31"
    using assms by (auto simp: word_less_nat_alt)
  then show ?thesis
    unfolding read_malloc_def per_bt_line_def
    by (simp add: read_csv_join dec_no_comma to_signed_dec to_unsigned_dec malloc_info_of_def csv_join_Cons2
        del: csv_join.simps)
qed

lemma read_global_line: "read_malloc (global_line g) m = Inr (global_info g)"
proof -
  have "dec 1 = ''1''" by code_simp
  then have "to_signed ''-1'' = Inr (- 1)" using to_signed_neg_dec[of 1] by simp
  then show ?thesis
    unfolding read_malloc_def global_line_def
    by (simp add: read_csv_join dec_no_comma to_unsigned_dec global_info_def csv_join_Cons2 del: csv_join.simps)
qed

lemma foldE_read_mallocs:
  assumes "\<forall>p \<in> set ps. pb_id p < 2 ^ 31 \<and> pb_func p < 2 ^ 31" "smap_ok tbl"
  shows "\<exists>m tbl'. foldE read_mallocs_step (map per_bt_line ps) (m0, tbl) = Inr (m, tbl') \<and>
    smap_ok tbl' \<and> map_of tbl' = foldl (\<lambda>f p. f(mi_id (malloc_info_of p) \<mapsto> malloc_info_of p)) (map_of tbl) ps"
  using assms
proof (induction ps arbitrary: m0 tbl)
  case (Cons p ps)
  then have "read_mallocs_step (per_bt_line p) (m0, tbl) =
      Inr (malloc_info_of p, smap_put (mi_id (malloc_info_of p)) (malloc_info_of p) tbl)"
    by (simp add: read_mallocs_step_def read_per_bt_line)
  then show ?case
    using Cons.IH[of "smap_put (mi_id (malloc_info_of p)) (malloc_info_of p) tbl" "malloc_info_of p"] Cons.prems
    by simp
qed simp

lemma foldl_upd_lookup:
  "distinct (map key ps) \<Longrightarrow> p \<in> set ps \<Longrightarrow> foldl (\<lambda>f p. f(key p \<mapsto> val p)) m ps (key p) = Some (val p)"
proof (induction ps rule: rev_induct)
  case (snoc q ps)
  show ?case
  proof (cases "p = q")
    case False
    then have "p \<in> set ps" using snoc.prems by simp
    moreover from this have "key p \<in> key ` set ps" by (rule imageI)
    then have "key p \<noteq> key q" using snoc.prems by auto
    ultimately show ?thesis using snoc by simp
  qed simp
qed simp

lemma foldl_upd_other:
  "k \<notin> key ` set ps \<Longrightarrow> foldl (\<lambda>f p. f(key p \<mapsto> val p)) m ps k = m k"
  by (induction ps rule: rev_induct) auto

section \<open>Properties of the table\<close>

datatype mt_op = MtAlloc backtrace size_t size_t size_t size_t | MtFree size_t

fun mt_step :: "mt_op \<Rightarrow> malloc_table \<Rightarrow> malloc_table" where
  "mt_step (MtAlloc bt s n f i) mt = mt_insert bt s n f i mt"
| "mt_step (MtFree a) mt = snd (mt_erase a mt)"

fun mt_allowed :: "mt_op \<Rightarrow> malloc_table \<Rightarrow> bool" where
  "mt_allowed (MtAlloc bt s n f i) mt \<longleftrightarrow> fresh_block mt s n \<and> mt_id mt \<noteq> - 1"
| "mt_allowed (MtFree a) mt \<longleftrightarrow> True"

fun mt_run_ok :: "mt_op list \<Rightarrow> malloc_table \<Rightarrow> bool" where
  "mt_run_ok [] mt = True"
| "mt_run_ok (x # xs) mt = (mt_allowed x mt \<and> mt_run_ok xs (mt_step x mt))"

lemma mt_run_wf: "mt_wf mt \<Longrightarrow> mt_run_ok xs mt \<Longrightarrow> mt_wf (fold mt_step xs mt)"
proof (induction xs arbitrary: mt)
  case (Cons x xs)
  then show ?case by (cases x) (auto intro: mt_insert_wf mt_erase_wf)
qed simp

text \<open>
  The blocks that are live by the history of calls alone: how many allocations there were, and of each
  live block its start, the number of the call that allocated it, and its size. The allocator hands out
  blocks that fit and meet no live block; numbers stay below the width of the counter.
\<close>

type_synonym live_blocks = "nat \<times> (size_t \<times> nat \<times> size_t) list"

fun live_step :: "mt_op \<Rightarrow> live_blocks \<Rightarrow> live_blocks" where
  "live_step (MtAlloc bt s n f i) (c, bs) = (c + 1, (s, c, n) # bs)"
| "live_step (MtFree a) (c, bs) = (c, filter (\<lambda>b. fst b \<noteq> a) bs)"

fun call_ok :: "mt_op \<Rightarrow> live_blocks \<Rightarrow> bool" where
  "call_ok (MtAlloc bt s n f i) (c, bs) \<longleftrightarrow> block_fits s n \<and> c + 1 < 2 ^ 64 \<and>
     (\<forall>(k, j, m) \<in> set bs. k \<noteq> s \<and> (k + m \<le> s \<or> s + n \<le> k))"
| "call_ok (MtFree a) st \<longleftrightarrow> True"

fun history_ok :: "mt_op list \<Rightarrow> live_blocks \<Rightarrow> bool" where
  "history_ok [] st = True"
| "history_ok (x # xs) st = (call_ok x st \<and> history_ok xs (live_step x st))"

abbreviation live_entry :: "size_t \<times> nat \<times> size_t \<Rightarrow> size_t \<times> per_addr" where
  "live_entry b \<equiv> (fst b, \<lparr>pa_id = word_of_nat (fst (snd b)), pa_size = snd (snd b)\<rparr>)"

text \<open>The table holds the live blocks of the history.\<close>

definition tracks :: "live_blocks \<Rightarrow> malloc_table \<Rightarrow> bool" where
  "tracks st mt \<longleftrightarrow> mt_wf mt \<and> distinct (map fst (snd st)) \<and> map_of (mt_alive mt) = map_of (map live_entry (snd st)) \<and>
     mt_id mt = word_of_nat (fst st) \<and> fst st < 2 ^ 64"

lemma map_of_live_filter:
  "map_of (map live_entry (filter (\<lambda>b. fst b \<noteq> a) bs)) = (map_of (map live_entry bs))(a := None)"
  by (rule ext) (induction bs, auto)

lemma map_of_live_iff:
  "distinct (map fst bs) \<Longrightarrow>
   map_of (map live_entry bs) k = Some pa \<longleftrightarrow> (\<exists>j n. (k, j, n) \<in> set bs \<and> pa = \<lparr>pa_id = word_of_nat j, pa_size = n\<rparr>)"
  by (subst map_of_eq_Some_iff) (force simp: comp_def image_iff)+

lemma tracks_step:
  assumes "tracks st mt" "call_ok x st"
  shows "tracks (live_step x st) (mt_step x mt)"
proof (cases x)
  case (MtAlloc bt s n f i)
  obtain c bs where st: "st = (c, bs)" by (cases st)
  note t = assms(1)[unfolded st tracks_def fst_conv snd_conv]
  have new: "block_fits s n" "c + 1 < 2 ^ 64" "\<And>k j m. (k, j, m) \<in> set bs \<Longrightarrow> k \<noteq> s \<and> (k + m \<le> s \<or> s + n \<le> k)"
    using assms(2) by (auto simp: st MtAlloc)
  have "k + pa_size pa \<le> s \<and> k \<noteq> s \<or> s + n \<le> k \<and> k \<noteq> s" if k: "map_of (mt_alive mt) k = Some pa" for k pa
  proof -
    obtain j where "(k, j, pa_size pa) \<in> set bs" using k t by (auto simp: map_of_live_iff)
    from new(3)[OF this] show ?thesis by blast
  qed
  then have fresh: "fresh_block mt s n" using new(1) by (simp add: fresh_block_def)
  have "unat (mt_id mt) = c" using t by (simp add: unsigned_of_nat take_bit_nat_eq_self)
  moreover have "unat (- 1 :: size_t) = 2 ^ 64 - 1" by (simp add: unsigned_minus_1_eq_mask mask_eq_exp_minus_1)
  ultimately have "mt_id mt \<noteq> - 1" using new(2) by (metis add_diff_cancel_right' less_diff_conv less_irrefl)
  with fresh have "mt_wf (mt_step x mt)" using t by (simp add: MtAlloc mt_insert_wf)
  moreover have "map_of (mt_alive (mt_step x mt)) = (map_of (mt_alive mt))(s \<mapsto> \<lparr>pa_id = mt_id mt, pa_size = n\<rparr>)"
    using t by (simp add: MtAlloc mt_insert_def mt_wf_def)
  moreover have "s \<notin> fst ` set bs" using new(3) by force
  ultimately show ?thesis using t new(2) by (simp add: tracks_def MtAlloc st mt_insert_def add.commute)
next
  case (MtFree a)
  obtain c bs where st: "st = (c, bs)" by (cases st)
  note t = assms(1)[unfolded st tracks_def fst_conv snd_conv]
  have "mt_id (snd (mt_erase a mt)) = mt_id mt" by (simp add: mt_erase_def split: option.split)
  moreover have "distinct (map fst (filter (\<lambda>b. fst b \<noteq> a) bs))" using t by (auto simp: distinct_map inj_on_def)
  ultimately show ?thesis using t by (simp add: tracks_def MtFree st mt_erase_wf mt_erase_alive map_of_live_filter)
qed

lemma tracks_run: "tracks st mt \<Longrightarrow> history_ok xs st \<Longrightarrow> tracks (fold live_step xs st) (fold mt_step xs mt)"
proof (induction xs arbitrary: st mt)
  case (Cons x xs)
  then show ?case using tracks_step[of st mt x] by simp
qed simp

lemma tracks_init: "tracks (0, []) mt_init"
  by (simp add: tracks_def mt_init_wf) (simp add: mt_init_def)

text \<open>
  \<^bold>\<open>C24.\<close> The table answers correctly. After any sequence of allocations and frees of an allocator
  that never hands out overlapping live blocks, the lookup of an address returns the number of the
  allocation whose block contains it and was not freed since, with the offset in the block, and
  nothing when there is none. Which blocks are live is read off the sequence of calls.
\<close>

theorem table_lookup_correct:
  assumes "history_ok ops (0, [])"
  shows "find_id_offset (fold mt_step ops mt_init) a = Some (i, off) \<longleftrightarrow>
    (\<exists>s j n. (s, j, n) \<in> set (snd (fold live_step ops (0, []))) \<and>
      a \<in> block_bytes s n \<and> i = word_of_nat j \<and> off = a - s)"
proof -
  note t = tracks_run[OF tracks_init assms, unfolded tracks_def]
  have "mt_wf (fold mt_step ops mt_init)" and d: "distinct (map fst (snd (fold live_step ops (0, []))))"
    and m: "map_of (mt_alive (fold mt_step ops mt_init)) = map_of (map live_entry (snd (fold live_step ops (0, []))))" using t by blast+
  then show ?thesis unfolding find_id_offset_iff[OF \<open>mt_wf _\<close>] m map_of_live_iff[OF d] by force
qed

text \<open>
  The quick heap test forgets live memory. When a block between two live blocks is freed,
  \<^verbatim>\<open>Segment::shrink\<close> cuts the interval at that block: the upper block is still in the table, but its
  addresses no longer pass the test, so accesses to it are not logged any more.
\<close>

theorem heap_shrink_forgets:
  fixes mt :: malloc_table
  assumes "mt_wf mt" "mt_covers mt"
    and "map_of (mt_alive mt) a = Some pa" "0 < pa_size pa"
    and "map_of (mt_alive mt) b = Some pb" "0 < pa_size pb"
    and "map_of (mt_alive mt) c = Some pc" "0 < pa_size pc" "a < b" "b < c"
  shows "find_id_offset (snd (mt_erase b mt)) c = Some (pa_id pc, 0) \<and> \<not> mt_contain (snd (mt_erase b mt)) c"
proof
  let ?mt = "snd (mt_erase b mt)"
  have first: "k \<in> block_bytes k (pa_size p)" if "map_of (mt_alive mt) k = Some p" "0 < pa_size p" for k p
  proof -
    have "unat k + unat (pa_size p) < 2 ^ 64" using that(1) assms(1) by (auto simp: mt_wf_def block_fits_def)
    then have "unat (k + pa_size p) = unat k + unat (pa_size p)" by (simp add: unat_plus_fits)
    then show ?thesis using that(2) by (simp add: block_bytes_def word_less_nat_alt)
  qed
  have "map_of (mt_alive ?mt) c = Some pc" using assms(7,10) by (simp add: mt_erase_alive)
  moreover have "mt_wf ?mt" using assms(1) by (rule mt_erase_wf)
  ultimately show "find_id_offset ?mt c = Some (pa_id pc, 0)"
    using find_id_offset_iff[of ?mt c "pa_id pc" 0] first[OF assms(7,8)] by auto
  have "as_start (mt_heap mt) \<le> a" "c < as_end (mt_heap mt)"
    using assms(2) first[OF assms(3,4)] first[OF assms(7,8)] assms(3,7)
    by (auto simp: mt_covers_def mt_contain_def aseg_contain_def)
  moreover have "b \<le> b + pa_size pb" using assms(1,5) by (auto simp: mt_wf_def intro: block_fits_mono)
  ultimately have "aseg_shrink (aseg b (b + pa_size pb)) (mt_heap mt) = mt_heap mt\<lparr>as_end := b\<rparr>"
    using assms(9,10) by (auto simp: aseg_shrink_def aseg_def)
  then show "\<not> mt_contain ?mt c"
    using assms(5) less_not_sym[OF assms(10)] by (simp add: mt_erase_def mt_contain_def aseg_contain_def)
qed

text \<open>
  What the runtime dumps, the detection pass reads back. From the dumped text the pass
  rebuilds a table with the global segment under -1 and every recorded allocation under its
  identifier, with the program counter cut to 16 bits each.
\<close>

theorem malloc_dump_roundtrip:
  fixes mt :: malloc_table
  assumes "mt_wf mt" "mset (order (mt_total mt)) = mset (mt_total mt)"
    and "\<forall>p \<in> set (all_records mt). pb_id p < 2 ^ 31 \<and> pb_func p < 2 ^ 31"
  shows "\<exists>m tbl. foldE read_mallocs_step (getlines (mt_dump order glob mt)) (malloc_info_init, []) = Inr (m, tbl) \<and>
    map_of tbl (- 1) = Some (global_info glob) \<and>
    (\<forall>p \<in> set (all_records mt). map_of tbl (int (unat (pb_id p))) = Some (malloc_info_of p))"
proof -
  let ?ps = "mt_records order mt"
  have same: "mset ?ps = mset (all_records mt)"
  proof -
    have "mset (concat (map snd xs)) = sum_mset (image_mset (\<lambda>p. mset (snd p)) (mset xs))"
      for xs :: "(backtrace \<times> per_bt list) list"
      by (induction xs) simp_all
    then show ?thesis unfolding mt_records_def all_records_def by (simp only: assms(2))
  qed
  then have set: "set ?ps = set (all_records mt)" by (metis set_mset_mset)
  have "newline \<notin> set (csv_join (CHR '','') fs)" if "\<forall>f \<in> set fs. newline \<notin> set f" for fs
    using that by (induction "CHR '',''" fs rule: csv_join.induct) auto
  then have lines: "getlines (mt_dump order glob mt) = global_line glob # map per_bt_line ?ps"
    unfolding mt_dump_def by (intro getlines_concat) (auto simp: global_line_def per_bt_line_def dec_no_comma simp del: csv_join.simps)
  have "read_mallocs_step (global_line glob) (malloc_info_init, []) = Inr (global_info glob, smap_put (- 1) (global_info glob) [])"
    by (simp add: read_mallocs_step_def read_global_line) (simp add: global_info_def)
  moreover obtain m tbl where run: "foldE read_mallocs_step (map per_bt_line ?ps)
      (global_info glob, smap_put (- 1) (global_info glob) []) = Inr (m, tbl)"
    and tbl: "map_of tbl = foldl (\<lambda>f p. f(mi_id (malloc_info_of p) \<mapsto> malloc_info_of p))
      (map_of (smap_put (- 1) (global_info glob) [])) ?ps"
    using foldE_read_mallocs[of ?ps "smap_put (- 1) (global_info glob) []" "global_info glob"] assms(3) set by auto
  moreover have "map_of tbl (- 1) = Some (global_info glob)"
    unfolding tbl by (subst foldl_upd_other) (auto simp: malloc_info_of_def)
  moreover have "map_of tbl (int (unat (pb_id p))) = Some (malloc_info_of p)" if p: "p \<in> set (all_records mt)" for p
  proof -
    have "distinct (map pb_id ?ps)"
      using assms(1) same unfolding mt_wf_def by (metis mset_map mset_eq_imp_distinct_iff)
    then have "distinct (map (\<lambda>p. mi_id (malloc_info_of p)) ?ps)"
      by (auto simp: malloc_info_of_def distinct_map inj_on_def word_uint_eq_iff)
    from foldl_upd_lookup[OF this, of p] p set show ?thesis
      unfolding tbl by (simp add: malloc_info_of_def)
  qed
  ultimately show ?thesis by (auto simp: lines)
qed

section \<open>The properties on a concrete heap\<close>

definition sample_ops :: "mt_op list" where
  "sample_ops = [MtAlloc [7] 4096 256 1 2, MtAlloc [7] 8192 256 1 3, MtAlloc [9] 12288 64 2 5]"

definition sample_heap :: malloc_table where
  "sample_heap = fold mt_step sample_ops mt_init"

lemma sample_alive:
  "mt_alive sample_heap = [(4096, \<lparr>pa_id = 0, pa_size = 256\<rparr>), (8192, \<lparr>pa_id = 1, pa_size = 256\<rparr>),
     (12288, \<lparr>pa_id = 2, pa_size = 64\<rparr>)]"
  by code_simp

lemma sample_run_ok: "mt_run_ok sample_ops mt_init"
  by (simp add: sample_ops_def fresh_block_def block_fits_def mt_init_def mt_insert_def smap_put_def)

lemma mt_init_covers: "mt_covers mt_init"
  by (simp add: mt_covers_def mt_init_def)

lemma sample_wf: "mt_wf sample_heap" and sample_covers: "mt_covers sample_heap"
proof -
  show wf: "mt_wf sample_heap"
    unfolding sample_heap_def by (rule mt_run_wf[OF mt_init_wf sample_run_ok])
  have steps: "mt_wf mt \<Longrightarrow> mt_covers mt \<Longrightarrow> mt_run_ok xs mt \<Longrightarrow> \<forall>x \<in> set xs. \<exists>bt s n f i. x = MtAlloc bt s n f i \<Longrightarrow>
      mt_covers (fold mt_step xs mt)" for xs mt
  proof (induction xs arbitrary: mt)
    case (Cons x xs)
    then show ?case by (cases x) (auto intro: mt_insert_wf mt_insert_covers)
  qed simp
  show "mt_covers sample_heap"
    unfolding sample_heap_def
    by (rule steps[OF mt_init_wf mt_init_covers sample_run_ok]) (simp add: sample_ops_def)
qed

text \<open>The first block is freed, and its place is given out again.\<close>

definition sample_history :: "mt_op list" where
  "sample_history = sample_ops @ [MtFree 4096, MtAlloc [7] 4096 64 1 2]"

theorem table_lookup_correct_witness:
  "find_id_offset (fold mt_step sample_history mt_init) 4100 = Some (3, 4) \<and>
   find_id_offset (fold mt_step sample_history mt_init) 8200 = Some (1, 8) \<and>
   find_id_offset (fold mt_step sample_history mt_init) 4200 = None"
proof -
  have ok: "history_ok sample_history (0, [])" by (simp add: sample_history_def sample_ops_def block_fits_def)
  have live: "snd (fold live_step sample_history (0, [])) = [(4096, 3, 64), (12288, 2, 64), (8192, 1, 256)]" by code_simp
  note c = table_lookup_correct[OF ok, unfolded live]
  have "find_id_offset (fold mt_step sample_history mt_init) 4200 \<noteq> Some (i, off)" for i off
    unfolding c by (auto simp: block_bytes_def)
  then have "find_id_offset (fold mt_step sample_history mt_init) 4200 = None" by (metis not_Some_eq surj_pair)
  then show ?thesis by (simp add: c) (auto simp: block_bytes_def)
qed

theorem heap_shrink_forgets_witness:
  "find_id_offset (snd (mt_erase 8192 sample_heap)) 12288 = Some (2, 0) \<and>
   \<not> mt_contain (snd (mt_erase 8192 sample_heap)) 12288"
  using heap_shrink_forgets[OF sample_wf sample_covers, of 4096 _ 8192 _ 12288] sample_alive by simp

theorem malloc_dump_roundtrip_witness:
  "\<exists>m tbl. foldE read_mallocs_step (getlines (mt_dump rev (aseg 100 200) sample_heap)) (malloc_info_init, []) = Inr (m, tbl) \<and>
    map_of tbl (- 1) = Some (global_info (aseg 100 200)) \<and>
    (\<forall>p \<in> set (all_records sample_heap). map_of tbl (int (unat (pb_id p))) = Some (malloc_info_of p))"
proof -
  have "\<forall>p \<in> set (all_records sample_heap). pb_id p < 2 ^ 31 \<and> pb_func p < 2 ^ 31"
    by code_simp
  then show ?thesis by (intro malloc_dump_roundtrip[OF sample_wf]) simp_all
qed

end
