(* ===== verification/RT_Logging.thy ===== *)
theory RT_Logging
  imports RT_MallocInfo
begin

text \<open>
  The per-thread access log of the runtime, \<^verbatim>\<open>runtime/LoggingThread.h\<close> and
  \<^verbatim>\<open>runtime/LoggingThread.cpp\<close>, and the thread registry of \<^verbatim>\<open>runtime/xthread.h\<close>. The file of a thread
  is the list of the lines written to it; \<open>loc_line\<close> gives their text.
\<close>

section \<open>Records\<close>

record loc_record =
  lo_addr :: size_t
  lo_func_id :: u32
  lo_inst_id :: u32
  lo_size :: u16
  lo_is_heap :: bool
  lo_m_id :: u32
  lo_m_offset :: u32

definition loc_heap :: "size_t \<Rightarrow> u32 \<Rightarrow> u32 \<Rightarrow> u16 \<Rightarrow> u32 \<Rightarrow> u32 \<Rightarrow> loc_record" where
  "loc_heap addr func_id inst_id sz m_id m_size =
     \<lparr>lo_addr = addr, lo_func_id = func_id, lo_inst_id = inst_id, lo_size = sz,
      lo_is_heap = True, lo_m_id = m_id, lo_m_offset = m_size\<rparr>"

definition loc_global :: "size_t \<Rightarrow> u32 \<Rightarrow> u32 \<Rightarrow> u16 \<Rightarrow> loc_record" where
  "loc_global addr func_id inst_id sz =
     \<lparr>lo_addr = addr, lo_func_id = func_id, lo_inst_id = inst_id, lo_size = sz,
      lo_is_heap = False, lo_m_id = 0, lo_m_offset = 0\<rparr>"

definition loc_fields :: "nat \<Rightarrow> loc_record \<Rightarrow> u32 \<Rightarrow> u32 \<Rightarrow> string list" where
  "loc_fields index l r w =
     [dec index, print_ptr (lo_addr l),
      if lo_is_heap l then dec (unat (lo_m_id l)) else ''-1'',
      if lo_is_heap l then dec (unat (lo_m_offset l)) else ''-1'',
      dec (unat (lo_func_id l)), dec (unat (lo_inst_id l)), dec (unat (lo_size l)), dec (unat r), dec (unat w)]"

text \<open>\<^verbatim>\<open>dump\<close>, without the line end.\<close>

definition loc_line :: "nat \<Rightarrow> loc_record \<Rightarrow> u32 \<Rightarrow> u32 \<Rightarrow> string" where
  "loc_line index l r w = csv_join (CHR '','') (loc_fields index l r w)"

definition loc_eq :: "loc_record \<Rightarrow> loc_record \<Rightarrow> bool" where
  "loc_eq a b \<longleftrightarrow> lo_addr a = lo_addr b \<and> lo_func_id a = lo_func_id b \<and> lo_inst_id a = lo_inst_id b"

text \<open>The hash combines all seven fields, the equality compares three. \<open>h\<close> is \<^verbatim>\<open>std::hash\<close>.\<close>

definition loc_hash :: "(u64 \<Rightarrow> size_t) \<Rightarrow> loc_record \<Rightarrow> size_t" where
  "loc_hash h k = fold (\<lambda>v seed. hash_combine h seed v)
     [lo_addr k, ucast (lo_func_id k), ucast (lo_inst_id k), ucast (lo_size k),
      (if lo_is_heap k then 1 else 0), ucast (lo_m_id k), ucast (lo_m_offset k)] 0"

text \<open>A lookup in the buffer finds an entry with the same hash code and an equal key.\<close>

definition loc_match :: "(u64 \<Rightarrow> size_t) \<Rightarrow> loc_record \<Rightarrow> loc_record \<Rightarrow> bool" where
  "loc_match h a b \<longleftrightarrow> loc_hash h a = loc_hash h b \<and> loc_eq a b"

section \<open>A thread\<close>

type_synonym log_entry = "loc_record \<times> u32 \<times> u32"

definition LOG_SIZE :: nat where
  "LOG_SIZE = 2 ^ 16"

record thread =
  th_outputBuf :: "log_entry list"
  th_buffer_f :: "log_entry list option"
  th_writing :: bool
  th_index :: nat
  th_hooks :: bool

fun buf_bump :: "(u64 \<Rightarrow> size_t) \<Rightarrow> loc_record \<Rightarrow> bool \<Rightarrow> log_entry list \<Rightarrow> log_entry list" where
  "buf_bump h rw is_write [] = [(rw, if is_write then (0, 1) else (1, 0))]"
| "buf_bump h rw is_write ((l, a, b) # buf) =
     (if loc_match h l rw then (l, if is_write then (a, b + 1) else (a + 1, b)) # buf
      else (l, a, b) # buf_bump h rw is_write buf)"

text \<open>\<open>order\<close> is the iteration order of the buffer; writing to a stream that is not open is undefined.\<close>

definition flush_log :: "(log_entry list \<Rightarrow> log_entry list) \<Rightarrow> thread \<Rightarrow> thread result" where
  "flush_log order th =
     (if th_outputBuf th = [] then Inr th
      else case th_buffer_f th of
        None \<Rightarrow> Inl (Undefined ''fprintf on a null stream'')
      | Some file \<Rightarrow> Inr (th\<lparr>th_buffer_f := Some (file @ order (th_outputBuf th)), th_outputBuf := []\<rparr>))"

text \<open>
  \<^verbatim>\<open>if (!writing)\<close> tests the pointer to the flag, which the constructor sets, so the test never
  returns early.
\<close>

definition log_load_store ::
  "(log_entry list \<Rightarrow> log_entry list) \<Rightarrow> (u64 \<Rightarrow> size_t) \<Rightarrow> loc_record \<Rightarrow> bool \<Rightarrow> thread \<Rightarrow> thread result" where
  "log_load_store order h rw is_write th =
     bindE (if length (th_outputBuf th) = LOG_SIZE then flush_log order th else Inr th)
       (\<lambda>th'. Inr (th'\<lparr>th_outputBuf := buf_bump h rw is_write (th_outputBuf th')\<rparr>))"

definition get_filename :: "thread \<Rightarrow> string" where
  "get_filename th = ''__record__'' @ dec (th_index th) @ ''.log''"

definition stop_logging :: "(log_entry list \<Rightarrow> log_entry list) \<Rightarrow> thread \<Rightarrow> thread result" where
  "stop_logging order th = flush_log order (th\<lparr>th_writing := False\<rparr>)"

text \<open>\<open>ok\<close> says whether \<^verbatim>\<open>fopen\<close> succeeds; the flag is uninitialised before, here false.
  The stream appends; the file is taken to be absent or empty before, as the previous run removes it.\<close>

definition open_buffer :: "bool \<Rightarrow> thread \<Rightarrow> thread" where
  "open_buffer ok th = (if ok then th\<lparr>th_buffer_f := Some [], th_writing := True\<rparr> else th\<lparr>th_buffer_f := None\<rparr>)"

definition mk_thread :: "bool \<Rightarrow> nat \<Rightarrow> thread" where
  "mk_thread ok index = open_buffer ok
     \<lparr>th_outputBuf = [], th_buffer_f = None, th_writing = False, th_index = index, th_hooks = False\<rparr>"

section \<open>The registry\<close>

abbreviation MAX_THREADS :: nat where
  "MAX_THREADS \<equiv> 2 ^ 7"

record xthread =
  xt_threads :: "thread list"
  xt_alive :: int

definition initInitialThread :: "bool \<Rightarrow> xthread \<Rightarrow> xthread" where
  "initInitialThread ok xt = xt\<lparr>xt_threads := xt_threads xt @ [mk_thread ok 0]\<rparr>"

text \<open>\<open>create\<close> is what \<^verbatim>\<open>pthread_create\<close> of the library returns; the result is that code.\<close>

definition thread_create :: "bool \<Rightarrow> int \<Rightarrow> xthread \<Rightarrow> (int \<times> xthread) result" where
  "thread_create ok create xt =
     (if length (xt_threads xt) \<ge> MAX_THREADS then Inl (Aborted ''MAX_THREADS'')
      else Inr (create, xt\<lparr>xt_threads := xt_threads xt @ [mk_thread ok (length (xt_threads xt))],
                           xt_alive := xt_alive xt + 1\<rparr>))"

definition removeThread :: "xthread \<Rightarrow> xthread" where
  "removeThread xt = xt\<lparr>xt_alive := xt_alive xt - 1\<rparr>"

text \<open>The thread entry: \<open>routine\<close> is what the start routine does to the registry and returns.\<close>

definition startThread :: "(xthread \<Rightarrow> 'r \<times> xthread) \<Rightarrow> xthread \<Rightarrow> 'r \<times> xthread" where
  "startThread routine xt = (let (res, xt1) = routine xt in (res, removeThread xt1))"

text \<open>
  \<^verbatim>\<open>flush_all_concat_to\<close>: stop every thread in turn and append its file to the output. \<open>cur\<close> is the
  index of the calling thread.
\<close>

definition thread_text :: "thread \<Rightarrow> string" where
  "thread_text th = concat (map (\<lambda>(l, r, w). loc_line (th_index th) l r w @ [newline])
     (case th_buffer_f th of None \<Rightarrow> [] | Some file \<Rightarrow> file))"

definition flush_all_concat_to ::
  "(log_entry list \<Rightarrow> log_entry list) \<Rightarrow> nat \<Rightarrow> xthread \<Rightarrow> string \<Rightarrow> (string \<times> xthread) result" where
  "flush_all_concat_to order cur xt output =
     bindE (guardE (cur = 0) (AssertFail ''current->index == 0'')) (\<lambda>_.
     bindE (mapE (stop_logging order) (xt_threads xt)) (\<lambda>ths.
       Inr (output @ concat (map thread_text ths), xt\<lparr>xt_threads := ths\<rparr>)))"

section \<open>Counting\<close>

definition class_reads :: "(u64 \<Rightarrow> size_t) \<Rightarrow> loc_record \<Rightarrow> log_entry list \<Rightarrow> u32" where
  "class_reads h r es = sum_list (map (\<lambda>e. if loc_match h (fst e) r then fst (snd e) else 0) es)"

definition class_writes :: "(u64 \<Rightarrow> size_t) \<Rightarrow> loc_record \<Rightarrow> log_entry list \<Rightarrow> u32" where
  "class_writes h r es = sum_list (map (\<lambda>e. if loc_match h (fst e) r then snd (snd e) else 0) es)"

lemma loc_match_refl [simp]: "loc_match h l l"
  by (simp add: loc_match_def loc_eq_def)

lemma loc_match_trans: "loc_match h a b \<Longrightarrow> loc_match h b c \<longleftrightarrow> loc_match h a c"
  by (auto simp: loc_match_def loc_eq_def)

lemma class_append:
  "class_reads h r (xs @ ys) = class_reads h r xs + class_reads h r ys"
  "class_writes h r (xs @ ys) = class_writes h r xs + class_writes h r ys"
  by (simp_all add: class_reads_def class_writes_def)

lemma class_Nil [simp]: "class_reads h r [] = 0" "class_writes h r [] = 0"
  by (simp_all add: class_reads_def class_writes_def)

lemma sum_list_mset: "mset xs = mset ys \<Longrightarrow> sum_list (map f xs) = sum_list (map f ys)"
  for f :: "'a \<Rightarrow> 'b::comm_monoid_add"
proof -
  assume eq: "mset xs = mset ys"
  have "sum_list (map f zs) = sum_mset (image_mset f (mset zs))" for zs
    by (simp only: mset_map[symmetric] sum_mset_sum_list)
  then show ?thesis by (simp only: eq)
qed

lemma class_mset:
  "mset xs = mset ys \<Longrightarrow> class_reads h r xs = class_reads h r ys"
  "mset xs = mset ys \<Longrightarrow> class_writes h r xs = class_writes h r ys"
  unfolding class_reads_def class_writes_def by (rule sum_list_mset, assumption)+

lemma class_Cons [simp]:
  "class_reads h r ((l, a, b) # es) = (if loc_match h l r then a else 0) + class_reads h r es"
  "class_writes h r ((l, a, b) # es) = (if loc_match h l r then b else 0) + class_writes h r es"
  by (simp_all add: class_reads_def class_writes_def)

lemma class_bump:
  "class_reads h r (buf_bump h l w buf) = class_reads h r buf + (if loc_match h l r \<and> \<not> w then 1 else 0) \<and>
   class_writes h r (buf_bump h l w buf) = class_writes h r buf + (if loc_match h l r \<and> w then 1 else 0)"
proof (induction h l w buf rule: buf_bump.induct)
  case (2 h l w l' a b buf)
  show ?case
  proof (cases "loc_match h l' l")
    case True
    with loc_match_trans[OF this, of r] show ?thesis by simp
  next
    case False
    from 2[OF False] show ?thesis by (simp add: False add.assoc)
  qed
qed simp

section \<open>The lines are what the detection pass reads\<close>

definition log_record_of :: "nat \<Rightarrow> loc_record \<Rightarrow> u32 \<Rightarrow> u32 \<Rightarrow> log_record" where
  "log_record_of index l r w =
     \<lparr>lr_addr = lo_addr l, lr_m_id = (if lo_is_heap l then int (unat (lo_m_id l)) else - 1),
      lr_thread = word_of_nat index, lr_size = lo_size l,
      lr_pc = PC (ucast (lo_func_id l)) (ucast (lo_inst_id l)), lr_rw = RW r w\<rparr>"

lemma to_signed_minus_one: "to_signed ''-1'' = Inr (- 1)"
  by code_simp

lemma print_ptr_no_comma: "CHR '','' \<notin> set (print_ptr a)" "newline \<notin> set (print_ptr a)"
proof -
  have "c \<noteq> CHR '','' \<and> c \<noteq> newline" if "c \<in> set (print_base 16 n)" for c n
    using that
  proof (induction n rule: less_induct)
    case (less n)
    have d: "digit_char k \<noteq> CHR '','' \<and> digit_char k \<noteq> newline" if "k < 16" for k
      using that hex_val_digit_char[OF that] by (auto simp: hex_val_def char_int_def)
    show ?case
    proof (cases "n < 16")
      case True
      then show ?thesis using less.prems d by (auto simp: print_base.simps[of 16 n])
    next
      case False
      then have lt: "n div 16 < n" by simp
      show ?thesis
        using False less.IH[OF lt] less.prems d[of "n mod 16"] by (auto simp: print_base.simps[of 16 n])
    qed
  qed
  then show "CHR '','' \<notin> set (print_ptr a)" "newline \<notin> set (print_ptr a)"
    by (auto simp: print_ptr_def)
qed

lemma read_loc_line:
  assumes "lo_addr l \<noteq> 0" "lo_is_heap l \<Longrightarrow> lo_m_id l < 2 ^ 31"
  shows "read_record (loc_line index l r w) rec = Inr (log_record_of index l r w)"
proof -
  have "unat (lo_m_id l) < 2 ^ 31" if "lo_is_heap l" using assms(2)[OF that] by (simp add: word_less_nat_alt)
  then have m: "to_signed (if lo_is_heap l then dec (unat (lo_m_id l)) else ''-1'') =
      Inr (if lo_is_heap l then int (unat (lo_m_id l)) else - 1)"
    by (simp add: to_signed_dec to_signed_minus_one)
  have nc: "\<forall>f \<in> set (loc_fields index l r w). CHR '','' \<notin> set f"
    by (simp add: loc_fields_def dec_no_comma print_ptr_no_comma)
  have "read_csv_line 9 (CHR '','') (loc_line index l r w) = Inr (loc_fields index l r w)"
    unfolding loc_line_def by (rule read_csv_join[OF _ nc]) (simp_all add: loc_fields_def)
  moreover have "loc_line index l r w \<noteq> []"
    unfolding loc_line_def loc_fields_def by (rule csv_join_Cons2)
  ultimately show ?thesis
    using m assms(1)
    by (simp add: read_record_def loc_fields_def to_address_print_ptr to_unsigned_dec log_record_of_def)
qed

lemma loc_line_no_newline: "newline \<notin> set (loc_line index l r w)"
proof -
  have join: "newline \<notin> set (csv_join (CHR '','') fs)" if "\<forall>f \<in> set fs. newline \<notin> set f" for fs
    using that by (induction "CHR '',''" fs rule: csv_join.induct) auto
  show ?thesis
    unfolding loc_line_def by (rule join) (simp add: loc_fields_def dec_no_comma print_ptr_no_comma)
qed

definition entries_ok :: "log_entry list \<Rightarrow> bool" where
  "entries_ok es \<longleftrightarrow> (\<forall>e \<in> set es. lo_addr (fst e) \<noteq> 0 \<and> (lo_is_heap (fst e) \<longrightarrow> lo_m_id (fst e) < 2 ^ 31))"

lemma foldE_read_log:
  assumes "entries_ok es"
  shows "\<exists>rec. foldE read_log_step (map (\<lambda>e. loc_line i (fst e) (fst (snd e)) (snd (snd e))) es) (rec0, bins0) =
    Inr (rec, fold bin_record (map (\<lambda>e. log_record_of i (fst e) (fst (snd e)) (snd (snd e))) es) bins0)"
  using assms
proof (induction es arbitrary: rec0 bins0)
  case (Cons e es)
  then have "read_log_step (loc_line i (fst e) (fst (snd e)) (snd (snd e))) (rec0, bins0) =
      Inr (log_record_of i (fst e) (fst (snd e)) (snd (snd e)),
           bin_record (log_record_of i (fst e) (fst (snd e)) (snd (snd e))) bins0)"
    by (simp add: read_log_step_def read_loc_line entries_ok_def)
  with Cons show ?case by (simp add: entries_ok_def)
qed simp

lemma thread_text_lines:
  "thread_text th = concat (map (\<lambda>l. l @ [newline])
     (map (\<lambda>e. loc_line (th_index th) (fst e) (fst (snd e)) (snd (snd e)))
       (case th_buffer_f th of None \<Rightarrow> [] | Some file \<Rightarrow> file)))"
  by (simp add: thread_text_def case_prod_unfold comp_def)

section \<open>The log of a run of one thread\<close>

definition th_file :: "thread \<Rightarrow> log_entry list" where
  "th_file th = (case th_buffer_f th of None \<Rightarrow> [] | Some file \<Rightarrow> file)"

text \<open>Open file, a bounded buffer, at most one entry per class.\<close>

definition th_ok :: "(u64 \<Rightarrow> size_t) \<Rightarrow> thread \<Rightarrow> bool" where
  "th_ok h th \<longleftrightarrow> th_buffer_f th \<noteq> None \<and> length (th_outputBuf th) \<le> LOG_SIZE \<and>
     sorted_wrt (\<lambda>a b. \<not> loc_match h (fst a) (fst b)) (th_outputBuf th)"

lemma buf_bump_fst:
  "\<exists>es. map fst (buf_bump h l w buf) = map fst buf @ es \<and> length es \<le> 1 \<and>
     (es = [] \<or> es = [l] \<and> (\<forall>e \<in> set buf. \<not> loc_match h (fst e) l))"
proof (induction h l w buf rule: buf_bump.induct)
  case (2 h l w l' a b buf)
  then show ?case by (cases "loc_match h l' l") auto
qed simp

lemma flush_log_ok:
  assumes "th_ok h th" "mset (order (th_outputBuf th)) = mset (th_outputBuf th)"
  obtains th' where "flush_log order th = Inr th'" "th_ok h th'" "th_outputBuf th' = []" "th_index th' = th_index th"
    "mset (th_file th') = mset (th_file th) + mset (th_outputBuf th)"
  using assms that by (cases "th_outputBuf th = []")
    (auto simp: flush_log_def th_ok_def th_file_def split: option.splits)

lemma buf_bump_ok:
  assumes "th_ok h th" "length (th_outputBuf th) < LOG_SIZE"
  shows "th_ok h (th\<lparr>th_outputBuf := buf_bump h l w (th_outputBuf th)\<rparr>)"
proof -
  obtain es where es: "map fst (buf_bump h l w (th_outputBuf th)) = map fst (th_outputBuf th) @ es" "length es \<le> 1"
    "es = [] \<or> es = [l] \<and> (\<forall>e \<in> set (th_outputBuf th). \<not> loc_match h (fst e) l)"
    using buf_bump_fst by blast
  have "length (buf_bump h l w (th_outputBuf th)) = length (th_outputBuf th) + length es"
    using arg_cong[OF es(1), of length] by simp
  moreover have "sorted_wrt (\<lambda>a b. \<not> loc_match h a b) (map fst (buf_bump h l w (th_outputBuf th)))"
    using assms(1) es(3) unfolding es(1) by (auto simp: th_ok_def sorted_wrt_append sorted_wrt_map)
  ultimately show ?thesis using assms es(2) by (auto simp: th_ok_def sorted_wrt_map)
qed

lemma log_load_store_ok:
  assumes "th_ok h th" "\<And>xs. mset (order xs) = mset xs"
  obtains th' where "log_load_store order h l w th = Inr th'" "th_ok h th'" "th_index th' = th_index th"
    "\<And>r. class_reads h r (th_file th' @ th_outputBuf th') =
       class_reads h r (th_file th @ th_outputBuf th) + (if loc_match h l r \<and> \<not> w then 1 else 0)"
    "\<And>r. class_writes h r (th_file th' @ th_outputBuf th') =
       class_writes h r (th_file th @ th_outputBuf th) + (if loc_match h l r \<and> w then 1 else 0)"
proof -
  obtain th1 where t: "(if length (th_outputBuf th) = LOG_SIZE then flush_log order th else Inr th) = Inr th1"
    "th_ok h th1" "length (th_outputBuf th1) < LOG_SIZE" "th_index th1 = th_index th"
    "mset (th_file th1 @ th_outputBuf th1) = mset (th_file th @ th_outputBuf th)"
  proof (cases "length (th_outputBuf th) = LOG_SIZE")
    case True
    obtain th1 where "flush_log order th = Inr th1" "th_ok h th1" "th_outputBuf th1 = []" "th_index th1 = th_index th"
      "mset (th_file th1) = mset (th_file th) + mset (th_outputBuf th)"
      using flush_log_ok[OF assms(1), of order] assms(2) by blast
    then show ?thesis using True that[of th1] by (simp add: LOG_SIZE_def)
  next
    case False
    then show ?thesis using assms(1) that[of th] by (simp add: th_ok_def)
  qed
  let ?th = "th1\<lparr>th_outputBuf := buf_bump h l w (th_outputBuf th1)\<rparr>"
  have fl: "th_file ?th = th_file th1" by (simp add: th_file_def)
  show thesis
  proof (rule that)
    show "log_load_store order h l w th = Inr ?th" by (simp add: log_load_store_def t(1))
    show "th_ok h ?th" by (rule buf_bump_ok[OF t(2,3)])
    fix r
    show "class_reads h r (th_file ?th @ th_outputBuf ?th) =
       class_reads h r (th_file th @ th_outputBuf th) + (if loc_match h l r \<and> \<not> w then 1 else 0)"
      and "class_writes h r (th_file ?th @ th_outputBuf ?th) =
       class_writes h r (th_file th @ th_outputBuf th) + (if loc_match h l r \<and> w then 1 else 0)"
      using class_mset[OF t(5), of h r] class_bump[of h r l w "th_outputBuf th1"]
      by (simp_all add: fl class_append)
  qed (simp add: t(4))
qed

lemma log_load_store_total:
  assumes "th_ok h th" "\<And>xs. mset (order xs) = mset xs"
  shows "\<exists>th'. log_load_store order h l w th = Inr th'"
  by (rule log_load_store_ok[OF assms, of l w]) (erule exI)

definition log_all ::
  "(log_entry list \<Rightarrow> log_entry list) \<Rightarrow> (u64 \<Rightarrow> size_t) \<Rightarrow> (loc_record \<times> bool) list \<Rightarrow> thread \<Rightarrow> thread result" where
  "log_all order h acc = foldE (\<lambda>p. log_load_store order h (fst p) (snd p)) acc"

definition n_accesses :: "(u64 \<Rightarrow> size_t) \<Rightarrow> loc_record \<Rightarrow> bool \<Rightarrow> (loc_record \<times> bool) list \<Rightarrow> nat" where
  "n_accesses h r w acc = length (filter (\<lambda>p. loc_match h (fst p) r \<and> snd p = w) acc)"

lemma log_all_ok:
  assumes "th_ok h th" "\<And>xs. mset (order xs) = mset xs"
  shows "\<exists>th'. log_all order h acc th = Inr th' \<and> th_ok h th' \<and> th_index th' = th_index th \<and>
    (\<forall>r. class_reads h r (th_file th' @ th_outputBuf th') =
       class_reads h r (th_file th @ th_outputBuf th) + word_of_nat (n_accesses h r False acc)) \<and>
    (\<forall>r. class_writes h r (th_file th' @ th_outputBuf th') =
       class_writes h r (th_file th @ th_outputBuf th) + word_of_nat (n_accesses h r True acc))"
  using assms(1)
proof (induction acc arbitrary: th)
  case Nil
  then show ?case by (simp add: log_all_def n_accesses_def)
next
  case (Cons p acc)
  obtain th1 where t: "log_load_store order h (fst p) (snd p) th = Inr th1" "th_ok h th1" "th_index th1 = th_index th"
    "\<And>r. class_reads h r (th_file th1 @ th_outputBuf th1) =
       class_reads h r (th_file th @ th_outputBuf th) + (if loc_match h (fst p) r \<and> \<not> snd p then 1 else 0)"
    "\<And>r. class_writes h r (th_file th1 @ th_outputBuf th1) =
       class_writes h r (th_file th @ th_outputBuf th) + (if loc_match h (fst p) r \<and> snd p then 1 else 0)"
    using log_load_store_ok[OF Cons.prems assms(2)] by blast
  from Cons.IH[OF t(2)] show ?case
    by (auto simp: log_all_def t n_accesses_def)
qed

section \<open>Properties of the log\<close>

text \<open>
  \<^bold>\<open>C20.\<close> No access is lost or counted twice. For any sequence of logged accesses of a thread, with
  all the flushes of a full buffer in between, the lines in the thread's file after the final flush
  add up, for every location, to the number of reads and writes of that location modulo \<open>2 ^ 32\<close>.
\<close>

theorem log_counts_exact:
  assumes "\<And>xs. mset (order xs) = mset xs"
  shows "\<exists>th th'. log_all order h acc (mk_thread True i) = Inr th \<and> stop_logging order th = Inr th' \<and>
    th_outputBuf th' = [] \<and> th_index th' = i \<and>
    (\<forall>r. class_reads h r (th_file th') = word_of_nat (n_accesses h r False acc) \<and>
         class_writes h r (th_file th') = word_of_nat (n_accesses h r True acc))"
proof -
  have start: "th_ok h (mk_thread True i)" "th_file (mk_thread True i) = []" "th_outputBuf (mk_thread True i) = []"
    "th_index (mk_thread True i) = i"
    by (simp_all add: mk_thread_def open_buffer_def th_ok_def th_file_def)
  obtain th where th: "log_all order h acc (mk_thread True i) = Inr th" "th_ok h th" "th_index th = i"
    "\<And>r. class_reads h r (th_file th @ th_outputBuf th) = word_of_nat (n_accesses h r False acc)"
    "\<And>r. class_writes h r (th_file th @ th_outputBuf th) = word_of_nat (n_accesses h r True acc)"
    using log_all_ok[OF start(1) assms, of acc] by (auto simp: start)
  let ?s = "th\<lparr>th_writing := False\<rparr>"
  have ok: "th_ok h ?s" "th_outputBuf ?s = th_outputBuf th" "th_file ?s = th_file th" "th_index ?s = i"
    using th(2,3) by (simp_all add: th_ok_def th_file_def)
  obtain th' where t': "flush_log order ?s = Inr th'" "th_outputBuf th' = []" "th_index th' = i"
    "mset (th_file th') = mset (th_file th @ th_outputBuf th)"
    using flush_log_ok[OF ok(1), of order] assms ok by auto
  have "class_reads h r (th_file th') = word_of_nat (n_accesses h r False acc) \<and>
        class_writes h r (th_file th') = word_of_nat (n_accesses h r True acc)" for r
    using class_mset[OF t'(4), of h r] th(4,5) by simp
  with th(1) t' show ?thesis by (auto simp: stop_logging_def)
qed

text \<open>
  The log file of a thread is what the detection pass reads: parsing its text gives, line by
  line, the thread number, address, allocation and counts that were written, with the function and
  instruction numbers cut to 16 bits, and bins exactly these records.
\<close>

theorem log_file_roundtrip:
  assumes "entries_ok (th_file th)"
  shows "\<exists>rec. foldE read_log_step (getlines (thread_text th)) (log_record_init, []) =
    Inr (rec, fold bin_record (map (\<lambda>e. log_record_of (th_index th) (fst e) (fst (snd e)) (snd (snd e))) (th_file th)) [])"
proof -
  have "getlines (thread_text th) =
      map (\<lambda>e. loc_line (th_index th) (fst e) (fst (snd e)) (snd (snd e))) (th_file th)"
    unfolding thread_text_lines th_file_def[symmetric]
    by (rule getlines_concat) (auto simp: loc_line_no_newline)
  then show ?thesis using foldE_read_log[OF assms] by simp
qed

section \<open>The properties on a concrete log\<close>

definition sample_log :: "(loc_record \<times> bool) list" where
  "sample_log = [(loc_heap 4096 1 2 8 0 0, True), (loc_global 512 1 3 4, False), (loc_heap 4096 1 2 8 0 0, True)]"

theorem log_counts_exact_witness:
  "\<exists>th th'. log_all rev id sample_log (mk_thread True 3) = Inr th \<and> stop_logging rev th = Inr th' \<and>
    class_writes id (loc_heap 4096 1 2 8 0 0) (th_file th') = 2"
proof -
  have "n_accesses id (loc_heap 4096 1 2 8 0 0) True sample_log = 2"
    by (simp add: n_accesses_def sample_log_def loc_match_def loc_eq_def loc_heap_def loc_global_def)
  then show ?thesis using log_counts_exact[of rev id sample_log 3] by fastforce
qed

definition sample_thread :: thread where
  "sample_thread = \<lparr>th_outputBuf = [], th_buffer_f = Some [(loc_heap 4096 65537 2 8 0 0, 0, 2), (loc_global 512 1 3 4, 1, 0)],
     th_writing = False, th_index = 3, th_hooks = False\<rparr>"

theorem log_file_roundtrip_witness:
  "\<exists>rec. foldE read_log_step (getlines (thread_text sample_thread)) (log_record_init, []) =
    Inr (rec, fold bin_record (map (\<lambda>e. log_record_of 3 (fst e) (fst (snd e)) (snd (snd e))) (th_file sample_thread)) [])"
proof -
  have "entries_ok (th_file sample_thread)" by code_simp
  from log_file_roundtrip[OF this] show ?thesis by (simp add: sample_thread_def)
qed

end
