(* ===== verification/RT_Runtime.thy ===== *)
theory RT_Runtime
  imports RT_Logging
begin

text \<open>
  The entry points of the runtime, \<^verbatim>\<open>runtime/Runtime.cpp\<close>, and the search for the global segment,
  \<^verbatim>\<open>runtime/GetGlobal.h\<close>. The allocator of the C library is a parameter, a record of functions on
  a heap state that the development does not look into. A handler takes the number of the calling
  thread; \<^verbatim>\<open>current\<close> is that entry of the registry.
\<close>

section \<open>The global segment\<close>

definition is_xdigit :: "char \<Rightarrow> bool" where
  "is_xdigit c \<longleftrightarrow> is_digit c \<or> (97 \<le> (of_char c :: nat) \<and> (of_char c :: nat) \<le> 102) \<or>
     (65 \<le> (of_char c :: nat) \<and> (of_char c :: nat) \<le> 70)"

definition xdigit_val :: "char \<Rightarrow> nat" where
  "xdigit_val c =
     (if is_digit c then digit_val c
      else if of_char c \<ge> (97 :: nat) then of_char c - 87 else of_char c - 55)"

text \<open>\<^verbatim>\<open>strtoul(s, nullptr, 16)\<close>.\<close>

definition strtoul16 :: "string \<Rightarrow> size_t" where
  "strtoul16 s =
     (let r = dropWhile is_space s;
          neg = (r \<noteq> [] \<and> hd r = CHR ''-'');
          r1 = (if r \<noteq> [] \<and> (hd r = CHR ''-'' \<or> hd r = CHR ''+'') then tl r else r);
          r2 = (if length r1 > 2 \<and> take 2 r1 \<in> {''0x'', ''0X''} \<and> is_xdigit (r1 ! 2) then drop 2 r1 else r1);
          v = fold (\<lambda>c n. n * 16 + xdigit_val c) (takeWhile is_xdigit r2) 0
      in if v \<ge> 2 ^ 64 then - 1 else if neg then - word_of_nat v else word_of_nat v)"

definition find_space :: "nat \<Rightarrow> string \<Rightarrow> nat option" where
  "find_space start s =
     (let n = length (takeWhile (\<lambda>c. \<not> is_space c) (drop start s))
      in if start + n < length s then Some (start + n) else None)"

text \<open>The scans for the dash and the blank run past the end of an entry that has none.\<close>

definition getRegionInfo :: "string \<Rightarrow> (size_t \<times> size_t) result" where
  "getRegionInfo curentry =
     (case find_from (CHR ''-'') 0 curentry of
        None \<Rightarrow> Inl (Undefined ''index past the end of a string'')
      | Some pos \<Rightarrow>
          (case find_space (Suc pos) curentry of
             None \<Rightarrow> Inl (Undefined ''index past the end of a string'')
           | Some endpos \<Rightarrow>
               Inr (strtoul16 (take pos curentry), strtoul16 (take (endpos - Suc pos) (drop (Suc pos) curentry)))))"

fun contains :: "string \<Rightarrow> string \<Rightarrow> bool" where
  "contains [] pat = (pat = [])"
| "contains (c # s) pat = (take (length pat) (c # s) = pat \<or> contains s pat)"

fun getGlobalRegion :: "string list \<Rightarrow> addr_seg result" where
  "getGlobalRegion [] = Inr (aseg 0 0)"
| "getGlobalRegion (curentry # entries) =
     (if contains curentry '' rw-p '' \<or> contains curentry '' rwxp ''
      then bindE (getRegionInfo curentry) (\<lambda>(startaddr, endaddr).
             let nextentry = (case entries of [] \<Rightarrow> [] | e # _ \<Rightarrow> e)
             in if contains nextentry ''lib'' \<and> \<not> contains nextentry '' rw-p '' then Inr (aseg 0 0)
                else bindE (getRegionInfo nextentry) (\<lambda>(newstart, newend).
                       Inr (aseg startaddr (if newstart = endaddr then newend else endaddr))))
      else getGlobalRegion entries)"

section \<open>State\<close>

record 'h libc =
  lc_malloc :: "size_t \<Rightarrow> 'h \<Rightarrow> size_t \<times> 'h"
  lc_realloc :: "size_t \<Rightarrow> size_t \<Rightarrow> 'h \<Rightarrow> size_t \<times> 'h"
  lc_memalign :: "size_t \<Rightarrow> size_t \<Rightarrow> 'h \<Rightarrow> (int \<times> size_t) \<times> 'h"
  lc_free :: "size_t \<Rightarrow> 'h \<Rightarrow> 'h"
  lc_memset :: "size_t \<Rightarrow> size_t \<Rightarrow> 'h \<Rightarrow> 'h"

record 'h runtime =
  rt_heap :: 'h
  rt_malloc_sizes :: malloc_table
  rt_global :: addr_seg
  rt_xthread :: xthread
  rt_thread0_alloc :: size_t
  rt_total_alloc :: size_t
  rt_stderr :: "string list"

definition cur_thread :: "nat \<Rightarrow> 'h runtime \<Rightarrow> thread result" where
  "cur_thread cur st =
     (if cur < length (xt_threads (rt_xthread st)) then Inr (xt_threads (rt_xthread st) ! cur)
      else Inl (Undefined ''null current''))"

definition put_thread :: "nat \<Rightarrow> thread \<Rightarrow> 'h runtime \<Rightarrow> 'h runtime" where
  "put_thread cur th st =
     st\<lparr>rt_xthread := (rt_xthread st)\<lparr>xt_threads := (xt_threads (rt_xthread st))[cur := th]\<rparr>\<rparr>"

text \<open>The constructor and the destructor of \<^verbatim>\<open>HookDeactivator\<close>.\<close>

definition set_hooks :: "nat \<Rightarrow> bool \<Rightarrow> 'h runtime \<Rightarrow> 'h runtime result" where
  "set_hooks cur b st = bindE (cur_thread cur st) (\<lambda>th. Inr (put_thread cur (th\<lparr>th_hooks := b\<rparr>) st))"

abbreviation hooks_active :: "nat \<Rightarrow> 'h runtime \<Rightarrow> bool" where
  "hooks_active cur st \<equiv> cur < length (xt_threads (rt_xthread st)) \<and> th_hooks (xt_threads (rt_xthread st) ! cur)"

definition rt_initializer :: "string list \<Rightarrow> bool \<Rightarrow> 'h runtime \<Rightarrow> 'h runtime result" where
  "rt_initializer maps ok st =
     bindE (getGlobalRegion maps) (\<lambda>g.
       set_hooks 0 True (st\<lparr>rt_global := g, rt_xthread := initInitialThread ok (rt_xthread st)\<rparr>))"

text \<open>The finalizer returns the two files it writes.\<close>

definition rt_finalizer ::
  "(log_entry list \<Rightarrow> log_entry list) \<Rightarrow> ((backtrace \<times> per_bt list) list \<Rightarrow> (backtrace \<times> per_bt list) list) \<Rightarrow>
   nat \<Rightarrow> 'h runtime \<Rightarrow> (string \<times> string) result" where
  "rt_finalizer order bt_order cur st =
     bindE (set_hooks cur False st) (\<lambda>st1.
     bindE (cur_thread cur st1) (\<lambda>th.
     bindE (flush_all_concat_to order (th_index th) (rt_xthread st1) []) (\<lambda>(rec_log, xt).
       Inr (rec_log, mt_dump bt_order (rt_global st1) (rt_malloc_sizes st1)))))"

section \<open>Instrumented allocation\<close>

text \<open>Only thread 0 is recorded.\<close>

definition record_alloc :: "backtrace \<Rightarrow> size_t \<Rightarrow> size_t \<Rightarrow> size_t \<Rightarrow> size_t \<Rightarrow> thread \<Rightarrow> 'h runtime \<Rightarrow> 'h runtime" where
  "record_alloc bt start sz func_id inst_id th st =
     (if th_index th = 0
      then st\<lparr>rt_thread0_alloc := rt_thread0_alloc st + sz,
              rt_malloc_sizes := mt_insert bt start sz func_id inst_id (rt_malloc_sizes st)\<rparr>
      else st)"

definition malloc_inst ::
  "'h libc \<Rightarrow> backtrace \<Rightarrow> size_t \<Rightarrow> size_t \<Rightarrow> size_t \<Rightarrow> nat \<Rightarrow> 'h runtime \<Rightarrow> (size_t \<times> 'h runtime) result" where
  "malloc_inst lc bt sz func_id inst_id cur st =
     (let (start_ptr, heap) = lc_malloc lc sz (rt_heap st)
      in bindE (set_hooks cur False (st\<lparr>rt_heap := heap\<rparr>)) (\<lambda>st1.
         bindE (cur_thread cur st1) (\<lambda>th.
         let st2 = record_alloc bt start_ptr sz func_id inst_id th (st1\<lparr>rt_total_alloc := rt_total_alloc st1 + sz\<rparr>)
         in bindE (set_hooks cur True st2) (\<lambda>st3. Inr (start_ptr, st3)))))"

definition calloc_inst ::
  "'h libc \<Rightarrow> backtrace \<Rightarrow> size_t \<Rightarrow> size_t \<Rightarrow> size_t \<Rightarrow> size_t \<Rightarrow> nat \<Rightarrow> 'h runtime \<Rightarrow> (size_t \<times> 'h runtime) result" where
  "calloc_inst lc bt n sz func_id inst_id cur st =
     (let total = n * sz
      in bindE (malloc_inst lc bt total func_id inst_id cur st) (\<lambda>(p, st1).
           Inr (p, if p \<noteq> 0 then st1\<lparr>rt_heap := lc_memset lc p total (rt_heap st1)\<rparr> else st1)))"

definition realloc_inst ::
  "'h libc \<Rightarrow> backtrace \<Rightarrow> size_t \<Rightarrow> size_t \<Rightarrow> size_t \<Rightarrow> size_t \<Rightarrow> nat \<Rightarrow> 'h runtime \<Rightarrow> (size_t \<times> 'h runtime) result" where
  "realloc_inst lc bt ptr sz func_id inst_id cur st =
     (let (new_start_ptr, heap) = lc_realloc lc ptr sz (rt_heap st)
      in bindE (set_hooks cur False (st\<lparr>rt_heap := heap\<rparr>)) (\<lambda>st1.
         bindE (cur_thread cur st1) (\<lambda>th.
         let st2 = st1\<lparr>rt_total_alloc := rt_total_alloc st1 + sz\<rparr>;
             (erased, mt) = (if th_index th = 0 \<and> ptr \<noteq> 0 then mt_erase ptr (rt_malloc_sizes st2)
                             else (True, rt_malloc_sizes st2))
         in bindE (guardE erased (AssertFail ''malloc_sizes.erase((uintptr_t) ptr)'')) (\<lambda>_.
            bindE (set_hooks cur True
                (record_alloc bt new_start_ptr sz func_id inst_id th (st2\<lparr>rt_malloc_sizes := mt\<rparr>)))
              (\<lambda>st3. Inr (new_start_ptr, st3))))))"

definition posix_memalign_inst ::
  "'h libc \<Rightarrow> backtrace \<Rightarrow> size_t \<Rightarrow> size_t \<Rightarrow> size_t \<Rightarrow> size_t \<Rightarrow> nat \<Rightarrow> 'h runtime \<Rightarrow> ((int \<times> size_t) \<times> 'h runtime) result" where
  "posix_memalign_inst lc bt alignment sz func_id inst_id cur st =
     (let ((code, memptr), heap) = lc_memalign lc alignment sz (rt_heap st)
      in if code \<noteq> 0 then Inr ((code, memptr), st\<lparr>rt_heap := heap\<rparr>)
         else bindE (set_hooks cur False (st\<lparr>rt_heap := heap, rt_total_alloc := rt_total_alloc st + sz\<rparr>)) (\<lambda>st1.
              bindE (cur_thread cur st1) (\<lambda>th.
              bindE (set_hooks cur True (record_alloc bt memptr sz func_id inst_id th st1)) (\<lambda>st2.
                Inr ((code, memptr), st2)))))"

section \<open>Uninstrumented allocation\<close>

definition warn :: "string \<Rightarrow> nat \<Rightarrow> 'h runtime \<Rightarrow> 'h runtime" where
  "warn msg cur st = (if hooks_active cur st then st\<lparr>rt_stderr := rt_stderr st @ [msg]\<rparr> else st)"

definition malloc_plain :: "'h libc \<Rightarrow> size_t \<Rightarrow> nat \<Rightarrow> 'h runtime \<Rightarrow> size_t \<times> 'h runtime" where
  "malloc_plain lc sz cur st =
     (let st1 = warn ''Code is visiting uninstrumented malloc.'' cur st; (p, heap) = lc_malloc lc sz (rt_heap st1)
      in (p, st1\<lparr>rt_heap := heap\<rparr>))"

definition calloc_plain :: "'h libc \<Rightarrow> size_t \<Rightarrow> size_t \<Rightarrow> nat \<Rightarrow> 'h runtime \<Rightarrow> size_t \<times> 'h runtime" where
  "calloc_plain lc n sz cur st =
     (let st1 = warn ''Code is visiting uninstrumented calloc.'' cur st; total = n * sz;
          (p, heap) = lc_malloc lc total (rt_heap st1)
      in (p, st1\<lparr>rt_heap := if p \<noteq> 0 then lc_memset lc p total heap else heap\<rparr>))"

definition realloc_plain :: "'h libc \<Rightarrow> size_t \<Rightarrow> size_t \<Rightarrow> nat \<Rightarrow> 'h runtime \<Rightarrow> size_t \<times> 'h runtime" where
  "realloc_plain lc ptr sz cur st =
     (let st1 = warn ''Code is visiting uninstrumented realloc.'' cur st; (p, heap) = lc_realloc lc ptr sz (rt_heap st1)
      in (p, st1\<lparr>rt_heap := heap\<rparr>))"

definition posix_memalign_plain :: "'h libc \<Rightarrow> size_t \<Rightarrow> size_t \<Rightarrow> nat \<Rightarrow> 'h runtime \<Rightarrow> (int \<times> size_t) \<times> 'h runtime" where
  "posix_memalign_plain lc alignment sz cur st =
     (let st1 = warn ''Code is visiting uninstrumented posix_memalign (because we don't instrument posix_memalign at this time.'' cur st;
          (r, heap) = lc_memalign lc alignment sz (rt_heap st1)
      in (r, st1\<lparr>rt_heap := heap\<rparr>))"

definition my_free_hook :: "'h libc \<Rightarrow> size_t \<Rightarrow> nat \<Rightarrow> 'h runtime \<Rightarrow> 'h runtime result" where
  "my_free_hook lc ptr cur st =
     bindE (set_hooks cur False st) (\<lambda>st1.
     bindE (cur_thread cur st1) (\<lambda>th.
       let mt = (if ptr \<noteq> 0 \<and> th_index th = 0 then snd (mt_erase ptr (rt_malloc_sizes st1)) else rt_malloc_sizes st1)
       in set_hooks cur True (st1\<lparr>rt_malloc_sizes := mt, rt_heap := lc_free lc ptr (rt_heap st1)\<rparr>)))"

definition rt_free :: "'h libc \<Rightarrow> size_t \<Rightarrow> nat \<Rightarrow> 'h runtime \<Rightarrow> 'h runtime result" where
  "rt_free lc ptr cur st =
     (if hooks_active cur st then my_free_hook lc ptr cur st
      else Inr (st\<lparr>rt_heap := lc_free lc ptr (rt_heap st)\<rparr>))"

section \<open>Accesses and threads\<close>

definition log_on :: "(log_entry list \<Rightarrow> log_entry list) \<Rightarrow> (u64 \<Rightarrow> size_t) \<Rightarrow> loc_record \<Rightarrow> bool \<Rightarrow> nat \<Rightarrow> 'h runtime \<Rightarrow>
  'h runtime result" where
  "log_on order h rec is_write cur st =
     bindE (cur_thread cur st) (\<lambda>th.
     bindE (log_load_store order h rec is_write th) (\<lambda>th'. Inr (put_thread cur th' st)))"

definition handle_access ::
  "(log_entry list \<Rightarrow> log_entry list) \<Rightarrow> (u64 \<Rightarrow> size_t) \<Rightarrow> size_t \<Rightarrow> size_t \<Rightarrow> size_t \<Rightarrow> size_t \<Rightarrow> bool \<Rightarrow> nat \<Rightarrow>
   'h runtime \<Rightarrow> 'h runtime result" where
  "handle_access order h addr func_id inst_id sz is_write cur st =
     (if mt_contain (rt_malloc_sizes st) addr
      then bindE (set_hooks cur False st) (\<lambda>st1.
           bindE (case find_id_offset (rt_malloc_sizes st1) addr of
                    None \<Rightarrow> Inr st1
                  | Some (m_id, m_offset) \<Rightarrow>
                      log_on order h (loc_heap addr (ucast func_id) (ucast inst_id) (ucast sz) (ucast m_id) (ucast m_offset))
                        is_write cur st1)
             (set_hooks cur True))
      else if aseg_contain (rt_global st) addr
      then bindE (set_hooks cur False st) (\<lambda>st1.
           bindE (log_on order h (loc_global addr (ucast func_id) (ucast inst_id) (ucast sz)) is_write cur st1)
             (set_hooks cur True))
      else Inr st)"

text \<open>\<^verbatim>\<open>store_16bytes\<close> to \<^verbatim>\<open>store_1bytes\<close> and the loads, with the number in the name as \<open>k\<close>.\<close>

definition store_bytes where
  "store_bytes (k :: size_t) order h addr func_id inst_id = handle_access order h addr func_id inst_id k True"

definition load_bytes where
  "load_bytes (k :: size_t) order h addr func_id inst_id = handle_access order h addr func_id inst_id k False"

definition rt_pthread_create :: "bool \<Rightarrow> int \<Rightarrow> nat \<Rightarrow> 'h runtime \<Rightarrow> (int \<times> 'h runtime) result" where
  "rt_pthread_create ok create cur st =
     (if hooks_active cur st
      then bindE (set_hooks cur False st) (\<lambda>st1.
           bindE (thread_create ok create (rt_xthread st1)) (\<lambda>(res, xt).
           bindE (set_hooks cur True (st1\<lparr>rt_xthread := xt\<rparr>)) (\<lambda>st2. Inr (res, st2))))
      else Inr (create, st))"

section \<open>Registry lemmas\<close>

abbreviation threads :: "'h runtime \<Rightarrow> thread list" where
  "threads st \<equiv> xt_threads (rt_xthread st)"

lemma put_thread_sel [simp]:
  "threads (put_thread cur th st) = (threads st)[cur := th]"
  "rt_malloc_sizes (put_thread cur th st) = rt_malloc_sizes st"
  "rt_global (put_thread cur th st) = rt_global st"
  "rt_heap (put_thread cur th st) = rt_heap st"
  "rt_total_alloc (put_thread cur th st) = rt_total_alloc st"
  "rt_thread0_alloc (put_thread cur th st) = rt_thread0_alloc st"
  by (simp_all add: put_thread_def)

lemma cur_thread_in [simp]: "cur < length (threads st) \<Longrightarrow> cur_thread cur st = Inr (threads st ! cur)"
  by (simp add: cur_thread_def)

lemma set_hooks_in [simp]:
  "cur < length (threads st) \<Longrightarrow> set_hooks cur b st = Inr (put_thread cur ((threads st ! cur)\<lparr>th_hooks := b\<rparr>) st)"
  by (simp add: set_hooks_def)

lemma record_alloc_sel [simp]:
  "rt_xthread (record_alloc bt p n f i th st) = rt_xthread st"
  "rt_malloc_sizes (record_alloc bt p n f i th st) =
     (if th_index th = 0 then mt_insert bt p n f i (rt_malloc_sizes st) else rt_malloc_sizes st)"
  by (simp_all add: record_alloc_def)

section \<open>Reading an entry of the maps file\<close>

definition hex :: "size_t \<Rightarrow> string" where
  "hex w = print_base 16 (unat w)"

definition maps_entry :: "size_t \<Rightarrow> size_t \<Rightarrow> string \<Rightarrow> string" where
  "maps_entry s e rest = hex s @ ''-'' @ hex e @ '' '' @ rest"

lemma digit_char_xdigit:
  assumes "d < 16"
  shows "is_xdigit (digit_char d)" "xdigit_val (digit_char d) = d" "\<not> is_space (digit_char d)"
    "digit_char d \<noteq> CHR ''-''" "digit_char d \<noteq> CHR ''+''" "digit_char d \<noteq> CHR ''x''" "digit_char d \<noteq> CHR ''X''"
proof -
  have o: "(of_char (digit_char d) :: nat) = (if d < 10 then 48 + d else 87 + d)"
    using assms by (simp add: digit_char_def)
  show "is_xdigit (digit_char d)" "xdigit_val (digit_char d) = d" "\<not> is_space (digit_char d)"
    using assms by (auto simp: is_xdigit_def xdigit_val_def is_space_def is_digit_def digit_val_def o)
  have "digit_char d \<noteq> c" if "(of_char c :: nat) \<in> {43, 45, 88, 120}" for c
    using o assms that by (auto split: if_splits)
  then show "digit_char d \<noteq> CHR ''-''" "digit_char d \<noteq> CHR ''+''" "digit_char d \<noteq> CHR ''x''" "digit_char d \<noteq> CHR ''X''"
    by simp_all
qed

lemma print_hex_chars:
  "\<forall>c \<in> set (print_base 16 n). \<exists>d < 16. c = digit_char d"
  "print_base 16 n \<noteq> []"
  "fold (\<lambda>c n. n * 16 + xdigit_val c) (print_base 16 n) 0 = n"
proof (induction n rule: less_induct)
  case (less n)
  {
    case 1
    show ?case
    proof (cases "n < 16")
      case False
      then have lt: "n div 16 < n" by simp
      have "\<exists>d < 16. digit_char (n mod 16) = digit_char d" by (rule exI[of _ "n mod 16"]) simp
      then show ?thesis using less(1)[OF lt] False by (simp add: print_base.simps[of 16 n])
    qed (auto simp: print_base.simps[of 16 n])
  next
    case 2
    show ?case by (simp add: print_base.simps[of 16 n])
  next
    case 3
    show ?case
    proof (cases "n < 16")
      case False
      then have lt: "n div 16 < n" by simp
      show ?thesis using less(3)[OF lt] False digit_char_xdigit(2)[of "n mod 16"] by (simp add: print_base.simps[of 16 n])
    qed (simp add: print_base.simps[of 16 n] digit_char_xdigit)
  }
qed

lemma hex_chars: "\<forall>c \<in> set (hex w). is_xdigit c \<and> \<not> is_space c \<and> c \<notin> {CHR ''-'', CHR ''+'', CHR ''x'', CHR ''X''}"
proof
  fix c assume "c \<in> set (hex w)"
  then obtain d where "d < 16" "c = digit_char d" using print_hex_chars(1) unfolding hex_def by blast
  then show "is_xdigit c \<and> \<not> is_space c \<and> c \<notin> {CHR ''-'', CHR ''+'', CHR ''x'', CHR ''X''}"
    using digit_char_xdigit[of d] by simp
qed

lemma hex_nonempty [simp]: "hex w \<noteq> []"
  by (simp add: hex_def print_hex_chars)

lemma strtoul16_hex: "strtoul16 (hex w) = w"
proof -
  obtain c cs where h: "hex w = c # cs" by (cases "hex w") auto
  have c: "is_xdigit c" "\<not> is_space c" "c \<noteq> CHR ''-''" "c \<noteq> CHR ''+''" using hex_chars[of w] by (auto simp: h)
  have drop: "dropWhile is_space (hex w) = hex w" using c by (simp add: h)
  have "take 2 (hex w) \<notin> {''0x'', ''0X''}"
  proof
    assume "take 2 (hex w) \<in> {''0x'', ''0X''}"
    then have "CHR ''x'' \<in> set (take 2 (hex w)) \<or> CHR ''X'' \<in> set (take 2 (hex w))" by auto
    then have "CHR ''x'' \<in> set (hex w) \<or> CHR ''X'' \<in> set (hex w)" by (auto dest: in_set_takeD)
    with hex_chars[of w] show False by auto
  qed
  moreover have tw: "takeWhile is_xdigit (hex w) = hex w"
    using hex_chars[of w] unfolding takeWhile_eq_all_conv by blast
  moreover have "fold (\<lambda>c n. n * 16 + xdigit_val c) (hex w) 0 = unat w" by (simp add: hex_def print_hex_chars)
  moreover have "unat w < 2 ^ 64" using unsigned_less[of w, where ?'a = nat] by simp
  moreover have "hd (hex w) \<noteq> CHR ''-''" "hd (hex w) \<noteq> CHR ''+''" using c by (simp_all add: h)
  ultimately show ?thesis unfolding strtoul16_def Let_def drop by (simp add: tw del: takeWhile_eq_all_conv)
qed

lemma takeWhile_until: "(\<forall>c \<in> set xs. P c) \<Longrightarrow> \<not> P y \<Longrightarrow> takeWhile P (xs @ y # ys) = xs"
  by (induction xs) auto

lemma getRegionInfo_entry: "getRegionInfo (maps_entry s e rest) = Inr (s, e)"
proof -
  let ?m = "maps_entry s e rest"
  have m: "?m = hex s @ CHR ''-'' # (hex e @ CHR '' '' # rest)" by (simp add: maps_entry_def)
  have dash: "find_from (CHR ''-'') 0 ?m = Some (length (hex s))"
    using takeWhile_until[of "hex s" "\<lambda>x. x \<noteq> CHR ''-''" "CHR ''-''" "hex e @ CHR '' '' # rest"] hex_chars[of s]
    by (auto simp: find_from_def m)
  have d: "drop (Suc (length (hex s))) ?m = hex e @ CHR '' '' # rest" by (simp add: m)
  have "takeWhile (\<lambda>c. \<not> is_space c) (hex e @ CHR '' '' # rest) = hex e"
    using hex_chars[of e] by (intro takeWhile_until) (auto simp: is_space_def)
  then have space: "find_space (Suc (length (hex s))) ?m = Some (Suc (length (hex s)) + length (hex e))"
    by (simp add: find_space_def d) (simp add: m)
  have t: "take (length (hex s)) ?m = hex s" by (simp add: m)
  show ?thesis by (simp add: getRegionInfo_def dash space d t strtoul16_hex)
qed

section \<open>Properties of the entry points\<close>

text \<open>
  \<^bold>\<open>C29.\<close> An access to a live block is logged. When the address passes the heap test and lies in a
  live block of the table, the handler adds the access to the calling thread's log, with the
  identifier of that block and the offset from its start, and changes nothing else but the hook
  flag.
\<close>

theorem access_logged:
  assumes "mt_wf (rt_malloc_sizes st)" "mt_contain (rt_malloc_sizes st) addr"
    and "map_of (mt_alive (rt_malloc_sizes st)) k = Some pa" "addr \<in> block_bytes k (pa_size pa)"
    and "cur < length (threads st)" "th_ok h (threads st ! cur)" "\<And>xs. mset (order xs) = mset xs"
  shows "\<exists>st' th. handle_access order h addr f i sz w cur st = Inr st' \<and>
    log_load_store order h (loc_heap addr (ucast f) (ucast i) (ucast sz) (ucast (pa_id pa)) (ucast (addr - k))) w
      ((threads st ! cur)\<lparr>th_hooks := False\<rparr>) = Inr th \<and>
    threads st' = (threads st)[cur := th\<lparr>th_hooks := True\<rparr>] \<and> rt_malloc_sizes st' = rt_malloc_sizes st \<and>
    rt_heap st' = rt_heap st"
proof -
  let ?th = "(threads st ! cur)\<lparr>th_hooks := False\<rparr>"
  let ?rec = "loc_heap addr (ucast f) (ucast i) (ucast sz) (ucast (pa_id pa)) (ucast (addr - k))"
  have find: "find_id_offset (rt_malloc_sizes st) addr = Some (pa_id pa, addr - k)"
    using find_id_offset_iff[OF assms(1), of addr] assms(3,4) by blast
  have "th_ok h ?th" using assms(6) by (simp add: th_ok_def)
  then obtain th where th: "log_load_store order h ?rec w ?th = Inr th"
    using log_load_store_total[of h ?th order ?rec w] assms(7) by blast
  have "log_on order h ?rec w cur (put_thread cur ?th st) = Inr (put_thread cur th (put_thread cur ?th st))"
    using th assms(5) by (simp add: log_on_def)
  then show ?thesis
    using assms(2,5) th by (simp add: handle_access_def find)
qed

text \<open>
  \<^bold>\<open>C31.\<close> Instrumented allocation keeps the table true to the heap. If the library returns a block
  that meets no live block, then after the call of thread 0 the table is well formed, still covers
  the heap, and maps the new address to a fresh identifier and the requested size; a call of any
  other thread leaves the table alone.
\<close>

theorem malloc_inst_sound:
  assumes "mt_wf (rt_malloc_sizes st)" "mt_covers (rt_malloc_sizes st)" "mt_id (rt_malloc_sizes st) \<noteq> - 1"
    and "lc_malloc lc sz (rt_heap st) = (p, heap)" "fresh_block (rt_malloc_sizes st) p sz" "cur < length (threads st)"
  shows "\<exists>st'. malloc_inst lc bt sz f i cur st = Inr (p, st') \<and> rt_heap st' = heap \<and>
    mt_wf (rt_malloc_sizes st') \<and> mt_covers (rt_malloc_sizes st') \<and>
    (if th_index (threads st ! cur) = 0
     then map_of (mt_alive (rt_malloc_sizes st')) =
       (map_of (mt_alive (rt_malloc_sizes st)))(p \<mapsto> \<lparr>pa_id = mt_id (rt_malloc_sizes st), pa_size = sz\<rparr>)
     else rt_malloc_sizes st' = rt_malloc_sizes st)"
proof -
  have "smap_ok (mt_alive (rt_malloc_sizes st))" using assms(1) by (simp add: mt_wf_def)
  then have "map_of (mt_alive (mt_insert bt p sz f i (rt_malloc_sizes st))) =
      (map_of (mt_alive (rt_malloc_sizes st)))(p \<mapsto> \<lparr>pa_id = mt_id (rt_malloc_sizes st), pa_size = sz\<rparr>)"
    by (simp add: mt_insert_def)
  then show ?thesis
    using assms(4,6) mt_insert_wf[OF assms(1,5,3)] mt_insert_covers[OF assms(1,2)] assms(1,2)
    by (simp add: malloc_inst_def record_alloc_def)
qed

text \<open>
  The global segment is read correctly: when the first writable entry of the maps file is
  followed by an entry that is not a read-only part of a library, the result starts at the first
  entry and ends with the second when they are adjacent, and with the first otherwise.
\<close>

theorem global_region_found:
  assumes "\<forall>l \<in> set pre. \<not> contains l '' rw-p '' \<and> \<not> contains l '' rwxp ''"
    and "contains (maps_entry s e r1) '' rw-p ''"
    and "\<not> contains (maps_entry s2 e2 r2) ''lib'' \<or> contains (maps_entry s2 e2 r2) '' rw-p ''"
  shows "getGlobalRegion (pre @ maps_entry s e r1 # maps_entry s2 e2 r2 # post) =
    Inr (aseg s (if s2 = e then e2 else e))"
  using assms(1)
proof (induction pre)
  case Nil
  show ?case using assms(2,3) by (auto simp: getRegionInfo_entry)
qed simp

text \<open>
  Reallocating memory that the table does not know stops the program: the erase sits inside an
  assertion, so a pointer from an uninstrumented allocator or another thread makes it fail.
\<close>

theorem realloc_unknown_fails:
  assumes "ptr \<noteq> 0" "map_of (mt_alive (rt_malloc_sizes st)) ptr = None" "cur < length (threads st)"
    and "th_index (threads st ! cur) = 0"
  shows "\<exists>e. realloc_inst lc bt ptr sz f i cur st = Inl (AssertFail e)"
proof -
  obtain p heap where "lc_realloc lc ptr sz (rt_heap st) = (p, heap)" by fastforce
  with assms show ?thesis by (simp add: realloc_inst_def mt_erase_def)
qed

section \<open>The properties on a concrete program\<close>

text \<open>An allocator that hands out consecutive addresses; its state is the next free one.\<close>

definition bump_libc :: "size_t libc" where
  "bump_libc = \<lparr>lc_malloc = (\<lambda>n h. (h, h + n)), lc_realloc = (\<lambda>p n h. (h, h + n)),
     lc_memalign = (\<lambda>a n h. ((0, h), h + n)), lc_free = (\<lambda>p h. h), lc_memset = (\<lambda>p n h. h)\<rparr>"

definition sample_runtime :: "size_t runtime" where
  "sample_runtime = \<lparr>rt_heap = 16384, rt_malloc_sizes = sample_heap, rt_global = aseg 100 200,
     rt_xthread = \<lparr>xt_threads = [mk_thread True 0, mk_thread True 1], xt_alive = 2\<rparr>,
     rt_thread0_alloc = 0, rt_total_alloc = 0, rt_stderr = []\<rparr>"

lemma sample_contain: "mt_contain sample_heap 8200"
  by code_simp

theorem access_logged_witness:
  "\<exists>st' th. handle_access rev id 8200 1 2 8 True 1 sample_runtime = Inr st' \<and>
    log_load_store rev id (loc_heap 8200 1 2 8 1 8) True ((threads sample_runtime ! 1)\<lparr>th_hooks := False\<rparr>) = Inr th \<and>
    threads st' = (threads sample_runtime)[1 := th\<lparr>th_hooks := True\<rparr>]"
proof -
  have st: "rt_malloc_sizes sample_runtime = sample_heap" "1 < length (threads sample_runtime)"
    "th_ok id (threads sample_runtime ! 1)"
    by (simp_all add: sample_runtime_def mk_thread_def open_buffer_def th_ok_def)
  have "map_of (mt_alive sample_heap) 8192 = Some \<lparr>pa_id = 1, pa_size = 256\<rparr>" by (simp add: sample_alive)
  from access_logged[of sample_runtime 8200 8192 _ 1 id rev 1 2 8 True] this st sample_wf sample_contain
  show ?thesis by (auto simp: block_bytes_def)
qed

theorem malloc_inst_sound_witness:
  "\<exists>st'. malloc_inst bump_libc [3] 32 1 7 0 sample_runtime = Inr (16384, st') \<and> mt_wf (rt_malloc_sizes st')"
proof -
  have st: "rt_malloc_sizes sample_runtime = sample_heap" "0 < length (threads sample_runtime)"
    "rt_heap sample_runtime = 16384"
    by (simp_all add: sample_runtime_def)
  have "mt_id sample_heap = 3" by code_simp
  moreover have "fresh_block sample_heap 16384 32"
    by (auto simp: fresh_block_def block_fits_def sample_alive)
  ultimately show ?thesis
    using malloc_inst_sound[of sample_runtime bump_libc 32 16384 "16384 + 32" 0 "[3]" 1 7] sample_wf sample_covers st
    by (auto simp: bump_libc_def)
qed

theorem global_region_found_witness:
  "getGlobalRegion [''40-100 r-xp a.out'', maps_entry 256 512 ''rw-p a.out'', maps_entry 512 768 ''rw-p [heap]''] =
    Inr (aseg 256 768)"
proof -
  have h: "hex 256 = ''100''" "hex 512 = ''200''" "hex 768 = ''300''"
    by code_simp+
  have "\<not> contains ''40-100 r-xp a.out'' '' rw-p ''" "\<not> contains ''40-100 r-xp a.out'' '' rwxp ''"
    "contains (maps_entry 256 512 ''rw-p a.out'') '' rw-p ''"
    "contains (maps_entry 512 768 ''rw-p [heap]'') '' rw-p ''"
    by (simp_all add: maps_entry_def h)
  then show ?thesis
    using global_region_found[of "[''40-100 r-xp a.out'']" 256 512 "''rw-p a.out''"
        512 768 "''rw-p [heap]''" "[]"] by simp
qed

theorem realloc_unknown_fails_witness:
  "\<exists>e. realloc_inst bump_libc [3] 64 32 1 7 0 sample_runtime = Inl (AssertFail e)"
  by (rule realloc_unknown_fails)
    (simp_all add: sample_runtime_def sample_alive mk_thread_def open_buffer_def)

end
