(* ===== verification/RT_SpinLock.thy ===== *)
theory RT_SpinLock
  imports Huron_Prelude
begin

text \<open>
  The readers/writer spin lock that guards the allocation table, \<^verbatim>\<open>runtime/SharedSpinLock.h\<close>. Every
  atomic operation of the four methods is one step of a transition system over the two atomic
  variables and the program points of the threads; the atomics are taken as sequentially
  consistent. The lemmas show what the counter and the flag mean in every reachable state, and
  with that the exclusion of writers from everybody else.
\<close>

section \<open>Program points and steps\<close>

text \<open>
  \<open>WExchange\<close> is the loop head of \<^verbatim>\<open>lock\<close>, \<open>WDrain\<close> the loop that waits for the readers,
  \<open>Writing\<close> the section between \<^verbatim>\<open>lock\<close> and \<^verbatim>\<open>unlock\<close>. \<open>RSpin\<close>, \<open>RAdd\<close>, \<open>RCheck\<close> and \<open>RBack\<close> are the
  load, the increment, the second load and the fallback of \<^verbatim>\<open>lock_shared\<close>, \<open>Reading\<close> the section
  between \<^verbatim>\<open>lock_shared\<close> and \<^verbatim>\<open>unlock_shared\<close>.
\<close>

datatype lock_pc = Idle | WExchange | WDrain | Writing | RSpin | RAdd | RCheck | RBack | Reading

record spin_lock =
  sl_readers_count :: int
  sl_write_now :: bool
  sl_pc :: "lock_pc list"

definition sl_init :: "nat \<Rightarrow> spin_lock" where
  "sl_init n = \<lparr>sl_readers_count = 0, sl_write_now = False, sl_pc = replicate n Idle\<rparr>"

definition goto :: "nat \<Rightarrow> lock_pc \<Rightarrow> spin_lock \<Rightarrow> spin_lock" where
  "goto t p s = s\<lparr>sl_pc := (sl_pc s)[t := p]\<rparr>"

inductive sl_step :: "spin_lock \<Rightarrow> spin_lock \<Rightarrow> bool" where
  s_lock: "t < length (sl_pc s) \<Longrightarrow> sl_pc s ! t = Idle \<Longrightarrow> sl_step s (goto t WExchange s)"
| s_exchange: "t < length (sl_pc s) \<Longrightarrow> sl_pc s ! t = WExchange \<Longrightarrow>
    sl_step s (goto t (if sl_write_now s then WExchange else WDrain) (s\<lparr>sl_write_now := True\<rparr>))"
| s_drain: "t < length (sl_pc s) \<Longrightarrow> sl_pc s ! t = WDrain \<Longrightarrow>
    sl_step s (goto t (if sl_readers_count s \<noteq> 0 then WDrain else Writing) s)"
| s_unlock: "t < length (sl_pc s) \<Longrightarrow> sl_pc s ! t = Writing \<Longrightarrow>
    sl_step s (goto t Idle (s\<lparr>sl_write_now := False\<rparr>))"
| s_lock_shared: "t < length (sl_pc s) \<Longrightarrow> sl_pc s ! t = Idle \<Longrightarrow> sl_step s (goto t RSpin s)"
| s_spin: "t < length (sl_pc s) \<Longrightarrow> sl_pc s ! t = RSpin \<Longrightarrow>
    sl_step s (goto t (if sl_write_now s then RSpin else RAdd) s)"
| s_add: "t < length (sl_pc s) \<Longrightarrow> sl_pc s ! t = RAdd \<Longrightarrow>
    sl_step s (goto t RCheck (s\<lparr>sl_readers_count := sl_readers_count s + 1\<rparr>))"
| s_check: "t < length (sl_pc s) \<Longrightarrow> sl_pc s ! t = RCheck \<Longrightarrow>
    sl_step s (goto t (if sl_write_now s then RBack else Reading) s)"
| s_back: "t < length (sl_pc s) \<Longrightarrow> sl_pc s ! t = RBack \<Longrightarrow>
    sl_step s (goto t RSpin (s\<lparr>sl_readers_count := sl_readers_count s - 1\<rparr>))"
| s_unlock_shared: "t < length (sl_pc s) \<Longrightarrow> sl_pc s ! t = Reading \<Longrightarrow>
    sl_step s (goto t Idle (s\<lparr>sl_readers_count := sl_readers_count s - 1\<rparr>))"

inductive_cases sl_stepE: "sl_step s s'"

inductive sl_reach :: "nat \<Rightarrow> spin_lock \<Rightarrow> bool" for n where
  r_start: "sl_reach n (sl_init n)"
| r_step: "sl_reach n s \<Longrightarrow> sl_step s s' \<Longrightarrow> sl_reach n s'"

section \<open>The invariant\<close>

definition counted :: "lock_pc \<Rightarrow> bool" where
  "counted p \<longleftrightarrow> p = RCheck \<or> p = RBack \<or> p = Reading"

definition owner :: "lock_pc \<Rightarrow> bool" where
  "owner p \<longleftrightarrow> p = WDrain \<or> p = Writing"

definition n_at :: "(lock_pc \<Rightarrow> bool) \<Rightarrow> spin_lock \<Rightarrow> nat" where
  "n_at P s = length (filter P (sl_pc s))"

text \<open>
  The counter is the number of threads between an increment and its decrement, the flag is set
  exactly while one thread owns it, and a writing thread excludes reading ones.
\<close>

definition sl_inv :: "spin_lock \<Rightarrow> bool" where
  "sl_inv s \<longleftrightarrow>
     sl_readers_count s = int (n_at counted s) \<and>
     n_at owner s = (if sl_write_now s then 1 else 0) \<and>
     (Writing \<in> set (sl_pc s) \<longrightarrow> Reading \<notin> set (sl_pc s))"

lemma length_filter_update:
  "t < length xs \<Longrightarrow>
   int (length (filter P (xs[t := x]))) =
     int (length (filter P xs)) - (if P (xs ! t) then 1 else 0) + (if P x then 1 else 0)"
proof (induction xs arbitrary: t)
  case (Cons y ys)
  show ?case
  proof (cases t)
    case (Suc n)
    then have "int (length (filter P (ys[n := x]))) =
        int (length (filter P ys)) - (if P (ys ! n) then 1 else 0) + (if P x then 1 else 0)"
      using Cons by simp
    with Suc show ?thesis by (simp split: if_splits)
  qed simp
qed simp

lemma goto_sel [simp]:
  "sl_pc (goto t p s) = (sl_pc s)[t := p]"
  "sl_readers_count (goto t p s) = sl_readers_count s"
  "sl_write_now (goto t p s) = sl_write_now s"
  by (simp_all add: goto_def)

lemma n_at_goto:
  "t < length (sl_pc s) \<Longrightarrow>
   int (n_at P (goto t p s')) = int (n_at P s) - (if P (sl_pc s ! t) then 1 else 0) + (if P p then 1 else 0)"
  if "sl_pc s' = sl_pc s"
  using that length_filter_update[of t "sl_pc s" P p] by (simp add: n_at_def)

lemma set_update_other: "x \<in> set (xs[t := y]) \<Longrightarrow> x = y \<or> x \<in> set xs"
  using set_update_subset_insert by fastforce

lemma owner_unique:
  assumes "n_at owner s \<le> 1" "t < length (sl_pc s)" "owner (sl_pc s ! t)" "p \<in> set ((sl_pc s)[t := q])" "owner p" "\<not> owner q"
  shows False
proof -
  have "p \<in> set (filter owner ((sl_pc s)[t := q]))" using assms(4,5) by simp
  then have "0 < length (filter owner ((sl_pc s)[t := q]))" by (metis length_pos_if_in_set)
  moreover have "int (length (filter owner ((sl_pc s)[t := q]))) = int (length (filter owner (sl_pc s))) - 1"
    using length_filter_update[OF assms(2), of owner q] assms(3,6) by simp
  ultimately show False using assms(1) unfolding n_at_def by linarith
qed

lemma sl_inv_init: "sl_inv (sl_init n)"
  by (auto simp: sl_inv_def sl_init_def n_at_def counted_def owner_def)

lemmas sl_counts = n_at_goto[where P = counted] n_at_goto[where P = owner]

lemma counted_pos: "p \<in> set (sl_pc s) \<Longrightarrow> counted p \<Longrightarrow> 0 < n_at counted s"
  unfolding n_at_def by (rule length_pos_if_in_set[of p]) simp

lemma owner_pos: "p \<in> set (sl_pc s) \<Longrightarrow> owner p \<Longrightarrow> 0 < n_at owner s"
  unfolding n_at_def by (rule length_pos_if_in_set[of p]) simp

text \<open>
  Preservation, one lemma per kind of step: a move that leaves the two variables alone, and the
  moves that change one of them.
\<close>

lemma sl_inv_goto:
  assumes "sl_inv s" "t < length (sl_pc s)" "sl_pc s' = sl_pc s"
    and "sl_readers_count s' = sl_readers_count s - (if counted (sl_pc s ! t) then 1 else 0) + (if counted p then 1 else 0)"
    and "(if sl_write_now s' then 1 else 0) =
      (if sl_write_now s then 1 else 0) - (if owner (sl_pc s ! t) then 1 else 0) + (if owner p then 1 else (0 :: int))"
    and "p = Writing \<Longrightarrow> n_at counted s = 0"
    and "p = Reading \<Longrightarrow> \<not> sl_write_now s"
  shows "sl_inv (goto t p s')"
proof -
  have c: "int (n_at counted (goto t p s')) = sl_readers_count s'"
    using n_at_goto[OF assms(3,2), of counted p] assms(1,4) by (simp add: sl_inv_def)
  have o: "int (n_at owner (goto t p s')) = (if sl_write_now s' then 1 else 0)"
    using n_at_goto[OF assms(3,2), of owner p] assms(1,5) by (simp add: sl_inv_def split: if_splits)
  have "Reading \<notin> set (sl_pc (goto t p s'))" if w: "Writing \<in> set (sl_pc (goto t p s'))"
  proof
    assume r: "Reading \<in> set (sl_pc (goto t p s'))"
    from w have "p = Writing \<or> Writing \<in> set (sl_pc s)" using set_update_other assms(3) by fastforce
    moreover from r have "p = Reading \<or> Reading \<in> set (sl_pc s)" using set_update_other assms(3) by fastforce
    ultimately consider "p = Writing" "Reading \<in> set (sl_pc s)" | "Writing \<in> set (sl_pc s)" "p = Reading"
      | "Writing \<in> set (sl_pc s)" "Reading \<in> set (sl_pc s)" by auto
    then show False
    proof cases
      case 1
      then show ?thesis using assms(6) counted_pos[of Reading s] by (simp add: counted_def)
    next
      case 2
      then show ?thesis using assms(1,7) owner_pos[of Writing s] by (simp add: owner_def sl_inv_def)
    next
      case 3
      then show ?thesis using assms(1) by (simp add: sl_inv_def)
    qed
  qed
  with c o show ?thesis by (simp add: sl_inv_def split: if_splits)
qed

lemma sl_inv_owner: "sl_inv s \<Longrightarrow> t < length (sl_pc s) \<Longrightarrow> owner (sl_pc s ! t) \<Longrightarrow> sl_write_now s"
  using owner_pos[of "sl_pc s ! t" s] by (auto simp: sl_inv_def split: if_splits)

lemma sl_inv_step: "sl_step s s' \<Longrightarrow> sl_inv s \<Longrightarrow> sl_inv s'"
proof (induction rule: sl_step.induct)
  case (s_drain t s)
  have "n_at counted s = 0" if "sl_readers_count s = 0" using s_drain.prems that by (simp add: sl_inv_def)
  with s_drain show ?case by (intro sl_inv_goto[of s]) (simp_all add: counted_def owner_def split: if_splits)
next
  case (s_unlock t s)
  have "sl_write_now s" using sl_inv_owner[of s t] s_unlock by (simp add: owner_def)
  with s_unlock show ?case by (intro sl_inv_goto[of s]) (simp_all add: counted_def owner_def)
qed (rule sl_inv_goto, assumption, assumption, auto simp: counted_def owner_def)+

lemma sl_reach_inv: "sl_reach n s \<Longrightarrow> sl_inv s"
  by (induction rule: sl_reach.induct) (auto intro: sl_inv_init sl_inv_step)

lemma two_in_filter:
  "i < length xs \<Longrightarrow> j < length xs \<Longrightarrow> i < j \<Longrightarrow> P (xs ! i) \<Longrightarrow> P (xs ! j) \<Longrightarrow> 2 \<le> length (filter P xs)"
proof (induction xs arbitrary: i j)
  case (Cons x xs)
  show ?case
  proof (cases i)
    case 0
    then have "xs ! (j - 1) \<in> set (filter P xs)" using Cons.prems by (cases j) auto
    then have "0 < length (filter P xs)" by (rule length_pos_if_in_set)
    with 0 Cons.prems(4) show ?thesis by (simp add: Suc_le_eq)
  next
    case (Suc i')
    then obtain j' where "j = Suc j'" using Cons.prems by (cases j) auto
    with Suc Cons.IH[of i' j'] Cons.prems show ?thesis by auto
  qed
qed simp

section \<open>A waiting writer can proceed\<close>

definition drain_weight :: "lock_pc \<Rightarrow> nat" where
  "drain_weight p = (case p of RCheck \<Rightarrow> 2 | RBack \<Rightarrow> 1 | Reading \<Rightarrow> 1 | _ \<Rightarrow> 0)"

definition drain_left :: "spin_lock \<Rightarrow> nat" where
  "drain_left s = sum_list (map drain_weight (sl_pc s))"

lemma drain_left_goto:
  assumes "t < length (sl_pc s)" "drain_weight p < drain_weight (sl_pc s ! t)" "sl_pc s' = sl_pc s"
  shows "drain_left (goto t p s') < drain_left s"
proof -
  have "sum_list (map drain_weight (xs[t := p])) < sum_list (map drain_weight xs)"
    if "t < length xs" "drain_weight p < drain_weight (xs ! t)" for xs
    using that
  proof (induction xs arbitrary: t)
    case (Cons y ys)
    then show ?case by (cases t) auto
  qed simp
  with assms show ?thesis by (simp add: drain_left_def)
qed

text \<open>As long as the writer has to wait, some reader can move closer to leaving.\<close>

lemma drain_step:
  assumes "sl_inv s" "u < length (sl_pc s)" "sl_pc s ! u = WDrain" "sl_readers_count s \<noteq> 0"
  shows "\<exists>s'. sl_step s s' \<and> drain_left s' < drain_left s \<and> u < length (sl_pc s') \<and> sl_pc s' ! u = WDrain"
proof -
  have w: "sl_write_now s" using sl_inv_owner[OF assms(1,2)] assms(3) by (simp add: owner_def)
  have "filter counted (sl_pc s) \<noteq> []" using assms(1,4) by (auto simp: sl_inv_def n_at_def)
  then obtain t where t: "t < length (sl_pc s)" "counted (sl_pc s ! t)"
    by (metis filter_False in_set_conv_nth)
  then have ne: "t \<noteq> u" using assms(3) by (auto simp: counted_def)
  consider "sl_pc s ! t = RCheck" | "sl_pc s ! t = RBack" | "sl_pc s ! t = Reading" using t(2) by (auto simp: counted_def)
  then obtain s' p where "sl_step s (goto t p s')" "sl_pc s' = sl_pc s" "drain_weight p < drain_weight (sl_pc s ! t)"
  proof cases
    case 1
    then show ?thesis using that[of RBack s] s_check[OF t(1) 1] w by (simp add: drain_weight_def)
  next
    case 2
    then show ?thesis using that[OF s_back[OF t(1) 2]] by (simp add: drain_weight_def)
  next
    case 3
    then show ?thesis using that[OF s_unlock_shared[OF t(1) 3]] by (simp add: drain_weight_def)
  qed
  then show ?thesis
    using drain_left_goto[OF t(1)] assms(2,3) ne by (intro exI[of _ "goto t p s'"]) simp
qed

lemma drain_completes:
  assumes "sl_inv s" "u < length (sl_pc s)" "sl_pc s ! u = WDrain"
  shows "\<exists>s'. sl_step\<^sup>*\<^sup>* s s' \<and> sl_pc s' ! u = Writing"
  using assms
proof (induction "drain_left s" arbitrary: s rule: less_induct)
  case less
  show ?case
  proof (cases "sl_readers_count s = 0")
    case True
    then have "sl_step s (goto u Writing s)" using s_drain[OF less.prems(2,3)] by simp
    then show ?thesis using less.prems(2) by (intro exI[of _ "goto u Writing s"]) auto
  next
    case False
    then obtain s1 where s1: "sl_step s s1" "drain_left s1 < drain_left s" "u < length (sl_pc s1)" "sl_pc s1 ! u = WDrain"
      using drain_step[OF less.prems] by blast
    with less.hyps[OF s1(2) sl_inv_step[OF s1(1) less.prems(1)]] show ?thesis
      by (meson converse_rtranclp_into_rtranclp)
  qed
qed

section \<open>Properties of the lock\<close>

text \<open>
  \<^bold>\<open>C17.\<close> Mutual exclusion: in every reachable state, with any number of threads, a thread inside
  the exclusive section is alone. No other thread is inside the exclusive or the shared section.
\<close>

theorem spin_lock_exclusion:
  assumes "sl_reach n s" "t < length (sl_pc s)" "u < length (sl_pc s)" "t \<noteq> u" "sl_pc s ! t = Writing"
  shows "sl_pc s ! u \<noteq> Writing \<and> sl_pc s ! u \<noteq> Reading"
proof -
  have inv: "sl_inv s" by (rule sl_reach_inv[OF assms(1)])
  then have "Reading \<notin> set (sl_pc s)" using assms(2,5) by (metis nth_mem sl_inv_def)
  then have "sl_pc s ! u \<noteq> Reading" using assms(3) by (metis nth_mem)
  moreover have "sl_pc s ! u \<noteq> Writing"
  proof
    assume "sl_pc s ! u = Writing"
    then have "2 \<le> n_at owner s"
      using two_in_filter[of "min t u" "sl_pc s" "max t u" owner] assms
      by (auto simp: n_at_def owner_def min_def max_def)
    with inv show False by (simp add: sl_inv_def split: if_splits)
  qed
  ultimately show ?thesis by blast
qed

text \<open>
  \<^bold>\<open>C40.\<close> A writer is never locked out for good: from every reachable state in which a thread has set
  the flag and waits for the readers, there is a run in which it enters the exclusive section.
\<close>

theorem spin_lock_writer_enters:
  assumes "sl_reach n s" "t < length (sl_pc s)" "sl_pc s ! t = WDrain"
  shows "\<exists>s'. sl_step\<^sup>*\<^sup>* s s' \<and> sl_pc s' ! t = Writing"
  by (rule drain_completes[OF sl_reach_inv[OF assms(1)] assms(2,3)])

text \<open>A state in which thread 0 has drained and writes while thread 1 has to go back.\<close>

lemma sample_reach:
  "sl_reach 2 \<lparr>sl_readers_count = 0, sl_write_now = True, sl_pc = [WDrain, RAdd]\<rparr>"
proof -
  let ?s = "\<lambda>c w ps. \<lparr>sl_readers_count = c, sl_write_now = w, sl_pc = ps\<rparr>"
  have "sl_reach 2 (?s 0 False [Idle, Idle])"
    using r_start[of 2] by (simp add: sl_init_def numeral_2_eq_2)
  then have "sl_reach 2 (?s 0 False [Idle, RSpin])"
    by (rule r_step) (use s_lock_shared[of 1 "?s 0 False [Idle, Idle]"] in \<open>simp add: goto_def\<close>)
  then have "sl_reach 2 (?s 0 False [Idle, RAdd])"
    by (rule r_step) (use s_spin[of 1 "?s 0 False [Idle, RSpin]"] in \<open>simp add: goto_def\<close>)
  then have "sl_reach 2 (?s 0 False [WExchange, RAdd])"
    by (rule r_step) (use s_lock[of 0 "?s 0 False [Idle, RAdd]"] in \<open>simp add: goto_def\<close>)
  then show ?thesis
    by (rule r_step) (use s_exchange[of 0 "?s 0 False [WExchange, RAdd]"] in \<open>simp add: goto_def\<close>)
qed

theorem spin_lock_writer_enters_witness:
  "\<exists>s'. sl_step\<^sup>*\<^sup>* \<lparr>sl_readers_count = 0, sl_write_now = True, sl_pc = [WDrain, RAdd]\<rparr> s' \<and> sl_pc s' ! 0 = Writing"
  by (rule spin_lock_writer_enters[OF sample_reach]) simp_all

theorem spin_lock_exclusion_witness:
  "sl_pc \<lparr>sl_readers_count = 0, sl_write_now = True, sl_pc = [Writing, RAdd]\<rparr> ! 1 \<noteq> Reading"
proof -
  let ?s = "\<lparr>sl_readers_count = 0, sl_write_now = True, sl_pc = [Writing, RAdd]\<rparr>"
  have "sl_reach 2 ?s"
    by (rule r_step[OF sample_reach])
      (use s_drain[of 0 "\<lparr>sl_readers_count = 0, sl_write_now = True, sl_pc = [WDrain, RAdd]\<rparr>"] in \<open>simp add: goto_def\<close>)
  from spin_lock_exclusion[OF this, of 0 1] show ?thesis by simp
qed

end
