(* ===== verification/IN_Instrumenter.thy ===== *)
theory IN_Instrumenter
  imports RP_Redirect RT_Runtime
begin

text \<open>
  The passes that prepare a program for a profiling run: \<^verbatim>\<open>Instrumenter/Instrumenter.cpp\<close>, which puts a
  call of the runtime in front of every memory access and replaces the allocation functions, and
  \<^verbatim>\<open>AlignMalloc/AlignMalloc.cpp\<close>. Casts that the builder would fold are kept as instructions.
\<close>

section \<open>Interface functions\<close>

datatype ll_type = VoidT | Int8T | Int32T | Int64T | BytePtrT | BytePtrPtrT

text \<open>
  The function of the module with a name, if it has the type asked for; \<open>None\<close> when it has another one.
  A new declaration goes to the end of the module. \<open>ty\<close> gives the types of the functions of the module.
\<close>

definition getOrInsertFunction ::
  "(func_ptr \<Rightarrow> ll_type \<times> ll_type list) \<Rightarrow> string \<Rightarrow> ll_type \<times> ll_type list \<Rightarrow> ll_module \<Rightarrow> func_ptr option \<times> ll_module" where
  "getOrInsertFunction ty nm t M =
     (case find (\<lambda>p. fn_name (snd p) = nm) M of
        Some p \<Rightarrow> (if ty (fst p) = t then Some (fst p) else None, M)
      | None \<Rightarrow> let f = Suc (fold max (map fst M) 0)
                in (Some f, M @ [(f, \<lparr>fn_name = nm, fn_decl = True, fn_blocks = []\<rparr>)]))"

definition checkInterfaceFunction ::
  "(func_ptr \<Rightarrow> ll_type \<times> ll_type list) \<Rightarrow> string \<Rightarrow> ll_type \<times> ll_type list \<Rightarrow> ll_module \<Rightarrow> (func_ptr \<times> ll_module) result" where
  "checkInterfaceFunction ty nm t M =
     (case getOrInsertFunction ty nm t M of
        (Some f, M1) \<Rightarrow> Inr (f, M1)
      | (None, M1) \<Rightarrow> Inl (Aborted ''trying to redefine an Instrumenter interface function''))"

record instrumenter =
  it_accessCallback :: func_ptr
  it_modifiedAllocs :: "(string \<times> func_ptr) list"

definition in_doInitialization :: "(func_ptr \<Rightarrow> ll_type \<times> ll_type list) \<Rightarrow> ll_module \<Rightarrow> (instrumenter \<times> ll_module) result" where
  "in_doInitialization ty M =
     bindE (checkInterfaceFunction ty ''handle_access'' (VoidT, [Int64T, Int64T, Int64T, Int64T, Int8T]) M) (\<lambda>(acc, M1).
     bindE (checkInterfaceFunction ty ''malloc_inst'' (BytePtrT, [Int64T, Int64T, Int64T]) M1) (\<lambda>(ma, M2).
     bindE (checkInterfaceFunction ty ''calloc_inst'' (BytePtrT, [Int64T, Int64T, Int64T, Int64T]) M2) (\<lambda>(ca, M3).
     bindE (checkInterfaceFunction ty ''realloc_inst'' (BytePtrT, [BytePtrT, Int64T, Int64T, Int64T]) M3) (\<lambda>(re, M4).
     bindE (checkInterfaceFunction ty ''posix_memalign_inst'' (Int32T, [BytePtrPtrT, Int64T, Int64T, Int64T, Int64T]) M4) (\<lambda>(pm, M5).
       Inr (\<lparr>it_accessCallback = acc,
             it_modifiedAllocs = [(''malloc'', ma), (''calloc'', ca), (''realloc'', re), (''posix_memalign'', pm)]\<rparr>, M5))))))"

section \<open>Accesses\<close>

record in_options =
  io_startFrom :: u32
  io_reads :: bool
  io_writes :: bool
  io_atomics :: bool

definition getSizeOfAddress :: "inst \<Rightarrow> u32" where
  "getSizeOfAddress i = drop_bit 3 (of_nat (in_bits i))"

text \<open>The pointer operand, the size and whether the access writes; \<open>None\<close> for no access. The table of library functions is empty.\<close>

definition getAccessInfo :: "in_options \<Rightarrow> inst \<Rightarrow> (val \<times> u32 \<times> bool) option result" where
  "getAccessInfo opts i =
     bindE (case in_op i of
              OpLoad \<Rightarrow> if io_reads opts then bindE (arg_at i 0) (\<lambda>a. Inr (Some (a, False))) else Inr None
            | OpStore \<Rightarrow> if io_writes opts then bindE (arg_at i 1) (\<lambda>a. Inr (Some (a, True))) else Inr None
            | OpAtomicRMW \<Rightarrow> if io_atomics opts then bindE (arg_at i 0) (\<lambda>a. Inr (Some (a, True))) else Inr None
            | OpAtomicCmpXchg \<Rightarrow> if io_atomics opts then bindE (arg_at i 0) (\<lambda>a. Inr (Some (a, True))) else Inr None
            | _ \<Rightarrow> Inr None) (\<lambda>r.
       Inr (map_option (\<lambda>(addr, isWrite). (addr, getSizeOfAddress i, isWrite)) r))"

definition insertAccessCallback :: "instrumenter \<Rightarrow> inst_ptr \<Rightarrow> val \<Rightarrow> bool \<Rightarrow> u32 \<Rightarrow> u32 \<Rightarrow> u32 \<Rightarrow> inst list" where
  "insertAccessCallback it next addr isWrite typeBytes funcId instId =
     [mk_inst next OpPtrToInt [addr],
      (mk_inst (next + 1) OpCall [Result next, ConstInt (uint funcId), ConstInt (uint instId), ConstInt (uint typeBytes),
         ConstInt (if isWrite then 1 else 0)])\<lparr>in_callee := Some (it_accessCallback it)\<rparr>,
      mk_inst (next + 2) OpAsm []]"

definition instrumentMemAccessInst :: "in_options \<Rightarrow> instrumenter \<Rightarrow> inst_ptr \<Rightarrow> inst \<Rightarrow> u32 \<Rightarrow> u32 \<Rightarrow> inst list result" where
  "instrumentMemAccessInst opts it next i funcId instId =
     bindE (getAccessInfo opts i) (\<lambda>r.
       Inr (case r of None \<Rightarrow> []
            | Some (addr, typeBytes, isWrite) \<Rightarrow> insertAccessCallback it next addr isWrite typeBytes funcId instId))"

text \<open>The replacement of an allocation call takes over its uses, and with them its name.\<close>

definition getAllocsReplace :: "instrumenter \<Rightarrow> ll_module \<Rightarrow> inst \<Rightarrow> size_t \<Rightarrow> size_t \<Rightarrow> inst option result" where
  "getAllocsReplace it M ci fid iid =
     (case name_of M (in_callee ci) of None \<Rightarrow> Inr None
      | Some nm \<Rightarrow>
          let ids = [ConstInt (uint fid), ConstInt (uint iid)];
              new = (\<lambda>args. Some (ci\<lparr>in_callee := map_of (it_modifiedAllocs it) nm, in_args := args @ ids\<rparr>))
          in if nm = ''malloc'' then bindE (arg_at ci 0) (\<lambda>a. Inr (new [a]))
             else if nm = ''calloc'' \<or> nm = ''realloc'' then
               bindE (arg_at ci 0) (\<lambda>a. bindE (arg_at ci 1) (\<lambda>b. Inr (new [a, b])))
             else if nm = ''posix_memalign'' then
               bindE (arg_at ci 0) (\<lambda>a. bindE (arg_at ci 1) (\<lambda>b. bindE (arg_at ci 2) (\<lambda>c. Inr (new [a, b, c]))))
             else Inr None)"

section \<open>The module walk\<close>

text \<open>
  The builder inserts in front of the current instruction, so the walk never meets what it inserted.
  The state is the next free name and the number of changes; every call counts as one. Three names
  are set aside for every instruction.
\<close>

definition is_CallInst :: "inst \<Rightarrow> bool" where
  "is_CallInst i \<longleftrightarrow> in_op i = OpCall \<or> in_op i = OpAsm"

definition instrument_inst :: "in_options \<Rightarrow> instrumenter \<Rightarrow> ll_module \<Rightarrow> size_t \<Rightarrow> u32 \<Rightarrow> inst \<Rightarrow> inst_ptr \<times> size_t \<Rightarrow>
  (inst list \<times> inst_ptr \<times> size_t) result" where
  "instrument_inst opts it M funcCounter instCounter i st =
     bindE (instrumentMemAccessInst opts it (fst st) i (ucast funcCounter) instCounter) (\<lambda>pre.
     bindE (if is_CallInst i then getAllocsReplace it M i funcCounter (ucast instCounter) else Inr None) (\<lambda>rep.
       Inr (pre @ [case rep of None \<Rightarrow> i | Some r \<Rightarrow> r], fst st + 3,
            snd st + (if pre \<noteq> [] then 1 else 0) + (if is_CallInst i then 1 else 0))))"

primrec instrument_insts :: "in_options \<Rightarrow> instrumenter \<Rightarrow> ll_module \<Rightarrow> size_t \<Rightarrow> u32 \<Rightarrow> inst list \<Rightarrow> inst_ptr \<times> size_t \<Rightarrow>
  (inst list \<times> inst_ptr \<times> size_t) result" where
  "instrument_insts opts it M funcCounter instCounter [] st = Inr ([], st)"
| "instrument_insts opts it M funcCounter instCounter (i # is) st =
     bindE (instrument_inst opts it M funcCounter instCounter i st) (\<lambda>(new, st1).
     bindE (instrument_insts opts it M funcCounter (instCounter + 1) is st1) (\<lambda>(rest, st2). Inr (new @ rest, st2)))"

primrec instrument_blocks :: "in_options \<Rightarrow> instrumenter \<Rightarrow> ll_module \<Rightarrow> size_t \<Rightarrow> u32 \<Rightarrow> inst list list \<Rightarrow> inst_ptr \<times> size_t \<Rightarrow>
  (inst list list \<times> inst_ptr \<times> size_t) result" where
  "instrument_blocks opts it M funcCounter instCounter [] st = Inr ([], st)"
| "instrument_blocks opts it M funcCounter instCounter (bb # bbs) st =
     bindE (instrument_insts opts it M funcCounter instCounter bb st) (\<lambda>(new, st1).
     bindE (instrument_blocks opts it M funcCounter (instCounter + of_nat (length bb)) bbs st1) (\<lambda>(rest, st2).
       Inr (new # rest, st2)))"

primrec instrument_funcs :: "in_options \<Rightarrow> instrumenter \<Rightarrow> ll_module \<Rightarrow> size_t \<Rightarrow> ll_module \<Rightarrow> inst_ptr \<times> size_t \<Rightarrow>
  (ll_module \<times> inst_ptr \<times> size_t) result" where
  "instrument_funcs opts it M funcCounter [] st = Inr ([], st)"
| "instrument_funcs opts it M funcCounter (p # ps) st =
     bindE (if fn_decl (snd p) then Inr (p, st)
            else bindE (instrument_blocks opts it M funcCounter 0 (fn_blocks (snd p)) st) (\<lambda>(bbs, st1).
                   Inr ((fst p, (snd p)\<lparr>fn_blocks := bbs\<rparr>), st1))) (\<lambda>(p1, st1).
     bindE (instrument_funcs opts it M (funcCounter + 1) ps st1) (\<lambda>(ps1, st2). Inr (p1 # ps1, st2)))"

definition in_runOnModule :: "in_options \<Rightarrow> instrumenter \<Rightarrow> inst_ptr \<Rightarrow> ll_module \<Rightarrow> (bool \<times> ll_module) result" where
  "in_runOnModule opts it next M =
     bindE (instrument_funcs opts it M (ucast (io_startFrom opts)) M (next, 0)) (\<lambda>(M1, st). Inr (snd st > 0, M1))"

section \<open>Aligned allocation\<close>

text \<open>Every direct call of \<^verbatim>\<open>malloc\<close> becomes a call of \<^verbatim>\<open>aligned_alloc\<close> with alignment 64.\<close>

definition calls_malloc :: "ll_module \<Rightarrow> inst \<Rightarrow> bool" where
  "calls_malloc M i \<longleftrightarrow> is_CallInst i \<and> name_of M (in_callee i) = Some ''malloc''"

definition align_inst :: "ll_module \<Rightarrow> func_ptr \<Rightarrow> inst \<Rightarrow> inst result" where
  "align_inst M alignedAlloc i =
     (if calls_malloc M i
      then bindE (arg_at i 0) (\<lambda>size_arg. Inr (i\<lparr>in_callee := Some alignedAlloc, in_args := [ConstInt 64, size_arg]\<rparr>))
      else Inr i)"

definition align_runOnModule :: "(func_ptr \<Rightarrow> ll_type \<times> ll_type list) \<Rightarrow> ll_module \<Rightarrow> (bool \<times> ll_module) result" where
  "align_runOnModule ty M =
     (case getOrInsertFunction ty ''aligned_alloc'' (BytePtrT, [Int64T, Int64T]) M of
        (None, _) \<Rightarrow> Inl (AssertFail ''cast<Function>'')
      | (Some alignedAlloc, M1) \<Rightarrow>
          bindE (mapE (\<lambda>p. bindE (mapE (mapE (align_inst M alignedAlloc)) (fn_blocks (snd p))) (\<lambda>bbs.
                   Inr (fst p, (snd p)\<lparr>fn_blocks := bbs\<rparr>))) M1) (\<lambda>M2.
            Inr (list_ex (\<lambda>p. list_ex (calls_malloc M) (fn_insts (snd p))) M, M2)))"

section \<open>The shape of an instrumented module\<close>

text \<open>Every instruction becomes a group of instructions; its new names start at \<open>next\<close> plus a multiple of three.\<close>

definition groups :: "in_options \<Rightarrow> instrumenter \<Rightarrow> ll_module \<Rightarrow> inst_ptr \<Rightarrow> size_t \<Rightarrow> nat \<Rightarrow> inst list \<Rightarrow> inst list list \<Rightarrow> bool" where
  "groups opts it M next fc j is news \<longleftrightarrow>
     list_all2 (\<lambda>(j, i) new. \<exists>g c r. instrument_inst opts it M fc (of_nat j) i (next + 3 * g, c) = Inr (new, r)) (enumerate j is) news"

definition expanded :: "in_options \<Rightarrow> instrumenter \<Rightarrow> ll_module \<Rightarrow> inst_ptr \<Rightarrow> nat \<times> func_ptr \<times> func_ir \<Rightarrow> func_ptr \<times> func_ir \<Rightarrow> bool" where
  "expanded opts it M next kp p' \<longleftrightarrow>
     (case kp of (k, f, b) \<Rightarrow> fst p' = f \<and> fn_name (snd p') = fn_name b \<and> fn_decl (snd p') = fn_decl b \<and>
        (if fn_decl b then snd p' = b
         else \<exists>news. groups opts it M next (ucast (io_startFrom opts) + of_nat k) 0 (fn_insts b) news \<and> fn_insts (snd p') = concat news))"

lemma groups_shift: "groups opts it M (next + 3 * d) fc j is news \<Longrightarrow> groups opts it M next fc j is news"
  unfolding groups_def
proof (erule list_all2_mono, clarsimp)
  fix j i new g c a b
  assume "instrument_inst opts it M fc (word_of_nat j) i (next + 3 * d + 3 * g, c) = Inr (new, a, b)"
  then have "instrument_inst opts it M fc (word_of_nat j) i (next + 3 * (d + g), c) = Inr (new, a, b)"
    by (simp add: algebra_simps)
  then show "\<exists>g c a b. instrument_inst opts it M fc (word_of_nat j) i (next + 3 * g, c) = Inr (new, a, b)" by blast
qed

lemma groups_append:
  "groups opts it M next fc j is news \<Longrightarrow> groups opts it M next fc (j + length is) is' news' \<Longrightarrow>
   groups opts it M next fc j (is @ is') (news @ news')"
  by (simp add: groups_def enumerate_append_eq list_all2_appendI)

lemma instrument_insts_groups:
  "instrument_insts opts it M fc (of_nat j) is (n, c) = Inr (res, st) \<Longrightarrow>
   fst st = n + 3 * length is \<and> (\<exists>news. res = concat news \<and> groups opts it M n fc j is news)"
proof (induction "is" arbitrary: j n c res st)
  case Nil
  then show ?case by (auto simp: groups_def)
next
  case (Cons i "is")
  from Cons.prems obtain new c1 rest where
    i: "instrument_inst opts it M fc (of_nat j) i (n, c) = Inr (new, n + 3, c1)"
    and r: "instrument_insts opts it M fc (of_nat (Suc j)) is (n + 3, c1) = Inr (rest, st)" and out: "res = new @ rest"
    by (auto simp: err_simps instrument_inst_def add.commute split: prod.splits)
  from Cons.IH[OF r] obtain news where "fst st = n + 3 + 3 * length is" "rest = concat news"
    "groups opts it M (n + 3 * 1) fc (Suc j) is news" by auto
  moreover from this(3) have "groups opts it M n fc (Suc j) is news" by (rule groups_shift)
  moreover have "groups opts it M n fc j [i] [new]"
    using i by (simp add: groups_def) (metis add.right_neutral mult_0_right)
  ultimately show ?case
    using out groups_append[of opts it M n fc j "[i]" "[new]" "is" news] by (auto intro: exI[of _ "new # news"])
qed

lemma instrument_blocks_groups:
  "instrument_blocks opts it M fc (of_nat j) bbs (n, c) = Inr (res, st) \<Longrightarrow>
   fst st = n + 3 * length (concat bbs) \<and> (\<exists>news. concat res = concat news \<and> groups opts it M n fc j (concat bbs) news)"
proof (induction bbs arbitrary: j n c res st)
  case Nil
  then show ?case by (auto simp: groups_def)
next
  case (Cons bb bbs)
  from Cons.prems obtain new n1 c1 rest where
    b: "instrument_insts opts it M fc (of_nat j) bb (n, c) = Inr (new, n1, c1)"
    and r: "instrument_blocks opts it M fc (of_nat (j + length bb)) bbs (n1, c1) = Inr (rest, st)" and out: "res = new # rest"
    by (auto simp: err_simps split: prod.splits)
  from instrument_insts_groups[OF b] obtain news1 where n1: "n1 = n + 3 * length bb" "new = concat news1"
    "groups opts it M n fc j bb news1" by auto
  from Cons.IH[OF r] obtain news2 where "fst st = n1 + 3 * length (concat bbs)" "concat rest = concat news2"
    "groups opts it M n1 fc (j + length bb) (concat bbs) news2" by auto
  moreover from this(3) have "groups opts it M n fc (j + length bb) (concat bbs) news2"
    unfolding n1(1) by (rule groups_shift)
  ultimately show ?case
    using out n1 groups_append[OF n1(3), of "concat bbs" news2] by (auto intro: exI[of _ "news1 @ news2"])
qed

lemma expanded_shift: "expanded opts it M (next + 3 * d) kp p' \<Longrightarrow> expanded opts it M next kp p'"
  by (auto simp: expanded_def split: if_splits dest: groups_shift)

lemma instrument_funcs_expanded:
  "instrument_funcs opts it M (ucast (io_startFrom opts) + of_nat k) ps (n, c) = Inr (ps', st) \<Longrightarrow>
   list_all2 (expanded opts it M n) (enumerate k ps) ps'"
proof (induction ps arbitrary: k n c ps' st)
  case Nil
  then show ?case by simp
next
  case (Cons p ps)
  let ?fc = "ucast (io_startFrom opts) + of_nat k :: size_t"
  from Cons.prems obtain p1 n1 c1 rest where
    b: "(if fn_decl (snd p) then Inr (p, n, c)
         else bindE (instrument_blocks opts it M ?fc 0 (fn_blocks (snd p)) (n, c)) (\<lambda>(bbs, st1).
                Inr ((fst p, (snd p)\<lparr>fn_blocks := bbs\<rparr>), st1))) = Inr (p1, n1, c1)"
    and r1: "instrument_funcs opts it M (?fc + 1) ps (n1, c1) = Inr (rest, st)"
    and ps': "ps' = p1 # rest"
    by (auto simp: err_simps split: prod.splits)
  have r: "instrument_funcs opts it M (ucast (io_startFrom opts) + of_nat (Suc k)) ps (n1, c1) = Inr (rest, st)"
    using r1 by (simp add: ac_simps)
  have e: "expanded opts it M n (k, p) p1 \<and> (\<exists>d. n1 = n + 3 * d)"
  proof (cases "fn_decl (snd p)")
    case True
    then show ?thesis using b by (auto simp: expanded_def split: prod.splits intro: exI[of _ "0 :: nat"])
  next
    case False
    then obtain bbs where bl: "instrument_blocks opts it M ?fc (of_nat 0) (fn_blocks (snd p)) (n, c) = Inr (bbs, n1, c1)"
      and p1: "p1 = (fst p, (snd p)\<lparr>fn_blocks := bbs\<rparr>)"
      using b by (auto simp: err_simps split: prod.splits)
    from instrument_blocks_groups[OF bl] show ?thesis
      using False p1 by (auto simp: expanded_def fn_insts_def split: prod.splits)
  qed
  then obtain d where d: "n1 = n + 3 * d" by blast
  have "list_all2 (expanded opts it M n) (enumerate (Suc k) ps) rest"
    using Cons.IH[OF r] unfolding d by (rule list_all2_mono) (rule expanded_shift)
  then show ?case using e ps' by simp
qed

lemma in_runOnModule_expanded:
  "in_runOnModule opts it next M = Inr (ch, M') \<Longrightarrow> list_all2 (expanded opts it M next) (enumerate 0 M) M'"
  using instrument_funcs_expanded[of opts it M 0 M "next" 0] by (auto simp: in_runOnModule_def err_simps)

lemma groups_nth:
  assumes "groups opts it M nx fc 0 is news" "j < length is"
  obtains g c r where "instrument_inst opts it M fc (of_nat j) (is ! j) (nx + 3 * g, c) = Inr (news ! j, r)" "j < length news"
  using list_all2_nthD[OF assms(1)[unfolded groups_def], of j] list_all2_lengthD[OF assms(1)[unfolded groups_def]] assms(2)
  by (auto simp: nth_enumerate_eq)

lemma concat_split: "j < length xss \<Longrightarrow> concat xss = concat (take j xss) @ xss ! j @ concat (drop (Suc j) xss)"
  by (metis concat.simps(2) concat_append id_take_nth_drop)

lemma expanded_nth:
  assumes "in_runOnModule opts it nx M = Inr (ch, M')" "k < length M"
  shows "expanded opts it M nx (k, M ! k) (M' ! k)"
  using list_all2_nthD[OF in_runOnModule_expanded[OF assms(1)], of k] assms(2) by (simp add: nth_enumerate_eq)

section \<open>Numbers\<close>

text \<open>All accesses are instrumented unless an option says otherwise.\<close>

definition all_accesses :: "in_options \<Rightarrow> bool" where
  "all_accesses opts \<longleftrightarrow> io_reads opts \<and> io_writes opts \<and> io_atomics opts"

lemma access_group:
  assumes "instrument_inst opts it M fc ic i (n, c) = Inr (new, r)" "pointer_index (in_op i) = Some (a, w)" "all_accesses opts"
  shows "new = insertAccessCallback it n (in_args i ! a) w (getSizeOfAddress i) (ucast fc) ic @ [i]"
  using assms
  by (cases "in_op i")
     (auto simp: instrument_inst_def instrumentMemAccessInst_def getAccessInfo_def all_accesses_def pointer_index_def arg_at_def
        err_simps is_CallInst_def split: if_splits)

lemma infos_lookup:
  assumes "foldE (\<lambda>(k, i) infos. case map_of prof (n, word_of_nat k) of
          None \<Rightarrow> Inr infos
        | Some info \<Rightarrow> bindE (isCorrectInst M info i) (\<lambda>ok.
            bindE (guardE ok (AssertFail ''isCorrectInst'')) (\<lambda>_. Inr (umap_put (in_ptr i) info infos))))
       (enumerate j0 is) m = Inr m'" "distinct (map in_ptr is)"
  shows "(\<forall>p. p \<notin> in_ptr ` set is \<longrightarrow> map_of m' p = map_of m p) \<and>
    (\<forall>j < length is. map_of m (in_ptr (is ! j)) = None \<longrightarrow> map_of m' (in_ptr (is ! j)) = map_of prof (n, word_of_nat (j0 + j)))"
  using assms
proof (induction "is" arbitrary: j0 m)
  case Nil
  then show ?case by simp
next
  case (Cons i "is")
  obtain m1 where
    s: "(case map_of prof (n, word_of_nat j0) of None \<Rightarrow> Inr m
         | Some info \<Rightarrow> bindE (isCorrectInst M info i) (\<lambda>ok.
            bindE (guardE ok (AssertFail ''isCorrectInst'')) (\<lambda>_. Inr (umap_put (in_ptr i) info m)))) = Inr m1"
    and r: "foldE (\<lambda>(k, i) infos. case map_of prof (n, word_of_nat k) of
          None \<Rightarrow> Inr infos
        | Some info \<Rightarrow> bindE (isCorrectInst M info i) (\<lambda>ok.
            bindE (guardE ok (AssertFail ''isCorrectInst'')) (\<lambda>_. Inr (umap_put (in_ptr i) info infos))))
       (enumerate (Suc j0) is) m1 = Inr m'"
    using Cons.prems(1) by (auto simp: err_simps)
  have m1: "map_of m1 p = (if p = in_ptr i \<and> map_of prof (n, word_of_nat j0) \<noteq> None then map_of prof (n, word_of_nat j0) else map_of m p)" for p
    using s by (auto simp: err_simps map_of_umap_put split: option.splits)
  have d: "in_ptr i \<notin> in_ptr ` set is" "distinct (map in_ptr is)" using Cons.prems(2) by auto
  note IH = Cons.IH[OF r d(2)]
  have "map_of m' (in_ptr ((i # is) ! j)) = map_of prof (n, word_of_nat (j0 + j))"
    if j: "j < length (i # is)" "map_of m (in_ptr ((i # is) ! j)) = None" for j
  proof (cases j)
    case 0
    then show ?thesis using IH d(1) m1 j(2) by auto
  next
    case (Suc j')
    then have "in_ptr (is ! j') \<noteq> in_ptr i" using d(1) j(1) by (metis Suc_less_eq image_eqI length_Cons nth_mem)
    then show ?thesis using Suc IH m1 j by simp
  qed
  then show ?case using IH m1 by auto
qed

lemma small_id: "x < 2 ^ 32 \<Longrightarrow> uint (of_nat x :: u32) = int x" "x < 2 ^ 32 \<Longrightarrow> uint (of_nat x :: u64) = int x"
  by (simp_all add: unsigned_of_nat take_bit_nat_eq_self)

lemma cast_id: "x < 2 ^ 32 \<Longrightarrow> ucast (of_nat x :: u64) = (of_nat x :: u32)" "x < 2 ^ 32 \<Longrightarrow> ucast (of_nat x :: u32) = (of_nat x :: u64)"
  by (subst ucast_eq, subst small_id, assumption, simp)+

text \<open>
  \<^bold>\<open>C5.\<close> The profiling pass and the repair pass number the program alike. In a module that the
  instrumenter has processed, a profiled access is preceded by a call of \<^verbatim>\<open>handle_access\<close> whose
  arguments evaluate to the address accessed, the position of the function in the module, the
  position of the instruction in the function, the size and the kind of the access. RedirectPtr, run on
  the module before instrumentation, applies exactly the profile entry with those two numbers to this
  instruction. This needs the default \<^verbatim>\<open>start-from\<close> and counts below \<open>2 ^ 32\<close>.
\<close>

theorem profile_numbers_agree:
  assumes "in_runOnModule opts it nx M = Inr (ch, M')" "io_startFrom opts = 0" "all_accesses opts"
    and "k < length M" "M ! k = (f, b)" "\<not> fn_decl b" "j < length (fn_insts b)" "fn_insts b ! j = i"
    and "pointer_index (in_op i) = Some (a, w)" "length M \<le> 2 ^ 32" "length (fn_insts b) \<le> 2 ^ 32"
    and "distinct (map in_ptr (fn_insts b))" "inst_infos M0 prof k b = Inr infos"
  shows "\<exists>pre cast call fence suf. fn_insts (snd (M' ! k)) = pre @ [cast, call, fence, i] @ suf \<and>
      in_callee call = Some (it_accessCallback it) \<and>
      map (val_of oth (exec_inst oth cast env)) (in_args call) =
        [val_of oth env (in_args i ! a), of_nat k, of_nat j, ucast (getSizeOfAddress i), if w then 1 else 0] \<and>
      map_of infos (in_ptr i) = map_of prof (of_nat k, of_nat j)"
proof -
  from expanded_nth[OF assms(1,4)] assms(2,5,6) obtain news where
    g: "groups opts it M nx (of_nat k) 0 (fn_insts b) news" "fn_insts (snd (M' ! k)) = concat news"
    by (auto simp: expanded_def)
  from groups_nth[OF g(1) assms(7)] obtain n c r where
    s: "instrument_inst opts it M (of_nat k) (of_nat j) i (n, c) = Inr (news ! j, r)" "j < length news"
    unfolding assms(8) by blast
  have new: "news ! j = insertAccessCallback it n (in_args i ! a) w (getSizeOfAddress i) (ucast (of_nat k :: size_t)) (of_nat j) @ [i]"
    by (rule access_group[OF s(1) assms(9,3)])
  have ids: "k < 2 ^ 32" "j < 2 ^ 32" using assms(4,7,10,11) by linarith+
  have "map_of infos (in_ptr i) = map_of prof (of_nat k, of_nat j)"
    using infos_lookup[OF assms(13)[unfolded inst_infos_def] assms(12)] assms(7,8) by auto
  moreover define cast call where "cast = mk_inst n OpPtrToInt [in_args i ! a]"
    and "call = (mk_inst (n + 1) OpCall [Result n, ConstInt (uint (ucast (of_nat k :: size_t) :: u32)), ConstInt (uint (of_nat j :: u32)),
        ConstInt (uint (getSizeOfAddress i)), ConstInt (if w then 1 else 0)])\<lparr>in_callee := Some (it_accessCallback it)\<rparr>"
  moreover have "fn_insts (snd (M' ! k)) = concat (take j news) @ [cast, call, mk_inst (n + 2) OpAsm [], i] @ concat (drop (Suc j) news)"
    unfolding g(2) concat_split[OF s(2)] new insertAccessCallback_def cast_def call_def by simp
  moreover have "map (val_of oth (exec_inst oth cast env)) (in_args call) =
      [val_of oth env (in_args i ! a), of_nat k, of_nat j, ucast (getSizeOfAddress i), if w then 1 else 0]"
    by (simp add: val_of_def exec_inst_def mk_inst_def cast_def call_def cast_id[OF ids(1)] cast_id[OF ids(2)])
  moreover have "in_callee call = Some (it_accessCallback it)" by (simp add: call_def)
  ultimately show ?thesis by (intro exI conjI)
qed

section \<open>What stays of the program\<close>

definition alloc_arity :: "string \<Rightarrow> nat option" where
  "alloc_arity nm = (if nm = ''malloc'' then Some 1 else if nm = ''calloc'' \<or> nm = ''realloc'' then Some 2
                     else if nm = ''posix_memalign'' then Some 3 else None)"

text \<open>What becomes of an instruction: only allocation calls change.\<close>

definition kept_inst :: "instrumenter \<Rightarrow> ll_module \<Rightarrow> size_t \<Rightarrow> nat \<times> inst \<Rightarrow> inst" where
  "kept_inst it M fc ji =
     (case ji of (j, i) \<Rightarrow> if \<not> is_CallInst i then i
        else case name_of M (in_callee i) of None \<Rightarrow> i
          | Some nm \<Rightarrow> (case alloc_arity nm of None \<Rightarrow> i
              | Some a \<Rightarrow> i\<lparr>in_callee := map_of (it_modifiedAllocs it) nm,
                           in_args := take a (in_args i) @ [ConstInt (uint fc), ConstInt (int (j mod 2 ^ 32))]\<rparr>))"

lemma take_small: "0 < length xs \<Longrightarrow> [xs ! 0] = take (Suc 0) xs" "1 < length xs \<Longrightarrow> [xs ! 0, xs ! 1] = take 2 xs"
  "2 < length xs \<Longrightarrow> [xs ! 0, xs ! 1, xs ! 2] = take 3 xs"
  by (cases xs; cases "tl xs"; cases "tl (tl xs)"; auto simp: numeral_2_eq_2 numeral_3_eq_3)+

lemma uint_inst_id: "uint (ucast (of_nat j :: u32) :: size_t) = int (j mod 2 ^ 32)"
  by (simp add: unsigned_ucast_eq unsigned_of_nat take_bit_eq_mod zmod_int)

lemma getAllocsReplace_kept:
  assumes "getAllocsReplace it M i fc (ucast (of_nat j :: u32)) = Inr rep" "is_CallInst i"
  shows "(case rep of None \<Rightarrow> i | Some r \<Rightarrow> r) = kept_inst it M fc (j, i)"
proof (cases "name_of M (in_callee i)")
  case None
  then show ?thesis using assms by (auto simp: getAllocsReplace_def kept_inst_def)
next
  case (Some nm)
  note defs = getAllocsReplace_def kept_inst_def alloc_arity_def err_simps arg_at_def Let_def uint_inst_id
  consider "nm = ''malloc''" | "nm = ''calloc''" | "nm = ''realloc''" | "nm = ''posix_memalign''"
    | "nm \<notin> {''malloc'', ''calloc'', ''realloc'', ''posix_memalign''}" by blast
  then show ?thesis
  proof cases
    case 1
    then show ?thesis using assms Some take_small(1)[of "in_args i", symmetric] by (auto simp: defs split: if_splits)
  next
    case 2
    then show ?thesis using assms Some take_small(2)[of "in_args i", symmetric] by (auto simp: defs split: if_splits)
  next
    case 3
    then show ?thesis using assms Some take_small(2)[of "in_args i", symmetric] by (auto simp: defs split: if_splits)
  next
    case 4
    then show ?thesis using assms Some take_small(3)[of "in_args i", symmetric] by (auto simp: defs split: if_splits)
  next
    case 5
    then show ?thesis using assms Some by (simp add: defs)
  qed
qed

lemma group_kept:
  assumes "instrument_inst opts it M fc (of_nat j) i (n, c) = Inr (new, r)" "nx \<le> n" "in_ptr i < nx"
  shows "filter (\<lambda>x. in_ptr x < nx) new = [kept_inst it M fc (j, i)]"
proof -
  from assms(1) obtain pre rep where new: "new = pre @ [case rep of None \<Rightarrow> i | Some r \<Rightarrow> r]"
    and pre: "instrumentMemAccessInst opts it n i (ucast fc) (of_nat j) = Inr pre"
    and rep: "(if is_CallInst i then getAllocsReplace it M i fc (ucast (of_nat j :: u32)) else Inr None) = Inr rep"
    by (auto simp: instrument_inst_def err_simps)
  have "filter (\<lambda>x. in_ptr x < nx) pre = []"
    using pre assms(2) by (auto simp: instrumentMemAccessInst_def insertAccessCallback_def mk_inst_def err_simps split: option.splits)
  moreover have k: "(case rep of None \<Rightarrow> i | Some r \<Rightarrow> r) = kept_inst it M fc (j, i)"
    using rep getAllocsReplace_kept[of it M i fc j rep] by (auto simp: kept_inst_def split: if_splits)
  moreover have "in_ptr (kept_inst it M fc (j, i)) = in_ptr i"
    by (auto simp: kept_inst_def split: option.splits)
  ultimately show ?thesis using assms(3) by (simp add: new)
qed

lemma groups_kept:
  assumes "groups opts it M nx fc j is news" "\<forall>i \<in> set is. in_ptr i < nx"
  shows "filter (\<lambda>x. in_ptr x < nx) (concat news) = map (kept_inst it M fc) (enumerate j is)"
  using assms
proof (induction "is" arbitrary: j news)
  case Nil
  then show ?case by (simp add: groups_def)
next
  case (Cons i "is")
  then obtain new news' g c r where n: "news = new # news'" "groups opts it M nx fc (Suc j) is news'"
    "instrument_inst opts it M fc (of_nat j) i (nx + 3 * g, c) = Inr (new, r)"
    by (auto simp: groups_def list_all2_Cons1)
  show ?case using Cons.IH[OF n(2)] Cons.prems(2) group_kept[OF n(3), of nx] by (simp add: n(1))
qed

text \<open>
  \<^bold>\<open>C25.\<close> Instrumentation only adds instructions. The functions keep their order, names and
  declarations, and after removing the instructions with new names, every function consists of its
  old instructions in their old order; a direct call of an allocation function calls the replacement
  with the same leading arguments, the number of the function and the number of the instruction, and
  every other instruction is untouched.
\<close>

theorem instrumenter_keeps_program:
  assumes "in_runOnModule opts it nx M = Inr (ch, M')" "k < length M" "M ! k = (f, b)"
    and "\<forall>i \<in> set (fn_insts b). in_ptr i < nx"
  shows "length M' = length M \<and> fst (M' ! k) = f \<and> fn_name (snd (M' ! k)) = fn_name b \<and>
    fn_decl (snd (M' ! k)) = fn_decl b \<and>
    filter (\<lambda>x. in_ptr x < nx) (fn_insts (snd (M' ! k))) =
      (if fn_decl b then fn_insts b
       else map (kept_inst it M (ucast (io_startFrom opts) + of_nat k)) (enumerate 0 (fn_insts b)))"
proof -
  have "filter (\<lambda>x. in_ptr x < nx) (fn_insts b) = fn_insts b" using assms(4) by simp
  then show ?thesis
    using expanded_nth[OF assms(1,2)] list_all2_lengthD[OF in_runOnModule_expanded[OF assms(1)]] groups_kept assms(3,4)
    by (auto simp: expanded_def split: if_splits)
qed

section \<open>Types of the calls\<close>

definition has_type :: "(val \<Rightarrow> ll_type) \<Rightarrow> val \<Rightarrow> ll_type \<Rightarrow> bool" where
  "has_type vt v t =
     (case v of ConstInt c \<Rightarrow> (case t of Int8T \<Rightarrow> - (2 ^ 7) \<le> c \<and> c < 2 ^ 8 | Int32T \<Rightarrow> - (2 ^ 31) \<le> c \<and> c < 2 ^ 32
                              | Int64T \<Rightarrow> - (2 ^ 63) \<le> c \<and> c < 2 ^ 64 | _ \<Rightarrow> False)
      | _ \<Rightarrow> vt v = t)"

text \<open>The prototypes of the library and of the runtime (\<^verbatim>\<open>Runtime.cpp\<close>).\<close>

definition prototypes :: "(string \<times> ll_type \<times> ll_type list) list" where
  "prototypes =
     [(''malloc'', BytePtrT, [Int64T]), (''calloc'', BytePtrT, [Int64T, Int64T]), (''realloc'', BytePtrT, [BytePtrT, Int64T]),
      (''posix_memalign'', Int32T, [BytePtrPtrT, Int64T, Int64T]),
      (''handle_access'', VoidT, [Int64T, Int64T, Int64T, Int64T, Int8T]),
      (''malloc_inst'', BytePtrT, [Int64T, Int64T, Int64T]), (''calloc_inst'', BytePtrT, [Int64T, Int64T, Int64T, Int64T]),
      (''realloc_inst'', BytePtrT, [BytePtrT, Int64T, Int64T, Int64T]),
      (''posix_memalign_inst'', Int32T, [BytePtrPtrT, Int64T, Int64T, Int64T, Int64T])]"

definition typed_call :: "(val \<Rightarrow> ll_type) \<Rightarrow> ll_module \<Rightarrow> inst \<Rightarrow> bool" where
  "typed_call vt M i =
     (case Option.bind (name_of M (in_callee i)) (map_of prototypes) of None \<Rightarrow> True
      | Some (r, ps) \<Rightarrow> vt (Result (in_ptr i)) = r \<and> list_all2 (has_type vt) (in_args i) ps)"

definition well_typed :: "(val \<Rightarrow> ll_type) \<Rightarrow> ll_module \<Rightarrow> bool" where
  "well_typed vt M \<longleftrightarrow> (\<forall>p \<in> set M. \<forall>i \<in> set (fn_insts (snd p)). typed_call vt M i)"

definition extends :: "ll_module \<Rightarrow> ll_module \<Rightarrow> bool" where
  "extends M M1 \<longleftrightarrow> (\<exists>ds. M1 = M @ ds \<and> (\<forall>d \<in> set ds. fn_blocks (snd d) = [])) \<and> distinct (map fst M1)"

lemma extends_trans: "extends M M1 \<Longrightarrow> extends M1 M2 \<Longrightarrow> extends M M2"
  by (auto simp: extends_def)

lemma extends_name: "extends M M1 \<Longrightarrow> name_of M (Some f) = Some nm \<Longrightarrow> name_of M1 (Some f) = Some nm"
  by (auto simp: extends_def name_of_def map_add_Some_iff)

lemma fold_max_ge: "a \<le> fold max xs a \<and> (\<forall>x \<in> set xs. x \<le> fold max xs a)" for a :: nat
proof (induction xs arbitrary: a)
  case (Cons y ys)
  from Cons[of "max y a"] show ?case by auto
qed simp

lemma checkInterfaceFunction_ok:
  assumes "checkInterfaceFunction ty nm t M = Inr (f, M1)" "distinct (map fst M)"
  shows "extends M M1 \<and> name_of M1 (Some f) = Some nm"
proof (cases "find (\<lambda>p. fn_name (snd p) = nm) M")
  case (Some p)
  then have "p \<in> set M" "fn_name (snd p) = nm" by (auto simp: find_Some_iff)
  then have "name_of M (Some (fst p)) = Some nm"
    using map_of_is_SomeI[OF assms(2), of "fst p" "snd p"] by (simp add: name_of_def)
  then show ?thesis using assms Some
    by (auto simp: checkInterfaceFunction_def getOrInsertFunction_def extends_def split: if_splits)
next
  case None
  let ?f = "Suc (fold max (map fst M) 0)"
  have "?f \<notin> fst ` set M" using fold_max_ge[of 0 "map fst M"] by fastforce
  moreover from this have "map_of M ?f = None" by (simp add: map_of_eq_None_iff)
  ultimately show ?thesis using assms None
    by (auto simp: checkInterfaceFunction_def getOrInsertFunction_def Let_def extends_def name_of_def map_add_def)
qed

lemma extends_distinct: "extends M M1 \<Longrightarrow> distinct (map fst M1)"
  by (simp add: extends_def)

lemma in_doInitialization_ok:
  assumes "in_doInitialization ty M0 = Inr (it, M)" "distinct (map fst M0)"
  shows "extends M0 M" "name_of M (Some (it_accessCallback it)) = Some ''handle_access''"
    "alloc_arity nm \<noteq> None \<Longrightarrow> name_of M (map_of (it_modifiedAllocs it) nm) = Some (nm @ ''_inst'')"
proof -
  from assms(1) obtain acc M1 ma M2 ca M3 re M4 pm t1 t2 t3 t4 t5 where
    c: "checkInterfaceFunction ty ''handle_access'' t1 M0 = Inr (acc, M1)"
      "checkInterfaceFunction ty ''malloc_inst'' t2 M1 = Inr (ma, M2)"
      "checkInterfaceFunction ty ''calloc_inst'' t3 M2 = Inr (ca, M3)"
      "checkInterfaceFunction ty ''realloc_inst'' t4 M3 = Inr (re, M4)"
      "checkInterfaceFunction ty ''posix_memalign_inst'' t5 M4 = Inr (pm, M)"
    and it: "it = \<lparr>it_accessCallback = acc,
             it_modifiedAllocs = [(''malloc'', ma), (''calloc'', ca), (''realloc'', re), (''posix_memalign'', pm)]\<rparr>"
    by (auto simp: in_doInitialization_def err_simps)
  note o1 = checkInterfaceFunction_ok[OF c(1) assms(2)]
  note o2 = checkInterfaceFunction_ok[OF c(2) extends_distinct[OF conjunct1[OF o1]]]
  note o3 = checkInterfaceFunction_ok[OF c(3) extends_distinct[OF conjunct1[OF o2]]]
  note o4 = checkInterfaceFunction_ok[OF c(4) extends_distinct[OF conjunct1[OF o3]]]
  note o5 = checkInterfaceFunction_ok[OF c(5) extends_distinct[OF conjunct1[OF o4]]]
  from o5 have e4: "extends M4 M" by simp
  with o4 have e3: "extends M3 M" by (blast intro: extends_trans)
  with o3 have e2: "extends M2 M" by (blast intro: extends_trans)
  with o2 have e1: "extends M1 M" by (blast intro: extends_trans)
  with o1 show "extends M0 M" "name_of M (Some (it_accessCallback it)) = Some ''handle_access''"
    by (auto simp: it intro: extends_trans extends_name)
  have "name_of M (Some ma) = Some ''malloc_inst''" using o2 e2 by (blast intro: extends_name)
  moreover have "name_of M (Some ca) = Some ''calloc_inst''" using o3 e3 by (blast intro: extends_name)
  moreover have "name_of M (Some re) = Some ''realloc_inst''" using o4 e4 by (blast intro: extends_name)
  moreover have "name_of M (Some pm) = Some ''posix_memalign_inst''" using o5 by simp
  ultimately show "name_of M (map_of (it_modifiedAllocs it) nm) = Some (nm @ ''_inst'')" if "alloc_arity nm \<noteq> None"
    using that by (auto simp: it alloc_arity_def split: if_splits)
qed

lemma name_of_expanded:
  "list_all2 (expanded opts it M nx) (enumerate k ps) ps' \<Longrightarrow> name_of ps' = name_of ps"
proof -
  assume "list_all2 (expanded opts it M nx) (enumerate k ps) ps'"
  then have "map_option fn_name (map_of ps' f) = map_option fn_name (map_of ps f)" for f
    by (induction ps arbitrary: k ps') (auto simp: list_all2_Cons1 expanded_def split: prod.splits)
  then show ?thesis by (auto simp: name_of_def fun_eq_iff split: option.splits)
qed

text \<open>The names that the program may mention.\<close>

definition old_names :: "inst_ptr \<Rightarrow> ll_module \<Rightarrow> bool" where
  "old_names nx M \<longleftrightarrow> (\<forall>p \<in> set M. \<forall>i \<in> set (fn_insts (snd p)). in_ptr i < nx \<and>
     (\<forall>q. Result q \<in> set (in_args i) \<longrightarrow> q < nx) \<and> (\<forall>f. in_callee i = Some f \<longrightarrow> f \<in> fst ` set M))"

definition new_types :: "inst_ptr \<Rightarrow> (val \<Rightarrow> ll_type) \<Rightarrow> val \<Rightarrow> ll_type" where
  "new_types nx vt v =
     (case v of Result q \<Rightarrow> if q < nx then vt v else if (q - nx) mod 3 = 0 then Int64T else VoidT | _ \<Rightarrow> vt v)"

lemma has_type_new: "has_type vt v t \<Longrightarrow> (\<And>q. v = Result q \<Longrightarrow> q < nx) \<Longrightarrow> has_type (new_types nx vt) v t"
  by (cases v) (auto simp: has_type_def new_types_def)

lemma typed_call_new:
  assumes "typed_call vt M0 i" "in_ptr i < nx" "\<forall>q. Result q \<in> set (in_args i) \<longrightarrow> q < nx"
    and "name_of M (in_callee i) = name_of M0 (in_callee i)"
  shows "typed_call (new_types nx vt) M i"
proof -
  have "list_all2 (has_type (new_types nx vt)) (in_args i) ps" if "list_all2 (has_type vt) (in_args i) ps" for ps
    using that assms(3) by (auto simp: list_all2_conv_all_nth intro!: has_type_new) (metis nth_mem)
  then show ?thesis using assms(1,2,4)
    by (auto simp: typed_call_def new_types_def split: option.splits)
qed

lemma extends_name_eq: "extends M0 M \<Longrightarrow> (\<And>f. c = Some f \<Longrightarrow> f \<in> fst ` set M0) \<Longrightarrow> name_of M c = name_of M0 c"
  using weak_map_of_SomeI[of _ _ M0]
  by (cases c) (fastforce simp: extends_def name_of_def map_add_def split: option.splits)+

lemma const_type: "0 \<le> c \<Longrightarrow> c < 2 ^ 64 \<Longrightarrow> has_type vt (ConstInt c) Int64T"
  by (simp add: has_type_def)

lemma kept_typed:
  assumes "typed_call vt M0 i" "in_ptr i < nx" "\<forall>q. Result q \<in> set (in_args i) \<longrightarrow> q < nx"
    and "name_of M (in_callee i) = name_of M0 (in_callee i)"
    and "\<And>nm. alloc_arity nm \<noteq> None \<Longrightarrow> name_of M (map_of (it_modifiedAllocs it) nm) = Some (nm @ ''_inst'')"
  shows "typed_call (new_types nx vt) M (kept_inst it M fc (j, i))"
proof -
  let ?vt = "new_types nx vt"
  have t: "typed_call ?vt M i" by (rule typed_call_new[OF assms(1-4)])
  consider "kept_inst it M fc (j, i) = i" |
    nm a where "name_of M (in_callee i) = Some nm" "alloc_arity nm = Some a"
      "kept_inst it M fc (j, i) = i\<lparr>in_callee := map_of (it_modifiedAllocs it) nm,
         in_args := take a (in_args i) @ [ConstInt (uint fc), ConstInt (int (j mod 2 ^ 32))]\<rparr>"
    unfolding kept_inst_def
    by (cases "is_CallInst i"; cases "name_of M (in_callee i)"; cases "alloc_arity (the (name_of M (in_callee i)))") auto
  then show ?thesis
  proof cases
    case 1
    then show ?thesis using t by simp
  next
    case 2
    then obtain r ps where p: "map_of prototypes nm = Some (r, ps)" "map_of prototypes (nm @ ''_inst'') = Some (r, ps @ [Int64T, Int64T])"
      "length ps = a"
      by (auto simp: alloc_arity_def prototypes_def split: if_splits)
    have ps: "?vt (Result (in_ptr i)) = r" "list_all2 (has_type ?vt) (in_args i) ps"
      using t 2(1) p(1) by (auto simp: typed_call_def)
    have take: "take a (in_args i) = in_args i" using list_all2_lengthD[OF ps(2)] p(3) by simp
    have "has_type ?vt (ConstInt (uint fc)) Int64T"
      using uint_lt2p[of fc] by (intro const_type) simp_all
    moreover have "has_type ?vt (ConstInt (int (j mod 2 ^ 32))) Int64T"
      using mod_less_divisor[of "2 ^ 32" j] by (intro const_type) simp_all
    ultimately show ?thesis
      using ps p(2) assms(5)[of nm] 2 unfolding typed_call_def
      by (simp add: take list_all2_appendI)
  qed
qed

lemma callback_typed:
  assumes "x \<in> set (insertAccessCallback it (nx + 3 * g) addr w bytes fid iid)"
    and "name_of M (Some (it_accessCallback it)) = Some ''handle_access''"
  shows "typed_call (new_types nx vt) M x"
proof -
  have c: "has_type (new_types nx vt) (ConstInt (uint n)) Int64T" for n :: u32
    using uint_lt2p[of n] by (intro const_type) simp_all
  have "(Suc (nx + 3 * g) - nx) mod 3 = 1" by (simp add: Suc_diff_le mod_Suc)
  then have r: "new_types nx vt (Result (Suc (nx + 3 * g))) = VoidT" by (simp add: new_types_def)
  have a: "has_type (new_types nx vt) (Result (nx + 3 * g)) Int64T" by (simp add: has_type_def new_types_def)
  have b: "has_type (new_types nx vt) (ConstInt (if w then 1 else 0)) Int8T" by (simp add: has_type_def)
  have h: "map_of prototypes ''handle_access'' = Some (VoidT, [Int64T, Int64T, Int64T, Int64T, Int8T])"
    by (simp add: prototypes_def)
  from assms(1) consider "in_callee x = None" | "in_callee x = Some (it_accessCallback it)" "in_ptr x = Suc (nx + 3 * g)"
    "in_args x = [Result (nx + 3 * g), ConstInt (uint fid), ConstInt (uint iid), ConstInt (uint bytes), ConstInt (if w then 1 else 0)]"
    by (auto simp: insertAccessCallback_def mk_inst_def)
  then show ?thesis
  proof cases
    case 1
    then show ?thesis by (simp add: typed_call_def name_of_def)
  next
    case 2
    then show ?thesis using assms(2) a b c h r by (simp add: typed_call_def)
  qed
qed

lemma group_typed:
  assumes "instrument_inst opts it M fc (of_nat j) i (nx + 3 * g, c) = Inr (new, r)" "x \<in> set new"
    and "name_of M (Some (it_accessCallback it)) = Some ''handle_access''"
    and "typed_call vt' M (kept_inst it M fc (j, i))" "vt' = new_types nx vt"
  shows "typed_call vt' M x"
proof -
  from assms(1) obtain pre rep where new: "new = pre @ [case rep of None \<Rightarrow> i | Some r \<Rightarrow> r]"
    and pre: "instrumentMemAccessInst opts it (nx + 3 * g) i (ucast fc) (of_nat j) = Inr pre"
    and rep: "(if is_CallInst i then getAllocsReplace it M i fc (ucast (of_nat j :: u32)) else Inr None) = Inr rep"
    by (auto simp: instrument_inst_def err_simps)
  have k: "(case rep of None \<Rightarrow> i | Some r \<Rightarrow> r) = kept_inst it M fc (j, i)"
    using rep getAllocsReplace_kept[of it M i fc j rep] by (auto simp: kept_inst_def split: if_splits)
  show ?thesis
  proof (cases "x \<in> set pre")
    case True
    with pre obtain addr w bytes where "x \<in> set (insertAccessCallback it (nx + 3 * g) addr w bytes (ucast fc) (of_nat j))"
      by (auto simp: instrumentMemAccessInst_def err_simps split: option.splits)
    then show ?thesis unfolding assms(5) by (rule callback_typed) (rule assms(3))
  next
    case False
    then show ?thesis using assms(2,4) new k by simp
  qed
qed

lemma typed_call_name: "name_of M' = name_of M \<Longrightarrow> typed_call vt M' i = typed_call vt M i"
  by (simp add: typed_call_def)

lemma concat_member: "x \<in> set (concat xss) \<Longrightarrow> \<exists>j < length xss. x \<in> set (xss ! j)"
  by (auto simp: in_set_conv_nth[of _ xss])

text \<open>
  \<^bold>\<open>C15.\<close> Instrumentation preserves types. If the calls of a module fit the prototypes of the
  functions they name, and the interface functions were found or declared by \<^verbatim>\<open>doInitialization\<close>, then
  every call of the instrumented module fits too, in arguments and result, for a typing that agrees
  with the old one on all values of the program: the callbacks fit \<^verbatim>\<open>handle_access\<close>, and the replaced
  allocation calls fit the functions of the runtime and return what the program expects.
\<close>

theorem instrumenter_well_typed:
  assumes "in_doInitialization ty M0 = Inr (it, M)" "distinct (map fst M0)" "well_typed vt M0" "old_names nx M0"
    and "in_runOnModule opts it nx M = Inr (ch, M')"
  shows "\<exists>vt'. (\<forall>v. (\<forall>q. v = Result q \<longrightarrow> q < nx) \<longrightarrow> vt' v = vt v) \<and> well_typed vt' M'"
proof -
  let ?vt = "new_types nx vt"
  note init = in_doInitialization_ok[OF assms(1,2)]
  note exp = in_runOnModule_expanded[OF assms(5)]
  have old: "typed_call ?vt M (kept_inst it M fc (j, i)) \<and> typed_call ?vt M i"
    if i: "p \<in> set M" "i \<in> set (fn_insts (snd p))" for p i fc j
  proof -
    have p: "p \<in> set M0" using i init(1) by (auto simp: extends_def fn_insts_def)
    then have "name_of M (in_callee i) = name_of M0 (in_callee i)"
      using assms(4) i(2) by (intro extends_name_eq[OF init(1)]) (auto simp: old_names_def)
    moreover have "typed_call vt M0 i" "in_ptr i < nx" "\<forall>q. Result q \<in> set (in_args i) \<longrightarrow> q < nx"
      using assms(3,4) p i(2) by (auto simp: well_typed_def old_names_def)
    ultimately show ?thesis using kept_typed[of vt M0 i nx M it fc j] init(3) typed_call_new[of vt M0 i nx M] by blast
  qed
  have "typed_call ?vt M x" if x: "p' \<in> set M'" "x \<in> set (fn_insts (snd p'))" for p' x
  proof -
    from x(1) obtain k where k: "k < length M'" "p' = M' ! k" by (auto simp: in_set_conv_nth)
    then have kM: "k < length M" using list_all2_lengthD[OF exp] by simp
    obtain f b where b: "M ! k = (f, b)" by (cases "M ! k")
    have mem: "(f, b) \<in> set M" using nth_mem[OF kM] b by simp
    note e = expanded_nth[OF assms(5) kM, unfolded b, folded k(2)]
    show ?thesis
    proof (cases "fn_decl b")
      case True
      then show ?thesis using e old[OF mem] x(2) by (simp add: expanded_def)
    next
      case False
      then obtain fc news where g: "groups opts it M nx fc 0 (fn_insts b) news" "fn_insts (snd p') = concat news"
        using e by (auto simp: expanded_def)
      from x(2) g(2) obtain j where j: "j < length news" "x \<in> set (news ! j)" by (metis concat_member)
      have jl: "j < length (fn_insts b)" using list_all2_lengthD[OF g(1)[unfolded groups_def]] j(1) by simp
      from groups_nth[OF g(1) jl] obtain n c r where
        "instrument_inst opts it M fc (of_nat j) (fn_insts b ! j) (nx + 3 * n, c) = Inr (news ! j, r)" by blast
      then show ?thesis by (rule group_typed[OF _ j(2) init(2)]) (use old[OF mem] jl in auto)
    qed
  qed
  then have "well_typed ?vt M'" by (simp add: well_typed_def typed_call_name[OF name_of_expanded[OF exp]])
  moreover have "\<forall>v. (\<forall>q. v = Result q \<longrightarrow> q < nx) \<longrightarrow> ?vt v = vt v" by (auto simp: new_types_def split: val.splits)
  ultimately show ?thesis by blast
qed

section \<open>A sample module\<close>

text \<open>A program that allocates 32 bytes and reads from them.\<close>

definition sample_alloc :: inst where
  "sample_alloc = \<lparr>in_ptr = 10, in_op = OpCall, in_callee = Some 1, in_args = [ConstInt 32], in_bits = 0\<rparr>"

definition sample_load :: inst where
  "sample_load = \<lparr>in_ptr = 11, in_op = OpLoad, in_callee = None, in_args = [Result 10], in_bits = 64\<rparr>"

definition sample_main :: func_ir where
  "sample_main = \<lparr>fn_name = ''main'', fn_decl = False, fn_blocks = [[sample_alloc], [sample_load]]\<rparr>"

definition sample_module :: ll_module where
  "sample_module = [(1, \<lparr>fn_name = ''malloc'', fn_decl = True, fn_blocks = []\<rparr>), (2, sample_main)]"

definition sample_decls :: ll_module where
  "sample_decls = map (\<lambda>(f, nm). (f, \<lparr>fn_name = nm, fn_decl = True, fn_blocks = []\<rparr>))
     [(3, ''handle_access''), (4, ''malloc_inst''), (5, ''calloc_inst''), (6, ''realloc_inst''), (7, ''posix_memalign_inst'')]"

definition sample_it :: instrumenter where
  "sample_it = \<lparr>it_accessCallback = 3,
     it_modifiedAllocs = [(''malloc'', 4), (''calloc'', 5), (''realloc'', 6), (''posix_memalign'', 7)]\<rparr>"

definition sample_opts :: in_options where
  "sample_opts = \<lparr>io_startFrom = 0, io_reads = True, io_writes = True, io_atomics = True\<rparr>"

definition sample_result :: ll_module where
  "sample_result = [(1, \<lparr>fn_name = ''malloc'', fn_decl = True, fn_blocks = []\<rparr>),
     (2, sample_main\<lparr>fn_blocks :=
        [[sample_alloc\<lparr>in_callee := Some 4, in_args := [ConstInt 32, ConstInt 1, ConstInt 0]\<rparr>],
         insertAccessCallback sample_it 103 (Result 10) False 8 1 1 @ [sample_load]]\<rparr>)] @ sample_decls"

lemmas sample_defs = sample_alloc_def sample_load_def sample_main_def sample_module_def sample_decls_def sample_it_def
  sample_opts_def sample_result_def

lemma sample_initialised: "in_doInitialization ty sample_module = Inr (sample_it, sample_module @ sample_decls)"
  by (simp add: sample_defs in_doInitialization_def checkInterfaceFunction_def getOrInsertFunction_def)

lemma sample_instrumented: "in_runOnModule sample_opts sample_it 100 (sample_module @ sample_decls) = Inr (True, sample_result)"
  by (simp add: sample_defs in_runOnModule_def instrument_inst_def instrumentMemAccessInst_def getAccessInfo_def is_CallInst_def
      getAllocsReplace_def name_of_def arg_at_def getSizeOfAddress_def insertAccessCallback_def mk_inst_def)

theorem profile_numbers_agree_witness:
  "\<exists>pre cast call fence suf. fn_insts (snd (sample_result ! 1)) = pre @ [cast, call, fence, sample_load] @ suf \<and>
      in_callee call = Some 3 \<and>
      map (val_of (\<lambda>_. 0) (exec_inst (\<lambda>_. 0) cast (\<lambda>_. 4096))) (in_args call) = [4096, 1, 1, 8, 0]"
proof -
  have i: "inst_infos sample_module [] 1 sample_main = Inr []"
    by (simp add: inst_infos_def sample_defs fn_insts_def)
  show ?thesis
    using profile_numbers_agree[OF sample_instrumented, of 1 2 sample_main 1 sample_load 0 False sample_module "[]" "[]" "\<lambda>_. 0" "\<lambda>_. 4096"] i
    by (simp add: sample_defs all_accesses_def fn_insts_def pointer_index_def val_of_def getSizeOfAddress_def)
qed

theorem instrumenter_keeps_program_witness:
  "filter (\<lambda>x. in_ptr x < 100) (fn_insts (snd (sample_result ! 1))) =
     [sample_alloc\<lparr>in_callee := Some 4, in_args := [ConstInt 32, ConstInt 1, ConstInt 0]\<rparr>, sample_load]"
  using instrumenter_keeps_program[OF sample_instrumented, of 1 2 sample_main]
  by (simp add: sample_defs fn_insts_def kept_inst_def is_CallInst_def name_of_def alloc_arity_def)

theorem instrumenter_well_typed_witness:
  "\<exists>vt. vt (Result 10) = BytePtrT \<and> well_typed vt sample_result"
proof -
  have "well_typed (\<lambda>_. BytePtrT) sample_module" "old_names 100 sample_module" "distinct (map fst sample_module)"
    by (simp_all add: sample_defs well_typed_def old_names_def fn_insts_def typed_call_def name_of_def prototypes_def has_type_def)
  from instrumenter_well_typed[OF sample_initialised this(3,1,2) sample_instrumented]
  obtain vt where vt: "\<forall>v. (\<forall>q. v = Result q \<longrightarrow> q < 100) \<longrightarrow> vt v = BytePtrT" "well_typed vt sample_result" by blast
  then show ?thesis by (intro exI[of _ vt]) simp
qed


end
