(* ===== verification/SP_SecondPass.thy ===== *)
theory SP_SecondPass
  imports RT_Runtime
begin

text \<open>
  The second pass runtime: \<^verbatim>\<open>second_pass/SecondPass.cpp\<close>, \<^verbatim>\<open>xthread.h\<close> and \<^verbatim>\<open>GetGlobal.h\<close>. It pads the
  allocations of the first thread and redirects addresses through a table of offsets.
\<close>

section \<open>Reading numbers with \<^verbatim>\<open>fscanf\<close>\<close>

text \<open>
  One conversion \<^verbatim>\<open>%u\<close>. At the end of the input nothing is stored and the result is end of file; a
  character that is no digit is a matching failure, after a sign has been consumed. Numbers go
  through a 64-bit conversion that saturates, and are cut to 32 bits.
\<close>

datatype scan = ScanEOF | ScanMismatch | Scanned u32

definition strtoul10 :: "bool \<Rightarrow> string \<Rightarrow> u64" where
  "strtoul10 neg ds =
     (if dec_val ds \<ge> 2 ^ 64 then - 1 else if neg then - word_of_nat (dec_val ds) else word_of_nat (dec_val ds))"

definition scan_u :: "string \<Rightarrow> scan \<times> string" where
  "scan_u s =
     (let r = dropWhile is_space s
      in if r = [] then (ScanEOF, [])
         else let neg = (hd r = CHR ''-'');
                  r1 = (if neg \<or> hd r = CHR ''+'' then tl r else r);
                  ds = takeWhile is_digit r1
              in if ds = [] then (ScanMismatch, r1)
                 else (Scanned (ucast (strtoul10 neg ds)), dropWhile is_digit r1))"

text \<open>A variable keeps its value unless the conversion stores one.\<close>

definition scan_into :: "u32 option \<Rightarrow> string \<Rightarrow> u32 option \<times> bool \<times> string" where
  "scan_into x s = (case scan_u s of (Scanned v, r) \<Rightarrow> (Some v, True, r) | (_, r) \<Rightarrow> (x, False, r))"

text \<open>\<^verbatim>\<open>fscanf(fp, "%u %u", &x, &y)\<close> stops at the first conversion that fails.\<close>

definition scan_two :: "u32 option \<Rightarrow> u32 option \<Rightarrow> string \<Rightarrow> u32 option \<times> u32 option \<times> string" where
  "scan_two x y s =
     (case scan_into x s of (x', True, r) \<Rightarrow> (case scan_into y r of (y', _, r') \<Rightarrow> (x', y', r'))
      | (x', False, r) \<Rightarrow> (x', y, r))"

lemma scan_into_rest: "scan_into x s = (y, ok, r) \<Longrightarrow> length r \<le> length s \<and> (ok \<longrightarrow> length r < length s)"
proof -
  assume a: "scan_into x s = (y, ok, r)"
  define r0 where "r0 = dropWhile is_space s"
  define r1 where "r1 = (if hd r0 = CHR ''-'' \<or> hd r0 = CHR ''+'' then tl r0 else r0)"
  have "length r0 \<le> length s" unfolding r0_def by (rule length_dropWhile_le)
  then have 1: "length r1 \<le> length s" unfolding r1_def by auto
  have 2: "length (takeWhile is_digit r1) + length (dropWhile is_digit r1) = length r1"
    by (metis length_append takeWhile_dropWhile_id)
  have "r = [] \<and> \<not> ok \<or> r = r1 \<and> \<not> ok \<or> r = dropWhile is_digit r1 \<and> takeWhile is_digit r1 \<noteq> []"
    using a unfolding scan_into_def scan_u_def Let_def r0_def[symmetric] r1_def[symmetric]
    by (auto split: if_splits)
  then show ?thesis
  proof (elim disjE conjE)
    assume r: "r = dropWhile is_digit r1" and "takeWhile is_digit r1 \<noteq> []"
    from this(2) have "0 < length (takeWhile is_digit r1)" by simp
    then have "length (dropWhile is_digit r1) < length s" using 1 2 by linarith
    then show ?thesis by (simp add: r)
  qed (use 1 in simp_all)
qed

lemma scan_two_rest: "scan_two x y s = (x', y', r) \<Longrightarrow> length r \<le> length s"
  unfolding scan_two_def
  by (auto split: prod.splits bool.splits dest!: scan_into_rest intro: le_trans)

section \<open>The layout table\<close>

text \<open>\<open>None\<close> is a member that no statement has set yet.\<close>

record malloc_information =
  mi2_id :: u32
  mi2_start :: "size_t option"
  mi2_size :: "size_t option"
  mi2_paddedSize :: size_t
  mi2_offsetLength :: u32
  mi2_offsets :: "u32 option list"

text \<open>\<open>am_findMap\<close> maps a start to the position of its entry.\<close>

record all_malloc_information =
  am_findMap :: "(size_t \<times> nat) list"
  am_allMallocs :: "malloc_information list"
  am_currentIndex :: u32
  am_size :: u32

definition uninit2 :: "'a option \<Rightarrow> 'a result" where
  "uninit2 x = (case x of None \<Rightarrow> Inl (Undefined ''uninitialised variable'') | Some v \<Rightarrow> Inr v)"

primrec load_offsets :: "nat \<Rightarrow> u32 option \<Rightarrow> u32 option \<Rightarrow> u32 option list \<Rightarrow> string \<Rightarrow> (u32 option list \<times> string) result" where
  "load_offsets 0 original offset offsets s = Inr (offsets, s)"
| "load_offsets (Suc n) original offset offsets s =
     (let (original', offset', s') = scan_two original offset s
      in bindE (uninit2 original') (\<lambda>i. bindE (uninit2 offset') (\<lambda>v.
           if unat i < length offsets then load_offsets n original' offset' (offsets[unat i := Some v]) s'
           else Inl (Undefined ''index out of range''))))"

lemma load_offsets_rest: "load_offsets n a b offsets s = Inr (os, r) \<Longrightarrow> length r \<le> length s"
proof (induction n arbitrary: a b offsets s)
  case (Suc n)
  obtain a' b' s' where 1: "scan_two a b s = (a', b', s')" by (cases "scan_two a b s")
  from Suc.prems obtain offsets' where "load_offsets n a' b' offsets' s' = Inr (os, r)"
    by (auto simp: 1 err_simps split: if_splits)
  from Suc.IH[OF this] scan_two_rest[OF 1] show ?case by linarith
qed simp

text \<open>
  The loop of the constructor. It ends when the conversion of an identifier meets the end of the
  file; every other round reads a length or is undefined.
\<close>

function load_layout :: "u32 option \<Rightarrow> malloc_information list \<Rightarrow> string \<Rightarrow> malloc_information list result" where
  "load_layout mid acc s =
     (if fst (scan_u s) = ScanEOF then Inr acc
      else let (mid', _, s1) = scan_into mid s; (len, _, s2) = scan_into None s1; (pSize, diffSize, s3) = scan_two None None s2
      in bindE (uninit2 mid') (\<lambda>i. bindE (uninit2 len) (\<lambda>n. bindE (uninit2 pSize) (\<lambda>p.
         bindE (load_offsets (unat n) None None (replicate (unat n) None) s3) (\<lambda>os.
           load_layout mid' (acc @ [\<lparr>mi2_id = i, mi2_start = None, mi2_size = None, mi2_paddedSize = ucast p,
              mi2_offsetLength = n, mi2_offsets = fst os\<rparr>]) (snd os))))))"
  by pat_completeness auto
termination
proof (relation "measure (\<lambda>(mid, acc, s). length s)", goal_cases)
  case (2 mid acc s x mid' y ok1 s1 z len y2 ok2 s2 w pSize y3 diffSize s3 i n p os)
  have "len \<noteq> None" using 2 by (cases len) (simp_all add: uninit2_def)
  then have "ok2" using 2 by (auto simp: scan_into_def split: prod.splits scan.splits)
  then have "length s2 < length s1" using scan_into_rest[of None s1 len ok2 s2] 2 by simp
  moreover have "length s1 \<le> length s" using scan_into_rest[of mid s mid' ok1 s1] 2 by simp
  moreover have "length s3 \<le> length s2" using scan_two_rest[of None None s2 pSize diffSize s3] 2 by simp
  moreover have "length (snd os) \<le> length s3" using load_offsets_rest[of _ _ _ _ s3 "fst os" "snd os"] 2 by simp
  ultimately show ?case by simp
qed simp

declare load_layout.simps [simp del]

definition mk_all_malloc_information :: "string option \<Rightarrow> all_malloc_information result" where
  "mk_all_malloc_information file =
     (case file of None \<Rightarrow> Inl (Aborted ''no first pass malloc profile'')
      | Some txt \<Rightarrow> bindE (load_layout None [] txt) (\<lambda>ms.
          Inr \<lparr>am_findMap = [], am_allMallocs = ms, am_currentIndex = 0, am_size = word_of_nat (length ms)\<rparr>))"

text \<open>The index is below the size, which is the length of the vector.\<close>

definition cur_malloc :: "all_malloc_information \<Rightarrow> malloc_information" where
  "cur_malloc am = am_allMallocs am ! unat (am_currentIndex am)"

definition get_padded_size :: "u32 \<Rightarrow> size_t \<Rightarrow> all_malloc_information \<Rightarrow> size_t" where
  "get_padded_size mid sz am =
     (if am_currentIndex am \<ge> am_size am then sz
      else if mid < mi2_id (cur_malloc am) then sz
      else if mid > mi2_id (cur_malloc am) then sz
      else mi2_paddedSize (cur_malloc am))"

definition push_new_malloc :: "u32 \<Rightarrow> size_t \<Rightarrow> size_t \<Rightarrow> all_malloc_information \<Rightarrow> all_malloc_information" where
  "push_new_malloc mid start sz am =
     (if am_currentIndex am \<ge> am_size am then am
      else if mid < mi2_id (cur_malloc am) then am
      else if mid > mi2_id (cur_malloc am) then am
      else am\<lparr>am_allMallocs := (am_allMallocs am)[unat (am_currentIndex am) :=
                 (cur_malloc am)\<lparr>mi2_start := Some start, mi2_size := Some sz\<rparr>],
              am_findMap := smap_put start (unat (am_currentIndex am)) (am_findMap am),
              am_currentIndex := am_currentIndex am + 1\<rparr>)"

text \<open>The lookup in \<^verbatim>\<open>findMap\<close> is commented out: the first entry is used for every address.\<close>

definition isFalseSharingAddress :: "size_t \<Rightarrow> all_malloc_information \<Rightarrow> size_t result" where
  "isFalseSharingAddress address am =
     (case am_allMallocs am of [] \<Rightarrow> Inl (Undefined ''index out of range'')
      | m # _ \<Rightarrow> bindE (uninit2 (mi2_start m)) (\<lambda>start.
          let difference = sint (address - start)
          in if difference \<ge> 0 \<and> difference < uint (mi2_offsetLength m)
             then bindE (uninit2 (mi2_offsets m ! nat difference)) (\<lambda>off. Inr (start + ucast off))
             else Inr address))"

section \<open>Threads\<close>

record sp_thread =
  st_index :: int
  st_hook :: bool

abbreviation SP_MAX_THREADS :: int where
  "SP_MAX_THREADS \<equiv> 2 ^ 7"

record sp_xthread =
  sx_threadIndex :: int
  sx_aliveThreads :: int
  sx_isMultithreading :: bool
  sx_threads :: "sp_thread list"

definition sp_getThreadInfo :: "int \<Rightarrow> sp_xthread \<Rightarrow> sp_thread result" where
  "sp_getThreadInfo index xt =
     bindE (guardE (index < SP_MAX_THREADS) (AssertFail ''index < MAX_THREADS'')) (\<lambda>_.
       Inr (sx_threads xt ! nat index))"

definition sp_initInitialThread :: "sp_xthread \<Rightarrow> (int \<times> sp_xthread) result" where
  "sp_initInitialThread xt =
     (let tindex = sx_threadIndex xt
      in bindE (guardE (tindex \<noteq> -1) (AssertFail ''0'')) (\<lambda>_.
         bindE (sp_getThreadInfo tindex xt) (\<lambda>_.
           Inr (tindex, xt\<lparr>sx_threadIndex := tindex + 1,
              sx_threads := (sx_threads xt)[nat tindex := \<lparr>st_index = tindex, st_hook = False\<rparr>]\<rparr>))))"

definition sp_initialize :: "sp_xthread \<Rightarrow> (int \<times> sp_xthread) result" where
  "sp_initialize xt = sp_initInitialThread
     (xt\<lparr>sx_aliveThreads := 1, sx_isMultithreading := False,
         sx_threads := replicate (nat SP_MAX_THREADS) \<lparr>st_index = 0, st_hook = False\<rparr>\<rparr>)"

definition sp_thread_create :: "int \<Rightarrow> sp_xthread \<Rightarrow> (int \<times> sp_xthread) result" where
  "sp_thread_create create xt =
     (if sx_threadIndex xt \<ge> SP_MAX_THREADS then Inl (Aborted ''MAX_THREADS'')
      else let tindex = sx_threadIndex xt
           in bindE (sp_getThreadInfo tindex xt) (\<lambda>_.
                Inr (create, xt\<lparr>sx_threadIndex := tindex + 1, sx_aliveThreads := sx_aliveThreads xt + 1,
                   sx_isMultithreading := True,
                   sx_threads := (sx_threads xt)[nat tindex := \<lparr>st_index = tindex, st_hook = False\<rparr>]\<rparr>)))"

definition sp_removeThread :: "sp_xthread \<Rightarrow> sp_xthread" where
  "sp_removeThread xt =
     (let n = sx_aliveThreads xt - 1
      in xt\<lparr>sx_aliveThreads := n, sx_isMultithreading := (if n = 1 then False else sx_isMultithreading xt)\<rparr>)"

definition sp_startThread :: "(sp_xthread \<Rightarrow> 'r \<times> sp_xthread) \<Rightarrow> sp_xthread \<Rightarrow> 'r \<times> sp_xthread" where
  "sp_startThread routine xt = (let (res, xt1) = routine xt in (res, sp_removeThread xt1))"

section \<open>The global segment\<close>

text \<open>
  The same scan as in the first pass, but the second entry is only read under a condition; without
  it the comparison uses an uninitialised address.
\<close>

definition sp_getRegionInfo :: "string \<Rightarrow> (size_t \<times> size_t) result" where
  "sp_getRegionInfo curentry =
     (case find_from (CHR ''-'') 0 curentry of
        None \<Rightarrow> Inl (Undefined ''index past the end of a string'')
      | Some pos \<Rightarrow>
          (case find_space (Suc pos) curentry of
             None \<Rightarrow> Inl (Undefined ''index past the end of a string'')
           | Some endpos \<Rightarrow>
               Inr (strtoul16 (take pos curentry), strtoul16 (take (endpos - Suc pos) (drop (Suc pos) curentry)))))"

fun sp_getGlobalRegion :: "string list \<Rightarrow> size_t \<times> size_t \<Rightarrow> (size_t \<times> size_t) result" where
  "sp_getGlobalRegion [] old = Inr old"
| "sp_getGlobalRegion (curentry # entries) old =
     (if contains curentry '' rw-p '' \<or> contains curentry '' rwxp ''
      then bindE (sp_getRegionInfo curentry) (\<lambda>(startaddr, endaddr).
             let nextentry = (case entries of [] \<Rightarrow> [] | e # _ \<Rightarrow> e)
             in if \<not> contains nextentry ''lib'' \<or> contains nextentry '' rw-p ''
                then bindE (sp_getRegionInfo nextentry) (\<lambda>(newstart, newend).
                       Inr (startaddr, if newstart = endaddr then newend else endaddr))
                else Inl (Undefined ''uninitialised variable''))
      else sp_getGlobalRegion entries old)"

section \<open>Entry points\<close>

record 'h second_pass =
  sp_heap :: 'h
  sp_info :: all_malloc_information
  sp_mallocId :: u32
  sp_global :: "size_t \<times> size_t"
  sp_heapStart :: size_t
  sp_heapEnd :: size_t
  sp_xt :: sp_xthread

text \<open>\<open>cur\<close> is the index of the calling thread; the hook deactivator writes its flag.\<close>

definition sp_set_hook :: "nat \<Rightarrow> bool \<Rightarrow> 'h second_pass \<Rightarrow> 'h second_pass" where
  "sp_set_hook cur b st =
     st\<lparr>sp_xt := (sp_xt st)\<lparr>sx_threads := (sx_threads (sp_xt st))[cur := (sx_threads (sp_xt st) ! cur)\<lparr>st_hook := b\<rparr>]\<rparr>\<rparr>"

definition sp_initializer :: "string list \<Rightarrow> string option \<Rightarrow> 'h second_pass \<Rightarrow> 'h second_pass result" where
  "sp_initializer maps layout st =
     bindE (sp_initialize (sp_xt st)) (\<lambda>(cur, xt).
     bindE (sp_getGlobalRegion maps (sp_global st)) (\<lambda>g.
     bindE (mk_all_malloc_information layout) (\<lambda>info.
       Inr (sp_set_hook (nat cur) True (st\<lparr>sp_xt := xt, sp_global := g, sp_info := info\<rparr>)))))"

definition my_malloc_hook :: "'h libc \<Rightarrow> size_t \<Rightarrow> nat \<Rightarrow> 'h second_pass \<Rightarrow> size_t \<times> 'h second_pass" where
  "my_malloc_hook lc sz cur st =
     (let st0 = sp_set_hook cur False st;
          first = (st_index (sx_threads (sp_xt st) ! cur) = 0);
          paddedSize = (if first then get_padded_size (sp_mallocId st0) sz (sp_info st0) else sz);
          (alloced, heap) = lc_malloc lc paddedSize (sp_heap st0);
          st1 = st0\<lparr>sp_heap := lc_memset lc alloced paddedSize heap,
                    sp_heapStart := min (sp_heapStart st0) alloced,
                    sp_heapEnd := max (sp_heapEnd st0) (alloced + paddedSize)\<rparr>;
          st2 = (if first then st1\<lparr>sp_info := push_new_malloc (sp_mallocId st1) alloced paddedSize (sp_info st1),
                                   sp_mallocId := sp_mallocId st1 + 1\<rparr> else st1)
      in (alloced, sp_set_hook cur True st2))"

definition sp_malloc :: "'h libc \<Rightarrow> size_t \<Rightarrow> nat \<Rightarrow> 'h second_pass \<Rightarrow> size_t \<times> 'h second_pass" where
  "sp_malloc lc sz cur st =
     (if cur < length (sx_threads (sp_xt st)) \<and> st_hook (sx_threads (sp_xt st) ! cur) then my_malloc_hook lc sz cur st
      else let (p, heap) = lc_malloc lc sz (sp_heap st) in (p, st\<lparr>sp_heap := heap\<rparr>))"

definition sp_free :: "'h libc \<Rightarrow> size_t \<Rightarrow> 'h second_pass \<Rightarrow> 'h second_pass" where
  "sp_free lc ptr st = st\<lparr>sp_heap := lc_free lc ptr (sp_heap st)\<rparr>"

definition redirect_ptr :: "size_t \<Rightarrow> nat \<Rightarrow> 'h second_pass \<Rightarrow> (size_t \<times> 'h second_pass) result" where
  "redirect_ptr addr cur st =
     (let is_heap = (sp_heapStart st \<le> addr \<and> addr < sp_heapEnd st);
          is_global = (fst (sp_global st) \<le> addr \<and> addr < snd (sp_global st));
          st' = sp_set_hook cur True (sp_set_hook cur False st)
      in if \<not> is_heap \<and> \<not> is_global then Inr (addr, st')
         else if is_heap then bindE (isFalseSharingAddress addr (sp_info st)) (\<lambda>a. Inr (a, st'))
         else Inr (addr, st'))"

definition sp_pthread_create :: "int \<Rightarrow> nat \<Rightarrow> 'h second_pass \<Rightarrow> (int \<times> 'h second_pass) result" where
  "sp_pthread_create create cur st =
     bindE (sp_thread_create create (sp_xt st)) (\<lambda>(res, xt).
       Inr (res, sp_set_hook cur True (st\<lparr>sp_xt := xt\<rparr>)))"

section \<open>Which addresses are redirected\<close>

lemma sint_less_u32: "(0 \<le> sint (d :: u64) \<and> sint d < uint (n :: u32)) \<longleftrightarrow> uint d < uint n"
proof (cases "d < 2 ^ 63")
  case True
  then show ?thesis using uint_ge_0[of d] by (simp add: sint_small)
next
  case False
  then have "2 ^ 63 \<le> uint d" by (simp add: word_less_def)
  moreover have "uint n < 2 ^ 32" using uint_lt2p[of n] by simp
  moreover have "sint d < 0" by (rule sint_large[OF False])
  ultimately show ?thesis by simp
qed

text \<open>
  Addresses are redirected through the table of the first listed allocation only. Whatever
  the other entries hold, an address inside the table of the first one goes to its new offset, and
  every other address, inside other listed allocations too, is left as it is.
\<close>

theorem second_pass_first_only:
  assumes "am_allMallocs am = m # ms" "mi2_start m = Some start"
    and "\<forall>i < unat (mi2_offsetLength m). mi2_offsets m ! i = Some (off i)"
  shows "isFalseSharingAddress addr am =
    Inr (if unat (addr - start) < unat (mi2_offsetLength m) then start + ucast (off (unat (addr - start))) else addr)"
proof -
  have d: "(0 \<le> sint (addr - start) \<and> sint (addr - start) < uint (mi2_offsetLength m)) \<longleftrightarrow>
      unat (addr - start) < unat (mi2_offsetLength m)"
    unfolding sint_less_u32 by (simp only: unat_eq_nat_uint nat_less_eq_zless[OF uint_ge_0])
  have n: "nat (sint (addr - start)) = unat (addr - start)" if "unat (addr - start) < unat (mi2_offsetLength m)"
  proof -
    have "\<not> sint (addr - start) < 0" using that d by linarith
    then have "addr - start < 2 ^ 63" using sint_large by blast
    then have "sint (addr - start) = uint (addr - start)" by (rule sint_small)
    then show ?thesis by (simp only: unat_eq_nat_uint)
  qed
  have e: "isFalseSharingAddress addr am =
      (if unat (addr - start) < unat (mi2_offsetLength m)
       then bindE (uninit2 (mi2_offsets m ! nat (sint (addr - start)))) (\<lambda>off. Inr (start + ucast off)) else Inr addr)"
    unfolding isFalseSharingAddress_def assms(1) list.case assms(2) uninit2_def option.case bindE.simps Let_def d ..
  show ?thesis
  proof (cases "unat (addr - start) < unat (mi2_offsetLength m)")
    case True
    have "mi2_offsets m ! nat (sint (addr - start)) = Some (off (unat (addr - start)))"
      using assms(3) True n[OF True] by simp
    then show ?thesis unfolding e using True by (simp add: uninit2_def)
  qed (simp add: e)
qed

definition sample_am :: all_malloc_information where
  "sample_am = \<lparr>am_findMap = [(4096, 0), (8192, 1)],
     am_allMallocs = [\<lparr>mi2_id = 0, mi2_start = Some 4096, mi2_size = Some 128, mi2_paddedSize = 128, mi2_offsetLength = 2,
         mi2_offsets = [Some 0, Some 64]\<rparr>,
       \<lparr>mi2_id = 3, mi2_start = Some 8192, mi2_size = Some 128, mi2_paddedSize = 128, mi2_offsetLength = 2,
         mi2_offsets = [Some 0, Some 64]\<rparr>],
     am_currentIndex = 2, am_size = 2\<rparr>"

theorem second_pass_first_only_witness:
  "isFalseSharingAddress 4097 sample_am = Inr 4160 \<and> isFalseSharingAddress 8193 sample_am = Inr 8193"
proof -
  let ?m = "\<lparr>mi2_id = 0, mi2_start = Some 4096, mi2_size = Some 128, mi2_paddedSize = 128, mi2_offsetLength = 2,
         mi2_offsets = [Some 0, Some 64]\<rparr> :: malloc_information"
  let ?off = "\<lambda>i. if i = 0 then 0 else 64 :: u32"
  have "am_allMallocs sample_am = ?m # tl (am_allMallocs sample_am)" "mi2_start ?m = Some 4096"
    by (simp_all add: sample_am_def)
  moreover have "\<forall>i < unat (mi2_offsetLength ?m). mi2_offsets ?m ! i = Some (?off i)"
    by (auto simp: less_2_cases_iff)
  ultimately have "isFalseSharingAddress addr sample_am =
      Inr (if unat (addr - 4096) < unat (mi2_offsetLength ?m) then 4096 + ucast (?off (unat (addr - 4096))) else addr)" for addr
    by (rule second_pass_first_only)
  then show ?thesis by simp
qed

section \<open>Which allocations are padded\<close>

text \<open>The first thread allocates blocks one after the other.\<close>

primrec malloc_run :: "'h libc \<Rightarrow> size_t list \<Rightarrow> 'h second_pass \<Rightarrow> size_t list \<times> 'h second_pass" where
  "malloc_run lc [] st = ([], st)"
| "malloc_run lc (sz # szs) st =
     (let (p, st1) = sp_malloc lc sz 0 st; (ps, st2) = malloc_run lc szs st1 in (p # ps, st2))"

text \<open>The table after the blocks \<open>ps\<close> have been handed out.\<close>

definition fill_entry :: "size_t list \<Rightarrow> malloc_information \<Rightarrow> malloc_information" where
  "fill_entry ps m =
     (if unat (mi2_id m) < length ps
      then m\<lparr>mi2_start := Some (ps ! unat (mi2_id m)), mi2_size := Some (mi2_paddedSize m)\<rparr> else m)"

definition n_listed :: "malloc_information list \<Rightarrow> nat \<Rightarrow> nat" where
  "n_listed ms n = length (takeWhile (\<lambda>m. unat (mi2_id m) < n) ms)"

definition filled :: "malloc_information list \<Rightarrow> size_t list \<Rightarrow> all_malloc_information \<Rightarrow> bool" where
  "filled ms ps am \<longleftrightarrow> am_allMallocs am = map (fill_entry ps) ms \<and> am_size am = word_of_nat (length ms) \<and>
     am_currentIndex am = word_of_nat (n_listed ms (length ps))"

definition ids_ascending :: "malloc_information list \<Rightarrow> bool" where
  "ids_ascending ms \<longleftrightarrow> sorted_wrt (<) (map mi2_id ms)"

lemma n_listed_0 [simp]: "n_listed ms 0 = 0"
  by (cases ms) (simp_all add: n_listed_def)

lemma n_listed_le: "n_listed ms n \<le> length ms"
  by (simp add: n_listed_def length_takeWhile_le)

lemma n_listed_below: "k < n_listed ms n \<Longrightarrow> unat (mi2_id (ms ! k)) < n"
  unfolding n_listed_def by (metis (mono_tags, lifting) nth_mem set_takeWhileD takeWhile_nth)

lemma n_listed_here: "n_listed ms n < length ms \<Longrightarrow> n \<le> unat (mi2_id (ms ! n_listed ms n))"
  unfolding n_listed_def using nth_length_takeWhile[of "\<lambda>m. unat (mi2_id m) < n" ms] by simp

lemma n_listed_above:
  assumes "ids_ascending ms" "n_listed ms n < k" "k < length ms"
  shows "unat (mi2_id (ms ! n_listed ms n)) < unat (mi2_id (ms ! k))"
  using assms sorted_wrt_nth_less[of "(<)" "map mi2_id ms" "n_listed ms n" k]
  by (simp add: ids_ascending_def word_less_nat_alt)

lemma n_listed_Suc:
  assumes "ids_ascending ms"
  shows "n_listed ms (Suc n) = (if n_listed ms n < length ms \<and> unat (mi2_id (ms ! n_listed ms n)) = n
    then Suc (n_listed ms n) else n_listed ms n)"
proof -
  let ?c = "n_listed ms n"
  have eq: "n_listed ms (Suc n) = j"
    if "j \<le> length ms" "\<And>k. k < j \<Longrightarrow> unat (mi2_id (ms ! k)) < Suc n" "j < length ms \<Longrightarrow> \<not> unat (mi2_id (ms ! j)) < Suc n" for j
  proof -
    have "takeWhile (\<lambda>m. unat (mi2_id m) < Suc n) ms = take j ms"
      by (rule takeWhile_eq_take_P_nth) (use that in auto)
    then show ?thesis using that(1) by (simp add: n_listed_def)
  qed
  show ?thesis
  proof (cases "?c < length ms \<and> unat (mi2_id (ms ! ?c)) = n")
    case True
    then have "n_listed ms (Suc n) = Suc ?c"
      using n_listed_above[OF assms, of n "Suc ?c"] n_listed_below[of _ ms n]
      by (intro eq) (auto simp: less_Suc_eq)
    then show ?thesis using True by simp
  next
    case False
    then have "n_listed ms (Suc n) = ?c"
      using n_listed_here[of ms n] n_listed_below[of _ ms n] n_listed_le[of ms n]
      by (intro eq) (auto simp: less_Suc_eq)
    then show ?thesis using False by simp
  qed
qed

lemma fill_entry_snoc:
  "fill_entry (ps @ [p]) m =
     (if unat (mi2_id m) = length ps then m\<lparr>mi2_start := Some p, mi2_size := Some (mi2_paddedSize m)\<rparr> else fill_entry ps m)"
  by (auto simp: fill_entry_def nth_append)

text \<open>The entry that the next allocation is compared with is the only one that can be meant.\<close>

lemma filled_current:
  assumes f: "filled ms ps am" and asc: "ids_ascending ms" and len: "length ms < 2 ^ 32" "length ps < 2 ^ 32"
  defines "c \<equiv> n_listed ms (length ps)"
  shows "am_currentIndex am \<ge> am_size am \<longleftrightarrow> c = length ms" "c < length ms \<Longrightarrow> cur_malloc am = ms ! c"
    "k < length ms \<Longrightarrow> k \<noteq> c \<Longrightarrow> unat (mi2_id (ms ! k)) \<noteq> length ps"
    "unat (word_of_nat (length ps) :: u32) = length ps" "unat (word_of_nat c :: u32) = c"
proof -
  have c: "c \<le> length ms" unfolding c_def by (rule n_listed_le)
  have un: "unat (word_of_nat c :: u32) = c" "unat (word_of_nat (length ms) :: u32) = length ms"
    using len c by (simp_all add: unat_of_nat)
  then show "am_currentIndex am \<ge> am_size am \<longleftrightarrow> c = length ms" "unat (word_of_nat c :: u32) = c"
    using f c by (auto simp: filled_def word_le_nat_alt c_def)
  show "unat (word_of_nat (length ps) :: u32) = length ps" using len by (simp add: unat_of_nat)
  show "cur_malloc am = ms ! c" if "c < length ms"
    using f that n_listed_here[of ms "length ps"] un(1) by (simp add: cur_malloc_def filled_def fill_entry_def c_def)
  show "unat (mi2_id (ms ! k)) \<noteq> length ps" if "k < length ms" "k \<noteq> c"
  proof (cases "k < c")
    case True
    then show ?thesis using n_listed_below[of k ms "length ps"] by (simp add: c_def)
  next
    case False
    then have "c < k" using that by simp
    then show ?thesis using n_listed_above[OF asc, of "length ps" k] n_listed_here[of ms "length ps"] that by (simp add: c_def)
  qed
qed

text \<open>The size that the allocation with a number really gets.\<close>

definition padded_of :: "malloc_information list \<Rightarrow> nat \<Rightarrow> size_t \<Rightarrow> size_t" where
  "padded_of ms j sz = (case find (\<lambda>m. unat (mi2_id m) = j) ms of None \<Rightarrow> sz | Some m \<Rightarrow> mi2_paddedSize m)"

lemma get_padded_filled:
  assumes "filled ms ps am" "ids_ascending ms" "length ms < 2 ^ 32" "length ps < 2 ^ 32"
  shows "get_padded_size (word_of_nat (length ps)) sz am = padded_of ms (length ps) sz"
proof -
  let ?c = "n_listed ms (length ps)" and ?n = "word_of_nat (length ps) :: u32"
  note k = filled_current[OF assms]
  have id: "mi2_id m = ?n \<longleftrightarrow> unat (mi2_id m) = length ps" for m unfolding word_unat_eq_iff k(4) ..
  show ?thesis
  proof (cases "?c < length ms \<and> unat (mi2_id (ms ! ?c)) = length ps")
    case True
    then have "find (\<lambda>m. unat (mi2_id m) = length ps) ms = Some (ms ! ?c)"
      using n_listed_below[of _ ms "length ps"] by (fastforce simp: find_Some_iff intro!: exI[of _ ?c])
    then show ?thesis using True k(1,2) id[of "ms ! ?c"] by (auto simp: get_padded_size_def padded_of_def)
  next
    case False
    then have "find (\<lambda>m. unat (mi2_id m) = length ps) ms = None"
      unfolding find_None_iff using k(3) by (auto simp: in_set_conv_nth)
    moreover have "?c \<noteq> length ms \<Longrightarrow> mi2_id (cur_malloc am) \<noteq> ?n"
      using False k(2) n_listed_le[of ms "length ps"] id by (metis le_neq_implies_less)
    ultimately show ?thesis using k(1) by (auto simp: get_padded_size_def padded_of_def)
  qed
qed

text \<open>One allocation of the first thread keeps the table filled.\<close>

lemma push_filled:
  assumes f: "filled ms ps am" and asc: "ids_ascending ms" and len: "length ms < 2 ^ 32" "length ps < 2 ^ 32"
  shows "filled ms (ps @ [p]) (push_new_malloc (word_of_nat (length ps)) p (get_padded_size (word_of_nat (length ps)) sz am) am)"
proof -
  let ?c = "n_listed ms (length ps)" and ?n = "word_of_nat (length ps) :: u32"
  have c: "?c \<le> length ms" by (rule n_listed_le)
  note full = filled_current(1)[OF assms] and miss = filled_current(3)[OF assms] and un = filled_current(4,5)[OF assms]
  have keep: "map (fill_entry (ps @ [p])) ms = map (fill_entry ps) ms" if "\<forall>m \<in> set ms. unat (mi2_id m) \<noteq> length ps"
    using that by (simp add: fill_entry_snoc)
  show ?thesis
  proof (cases "?c = length ms")
    case True
    then have "\<forall>m \<in> set ms. unat (mi2_id m) \<noteq> length ps" using miss by (metis in_set_conv_nth nat_neq_iff)
    then show ?thesis using f full True keep n_listed_Suc[OF asc, of "length ps"]
      by (simp add: push_new_malloc_def filled_def)
  next
    case False
    then have lt: "?c < length ms" using c by simp
    note cur = filled_current(2)[OF assms lt]
    have id: "mi2_id (ms ! ?c) = ?n \<longleftrightarrow> unat (mi2_id (ms ! ?c)) = length ps" unfolding word_unat_eq_iff un(1) ..
    show ?thesis
    proof (cases "unat (mi2_id (ms ! ?c)) = length ps")
      case True
      then have eq: "mi2_id (ms ! ?c) = ?n" using id by blast
      then have pad: "get_padded_size ?n sz am = mi2_paddedSize (ms ! ?c)"
        using full False by (simp add: get_padded_size_def cur)
      have "(map (fill_entry ps) ms)[?c := (ms ! ?c)\<lparr>mi2_start := Some p, mi2_size := Some (mi2_paddedSize (ms ! ?c))\<rparr>] =
          map (fill_entry (ps @ [p])) ms"
        by (rule nth_equalityI) (use True miss lt in \<open>auto simp: nth_list_update fill_entry_snoc\<close>)
      then show ?thesis using f full False True lt un n_listed_Suc[OF asc, of "length ps"] pad eq
        by (simp add: push_new_malloc_def filled_def cur)
    next
      case ne: False
      then have "?n < mi2_id (ms ! ?c)" using n_listed_here[OF lt] un(1) by (simp add: word_less_nat_alt)
      moreover have "\<forall>m \<in> set ms. unat (mi2_id m) \<noteq> length ps" using miss ne by (metis in_set_conv_nth)
      ultimately show ?thesis using f full False ne keep n_listed_Suc[OF asc, of "length ps"]
        by (simp add: push_new_malloc_def filled_def cur)
    qed
  qed
qed

definition first_ready :: "'h second_pass \<Rightarrow> bool" where
  "first_ready st \<longleftrightarrow> 0 < length (sx_threads (sp_xt st)) \<and> sx_threads (sp_xt st) ! 0 = \<lparr>st_index = 0, st_hook = True\<rparr>"

text \<open>
  What the C library is asked for: a block of every size, cleared. The bounds of the heap follow
  from its answers.
\<close>

primrec libc_run :: "'h libc \<Rightarrow> size_t list \<Rightarrow> 'h \<Rightarrow> size_t list \<times> 'h" where
  "libc_run lc [] h = ([], h)"
| "libc_run lc (n # ns) h =
     (let (p, h1) = lc_malloc lc n h; (ps, h2) = libc_run lc ns (lc_memset lc p n h1) in (p # ps, h2))"

lemma sp_malloc_first:
  assumes "first_ready st" "lc_malloc lc (get_padded_size (sp_mallocId st) sz (sp_info st)) (sp_heap st) = (p, heap)"
  defines "n \<equiv> get_padded_size (sp_mallocId st) sz (sp_info st)"
  shows "\<exists>st'. sp_malloc lc sz 0 st = (p, st') \<and> first_ready st' \<and> sp_mallocId st' = sp_mallocId st + 1 \<and>
    sp_info st' = push_new_malloc (sp_mallocId st) p n (sp_info st) \<and> sp_heap st' = lc_memset lc p n heap \<and>
    sp_heapStart st' = min (sp_heapStart st) p \<and> sp_heapEnd st' = max (sp_heapEnd st) (p + n)"
proof -
  have t: "sx_threads (sp_xt st) ! 0 = \<lparr>st_index = 0, st_hook = True\<rparr>" "sx_threads (sp_xt st) \<noteq> []"
    using assms(1) by (auto simp: first_ready_def)
  show ?thesis
    using t assms(2) by (auto simp: sp_malloc_def my_malloc_hook_def sp_set_hook_def Let_def first_ready_def n_def)
qed

lemma malloc_run_filled:
  "first_ready st \<Longrightarrow> filled ms ps (sp_info st) \<Longrightarrow> sp_mallocId st = word_of_nat (length ps) \<Longrightarrow> ids_ascending ms \<Longrightarrow>
   length ms < 2 ^ 32 \<Longrightarrow> length ps + length szs < 2 ^ 32 \<Longrightarrow> ns = map (\<lambda>(j, sz). padded_of ms j sz) (enumerate (length ps) szs) \<Longrightarrow>
   \<exists>qs st'. malloc_run lc szs st = (qs, st') \<and> length qs = length szs \<and> filled ms (ps @ qs) (sp_info st') \<and>
     libc_run lc ns (sp_heap st) = (qs, sp_heap st') \<and> sp_heapStart st' = fold min qs (sp_heapStart st) \<and>
     sp_heapEnd st' = fold max (map2 (+) qs ns) (sp_heapEnd st)"
proof (induction szs arbitrary: st ps ns)
  case (Cons sz szs)
  let ?n = "padded_of ms (length ps) sz" and ?ns = "map (\<lambda>(j, sz). padded_of ms j sz) (enumerate (Suc (length ps)) szs)"
  have n: "get_padded_size (sp_mallocId st) sz (sp_info st) = ?n"
    using get_padded_filled[OF Cons.prems(2,4,5), of sz] Cons.prems(3,6) by simp
  obtain p heap where l: "lc_malloc lc ?n (sp_heap st) = (p, heap)" by (cases "lc_malloc lc ?n (sp_heap st)")
  obtain st1 where 1: "sp_malloc lc sz 0 st = (p, st1)" "first_ready st1" "sp_mallocId st1 = sp_mallocId st + 1"
    "sp_info st1 = push_new_malloc (sp_mallocId st) p ?n (sp_info st)" "sp_heap st1 = lc_memset lc p ?n heap"
    "sp_heapStart st1 = min (sp_heapStart st) p" "sp_heapEnd st1 = max (sp_heapEnd st) (p + ?n)"
    using sp_malloc_first[OF Cons.prems(1), of lc sz p heap] l unfolding n by blast
  have "filled ms (ps @ [p]) (sp_info st1)"
    unfolding 1(4) n[symmetric] Cons.prems(3) by (rule push_filled) (use Cons.prems in simp_all)
  then obtain qs st2 where 2: "malloc_run lc szs st1 = (qs, st2)" "length qs = length szs" "filled ms ((ps @ [p]) @ qs) (sp_info st2)"
    "libc_run lc ?ns (sp_heap st1) = (qs, sp_heap st2)" "sp_heapStart st2 = fold min qs (sp_heapStart st1)"
    "sp_heapEnd st2 = fold max (map2 (+) qs ?ns) (sp_heapEnd st1)"
    using Cons.IH[OF 1(2), of "ps @ [p]" ?ns] 1(3) Cons.prems by (auto simp: add.commute)
  then show ?case using 1(5-7) l Cons.prems(7) by (simp add: 1(1) min.commute max.commute)
qed simp

text \<open>
  \<^bold>\<open>C35.\<close> With identifiers in ascending order every listed allocation is padded and found. After the
  first thread has allocated any number of blocks, the C library has been asked, call by call, for
  the padded size where an entry of the table has the number of the call as its identifier and for
  the requested size otherwise, and the calls have returned its blocks. Such an entry holds the
  address that its call returned and the padded size, every other entry is as it was loaded, and
  the bounds of the heap enclose the blocks that were really allocated.
\<close>

theorem second_pass_table_filled:
  assumes "0 < length (sx_threads (sp_xt st))" "sx_threads (sp_xt st) ! 0 = \<lparr>st_index = 0, st_hook = True\<rparr>"
    and "sp_info st = \<lparr>am_findMap = [], am_allMallocs = ms, am_currentIndex = 0, am_size = word_of_nat (length ms)\<rparr>"
    and "sp_mallocId st = 0" "sorted_wrt (<) (map mi2_id ms)" "length ms < 2 ^ 32" "length szs < 2 ^ 32"
    and "ns = map (\<lambda>(j, sz). case find (\<lambda>m. unat (mi2_id m) = j) ms of None \<Rightarrow> sz | Some m \<Rightarrow> mi2_paddedSize m) (enumerate 0 szs)"
  shows "\<exists>ps st'. malloc_run lc szs st = (ps, st') \<and> length ps = length szs \<and> libc_run lc ns (sp_heap st) = (ps, sp_heap st') \<and>
    am_allMallocs (sp_info st') = map (\<lambda>m. if unat (mi2_id m) < length szs
      then m\<lparr>mi2_start := Some (ps ! unat (mi2_id m)), mi2_size := Some (mi2_paddedSize m)\<rparr> else m) ms \<and>
    sp_heapStart st' = fold min ps (sp_heapStart st) \<and> sp_heapEnd st' = fold max (map2 (+) ps ns) (sp_heapEnd st)"
proof -
  have "first_ready st" using assms(1,2) by (simp add: first_ready_def)
  moreover have "filled ms [] (sp_info st)"
    by (simp add: filled_def assms(3) fill_entry_def[abs_def])
  moreover have "ns = map (\<lambda>(j, sz). padded_of ms j sz) (enumerate (length ([] :: size_t list)) szs)" using assms(8) by (simp add: padded_of_def)
  ultimately obtain ps st' where r: "malloc_run lc szs st = (ps, st')" "length ps = length szs" "filled ms ps (sp_info st')"
    "libc_run lc ns (sp_heap st) = (ps, sp_heap st')" "sp_heapStart st' = fold min ps (sp_heapStart st)"
    "sp_heapEnd st' = fold max (map2 (+) ps ns) (sp_heapEnd st)"
    using malloc_run_filled[of st ms "[]" szs ns lc] assms(4-7) by (auto simp: ids_ascending_def)
  have "am_allMallocs (sp_info st') = map (\<lambda>m. if unat (mi2_id m) < length szs
      then m\<lparr>mi2_start := Some (ps ! unat (mi2_id m)), mi2_size := Some (mi2_paddedSize m)\<rparr> else m) ms"
    using r(2,3) by (simp add: filled_def fill_entry_def)
  then show ?thesis using r by blast
qed

definition sample_entry :: "u32 \<Rightarrow> malloc_information" where
  "sample_entry i = \<lparr>mi2_id = i, mi2_start = None, mi2_size = None, mi2_paddedSize = 128, mi2_offsetLength = 0, mi2_offsets = []\<rparr>"

definition sample_second :: "size_t second_pass" where
  "sample_second = \<lparr>sp_heap = 4096,
     sp_info = \<lparr>am_findMap = [], am_allMallocs = [sample_entry 1, sample_entry 7], am_currentIndex = 0, am_size = word_of_nat 2\<rparr>,
     sp_mallocId = 0, sp_global = (0, 0), sp_heapStart = 2 ^ 63, sp_heapEnd = 0,
     sp_xt = \<lparr>sx_threadIndex = 1, sx_aliveThreads = 1, sx_isMultithreading = False, sx_threads = [\<lparr>st_index = 0, st_hook = True\<rparr>]\<rparr>\<rparr>"

theorem second_pass_table_filled_witness:
  "\<exists>ps st'. malloc_run bump_libc [16, 32, 48] sample_second = (ps, st') \<and> length ps = 3 \<and>
    libc_run bump_libc [16, 128, 48] (sp_heap sample_second) = (ps, sp_heap st') \<and>
    am_allMallocs (sp_info st') =
      [(sample_entry 1)\<lparr>mi2_start := Some (ps ! 1), mi2_size := Some 128\<rparr>, sample_entry 7]"
proof -
  have "[16, 128, 48] = map (\<lambda>(j, sz). case find (\<lambda>m. unat (mi2_id m) = j) [sample_entry 1, sample_entry 7] of
      None \<Rightarrow> sz | Some m \<Rightarrow> mi2_paddedSize m) (enumerate 0 [16, 32, 48])" by (simp add: sample_entry_def)
  then show ?thesis
    using second_pass_table_filled[of sample_second "[sample_entry 1, sample_entry 7]" "[16, 32, 48]" "[16, 128, 48]" bump_libc]
    by (simp add: sample_second_def sample_entry_def numeral_3_eq_3 del: malloc_run.simps libc_run.simps) blast
qed

end
