(* ===== verification/IN_Dynamic.thy ===== *)
theory IN_Dynamic
  imports IN_Instrumenter SP_SecondPass
begin

text \<open>
  Two small passes. \<^verbatim>\<open>RedirectPtr/DynamicInst.h\<close> sends the address of a chosen access through the function
  \<^verbatim>\<open>redirect_ptr\<close> of the second pass runtime. \<^verbatim>\<open>others/tmi/llvm/lib/Transforms/TMI/TMI.cpp\<close> puts calls of the TMI
  runtime around inline assembly.
\<close>

section \<open>Dynamic redirection\<close>

definition InstLoadStore :: "(func_ptr \<Rightarrow> ll_type \<times> ll_type list) \<Rightarrow> ll_module \<Rightarrow> (func_ptr \<times> ll_module) result" where
  "InstLoadStore ty M =
     (case getOrInsertFunction ty ''redirect_ptr'' (Int64T, [Int64T, Int8T]) M of
        (Some f, M1) \<Rightarrow> Inr (f, M1)
      | (None, _) \<Rightarrow> Inl (AssertFail ''cast<Function>''))"

definition insertRedirectCall :: "func_ptr \<Rightarrow> inst_ptr \<Rightarrow> val \<Rightarrow> bool \<Rightarrow> inst" where
  "insertRedirectCall f next addr isWrite =
     (mk_inst next OpCall [addr, ConstInt (if isWrite then 1 else 0)])\<lparr>in_callee := Some f\<rparr>"

definition instrumentMemoryAccess :: "func_ptr \<Rightarrow> inst_ptr \<Rightarrow> inst \<Rightarrow> inst list result" where
  "instrumentMemoryAccess f next i =
     bindE (getPointerOperandIndex i) (\<lambda>(index, isWrite).
     bindE (arg_at i index) (\<lambda>addr.
     bindE (guardE (in_bits i \<in> {8, 16, 32, 64, 128}) (AssertFail ''false'')) (\<lambda>_.
     bindE (set_arg index (Result (next + 2)) i) (\<lambda>i'.
       Inr ([mk_inst next OpPtrToInt [addr], insertRedirectCall f (next + 1) (Result next) isWrite,
             mk_inst (next + 2) OpIntToPtr [Result (next + 1)], mk_inst (next + 3) OpAsm []] @ [i'])))))"

text \<open>The counter runs over all blocks; four names are set aside for every instruction.\<close>

primrec dyn_insts :: "func_ptr \<Rightarrow> u32 list \<Rightarrow> u32 \<Rightarrow> inst_ptr \<Rightarrow> inst list \<Rightarrow> inst list result" where
  "dyn_insts f locInfo instCounter next [] = Inr []"
| "dyn_insts f locInfo instCounter next (i # is) =
     bindE (if instCounter \<in> set locInfo then instrumentMemoryAccess f next i else Inr [i]) (\<lambda>new.
     bindE (dyn_insts f locInfo (instCounter + 1) (next + 4) is) (\<lambda>rest. Inr (new @ rest)))"

primrec dyn_blocks :: "func_ptr \<Rightarrow> u32 list \<Rightarrow> u32 \<Rightarrow> inst_ptr \<Rightarrow> inst list list \<Rightarrow> inst list list result" where
  "dyn_blocks f locInfo instCounter next [] = Inr []"
| "dyn_blocks f locInfo instCounter next (bb # bbs) =
     bindE (dyn_insts f locInfo instCounter next bb) (\<lambda>new.
     bindE (dyn_blocks f locInfo (instCounter + of_nat (length bb)) (next + 4 * length bb) bbs) (\<lambda>rest. Inr (new # rest)))"

definition dynInstFunction :: "func_ptr \<Rightarrow> u32 list \<Rightarrow> inst_ptr \<Rightarrow> func_ir \<Rightarrow> func_ir result" where
  "dynInstFunction f locInfo next func =
     bindE (dyn_blocks f locInfo 0 next (fn_blocks func)) (\<lambda>bbs. Inr (func\<lparr>fn_blocks := bbs\<rparr>))"

text \<open>Execution with the runtime function: \<open>rp\<close> is what \<^verbatim>\<open>redirect_ptr\<close> answers at that moment.\<close>

definition exec_redirect :: "(u64 \<Rightarrow> u64) \<Rightarrow> func_ptr \<Rightarrow> (val \<Rightarrow> u64) \<Rightarrow> inst \<Rightarrow> (inst_ptr \<Rightarrow> u64) \<Rightarrow> inst_ptr \<Rightarrow> u64" where
  "exec_redirect rp f oth i env =
     (if in_op i = OpCall \<and> in_callee i = Some f then env(in_ptr i := rp (val_of oth env (hd (in_args i))))
      else exec_inst oth i env)"

lemma dynamic_access_redirected:
  assumes "pointer_index (in_op i) = Some (k, w)" "k < length (in_args i)" "in_bits i \<in> {8, 16, 32, 64, 128}"
  shows "\<exists>pre i'. instrumentMemoryAccess f next i = Inr (pre @ [i']) \<and> in_op i' = in_op i \<and> in_ptr i' = in_ptr i \<and>
    (\<forall>j. j \<noteq> k \<longrightarrow> in_args i' ! j = in_args i ! j) \<and>
    val_of oth (fold (exec_redirect rp f oth) pre env) (in_args i' ! k) = rp (val_of oth env (in_args i ! k)) \<and>
    (\<forall>p < next. fold (exec_redirect rp f oth) pre env p = env p)"
  using assms
  by (intro exI[of _ "[mk_inst next OpPtrToInt [in_args i ! k], insertRedirectCall f (next + 1) (Result next) w,
        mk_inst (next + 2) OpIntToPtr [Result (next + 1)], mk_inst (next + 3) OpAsm []]"]
      exI[of _ "i\<lparr>in_args := (in_args i)[k := Result (next + 2)]\<rparr>"])
    (auto simp: instrumentMemoryAccess_def getPointerOperandIndex_def arg_at_def set_arg_def guardE_def insertRedirectCall_def
      exec_redirect_def exec_inst_def val_of_def mk_inst_def err_simps)

text \<open>The walk rewrites the instructions with the chosen numbers and leaves the others as they are.\<close>

lemma dyn_insts_nth:
  assumes "dyn_insts f loc (of_nat c) next is = Inr res"
  shows "\<exists>news. res = concat news \<and> length news = length is \<and>
    (\<forall>j < length is. if of_nat (c + j) \<in> set loc then instrumentMemoryAccess f (next + 4 * j) (is ! j) = Inr (news ! j)
      else news ! j = [is ! j])"
  using assms
proof (induction "is" arbitrary: c "next" res)
  case (Cons i "is")
  from Cons.prems obtain new rest where new: "(if of_nat c \<in> set loc then instrumentMemoryAccess f next i else Inr [i]) = Inr new"
    and rest: "dyn_insts f loc (of_nat (Suc c)) (next + 4) is = Inr rest" and out: "res = new @ rest"
    by (auto simp: err_simps add.commute split: if_splits)
  from Cons.IH[OF rest] obtain news where news: "rest = concat news" "length news = length is"
    "\<forall>j < length is. if of_nat (Suc c + j) \<in> set loc then instrumentMemoryAccess f (next + 4 + 4 * j) (is ! j) = Inr (news ! j)
      else news ! j = [is ! j]" by blast
  show ?case
  proof (intro exI[of _ "new # news"] conjI allI impI)
    fix j
    assume "j < length (i # is)"
    then show "if of_nat (c + j) \<in> set loc then instrumentMemoryAccess f (next + 4 * j) ((i # is) ! j) = Inr ((new # news) ! j)
      else (new # news) ! j = [(i # is) ! j]"
      using new news(3)[rule_format, of "j - 1"] by (cases j) (auto simp: add.assoc split: if_splits)
  qed (use out news in simp_all)
qed simp

section \<open>Inline assembly\<close>

definition asm_doInitialization :: "(func_ptr \<Rightarrow> ll_type \<times> ll_type list) \<Rightarrow> ll_module \<Rightarrow> (func_ptr \<times> func_ptr \<times> ll_module) result" where
  "asm_doInitialization ty M =
     (case getOrInsertFunction ty ''TMI_beginASM'' (VoidT, []) M of
        (None, _) \<Rightarrow> Inl (AssertFail ''BeginFunction'')
      | (Some b, M1) \<Rightarrow>
          (case getOrInsertFunction ty ''TMI_endASM'' (VoidT, []) M1 of
             (None, _) \<Rightarrow> Inl (AssertFail ''EndFunction'')
           | (Some e, M2) \<Rightarrow> Inr (b, e, M2)))"

definition asm_call :: "func_ptr \<Rightarrow> inst_ptr \<Rightarrow> inst" where
  "asm_call f next = (mk_inst next OpCall [])\<lparr>in_callee := Some f\<rparr>"

text \<open>
  The second call goes in front of the next instruction, to which the iterator has moved by then; the loop goes
  on with the one after that. The end of a block is no instruction.
\<close>

fun asm_block :: "func_ptr \<Rightarrow> func_ptr \<Rightarrow> inst_ptr \<Rightarrow> inst list \<Rightarrow> inst list result" where
  "asm_block b e next [] = Inr []"
| "asm_block b e next [i] = (if in_op i = OpAsm then Inl (Undefined ''end of block'') else Inr [i])"
| "asm_block b e next (i # j # is) =
     (if in_op i = OpAsm
      then bindE (asm_block b e (next + 2) is) (\<lambda>rest. Inr (asm_call b next # i # asm_call e (next + 1) # j # rest))
      else bindE (asm_block b e next (j # is)) (\<lambda>rest. Inr (i # rest)))"

definition asm_runOnFunction :: "func_ptr \<Rightarrow> func_ptr \<Rightarrow> inst_ptr \<Rightarrow> func_ir \<Rightarrow> func_ir result" where
  "asm_runOnFunction b e next F =
     bindE (foldE (\<lambda>bb (n, blocks). bindE (asm_block b e n bb) (\<lambda>bb'. Inr (n + 2 * length bb, blocks @ [bb']))) (fn_blocks F) (next, []))
       (\<lambda>(n, bbs). Inr (F\<lparr>fn_blocks := bbs\<rparr>))"

text \<open>What the pass is meant to do with a block.\<close>

primrec bracketed :: "func_ptr \<Rightarrow> func_ptr \<Rightarrow> inst_ptr \<Rightarrow> inst list \<Rightarrow> inst list" where
  "bracketed b e next [] = []"
| "bracketed b e next (i # is) =
     (if in_op i = OpAsm then asm_call b next # i # asm_call e (next + 1) # bracketed b e (next + 2) is
      else i # bracketed b e next is)"

lemma asm_block_brackets:
  assumes "successively (\<lambda>i j. \<not> (in_op i = OpAsm \<and> in_op j = OpAsm)) is" "is \<noteq> [] \<Longrightarrow> in_op (last is) \<noteq> OpAsm"
  shows "asm_block b e next is = Inr (bracketed b e next is)"
  using assms
proof (induction b e "next" "is" rule: asm_block.induct)
  case (3 b e "next" i j "is")
  show ?case
  proof (cases "in_op i = OpAsm")
    case True
    then have "successively (\<lambda>i j. \<not> (in_op i = OpAsm \<and> in_op j = OpAsm)) is" "is \<noteq> [] \<Longrightarrow> in_op (last is) \<noteq> OpAsm" "in_op j \<noteq> OpAsm"
      using "3.prems" by (auto simp: successively_Cons)
    with True "3.IH"(1) show ?thesis by (simp add: err_simps)
  qed (use 3 in \<open>auto simp: err_simps successively_Cons\<close>)
qed auto

text \<open>Of two assembly calls in a row the second one is passed over.\<close>

lemma asm_block_misses:
  "asm_block 1 2 10 [mk_inst 5 OpAsm [], mk_inst 6 OpAsm [], mk_inst 7 OpOther []] =
     Inr [asm_call 1 10, mk_inst 5 OpAsm [], asm_call 2 11, mk_inst 6 OpAsm [], mk_inst 7 OpOther []]"
  by (simp add: mk_inst_def err_simps)

end
