(* ===== verification/MA_MemoryAnalysis.thy ===== *)
theory MA_MemoryAnalysis
  imports RP_Profile LL_Ir
begin

text \<open>
  The analysis of \<^verbatim>\<open>MemoryAnalysis/MemoryAnalysis.cpp\<close>: for every profiled instruction it follows the
  pointer operand back to an argument or an allocation and reports the range of bytes it may access.
\<close>

section \<open>Values\<close>

text \<open>
  What the compiler knows about the values of a module, which are numbered: their kind, type and
  users, the value below pointer casts (\<^verbatim>\<open>stripPointerCasts\<close>), the constant offset of an address
  computation and the store size of a type in bits.
\<close>

datatype ma_type = TPtr ma_type | TArray nat ma_type | TOther nat

datatype ma_node = NGep nat | NArgument func_ptr | NCall | NLoad nat | NStore nat nat | NRMW nat | NXchg nat | NBitCast | NOther

record ma_ir =
  ir_node :: "nat \<Rightarrow> ma_node"
  ir_type :: "nat \<Rightarrow> ma_type"
  ir_users :: "nat \<Rightarrow> nat list"
  ir_strip :: "nat \<Rightarrow> nat"
  ir_offset :: "nat \<Rightarrow> size_t option"
  ir_bits :: "ma_type \<Rightarrow> size_t"

type_synonym ma_pc = "size_t \<times> size_t"

record ma_segment =
  sg_begin :: size_t
  sg_end :: size_t

section \<open>Input\<close>

primrec load_pc_lines :: "nat \<Rightarrow> ma_pc \<Rightarrow> istream \<Rightarrow> (ma_pc \<times> ma_pc) list \<Rightarrow> ((ma_pc \<times> ma_pc) list \<times> istream) result" where
  "load_pc_lines 0 mpc s pcToMalloc = Inr (pcToMalloc, s)"
| "load_pc_lines (Suc m) mpc s pcToMalloc =
     (let (start, s1) = extract_u (None :: size_t option) s; (stop, s2) = extract_u (None :: size_t option) s1;
          (ifunc, s3) = extract_u None s2; (iinst, s4) = extract_u None s3; (thread, s5) = extract_u (None :: size_t option) s4
      in bindE (uninit ifunc) (\<lambda>f. bindE (uninit iinst) (\<lambda>i.
           load_pc_lines m mpc s5 (umap_emplace (f, i) mpc pcToMalloc))))"

primrec load_pc_groups :: "nat \<Rightarrow> istream \<Rightarrow> (ma_pc \<times> ma_pc) list \<Rightarrow> (ma_pc \<times> ma_pc) list result" where
  "load_pc_groups 0 s pcToMalloc = Inr pcToMalloc"
| "load_pc_groups (Suc n) s pcToMalloc =
     (let (mfunc, s1) = extract_u None s; (minst, s2) = extract_u None s1;
          (msize, s3) = extract_u (None :: size_t option) s2; (m, s4) = extract_u None s3
      in bindE (uninit mfunc) (\<lambda>f. bindE (uninit minst) (\<lambda>i. bindE (uninit m) (\<lambda>k.
         bindE (load_pc_lines (unat (k :: size_t)) (f, i) s4 pcToMalloc) (\<lambda>(pcs, s5). load_pc_groups n s5 pcs)))))"

definition loadPCs :: "istream \<Rightarrow> (ma_pc \<times> ma_pc) list result" where
  "loadPCs s =
     (let (n, s1) = extract_u None s
      in bindE (uninit n) (\<lambda>n. load_pc_groups (unat (n :: size_t)) s1 []))"

section \<open>Instructions\<close>

definition ma_getPointerOperand :: "ma_ir \<Rightarrow> nat \<Rightarrow> nat result" where
  "ma_getPointerOperand ir v =
     (case ir_node ir v of NLoad p \<Rightarrow> Inr p | NStore d p \<Rightarrow> Inr p | NRMW p \<Rightarrow> Inr p | NXchg p \<Rightarrow> Inr p
      | _ \<Rightarrow> Inl (AssertFail ''Instruction is not load/store!''))"

text \<open>The functions and instructions are counted from 0; declarations count too.\<close>

definition findpcs :: "ll_module \<Rightarrow> ma_pc list \<Rightarrow> (ma_pc \<times> inst_ptr) list result" where
  "findpcs M pcs =
     (let ret = fold (\<lambda>(n, p) ret.
              fold (\<lambda>(k, i) ret. if (word_of_nat n, word_of_nat k) \<in> set pcs
                                 then umap_emplace (word_of_nat n, word_of_nat k) (in_ptr i) ret else ret)
                (enumerate 0 (fn_insts (snd p))) ret)
            (enumerate 0 M) []
      in bindE (guardE (length ret = length pcs) (AssertFail ''Some pcs not found!'')) (\<lambda>_. Inr ret))"

text \<open>The loop of \<^verbatim>\<open>findAliasPtr\<close> over the users of the address: there must be exactly one store.\<close>

definition store_step :: "ma_ir \<Rightarrow> nat \<Rightarrow> nat option \<Rightarrow> nat option result" where
  "store_step ir u storeInst =
     (case ir_node ir u of
        NStore d p \<Rightarrow> bindE (guardE (storeInst = None) (AssertFail ''Multiple StoreInsts'')) (\<lambda>_. Inr (Some d))
      | _ \<Rightarrow> Inr storeInst)"

definition stored_value :: "ma_ir \<Rightarrow> nat \<Rightarrow> nat result" where
  "stored_value ir loadArg =
     bindE (foldE (store_step ir) (ir_users ir loadArg) None) (\<lambda>st.
       case st of None \<Rightarrow> Inl (AssertFail ''No store inst'') | Some d \<Rightarrow> Inr d)"

partial_function (option) findAliasPtr :: "ma_ir \<Rightarrow> nat \<Rightarrow> nat result option" where
  "findAliasPtr ir current =
     (let upPtr = ir_strip ir current
      in case ir_node ir upPtr of
           NGep p \<Rightarrow> Some (Inr upPtr)
         | NArgument f \<Rightarrow> Some (Inr upPtr)
         | NCall \<Rightarrow> Some (Inr upPtr)
         | NLoad loadArg \<Rightarrow> (case stored_value ir loadArg of Inl e \<Rightarrow> Some (Inl e) | Inr d \<Rightarrow> findAliasPtr ir d)
         | _ \<Rightarrow> Some (Inl (AssertFail ''false'')))"

definition elem_type :: "ma_type \<Rightarrow> ma_type result" where
  "elem_type t = (case t of TPtr e \<Rightarrow> Inr e | _ \<Rightarrow> Inl (AssertFail ''cast<PointerType>''))"

definition type_bytes :: "ma_ir \<Rightarrow> ma_type \<Rightarrow> size_t" where
  "type_bytes ir t = drop_bit 3 (ir_bits ir t)"

text \<open>The part of the loop behind a computed address: the new range, offset and array flag.\<close>

definition gep_range :: "ma_ir \<Rightarrow> nat \<Rightarrow> nat \<Rightarrow> size_t \<times> bool \<Rightarrow> (size_t \<times> bool) result" where
  "gep_range ir ptr gep st =
     (if ir_type ir gep \<noteq> ir_type ir ptr then
        bindE (elem_type (ir_type ir gep)) (\<lambda>al. case al of
            TArray nElem elemTy \<Rightarrow>
              bindE (guardE (\<not> snd st) (AssertFail ''Nested array unsupported'')) (\<lambda>_.
              bindE (guardE (TPtr elemTy = ir_type ir ptr) (AssertFail ''elemTy->getPointerTo() == ptr->getType()'')) (\<lambda>_.
                Inr (fst st * word_of_nat nElem, True)))
          | _ \<Rightarrow> Inr st)
      else Inr st)"

definition gep_offset :: "ma_ir \<Rightarrow> nat \<Rightarrow> nat \<Rightarrow> size_t \<Rightarrow> size_t result" where
  "gep_offset ir gep provider offset =
     (if ir_type ir provider \<noteq> ir_type ir gep then
        (case ir_offset ir gep of None \<Rightarrow> Inl (AssertFail ''accumulateConstantOffset'') | Some d \<Rightarrow> Inr (offset + d))
      else Inr offset)"

partial_function (option) range_walk :: "ma_ir \<Rightarrow> nat \<Rightarrow> size_t \<Rightarrow> bool \<Rightarrow> size_t \<Rightarrow> (func_ptr option \<times> ma_segment) result option" where
  "range_walk ir ptr rng isArray offset =
     (case findAliasPtr ir ptr of None \<Rightarrow> None
      | Some (Inl e) \<Rightarrow> Some (Inl e)
      | Some (Inr barrier) \<Rightarrow>
          (case ir_node ir barrier of
             NArgument f \<Rightarrow> Some (Inr (Some f, \<lparr>sg_begin = offset, sg_end = offset + rng\<rparr>))
           | NCall \<Rightarrow> Some (Inr (None, \<lparr>sg_begin = offset, sg_end = offset + rng\<rparr>))
           | NGep provider \<Rightarrow>
               (case gep_range ir ptr barrier (rng, isArray) of Inl e \<Rightarrow> Some (Inl e)
                | Inr (rng1, isArray1) \<Rightarrow>
                    (case gep_offset ir barrier provider offset of Inl e \<Rightarrow> Some (Inl e)
                     | Inr offset1 \<Rightarrow> range_walk ir provider rng1 isArray1 offset1))
           | _ \<Rightarrow> Some (Inl (AssertFail ''cast<GetElementPtrInst>''))))"

definition findPtrMaxRange :: "ma_ir \<Rightarrow> nat \<Rightarrow> (func_ptr option \<times> ma_segment) result option" where
  "findPtrMaxRange ir ptr =
     (case elem_type (ir_type ir ptr) of Inl e \<Rightarrow> Some (Inl e)
      | Inr t \<Rightarrow> range_walk ir ptr (type_bytes ir t) False 0)"

text \<open>All bit casts of an allocation must go to one type.\<close>

definition getMallocType :: "ma_ir \<Rightarrow> nat \<Rightarrow> ma_type result" where
  "getMallocType ir malloced =
     bindE (foldE (\<lambda>u t. case ir_node ir u of
           NBitCast \<Rightarrow> bindE (guardE (t = None \<or> t = Some (ir_type ir u)) (AssertFail ''Malloc ptr casted to multiple types?'')) (\<lambda>_.
             Inr (Some (ir_type ir u)))
         | _ \<Rightarrow> Inr t) (ir_users ir malloced) None) (\<lambda>t.
       case t of None \<Rightarrow> Inl (AssertFail ''Didn't see bitcast'') | Some ty \<Rightarrow> elem_type ty)"

section \<open>The pass\<close>

primrec all_ranges :: "ma_ir \<Rightarrow> (ma_pc \<times> inst_ptr) list \<Rightarrow> (ma_pc \<times> ma_segment) list \<Rightarrow> (ma_pc \<times> ma_segment) list result option" where
  "all_ranges ir [] res = Some (Inr res)"
| "all_ranges ir (p # ps) res =
     (case ma_getPointerOperand ir (snd p) of Inl e \<Rightarrow> Some (Inl e)
      | Inr ptr \<Rightarrow> (case findPtrMaxRange ir ptr of None \<Rightarrow> None
          | Some (Inl e) \<Rightarrow> Some (Inl e)
          | Some (Inr (f, seg)) \<Rightarrow> all_ranges ir ps (smap_put (fst p) seg res)))"

definition ma_malloc_sizes :: "ma_ir \<Rightarrow> (ma_pc \<times> inst_ptr) list \<Rightarrow> (ma_pc \<times> size_t) list result" where
  "ma_malloc_sizes ir mPC2Inst =
     foldE (\<lambda>p sizes. bindE (getMallocType ir (snd p)) (\<lambda>ty. Inr (umap_put (fst p) (type_bytes ir ty) sizes))) mPC2Inst []"

text \<open>The allocations in order, each with its size and the ranges of its instructions.\<close>

definition collect_result ::
  "(ma_pc \<times> ma_pc) list \<Rightarrow> (ma_pc \<times> size_t) list \<Rightarrow> (ma_pc \<times> ma_segment) list \<Rightarrow> (ma_pc \<times> size_t \<times> (ma_pc \<times> ma_segment) list) list result" where
  "collect_result pcToMalloc mallocTypeSize pcResult =
     bindE (foldE (\<lambda>p collected. case map_of pcToMalloc (fst p) of None \<Rightarrow> Inl (Undefined ''end iterator'')
         | Some key \<Rightarrow> Inr (smap_alter key (smap_emplace (fst p) (snd p)) [] collected)) pcResult []) (\<lambda>collected.
       mapE (\<lambda>p. case map_of mallocTypeSize (fst p) of None \<Rightarrow> Inl (Undefined ''end iterator'')
           | Some msize \<Rightarrow> Inr (fst p, msize, snd p)) collected)"

text \<open>\<open>order\<close> is the iteration order of the hash tables.\<close>

definition ma_runOnModule ::
  "((ma_pc \<times> inst_ptr) list \<Rightarrow> (ma_pc \<times> inst_ptr) list) \<Rightarrow> ma_ir \<Rightarrow> ll_module \<Rightarrow> (ma_pc \<times> ma_pc) list \<Rightarrow>
   (ma_pc \<times> size_t \<times> (ma_pc \<times> ma_segment) list) list result option" where
  "ma_runOnModule order ir M pcToMalloc =
     (case findpcs M (map fst pcToMalloc) of Inl e \<Rightarrow> Some (Inl e)
      | Inr iPC2Inst \<Rightarrow> (case findpcs M (remdups (map snd pcToMalloc)) of Inl e \<Rightarrow> Some (Inl e)
        | Inr mPC2Inst \<Rightarrow> (case all_ranges ir (order iPC2Inst) [] of None \<Rightarrow> None
          | Some (Inl e) \<Rightarrow> Some (Inl e)
          | Some (Inr pcResult) \<Rightarrow>
              Some (bindE (ma_malloc_sizes ir (order mPC2Inst)) (\<lambda>sizes. collect_result pcToMalloc sizes pcResult)))))"

section \<open>The walk ends\<close>

text \<open>
  Values that a pointer stands for, across casts and across a stored copy, and the argument or
  allocation it points into, with the offset there.
\<close>

definition is_barrier :: "ma_node \<Rightarrow> bool" where
  "is_barrier n \<longleftrightarrow> (case n of NGep p \<Rightarrow> True | NArgument f \<Rightarrow> True | NCall \<Rightarrow> True | _ \<Rightarrow> False)"

inductive alias_of :: "ma_ir \<Rightarrow> nat \<Rightarrow> nat \<Rightarrow> bool" for ir where
  alias_strip: "is_barrier (ir_node ir (ir_strip ir v)) \<Longrightarrow> alias_of ir v (ir_strip ir v)"
| alias_load: "ir_node ir (ir_strip ir v) = NLoad a \<Longrightarrow> stored_value ir a = Inr d \<Longrightarrow> alias_of ir d w \<Longrightarrow> alias_of ir v w"

definition root_of :: "ma_node \<Rightarrow> func_ptr option option" where
  "root_of n = (case n of NArgument f \<Rightarrow> Some (Some f) | NCall \<Rightarrow> Some None | _ \<Rightarrow> None)"

definition field_offset :: "ma_ir \<Rightarrow> nat \<Rightarrow> nat \<Rightarrow> size_t" where
  "field_offset ir gep provider = (if ir_type ir provider = ir_type ir gep then 0 else value_or 0 (ir_offset ir gep))"

inductive points_into :: "ma_ir \<Rightarrow> nat \<Rightarrow> func_ptr option \<Rightarrow> size_t \<Rightarrow> bool" for ir where
  into_root: "alias_of ir v w \<Longrightarrow> root_of (ir_node ir w) = Some r \<Longrightarrow> points_into ir v r 0"
| into_field: "alias_of ir v g \<Longrightarrow> ir_node ir g = NGep p \<Longrightarrow> points_into ir p r d \<Longrightarrow> points_into ir v r (field_offset ir g p + d)"

text \<open>No value is computed from itself: a measure goes down on every way back.\<close>

definition acyclic_values :: "(nat \<Rightarrow> nat) \<Rightarrow> ma_ir \<Rightarrow> bool" where
  "acyclic_values rank ir \<longleftrightarrow> (\<forall>v. rank (ir_strip ir v) \<le> rank v \<and> (\<forall>p. ir_node ir v = NGep p \<longrightarrow> rank p < rank v) \<and>
     (\<forall>a d. ir_node ir v = NLoad a \<longrightarrow> stored_value ir a = Inr d \<longrightarrow> rank d < rank v))"

lemma findAliasPtr_ends:
  assumes "acyclic_values rank ir"
  shows "\<exists>r. findAliasPtr ir v = Some r \<and> (\<forall>w. r = Inr w \<longrightarrow> alias_of ir v w \<and> is_barrier (ir_node ir w) \<and> rank w \<le> rank v)"
proof (induction "rank v" arbitrary: v rule: less_induct)
  case less
  let ?u = "ir_strip ir v"
  have u: "rank ?u \<le> rank v" using assms by (simp add: acyclic_values_def)
  show ?case
  proof (cases "ir_node ir ?u")
    case (NLoad a)
    show ?thesis
    proof (cases "stored_value ir a")
      case (Inl e)
      then show ?thesis using NLoad by (simp add: findAliasPtr.simps[of ir v] Let_def)
    next
      case (Inr d)
      then have "rank d < rank ?u" using assms NLoad unfolding acyclic_values_def by blast
      then have d: "rank d < rank v" using u by simp
      from less[OF d] show ?thesis using NLoad Inr d alias_load[OF NLoad Inr]
        by (fastforce simp: findAliasPtr.simps[of ir v] Let_def)
    qed
  qed (use u in \<open>auto simp: findAliasPtr.simps[of ir v] Let_def is_barrier_def intro!: alias_strip\<close>)
qed

lemma range_walk_ends:
  assumes "acyclic_values rank ir"
  shows "\<exists>r. range_walk ir v rng arr off = Some r \<and>
    (\<forall>f seg. r = Inr (f, seg) \<longrightarrow> (\<exists>d. points_into ir v f d \<and> sg_begin seg = off + d))"
proof (induction "rank v" arbitrary: v rng arr off rule: less_induct)
  case less
  from findAliasPtr_ends[OF assms, of v] obtain r where r: "findAliasPtr ir v = Some r"
    "\<forall>w. r = Inr w \<longrightarrow> alias_of ir v w \<and> is_barrier (ir_node ir w) \<and> rank w \<le> rank v" by blast
  show ?case
  proof (cases r)
    case (Inl e)
    then show ?thesis using r(1) by (simp add: range_walk.simps[of ir v])
  next
    case (Inr w)
    then have w: "alias_of ir v w" "is_barrier (ir_node ir w)" "rank w \<le> rank v" using r(2) by auto
    show ?thesis
    proof (cases "ir_node ir w")
      case (NGep p)
      have p: "rank p < rank v" using assms NGep w(3) by (fastforce simp: acyclic_values_def)
      show ?thesis
      proof (cases "gep_range ir v w (rng, arr)")
        case (Inl e)
        then show ?thesis using r(1) \<open>r = Inr w\<close> NGep by (simp add: range_walk.simps[of ir v])
      next
        case gr: (Inr ra)
        show ?thesis
        proof (cases "gep_offset ir w p off")
          case (Inl e)
          then show ?thesis using r(1) \<open>r = Inr w\<close> NGep gr by (simp add: range_walk.simps[of ir v] split: prod.splits)
        next
          case (Inr off1)
          then have "off1 = off + field_offset ir w p" by (auto simp: gep_offset_def field_offset_def split: if_splits option.splits)
          then show ?thesis
            using less[OF p, of "fst ra" "snd ra" off1] into_field[OF w(1) NGep] r(1) \<open>r = Inr w\<close> NGep gr Inr
            by (cases ra) (fastforce simp: range_walk.simps[of ir v] add.assoc)
        qed
      qed
    qed (use r(1) Inr w in \<open>auto simp: range_walk.simps[of ir v] is_barrier_def root_of_def intro!: exI[of _ 0] into_root[of ir v w]\<close>)
  qed
qed

text \<open>
  \<^bold>\<open>C34.\<close> Following a pointer back ends and finds where it points. When no value of the program is
  computed from itself, the search for the range of an access ends; if it succeeds, the access is
  relative to the argument or allocation it names, and the range starts at the sum of the offsets of
  the fields on the way.
\<close>

theorem memory_range_ends:
  assumes "acyclic_values rank ir"
  shows "\<exists>r. findPtrMaxRange ir ptr = Some r \<and>
    (\<forall>f seg. r = Inr (f, seg) \<longrightarrow> points_into ir ptr f (sg_begin seg))"
  using range_walk_ends[OF assms, of ptr _ False 0]
  by (cases "elem_type (ir_type ir ptr)") (fastforce simp: findPtrMaxRange_def)+

text \<open>A slot whose only store puts back what was loaded from it is followed forever.\<close>

lemma self_store_hangs:
  assumes "ir_strip ir v = v" "ir_node ir v = NLoad a" "stored_value ir a = Inr v"
  shows "findAliasPtr ir v = None"
proof (rule ccontr)
  assume "findAliasPtr ir v \<noteq> None"
  then obtain y where "findAliasPtr ir v = Some y" by blast
  then have "\<not> (ir_strip ir v = v \<and> ir_node ir v = NLoad a \<and> stored_value ir a = Inr v)"
  proof (rule findAliasPtr.raw_induct[where P = "\<lambda>ir v y. \<not> (ir_strip ir v = v \<and> ir_node ir v = NLoad a \<and> stored_value ir a = Inr v)",
        rotated])
    fix f and ir :: ma_ir and v y
    assume IH: "\<And>ir v y. f ir v = Some y \<Longrightarrow> \<not> (ir_strip ir v = v \<and> ir_node ir v = NLoad a \<and> stored_value ir a = Inr v)"
      and body: "(let upPtr = ir_strip ir v
      in case ir_node ir upPtr of
           NGep p \<Rightarrow> Some (Inr upPtr)
         | NArgument f \<Rightarrow> Some (Inr upPtr)
         | NCall \<Rightarrow> Some (Inr upPtr)
         | NLoad loadArg \<Rightarrow> (case stored_value ir loadArg of Inl e \<Rightarrow> Some (Inl e) | Inr d \<Rightarrow> f ir d)
         | _ \<Rightarrow> Some (Inl (AssertFail ''false''))) = Some y"
    show "\<not> (ir_strip ir v = v \<and> ir_node ir v = NLoad a \<and> stored_value ir a = Inr v)"
      using body IH[of ir v y] by auto
  qed
  with assms show False by blast
qed

text \<open>A field at offset 8 of a structure that is passed to a function and kept in a local slot.\<close>

definition sample_ir :: ma_ir where
  "sample_ir = \<lparr>ir_node = (\<lambda>v. if v = 2 then NArgument 7 else if v = 3 then NOther else if v = 4 then NStore 2 3
       else if v = 5 then NLoad 3 else if v = 6 then NGep 5 else NOther),
     ir_type = (\<lambda>v. if v = 6 then TPtr (TOther 9) else TPtr (TOther 8)),
     ir_users = (\<lambda>v. if v = 3 then [4, 5] else []), ir_strip = (\<lambda>v. v),
     ir_offset = (\<lambda>v. if v = 6 then Some 8 else None), ir_bits = (\<lambda>t. if t = TOther 9 then 32 else 128)\<rparr>"

theorem memory_range_ends_witness:
  "findPtrMaxRange sample_ir 6 = Some (Inr (Some 7, \<lparr>sg_begin = 8, sg_end = 12\<rparr>)) \<and> points_into sample_ir 6 (Some 7) 8"
proof -
  have sv: "stored_value sample_ir 3 = Inr 2" by (simp add: stored_value_def store_step_def sample_ir_def)
  have a: "acyclic_values (\<lambda>v. v) sample_ir"
    unfolding acyclic_values_def
  proof (intro allI conjI impI)
    fix v a d
    assume "ir_node sample_ir v = NLoad a" "stored_value sample_ir a = Inr d"
    then have "v = 5" "a = 3" by (auto simp: sample_ir_def split: if_splits)
    then show "d < v" using \<open>stored_value sample_ir a = Inr d\<close> sv by simp
  qed (auto simp: sample_ir_def split: if_splits)
  have f5: "findAliasPtr sample_ir 6 = Some (Inr 6)" and f1: "findAliasPtr sample_ir 2 = Some (Inr 2)"
    by (simp_all add: findAliasPtr.simps sample_ir_def)
  have "findAliasPtr sample_ir 5 = findAliasPtr sample_ir 2"
    using sv by (subst findAliasPtr.simps) (simp add: sample_ir_def)
  then have f4: "findAliasPtr sample_ir 5 = Some (Inr 2)" using f1 by simp
  have n: "ir_node sample_ir 6 = NGep 5" "ir_node sample_ir 2 = NArgument 7" "ir_type sample_ir 6 = TPtr (TOther 9)"
    "type_bytes sample_ir (TOther 9) = 4" "gep_offset sample_ir 6 5 0 = Inr 8" "gep_range sample_ir 6 6 (4, False) = Inr (4, False)"
    by (simp_all add: sample_ir_def type_bytes_def gep_offset_def gep_range_def)
  have "range_walk sample_ir 5 4 False 8 = Some (Inr (Some 7, \<lparr>sg_begin = 8, sg_end = 12\<rparr>))"
    by (subst range_walk.simps) (simp add: f4 n)
  moreover have "range_walk sample_ir 6 4 False 0 = range_walk sample_ir 5 4 False 8"
    by (subst range_walk.simps) (simp add: f5 n)
  ultimately have "findPtrMaxRange sample_ir 6 = Some (Inr (Some 7, \<lparr>sg_begin = 8, sg_end = 12\<rparr>))"
    by (simp add: findPtrMaxRange_def elem_type_def n)
  moreover from memory_range_ends[OF a, of 6] this have "points_into sample_ir 6 (Some 7) 8" by auto
  ultimately show ?thesis by simp
qed

end
