(* ===== verification/KM_Kmeans.thy ===== *)
theory KM_Kmeans
  imports Huron_Prelude
begin

text \<open>
  The clustering draft of \<^verbatim>\<open>kmeans_repair/kmeans.h\<close>: feature vectors of counts per thread, their distance,
  the closest centroid and the choice of the first centroids. Reading the input is left out.
\<close>

record RWCounts =
  rw_readCounts :: u32
  rw_writeCounts :: u32

record FeatureVector =
  fv_features :: "(u32 \<times> RWCounts) list"
  fv_addressStart :: u32
  fv_rwSize :: u32

text \<open>The difference of two counts as \<^verbatim>\<open>int\<close>, made positive; overflow is undefined.\<close>

definition count_diff :: "u32 \<Rightarrow> u32 \<Rightarrow> u32 result" where
  "count_diff a b =
     (let d = sint a - sint b
      in if d < - (2 ^ 31) \<or> d \<ge> 2 ^ 31 then Inl (Undefined ''signed overflow'')
         else if d < 0 then (if d = - (2 ^ 31) then Inl (Undefined ''signed overflow'') else Inr (of_int (- d)))
         else Inr (of_int d))"

definition distance_step :: "FeatureVector \<Rightarrow> u32 \<times> RWCounts \<Rightarrow> u32 \<Rightarrow> u32 result" where
  "distance_step fv it distance =
     (case map_of (fv_features fv) (fst it) of
        None \<Rightarrow> Inr (distance + rw_readCounts (snd it) + rw_writeCounts (snd it))
      | Some rwc \<Rightarrow>
          bindE (count_diff (rw_readCounts (snd it)) (rw_readCounts rwc)) (\<lambda>readDistance.
          bindE (count_diff (rw_writeCounts (snd it)) (rw_writeCounts rwc)) (\<lambda>writeDistance.
            Inr (distance + readDistance + writeDistance))))"

definition getDistance :: "FeatureVector \<Rightarrow> FeatureVector \<Rightarrow> u32 result" where
  "getDistance centroid fv = foldE (distance_step fv) (fv_features centroid) 0"

text \<open>The loop keeps the result and the least distance; \<open>i\<close> is the index of the first centroid of the list.\<close>

primrec closest_from :: "FeatureVector \<Rightarrow> u32 \<Rightarrow> FeatureVector list \<Rightarrow> u32 \<times> u32 \<Rightarrow> (u32 \<times> u32) result" where
  "closest_from fv i [] st = Inr st"
| "closest_from fv i (c # cs) st =
     bindE (getDistance c fv) (\<lambda>distance.
       closest_from fv (i + 1) cs
         (if i = 0 then (fst st, distance) else if distance < snd st then (i, distance) else st))"

definition getClosestCentroid :: "FeatureVector list \<Rightarrow> FeatureVector \<Rightarrow> u32 result" where
  "getClosestCentroid centroids fv = bindE (closest_from fv 0 centroids (0, 0)) (\<lambda>st. Inr (fst st))"

definition updateAssignments :: "FeatureVector list \<Rightarrow> FeatureVector list \<Rightarrow> u32 list \<Rightarrow> u32 list result" where
  "updateAssignments centroids dataset assignments =
     foldE (\<lambda>i as. bindE (getClosestCentroid centroids (dataset ! i)) (\<lambda>c.
         if i < length as then Inr (as[i := c]) else Inl (Undefined ''index past the assignments'')))
       [0..<length dataset] assignments"

text \<open>The new centroid is never computed: all counts become zero.\<close>

definition updateCentroid :: "FeatureVector \<Rightarrow> FeatureVector list \<Rightarrow> u32 list \<Rightarrow> FeatureVector" where
  "updateCentroid centroid dataset assignments =
     centroid\<lparr>fv_features := map (\<lambda>it. (fst it, \<lparr>rw_readCounts = 0, rw_writeCounts = 0\<rparr>)) (fv_features centroid)\<rparr>"

definition raise_counts :: "RWCounts \<Rightarrow> RWCounts \<Rightarrow> RWCounts" where
  "raise_counts new old =
     \<lparr>rw_readCounts = (if rw_readCounts old < rw_readCounts new then rw_readCounts new else rw_readCounts old),
      rw_writeCounts = (if rw_writeCounts old < rw_writeCounts new then rw_writeCounts new else rw_writeCounts old)\<rparr>"

definition presentThreadIds :: "FeatureVector list \<Rightarrow> (u32 \<times> RWCounts) list" where
  "presentThreadIds dataset =
     fold (\<lambda>it. smap_alter (fst it) (raise_counts (snd it)) (snd it)) (concat (map fv_features dataset)) []"

text \<open>
  \<open>draw t i w m\<close> is the number drawn for centroid \<open>i\<close> and thread \<open>t\<close>, for the writes or the reads, up to \<open>m\<close>;
  \<open>junk\<close> gives the fields that are not set. The function of the source returns nothing: the model returns the centroids
  it has built.
\<close>

definition kmeans :: "(u32 \<Rightarrow> nat \<Rightarrow> bool \<Rightarrow> u32 \<Rightarrow> u32) \<Rightarrow> FeatureVector \<Rightarrow> u32 \<Rightarrow> FeatureVector list \<Rightarrow> FeatureVector list" where
  "kmeans draw junk k dataset =
     fold (\<lambda>p cs. map (\<lambda>(i, c). c\<lparr>fv_features := smap_put (fst p)
         \<lparr>rw_readCounts = draw (fst p) i False (rw_readCounts (snd p)), rw_writeCounts = draw (fst p) i True (rw_writeCounts (snd p))\<rparr>
         (fv_features c)\<rparr>) (enumerate 0 cs))
       (presentThreadIds dataset) (replicate (unat k) (junk\<lparr>fv_features := []\<rparr>))"

section \<open>Distances\<close>

text \<open>The distance without wrap-around: threads that the vector does not have count with zero.\<close>

definition counts_of :: "FeatureVector \<Rightarrow> u32 \<Rightarrow> RWCounts" where
  "counts_of fv t = value_or \<lparr>rw_readCounts = 0, rw_writeCounts = 0\<rparr> (map_of (fv_features fv) t)"

definition nat_diff :: "u32 \<Rightarrow> u32 \<Rightarrow> nat" where
  "nat_diff a b = nat \<bar>uint a - uint b\<bar>"

definition thread_distance :: "FeatureVector \<Rightarrow> u32 \<times> RWCounts \<Rightarrow> nat" where
  "thread_distance fv it =
     nat_diff (rw_readCounts (snd it)) (rw_readCounts (counts_of fv (fst it))) +
     nat_diff (rw_writeCounts (snd it)) (rw_writeCounts (counts_of fv (fst it)))"

definition counts_small :: "FeatureVector \<Rightarrow> bool" where
  "counts_small fv \<longleftrightarrow> (\<forall>it \<in> set (fv_features fv). rw_readCounts (snd it) < 2 ^ 31 \<and> rw_writeCounts (snd it) < 2 ^ 31)"

lemma sint_small32: "(a :: u32) < 2 ^ 31 \<Longrightarrow> sint a = uint a \<and> uint a < 2 ^ 31"
proof -
  assume "a < 2 ^ 31"
  then have l: "uint a < 2 ^ 31" by (simp add: word_less_def)
  moreover have "0 \<le> uint a" by (rule uint_ge_0)
  ultimately have "- (2 ^ 31) \<le> uint a \<and> uint a < 2 ^ 31" by linarith
  then show ?thesis using l by (simp add: sint_uint signed_take_bit_int_eq_self_iff)
qed

lemma count_diff_small:
  assumes "a < 2 ^ 31" "b < 2 ^ 31"
  shows "count_diff a b = Inr (of_nat (nat_diff a b))"
proof -
  note a = sint_small32[OF assms(1)] and b = sint_small32[OF assms(2)]
  have "0 \<le> uint a" "0 \<le> uint b" by (rule uint_ge_0)+
  then have r: "\<not> (uint a - uint b < - (2 ^ 31) \<or> uint a - uint b \<ge> 2 ^ 31)" "uint a - uint b \<noteq> - (2 ^ 31)" using a b by linarith+
  show ?thesis
  proof (cases "uint a - uint b < 0")
    case True
    then have "int (nat_diff a b) = uint b - uint a" by (simp add: nat_diff_def)
    then have "(of_nat (nat_diff a b) :: u32) = of_int (uint b - uint a)" by (metis of_int_of_nat_eq)
    then show ?thesis using True r a b by (simp add: count_diff_def)
  next
    case False
    then have "int (nat_diff a b) = uint a - uint b" by (simp add: nat_diff_def)
    then have "(of_nat (nat_diff a b) :: u32) = of_int (uint a - uint b)" by (metis of_int_of_nat_eq)
    then show ?thesis using False r a b by (simp add: count_diff_def)
  qed
qed

lemma nat_diff_0: "of_nat (nat_diff a 0) = a"
  by (simp add: nat_diff_def)

lemma distance_step_exact:
  assumes "rw_readCounts (snd it) < 2 ^ 31" "rw_writeCounts (snd it) < 2 ^ 31" "counts_small fv"
  shows "distance_step fv it d = Inr (d + of_nat (thread_distance fv it))"
proof (cases "map_of (fv_features fv) (fst it)")
  case None
  then show ?thesis by (simp add: distance_step_def thread_distance_def counts_of_def nat_diff_0 add.assoc)
next
  case (Some rwc)
  then have "rw_readCounts rwc < 2 ^ 31" "rw_writeCounts rwc < 2 ^ 31"
    using assms(3) map_of_SomeD by (fastforce simp: counts_small_def)+
  then show ?thesis using Some assms(1,2)
    by (simp add: distance_step_def thread_distance_def counts_of_def count_diff_small add.assoc)
qed

text \<open>For counts below \<open>2 ^ 31\<close> the distance is the sum of the differences, modulo \<open>2 ^ 32\<close>.\<close>

lemma getDistance_exact:
  assumes "counts_small centroid" "counts_small fv"
  shows "getDistance centroid fv = Inr (of_nat (sum_list (map (thread_distance fv) (fv_features centroid))))"
proof -
  have "foldE (distance_step fv) its d = Inr (d + of_nat (sum_list (map (thread_distance fv) its)))"
    if "\<forall>it \<in> set its. rw_readCounts (snd it) < 2 ^ 31 \<and> rw_writeCounts (snd it) < 2 ^ 31" for its d
    using that by (induction its arbitrary: d) (simp_all add: distance_step_exact[OF _ _ assms(2)] add.assoc)
  from this[of "fv_features centroid" 0] show ?thesis using assms(1) by (simp add: getDistance_def counts_small_def)
qed

section \<open>The closest centroid\<close>

definition first_min :: "(nat \<Rightarrow> u32) \<Rightarrow> nat \<Rightarrow> nat \<Rightarrow> bool" where
  "first_min D r n \<longleftrightarrow> r < n \<and> (\<forall>i < n. D r \<le> D i) \<and> (\<forall>i < r. D r < D i)"

lemma first_min_Suc: "first_min D r n \<Longrightarrow> first_min D (if D n < D r then n else r) (Suc n)"
  by (auto simp: first_min_def less_Suc_eq)

lemma closest_from_first_min:
  assumes "0 < n" "n + length cs < 2 ^ 32" "first_min D r n" "\<forall>k < length cs. getDistance (cs ! k) fv = Inr (D (n + k))"
  shows "\<exists>r'. closest_from fv (of_nat n) cs (of_nat r, D r) = Inr (of_nat r', D r') \<and> first_min D r' (n + length cs)"
  using assms
proof (induction cs arbitrary: n r)
  case Nil
  then show ?case by auto
next
  case (Cons c cs)
  have "(of_nat n :: u32) \<noteq> 0"
  proof
    assume "(of_nat n :: u32) = 0"
    then have "unat (of_nat n :: u32) = 0" by simp
    then show False using Cons.prems(1,2) by (simp only: unat_of_nat) simp
  qed
  moreover have "getDistance c fv = Inr (D n)" using Cons.prems(4) by (metis Nat.add_0_right length_Cons nth_Cons_0 zero_less_Suc)
  moreover have "\<forall>k < length cs. getDistance (cs ! k) fv = Inr (D (Suc n + k))"
    using Cons.prems(4) by (metis Suc_less_eq add_Suc_shift length_Cons nth_Cons_Suc)
  ultimately show ?case
    using Cons.IH[of "Suc n" "if D n < D r then n else r"] Cons.prems(2) first_min_Suc[OF Cons.prems(3)]
    by (auto simp: add.commute split: if_splits)
qed

text \<open>The index returned is the first of the centroids with the least distance.\<close>

lemma closest_centroid_first:
  assumes "cs \<noteq> []" "length cs < 2 ^ 32" "\<forall>c \<in> set cs. counts_small c" "counts_small fv"
  shows "\<exists>r. getClosestCentroid cs fv = Inr (of_nat r) \<and>
    first_min (\<lambda>i. of_nat (sum_list (map (thread_distance fv) (fv_features (cs ! i))))) r (length cs)"
proof -
  from assms(1) obtain c cs' where cs: "cs = c # cs'" by (cases cs) auto
  let ?D = "\<lambda>i. of_nat (sum_list (map (thread_distance fv) (fv_features (cs ! i)))) :: u32"
  have d: "\<forall>k < length cs. getDistance (cs ! k) fv = Inr (?D k)" using getDistance_exact assms(3,4) by simp
  then have "getDistance c fv = Inr (?D 0)" by (auto simp: cs)
  moreover have m: "first_min ?D 0 1" by (simp add: first_min_def)
  have e: "\<forall>k < length cs'. getDistance (cs' ! k) fv = Inr (?D (1 + k))" using d by (auto simp: cs)
  have "1 + length cs' < 2 ^ 32" using assms(2) by (simp add: cs)
  from closest_from_first_min[OF zero_less_one this m e]
  obtain r where "closest_from fv (of_nat 1) cs' (of_nat 0, ?D 0) = Inr (of_nat r, ?D r)" "first_min ?D r (1 + length cs')" by blast
  ultimately show ?thesis by (auto simp: getClosestCentroid_def cs)
qed

section \<open>The first centroids\<close>

lemma presentThreadIds_ok: "smap_ok (presentThreadIds dataset)"
proof -
  have "smap_ok m \<Longrightarrow> smap_ok (fold (\<lambda>it. smap_alter (fst it) (raise_counts (snd it)) (snd it)) its m)" for its m :: "(u32 \<times> RWCounts) list"
    by (induction its arbitrary: m) (simp_all add: smap_ok_alter)
  then show ?thesis by (simp add: presentThreadIds_def)
qed

text \<open>The centroids have exactly the threads of the data, with counts up to the greatest of the data.\<close>

lemma kmeans_centroids:
  assumes "\<And>t i w m. draw t i w m \<le> m" "c \<in> set (kmeans draw junk k dataset)"
  shows "map fst (fv_features c) = map fst (presentThreadIds dataset)"
    and "list_all2 (\<lambda>x y. rw_readCounts (snd x) \<le> rw_readCounts (snd y) \<and> rw_writeCounts (snd x) \<le> rw_writeCounts (snd y))
      (fv_features c) (presentThreadIds dataset)"
proof -
  let ?le = "\<lambda>x y. fst x = fst y \<and> rw_readCounts (snd x) \<le> rw_readCounts (snd y) \<and> rw_writeCounts (snd x) \<le> rw_writeCounts (snd y)"
  let ?step = "\<lambda>p cs. map (\<lambda>(i, c). c\<lparr>fv_features := smap_put (fst p)
         \<lparr>rw_readCounts = draw (fst p) i False (rw_readCounts (snd p)), rw_writeCounts = draw (fst p) i True (rw_writeCounts (snd p))\<rparr>
         (fv_features c)\<rparr>) (enumerate 0 cs)"
  have "\<forall>c \<in> set (fold ?step ps cs). list_all2 ?le (fv_features c) (pre @ ps)"
    if "smap_ok (pre @ ps)" "\<forall>c \<in> set cs. list_all2 ?le (fv_features c) pre" for ps pre and cs :: "FeatureVector list"
    using that
  proof (induction ps arbitrary: pre cs)
    case (Cons p ps)
    have "list_all2 ?le (fv_features c') (pre @ [p])" if c': "c' \<in> set (?step p cs)" for c'
    proof -
      from c' obtain i c where c: "c \<in> set cs" "c' = c\<lparr>fv_features := smap_put (fst p)
         \<lparr>rw_readCounts = draw (fst p) i False (rw_readCounts (snd p)), rw_writeCounts = draw (fst p) i True (rw_writeCounts (snd p))\<rparr>
         (fv_features c)\<rparr>"
        by (auto simp: in_set_enumerate_eq) (metis nth_mem)
      have l: "list_all2 ?le (fv_features c) pre" using Cons.prems(2) c(1) by blast
      have "\<forall>q \<in> set (fv_features c). fst q < fst p"
        using l Cons.prems(1) by (fastforce simp: smap_ok_def sorted_wrt_append list_all2_conv_all_nth in_set_conv_nth)
      then have "smap_put (fst p) v (fv_features c) = fv_features c @ [(fst p, v)]" for v
        unfolding smap_put_def by (subst smap_alter_last) auto
      then show ?thesis using l assms(1) by (simp add: c(2) list_all2_appendI)
    qed
    then show ?case using Cons.IH[of "pre @ [p]" "?step p cs"] Cons.prems(1) by simp
  qed simp
  from this[of "[]" "presentThreadIds dataset" "replicate (unat k) (junk\<lparr>fv_features := []\<rparr>)"] presentThreadIds_ok assms(2)
  have "list_all2 ?le (fv_features c) (presentThreadIds dataset)" by (simp add: kmeans_def)
  then show "map fst (fv_features c) = map fst (presentThreadIds dataset)"
    and "list_all2 (\<lambda>x y. rw_readCounts (snd x) \<le> rw_readCounts (snd y) \<and> rw_writeCounts (snd x) \<le> rw_writeCounts (snd y))
      (fv_features c) (presentThreadIds dataset)"
    by (auto simp: list_all2_conv_all_nth intro: nth_equalityI)
qed

end
