(* ===== verification/TMI_List.thy ===== *)
theory TMI_List
  imports Huron_Prelude
begin

text \<open>
  The intrusive lists of the allocator under \<^verbatim>\<open>others/tmi\<close> (\<^verbatim>\<open>include/ll_list.h\<close>). Nodes live in a
  store that maps an address to its \<^verbatim>\<open>next\<close> and \<^verbatim>\<open>prev\<close> members; address 0 is the null pointer. A
  double list is circular through its head node.
\<close>

type_synonym node = u64

record node_store =
  ns_next :: "node \<Rightarrow> node"
  ns_prev :: "node \<Rightarrow> node"

definition set_next :: "node \<Rightarrow> node \<Rightarrow> node_store \<Rightarrow> node_store" where
  "set_next a v st = st\<lparr>ns_next := (ns_next st)(a := v)\<rparr>"

definition set_prev :: "node \<Rightarrow> node \<Rightarrow> node_store \<Rightarrow> node_store" where
  "set_prev a v st = st\<lparr>ns_prev := (ns_prev st)(a := v)\<rparr>"

lemma store_sel [simp]:
  "ns_next (set_next a v st) = (ns_next st)(a := v)" "ns_prev (set_next a v st) = ns_prev st"
  "ns_prev (set_prev a v st) = (ns_prev st)(a := v)" "ns_next (set_prev a v st) = ns_next st"
  by (simp_all add: set_next_def set_prev_def)

section \<open>Single lists\<close>

definition slist_add :: "node \<Rightarrow> node \<Rightarrow> node_store \<Rightarrow> node_store" where
  "slist_add s a st = (let st1 = set_next a (ns_next st s) st in set_next s a st1)"

text \<open>The first entry is read without a test for the end of the list.\<close>

definition slist_rem :: "node \<Rightarrow> node_store \<Rightarrow> (node \<times> node_store) result" where
  "slist_rem s st =
     (let r = ns_next st s
      in if r = 0 then Inl (Undefined ''null pointer'') else Inr (r, set_next s (ns_next st r) st))"

section \<open>Double lists\<close>

definition dlist_empty :: "node \<Rightarrow> node_store \<Rightarrow> bool" where
  "dlist_empty t st \<longleftrightarrow> ns_next st t = t"

definition dlist_init :: "node \<Rightarrow> node_store \<Rightarrow> node_store" where
  "dlist_init d st = set_prev d d (set_next d d st)"

definition dlist_add :: "node \<Rightarrow> node \<Rightarrow> node_store \<Rightarrow> node_store" where
  "dlist_add d a st =
     (let dn = ns_next st d;
          st1 = set_next a dn st;
          st2 = set_prev a d st1;
          st3 = set_prev dn a st2
      in set_next d a st3)"

definition dlist_add_end :: "node \<Rightarrow> node \<Rightarrow> node_store \<Rightarrow> node_store" where
  "dlist_add_end d a st =
     (let dp = ns_prev st d;
          st1 = set_next a d st;
          st2 = set_prev a dp st1;
          st3 = set_next dp a st2
      in set_prev d a st3)"

definition dlist_del :: "node \<Rightarrow> node_store \<Rightarrow> node_store" where
  "dlist_del d st =
     (let dp = ns_prev st d;
          dn = ns_next st d;
          st1 = (if dn \<noteq> 0 then set_prev dn dp st else st)
      in if dp \<noteq> 0 then set_next dp dn st1 else st1)"

definition dlist_rem_last :: "node \<Rightarrow> node_store \<Rightarrow> node \<times> node_store" where
  "dlist_rem_last d st =
     (let dp = ns_prev st d in if dp = d then (0, st) else (dp, dlist_del dp st))"

definition dlist_merge :: "node \<Rightarrow> node \<Rightarrow> node_store \<Rightarrow> node_store" where
  "dlist_merge d d2 st =
     (let dp = ns_prev st d;
          d2n = ns_next st d2;
          d2p = ns_prev st d2
      in if d2n = d2 then st
         else let st1 = set_next dp d2n st;
                  st2 = set_prev d2n dp st1;
                  st3 = set_prev d d2p st2
              in set_next d2p d st3)"

text \<open>The entries that the loop of \<^verbatim>\<open>scan_list\<close> visits; \<open>None\<close> when \<open>n\<close> rounds do not reach the head.\<close>

fun scan_from :: "nat \<Rightarrow> node \<Rightarrow> node \<Rightarrow> node_store \<Rightarrow> node list option" where
  "scan_from n p i st =
     (if i = p then Some []
      else case n of 0 \<Rightarrow> None
           | Suc m \<Rightarrow> map_option ((#) i) (scan_from m p (ns_next st i) st))"

declare scan_from.simps [simp del]

definition scan_list :: "nat \<Rightarrow> node \<Rightarrow> node_store \<Rightarrow> node list option" where
  "scan_list n p st = scan_from n p (ns_next st p) st"

section \<open>The abstract lists\<close>

text \<open>Neighbours point at each other.\<close>

fun links :: "node_store \<Rightarrow> node list \<Rightarrow> bool" where
  "links st (a # b # r) \<longleftrightarrow> ns_next st a = b \<and> ns_prev st b = a \<and> links st (b # r)"
| "links st _ \<longleftrightarrow> True"

definition dlist_rep :: "node_store \<Rightarrow> node \<Rightarrow> node list \<Rightarrow> bool" where
  "dlist_rep st d xs \<longleftrightarrow> distinct (d # xs) \<and> 0 \<notin> set (d # xs) \<and> links st (d # xs @ [d])"

lemma links_append: "links st (xs @ a # ys) \<longleftrightarrow> links st (xs @ [a]) \<and> links st (a # ys)"
  by (induction xs rule: induct_list012) auto

lemma links_frame:
  assumes "\<forall>x \<in> set (butlast l). ns_next st' x = ns_next st x" "\<forall>x \<in> set (tl l). ns_prev st' x = ns_prev st x"
  shows "links st' l \<longleftrightarrow> links st l"
  using assms by (induction l rule: induct_list012) auto

lemma dlist_rep_frame:
  assumes "dlist_rep st d xs" "\<forall>x \<in> set (d # xs). ns_next st' x = ns_next st x \<and> ns_prev st' x = ns_prev st x"
  shows "dlist_rep st' d xs"
proof -
  have "links st' (d # xs @ [d]) \<longleftrightarrow> links st (d # xs @ [d])"
    by (rule links_frame) (use assms(2) in \<open>auto simp: butlast_append dest: in_set_butlastD\<close>)
  then show ?thesis using assms(1) by (simp add: dlist_rep_def)
qed

text \<open>
  The two ends of a cut in the circle: any list that starts and ends at the head splits into a
  nonempty front with a last node and a nonempty back with a first node.
\<close>

lemma links_cut:
  assumes "us \<noteq> []" "vs \<noteq> []"
  shows "links st (us @ vs) \<longleftrightarrow> links st us \<and> links st vs \<and> ns_next st (last us) = hd vs \<and> ns_prev st (hd vs) = last us"
proof -
  obtain u p where u: "us = u @ [p]" using assms(1) by (metis rev_exhaust)
  obtain n v where v: "vs = n # v" using assms(2) by (cases vs) auto
  have "links st (us @ vs) \<longleftrightarrow> links st (u @ [p]) \<and> links st (p # n # v)"
    unfolding u v using links_append[of st u p "n # v"] by simp
  then show ?thesis by (auto simp: u v)
qed

lemma links_insert:
  assumes "us \<noteq> []" "vs \<noteq> []" "links st us" "links st vs" "a \<notin> set us" "a \<notin> set vs"
    and "last us \<notin> set (butlast us)" "last us \<notin> set (butlast vs)" "hd vs \<notin> set (tl us)" "hd vs \<notin> set (tl vs)"
    and "ns_next st' = (ns_next st)(a := hd vs, last us := a)" "ns_prev st' = (ns_prev st)(a := last us, hd vs := a)"
  shows "links st' (us @ a # vs)"
proof -
  have l: "last us \<noteq> a" "hd vs \<noteq> a" using assms(1,2,5,6) by auto
  have "links st' us" using assms(3) by (subst links_frame[of us st' st])
    (use assms in \<open>auto dest: in_set_butlastD list.set_sel(2)\<close>)
  moreover have "links st' vs" using assms(4) by (subst links_frame[of vs st' st])
    (use assms in \<open>auto dest: in_set_butlastD list.set_sel(2)\<close>)
  moreover have "links st' (us @ a # vs) \<longleftrightarrow> links st' us \<and> links st' (a # vs) \<and> ns_next st' (last us) = a \<and> ns_prev st' a = last us"
    using links_cut[of us "a # vs" st'] assms(1) by simp
  moreover have "links st' (a # vs) \<longleftrightarrow> links st' vs \<and> ns_next st' a = hd vs \<and> ns_prev st' (hd vs) = a"
    using links_cut[of "[a]" vs st'] assms(2) by simp
  ultimately show ?thesis using l by (simp add: assms(11,12))
qed

lemma links_join:
  assumes "us \<noteq> []" "vs \<noteq> []" "links st us" "links st vs"
    and "last us \<notin> set (butlast us)" "last us \<notin> set (butlast vs)" "hd vs \<notin> set (tl us)" "hd vs \<notin> set (tl vs)"
    and "ns_next st' = (ns_next st)(last us := hd vs)" "ns_prev st' = (ns_prev st)(hd vs := last us)"
  shows "links st' (us @ vs)"
proof -
  have "links st' us" using assms(3) by (subst links_frame[of us st' st]) (use assms in auto)
  moreover have "links st' vs" using assms(4) by (subst links_frame[of vs st' st]) (use assms in auto)
  ultimately show ?thesis using links_cut[OF assms(1,2), of st'] by (simp add: assms(9,10))
qed

lemma last_not_butlast: "distinct l \<Longrightarrow> l \<noteq> [] \<Longrightarrow> last l \<notin> set (butlast l)"
  by (induction l) (auto dest: in_set_butlastD)

lemma rep_ends:
  assumes "dlist_rep st d xs"
  shows "ns_next st d = hd (xs @ [d])" "ns_prev st d = last (d # xs)"
    and "links st (xs @ [d])" "links st (d # xs)"
  using assms links_cut[of "[d]" "xs @ [d]" st] links_cut[of "d # xs" "[d]" st] by (simp_all add: dlist_rep_def)

lemma dlist_add_rep:
  assumes "dlist_rep st d xs" "a \<noteq> 0" "a \<notin> set (d # xs)"
  shows "dlist_rep (dlist_add d a st) d (a # xs)"
proof -
  have "links (dlist_add d a st) ([d] @ a # xs @ [d])"
    by (rule links_insert[of "[d]" "xs @ [d]" st])
      (use assms rep_ends[OF assms(1)] in \<open>auto simp: dlist_add_def Let_def dlist_rep_def butlast_append hd_append tl_append
        dest: list.set_sel(2) split: list.splits if_splits\<close>)
  then show ?thesis using assms by (auto simp: dlist_rep_def)
qed

lemma dlist_add_end_rep:
  assumes "dlist_rep st d xs" "a \<noteq> 0" "a \<notin> set (d # xs)"
  shows "dlist_rep (dlist_add_end d a st) d (xs @ [a])"
proof -
  have "last (d # xs) \<notin> set (butlast (d # xs))" by (rule last_not_butlast) (use assms(1) in \<open>simp_all add: dlist_rep_def\<close>)
  then have "links (dlist_add_end d a st) ((d # xs) @ a # [d])"
    by (intro links_insert[of "d # xs" "[d]" st])
      (use assms rep_ends[OF assms(1)] in \<open>auto simp: dlist_add_end_def Let_def dlist_rep_def\<close>)
  then show ?thesis using assms by (auto simp: dlist_rep_def)
qed

lemma dlist_del_rep:
  assumes "dlist_rep st d xs" "x \<in> set xs"
  shows "dlist_rep (dlist_del x st) d (remove1 x xs)"
proof -
  obtain u v where xs: "xs = u @ x # v" and u: "x \<notin> set u" using split_list_first[OF assms(2)] by auto
  have circ: "links st ((d # u) @ x # v @ [d])" and dist: "distinct (d # u @ x # v)" and nz: "0 \<notin> set (d # u @ x # v)"
    using assms(1) by (simp_all add: dlist_rep_def xs)
  have 1: "links st (d # u)" "links st (x # v @ [d])" "ns_prev st x = last (d # u)"
    using circ links_cut[of "d # u" "x # v @ [d]" st] by auto
  have 2: "links st (v @ [d])" "ns_next st x = hd (v @ [d])" using 1(2) links_cut[of "[x]" "v @ [d]" st] by auto
  have "last (d # u) \<in> set (d # u)" by (rule last_in_set) simp
  then have p0: "last (d # u) \<noteq> 0" using nz by auto
  have n0: "hd (v @ [d]) \<noteq> 0" using nz by (cases v) auto
  have nl: "last (d # u) \<notin> set (butlast (d # u))" by (rule last_not_butlast) (use dist in auto)
  have lv: "last (d # u) \<notin> set v" using \<open>last (d # u) \<in> set (d # u)\<close> dist by auto
  have "links (dlist_del x st) ((d # u) @ v @ [d])"
    by (rule links_join[of "d # u" "v @ [d]" st])
      (use 1 2 p0 n0 nl lv dist in \<open>auto simp: dlist_del_def Let_def butlast_append hd_append tl_append
        dest: list.set_sel(2) split: list.splits if_splits\<close>)
  then show ?thesis using dist nz u by (auto simp: dlist_rep_def xs remove1_append)
qed

lemma dlist_rem_last_rep:
  assumes "dlist_rep st d xs"
  shows "fst (dlist_rem_last d st) = (if xs = [] then 0 else last xs)"
    and "dlist_rep (snd (dlist_rem_last d st)) d (butlast xs)"
proof -
  have "xs \<noteq> [] \<Longrightarrow> remove1 (last xs) xs = butlast xs"
    using last_not_butlast[of xs] assms append_butlast_last_id[of xs]
    by (metis dlist_rep_def distinct.simps(2) remove1.simps(2) remove1_append append_Nil2)
  moreover have "xs \<noteq> [] \<Longrightarrow> last xs \<noteq> d" using assms last_in_set[of xs] by (auto simp: dlist_rep_def)
  ultimately show "fst (dlist_rem_last d st) = (if xs = [] then 0 else last xs)"
    "dlist_rep (snd (dlist_rem_last d st)) d (butlast xs)"
    using assms rep_ends(2)[OF assms] dlist_del_rep[OF assms, of "last xs"] by (auto simp: dlist_rem_last_def Let_def)
qed

lemma dlist_merge_rep:
  assumes d: "dlist_rep st d xs" and e: "dlist_rep st e ys" and dis: "set (d # xs) \<inter> set (e # ys) = {}"
  shows "dlist_rep (dlist_merge d e st) d (xs @ ys)"
proof (cases "ys = []")
  case True
  then show ?thesis using d rep_ends[OF e] by (simp add: dlist_merge_def)
next
  case False
  define st2 where "st2 = set_prev (hd ys) (last (d # xs)) (set_next (last (d # xs)) (hd ys) st)"
  have dist: "distinct (d # xs @ ys)" using d e dis by (auto simp: dlist_rep_def)
  have l: "last (d # xs) \<in> set (d # xs)" "last ys \<in> set ys" "hd ys \<in> set ys" using False by (auto intro: last_in_set)
  have ends: "ns_next st e = hd ys" "ns_prev st e = last ys" "ns_prev st d = last (d # xs)" "hd ys \<noteq> e"
    using rep_ends[OF d] rep_ends[OF e] False l(3) e by (auto simp: dlist_rep_def)
  have ly: "links st ys" using rep_ends(3)[OF e] links_cut[of ys "[e]" st] False by simp
  have nl: "last (d # xs) \<notin> set (butlast (d # xs))" by (rule last_not_butlast) (use dist in auto)
  have ny: "last (d # xs) \<notin> set (butlast ys)" using l(1) dist in_set_butlastD[of "last (d # xs)" ys] by auto
  have hy: "hd ys \<notin> set (tl ys)" using dist False by (cases ys) auto
  have hx: "hd ys \<notin> set (tl (d # xs))" using l(3) dist by auto
  have a: "links st2 ((d # xs) @ ys)"
    by (rule links_join[OF _ False rep_ends(4)[OF d] ly nl ny hx hy]) (simp_all add: st2_def)
  have nl2: "last (d # xs @ ys) \<notin> set (butlast (d # xs @ ys))" by (rule last_not_butlast) (use dist in auto)
  have "dlist_merge d e st = set_next (last ys) d (set_prev d (last ys) st2)"
    using ends by (simp add: dlist_merge_def Let_def st2_def)
  then have "links (dlist_merge d e st) ((d # xs @ ys) @ [d])"
    by (intro links_join[of "d # xs @ ys" "[d]" st2]) (use a nl2 dist False in \<open>auto\<close>)
  then show ?thesis using dist d e by (auto simp: dlist_rep_def)
qed

lemma scan_list_rep: "dlist_rep st d xs \<Longrightarrow> length xs \<le> n \<Longrightarrow> scan_list n d st = Some xs"
proof -
  have *: "links st (i # r @ [d]) \<Longrightarrow> d \<notin> set (i # r) \<Longrightarrow> length r < m \<Longrightarrow> scan_from m d i st = Some (i # r)" for i r m
  proof (induction r arbitrary: i m)
    case Nil
    then show ?case by (cases m) (auto simp: scan_from.simps)
  next
    case (Cons j r)
    then obtain k where m: "m = Suc k" by (cases m) auto
    have "scan_from k d j st = Some (j # r)" using Cons m by simp
    then show ?case using Cons.prems m by (auto simp: scan_from.simps[of "Suc k"])
  qed
  assume a: "dlist_rep st d xs" "length xs \<le> n"
  show ?thesis
  proof (cases xs)
    case Nil
    then show ?thesis using rep_ends(1)[OF a(1)] by (simp add: scan_list_def scan_from.simps)
  next
    case (Cons i r)
    then show ?thesis using *[of i r n] rep_ends[OF a(1)] a by (simp add: scan_list_def dlist_rep_def)
  qed
qed

section \<open>Runs of operations\<close>

text \<open>An operation on the lists; the list in \<open>Del\<close> is named for the specification only.\<close>

datatype dlist_op =
  Init node | Add node node | AddEnd node node | Del node node | RemLast node | Merge node node

definition do_op :: "dlist_op \<Rightarrow> node_store \<Rightarrow> node \<times> node_store" where
  "do_op op st =
     (case op of
        Init d \<Rightarrow> (0, dlist_init d st)
      | Add d a \<Rightarrow> (0, dlist_add d a st)
      | AddEnd d a \<Rightarrow> (0, dlist_add_end d a st)
      | Del d x \<Rightarrow> (0, dlist_del x st)
      | RemLast d \<Rightarrow> dlist_rem_last d st
      | Merge d e \<Rightarrow> (0, dlist_merge d e st))"

text \<open>
  The contract: a table of lists by head. New nodes are not null and in no list; an operation names
  heads in the table; merging gives up the second head.
\<close>

type_synonym list_table = "(node \<times> node list) list"

definition fresh :: "node \<Rightarrow> list_table \<Rightarrow> bool" where
  "fresh a L \<longleftrightarrow> a \<noteq> 0 \<and> (\<forall>p \<in> set L. a \<notin> set (fst p # snd p))"

definition put :: "node \<Rightarrow> node list \<Rightarrow> list_table \<Rightarrow> list_table" where
  "put d xs L = map (\<lambda>p. if fst p = d then (d, xs) else p) L"

definition drop_head :: "node \<Rightarrow> list_table \<Rightarrow> list_table" where
  "drop_head e L = filter (\<lambda>p. fst p \<noteq> e) L"

definition spec_op :: "dlist_op \<Rightarrow> list_table \<Rightarrow> (node \<times> list_table) option" where
  "spec_op op L =
     (case op of
        Init d \<Rightarrow> if fresh d L then Some (0, (d, []) # L) else None
      | Add d a \<Rightarrow> (case map_of L d of None \<Rightarrow> None | Some xs \<Rightarrow> if fresh a L then Some (0, put d (a # xs) L) else None)
      | AddEnd d a \<Rightarrow> (case map_of L d of None \<Rightarrow> None | Some xs \<Rightarrow> if fresh a L then Some (0, put d (xs @ [a]) L) else None)
      | Del d x \<Rightarrow> (case map_of L d of None \<Rightarrow> None | Some xs \<Rightarrow> if x \<in> set xs then Some (0, put d (remove1 x xs) L) else None)
      | RemLast d \<Rightarrow> (case map_of L d of None \<Rightarrow> None
          | Some xs \<Rightarrow> Some (if xs = [] then 0 else last xs, put d (butlast xs) L))
      | Merge d e \<Rightarrow> (case (map_of L d, map_of L e) of
            (Some xs, Some ys) \<Rightarrow> if d \<noteq> e then Some (0, put d (xs @ ys) (drop_head e L)) else None
          | _ \<Rightarrow> None))"

primrec do_ops :: "dlist_op list \<Rightarrow> node_store \<Rightarrow> node list \<times> node_store" where
  "do_ops [] st = ([], st)"
| "do_ops (op # ops) st = (let (r, st1) = do_op op st; (rs, st2) = do_ops ops st1 in (r # rs, st2))"

primrec spec_ops :: "dlist_op list \<Rightarrow> list_table \<Rightarrow> (node list \<times> list_table) option" where
  "spec_ops [] L = Some ([], L)"
| "spec_ops (op # ops) L =
     Option.bind (spec_op op L) (\<lambda>(r, L1). map_option (\<lambda>(rs, L2). (r # rs, L2)) (spec_ops ops L1))"

definition table_rep :: "node_store \<Rightarrow> list_table \<Rightarrow> bool" where
  "table_rep st L \<longleftrightarrow> distinct (map fst L) \<and> (\<forall>p \<in> set L. dlist_rep st (fst p) (snd p)) \<and>
     (\<forall>p \<in> set L. \<forall>q \<in> set L. fst p \<noteq> fst q \<longrightarrow> set (fst p # snd p) \<inter> set (fst q # snd q) = {})"

lemma table_rep_lookup: "table_rep st L \<Longrightarrow> map_of L d = Some xs \<Longrightarrow> dlist_rep st d xs"
  by (auto simp: table_rep_def dest!: map_of_SomeD)

lemma map_fst_put [simp]: "map fst (put d xs L) = map fst L"
  by (induction L) (auto simp: put_def)

lemma set_put: "distinct (map fst L) \<Longrightarrow> p \<in> set (put d xs L) \<Longrightarrow> p = (d, xs) \<or> p \<in> set L \<and> fst p \<noteq> d"
  by (auto simp: put_def split: if_splits)

text \<open>A change that stays within one list and a set of new nodes keeps the other lists.\<close>

lemma table_rep_put:
  assumes rep: "table_rep st L" and d: "map_of L d = Some xs" and new: "dlist_rep st' d xs'"
    and sub: "set xs' \<subseteq> set xs \<union> N" and N: "\<forall>p \<in> set L. set (fst p # snd p) \<inter> N = {}"
    and frame: "\<And>x. x \<notin> set (d # xs) \<Longrightarrow> x \<notin> N \<Longrightarrow> ns_next st' x = ns_next st x \<and> ns_prev st' x = ns_prev st x"
  shows "table_rep st' (put d xs' L)"
proof -
  have dist: "distinct (map fst L)" using rep by (simp add: table_rep_def)
  have dL: "(d, xs) \<in> set L" using map_of_SomeD[OF d] .
  have other: "dlist_rep st' (fst p) (snd p) \<and> set (fst p # snd p) \<inter> set (d # xs') = {}"
    if p: "p \<in> set L" "fst p \<noteq> d" for p
  proof -
    have dis: "set (fst p # snd p) \<inter> set (d # xs) = {}" using rep p dL unfolding table_rep_def by fastforce
    have Np: "set (fst p # snd p) \<inter> N = {}" using N p(1) by blast
    have "dlist_rep st (fst p) (snd p)" using rep p(1) by (simp add: table_rep_def)
    then have "dlist_rep st' (fst p) (snd p)"
      by (rule dlist_rep_frame) (use frame dis Np in blast)
    moreover have "set (d # xs') \<subseteq> set (d # xs) \<union> N" using sub by auto
    ultimately show ?thesis using dis Np by blast
  qed
  show ?thesis unfolding table_rep_def map_fst_put
  proof (intro conjI ballI impI dist)
    fix p assume "p \<in> set (put d xs' L)"
    from set_put[OF dist this] show "dlist_rep st' (fst p) (snd p)" using new other by auto
  next
    fix p q assume pq: "p \<in> set (put d xs' L)" "q \<in> set (put d xs' L)" "fst p \<noteq> fst q"
    consider "p = (d, xs')" "q \<in> set L" "fst q \<noteq> d" | "q = (d, xs')" "p \<in> set L" "fst p \<noteq> d" | "p \<in> set L" "q \<in> set L"
      using set_put[OF dist pq(1)] set_put[OF dist pq(2)] pq(3) by auto
    then show "set (fst p # snd p) \<inter> set (fst q # snd q) = {}"
    proof cases
      case 1
      then show ?thesis using other[of q] by auto
    next
      case 2
      then show ?thesis using other[of p] by auto
    next
      case 3
      then show ?thesis using rep pq(3) unfolding table_rep_def by blast
    qed
  qed
qed

lemma ends_in: "hd (xs @ [d]) \<in> set (d # xs)" "last (d # xs) \<in> set (d # xs)"
  by (cases xs) (auto intro: last_in_set)

lemma dlist_del_frame:
  assumes "dlist_rep st d xs" "x \<in> set xs" "y \<notin> set (d # xs)"
  shows "ns_next (dlist_del x st) y = ns_next st y \<and> ns_prev (dlist_del x st) y = ns_prev st y"
proof -
  obtain u v where xs: "xs = u @ x # v" using split_list[OF assms(2)] by auto
  have "links st ((d # u) @ x # v @ [d])" using assms(1) by (simp add: dlist_rep_def xs)
  then have "ns_prev st x = last (d # u)" "ns_next st x = hd (v @ [d])"
    using links_cut[of "d # u" "x # v @ [d]" st] links_cut[of "[x]" "v @ [d]" st] by auto
  then have "ns_prev st x \<in> set (d # xs)" "ns_next st x \<in> set (d # xs)"
    using ends_in(1)[of v d] ends_in(2)[of d u] by (auto simp: xs)
  then show ?thesis using assms(3) by (auto simp: dlist_del_def Let_def)
qed

lemma table_rep_drop: "table_rep st L \<Longrightarrow> table_rep st (drop_head e L)"
  by (auto simp: table_rep_def drop_head_def distinct_map_filter)

lemma map_of_drop: "d \<noteq> e \<Longrightarrow> map_of (drop_head e L) d = map_of L d"
  by (induction L) (auto simp: drop_head_def)

lemma op_add:
  assumes rep: "table_rep st L" and d: "map_of L d = Some xs" and f: "fresh a L"
  shows "table_rep (dlist_add d a st) (put d (a # xs) L)" "table_rep (dlist_add_end d a st) (put d (xs @ [a]) L)"
proof -
  note r = table_rep_lookup[OF rep d]
  have a: "a \<noteq> 0" "a \<notin> set (d # xs)" "\<forall>p \<in> set L. set (fst p # snd p) \<inter> {a} = {}"
    using f map_of_SomeD[OF d] by (auto simp: fresh_def)
  show "table_rep (dlist_add d a st) (put d (a # xs) L)"
    by (rule table_rep_put[OF rep d dlist_add_rep[OF r a(1,2)] _ a(3)])
      (use rep_ends(1)[OF r] ends_in(1)[of xs d] in \<open>auto simp: dlist_add_def Let_def\<close>)
  show "table_rep (dlist_add_end d a st) (put d (xs @ [a]) L)"
    by (rule table_rep_put[OF rep d dlist_add_end_rep[OF r a(1,2)] _ a(3)])
      (use rep_ends(2)[OF r] ends_in(2)[of d xs] in \<open>auto simp: dlist_add_end_def Let_def split: if_splits\<close>)
qed

lemma op_del:
  assumes rep: "table_rep st L" and d: "map_of L d = Some xs" and x: "x \<in> set xs"
  shows "table_rep (dlist_del x st) (put d (remove1 x xs) L)"
  by (rule table_rep_put[OF rep d dlist_del_rep[OF table_rep_lookup[OF rep d] x], of "{}"])
    (use dlist_del_frame[OF table_rep_lookup[OF rep d] x] set_remove1_subset[of x xs] in \<open>auto\<close>)

lemma op_rem_last:
  assumes rep: "table_rep st L" and d: "map_of L d = Some xs"
  shows "table_rep (snd (dlist_rem_last d st)) (put d (butlast xs) L)"
proof (rule table_rep_put[OF rep d dlist_rem_last_rep(2)[OF table_rep_lookup[OF rep d]], of "{}"])
  note r = table_rep_lookup[OF rep d]
  fix x assume x: "x \<notin> set (d # xs)"
  have "xs \<noteq> [] \<Longrightarrow> ns_prev st d = last xs" "xs = [] \<Longrightarrow> ns_prev st d = d" using rep_ends(2)[OF r] by auto
  then show "ns_next (snd (dlist_rem_last d st)) x = ns_next st x \<and> ns_prev (snd (dlist_rem_last d st)) x = ns_prev st x"
    using dlist_del_frame[OF r _ x, of "last xs"] by (cases "xs = []") (auto simp: dlist_rem_last_def Let_def)
qed (auto dest: in_set_butlastD)

lemma op_merge:
  assumes rep: "table_rep st L" and d: "map_of L d = Some xs" and e: "map_of L e = Some ys" and de: "d \<noteq> e"
  shows "table_rep (dlist_merge d e st) (put d (xs @ ys) (drop_head e L))"
proof -
  note rd = table_rep_lookup[OF rep d] and re = table_rep_lookup[OF rep e]
  have other: "set (fst p # snd p) \<inter> set (e # ys) = {}" if "p \<in> set L" "fst p \<noteq> e" for p
    using rep map_of_SomeD[OF e] that unfolding table_rep_def by fastforce
  have dis: "set (d # xs) \<inter> set (e # ys) = {}" using other[OF map_of_SomeD[OF d]] de by simp
  have "ns_prev st d \<in> set (d # xs)" using rep_ends(2)[OF rd] ends_in(2)[of d xs] by simp
  moreover have "ys \<noteq> [] \<Longrightarrow> ns_next st e \<in> set ys \<and> ns_prev st e \<in> set ys" "ys = [] \<Longrightarrow> ns_next st e = e"
    using rep_ends[OF re] by auto
  ultimately have "ns_next (dlist_merge d e st) x = ns_next st x \<and> ns_prev (dlist_merge d e st) x = ns_prev st x"
    if "x \<notin> set (d # xs)" "x \<notin> set ys" for x
    using that by (cases "ys = []") (auto simp: dlist_merge_def Let_def)
  then show ?thesis
    by (intro table_rep_put[OF table_rep_drop[OF rep, of e], where d = d and xs = xs and N = "set ys"])
      (use d de map_of_drop[OF de, of L] dlist_merge_rep[OF rd re dis] other in \<open>auto simp: drop_head_def\<close>)
qed

lemma op_init:
  assumes rep: "table_rep st L" and f: "fresh d L"
  shows "table_rep (dlist_init d st) ((d, []) # L)"
proof -
  have n: "d \<notin> set (fst p # snd p)" if "p \<in> set L" for p using f that by (simp add: fresh_def)
  have "dlist_rep (dlist_init d st) (fst p) (snd p)" if p: "p \<in> set L" for p
    by (rule dlist_rep_frame[of st]) (use rep p n[OF p] in \<open>auto simp: table_rep_def dlist_init_def\<close>)
  moreover have "dlist_rep (dlist_init d st) d []" using f by (simp add: dlist_rep_def dlist_init_def fresh_def)
  moreover have "set (fst p # snd p) \<inter> set (fst q # snd q) = {}"
    if "p \<in> set ((d, []) # L)" "q \<in> set ((d, []) # L)" "fst p \<noteq> fst q" for p q
  proof (cases "p \<in> set L \<and> q \<in> set L")
    case True
    then show ?thesis using rep that(3) unfolding table_rep_def by blast
  next
    case False
    then show ?thesis using that n[of p] n[of q] by auto
  qed
  moreover have "distinct (map fst ((d, []) # L))" using rep n by (auto simp: table_rep_def)
  ultimately show ?thesis unfolding table_rep_def by auto
qed

lemma table_rep_scan: "table_rep st L \<Longrightarrow> (d, xs) \<in> set L \<Longrightarrow> length xs \<le> n \<Longrightarrow> scan_list n d st = Some xs"
  by (rule scan_list_rep) (auto simp: table_rep_def)

lemma op_refines:
  assumes rep: "table_rep st L" and s: "spec_op op L = Some (r, L')"
  shows "fst (do_op op st) = r \<and> table_rep (snd (do_op op st)) L'"
proof (cases op)
  case (RemLast d)
  then show ?thesis using s op_rem_last[OF rep] dlist_rem_last_rep(1)[OF table_rep_lookup[OF rep]]
    by (auto simp: spec_op_def do_op_def split: option.splits)
qed (use s op_add[OF rep] op_del[OF rep] op_merge[OF rep] op_init[OF rep] in
    \<open>auto simp: spec_op_def do_op_def split: option.splits if_splits\<close>)

text \<open>
  \<^bold>\<open>C16.\<close> The circular lists implement lists. Any sequence of operations that the contract allows
  returns the results of the contract, every list of the table is represented in the store, and
  scanning it from its head ends after as many rounds as it has entries, with exactly these entries.
\<close>

theorem dlist_refines_lists:
  assumes "table_rep st L" "spec_ops ops L = Some (rs, L')"
  shows "fst (do_ops ops st) = rs \<and> table_rep (snd (do_ops ops st)) L' \<and>
    (\<forall>(d, xs) \<in> set L'. \<forall>n \<ge> length xs. scan_list n d (snd (do_ops ops st)) = Some xs)"
  using assms
proof (induction ops arbitrary: st L rs)
  case Nil
  then show ?case by (auto intro: table_rep_scan)
next
  case (Cons op ops)
  obtain r L1 rs1 where 1: "spec_op op L = Some (r, L1)" and 2: "spec_ops ops L1 = Some (rs1, L')" "rs = r # rs1"
    using Cons.prems(2) by (auto simp: bind_eq_Some_conv)
  show ?case using Cons.IH[OF _ 2(1)] op_refines[OF Cons.prems(1) 1] 2(2)
    by (auto simp: case_prod_beta Let_def)
qed

definition zero_store :: node_store where
  "zero_store = \<lparr>ns_next = (\<lambda>_. 0), ns_prev = (\<lambda>_. 0)\<rparr>"

theorem dlist_refines_lists_witness:
  "scan_list 2 1 (snd (do_ops [Init 1, Init 2, Add 1 10, AddEnd 2 20, AddEnd 2 21, Del 2 20, Merge 1 2] zero_store)) = Some [10, 21]"
  using dlist_refines_lists[of zero_store "[]"
      "[Init 1, Init 2, Add 1 10, AddEnd 2 20, AddEnd 2 21, Del 2 20, Merge 1 2]" "[0, 0, 0, 0, 0, 0, 0]" "[(1, [10, 21])]"]
  by (simp add: table_rep_def spec_op_def fresh_def put_def drop_head_def)

end
