(* ===== verification/TMI_Memory.thy ===== *)
theory TMI_Memory
  imports Huron_Prelude
begin

unbundle bit_operations_syntax

text \<open>
  The memory manager under \<^verbatim>\<open>others/tmi\<close> (\<^verbatim>\<open>src/tmimem.cpp\<close>, \<^verbatim>\<open>src/internalmem.cpp\<close>,
  \<^verbatim>\<open>src/tmiutil.cpp\<close>), in the build with \<^verbatim>\<open>TMI_PROTECT\<close> and without huge pages. The heap is a file that
  is mapped twice: once always shared, and once at the addresses the program uses. Protected pages
  are mapped privately; the first write to one makes a copy of it, its twin, and a commit publishes
  the bytes that differ from the twin.
\<close>

section \<open>Mapped pages\<close>

text \<open>
  What the code uses of the operating system, for one process. A page shows a page of the backing
  file or is anonymous; a private page that was written has contents of its own. The offset of a
  file page and of a byte in a page are natural numbers; pages have 4096 bytes.
\<close>

datatype backing = FileShared nat | FilePrivate nat | Anonymous

record page =
  pg_backing :: backing
  pg_copy :: "(nat \<Rightarrow> u8) option"
  pg_write :: bool

record os =
  os_file :: "nat \<Rightarrow> u8"
  os_pages :: "nat \<Rightarrow> page option"

definition page_byte :: "os \<Rightarrow> page \<Rightarrow> nat \<Rightarrow> u8" where
  "page_byte s pg k =
     (case pg_copy pg of Some c \<Rightarrow> c k
      | None \<Rightarrow> (case pg_backing pg of FileShared off \<Rightarrow> os_file s (off + k) | FilePrivate off \<Rightarrow> os_file s (off + k) | Anonymous \<Rightarrow> 0))"

definition os_read :: "os \<Rightarrow> u64 \<Rightarrow> u8 result" where
  "os_read s a =
     (case os_pages s (unat a div 4096) of None \<Rightarrow> Inl (Undefined ''unmapped address'')
      | Some pg \<Rightarrow> Inr (page_byte s pg (unat a mod 4096)))"

definition os_write :: "u64 \<Rightarrow> u8 \<Rightarrow> os \<Rightarrow> os result" where
  "os_write a v s =
     (case os_pages s (unat a div 4096) of None \<Rightarrow> Inl (Undefined ''unmapped address'')
      | Some pg \<Rightarrow>
          if \<not> pg_write pg then Inl (Undefined ''write to a protected page'')
          else (case pg_backing pg of
                  FileShared off \<Rightarrow> Inr (s\<lparr>os_file := (os_file s)(off + unat a mod 4096 := v)\<rparr>)
                | _ \<Rightarrow> Inr (s\<lparr>os_pages := (os_pages s)(unat a div 4096 \<mapsto>
                         pg\<lparr>pg_copy := Some ((page_byte s pg)(unat a mod 4096 := v))\<rparr>)\<rparr>)))"

text \<open>Calls on one page; an address that is not aligned is refused and changes nothing.\<close>

definition os_mprotect :: "u64 \<Rightarrow> bool \<Rightarrow> os \<Rightarrow> os" where
  "os_mprotect a w s =
     (if unat a mod 4096 \<noteq> 0 then s
      else case os_pages s (unat a div 4096) of None \<Rightarrow> s
           | Some pg \<Rightarrow> s\<lparr>os_pages := (os_pages s)(unat a div 4096 \<mapsto> pg\<lparr>pg_write := w\<rparr>)\<rparr>)"

definition os_dontneed :: "u64 \<Rightarrow> os \<Rightarrow> os" where
  "os_dontneed a s =
     (if unat a mod 4096 \<noteq> 0 then s
      else case os_pages s (unat a div 4096) of None \<Rightarrow> s
           | Some pg \<Rightarrow> s\<lparr>os_pages := (os_pages s)(unat a div 4096 \<mapsto> pg\<lparr>pg_copy := None\<rparr>)\<rparr>)"

text \<open>\<^verbatim>\<open>mmap\<close> with \<^verbatim>\<open>MAP_FIXED\<close>: \<open>n\<close> bytes from a file offset. An empty or unaligned range is refused.\<close>

definition os_map_file :: "(nat \<Rightarrow> backing) \<Rightarrow> bool \<Rightarrow> u64 \<Rightarrow> nat \<Rightarrow> nat \<Rightarrow> os \<Rightarrow> (bool \<times> os)" where
  "os_map_file kind w a n off s =
     (if n = 0 \<or> unat a mod 4096 \<noteq> 0 \<or> off mod 4096 \<noteq> 0 then (False, s)
      else (True, s\<lparr>os_pages := (\<lambda>p. if unat a div 4096 \<le> p \<and> p < unat a div 4096 + (n + 4095) div 4096
              then Some \<lparr>pg_backing = kind (off + (p - unat a div 4096) * 4096), pg_copy = None, pg_write = w\<rparr>
              else os_pages s p)\<rparr>))"

text \<open>A new anonymous page. \<open>place\<close> chooses its address, or fails, which returns the address -1.\<close>

type_synonym placement = "os \<Rightarrow> u64 option"

definition os_map_anon :: "placement \<Rightarrow> os \<Rightarrow> u64 \<times> os" where
  "os_map_anon place s =
     (case place s of None \<Rightarrow> (- 1, s)
      | Some a \<Rightarrow> (a, s\<lparr>os_pages := (os_pages s)(unat a div 4096 \<mapsto> \<lparr>pg_backing = Anonymous, pg_copy = None, pg_write = True\<rparr>)\<rparr>))"

definition os_memcpy :: "u64 \<Rightarrow> u64 \<Rightarrow> nat \<Rightarrow> os \<Rightarrow> os result" where
  "os_memcpy dst src n = foldE (\<lambda>k s. bindE (os_read s (src + of_nat k)) (\<lambda>v. os_write (dst + of_nat k) v s)) [0..<n]"

definition os_memequal :: "u64 \<Rightarrow> u64 \<Rightarrow> nat \<Rightarrow> os \<Rightarrow> bool result" where
  "os_memequal a b n s =
     bindE (mapE (\<lambda>k. os_read s (a + of_nat k)) [0..<n]) (\<lambda>xs.
     bindE (mapE (\<lambda>k. os_read s (b + of_nat k)) [0..<n]) (\<lambda>ys. Inr (xs = ys)))"

section \<open>State\<close>

definition HEAP_SIZE :: nat where
  "HEAP_SIZE = 4294967296"

definition TMI_PAGESIZE :: nat where
  "TMI_PAGESIZE = 4096"

definition alignAddressToPage :: "u64 \<Rightarrow> u64" where
  "alignAddressToPage addr = addr AND 0xFFFFFFFFFFFFF000"

record pagestate =
  ps_addr :: u64
  ps_twin :: u64
  ps_active :: bool

text \<open>
  \<open>tm_states\<close> is the table of page states: its size in bytes and the entries behind the leading
  \<^verbatim>\<open>int\<close> that counts them. A table that could not be mapped has size 0.
\<close>

record tmi_memory =
  tm_persistentMemory :: u64
  tm_slabStart :: u64
  tm_slabEnd :: u64
  tm_slabPos :: u64
  tm_mmapPos :: u64
  tm_initialized :: bool
  tm_states :: "(nat \<times> pagestate list) option"
  tm_os :: os

section \<open>Operations\<close>

text \<open>\<open>pers\<close> and \<open>slab\<close> are the addresses at which the file gets mapped.\<close>

definition memory_init :: "u64 \<Rightarrow> u64 \<Rightarrow> tmi_memory \<Rightarrow> tmi_memory" where
  "memory_init pers slab m =
     (if tm_initialized m then m
      else let s1 = snd (os_map_file FileShared True pers HEAP_SIZE 0 (tm_os m));
               s2 = snd (os_map_file FileShared True slab HEAP_SIZE 0 s1)
           in m\<lparr>tm_persistentMemory := pers, tm_slabPos := slab, tm_slabStart := slab,
                tm_slabEnd := slab + of_nat HEAP_SIZE, tm_mmapPos := slab + of_nat HEAP_SIZE,
                tm_initialized := True, tm_os := s2\<rparr>)"

definition isProtectable :: "u64 \<Rightarrow> tmi_memory \<Rightarrow> bool" where
  "isProtectable addr m \<longleftrightarrow> addr \<ge> tm_slabStart m \<and> addr < tm_slabEnd m"

text \<open>An entry takes 24 bytes. The search uses the aligned address, the new entry the address itself.\<close>

definition find_state :: "u64 \<Rightarrow> pagestate list \<Rightarrow> nat option" where
  "find_state pageaddr sts = find (\<lambda>c. ps_addr (sts ! c) = pageaddr) [0..<length sts]"

definition getState :: "placement \<Rightarrow> u64 \<Rightarrow> tmi_memory \<Rightarrow> (nat \<times> tmi_memory) result" where
  "getState place addr m =
     (case tm_states m of None \<Rightarrow> Inl (Undefined ''null pointer'')
      | Some (bytes, sts) \<Rightarrow>
          bindE (guardE (4 \<le> bytes) (Undefined ''unmapped address'')) (\<lambda>_.
          case find_state (alignAddressToPage addr) sts of
            Some c \<Rightarrow> Inr (c, m)
          | None \<Rightarrow>
              bindE (guardE (4 + 24 * (length sts + 1) \<le> bytes) (Undefined ''entry past the end of the table'')) (\<lambda>_.
              let (twin, s) = os_map_anon place (tm_os m)
              in Inr (length sts, m\<lparr>tm_os := s,
                   tm_states := Some (bytes, sts @ [\<lparr>ps_addr = addr, ps_twin = twin, ps_active = False\<rparr>])\<rparr>))))"

definition allocStates :: "u64 \<Rightarrow> tmi_memory \<Rightarrow> tmi_memory" where
  "allocStates sz m =
     (case tm_states m of Some _ \<Rightarrow> m
      | None \<Rightarrow>
          let totalStates = unat sz div TMI_PAGESIZE;
              totalSize = totalStates * 24;
              pages = totalSize div 4096 + (if totalSize mod TMI_PAGESIZE \<noteq> 0 then 1 else 0)
          in m\<lparr>tm_states := Some (4096 * pages, [])\<rparr>)"

definition protectAll :: "tmi_memory \<Rightarrow> tmi_memory" where
  "protectAll m =
     (let m1 = allocStates ((tm_slabPos m - tm_slabStart m) + (tm_slabEnd m - tm_mmapPos m)) m;
          s1 = snd (os_map_file FilePrivate False (tm_slabStart m) (unat (tm_slabPos m - tm_slabStart m)) 0 (tm_os m1))
      in if tm_mmapPos m \<noteq> tm_slabEnd m then
           let alignedPos = alignAddressToPage (tm_mmapPos m)
           in m1\<lparr>tm_os := snd (os_map_file FilePrivate True alignedPos (unat (tm_slabEnd m - alignedPos))
                                 (unat (alignedPos - tm_slabStart m)) s1)\<rparr>
         else m1\<lparr>tm_os := s1\<rparr>)"

definition protectAddress :: "u64 \<Rightarrow> tmi_memory \<Rightarrow> bool \<times> tmi_memory" where
  "protectAddress addr m =
     (let m1 = allocStates (of_nat TMI_PAGESIZE) m
      in if addr < tm_slabStart m \<or> addr > tm_slabEnd m then (False, m1)
         else let a = alignAddressToPage addr;
                  (ok, s) = os_map_file FilePrivate False a 4096 (unat (a - tm_slabStart m)) (tm_os m1)
              in (ok, m1\<lparr>tm_os := s\<rparr>))"

text \<open>The store that forces the copy writes the first eight bytes of the page back to themselves.\<close>

definition handleSegv :: "placement \<Rightarrow> u64 \<Rightarrow> tmi_memory \<Rightarrow> tmi_memory result" where
  "handleSegv place addr m =
     (let pageStart = alignAddressToPage addr
      in bindE (getState place addr m) (\<lambda>(c, m1).
         case tm_states m1 of None \<Rightarrow> Inl (Undefined ''null pointer'')
         | Some (bytes, sts) \<Rightarrow>
             let twin = ps_twin (sts ! c);
                 s1 = os_mprotect pageStart True (tm_os m1)
             in bindE (os_memcpy pageStart pageStart 8 s1) (\<lambda>s2.
                bindE (guardE (twin \<noteq> 0) (Aborted ''state->_twin != nullptr'')) (\<lambda>_.
                bindE (guardE (pageStart \<noteq> 0) (Aborted ''pageStart != nullptr'')) (\<lambda>_.
                bindE (os_memcpy twin pageStart TMI_PAGESIZE s2) (\<lambda>s3.
                  Inr (m1\<lparr>tm_os := s3, tm_states := Some (bytes, sts[c := (sts ! c)\<lparr>ps_active := True\<rparr>])\<rparr>)))))))"

definition incSize :: nat where
  "incSize = 16384"

definition commit_byte :: "u64 \<Rightarrow> u64 \<Rightarrow> u64 \<Rightarrow> nat \<Rightarrow> os \<Rightarrow> os result" where
  "commit_byte current twin share c s =
     bindE (os_read s (current + of_nat c)) (\<lambda>v.
     bindE (os_read s (twin + of_nat c)) (\<lambda>w.
       if v \<noteq> w then os_write (share + of_nat c) v s else Inr s))"

text \<open>The steps of the outer loop start at the multiples of \<^const>\<open>incSize\<close> below the page size.\<close>

definition commit_chunk :: "u64 \<Rightarrow> u64 \<Rightarrow> u64 \<Rightarrow> nat \<Rightarrow> os \<Rightarrow> os result" where
  "commit_chunk current twin share i s =
     bindE (os_memequal (current + of_nat i) (twin + of_nat i) 4096 s) (\<lambda>same.
       if same then Inr s else foldE (commit_byte current twin share) [i..<i + incSize] s)"

definition commit_state :: "u64 \<Rightarrow> u64 \<Rightarrow> pagestate \<Rightarrow> os \<Rightarrow> os result" where
  "commit_state pers slab st s =
     (if \<not> ps_active st \<or> ps_twin st = 0 then Inr s
      else let share = pers + (ps_addr st - slab)
           in bindE (foldE (commit_chunk (ps_addr st) (ps_twin st) share) (filter (\<lambda>i. i mod incSize = 0) [0..<TMI_PAGESIZE]) s) (\<lambda>s1.
                Inr (os_mprotect (ps_addr st) False (os_dontneed (ps_addr st) s1))))"

definition commit :: "tmi_memory \<Rightarrow> tmi_memory result" where
  "commit m =
     (case tm_states m of None \<Rightarrow> Inr m
      | Some (bytes, sts) \<Rightarrow>
          bindE (guardE (4 \<le> bytes) (Undefined ''unmapped address'')) (\<lambda>_.
          bindE (foldE (commit_state (tm_persistentMemory m) (tm_slabStart m)) sts (tm_os m)) (\<lambda>s.
            Inr (m\<lparr>tm_os := s\<rparr>))))"

text \<open>
  The handler of \<^verbatim>\<open>SIGSEGV\<close>; a fault at an address that is not mapped ends in an endless loop. The store of a program is
  repeated when the handler returns.
\<close>

definition segvhandle :: "placement \<Rightarrow> u64 \<Rightarrow> tmi_memory \<Rightarrow> tmi_memory result option" where
  "segvhandle place addr m = (if os_pages (tm_os m) (unat addr div 4096) \<noteq> None then Some (handleSegv place addr m) else None)"

definition heap_store :: "placement \<Rightarrow> u64 \<Rightarrow> u8 \<Rightarrow> tmi_memory \<Rightarrow> tmi_memory result option" where
  "heap_store place addr v m =
     (case os_write addr v (tm_os m) of
        Inr s \<Rightarrow> Some (Inr (m\<lparr>tm_os := s\<rparr>))
      | Inl _ \<Rightarrow> (case segvhandle place addr m of None \<Rightarrow> None
                 | Some r \<Rightarrow> Some (bindE r (\<lambda>m1. bindE (os_write addr v (tm_os m1)) (\<lambda>s. Inr (m1\<lparr>tm_os := s\<rparr>))))))"

definition adjust_slab_memory :: "u64 \<Rightarrow> u64 \<Rightarrow> u64 \<Rightarrow> tmi_memory \<Rightarrow> u64 \<times> tmi_memory" where
  "adjust_slab_memory pers slab sz m =
     (let m1 = memory_init pers slab m in (tm_slabPos m1, m1\<lparr>tm_slabPos := tm_slabPos m1 + sz\<rparr>))"

definition get_mmap_memory :: "u64 \<Rightarrow> u64 \<Rightarrow> u64 \<Rightarrow> tmi_memory \<Rightarrow> u64 \<times> tmi_memory" where
  "get_mmap_memory pers slab sz m =
     (let m1 = memory_init pers slab m;
          sz1 = (if sz mod of_nat TMI_PAGESIZE \<noteq> 0 then (sz div of_nat TMI_PAGESIZE + 1) * of_nat TMI_PAGESIZE else sz);
          pos = tm_mmapPos m1 - sz1
      in (pos, m1\<lparr>tm_mmapPos := pos\<rparr>))"

section \<open>The internal heap\<close>

record internalmemory =
  im_start :: u64
  im_pos :: u64
  im_end :: u64
  im_initialized :: bool

abbreviation INTERNAL_HEAP_SIZE :: u64 where
  "INTERNAL_HEAP_SIZE \<equiv> 1073741824"

definition isInternal :: "u64 \<Rightarrow> internalmemory \<Rightarrow> bool" where
  "isInternal addr im \<longleftrightarrow> addr \<ge> im_start im \<and> addr < im_end im"

definition internal_init :: "u64 \<Rightarrow> internalmemory \<Rightarrow> internalmemory" where
  "internal_init base im =
     (if im_initialized im then im
      else im\<lparr>im_initialized := True, im_start := base, im_pos := base, im_end := base + INTERNAL_HEAP_SIZE\<rparr>)"

definition internal_alloc :: "u64 \<Rightarrow> u64 \<Rightarrow> internalmemory \<Rightarrow> (u64 \<times> internalmemory) result" where
  "internal_alloc base sz im =
     (let im1 = internal_init base im
      in bindE (guardE (im_pos im1 + sz \<le> im_end im1) (Aborted ''_pos + size <= _end'')) (\<lambda>_.
           Inr (im_pos im1, im1\<lparr>im_pos := im_pos im1 + sz\<rparr>)))"

section \<open>The bytes a commit publishes\<close>

lemma unat_offset: "unat a + k < 2 ^ 64 \<Longrightarrow> unat (a + of_nat k) = unat a + k" for a :: u64
proof -
  assume a: "unat a + k < 2 ^ 64"
  then have "unat (of_nat k :: u64) = k" by (simp add: unat_of_nat)
  then show ?thesis using a by (simp add: unat_word_ariths)
qed

lemma aligned_div: "(A::nat) mod 4096 = 0 \<Longrightarrow> (A + k) div 4096 = A div 4096 + k div 4096"
  by (metis div_plus_div_distrib_dvd_left mod_0_imp_dvd)

lemma aligned_mod: "(A::nat) mod 4096 = 0 \<Longrightarrow> (A + k) mod 4096 = k mod 4096"
  by (metis add.left_neutral mod_add_left_eq)

definition byte_at :: "os \<Rightarrow> nat \<Rightarrow> nat \<Rightarrow> u8" where
  "byte_at s p k = (case os_pages s (p + k div 4096) of None \<Rightarrow> 0 | Some pg \<Rightarrow> page_byte s pg (k mod 4096))"

lemma read_at:
  assumes "unat a mod 4096 = 0" "unat a + k < 2 ^ 64" "os_pages s (unat a div 4096 + k div 4096) \<noteq> None"
  shows "os_read s (a + of_nat k) = Inr (byte_at s (unat a div 4096) k)"
  using assms(3) by (auto simp: os_read_def byte_at_def unat_offset[OF assms(2)] aligned_div[OF assms(1)] aligned_mod[OF assms(1)])

text \<open>The always shared mapping, and the four pages that the loop reads behind a page and its twin.\<close>

definition share_ok :: "u64 \<Rightarrow> os \<Rightarrow> bool" where
  "share_ok pers s \<longleftrightarrow> unat pers mod 4096 = 0 \<and> unat pers + HEAP_SIZE \<le> 2 ^ 64 \<and>
     (\<forall>q < HEAP_SIZE div 4096. os_pages s (unat pers div 4096 + q) = Some \<lparr>pg_backing = FileShared (4096 * q), pg_copy = None, pg_write = True\<rparr>)"

definition heap_page :: "u64 \<Rightarrow> pagestate \<Rightarrow> nat" where
  "heap_page slab st = unat (ps_addr st - slab) div 4096"

definition shows_page :: "os \<Rightarrow> nat \<Rightarrow> nat \<Rightarrow> bool" where
  "shows_page s p q = (case os_pages s p of None \<Rightarrow> False
     | Some pg \<Rightarrow> pg_backing pg = FilePrivate (4096 * q) \<or> pg_backing pg = FileShared (4096 * q) \<and> pg_copy pg = None)"

definition state_ready :: "u64 \<Rightarrow> os \<Rightarrow> pagestate \<Rightarrow> bool" where
  "state_ready slab s st \<longleftrightarrow>
     unat slab mod 4096 = 0 \<and> unat slab + HEAP_SIZE \<le> 2 ^ 64 \<and>
     heap_page slab st + 3 < HEAP_SIZE div 4096 \<and> ps_addr st = slab + of_nat (4096 * heap_page slab st) \<and>
     (\<forall>j < 4. shows_page s (unat (ps_addr st) div 4096 + j) (heap_page slab st + j)) \<and>
     ps_twin st \<noteq> 0 \<and> unat (ps_twin st) mod 4096 = 0 \<and> unat (ps_twin st) + 16384 \<le> 2 ^ 64 \<and>
     (\<forall>j < 4. \<exists>pg. os_pages s (unat (ps_twin st) div 4096 + j) = Some pg \<and> pg_backing pg = Anonymous)"

definition mine :: "os \<Rightarrow> pagestate \<Rightarrow> nat \<Rightarrow> u8" where
  "mine s st k = byte_at s (unat (ps_addr st) div 4096) k"

definition base :: "os \<Rightarrow> pagestate \<Rightarrow> nat \<Rightarrow> u8" where
  "base s st k = byte_at s (unat (ps_twin st) div 4096) k"

lemma state_ready_addr:
  assumes "state_ready slab s st"
  shows "unat (ps_addr st) = unat slab + 4096 * heap_page slab st" "unat (ps_addr st) mod 4096 = 0"
    "unat (ps_addr st) + 16384 \<le> 2 ^ 64" "unat (ps_addr st - slab) = 4096 * heap_page slab st"
proof -
  define q where "q = heap_page slab st"
  have r: "unat slab mod 4096 = 0" "unat slab + HEAP_SIZE \<le> 2 ^ 64" "q + 3 < HEAP_SIZE div 4096" "ps_addr st = slab + of_nat (4096 * q)"
    using assms by (simp_all add: state_ready_def q_def)
  have q: "4096 * q + 16384 \<le> HEAP_SIZE" using r(3) by (simp add: HEAP_SIZE_def)
  then have u: "unat (slab + of_nat (4096 * q)) = unat slab + 4096 * q"
    using r(2) by (intro unat_offset) (simp add: HEAP_SIZE_def)
  then show "unat (ps_addr st) = unat slab + 4096 * heap_page slab st" by (simp add: r(4) q_def)
  show "unat (ps_addr st) mod 4096 = 0" unfolding r(4) u using r(1) by (simp add: aligned_mod)
  show "unat (ps_addr st) + 16384 \<le> 2 ^ 64" unfolding r(4) u using r(2) q by linarith
  have "4096 * q < 2 ^ 64" using q r(2) by linarith
  then have "unat (of_nat (4096 * q) :: u64) = 4096 * q" unfolding unat_of_nat by simp
  then show "unat (ps_addr st - slab) = 4096 * heap_page slab st" by (simp add: r(4) q_def)
qed

lemma state_ready_pages:
  assumes "state_ready slab s st" "j < 4"
  shows "shows_page s (unat (ps_addr st) div 4096 + j) (heap_page slab st + j)"
    "\<exists>pg. os_pages s (unat (ps_twin st) div 4096 + j) = Some pg \<and> pg_backing pg = Anonymous"
  using assms unfolding state_ready_def by blast+

lemma state_reads:
  assumes "state_ready slab s st" "k < 16384"
  shows "os_read s (ps_addr st + of_nat k) = Inr (mine s st k)" "os_read s (ps_twin st + of_nat k) = Inr (base s st k)"
proof -
  note r = state_ready_addr[OF assms(1)]
  have j: "k div 4096 < 4" using assms(2) by linarith
  have "os_pages s (unat (ps_addr st) div 4096 + k div 4096) \<noteq> None"
    using assms(1) j by (auto simp: state_ready_def shows_page_def split: option.splits)
  then show "os_read s (ps_addr st + of_nat k) = Inr (mine s st k)"
    unfolding mine_def by (intro read_at) (use r assms(2) in linarith)+
  have t: "unat (ps_twin st) mod 4096 = 0" "unat (ps_twin st) + 16384 \<le> 2 ^ 64"
    "os_pages s (unat (ps_twin st) div 4096 + k div 4096) \<noteq> None"
    using assms(1) j by (auto simp: state_ready_def)
  then show "os_read s (ps_twin st + of_nat k) = Inr (base s st k)"
    unfolding base_def by (intro read_at) (use assms(2) in linarith)+
qed

text \<open>The file after the bytes before \<open>n\<close> have been published.\<close>

definition published :: "u64 \<Rightarrow> os \<Rightarrow> pagestate \<Rightarrow> nat \<Rightarrow> nat \<Rightarrow> u8" where
  "published slab s st n off =
     (let k = off - 4096 * heap_page slab st
      in if 4096 * heap_page slab st \<le> off \<and> k < n \<and> mine s st k \<noteq> base s st k then mine s st k else os_file s off)"

lemma file_view:
  assumes "state_ready slab s st" "k < 16384" "os_file s' (4096 * heap_page slab st + k) = os_file s (4096 * heap_page slab st + k)"
    "os_pages s' = os_pages s"
  shows "mine s' st k = mine s st k" "base s' st k = base s st k"
proof -
  have j: "k div 4096 < 4" using assms(2) by linarith
  show "mine s' st k = mine s st k"
    using state_ready_pages(1)[OF assms(1) j] assms(3,4)
    by (auto simp: mine_def byte_at_def page_byte_def shows_page_def add.commute split: option.splits)
  obtain pg where "os_pages s (unat (ps_twin st) div 4096 + k div 4096) = Some pg" "pg_backing pg = Anonymous"
    using state_ready_pages(2)[OF assms(1) j] by blast
  then show "base s' st k = base s st k" using assms(4) by (auto simp: base_def byte_at_def page_byte_def split: option.splits)
qed

lemma commit_byte_step:
  assumes r: "state_ready slab s st" and sh: "share_ok pers s" and n: "n < 16384"
  shows "commit_byte (ps_addr st) (ps_twin st) (pers + (ps_addr st - slab)) n (s\<lparr>os_file := published slab s st n\<rparr>) =
    Inr (s\<lparr>os_file := published slab s st (Suc n)\<rparr>)"
proof -
  define q where "q = heap_page slab st"
  define s' where "s' = s\<lparr>os_file := published slab s st n\<rparr>"
  have off: "os_file s' (4096 * heap_page slab st + n) = os_file s (4096 * heap_page slab st + n)"
    by (simp add: s'_def published_def)
  have pages: "os_pages s' = os_pages s" by (simp add: s'_def)
  have r': "state_ready slab s' st" using r unfolding state_ready_def shows_page_def pages .
  note v = file_view[OF r n off pages]
  note rd = state_reads[OF r' n, unfolded v]
  have q3: "q + 3 < HEAP_SIZE div 4096" using r by (simp add: state_ready_def q_def)
  have j: "n div 4096 < 4" using n by linarith
  have shp: "unat pers mod 4096 = 0" "unat pers + HEAP_SIZE \<le> 2 ^ 64" using sh by (simp_all add: share_ok_def)
  have qn: "4096 * q + n < HEAP_SIZE" using q3 n by (simp add: HEAP_SIZE_def)
  have "of_nat (unat (ps_addr st - slab)) = ps_addr st - slab" by simp
  then have "ps_addr st - slab = of_nat (4096 * q)" by (simp only: state_ready_addr(4)[OF r] q_def)
  then have "pers + (ps_addr st - slab) + of_nat n = pers + of_nat (4096 * q + n)" by (simp add: add.assoc)
  moreover have "unat (pers + of_nat (4096 * q + n)) = unat pers + (4096 * q + n)"
    using shp(2) qn by (intro unat_offset) linarith
  ultimately have a: "unat (pers + (ps_addr st - slab) + of_nat n) = unat pers + (4096 * q + n)" by (simp only:)
  have "(4096 * q + n) div 4096 = q + n div 4096" "(4096 * q + n) mod 4096 = n mod 4096" by simp_all
  then have d: "unat (pers + (ps_addr st - slab) + of_nat n) div 4096 = unat pers div 4096 + (q + n div 4096)"
    "unat (pers + (ps_addr st - slab) + of_nat n) mod 4096 = n mod 4096"
    unfolding a by (simp_all only: aligned_div[OF shp(1)] aligned_mod[OF shp(1)])
  have "q + n div 4096 < HEAP_SIZE div 4096" using q3 j by linarith
  then have pg: "os_pages s (unat pers div 4096 + (q + n div 4096)) =
      Some \<lparr>pg_backing = FileShared (4096 * (q + n div 4096)), pg_copy = None, pg_write = True\<rparr>"
    using sh by (simp only: share_ok_def)
  have o: "4096 * (q + n div 4096) + n mod 4096 = 4096 * q + n" by simp
  have w: "os_write (pers + (ps_addr st - slab) + of_nat n) (mine s st n) s' =
      Inr (s'\<lparr>os_file := (os_file s')(4096 * q + n := mine s st n)\<rparr>)"
    unfolding os_write_def d pages pg by (simp add: o del: distrib_left_numeral)
  have eq: "published slab s st (Suc n) =
      (if mine s st n \<noteq> base s st n then (published slab s st n)(4096 * q + n := mine s st n) else published slab s st n)"
    by (rule ext) (auto simp: published_def Let_def q_def less_Suc_eq)
  show ?thesis unfolding s'_def[symmetric] commit_byte_def rd bindE.simps w eq
    by (auto simp: s'_def)
qed

lemma commit_bytes:
  assumes "state_ready slab s st" "share_ok pers s" "n \<le> 16384"
  shows "foldE (commit_byte (ps_addr st) (ps_twin st) (pers + (ps_addr st - slab))) [0..<n] s =
    Inr (s\<lparr>os_file := published slab s st n\<rparr>)"
  using assms(3)
proof (induction n)
  case 0
  have "published slab s st 0 = os_file s" by (rule ext) (simp add: published_def)
  then show ?case by simp
next
  case (Suc n)
  then show ?case using commit_byte_step[OF assms(1,2), of n] by (simp add: foldE_append)
qed

lemma chunk_starts: "filter (\<lambda>i. i mod incSize = 0) [0..<TMI_PAGESIZE] = [0]"
proof -
  have n: "0 < TMI_PAGESIZE" "TMI_PAGESIZE \<le> incSize" by (simp_all add: TMI_PAGESIZE_def incSize_def)
  then have "filter (\<lambda>i. i mod incSize = 0) [Suc 0..<TMI_PAGESIZE] = []"
    by (auto simp: filter_empty_conv)
  then show ?thesis using upt_conv_Cons[OF n(1)] by simp
qed

definition page_changed :: "os \<Rightarrow> pagestate \<Rightarrow> bool" where
  "page_changed s st \<longleftrightarrow> (\<exists>k < 4096. mine s st k \<noteq> base s st k)"

lemma memequal_ready:
  assumes "state_ready slab s st"
  shows "os_memequal (ps_addr st) (ps_twin st) 4096 s = Inr (\<not> page_changed s st)"
proof -
  have "mapE (\<lambda>k. os_read s (ps_addr st + of_nat k)) [0..<4096] = Inr (map (mine s st) [0..<4096])"
    "mapE (\<lambda>k. os_read s (ps_twin st + of_nat k)) [0..<4096] = Inr (map (base s st) [0..<4096])"
    using state_reads[OF assms] by (auto intro!: mapE_total)
  moreover have "map (mine s st) [0..<4096] = map (base s st) [0..<4096] \<longleftrightarrow> \<not> page_changed s st"
    by (auto simp: page_changed_def)
  ultimately show ?thesis by (simp add: os_memequal_def)
qed

definition discard :: "page \<Rightarrow> page" where
  "discard pg = pg\<lparr>pg_copy := None, pg_write := False\<rparr>"

text \<open>What the commit of one active state does, overrun included.\<close>

lemma commit_state_exact:
  assumes r: "state_ready slab s st" and sh: "share_ok pers s" and act: "ps_active st"
  shows "commit_state pers slab st s =
    Inr (s\<lparr>os_file := if page_changed s st then published slab s st 16384 else os_file s,
           os_pages := (os_pages s)(unat (ps_addr st) div 4096 := map_option discard (os_pages s (unat (ps_addr st) div 4096)))\<rparr>)"
proof -
  define F where "F = (if page_changed s st then published slab s st 16384 else os_file s)"
  have tw: "ps_twin st \<noteq> 0" using r by (simp add: state_ready_def)
  have al: "unat (ps_addr st) mod 4096 = 0" by (rule state_ready_addr(2)[OF r])
  have "commit_chunk (ps_addr st) (ps_twin st) (pers + (ps_addr st - slab)) 0 s = Inr (s\<lparr>os_file := F\<rparr>)"
    using memequal_ready[OF r] commit_bytes[OF r sh, of 16384] by (simp add: commit_chunk_def F_def incSize_def)
  moreover have "os_mprotect (ps_addr st) False (os_dontneed (ps_addr st) (s\<lparr>os_file := F\<rparr>)) =
      s\<lparr>os_file := F, os_pages := (os_pages s)(unat (ps_addr st) div 4096 := map_option discard (os_pages s (unat (ps_addr st) div 4096)))\<rparr>"
    using al by (auto simp: os_mprotect_def os_dontneed_def discard_def fun_upd_idem split: option.splits)
  ultimately show ?thesis using act tw by (simp add: commit_state_def chunk_starts F_def)
qed

definition states_of :: "tmi_memory \<Rightarrow> pagestate list" where
  "states_of m = (case tm_states m of None \<Rightarrow> [] | Some (bytes, sts) \<Rightarrow> sts)"

section \<open>Limits of the memory manager\<close>

text \<open>A heap whose first page is dirty in byte 8, while another process published byte 16.\<close>

definition sample_page :: "(nat \<Rightarrow> u8) option \<Rightarrow> nat \<Rightarrow> page option" where
  "sample_page second p =
     (if 1048576 \<le> p \<and> p < 2097152 then Some \<lparr>pg_backing = FileShared (4096 * (p - 1048576)), pg_copy = None, pg_write = True\<rparr>
      else if p = 3145728 then Some \<lparr>pg_backing = FilePrivate 0, pg_copy = Some (\<lambda>k. if k = 8 then 7 else 0), pg_write = True\<rparr>
      else if p = 3145729 then Some \<lparr>pg_backing = FilePrivate 4096, pg_copy = second, pg_write = True\<rparr>
      else if 3145730 \<le> p \<and> p < 4194304 then Some \<lparr>pg_backing = FilePrivate (4096 * (p - 3145728)), pg_copy = None, pg_write = False\<rparr>
      else if 65536 \<le> p \<and> p < 65540 then Some \<lparr>pg_backing = Anonymous, pg_copy = Some (\<lambda>_. 0), pg_write = True\<rparr>
      else None)"

definition sample_os :: "(nat \<Rightarrow> u8) option \<Rightarrow> os" where
  "sample_os second = \<lparr>os_file = (\<lambda>o'. if o' = 16 \<or> o' = 4101 then 9 else 0), os_pages = sample_page second\<rparr>"

definition sample_state :: pagestate where
  "sample_state = \<lparr>ps_addr = 0x300000000, ps_twin = 0x10000000, ps_active = True\<rparr>"

definition sample_memory :: tmi_memory where
  "sample_memory = \<lparr>tm_persistentMemory = 0x100000000, tm_slabStart = 0x300000000, tm_slabEnd = 0x400000000,
     tm_slabPos = 0x300100000, tm_mmapPos = 0x400000000, tm_initialized = True,
     tm_states = Some (4096, [sample_state]), tm_os = sample_os None\<rparr>"

lemma sample_ready:
  "share_ok 0x100000000 (sample_os second)" "state_ready 0x300000000 (sample_os second) sample_state"
  "heap_page 0x300000000 sample_state = 0"
proof -
  show hp: "heap_page 0x300000000 sample_state = 0" by (simp add: heap_page_def sample_state_def)
  show "share_ok 0x100000000 (sample_os second)"
    by (simp add: share_ok_def sample_os_def sample_page_def HEAP_SIZE_def)
  have "j < 4 \<Longrightarrow> j = 0 \<or> j = 1 \<or> j = 2 \<or> j = (3::nat)" for j by auto
  then have "\<forall>j < 4. shows_page (sample_os second) (3145728 + j) j"
    by (auto simp: shows_page_def sample_os_def sample_page_def)
  moreover have "\<forall>j < 4. \<exists>pg. os_pages (sample_os second) (65536 + j) = Some pg \<and> pg_backing pg = Anonymous"
    by (auto simp: sample_os_def sample_page_def)
  ultimately show "state_ready 0x300000000 (sample_os second) sample_state"
    by (simp add: state_ready_def hp HEAP_SIZE_def) (simp add: sample_state_def)
qed

text \<open>
  The loop over a changed page runs over 16384 bytes of a page of 4096. A byte of the three
  pages behind it is written to the shared heap whenever it differs from the memory behind the
  twin, even when the process has only an old copy of it and another process published a new value.
\<close>

theorem commit_overruns_page:
  assumes "state_ready slab s st" "share_ok pers s" "ps_active st" "page_changed s st"
    and "4096 \<le> k" "k < 16384" "mine s st k \<noteq> base s st k"
  shows "\<exists>s'. commit_state pers slab st s = Inr s' \<and> os_file s' (4096 * heap_page slab st + k) = mine s st k"
  unfolding commit_state_exact[OF assms(1-3)] using assms(4-7) by (simp add: published_def)

theorem commit_overruns_page_witness:
  "os_file (sample_os (Some (\<lambda>_. 1))) 4101 = 9 \<and>
   (\<exists>s'. commit_state 0x100000000 0x300000000 sample_state (sample_os (Some (\<lambda>_. 1))) = Inr s' \<and> os_file s' 4101 = 1)"
proof -
  let ?s = "sample_os (Some (\<lambda>_. 1))"
  have "mine ?s sample_state 8 = 7" "base ?s sample_state 8 = 0" and b: "mine ?s sample_state 4101 = 1" "base ?s sample_state 4101 = 0"
    by (simp_all add: mine_def base_def byte_at_def page_byte_def) (simp_all add: sample_state_def sample_os_def sample_page_def page_byte_def)
  then have "page_changed ?s sample_state" by (auto simp: page_changed_def intro!: exI[of _ 8])
  then show ?thesis
    using commit_overruns_page[OF sample_ready(2,1), of "Some (\<lambda>_. 1)" 4101] b sample_ready(3)
    by (simp add: sample_os_def sample_state_def)
qed

text \<open>
  The table of page states has room for every page of the heap it is allocated for, except
  when the number of pages is a multiple of 512: then it is one entry short.
\<close>

theorem states_table_capacity:
  assumes "tm_states m = None" "0 < n" "4096 * n < 2 ^ 64"
  shows "\<exists>bytes. tm_states (allocStates (of_nat (4096 * n)) m) = Some (bytes, []) \<and>
    (4 + 24 * n \<le> bytes \<longleftrightarrow> n mod 512 \<noteq> 0) \<and> 4 + 24 * (n - 1) \<le> bytes"
proof -
  have "unat (of_nat (4096 * n) :: u64) = 4096 * n" unfolding unat_of_nat using assms(3) by simp
  then have t: "tm_states (allocStates (of_nat (4096 * n)) m) =
      Some (4096 * (n * 24 div 4096 + (if n * 24 mod 4096 \<noteq> 0 then 1 else 0)), [])"
    using assms(1) by (simp add: allocStates_def TMI_PAGESIZE_def Let_def)
  define r where "r = n mod 512"
  define h where "h = n div 512"
  have n: "n = 512 * h + r" "r < 512" by (simp_all add: r_def h_def)
  define d where "d = n * 24 div 4096"
  define e where "e = n * 24 mod 4096"
  have "n * 24 = 4096 * d + e" unfolding d_def e_def by (rule mult_div_mod_eq[symmetric])
  then have de: "24 * n = 4096 * d + e" by (simp only: mult.commute)
  have "n * 24 = 8 * (3 * n)" "(4096::nat) = 8 * 512" by simp_all
  then have e8: "e = 8 * (3 * n mod 512)" unfolding e_def by (simp only: mult_mod_right)
  have "3 * n mod 512 = 3 * r mod 512" by (simp add: r_def mod_mult_right_eq)
  moreover have "3 * r mod 512 = 0 \<Longrightarrow> r = 0"
  proof -
    assume "3 * r mod 512 = 0"
    then obtain t where t: "3 * r = 512 * t" by (auto elim: dvdE simp: mod_eq_0_iff_dvd)
    then have "t = 0 \<or> t = 1 \<or> t = 2" using n(2) by linarith
    then show "r = 0" using t by (elim disjE) presburger+
  qed
  ultimately have e0: "e = 0 \<longleftrightarrow> r = 0" unfolding e8 by auto
  have "3 * n mod 512 < 512" by simp
  then have el: "e \<le> 4088" unfolding e8 by linarith
  have "4 + 24 * n \<le> 4096 * (d + (if e \<noteq> 0 then 1 else 0)) \<longleftrightarrow> r \<noteq> 0"
    "4 + 24 * (n - 1) \<le> 4096 * (d + (if e \<noteq> 0 then 1 else 0))"
    using de e0 el assms(2) by auto
  then show ?thesis unfolding t r_def d_def e_def by blast
qed

theorem states_table_capacity_witness:
  "\<exists>bytes. tm_states (allocStates (of_nat (4096 * 512)) (sample_memory\<lparr>tm_states := None\<rparr>)) = Some (bytes, []) \<and> \<not> 4 + 24 * 512 \<le> bytes"
  using states_table_capacity[of "sample_memory\<lparr>tm_states := None\<rparr>" 512] by auto

text \<open>Requests of the allocator: the break from the lower end of the heap, mappings from the upper end.\<close>

datatype heap_req = SlabReq u64 | MmapReq u64

fun heap_serve :: "u64 \<Rightarrow> u64 \<Rightarrow> heap_req \<Rightarrow> tmi_memory \<Rightarrow> u64 \<times> tmi_memory" where
  "heap_serve pers slab (SlabReq n) m = adjust_slab_memory pers slab n m"
| "heap_serve pers slab (MmapReq n) m = get_mmap_memory pers slab n m"

primrec heap_run :: "u64 \<Rightarrow> u64 \<Rightarrow> heap_req list \<Rightarrow> tmi_memory \<Rightarrow> (u64 \<times> heap_req) list" where
  "heap_run pers slab [] m = []"
| "heap_run pers slab (r # rs) m = (let (a, m1) = heap_serve pers slab r m in (a, r) # heap_run pers slab rs m1)"

fun req_size :: "heap_req \<Rightarrow> nat" where
  "req_size (SlabReq n) = unat n"
| "req_size (MmapReq n) = (unat n + 4095) div 4096 * 4096"

definition block :: "u64 \<times> heap_req \<Rightarrow> nat set" where
  "block b = {unat (fst b) ..< unat (fst b) + req_size (snd b)}"

lemma mmap_size:
  assumes "(unat n + 4095) div 4096 * 4096 < 2 ^ 64"
  shows "unat (if n mod of_nat TMI_PAGESIZE \<noteq> 0 then (n div of_nat TMI_PAGESIZE + 1) * of_nat TMI_PAGESIZE else n :: u64) =
    (unat n + 4095) div 4096 * 4096"
proof -
  have m: "unat (n mod 4096) = unat n mod 4096" "unat (n div 4096) = unat n div 4096" by (simp_all add: unat_mod unat_div)
  have z: "n mod 4096 = 0 \<longleftrightarrow> unat n mod 4096 = 0" using m(1) by (metis unat_eq_0)
  show ?thesis
  proof (cases "unat n mod 4096 = 0")
    case True
    then have "(unat n + 4095) div 4096 = unat n div 4096" by (simp add: aligned_div)
    then show ?thesis using True z by (auto simp: TMI_PAGESIZE_def)
  next
    case False
    define q r where "q = unat n div 4096" and "r = unat n mod 4096"
    have "unat n = 4096 * q + r" "r < 4096" "0 < r" using False by (simp_all add: q_def r_def)
    then have up: "(unat n + 4095) div 4096 = unat n div 4096 + 1" unfolding q_def[symmetric] by (intro div_nat_eqI) auto
    have "unat ((n div 4096 + 1) * 4096) = (unat n div 4096 + 1) * 4096"
      using assms unfolding up by (simp add: unat_word_ariths m(2))
    then show ?thesis using False z by (simp add: TMI_PAGESIZE_def up)
  qed
qed

text \<open>A request takes its block from the gap between the two ends and leaves the rest of the gap.\<close>

lemma heap_serve_step:
  assumes "tm_initialized m" "heap_serve pers slab r m = (a, m1)"
    and fits: "unat (tm_slabPos m) + req_size r + rest \<le> unat (tm_mmapPos m)"
  shows "tm_initialized m1 \<and> block (a, r) \<subseteq> {unat (tm_slabPos m) ..< unat (tm_mmapPos m)} \<and>
    block (a, r) \<inter> {unat (tm_slabPos m1) ..< unat (tm_mmapPos m1)} = {} \<and>
    unat (tm_slabPos m1) + rest \<le> unat (tm_mmapPos m1) \<and>
    unat (tm_slabPos m) \<le> unat (tm_slabPos m1) \<and> unat (tm_mmapPos m1) \<le> unat (tm_mmapPos m)"
proof -
  have top: "unat (tm_mmapPos m) < 2 ^ 64" using unsigned_less[of "tm_mmapPos m"] by simp
  have init: "memory_init pers slab m = m" using assms(1) by (simp add: memory_init_def)
  show ?thesis
  proof (cases r)
    case (SlabReq n)
    have "unat (tm_slabPos m + n) = unat (tm_slabPos m) + unat n"
      using fits top SlabReq by (simp add: unat_word_ariths)
    then show ?thesis using assms(1,2) fits SlabReq by (auto simp: adjust_slab_memory_def init block_def)
  next
    case (MmapReq n)
    define sz :: u64 where "sz = (if n mod of_nat TMI_PAGESIZE \<noteq> 0 then (n div of_nat TMI_PAGESIZE + 1) * of_nat TMI_PAGESIZE else n)"
    have sz: "unat sz = req_size r" using fits top MmapReq mmap_size[of n] by (simp add: sz_def)
    have "sz \<le> tm_mmapPos m" using sz fits by (simp add: word_le_nat_alt)
    then have u: "unat (tm_mmapPos m - sz) = unat (tm_mmapPos m) - req_size r" by (simp add: unat_sub sz)
    have "a = tm_mmapPos m - sz" "m1 = m\<lparr>tm_mmapPos := tm_mmapPos m - sz\<rparr>"
      using assms(2) MmapReq by (auto simp: get_mmap_memory_def init sz_def Let_def)
    then show ?thesis using assms(1) fits u by (auto simp: block_def)
  qed
qed

lemma heap_run_apart:
  assumes "tm_initialized m" "unat (tm_slabPos m) + sum_list (map req_size rs) \<le> unat (tm_mmapPos m)"
  shows "(\<forall>b \<in> set (heap_run pers slab rs m). block b \<subseteq> {unat (tm_slabPos m) ..< unat (tm_mmapPos m)}) \<and>
    sorted_wrt (\<lambda>b c. block b \<inter> block c = {}) (heap_run pers slab rs m)"
  using assms
proof (induction rs arbitrary: m)
  case (Cons r rs)
  obtain a m1 where am: "heap_serve pers slab r m = (a, m1)" by (cases "heap_serve pers slab r m")
  have "unat (tm_slabPos m) + req_size r + sum_list (map req_size rs) \<le> unat (tm_mmapPos m)" using Cons.prems(2) by simp
  note m1 = heap_serve_step[OF Cons.prems(1) am this]
  have IH: "(\<forall>b \<in> set (heap_run pers slab rs m1). block b \<subseteq> {unat (tm_slabPos m1) ..< unat (tm_mmapPos m1)}) \<and>
      sorted_wrt (\<lambda>b c. block b \<inter> block c = {}) (heap_run pers slab rs m1)"
    by (rule Cons.IH) (use m1 in auto)
  have sub: "{unat (tm_slabPos m1) ..< unat (tm_mmapPos m1)} \<subseteq> {unat (tm_slabPos m) ..< unat (tm_mmapPos m)}" using m1 by auto
  have "\<forall>b \<in> set (heap_run pers slab rs m1). block (a, r) \<inter> block b = {} \<and> block b \<subseteq> {unat (tm_slabPos m) ..< unat (tm_mmapPos m)}"
    using IH m1 sub by blast
  then show ?case using IH m1 by (simp add: am)
qed simp

text \<open>
  The two ends of the heap never meet while the requests fit: blocks given out for the break
  and for mappings, the latter rounded up to pages, lie inside the heap and are pairwise disjoint,
  as long as their sizes sum up to at most the size of the heap.
\<close>

theorem heap_blocks_disjoint:
  assumes "\<not> tm_initialized m" "unat slab + HEAP_SIZE < 2 ^ 64" "sum_list (map req_size rs) \<le> HEAP_SIZE"
  shows "(\<forall>b \<in> set (heap_run pers slab rs m). block b \<subseteq> {unat slab ..< unat slab + HEAP_SIZE}) \<and>
    sorted_wrt (\<lambda>b c. block b \<inter> block c = {}) (heap_run pers slab rs m)"
proof -
  define m0 where "m0 = memory_init pers slab m"
  have m0: "tm_initialized m0" "tm_slabPos m0 = slab" "tm_mmapPos m0 = slab + of_nat HEAP_SIZE"
    using assms(1) by (simp_all add: m0_def memory_init_def Let_def)
  have "unat (slab + of_nat HEAP_SIZE) = unat slab + HEAP_SIZE" by (rule unat_offset[OF assms(2)])
  then have e: "unat (tm_mmapPos m0) = unat slab + HEAP_SIZE" using m0(3) by simp
  have "memory_init pers slab m0 = m0" using m0(1) by (simp add: memory_init_def)
  then have "heap_serve pers slab r m0 = heap_serve pers slab r m" for r
    by (cases r) (simp_all add: adjust_slab_memory_def get_mmap_memory_def m0_def)
  then have "heap_run pers slab rs m0 = heap_run pers slab rs m" by (cases rs) simp_all
  then show ?thesis using heap_run_apart[OF m0(1), of rs pers slab] assms(3) by (simp add: e m0(2))
qed

theorem heap_blocks_disjoint_witness:
  "block (0x300000000, SlabReq 100) \<inter> block (0x3FFFFE000, MmapReq 5000) = {}"
proof -
  let ?m = "sample_memory\<lparr>tm_initialized := False\<rparr>"
  have "heap_run 0x100000000 0x300000000 [SlabReq 100, MmapReq 5000] ?m = [(0x300000000, SlabReq 100), (0x3FFFFE000, MmapReq 5000)]"
    by (simp add: adjust_slab_memory_def get_mmap_memory_def memory_init_def Let_def TMI_PAGESIZE_def HEAP_SIZE_def)
  moreover have "\<not> tm_initialized ?m" "unat (0x300000000 :: u64) + HEAP_SIZE < 2 ^ 64"
    "sum_list (map req_size [SlabReq 100, MmapReq 5000]) \<le> HEAP_SIZE" by (simp_all add: HEAP_SIZE_def)
  ultimately show ?thesis
    using heap_blocks_disjoint[of ?m "0x300000000" "[SlabReq 100, MmapReq 5000]" "0x100000000"] by simp
qed

lemma unat_disjoint: "x AND y = 0 \<Longrightarrow> unat x + unat y = unat (x OR y)" for x y :: u64
proof -
  assume "x AND y = 0"
  then have "uint x AND uint y = 0" by (metis unsigned_and_eq unsigned_0)
  then have "uint x + uint y = uint (x OR y)" using plus_and_or[of "uint x" "uint y"] by (simp add: unsigned_or_eq)
  then have "int (unat x + unat y) = int (unat (x OR y))" by simp
  then show ?thesis by (simp only: of_nat_eq_iff)
qed

lemma unat_align: "unat (alignAddressToPage a) = unat a div 4096 * 4096"
proof -
  let ?x = "a AND NOT 4095" and ?y = "a AND 4095 :: u64"
  have "(0xFFFFFFFFFFFFF000 :: u64) = NOT 4095" by simp
  then have m: "alignAddressToPage a = ?x" by (simp only: alignAddressToPage_def)
  have "?x AND ?y = 0" "?x OR ?y = a" by (rule bit_word_eqI; auto simp: bit_simps)+
  then have sum: "unat ?x + unat ?y = unat a" using unat_disjoint[of ?x ?y] by metis
  have "?y = take_bit 12 a" by (simp add: take_bit_eq_mask mask_eq_exp_minus_1)
  then have "unat ?y = unat a mod 4096" by (simp add: take_bit_eq_mod unat_mod)
  then show ?thesis using sum unfolding m by (metis add_right_cancel div_mult_mod_eq)
qed

text \<open>
  Protecting all pages maps the upper part of the heap privately but writable. A write there
  succeeds without a fault, stays in the private copy, and the next commit does not publish it.
\<close>

theorem protect_all_mmap_unpublished:
  assumes "tm_states m = None" "tm_mmapPos m \<noteq> tm_slabEnd m" "tm_mmapPos m \<le> a" "a < tm_slabEnd m"
    and "tm_slabStart m \<le> alignAddressToPage (tm_mmapPos m)" "unat (tm_slabStart m) mod 4096 = 0"
    and "4096 \<le> (tm_slabPos m - tm_slabStart m) + (tm_slabEnd m - tm_mmapPos m)"
  shows "\<exists>s. os_write a v (tm_os (protectAll m)) = Inr s \<and> os_file s = os_file (tm_os m) \<and>
    commit ((protectAll m)\<lparr>tm_os := s\<rparr>) = Inr ((protectAll m)\<lparr>tm_os := s\<rparr>)"
proof -
  define al where "al = alignAddressToPage (tm_mmapPos m)"
  define n where "n = unat (tm_slabEnd m - al)"
  define off where "off = unat (al - tm_slabStart m)"
  define m1 where "m1 = allocStates ((tm_slabPos m - tm_slabStart m) + (tm_slabEnd m - tm_mmapPos m)) m"
  define s1 where "s1 = snd (os_map_file FilePrivate False (tm_slabStart m) (unat (tm_slabPos m - tm_slabStart m)) 0 (tm_os m1))"
  have al: "unat al = unat (tm_mmapPos m) div 4096 * 4096" by (simp add: al_def unat_align)
  have ale: "unat al \<le> unat (tm_mmapPos m)" unfolding al by simp
  have a: "unat (tm_mmapPos m) \<le> unat a" "unat a < unat (tm_slabEnd m)" using assms(3,4) by (simp_all add: word_le_nat_alt word_less_nat_alt)
  then have "al \<le> tm_slabEnd m" using ale by (simp add: word_le_nat_alt)
  then have n: "n = unat (tm_slabEnd m) - unat al" unfolding n_def by (rule unat_sub)
  have "tm_slabStart m \<le> al" using assms(5) by (simp add: al_def)
  then have "off = unat al - unat (tm_slabStart m)" unfolding off_def by (rule unat_sub)
  moreover have "4096 dvd unat al" "4096 dvd unat (tm_slabStart m)" using assms(6) by (simp_all add: al mod_eq_0_iff_dvd)
  ultimately have off: "off mod 4096 = 0" by (simp add: mod_eq_0_iff_dvd dvd_diff_nat)
  have al0: "unat al mod 4096 = 0" by (simp add: al)
  have pa: "protectAll m = m1\<lparr>tm_os := snd (os_map_file FilePrivate True al n off s1)\<rparr>"
    using assms(2) by (simp add: protectAll_def Let_def al_def n_def off_def m1_def s1_def)
  have npos: "0 < n" using n a ale by linarith
  define d where "d = unat a - unat al"
  have d: "unat a = unat al + d" "d < n" using a ale n by (auto simp: d_def)
  have "unat a div 4096 = unat al div 4096 + d div 4096" unfolding d(1) by (rule aligned_div[OF al0])
  moreover have "d div 4096 < (n + 4095) div 4096" using d(2) by (simp add: less_eq_Suc_le div_le_mono flip: div_add_self2)
  ultimately have pg: "\<exists>q. os_pages (snd (os_map_file FilePrivate True al n off s1)) (unat a div 4096) =
      Some \<lparr>pg_backing = FilePrivate q, pg_copy = None, pg_write = True\<rparr>"
    using npos al0 off by (simp add: os_map_file_def)
  have fl: "os_file (snd (os_map_file kind w b k o' t)) = os_file t" for kind w b k o' t by (simp add: os_map_file_def)
  have m1: "tm_os m1 = tm_os m" using assms(1) by (simp add: m1_def allocStates_def Let_def)
  have "\<exists>bytes. tm_states m1 = Some (bytes, []) \<and> 4 \<le> bytes"
  proof -
    define t where "t = unat ((tm_slabPos m - tm_slabStart m) + (tm_slabEnd m - tm_mmapPos m)) div 4096 * 24"
    have "4096 div 4096 \<le> unat ((tm_slabPos m - tm_slabStart m) + (tm_slabEnd m - tm_mmapPos m)) div 4096"
      by (rule div_le_mono) (use assms(7) in \<open>simp add: word_le_nat_alt\<close>)
    then have "0 < t" by (simp add: t_def)
    then have "t div 4096 + (if t mod 4096 \<noteq> 0 then 1 else 0) \<noteq> 0" by (cases "t < 4096") (auto simp: div_eq_0_iff)
    then have "4 \<le> 4096 * (t div 4096 + (if t mod 4096 \<noteq> 0 then 1 else 0))" by (cases "t mod 4096 = 0") auto
    then show ?thesis using assms(1) by (simp add: m1_def allocStates_def TMI_PAGESIZE_def t_def Let_def)
  qed
  then obtain bytes where st: "tm_states (protectAll m) = Some (bytes, [])" "4 \<le> bytes" by (auto simp: pa)
  have "\<exists>s. os_write a v (tm_os (protectAll m)) = Inr s \<and> os_file s = os_file (tm_os m)"
    using pg fl m1 unfolding pa os_write_def by (auto simp: s1_def)
  then show ?thesis using st by (auto simp: commit_def)
qed

theorem protect_all_mmap_unpublished_witness:
  "\<exists>s. os_write 0x3FFFFFF00 7 (tm_os (protectAll (sample_memory\<lparr>tm_states := None, tm_mmapPos := 0x3FFFFF000\<rparr>))) = Inr s \<and>
     os_file s = os_file (sample_os None)"
  using protect_all_mmap_unpublished[of "sample_memory\<lparr>tm_states := None, tm_mmapPos := 0x3FFFFF000\<rparr>" "0x3FFFFFF00" 7]
  by (auto simp: sample_memory_def alignAddressToPage_def)

text \<open>Faults at one address, each looking for the state of its page.\<close>

primrec faults :: "placement \<Rightarrow> u64 \<Rightarrow> nat \<Rightarrow> tmi_memory \<Rightarrow> tmi_memory result" where
  "faults place addr 0 m = Inr m"
| "faults place addr (Suc n) m = bindE (getState place addr m) (\<lambda>cm. faults place addr n (snd cm))"

lemma faults_grow:
  assumes "unat addr mod 4096 \<noteq> 0" "tm_states m = Some (4096, sts)" "\<forall>st \<in> set sts. ps_addr st = addr" "length sts \<le> 170"
  shows "if length sts + n \<le> 170 then \<exists>m'. faults place addr n m = Inr m' \<and> length (states_of m') = length sts + n
    else faults place addr n m = Inl (Undefined ''entry past the end of the table'')"
  using assms(2-4)
proof (induction n arbitrary: m sts)
  case 0
  then show ?case by (simp add: states_of_def)
next
  case (Suc n)
  have "unat (alignAddressToPage addr) mod 4096 = 0" by (simp add: unat_align)
  then have "alignAddressToPage addr \<noteq> addr" using assms(1) by auto
  then have nf: "find_state (alignAddressToPage addr) sts = None"
    using Suc.prems(2) by (auto simp: find_state_def find_None_iff)
  show ?case
  proof (cases "length sts = 170")
    case True
    then show ?thesis using Suc.prems nf by (simp add: getState_def)
  next
    case False
    then have len: "length sts < 170" using Suc.prems(3) by simp
    obtain t s where ts: "os_map_anon place (tm_os m) = (t, s)" by (cases "os_map_anon place (tm_os m)")
    define m1 where "m1 = m\<lparr>tm_os := s, tm_states := Some (4096, sts @ [\<lparr>ps_addr = addr, ps_twin = t, ps_active = False\<rparr>])\<rparr>"
    have g: "getState place addr m = Inr (length sts, m1)"
      using Suc.prems(1) nf len ts by (simp add: getState_def m1_def)
    have m1s: "tm_states m1 = Some (4096, sts @ [\<lparr>ps_addr = addr, ps_twin = t, ps_active = False\<rparr>])" by (simp add: m1_def)
    show ?thesis using Suc.IH[OF m1s] Suc.prems(2) len by (cases "length sts + n \<le> 169") (auto simp: g)
  qed
qed

text \<open>
  A fault at an address that is not the start of a page is never recognised again: the entry
  keeps the address itself and the search uses the start of the page. Every further fault at that
  address takes a new entry, and the 171st runs past the table that protecting a page allocates.
\<close>

theorem unaligned_faults_exhaust:
  assumes "tm_states m = None" "unat addr mod 4096 \<noteq> 0"
  shows "if n \<le> 170 then \<exists>m'. faults place addr n (allocStates (of_nat TMI_PAGESIZE) m) = Inr m' \<and> length (states_of m') = n
    else faults place addr n (allocStates (of_nat TMI_PAGESIZE) m) = Inl (Undefined ''entry past the end of the table'')"
proof -
  have "tm_states (allocStates (of_nat TMI_PAGESIZE) m) = Some (4096, [])"
    using assms(1) by (simp add: allocStates_def TMI_PAGESIZE_def Let_def)
  from faults_grow[OF assms(2) this, of n place] show ?thesis by (cases "n \<le> 170") auto
qed

theorem unaligned_faults_exhaust_witness:
  "faults (\<lambda>_. Some 0x20000000) 0x300000008 171 (allocStates (of_nat TMI_PAGESIZE) (sample_memory\<lparr>tm_states := None\<rparr>)) =
     Inl (Undefined ''entry past the end of the table'')"
  using unaligned_faults_exhaust[of "sample_memory\<lparr>tm_states := None\<rparr>" "0x300000008" 171 "\<lambda>_. Some 0x20000000"] by simp

end
