(* ===== verification/TMI_Commit.thy ===== *)
theory TMI_Commit
  imports TMI_Memory
begin

text \<open>
  What the commit of \<^verbatim>\<open>others/tmi/src/tmimem.cpp\<close> makes of the shared heap, in every state that a process can
  reach: an invariant of the mappings and of the table of page states, its preservation by every operation of the memory
  manager and by the stores of the program, and the effect of a commit on each byte.
\<close>

section \<open>The two mappings of the heap\<close>

text \<open>The byte that the process sees at an offset of the heap.\<close>

definition view :: "u64 \<Rightarrow> os \<Rightarrow> nat \<Rightarrow> u8" where
  "view slab s off = byte_at s (unat slab div 4096) off"

text \<open>Where the kernel puts the two mappings of the file, and where it puts a new page.\<close>

definition regions_ok :: "u64 \<Rightarrow> u64 \<Rightarrow> bool" where
  "regions_ok pers slab \<longleftrightarrow> unat pers mod 4096 = 0 \<and> unat slab mod 4096 = 0 \<and> 0 < unat slab \<and>
     unat pers + HEAP_SIZE \<le> 2 ^ 63 \<and> unat slab + HEAP_SIZE \<le> 2 ^ 63 \<and>
     (unat pers + HEAP_SIZE \<le> unat slab \<or> unat slab + HEAP_SIZE \<le> unat pers)"

definition placement_ok :: "placement \<Rightarrow> bool" where
  "placement_ok place \<longleftrightarrow> (\<forall>s a. place s = Some a \<longrightarrow> a \<noteq> 0 \<and> unat a mod 4096 = 0 \<and> unat a + 4096 \<le> 2 ^ 63 \<and>
     os_pages s (unat a div 4096) = None)"

text \<open>The shared mapping shows the file, and every page of the other one shows its page of the file or a private copy.\<close>

definition heap_shown :: "u64 \<Rightarrow> u64 \<Rightarrow> os \<Rightarrow> bool" where
  "heap_shown pers slab s \<longleftrightarrow> share_ok pers s \<and> (\<forall>q < HEAP_SIZE div 4096. shows_page s (unat slab div 4096 + q) q)"

lemma regions_slab:
  assumes "regions_ok pers slab"
  shows "unat slab mod 4096 = 0" "unat slab + HEAP_SIZE < 2 ^ 64" "unat pers mod 4096 = 0" "unat pers + HEAP_SIZE < 2 ^ 64"
  using assms by (auto simp: regions_ok_def)

lemma regions_apart:
  assumes "regions_ok pers slab" "q < HEAP_SIZE div 4096" "r < HEAP_SIZE div 4096"
  shows "unat slab div 4096 + q \<noteq> unat pers div 4096 + r"
proof -
  have e: "unat slab = 4096 * (unat slab div 4096)" "unat pers = 4096 * (unat pers div 4096)"
    using assms(1) by (auto simp: regions_ok_def mod_eq_0_iff_dvd)
  have "4096 * (unat pers div 4096) + HEAP_SIZE \<le> 4096 * (unat slab div 4096) \<or>
      4096 * (unat slab div 4096) + HEAP_SIZE \<le> 4096 * (unat pers div 4096)"
    using assms(1) unfolding e[symmetric] by (simp add: regions_ok_def)
  then show ?thesis using assms(2,3) by (auto simp: HEAP_SIZE_def)
qed

lemma heap_read:
  assumes "regions_ok pers slab" "heap_shown pers slab s" "off < HEAP_SIZE"
  shows "os_read s (slab + of_nat off) = Inr (view slab s off)"
proof -
  have "off div 4096 < HEAP_SIZE div 4096" using assms(3) by (simp add: HEAP_SIZE_def)
  then have "os_pages s (unat slab div 4096 + off div 4096) \<noteq> None"
    using assms(2) by (auto simp: heap_shown_def shows_page_def split: option.splits)
  then show ?thesis unfolding view_def
    by (intro read_at) (use assms(3) regions_slab[OF assms(1)] in linarith)+
qed

lemma share_write:
  assumes "regions_ok pers slab" "heap_shown pers slab s" "off < HEAP_SIZE"
  shows "os_write (pers + of_nat off) v s = Inr (s\<lparr>os_file := (os_file s)(off := v)\<rparr>)"
proof -
  note r = regions_slab(3,4)[OF assms(1)]
  have "unat (pers + of_nat off) = unat pers + off" using r(2) assms(3) by (intro unat_offset) linarith
  then have d: "unat (pers + of_nat off) div 4096 = unat pers div 4096 + off div 4096" "unat (pers + of_nat off) mod 4096 = off mod 4096"
    by (simp_all only: aligned_div[OF r(1)] aligned_mod[OF r(1)])
  have "off div 4096 < HEAP_SIZE div 4096" using assms(3) by (simp add: HEAP_SIZE_def)
  then have "os_pages s (unat pers div 4096 + off div 4096) =
      Some \<lparr>pg_backing = FileShared (4096 * (off div 4096)), pg_copy = None, pg_write = True\<rparr>"
    using assms(2) by (simp only: heap_shown_def share_ok_def)
  then show ?thesis unfolding os_write_def d by simp
qed

text \<open>
  A byte that the process sees is the byte of the file unless the page has a private copy. So storing into the file what the
  process sees does not change what it sees.
\<close>

lemma view_file:
  assumes "heap_shown pers slab s" "off < HEAP_SIZE" "os_pages s' = os_pages s" "os_file s' off = os_file s off \<or> os_file s' off = view slab s off"
  shows "view slab s' off = view slab s off"
proof -
  have "off div 4096 < HEAP_SIZE div 4096" using assms(2) by (simp add: HEAP_SIZE_def)
  then have "shows_page s (unat slab div 4096 + off div 4096) (off div 4096)" using assms(1) by (simp add: heap_shown_def)
  then show ?thesis using assms(3,4)
    by (auto simp: view_def byte_at_def page_byte_def shows_page_def split: option.splits)
qed

lemma page_byte_file: "os_file s' = os_file s \<Longrightarrow> page_byte s' = page_byte s"
  by (intro ext) (simp add: page_byte_def split: option.split backing.split)

lemma heap_shown_pages: "os_pages s' = os_pages s \<Longrightarrow> heap_shown pers slab s' = heap_shown pers slab s"
  by (simp add: heap_shown_def share_ok_def shows_page_def)

section \<open>The bytes of one page state\<close>

text \<open>The offset of a recorded address, the bytes the loop visits for it, and whether it is the start of a page.\<close>

definition heap_off :: "u64 \<Rightarrow> pagestate \<Rightarrow> nat" where
  "heap_off slab st = unat (ps_addr st - slab)"

definition window :: "u64 \<Rightarrow> pagestate \<Rightarrow> nat set" where
  "window slab st = {heap_off slab st ..< heap_off slab st + 16384}"

definition starts_page :: "pagestate \<Rightarrow> bool" where
  "starts_page st \<longleftrightarrow> unat (ps_addr st) mod 4096 = 0"

definition twin_ok :: "os \<Rightarrow> pagestate \<Rightarrow> bool" where
  "twin_ok s st \<longleftrightarrow> ps_twin st \<noteq> 0 \<and> unat (ps_twin st) mod 4096 = 0 \<and> unat (ps_twin st) + 4096 \<le> 2 ^ 63 \<and>
     (\<exists>pg. os_pages s (unat (ps_twin st) div 4096) = Some pg \<and> pg_backing pg = Anonymous \<and> pg_write pg)"

text \<open>The three-way merge of a byte: own changes win over the shared value.\<close>

definition merge3 :: "u8 \<Rightarrow> u8 \<Rightarrow> u8 \<Rightarrow> u8" where
  "merge3 old new shared = (if new = old then shared else new)"

lemma heap_off_addr: "ps_addr st = slab + of_nat (heap_off slab st)"
  by (simp add: heap_off_def)

lemma twin_read:
  assumes "twin_ok s st" "k < 4096"
  shows "os_read s (ps_twin st + of_nat k) = Inr (base s st k)"
proof -
  have "os_pages s (unat (ps_twin st) div 4096 + k div 4096) \<noteq> None" using assms by (auto simp: twin_ok_def)
  then show ?thesis unfolding base_def by (intro read_at) (use assms in \<open>auto simp: twin_ok_def\<close>)
qed

lemma twin_file:
  assumes "twin_ok s st" "k < 4096" "os_pages s' = os_pages s"
  shows "base s' st k = base s st k"
  using assms by (auto simp: twin_ok_def base_def byte_at_def page_byte_def split: option.splits)

text \<open>Publishing some of the bytes from an offset on; the bytes up to the size of a page are merged.\<close>

definition publishes :: "u64 \<Rightarrow> pagestate \<Rightarrow> nat \<Rightarrow> os \<Rightarrow> os \<Rightarrow> bool" where
  "publishes slab st n s s' \<longleftrightarrow> os_pages s' = os_pages s \<and>
     (\<forall>off. os_file s' off = os_file s off \<or> off < HEAP_SIZE \<and> os_file s' off = view slab s off) \<and>
     (\<forall>off. off \<notin> {heap_off slab st ..< heap_off slab st + n} \<longrightarrow> os_file s' off = os_file s off) \<and>
     (\<forall>k < min n 4096. os_file s' (heap_off slab st + k) =
        merge3 (base s st k) (view slab s (heap_off slab st + k)) (os_file s (heap_off slab st + k)))"

lemma commit_byte_publishes:
  assumes R: "regions_ok pers slab" and H: "heap_shown pers slab s" and T: "twin_ok s st" and o: "heap_off slab st + 16384 \<le> HEAP_SIZE"
    and n: "n < 16384" and p: "publishes slab st n s s1"
    and b: "commit_byte (ps_addr st) (ps_twin st) (pers + (ps_addr st - slab)) n s1 = Inr s2"
  shows "publishes slab st (Suc n) s s2"
proof -
  let ?o = "heap_off slab st + n"
  have pg: "os_pages s1 = os_pages s" using p by (simp add: publishes_def)
  have H1: "heap_shown pers slab s1" using H by (simp add: heap_shown_pages[OF pg])
  have on: "?o < HEAP_SIZE" using o n by linarith
  have old: "os_file s1 ?o = os_file s ?o" using p by (simp add: publishes_def)
  have v: "view slab s1 ?o = view slab s ?o" by (rule view_file[OF H on pg]) (simp add: old)
  have a: "ps_addr st + of_nat n = slab + of_nat ?o" "pers + (ps_addr st - slab) + of_nat n = pers + of_nat ?o"
    by (simp_all add: heap_off_def)
  obtain w where w: "os_read s1 (ps_twin st + of_nat n) = Inr w"
    and s2: "s2 = (if view slab s ?o \<noteq> w then s1\<lparr>os_file := (os_file s1)(?o := view slab s ?o)\<rparr> else s1)"
    using b unfolding commit_byte_def a heap_read[OF R H1 on] v share_write[OF R H1 on]
    by (auto simp: bindE_eq_Inr split: if_splits)
  have m: "os_file s2 ?o = merge3 (base s st n) (view slab s ?o) (os_file s ?o)" if "n < 4096"
  proof -
    have T1: "twin_ok s1 st" using T by (simp add: twin_ok_def pg)
    have "w = base s st n" using twin_read[OF T1 that] w twin_file[OF T that pg] by simp
    then show ?thesis by (simp add: s2 merge3_def old)
  qed
  show ?thesis using p m on unfolding publishes_def
    by (auto simp: s2 less_Suc_eq)
qed

lemma commit_bytes_publish:
  assumes "regions_ok pers slab" "heap_shown pers slab s" "twin_ok s st" "heap_off slab st + 16384 \<le> HEAP_SIZE" "n \<le> 16384"
    and "foldE (commit_byte (ps_addr st) (ps_twin st) (pers + (ps_addr st - slab))) [0..<n] s = Inr s'"
  shows "publishes slab st n s s'"
  using assms(5,6)
proof (induction n arbitrary: s')
  case 0
  then show ?case by (simp add: publishes_def)
next
  case (Suc n)
  then obtain s1 where "foldE (commit_byte (ps_addr st) (ps_twin st) (pers + (ps_addr st - slab))) [0..<n] s = Inr s1"
    "commit_byte (ps_addr st) (ps_twin st) (pers + (ps_addr st - slab)) n s1 = Inr s'"
    by (auto simp: foldE_append bindE_eq_Inr)
  then show ?case using Suc commit_byte_publishes[OF assms(1-4)] by simp
qed

lemma commit_chunk_publishes:
  assumes "regions_ok pers slab" "heap_shown pers slab s" "twin_ok s st" "heap_off slab st + 16384 \<le> HEAP_SIZE"
    and c: "commit_chunk (ps_addr st) (ps_twin st) (pers + (ps_addr st - slab)) 0 s = Inr s'"
  shows "publishes slab st 16384 s s'"
proof -
  obtain same where e: "os_memequal (ps_addr st) (ps_twin st) 4096 s = Inr same"
    and s': "if same then s' = s else foldE (commit_byte (ps_addr st) (ps_twin st) (pers + (ps_addr st - slab))) [0..<16384] s = Inr s'"
    using c by (auto simp: commit_chunk_def bindE_eq_Inr incSize_def split: if_splits)
  show ?thesis
  proof (cases same)
    case False
    then show ?thesis using s' commit_bytes_publish[OF assms(1-4)] by simp
  next
    case True
    have rd: "os_read s (ps_addr st + of_nat k) = Inr (view slab s (heap_off slab st + k))" if "k < 4096" for k
    proof -
      have a: "ps_addr st + of_nat k = slab + of_nat (heap_off slab st + k)" by (simp add: heap_off_def)
      show ?thesis unfolding a by (rule heap_read[OF assms(1,2)]) (use assms(4) that in linarith)
    qed
    have "mapE (\<lambda>k. os_read s (ps_addr st + of_nat k)) [0..<4096] = Inr (map (\<lambda>k. view slab s (heap_off slab st + k)) [0..<4096])"
      "mapE (\<lambda>k. os_read s (ps_twin st + of_nat k)) [0..<4096] = Inr (map (base s st) [0..<4096])"
      using rd twin_read[OF assms(3)] by (auto intro!: mapE_total)
    then have "map (\<lambda>k. view slab s (heap_off slab st + k)) [0..<4096] = map (base s st) [0..<4096]"
      using e True by (simp add: os_memequal_def)
    then have "\<forall>k < 4096. view slab s (heap_off slab st + k) = base s st k" by simp
    then show ?thesis using s' True by (auto simp: publishes_def merge3_def)
  qed
qed

text \<open>The whole step for one active state: afterwards a page that was recorded at its start shows the file again.\<close>

lemma heap_off_page:
  assumes "regions_ok pers slab" "heap_off slab st < HEAP_SIZE"
  shows "unat (ps_addr st) = unat slab + heap_off slab st" "starts_page st \<longleftrightarrow> heap_off slab st mod 4096 = 0"
    "unat (ps_addr st) div 4096 = unat slab div 4096 + heap_page slab st"
proof -
  note r = regions_slab[OF assms(1)]
  have "unat (slab + of_nat (heap_off slab st)) = unat slab + heap_off slab st" using r(2) assms(2) by (intro unat_offset) linarith
  then show u: "unat (ps_addr st) = unat slab + heap_off slab st" by (simp only: heap_off_addr[symmetric])
  show "starts_page st \<longleftrightarrow> heap_off slab st mod 4096 = 0" by (simp add: starts_page_def u aligned_mod[OF r(1)])
  show "unat (ps_addr st) div 4096 = unat slab div 4096 + heap_page slab st"
    by (simp add: u aligned_div[OF r(1)] heap_page_def heap_off_def)
qed

lemma commit_state_publishes:
  assumes "regions_ok pers slab" "heap_shown pers slab s" "twin_ok s st" "heap_off slab st + 16384 \<le> HEAP_SIZE" "ps_active st"
    and "commit_state pers slab st s = Inr s'"
  shows "\<exists>s1. publishes slab st 16384 s s1 \<and> os_file s' = os_file s1 \<and>
    os_pages s' = (if starts_page st then (os_pages s)(unat slab div 4096 + heap_page slab st :=
      map_option discard (os_pages s (unat slab div 4096 + heap_page slab st))) else os_pages s)"
proof -
  have "ps_twin st \<noteq> 0" using assms(3) by (simp add: twin_ok_def)
  then obtain s1 where s1: "commit_chunk (ps_addr st) (ps_twin st) (pers + (ps_addr st - slab)) 0 s = Inr s1"
    and s': "s' = os_mprotect (ps_addr st) False (os_dontneed (ps_addr st) s1)"
    using assms(5,6) by (auto simp: commit_state_def chunk_starts bindE_eq_Inr Let_def)
  have p: "publishes slab st 16384 s s1" by (rule commit_chunk_publishes[OF assms(1-4) s1])
  then have pg: "os_pages s1 = os_pages s" by (simp add: publishes_def)
  have a: "unat (ps_addr st) div 4096 = unat slab div 4096 + heap_page slab st"
    using heap_off_page(3)[OF assms(1)] assms(4) by simp
  show ?thesis using p unfolding s' starts_page_def
    by (intro exI[of _ s1] conjI)
      (auto simp: os_mprotect_def os_dontneed_def discard_def pg a[symmetric] fun_upd_idem split: option.splits)
qed

lemma heap_page_bound: "heap_off slab st < HEAP_SIZE \<Longrightarrow> heap_page slab st < HEAP_SIZE div 4096"
  by (simp add: heap_page_def heap_off_def HEAP_SIZE_def)

lemma commit_state_effect:
  assumes R: "regions_ok pers slab" and H: "heap_shown pers slab s" and T: "twin_ok s st" and o: "heap_off slab st + 16384 \<le> HEAP_SIZE"
    and act: "ps_active st" and c: "commit_state pers slab st s = Inr s'"
  shows "heap_shown pers slab s'"
    and "\<And>off. off < HEAP_SIZE \<Longrightarrow> os_file s' off = os_file s off \<or> os_file s' off = view slab s off"
    and "\<And>off. off \<notin> window slab st \<Longrightarrow> os_file s' off = os_file s off"
    and "\<And>k. k < 4096 \<Longrightarrow> os_file s' (heap_off slab st + k) =
      merge3 (base s st k) (view slab s (heap_off slab st + k)) (os_file s (heap_off slab st + k))"
    and "\<And>off. off < HEAP_SIZE \<Longrightarrow> view slab s' off = (if starts_page st \<and> off div 4096 = heap_page slab st then os_file s' off else view slab s off)"
    and "\<And>st'. twin_ok s st' \<Longrightarrow> twin_ok s' st' \<and> (\<forall>k < 4096. base s' st' k = base s st' k)"
    and "\<And>p. os_pages s' p = None \<longleftrightarrow> os_pages s p = None"
proof -
  obtain s1 where p: "publishes slab st 16384 s s1" and f: "os_file s' = os_file s1"
    and pg: "os_pages s' = (if starts_page st then (os_pages s)(unat slab div 4096 + heap_page slab st :=
      map_option discard (os_pages s (unat slab div 4096 + heap_page slab st))) else os_pages s)"
    using commit_state_publishes[OF assms] by blast
  have q: "heap_page slab st < HEAP_SIZE div 4096" using o by (intro heap_page_bound) linarith
  then have sp: "shows_page s (unat slab div 4096 + heap_page slab st) (heap_page slab st)" using H by (simp add: heap_shown_def)
  have apart: "unat pers div 4096 + r \<noteq> unat slab div 4096 + heap_page slab st" if "r < HEAP_SIZE div 4096" for r
    using regions_apart[OF R q that] by simp
  have share: "share_ok pers s'" using H apart unfolding heap_shown_def share_ok_def by (simp add: pg)
  have "shows_page s' (unat slab div 4096 + r) r" if "r < HEAP_SIZE div 4096" for r
    using H that sp by (auto simp: heap_shown_def shows_page_def pg discard_def split: option.splits if_splits)
  then show H': "heap_shown pers slab s'" using share by (simp add: heap_shown_def)
  show fl: "os_file s' off = os_file s off \<or> os_file s' off = view slab s off" if "off < HEAP_SIZE" for off
    using p by (auto simp: publishes_def f)
  show "os_file s' off = os_file s off" if "off \<notin> window slab st" for off
    using p that by (auto simp: publishes_def f window_def)
  show "os_file s' (heap_off slab st + k) = merge3 (base s st k) (view slab s (heap_off slab st + k)) (os_file s (heap_off slab st + k))"
    if "k < 4096" for k using p that by (simp add: publishes_def f)
  show "view slab s' off = (if starts_page st \<and> off div 4096 = heap_page slab st then os_file s' off else view slab s off)"
    if off: "off < HEAP_SIZE" for off
  proof (cases "starts_page st \<and> off div 4096 = heap_page slab st")
    case True
    then have "4096 * heap_page slab st + off mod 4096 = off" by (metis mult_div_mod_eq)
    with True show ?thesis using sp by (auto simp: view_def byte_at_def page_byte_def shows_page_def pg discard_def split: option.splits)
  next
    case False
    have "os_file s1 off = os_file s off \<or> os_file s1 off = view slab s off" using fl[OF off] by (simp add: f)
    with view_file[OF H off _ this] p have "view slab s1 off = view slab s off" by (simp add: publishes_def)
    moreover have "os_pages s' (unat slab div 4096 + off div 4096) = os_pages s1 (unat slab div 4096 + off div 4096)"
      using False p by (auto simp: pg publishes_def)
    then have "view slab s' off = view slab s1 off"
      by (simp add: view_def byte_at_def page_byte_file[OF f] split: option.split)
    ultimately show ?thesis using False by auto
  qed
  show "twin_ok s' st' \<and> (\<forall>k < 4096. base s' st' k = base s st' k)" if t: "twin_ok s st'" for st'
  proof -
    obtain tp where tp: "os_pages s (unat (ps_twin st') div 4096) = Some tp" "pg_backing tp = Anonymous" using t by (auto simp: twin_ok_def)
    then have "unat (ps_twin st') div 4096 \<noteq> unat slab div 4096 + heap_page slab st" using sp by (auto simp: shows_page_def)
    then have same: "os_pages s' (unat (ps_twin st') div 4096) = os_pages s (unat (ps_twin st') div 4096)" by (simp add: pg)
    have "twin_ok s' st'" using t same by (simp add: twin_ok_def)
    then show ?thesis using tp same by (auto simp: base_def byte_at_def page_byte_def split: option.split)
  qed
  show "os_pages s' p = None \<longleftrightarrow> os_pages s p = None" for p using sp by (auto simp: pg)
qed

section \<open>A whole commit\<close>

definition states_ok :: "u64 \<Rightarrow> os \<Rightarrow> pagestate list \<Rightarrow> bool" where
  "states_ok slab s sts \<longleftrightarrow> (\<forall>st \<in> set sts. heap_off slab st + 16384 \<le> HEAP_SIZE \<and> twin_ok s st)"

text \<open>
  Between two moments of a commit: a byte of the file keeps its value or takes what the process saw, and the process sees
  what it saw or the file. \<open>ws\<close> are the states that were visited.
\<close>

definition commit_moves :: "u64 \<Rightarrow> u64 \<Rightarrow> pagestate list \<Rightarrow> os \<Rightarrow> os \<Rightarrow> bool" where
  "commit_moves pers slab ws s s' \<longleftrightarrow> heap_shown pers slab s' \<and>
     (\<forall>off < HEAP_SIZE. os_file s' off \<in> {os_file s off, view slab s off} \<and> view slab s' off \<in> {view slab s off, os_file s' off} \<and>
        ((\<forall>st \<in> set ws. ps_active st \<longrightarrow> off \<notin> window slab st) \<longrightarrow> os_file s' off = os_file s off) \<and>
        ((\<forall>st \<in> set ws. ps_active st \<and> starts_page st \<longrightarrow> off div 4096 \<noteq> heap_page slab st) \<longrightarrow> view slab s' off = view slab s off)) \<and>
     (\<forall>st'. twin_ok s st' \<longrightarrow> twin_ok s' st' \<and> (\<forall>k < 4096. base s' st' k = base s st' k)) \<and>
     (\<forall>p. os_pages s' p = None \<longleftrightarrow> os_pages s p = None)"

lemma commit_moves_one:
  assumes "regions_ok pers slab" "heap_shown pers slab s" "states_ok slab s [st]" "commit_state pers slab st s = Inr s'"
  shows "commit_moves pers slab [st] s s'"
proof (cases "ps_active st")
  case True
  have "twin_ok s st" "heap_off slab st + 16384 \<le> HEAP_SIZE" using assms(3) by (simp_all add: states_ok_def)
  note e = commit_state_effect[OF assms(1,2) this True assms(4)]
  show ?thesis using e(1,2,3,5,6,7) True unfolding commit_moves_def by auto
next
  case False
  then show ?thesis using assms(2,4) by (simp add: commit_state_def commit_moves_def)
qed

lemma commit_moves_trans:
  assumes "commit_moves pers slab xs s s1" "commit_moves pers slab ys s1 s2"
  shows "commit_moves pers slab (xs @ ys) s s2"
proof -
  have "os_file s2 off \<in> {os_file s off, view slab s off} \<and> view slab s2 off \<in> {view slab s off, os_file s2 off}" if "off < HEAP_SIZE" for off
    using assms that unfolding commit_moves_def by (smt (verit) insert_iff empty_iff)
  then show ?thesis using assms unfolding commit_moves_def by simp
qed

lemma states_ok_moves: "states_ok slab s sts \<Longrightarrow> commit_moves pers slab ws s s' \<Longrightarrow> states_ok slab s' sts"
  unfolding states_ok_def commit_moves_def by blast

lemma commit_moves_all:
  assumes "regions_ok pers slab" "heap_shown pers slab s" "states_ok slab s sts" "foldE (commit_state pers slab) sts s = Inr s'"
  shows "commit_moves pers slab sts s s'"
  using assms(2-)
proof (induction sts arbitrary: s)
  case Nil
  then show ?case by (simp add: commit_moves_def)
next
  case (Cons st sts)
  then obtain s1 where s1: "commit_state pers slab st s = Inr s1" "foldE (commit_state pers slab) sts s1 = Inr s'"
    by (auto simp: bindE_eq_Inr)
  have m: "commit_moves pers slab [st] s s1"
    by (rule commit_moves_one[OF assms(1) Cons.prems(1) _ s1(1)]) (use Cons.prems(2) in \<open>simp add: states_ok_def\<close>)
  have "commit_moves pers slab sts s1 s'"
    by (rule Cons.IH[OF _ states_ok_moves[OF _ m] s1(2)]) (use m Cons.prems(2) in \<open>simp_all add: commit_moves_def states_ok_def\<close>)
  from commit_moves_trans[OF m this] show ?case by simp
qed

text \<open>The pages of the heap after a commit.\<close>

lemma commit_pages:
  assumes "regions_ok pers slab" "heap_shown pers slab s" "states_ok slab s sts" "foldE (commit_state pers slab) sts s = Inr s'"
  shows "os_pages s' (unat slab div 4096 + r) =
    (if \<exists>st \<in> set sts. ps_active st \<and> starts_page st \<and> heap_page slab st = r then map_option discard (os_pages s (unat slab div 4096 + r))
     else os_pages s (unat slab div 4096 + r))"
  using assms(2-)
proof (induction sts arbitrary: s)
  case (Cons st sts)
  then obtain s1 where s1: "commit_state pers slab st s = Inr s1" "foldE (commit_state pers slab) sts s1 = Inr s'"
    by (auto simp: bindE_eq_Inr)
  have ok: "states_ok slab s [st]" "states_ok slab s sts" using Cons.prems(2) by (simp_all add: states_ok_def)
  have m: "commit_moves pers slab [st] s s1" by (rule commit_moves_one[OF assms(1) Cons.prems(1) ok(1) s1(1)])
  then have IH: "os_pages s' (unat slab div 4096 + r) =
    (if \<exists>st \<in> set sts. ps_active st \<and> starts_page st \<and> heap_page slab st = r then map_option discard (os_pages s1 (unat slab div 4096 + r))
     else os_pages s1 (unat slab div 4096 + r))"
    by (intro Cons.IH[OF _ states_ok_moves[OF ok(2) m] s1(2)]) (simp add: commit_moves_def)
  have one: "os_pages s1 (unat slab div 4096 + r) = (if ps_active st \<and> starts_page st \<and> heap_page slab st = r
      then map_option discard (os_pages s (unat slab div 4096 + r)) else os_pages s (unat slab div 4096 + r))"
  proof (cases "ps_active st")
    case True
    have "twin_ok s st" "heap_off slab st + 16384 \<le> HEAP_SIZE" using ok(1) by (simp_all add: states_ok_def)
    from commit_state_publishes[OF assms(1) Cons.prems(1) this True s1(1)] show ?thesis using True by auto
  next
    case False
    then show ?thesis using s1(1) by (simp add: commit_state_def)
  qed
  have "map_option discard (map_option discard x) = map_option discard x" for x by (cases x) (simp_all add: discard_def)
  then show ?case using IH one by auto
qed simp

text \<open>A page that is recorded at its start.\<close>

lemma commit_page:
  assumes R: "regions_ok pers slab" and H: "heap_shown pers slab s" and S: "states_ok slab s sts"
    and D: "distinct (map ps_addr (filter starts_page sts))" and c: "foldE (commit_state pers slab) sts s = Inr s'"
    and st: "st \<in> set sts" "ps_active st" "starts_page st" "off div 4096 = heap_page slab st"
  shows "view slab s' off = os_file s' off"
    and "view slab s off \<noteq> base s st (off mod 4096) \<Longrightarrow> os_file s' off = view slab s off"
    and "(\<And>st'. st' \<in> set sts \<Longrightarrow> ps_active st' \<Longrightarrow> off \<in> window slab st' \<Longrightarrow> st' = st) \<Longrightarrow>
      os_file s' off = merge3 (base s st (off mod 4096)) (view slab s off) (os_file s off)"
proof -
  have oh: "heap_off slab st + 16384 \<le> HEAP_SIZE" and T: "twin_ok s st" using S st(1) by (auto simp: states_ok_def)
  then have "heap_off slab st mod 4096 = 0" using heap_off_page(2)[OF R, of st] st(3) by simp
  then have ho: "heap_off slab st = 4096 * heap_page slab st" by (auto simp: heap_page_def heap_off_def)
  have off: "heap_off slab st + off mod 4096 = off" unfolding ho st(4)[symmetric] by simp
  have offh: "off < HEAP_SIZE" using oh mod_less_divisor[of 4096 off] off by linarith
  obtain xs ys where sts: "sts = xs @ st # ys" using st(1) by (auto simp: in_set_conv_decomp)
  obtain s1 s2 where s1: "foldE (commit_state pers slab) xs s = Inr s1" "commit_state pers slab st s1 = Inr s2"
    "foldE (commit_state pers slab) ys s2 = Inr s'"
    using c by (auto simp: sts foldE_append bindE_eq_Inr)
  have ok: "states_ok slab s xs" "states_ok slab s [st]" "states_ok slab s ys" using S by (auto simp: sts states_ok_def)
  have m1: "commit_moves pers slab xs s s1" by (rule commit_moves_all[OF R H ok(1) s1(1)])
  then have H1: "heap_shown pers slab s1" by (simp add: commit_moves_def)
  have m2: "commit_moves pers slab [st] s1 s2" by (rule commit_moves_one[OF R H1 states_ok_moves[OF ok(2) m1] s1(2)])
  then have H2: "heap_shown pers slab s2" by (simp add: commit_moves_def)
  have m3: "commit_moves pers slab ys s2 s'"
    by (rule commit_moves_all[OF R H2 states_ok_moves[OF states_ok_moves[OF ok(3) m1] m2] s1(3)])
  have t1: "twin_ok s1 st" "base s1 st (off mod 4096) = base s st (off mod 4096)" using m1 T by (auto simp: commit_moves_def)
  note e = commit_state_effect[OF R H1 t1(1) oh st(2) s1(2)]
  have "off div 4096 \<noteq> heap_page slab st'" if "st' \<in> set xs" "starts_page st'" for st'
  proof
    assume "off div 4096 = heap_page slab st'"
    moreover have "heap_off slab st' + 16384 \<le> HEAP_SIZE" using S that(1) by (auto simp: sts states_ok_def)
    then have "heap_off slab st' = 4096 * heap_page slab st'"
      using heap_off_page(2)[OF R, of st'] that(2) by (auto simp: heap_page_def heap_off_def)
    ultimately have "heap_off slab st' = heap_off slab st" using ho st(4) by simp
    then have "ps_addr st' = ps_addr st" by (metis heap_off_addr)
    then show False using D that st(3) by (auto simp: sts image_iff)
  qed
  then have "\<forall>st' \<in> set xs. ps_active st' \<and> starts_page st' \<longrightarrow> off div 4096 \<noteq> heap_page slab st'" by blast
  then have v1: "view slab s1 off = view slab s off" using m1 offh unfolding commit_moves_def by blast
  have f2: "os_file s2 off = merge3 (base s st (off mod 4096)) (view slab s off) (os_file s1 off)"
    using e(4)[of "off mod 4096"] t1(2) v1 off by simp
  have v2: "view slab s2 off = os_file s2 off" using e(5)[OF offh] st(3,4) by simp
  have "os_file s' off \<in> {os_file s2 off, view slab s2 off} \<and> view slab s' off \<in> {view slab s2 off, os_file s' off}"
    using m3 offh unfolding commit_moves_def by blast
  then have f3: "os_file s' off = os_file s2 off" and "view slab s' off = os_file s' off" using v2 by auto
  then show "view slab s' off = os_file s' off" by simp
  show "os_file s' off = view slab s off" if "view slab s off \<noteq> base s st (off mod 4096)" using f2 f3 that by (simp add: merge3_def)
  show "os_file s' off = merge3 (base s st (off mod 4096)) (view slab s off) (os_file s off)"
    if w: "\<And>st'. st' \<in> set sts \<Longrightarrow> ps_active st' \<Longrightarrow> off \<in> window slab st' \<Longrightarrow> st' = st"
  proof -
    have "st \<notin> set xs" using D st(3) by (auto simp: sts)
    moreover have "set xs \<subseteq> set sts" by (auto simp: sts)
    ultimately have "\<forall>st' \<in> set xs. ps_active st' \<longrightarrow> off \<notin> window slab st'" using w by blast
    then have "os_file s1 off = os_file s off" using m1 offh unfolding commit_moves_def by blast
    then show ?thesis using f2 f3 by simp
  qed
qed

section \<open>The other operations\<close>

text \<open>What every operation keeps of the mappings: heap pages, twins with their contents, and the set of mapped pages.\<close>

definition keeps :: "os \<Rightarrow> os \<Rightarrow> bool" where
  "keeps s s' \<longleftrightarrow> (\<forall>p. os_pages s' p = None \<longleftrightarrow> os_pages s p = None) \<and>
     (\<forall>st. twin_ok s st \<longrightarrow> twin_ok s' st \<and> (\<forall>k < 4096. base s' st k = base s st k))"

lemma keeps_refl [simp]: "keeps s s"
  by (simp add: keeps_def)

lemma keeps_trans: "keeps s s1 \<Longrightarrow> keeps s1 s2 \<Longrightarrow> keeps s s2"
  unfolding keeps_def by metis

lemma keeps_moves: "commit_moves pers slab ws s s' \<Longrightarrow> keeps s s'"
  unfolding commit_moves_def keeps_def by blast

text \<open>Changing one page of the heap, and the file.\<close>

lemma heap_page_change:
  assumes R: "regions_ok pers slab" and H: "heap_shown pers slab s" and q: "q < HEAP_SIZE div 4096"
    and s': "\<And>p. os_pages s' p = (if p = unat slab div 4096 + q then Some pg else os_pages s p)"
    and pg: "pg_backing pg = FilePrivate (4096 * q) \<or> pg_backing pg = FileShared (4096 * q) \<and> pg_copy pg = None"
  shows "heap_shown pers slab s' \<and> keeps s s'"
proof -
  have sp: "shows_page s (unat slab div 4096 + q) q" using H q by (simp add: heap_shown_def)
  have apart: "unat pers div 4096 + r \<noteq> unat slab div 4096 + q" if "r < HEAP_SIZE div 4096" for r
    using regions_apart[OF R q that] by simp
  have "share_ok pers s'" using H apart unfolding heap_shown_def share_ok_def by (simp add: s')
  moreover have "shows_page s' (unat slab div 4096 + r) r" if "r < HEAP_SIZE div 4096" for r
    using H that pg by (cases "r = q") (auto simp: heap_shown_def shows_page_def s')
  ultimately have h: "heap_shown pers slab s'" by (simp add: heap_shown_def)
  have "twin_ok s' st \<and> (\<forall>k < 4096. base s' st k = base s st k)" if t: "twin_ok s st" for st
  proof -
    obtain tp where tp: "os_pages s (unat (ps_twin st) div 4096) = Some tp" "pg_backing tp = Anonymous" using t by (auto simp: twin_ok_def)
    then have "unat (ps_twin st) div 4096 \<noteq> unat slab div 4096 + q" using sp by (auto simp: shows_page_def)
    then have same: "os_pages s' (unat (ps_twin st) div 4096) = os_pages s (unat (ps_twin st) div 4096)" by (simp add: s')
    have "twin_ok s' st" using t same by (simp add: twin_ok_def)
    then show ?thesis using tp same by (auto simp: base_def byte_at_def page_byte_def split: option.split)
  qed
  moreover have "os_pages s' p = None \<longleftrightarrow> os_pages s p = None" for p using sp by (auto simp: s' shows_page_def split: option.splits)
  ultimately show ?thesis using h by (simp add: keeps_def)
qed

lemma file_change: "heap_shown pers slab s \<Longrightarrow> os_pages s' = os_pages s \<Longrightarrow> heap_shown pers slab s' \<and> keeps s s'"
proof -
  assume a: "heap_shown pers slab s" "os_pages s' = os_pages s"
  have "twin_ok s' st = twin_ok s st" for st by (simp add: twin_ok_def a(2))
  then show ?thesis using a twin_file[OF _ _ a(2)] by (simp add: heap_shown_pages[OF a(2)] keeps_def)
qed

lemma heap_page_at:
  assumes "regions_ok pers slab" "off < HEAP_SIZE"
  shows "unat (slab + of_nat off) div 4096 = unat slab div 4096 + off div 4096" "unat (slab + of_nat off) mod 4096 = off mod 4096"
    "off div 4096 < HEAP_SIZE div 4096" "unat (slab + of_nat off) = unat slab + off"
proof -
  note r = regions_slab[OF assms(1)]
  show u: "unat (slab + of_nat off) = unat slab + off" using r(2) assms(2) by (intro unat_offset) linarith
  show "unat (slab + of_nat off) div 4096 = unat slab div 4096 + off div 4096" "unat (slab + of_nat off) mod 4096 = off mod 4096"
    by (simp_all only: u aligned_div[OF r(1)] aligned_mod[OF r(1)])
  show "off div 4096 < HEAP_SIZE div 4096" using assms(2) by (simp add: HEAP_SIZE_def)
qed

lemma page_off: "4096 * (off div 4096) + off mod 4096 = (off::nat)"
  by simp

text \<open>A store of the process that does not fault.\<close>

lemma heap_write:
  assumes R: "regions_ok pers slab" and H: "heap_shown pers slab s" and off: "off < HEAP_SIZE"
    and w: "os_write (slab + of_nat off) v s = Inr s'"
  shows "heap_shown pers slab s' \<and> keeps s s'"
    and "\<And>x. x < HEAP_SIZE \<Longrightarrow> view slab s' x = (if x = off then v else view slab s x)"
    and "\<And>x. x \<noteq> off \<Longrightarrow> os_file s' x = os_file s x"
proof -
  note a = heap_page_at[OF R off]
  let ?p = "unat slab div 4096 + off div 4096"
  obtain pg where pg: "os_pages s ?p = Some pg"
    and b: "pg_backing pg = FilePrivate (4096 * (off div 4096)) \<or> pg_backing pg = FileShared (4096 * (off div 4096)) \<and> pg_copy pg = None"
    using H a(3) by (auto simp: heap_shown_def shows_page_def split: option.splits)
  have c: "pg_backing pg = FilePrivate (4096 * (off div 4096)) \<and>
      s' = s\<lparr>os_pages := (os_pages s)(?p \<mapsto> pg\<lparr>pg_copy := Some ((page_byte s pg)(off mod 4096 := v))\<rparr>)\<rparr> \<or>
    pg_backing pg = FileShared (4096 * (off div 4096)) \<and> pg_copy pg = None \<and> s' = s\<lparr>os_file := (os_file s)(off := v)\<rparr>"
    using w b unfolding os_write_def a(1,2) pg by (auto simp: page_off split: if_splits)
  then show "os_file s' x = os_file s x" if "x \<noteq> off" for x using that by auto
  have v: "view slab s x = page_byte s pg (x mod 4096)" if "x div 4096 = off div 4096" for x
    using that pg by (simp add: view_def byte_at_def)
  have "view slab s' x = (if x = off then v else view slab s x)" if x: "x < HEAP_SIZE" "x div 4096 = off div 4096" for x
  proof -
    have "x = off \<longleftrightarrow> x mod 4096 = off mod 4096" using x(2) by (metis page_off)
    moreover have "4096 * (off div 4096) + x mod 4096 = x" using page_off[of x] x(2) by simp
    ultimately show ?thesis using c pg v[OF x(2)] x(2)
      by (elim disjE conjE) (auto simp: view_def byte_at_def page_byte_def page_off)
  qed
  moreover have "view slab s' x = view slab s x" if x: "x < HEAP_SIZE" "x div 4096 \<noteq> off div 4096" for x
  proof -
    have "shows_page s (unat slab div 4096 + x div 4096) (x div 4096)" using H heap_page_at(3)[OF R x(1)] by (simp add: heap_shown_def)
    moreover have "4096 * (x div 4096) + x mod 4096 \<noteq> off" using x(2) by auto
    ultimately show ?thesis using c x(2)
      by (elim disjE conjE) (auto simp: view_def byte_at_def page_byte_def shows_page_def split: option.splits)
  qed
  ultimately show "view slab s' x = (if x = off then v else view slab s x)" if "x < HEAP_SIZE" for x using that by (cases "x div 4096 = off div 4096") auto
  from c show "heap_shown pers slab s' \<and> keeps s s'"
  proof (elim disjE conjE)
    assume p: "pg_backing pg = FilePrivate (4096 * (off div 4096))"
      "s' = s\<lparr>os_pages := (os_pages s)(?p \<mapsto> pg\<lparr>pg_copy := Some ((page_byte s pg)(off mod 4096 := v))\<rparr>)\<rparr>"
    show ?thesis
      by (rule heap_page_change[OF R H a(3), of s' "pg\<lparr>pg_copy := Some ((page_byte s pg)(off mod 4096 := v))\<rparr>"]) (use p in auto)
  next
    assume p: "s' = s\<lparr>os_file := (os_file s)(off := v)\<rparr>"
    show ?thesis by (rule file_change[OF H]) (simp add: p)
  qed
qed

text \<open>Mapping pages of the heap privately again, which drops private copies.\<close>

lemma map_private:
  assumes R: "regions_ok pers slab" and H: "heap_shown pers slab s" and o: "o' mod 4096 = 0" "o' + n \<le> HEAP_SIZE"
  shows "heap_shown pers slab (snd (os_map_file FilePrivate w (slab + of_nat o') n o' s)) \<and> keeps s (snd (os_map_file FilePrivate w (slab + of_nat o') n o' s))"
proof (cases "n = 0")
  case True
  then show ?thesis using H by (simp add: os_map_file_def)
next
  case False
  define s' where "s' = snd (os_map_file FilePrivate w (slab + of_nat o') n o' s)"
  note a = heap_page_at[OF R, of o']
  have "o' < HEAP_SIZE" using False o(2) by linarith
  note a = heap_page_at[OF R this]
  let ?in = "\<lambda>p. unat slab div 4096 + o' div 4096 \<le> p \<and> p < unat slab div 4096 + o' div 4096 + (n + 4095) div 4096"
  let ?pg = "\<lambda>p. \<lparr>pg_backing = FilePrivate (4096 * (p - unat slab div 4096)), pg_copy = None, pg_write = w\<rparr>"
  have top: "o' div 4096 + (n + 4095) div 4096 \<le> HEAP_SIZE div 4096"
  proof -
    obtain d where d: "o' = 4096 * d" using o(1) by (auto simp: mod_eq_0_iff_dvd)
    have "n + 4095 < 4096 * (HEAP_SIZE div 4096 - d + 1)" using o(2) d by (auto simp: HEAP_SIZE_def)
    then have "(n + 4095) div 4096 < HEAP_SIZE div 4096 - d + 1" by (simp add: less_mult_imp_div_less mult.commute)
    moreover have "d \<le> HEAP_SIZE div 4096" using o(2) d by (auto simp: HEAP_SIZE_def)
    ultimately show ?thesis using d by auto
  qed
  have s': "os_pages s' p = (if ?in p then Some (?pg p) else os_pages s p)" for p
  proof -
    have e: "o' + (p - (unat slab div 4096 + o' div 4096)) * 4096 = 4096 * (p - unat slab div 4096)" if "unat slab div 4096 + o' div 4096 \<le> p"
      using o(1) that by (auto simp: algebra_simps elim!: dvdE simp: mod_eq_0_iff_dvd)
    have "unat (slab + of_nat o') mod 4096 = 0" using a(2) o(1) by simp
    then show ?thesis using False o(1) e unfolding s'_def os_map_file_def by (simp add: a(1))
  qed
  have inq: "?in p \<Longrightarrow> \<exists>q < HEAP_SIZE div 4096. p = unat slab div 4096 + q" for p
    by (rule exI[of _ "p - unat slab div 4096"]) (use top in linarith)
  have shown: "\<exists>pg. os_pages s p = Some pg \<and> pg_backing pg \<noteq> Anonymous" if i: "?in p" for p
  proof -
    obtain q where "q < HEAP_SIZE div 4096" "p = unat slab div 4096 + q" using inq[OF i] by blast
    then have "shows_page s p q" using H by (simp add: heap_shown_def)
    then show ?thesis by (auto simp: shows_page_def split: option.splits)
  qed
  have "share_ok pers s'"
  proof -
    have "\<not> ?in (unat pers div 4096 + r)" if "r < HEAP_SIZE div 4096" for r
      using inq[of "unat pers div 4096 + r"] regions_apart[OF R _ that] by metis
    then have "os_pages s' (unat pers div 4096 + r) = os_pages s (unat pers div 4096 + r)" if "r < HEAP_SIZE div 4096" for r
      using that unfolding s' by metis
    then show ?thesis using H unfolding heap_shown_def share_ok_def by simp
  qed
  moreover have "shows_page s' (unat slab div 4096 + r) r" if "r < HEAP_SIZE div 4096" for r
    using H that by (cases "?in (unat slab div 4096 + r)") (auto simp: heap_shown_def shows_page_def s')
  moreover have "twin_ok s' st \<and> (\<forall>k < 4096. base s' st k = base s st k)" if t: "twin_ok s st" for st
  proof -
    obtain tp where tp: "os_pages s (unat (ps_twin st) div 4096) = Some tp" "pg_backing tp = Anonymous" using t by (auto simp: twin_ok_def)
    then have "\<not> ?in (unat (ps_twin st) div 4096)" using shown by force
    then have same: "os_pages s' (unat (ps_twin st) div 4096) = os_pages s (unat (ps_twin st) div 4096)" unfolding s' by metis
    have "twin_ok s' st" using t same by (simp add: twin_ok_def)
    then show ?thesis using tp same by (auto simp: base_def byte_at_def page_byte_def split: option.split)
  qed
  moreover have "os_pages s' p = None \<longleftrightarrow> os_pages s p = None" for p using shown[of p] unfolding s' by auto
  ultimately show ?thesis unfolding s'_def[symmetric] by (simp add: heap_shown_def keeps_def)
qed

text \<open>The copies that a fault makes.\<close>

lemma read_page:
  assumes "unat A mod 4096 = 0" "unat A + 4096 \<le> 2 ^ 64" "os_pages s (unat A div 4096) = Some pg" "k < 4096"
  shows "os_read s (A + of_nat k) = Inr (page_byte s pg k)"
proof -
  have "unat A + k < 2 ^ 64" using assms(2,4) by linarith
  from read_at[OF assms(1) this] show ?thesis using assms(3,4) by (simp add: byte_at_def)
qed

definition put_page :: "nat \<Rightarrow> page \<Rightarrow> os \<Rightarrow> os" where
  "put_page p pg s = s\<lparr>os_pages := (os_pages s)(p \<mapsto> pg)\<rparr>"

lemma put_page_simps [simp]:
  "os_pages (put_page p pg s) x = (if x = p then Some pg else os_pages s x)" "os_file (put_page p pg s) = os_file s"
  "put_page p pg (put_page p pg1 s) = put_page p pg s"
  by (simp_all add: put_page_def)

lemma put_page_bytes [simp]: "page_byte (put_page p pg s) pg1 k = page_byte s pg1 k"
  by (simp add: page_byte_def split: option.split backing.split)

lemma write_page:
  assumes "unat A mod 4096 = 0" "unat A + 4096 \<le> 2 ^ 64" "os_pages s (unat A div 4096) = Some pg" "k < 4096" "pg_write pg"
  shows "os_write (A + of_nat k) v s =
    (case pg_backing pg of FileShared off \<Rightarrow> Inr (s\<lparr>os_file := (os_file s)(off + k := v)\<rparr>)
     | _ \<Rightarrow> Inr (put_page (unat A div 4096) (pg\<lparr>pg_copy := Some ((page_byte s pg)(k := v))\<rparr>) s))"
proof -
  have "unat (A + of_nat k) = unat A + k" using assms(2,4) by (intro unat_offset) linarith
  then have d: "unat (A + of_nat k) div 4096 = unat A div 4096" "unat (A + of_nat k) mod 4096 = k"
    using assms(4) by (simp_all add: aligned_div[OF assms(1)] aligned_mod[OF assms(1)])
  show ?thesis using assms(3,5) unfolding os_write_def d put_page_def by (simp split: backing.split)
qed

lemma bindE_foldE_Nil: "bindE r (foldE f []) = r"
  by (cases r) simp_all

lemma memcpy_Suc:
  "os_memcpy D A (Suc n) s = bindE (os_memcpy D A n s) (\<lambda>t. bindE (os_read t (A + of_nat n)) (\<lambda>v. os_write (D + of_nat n) v t))"
  by (cases "os_memcpy D A n s") (simp_all add: os_memcpy_def foldE_append bindE_foldE_Nil)

lemma memcpy_self_private:
  assumes A: "unat A mod 4096 = 0" "unat A + 4096 \<le> 2 ^ 64" and pg: "os_pages s (unat A div 4096) = Some pg" "pg_write pg" "pg_backing pg = FilePrivate off"
    and n: "n < 4096"
  shows "os_memcpy A A (Suc n) s = Inr (put_page (unat A div 4096) (pg\<lparr>pg_copy := Some (page_byte s pg)\<rparr>) s)"
  using n
proof (induction n)
  case 0
  then show ?case using read_page[OF A pg(1), of 0] write_page[OF A pg(1) _ pg(2), of 0] pg(3) by (simp add: os_memcpy_def)
next
  case (Suc n)
  let ?s = "put_page (unat A div 4096) (pg\<lparr>pg_copy := Some (page_byte s pg)\<rparr>) s"
  have p: "os_pages ?s (unat A div 4096) = Some (pg\<lparr>pg_copy := Some (page_byte s pg)\<rparr>)" by simp
  have b: "page_byte ?s (pg\<lparr>pg_copy := Some (page_byte s pg)\<rparr>) = page_byte s pg" by (intro ext) (simp add: page_byte_def[of s "pg\<lparr>pg_copy := c\<rparr>" for c])
  have "os_read ?s (A + of_nat (Suc n)) = Inr (page_byte s pg (Suc n))" using read_page[OF A p, of "Suc n"] Suc.prems by (simp only: b)
  moreover have "os_write (A + of_nat (Suc n)) (page_byte s pg (Suc n)) ?s = Inr ?s"
    using write_page[OF A p Suc.prems] pg(2,3) unfolding b by simp
  ultimately show ?case unfolding memcpy_Suc[of A A "Suc n"] using Suc by simp
qed

lemma memcpy_self_shared:
  assumes A: "unat A mod 4096 = 0" "unat A + 4096 \<le> 2 ^ 64" and pg: "os_pages s (unat A div 4096) = Some pg" "pg_write pg" "pg_backing pg = FileShared off" "pg_copy pg = None"
    and n: "n \<le> 4096"
  shows "os_memcpy A A n s = Inr s"
  using n
proof (induction n)
  case (Suc n)
  have "page_byte s pg n = os_file s (off + n)" using pg(3,4) by (simp add: page_byte_def)
  then show ?case using Suc read_page[OF A pg(1), of n] write_page[OF A pg(1) _ pg(2), of n] pg(3) by (simp add: memcpy_Suc)
qed (simp add: os_memcpy_def)

lemma memcpy_twin:
  assumes A: "unat A mod 4096 = 0" "unat A + 4096 \<le> 2 ^ 64" and pg: "os_pages s (unat A div 4096) = Some pg"
    and D: "unat D mod 4096 = 0" "unat D + 4096 \<le> 2 ^ 64" and tp: "os_pages s (unat D div 4096) = Some tp" "pg_write tp" "pg_backing tp = Anonymous"
    and ne: "unat D div 4096 \<noteq> unat A div 4096" and n: "n < 4096"
  shows "os_memcpy D A (Suc n) s =
    Inr (put_page (unat D div 4096) (tp\<lparr>pg_copy := Some (\<lambda>k. if k \<le> n then page_byte s pg k else page_byte s tp k)\<rparr>) s)"
  using n
proof (induction n)
  case 0
  have "(page_byte s tp)(0 := page_byte s pg 0) = (\<lambda>k. if k \<le> 0 then page_byte s pg k else page_byte s tp k)" by auto
  then show ?case using read_page[OF A pg, of 0] write_page[OF D tp(1) _ tp(2), of 0] tp(3) by (simp add: os_memcpy_def)
next
  case (Suc n)
  define c where "c = (\<lambda>n k. if k \<le> n then page_byte s pg k else page_byte s tp k)"
  define t where "t = put_page (unat D div 4096) (tp\<lparr>pg_copy := Some (c n)\<rparr>) s"
  have p: "os_pages t (unat D div 4096) = Some (tp\<lparr>pg_copy := Some (c n)\<rparr>)" "os_pages t (unat A div 4096) = Some pg"
    using ne pg by (simp_all add: t_def)
  have b: "page_byte t (tp\<lparr>pg_copy := Some (c n)\<rparr>) = c n" by (intro ext) (simp add: page_byte_def)
  have "os_read t (A + of_nat (Suc n)) = Inr (page_byte s pg (Suc n))" using read_page[OF A p(2) Suc.prems] by (simp add: t_def)
  moreover have "(c n)(Suc n := page_byte s pg (Suc n)) = c (Suc n)" by (auto simp: c_def)
  then have "os_write (D + of_nat (Suc n)) (page_byte s pg (Suc n)) t = Inr (put_page (unat D div 4096) (tp\<lparr>pg_copy := Some (c (Suc n))\<rparr>) t)"
    using write_page[OF D p(1) Suc.prems] tp(2,3) unfolding b by simp
  moreover have "os_memcpy D A (Suc n) s = Inr t" using Suc unfolding t_def c_def by simp
  ultimately have "os_memcpy D A (Suc (Suc n)) s = Inr (put_page (unat D div 4096) (tp\<lparr>pg_copy := Some (c (Suc n))\<rparr>) s)"
    unfolding memcpy_Suc[of D A "Suc n"] by (simp add: t_def)
  then show ?case by (simp only: c_def)
qed

section \<open>The invariant\<close>

definition heap_inv :: "u64 \<Rightarrow> u64 \<Rightarrow> tmi_memory \<Rightarrow> bool" where
  "heap_inv pers slab m \<longleftrightarrow> tm_initialized m \<and> tm_slabStart m = slab \<and> tm_persistentMemory m = pers \<and>
     tm_slabEnd m = slab + of_nat HEAP_SIZE \<and>
     unat slab \<le> unat (tm_slabPos m) \<and> unat (tm_slabPos m) \<le> unat (tm_mmapPos m) \<and> unat (tm_mmapPos m) \<le> unat slab + HEAP_SIZE \<and>
     heap_shown pers slab (tm_os m) \<and> states_ok slab (tm_os m) (states_of m) \<and>
     distinct (map ps_addr (filter starts_page (states_of m))) \<and> distinct (map ps_twin (states_of m)) \<and>
     (\<forall>p. os_pages (tm_os m) p \<noteq> None \<longrightarrow> p < 2 ^ 51)"

lemma states_ok_keeps: "states_ok slab s sts \<Longrightarrow> keeps s s' \<Longrightarrow> states_ok slab s' sts"
  unfolding states_ok_def keeps_def by blast

text \<open>Operations that change the mappings and the file only.\<close>

lemma heap_inv_os:
  assumes "heap_inv pers slab m" "heap_shown pers slab s'" "keeps (tm_os m) s'" "tm_os m' = s'" "states_of m' = states_of m"
    and "tm_initialized m' = tm_initialized m" "tm_slabStart m' = tm_slabStart m" "tm_persistentMemory m' = tm_persistentMemory m"
      "tm_slabEnd m' = tm_slabEnd m" "tm_slabPos m' = tm_slabPos m" "tm_mmapPos m' = tm_mmapPos m"
  shows "heap_inv pers slab m'"
  using assms(1,2,4-) states_ok_keeps[OF _ assms(3)] assms(3) unfolding heap_inv_def keeps_def by simp

text \<open>Where a protectable address lies.\<close>

lemma protectable_off:
  assumes "regions_ok pers slab" "heap_inv pers slab m" "isProtectable a m"
  shows "unat (a - slab) < HEAP_SIZE" "a = slab + of_nat (unat (a - slab))"
proof -
  have e: "unat (slab + of_nat HEAP_SIZE) = unat slab + HEAP_SIZE" by (rule unat_offset) (use regions_slab(2)[OF assms(1)] in simp)
  have "slab \<le> a" "a < slab + of_nat HEAP_SIZE" using assms(2,3) by (simp_all add: isProtectable_def heap_inv_def)
  then have "unat (a - slab) = unat a - unat slab" "unat a < unat slab + HEAP_SIZE" "unat slab \<le> unat a"
    using e by (simp_all add: unat_sub word_less_nat_alt word_le_nat_alt)
  then show "unat (a - slab) < HEAP_SIZE" by linarith
  show "a = slab + of_nat (unat (a - slab))" by simp
qed

lemma align_heap:
  assumes "regions_ok pers slab" "off < HEAP_SIZE"
  shows "alignAddressToPage (slab + of_nat off) = slab + of_nat (4096 * (off div 4096))"
proof -
  have o: "4096 * (off div 4096) < HEAP_SIZE" using assms(2) by (simp add: HEAP_SIZE_def)
  have s: "unat slab = 4096 * (unat slab div 4096)" using regions_slab(1)[OF assms(1)] by (auto simp: mod_eq_0_iff_dvd)
  have "unat (alignAddressToPage (slab + of_nat off)) = (unat slab div 4096 + off div 4096) * 4096"
    by (simp only: unat_align heap_page_at(1)[OF assms])
  also have "\<dots> = unat (slab + of_nat (4096 * (off div 4096)))" using s unfolding heap_page_at(4)[OF assms(1) o] by simp
  finally show ?thesis by (simp only: word_unat_eq_iff)
qed

lemma find_state_Some: "find_state a sts = Some c \<Longrightarrow> c < length sts \<and> ps_addr (sts ! c) = a"
  by (auto simp: find_state_def find_Some_iff)

lemma find_state_None: "find_state a sts = None \<Longrightarrow> a \<notin> ps_addr ` set sts"
  by (auto simp: find_state_def find_None_iff in_set_conv_nth)

text \<open>Looking up the state of a page: afterwards it is in the table, and it was there or is new.\<close>

lemma getState_inv:
  assumes P: "placement_ok place" and R: "regions_ok pers slab" and inv: "heap_inv pers slab m"
    and a: "isProtectable a m" "unat (a - slab) + 16384 \<le> HEAP_SIZE"
    and g: "getState place a m = Inr (c, m1)" and tw: "ps_twin (states_of m1 ! c) \<noteq> - 1"
  shows "c < length (states_of m1) \<and> heap_inv pers slab m1 \<and>
    (ps_addr (states_of m1 ! c) = alignAddressToPage a \<or> ps_addr (states_of m1 ! c) = a) \<and> os_file (tm_os m1) = os_file (tm_os m) \<and>
    (\<forall>p. os_pages (tm_os m) p \<noteq> None \<longrightarrow> os_pages (tm_os m1) p = os_pages (tm_os m) p) \<and>
    (states_of m1 = states_of m \<or> states_of m1 = states_of m @ [states_of m1 ! c] \<and> ps_addr (states_of m1 ! c) = a \<and>
      alignAddressToPage a \<notin> ps_addr ` set (states_of m) \<and> place (tm_os m) = Some (ps_twin (states_of m1 ! c)))"
proof -
  obtain bytes sts where b: "tm_states m = Some (bytes, sts)" using g by (auto simp: getState_def split: option.splits)
  have sm: "states_of m = sts" by (simp add: states_of_def b)
  show ?thesis
  proof (cases "find_state (alignAddressToPage a) sts")
    case (Some c')
    then have "c' = c" "m1 = m" using g b by (auto simp: getState_def bindE_eq_Inr guardE_eq_Inr)
    then show ?thesis using find_state_Some[OF Some] inv sm by simp
  next
    case None
    obtain t s where ts: "os_map_anon place (tm_os m) = (t, s)" by (cases "os_map_anon place (tm_os m)")
    let ?st = "\<lparr>ps_addr = a, ps_twin = t, ps_active = False\<rparr>"
    have m1: "c = length sts" "m1 = m\<lparr>tm_os := s, tm_states := Some (bytes, sts @ [?st])\<rparr>"
      using g b None ts by (auto simp: getState_def bindE_eq_Inr guardE_eq_Inr)
    then have "t \<noteq> - 1" using tw by (simp add: states_of_def)
    then have pl: "place (tm_os m) = Some t"
      and s: "s = put_page (unat t div 4096) \<lparr>pg_backing = Anonymous, pg_copy = None, pg_write = True\<rparr> (tm_os m)"
      using ts by (auto simp: os_map_anon_def put_page_def split: option.splits)
    have t: "t \<noteq> 0" "unat t mod 4096 = 0" "unat t + 4096 \<le> 2 ^ 63" "os_pages (tm_os m) (unat t div 4096) = None"
      using P pl unfolding placement_ok_def by blast+
    have old: "os_pages s p = os_pages (tm_os m) p" if "os_pages (tm_os m) p \<noteq> None" for p using that t(4) by (auto simp: s)
    have H: "heap_shown pers slab (tm_os m)" and S: "states_ok slab (tm_os m) sts" using inv by (simp_all add: heap_inv_def sm)
    have "shows_page s p q" if "shows_page (tm_os m) p q" for p q
      using that old[of p] by (auto simp: shows_page_def split: option.splits)
    moreover have "share_ok pers s" using H old by (simp add: heap_shown_def share_ok_def)
    ultimately have H': "heap_shown pers slab s" using H by (simp add: heap_shown_def)
    have tk: "twin_ok s st \<and> ps_twin st \<noteq> t" if "twin_ok (tm_os m) st" for st
    proof -
      have e: "os_pages s (unat (ps_twin st) div 4096) = os_pages (tm_os m) (unat (ps_twin st) div 4096)"
        using that by (intro old) (auto simp: twin_ok_def)
      have "ps_twin st \<noteq> t" using that t(4) by (auto simp: twin_ok_def)
      then show ?thesis using that unfolding twin_ok_def e by blast
    qed
    have "states_ok slab s (sts @ [?st])"
      using S tk a(2) t(1-3) by (auto simp: states_ok_def heap_off_def) (simp add: twin_ok_def s)
    moreover have "distinct (map ps_addr (filter starts_page (sts @ [?st])))"
    proof -
      have "alignAddressToPage a = a" if "unat a mod 4096 = 0" using that by (metis unat_align word_unat_eq_iff div_mod_decomp add.right_neutral)
      then show ?thesis using inv find_state_None[OF None] by (auto simp: heap_inv_def sm starts_page_def)
    qed
    moreover have "distinct (map ps_twin (sts @ [?st]))" using inv S tk by (auto simp: heap_inv_def sm states_ok_def)
    moreover have "unat t div 4096 < 2 ^ 51" using t(3) by (simp add: less_mult_imp_div_less)
    ultimately have "heap_inv pers slab m1" using inv H' by (simp add: heap_inv_def m1(2) states_of_def s)
    moreover have "states_of m1 = sts @ [?st]" by (simp add: m1(2) states_of_def)
    ultimately show ?thesis using find_state_None[OF None] old pl by (simp add: m1(1) sm) (simp add: m1(2) s)
  qed
qed

text \<open>Filling a twin.\<close>

lemma twin_page_change:
  assumes H: "heap_shown pers slab s" and tp: "os_pages s T = Some tp" "pg_backing tp = Anonymous" "pg_write tp"
    and s'_def: "s' = put_page T (tp\<lparr>pg_copy := Some c\<rparr>) s"
  shows "heap_shown pers slab s'" "\<And>p. os_pages s' p = None \<longleftrightarrow> os_pages s p = None" "\<And>st. twin_ok s st \<Longrightarrow> twin_ok s' st"
    "\<And>st k. k < 4096 \<Longrightarrow> unat (ps_twin st) div 4096 \<noteq> T \<Longrightarrow> twin_ok s st \<Longrightarrow> base s' st k = base s st k"
    "\<And>q. q < HEAP_SIZE div 4096 \<Longrightarrow> os_pages s' (unat slab div 4096 + q) = os_pages s (unat slab div 4096 + q)"
    "\<And>x. x < HEAP_SIZE \<Longrightarrow> view slab s' x = view slab s x"
proof -
  have heap: "unat slab div 4096 + q \<noteq> T" if "q < HEAP_SIZE div 4096" for q
  proof
    assume "unat slab div 4096 + q = T"
    then have "shows_page s T q" using H that by (auto simp: heap_shown_def)
    then show False using tp by (simp add: shows_page_def)
  qed
  then show pages: "os_pages s' (unat slab div 4096 + q) = os_pages s (unat slab div 4096 + q)" if "q < HEAP_SIZE div 4096" for q
    using that by (simp add: s'_def)
  have "unat pers div 4096 + q \<noteq> T" if "q < HEAP_SIZE div 4096" for q
    using H that tp(1,2) by (auto simp: heap_shown_def share_ok_def)
  then have "share_ok pers s'" using H by (simp add: heap_shown_def share_ok_def s'_def)
  then show "heap_shown pers slab s'" using H heap by (simp add: heap_shown_def shows_page_def s'_def)
  show "os_pages s' p = None \<longleftrightarrow> os_pages s p = None" for p using tp by (simp add: s'_def)
  show "twin_ok s' st" if "twin_ok s st" for st using that tp by (auto simp: twin_ok_def s'_def)
  show "base s' st k = base s st k" if "k < 4096" "unat (ps_twin st) div 4096 \<noteq> T" "twin_ok s st" for st k
    using that by (auto simp: base_def byte_at_def s'_def twin_ok_def split: option.split)
  show "view slab s' x = view slab s x" if "x < HEAP_SIZE" for x
  proof -
    have "x div 4096 < HEAP_SIZE div 4096" using that by (simp add: HEAP_SIZE_def)
    from pages[OF this] show ?thesis by (simp add: view_def byte_at_def s'_def split: option.split)
  qed
qed

text \<open>Making a page writable and forcing its copy.\<close>

lemma segv_page:
  assumes R: "regions_ok pers slab" and H: "heap_shown pers slab s" and q: "q < HEAP_SIZE div 4096"
    and c: "os_memcpy (slab + of_nat (4096 * q)) (slab + of_nat (4096 * q)) 8 (os_mprotect (slab + of_nat (4096 * q)) True s) = Inr s'"
  obtains pg where "s' = put_page (unat slab div 4096 + q) pg s" "pg_write pg" "heap_shown pers slab s'" "keeps s s'"
    "\<And>k. k < 4096 \<Longrightarrow> page_byte s' pg k = view slab s (4096 * q + k)" "\<And>x. x < HEAP_SIZE \<Longrightarrow> view slab s' x = view slab s x"
    "pg_copy pg = None \<Longrightarrow> pg_backing pg = FileShared (4096 * q)"
    "\<exists>pg0. os_pages s (unat slab div 4096 + q) = Some pg0 \<and> pg_backing pg = pg_backing pg0"
proof -
  let ?P = "unat slab div 4096 + q" and ?A = "slab + of_nat (4096 * q)"
  have o: "4096 * q < HEAP_SIZE" using q by (simp add: HEAP_SIZE_def)
  note a = heap_page_at[OF R o]
  have A: "unat ?A div 4096 = ?P" "unat ?A mod 4096 = 0" using a(1,2) by simp_all
  have AA: "unat ?A + 4096 \<le> 2 ^ 64" unfolding a(4) using q regions_slab(2)[OF R] by (simp add: HEAP_SIZE_def)
  obtain pg0 where pg0: "os_pages s ?P = Some pg0"
    and b: "pg_backing pg0 = FilePrivate (4096 * q) \<or> pg_backing pg0 = FileShared (4096 * q) \<and> pg_copy pg0 = None"
    using H q by (auto simp: heap_shown_def shows_page_def split: option.splits)
  let ?pg1 = "pg0\<lparr>pg_write := True\<rparr>" and ?s1 = "put_page ?P (pg0\<lparr>pg_write := True\<rparr>) s"
  have s1: "os_mprotect ?A True s = ?s1" unfolding os_mprotect_def A using A(2) pg0 by (simp add: put_page_def)
  have p1: "os_pages ?s1 (unat ?A div 4096) = Some ?pg1" unfolding A(1) by simp
  have b1: "page_byte ?s1 ?pg1 = page_byte s pg0" by (intro ext) (simp add: page_byte_def split: option.split backing.split)
  have e8: "8 = Suc 7" by simp
  have "\<exists>pg. s' = put_page ?P pg s \<and> pg_write pg \<and> pg_backing pg = pg_backing pg0 \<and> page_byte s' pg = page_byte s pg0 \<and>
      (pg_copy pg = None \<longrightarrow> pg_backing pg = FileShared (4096 * q)) \<and> (pg_backing pg = FileShared (4096 * q) \<longrightarrow> pg_copy pg = None)"
  proof (cases "pg_backing pg0 = FilePrivate (4096 * q)")
    case True
    then have "s' = put_page ?P (?pg1\<lparr>pg_copy := Some (page_byte s pg0)\<rparr>) s"
      using c memcpy_self_private[OF A(2) AA p1, of "4096 * q" 7] unfolding s1 e8 b1 A(1) by simp
    moreover have "page_byte s' (?pg1\<lparr>pg_copy := Some (page_byte s pg0)\<rparr>) = page_byte s pg0"
      by (intro ext) (simp add: page_byte_def[of s'])
    ultimately show ?thesis using True by (intro exI[of _ "?pg1\<lparr>pg_copy := Some (page_byte s pg0)\<rparr>"]) simp
  next
    case False
    then have "pg_backing pg0 = FileShared (4096 * q)" "pg_copy pg0 = None" using b by auto
    then have b: "pg_backing pg0 = FileShared (4096 * q)" "pg_copy pg0 = None" .
    then have "s' = ?s1" using c memcpy_self_shared[OF A(2) AA p1, of "4096 * q" 8] unfolding s1 by simp
    then show ?thesis using b b1 by (intro exI[of _ ?pg1]) simp
  qed
  then obtain pg where pg: "s' = put_page ?P pg s" "pg_write pg" "pg_backing pg = pg_backing pg0" "page_byte s' pg = page_byte s pg0"
    "pg_copy pg = None \<longrightarrow> pg_backing pg = FileShared (4096 * q)" "pg_backing pg = FileShared (4096 * q) \<longrightarrow> pg_copy pg = None"
    by (elim exE conjE) (rule that; assumption)
  have k: "heap_shown pers slab s' \<and> keeps s s'" by (rule heap_page_change[OF R H q, of s' pg]) (use pg b in auto)
  have v: "page_byte s' pg k = view slab s (4096 * q + k)" if "k < 4096" for k
    using that pg0 by (simp add: pg(4) view_def byte_at_def)
  have "view slab s' x = view slab s x" if "x < HEAP_SIZE" for x
  proof (cases "x div 4096 = q")
    case True
    then show ?thesis using pg0 pg(4) by (simp add: view_def byte_at_def pg(1))
  next
    case False
    then show ?thesis by (simp add: view_def byte_at_def pg(1) split: option.split)
  qed
  then show ?thesis using pg(3) pg0 by (intro that[OF pg(1,2) conjunct1[OF k] conjunct2[OF k] v _ pg(5)[rule_format]]) auto
qed

text \<open>Without a twin the handler does not get to its end: the page at the address -1 is not mapped.\<close>

lemma getState_failed:
  assumes P: "placement_ok place" and inv: "heap_inv pers slab m" and g: "getState place a m = Inr (c, m1)" and tw: "ps_twin (states_of m1 ! c) = - 1"
  shows "tm_os m1 = tm_os m"
proof -
  obtain bytes sts where b: "tm_states m = Some (bytes, sts)" using g by (auto simp: getState_def split: option.splits)
  show ?thesis
  proof (cases "find_state (alignAddressToPage a) sts")
    case (Some c')
    then show ?thesis using g b by (auto simp: getState_def err_simps)
  next
    case None
    obtain t s where ts: "os_map_anon place (tm_os m) = (t, s)" by (cases "os_map_anon place (tm_os m)")
    have m1: "c = length sts" "m1 = m\<lparr>tm_os := s, tm_states := Some (bytes, sts @ [\<lparr>ps_addr = a, ps_twin = t, ps_active = False\<rparr>])\<rparr>"
      using g b None ts by (auto simp: getState_def err_simps)
    have "t = - 1" using tw by (simp add: m1 states_of_def)
    moreover have "place (tm_os m) \<noteq> Some (- 1)"
    proof
      assume "place (tm_os m) = Some (- 1)"
      then have "unat (- 1 :: u64) + 4096 \<le> 2 ^ 63" using P unfolding placement_ok_def by blast
      then show False by (simp add: unsigned_minus_1_eq_mask mask_eq_exp_minus_1)
    qed
    ultimately show ?thesis using ts by (auto simp: os_map_anon_def m1(2) split: option.splits)
  qed
qed

lemma memcpy_nowhere:
  assumes "os_pages s (unat D div 4096) = None"
  shows "os_memcpy D A (Suc n) s \<noteq> Inr s'"
proof -
  have "[0..<Suc n] = 0 # [1..<Suc n]" by (simp add: upt_conv_Cons del: upt_Suc)
  then show ?thesis using assms by (auto simp: os_memcpy_def os_write_def err_simps simp del: upt_Suc)
qed

lemma same_twin_page: "twin_ok s st \<Longrightarrow> twin_ok s st' \<Longrightarrow> unat (ps_twin st) div 4096 = unat (ps_twin st') div 4096 \<Longrightarrow> ps_twin st = ps_twin st'"
  by (auto simp: twin_ok_def mod_eq_0_iff_dvd word_unat_eq_iff elim!: dvdE)

text \<open>The second half of the handler: copy and twin of a page whose state is in the table.\<close>

lemma segv_copies:
  assumes R: "regions_ok pers slab" and H: "heap_shown pers slab s" and q: "q < HEAP_SIZE div 4096" and T: "twin_ok s st"
    and s2: "os_memcpy (slab + of_nat (4096 * q)) (slab + of_nat (4096 * q)) 8 (os_mprotect (slab + of_nat (4096 * q)) True s) = Inr s2"
    and s3: "os_memcpy (ps_twin st) (slab + of_nat (4096 * q)) 4096 s2 = Inr s3"
  shows "heap_shown pers slab s3 \<and> os_file s3 = os_file s \<and> (\<forall>p. os_pages s3 p = None \<longleftrightarrow> os_pages s p = None) \<and>
      (\<forall>st. twin_ok s st \<longrightarrow> twin_ok s3 st)"
    and "\<And>x. x < HEAP_SIZE \<Longrightarrow> view slab s3 x = view slab s x"
    and "\<And>r. r < HEAP_SIZE div 4096 \<Longrightarrow> r \<noteq> q \<Longrightarrow> os_pages s3 (unat slab div 4096 + r) = os_pages s (unat slab div 4096 + r)"
    and "\<exists>pg0 pg. os_pages s (unat slab div 4096 + q) = Some pg0 \<and> os_pages s3 (unat slab div 4096 + q) = Some pg \<and> pg_write pg \<and>
      pg_backing pg = pg_backing pg0 \<and> (pg_copy pg = None \<longrightarrow> pg_backing pg = FileShared (4096 * q))"
    and "\<And>k. k < 4096 \<Longrightarrow> base s3 st k = view slab s (4096 * q + k)"
    and "\<And>st' k. twin_ok s st' \<Longrightarrow> ps_twin st' \<noteq> ps_twin st \<Longrightarrow> k < 4096 \<Longrightarrow> base s3 st' k = base s st' k"
proof -
  let ?A = "slab + of_nat (4096 * q)" and ?P = "unat slab div 4096 + q" and ?T = "unat (ps_twin st) div 4096"
  obtain pg pg0 where pg: "s2 = put_page ?P pg s" "pg_write pg" "heap_shown pers slab s2" "keeps s s2"
    "\<And>k. k < 4096 \<Longrightarrow> page_byte s2 pg k = view slab s (4096 * q + k)" "\<And>x. x < HEAP_SIZE \<Longrightarrow> view slab s2 x = view slab s x"
    and pg0: "os_pages s ?P = Some pg0" "pg_backing pg = pg_backing pg0" "pg_copy pg = None \<longrightarrow> pg_backing pg = FileShared (4096 * q)"
    using segv_page[OF R H q s2] by metis
  have T2: "twin_ok s2 st" using T pg(4) by (simp add: keeps_def)
  then obtain tp where tp: "os_pages s2 ?T = Some tp" "pg_backing tp = Anonymous" "pg_write tp" by (auto simp: twin_ok_def)
  have o: "4096 * q < HEAP_SIZE" using q by (simp add: HEAP_SIZE_def)
  note a = heap_page_at[OF R o]
  have A: "unat ?A div 4096 = ?P" "unat ?A mod 4096 = 0" using a(1,2) by simp_all
  have AA: "unat ?A + 4096 \<le> 2 ^ 64" unfolding a(4) using q regions_slab(2)[OF R] by (simp add: HEAP_SIZE_def)
  have DD: "unat (ps_twin st) mod 4096 = 0" "unat (ps_twin st) + 4096 \<le> 2 ^ 64" using T by (auto simp: twin_ok_def)
  have "shows_page s2 ?P q" using pg(3) q by (simp add: heap_shown_def)
  then have ne: "?T \<noteq> unat ?A div 4096" unfolding A(1) using tp by (auto simp: shows_page_def)
  have p2: "os_pages s2 (unat ?A div 4096) = Some pg" unfolding A(1) pg(1) by simp
  define c where "c = (\<lambda>k. if k \<le> 4095 then page_byte s2 pg k else page_byte s2 tp k)"
  have e: "(4096::nat) = Suc 4095" by simp
  have s3': "s3 = put_page ?T (tp\<lparr>pg_copy := Some c\<rparr>) s2"
    using memcpy_twin[OF A(2) AA p2 DD tp(1,3,2) ne, of 4095] s3 unfolding e c_def by simp
  note t = twin_page_change[OF pg(3) tp s3']
  show "heap_shown pers slab s3 \<and> os_file s3 = os_file s \<and> (\<forall>p. os_pages s3 p = None \<longleftrightarrow> os_pages s p = None) \<and> (\<forall>st. twin_ok s st \<longrightarrow> twin_ok s3 st)"
    using t(1,2,3) pg(4) by (auto simp: keeps_def) (simp add: s3' pg(1))
  show "view slab s3 x = view slab s x" if "x < HEAP_SIZE" for x using t(6)[OF that] pg(6)[OF that] by simp
  show "os_pages s3 (unat slab div 4096 + r) = os_pages s (unat slab div 4096 + r)" if "r < HEAP_SIZE div 4096" "r \<noteq> q" for r
    using t(5)[OF that(1)] that(2) by (simp add: pg(1))
  show "\<exists>pg0 pg. os_pages s ?P = Some pg0 \<and> os_pages s3 ?P = Some pg \<and> pg_write pg \<and> pg_backing pg = pg_backing pg0 \<and>
      (pg_copy pg = None \<longrightarrow> pg_backing pg = FileShared (4096 * q))"
    using t(5)[OF q] pg(2) pg0 by (intro exI[of _ pg0] exI[of _ pg]) (simp add: pg(1))
  show "base s3 st k = view slab s (4096 * q + k)" if "k < 4096" for k
  proof -
    have "page_byte s3 (tp\<lparr>pg_copy := Some c\<rparr>) k = c k" by (simp add: page_byte_def)
    then show ?thesis using that pg(5)[OF that] by (simp add: base_def byte_at_def s3') (simp add: c_def)
  qed
  show "base s3 st' k = base s st' k" if "twin_ok s st'" "ps_twin st' \<noteq> ps_twin st" "k < 4096" for st' k
    using t(4)[OF that(3), of st'] same_twin_page[OF that(1) T] that pg(4) by (auto simp: keeps_def)
qed

lemma active_update:
  assumes "c < length sts"
  shows "map ps_addr (filter starts_page (sts[c := (sts ! c)\<lparr>ps_active := b\<rparr>])) = map ps_addr (filter starts_page sts)"
    "map ps_twin (sts[c := (sts ! c)\<lparr>ps_active := b\<rparr>]) = map ps_twin sts"
proof -
  have "map ps_addr (filter starts_page xs) = filter (\<lambda>a. unat a mod 4096 = 0) (map ps_addr xs)" for xs
    by (simp add: filter_map comp_def starts_page_def[abs_def])
  moreover have "map ps_addr (sts[c := (sts ! c)\<lparr>ps_active := b\<rparr>]) = map ps_addr sts"
    using assms by (simp add: map_update list_update_same_conv)
  ultimately show "map ps_addr (filter starts_page (sts[c := (sts ! c)\<lparr>ps_active := b\<rparr>])) = map ps_addr (filter starts_page sts)" by simp
  show "map ps_twin (sts[c := (sts ! c)\<lparr>ps_active := b\<rparr>]) = map ps_twin sts"
    using assms by (simp add: map_update list_update_same_conv)
qed

text \<open>
  The handler as a whole: the state of the page, entry \<open>c\<close> of the table, is active, its twin holds what the process saw in the
  page, and the process sees the same as before.
\<close>

definition faulted :: "placement \<Rightarrow> u64 \<Rightarrow> u64 \<Rightarrow> tmi_memory \<Rightarrow> tmi_memory \<Rightarrow> pagestate list \<Rightarrow> nat \<Rightarrow> bool" where
  "faulted place slab a m m' sts c \<longleftrightarrow> (let q = unat (a - slab) div 4096 in
     c < length sts \<and> states_of m' = sts[c := (sts ! c)\<lparr>ps_active := True\<rparr>] \<and>
     (ps_addr (sts ! c) = alignAddressToPage a \<or> ps_addr (sts ! c) = a) \<and>
     (sts = states_of m \<or> sts = states_of m @ [sts ! c] \<and> ps_addr (sts ! c) = a \<and>
       alignAddressToPage a \<notin> ps_addr ` set (states_of m) \<and> place (tm_os m) = Some (ps_twin (sts ! c))) \<and>
     os_file (tm_os m') = os_file (tm_os m) \<and> (\<forall>x < HEAP_SIZE. view slab (tm_os m') x = view slab (tm_os m) x) \<and>
     (\<forall>r < HEAP_SIZE div 4096. r \<noteq> q \<longrightarrow> os_pages (tm_os m') (unat slab div 4096 + r) = os_pages (tm_os m) (unat slab div 4096 + r)) \<and>
     (\<exists>pg0 pg. os_pages (tm_os m) (unat slab div 4096 + q) = Some pg0 \<and> os_pages (tm_os m') (unat slab div 4096 + q) = Some pg \<and>
       pg_write pg \<and> pg_backing pg = pg_backing pg0 \<and> (pg_copy pg = None \<longrightarrow> pg_backing pg = FileShared (4096 * q))) \<and>
     (\<forall>k < 4096. base (tm_os m') (sts ! c) k = view slab (tm_os m) (4096 * q + k)) \<and>
     (\<forall>st \<in> set (states_of m). ps_twin st \<noteq> ps_twin (sts ! c) \<longrightarrow> (\<forall>k < 4096. base (tm_os m') st k = base (tm_os m) st k)))"

lemma handleSegv_effect:
  assumes P: "placement_ok place" and R: "regions_ok pers slab" and inv: "heap_inv pers slab m"
    and a: "isProtectable a m" "unat (a - slab) + 16384 \<le> HEAP_SIZE" and h: "handleSegv place a m = Inr m'"
  shows "heap_inv pers slab m' \<and> (\<exists>sts c. faulted place slab a m m' sts c)"
proof -
  define q where "q = unat (a - slab) div 4096"
  note off = protectable_off[OF R inv a(1)]
  have q: "q < HEAP_SIZE div 4096" using off(1) by (simp add: q_def HEAP_SIZE_def)
  have A: "alignAddressToPage a = slab + of_nat (4096 * q)" using align_heap[OF R off(1)] unfolding q_def off(2)[symmetric] .
  obtain c m1 where g: "getState place a m = Inr (c, m1)" using h by (auto simp: handleSegv_def Let_def err_simps)
  obtain bytes sts where st1: "tm_states m1 = Some (bytes, sts)" using h g by (auto simp: handleSegv_def Let_def split: option.splits)
  have sm1: "states_of m1 = sts" by (simp add: states_of_def st1)
  let ?A = "slab + of_nat (4096 * q)"
  obtain s2 s3 where s2: "os_memcpy ?A ?A 8 (os_mprotect ?A True (tm_os m1)) = Inr s2"
    and s3: "os_memcpy (ps_twin (sts ! c)) ?A 4096 s2 = Inr s3"
    and m': "m' = m1\<lparr>tm_os := s3, tm_states := Some (bytes, sts[c := (sts ! c)\<lparr>ps_active := True\<rparr>])\<rparr>"
    using h g st1 by (auto simp: handleSegv_def Let_def A TMI_PAGESIZE_def err_simps)
  have H: "heap_shown pers slab (tm_os m)" and S: "states_ok slab (tm_os m) (states_of m)" using inv by (simp_all add: heap_inv_def)
  have tw: "ps_twin (states_of m1 ! c) \<noteq> - 1"
  proof
    assume t: "ps_twin (states_of m1 ! c) = - 1"
    have o1: "tm_os m1 = tm_os m" by (rule getState_failed[OF P inv g t])
    have "keeps (tm_os m) s2" using segv_page[OF R H q s2[unfolded o1]] by metis
    moreover have "os_pages (tm_os m) (unat (- 1 :: u64) div 4096) = None"
      using inv by (auto simp: heap_inv_def unsigned_minus_1_eq_mask mask_eq_exp_minus_1)
    ultimately have n: "os_pages s2 (unat (- 1 :: u64) div 4096) = None" by (simp add: keeps_def)
    have "(4096::nat) = Suc 4095" by simp
    then show False using memcpy_nowhere[OF n, of ?A 4095 s3] s3 t by (simp only: sm1)
  qed
  from getState_inv[OF P R inv a g tw] have c: "c < length sts" and inv1: "heap_inv pers slab m1"
    and ad: "ps_addr (sts ! c) = alignAddressToPage a \<or> ps_addr (sts ! c) = a" and f1: "os_file (tm_os m1) = os_file (tm_os m)"
    and p1: "\<And>p. os_pages (tm_os m) p \<noteq> None \<Longrightarrow> os_pages (tm_os m1) p = os_pages (tm_os m) p"
    and new: "sts = states_of m \<or> sts = states_of m @ [sts ! c] \<and> ps_addr (sts ! c) = a \<and> alignAddressToPage a \<notin> ps_addr ` set (states_of m) \<and>
      place (tm_os m) = Some (ps_twin (sts ! c))"
    unfolding sm1 by blast+
  have H1: "heap_shown pers slab (tm_os m1)" and S1: "states_ok slab (tm_os m1) sts" using inv1 by (simp_all add: heap_inv_def sm1)
  have T: "twin_ok (tm_os m1) (sts ! c)" using S1 c by (simp add: states_ok_def)
  note e = segv_copies[OF R H1 q T s2 s3]
  have hp: "os_pages (tm_os m1) (unat slab div 4096 + r) = os_pages (tm_os m) (unat slab div 4096 + r)" if "r < HEAP_SIZE div 4096" for r
    using H that by (intro p1) (auto simp: heap_shown_def shows_page_def split: option.splits)
  have v1: "view slab (tm_os m1) x = view slab (tm_os m) x" if "x < HEAP_SIZE" for x
  proof -
    have "x div 4096 < HEAP_SIZE div 4096" using that by (simp add: HEAP_SIZE_def)
    then show ?thesis using hp by (simp add: view_def byte_at_def page_byte_file[OF f1] split: option.split)
  qed
  have b1: "twin_ok (tm_os m1) st \<and> (\<forall>k < 4096. base (tm_os m1) st k = base (tm_os m) st k)" if st: "st \<in> set (states_of m)" for st
  proof -
    have t: "twin_ok (tm_os m) st" using S st by (simp add: states_ok_def)
    then have "os_pages (tm_os m1) (unat (ps_twin st) div 4096) = os_pages (tm_os m) (unat (ps_twin st) div 4096)"
      by (intro p1) (auto simp: twin_ok_def)
    then show ?thesis using t by (simp add: twin_ok_def base_def byte_at_def page_byte_file[OF f1] split: option.split)
  qed
  let ?sts = "sts[c := (sts ! c)\<lparr>ps_active := True\<rparr>]"
  have st': "states_of m' = ?sts" by (simp add: m' states_of_def)
  have "states_ok slab s3 sts" using S1 e(1) by (simp add: states_ok_def)
  moreover have "set ?sts \<subseteq> insert ((sts ! c)\<lparr>ps_active := True\<rparr>) (set sts)" by (rule set_update_subset_insert)
  ultimately have "states_ok slab s3 ?sts" using nth_mem[OF c] unfolding states_ok_def by (auto simp: heap_off_def twin_ok_def)
  moreover have "p < 2 ^ 51" if "os_pages s3 p \<noteq> None" for p using inv1 e(1) that by (simp add: heap_inv_def)
  ultimately have inv': "heap_inv pers slab m'" using inv1 e(1) st' active_update[OF c, of True]
    unfolding heap_inv_def sm1 by (simp add: m')
  have o': "tm_os m' = s3" by (simp add: m')
  have "\<forall>k < 4096. base s3 (sts ! c) k = view slab (tm_os m) (4096 * q + k)"
  proof (intro allI impI)
    fix k :: nat assume "k < 4096"
    moreover from this have "4096 * q + k < HEAP_SIZE" using q by (simp add: HEAP_SIZE_def)
    ultimately show "base s3 (sts ! c) k = view slab (tm_os m) (4096 * q + k)" using e(5) v1 by simp
  qed
  moreover have "\<forall>r < HEAP_SIZE div 4096. r \<noteq> q \<longrightarrow> os_pages s3 (unat slab div 4096 + r) = os_pages (tm_os m) (unat slab div 4096 + r)"
    using e(3) hp by simp
  moreover have "\<exists>pg0 pg. os_pages (tm_os m) (unat slab div 4096 + q) = Some pg0 \<and> os_pages s3 (unat slab div 4096 + q) = Some pg \<and>
      pg_write pg \<and> pg_backing pg = pg_backing pg0 \<and> (pg_copy pg = None \<longrightarrow> pg_backing pg = FileShared (4096 * q))" using e(4) hp[OF q] by simp
  moreover have "\<forall>st \<in> set (states_of m). ps_twin st \<noteq> ps_twin (sts ! c) \<longrightarrow> (\<forall>k < 4096. base s3 st k = base (tm_os m) st k)"
    using e(6) b1 by simp
  moreover have "os_file s3 = os_file (tm_os m)" "\<forall>x < HEAP_SIZE. view slab s3 x = view slab (tm_os m) x" using e(1,2) f1 v1 by simp_all
  ultimately have "faulted place slab a m m' sts c" unfolding faulted_def Let_def q_def[symmetric] o'
    using c st' ad new by (intro conjI)
  then show ?thesis using inv' by blast
qed

section \<open>Runs of a process\<close>

definition with_heap :: "(nat \<Rightarrow> u8) \<Rightarrow> tmi_memory \<Rightarrow> tmi_memory" where
  "with_heap f m = m\<lparr>tm_os := (tm_os m)\<lparr>os_file := f\<rparr>\<rparr>"

definition fresh_memory :: "(nat \<Rightarrow> u8) \<Rightarrow> tmi_memory" where
  "fresh_memory f = \<lparr>tm_persistentMemory = 0, tm_slabStart = 0, tm_slabEnd = 0, tm_slabPos = 0, tm_mmapPos = 0, tm_initialized = False,
     tm_states = None, tm_os = \<lparr>os_file = f, os_pages = (\<lambda>_. None)\<rparr>\<rparr>"

text \<open>
  Every state a process gets into: the heap is set up, requests of the allocator are served as long as they fit, pages are
  protected, the program stores into its heap, other processes change the shared heap, and commits happen. The program does
  not store into the last 16384 bytes of the heap, where the loop of the commit would leave the mapping.
\<close>

inductive heap_reach :: "placement \<Rightarrow> u64 \<Rightarrow> u64 \<Rightarrow> tmi_memory \<Rightarrow> bool" for place pers slab where
  HeapInit: "heap_reach place pers slab (memory_init pers slab (fresh_memory f))"
| HeapServe: "heap_reach place pers slab m \<Longrightarrow> unat (tm_slabPos m) + req_size r \<le> unat (tm_mmapPos m) \<Longrightarrow>
    heap_reach place pers slab (snd (heap_serve pers slab r m))"
| HeapProtectAll: "heap_reach place pers slab m \<Longrightarrow> heap_reach place pers slab (protectAll m)"
| HeapProtectAddress: "heap_reach place pers slab m \<Longrightarrow> isProtectable a m \<Longrightarrow> heap_reach place pers slab (snd (protectAddress a m))"
| HeapStore: "heap_reach place pers slab m \<Longrightarrow> isProtectable a m \<Longrightarrow> unat (a - slab) + 16384 \<le> HEAP_SIZE \<Longrightarrow>
    heap_store place a v m = Some (Inr m') \<Longrightarrow> heap_reach place pers slab m'"
| HeapOthers: "heap_reach place pers slab m \<Longrightarrow> heap_reach place pers slab (with_heap f m)"
| HeapCommit: "heap_reach place pers slab m \<Longrightarrow> commit m = Inr m' \<Longrightarrow> heap_reach place pers slab m'"

lemma heap_inv_init:
  assumes R: "regions_ok pers slab"
  shows "heap_inv pers slab (memory_init pers slab (fresh_memory f))"
proof -
  let ?m = "memory_init pers slab (fresh_memory f)"
  define s where "s = tm_os ?m"
  note r = regions_slab[OF R]
  have N: "(HEAP_SIZE + 4095) div 4096 = HEAP_SIZE div 4096" "HEAP_SIZE \<noteq> 0" by (simp_all add: HEAP_SIZE_def)
  have s: "os_pages s p =
      (if unat slab div 4096 \<le> p \<and> p < unat slab div 4096 + HEAP_SIZE div 4096
       then Some \<lparr>pg_backing = FileShared ((p - unat slab div 4096) * 4096), pg_copy = None, pg_write = True\<rparr>
       else if unat pers div 4096 \<le> p \<and> p < unat pers div 4096 + HEAP_SIZE div 4096
       then Some \<lparr>pg_backing = FileShared ((p - unat pers div 4096) * 4096), pg_copy = None, pg_write = True\<rparr> else None)" for p
    using r(1,3) N by (simp add: s_def memory_init_def fresh_memory_def Let_def os_map_file_def)
  have "share_ok pers s"
  proof -
    have "os_pages s (unat pers div 4096 + q) = Some \<lparr>pg_backing = FileShared (4096 * q), pg_copy = None, pg_write = True\<rparr>"
      if q: "q < HEAP_SIZE div 4096" for q
    proof -
      have "unat pers div 4096 + q < unat slab div 4096 \<or> unat slab div 4096 + HEAP_SIZE div 4096 \<le> unat pers div 4096 + q"
        using regions_apart[OF R _ q, of "unat pers div 4096 + q - unat slab div 4096"] by linarith
      then show ?thesis using q by (auto simp: s)
    qed
    then show ?thesis using r(3,4) by (simp add: share_ok_def)
  qed
  then have H: "heap_shown pers slab s" by (simp add: heap_shown_def shows_page_def s mult.commute)
  have "p < 2 ^ 51" if "os_pages s p \<noteq> None" for p
    using that R unfolding regions_ok_def s by (auto simp: HEAP_SIZE_def split: if_splits)
  moreover have "unat (slab + of_nat HEAP_SIZE) = unat slab + HEAP_SIZE" by (rule unat_offset[OF r(2)])
  ultimately show ?thesis using H unfolding heap_inv_def s_def[symmetric]
    by (simp add: memory_init_def fresh_memory_def Let_def states_of_def states_ok_def)
qed

lemma allocStates_same:
  "tm_os (allocStates sz m) = tm_os m" "states_of (allocStates sz m) = states_of m" "tm_initialized (allocStates sz m) = tm_initialized m"
  "tm_slabStart (allocStates sz m) = tm_slabStart m" "tm_persistentMemory (allocStates sz m) = tm_persistentMemory m"
  "tm_slabEnd (allocStates sz m) = tm_slabEnd m" "tm_slabPos (allocStates sz m) = tm_slabPos m" "tm_mmapPos (allocStates sz m) = tm_mmapPos m"
  by (simp_all add: allocStates_def Let_def states_of_def split: option.splits)

lemma unat_gap: "unat slab \<le> unat x \<Longrightarrow> unat (x - slab) = unat x - unat slab" for x slab :: u64
  by (simp add: unat_sub word_le_nat_alt)

lemma heap_inv_protectAll:
  assumes R: "regions_ok pers slab" and inv: "heap_inv pers slab m"
  shows "heap_inv pers slab (protectAll m)"
proof -
  note i = inv[unfolded heap_inv_def]
  have top: "unat (slab + of_nat HEAP_SIZE) = unat slab + HEAP_SIZE" by (rule unat_offset[OF regions_slab(2)[OF R]])
  define n where "n = unat (tm_slabPos m - slab)"
  have pos: "unat slab \<le> unat (tm_slabPos m)" "unat (tm_slabPos m) \<le> unat (tm_mmapPos m)" "unat (tm_mmapPos m) \<le> unat slab + HEAP_SIZE"
    using i by simp_all
  have n: "n \<le> HEAP_SIZE" using pos unfolding n_def unat_gap[OF pos(1)] by linarith
  define s1 where "s1 = snd (os_map_file FilePrivate False (slab + of_nat 0) n 0 (tm_os m))"
  have s1: "heap_shown pers slab s1 \<and> keeps (tm_os m) s1" unfolding s1_def by (rule map_private[OF R]) (use i n in auto)
  show ?thesis
  proof (cases "tm_mmapPos m = tm_slabEnd m")
    case True
    then show ?thesis using i s1
      by (intro heap_inv_os[OF inv, of s1]) (simp_all add: protectAll_def Let_def allocStates_same s1_def n_def, simp_all add: states_of_def allocStates_def Let_def split: option.split)
  next
    case False
    define x where "x = unat (tm_mmapPos m - slab)"
    have "unat slab \<le> unat (tm_mmapPos m)" using pos by linarith
    then have x: "x \<le> HEAP_SIZE" "tm_mmapPos m = slab + of_nat x" using pos by (simp_all add: x_def unat_gap)
    moreover have "x \<noteq> HEAP_SIZE" using False x(2) i by auto
    ultimately have "x < HEAP_SIZE" by simp
    note al = align_heap[OF R this, folded x(2)]
    define o' where "o' = 4096 * (x div 4096)"
    have o': "o' < HEAP_SIZE" using \<open>x < HEAP_SIZE\<close> by (simp add: o'_def HEAP_SIZE_def)
    have d: "unat (slab + of_nat o' - slab) = o'" using o' unat_gap[of slab "slab + of_nat o'"] heap_page_at(4)[OF R o'] by simp
    have e: "unat (slab + of_nat HEAP_SIZE - (slab + of_nat o')) = HEAP_SIZE - o'"
    proof -
      have le: "slab + of_nat o' \<le> slab + of_nat HEAP_SIZE" unfolding word_le_nat_alt top heap_page_at(4)[OF R o'] using o' by simp
      show ?thesis unfolding unat_sub[OF le] top heap_page_at(4)[OF R o'] by simp
    qed
    define s2 where "s2 = snd (os_map_file FilePrivate True (slab + of_nat o') (HEAP_SIZE - o') o' s1)"
    have "heap_shown pers slab s2 \<and> keeps s1 s2" unfolding s2_def by (rule map_private[OF R]) (use s1 o' in \<open>auto simp: o'_def\<close>)
    then have s2: "heap_shown pers slab s2" "keeps (tm_os m) s2" using s1 keeps_trans by blast+
    have "tm_os (protectAll m) = s2" using False i al d e
      by (simp add: protectAll_def Let_def allocStates_same s1_def n_def s2_def o'_def)
    then show ?thesis using s2 False
      by (intro heap_inv_os[OF inv s2]) (simp_all add: protectAll_def Let_def allocStates_same, simp add: states_of_def allocStates_def Let_def split: option.split)
  qed
qed

text \<open>The handler returns when the table has room and the kernel finds a page for a twin.\<close>

lemma segv_copies_return:
  assumes R: "regions_ok pers slab" and H: "heap_shown pers slab s" and q: "q < HEAP_SIZE div 4096" and T: "twin_ok s st"
  shows "\<exists>s2 s3. os_memcpy (slab + of_nat (4096 * q)) (slab + of_nat (4096 * q)) 8 (os_mprotect (slab + of_nat (4096 * q)) True s) = Inr s2 \<and>
    os_memcpy (ps_twin st) (slab + of_nat (4096 * q)) 4096 s2 = Inr s3"
proof -
  let ?P = "unat slab div 4096 + q" and ?A = "slab + of_nat (4096 * q)" and ?T = "unat (ps_twin st) div 4096"
  have o: "4096 * q < HEAP_SIZE" using q by (simp add: HEAP_SIZE_def)
  note a = heap_page_at[OF R o]
  have A: "unat ?A div 4096 = ?P" "unat ?A mod 4096 = 0" using a(1,2) by simp_all
  have AA: "unat ?A + 4096 \<le> 2 ^ 64" unfolding a(4) using q regions_slab(2)[OF R] by (simp add: HEAP_SIZE_def)
  obtain pg0 where pg0: "os_pages s ?P = Some pg0"
    and b: "pg_backing pg0 = FilePrivate (4096 * q) \<or> pg_backing pg0 = FileShared (4096 * q) \<and> pg_copy pg0 = None"
    using H q by (auto simp: heap_shown_def shows_page_def split: option.splits)
  let ?s1 = "put_page ?P (pg0\<lparr>pg_write := True\<rparr>) s"
  have s1: "os_mprotect ?A True s = ?s1" unfolding os_mprotect_def A using A(2) pg0 by (simp add: put_page_def)
  have p1: "os_pages ?s1 (unat ?A div 4096) = Some (pg0\<lparr>pg_write := True\<rparr>)" unfolding A(1) by simp
  have e: "(8::nat) = Suc 7" "(4096::nat) = Suc 4095" by simp_all
  have "\<exists>s2. os_memcpy ?A ?A 8 ?s1 = Inr s2"
    using b memcpy_self_private[OF A(2) AA p1, of "4096 * q" 7, folded e] memcpy_self_shared[OF A(2) AA p1, of "4096 * q" 8] by auto
  then obtain s2 where s2: "os_memcpy ?A ?A 8 (os_mprotect ?A True s) = Inr s2" unfolding s1 by blast
  obtain pg where pg: "s2 = put_page ?P pg s" "heap_shown pers slab s2" "keeps s s2" using segv_page[OF R H q s2] by metis
  have "twin_ok s2 st" using T pg(3) by (simp add: keeps_def)
  then obtain tp where tp: "os_pages s2 ?T = Some tp" "pg_backing tp = Anonymous" "pg_write tp" by (auto simp: twin_ok_def)
  have DD: "unat (ps_twin st) mod 4096 = 0" "unat (ps_twin st) + 4096 \<le> 2 ^ 64" using T by (auto simp: twin_ok_def)
  have "shows_page s2 ?P q" using pg(2) q by (simp add: heap_shown_def)
  then have ne: "?T \<noteq> unat ?A div 4096" unfolding A(1) using tp by (auto simp: shows_page_def)
  have p2: "os_pages s2 (unat ?A div 4096) = Some pg" unfolding A(1) pg(1) by simp
  show ?thesis using s2 memcpy_twin[OF A(2) AA p2 DD tp(1,3,2) ne, of 4095, folded e] by auto
qed

lemma handleSegv_returns:
  assumes P: "placement_ok place" and R: "regions_ok pers slab" and inv: "heap_inv pers slab m"
    and a: "isProtectable a m" "unat (a - slab) + 16384 \<le> HEAP_SIZE"
    and t: "tm_states m = Some (bytes, sts)" "4 + 24 * (length sts + 1) \<le> bytes" "place (tm_os m) = Some tw"
  shows "\<exists>m'. handleSegv place a m = Inr m'"
proof -
  define q where "q = unat (a - slab) div 4096"
  note off = protectable_off[OF R inv a(1)]
  have q: "q < HEAP_SIZE div 4096" using off(1) by (simp add: q_def HEAP_SIZE_def)
  have A: "alignAddressToPage a = slab + of_nat (4096 * q)" using align_heap[OF R off(1)] unfolding q_def off(2)[symmetric] .
  have m1x: "unat (- 1 :: u64) mod 4096 \<noteq> 0" by (simp add: unsigned_minus_1_eq_mask mask_eq_exp_minus_1)
  have S: "states_ok slab (tm_os m) sts" using inv by (simp add: heap_inv_def states_of_def t)
  have "unat tw mod 4096 = 0" using P t(3) unfolding placement_ok_def by blast
  then have tw1: "tw \<noteq> - 1" using m1x by auto
  obtain c m1 where g: "getState place a m = Inr (c, m1)" and b: "\<exists>sts. tm_states m1 = Some (bytes, sts)"
    and tw: "ps_twin (states_of m1 ! c) \<noteq> - 1"
  proof (cases "find_state (alignAddressToPage a) sts")
    case (Some c)
    then have "twin_ok (tm_os m) (sts ! c)" using S find_state_Some[OF Some] by (simp add: states_ok_def)
    then have "ps_twin (sts ! c) \<noteq> - 1" using m1x by (auto simp: twin_ok_def)
    then show ?thesis using Some t by (intro that[of c m]) (auto simp: getState_def guardE_def states_of_def)
  next
    case None
    obtain t' s where ts: "os_map_anon place (tm_os m) = (t', s)" by (cases "os_map_anon place (tm_os m)")
    then have "t' = tw" using t(3) by (simp add: os_map_anon_def)
    then show ?thesis using None t tw1 ts
      by (intro that[of "length sts" "m\<lparr>tm_os := s, tm_states := Some (bytes, sts @ [\<lparr>ps_addr = a, ps_twin = t', ps_active = False\<rparr>])\<rparr>"])
        (auto simp: getState_def guardE_def states_of_def)
  qed
  then obtain sts1 where b1: "tm_states m1 = Some (bytes, sts1)" by blast
  have i1: "c < length sts1" "heap_inv pers slab m1" using getState_inv[OF P R inv a g tw] by (simp_all add: states_of_def b1)
  then have T: "twin_ok (tm_os m1) (sts1 ! c)" and H1: "heap_shown pers slab (tm_os m1)" by (simp_all add: heap_inv_def states_of_def states_ok_def b1)
  obtain s2 s3 where "os_memcpy (alignAddressToPage a) (alignAddressToPage a) 8 (os_mprotect (alignAddressToPage a) True (tm_os m1)) = Inr s2"
    "os_memcpy (ps_twin (sts1 ! c)) (alignAddressToPage a) TMI_PAGESIZE s2 = Inr s3"
    using segv_copies_return[OF R H1 q T] unfolding A TMI_PAGESIZE_def by blast
  moreover have "alignAddressToPage a \<noteq> 0"
  proof -
    have "4096 * q < HEAP_SIZE" using q by (simp add: HEAP_SIZE_def)
    from heap_page_at(4)[OF R this] R have "0 < unat (alignAddressToPage a)" unfolding A by (simp add: regions_ok_def)
    then show ?thesis by auto
  qed
  ultimately show ?thesis using g b1 T by (auto simp: handleSegv_def Let_def guardE_def twin_ok_def)
qed

lemma heap_inv_protectAddress:
  assumes R: "regions_ok pers slab" and inv: "heap_inv pers slab m" and a: "isProtectable a m"
  shows "heap_inv pers slab (snd (protectAddress a m))"
proof -
  note off = protectable_off[OF R inv a]
  define o' where "o' = 4096 * (unat (a - slab) div 4096)"
  have o': "o' < HEAP_SIZE" "o' mod 4096 = 0" "o' + 4096 \<le> HEAP_SIZE" using off(1) by (simp_all add: o'_def HEAP_SIZE_def)
  have al: "alignAddressToPage a = slab + of_nat o'" using align_heap[OF R off(1)] unfolding o'_def off(2)[symmetric] .
  have d: "unat (slab + of_nat o' - slab) = o'" using unat_gap[of slab "slab + of_nat o'"] heap_page_at(4)[OF R o'(1)] by simp
  define s1 where "s1 = snd (os_map_file FilePrivate False (slab + of_nat o') 4096 o' (tm_os m))"
  have s1: "heap_shown pers slab s1 \<and> keeps (tm_os m) s1" unfolding s1_def by (rule map_private[OF R]) (use inv o' in \<open>auto simp: heap_inv_def\<close>)
  have "tm_slabStart m = slab" "\<not> (a < tm_slabStart m \<or> a > tm_slabEnd m)" using inv a by (auto simp: heap_inv_def isProtectable_def)
  then have e: "snd (protectAddress a m) = (allocStates (of_nat TMI_PAGESIZE) m)\<lparr>tm_os := s1\<rparr>"
    using d by (simp add: protectAddress_def al s1_def allocStates_same Let_def split: prod.split)
  show ?thesis unfolding e using s1
    by (intro heap_inv_os[OF inv, of s1]) (simp_all add: allocStates_same, simp add: states_of_def allocStates_def Let_def split: option.split)
qed

lemma heap_serve_same:
  assumes "tm_initialized m"
  shows "tm_os (snd (heap_serve pers slab r m)) = tm_os m" "states_of (snd (heap_serve pers slab r m)) = states_of m"
    "tm_slabStart (snd (heap_serve pers slab r m)) = tm_slabStart m" "tm_slabEnd (snd (heap_serve pers slab r m)) = tm_slabEnd m"
    "tm_persistentMemory (snd (heap_serve pers slab r m)) = tm_persistentMemory m"
proof -
  have "memory_init pers slab m = m" using assms by (simp add: memory_init_def)
  then show "tm_os (snd (heap_serve pers slab r m)) = tm_os m" "states_of (snd (heap_serve pers slab r m)) = states_of m"
    "tm_slabStart (snd (heap_serve pers slab r m)) = tm_slabStart m" "tm_slabEnd (snd (heap_serve pers slab r m)) = tm_slabEnd m"
    "tm_persistentMemory (snd (heap_serve pers slab r m)) = tm_persistentMemory m"
    by (cases r; simp add: adjust_slab_memory_def get_mmap_memory_def Let_def states_of_def)+
qed

lemma heap_inv_serve:
  assumes inv: "heap_inv pers slab m" and f: "unat (tm_slabPos m) + req_size r \<le> unat (tm_mmapPos m)"
  shows "heap_inv pers slab (snd (heap_serve pers slab r m))"
proof -
  have i: "tm_initialized m" using inv by (simp add: heap_inv_def)
  obtain a m1 where m1: "heap_serve pers slab r m = (a, m1)" by (cases "heap_serve pers slab r m")
  have "unat (tm_slabPos m) + req_size r + 0 \<le> unat (tm_mmapPos m)" using f by simp
  note st = heap_serve_step[OF i m1 this]
  show ?thesis using inv st heap_serve_same[OF i, of pers slab r] unfolding heap_inv_def m1 by auto
qed

text \<open>A store of the program, with or without a fault.\<close>

lemma heap_store_cases:
  assumes "heap_store place a v m = Some (Inr m')"
  obtains (plain) s where "os_write a v (tm_os m) = Inr s" "m' = m\<lparr>tm_os := s\<rparr>"
  | (fault) m1 s e where "os_write a v (tm_os m) = Inl e" "handleSegv place a m = Inr m1" "os_write a v (tm_os m1) = Inr s" "m' = m1\<lparr>tm_os := s\<rparr>"
  using assms by (auto simp: heap_store_def segvhandle_def err_simps split: sum.splits option.splits if_splits)

lemma heap_inv_write:
  assumes R: "regions_ok pers slab" and inv: "heap_inv pers slab m" and a: "isProtectable a m" and w: "os_write a v (tm_os m) = Inr s"
  shows "heap_inv pers slab (m\<lparr>tm_os := s\<rparr>)"
proof -
  note off = protectable_off[OF R inv a]
  have "heap_shown pers slab (tm_os m)" using inv by (simp add: heap_inv_def)
  from heap_write(1)[OF R this off(1), of v s] w off(2) show ?thesis
    by (intro heap_inv_os[OF inv, of s]) (simp_all add: states_of_def)
qed

lemma heap_inv_store:
  assumes P: "placement_ok place" and R: "regions_ok pers slab" and inv: "heap_inv pers slab m"
    and a: "isProtectable a m" "unat (a - slab) + 16384 \<le> HEAP_SIZE" and st: "heap_store place a v m = Some (Inr m')"
  shows "heap_inv pers slab m'"
  using st
proof (cases rule: heap_store_cases)
  case (plain s)
  then show ?thesis using heap_inv_write[OF R inv a(1)] by simp
next
  case (fault m1 s e)
  have i1: "heap_inv pers slab m1" using handleSegv_effect[OF P R inv a fault(2)] by blast
  then have "isProtectable a m1" using a(1) inv by (simp add: isProtectable_def heap_inv_def)
  then show ?thesis using heap_inv_write[OF R i1 _ fault(3)] fault(4) by simp
qed

lemma commit_fold:
  assumes "commit m = Inr m'"
  shows "foldE (commit_state (tm_persistentMemory m) (tm_slabStart m)) (states_of m) (tm_os m) = Inr (tm_os m') \<and> m' = m\<lparr>tm_os := tm_os m'\<rparr>"
  using assms by (auto simp: commit_def states_of_def err_simps split: option.splits)

lemma heap_inv_commit:
  assumes R: "regions_ok pers slab" and inv: "heap_inv pers slab m" and c: "commit m = Inr m'"
  shows "heap_inv pers slab m'"
proof -
  note f = commit_fold[OF c]
  have "tm_persistentMemory m = pers" "tm_slabStart m = slab" "heap_shown pers slab (tm_os m)" "states_ok slab (tm_os m) (states_of m)"
    using inv by (simp_all add: heap_inv_def)
  then have mv: "commit_moves pers slab (states_of m) (tm_os m) (tm_os m')" using commit_moves_all[OF R] f by simp
  then have "heap_shown pers slab (tm_os m')" by (simp add: commit_moves_def)
  then show ?thesis using conjunct2[OF f] keeps_moves[OF mv]
    by (intro heap_inv_os[OF inv, of "tm_os m'"]) (metis states_of_def tmi_memory.simps tmi_memory.surjective tmi_memory.update_convs)+
qed

lemma heap_inv_reach:
  assumes "placement_ok place" "regions_ok pers slab" "heap_reach place pers slab m"
  shows "heap_inv pers slab m"
  using assms(3)
proof induction
  case (HeapOthers m f)
  have "heap_shown pers slab ((tm_os m)\<lparr>os_file := f\<rparr>) \<and> keeps (tm_os m) ((tm_os m)\<lparr>os_file := f\<rparr>)"
    by (rule file_change) (use HeapOthers in \<open>simp_all add: heap_inv_def\<close>)
  then show ?case using HeapOthers unfolding with_heap_def
    by (intro heap_inv_os[OF HeapOthers(2), of "(tm_os m)\<lparr>os_file := f\<rparr>"]) (simp_all add: states_of_def)
qed (use assms(1,2) in \<open>blast intro: heap_inv_init heap_inv_serve heap_inv_protectAll heap_inv_protectAddress heap_inv_store heap_inv_commit\<close>)+

section \<open>Commits merge\<close>

text \<open>The table and the bytes behind the twins can be read: then a commit has no undefined access.\<close>

definition twins_readable :: "tmi_memory \<Rightarrow> bool" where
  "twins_readable m \<longleftrightarrow> (case tm_states m of None \<Rightarrow> True
     | Some (bytes, sts) \<Rightarrow> 4 \<le> bytes \<and>
         (\<forall>st \<in> set sts. ps_active st \<longrightarrow> (\<forall>k < 16384. os_pages (tm_os m) (unat (ps_twin st + of_nat k) div 4096) \<noteq> None)))"

lemma commit_bytes_return:
  assumes "regions_ok pers slab" "heap_shown pers slab s" "twin_ok s st" "heap_off slab st + 16384 \<le> HEAP_SIZE"
    and "\<forall>k < 16384. os_pages s (unat (ps_twin st + of_nat k) div 4096) \<noteq> None" "n \<le> 16384"
  shows "\<exists>s'. foldE (commit_byte (ps_addr st) (ps_twin st) (pers + (ps_addr st - slab))) [0..<n] s = Inr s'"
  using assms(6)
proof (induction n)
  case (Suc n)
  then obtain s1 where s1: "foldE (commit_byte (ps_addr st) (ps_twin st) (pers + (ps_addr st - slab))) [0..<n] s = Inr s1" by auto
  have pg: "os_pages s1 = os_pages s" using commit_bytes_publish[OF assms(1-4) _ s1] Suc.prems by (simp add: publishes_def)
  have H1: "heap_shown pers slab s1" using assms(2) by (simp add: heap_shown_pages[OF pg])
  have on: "heap_off slab st + n < HEAP_SIZE" using assms(4) Suc.prems by linarith
  have a: "ps_addr st + of_nat n = slab + of_nat (heap_off slab st + n)" "pers + (ps_addr st - slab) + of_nat n = pers + of_nat (heap_off slab st + n)"
    by (simp_all add: heap_off_def)
  have "os_pages s1 (unat (ps_twin st + of_nat n) div 4096) \<noteq> None" using assms(5) Suc.prems pg by auto
  then obtain w where w: "os_read s1 (ps_twin st + of_nat n) = Inr w" by (auto simp: os_read_def)
  have "\<exists>s'. commit_byte (ps_addr st) (ps_twin st) (pers + (ps_addr st - slab)) n s1 = Inr s'"
    unfolding commit_byte_def a heap_read[OF assms(1) H1 on] share_write[OF assms(1) H1 on] w by auto
  then show ?case using s1 by (auto simp: foldE_append)
qed simp

lemma commit_state_returns:
  assumes "regions_ok pers slab" "heap_shown pers slab s" "states_ok slab s [st]"
    and t: "ps_active st \<longrightarrow> (\<forall>k < 16384. os_pages s (unat (ps_twin st + of_nat k) div 4096) \<noteq> None)"
  shows "\<exists>s'. commit_state pers slab st s = Inr s'"
proof (cases "ps_active st")
  case True
  have T: "twin_ok s st" and o: "heap_off slab st + 16384 \<le> HEAP_SIZE" using assms(3) by (simp_all add: states_ok_def)
  have rd: "os_read s (ps_addr st + of_nat k) = Inr (view slab s (heap_off slab st + k))" if "k < 4096" for k
  proof -
    have a: "ps_addr st + of_nat k = slab + of_nat (heap_off slab st + k)" by (simp add: heap_off_def)
    show ?thesis unfolding a by (rule heap_read[OF assms(1,2)]) (use o that in linarith)
  qed
  have "mapE (\<lambda>k. os_read s (ps_addr st + of_nat k)) [0..<4096] = Inr (map (\<lambda>k. view slab s (heap_off slab st + k)) [0..<4096])"
    "mapE (\<lambda>k. os_read s (ps_twin st + of_nat k)) [0..<4096] = Inr (map (base s st) [0..<4096])"
    using rd twin_read[OF T] by (auto intro!: mapE_total)
  then obtain same where "os_memequal (ps_addr st) (ps_twin st) 4096 s = Inr same" by (auto simp: os_memequal_def)
  moreover obtain s1 where "foldE (commit_byte (ps_addr st) (ps_twin st) (pers + (ps_addr st - slab))) [0..<16384] s = Inr s1"
    using commit_bytes_return[OF assms(1,2) T o] t True by blast
  ultimately have "\<exists>s1. commit_chunk (ps_addr st) (ps_twin st) (pers + (ps_addr st - slab)) 0 s = Inr s1"
    by (cases same) (auto simp: commit_chunk_def incSize_def)
  then show ?thesis by (auto simp: commit_state_def chunk_starts Let_def bindE_foldE_Nil)
qed (simp add: commit_state_def)

lemma commit_returns:
  assumes "regions_ok pers slab" "heap_shown pers slab s" "states_ok slab s sts"
    and "\<forall>st \<in> set sts. ps_active st \<longrightarrow> (\<forall>k < 16384. os_pages s (unat (ps_twin st + of_nat k) div 4096) \<noteq> None)"
  shows "\<exists>s'. foldE (commit_state pers slab) sts s = Inr s'"
  using assms(2-)
proof (induction sts arbitrary: s)
  case (Cons st sts)
  have ok: "states_ok slab s [st]" "states_ok slab s sts" using Cons.prems(2) by (simp_all add: states_ok_def)
  obtain s1 where s1: "commit_state pers slab st s = Inr s1"
    using commit_state_returns[OF assms(1) Cons.prems(1) ok(1)] Cons.prems(3) by auto
  have mv: "commit_moves pers slab [st] s s1" by (rule commit_moves_one[OF assms(1) Cons.prems(1) ok(1) s1])
  then have "\<exists>s'. foldE (commit_state pers slab) sts s1 = Inr s'" using Cons.prems(3)
    by (intro Cons.IH states_ok_moves[OF ok(2) mv]) (simp_all add: commit_moves_def)
  then show ?case using s1 by auto
qed simp

text \<open>The shared heap before and after: what each byte may become, and what it becomes in a page recorded at its start.\<close>

definition merges :: "u64 \<Rightarrow> tmi_memory \<Rightarrow> tmi_memory \<Rightarrow> bool" where
  "merges slab m m' \<longleftrightarrow> (\<forall>off < HEAP_SIZE.
     os_file (tm_os m') off \<in> {os_file (tm_os m) off, view slab (tm_os m) off} \<and>
     ((\<forall>st \<in> set (states_of m). ps_active st \<longrightarrow> off \<notin> window slab st) \<longrightarrow> os_file (tm_os m') off = os_file (tm_os m) off) \<and>
     (\<forall>st \<in> set (states_of m). ps_active st \<and> starts_page st \<and> off div 4096 = heap_page slab st \<longrightarrow>
        view slab (tm_os m') off = os_file (tm_os m') off \<and>
        (view slab (tm_os m) off \<noteq> base (tm_os m) st (off mod 4096) \<longrightarrow> os_file (tm_os m') off = view slab (tm_os m) off) \<and>
        ((\<forall>st' \<in> set (states_of m). ps_active st' \<and> off \<in> window slab st' \<longrightarrow> st' = st) \<longrightarrow>
          os_file (tm_os m') off = merge3 (base (tm_os m) st (off mod 4096)) (view slab (tm_os m) off) (os_file (tm_os m) off))))"

lemma commit_merges_inv:
  assumes R: "regions_ok pers slab" and inv: "heap_inv pers slab m" and c: "commit m = Inr m'"
  shows "merges slab m m'"
proof -
  have i: "tm_persistentMemory m = pers" "tm_slabStart m = slab" "heap_shown pers slab (tm_os m)" "states_ok slab (tm_os m) (states_of m)"
    "distinct (map ps_addr (filter starts_page (states_of m)))" using inv by (simp_all add: heap_inv_def)
  have f: "foldE (commit_state pers slab) (states_of m) (tm_os m) = Inr (tm_os m')" using commit_fold[OF c] i(1,2) by simp
  have mv: "commit_moves pers slab (states_of m) (tm_os m) (tm_os m')" by (rule commit_moves_all[OF R i(3,4) f])
  have pg: "view slab (tm_os m') off = os_file (tm_os m') off \<and>
        (view slab (tm_os m) off \<noteq> base (tm_os m) st (off mod 4096) \<longrightarrow> os_file (tm_os m') off = view slab (tm_os m) off) \<and>
        ((\<forall>st' \<in> set (states_of m). ps_active st' \<and> off \<in> window slab st' \<longrightarrow> st' = st) \<longrightarrow>
          os_file (tm_os m') off = merge3 (base (tm_os m) st (off mod 4096)) (view slab (tm_os m) off) (os_file (tm_os m) off))"
    if "st \<in> set (states_of m)" "ps_active st" "starts_page st" "off div 4096 = heap_page slab st" for st off
    using commit_page[OF R i(3,4,5) f that] by blast
  have "os_file (tm_os m') off \<in> {os_file (tm_os m) off, view slab (tm_os m) off}"
    "(\<forall>st \<in> set (states_of m). ps_active st \<longrightarrow> off \<notin> window slab st) \<longrightarrow> os_file (tm_os m') off = os_file (tm_os m) off"
    if "off < HEAP_SIZE" for off using mv that unfolding commit_moves_def by blast+
  then show ?thesis unfolding merges_def using pg by (intro allI impI conjI ballI) blast+
qed

lemma commit_returns_reach:
  assumes "placement_ok place" "regions_ok pers slab" "heap_reach place pers slab m" "twins_readable m"
  shows "\<exists>m'. commit m = Inr m'"
proof -
  have "tm_persistentMemory m = pers" "tm_slabStart m = slab" "heap_shown pers slab (tm_os m)" "states_ok slab (tm_os m) (states_of m)"
    using heap_inv_reach[OF assms(1-3)] by (simp_all add: heap_inv_def)
  then show ?thesis using assms(4) commit_returns[OF assms(2), of "tm_os m" "states_of m"]
    by (auto simp: twins_readable_def commit_def states_of_def guardE_def split: option.splits)
qed

text \<open>
  \<^bold>\<open>C11.\<close> What a commit makes of the shared heap, in every state that a process can reach. It has no undefined access when the
  table and the 16384 bytes from every active twin on are mapped. When it returns, a byte of the shared heap has the value it had
  or the one the process saw, and it is unchanged when no active state reaches it, a state reaching 16384 bytes from its recorded
  address on. In a page that was recorded at its start, every byte that the process sees differently from the twin is published,
  whatever other processes wrote there, and the process sees the shared heap again; if no other state reaches the byte, the
  result is the three-way merge of twin, own and shared byte.
\<close>

theorem commit_merges:
  assumes "placement_ok place" "regions_ok pers slab" "heap_reach place pers slab m"
  shows "(twins_readable m \<longrightarrow> (\<exists>m'. commit m = Inr m')) \<and> (\<forall>m'. commit m = Inr m' \<longrightarrow> merges slab m m')"
  using commit_returns_reach[OF assms] commit_merges_inv[OF assms(2) heap_inv_reach[OF assms]] by blast

section \<open>A sample run\<close>

text \<open>The kernel has one page for a twin, right below the shared mapping.\<close>

definition one_place :: placement where
  "one_place s = (if os_pages s 1048575 = None then Some 0xFFFFF000 else None)"

lemma one_place_ok: "placement_ok one_place"
  by (auto simp: placement_ok_def one_place_def)

lemma sample_regions: "regions_ok 0x100000000 0x300000000"
  by (simp add: regions_ok_def HEAP_SIZE_def)

text \<open>The first page is protected and then written; another process publishes byte 16.\<close>

definition sample_protected :: tmi_memory where
  "sample_protected = snd (protectAddress 0x300000000 (memory_init 0x100000000 0x300000000 (fresh_memory (\<lambda>_. 0))))"

lemma sample_protected_reach: "heap_reach one_place 0x100000000 0x300000000 sample_protected"
  unfolding sample_protected_def
  by (rule HeapProtectAddress[OF HeapInit]) (simp add: isProtectable_def memory_init_def fresh_memory_def Let_def HEAP_SIZE_def)

lemma sample_protected_page:
  "os_pages (tm_os sample_protected) 3145728 = Some \<lparr>pg_backing = FilePrivate 0, pg_copy = None, pg_write = False\<rparr>"
  "os_pages (tm_os sample_protected) 1048575 = None" "tm_states sample_protected = Some (4096, [])" "os_file (tm_os sample_protected) = (\<lambda>_. 0)"
  "isProtectable 0x300000000 sample_protected"
  by (simp_all add: sample_protected_def protectAddress_def memory_init_def fresh_memory_def os_map_file_def allocStates_def TMI_PAGESIZE_def
      alignAddressToPage_def isProtectable_def HEAP_SIZE_def Let_def)

lemma sample_store:
  obtains m st where "heap_store one_place 0x300000000 7 sample_protected = Some (Inr m)" "states_of m = [st]" "ps_addr st = 0x300000000" "ps_active st"
    "ps_twin st = 0xFFFFF000" "view 0x300000000 (tm_os m) 0 = 7" "view 0x300000000 (tm_os m) 16 = 0"
    "base (tm_os m) st 0 = 0" "base (tm_os m) st 16 = 0" "\<exists>pg c. os_pages (tm_os m) 3145728 = Some pg \<and> pg_copy pg = Some c" "tm_states m = Some (4096, [st])"
proof -
  let ?m = sample_protected and ?slab = "0x300000000 :: u64"
  have inv: "heap_inv 0x100000000 ?slab ?m" by (rule heap_inv_reach[OF one_place_ok sample_regions sample_protected_reach])
  have pl: "one_place (tm_os ?m) = Some 0xFFFFF000" by (simp add: one_place_def sample_protected_page)
  have room: "unat (?slab - ?slab) + 16384 \<le> HEAP_SIZE" by (simp add: HEAP_SIZE_def)
  obtain m1 where m1: "handleSegv one_place ?slab ?m = Inr m1"
    using handleSegv_returns[OF one_place_ok sample_regions inv sample_protected_page(5) room sample_protected_page(3) _ pl] by auto
  obtain sts c where e: "heap_inv 0x100000000 ?slab m1" "faulted one_place ?slab ?slab ?m m1 sts c"
    using handleSegv_effect[OF one_place_ok sample_regions inv sample_protected_page(5) room m1] by blast
  note f = e(2)[unfolded faulted_def Let_def]
  have sm: "states_of ?m = []" by (simp add: states_of_def sample_protected_page)
  then have mm: "sts = [sts ! c]" "ps_addr (sts ! c) = ?slab" "ps_twin (sts ! c) = 0xFFFFF000" using f pl by auto
  have "c < length [sts ! c]" using f mm(1) by simp
  then have c: "c = 0" by simp
  define st where "st = (sts ! c)\<lparr>ps_active := True\<rparr>"
  have "states_of m1 = sts[c := st]" using f by (simp add: st_def)
  then have st: "states_of m1 = [st]" unfolding c by (subst (asm) mm(1)) simp
  have fl: "os_file (tm_os m1) = os_file (tm_os ?m)" and v: "\<And>x. x < HEAP_SIZE \<Longrightarrow> view ?slab (tm_os m1) x = view ?slab (tm_os ?m) x"
    and b: "\<And>k. k < 4096 \<Longrightarrow> base (tm_os m1) (sts ! c) k = view ?slab (tm_os ?m) k" using f by auto
  have pg: "\<exists>pg. os_pages (tm_os m1) 3145728 = Some pg \<and> pg_write pg \<and> pg_backing pg = FilePrivate 0" using f sample_protected_page(1) by auto
  have z: "view ?slab (tm_os ?m) x = 0" if "x < 4096" for x
    using that by (simp add: view_def byte_at_def page_byte_def sample_protected_page)
  have bs: "base (tm_os m1) st x = 0" if "x < 4096" for x
    using b[OF that] z[OF that] by (simp add: st_def base_def)
  have "\<exists>s. os_write ?slab 7 (tm_os m1) = Inr s \<and> (\<exists>pg c. os_pages s 3145728 = Some pg \<and> pg_copy pg = Some c)"
    using pg by (auto simp: os_write_def)
  then obtain s where s: "os_write ?slab 7 (tm_os m1) = Inr s" and cp: "\<exists>pg c. os_pages s 3145728 = Some pg \<and> pg_copy pg = Some c" by blast
  have tb: "tm_states m1 = Some (4096, [st])"
    using m1 st sample_protected_page(3)
    by (auto simp: handleSegv_def getState_def states_of_def find_state_def Let_def err_simps split: prod.splits)
  have "os_write ?slab 7 (tm_os ?m) = Inl (Undefined ''write to a protected page'')" by (simp add: os_write_def sample_protected_page)
  then have r: "heap_store one_place ?slab 7 ?m = Some (Inr (m1\<lparr>tm_os := s\<rparr>))"
    using m1 s by (simp add: heap_store_def segvhandle_def sample_protected_page)
  have H: "heap_shown 0x100000000 ?slab (tm_os m1)" "twin_ok (tm_os m1) st" using e(1) st by (simp_all add: heap_inv_def states_ok_def)
  have s0: "os_write (?slab + of_nat 0) 7 (tm_os m1) = Inr s" using s by simp
  have hs: "(0::nat) < HEAP_SIZE" "16 < HEAP_SIZE" by (simp_all add: HEAP_SIZE_def)
  note w = heap_write[OF sample_regions H(1) hs(1) s0]
  have k: "base s st x = base (tm_os m1) st x" if "x < 4096" for x using w(1) H(2) that by (simp add: keeps_def)
  show ?thesis
    by (rule that[OF r, of st])
      (use st mm w(2)[OF hs(1)] w(2)[OF hs(2)] cp tb v[OF hs(2)] z k bs in \<open>simp_all add: states_of_def st_def\<close>)
qed

lemma sample_readable:
  assumes inv: "heap_inv 0x100000000 0x300000000 m" and st: "tm_states m = Some (4096, [st])" "ps_twin st = 0xFFFFF000"
  shows "twins_readable m"
proof -
  have H: "heap_shown 0x100000000 0x300000000 (tm_os m)" "twin_ok (tm_os m) st" using inv st(1) by (simp_all add: heap_inv_def states_ok_def states_of_def)
  have pers: "os_pages (tm_os m) (1048576 + q) \<noteq> None" if "q < 3" for q using H(1) that by (auto simp: heap_shown_def share_ok_def HEAP_SIZE_def)
  have "os_pages (tm_os m) (unat (ps_twin st + of_nat k) div 4096) \<noteq> None" if "k < 16384" for k
  proof -
    have u: "unat (0xFFFFF000 + of_nat k :: u64) = 4294963200 + k" using that by (subst unat_offset) auto
    have "(4294963200 + k) div 4096 = 1048575 + k div 4096" by simp
    moreover have "os_pages (tm_os m) 1048575 \<noteq> None" using H(2) st(2) by (auto simp: twin_ok_def)
    moreover have "k div 4096 = 0 \<or> 1 \<le> k div 4096 \<and> k div 4096 - 1 < 3" using that by auto
    ultimately show ?thesis using pers[of "k div 4096 - 1"] unfolding st(2) u by auto
  qed
  then show ?thesis using st(1) by (simp add: twins_readable_def)
qed

theorem commit_merges_witness:
  "\<exists>m m'. heap_reach one_place 0x100000000 0x300000000 m \<and> os_file (tm_os m) 0 = 0 \<and> commit m = Inr m' \<and> os_file (tm_os m') 0 = 7 \<and> os_file (tm_os m') 16 = 9"
proof -
  let ?slab = "0x300000000 :: u64"
  obtain m0 st where m0: "heap_store one_place ?slab 7 sample_protected = Some (Inr m0)" "states_of m0 = [st]" "ps_addr st = ?slab" "ps_active st" "ps_twin st = 0xFFFFF000"
    "view ?slab (tm_os m0) 0 = 7" "view ?slab (tm_os m0) 16 = 0" "base (tm_os m0) st 0 = 0" "base (tm_os m0) st 16 = 0"
    "\<exists>pg c. os_pages (tm_os m0) 3145728 = Some pg \<and> pg_copy pg = Some c" "tm_states m0 = Some (4096, [st])"
    by (rule sample_store)
  define m where "m = with_heap (\<lambda>x. if x = 16 then 9 else 0) m0"
  have r0: "heap_reach one_place 0x100000000 ?slab m0"
    by (rule HeapStore[OF sample_protected_reach sample_protected_page(5) _ m0(1)]) (simp add: HEAP_SIZE_def)
  then have r: "heap_reach one_place 0x100000000 ?slab m" unfolding m_def by (rule HeapOthers)
  have pgs: "os_pages (tm_os m) = os_pages (tm_os m0)" by (simp add: m_def with_heap_def)
  have sm: "states_of m = [st]" using m0(2) by (simp add: m_def with_heap_def states_of_def)
  have inv: "heap_inv 0x100000000 ?slab m0" "heap_inv 0x100000000 ?slab m"
    using heap_inv_reach[OF one_place_ok sample_regions] r0 r by blast+
  then have H: "heap_shown 0x100000000 ?slab (tm_os m0)" "twin_ok (tm_os m0) st" "heap_shown 0x100000000 ?slab (tm_os m)"
    using m0(2) by (simp_all add: heap_inv_def states_ok_def)
  have bs: "base (tm_os m) st 0 = 0" "base (tm_os m) st 16 = 0" using twin_file[OF H(2) _ pgs] m0(8,9) by simp_all
  have vw: "view ?slab (tm_os m) 0 = 7" "view ?slab (tm_os m) 16 = 0"
    using m0(6,7,10) by (auto simp: view_def byte_at_def page_byte_def m_def with_heap_def)
  have "twins_readable m" by (rule sample_readable[OF inv(2), of st]) (use m0 in \<open>simp_all add: m_def with_heap_def\<close>)
  then obtain m' where c: "commit m = Inr m'" and g: "merges ?slab m m'"
    using commit_merges[OF one_place_ok sample_regions r] by blast
  have p: "starts_page st" "heap_page ?slab st = 0" by (simp_all add: starts_page_def heap_page_def m0(3))
  have "os_file (tm_os m') 0 = view ?slab (tm_os m) 0" "os_file (tm_os m') 16 = merge3 (base (tm_os m) st 16) (view ?slab (tm_os m) 16) (os_file (tm_os m) 16)"
    using g m0(4) p vw bs unfolding merges_def sm by (auto simp: HEAP_SIZE_def)
  then have "os_file (tm_os m') 0 = 7" "os_file (tm_os m') 16 = 9" using vw bs by (simp_all add: merge3_def m_def with_heap_def)
  moreover have "os_file (tm_os m) 0 = 0" by (simp add: m_def with_heap_def)
  ultimately show ?thesis using r c by blast
qed

end
