(* ===== verification/TMI_Sync.thy ===== *)
theory TMI_Sync
  imports TMI_Commit
begin

unbundle bit_operations_syntax

text \<open>
  Synchronisation under \<^verbatim>\<open>others/tmi\<close>: how several threads agree on the shared copy of a lock
  (\<^verbatim>\<open>memory::get_shared\<close>), and the wrappers of the thread library (\<^verbatim>\<open>src/tmisync.cpp\<close>,
  \<^verbatim>\<open>src/tmiutil.cpp\<close>), which commit the private pages around every synchronisation.
\<close>

section \<open>Agreeing on a shared object\<close>

definition MAGIC_IN_UPDATE :: u32 where
  "MAGIC_IN_UPDATE = 0xDEADBEEF"

definition MAGIC_SET :: u32 where
  "MAGIC_SET = 0xCAFEBABE"

text \<open>
  Where a thread is in \<^verbatim>\<open>get_shared\<close>: it loads the magic number, spins, exchanges it, allocates,
  stores the object, exchanges again, reads the object, or has returned. \<open>GDied\<close> is a failed \<^verbatim>\<open>MUST\<close>.
  The magic number is a \<^verbatim>\<open>long\<close> of which only the low 32 bits are compared.
\<close>

datatype gs_pc = GLoad | GSpin | GExchange | GAlloc | GStore u64 | GFinish | GRead | GDone u64 | GDied

record gs_state =
  gs_magic :: u64
  gs_object :: u64
  gs_allocs :: "u64 list"
  gs_pcs :: "gs_pc list"

definition gs_is :: "u32 \<Rightarrow> gs_state \<Rightarrow> bool" where
  "gs_is v g \<longleftrightarrow> ucast (gs_magic g) = v"

definition gs_goto :: "nat \<Rightarrow> gs_pc \<Rightarrow> gs_state \<Rightarrow> gs_state" where
  "gs_goto i pc g = g\<lparr>gs_pcs := (gs_pcs g)[i := pc]\<rparr>"

text \<open>One atomic access of thread \<open>i\<close>. \<open>new\<close> is the address the allocator returns.\<close>

inductive gs_step :: "gs_state \<Rightarrow> gs_state \<Rightarrow> bool" where
  Load: "i < length (gs_pcs g) \<Longrightarrow> gs_pcs g ! i = GLoad \<Longrightarrow>
     gs_step g (gs_goto i (if gs_is MAGIC_SET g then GRead else if gs_is MAGIC_IN_UPDATE g then GSpin else GExchange) g)"
| Spin: "i < length (gs_pcs g) \<Longrightarrow> gs_pcs g ! i = GSpin \<Longrightarrow>
     gs_step g (gs_goto i (if gs_is MAGIC_SET g then GRead else GSpin) g)"
| Exchange: "i < length (gs_pcs g) \<Longrightarrow> gs_pcs g ! i = GExchange \<Longrightarrow>
     gs_step g (gs_goto i (if gs_is MAGIC_IN_UPDATE g \<or> gs_is MAGIC_SET g then GLoad else GAlloc)
       (g\<lparr>gs_magic := ucast MAGIC_IN_UPDATE\<rparr>))"
| Alloc: "i < length (gs_pcs g) \<Longrightarrow> gs_pcs g ! i = GAlloc \<Longrightarrow>
     gs_step g (gs_goto i (GStore new) (g\<lparr>gs_allocs := gs_allocs g @ [new]\<rparr>))"
| Store: "i < length (gs_pcs g) \<Longrightarrow> gs_pcs g ! i = GStore new \<Longrightarrow>
     gs_step g (gs_goto i GFinish (g\<lparr>gs_object := new\<rparr>))"
| Finish: "i < length (gs_pcs g) \<Longrightarrow> gs_pcs g ! i = GFinish \<Longrightarrow>
     gs_step g (gs_goto i (if gs_is MAGIC_IN_UPDATE g then GRead else GDied) (g\<lparr>gs_magic := ucast MAGIC_SET\<rparr>))"
| Read: "i < length (gs_pcs g) \<Longrightarrow> gs_pcs g ! i = GRead \<Longrightarrow>
     gs_step g (gs_goto i (GDone (gs_object g)) g)"

inductive gs_reach :: "gs_state \<Rightarrow> gs_state \<Rightarrow> bool" where
  Start: "gs_reach g g"
| Step: "gs_reach g g1 \<Longrightarrow> gs_step g1 g2 \<Longrightarrow> gs_reach g g2"

inductive_cases gs_stepE: "gs_step g g'"

definition gs_start :: "u64 \<Rightarrow> nat \<Rightarrow> gs_state" where
  "gs_start magic n = \<lparr>gs_magic = magic, gs_object = 0, gs_allocs = [], gs_pcs = replicate n GLoad\<rparr>"

section \<open>One object for all threads\<close>

definition gs_early :: "gs_pc \<Rightarrow> bool" where
  "gs_early pc \<longleftrightarrow> pc = GLoad \<or> pc = GSpin \<or> pc = GExchange"

definition gs_winner :: "gs_pc \<Rightarrow> bool" where
  "gs_winner pc \<longleftrightarrow> pc = GAlloc \<or> (\<exists>new. pc = GStore new) \<or> pc = GFinish"

text \<open>
  Three phases: nobody has exchanged the magic number; one thread has and is building the object;
  the object is published.
\<close>

definition gs_fresh :: "gs_state \<Rightarrow> bool" where
  "gs_fresh g \<longleftrightarrow> \<not> gs_is MAGIC_IN_UPDATE g \<and> \<not> gs_is MAGIC_SET g \<and> gs_allocs g = [] \<and> (\<forall>pc \<in> set (gs_pcs g). pc = GLoad \<or> pc = GExchange)"

definition gs_building :: "gs_state \<Rightarrow> bool" where
  "gs_building g \<longleftrightarrow> gs_is MAGIC_IN_UPDATE g \<and> (\<exists>i < length (gs_pcs g). gs_winner (gs_pcs g ! i) \<and>
     (\<forall>j < length (gs_pcs g). j \<noteq> i \<longrightarrow> gs_early (gs_pcs g ! j)) \<and>
     (gs_pcs g ! i = GAlloc \<and> gs_allocs g = [] \<or>
      (\<exists>new. gs_allocs g = [new] \<and> (gs_pcs g ! i = GStore new \<or> gs_pcs g ! i = GFinish \<and> gs_object g = new))))"

definition gs_published :: "gs_state \<Rightarrow> bool" where
  "gs_published g \<longleftrightarrow> (gs_is MAGIC_IN_UPDATE g \<or> gs_is MAGIC_SET g) \<and> gs_allocs g = [gs_object g] \<and>
     (\<forall>pc \<in> set (gs_pcs g). gs_early pc \<or> pc = GRead \<or> pc = GDone (gs_object g))"

definition gs_inv :: "gs_state \<Rightarrow> bool" where
  "gs_inv g \<longleftrightarrow> gs_fresh g \<or> gs_building g \<or> gs_published g"

lemma gs_goto_sel [simp]:
  "gs_magic (gs_goto i pc g) = gs_magic g" "gs_object (gs_goto i pc g) = gs_object g" "gs_allocs (gs_goto i pc g) = gs_allocs g"
  "gs_pcs (gs_goto i pc g) = (gs_pcs g)[i := pc]"
  by (simp_all add: gs_goto_def)

lemma magic_width [simp]: "ucast (ucast w :: u64) = w" for w :: u32
  by (rule bit_word_eqI) (simp add: bit_simps)

lemma gs_is_simps [simp]:
  "gs_is v (gs_goto i pc g) = gs_is v g" "gs_is v (g\<lparr>gs_allocs := a\<rparr>) = gs_is v g" "gs_is v (g\<lparr>gs_object := ob\<rparr>) = gs_is v g"
  "gs_is v (g\<lparr>gs_magic := ucast w\<rparr>) = (w = v)"
  by (simp_all add: gs_is_def)

lemma magic_neq [simp]: "MAGIC_IN_UPDATE \<noteq> MAGIC_SET" "MAGIC_SET \<noteq> MAGIC_IN_UPDATE"
  by (simp_all add: MAGIC_IN_UPDATE_def MAGIC_SET_def)

lemma gs_is_unique: "gs_is MAGIC_IN_UPDATE g \<Longrightarrow> \<not> gs_is MAGIC_SET g"
  by (simp add: gs_is_def)

lemma gs_pcs_update: "(\<forall>pc \<in> set xs. P pc) \<Longrightarrow> P y \<Longrightarrow> \<forall>pc \<in> set (xs[i := y]). P pc"
  by (auto dest!: set_update_subset_insert[THEN subsetD])

lemma fresh_step: "gs_fresh g \<Longrightarrow> gs_step g g' \<Longrightarrow> gs_fresh g' \<or> gs_building g'"
proof (erule gs_stepE)
  fix i assume f: "gs_fresh g" and i: "i < length (gs_pcs g)" "gs_pcs g ! i = GExchange"
    and g': "g' = gs_goto i (if gs_is MAGIC_IN_UPDATE g \<or> gs_is MAGIC_SET g then GLoad else GAlloc) (g\<lparr>gs_magic := ucast MAGIC_IN_UPDATE\<rparr>)"
  have "\<forall>j < length (gs_pcs g). gs_early (gs_pcs g ! j)" using f by (auto simp: gs_fresh_def gs_early_def dest: nth_mem)
  then have "gs_building g'" using f i unfolding gs_building_def g'
    by (auto simp: gs_fresh_def gs_winner_def intro!: exI[of _ i])
  then show ?thesis ..
next
  fix i assume f: "gs_fresh g" and i: "i < length (gs_pcs g)" "gs_pcs g ! i = GLoad"
    and g': "g' = gs_goto i (if gs_is MAGIC_SET g then GRead else if gs_is MAGIC_IN_UPDATE g then GSpin else GExchange) g"
  have "gs_fresh g'" using f gs_pcs_update[of "gs_pcs g" "\<lambda>pc. pc = GLoad \<or> pc = GExchange" GExchange i]
    by (auto simp: gs_fresh_def g')
  then show ?thesis ..
qed (auto simp: gs_fresh_def dest!: nth_mem)

text \<open>In the second phase other threads only move between the early places.\<close>

lemma building_other:
  assumes b: "gs_building g" and j: "j < length (gs_pcs g)" "gs_early (gs_pcs g ! j)" and pc: "gs_early pc"
    and m: "gs_is MAGIC_IN_UPDATE g'" "gs_object g' = gs_object g" "gs_allocs g' = gs_allocs g" "gs_pcs g' = (gs_pcs g)[j := pc]"
  shows "gs_building g'"
proof -
  obtain i where i: "i < length (gs_pcs g)" "gs_winner (gs_pcs g ! i)"
    "\<forall>j < length (gs_pcs g). j \<noteq> i \<longrightarrow> gs_early (gs_pcs g ! j)"
    "gs_pcs g ! i = GAlloc \<and> gs_allocs g = [] \<or>
      (\<exists>new. gs_allocs g = [new] \<and> (gs_pcs g ! i = GStore new \<or> gs_pcs g ! i = GFinish \<and> gs_object g = new))"
    using b unfolding gs_building_def by blast
  have "i \<noteq> j" using i(2) j(2) by (auto simp: gs_winner_def gs_early_def)
  then show ?thesis using i j pc m unfolding gs_building_def
    by (intro conjI exI[of _ i]) (auto simp: nth_list_update)
qed

lemma building_step: "gs_building g \<Longrightarrow> gs_step g g' \<Longrightarrow> gs_building g' \<or> gs_published g'"
proof -
  assume b: "gs_building g" and s: "gs_step g g'"
  then have u: "gs_is MAGIC_IN_UPDATE g" "\<not> gs_is MAGIC_SET g" using gs_is_unique by (auto simp: gs_building_def)
  obtain w where w: "w < length (gs_pcs g)" "gs_winner (gs_pcs g ! w)"
    "\<forall>j < length (gs_pcs g). j \<noteq> w \<longrightarrow> gs_early (gs_pcs g ! j)"
    "gs_pcs g ! w = GAlloc \<and> gs_allocs g = [] \<or>
      (\<exists>new. gs_allocs g = [new] \<and> (gs_pcs g ! w = GStore new \<or> gs_pcs g ! w = GFinish \<and> gs_object g = new))"
    using b unfolding gs_building_def by blast
  have only: "i = w" if "i < length (gs_pcs g)" "gs_pcs g ! i = pc" "\<not> gs_early pc" for i pc using w(3) that by blast
  from s show ?thesis
  proof (cases rule: gs_step.cases)
    case (Load i)
    then have "gs_building g'" using u by (intro building_other[OF b, of i GSpin]) (auto simp: gs_early_def)
    then show ?thesis ..
  next
    case (Spin i)
    then have "gs_building g'" using u by (intro building_other[OF b, of i GSpin]) (auto simp: gs_early_def)
    then show ?thesis ..
  next
    case (Exchange i)
    then have "gs_building g'" using u by (intro building_other[OF b, of i GLoad]) (auto simp: gs_early_def)
    then show ?thesis ..
  next
    case (Alloc i new)
    then have "i = w" by (intro only) (auto simp: gs_early_def)
    then have "gs_building g'" using Alloc w u unfolding gs_building_def
      by (intro conjI exI[of _ w]) (auto simp: gs_winner_def)
    then show ?thesis ..
  next
    case (Store i new)
    then have "i = w" by (intro only) (auto simp: gs_early_def)
    then have "gs_building g'" using Store w u unfolding gs_building_def
      by (intro conjI exI[of _ w]) (auto simp: gs_winner_def)
    then show ?thesis ..
  next
    case (Finish i)
    then have i: "i = w" by (intro only) (auto simp: gs_early_def)
    have a: "gs_allocs g = [gs_object g]" using Finish i w(4) by auto
    have "gs_early pc \<or> pc = GRead \<or> pc = GDone (gs_object g)" if "pc \<in> set ((gs_pcs g)[w := GRead])" for pc
    proof -
      obtain j where "j < length (gs_pcs g)" "pc = (gs_pcs g)[w := GRead] ! j" using \<open>pc \<in> _\<close> by (auto simp: in_set_conv_nth)
      then show ?thesis using w(3) by (cases "j = w") auto
    qed
    then have "gs_published g'" using Finish i u a by (auto simp: gs_published_def)
    then show ?thesis ..
  next
    case (Read i)
    then have "i = w" by (intro only) (auto simp: gs_early_def)
    then show ?thesis using Read w(2) by (auto simp: gs_winner_def)
  qed
qed

lemma published_step: "gs_published g \<Longrightarrow> gs_step g g' \<Longrightarrow> gs_published g'"
proof -
  assume p: "gs_published g" and s: "gs_step g g'"
  then have pcs: "\<forall>pc \<in> set (gs_pcs g). gs_early pc \<or> pc = GRead \<or> pc = GDone (gs_object g)"
    and m: "gs_is MAGIC_IN_UPDATE g \<or> gs_is MAGIC_SET g" "gs_allocs g = [gs_object g]" by (auto simp: gs_published_def)
  note up = gs_pcs_update[OF pcs]
  from s show ?thesis
  proof (cases rule: gs_step.cases)
    case (Load i)
    then show ?thesis using m up[of GRead i] up[of GSpin i] unfolding gs_published_def by (auto simp: gs_early_def)
  next
    case (Spin i)
    then show ?thesis using m up[of GRead i] up[of GSpin i] unfolding gs_published_def by (auto simp: gs_early_def)
  next
    case (Exchange i)
    then show ?thesis using m up[of GLoad i] unfolding gs_published_def by (auto simp: gs_early_def)
  next
    case (Read i)
    then show ?thesis using m up[of "GDone (gs_object g)" i] unfolding gs_published_def by auto
  qed (use pcs in \<open>auto simp: gs_early_def dest!: nth_mem\<close>)
qed

lemma gs_inv_reach:
  assumes "gs_reach g g'" "gs_inv g"
  shows "gs_inv g'"
  using assms
proof (induction rule: gs_reach.induct)
  case (Step g g1 g2)
  then show ?case using fresh_step[of g1 g2] building_step[of g1 g2] published_step[of g1 g2]
    unfolding gs_inv_def by blast
qed

text \<open>
  \<^bold>\<open>C8.\<close> However the threads interleave, they agree on one shared object: it is allocated at most
  once, every thread that returns returns it, and no thread fails.
\<close>

theorem shared_object_unique:
  assumes "ucast magic \<noteq> MAGIC_IN_UPDATE" "ucast magic \<noteq> MAGIC_SET" "gs_reach (gs_start magic n) g"
  shows "length (gs_allocs g) \<le> 1 \<and> GDied \<notin> set (gs_pcs g) \<and> (\<forall>ob. GDone ob \<in> set (gs_pcs g) \<longrightarrow> gs_allocs g = [ob])"
proof -
  have "gs_fresh (gs_start magic n)" using assms(1,2) by (auto simp: gs_fresh_def gs_start_def gs_is_def)
  then have "gs_inv g" using gs_inv_reach[OF assms(3)] by (simp add: gs_inv_def)
  then consider "gs_fresh g" | "gs_building g" | "gs_published g" by (auto simp: gs_inv_def)
  then show ?thesis
  proof cases
    case 1
    then show ?thesis by (auto simp: gs_fresh_def)
  next
    case 2
    then obtain w where w: "w < length (gs_pcs g)" "gs_winner (gs_pcs g ! w)" "length (gs_allocs g) \<le> 1"
      "\<forall>j < length (gs_pcs g). j \<noteq> w \<longrightarrow> gs_early (gs_pcs g ! j)" unfolding gs_building_def by auto
    then have "\<forall>pc \<in> set (gs_pcs g). gs_winner pc \<or> gs_early pc" by (metis in_set_conv_nth)
    then show ?thesis using w(3) by (fastforce simp: gs_winner_def gs_early_def)
  next
    case 3
    then show ?thesis by (fastforce simp: gs_published_def gs_early_def)
  qed
qed


lemma reach_load: "gs_reach a g \<Longrightarrow> i < length (gs_pcs g) \<Longrightarrow> gs_pcs g ! i = GLoad \<Longrightarrow>
  gs_reach a (gs_goto i (if gs_is MAGIC_SET g then GRead else if gs_is MAGIC_IN_UPDATE g then GSpin else GExchange) g)"
  by (rule gs_reach.Step[OF _ gs_step.Load])

lemma reach_exchange: "gs_reach a g \<Longrightarrow> i < length (gs_pcs g) \<Longrightarrow> gs_pcs g ! i = GExchange \<Longrightarrow>
  gs_reach a (gs_goto i (if gs_is MAGIC_IN_UPDATE g \<or> gs_is MAGIC_SET g then GLoad else GAlloc) (g\<lparr>gs_magic := ucast MAGIC_IN_UPDATE\<rparr>))"
  by (rule gs_reach.Step[OF _ gs_step.Exchange])

text \<open>A thread that won the exchange runs to its end.\<close>

lemma reach_build:
  assumes "gs_reach a g" "i < length (gs_pcs g)" "gs_pcs g ! i = GAlloc" "gs_is MAGIC_IN_UPDATE g"
  shows "gs_reach a (g\<lparr>gs_magic := ucast MAGIC_SET, gs_object := new, gs_allocs := gs_allocs g @ [new],
    gs_pcs := (gs_pcs g)[i := GDone new]\<rparr>)"
proof -
  define g1 where "g1 = gs_goto i (GStore new) (g\<lparr>gs_allocs := gs_allocs g @ [new]\<rparr>)"
  define g2 where "g2 = gs_goto i GFinish (g1\<lparr>gs_object := new\<rparr>)"
  define g3 where "g3 = gs_goto i GRead (g2\<lparr>gs_magic := ucast MAGIC_SET\<rparr>)"
  have 1: "gs_step g g1" unfolding g1_def by (rule gs_step.Alloc) (use assms in auto)
  have 2: "gs_step g1 g2" unfolding g2_def by (rule gs_step.Store) (use assms in \<open>auto simp: g1_def\<close>)
  have 3: "gs_step g2 g3" using gs_step.Finish[of i g2] assms by (simp add: g1_def g2_def g3_def)
  have 4: "gs_step g3 (gs_goto i (GDone new) g3)" using gs_step.Read[of i g3] assms by (simp add: g1_def g2_def g3_def)
  have e: "gs_goto i (GDone new) g3 = g\<lparr>gs_magic := ucast MAGIC_SET, gs_object := new, gs_allocs := gs_allocs g @ [new],
    gs_pcs := (gs_pcs g)[i := GDone new]\<rparr>" by (simp add: g1_def g2_def g3_def gs_goto_def)
  show ?thesis using gs_reach.Step[OF gs_reach.Step[OF gs_reach.Step[OF gs_reach.Step[OF assms(1) 1] 2] 3] 4] unfolding e .
qed

definition gs_two :: "u64 \<Rightarrow> u64 \<Rightarrow> u64 list \<Rightarrow> gs_pc \<Rightarrow> gs_pc \<Rightarrow> gs_state" where
  "gs_two magic ob allocs p q = \<lparr>gs_magic = magic, gs_object = ob, gs_allocs = allocs, gs_pcs = [p, q]\<rparr>"

lemma gs_two_simps:
  "gs_is v (gs_two m ob al p q) \<longleftrightarrow> ucast m = v" "gs_pcs (gs_two m ob al p q) = [p, q]"
  "gs_goto 0 r (gs_two m ob al p q) = gs_two m ob al r q" "gs_goto (Suc 0) r (gs_two m ob al p q) = gs_two m ob al p r"
  "(gs_two m ob al p q)\<lparr>gs_magic := m'\<rparr> = gs_two m' ob al p q" "gs_start m 2 = gs_two m 0 [] GLoad GLoad"
  "(gs_two m ob al p q)\<lparr>gs_object := ob', gs_allocs := al', gs_pcs := [p', q']\<rparr> = gs_two m ob' al' p' q'"
  "gs_allocs (gs_two m ob al p q) = al"
  by (simp_all add: gs_two_def gs_is_def gs_goto_def gs_start_def numeral_2_eq_2)

lemma two_threads_overlap: "gs_reach (gs_start 0 2) (gs_two (ucast MAGIC_SET) 64 [64] (GDone 64) GExchange)"
proof -
  have m: "(0 :: u32) \<noteq> MAGIC_SET" "(0 :: u32) \<noteq> MAGIC_IN_UPDATE" by (simp_all add: MAGIC_SET_def MAGIC_IN_UPDATE_def)
  let ?r = "gs_reach (gs_start 0 2)"
  have "?r (gs_two 0 0 [] GLoad GLoad)" unfolding gs_two_simps by (rule gs_reach.Start)
  from reach_load[OF this, of 0] have "?r (gs_two 0 0 [] GExchange GLoad)" using m by (simp add: gs_two_simps)
  from reach_load[OF this, of 1] have "?r (gs_two 0 0 [] GExchange GExchange)" using m by (simp add: gs_two_simps)
  from reach_exchange[OF this, of 0] have "?r (gs_two (ucast MAGIC_IN_UPDATE) 0 [] GAlloc GExchange)" using m by (simp add: gs_two_simps)
  from reach_build[OF this, of 0 64] show ?thesis by (simp add: gs_two_simps)
qed

theorem shared_object_unique_witness:
  "gs_allocs (gs_two (ucast MAGIC_SET) 64 [64] (GDone 64) GExchange) = [64]"
proof -
  have "ucast (0 :: u64) \<noteq> MAGIC_IN_UPDATE" "ucast (0 :: u64) \<noteq> MAGIC_SET" by (simp_all add: MAGIC_SET_def MAGIC_IN_UPDATE_def)
  from shared_object_unique[OF this two_threads_overlap] show ?thesis by (simp add: gs_two_simps(2))
qed

text \<open>
  A thread can wait forever. A late exchange overwrites the magic number of a published object
  with the one for an object in update, and nobody sets it again: there is a reachable state in
  which the first thread has returned the object, and in every continuation the second one spins.
\<close>

theorem shared_object_can_hang:
  "\<exists>g. gs_reach (gs_start 0 2) g \<and> gs_pcs g = [GDone 64, GSpin] \<and> (\<forall>g'. gs_reach g g' \<longrightarrow> gs_pcs g' = [GDone 64, GSpin])"
proof -
  let ?g = "gs_two (ucast MAGIC_IN_UPDATE) 64 [64] (GDone 64) GSpin"
  from reach_exchange[OF two_threads_overlap, of 1]
  have "gs_reach (gs_start 0 2) (gs_two (ucast MAGIC_IN_UPDATE) 64 [64] (GDone 64) GLoad)" by (simp add: gs_two_simps)
  from reach_load[OF this, of 1] have r: "gs_reach (gs_start 0 2) ?g" by (simp add: gs_two_simps)
  have stuck: "g' = ?g" if "gs_step ?g g'" for g'
    using that
  proof (cases rule: gs_step.cases)
    case (Spin i)
    then have "i = 1" by (cases i) (auto simp: gs_two_simps)
    then show ?thesis using Spin by (simp add: gs_two_simps)
  qed (auto simp: gs_two_simps nth_Cons' split: if_splits)
  have "g' = ?g" if "gs_reach ?g g'" for g'
    using that by (induction ?g g' rule: gs_reach.induct) (auto dest: stuck)
  then have "\<forall>g'. gs_reach ?g g' \<longrightarrow> gs_pcs g' = [GDone 64, GSpin]" using gs_two_simps(2) by metis
  then show ?thesis using r gs_two_simps(2) by blast
qed

theorem shared_object_can_hang_witness:
  "\<exists>g. gs_reach (gs_start 0 2) g \<and> gs_pcs g = [GDone 64, GSpin]"
  using shared_object_can_hang by blast

section \<open>The wrapped thread library\<close>

text \<open>
  The functions of the thread library behind the wrappers, over a state \<open>'e\<close> of their own. An
  attribute says whether the object works across processes; the rest of it is a number.
\<close>

record sync_attr =
  sa_pshared :: bool
  sa_rest :: nat

record 'e pthreads =
  po_mutex_init :: "u64 \<Rightarrow> sync_attr \<Rightarrow> 'e \<Rightarrow> int \<times> 'e"
  po_mutex_destroy :: "u64 \<Rightarrow> 'e \<Rightarrow> int \<times> 'e"
  po_mutex_lock :: "u64 \<Rightarrow> 'e \<Rightarrow> int \<times> 'e"
  po_mutex_trylock :: "u64 \<Rightarrow> 'e \<Rightarrow> int \<times> 'e"
  po_mutex_unlock :: "u64 \<Rightarrow> 'e \<Rightarrow> int \<times> 'e"
  po_spin_init :: "u64 \<Rightarrow> bool \<Rightarrow> 'e \<Rightarrow> int \<times> 'e"
  po_spin_destroy :: "u64 \<Rightarrow> 'e \<Rightarrow> int \<times> 'e"
  po_spin_lock :: "u64 \<Rightarrow> 'e \<Rightarrow> int \<times> 'e"
  po_spin_trylock :: "u64 \<Rightarrow> 'e \<Rightarrow> int \<times> 'e"
  po_spin_unlock :: "u64 \<Rightarrow> 'e \<Rightarrow> int \<times> 'e"
  po_cond_init :: "u64 \<Rightarrow> sync_attr option \<Rightarrow> 'e \<Rightarrow> int \<times> 'e"
  po_cond_destroy :: "u64 \<Rightarrow> 'e \<Rightarrow> int \<times> 'e"
  po_cond_wait :: "u64 \<Rightarrow> u64 \<Rightarrow> 'e \<Rightarrow> int \<times> 'e"
  po_cond_signal :: "u64 \<Rightarrow> 'e \<Rightarrow> int \<times> 'e"
  po_cond_broadcast :: "u64 \<Rightarrow> 'e \<Rightarrow> int \<times> 'e"
  po_barrier_init :: "u64 \<Rightarrow> sync_attr \<Rightarrow> u32 \<Rightarrow> 'e \<Rightarrow> int \<times> 'e"
  po_barrier_destroy :: "u64 \<Rightarrow> 'e \<Rightarrow> int \<times> 'e"
  po_barrier_wait :: "u64 \<Rightarrow> 'e \<Rightarrow> int \<times> 'e"

text \<open>
  A process: its memory, the internal heap, the objects whose magic number is set with their shared
  copies, whether the original functions were looked up, and the state of the library.
\<close>

record 'e tmi_world =
  tw_mem :: tmi_memory
  tw_internal :: internalmemory
  tw_shared :: "(u64 \<times> u64) list"
  tw_hooked :: bool
  tw_env :: 'e

definition must_hook :: "'e tmi_world \<Rightarrow> unit result" where
  "must_hook w = guardE (tw_hooked w) (Aborted ''orig != nullptr'')"

definition init_orig_functions :: "'e tmi_world \<Rightarrow> 'e tmi_world" where
  "init_orig_functions w = w\<lparr>tw_hooked := True\<rparr>"

text \<open>A call of an original function.\<close>

definition call_orig :: "('e \<Rightarrow> int \<times> 'e) \<Rightarrow> 'e tmi_world \<Rightarrow> (int \<times> 'e tmi_world) result" where
  "call_orig f w = bindE (must_hook w) (\<lambda>_. let (r, e) = f (tw_env w) in Inr (r, w\<lparr>tw_env := e\<rparr>))"

definition tmi_commit :: "'e tmi_world \<Rightarrow> 'e tmi_world result" where
  "tmi_commit w = bindE (commit (tw_mem w)) (\<lambda>m. Inr (w\<lparr>tw_mem := m\<rparr>))"

section \<open>Initialisers\<close>

definition init_mutex :: "'e pthreads \<Rightarrow> u64 \<Rightarrow> 'e tmi_world \<Rightarrow> 'e tmi_world result" where
  "init_mutex po ob w =
     bindE (call_orig (po_mutex_init po ob \<lparr>sa_pshared = True, sa_rest = 0\<rparr>) w) (\<lambda>(r, w1).
     bindE (guardE (r = 0) (AssertFail ''orig_pthread_mutex_init'')) (\<lambda>_. Inr w1))"

definition init_cond :: "'e pthreads \<Rightarrow> u64 \<Rightarrow> 'e tmi_world \<Rightarrow> 'e tmi_world result" where
  "init_cond po ob w = bindE (call_orig (po_cond_init po ob (Some \<lparr>sa_pshared = True, sa_rest = 0\<rparr>)) w) (\<lambda>(r, w1). Inr w1)"

definition init_spinlock :: "'e pthreads \<Rightarrow> u64 \<Rightarrow> 'e tmi_world \<Rightarrow> 'e tmi_world result" where
  "init_spinlock po ob w = bindE (call_orig (po_spin_init po ob True) w) (\<lambda>(r, w1). Inr w1)"

text \<open>The sequential behaviour of \<^verbatim>\<open>get_shared\<close>; \<open>heap\<close> is where the internal heap gets mapped.\<close>

definition get_shared :: "'e pthreads \<Rightarrow> u64 \<Rightarrow> u64 \<Rightarrow> u64 \<Rightarrow> nat \<Rightarrow> 'e tmi_world \<Rightarrow> (u64 \<times> 'e tmi_world) result" where
  "get_shared po heap base_ptr sz kind w =
     (case map_of (tw_shared w) base_ptr of
        Some ob \<Rightarrow> Inr (ob, w)
      | None \<Rightarrow>
          bindE (internal_alloc heap sz (tw_internal w)) (\<lambda>(ob, im).
          bindE (let w1 = w\<lparr>tw_internal := im\<rparr>
                 in if kind = 1 then init_mutex po ob w1
                    else if kind = 2 then init_cond po ob w1
                    else if kind = 3 then init_spinlock po ob w1
                    else Inr w1) (\<lambda>w2.
            Inr (ob, w2\<lparr>tw_shared := (base_ptr, ob) # tw_shared w2\<rparr>))))"

abbreviation shared_mutex :: "'e pthreads \<Rightarrow> u64 \<Rightarrow> u64 \<Rightarrow> 'e tmi_world \<Rightarrow> (u64 \<times> 'e tmi_world) result" where
  "shared_mutex po heap p \<equiv> get_shared po heap p 40 1"

abbreviation shared_cond :: "'e pthreads \<Rightarrow> u64 \<Rightarrow> u64 \<Rightarrow> 'e tmi_world \<Rightarrow> (u64 \<times> 'e tmi_world) result" where
  "shared_cond po heap p \<equiv> get_shared po heap p 48 2"

abbreviation shared_spin :: "'e pthreads \<Rightarrow> u64 \<Rightarrow> u64 \<Rightarrow> 'e tmi_world \<Rightarrow> (u64 \<times> 'e tmi_world) result" where
  "shared_spin po heap p \<equiv> get_shared po heap p 4 3"

abbreviation shared_barrier :: "'e pthreads \<Rightarrow> u64 \<Rightarrow> u64 \<Rightarrow> 'e tmi_world \<Rightarrow> (u64 \<times> 'e tmi_world) result" where
  "shared_barrier po heap p \<equiv> get_shared po heap p 32 0"

section \<open>Wrappers\<close>

definition pthread_mutex_init :: "'e pthreads \<Rightarrow> u64 \<Rightarrow> u64 \<Rightarrow> sync_attr option \<Rightarrow> 'e tmi_world \<Rightarrow> (int \<times> 'e tmi_world) result" where
  "pthread_mutex_init po heap mutex attr w =
     bindE (shared_mutex po heap mutex (init_orig_functions w)) (\<lambda>(real_mutex, w1).
       let newattr = (case attr of None \<Rightarrow> \<lparr>sa_pshared = False, sa_rest = 0\<rparr> | Some a \<Rightarrow> a)
       in call_orig (po_mutex_init po real_mutex (newattr\<lparr>sa_pshared := True\<rparr>)) w1)"

definition pthread_mutex_destroy :: "'e pthreads \<Rightarrow> u64 \<Rightarrow> u64 \<Rightarrow> 'e tmi_world \<Rightarrow> (int \<times> 'e tmi_world) result" where
  "pthread_mutex_destroy po heap mutex w =
     bindE (shared_mutex po heap mutex w) (\<lambda>(real_mutex, w1). call_orig (po_mutex_destroy po real_mutex) w1)"

definition pthread_mutex_lock :: "'e pthreads \<Rightarrow> u64 \<Rightarrow> u64 \<Rightarrow> 'e tmi_world \<Rightarrow> (int \<times> 'e tmi_world) result" where
  "pthread_mutex_lock po heap mutex w =
     bindE (shared_mutex po heap mutex w) (\<lambda>(real_mutex, w1).
     bindE (tmi_commit w1) (\<lambda>w2. call_orig (po_mutex_lock po real_mutex) w2))"

definition pthread_mutex_trylock :: "'e pthreads \<Rightarrow> u64 \<Rightarrow> u64 \<Rightarrow> 'e tmi_world \<Rightarrow> (int \<times> 'e tmi_world) result" where
  "pthread_mutex_trylock po heap mutex w =
     bindE (shared_mutex po heap mutex w) (\<lambda>(real_mutex, w1).
     bindE (tmi_commit w1) (\<lambda>w2. call_orig (po_mutex_trylock po real_mutex) w2))"

definition pthread_mutex_unlock :: "'e pthreads \<Rightarrow> u64 \<Rightarrow> u64 \<Rightarrow> 'e tmi_world \<Rightarrow> (int \<times> 'e tmi_world) result" where
  "pthread_mutex_unlock po heap mutex w =
     bindE (shared_mutex po heap mutex w) (\<lambda>(real_mutex, w1).
     bindE (tmi_commit w1) (\<lambda>w2. call_orig (po_mutex_unlock po real_mutex) w2))"

definition pthread_spin_init :: "'e pthreads \<Rightarrow> u64 \<Rightarrow> u64 \<Rightarrow> bool \<Rightarrow> 'e tmi_world \<Rightarrow> (int \<times> 'e tmi_world) result" where
  "pthread_spin_init po heap lock pshared w =
     bindE (shared_spin po heap lock (init_orig_functions w)) (\<lambda>(real_lock, w1). call_orig (po_spin_init po real_lock True) w1)"

definition pthread_spin_destroy :: "'e pthreads \<Rightarrow> u64 \<Rightarrow> u64 \<Rightarrow> 'e tmi_world \<Rightarrow> (int \<times> 'e tmi_world) result" where
  "pthread_spin_destroy po heap lock w =
     bindE (shared_spin po heap lock w) (\<lambda>(real_lock, w1). call_orig (po_spin_destroy po real_lock) w1)"

definition pthread_spin_lock :: "'e pthreads \<Rightarrow> u64 \<Rightarrow> u64 \<Rightarrow> 'e tmi_world \<Rightarrow> (int \<times> 'e tmi_world) result" where
  "pthread_spin_lock po heap lock w =
     bindE (shared_spin po heap lock w) (\<lambda>(real_lock, w1).
     bindE (tmi_commit w1) (\<lambda>w2. call_orig (po_spin_lock po real_lock) w2))"

definition pthread_spin_trylock :: "'e pthreads \<Rightarrow> u64 \<Rightarrow> u64 \<Rightarrow> 'e tmi_world \<Rightarrow> (int \<times> 'e tmi_world) result" where
  "pthread_spin_trylock po heap lock w =
     bindE (shared_spin po heap lock w) (\<lambda>(real_lock, w1).
     bindE (tmi_commit w1) (\<lambda>w2. call_orig (po_spin_trylock po real_lock) w2))"

definition pthread_spin_unlock :: "'e pthreads \<Rightarrow> u64 \<Rightarrow> u64 \<Rightarrow> 'e tmi_world \<Rightarrow> (int \<times> 'e tmi_world) result" where
  "pthread_spin_unlock po heap lock w =
     bindE (shared_spin po heap lock w) (\<lambda>(real_lock, w1).
     bindE (tmi_commit w1) (\<lambda>w2. call_orig (po_spin_unlock po real_lock) w2))"

text \<open>The prepared attribute is not the one passed on, and the result is always 0.\<close>

definition pthread_cond_init :: "'e pthreads \<Rightarrow> u64 \<Rightarrow> u64 \<Rightarrow> sync_attr option \<Rightarrow> 'e tmi_world \<Rightarrow> (int \<times> 'e tmi_world) result" where
  "pthread_cond_init po heap cond attr w =
     bindE (shared_cond po heap cond (init_orig_functions w)) (\<lambda>(real_cond, w1).
     bindE (guardE (real_cond \<noteq> 0) (Aborted ''real_cond != nullptr'')) (\<lambda>_.
       let attr' = map_option (\<lambda>a. a\<lparr>sa_pshared := True\<rparr>) attr
       in bindE (call_orig (po_cond_init po real_cond attr') w1) (\<lambda>(retval, w2). Inr (0, w2))))"

definition pthread_cond_destroy :: "'e pthreads \<Rightarrow> u64 \<Rightarrow> u64 \<Rightarrow> 'e tmi_world \<Rightarrow> (int \<times> 'e tmi_world) result" where
  "pthread_cond_destroy po heap cond w =
     bindE (shared_cond po heap cond w) (\<lambda>(real_cond, w1). call_orig (po_cond_destroy po real_cond) w1)"

definition pthread_cond_wait :: "'e pthreads \<Rightarrow> u64 \<Rightarrow> u64 \<Rightarrow> u64 \<Rightarrow> 'e tmi_world \<Rightarrow> (int \<times> 'e tmi_world) result" where
  "pthread_cond_wait po heap cond mutex w =
     bindE (shared_cond po heap cond w) (\<lambda>(real_cond, w1).
     bindE (shared_mutex po heap mutex w1) (\<lambda>(real_mutex, w2).
     bindE (tmi_commit w2) (\<lambda>w3. call_orig (po_cond_wait po real_cond real_mutex) w3)))"

definition pthread_cond_signal :: "'e pthreads \<Rightarrow> u64 \<Rightarrow> u64 \<Rightarrow> 'e tmi_world \<Rightarrow> (int \<times> 'e tmi_world) result" where
  "pthread_cond_signal po heap cond w =
     bindE (shared_cond po heap cond w) (\<lambda>(real_cond, w1). call_orig (po_cond_signal po real_cond) w1)"

definition pthread_cond_broadcast :: "'e pthreads \<Rightarrow> u64 \<Rightarrow> u64 \<Rightarrow> 'e tmi_world \<Rightarrow> (int \<times> 'e tmi_world) result" where
  "pthread_cond_broadcast po heap cond w =
     bindE (shared_cond po heap cond w) (\<lambda>(real_cond, w1). call_orig (po_cond_broadcast po real_cond) w1)"

definition pthread_barrier_init :: "'e pthreads \<Rightarrow> u64 \<Rightarrow> u64 \<Rightarrow> sync_attr option \<Rightarrow> u32 \<Rightarrow> 'e tmi_world \<Rightarrow> (int \<times> 'e tmi_world) result" where
  "pthread_barrier_init po heap barrier attr cnt w =
     bindE (shared_barrier po heap barrier (init_orig_functions w)) (\<lambda>(real_barrier, w1).
       let newattr = (case attr of None \<Rightarrow> \<lparr>sa_pshared = False, sa_rest = 0\<rparr> | Some a \<Rightarrow> a)
       in call_orig (po_barrier_init po real_barrier (newattr\<lparr>sa_pshared := True\<rparr>) cnt) w1)"

definition pthread_barrier_destroy :: "'e pthreads \<Rightarrow> u64 \<Rightarrow> u64 \<Rightarrow> 'e tmi_world \<Rightarrow> (int \<times> 'e tmi_world) result" where
  "pthread_barrier_destroy po heap barrier w =
     bindE (shared_barrier po heap barrier w) (\<lambda>(real_barrier, w1). call_orig (po_barrier_destroy po real_barrier) w1)"

definition pthread_barrier_wait :: "'e pthreads \<Rightarrow> u64 \<Rightarrow> u64 \<Rightarrow> 'e tmi_world \<Rightarrow> (int \<times> 'e tmi_world) result" where
  "pthread_barrier_wait po heap barrier w =
     bindE (shared_barrier po heap barrier w) (\<lambda>(real_barrier, w1).
     bindE (tmi_commit w1) (\<lambda>w2. call_orig (po_barrier_wait po real_barrier) w2))"

section \<open>The wrappers commit\<close>

lemma call_orig_mem: "call_orig f w = Inr (r, w') \<Longrightarrow> tw_mem w' = tw_mem w"
  by (auto simp: call_orig_def err_simps Let_def split: prod.splits)

lemma get_shared_mem: "get_shared po heap p sz kind w = Inr (ob, w') \<Longrightarrow> tw_mem w' = tw_mem w"
  by (auto simp: get_shared_def init_mutex_def init_cond_def init_spinlock_def err_simps Let_def
      split: option.splits if_splits prod.splits dest!: call_orig_mem)

lemma lock_commits: "pthread_mutex_lock po heap p w = Inr (r, w') \<Longrightarrow> commit (tw_mem w) = Inr (tw_mem w')"
  by (auto simp: pthread_mutex_lock_def tmi_commit_def err_simps dest!: get_shared_mem call_orig_mem)

lemma unlock_commits: "pthread_mutex_unlock po heap p w = Inr (r, w') \<Longrightarrow> commit (tw_mem w) = Inr (tw_mem w')"
  by (auto simp: pthread_mutex_unlock_def tmi_commit_def err_simps dest!: get_shared_mem call_orig_mem)

text \<open>A library in which every call succeeds.\<close>

definition sample_pthreads :: "unit pthreads" where
  "sample_pthreads = \<lparr>po_mutex_init = (\<lambda>_ _ e. (0, e)), po_mutex_destroy = (\<lambda>_ e. (0, e)), po_mutex_lock = (\<lambda>_ e. (0, e)),
     po_mutex_trylock = (\<lambda>_ e. (0, e)), po_mutex_unlock = (\<lambda>_ e. (0, e)), po_spin_init = (\<lambda>_ _ e. (0, e)),
     po_spin_destroy = (\<lambda>_ e. (0, e)), po_spin_lock = (\<lambda>_ e. (0, e)), po_spin_trylock = (\<lambda>_ e. (0, e)),
     po_spin_unlock = (\<lambda>_ e. (0, e)), po_cond_init = (\<lambda>_ _ e. (0, e)), po_cond_destroy = (\<lambda>_ e. (0, e)),
     po_cond_wait = (\<lambda>_ _ e. (0, e)), po_cond_signal = (\<lambda>_ e. (0, e)), po_cond_broadcast = (\<lambda>_ e. (0, e)),
     po_barrier_init = (\<lambda>_ _ _ e. (0, e)), po_barrier_destroy = (\<lambda>_ e. (0, e)), po_barrier_wait = (\<lambda>_ e. (0, e))\<rparr>"

definition sample_world :: "unit tmi_world" where
  "sample_world = \<lparr>tw_mem = sample_memory, tw_internal = \<lparr>im_start = 0, im_pos = 0, im_end = 0, im_initialized = True\<rparr>,
     tw_shared = [(1, 2)], tw_hooked = True, tw_env = ()\<rparr>"

end
