(* ===== verification/TMI_Lock.thy ===== *)
theory TMI_Lock
  imports TMI_Sync
begin

text \<open>
  Several processes under \<^verbatim>\<open>others/tmi\<close> that share a byte of the heap under a lock: each has private copies of pages and
  a table of page states of its own, and the wrappers of \<^verbatim>\<open>src/tmisync.cpp\<close> commit before they call the lock.
\<close>

section \<open>One process\<close>

text \<open>The page of an offset, as a process has it mapped.\<close>

definition own_page :: "u64 \<Rightarrow> nat \<Rightarrow> tmi_memory \<Rightarrow> page option" where
  "own_page slab off m = os_pages (tm_os m) (unat slab div 4096 + off div 4096)"

definition copied :: "u64 \<Rightarrow> nat \<Rightarrow> tmi_memory \<Rightarrow> bool" where
  "copied slab off m = (case own_page slab off m of None \<Rightarrow> False | Some pg \<Rightarrow> pg_copy pg \<noteq> None)"

text \<open>The state that was recorded at the start of the page.\<close>

definition own_state :: "u64 \<Rightarrow> nat \<Rightarrow> tmi_memory \<Rightarrow> pagestate \<Rightarrow> bool" where
  "own_state slab off m st \<longleftrightarrow> st \<in> set (states_of m) \<and> ps_active st \<and> starts_page st \<and> heap_page slab st = off div 4096"

text \<open>
  What the program has to respect for the byte: every state of its page was recorded at the start of the page, and no
  state of another page reaches the byte.
\<close>

definition reached_alone :: "u64 \<Rightarrow> nat \<Rightarrow> tmi_memory \<Rightarrow> bool" where
  "reached_alone slab off m \<longleftrightarrow> (\<forall>st \<in> set (states_of m).
     off \<in> window slab st \<or> heap_page slab st = off div 4096 \<longrightarrow> starts_page st \<and> heap_page slab st = off div 4096)"

text \<open>A private page is writable only when it has a copy and an active state.\<close>

definition guarded :: "u64 \<Rightarrow> nat \<Rightarrow> tmi_memory \<Rightarrow> bool" where
  "guarded slab off m \<longleftrightarrow> (\<forall>pg x. own_page slab off m = Some pg \<longrightarrow> pg_backing pg = FilePrivate x \<longrightarrow> pg_write pg \<or> pg_copy pg \<noteq> None \<longrightarrow>
     pg_write pg \<and> pg_copy pg \<noteq> None \<and> (\<exists>st. own_state slab off m st))"

definition own_base :: "nat \<Rightarrow> tmi_memory \<Rightarrow> pagestate \<Rightarrow> u8" where
  "own_base off m st = base (tm_os m) st (off mod 4096)"

definition own_view :: "u64 \<Rightarrow> nat \<Rightarrow> tmi_memory \<Rightarrow> u8" where
  "own_view slab off m = view slab (tm_os m) off"

definition shared_byte :: "nat \<Rightarrow> tmi_memory \<Rightarrow> u8" where
  "shared_byte off m = os_file (tm_os m) off"

lemma own_page_shows:
  assumes "heap_inv pers slab m" "off < HEAP_SIZE"
  obtains pg where "own_page slab off m = Some pg"
    "pg_backing pg = FilePrivate (4096 * (off div 4096)) \<or> pg_backing pg = FileShared (4096 * (off div 4096)) \<and> pg_copy pg = None"
proof -
  have "off div 4096 < HEAP_SIZE div 4096" using assms(2) by (simp add: HEAP_SIZE_def)
  then have "shows_page (tm_os m) (unat slab div 4096 + off div 4096) (off div 4096)" using assms(1) by (simp add: heap_inv_def heap_shown_def)
  then show ?thesis using that by (auto simp: shows_page_def own_page_def split: option.splits)
qed

lemma not_copied_view:
  assumes "heap_inv pers slab m" "off < HEAP_SIZE" "\<not> copied slab off m"
  shows "own_view slab off m = shared_byte off m"
proof -
  obtain pg where "own_page slab off m = Some pg"
    "pg_backing pg = FilePrivate (4096 * (off div 4096)) \<or> pg_backing pg = FileShared (4096 * (off div 4096)) \<and> pg_copy pg = None"
    using own_page_shows[OF assms(1,2)] by blast
  then show ?thesis using assms(3) by (auto simp: own_view_def view_def byte_at_def own_page_def shared_byte_def copied_def page_byte_def)
qed

text \<open>The contents of the shared heap only matter for a page without a copy.\<close>

lemma with_heap_same [simp]:
  "own_page slab off (with_heap f m) = own_page slab off m" "copied slab off (with_heap f m) = copied slab off m"
  "states_of (with_heap f m) = states_of m" "own_state slab off (with_heap f m) st = own_state slab off m st"
  "reached_alone slab off (with_heap f m) = reached_alone slab off m" "guarded slab off (with_heap f m) = guarded slab off m"
  "shared_byte off (with_heap f m) = f off" "os_file (tm_os (with_heap f m)) = f" "tm_slabStart (with_heap f m) = tm_slabStart m"
  "with_heap g (with_heap f m) = with_heap g m" "heap_inv pers slab (with_heap f m) = heap_inv pers slab m"
proof -
  have s: "states_of (with_heap f m) = states_of m" by (simp add: states_of_def with_heap_def)
  show p: "own_page slab off (with_heap f m) = own_page slab off m" "states_of (with_heap f m) = states_of m"
    using s by (simp_all add: own_page_def with_heap_def)
  show "copied slab off (with_heap f m) = copied slab off m" by (simp add: copied_def p)
  show o: "own_state slab off (with_heap f m) st = own_state slab off m st" for st by (simp add: own_state_def s)
  show "reached_alone slab off (with_heap f m) = reached_alone slab off m" by (simp add: reached_alone_def s)
  show "guarded slab off (with_heap f m) = guarded slab off m" by (simp add: guarded_def p o)
  show "heap_inv pers slab (with_heap f m) = heap_inv pers slab m"
    by (simp add: heap_inv_def s) (simp add: with_heap_def heap_shown_def share_ok_def shows_page_def states_ok_def twin_ok_def)
qed (simp_all add: shared_byte_def with_heap_def)

lemma with_heap_id: "with_heap (os_file (tm_os m)) m = m"
  by (simp add: with_heap_def)

lemma with_heap_base:
  assumes "heap_inv pers slab m" "st \<in> set (states_of m)"
  shows "own_base off (with_heap f m) st = own_base off m st"
proof -
  have "twin_ok (tm_os m) st" using assms by (simp add: heap_inv_def states_ok_def)
  then show ?thesis unfolding own_base_def by (intro twin_file) (simp_all add: with_heap_def)
qed

lemma with_heap_view:
  assumes "heap_inv pers slab m" "off < HEAP_SIZE"
  shows "own_view slab off (with_heap f m) = (if copied slab off m then own_view slab off m else f off)"
proof (cases "copied slab off m")
  case True
  then show ?thesis
    by (auto simp: copied_def own_view_def view_def byte_at_def own_page_def with_heap_def page_byte_def split: option.splits)
next
  case False
  then show ?thesis using not_copied_view[of pers slab "with_heap f m" off] assms by simp
qed

text \<open>A commit.\<close>

lemma lock_commit:
  assumes R: "regions_ok pers slab" and inv: "heap_inv pers slab m" and off: "off < HEAP_SIZE"
    and g: "guarded slab off m" "reached_alone slab off m" and c: "commit m = Inr m'"
  shows "heap_inv pers slab m' \<and> guarded slab off m' \<and> reached_alone slab off m' \<and> \<not> copied slab off m' \<and>
    (\<not> copied slab off m \<longrightarrow> shared_byte off m' = shared_byte off m) \<and>
    (\<forall>st. copied slab off m \<longrightarrow> own_state slab off m st \<longrightarrow>
      shared_byte off m' = merge3 (own_base off m st) (own_view slab off m) (shared_byte off m))"
proof -
  have inv': "heap_inv pers slab m'" by (rule heap_inv_commit[OF R inv c])
  note mg = commit_merges_inv[OF R inv c, unfolded merges_def, THEN spec, THEN mp, OF off]
  have i: "tm_persistentMemory m = pers" "tm_slabStart m = slab" "heap_shown pers slab (tm_os m)" "states_ok slab (tm_os m) (states_of m)"
    "distinct (map ps_addr (filter starts_page (states_of m)))" using inv by (simp_all add: heap_inv_def)
  have f: "foldE (commit_state pers slab) (states_of m) (tm_os m) = Inr (tm_os m')" "m' = m\<lparr>tm_os := tm_os m'\<rparr>"
    using commit_fold[OF c] i(1,2) by simp_all
  have s: "states_of m' = states_of m" by (subst f(2)) (simp add: states_of_def)
  have o: "own_state slab off m' st = own_state slab off m st" for st by (simp add: own_state_def s)
  obtain pg where pg: "own_page slab off m = Some pg"
    "pg_backing pg = FilePrivate (4096 * (off div 4096)) \<or> pg_backing pg = FileShared (4096 * (off div 4096)) \<and> pg_copy pg = None"
    using own_page_shows[OF inv off] by blast
  have p': "own_page slab off m' = (if \<exists>st. own_state slab off m st then Some (discard pg) else Some pg)"
    using commit_pages[OF R i(3,4) f(1), of "off div 4096"] pg(1) by (auto simp: own_page_def own_state_def)
  have nc: "\<not> copied slab off m'"
    using pg g(1) by (auto simp: copied_def p' discard_def guarded_def)
  have "guarded slab off m'" using pg g(1) by (auto simp: guarded_def p' discard_def o)
  moreover have "reached_alone slab off m'" using g(2) by (simp add: reached_alone_def s)
  moreover have "shared_byte off m' = shared_byte off m" if "\<not> copied slab off m"
    using not_copied_view[OF inv off that] conjunct1[OF mg] by (simp add: shared_byte_def own_view_def)
  moreover have "shared_byte off m' = merge3 (own_base off m st) (own_view slab off m) (shared_byte off m)" if "own_state slab off m st" for st
  proof -
    have st: "st \<in> set (states_of m)" "ps_active st" "starts_page st" "off div 4096 = heap_page slab st" using that by (auto simp: own_state_def)
    have "st' = st" if "st' \<in> set (states_of m)" "ps_active st'" "off \<in> window slab st'" for st'
    proof -
      have "starts_page st'" "heap_page slab st' = heap_page slab st" using g(2) that st(4) by (auto simp: reached_alone_def)
      moreover have "heap_off slab x = 4096 * heap_page slab x" if x: "x \<in> set (states_of m)" "starts_page x" for x
      proof -
        have "heap_off slab x + 16384 \<le> HEAP_SIZE" using i(4) x(1) by (simp add: states_ok_def)
        then have "heap_off slab x mod 4096 = 0" using heap_off_page(2)[OF R, of x] x(2) by simp
        then show ?thesis by (auto simp: heap_page_def heap_off_def)
      qed
      ultimately have "heap_off slab st' = heap_off slab st" using that(1) st by simp
      then have "ps_addr st' = ps_addr st" by (metis heap_off_addr)
      then show ?thesis using i(5) \<open>starts_page st'\<close> that(1) st(1,3) by (auto simp: distinct_map inj_on_def)
    qed
    then have al: "\<forall>st' \<in> set (states_of m). ps_active st' \<and> off \<in> window slab st' \<longrightarrow> st' = st" by blast
    have "ps_active st \<and> starts_page st \<and> off div 4096 = heap_page slab st" using st by simp
    from mg[THEN conjunct2, THEN conjunct2, THEN bspec, OF st(1), THEN mp, OF this] al
    show ?thesis unfolding shared_byte_def own_view_def own_base_def by blast
  qed
  ultimately show ?thesis using inv' nc by blast
qed

text \<open>A store that does not fault.\<close>

lemma lock_write:
  assumes R: "regions_ok pers slab" and inv: "heap_inv pers slab m" and off: "off < HEAP_SIZE" and g: "guarded slab off m"
    and a: "isProtectable a m" and w: "os_write a v (tm_os m) = Inr s" and m': "m' = m\<lparr>tm_os := s\<rparr>"
  shows "guarded slab off m' \<and> own_view slab off m' = (if unat (a - slab) = off then v else own_view slab off m) \<and>
    (unat (a - slab) \<noteq> off \<or> copied slab off m \<longrightarrow> shared_byte off m' = shared_byte off m) \<and> copied slab off m' = copied slab off m \<and>
    states_of m' = states_of m \<and> (\<forall>st \<in> set (states_of m). own_base off m' st = own_base off m st)"
proof -
  define x where "x = unat (a - slab)"
  note px = protectable_off[OF R inv a, folded x_def]
  have H: "heap_shown pers slab (tm_os m)" and S: "states_ok slab (tm_os m) (states_of m)" using inv by (simp_all add: heap_inv_def)
  have w': "os_write (slab + of_nat x) v (tm_os m) = Inr s" using w px(2) by simp
  note hw = heap_write[OF R H px(1) w']
  note ax = heap_page_at[OF R px(1)]
  obtain pg where pg: "os_pages (tm_os m) (unat slab div 4096 + x div 4096) = Some pg" "pg_write pg"
    and s: "(case pg_backing pg of FileShared y \<Rightarrow> os_pages s = os_pages (tm_os m)
      | _ \<Rightarrow> os_pages s = (os_pages (tm_os m))(unat slab div 4096 + x div 4096 \<mapsto> pg\<lparr>pg_copy := Some ((page_byte (tm_os m) pg)(x mod 4096 := v))\<rparr>) \<and>
          os_file s = os_file (tm_os m))"
    using w' unfolding os_write_def ax(1,2) by (auto split: option.splits if_splits backing.splits)
  obtain pq where pq: "own_page slab off m = Some pq"
    "pg_backing pq = FilePrivate (4096 * (off div 4096)) \<or> pg_backing pq = FileShared (4096 * (off div 4096)) \<and> pg_copy pq = None"
    using own_page_shows[OF inv off] by blast
  have st: "states_of m' = states_of m" "\<And>st. own_state slab off m' st = own_state slab off m st"
    by (simp_all add: m' states_of_def own_state_def)
  have bs: "own_base off m' st = own_base off m st" if "st \<in> set (states_of m)" for st
    using hw(1) S that by (simp add: own_base_def m' keeps_def states_ok_def)
  have p': "own_page slab off m' = Some pq \<or> pg_write pq \<and> pg_copy pq \<noteq> None \<and> (\<exists>c. own_page slab off m' = Some (pq\<lparr>pg_copy := Some c\<rparr>)) \<and> os_file s = os_file (tm_os m)"
  proof (cases "x div 4096 = off div 4096")
    case True
    then have e: "pg = pq" using pg(1) pq(1) by (simp add: own_page_def)
    show ?thesis
    proof (cases "pg_copy pq = None")
      case c: True
      then have "pg_backing pq = FileShared (4096 * (off div 4096))" using g pq pg(2) e by (auto simp: guarded_def)
      then show ?thesis using s e pq(1) by (simp add: own_page_def m')
    next
      case False
      then have "pg_backing pq = FilePrivate (4096 * (off div 4096))" using pq(2) by auto
      then show ?thesis using s e pg(2) False True by (auto simp: own_page_def m')
    qed
  next
    case False
    then have "own_page slab off m' = own_page slab off m" using s by (auto simp: own_page_def m' split: backing.splits)
    then show ?thesis using pq by simp
  qed
  have cp: "copied slab off m' = copied slab off m" using p' pq(1) by (auto simp: copied_def)
  have "guarded slab off m'" using g p' pq by (auto simp: guarded_def st(2))
  moreover have "own_view slab off m' = (if x = off then v else own_view slab off m)"
    using hw(2)[OF off] by (auto simp: own_view_def m')
  moreover have "shared_byte off m' = shared_byte off m" if "x \<noteq> off \<or> copied slab off m"
  proof (cases "x = off")
    case False
    then show ?thesis using hw(3)[of off] by (simp add: shared_byte_def m')
  next
    case True
    then have e: "pg = pq" using pg(1) pq(1) by (simp add: own_page_def)
    have "pg_copy pq \<noteq> None" using that True pq(1) by (simp add: copied_def)
    then have "pg_backing pq = FilePrivate (4096 * (off div 4096))" using pq(2) by auto
    then show ?thesis using s e by (simp add: shared_byte_def m')
  qed
  ultimately show ?thesis using cp st(1) bs unfolding x_def by blast
qed

text \<open>Two states that were recorded at the start of the same page are the same.\<close>

lemma own_state_unique:
  assumes R: "regions_ok pers slab" and inv: "heap_inv pers slab m" and "own_state slab off m st" "own_state slab off m st'"
  shows "st' = st"
proof -
  have i: "states_ok slab (tm_os m) (states_of m)" "distinct (map ps_addr (filter starts_page (states_of m)))" using inv by (simp_all add: heap_inv_def)
  have "heap_off slab x = 4096 * (off div 4096)" if x: "own_state slab off m x" for x
  proof -
    have "heap_off slab x + 16384 \<le> HEAP_SIZE" using i(1) x by (simp add: states_ok_def own_state_def)
    then have "heap_off slab x mod 4096 = 0" using heap_off_page(2)[OF R, of x] x by (simp add: own_state_def)
    then show ?thesis using x by (auto simp: heap_page_def heap_off_def own_state_def)
  qed
  then have "ps_addr st' = ps_addr st" using assms(3,4) by (metis heap_off_addr)
  then show ?thesis using i(2) assms(3,4) by (auto simp: distinct_map inj_on_def own_state_def)
qed

lemma own_page_addr:
  assumes "regions_ok pers slab" "heap_inv pers slab m" "isProtectable a m" "b = alignAddressToPage a \<or> b = a"
  shows "unat (b - slab) div 4096 = unat (a - slab) div 4096"
proof -
  note px = protectable_off[OF assms(1-3)]
  have o: "4096 * (unat (a - slab) div 4096) < HEAP_SIZE" using px(1) by (simp add: HEAP_SIZE_def)
  have "unat (alignAddressToPage a - slab) = 4096 * (unat (a - slab) div 4096)"
    using align_heap[OF assms(1) px(1)] unat_gap[of slab "slab + of_nat (4096 * (unat (a - slab) div 4096))"] heap_page_at(4)[OF assms(1) o]
    unfolding px(2)[symmetric] by simp
  then show ?thesis using assms(4) by auto
qed

text \<open>A fault, on a page that is not writable.\<close>

lemma lock_fault:
  assumes P: "placement_ok place" and R: "regions_ok pers slab" and inv: "heap_inv pers slab m" and off: "off < HEAP_SIZE"
    and g: "guarded slab off m" and a: "isProtectable a m" "unat (a - slab) + 16384 \<le> HEAP_SIZE"
    and nw: "os_write a v (tm_os m) = Inl e" and h: "handleSegv place a m = Inr m'" and ra: "reached_alone slab off m'"
  shows "heap_inv pers slab m' \<and> guarded slab off m' \<and> own_view slab off m' = own_view slab off m \<and> shared_byte off m' = shared_byte off m \<and>
    (\<forall>st. copied slab off m' \<longrightarrow> own_state slab off m' st \<longrightarrow>
      (if copied slab off m then own_state slab off m st \<and> own_base off m' st = own_base off m st else own_base off m' st = own_view slab off m))"
proof -
  define q where "q = unat (a - slab) div 4096"
  obtain sts c where inv': "heap_inv pers slab m'" and ft: "faulted place slab a m m' sts c" using handleSegv_effect[OF P R inv a h] by blast
  note f = ft[unfolded faulted_def Let_def, folded q_def]
  have c: "c < length sts" and st': "states_of m' = sts[c := (sts ! c)\<lparr>ps_active := True\<rparr>]" using f by simp_all
  have ad: "ps_addr (sts ! c) = alignAddressToPage a \<or> ps_addr (sts ! c) = a" using f by (elim conjE)
  have pc: "heap_page slab (sts ! c) = q" using own_page_addr[OF R inv a(1) ad] by (simp add: heap_page_def q_def)
  have vs: "own_view slab off m' = own_view slab off m" "shared_byte off m' = shared_byte off m"
    using f off by (simp_all add: own_view_def shared_byte_def)
  obtain pq where pq: "own_page slab off m = Some pq"
    "pg_backing pq = FilePrivate (4096 * (off div 4096)) \<or> pg_backing pq = FileShared (4096 * (off div 4096)) \<and> pg_copy pq = None"
    using own_page_shows[OF inv off] by blast
  show ?thesis
  proof (cases "q = off div 4096")
    case True
    let ?st = "(sts ! c)\<lparr>ps_active := True\<rparr>"
    have mem: "?st \<in> set (states_of m')" using c by (simp add: st' set_update_memI)
    then have own: "own_state slab off m' ?st" using ra pc True by (auto simp: own_state_def reached_alone_def heap_page_def)
    obtain pg where pg: "own_page slab off m' = Some pg" "pg_write pg" "pg_backing pg = pg_backing pq" "pg_copy pg = None \<longrightarrow> pg_backing pg = FileShared (4096 * q)"
      using f pq(1) True by (auto simp: own_page_def)
    have "\<not> pg_write pq"
    proof
      note px = protectable_off[OF R inv a(1)]
      assume "pg_write pq"
      moreover have "os_pages (tm_os m) (unat a div 4096) = Some pq"
        using heap_page_at(1)[OF R px(1)] px(2) pq(1) True by (simp add: own_page_def q_def)
      ultimately show False using nw by (auto simp: os_write_def split: backing.splits)
    qed
    then have nc: "\<not> copied slab off m" using g pq by (auto simp: guarded_def copied_def)
    have "guarded slab off m'" using pg own by (auto simp: guarded_def)
    moreover have "own_base off m' st = own_view slab off m" if "own_state slab off m' st" for st
    proof -
      have "st = ?st" using own_state_unique[OF R inv' own that] .
      then have "own_base off m' st = base (tm_os m') (sts ! c) (off mod 4096)" by (simp add: own_base_def base_def)
      also have "\<dots> = view slab (tm_os m) (4096 * q + off mod 4096)" using f by simp
      finally show ?thesis using True by (simp add: own_view_def)
    qed
    ultimately show ?thesis using inv' vs nc by simp
  next
    case False
    have oq: "off div 4096 < HEAP_SIZE div 4096" using off by (simp add: HEAP_SIZE_def)
    have pg: "own_page slab off m' = own_page slab off m" using f oq False by (auto simp: own_page_def)
    have own: "own_state slab off m' st \<longleftrightarrow> own_state slab off m st" for st
    proof
      assume o: "own_state slab off m' st"
      then have "st \<in> set (sts[c := (sts ! c)\<lparr>ps_active := True\<rparr>])" "heap_page slab st \<noteq> q" using False by (auto simp: own_state_def st')
      moreover have "heap_page slab ((sts ! c)\<lparr>ps_active := True\<rparr>) = q" using pc by (simp add: heap_page_def)
      ultimately have "st \<in> set sts" "st \<noteq> sts ! c" using pc set_update_subset_insert[of sts c "(sts ! c)\<lparr>ps_active := True\<rparr>"] by auto
      then have "st \<in> set (states_of m)" using f by (metis Un_iff empty_iff insert_iff list.set set_append)
      then show "own_state slab off m st" using o by (simp add: own_state_def)
    next
      assume o: "own_state slab off m st"
      then have "st \<in> set sts" using f by (metis Un_iff own_state_def set_append)
      then obtain j where j: "j < length sts" "sts ! j = st" by (auto simp: in_set_conv_nth)
      have "j \<noteq> c" using j pc o False by (auto simp: own_state_def)
      then have "st \<in> set (states_of m')" unfolding st' using j by (metis length_list_update nth_list_update_neq nth_mem)
      then show "own_state slab off m' st" using o by (simp add: own_state_def)
    qed
    have "own_base off m' st = own_base off m st" if o: "own_state slab off m st" for st
    proof -
      have "st \<in> set (states_of m')" using own[of st] o by (simp add: own_state_def)
      then obtain j where j: "j < length sts" "states_of m' ! j = st" by (auto simp: in_set_conv_nth st')
      have "j \<noteq> c" using j c pc o False by (auto simp: own_state_def st' heap_page_def)
      moreover have "distinct (map ps_twin (states_of m'))" using inv' by (simp add: heap_inv_def)
      ultimately have "ps_twin st \<noteq> ps_twin (sts ! c)" using j c nth_eq_iff_index_eq[of "map ps_twin (states_of m')" j c] by (simp add: st')
      then show ?thesis using f o by (simp add: own_base_def own_state_def)
    qed
    then show ?thesis using inv' vs g own pg by (auto simp: guarded_def copied_def)
  qed
qed

text \<open>Any store of the program.\<close>

lemma lock_store:
  assumes P: "placement_ok place" and R: "regions_ok pers slab" and inv: "heap_inv pers slab m" and off: "off < HEAP_SIZE"
    and g: "guarded slab off m" and a: "isProtectable a m" "unat (a - slab) + 16384 \<le> HEAP_SIZE"
    and st: "heap_store place a v m = Some (Inr m')" and ra: "reached_alone slab off m'"
  shows "heap_inv pers slab m' \<and> guarded slab off m' \<and> own_view slab off m' = (if unat (a - slab) = off then v else own_view slab off m) \<and>
    (unat (a - slab) \<noteq> off \<or> copied slab off m' \<longrightarrow> shared_byte off m' = shared_byte off m) \<and>
    (\<forall>st. copied slab off m' \<longrightarrow> own_state slab off m' st \<longrightarrow>
      (if copied slab off m then own_state slab off m st \<and> own_base off m' st = own_base off m st else own_base off m' st = own_view slab off m))"
  using st
proof (cases rule: heap_store_cases)
  case (plain s)
  note w = lock_write[OF R inv off g a(1) plain]
  have "heap_inv pers slab m'" unfolding plain(2) by (rule heap_inv_write[OF R inv a(1) plain(1)])
  then show ?thesis using w by (auto simp: own_state_def)
next
  case (fault m1 s e)
  have r1: "reached_alone slab off m1" using ra fault(4) by (simp add: reached_alone_def states_of_def)
  note h = lock_fault[OF P R inv off g a fault(1,2) r1]
  have a1: "isProtectable a m1" using a(1) inv h by (simp add: isProtectable_def heap_inv_def)
  note w = lock_write[OF R conjunct1[OF h] off _ a1 fault(3,4)]
  have "heap_inv pers slab m'" unfolding fault(4) using heap_inv_write[OF R _ a1 fault(3)] h by blast
  then show ?thesis using w h by (auto simp: own_state_def)
qed

section \<open>Several processes\<close>

text \<open>
  Where a process is: outside, in the lock function behind its commit, inside, or in the unlock function behind its commit.
  All processes see one shared heap; the copy of it in the memory of a process is not used.
\<close>

datatype handover_pc = LOut | LWait | LIn | LLeave

record 'e lock_sys =
  ls_heap :: "nat \<Rightarrow> u8"
  ls_worlds :: "'e tmi_world list"
  ls_pcs :: "handover_pc list"
  ls_last :: u8

definition world_at :: "nat \<Rightarrow> 'e lock_sys \<Rightarrow> 'e tmi_world" where
  "world_at i s = (ls_worlds s ! i)\<lparr>tw_mem := with_heap (ls_heap s) (tw_mem (ls_worlds s ! i))\<rparr>"

abbreviation mem_at :: "nat \<Rightarrow> 'e lock_sys \<Rightarrow> tmi_memory" where
  "mem_at i s \<equiv> tw_mem (world_at i s)"

definition moves :: "nat \<Rightarrow> 'e tmi_world \<Rightarrow> handover_pc \<Rightarrow> 'e lock_sys \<Rightarrow> 'e lock_sys" where
  "moves i w pc s = s\<lparr>ls_heap := os_file (tm_os (tw_mem w)), ls_worlds := (ls_worlds s)[i := w], ls_pcs := (ls_pcs s)[i := pc]\<rparr>"

text \<open>
  The byte at \<open>off\<close> is only written inside the lock, and \<open>ls_last\<close> is the value of the latest of these stores. Any process may
  store elsewhere and synchronise otherwise at any time. The lock lets a process in when no other is inside.
\<close>

inductive handover_step :: "'e pthreads \<Rightarrow> u64 \<Rightarrow> u64 \<Rightarrow> placement \<Rightarrow> u64 \<Rightarrow> nat \<Rightarrow> 'e lock_sys \<Rightarrow> 'e lock_sys \<Rightarrow> bool"
  for po heap mutex place slab off where
  LockStore: "i < length (ls_pcs s) \<Longrightarrow> ls_pcs s ! i \<in> {LOut, LIn} \<Longrightarrow> isProtectable a (mem_at i s) \<Longrightarrow>
    unat (a - slab) + 16384 \<le> HEAP_SIZE \<Longrightarrow> (unat (a - slab) = off \<Longrightarrow> ls_pcs s ! i = LIn) \<Longrightarrow>
    heap_store place a v (mem_at i s) = Some (Inr m') \<Longrightarrow> reached_alone slab off m' \<Longrightarrow>
    handover_step po heap mutex place slab off s
      ((moves i ((world_at i s)\<lparr>tw_mem := m'\<rparr>) (ls_pcs s ! i) s)\<lparr>ls_last := if unat (a - slab) = off then v else ls_last s\<rparr>)"
| LockSync: "i < length (ls_pcs s) \<Longrightarrow> ls_pcs s ! i \<in> {LOut, LIn} \<Longrightarrow> tmi_commit (world_at i s) = Inr w' \<Longrightarrow>
    handover_step po heap mutex place slab off s (moves i w' (ls_pcs s ! i) s)"
| LockCall: "i < length (ls_pcs s) \<Longrightarrow> ls_pcs s ! i = LOut \<Longrightarrow> pthread_mutex_lock po heap mutex (world_at i s) = Inr (r, w') \<Longrightarrow>
    handover_step po heap mutex place slab off s (moves i w' LWait s)"
| LockGrant: "i < length (ls_pcs s) \<Longrightarrow> ls_pcs s ! i = LWait \<Longrightarrow> \<forall>pc \<in> set (ls_pcs s). pc \<noteq> LIn \<and> pc \<noteq> LLeave \<Longrightarrow>
    handover_step po heap mutex place slab off s (s\<lparr>ls_pcs := (ls_pcs s)[i := LIn]\<rparr>)"
| LockUnlock: "i < length (ls_pcs s) \<Longrightarrow> ls_pcs s ! i = LIn \<Longrightarrow> pthread_mutex_unlock po heap mutex (world_at i s) = Inr (r, w') \<Longrightarrow>
    handover_step po heap mutex place slab off s (moves i w' LLeave s)"
| LockRelease: "i < length (ls_pcs s) \<Longrightarrow> ls_pcs s ! i = LLeave \<Longrightarrow>
    handover_step po heap mutex place slab off s (s\<lparr>ls_pcs := (ls_pcs s)[i := LOut]\<rparr>)"

inductive handover_reach :: "'e pthreads \<Rightarrow> u64 \<Rightarrow> u64 \<Rightarrow> placement \<Rightarrow> u64 \<Rightarrow> nat \<Rightarrow> 'e lock_sys \<Rightarrow> 'e lock_sys \<Rightarrow> bool"
  for po heap mutex place slab off where
  lock_refl: "handover_reach po heap mutex place slab off s s"
| lock_more: "handover_reach po heap mutex place slab off s s1 \<Longrightarrow> handover_step po heap mutex place slab off s1 s2 \<Longrightarrow>
    handover_reach po heap mutex place slab off s s2"

text \<open>Processes that have just been made: nothing is recorded, and the page of the byte is shared or protected.\<close>

definition converted :: "u64 \<Rightarrow> nat \<Rightarrow> tmi_memory \<Rightarrow> bool" where
  "converted slab off m \<longleftrightarrow> states_of m = [] \<and> (\<forall>pg x. own_page slab off m = Some pg \<longrightarrow>
     pg_copy pg = None \<and> (pg_backing pg = FilePrivate x \<longrightarrow> \<not> pg_write pg))"

definition lock_start :: "(nat \<Rightarrow> u8) \<Rightarrow> 'e tmi_world list \<Rightarrow> nat \<Rightarrow> 'e lock_sys" where
  "lock_start f ws off = \<lparr>ls_heap = f, ls_worlds = ws, ls_pcs = replicate (length ws) LOut, ls_last = f off\<rparr>"

section \<open>Handing over a lock\<close>

definition process_ok :: "u64 \<Rightarrow> u64 \<Rightarrow> nat \<Rightarrow> u8 \<Rightarrow> tmi_memory \<Rightarrow> handover_pc \<Rightarrow> bool" where
  "process_ok pers slab off val m pc \<longleftrightarrow> heap_inv pers slab m \<and> guarded slab off m \<and> reached_alone slab off m \<and>
     (case pc of
        LOut \<Rightarrow> copied slab off m \<longrightarrow> (\<forall>st. own_state slab off m st \<longrightarrow> own_base off m st = own_view slab off m)
      | LIn \<Rightarrow> own_view slab off m = val \<and> (copied slab off m \<longrightarrow> (\<forall>st. own_state slab off m st \<longrightarrow> own_base off m st = shared_byte off m))
      | _ \<Rightarrow> \<not> copied slab off m)"

text \<open>Other processes: their commits and stores matter only to a process inside, and only at the byte.\<close>

lemma process_frame:
  assumes "process_ok pers slab off val m pc" "off < HEAP_SIZE" "pc = LIn \<longrightarrow> f off = shared_byte off m \<and> val' = val"
  shows "process_ok pers slab off val' (with_heap f m) pc"
proof -
  have inv: "heap_inv pers slab m" using assms(1) by (simp add: process_ok_def)
  have "own_base off (with_heap f m) st = own_base off m st" if "own_state slab off m st" for st
    using with_heap_base[OF inv] that by (simp add: own_state_def)
  then show ?thesis using assms not_copied_view[OF inv assms(2)] with_heap_view[OF inv assms(2), of f]
    by (cases pc) (auto simp: process_ok_def)
qed

lemma copied_own:
  assumes "heap_inv pers slab m" "off < HEAP_SIZE" "guarded slab off m" "copied slab off m"
  obtains st where "own_state slab off m st"
proof -
  obtain pg where "own_page slab off m = Some pg"
    "pg_backing pg = FilePrivate (4096 * (off div 4096)) \<or> pg_backing pg = FileShared (4096 * (off div 4096)) \<and> pg_copy pg = None"
    using own_page_shows[OF assms(1,2)] by blast
  then show ?thesis using that assms(3,4) by (auto simp: guarded_def copied_def)
qed

lemma process_commit:
  assumes R: "regions_ok pers slab" and off: "off < HEAP_SIZE" and ok: "process_ok pers slab off val m pc" "pc = LOut \<or> pc = LIn"
    and c: "commit m = Inr m'"
  shows "shared_byte off m' = (if pc = LIn then val else shared_byte off m) \<and> \<not> copied slab off m' \<and>
    heap_inv pers slab m' \<and> guarded slab off m' \<and> reached_alone slab off m'"
proof -
  have i: "heap_inv pers slab m" "guarded slab off m" "reached_alone slab off m" using ok(1) by (simp_all add: process_ok_def)
  note e = lock_commit[OF R i(1) off i(2,3) c]
  have "shared_byte off m' = (if pc = LIn then val else shared_byte off m)"
  proof (cases "copied slab off m")
    case False
    then show ?thesis using e ok not_copied_view[OF i(1) off False] by (auto simp: process_ok_def)
  next
    case True
    then obtain st where st: "own_state slab off m st" using copied_own[OF i(1) off i(2)] by blast
    then have "shared_byte off m' = merge3 (own_base off m st) (own_view slab off m) (shared_byte off m)" using e True by blast
    then show ?thesis using ok True st by (auto simp: process_ok_def merge3_def)
  qed
  then show ?thesis using e by blast
qed

definition lock_inv :: "u64 \<Rightarrow> u64 \<Rightarrow> nat \<Rightarrow> 'e lock_sys \<Rightarrow> bool" where
  "lock_inv pers slab off s \<longleftrightarrow> length (ls_worlds s) = length (ls_pcs s) \<and>
     (\<forall>i < length (ls_pcs s). process_ok pers slab off (ls_last s) (mem_at i s) (ls_pcs s ! i)) \<and>
     (\<forall>i < length (ls_pcs s). \<forall>j < length (ls_pcs s). ls_pcs s ! i \<in> {LIn, LLeave} \<longrightarrow> ls_pcs s ! j \<in> {LIn, LLeave} \<longrightarrow> i = j) \<and>
     (LIn \<notin> set (ls_pcs s) \<longrightarrow> ls_heap s off = ls_last s)"

lemma moves_simps [simp]:
  "ls_heap (moves i w pc s) = os_file (tm_os (tw_mem w))" "ls_pcs (moves i w pc s) = (ls_pcs s)[i := pc]"
  "ls_last (moves i w pc s) = ls_last s" "length (ls_worlds (moves i w pc s)) = length (ls_worlds s)"
  by (simp_all add: moves_def)

lemma mem_at_moves:
  assumes "i < length (ls_worlds s)" "j < length (ls_worlds s)"
  shows "mem_at j (moves i w pc s) = (if j = i then tw_mem w else with_heap (os_file (tm_os (tw_mem w))) (mem_at j s))"
  using assms by (simp add: world_at_def moves_def with_heap_id nth_list_update)

lemma mem_at_shared [simp]: "shared_byte off (mem_at i s) = ls_heap s off" "os_file (tm_os (mem_at i s)) = ls_heap s"
  by (simp_all add: world_at_def)

text \<open>
  A step of one process, to a memory that is in order for its new place. It may change the byte of the shared heap when it was
  inside; then no other process is.
\<close>

lemma lock_inv_moves:
  assumes inv: "lock_inv pers slab off s" and off: "off < HEAP_SIZE" and i: "i < length (ls_pcs s)"
    and ok: "process_ok pers slab off val (tw_mem w) pc"
    and same: "ls_pcs s ! i \<noteq> LIn \<Longrightarrow> shared_byte off (tw_mem w) = ls_heap s off \<and> val = ls_last s"
    and pc: "pc = ls_pcs s ! i \<or> ls_pcs s ! i = LOut \<and> pc = LWait \<or> ls_pcs s ! i = LIn \<and> pc = LLeave \<and> shared_byte off (tw_mem w) = val"
  shows "lock_inv pers slab off ((moves i w pc s)\<lparr>ls_last := val\<rparr>)"
proof -
  have len: "length (ls_worlds s) = length (ls_pcs s)" using inv by (simp add: lock_inv_def)
  have one: "j = k" if "j < length (ls_pcs s)" "k < length (ls_pcs s)" "ls_pcs s ! j \<in> {LIn, LLeave}" "ls_pcs s ! k \<in> {LIn, LLeave}" for j k
    using inv that unfolding lock_inv_def by blast
  have ma: "mem_at j ((moves i w pc s)\<lparr>ls_last := val\<rparr>) = mem_at j (moves i w pc s)" for j by (simp add: world_at_def)
  have "process_ok pers slab off val (mem_at j (moves i w pc s)) ((ls_pcs s)[i := pc] ! j)" if j: "j < length (ls_pcs s)" for j
  proof (cases "j = i")
    case True
    then show ?thesis using ok i len by (simp add: mem_at_moves)
  next
    case False
    have "process_ok pers slab off (ls_last s) (mem_at j s) (ls_pcs s ! j)" using inv j by (simp add: lock_inv_def)
    moreover have "ls_pcs s ! j = LIn \<longrightarrow> os_file (tm_os (tw_mem w)) off = shared_byte off (mem_at j s) \<and> val = ls_last s"
    proof
      assume "ls_pcs s ! j = LIn"
      then have "ls_pcs s ! i \<noteq> LIn" using one[OF i j] False by auto
      then show "os_file (tm_os (tw_mem w)) off = shared_byte off (mem_at j s) \<and> val = ls_last s" using same by (simp add: shared_byte_def[of off "tw_mem w"])
    qed
    ultimately show ?thesis using process_frame[OF _ off] False i j len by (simp add: mem_at_moves)
  qed
  moreover have "j = k" if jk: "j < length (ls_pcs s)" "k < length (ls_pcs s)" "(ls_pcs s)[i := pc] ! j \<in> {LIn, LLeave}"
    "(ls_pcs s)[i := pc] ! k \<in> {LIn, LLeave}" for j k
  proof -
    have "ls_pcs s ! x \<in> {LIn, LLeave}" if "x < length (ls_pcs s)" "(ls_pcs s)[i := pc] ! x \<in> {LIn, LLeave}" for x
      using that pc by (cases "x = i") auto
    then show ?thesis using one jk by blast
  qed
  moreover have "os_file (tm_os (tw_mem w)) off = val" if n: "LIn \<notin> set ((ls_pcs s)[i := pc])"
  proof (cases "ls_pcs s ! i = LIn")
    case True
    have "pc \<noteq> LIn" using n i by (metis length_list_update nth_list_update_eq nth_mem)
    then show ?thesis using pc True by (auto simp: shared_byte_def)
  next
    case False
    have "LIn \<notin> set (ls_pcs s)"
    proof
      assume "LIn \<in> set (ls_pcs s)"
      then obtain j where "j < length (ls_pcs s)" "ls_pcs s ! j = LIn" by (auto simp: in_set_conv_nth)
      moreover from this have "j \<noteq> i" using False by auto
      ultimately have "LIn \<in> set ((ls_pcs s)[i := pc])" by (metis length_list_update nth_list_update_neq nth_mem)
      then show False using n by simp
    qed
    then show ?thesis using inv same False by (simp add: lock_inv_def shared_byte_def[of off "tw_mem w"])
  qed
  ultimately show ?thesis unfolding lock_inv_def ma using len by simp
qed

lemma lock_inv_commit:
  assumes R: "regions_ok pers slab" and inv: "lock_inv pers slab off s" and off: "off < HEAP_SIZE" and i: "i < length (ls_pcs s)"
    and c: "commit (mem_at i s) = Inr (tw_mem w)"
    and pc: "pc = ls_pcs s ! i \<and> pc \<in> {LOut, LIn} \<or> ls_pcs s ! i = LOut \<and> pc = LWait \<or> ls_pcs s ! i = LIn \<and> pc = LLeave"
  shows "lock_inv pers slab off (moves i w pc s)"
proof -
  have ok: "process_ok pers slab off (ls_last s) (mem_at i s) (ls_pcs s ! i)" using inv i by (simp add: lock_inv_def)
  have p: "ls_pcs s ! i = LOut \<or> ls_pcs s ! i = LIn" using pc by auto
  note e = process_commit[OF R off ok p c]
  then have "own_view slab off (tw_mem w) = shared_byte off (tw_mem w)" using not_copied_view off by blast
  then have "process_ok pers slab off (ls_last s) (tw_mem w) pc" using e pc by (auto simp: process_ok_def)
  then have "lock_inv pers slab off ((moves i w pc s)\<lparr>ls_last := ls_last s\<rparr>)"
    by (rule lock_inv_moves[OF inv off i]) (use e pc in auto)
  moreover have "(moves i w pc s)\<lparr>ls_last := ls_last s\<rparr> = moves i w pc s" by (simp add: moves_def)
  ultimately show ?thesis by simp
qed

lemma lock_inv_store:
  assumes P: "placement_ok place" and R: "regions_ok pers slab" and inv: "lock_inv pers slab off s" and off: "off < HEAP_SIZE"
    and i: "i < length (ls_pcs s)" "ls_pcs s ! i \<in> {LOut, LIn}" and a: "isProtectable a (mem_at i s)" "unat (a - slab) + 16384 \<le> HEAP_SIZE"
    and l: "unat (a - slab) = off \<Longrightarrow> ls_pcs s ! i = LIn"
    and st: "heap_store place a v (mem_at i s) = Some (Inr m')" and ra: "reached_alone slab off m'"
  shows "lock_inv pers slab off
    ((moves i ((world_at i s)\<lparr>tw_mem := m'\<rparr>) (ls_pcs s ! i) s)\<lparr>ls_last := if unat (a - slab) = off then v else ls_last s\<rparr>)"
proof -
  let ?val = "if unat (a - slab) = off then v else ls_last s"
  have ok: "process_ok pers slab off (ls_last s) (mem_at i s) (ls_pcs s ! i)" using inv i(1) by (simp add: lock_inv_def)
  then have p: "heap_inv pers slab (mem_at i s)" "guarded slab off (mem_at i s)" by (simp_all add: process_ok_def)
  note e = lock_store[OF P R p(1) off p(2) a st ra]
  have nc: "own_view slab off (mem_at i s) = ls_heap s off" if "\<not> copied slab off (mem_at i s)"
    using not_copied_view[OF p(1) off that] by simp
  have "process_ok pers slab off ?val m' (ls_pcs s ! i)"
  proof (cases "ls_pcs s ! i")
    case LOut
    then show ?thesis using ok e ra l unfolding process_ok_def by (auto split: if_splits)
  next
    case LIn
    then show ?thesis using ok e ra nc unfolding process_ok_def by (auto split: if_splits)
  qed (use i(2) in auto)
  then show ?thesis by (intro lock_inv_moves[OF inv off i(1)]) (use e l in \<open>auto split: if_splits\<close>)
qed

lemma lock_inv_pcs:
  assumes inv: "lock_inv pers slab off s" and off: "off < HEAP_SIZE" and i: "i < length (ls_pcs s)"
    and pc: "ls_pcs s ! i = LWait \<and> pc = LIn \<and> (\<forall>p \<in> set (ls_pcs s). p \<noteq> LIn \<and> p \<noteq> LLeave) \<or> ls_pcs s ! i = LLeave \<and> pc = LOut"
  shows "lock_inv pers slab off (s\<lparr>ls_pcs := (ls_pcs s)[i := pc]\<rparr>)"
proof -
  have ma: "mem_at j (s\<lparr>ls_pcs := x\<rparr>) = mem_at j s" for j x by (simp add: world_at_def)
  have oks: "process_ok pers slab off (ls_last s) (mem_at j s) (ls_pcs s ! j)" if "j < length (ls_pcs s)" for j using inv that by (simp add: lock_inv_def)
  have free: "LIn \<notin> set (ls_pcs s)"
  proof
    assume "LIn \<in> set (ls_pcs s)"
    then obtain j where "j < length (ls_pcs s)" "ls_pcs s ! j = LIn" by (auto simp: in_set_conv_nth)
    then show False using inv pc i unfolding lock_inv_def by (metis insertCI handover_pc.distinct nth_mem)
  qed
  then have last: "ls_heap s off = ls_last s" using inv by (simp add: lock_inv_def)
  have "process_ok pers slab off (ls_last s) (mem_at i s) pc"
    using oks[OF i] pc last not_copied_view[of pers slab "mem_at i s" off] off by (auto simp: process_ok_def)
  then have "process_ok pers slab off (ls_last s) (mem_at j s) ((ls_pcs s)[i := pc] ! j)" if "j < length (ls_pcs s)" for j
    using oks[OF that] that by (cases "j = i") auto
  moreover have "j = k" if jk: "j < length (ls_pcs s)" "k < length (ls_pcs s)" "(ls_pcs s)[i := pc] ! j \<in> {LIn, LLeave}"
    "(ls_pcs s)[i := pc] ! k \<in> {LIn, LLeave}" for j k
  proof (cases "pc = LIn")
    case True
    then have "ls_pcs s ! x \<notin> {LIn, LLeave}" if "x < length (ls_pcs s)" for x using pc that nth_mem[OF that] by auto
    then show ?thesis using jk by (metis nth_list_update_neq)
  next
    case False
    then have "j \<noteq> i" "k \<noteq> i" using jk pc i by auto
    then show ?thesis using inv jk unfolding lock_inv_def by auto
  qed
  ultimately show ?thesis using inv last unfolding lock_inv_def ma by simp
qed

lemma lock_inv_step:
  assumes P: "placement_ok place" and R: "regions_ok pers slab" and off: "off < HEAP_SIZE"
    and st: "handover_step po heap mutex place slab off s s'" and inv: "lock_inv pers slab off s"
  shows "lock_inv pers slab off s'"
  using st
proof cases
  case (LockStore i a v m')
  then show ?thesis using lock_inv_store[OF P R inv off] by simp
next
  case (LockSync i w')
  then show ?thesis using lock_inv_commit[OF R inv off] by (auto simp: tmi_commit_def err_simps)
next
  case (LockCall i r w')
  then show ?thesis using lock_inv_commit[OF R inv off LockCall(2) lock_commits[OF LockCall(4)]] by simp
next
  case (LockUnlock i r w')
  then show ?thesis using lock_inv_commit[OF R inv off LockUnlock(2) unlock_commits[OF LockUnlock(4)]] by simp
qed (use lock_inv_pcs[OF inv off] in auto)

lemma lock_inv_start:
  assumes off: "off < HEAP_SIZE" and ws: "\<forall>w \<in> set ws. heap_inv pers slab (tw_mem w) \<and> converted slab off (tw_mem w)"
  shows "lock_inv pers slab off (lock_start f ws off)"
proof -
  have "process_ok pers slab off (f off) (mem_at i (lock_start f ws off)) LOut" if "i < length ws" for i
  proof -
    have m: "mem_at i (lock_start f ws off) = with_heap f (tw_mem (ws ! i))" by (simp add: world_at_def lock_start_def)
    have w: "heap_inv pers slab (tw_mem (ws ! i))" "converted slab off (tw_mem (ws ! i))" using ws that by simp_all
    then have "\<not> copied slab off (tw_mem (ws ! i))" by (auto simp: copied_def converted_def split: option.splits)
    then show ?thesis using w by (auto simp: process_ok_def m guarded_def converted_def reached_alone_def)
  qed
  then show ?thesis by (simp add: lock_inv_def lock_start_def)
qed

lemma lock_inv_reach:
  assumes "placement_ok place" "regions_ok pers slab" "off < HEAP_SIZE" "handover_reach po heap mutex place slab off s s'" "lock_inv pers slab off s"
  shows "lock_inv pers slab off s'"
  using assms(4,5) by induction (auto intro: lock_inv_step[OF assms(1-3)])


section \<open>A sample run\<close>

definition sample_process :: "unit tmi_world" where
  "sample_process = sample_world\<lparr>tw_mem := sample_protected\<rparr>"

abbreviation sample_lock_runs :: "unit lock_sys \<Rightarrow> bool" where
  "sample_lock_runs \<equiv> handover_reach sample_pthreads 0 1 one_place 0x300000000 0 (lock_start (\<lambda>_. 0) [sample_process, sample_process] 0)"

lemma sample_lock_calls:
  assumes "tw_shared w = [(1, 2)]" "tw_hooked w" "commit (tw_mem w) = Inr m"
  shows "pthread_mutex_lock sample_pthreads 0 1 w = Inr (0, w\<lparr>tw_mem := m\<rparr>)" "pthread_mutex_unlock sample_pthreads 0 1 w = Inr (0, w\<lparr>tw_mem := m\<rparr>)"
  using assms by (simp_all add: pthread_mutex_lock_def pthread_mutex_unlock_def get_shared_def tmi_commit_def call_orig_def must_hook_def
      sample_pthreads_def guardE_def)

lemma sample_converted: "converted 0x300000000 0 sample_protected" "commit (with_heap f sample_protected) = Inr (with_heap f sample_protected)"
  "with_heap (\<lambda>_. 0) sample_protected = sample_protected"
proof -
  show "converted 0x300000000 0 sample_protected"
    using sample_protected_page by (simp add: converted_def states_of_def own_page_def)
  show "commit (with_heap f sample_protected) = Inr (with_heap f sample_protected)"
    using sample_protected_page(3) by (simp add: commit_def with_heap_def guardE_def)
  show "with_heap (\<lambda>_. 0) sample_protected = sample_protected" using with_heap_id[of sample_protected] sample_protected_page(4) by simp
qed

definition sample_sys :: "(nat \<Rightarrow> u8) \<Rightarrow> tmi_memory \<Rightarrow> tmi_memory \<Rightarrow> handover_pc \<Rightarrow> handover_pc \<Rightarrow> u8 \<Rightarrow> unit lock_sys" where
  "sample_sys f m0 m1 p0 p1 v = \<lparr>ls_heap = f, ls_worlds = [sample_process\<lparr>tw_mem := m0\<rparr>, sample_process\<lparr>tw_mem := m1\<rparr>], ls_pcs = [p0, p1], ls_last = v\<rparr>"

lemma sample_sys_simps:
  "world_at 0 (sample_sys f m0 m1 p0 p1 v) = sample_process\<lparr>tw_mem := with_heap f m0\<rparr>"
  "world_at 1 (sample_sys f m0 m1 p0 p1 v) = sample_process\<lparr>tw_mem := with_heap f m1\<rparr>"
  "moves 0 (sample_process\<lparr>tw_mem := m\<rparr>) pc (sample_sys f m0 m1 p0 p1 v) = sample_sys (os_file (tm_os m)) m m1 pc p1 v"
  "moves 1 (sample_process\<lparr>tw_mem := m\<rparr>) pc (sample_sys f m0 m1 p0 p1 v) = sample_sys (os_file (tm_os m)) m0 m p0 pc v"
  by (simp_all add: world_at_def moves_def sample_sys_def)

lemma sample_begins: "sample_lock_runs (sample_sys (\<lambda>_. 0) sample_protected sample_protected LOut LOut 0)"
proof -
  have "lock_start (\<lambda>_. 0) [sample_process, sample_process] 0 = sample_sys (\<lambda>_. 0) sample_protected sample_protected LOut LOut 0"
    by (simp add: lock_start_def sample_sys_def sample_process_def)
  then show ?thesis using lock_refl by metis
qed

lemma sample_call0: "sample_lock_runs (sample_sys f m0 m1 LOut p1 v) \<Longrightarrow> commit (with_heap f m0) = Inr m \<Longrightarrow>
    sample_lock_runs (sample_sys (os_file (tm_os m)) m m1 LWait p1 v)"
  using lock_more[OF _ LockCall[of 0 "sample_sys f m0 m1 LOut p1 v" sample_pthreads 0 1 0 "sample_process\<lparr>tw_mem := m\<rparr>"]]
    sample_lock_calls(1)[of "sample_process\<lparr>tw_mem := with_heap f m0\<rparr>" m]
  by (simp add: sample_sys_simps) (simp add: sample_sys_def sample_process_def sample_world_def)

lemma sample_call1:
  assumes "sample_lock_runs (sample_sys f m0 m1 p0 LOut v)" "commit (with_heap f m1) = Inr m"
  shows "sample_lock_runs (sample_sys (os_file (tm_os m)) m0 m p0 LWait v)"
proof -
  let ?s = "sample_sys f m0 m1 p0 LOut v"
  have "pthread_mutex_lock sample_pthreads 0 1 (world_at 1 ?s) = Inr (0, sample_process\<lparr>tw_mem := m\<rparr>)"
    unfolding sample_sys_simps(2) using sample_lock_calls(1)[of "sample_process\<lparr>tw_mem := with_heap f m1\<rparr>" m] assms(2)
    by (simp add: sample_process_def sample_world_def)
  from lock_more[OF assms(1) LockCall[OF _ _ this]] show ?thesis unfolding sample_sys_simps(4) by (simp add: sample_sys_def)
qed

lemma sample_unlock0: "sample_lock_runs (sample_sys f m0 m1 LIn p1 v) \<Longrightarrow> commit (with_heap f m0) = Inr m \<Longrightarrow>
    sample_lock_runs (sample_sys (os_file (tm_os m)) m m1 LLeave p1 v)"
  using lock_more[OF _ LockUnlock[of 0 "sample_sys f m0 m1 LIn p1 v" sample_pthreads 0 1 0 "sample_process\<lparr>tw_mem := m\<rparr>"]]
    sample_lock_calls(2)[of "sample_process\<lparr>tw_mem := with_heap f m0\<rparr>" m]
  by (simp add: sample_sys_simps) (simp add: sample_sys_def sample_process_def sample_world_def)

lemma sample_grants:
  "sample_lock_runs (sample_sys f m0 m1 LWait LOut v) \<Longrightarrow> sample_lock_runs (sample_sys f m0 m1 LIn LOut v)"
  "sample_lock_runs (sample_sys f m0 m1 LOut LWait v) \<Longrightarrow> sample_lock_runs (sample_sys f m0 m1 LOut LIn v)"
  "sample_lock_runs (sample_sys f m0 m1 LLeave p1 v) \<Longrightarrow> sample_lock_runs (sample_sys f m0 m1 LOut p1 v)"
  using lock_more[OF _ LockGrant[of 0 "sample_sys f m0 m1 LWait LOut v"]] lock_more[OF _ LockGrant[of 1 "sample_sys f m0 m1 LOut LWait v"]]
    lock_more[OF _ LockRelease[of 0 "sample_sys f m0 m1 LLeave p1 v"]]
  by (simp_all add: sample_sys_def)

lemma sample_write0:
  assumes "sample_lock_runs (sample_sys f m0 m1 LIn p1 v)" "isProtectable 0x300000000 (with_heap f m0)"
    and "heap_store one_place 0x300000000 7 (with_heap f m0) = Some (Inr m)" "reached_alone 0x300000000 0 m"
  shows "sample_lock_runs (sample_sys (os_file (tm_os m)) m m1 LIn p1 7)"
proof -
  let ?s = "sample_sys f m0 m1 LIn p1 v"
  have "handover_step sample_pthreads 0 1 one_place 0x300000000 0 ?s
      ((moves 0 ((world_at 0 ?s)\<lparr>tw_mem := m\<rparr>) (ls_pcs ?s ! 0) ?s)\<lparr>ls_last := if unat (0x300000000 - 0x300000000 :: u64) = 0 then 7 else ls_last ?s\<rparr>)"
    by (rule LockStore) (use assms in \<open>simp_all add: sample_sys_simps\<close>, simp_all add: sample_sys_def HEAP_SIZE_def)
  moreover have "(moves 0 ((world_at 0 ?s)\<lparr>tw_mem := m\<rparr>) (ls_pcs ?s ! 0) ?s)\<lparr>ls_last := 7\<rparr> = sample_sys (os_file (tm_os m)) m m1 LIn p1 7"
    unfolding sample_sys_simps by (simp add: moves_def sample_sys_def)
  ultimately show ?thesis using lock_more[OF assms(1)] by simp
qed


end
