(* ===== verification/TMI_Detector.thy ===== *)
theory TMI_Detector
  imports PP_Utils
begin

unbundle bit_operations_syntax

text \<open>
  The online detector under \<^verbatim>\<open>others/tmi\<close>: classification of pairs of accesses, counters, windows,
  and the state that decides when to protect pages (\<^verbatim>\<open>include/detector\<close>, \<^verbatim>\<open>src/detector.cpp\<close>).
\<close>

section \<open>Event types\<close>

datatype SharingEventType = TSWR | TSWW | FSWR | FSWW | Other

definition NumberOfTrackedEvents :: nat where
  "NumberOfTrackedEvents = 4"

definition EventTypeToPrintableName :: "SharingEventType \<Rightarrow> string" where
  "EventTypeToPrintableName t =
     (case t of TSWR \<Rightarrow> ''TSWR'' | TSWW \<Rightarrow> ''TSWW'' | FSWR \<Rightarrow> ''FSWR'' | FSWW \<Rightarrow> ''FSWW'' | Other \<Rightarrow> ''Other'')"

definition EventTypeToIndex :: "SharingEventType \<Rightarrow> int" where
  "EventTypeToIndex t = (case t of TSWR \<Rightarrow> 0 | TSWW \<Rightarrow> 1 | FSWR \<Rightarrow> 2 | FSWW \<Rightarrow> 3 | Other \<Rightarrow> - 1)"

definition IndexToEventType :: "int \<Rightarrow> SharingEventType" where
  "IndexToEventType i = (if i = 0 then TSWR else if i = 1 then TSWW else if i = 2 then FSWR else if i = 3 then FSWW else Other)"

text \<open>An addition of \<^verbatim>\<open>int\<close>, and an array of counters indexed by an \<^verbatim>\<open>int\<close>.\<close>

definition add_int :: "int \<Rightarrow> int \<Rightarrow> int result" where
  "add_int a b = (if in_int (a + b) then Inr (a + b) else Inl (Undefined ''signed overflow''))"

definition at_index :: "'a list \<Rightarrow> int \<Rightarrow> 'a result" where
  "at_index xs i = (if 0 \<le> i \<and> nat i < length xs then Inr (xs ! nat i) else Inl (Undefined ''index out of range''))"

section \<open>Counters per event type\<close>

type_synonym category_counter = "int list"

definition cc_new :: category_counter where
  "cc_new = replicate NumberOfTrackedEvents 0"

definition cc_Increment :: "SharingEventType \<Rightarrow> int \<Rightarrow> category_counter \<Rightarrow> category_counter result" where
  "cc_Increment t amount c =
     bindE (at_index c (EventTypeToIndex t)) (\<lambda>n. bindE (add_int n amount) (\<lambda>m. Inr (c[nat (EventTypeToIndex t) := m])))"

definition cc_GetCount :: "SharingEventType \<Rightarrow> category_counter \<Rightarrow> int result" where
  "cc_GetCount t c = at_index c (EventTypeToIndex t)"

text \<open>The loop keeps the first greatest counter.\<close>

fun cc_max :: "int list \<Rightarrow> int \<Rightarrow> int \<Rightarrow> int \<Rightarrow> int \<times> int" where
  "cc_max [] i maxIdx maxCnt = (maxIdx, maxCnt)"
| "cc_max (n # ns) i maxIdx maxCnt = (if n > maxCnt then cc_max ns (i + 1) i n else cc_max ns (i + 1) maxIdx maxCnt)"

definition cc_DominantType :: "category_counter \<Rightarrow> SharingEventType" where
  "cc_DominantType c =
     (let (maxIdx, maxCnt) = cc_max (tl c) 1 0 (hd c) in if maxCnt = 0 then Other else IndexToEventType maxIdx)"

definition cc_Merge :: "category_counter \<Rightarrow> category_counter \<Rightarrow> category_counter result" where
  "cc_Merge c other = mapE (\<lambda>p. add_int (fst p) (snd p)) (zip c other)"

section \<open>Accesses\<close>

record data_access =
  da_PC :: u64
  da_Address :: u64
  da_Size :: int
  da_AccessType :: char

definition LineAddress :: "u64 \<Rightarrow> u64" where
  "LineAddress a = a AND NOT 63"

definition da_Offset :: "data_access \<Rightarrow> int" where
  "da_Offset da = uint (da_Address da AND 63)"

definition IsDataAccessOverlapped :: "data_access \<Rightarrow> data_access \<Rightarrow> bool" where
  "IsDataAccessOverlapped da1 da2 =
     (if LineAddress (da_Address da1) \<noteq> LineAddress (da_Address da2) then False
      else if da_Offset da1 \<ge> da_Offset da2 then da_Offset da2 + da_Size da2 - 1 \<ge> da_Offset da1
      else da_Offset da1 + da_Size da1 - 1 \<ge> da_Offset da2)"

definition DetermineEventType :: "data_access \<Rightarrow> data_access \<Rightarrow> SharingEventType" where
  "DetermineEventType earlier later =
     (if IsDataAccessOverlapped earlier later then
        (if da_AccessType earlier = CHR ''R'' \<and> da_AccessType later = CHR ''W'' then TSWR
         else if da_AccessType earlier = CHR ''W'' \<and> da_AccessType later = CHR ''R'' then TSWR
         else if da_AccessType earlier = CHR ''W'' \<and> da_AccessType later = CHR ''W'' then TSWW
         else TSWR)
      else
        (if da_AccessType earlier = CHR ''R'' \<and> da_AccessType later = CHR ''W'' then FSWR
         else if da_AccessType earlier = CHR ''W'' \<and> da_AccessType later = CHR ''R'' then FSWR
         else if da_AccessType earlier = CHR ''W'' \<and> da_AccessType later = CHR ''W'' then FSWW
         else FSWR))"

section \<open>Windows of events\<close>

abbreviation NumberOfHotSpotPCsToTrack :: nat where
  "NumberOfHotSpotPCsToTrack \<equiv> 8000"

record hot_spot_window =
  hw_eventCounters :: "int list"
  hw_WindowStartCycle :: u64
  hw_WindowLengthInCycles :: u64
  hw_TopPCs :: "(u64 \<times> int) list"

definition hw_Clear :: "hot_spot_window \<Rightarrow> hot_spot_window" where
  "hw_Clear w = w\<lparr>hw_WindowLengthInCycles := 0, hw_WindowStartCycle := 0,
     hw_eventCounters := replicate NumberOfTrackedEvents 0, hw_TopPCs := replicate NumberOfHotSpotPCsToTrack (0, 0)\<rparr>"

definition hw_WindowReady :: "hot_spot_window \<Rightarrow> bool" where
  "hw_WindowReady w \<longleftrightarrow> hw_WindowLengthInCycles w \<noteq> 0"

definition hw_IncrementEventCount :: "SharingEventType \<Rightarrow> hot_spot_window \<Rightarrow> hot_spot_window result" where
  "hw_IncrementEventCount t w =
     bindE (at_index (hw_eventCounters w) (EventTypeToIndex t)) (\<lambda>n. bindE (add_int n 1) (\<lambda>m.
       Inr (w\<lparr>hw_eventCounters := (hw_eventCounters w)[nat (EventTypeToIndex t) := m]\<rparr>)))"

definition hw_GetEventCount :: "SharingEventType \<Rightarrow> hot_spot_window \<Rightarrow> int result" where
  "hw_GetEventCount t w = at_index (hw_eventCounters w) (EventTypeToIndex t)"

definition hw_GetTotalEventCount :: "hot_spot_window \<Rightarrow> u64" where
  "hw_GetTotalEventCount w = fold (\<lambda>n s. s + word_of_int n) (hw_eventCounters w) 0"

fun hw_smallest :: "hot_spot_window list \<Rightarrow> int \<Rightarrow> int \<Rightarrow> int \<Rightarrow> int \<Rightarrow> int result" where
  "hw_smallest [] i sel minCnt minIndex = Inr minIndex"
| "hw_smallest (w # ws) i sel minCnt minIndex =
     (if \<not> hw_WindowReady w then hw_smallest ws (i + 1) sel minCnt minIndex
      else bindE (at_index (hw_eventCounters w) sel) (\<lambda>n.
        if n < minCnt then hw_smallest ws (i + 1) sel n i else hw_smallest ws (i + 1) sel minCnt minIndex))"

definition hw_GetSmallestWindowIndex :: "hot_spot_window list \<Rightarrow> SharingEventType \<Rightarrow> int result" where
  "hw_GetSmallestWindowIndex ws t = hw_smallest ws 0 (EventTypeToIndex t) (2 ^ 31 - 1) (- 1)"

section \<open>The detector state\<close>

record fsd =
  fd_addressCounter :: "(u64 \<times> int) list"
  fd_lastAccessMap :: "(u64 \<times> data_access) list"
  fd_pcCounter :: "(u64 \<times> int) list"
  fd_typeCounter :: "(u64 \<times> category_counter) list"
  fd_addrToPC :: "(u64 \<times> u64) list"
  fd_hotPagesWindow :: "(u64 \<times> int) list"
  fd_hotPCsWindow :: "(u64 \<times> int) list"
  fd_WWS :: u64
  fd_RWS :: u64
  fd_hitmCounter :: u64
  fd_enableWindowing :: bool
  fd_SamplePeriod :: int
  fd_WindowSize :: int
  fd_windowTime :: nat

text \<open>No initialiser sets \<^verbatim>\<open>hitmCounter\<close>: it starts with whatever the memory holds.\<close>

definition mk_fsd :: "u64 \<Rightarrow> nat \<Rightarrow> bool \<Rightarrow> fsd" where
  "mk_fsd junk now windowing =
     \<lparr>fd_addressCounter = [], fd_lastAccessMap = [], fd_pcCounter = [], fd_typeCounter = [], fd_addrToPC = [],
      fd_hotPagesWindow = [], fd_hotPCsWindow = [], fd_WWS = 0, fd_RWS = 0, fd_hitmCounter = junk,
      fd_enableWindowing = windowing, fd_SamplePeriod = 1, fd_WindowSize = 0, fd_windowTime = now\<rparr>"

text \<open>\<^verbatim>\<open>m[k] += n\<close> after a missing key was set to 0.\<close>

definition bump :: "u64 \<Rightarrow> int \<Rightarrow> (u64 \<times> int) list \<Rightarrow> (u64 \<times> int) list result" where
  "bump k n m = bindE (add_int (value_or 0 (map_of m k)) n) (\<lambda>v. Inr (umap_put k v m))"

abbreviation page_of :: "u64 \<Rightarrow> u64" where
  "page_of a \<equiv> a AND 0xFFFFFFFFFFFFE000"

text \<open>Times are in nanoseconds.\<close>

definition elapsed_seconds :: "nat \<Rightarrow> nat \<Rightarrow> u64" where
  "elapsed_seconds now start = (let s = word_of_nat ((now - start) div 1000000000) in if s \<noteq> 0 then s else 1)"

definition ShouldLaunchProtection :: "nat \<Rightarrow> fsd \<Rightarrow> bool" where
  "ShouldLaunchProtection now f \<longleftrightarrow> fd_hitmCounter f div elapsed_seconds now (fd_windowTime f) > 1000"

definition DegradeToSheriff :: "fsd \<Rightarrow> bool" where
  "DegradeToSheriff f = (if fd_RWS f = 0 then True else fd_WWS f > 250)"

text \<open>The events, and the map that the lookup by index may extend.\<close>

definition RetrieveHotPages :: "fsd \<Rightarrow> (u64 \<times> u64) list \<times> fsd" where
  "RetrieveHotPages f =
     fold (\<lambda>p st. if snd p \<ge> 50
                  then (fst st @ [(value_or 0 (map_of (fd_addrToPC (snd st)) (fst p)), fst p)],
                        (snd st)\<lparr>fd_addrToPC := umap_emplace (fst p) 0 (fd_addrToPC (snd st))\<rparr>)
                  else st) (fd_hotPagesWindow f) ([], f)"

definition clear_window :: "nat \<Rightarrow> fsd \<Rightarrow> fsd" where
  "clear_window now f =
     (if fd_enableWindowing f \<and> fd_WindowSize f \<noteq> 0 \<and> fd_hitmCounter f mod word_of_int (fd_WindowSize f) = 0
      then f\<lparr>fd_lastAccessMap := [], fd_hotPagesWindow := [], fd_hotPCsWindow := [], fd_windowTime := now\<rparr> else f)"

text \<open>Classification against the last access to the line, with the counters of the program counter.\<close>

definition classify :: "data_access \<Rightarrow> fsd \<Rightarrow> (SharingEventType \<times> fsd) result" where
  "classify da f =
     (let line = LineAddress (da_Address da)
      in case map_of (fd_lastAccessMap f) line of
           None \<Rightarrow> Inr (Other, f\<lparr>fd_lastAccessMap := umap_put line da (fd_lastAccessMap f)\<rparr>)
         | Some earlier \<Rightarrow>
             (let t = DetermineEventType earlier da
              in bindE (if EventTypeToIndex t \<ge> 0
                        then bindE (cc_Increment t (fd_SamplePeriod f) (value_or cc_new (map_of (fd_typeCounter f) (da_PC da)))) (\<lambda>c.
                               Inr (f\<lparr>fd_typeCounter := umap_put (da_PC da) c (fd_typeCounter f)\<rparr>))
                        else Inr f) (\<lambda>f'.
                   Inr (t, f'\<lparr>fd_lastAccessMap := umap_put line da (fd_lastAccessMap f')\<rparr>))))"

definition HandleEvent :: "nat \<Rightarrow> data_access \<Rightarrow> fsd \<Rightarrow> fsd result" where
  "HandleEvent now da f =
     (let f0 = clear_window now f; n = fd_SamplePeriod f; page = page_of (da_Address da)
      in bindE (bump (da_Address da) n (fd_addressCounter f0)) (\<lambda>ac.
         bindE (classify da (f0\<lparr>fd_addressCounter := ac\<rparr>)) (\<lambda>(t, f1).
         bindE (bump (da_PC da) n (fd_pcCounter f1)) (\<lambda>pcs.
         bindE (if t \<noteq> TSWW \<and> t \<noteq> TSWR
                then bindE (bump (da_PC da) n (fd_hotPCsWindow f1)) (\<lambda>hp.
                     bindE (bump page n (fd_hotPagesWindow f1)) (\<lambda>hg. Inr (f1\<lparr>fd_hotPCsWindow := hp, fd_hotPagesWindow := hg\<rparr>)))
                else Inr f1) (\<lambda>f2.
           Inr (f2\<lparr>fd_pcCounter := pcs, fd_addrToPC := umap_put page (da_PC da) (fd_addrToPC f2),
                   fd_WWS := fd_WWS f2 + (if t = FSWW \<or> t = TSWW \<or> t = Other then word_of_int n else 0),
                   fd_RWS := fd_RWS f2 + (if t = FSWW \<or> t = TSWW \<or> t = Other then 0 else word_of_int n),
                   fd_hitmCounter := fd_hitmCounter f2 + 1\<rparr>))))))"

text \<open>
  The selection of program counters for the report: a full queue drops its least entry and takes
  the next one unseen. \<open>q\<close> is the queue, least count first.
\<close>

definition pc_queue_push :: "(u64 \<times> int) list \<Rightarrow> u64 \<times> int \<Rightarrow> (u64 \<times> int) list" where
  "pc_queue_push q p = insort_key snd p q"

definition select_pcs :: "nat \<Rightarrow> (u64 \<times> int) list \<Rightarrow> (u64 \<times> int) list" where
  "select_pcs n ps = foldl (\<lambda>q p. if length q < n then pc_queue_push q p else pc_queue_push (tl q) p) [] ps"

section \<open>The record handler\<close>

text \<open>\<open>ops\<close> is the table of memory operations by program counter: store or load, and size.\<close>

definition handleRecord :: "(u64 \<times> bool \<times> int) list \<Rightarrow> nat \<Rightarrow> u64 \<Rightarrow> u64 \<Rightarrow> fsd \<Rightarrow> fsd result" where
  "handleRecord ops now ip addr f =
     (case map_of ops ip of None \<Rightarrow> Inr f
      | Some (isStore, sz) \<Rightarrow>
          HandleEvent now \<lparr>da_PC = ip, da_Address = addr, da_Size = sz, da_AccessType = (if isStore then CHR ''W'' else CHR ''R'')\<rparr> f)"

text \<open>What the check starts: nothing, protection of all pages, or of the hot pages.\<close>

datatype launch = NoLaunch | ProtectAll | ForkThreads "(u64 \<times> u64) list"

definition checkFalseSharing :: "(u64 \<Rightarrow> bool) \<Rightarrow> nat \<Rightarrow> fsd \<Rightarrow> launch \<times> fsd" where
  "checkFalseSharing is_protectable now f =
     (if ShouldLaunchProtection now f then
        (if DegradeToSheriff f then (ProtectAll, f)
         else let (hotPages, f') = RetrieveHotPages f
              in (if \<exists>e \<in> set hotPages. is_protectable (snd e) then ForkThreads hotPages else NoLaunch, f'))
      else (NoLaunch, f))"

section \<open>The classification is exact\<close>

definition da_bytes :: "data_access \<Rightarrow> int set" where
  "da_bytes da = {uint (da_Address da) ..< uint (da_Address da) + da_Size da}"

lemma line_plus_offset: "uint (da_Address da) = uint (LineAddress (da_Address da)) + da_Offset da"
proof -
  let ?a = "da_Address da"
  let ?x = "?a AND NOT 63" and ?y = "?a AND 63"
  have "?x AND ?y = 0" "?x OR ?y = ?a" by (rule bit_word_eqI; auto simp: bit_simps)+
  then have "uint ?x AND uint ?y = 0" "uint ?x OR uint ?y = uint ?a"
    by (metis unsigned_and_eq unsigned_0, metis unsigned_or_eq)
  then show ?thesis using plus_and_or[of "uint ?x" "uint ?y"] by (simp add: LineAddress_def da_Offset_def)
qed

lemma overlap_exact:
  assumes "LineAddress (da_Address a) = LineAddress (da_Address b)" "1 \<le> da_Size a" "1 \<le> da_Size b"
  shows "IsDataAccessOverlapped a b \<longleftrightarrow> da_bytes a \<inter> da_bytes b \<noteq> {}"
proof -
  let ?l = "uint (LineAddress (da_Address b))"
  have u: "uint (da_Address a) = ?l + da_Offset a" "uint (da_Address b) = ?l + da_Offset b"
    using line_plus_offset[of a] line_plus_offset[of b] assms(1) by simp_all
  have "da_bytes a \<inter> da_bytes b \<noteq> {} \<longleftrightarrow>
      max (da_Offset a) (da_Offset b) < min (da_Offset a + da_Size a) (da_Offset b + da_Size b)"
    unfolding da_bytes_def u by auto
  then show ?thesis using assms by (auto simp: IsDataAccessOverlapped_def)
qed

text \<open>
  The classification of two accesses to one cache line is exact: it is true sharing when they
  have a byte in common and false sharing when they have none, and it is write-write when both are
  writes.
\<close>

theorem event_type_exact:
  assumes "LineAddress (da_Address a) = LineAddress (da_Address b)" "1 \<le> da_Size a" "1 \<le> da_Size b"
  shows "(DetermineEventType a b \<in> {TSWR, TSWW} \<longleftrightarrow> da_bytes a \<inter> da_bytes b \<noteq> {}) \<and>
    (DetermineEventType a b \<in> {FSWR, FSWW} \<longleftrightarrow> da_bytes a \<inter> da_bytes b = {}) \<and>
    (DetermineEventType a b \<in> {TSWW, FSWW} \<longleftrightarrow> da_AccessType a = CHR ''W'' \<and> da_AccessType b = CHR ''W'')"
  using overlap_exact[OF assms] by (auto simp: DetermineEventType_def)

definition sample_access :: "u64 \<Rightarrow> char \<Rightarrow> data_access" where
  "sample_access a t = \<lparr>da_PC = 1, da_Address = a, da_Size = 8, da_AccessType = t\<rparr>"

theorem event_type_exact_witness:
  "DetermineEventType (sample_access 4096 CHR ''W'') (sample_access 4104 CHR ''W'') \<in> {FSWR, FSWW}"
proof -
  have l: "LineAddress (da_Address (sample_access 4096 CHR ''W'')) = LineAddress (da_Address (sample_access 4104 CHR ''W''))"
    by (simp add: sample_access_def LineAddress_def)
  have "da_bytes (sample_access 4096 CHR ''W'') \<inter> da_bytes (sample_access 4104 CHR ''W'') = {}"
    by (simp add: da_bytes_def sample_access_def)
  then show ?thesis using event_type_exact[OF l] by (simp add: sample_access_def)
qed

section \<open>The counts are exact\<close>

definition handle_all :: "(nat \<times> data_access) list \<Rightarrow> fsd \<Rightarrow> fsd result" where
  "handle_all evs = foldE (\<lambda>e. HandleEvent (fst e) (snd e)) evs"

text \<open>After \<open>k\<close> events every counter is between 0 and \<open>k\<close>.\<close>

definition small_counts :: "int \<Rightarrow> (u64 \<times> int) list \<Rightarrow> bool" where
  "small_counts k m \<longleftrightarrow> (\<forall>x v. map_of m x = Some v \<longrightarrow> 0 \<le> v \<and> v \<le> k)"

definition types_ok :: "int \<Rightarrow> (u64 \<times> category_counter) list \<Rightarrow> bool" where
  "types_ok k m \<longleftrightarrow> (\<forall>pc c. map_of m pc = Some c \<longrightarrow> length c = 4 \<and> (\<forall>v \<in> set c. 0 \<le> v \<and> v \<le> k))"

definition fsd_inv :: "int \<Rightarrow> fsd \<Rightarrow> bool" where
  "fsd_inv k f \<longleftrightarrow> fd_SamplePeriod f = 1 \<and> small_counts k (fd_addressCounter f) \<and> small_counts k (fd_pcCounter f) \<and>
     small_counts k (fd_hotPagesWindow f) \<and> small_counts k (fd_hotPCsWindow f) \<and>
     types_ok k (fd_typeCounter f)"

lemma bump_ok:
  assumes "small_counts k m" "0 \<le> k" "k < 2 ^ 31 - 1"
  shows "\<exists>m'. bump x 1 m = Inr m' \<and> small_counts (k + 1) m' \<and>
    (\<forall>y. value_or 0 (map_of m' y) = value_or 0 (map_of m y) + (if y = x then 1 else 0))"
proof -
  let ?v = "value_or 0 (map_of m x)"
  have v: "0 \<le> ?v" "?v \<le> k" using assms(1,2) by (auto simp: small_counts_def split: option.splits)
  then have "add_int ?v 1 = Inr (?v + 1)" using assms(3) by (simp add: add_int_def in_int_def)
  moreover have "small_counts (k + 1) (umap_put x (?v + 1) m)"
    using assms(1) v by (fastforce simp: small_counts_def map_of_umap_put)
  ultimately show ?thesis by (simp add: bump_def map_of_umap_put)
qed

lemma small_counts_mono: "small_counts k m \<Longrightarrow> small_counts (k + 1) m"
  by (fastforce simp: small_counts_def)

lemma increment_ok:
  assumes "t \<noteq> Other" "length c = 4" "\<forall>v \<in> set c. 0 \<le> v \<and> v \<le> k" "0 \<le> k" "k < 2 ^ 31 - 1"
  shows "\<exists>c'. cc_Increment t 1 c = Inr c' \<and> length c' = 4 \<and> (\<forall>v \<in> set c'. 0 \<le> v \<and> v \<le> k + 1)"
proof -
  let ?i = "nat (EventTypeToIndex t)"
  have i: "0 \<le> EventTypeToIndex t" "?i < length c"
    using assms(1,2) by (cases t; simp add: EventTypeToIndex_def)+
  then have n: "0 \<le> c ! ?i" "c ! ?i \<le> k" using assms(3) by auto
  then have "add_int (c ! ?i) 1 = Inr (c ! ?i + 1)" using assms(5) by (simp add: add_int_def in_int_def)
  moreover have "\<forall>v \<in> set (c[?i := c ! ?i + 1]). 0 \<le> v \<and> v \<le> k + 1"
    using assms(3) n set_update_subset_insert[of c ?i "c ! ?i + 1"] by fastforce
  ultimately show ?thesis using i assms(2) by (simp add: cc_Increment_def at_index_def)
qed

lemma types_ok_mono: "types_ok k m \<Longrightarrow> types_ok (k + 1) m"
  by (fastforce simp: types_ok_def)

lemma types_ok_put:
  "types_ok (k + 1) m \<Longrightarrow> length c = 4 \<Longrightarrow> \<forall>v \<in> set c. 0 \<le> v \<and> v \<le> k + 1 \<Longrightarrow> types_ok (k + 1) (umap_put pc c m)"
  by (simp add: types_ok_def map_of_umap_put)

lemma classify_ok:
  assumes "fd_SamplePeriod f = 1" "types_ok k (fd_typeCounter f)" "0 \<le> k" "k < 2 ^ 31 - 1"
  shows "\<exists>t tc la. classify da f = Inr (t, f\<lparr>fd_typeCounter := tc, fd_lastAccessMap := la\<rparr>) \<and> types_ok (k + 1) tc"
proof (cases "map_of (fd_lastAccessMap f) (LineAddress (da_Address da))")
  case None
  let ?la = "umap_put (LineAddress (da_Address da)) da (fd_lastAccessMap f)"
  have "classify da f = Inr (Other, f\<lparr>fd_typeCounter := fd_typeCounter f, fd_lastAccessMap := ?la\<rparr>)"
    using None by (simp add: classify_def Let_def)
  then show ?thesis using types_ok_mono[OF assms(2)] by blast
next
  case (Some earlier)
  let ?t = "DetermineEventType earlier da" and ?c = "value_or cc_new (map_of (fd_typeCounter f) (da_PC da))"
  have t: "?t \<noteq> Other" by (simp add: DetermineEventType_def)
  then have i: "EventTypeToIndex ?t \<ge> 0" by (cases ?t) (simp_all add: EventTypeToIndex_def)
  have "length ?c = 4" "\<forall>v \<in> set ?c. 0 \<le> v \<and> v \<le> k"
    using assms(2,3) by (auto simp: types_ok_def cc_new_def NumberOfTrackedEvents_def split: option.splits)
  then obtain c' where c': "cc_Increment ?t 1 ?c = Inr c'" "length c' = 4" "\<forall>v \<in> set c'. 0 \<le> v \<and> v \<le> k + 1"
    using increment_ok[OF t _ _ assms(3,4)] by blast
  have "types_ok (k + 1) (umap_put (da_PC da) c' (fd_typeCounter f))"
    by (rule types_ok_put[OF types_ok_mono[OF assms(2)] c'(2,3)])
  then show ?thesis using Some i c'(1) assms(1) by (auto simp: classify_def Let_def)
qed

lemma clear_window_inv:
  "fsd_inv k f \<Longrightarrow> 0 \<le> k \<Longrightarrow> fsd_inv k (clear_window now f)"
  "fd_addressCounter (clear_window now f) = fd_addressCounter f" "fd_pcCounter (clear_window now f) = fd_pcCounter f"
  "fd_WWS (clear_window now f) = fd_WWS f" "fd_RWS (clear_window now f) = fd_RWS f"
  "fd_hitmCounter (clear_window now f) = fd_hitmCounter f"
  by (simp_all add: clear_window_def fsd_inv_def small_counts_def)

definition count_of :: "(u64 \<times> int) list \<Rightarrow> u64 \<Rightarrow> int" where
  "count_of m x = value_or 0 (map_of m x)"

lemma HandleEvent_ok:
  assumes "fsd_inv k f" "0 \<le> k" "k < 2 ^ 31 - 1"
  shows "\<exists>f'. HandleEvent now da f = Inr f' \<and> fsd_inv (k + 1) f' \<and>
    (\<forall>x. count_of (fd_addressCounter f') x = count_of (fd_addressCounter f) x + (if x = da_Address da then 1 else 0)) \<and>
    (\<forall>x. count_of (fd_pcCounter f') x = count_of (fd_pcCounter f) x + (if x = da_PC da then 1 else 0)) \<and>
    fd_WWS f' + fd_RWS f' = fd_WWS f + fd_RWS f + 1 \<and> fd_hitmCounter f' = fd_hitmCounter f + 1"
proof -
  define f0 where "f0 = clear_window now f"
  have inv0: "fsd_inv k f0" unfolding f0_def by (rule clear_window_inv(1)[OF assms(1,2)])
  have n: "fd_SamplePeriod f = 1" "fd_SamplePeriod f0 = 1" using assms(1) inv0 by (simp_all add: fsd_inv_def)
  note b = bump_ok[OF _ assms(2,3)]
  obtain ac where ac: "bump (da_Address da) 1 (fd_addressCounter f0) = Inr ac" "small_counts (k + 1) ac"
    "\<forall>y. value_or 0 (map_of ac y) = value_or 0 (map_of (fd_addressCounter f0) y) + (if y = da_Address da then 1 else 0)"
    using b[of "fd_addressCounter f0" "da_Address da"] inv0 unfolding fsd_inv_def by blast
  obtain t tc la where cl: "classify da (f0\<lparr>fd_addressCounter := ac\<rparr>) =
      Inr (t, f0\<lparr>fd_addressCounter := ac, fd_typeCounter := tc, fd_lastAccessMap := la\<rparr>)" "types_ok (k + 1) tc"
    using classify_ok[of "f0\<lparr>fd_addressCounter := ac\<rparr>" k da] inv0 assms(2,3) by (auto simp: fsd_inv_def)
  obtain pcs where pcs: "bump (da_PC da) 1 (fd_pcCounter f0) = Inr pcs" "small_counts (k + 1) pcs"
    "\<forall>y. value_or 0 (map_of pcs y) = value_or 0 (map_of (fd_pcCounter f0) y) + (if y = da_PC da then 1 else 0)"
    using b[of "fd_pcCounter f0" "da_PC da"] inv0 unfolding fsd_inv_def by blast
  obtain hp where hp: "bump (da_PC da) 1 (fd_hotPCsWindow f0) = Inr hp" "small_counts (k + 1) hp"
    using b[of "fd_hotPCsWindow f0" "da_PC da"] inv0 unfolding fsd_inv_def by blast
  obtain hg where hg: "bump (page_of (da_Address da)) 1 (fd_hotPagesWindow f0) = Inr hg" "small_counts (k + 1) hg"
    using b[of "fd_hotPagesWindow f0" "page_of (da_Address da)"] inv0 unfolding fsd_inv_def by blast
  have old: "small_counts (k + 1) (fd_hotPCsWindow f0)" "small_counts (k + 1) (fd_hotPagesWindow f0)"
    using inv0 unfolding fsd_inv_def by (blast intro: small_counts_mono)+
  have same: "fd_addressCounter f0 = fd_addressCounter f" "fd_pcCounter f0 = fd_pcCounter f" "fd_WWS f0 = fd_WWS f"
    "fd_RWS f0 = fd_RWS f" "fd_hitmCounter f0 = fd_hitmCounter f"
    unfolding f0_def by (rule clear_window_inv)+
  show ?thesis
  proof (cases "t \<noteq> TSWW \<and> t \<noteq> TSWR")
    case True
    then show ?thesis using ac(2,3) pcs(2,3) hp(2) hg(2) cl(2) n
      by (simp add: HandleEvent_def Let_def f0_def[symmetric] ac(1) cl(1) pcs(1) hp(1) hg(1) fsd_inv_def count_of_def same[symmetric])
  next
    case False
    then show ?thesis using ac(2,3) pcs(2,3) old cl(2) n
      by (auto simp: HandleEvent_def Let_def f0_def[symmetric] ac(1) cl(1) pcs(1) fsd_inv_def count_of_def same[symmetric])
  qed
qed

text \<open>
  \<^bold>\<open>C32.\<close> The detector counts every event once. For fewer than \<open>2 ^ 31\<close> events no counter overflows and
  no index is out of range; afterwards the counters of every address and program counter are the
  numbers of events there, and the write-write and read-write totals add up to the number of events.
\<close>

theorem detector_counts_exact:
  assumes "length evs < 2 ^ 31"
  shows "\<exists>f. handle_all evs (mk_fsd junk now windowing) = Inr f \<and>
    (\<forall>x. count_of (fd_addressCounter f) x = int (length (filter (\<lambda>e. da_Address (snd e) = x) evs))) \<and>
    (\<forall>x. count_of (fd_pcCounter f) x = int (length (filter (\<lambda>e. da_PC (snd e) = x) evs))) \<and>
    fd_WWS f + fd_RWS f = word_of_nat (length evs) \<and> fd_hitmCounter f = junk + word_of_nat (length evs)"
proof -
  have run: "\<exists>f'. handle_all evs f = Inr f' \<and>
      (\<forall>x. count_of (fd_addressCounter f') x = count_of (fd_addressCounter f) x + int (length (filter (\<lambda>e. da_Address (snd e) = x) evs))) \<and>
      (\<forall>x. count_of (fd_pcCounter f') x = count_of (fd_pcCounter f) x + int (length (filter (\<lambda>e. da_PC (snd e) = x) evs))) \<and>
      fd_WWS f' + fd_RWS f' = fd_WWS f + fd_RWS f + word_of_nat (length evs) \<and>
      fd_hitmCounter f' = fd_hitmCounter f + word_of_nat (length evs)"
    if "fsd_inv k f" "0 \<le> k" "k + int (length evs) < 2 ^ 31" for k f
    using that
  proof (induction evs arbitrary: k f)
    case Nil
    then show ?case by (simp add: handle_all_def)
  next
    case (Cons e evs)
    have "k < 2 ^ 31 - 1" using Cons.prems(3) by simp
    then obtain f1 where 1: "HandleEvent (fst e) (snd e) f = Inr f1" "fsd_inv (k + 1) f1"
      "\<forall>x. count_of (fd_addressCounter f1) x = count_of (fd_addressCounter f) x + (if x = da_Address (snd e) then 1 else 0)"
      "\<forall>x. count_of (fd_pcCounter f1) x = count_of (fd_pcCounter f) x + (if x = da_PC (snd e) then 1 else 0)"
      "fd_WWS f1 + fd_RWS f1 = fd_WWS f + fd_RWS f + 1" "fd_hitmCounter f1 = fd_hitmCounter f + 1"
      using HandleEvent_ok[OF Cons.prems(1,2), of "fst e" "snd e"] by blast
    from Cons.IH[OF 1(2)] Cons.prems(2,3) obtain f2 where "handle_all evs f1 = Inr f2"
      "\<forall>x. count_of (fd_addressCounter f2) x = count_of (fd_addressCounter f1) x + int (length (filter (\<lambda>e. da_Address (snd e) = x) evs))"
      "\<forall>x. count_of (fd_pcCounter f2) x = count_of (fd_pcCounter f1) x + int (length (filter (\<lambda>e. da_PC (snd e) = x) evs))"
      "fd_WWS f2 + fd_RWS f2 = fd_WWS f1 + fd_RWS f1 + word_of_nat (length evs)"
      "fd_hitmCounter f2 = fd_hitmCounter f1 + word_of_nat (length evs)" by auto
    then show ?case using 1 by (auto simp: handle_all_def)
  qed
  have "fsd_inv 0 (mk_fsd junk now windowing)" by (simp add: fsd_inv_def mk_fsd_def small_counts_def types_ok_def)
  from run[OF this] show ?thesis using assms by (simp add: mk_fsd_def count_of_def)
qed

theorem detector_counts_exact_witness:
  "\<exists>f. handle_all [(0, sample_access 4096 CHR ''W''), (1, sample_access 4104 CHR ''R'')] (mk_fsd 5 0 False) = Inr f \<and>
    count_of (fd_pcCounter f) 1 = 2 \<and> fd_WWS f + fd_RWS f = 2 \<and> fd_hitmCounter f = 7"
proof -
  have "length [(0 :: nat, sample_access 4096 CHR ''W''), (1, sample_access 4104 CHR ''R'')] < 2 ^ 31" by simp
  from detector_counts_exact[OF this, of 5 0 False] show ?thesis by (auto simp: sample_access_def)
qed

text \<open>
  The decision to protect pages depends on uninitialised memory: before any event, two detectors
  that differ only in what the memory of the event counter held decide differently.
\<close>

theorem launch_depends_on_memory:
  "\<not> ShouldLaunchProtection now (mk_fsd 0 now windowing) \<and> ShouldLaunchProtection now (mk_fsd 1001 now windowing)"
  by (simp add: ShouldLaunchProtection_def mk_fsd_def elapsed_seconds_def)

end
