(* ===== verification/TMI_Perf.thy ===== *)
theory TMI_Perf
  imports TMI_Detector
begin

text \<open>
  Sampling with hardware counters: \<^verbatim>\<open>others/tmi/src/perf.cpp\<close> and the loop of \<^verbatim>\<open>libtmi.cpp\<close> that drains a
  buffer. The kernel writes records into a ring; the bytes of the ring are a function of the offset.
  What the kernel answers to the system calls is a parameter.
\<close>

section \<open>State\<close>

record data_record =
  dr_time :: u64
  dr_ip :: u64
  dr_data :: u64
  dr_tid :: int

record perf =
  pf_pid :: int
  pf_page_size :: u32
  pf_buf_size :: u32
  pf_buf_mask :: u32
  pf_sample_period :: int
  pf_fd :: int
  pf_done :: bool
  pf_head :: u64
  pf_tail :: u64

text \<open>The mapped page: where the kernel writes, where the program reads, and the ring behind it.\<close>

record mpage =
  mp_data_head :: u64
  mp_data_tail :: u64
  mp_ring :: "nat \<Rightarrow> u8"

definition BUF_BITS :: nat where
  "BUF_BITS = 8"

definition EXPECTED_SIZE :: nat where
  "EXPECTED_SIZE = 8 + 3 * 8"

definition PERF_RECORD_SAMPLE :: nat where
  "PERF_RECORD_SAMPLE = 9"

text \<open>Fields that the constructor leaves alone are taken from \<open>junk\<close>.\<close>

definition perf_new :: "u32 \<Rightarrow> int \<Rightarrow> perf \<Rightarrow> perf" where
  "perf_new page_size sample_period junk =
     junk\<lparr>pf_fd := - 1, pf_done := False, pf_head := 0, pf_tail := 0, pf_page_size := page_size,
          pf_buf_size := push_bit BUF_BITS 1 * page_size, pf_sample_period := sample_period\<rparr>"

text \<open>\<open>fd\<close> is the descriptor the kernel returns, \<open>mapped\<close> whether the ring could be mapped, \<open>enabled\<close> the answer to the last call.\<close>

definition perf_open :: "int \<Rightarrow> bool \<Rightarrow> bool \<Rightarrow> bool \<Rightarrow> perf \<Rightarrow> bool \<times> perf" where
  "perf_open fd mapped enabled do_enable p =
     (let p1 = p\<lparr>pf_fd := fd\<rparr>
      in if fd < 0 then (False, p1)
         else if \<not> mapped then (False, p1)
         else (if do_enable then enabled else True, p1\<lparr>pf_buf_mask := pf_buf_size p1 - 1\<rparr>))"

definition perf_finalize :: "perf \<Rightarrow> perf" where
  "perf_finalize p = p\<lparr>pf_done := True\<rparr>"

definition perf_set_pid :: "int \<Rightarrow> perf \<Rightarrow> perf" where
  "perf_set_pid pid p = p\<lparr>pf_pid := pid\<rparr>"

section \<open>Reading the ring\<close>

definition start_iterate :: "mpage \<Rightarrow> perf \<Rightarrow> perf" where
  "start_iterate mp p = p\<lparr>pf_head := mp_data_head mp, pf_tail := mp_data_tail mp\<rparr>"

definition abort_iterate :: "perf \<Rightarrow> mpage \<Rightarrow> mpage" where
  "abort_iterate p mp = mp\<lparr>mp_data_tail := pf_head p\<rparr>"

text \<open>Little-endian numbers in the ring.\<close>

definition ring_num :: "mpage \<Rightarrow> nat \<Rightarrow> nat \<Rightarrow> nat" where
  "ring_num mp off k = (\<Sum>i<k. unat (mp_ring mp (off + i)) * 256 ^ i)"

text \<open>Eight bytes at an offset; the next offset goes back to the start at the end of the ring.\<close>

definition ring_wrap :: "perf \<Rightarrow> nat \<Rightarrow> nat" where
  "ring_wrap p base = (if base \<ge> unat (pf_buf_size p) then 0 else base)"

definition ring_word :: "mpage \<Rightarrow> perf \<Rightarrow> nat \<Rightarrow> u64 result" where
  "ring_word mp p base =
     (if base + 8 \<le> unat (pf_buf_size p) then Inr (of_nat (ring_num mp base 8)) else Inl (Undefined ''read behind the ring''))"

text \<open>
  The header has the type in its first four bytes and the size in its last two. The value \<open>None\<close> of
  the option type is a loop that does not end; \<open>None\<close> inside the result is the answer false.
\<close>

partial_function (option) perf_next :: "perf \<Rightarrow> mpage \<Rightarrow> (data_record option \<times> perf \<times> mpage) result option" where
  "perf_next p mp =
     (if pf_tail p = pf_head p then Some (Inr (None, p, abort_iterate p mp))
      else let hdr = unat (pf_tail p AND ucast (pf_buf_mask p))
           in if hdr + 8 > unat (pf_buf_size p) then Some (Inl (Undefined ''read behind the ring''))
              else let size = ring_num mp (hdr + 6) 2;
                       p1 = p\<lparr>pf_tail := pf_tail p + of_nat size\<rparr>
                   in if ring_num mp hdr 4 \<noteq> PERF_RECORD_SAMPLE then perf_next p1 mp
                      else if size \<noteq> EXPECTED_SIZE then Some (Inr (None, p1, abort_iterate p1 mp))
                      else let b1 = ring_wrap p (hdr + 8); b2 = ring_wrap p (b1 + 8); b3 = ring_wrap p (b2 + 8)
                           in Some (bindE (ring_word mp p b1) (\<lambda>ip.
                                    bindE (ring_word mp p b2) (\<lambda>time.
                                    bindE (ring_word mp p b3) (\<lambda>data.
                                      Inr (Some \<lparr>dr_time = time, dr_ip = ip, dr_data = data, dr_tid = pf_pid p\<rparr>, p1, mp))))))"

text \<open>The loop of \<^verbatim>\<open>parse_perf_events\<close>; \<open>handle\<close> is \<^verbatim>\<open>detector_handle_record\<close>.\<close>

partial_function (option) drain :: "(data_record \<Rightarrow> 's \<Rightarrow> 's result) \<Rightarrow> perf \<Rightarrow> mpage \<Rightarrow> 's \<Rightarrow> (perf \<times> mpage \<times> 's) result option" where
  "drain handle p mp s =
     (case perf_next p mp of None \<Rightarrow> None
      | Some (Inl e) \<Rightarrow> Some (Inl e)
      | Some (Inr (None, p1, mp1)) \<Rightarrow> Some (Inr (p1, mp1, s))
      | Some (Inr (Some dr, p1, mp1)) \<Rightarrow> (case handle dr s of Inl e \<Rightarrow> Some (Inl e) | Inr s1 \<Rightarrow> drain handle p1 mp1 s1))"

text \<open>
  A thread without counter has nothing to drain. The counter is switched off before and on again after the loop; these calls
  do not change the state below.
\<close>

definition parse_perf_events ::
  "(data_record \<Rightarrow> 's \<Rightarrow> 's result) \<Rightarrow> (perf \<times> mpage) option \<Rightarrow> 's \<Rightarrow> ((perf \<times> mpage) option \<times> 's) result option" where
  "parse_perf_events handle thread s =
     (case thread of None \<Rightarrow> Some (Inr (None, s))
      | Some (p, mp) \<Rightarrow>
          (case drain handle (start_iterate mp p) mp s of None \<Rightarrow> None
           | Some r \<Rightarrow> Some (bindE r (\<lambda>(p1, mp1, s1). Inr (Some (p1, mp1), s1)))))"

section \<open>What the kernel writes\<close>

text \<open>A sample of the expected size, a sample of another size, and any other record, with type and size.\<close>

datatype kernel_record = KSample u64 u64 u64 | KSampleOther nat | KOther nat nat

fun krec_size :: "kernel_record \<Rightarrow> nat" where
  "krec_size (KSample ip time data) = EXPECTED_SIZE"
| "krec_size (KSampleOther sz) = sz"
| "krec_size (KOther ty sz) = sz"

fun krec_type :: "kernel_record \<Rightarrow> nat" where
  "krec_type (KOther ty sz) = ty"
| "krec_type r = PERF_RECORD_SAMPLE"

text \<open>Records take a multiple of eight bytes and wrap around at the end of the ring.\<close>

definition word_at :: "perf \<Rightarrow> mpage \<Rightarrow> nat \<Rightarrow> u64" where
  "word_at p mp pos = of_nat (ring_num mp (pos mod unat (pf_buf_size p)) 8)"

definition rec_at :: "perf \<Rightarrow> mpage \<Rightarrow> nat \<Rightarrow> kernel_record \<Rightarrow> bool" where
  "rec_at p mp pos r \<longleftrightarrow>
     ring_num mp (pos mod unat (pf_buf_size p)) 4 = krec_type r \<and>
     ring_num mp (pos mod unat (pf_buf_size p) + 6) 2 = krec_size r \<and> 8 \<le> krec_size r \<and> 8 dvd krec_size r \<and>
     (case r of KSample ip time data \<Rightarrow> word_at p mp (pos + 8) = ip \<and> word_at p mp (pos + 16) = time \<and> word_at p mp (pos + 24) = data
      | KSampleOther sz \<Rightarrow> sz \<noteq> EXPECTED_SIZE | KOther ty sz \<Rightarrow> ty \<noteq> PERF_RECORD_SAMPLE)"

fun framed :: "perf \<Rightarrow> mpage \<Rightarrow> nat \<Rightarrow> kernel_record list \<Rightarrow> bool" where
  "framed p mp pos [] \<longleftrightarrow> True"
| "framed p mp pos (r # rs) \<longleftrightarrow> rec_at p mp pos r \<and> framed p mp (pos + krec_size r) rs"

definition ring_ok :: "perf \<Rightarrow> bool" where
  "ring_ok p \<longleftrightarrow> (\<exists>k. 3 \<le> k \<and> k < 32 \<and> pf_buf_size p = 2 ^ k) \<and> pf_buf_mask p = pf_buf_size p - 1"

text \<open>The samples of the records in order, up to a sample of another size.\<close>

fun delivered :: "int \<Rightarrow> kernel_record list \<Rightarrow> data_record list" where
  "delivered pid [] = []"
| "delivered pid (KSample ip time data # rs) = \<lparr>dr_time = time, dr_ip = ip, dr_data = data, dr_tid = pid\<rparr> # delivered pid rs"
| "delivered pid (KSampleOther sz # rs) = []"
| "delivered pid (KOther ty sz # rs) = delivered pid rs"

lemma ring_ok_size:
  fixes t :: u64
  assumes "ring_ok p"
  shows "8 dvd unat (pf_buf_size p)" "8 \<le> unat (pf_buf_size p)" "unat (t AND ucast (pf_buf_mask p)) = unat t mod unat (pf_buf_size p)"
proof -
  from assms obtain k where k: "3 \<le> k" "k < 32" "pf_buf_size p = 2 ^ k" "pf_buf_mask p = 2 ^ k - 1" by (auto simp: ring_ok_def)
  have "(2 :: nat) ^ k < 2 ^ 32" using k(2) by (rule power_strict_increasing) simp
  then have "unat (word_of_nat (2 ^ k) :: u32) = 2 ^ k" by (simp only: unat_of_nat) simp
  then have n: "unat (pf_buf_size p) = 2 ^ k" by (simp add: k(3))
  show "8 dvd unat (pf_buf_size p)" using k(1) le_imp_power_dvd[of 3 k "2 :: nat"] by (simp add: n)
  show "8 \<le> unat (pf_buf_size p)" using k(1) power_increasing[of 3 k "2 :: nat"] by (simp add: n)
  have m: "ucast (2 ^ k - 1 :: u32) = (mask k :: u64)"
    using k(2) by (intro bit_word_eqI) (auto simp: bit_simps mask_eq_exp_minus_1[symmetric])
  have u: "unat (take_bit k t) = take_bit k (unat t)" by (simp only: unsigned_take_bit_eq)
  from m have "t AND ucast (pf_buf_mask p) = take_bit k t" by (simp only: k(4) take_bit_eq_mask)
  then show "unat (t AND ucast (pf_buf_mask p)) = unat t mod unat (pf_buf_size p)"
    using u by (simp only: n take_bit_eq_mod[of k "unat t"])
qed

lemma ring_step:
  assumes "8 dvd N" "8 \<le> N" "8 dvd (a :: nat)"
  shows "a mod N + 8 \<le> N" "(if a mod N + 8 \<ge> N then 0 else a mod N + 8) = (a + 8) mod N"
proof -
  have "8 dvd a mod N" using assms by (simp add: dvd_mod)
  moreover have "a mod N < N" using assms by simp
  ultimately show le: "a mod N + 8 \<le> N" using assms(1) by (auto elim!: dvdE)
  have "(a + 8) mod N = (a mod N + 8) mod N" by (simp add: mod_add_left_eq)
  then show "(if a mod N + 8 \<ge> N then 0 else a mod N + 8) = (a + 8) mod N" using le by auto
qed

lemma next_other:
  assumes "ring_ok p" "pf_tail p \<noteq> pf_head p" "8 dvd unat (pf_tail p)" "rec_at p mp (unat (pf_tail p)) (KOther ty sz)"
  shows "perf_next p mp = perf_next (p\<lparr>pf_tail := pf_tail p + of_nat sz\<rparr>) mp"
  using assms(2,4) ring_ok_size(3)[OF assms(1), of "pf_tail p"] ring_step(1)[OF ring_ok_size(1,2)[OF assms(1)] assms(3)]
  by (subst perf_next.simps) (auto simp: rec_at_def Let_def)

lemma next_bad_sample:
  assumes "ring_ok p" "pf_tail p \<noteq> pf_head p" "8 dvd unat (pf_tail p)" "rec_at p mp (unat (pf_tail p)) (KSampleOther sz)"
  shows "perf_next p mp = Some (Inr (None, p\<lparr>pf_tail := pf_tail p + of_nat sz\<rparr>, mp\<lparr>mp_data_tail := pf_head p\<rparr>))"
  using assms(2,4) ring_ok_size(3)[OF assms(1), of "pf_tail p"] ring_step(1)[OF ring_ok_size(1,2)[OF assms(1)] assms(3)]
  by (subst perf_next.simps) (auto simp: rec_at_def Let_def abort_iterate_def)

lemma next_sample:
  assumes "ring_ok p" "pf_tail p \<noteq> pf_head p" "8 dvd unat (pf_tail p)" "rec_at p mp (unat (pf_tail p)) (KSample ip time data)"
  shows "perf_next p mp = Some (Inr (Some \<lparr>dr_time = time, dr_ip = ip, dr_data = data, dr_tid = pf_pid p\<rparr>,
    p\<lparr>pf_tail := pf_tail p + of_nat EXPECTED_SIZE\<rparr>, mp))"
proof -
  let ?t = "unat (pf_tail p)" and ?N = "unat (pf_buf_size p)"
  note N = ring_ok_size(1,2)[OF assms(1)]
  have d: "8 dvd ?t + 8" "8 dvd ?t + 16" "8 dvd ?t + 24" using assms(3) by (simp_all add: dvd_add)
  have e: "?t + 16 = ?t + 8 + 8" "?t + 24 = ?t + 16 + 8" by simp_all
  have w: "ring_wrap p (?t mod ?N + 8) = (?t + 8) mod ?N" "ring_wrap p ((?t + 8) mod ?N + 8) = (?t + 16) mod ?N"
    "ring_wrap p ((?t + 16) mod ?N + 8) = (?t + 24) mod ?N"
    unfolding ring_wrap_def e(2) by (rule ring_step(2)[OF N assms(3)], unfold e(1), rule ring_step(2)[OF N d(1)],
      fold e(1), rule ring_step(2)[OF N d(2)])
  have r: "ring_word mp p ((?t + 8) mod ?N) = Inr ip" "ring_word mp p ((?t + 16) mod ?N) = Inr time"
    "ring_word mp p ((?t + 24) mod ?N) = Inr data"
    using ring_step(1)[OF N d(1)] ring_step(1)[OF N d(2)] ring_step(1)[OF N d(3)] assms(4)
    by (auto simp: ring_word_def rec_at_def word_at_def)
  show ?thesis
    using assms(2,4) ring_ok_size(3)[OF assms(1), of "pf_tail p"] ring_step(1)[OF N assms(3)]
    by (subst perf_next.simps) (simp add: rec_at_def Let_def w r)
qed

lemma drain_cong: "perf_next p mp = perf_next p1 mp \<Longrightarrow> drain handle p mp s = drain handle p1 mp s"
  by (simp add: drain.simps[of handle p] drain.simps[of handle p1])

lemma drain_exact:
  assumes "ring_ok p" "8 dvd unat (pf_tail p)" "framed p mp (unat (pf_tail p)) recs"
    and "unat (pf_head p) = unat (pf_tail p) + sum_list (map krec_size recs)"
  shows "\<exists>p'. drain handle p mp s =
    Some (bindE (foldE handle (delivered (pf_pid p) recs) s) (\<lambda>s1. Inr (p', mp\<lparr>mp_data_tail := pf_head p\<rparr>, s1)))"
  using assms
proof (induction recs arbitrary: p s)
  case Nil
  then have "pf_tail p = pf_head p" by (simp add: word_unat_eq_iff)
  then show ?case by (subst drain.simps, subst perf_next.simps) (auto simp: abort_iterate_def)
next
  case (Cons r rs)
  let ?p = "p\<lparr>pf_tail := pf_tail p + of_nat (krec_size r)\<rparr>"
  have r: "rec_at p mp (unat (pf_tail p)) r" "8 \<le> krec_size r" "8 dvd krec_size r" using Cons.prems(3) by (auto simp: rec_at_def)
  have ne: "pf_tail p \<noteq> pf_head p"
  proof
    assume "pf_tail p = pf_head p"
    then show False using Cons.prems(4) r(2) by simp
  qed
  have "unat (pf_tail p) + krec_size r < 2 ^ 64" using Cons.prems(4) unsigned_less[of "pf_head p", where ?'a = nat] by simp
  then have t: "unat (pf_tail ?p) = unat (pf_tail p) + krec_size r" by (simp add: unat_word_ariths unat_of_nat)
  have "framed ?p mp pos rs = framed p mp pos rs" for pos
    by (induction rs arbitrary: pos) (simp_all add: rec_at_def word_at_def split: kernel_record.splits)
  then have f: "framed ?p mp (unat (pf_tail ?p)) rs" using Cons.prems(3) t by simp
  have h: "unat (pf_head ?p) = unat (pf_tail ?p) + sum_list (map krec_size rs)" using Cons.prems(4) t by simp
  have d: "8 dvd unat (pf_tail ?p)" unfolding t using Cons.prems(2) r(3) by (rule dvd_add)
  have o: "ring_ok ?p" using Cons.prems(1) by (simp add: ring_ok_def)
  have IH: "\<exists>p'. drain handle ?p mp s = Some (bindE (foldE handle (delivered (pf_pid p) rs) s)
      (\<lambda>s1. Inr (p', mp\<lparr>mp_data_tail := pf_head p\<rparr>, s1)))" for s
    using Cons.IH[OF o d f h, of s] by simp
  show ?case
  proof (cases r)
    case (KSample ip time data)
    then show ?thesis using IH next_sample[OF Cons.prems(1) ne Cons.prems(2) r(1)[unfolded KSample]]
      by (subst drain.simps) (auto split: sum.splits)
  next
    case (KSampleOther sz)
    then show ?thesis using next_bad_sample[OF Cons.prems(1) ne Cons.prems(2) r(1)[unfolded KSampleOther]]
      by (subst drain.simps) auto
  next
    case (KOther ty sz)
    then show ?thesis using IH drain_cong[OF next_other[OF Cons.prems(1) ne Cons.prems(2) r(1)[unfolded KOther]], of handle s] by auto
  qed
qed

text \<open>
  \<^bold>\<open>C21.\<close> Draining a ring ends and delivers the samples. When the records between the two positions
  of the mapped page are framed as the kernel frames them, and fit the ring, the loop ends; it has
  handed exactly the samples, in order and across the end of the ring, up to the first one of another
  size, to the detector, and has released the ring up to the head. Failures of the detector are passed on.
\<close>

theorem perf_drain_ends:
  assumes "ring_ok p" "8 dvd unat (mp_data_tail mp)" "framed p mp (unat (mp_data_tail mp)) recs"
    and "unat (mp_data_head mp) = unat (mp_data_tail mp) + sum_list (map krec_size recs)"
  shows "\<exists>p'. parse_perf_events handle (Some (p, mp)) s =
    Some (bindE (foldE handle (delivered (pf_pid p) recs) s)
      (\<lambda>s1. Inr (Some (p', mp\<lparr>mp_data_tail := mp_data_head mp\<rparr>), s1)))"
proof -
  have "framed (start_iterate mp p) mp pos recs = framed p mp pos recs" for pos
    by (induction recs arbitrary: pos) (simp_all add: start_iterate_def rec_at_def word_at_def split: kernel_record.splits)
  moreover have "ring_ok (start_iterate mp p) = ring_ok p" by (simp add: ring_ok_def start_iterate_def)
  ultimately obtain p' where "drain handle (start_iterate mp p) mp s =
      Some (bindE (foldE handle (delivered (pf_pid p) recs) s) (\<lambda>s1. Inr (p', mp\<lparr>mp_data_tail := mp_data_head mp\<rparr>, s1)))"
    using drain_exact[of "start_iterate mp p" mp recs handle s] assms by (auto simp: start_iterate_def)
  then show ?thesis
    by (cases "foldE handle (delivered (pf_pid p) recs) s") (auto simp: parse_perf_events_def)
qed

definition stuck :: "perf \<Rightarrow> mpage \<Rightarrow> bool" where
  "stuck p mp \<longleftrightarrow> pf_tail p \<noteq> pf_head p \<and> (let hdr = unat (pf_tail p AND ucast (pf_buf_mask p)) in
     hdr + 8 \<le> unat (pf_buf_size p) \<and> ring_num mp (hdr + 6) 2 = 0 \<and> ring_num mp hdr 4 \<noteq> PERF_RECORD_SAMPLE)"

text \<open>A record of size zero keeps the loop where it is forever.\<close>

lemma zero_size_hangs: "stuck p mp \<Longrightarrow> perf_next p mp = None"
proof (rule ccontr)
  assume s: "stuck p mp" and "perf_next p mp \<noteq> None"
  then obtain y where "perf_next p mp = Some y" by blast
  then have "\<not> stuck p mp"
  proof (rule perf_next.raw_induct[where P = "\<lambda>p mp y. \<not> stuck p mp", rotated])
    fix f and p :: perf and mp :: mpage and y
    let ?hdr = "unat (pf_tail p AND ucast (pf_buf_mask p))"
    assume IH: "\<And>p mp y. f p mp = Some y \<Longrightarrow> \<not> stuck p mp"
      and body: "(if pf_tail p = pf_head p then Some (Inr (None, p, abort_iterate p mp))
      else let hdr = unat (pf_tail p AND ucast (pf_buf_mask p))
           in if hdr + 8 > unat (pf_buf_size p) then Some (Inl (Undefined ''read behind the ring''))
              else let size = ring_num mp (hdr + 6) 2;
                       p1 = p\<lparr>pf_tail := pf_tail p + of_nat size\<rparr>
                   in if ring_num mp hdr 4 \<noteq> PERF_RECORD_SAMPLE then f p1 mp
                      else if size \<noteq> EXPECTED_SIZE then Some (Inr (None, p1, abort_iterate p1 mp))
                      else let b1 = ring_wrap p (hdr + 8); b2 = ring_wrap p (b1 + 8); b3 = ring_wrap p (b2 + 8)
                           in Some (bindE (ring_word mp p b1) (\<lambda>ip.
                                    bindE (ring_word mp p b2) (\<lambda>time.
                                    bindE (ring_word mp p b3) (\<lambda>data.
                                      Inr (Some \<lparr>dr_time = time, dr_ip = ip, dr_data = data, dr_tid = pf_pid p\<rparr>, p1, mp)))))) = Some y"
    have "f p mp = Some y" if st: "stuck p mp"
      using body st by (simp add: stuck_def Let_def not_less[symmetric])
    then show "\<not> stuck p mp" using IH by blast
  qed
  with s show False by simp
qed

section \<open>A sample ring\<close>

lemma sum_upto: "(\<Sum>i<2. g i) = g 0 + g 1" "(\<Sum>i<4. g i) = g 0 + g 1 + g 2 + g 3"
  "(\<Sum>i<8. g i) = g 0 + g 1 + g 2 + g 3 + g 4 + g 5 + g 6 + g 7" for g :: "nat \<Rightarrow> nat"
  by (simp_all add: eval_nat_numeral)

text \<open>A page of eight bytes: 2048 bytes of ring. The sample starts eight bytes before the end of the ring.\<close>

definition sample_perf :: perf where
  "sample_perf = snd (perf_open 3 True True True (perf_set_pid 42 (perf_new 8 1
     \<lparr>pf_pid = 0, pf_page_size = 0, pf_buf_size = 0, pf_buf_mask = 0, pf_sample_period = 0, pf_fd = 0, pf_done = False,
      pf_head = 0, pf_tail = 0\<rparr>)))"

definition sample_ring :: mpage where
  "sample_ring = \<lparr>mp_data_head = 2072, mp_data_tail = 2032,
     mp_ring = (\<lambda>_. 0)(2032 := 1, 2038 := 8, 2040 := 9, 2046 := 32, 0 := 7, 8 := 5, 16 := 6)\<rparr>"

theorem perf_drain_ends_witness:
  "\<exists>p'. parse_perf_events (\<lambda>r rs. Inr (r # rs)) (Some (sample_perf, sample_ring)) [] =
     Some (Inr (Some (p', sample_ring\<lparr>mp_data_tail := 2072\<rparr>), [\<lparr>dr_time = 5, dr_ip = 7, dr_data = 6, dr_tid = 42\<rparr>]))"
proof -
  let ?recs = "[KOther 1 8, KSample 7 5 6]"
  have p: "pf_buf_size sample_perf = 2 ^ 11" "pf_buf_mask sample_perf = 2 ^ 11 - 1" "pf_pid sample_perf = 42"
    by (simp_all add: sample_perf_def perf_open_def perf_new_def perf_set_pid_def BUF_BITS_def)
  have ok: "ring_ok sample_perf" unfolding ring_ok_def p by (intro conjI exI[of _ 11]) simp_all
  have n: "unat (2 ^ 11 :: u32) = 2048" by simp
  have "rec_at sample_perf sample_ring 2032 (KOther 1 8)"
    unfolding rec_at_def p n by (simp add: ring_num_def sample_ring_def PERF_RECORD_SAMPLE_def sum_upto)
  moreover have "rec_at sample_perf sample_ring 2040 (KSample 7 5 6)"
    unfolding rec_at_def word_at_def p n
    by (simp add: word_at_def p n ring_num_def sample_ring_def EXPECTED_SIZE_def PERF_RECORD_SAMPLE_def sum_upto)
  ultimately have "framed sample_perf sample_ring (unat (mp_data_tail sample_ring)) ?recs"
    by (simp add: sample_ring_def)
  then show ?thesis
    using ok perf_drain_ends[of sample_perf sample_ring ?recs "\<lambda>r rs. Inr (r # rs)" "[]"]
    by (simp add: p sample_ring_def EXPECTED_SIZE_def)
qed

end
