(* ===== verification/TMI_Loader.thy ===== *)
theory TMI_Loader
  imports Huron_Prelude
begin

text \<open>
  The loader process of TMI, \<^verbatim>\<open>others/tmi/src/tmildr.cpp\<close> in the build with protection: it keeps the
  threads of the program, stops them on request, sends each one through a trampoline that forks it
  into a process, and gives the process the registers the thread had.
\<close>

section \<open>Traced processes\<close>

text \<open>
  What the operating system keeps for the tracer: the processes that exist, the ones attached, the ones
  of these that have stopped, and their registers and memory. Attaching does not stop a process: it stops
  some time later, and runs until then. \<open>world\<close> is what the kernel and the processes do before the next
  call of the tracer, numbered by these calls. Registers and memory of a process can be read and written
  only while it is stopped.
\<close>

record user_regs =
  ur_rip :: u64
  ur_rest :: nat

record procs =
  pr_alive :: "int set"
  pr_attached :: "int set"
  pr_stopped :: "int set"
  pr_regs :: "int \<Rightarrow> user_regs"
  pr_mem :: "int \<Rightarrow> u64 \<Rightarrow> u64 option"

type_synonym world = "nat \<Rightarrow> procs \<Rightarrow> procs"

text \<open>
  Two records of what happened: \<open>tr_halted\<close> has the registers with which each process was stopped last, and
  \<open>tr_written\<close> the registers that the tracer wrote, in order.
\<close>

record tracees =
  tr_procs :: procs
  tr_calls :: nat
  tr_halted :: "int \<Rightarrow> user_regs option"
  tr_written :: "(int \<times> user_regs) list"

definition tr_pass :: "world \<Rightarrow> tracees \<Rightarrow> tracees" where
  "tr_pass run s =
     (let ps = run (tr_calls s) (tr_procs s)
      in s\<lparr>tr_procs := ps, tr_calls := tr_calls s + 1,
           tr_halted := (\<lambda>p. if p \<in> pr_stopped ps \<and> p \<notin> pr_stopped (tr_procs s) then Some (pr_regs ps p) else tr_halted s p)\<rparr>)"

abbreviation stopped :: "int \<Rightarrow> tracees \<Rightarrow> bool" where
  "stopped pid s \<equiv> pid \<in> pr_stopped (tr_procs s)"

definition tr_attach :: "world \<Rightarrow> int \<Rightarrow> tracees \<Rightarrow> bool \<times> tracees" where
  "tr_attach run pid s =
     (let s1 = tr_pass run s
      in if pid \<in> pr_alive (tr_procs s1) \<and> pid \<notin> pr_attached (tr_procs s1)
         then (True, s1\<lparr>tr_procs := (tr_procs s1)\<lparr>pr_attached := insert pid (pr_attached (tr_procs s1))\<rparr>\<rparr>)
         else (False, s1))"

definition tr_getregs :: "world \<Rightarrow> int \<Rightarrow> tracees \<Rightarrow> user_regs option \<times> tracees" where
  "tr_getregs run pid s = (let s1 = tr_pass run s in (if stopped pid s1 then Some (pr_regs (tr_procs s1) pid) else None, s1))"

definition tr_setregs :: "world \<Rightarrow> int \<Rightarrow> user_regs \<Rightarrow> tracees \<Rightarrow> bool \<times> tracees" where
  "tr_setregs run pid r s =
     (let s1 = tr_pass run s
      in if stopped pid s1
         then (True, s1\<lparr>tr_procs := (tr_procs s1)\<lparr>pr_regs := (pr_regs (tr_procs s1))(pid := r)\<rparr>, tr_written := tr_written s1 @ [(pid, r)]\<rparr>)
         else (False, s1))"

definition tr_peek :: "world \<Rightarrow> int \<Rightarrow> u64 \<Rightarrow> tracees \<Rightarrow> u64 option \<times> tracees" where
  "tr_peek run pid a s = (let s1 = tr_pass run s in (if stopped pid s1 then pr_mem (tr_procs s1) pid a else None, s1))"

definition tr_detach :: "world \<Rightarrow> int \<Rightarrow> tracees \<Rightarrow> bool \<times> tracees" where
  "tr_detach run pid s =
     (let s1 = tr_pass run s; ps = tr_procs s1
      in if stopped pid s1
         then (True, s1\<lparr>tr_procs := ps\<lparr>pr_attached := pr_attached ps - {pid}, pr_stopped := pr_stopped ps - {pid}\<rparr>\<rparr>)
         else (False, s1))"

text \<open>The loop around \<^verbatim>\<open>waitpid\<close>; \<open>None\<close> when the process never stops.\<close>

partial_function (option) tr_wait :: "world \<Rightarrow> int \<Rightarrow> tracees \<Rightarrow> tracees option" where
  "tr_wait run pid s = (let s1 = tr_pass run s in if stopped pid s1 then Some s1 else tr_wait run pid s1)"

section \<open>State and events\<close>

datatype SCH_EVT_TYPE =
    SCH_EVT_SIGCHILD | SCH_EVT_FORCE_FORK | SCH_EVT_NEW_THREAD | SCH_EVT_THREAD_EXIT | SCH_EVT_RESUME | SCH_EVT_EXIT

record sch_evt =
  ev_type :: SCH_EVT_TYPE
  ev_mpid :: int
  ev_pid :: int
  ev_data :: u64

record loader =
  ld_all_contexts :: "(int \<times> u64) list"
  ld_pids_to_fork :: "int list"
  ld_pids_to_resume :: "int list"
  ld_regs_to_resume :: "user_regs list"
  ld_sys :: tracees

definition find_tramp :: "int \<Rightarrow> loader \<Rightarrow> u64" where
  "find_tramp pid ld = (case find (\<lambda>c. fst c = pid) (ld_all_contexts ld) of None \<Rightarrow> 0 | Some c \<Rightarrow> snd c)"

text \<open>The answers of the attach calls are not looked at, and nobody waits until the threads have stopped.\<close>

definition stop_thread :: "world \<Rightarrow> int \<times> u64 \<Rightarrow> loader \<Rightarrow> loader" where
  "stop_thread run c ld = ld\<lparr>ld_sys := snd (tr_attach run (fst c) (ld_sys ld)), ld_pids_to_fork := ld_pids_to_fork ld @ [fst c]\<rparr>"

definition stop_the_world :: "world \<Rightarrow> loader \<Rightarrow> loader" where
  "stop_the_world run ld = fold (stop_thread run) (ld_all_contexts ld) ld"

text \<open>\<open>junk\<close> is what the registers hold when they cannot be read, which is not checked.\<close>

definition initiate_trampoline :: "world \<Rightarrow> user_regs \<Rightarrow> loader \<Rightarrow> (bool \<times> loader) result" where
  "initiate_trampoline run junk ld =
     (case ld_pids_to_fork ld of [] \<Rightarrow> Inr (False, ld)
      | tid # rest \<Rightarrow>
          let tramp_loc = find_tramp tid ld
          in bindE (guardE (tramp_loc \<noteq> 0) (Aborted ''tramp_loc != nullptr'')) (\<lambda>_.
             let (answer, s1) = tr_getregs run tid (ld_sys ld);
                 regs = value_or junk answer;
                 (word, s2) = tr_peek run tid tramp_loc s1
             in case word of
                  None \<Rightarrow> Inl (Aborted ''errno == 0'')
                | Some tramp \<Rightarrow>
                    let s3 = snd (tr_setregs run tid (regs\<lparr>ur_rip := tramp\<rparr>) s2);
                        s4 = snd (tr_detach run tid s3)
                    in Inr (True, ld\<lparr>ld_pids_to_fork := rest, ld_regs_to_resume := ld_regs_to_resume ld @ [regs], ld_sys := s4\<rparr>)))"

text \<open>The handlers return \<open>None\<close> when they wait for ever.\<close>

definition handle_evt_force_fork :: "world \<Rightarrow> user_regs \<Rightarrow> sch_evt \<Rightarrow> loader \<Rightarrow> (bool \<times> loader) result option" where
  "handle_evt_force_fork run junk evt ld =
     Some (bindE (initiate_trampoline run junk (stop_the_world run ld)) (\<lambda>(_, ld1). Inr (True, ld1)))"

text \<open>What the handler does after the new process has stopped.\<close>

definition resume_stopped :: "world \<Rightarrow> user_regs \<Rightarrow> int \<Rightarrow> loader \<Rightarrow> (bool \<times> loader) result" where
  "resume_stopped run junk new_child_pid ld =
     (case ld_regs_to_resume ld of [] \<Rightarrow> Inr (False, ld)
      | orig_regs # rest \<Rightarrow>
          let (ok, s1) = tr_setregs run new_child_pid orig_regs (ld_sys ld)
          in bindE (guardE ok (Aborted ''errno == 0'')) (\<lambda>_.
             let (ok2, s2) = tr_detach run new_child_pid s1
             in bindE (guardE ok2 (Aborted ''errno == 0'')) (\<lambda>_.
                let ld1 = ld\<lparr>ld_regs_to_resume := rest, ld_sys := s2\<rparr>
                in if ld_pids_to_fork ld1 \<noteq> [] then bindE (initiate_trampoline run junk ld1) (\<lambda>(_, ld2). Inr (True, ld2))
                   else Inr (True, ld1))))"

definition handle_evt_resume :: "world \<Rightarrow> user_regs \<Rightarrow> sch_evt \<Rightarrow> loader \<Rightarrow> (bool \<times> loader) result option" where
  "handle_evt_resume run junk evt ld =
     (let ld1 = ld\<lparr>ld_pids_to_resume := ld_pids_to_resume ld @ [ev_pid evt]\<rparr>;
          new_child_pid = ev_pid evt;
          (ok, s1) = tr_attach run new_child_pid (ld_sys ld1)
      in if \<not> ok then Some (Inl (Aborted ''errno == 0''))
         else case tr_wait run new_child_pid s1 of None \<Rightarrow> None
              | Some s2 \<Rightarrow> Some (resume_stopped run junk new_child_pid (ld1\<lparr>ld_sys := s2\<rparr>)))"

definition handle_evt_new_thread :: "sch_evt \<Rightarrow> loader \<Rightarrow> (bool \<times> loader) result" where
  "handle_evt_new_thread evt ld = Inr (True, ld\<lparr>ld_all_contexts := ld_all_contexts ld @ [(ev_pid evt, ev_data evt)]\<rparr>)"

fun erase_first :: "int \<Rightarrow> (int \<times> u64) list \<Rightarrow> (int \<times> u64) list" where
  "erase_first pid [] = []"
| "erase_first pid (c # cs) = (if fst c = pid then cs else c # erase_first pid cs)"

definition handle_evt_thread_exit :: "sch_evt \<Rightarrow> loader \<Rightarrow> (bool \<times> loader) result" where
  "handle_evt_thread_exit evt ld = Inr (True, ld\<lparr>ld_all_contexts := erase_first (ev_pid evt) (ld_all_contexts ld)\<rparr>)"

definition handle_loop_event :: "world \<Rightarrow> user_regs \<Rightarrow> sch_evt \<Rightarrow> loader \<Rightarrow> (bool \<times> loader) result option" where
  "handle_loop_event run junk evt ld =
     (case ev_type evt of
        SCH_EVT_FORCE_FORK \<Rightarrow> handle_evt_force_fork run junk evt ld
      | SCH_EVT_NEW_THREAD \<Rightarrow> Some (handle_evt_new_thread evt ld)
      | SCH_EVT_THREAD_EXIT \<Rightarrow> Some (handle_evt_thread_exit evt ld)
      | SCH_EVT_RESUME \<Rightarrow> handle_evt_resume run junk evt ld
      | SCH_EVT_EXIT \<Rightarrow> Some (Inr (False, ld))
      | SCH_EVT_SIGCHILD \<Rightarrow> Some (Inr (True, ld)))"

text \<open>The loop over the events of the pipe; the flag says that it waits for more.\<close>

fun loader_loop :: "world \<Rightarrow> user_regs \<Rightarrow> sch_evt list \<Rightarrow> loader \<Rightarrow> (bool \<times> loader) result option" where
  "loader_loop run junk [] ld = Some (Inr (True, ld))"
| "loader_loop run junk (evt # evts) ld =
     (case handle_loop_event run junk evt ld of None \<Rightarrow> None
      | Some (Inl e) \<Rightarrow> Some (Inl e)
      | Some (Inr (keep_going, ld1)) \<Rightarrow> if keep_going then loader_loop run junk evts ld1 else Some (Inr (False, ld1)))"

section \<open>A conversion\<close>

abbreviation resume_evt :: "int \<Rightarrow> sch_evt" where
  "resume_evt c \<equiv> \<lparr>ev_type = SCH_EVT_RESUME, ev_mpid = c, ev_pid = c, ev_data = 0\<rparr>"

abbreviation force_fork_evt :: sch_evt where
  "force_fork_evt \<equiv> \<lparr>ev_type = SCH_EVT_FORCE_FORK, ev_mpid = 0, ev_pid = 0, ev_data = 0\<rparr>"

text \<open>
  What is documented of the kernel: only the tracer attaches and detaches; a stopped process is attached, stays
  stopped, and keeps its registers; an attached process stops at some time.
\<close>

definition kernel_ok :: "world \<Rightarrow> bool" where
  "kernel_ok run \<longleftrightarrow>
     (\<forall>k ps. pr_attached (run k ps) = pr_attached ps \<and> pr_stopped ps \<subseteq> pr_stopped (run k ps) \<and>
        (pr_stopped ps \<subseteq> pr_attached ps \<longrightarrow> pr_stopped (run k ps) \<subseteq> pr_attached ps) \<and>
        (\<forall>p \<in> pr_stopped ps. pr_regs (run k ps) p = pr_regs ps p)) \<and>
     (\<forall>s p. p \<in> pr_attached (tr_procs s) \<longrightarrow> (\<exists>m. stopped p ((tr_pass run ^^ Suc m) s)))"

text \<open>
  The threads \<open>cs\<close> and the processes \<open>ch\<close> exist, and the words where the threads have the addresses of their
  trampolines do not change.
\<close>

definition setting_ok :: "world \<Rightarrow> (int \<times> u64) list \<Rightarrow> int list \<Rightarrow> (int \<Rightarrow> u64) \<Rightarrow> bool" where
  "setting_ok run cs ch tramp \<longleftrightarrow>
     (\<forall>k ps. set ch \<union> fst ` set cs \<subseteq> pr_alive (run k ps) \<and> (\<forall>c \<in> set cs. pr_mem (run k ps) (fst c) (snd c) = Some (tramp (fst c)))) \<and>
     (\<forall>c \<in> set cs. snd c \<noteq> 0)"

text \<open>What the loader hopes for: a thread to which it attached has stopped before its next call.\<close>

definition threads_prompt :: "world \<Rightarrow> (int \<times> u64) list \<Rightarrow> bool" where
  "threads_prompt run cs \<longleftrightarrow> (\<forall>k ps. pr_attached ps \<inter> fst ` set cs \<subseteq> pr_stopped (run k ps))"

section \<open>Calls\<close>

text \<open>The registers of stopped processes are those they were stopped with, except for the processes in \<open>X\<close>.\<close>

definition halted_ok :: "int set \<Rightarrow> tracees \<Rightarrow> bool" where
  "halted_ok X s \<longleftrightarrow> pr_stopped (tr_procs s) \<subseteq> pr_attached (tr_procs s) \<and>
     (\<forall>p \<in> pr_stopped (tr_procs s) - X. tr_halted s p = Some (pr_regs (tr_procs s) p))"

lemma pass_ok:
  assumes "kernel_ok run" "halted_ok X s"
  shows "halted_ok X (tr_pass run s)" "pr_attached (tr_procs (tr_pass run s)) = pr_attached (tr_procs s)"
    "stopped p s \<Longrightarrow> stopped p (tr_pass run s) \<and> pr_regs (tr_procs (tr_pass run s)) p = pr_regs (tr_procs s) p"
    "p \<notin> pr_attached (tr_procs s) \<or> stopped p s \<Longrightarrow> tr_halted (tr_pass run s) p = tr_halted s p" "tr_written (tr_pass run s) = tr_written s"
proof -
  let ?ps = "tr_procs s"
  let ?ps' = "run (tr_calls s) ?ps"
  have k: "pr_attached ?ps' = pr_attached ?ps" "pr_stopped ?ps \<subseteq> pr_stopped ?ps'" "pr_stopped ?ps' \<subseteq> pr_attached ?ps"
    "\<And>p. p \<in> pr_stopped ?ps \<Longrightarrow> pr_regs ?ps' p = pr_regs ?ps p"
    using assms by (auto simp: kernel_ok_def halted_ok_def)
  show "halted_ok X (tr_pass run s)" using k assms(2) by (auto simp: halted_ok_def tr_pass_def Let_def)
  show "pr_attached (tr_procs (tr_pass run s)) = pr_attached (tr_procs s)" "tr_written (tr_pass run s) = tr_written s"
    using k by (simp_all add: tr_pass_def Let_def)
  show "stopped p s \<Longrightarrow> stopped p (tr_pass run s) \<and> pr_regs (tr_procs (tr_pass run s)) p = pr_regs (tr_procs s) p"
    "p \<notin> pr_attached (tr_procs s) \<or> stopped p s \<Longrightarrow> tr_halted (tr_pass run s) p = tr_halted s p"
    using k by (auto simp: tr_pass_def Let_def)
qed

lemma wait_ok:
  assumes "kernel_ok run" "halted_ok {} s" "p \<in> pr_attached (tr_procs s)"
  shows "\<exists>s'. tr_wait run p s = Some s' \<and> halted_ok {} s' \<and> stopped p s' \<and> pr_attached (tr_procs s') = pr_attached (tr_procs s) \<and>
    (\<forall>q. q \<notin> pr_attached (tr_procs s) \<longrightarrow> tr_halted s' q = tr_halted s q) \<and> tr_written s' = tr_written s"
proof -
  obtain m where "stopped p ((tr_pass run ^^ Suc m) s)" using assms(1,3) unfolding kernel_ok_def by blast
  then show ?thesis using assms(2,3)
  proof (induction m arbitrary: s)
    case 0
    note k = pass_ok[OF assms(1) 0(2)]
    show ?case using 0 k by (subst tr_wait.simps) (simp add: Let_def)
  next
    case (Suc m)
    note k = pass_ok[OF assms(1) Suc.prems(2)]
    show ?case
    proof (cases "stopped p (tr_pass run s)")
      case True
      then show ?thesis using k by (subst tr_wait.simps) (simp add: Let_def)
    next
      case False
      have "stopped p ((tr_pass run ^^ Suc m) (tr_pass run s))" using Suc.prems(1) by (simp add: funpow_swap1)
      from Suc.IH[OF this k(1)] k(2,4,5) Suc.prems(3) False show ?thesis
        by (subst tr_wait.simps) (auto simp: Let_def)
    qed
  qed
qed

text \<open>Writing registers and letting go.\<close>

lemma set_detach_ok:
  assumes k: "kernel_ok run" and h: "halted_ok {} s" and st: "stopped p s"
  shows "\<exists>s1 s2. tr_setregs run p r s = (True, s1) \<and> tr_detach run p s1 = (True, s2) \<and> halted_ok {} s2 \<and>
    pr_attached (tr_procs s2) = pr_attached (tr_procs s) - {p} \<and> tr_halted s2 p = tr_halted s p \<and>
    (\<forall>q. q \<notin> pr_attached (tr_procs s) \<longrightarrow> tr_halted s2 q = tr_halted s q) \<and> tr_written s2 = tr_written s @ [(p, r)]"
proof -
  let ?a = "tr_pass run s"
  let ?s1 = "?a\<lparr>tr_procs := (tr_procs ?a)\<lparr>pr_regs := (pr_regs (tr_procs ?a))(p := r)\<rparr>, tr_written := tr_written ?a @ [(p, r)]\<rparr>"
  note a = pass_ok[OF k h]
  have s1: "tr_setregs run p r s = (True, ?s1)" using a(3)[OF st] by (simp add: tr_setregs_def Let_def)
  have h1: "halted_ok {p} ?s1" using a(1) by (auto simp: halted_ok_def)
  let ?b = "tr_pass run ?s1"
  let ?s2 = "?b\<lparr>tr_procs := (tr_procs ?b)\<lparr>pr_attached := pr_attached (tr_procs ?b) - {p}, pr_stopped := pr_stopped (tr_procs ?b) - {p}\<rparr>\<rparr>"
  note b = pass_ok[OF k h1]
  have st1: "stopped p ?s1" using a(3)[OF st] by simp
  have "tr_detach run p ?s1 = (True, ?s2)" using b(3)[OF st1] by (simp add: tr_detach_def Let_def)
  moreover have "halted_ok {} ?s2" using b(1) by (auto simp: halted_ok_def)
  moreover have "pr_attached (tr_procs ?s2) = pr_attached (tr_procs s) - {p}" "tr_written ?s2 = tr_written s @ [(p, r)]"
    using a(2,5) b(2,5) by simp_all
  moreover have "tr_halted ?s2 p = tr_halted s p" using b(4)[of p] st1 a(4)[of p] st by simp
  moreover have "tr_halted ?s2 q = tr_halted s q" if "q \<notin> pr_attached (tr_procs s)" for q using b(4)[of q] a(2,4) that by simp
  ultimately show ?thesis using s1 by blast
qed

section \<open>Threads one after the other\<close>

lemma find_context: "distinct (map fst cs) \<Longrightarrow> (t, a) \<in> set cs \<Longrightarrow> find (\<lambda>c. fst c = t) cs = Some (t, a)"
  by (induction cs) force+

text \<open>Threads that have been let go keep the record of their stop.\<close>

definition kept :: "tracees \<Rightarrow> tracees \<Rightarrow> bool" where
  "kept s s' \<longleftrightarrow> (\<forall>p. p \<notin> pr_attached (tr_procs s) \<longrightarrow> tr_halted s' p = tr_halted s p)"

lemma initiate_trampoline_ok:
  assumes k: "kernel_ok run" "setting_ok run cs ch tramp" "threads_prompt run cs" and h: "halted_ok {} (ld_sys ld)"
    and ld: "ld_pids_to_fork ld = t # ts" "ld_all_contexts ld = cs" "t \<in> fst ` set cs" "distinct (map fst cs)"
      "t \<in> pr_attached (tr_procs (ld_sys ld))"
  shows "\<exists>ld' r. initiate_trampoline run junk ld = Inr (True, ld') \<and> ld_pids_to_fork ld' = ts \<and> ld_all_contexts ld' = cs \<and>
    ld_regs_to_resume ld' = ld_regs_to_resume ld @ [r] \<and> halted_ok {} (ld_sys ld') \<and> tr_halted (ld_sys ld') t = Some r \<and>
    pr_attached (tr_procs (ld_sys ld')) = pr_attached (tr_procs (ld_sys ld)) - {t} \<and> kept (ld_sys ld) (ld_sys ld') \<and>
    tr_written (ld_sys ld') = tr_written (ld_sys ld) @ [(t, r\<lparr>ur_rip := tramp t\<rparr>)]"
proof -
  let ?s = "ld_sys ld"
  obtain a where a: "(t, a) \<in> set cs" using ld(3) by force
  have f: "find_tramp t ld = a" using find_context[OF ld(4) a] ld(2) by (simp add: find_tramp_def)
  have a0: "a \<noteq> 0" using k(2) a by (auto simp: setting_ok_def)
  let ?s1 = "tr_pass run ?s"
  let ?s2 = "tr_pass run ?s1"
  note p1 = pass_ok[OF k(1) h]
  note p2 = pass_ok[OF k(1) p1(1)]
  have st1: "stopped t ?s1" using k(3) ld(3,5) by (auto simp: threads_prompt_def tr_pass_def Let_def)
  have st2: "stopped t ?s2" using p2(3)[OF st1] by simp
  define r where "r = pr_regs (tr_procs ?s1) t"
  have hr: "tr_halted ?s2 t = Some r" using p1(1) p2(4)[of t] st1 by (simp add: halted_ok_def r_def)
  have m: "pr_mem (tr_procs ?s2) t a = Some (tramp t)" using k(2) a by (force simp: setting_ok_def tr_pass_def Let_def)
  obtain s3 s4 where s: "tr_setregs run t (r\<lparr>ur_rip := tramp t\<rparr>) ?s2 = (True, s3)" "tr_detach run t s3 = (True, s4)" "halted_ok {} s4"
    "pr_attached (tr_procs s4) = pr_attached (tr_procs ?s2) - {t}" "tr_halted s4 t = tr_halted ?s2 t"
    "\<forall>q. q \<notin> pr_attached (tr_procs ?s2) \<longrightarrow> tr_halted s4 q = tr_halted ?s2 q" "tr_written s4 = tr_written ?s2 @ [(t, r\<lparr>ur_rip := tramp t\<rparr>)]"
    using set_detach_ok[OF k(1) p2(1) st2, of "r\<lparr>ur_rip := tramp t\<rparr>"] by blast
  have "kept ?s s4" using s(6) p1(2,4) p2(2,4) by (simp add: kept_def)
  moreover have "initiate_trampoline run junk ld =
      Inr (True, ld\<lparr>ld_pids_to_fork := ts, ld_regs_to_resume := ld_regs_to_resume ld @ [r], ld_sys := s4\<rparr>)"
    using ld(1) f a0 st1 st2 m s(1,2) by (simp add: initiate_trampoline_def tr_getregs_def tr_peek_def Let_def r_def)
  ultimately show ?thesis using s(3-5,7) hr ld(2) p1(2,5) p2(2,5) by auto
qed

text \<open>The registers that a conversion writes: those of the trampoline for each thread, then its own for its process.\<close>

fun conversion :: "(int \<Rightarrow> u64) \<Rightarrow> int list \<Rightarrow> int list \<Rightarrow> user_regs list \<Rightarrow> (int \<times> user_regs) list" where
  "conversion tramp (t # ts) (c # ch) (r # rs) = (t, r\<lparr>ur_rip := tramp t\<rparr>) # (c, r) # conversion tramp ts ch rs"
| "conversion tramp _ _ _ = []"

lemma attach_wait_ok:
  assumes k: "kernel_ok run" "setting_ok run cs ch tramp" and h: "halted_ok {} s"
    and c: "c \<in> set ch" "c \<notin> pr_attached (tr_procs s)"
  shows "\<exists>s1 s2. tr_attach run c s = (True, s1) \<and> tr_wait run c s1 = Some s2 \<and> halted_ok {} s2 \<and> stopped c s2 \<and>
    pr_attached (tr_procs s2) = insert c (pr_attached (tr_procs s)) \<and>
    (\<forall>p. p \<notin> insert c (pr_attached (tr_procs s)) \<longrightarrow> tr_halted s2 p = tr_halted s p) \<and> tr_written s2 = tr_written s"
proof -
  let ?a = "tr_pass run s"
  let ?s1 = "?a\<lparr>tr_procs := (tr_procs ?a)\<lparr>pr_attached := insert c (pr_attached (tr_procs ?a))\<rparr>\<rparr>"
  note a = pass_ok[OF k(1) h]
  have "set ch \<subseteq> pr_alive (run n ps)" for n ps using k(2) by (simp add: setting_ok_def)
  then have "c \<in> pr_alive (tr_procs ?a)" using c(1) by (auto simp: tr_pass_def Let_def)
  then have 1: "tr_attach run c s = (True, ?s1)" using c(2) a(2) by (simp add: tr_attach_def Let_def)
  have h1: "halted_ok {} ?s1" using a(1) by (auto simp: halted_ok_def)
  from wait_ok[OF k(1) h1, of c] 1 a(2,4,5) show ?thesis by auto
qed

lemma resume_run:
  assumes k: "kernel_ok run" "setting_ok run cs chs tramp" "threads_prompt run cs" and d: "distinct (map fst cs)"
    and "halted_ok {} (ld_sys ld)" "ld_all_contexts ld = cs" "ld_pids_to_fork ld = ts" "ld_regs_to_resume ld = [r]"
      "pr_attached (tr_procs (ld_sys ld)) = set ts" "set ts \<subseteq> fst ` set cs"
    and "distinct (c # ch @ ts)" "set (c # ch) \<subseteq> set chs" "length ch = length ts"
  shows "\<exists>ld' rs. loader_loop run junk (map resume_evt (c # ch)) ld = Some (Inr (True, ld')) \<and> ld_pids_to_fork ld' = [] \<and>
    ld_regs_to_resume ld' = [] \<and> pr_attached (tr_procs (ld_sys ld')) = {} \<and> map (tr_halted (ld_sys ld')) ts = map Some rs \<and>
    (\<forall>p. p \<notin> set (c # ch @ ts) \<longrightarrow> tr_halted (ld_sys ld') p = tr_halted (ld_sys ld) p) \<and>
    tr_written (ld_sys ld') = tr_written (ld_sys ld) @ (c, r) # conversion tramp ts ch rs"
  using assms(5-)
proof (induction ts arbitrary: ld r c ch)
  case Nil
  let ?ld = "ld\<lparr>ld_pids_to_resume := ld_pids_to_resume ld @ [c]\<rparr>"
  obtain s1 s2 where s: "tr_attach run c (ld_sys ld) = (True, s1)" "tr_wait run c s1 = Some s2" "halted_ok {} s2" "stopped c s2"
    "pr_attached (tr_procs s2) = {c}" "\<forall>p. p \<noteq> c \<longrightarrow> tr_halted s2 p = tr_halted (ld_sys ld) p" "tr_written s2 = tr_written (ld_sys ld)"
    using attach_wait_ok[OF k(1,2) Nil(1), of c] Nil(5,8) by auto
  obtain s3 s4 where s4: "tr_setregs run c r s2 = (True, s3)" "tr_detach run c s3 = (True, s4)"
    "pr_attached (tr_procs s4) = {}" "\<forall>q. q \<noteq> c \<longrightarrow> tr_halted s4 q = tr_halted s2 q" "tr_written s4 = tr_written s2 @ [(c, r)]"
    using set_detach_ok[OF k(1) s(3,4), of r] s(5) by auto
  have "handle_loop_event run junk (resume_evt c) ld = Some (Inr (True, ?ld\<lparr>ld_regs_to_resume := [], ld_sys := s4\<rparr>))"
    using s(1,2) s4(1,2) Nil(3,4) by (simp add: handle_loop_event_def handle_evt_resume_def resume_stopped_def Let_def)
  then show ?case using Nil(3,9) s(6,7) s4(3-5) by auto
next
  case (Cons t ts)
  obtain c2 ch' where ch: "ch = c2 # ch'" using Cons.prems(9) by (cases ch) auto
  let ?ld = "ld\<lparr>ld_pids_to_resume := ld_pids_to_resume ld @ [c]\<rparr>"
  have cn: "c \<notin> set (t # ts)" using Cons.prems(7) by auto
  obtain s1 s2 where s: "tr_attach run c (ld_sys ld) = (True, s1)" "tr_wait run c s1 = Some s2" "halted_ok {} s2" "stopped c s2"
    "pr_attached (tr_procs s2) = insert c (set (t # ts))" "\<forall>p. p \<notin> set (c # t # ts) \<longrightarrow> tr_halted s2 p = tr_halted (ld_sys ld) p"
    "tr_written s2 = tr_written (ld_sys ld)"
    using attach_wait_ok[OF k(1,2) Cons.prems(1), of c] Cons.prems(5,8) cn by auto
  obtain s3 s4 where s4: "tr_setregs run c r s2 = (True, s3)" "tr_detach run c s3 = (True, s4)" "halted_ok {} s4"
    "pr_attached (tr_procs s4) = set (t # ts)" "\<forall>q. q \<notin> set (c # t # ts) \<longrightarrow> tr_halted s4 q = tr_halted s2 q" "tr_written s4 = tr_written s2 @ [(c, r)]"
    using set_detach_ok[OF k(1) s(3,4), of r] s(5) cn by auto
  let ?ld4 = "?ld\<lparr>ld_regs_to_resume := [], ld_sys := s4\<rparr>"
  obtain ld5 q where i: "initiate_trampoline run junk ?ld4 = Inr (True, ld5)" "ld_pids_to_fork ld5 = ts" "ld_all_contexts ld5 = cs"
    "ld_regs_to_resume ld5 = [q]" "halted_ok {} (ld_sys ld5)" "tr_halted (ld_sys ld5) t = Some q"
    "pr_attached (tr_procs (ld_sys ld5)) = set (t # ts) - {t}" "kept s4 (ld_sys ld5)"
    "tr_written (ld_sys ld5) = tr_written s4 @ [(t, q\<lparr>ur_rip := tramp t\<rparr>)]"
    using initiate_trampoline_ok[OF k, of ?ld4 t ts junk] s4(3,4) Cons.prems(2,3,6) d by auto
  have h: "handle_loop_event run junk (resume_evt c) ld = Some (Inr (True, ld5))"
    using s(1,2) s4(1,2) Cons.prems(3,4) i(1) by (simp add: handle_loop_event_def handle_evt_resume_def resume_stopped_def Let_def)
  have at: "pr_attached (tr_procs (ld_sys ld5)) = set ts" using i(7) Cons.prems(7) by auto
  obtain ld' rs where r: "loader_loop run junk (map resume_evt (c2 # ch')) ld5 = Some (Inr (True, ld'))" "ld_pids_to_fork ld' = []"
    "ld_regs_to_resume ld' = []" "pr_attached (tr_procs (ld_sys ld')) = {}" "map (tr_halted (ld_sys ld')) ts = map Some rs"
    "\<forall>p. p \<notin> set (c2 # ch' @ ts) \<longrightarrow> tr_halted (ld_sys ld') p = tr_halted (ld_sys ld5) p"
    "tr_written (ld_sys ld') = tr_written (ld_sys ld5) @ (c2, q) # conversion tramp ts ch' rs"
    using Cons.IH[OF i(5,3,2,4) at, of c2 ch'] Cons.prems(6-9) by (auto simp: ch)
  have "t \<notin> set (c2 # ch' @ ts)" using Cons.prems(7) by (auto simp: ch)
  then have "map (tr_halted (ld_sys ld')) (t # ts) = map Some (q # rs)" using r(5,6) i(6) by simp
  moreover have "tr_halted (ld_sys ld') p = tr_halted (ld_sys ld) p" if "p \<notin> set (c # ch @ t # ts)" for p
    using that r(6) i(8) s4(4,5) s(6) by (auto simp: ch kept_def)
  moreover have "tr_written (ld_sys ld') = tr_written (ld_sys ld) @ (c, r) # conversion tramp (t # ts) ch (q # rs)"
    using r(7) i(9) s4(6) s(7) by (simp add: ch)
  ultimately show ?case using h r(1-4) by (intro exI[of _ ld'] exI[of _ "q # rs"]) (simp add: ch)
qed

lemma stop_the_world_ok:
  assumes k: "kernel_ok run" "setting_ok run cs ch tramp"
    and "halted_ok {} (ld_sys ld)" "distinct (map fst ds)" "set ds \<subseteq> set cs" "fst ` set ds \<inter> pr_attached (tr_procs (ld_sys ld)) = {}"
  shows "\<exists>s'. fold (stop_thread run) ds ld = ld\<lparr>ld_pids_to_fork := ld_pids_to_fork ld @ map fst ds, ld_sys := s'\<rparr> \<and> halted_ok {} s' \<and>
    pr_attached (tr_procs s') = pr_attached (tr_procs (ld_sys ld)) \<union> fst ` set ds \<and> tr_written s' = tr_written (ld_sys ld)"
  using assms(3-)
proof (induction ds arbitrary: ld)
  case Nil
  then show ?case by (intro exI[of _ "ld_sys ld"]) simp
next
  case (Cons c ds)
  let ?a = "tr_pass run (ld_sys ld)"
  let ?s = "?a\<lparr>tr_procs := (tr_procs ?a)\<lparr>pr_attached := insert (fst c) (pr_attached (tr_procs ?a))\<rparr>\<rparr>"
  note a = pass_ok[OF k(1) Cons.prems(1)]
  have "fst c \<in> pr_alive (tr_procs ?a)" using k(2) Cons.prems(3) by (auto simp: setting_ok_def tr_pass_def Let_def)
  moreover have "fst c \<notin> pr_attached (tr_procs ?a)" using Cons.prems(4) a(2) by auto
  ultimately have 1: "stop_thread run c ld = ld\<lparr>ld_pids_to_fork := ld_pids_to_fork ld @ [fst c], ld_sys := ?s\<rparr>"
    by (simp add: stop_thread_def tr_attach_def Let_def)
  have "halted_ok {} ?s" using a(1) by (auto simp: halted_ok_def)
  then show ?case
    using Cons.IH[of "stop_thread run c ld"] Cons.prems(2-4) a(2,5) by (auto simp: 1 insert_commute)
qed


text \<open>
  What happens otherwise. A thread that has not stopped when its registers are read, but has when its memory is
  read, loses them: it goes to its trampoline with arbitrary registers, which its process gets back. A thread that
  has not stopped then either stops the loader.
\<close>

lemma late_stop_loses_registers:
  assumes "ld_pids_to_fork ld = t # ts" "find_tramp t ld = a" "a \<noteq> 0" "\<not> stopped t (tr_pass run (ld_sys ld))"
  defines "s2 \<equiv> tr_pass run (tr_pass run (ld_sys ld))"
  shows "stopped t s2 \<Longrightarrow> pr_mem (tr_procs s2) t a = Some tramp \<Longrightarrow>
      \<exists>ld'. initiate_trampoline run junk ld = Inr (True, ld') \<and> ld_regs_to_resume ld' = ld_regs_to_resume ld @ [junk]"
    "\<not> stopped t s2 \<Longrightarrow> initiate_trampoline run junk ld = Inl (Aborted ''errno == 0'')"
  using assms(1-4) by (simp_all add: s2_def initiate_trampoline_def tr_getregs_def tr_peek_def Let_def split: prod.splits)

text \<open>
  A thread that is reported to have ended while it waits for its conversion stops the loader: its
  trampoline is no longer found.
\<close>

lemma exit_during_conversion:
  assumes "ld_pids_to_fork ld = t # ts" "t \<notin> fst ` set (ld_all_contexts ld)"
  shows "initiate_trampoline run junk ld = Inl (Aborted ''tramp_loc != nullptr'')"
proof -
  have "find (\<lambda>c. fst c = t) (ld_all_contexts ld) = None" using assms(2) by (force simp: find_None_iff)
  then show ?thesis using assms(1) by (simp add: initiate_trampoline_def find_tramp_def)
qed

section \<open>A sample conversion\<close>

text \<open>Attached processes stop at once, with their own numbers in the registers.\<close>

definition prompt_world :: world where
  "prompt_world k ps = ps\<lparr>pr_alive := {11, 12, 21, 22}, pr_stopped := pr_stopped ps \<union> pr_attached ps, pr_mem := (\<lambda>p a. Some 4096)\<rparr>"

definition sample_loader :: loader where
  "sample_loader = \<lparr>ld_all_contexts = [(11, 64), (12, 128)], ld_pids_to_fork = [], ld_pids_to_resume = [], ld_regs_to_resume = [],
     ld_sys = \<lparr>tr_procs = \<lparr>pr_alive = {11, 12, 21, 22}, pr_attached = {}, pr_stopped = {},
         pr_regs = (\<lambda>p. \<lparr>ur_rip = of_int p, ur_rest = nat p\<rparr>), pr_mem = (\<lambda>p a. Some 4096)\<rparr>,
       tr_calls = 0, tr_halted = (\<lambda>_. None), tr_written = []\<rparr>\<rparr>"

lemma prompt_world_ok:
  "kernel_ok prompt_world" "setting_ok prompt_world [(11, 64), (12, 128)] [21, 22] (\<lambda>_. 4096)"
  "threads_prompt prompt_world [(11, 64), (12, 128)]"
proof -
  have "stopped p ((tr_pass prompt_world ^^ Suc 0) s)" if "p \<in> pr_attached (tr_procs s)" for s p
    using that by (simp add: tr_pass_def prompt_world_def Let_def)
  then have "\<forall>s p. p \<in> pr_attached (tr_procs s) \<longrightarrow> (\<exists>m. stopped p ((tr_pass prompt_world ^^ Suc m) s))" by blast
  then show "kernel_ok prompt_world" unfolding kernel_ok_def by (simp add: prompt_world_def)
  show "setting_ok prompt_world [(11, 64), (12, 128)] [21, 22] (\<lambda>_. 4096)" "threads_prompt prompt_world [(11, 64), (12, 128)]"
    by (auto simp: setting_ok_def threads_prompt_def prompt_world_def)
qed


end
