(* ===== verification/TMI_Threads.thy ===== *)
theory TMI_Threads
  imports TMI_Perf TMI_Loader TMI_Memory
begin

text \<open>
  The threads of a program under TMI: \<^verbatim>\<open>others/tmi/src/tmithread.cpp\<close> and the thread functions of
  \<^verbatim>\<open>others/tmi/src/libtmi.cpp\<close>, in the build with protection. The contexts of threads live in shared
  memory and are numbered in the order of their creation. One memory stands for the page tables of all processes, since
  starting, ending and joining do not depend on them; theory \<^verbatim>\<open>TMI_Lock\<close> has one per process.
\<close>

section \<open>Thread contexts\<close>

text \<open>A semaphore is its value. \<open>None\<close> is a field that is not set yet.\<close>

record tmi_thread =
  tt_tid :: int
  tt_pid :: int
  tt_is_process :: bool
  tt_pthreadid :: "nat option"
  tt_start_routine :: u64
  tt_arg :: u64
  tt_tramp :: u64
  tt_wait_sem :: "nat option"
  tt_ret :: "u64 option"
  tt_perf :: "(perf \<times> mpage) option"
  tt_isRunning :: bool

definition tmi_thread_new :: "u64 \<Rightarrow> u64 \<Rightarrow> tmi_thread" where
  "tmi_thread_new start_routine arg =
     \<lparr>tt_tid = - 1, tt_pid = - 1, tt_is_process = False, tt_pthreadid = None, tt_start_routine = start_routine, tt_arg = arg,
      tt_tramp = 0, tt_wait_sem = None, tt_ret = None, tt_perf = None, tt_isRunning = True\<rparr>"

definition set_tid :: "int \<Rightarrow> tmi_thread \<Rightarrow> tmi_thread" where
  "set_tid tid th = th\<lparr>tt_tid := tid, tt_wait_sem := Some 0\<rparr>"

text \<open>The kernel's answers are the parameters of \<^const>\<open>perf_open\<close>; the counter stays in place when opening fails.\<close>

definition init_perf :: "int \<Rightarrow> bool \<Rightarrow> bool \<Rightarrow> mpage \<Rightarrow> u32 \<Rightarrow> perf \<Rightarrow> int \<Rightarrow> tmi_thread \<Rightarrow> bool \<times> tmi_thread" where
  "init_perf fd mapped enabled mp page_size junk sample_period th =
     (let (ok, p) = perf_open fd mapped enabled True (perf_set_pid (tt_tid th) (perf_new page_size sample_period junk))
      in (ok, th\<lparr>tt_perf := Some (p, mp)\<rparr>))"

definition cleanup_perf_thread :: "tmi_thread \<Rightarrow> tmi_thread" where
  "cleanup_perf_thread th = th\<lparr>tt_perf := map_option (\<lambda>(p, mp). (perf_finalize p, mp)) (tt_perf th)\<rparr>"

text \<open>The two stores of \<^verbatim>\<open>set_as_process\<close>.\<close>

definition set_pid :: "int \<Rightarrow> tmi_thread \<Rightarrow> tmi_thread" where
  "set_pid new_tid th = th\<lparr>tt_pid := new_tid\<rparr>"

definition set_process_flag :: "tmi_thread \<Rightarrow> tmi_thread" where
  "set_process_flag th = th\<lparr>tt_is_process := True\<rparr>"

text \<open>The flag says that the process ends.\<close>

definition doExit :: "tmi_thread \<Rightarrow> (bool \<times> tmi_thread) result" where
  "doExit th =
     (case tt_wait_sem th of None \<Rightarrow> Inl (Undefined ''null semaphore'')
      | Some n \<Rightarrow> Inr (tt_is_process th, th\<lparr>tt_isRunning := False, tt_wait_sem := Some (n + 1)\<rparr>))"

text \<open>
  One pass of \<^verbatim>\<open>waitOn\<close>: taking the semaphore, \<open>None\<close> while it has to wait; and whether to wait again, where
  \<open>ended\<close> is what the status of the process says. A wait for the semaphore that a signal handler breaks off is not modelled.
\<close>

definition waitOn_sem :: "tmi_thread \<Rightarrow> tmi_thread option" where
  "waitOn_sem th = (case tt_wait_sem th of Some (Suc n) \<Rightarrow> Some (th\<lparr>tt_wait_sem := Some n\<rparr>) | _ \<Rightarrow> None)"

definition waitOn_again :: "bool \<Rightarrow> tmi_thread \<Rightarrow> bool" where
  "waitOn_again ended th = (if tt_is_process th then \<not> ended else False)"

section \<open>The library\<close>

definition TMI_MAX_THREADS :: nat where
  "TMI_MAX_THREADS = 1024"

record libtmi =
  lt_threads :: "tmi_thread list"
  lt_all_contexts :: "nat option list"
  lt_nextTid :: nat
  lt_keep_going :: bool
  lt_stopSync :: bool
  lt_protectAll :: bool
  lt_hotPages :: "u64 list option"
  lt_forked_all :: bool
  lt_forked_threads :: bool
  lt_events :: "sch_evt list"
  lt_mem :: tmi_memory

definition sch_write :: "SCH_EVT_TYPE \<Rightarrow> int \<Rightarrow> int \<Rightarrow> u64 \<Rightarrow> libtmi \<Rightarrow> libtmi" where
  "sch_write ty mpid pid data lt = lt\<lparr>lt_events := lt_events lt @ [\<lparr>ev_type = ty, ev_mpid = mpid, ev_pid = pid, ev_data = data\<rparr>]\<rparr>"

definition upd_thread :: "nat \<Rightarrow> (tmi_thread \<Rightarrow> tmi_thread) \<Rightarrow> libtmi \<Rightarrow> libtmi" where
  "upd_thread i f lt = lt\<lparr>lt_threads := (lt_threads lt)[i := f (lt_threads lt ! i)]\<rparr>"

text \<open>The last context in the table with that thread; entries that are not set are skipped.\<close>

definition get_context :: "nat \<Rightarrow> libtmi \<Rightarrow> nat option result" where
  "get_context tid lt =
     foldE (\<lambda>c ctx.
         if c < length (lt_all_contexts lt) then
           Inr (case lt_all_contexts lt ! c of None \<Rightarrow> ctx
                | Some i \<Rightarrow> if tt_pthreadid (lt_threads lt ! i) = Some tid then Some i else ctx)
         else Inl (Undefined ''index past the table''))
       [0..<lt_nextTid lt] None"

text \<open>
  The steps of \<^verbatim>\<open>register_new_thread\<close>: the identifier, the number, the entry of the table, and the thread
  number with the event for the loader. \<open>tramp\<close> is the address of the field that holds the trampoline.
\<close>

definition reg_id :: "nat \<Rightarrow> nat \<Rightarrow> libtmi \<Rightarrow> libtmi" where
  "reg_id i self lt = upd_thread i (\<lambda>th. th\<lparr>tt_pthreadid := Some self\<rparr>) lt"

definition reg_number :: "libtmi \<Rightarrow> nat \<times> libtmi" where
  "reg_number lt = (lt_nextTid lt, lt\<lparr>lt_nextTid := lt_nextTid lt + 1\<rparr>)"

definition reg_store :: "nat \<Rightarrow> nat \<Rightarrow> libtmi \<Rightarrow> libtmi result" where
  "reg_store i myTid lt =
     (if myTid < length (lt_all_contexts lt) then Inr (lt\<lparr>lt_all_contexts := (lt_all_contexts lt)[myTid := Some i]\<rparr>)
      else Inl (Undefined ''index past the table''))"

definition reg_tid :: "nat \<Rightarrow> int \<Rightarrow> int \<Rightarrow> u64 \<Rightarrow> u64 \<Rightarrow> libtmi \<Rightarrow> libtmi" where
  "reg_tid i pid tid tramp tramp_field lt =
     sch_write SCH_EVT_NEW_THREAD pid tid tramp_field (upd_thread i (\<lambda>th. (set_tid tid th)\<lparr>tt_tramp := tramp\<rparr>) lt)"

definition register_new_thread :: "nat \<Rightarrow> nat \<Rightarrow> int \<Rightarrow> int \<Rightarrow> u64 \<Rightarrow> u64 \<Rightarrow> libtmi \<Rightarrow> (nat \<times> libtmi) result" where
  "register_new_thread i self pid tid tramp tramp_field lt =
     (let (myTid, lt1) = reg_number (reg_id i self lt)
      in bindE (reg_store i myTid lt1) (\<lambda>lt2. Inr (myTid, reg_tid i pid tid tramp tramp_field lt2)))"

text \<open>
  The rest of \<^verbatim>\<open>pthread_start_routine\<close>: the first threads get a counter, whose answers come from the
  kernel; when the routine has returned, a process publishes its pages.
\<close>

definition start_perf :: "nat \<Rightarrow> int \<times> bool \<times> bool \<times> mpage \<times> u32 \<times> perf \<Rightarrow> int \<Rightarrow> nat \<Rightarrow> libtmi \<Rightarrow> libtmi" where
  "start_perf myTid answers sample_period i lt =
     (if myTid < 16 then
        case answers of (fd, mapped, enabled, mp, page_size, junk) \<Rightarrow>
          upd_thread i (\<lambda>th. snd (init_perf fd mapped enabled mp page_size junk sample_period th)) lt
      else lt)"

definition store_ret :: "nat \<Rightarrow> u64 \<Rightarrow> libtmi \<Rightarrow> libtmi" where
  "store_ret i ret lt = upd_thread i (\<lambda>th. th\<lparr>tt_ret := Some ret\<rparr>) lt"

definition commit_process :: "nat \<Rightarrow> libtmi \<Rightarrow> libtmi result" where
  "commit_process i lt =
     (if tt_is_process (lt_threads lt ! i) then bindE (commit (lt_mem lt)) (\<lambda>m. Inr (lt\<lparr>lt_mem := m\<rparr>)) else Inr lt)"

text \<open>
  A request of the detector to convert the threads. The loop that waits for threads inside
  synchronisation ends at once, since nothing counts them. Each function has a flag of its own.
\<close>

definition fork_all_protect_all :: "libtmi \<Rightarrow> libtmi" where
  "fork_all_protect_all lt =
     (let lt1 = lt\<lparr>lt_keep_going := False\<rparr>
      in if lt_forked_all lt1 then lt1
         else sch_write SCH_EVT_FORCE_FORK 0 0 0 (lt1\<lparr>lt_stopSync := True, lt_protectAll := True, lt_forked_all := True\<rparr>))"

definition fork_all_threads :: "u64 list \<Rightarrow> libtmi \<Rightarrow> libtmi" where
  "fork_all_threads hotPages lt =
     (let lt1 = lt\<lparr>lt_keep_going := False\<rparr>
      in if lt_forked_threads lt1 then lt1
         else sch_write SCH_EVT_FORCE_FORK 0 0 0 (lt1\<lparr>lt_stopSync := True, lt_hotPages := Some hotPages, lt_forked_threads := True\<rparr>))"

text \<open>
  What a thread does on its trampoline up to the fork: protect the pages, fork, and let synchronisation
  go on. \<open>child\<close> is what \<^verbatim>\<open>fork\<close> returns in the parent, \<open>- 1\<close> when it fails. Afterwards parent and child run
  concurrently on the same context.
\<close>

definition tramp_protect :: "libtmi \<Rightarrow> libtmi" where
  "tramp_protect lt =
     (if lt_protectAll lt then lt\<lparr>lt_mem := protectAll (lt_mem lt), lt_protectAll := False\<rparr>
      else case lt_hotPages lt of None \<Rightarrow> lt
           | Some pages \<Rightarrow> lt\<lparr>lt_mem := fold (\<lambda>a m. snd (protectAddress a m)) pages (lt_mem lt), lt_hotPages := None\<rparr>)"

definition tramp_function :: "int \<Rightarrow> libtmi \<Rightarrow> libtmi result" where
  "tramp_function child lt =
     (let lt1 = (tramp_protect lt)\<lparr>lt_stopSync := False\<rparr>
      in if child = - 1 then Inl (Aborted ''Failed to fork!'') else Inr lt1)"

text \<open>One round of the detector thread over the table; \<open>handle\<close> is the record handler of the detector.\<close>

definition poll_thread :: "(data_record \<Rightarrow> fsd \<Rightarrow> fsd result) \<Rightarrow> nat \<Rightarrow> libtmi \<times> fsd \<Rightarrow> (libtmi \<times> fsd) result option" where
  "poll_thread handle tid st =
     (let (lt, f) = st
      in if tid \<ge> length (lt_all_contexts lt) then Some (Inl (Undefined ''index past the table''))
         else case lt_all_contexts lt ! tid of None \<Rightarrow> Some (Inr st)
              | Some i \<Rightarrow>
                  (case parse_perf_events handle (tt_perf (lt_threads lt ! i)) f of None \<Rightarrow> None
                   | Some r \<Rightarrow> Some (bindE r (\<lambda>(p, f1). Inr (upd_thread i (\<lambda>th. th\<lparr>tt_perf := p\<rparr>) lt, f1)))))"

primrec poll_threads :: "(data_record \<Rightarrow> fsd \<Rightarrow> fsd result) \<Rightarrow> nat list \<Rightarrow> libtmi \<times> fsd \<Rightarrow> (libtmi \<times> fsd) result option" where
  "poll_threads handle [] st = Some (Inr st)"
| "poll_threads handle (tid # tids) st =
     (case poll_thread handle tid st of None \<Rightarrow> None
      | Some (Inl e) \<Rightarrow> Some (Inl e)
      | Some (Inr st1) \<Rightarrow> poll_threads handle tids st1)"

definition detector_round :: "(data_record \<Rightarrow> fsd \<Rightarrow> fsd result) \<Rightarrow> (u64 \<Rightarrow> bool) \<Rightarrow> nat \<Rightarrow> libtmi \<times> fsd \<Rightarrow> (libtmi \<times> fsd) result option" where
  "detector_round handle is_protectable now st =
     (case poll_threads handle [0..<lt_nextTid (fst st)] st of None \<Rightarrow> None
      | Some (Inl e) \<Rightarrow> Some (Inl e)
      | Some (Inr (lt, f)) \<Rightarrow>
          (case checkFalseSharing is_protectable now f of
             (NoLaunch, f1) \<Rightarrow> Some (Inr (lt, f1))
           | (ProtectAll, f1) \<Rightarrow> Some (Inr (fork_all_protect_all lt, f1))
           | (ForkThreads pages, f1) \<Rightarrow> Some (Inr (fork_all_threads (map snd pages) lt, f1))))"

section \<open>Starting and joining threads\<close>

text \<open>
  Where the routine of a context is between \<^verbatim>\<open>pthread_start_routine\<close> and its end: registering, running, storing its
  result, publishing, and ending, or in the hooked \<^verbatim>\<open>pthread_exit\<close>, where a process waits for ever. \<open>SReport\<close> is a
  process that was just forked: it reports itself, and then goes on where the thread was stopped. The thread it was forked
  from stays behind as a parent: it stores the two members of \<^verbatim>\<open>set_as_process\<close>, and leaves through \<^verbatim>\<open>pthread_exit\<close>, which
  stores a null pointer as the result and, when it finds that the context is a process, waits for ever.
\<close>

datatype start_pc = SId | SNumber | SStore nat | STid nat | SPerf nat | SRun | SCommit | SExit | SQuit | SHang | SEnd | SReport int start_pc

datatype parent_pc = PPid int | PFlag | PRet | PTest | PWait | PExit | PEnd | PReport int parent_pc

datatype join_pc = JFind | JSem nat | JWait nat | JProcess nat | JRead nat | JDone "u64 option"

record run_state =
  rs_lib :: libtmi
  rs_starts :: "start_pc list"
  rs_parents :: "(nat \<times> parent_pc) list"
  rs_joins :: "(nat \<times> join_pc) list"

definition start_goto :: "nat \<Rightarrow> start_pc \<Rightarrow> libtmi \<Rightarrow> run_state \<Rightarrow> run_state" where
  "start_goto i pc lt s = s\<lparr>rs_lib := lt, rs_starts := (rs_starts s)[i := pc]\<rparr>"

definition parent_goto :: "nat \<Rightarrow> parent_pc \<Rightarrow> libtmi \<Rightarrow> run_state \<Rightarrow> run_state" where
  "parent_goto k pc lt s = s\<lparr>rs_lib := lt, rs_parents := (rs_parents s)[k := (fst (rs_parents s ! k), pc)]\<rparr>"

definition join_goto :: "nat \<Rightarrow> join_pc \<Rightarrow> libtmi \<Rightarrow> run_state \<Rightarrow> run_state" where
  "join_goto j pc lt s = s\<lparr>rs_lib := lt, rs_joins := (rs_joins s)[j := (fst (rs_joins s ! j), pc)]\<rparr>"

text \<open>The contexts whose thread was forked.\<close>

definition forked :: "run_state \<Rightarrow> nat set" where
  "forked s = fst ` set (rs_parents s)"

text \<open>The loader sends a thread to its trampoline once the thread has registered, at any place.\<close>

definition registered :: "start_pc \<Rightarrow> bool" where
  "registered pc \<longleftrightarrow> (case pc of SPerf _ \<Rightarrow> True | SRun \<Rightarrow> True | SCommit \<Rightarrow> True | SExit \<Rightarrow> True | SQuit \<Rightarrow> True | SHang \<Rightarrow> True
     | SEnd \<Rightarrow> True | _ \<Rightarrow> False)"

text \<open>
  \<open>self i\<close> is the identifier of the thread with context \<open>i\<close>, and \<open>routine i\<close> the value that its routine returns or passes
  to \<^verbatim>\<open>pthread_exit\<close>; \<open>kern i\<close> are the process and thread numbers, and \<open>ended\<close> the status of a process. A thread that was
  forked once can be forked again where it waits, since the conversion can be asked for twice.
\<close>

inductive start_step :: "(nat \<Rightarrow> nat) \<Rightarrow> (nat \<Rightarrow> int \<times> int) \<Rightarrow> (nat \<Rightarrow> u64) \<Rightarrow> run_state \<Rightarrow> run_state \<Rightarrow> bool" for self kern routine where
  StartId: "i < length (rs_starts s) \<Longrightarrow> rs_starts s ! i = SId \<Longrightarrow>
     start_step self kern routine s (start_goto i SNumber (reg_id i (self i) (rs_lib s)) s)"
| StartNumber: "i < length (rs_starts s) \<Longrightarrow> rs_starts s ! i = SNumber \<Longrightarrow> reg_number (rs_lib s) = (myTid, lt) \<Longrightarrow>
     start_step self kern routine s (start_goto i (SStore myTid) lt s)"
| StartStore: "i < length (rs_starts s) \<Longrightarrow> rs_starts s ! i = SStore myTid \<Longrightarrow> reg_store i myTid (rs_lib s) = Inr lt \<Longrightarrow>
     start_step self kern routine s (start_goto i (STid myTid) lt s)"
| StartTid: "i < length (rs_starts s) \<Longrightarrow> rs_starts s ! i = STid myTid \<Longrightarrow>
     start_step self kern routine s (start_goto i (SPerf myTid) (reg_tid i (fst (kern i)) (snd (kern i)) tramp field (rs_lib s)) s)"
| StartPerf: "i < length (rs_starts s) \<Longrightarrow> rs_starts s ! i = SPerf myTid \<Longrightarrow>
     start_step self kern routine s (start_goto i SRun (start_perf myTid answers sample_period i (rs_lib s)) s)"
| StartReturn: "i < length (rs_starts s) \<Longrightarrow> rs_starts s ! i = SRun \<Longrightarrow>
     start_step self kern routine s (start_goto i SCommit (store_ret i (routine i) (rs_lib s)) s)"
| StartCommit: "i < length (rs_starts s) \<Longrightarrow> rs_starts s ! i = SCommit \<Longrightarrow> commit_process i (rs_lib s) = Inr lt \<Longrightarrow>
     start_step self kern routine s (start_goto i SExit lt s)"
| StartQuit: "i < length (rs_starts s) \<Longrightarrow> rs_starts s ! i = SRun \<Longrightarrow>
     start_step self kern routine s (start_goto i SQuit (store_ret i (routine i) (rs_lib s)) s)"
| StartTest: "i < length (rs_starts s) \<Longrightarrow> rs_starts s ! i = SQuit \<Longrightarrow>
     start_step self kern routine s (start_goto i (if tt_is_process (lt_threads (rs_lib s) ! i) then SHang else SExit) (rs_lib s) s)"
| StartExit: "i < length (rs_starts s) \<Longrightarrow> rs_starts s ! i = SExit \<Longrightarrow> doExit (lt_threads (rs_lib s) ! i) = Inr (e, th) \<Longrightarrow>
     start_step self kern routine s (start_goto i SEnd (upd_thread i (\<lambda>_. th) (rs_lib s)) s)"
| ForkThread: "i < length (rs_starts s) \<Longrightarrow> registered (rs_starts s ! i) \<Longrightarrow> i \<notin> forked s \<Longrightarrow>
     tramp_function child (rs_lib s) = Inr lt \<Longrightarrow>
     start_step self kern routine s (start_goto i (SReport child (rs_starts s ! i)) lt (s\<lparr>rs_parents := rs_parents s @ [(i, PPid child)]\<rparr>))"
| ChildReport: "i < length (rs_starts s) \<Longrightarrow> rs_starts s ! i = SReport child pc \<Longrightarrow>
     start_step self kern routine s (start_goto i pc (sch_write SCH_EVT_RESUME child child 0 (rs_lib s)) s)"

text \<open>The thread a process was forked from.\<close>

inductive parent_step :: "run_state \<Rightarrow> run_state \<Rightarrow> bool" where
  ForkAgain: "k < length (rs_parents s) \<Longrightarrow> rs_parents s ! k = (i, pc) \<Longrightarrow> i \<notin> fst ` set (take k (rs_parents s)) \<Longrightarrow>
     tramp_function child (rs_lib s) = Inr lt \<Longrightarrow>
     parent_step s (parent_goto k (PPid child) lt (s\<lparr>rs_parents := rs_parents s @ [(i, PReport child pc)]\<rparr>))"
| ParentReport: "k < length (rs_parents s) \<Longrightarrow> rs_parents s ! k = (i, PReport child pc) \<Longrightarrow>
     parent_step s (parent_goto k pc (sch_write SCH_EVT_RESUME child child 0 (rs_lib s)) s)"
| ParentPid: "k < length (rs_parents s) \<Longrightarrow> rs_parents s ! k = (i, PPid child) \<Longrightarrow>
     parent_step s (parent_goto k PFlag (upd_thread i (set_pid child) (rs_lib s)) s)"
| ParentFlag: "k < length (rs_parents s) \<Longrightarrow> rs_parents s ! k = (i, PFlag) \<Longrightarrow>
     parent_step s (parent_goto k PRet (upd_thread i set_process_flag (rs_lib s)) s)"
| ParentRet: "k < length (rs_parents s) \<Longrightarrow> rs_parents s ! k = (i, PRet) \<Longrightarrow>
     parent_step s (parent_goto k PTest (store_ret i 0 (rs_lib s)) s)"
| ParentTest: "k < length (rs_parents s) \<Longrightarrow> rs_parents s ! k = (i, PTest) \<Longrightarrow>
     parent_step s (parent_goto k (if tt_is_process (lt_threads (rs_lib s) ! i) then PWait else PExit) (rs_lib s) s)"
| ParentExit: "k < length (rs_parents s) \<Longrightarrow> rs_parents s ! k = (i, PExit) \<Longrightarrow> doExit (lt_threads (rs_lib s) ! i) = Inr (e, th) \<Longrightarrow>
     parent_step s (parent_goto k PEnd (upd_thread i (\<lambda>_. th) (rs_lib s)) s)"

text \<open>A call of \<^verbatim>\<open>pthread_join\<close>.\<close>

inductive join_step :: "run_state \<Rightarrow> run_state \<Rightarrow> bool" where
  JoinFind: "j < length (rs_joins s) \<Longrightarrow> rs_joins s ! j = (q, JFind) \<Longrightarrow> get_context q (rs_lib s) = Inr (Some i) \<Longrightarrow>
     join_step s (join_goto j (JSem i) (rs_lib s) s)"
| JoinSem: "j < length (rs_joins s) \<Longrightarrow> rs_joins s ! j = (q, JSem i) \<Longrightarrow> tt_wait_sem (lt_threads (rs_lib s) ! i) \<noteq> None \<Longrightarrow>
     join_step s (join_goto j (JWait i) (rs_lib s) s)"
| JoinWait: "j < length (rs_joins s) \<Longrightarrow> rs_joins s ! j = (q, JWait i) \<Longrightarrow>
     waitOn_sem (lt_threads (rs_lib s) ! i) = Some th \<Longrightarrow>
     join_step s (join_goto j (JProcess i) (upd_thread i (\<lambda>_. th) (rs_lib s)) s)"
| JoinProcess: "j < length (rs_joins s) \<Longrightarrow> rs_joins s ! j = (q, JProcess i) \<Longrightarrow>
     join_step s (join_goto j (if waitOn_again ended (lt_threads (rs_lib s) ! i) then JSem i else JRead i) (rs_lib s) s)"
| JoinRead: "j < length (rs_joins s) \<Longrightarrow> rs_joins s ! j = (q, JRead i) \<Longrightarrow>
     join_step s (join_goto j (JDone (tt_ret (lt_threads (rs_lib s) ! i)))
       (sch_write SCH_EVT_THREAD_EXIT (tt_tid (lt_threads (rs_lib s) ! i)) (tt_tid (lt_threads (rs_lib s) ! i)) 0 (rs_lib s)) s)"

inductive th_step :: "(nat \<Rightarrow> nat) \<Rightarrow> (nat \<Rightarrow> int \<times> int) \<Rightarrow> (nat \<Rightarrow> u64) \<Rightarrow> run_state \<Rightarrow> run_state \<Rightarrow> bool" for self kern routine where
  step_start: "start_step self kern routine s s' \<Longrightarrow> th_step self kern routine s s'"
| step_parent: "parent_step s s' \<Longrightarrow> th_step self kern routine s s'"
| step_join: "join_step s s' \<Longrightarrow> th_step self kern routine s s'"

inductive th_reach ::
  "(nat \<Rightarrow> nat) \<Rightarrow> (nat \<Rightarrow> int \<times> int) \<Rightarrow> (nat \<Rightarrow> u64) \<Rightarrow> run_state \<Rightarrow> run_state \<Rightarrow> bool" for self kern routine where
  th_refl: "th_reach self kern routine s s"
| th_more: "th_reach self kern routine s s1 \<Longrightarrow> th_step self kern routine s1 s2 \<Longrightarrow> th_reach self kern routine s s2"

text \<open>Threads that are about to start, and calls of \<^verbatim>\<open>pthread_join\<close> for their identifiers.\<close>

definition th_start :: "nat \<Rightarrow> nat list \<Rightarrow> libtmi \<Rightarrow> run_state" where
  "th_start n qs lt = \<lparr>rs_lib = lt\<lparr>lt_threads := replicate n (tmi_thread_new 0 0), lt_nextTid := 0,
       lt_all_contexts := replicate TMI_MAX_THREADS None\<rparr>, rs_starts = replicate n SId, rs_parents = [], rs_joins = map (\<lambda>q. (q, JFind)) qs\<rparr>"

section \<open>Joining\<close>

text \<open>The place of a process that has to report is the one where it will go on.\<close>

primrec start_at :: "start_pc \<Rightarrow> start_pc" where
  "start_at SId = SId" | "start_at SNumber = SNumber" | "start_at (SStore n) = SStore n" | "start_at (STid n) = STid n"
| "start_at (SPerf n) = SPerf n" | "start_at SRun = SRun" | "start_at SCommit = SCommit" | "start_at SExit = SExit"
| "start_at SQuit = SQuit" | "start_at SHang = SHang" | "start_at SEnd = SEnd" | "start_at (SReport c pc) = start_at pc"

primrec parent_at :: "parent_pc \<Rightarrow> parent_pc" where
  "parent_at (PPid c) = PPid c" | "parent_at PFlag = PFlag" | "parent_at PRet = PRet" | "parent_at PTest = PTest"
| "parent_at PWait = PWait" | "parent_at PExit = PExit" | "parent_at PEnd = PEnd" | "parent_at (PReport c pc) = parent_at pc"

text \<open>What holds of a context by the place of its routine; \<open>fk\<close> says that the thread was turned into a process.\<close>

definition ctx_ok :: "(nat \<Rightarrow> nat) \<Rightarrow> (nat \<Rightarrow> u64) \<Rightarrow> nat \<Rightarrow> bool \<Rightarrow> start_pc \<Rightarrow> tmi_thread \<Rightarrow> bool" where
  "ctx_ok self routine i fk pc th \<longleftrightarrow>
     (start_at pc \<noteq> SId \<longrightarrow> tt_pthreadid th = Some (self i)) \<and>
     (start_at pc \<in> {SCommit, SExit, SQuit, SHang, SEnd} \<longrightarrow> tt_ret th = Some (routine i) \<or> fk \<and> tt_ret th = Some 0) \<and>
     (start_at pc \<noteq> SEnd \<longrightarrow> tt_wait_sem th \<in> {None, Some 0}) \<and>
     (case pc of SReport _ pc1 \<Rightarrow> registered pc1 | _ \<Rightarrow> True)"

text \<open>A parent that is past its store of the flag finds it set, so it never posts the semaphore.\<close>

definition parent_ok :: "tmi_thread \<Rightarrow> parent_pc \<Rightarrow> bool" where
  "parent_ok th pc \<longleftrightarrow> (case parent_at pc of PPid _ \<Rightarrow> True | PFlag \<Rightarrow> True | PExit \<Rightarrow> False | PEnd \<Rightarrow> False | _ \<Rightarrow> tt_is_process th)"

definition join_ok :: "(nat \<Rightarrow> nat) \<Rightarrow> (nat \<Rightarrow> u64) \<Rightarrow> nat set \<Rightarrow> start_pc list \<Rightarrow> nat \<times> join_pc \<Rightarrow> bool" where
  "join_ok self routine F starts qj \<longleftrightarrow>
     (case snd qj of JFind \<Rightarrow> True
      | JSem i \<Rightarrow> i < length starts \<and> self i = fst qj
      | JWait i \<Rightarrow> i < length starts \<and> self i = fst qj
      | JProcess i \<Rightarrow> i < length starts \<and> self i = fst qj \<and> start_at (starts ! i) = SEnd
      | JRead i \<Rightarrow> i < length starts \<and> self i = fst qj \<and> start_at (starts ! i) = SEnd
      | JDone r \<Rightarrow> \<exists>i < length starts. self i = fst qj \<and> start_at (starts ! i) = SEnd \<and> (r = Some (routine i) \<or> i \<in> F \<and> r = Some 0))"

definition th_inv :: "(nat \<Rightarrow> nat) \<Rightarrow> (nat \<Rightarrow> u64) \<Rightarrow> run_state \<Rightarrow> bool" where
  "th_inv self routine s \<longleftrightarrow>
     length (lt_threads (rs_lib s)) = length (rs_starts s) \<and>
     (\<forall>i < length (rs_starts s). ctx_ok self routine i (i \<in> forked s) (rs_starts s ! i) (lt_threads (rs_lib s) ! i)) \<and>
     (\<forall>(i, pc) \<in> set (rs_parents s). i < length (rs_starts s) \<and> start_at (rs_starts s ! i) \<noteq> SId \<and> parent_ok (lt_threads (rs_lib s) ! i) pc) \<and>
     (\<forall>i. Some i \<in> set (lt_all_contexts (rs_lib s)) \<longrightarrow> i < length (rs_starts s) \<and> start_at (rs_starts s ! i) \<noteq> SId) \<and>
     (\<forall>qj \<in> set (rs_joins s). join_ok self routine (forked s) (rs_starts s) qj)"

lemma forked_simps [simp]:
  "forked (start_goto i pc lt s) = forked s" "forked (join_goto j jp lt s) = forked s" "forked (s\<lparr>rs_lib := lt\<rparr>) = forked s"
  "forked (s\<lparr>rs_starts := ss\<rparr>) = forked s" "forked (s\<lparr>rs_joins := js\<rparr>) = forked s"
  by (simp_all add: forked_def start_goto_def join_goto_def)

lemma forked_parent_goto [simp]: "k < length (rs_parents s) \<Longrightarrow> forked (parent_goto k pc lt s) = forked s"
proof -
  assume "k < length (rs_parents s)"
  then have "map fst (rs_parents (parent_goto k pc lt s)) = map fst (rs_parents s)"
    by (simp add: parent_goto_def map_update list_update_same_conv)
  then show ?thesis unfolding forked_def by (metis set_map)
qed

lemma parent_goto_rs:
  "rs_lib (parent_goto k pc lt s) = lt" "rs_starts (parent_goto k pc lt s) = rs_starts s" "rs_joins (parent_goto k pc lt s) = rs_joins s"
  "rs_parents (parent_goto k pc lt s) = (rs_parents s)[k := (fst (rs_parents s ! k), pc)]"
  by (simp_all add: parent_goto_def)

lemma upd_thread_simps [simp]:
  "lt_all_contexts (upd_thread i f lt) = lt_all_contexts lt" "lt_nextTid (upd_thread i f lt) = lt_nextTid lt"
  "lt_threads (upd_thread i f lt) = (lt_threads lt)[i := f (lt_threads lt ! i)]"
  by (simp_all add: upd_thread_def)

lemma sch_write_simps [simp]:
  "lt_threads (sch_write ty m p d lt) = lt_threads lt" "lt_all_contexts (sch_write ty m p d lt) = lt_all_contexts lt"
  "lt_nextTid (sch_write ty m p d lt) = lt_nextTid lt"
  by (simp_all add: sch_write_def)

lemma tramp_protect_simps [simp]:
  "lt_threads (tramp_protect lt) = lt_threads lt" "lt_all_contexts (tramp_protect lt) = lt_all_contexts lt"
  "lt_nextTid (tramp_protect lt) = lt_nextTid lt"
  by (simp_all add: tramp_protect_def split: option.splits)

lemma tramp_function_same:
  assumes "tramp_function child lt = Inr lt'"
  shows "lt_threads lt' = lt_threads lt" "lt_all_contexts lt' = lt_all_contexts lt" "lt_nextTid lt' = lt_nextTid lt"
  using assms by (auto simp: tramp_function_def Let_def split: if_splits)

lemma get_context_sound:
  assumes "get_context q lt = Inr (Some i)"
  shows "Some i \<in> set (lt_all_contexts lt) \<and> tt_pthreadid (lt_threads lt ! i) = Some q"
proof -
  have "ctx' = Some i \<longrightarrow> ctx = Some i \<or> Some i \<in> set (lt_all_contexts lt) \<and> tt_pthreadid (lt_threads lt ! i) = Some q"
    if "foldE (\<lambda>c ctx. if c < length (lt_all_contexts lt) then
           Inr (case lt_all_contexts lt ! c of None \<Rightarrow> ctx
                | Some i \<Rightarrow> if tt_pthreadid (lt_threads lt ! i) = Some q then Some i else ctx)
         else Inl (Undefined ''index past the table'')) cs ctx = Inr ctx'" for cs ctx ctx'
    using that
  proof (induction cs arbitrary: ctx)
    case (Cons c cs)
    then show ?case by (force simp: err_simps split: if_splits option.splits dest: nth_mem)
  qed simp
  from this[OF assms[unfolded get_context_def]] show ?thesis by simp
qed

lemma th_invD:
  assumes "th_inv self routine s" "i < length (rs_starts s)"
  shows "ctx_ok self routine i (i \<in> forked s) (rs_starts s ! i) (lt_threads (rs_lib s) ! i)" "i < length (lt_threads (rs_lib s))"
  using assms by (auto simp: th_inv_def)

lemma th_inv_joinD: "th_inv self routine s \<Longrightarrow> j < length (rs_joins s) \<Longrightarrow> join_ok self routine (forked s) (rs_starts s) (rs_joins s ! j)"
  by (auto simp: th_inv_def)

lemma th_inv_parentD:
  assumes "th_inv self routine s" "k < length (rs_parents s)" "rs_parents s ! k = (i, pc)"
  shows "i < length (rs_starts s)" "i < length (lt_threads (rs_lib s))" "start_at (rs_starts s ! i) \<noteq> SId" "parent_ok (lt_threads (rs_lib s) ! i) pc" "i \<in> forked s"
proof -
  have m: "(i, pc) \<in> set (rs_parents s)" using nth_mem[OF assms(2)] assms(3) by simp
  then show "i \<in> forked s" by (force simp: forked_def)
  show "i < length (rs_starts s)" "i < length (lt_threads (rs_lib s))" "start_at (rs_starts s ! i) \<noteq> SId" "parent_ok (lt_threads (rs_lib s) ! i) pc"
    using m assms(1) by (auto simp: th_inv_def)
qed

lemma join_ok_mono:
  assumes "join_ok self routine F starts qj" "F \<subseteq> F'" "length starts' = length starts"
    and "\<And>i. i < length starts \<Longrightarrow> start_at (starts ! i) = SEnd \<Longrightarrow> start_at (starts' ! i) = SEnd"
  shows "join_ok self routine F' starts' qj"
  using assms by (auto simp: join_ok_def split: join_pc.splits)

text \<open>
  A step of a routine or of a parent changes at most one context. The invariant stays when that context stays in order, its
  flag is not taken back, and no call sees the thread leave its end.
\<close>

lemma th_inv_change:
  assumes inv: "th_inv self routine s" and i: "i < length (rs_starts s)"
    and s': "rs_starts s' = (rs_starts s)[i := pc]" "forked s \<subseteq> forked s'" "rs_joins s' = rs_joins s"
    and th: "lt_threads (rs_lib s') = (lt_threads (rs_lib s))[i := th]" "ctx_ok self routine i (i \<in> forked s') pc th"
      "tt_is_process (lt_threads (rs_lib s) ! i) \<Longrightarrow> tt_is_process th"
    and pc: "start_at pc \<noteq> SId" "start_at (rs_starts s ! i) = SEnd \<Longrightarrow> start_at pc = SEnd"
    and tab: "set (lt_all_contexts (rs_lib s')) \<subseteq> insert (Some i) (set (lt_all_contexts (rs_lib s)))"
    and par: "\<And>j p. (j, p) \<in> set (rs_parents s') \<Longrightarrow> (j, p) \<in> set (rs_parents s) \<or> j = i \<and> parent_ok th p"
  shows "th_inv self routine s'"
proof -
  have len: "length (lt_threads (rs_lib s)) = length (rs_starts s)" using inv by (simp add: th_inv_def)
  have F: "j \<in> forked s' \<longleftrightarrow> j \<in> forked s" if "j \<noteq> i" for j using par s'(2) that by (force simp: forked_def)
  have "ctx_ok self routine j (j \<in> forked s') (rs_starts s' ! j) (lt_threads (rs_lib s') ! j)" if "j < length (rs_starts s')" for j
    using that th_invD(1)[OF inv, of j] F[of j] i len th(1,2) by (cases "j = i") (simp_all add: s'(1))
  moreover have "j < length (rs_starts s') \<and> start_at (rs_starts s' ! j) \<noteq> SId \<and> parent_ok (lt_threads (rs_lib s') ! j) p"
    if "(j, p) \<in> set (rs_parents s')" for j p
  proof (cases "j = i")
    case True
    have "parent_ok th p"
    proof (cases "(j, p) \<in> set (rs_parents s)")
      case mem: True
      then have "parent_ok (lt_threads (rs_lib s) ! i) p" using inv True by (auto simp: th_inv_def)
      then show ?thesis using th(3) by (auto simp: parent_ok_def split: parent_pc.splits)
    qed (use par[OF that] in simp)
    then show ?thesis using True i len th(1) pc(1) by (simp add: s'(1))
  next
    case False
    then have "(j, p) \<in> set (rs_parents s)" using par[OF that] by blast
    then show ?thesis using inv False th(1) by (auto simp: th_inv_def s'(1))
  qed
  moreover have "j < length (rs_starts s') \<and> start_at (rs_starts s' ! j) \<noteq> SId" if "Some j \<in> set (lt_all_contexts (rs_lib s'))" for j
    using that tab inv i pc(1) by (cases "j = i") (auto simp: th_inv_def s'(1))
  moreover have "join_ok self routine (forked s') (rs_starts s') qj" if "qj \<in> set (rs_joins s')" for qj
    using that inv s'(3) pc(2) i by (auto simp: th_inv_def s'(1) nth_list_update intro!: join_ok_mono[OF _ s'(2)])
  ultimately show ?thesis using len th(1) unfolding th_inv_def by (auto simp: s'(1))
qed

lemma th_inv_start:
  assumes "th_inv self routine s" "i < length (rs_starts s)" "start_at (rs_starts s ! i) \<noteq> SEnd" "start_at pc \<noteq> SId"
    and "lt_threads lt = (lt_threads (rs_lib s))[i := th]" "ctx_ok self routine i (i \<in> forked s) pc th"
      "tt_is_process (lt_threads (rs_lib s) ! i) \<Longrightarrow> tt_is_process th"
    and "set (lt_all_contexts lt) \<subseteq> insert (Some i) (set (lt_all_contexts (rs_lib s)))"
  shows "th_inv self routine (start_goto i pc lt s)"
  by (rule th_inv_change[OF assms(1,2), where th = th and pc = pc]) (use assms in \<open>simp_all, simp_all add: start_goto_def\<close>)

lemma th_inv_parent:
  assumes inv: "th_inv self routine s" and k: "k < length (rs_parents s)" "rs_parents s ! k = (i, p)"
    and "lt_threads lt = (lt_threads (rs_lib s))[i := th]" "lt_all_contexts lt = lt_all_contexts (rs_lib s)"
    and "ctx_ok self routine i True (rs_starts s ! i) th" "tt_is_process (lt_threads (rs_lib s) ! i) \<Longrightarrow> tt_is_process th"
      "parent_ok th pc"
  shows "th_inv self routine (parent_goto k pc lt s)"
proof -
  note d = th_inv_parentD[OF inv k]
  show ?thesis
    by (rule th_inv_change[OF inv d(1), where th = th and pc = "rs_starts s ! i"])
      (use assms(4-) d(3,5) k in \<open>auto simp: parent_goto_rs dest!: set_update_subset_insert[THEN subsetD]\<close>)
qed

lemma th_inv_join:
  assumes "th_inv self routine s" "j < length (rs_joins s)" "join_ok self routine (forked s) (rs_starts s) (fst (rs_joins s ! j), pc)"
    and "i < length (rs_starts s)" "lt_threads lt = (lt_threads (rs_lib s))[i := th]" "ctx_ok self routine i (i \<in> forked s) (rs_starts s ! i) th"
      "tt_is_process th = tt_is_process (lt_threads (rs_lib s) ! i)"
    and "lt_all_contexts lt = lt_all_contexts (rs_lib s)" "start_at (rs_starts s ! i) \<noteq> SId"
  shows "th_inv self routine (join_goto j pc lt s)"
proof -
  have "th_inv self routine (s\<lparr>rs_lib := lt\<rparr>)"
    by (rule th_inv_change[OF assms(1,4), where th = th and pc = "rs_starts s ! i"]) (use assms(4-) in auto)
  moreover have "\<forall>qj \<in> set ((rs_joins s)[j := (fst (rs_joins s ! j), pc)]). join_ok self routine (forked s) (rs_starts s) qj"
    using assms(1,3) set_update_subset_insert[of "rs_joins s" j] by (fastforce simp: th_inv_def)
  ultimately show ?thesis by (auto simp: th_inv_def join_goto_def)
qed

lemma th_inv_join_same:
  assumes "th_inv self routine s" "j < length (rs_joins s)" "join_ok self routine (forked s) (rs_starts s) (fst (rs_joins s ! j), pc)"
    and "lt_threads lt = lt_threads (rs_lib s)" "lt_all_contexts lt = lt_all_contexts (rs_lib s)"
  shows "th_inv self routine (join_goto j pc lt s)"
proof -
  have "\<forall>qj \<in> set ((rs_joins s)[j := (fst (rs_joins s ! j), pc)]). join_ok self routine (forked s) (rs_starts s) qj"
    using assms(1,3) set_update_subset_insert[of "rs_joins s" j] by (fastforce simp: th_inv_def)
  then show ?thesis using assms(1,4,5) by (simp add: th_inv_def join_goto_def)
qed

lemma registered_started: "registered pc \<Longrightarrow> start_at pc \<noteq> SId \<and> (\<forall>c p. pc \<noteq> SReport c p)"
  by (auto simp: registered_def split: start_pc.splits)

lemma th_inv_fork:
  assumes inv: "th_inv self routine s" and i: "i < length (rs_starts s)" "start_at (rs_starts s ! i) \<noteq> SId"
    and pc: "start_at pc = start_at (rs_starts s ! i)" "pc = rs_starts s ! i \<or> (\<exists>c. pc = SReport c (rs_starts s ! i)) \<and> registered (rs_starts s ! i)"
    and lt: "tramp_function child (rs_lib s) = Inr lt"
    and s': "rs_lib s' = lt" "rs_starts s' = (rs_starts s)[i := pc]" "rs_joins s' = rs_joins s" "forked s \<subseteq> forked s'"
      "\<And>j p. (j, p) \<in> set (rs_parents s') \<Longrightarrow> (j, p) \<in> set (rs_parents s) \<or> j = i \<and> parent_ok (lt_threads (rs_lib s) ! i) p"
  shows "th_inv self routine s'"
proof -
  have "ctx_ok self routine i (i \<in> forked s') pc (lt_threads (rs_lib s) ! i)"
    using th_invD(1)[OF inv i(1)] pc subsetD[OF s'(4), of i] by (elim disjE exE conjE) (simp_all add: ctx_ok_def, blast+)
  then show ?thesis
    by (intro th_inv_change[OF inv i(1), where th = "lt_threads (rs_lib s) ! i" and pc = pc])
      (use i pc(1) s' tramp_function_same[OF lt] in auto)
qed

lemma th_inv_start_step:
  assumes "start_step self kern routine s s'" "th_inv self routine s"
  shows "th_inv self routine s'"
  using assms(1)
proof cases
  case (StartId i)
  then show ?thesis using th_invD[OF assms(2) StartId(2)]
    by (auto intro!: th_inv_start[OF assms(2)] simp: reg_id_def ctx_ok_def)
next
  case (StartNumber i myTid lt)
  then show ?thesis using th_invD[OF assms(2) StartNumber(2)]
    by (auto intro!: th_inv_start[OF assms(2), where th = "lt_threads (rs_lib s) ! i"] simp: reg_number_def ctx_ok_def)
next
  case (StartStore i myTid lt)
  then show ?thesis using th_invD[OF assms(2) StartStore(2)] set_update_subset_insert[of "lt_all_contexts (rs_lib s)" myTid "Some i"]
    by (auto intro!: th_inv_start[OF assms(2), where th = "lt_threads (rs_lib s) ! i"] simp: reg_store_def ctx_ok_def split: if_splits)
next
  case (StartTid i myTid tramp field)
  then show ?thesis using th_invD[OF assms(2) StartTid(2)]
    by (auto intro!: th_inv_start[OF assms(2)] simp: reg_tid_def set_tid_def ctx_ok_def)
next
  case (StartPerf i myTid answers sample_period)
  let ?th = "lt_threads (start_perf myTid answers sample_period i (rs_lib s)) ! i"
  have "lt_threads (start_perf myTid answers sample_period i (rs_lib s)) = (lt_threads (rs_lib s))[i := ?th] \<and>
    lt_all_contexts (start_perf myTid answers sample_period i (rs_lib s)) = lt_all_contexts (rs_lib s) \<and>
    tt_is_process ?th = tt_is_process (lt_threads (rs_lib s) ! i) \<and> ctx_ok self routine i (i \<in> forked s) SRun ?th"
    using th_invD[OF assms(2) StartPerf(2)] StartPerf(3)
    by (auto simp: start_perf_def init_perf_def ctx_ok_def split: prod.splits)
  then show ?thesis unfolding StartPerf(1) using StartPerf(2,3) by (intro th_inv_start[OF assms(2), where th = ?th]) auto
next
  case (StartReturn i)
  then show ?thesis using th_invD[OF assms(2) StartReturn(2)]
    by (auto intro!: th_inv_start[OF assms(2)] simp: ctx_ok_def store_ret_def)
next
  case (StartCommit i lt)
  then show ?thesis using th_invD[OF assms(2) StartCommit(2)]
    by (auto intro!: th_inv_start[OF assms(2), where th = "lt_threads (rs_lib s) ! i"] simp: ctx_ok_def commit_process_def err_simps
        split: if_splits)
next
  case (StartQuit i)
  then show ?thesis using th_invD[OF assms(2) StartQuit(2)]
    by (auto intro!: th_inv_start[OF assms(2)] simp: ctx_ok_def store_ret_def)
next
  case (StartTest i)
  then show ?thesis using th_invD[OF assms(2) StartTest(2)]
    by (auto intro!: th_inv_start[OF assms(2), where th = "lt_threads (rs_lib s) ! i"] simp: ctx_ok_def)
next
  case (StartExit i e th)
  then show ?thesis using th_invD[OF assms(2) StartExit(2)]
    by (auto intro!: th_inv_start[OF assms(2)] simp: doExit_def ctx_ok_def split: option.splits)
next
  case (ForkThread i child lt)
  show ?thesis using registered_started[OF ForkThread(3)] unfolding ForkThread(1)
    by (intro th_inv_fork[OF assms(2) ForkThread(2) _ _ _ ForkThread(5), where pc = "SReport child (rs_starts s ! i)"])
      (use ForkThread(3) in \<open>auto simp: start_goto_def parent_ok_def forked_def\<close>)
next
  case (ChildReport i child pc)
  have "ctx_ok self routine i (i \<in> forked s) pc (lt_threads (rs_lib s) ! i) \<and> start_at pc \<noteq> SId"
    using th_invD(1)[OF assms(2) ChildReport(2)] ChildReport(3) registered_started[of pc]
    by (auto simp: ctx_ok_def split: start_pc.split)
  then show ?thesis unfolding ChildReport(1)
    by (intro th_inv_change[OF assms(2) ChildReport(2), where th = "lt_threads (rs_lib s) ! i" and pc = pc])
      (use ChildReport(3) in \<open>auto simp: start_goto_def\<close>)
qed

lemma th_inv_parent_step:
  assumes "parent_step s s'" "th_inv self routine s"
  shows "th_inv self routine s'"
  using assms(1)
proof cases
  case (ForkAgain k i pc child lt)
  note d = th_inv_parentD[OF assms(2) ForkAgain(2,3)]
  have "set (rs_parents s') \<subseteq> {(i, PPid child), (i, PReport child pc)} \<union> set (rs_parents s)"
    using set_update_subset_insert[of "rs_parents s" k "(i, PPid child)"] ForkAgain(2,3)
    by (auto simp: ForkAgain(1) parent_goto_def nth_append list_update_append)
  moreover have "forked s \<subseteq> forked s'"
  proof -
    have "map fst (rs_parents s') = map fst (rs_parents s) @ [i]"
      using ForkAgain(2,3) by (simp add: ForkAgain(1) parent_goto_def nth_append list_update_append map_update list_update_same_conv)
    then show ?thesis unfolding forked_def by (metis Un_upper1 set_append set_map)
  qed
  ultimately show ?thesis using d(4)
    by (intro th_inv_fork[OF assms(2) d(1,3) refl disjI1[OF refl] ForkAgain(5)])
      (auto simp: ForkAgain(1) parent_goto_def parent_ok_def)
next
  case (ParentReport k i child pc)
  note d = th_inv_parentD[OF assms(2) ParentReport(2,3)]
  show ?thesis using th_invD(1)[OF assms(2) d(1)] d(4,5) unfolding ParentReport(1)
    by (intro th_inv_parent[OF assms(2) ParentReport(2,3), where th = "lt_threads (rs_lib s) ! i"]) (auto simp: parent_ok_def)
next
  case (ParentPid k i child)
  note d = th_inv_parentD[OF assms(2) ParentPid(2,3)]
  show ?thesis using th_invD(1)[OF assms(2) d(1)] d(4,5) unfolding ParentPid(1)
    by (intro th_inv_parent[OF assms(2) ParentPid(2,3), where th = "set_pid child (lt_threads (rs_lib s) ! i)"]) (auto simp: parent_ok_def set_pid_def ctx_ok_def)
next
  case (ParentFlag k i)
  note d = th_inv_parentD[OF assms(2) ParentFlag(2,3)]
  show ?thesis using th_invD(1)[OF assms(2) d(1)] d(4,5) unfolding ParentFlag(1)
    by (intro th_inv_parent[OF assms(2) ParentFlag(2,3), where th = "set_process_flag (lt_threads (rs_lib s) ! i)"]) (auto simp: parent_ok_def set_process_flag_def ctx_ok_def)
next
  case (ParentRet k i)
  note d = th_inv_parentD[OF assms(2) ParentRet(2,3)]
  show ?thesis using th_invD(1)[OF assms(2) d(1)] d(4,5) unfolding ParentRet(1) store_ret_def
    by (intro th_inv_parent[OF assms(2) ParentRet(2,3), where th = "(lt_threads (rs_lib s) ! i)\<lparr>tt_ret := Some 0\<rparr>"]) (auto simp: parent_ok_def ctx_ok_def)
next
  case (ParentTest k i)
  note d = th_inv_parentD[OF assms(2) ParentTest(2,3)]
  show ?thesis using th_invD(1)[OF assms(2) d(1)] d(4,5) unfolding ParentTest(1)
    by (intro th_inv_parent[OF assms(2) ParentTest(2,3), where th = "lt_threads (rs_lib s) ! i"]) (auto simp: parent_ok_def)
next
  case (ParentExit k i e th)
  then show ?thesis using th_inv_parentD(4)[OF assms(2) ParentExit(2,3)] by (simp add: parent_ok_def)
qed

lemma th_inv_join_step:
  assumes "join_step s s'" "th_inv self routine s"
  shows "th_inv self routine s'"
  using assms(1)
proof cases
  case (JoinFind j q i)
  have "i < length (rs_starts s)" "start_at (rs_starts s ! i) \<noteq> SId" "tt_pthreadid (lt_threads (rs_lib s) ! i) = Some q"
    using get_context_sound[OF JoinFind(4)] assms(2) by (auto simp: th_inv_def)
  then have "self i = q" using th_invD(1)[OF assms(2)] by (fastforce simp: ctx_ok_def)
  with \<open>i < length (rs_starts s)\<close> show ?thesis unfolding JoinFind(1) using JoinFind(2,3)
    by (intro th_inv_join_same[OF assms(2)]) (auto simp: join_ok_def)
next
  case (JoinSem j q i)
  then show ?thesis using th_inv_joinD[OF assms(2) JoinSem(2)] by (auto intro!: th_inv_join_same[OF assms(2)] simp: join_ok_def)
next
  case (JoinWait j q i th)
  have i: "i < length (rs_starts s)" "self i = q" using th_inv_joinD[OF assms(2) JoinWait(2)] JoinWait(3) by (auto simp: join_ok_def)
  have "start_at (rs_starts s ! i) = SEnd \<and> tt_is_process th = tt_is_process (lt_threads (rs_lib s) ! i) \<and>
      ctx_ok self routine i (i \<in> forked s) (rs_starts s ! i) th"
    using th_invD(1)[OF assms(2) i(1)] JoinWait(4) by (auto simp: ctx_ok_def waitOn_sem_def split: option.splits nat.splits)
  then show ?thesis unfolding JoinWait(1) using i JoinWait(2,3)
    by (intro th_inv_join[OF assms(2), where th = th and i = i]) (auto simp: join_ok_def)
next
  case (JoinProcess j q i ended)
  then show ?thesis using th_inv_joinD[OF assms(2) JoinProcess(2)] by (auto intro!: th_inv_join_same[OF assms(2)] simp: join_ok_def)
next
  case (JoinRead j q i)
  have i: "i < length (rs_starts s)" "self i = q" "start_at (rs_starts s ! i) = SEnd"
    using th_inv_joinD[OF assms(2) JoinRead(2)] JoinRead(3) by (auto simp: join_ok_def)
  then show ?thesis unfolding JoinRead(1) using th_invD(1)[OF assms(2) i(1)] JoinRead(2,3)
    by (intro th_inv_join_same[OF assms(2)]) (auto simp: join_ok_def ctx_ok_def)
qed

lemma th_inv_step: "th_step self kern routine s s' \<Longrightarrow> th_inv self routine s \<Longrightarrow> th_inv self routine s'"
  by (auto elim!: th_step.cases intro: th_inv_start_step th_inv_parent_step th_inv_join_step)

lemma th_inv_reach: "th_reach self kern routine s s' \<Longrightarrow> th_inv self routine s \<Longrightarrow> th_inv self routine s'"
  by (induction rule: th_reach.induct) (auto intro: th_inv_step)

lemma th_inv_init: "th_inv self routine (th_start n qs lt)"
  by (auto simp: th_inv_def th_start_def ctx_ok_def join_ok_def tmi_thread_new_def TMI_MAX_THREADS_def)

lemma starts_length: "th_step self kern routine s s' \<Longrightarrow> length (rs_starts s') = length (rs_starts s)"
  by (auto simp: start_goto_def parent_goto_def join_goto_def elim!: th_step.cases start_step.cases parent_step.cases join_step.cases)


text \<open>The table is not checked: the thread after the last entry is stored behind it.\<close>

lemma too_many_threads:
  assumes "length (lt_all_contexts lt) = TMI_MAX_THREADS" "TMI_MAX_THREADS \<le> lt_nextTid lt"
  shows "register_new_thread i self pid tid tramp field lt = Inl (Undefined ''index past the table'')"
  using assms by (simp add: register_new_thread_def reg_number_def reg_id_def reg_store_def)

section \<open>A sample run\<close>

definition sample_lib :: libtmi where
  "sample_lib = \<lparr>lt_threads = [], lt_all_contexts = [], lt_nextTid = 0, lt_keep_going = True, lt_stopSync = False,
     lt_protectAll = False, lt_hotPages = None, lt_forked_all = False, lt_forked_threads = False, lt_events = [], lt_mem = sample_memory\<rparr>"

abbreviation sample_steps :: "run_state \<Rightarrow> run_state \<Rightarrow> bool" where
  "sample_steps \<equiv> th_reach (\<lambda>i. i) (\<lambda>_. (1, 2)) (\<lambda>_. 7)"

lemma table_nonempty: "0 < TMI_MAX_THREADS"
  by (simp add: TMI_MAX_THREADS_def)

text \<open>The run reaches a state with these places of the routine, of the parents and of the call, and this context.\<close>

definition sample_at :: "start_pc \<Rightarrow> (nat \<times> parent_pc) list \<Rightarrow> join_pc \<Rightarrow> nat \<Rightarrow> bool \<Rightarrow> u64 option \<Rightarrow> bool" where
  "sample_at pc ps jp sem proc ret \<longleftrightarrow> (\<exists>s th. sample_steps (th_start 1 [0] sample_lib) s \<and>
     rs_starts s = [pc] \<and> rs_parents s = ps \<and> rs_joins s = [(0, jp)] \<and>
     lt_threads (rs_lib s) = [th] \<and> tt_pthreadid th = Some 0 \<and> tt_wait_sem th = Some sem \<and> tt_is_process th = proc \<and> tt_ret th = ret \<and>
     lt_all_contexts (rs_lib s) = (replicate TMI_MAX_THREADS None)[0 := Some 0] \<and> lt_nextTid (rs_lib s) = 1)"

lemma sample_runs: "\<exists>ret. sample_at SRun [] JFind 0 False ret"
proof -
  note th_defs = start_goto_def th_start_def reg_id_def reg_number_def reg_store_def reg_tid_def set_tid_def upd_thread_def
    sch_write_def tmi_thread_new_def
  let ?s0 = "th_start 1 [0] sample_lib"
  let ?s1 = "start_goto 0 SNumber (reg_id 0 0 (rs_lib ?s0)) ?s0"
  have r1: "sample_steps ?s0 ?s1" by (rule th_more[OF th_refl], rule step_start, rule StartId) (simp_all add: th_defs)
  define s2 where "s2 = start_goto 0 (SStore 0) (snd (reg_number (rs_lib ?s1))) ?s1"
  have r2: "sample_steps ?s0 s2" unfolding s2_def by (rule th_more[OF r1], rule step_start, rule StartNumber) (simp_all add: th_defs)
  have s2: "rs_starts s2 = [SStore 0]" "rs_joins s2 = [(0, JFind)]" "rs_parents s2 = []"
    "lt_all_contexts (rs_lib s2) = replicate TMI_MAX_THREADS None"
    "lt_nextTid (rs_lib s2) = 1" "lt_threads (rs_lib s2) = [(tmi_thread_new 0 0)\<lparr>tt_pthreadid := Some 0\<rparr>]"
    by (simp_all add: s2_def th_defs)
  define s3 where "s3 = start_goto 0 (STid 0) ((rs_lib s2)\<lparr>lt_all_contexts := (replicate TMI_MAX_THREADS None)[0 := Some 0]\<rparr>) s2"
  have r3: "sample_steps ?s0 s3"
    unfolding s3_def by (rule th_more[OF r2], rule step_start, rule StartStore[of 0 s2 0]) (use table_nonempty in \<open>auto simp: s2 reg_store_def\<close>)
  define s4 where "s4 = start_goto 0 (SPerf 0) (reg_tid 0 1 2 0 0 (rs_lib s3)) s3"
  have r4: "sample_steps ?s0 s4"
    using th_more[OF r3 step_start[OF StartTid[of 0 s3 0 "\<lambda>i. i" "\<lambda>_. (1, 2)" "\<lambda>_. 7" 0 0]]] by (simp add: s4_def s3_def s2 start_goto_def)
  define ans where "ans = (3 :: int, True, True, sample_ring, 8 :: u32, sample_perf)"
  define s5 where "s5 = start_goto 0 SRun (start_perf 0 ans 1 0 (rs_lib s4)) s4"
  have r5: "sample_steps ?s0 s5"
    using th_more[OF r4 step_start[OF StartPerf[of 0 s4 0 "\<lambda>i. i" "\<lambda>_. (1, 2)" "\<lambda>_. 7" ans 1]]]
    by (simp add: s5_def s4_def s3_def s2 start_goto_def)
  have "rs_starts s5 = [SRun]" "rs_parents s5 = []" "rs_joins s5 = [(0, JFind)]" "lt_nextTid (rs_lib s5) = 1"
    "lt_all_contexts (rs_lib s5) = (replicate TMI_MAX_THREADS None)[0 := Some 0]"
    "\<exists>th. lt_threads (rs_lib s5) = [th] \<and> tt_pthreadid th = Some 0 \<and> tt_wait_sem th = Some 0 \<and> tt_is_process th = False"
    by (simp_all add: s5_def s4_def s3_def s2 start_goto_def reg_tid_def set_tid_def tmi_thread_new_def start_perf_def init_perf_def
        ans_def split: prod.splits)
  with r5 show ?thesis unfolding sample_at_def by blast
qed

text \<open>Single steps of the run.\<close>

lemma sample_at_step:
  assumes "sample_at pc ps jp sem proc ret"
    and "\<And>s th. rs_starts s = [pc] \<Longrightarrow> rs_parents s = ps \<Longrightarrow> rs_joins s = [(0, jp)] \<Longrightarrow> lt_threads (rs_lib s) = [th] \<Longrightarrow>
      tt_pthreadid th = Some 0 \<Longrightarrow> tt_wait_sem th = Some sem \<Longrightarrow> tt_is_process th = proc \<Longrightarrow> tt_ret th = ret \<Longrightarrow>
      lt_all_contexts (rs_lib s) = (replicate TMI_MAX_THREADS None)[0 := Some 0] \<Longrightarrow> lt_nextTid (rs_lib s) = 1 \<Longrightarrow>
      \<exists>s'. th_step (\<lambda>i. i) (\<lambda>_. (1, 2)) (\<lambda>_. 7) s s' \<and> rs_starts s' = [pc'] \<and> rs_parents s' = ps' \<and> rs_joins s' = [(0, jp')] \<and>
        (\<exists>th'. lt_threads (rs_lib s') = [th'] \<and> tt_pthreadid th' = Some 0 \<and> tt_wait_sem th' = Some sem' \<and> tt_is_process th' = proc' \<and> tt_ret th' = ret') \<and>
        lt_all_contexts (rs_lib s') = lt_all_contexts (rs_lib s) \<and> lt_nextTid (rs_lib s') = lt_nextTid (rs_lib s)"
  shows "sample_at pc' ps' jp' sem' proc' ret'"
proof -
  obtain s th where r: "sample_steps (th_start 1 [0] sample_lib) s" and s: "rs_starts s = [pc]" "rs_parents s = ps" "rs_joins s = [(0, jp)]"
      "lt_threads (rs_lib s) = [th]" "tt_pthreadid th = Some 0" "tt_wait_sem th = Some sem" "tt_is_process th = proc" "tt_ret th = ret"
      "lt_all_contexts (rs_lib s) = (replicate TMI_MAX_THREADS None)[0 := Some 0]" "lt_nextTid (rs_lib s) = 1"
    using assms(1) unfolding sample_at_def by blast
  obtain s' th' where st: "th_step (\<lambda>i. i) (\<lambda>_. (1, 2)) (\<lambda>_. 7) s s'" and s': "rs_starts s' = [pc']" "rs_parents s' = ps'" "rs_joins s' = [(0, jp')]"
      "lt_threads (rs_lib s') = [th']" "tt_pthreadid th' = Some 0" "tt_wait_sem th' = Some sem'" "tt_is_process th' = proc'" "tt_ret th' = ret'"
      "lt_all_contexts (rs_lib s') = lt_all_contexts (rs_lib s)" "lt_nextTid (rs_lib s') = lt_nextTid (rs_lib s)"
    using assms(2)[OF s] by blast
  show ?thesis unfolding sample_at_def using th_more[OF r st] s' s(9,10) by (intro exI conjI) simp_all
qed

lemma sample_return: "sample_at SRun ps jp sem proc ret \<Longrightarrow> sample_at SCommit ps jp sem proc (Some 7)"
  by (erule sample_at_step, rule exI, rule conjI, rule step_start, rule StartReturn[of 0]) (simp_all add: start_goto_def store_ret_def)

lemma sample_commit: "sample_at SCommit ps jp sem False ret \<Longrightarrow> sample_at SExit ps jp sem False ret"
  by (erule sample_at_step, rule exI, rule conjI, rule step_start, rule StartCommit[of 0]) (simp_all add: start_goto_def commit_process_def, simp_all)

lemma sample_exit: "sample_at SExit ps jp sem proc ret \<Longrightarrow> sample_at SEnd ps jp (sem + 1) proc ret"
  by (erule sample_at_step, rule exI, rule conjI, rule step_start, rule StartExit[of 0]) (simp_all add: start_goto_def doExit_def, simp_all)

lemma sample_fork: "sample_at SRun [] jp sem proc ret \<Longrightarrow> sample_at (SReport 5 SRun) [(0, PPid 5)] jp sem proc ret"
  by (erule sample_at_step, rule exI, rule conjI, rule step_start, rule ForkThread[of 0 _ 5])
    (simp_all add: start_goto_def registered_def forked_def tramp_function_def, simp_all)

lemma sample_report: "sample_at (SReport 5 SRun) ps jp sem proc ret \<Longrightarrow> sample_at SRun ps jp sem proc ret"
  by (erule sample_at_step, rule exI, rule conjI, rule step_start, rule ChildReport[of 0 _ 5 SRun]) (simp_all add: start_goto_def)

lemma sample_pid: "sample_at pc [(0, PPid c)] jp sem proc ret \<Longrightarrow> sample_at pc [(0, PFlag)] jp sem proc ret"
  by (erule sample_at_step, rule exI, rule conjI, rule step_parent, rule ParentPid[of 0 _ 0]) (simp_all add: parent_goto_def set_pid_def)

lemma sample_flag: "sample_at pc [(0, PFlag)] jp sem proc ret \<Longrightarrow> sample_at pc [(0, PRet)] jp sem True ret"
  by (erule sample_at_step, rule exI, rule conjI, rule step_parent, rule ParentFlag[of 0 _ 0])
    (simp_all add: parent_goto_def set_process_flag_def)

lemma sample_ret: "sample_at pc [(0, PRet)] jp sem proc ret \<Longrightarrow> sample_at pc [(0, PTest)] jp sem proc (Some 0)"
  by (erule sample_at_step, rule exI, rule conjI, rule step_parent, rule ParentRet[of 0 _ 0]) (simp_all add: parent_goto_def store_ret_def)

lemma sample_quit: "sample_at SRun ps jp sem proc ret \<Longrightarrow> sample_at SQuit ps jp sem proc (Some 7)"
  by (erule sample_at_step, rule exI, rule conjI, rule step_start, rule StartQuit[of 0]) (simp_all add: start_goto_def store_ret_def)

lemma sample_hang: "sample_at SQuit ps jp sem True ret \<Longrightarrow> sample_at SHang ps jp sem True ret"
  by (erule sample_at_step, rule exI, rule conjI, rule step_start, rule StartTest[of 0]) (simp_all add: start_goto_def)

lemma sample_find: "sample_at pc ps JFind sem proc ret \<Longrightarrow> sample_at pc ps (JSem 0) sem proc ret"
  by (erule sample_at_step, rule exI, rule conjI, rule step_join, rule JoinFind[of 0 _ 0 0])
    (use table_nonempty in \<open>simp_all add: join_goto_def get_context_def\<close>)

lemma sample_sem: "sample_at pc ps (JSem 0) sem proc ret \<Longrightarrow> sample_at pc ps (JWait 0) sem proc ret"
  by (erule sample_at_step, rule exI, rule conjI, rule step_join, rule JoinSem[of 0 _ 0 0]) (simp_all add: join_goto_def)

lemma sample_wait: "sample_at pc ps (JWait 0) (Suc sem) proc ret \<Longrightarrow> sample_at pc ps (JProcess 0) sem proc ret"
  by (erule sample_at_step, rule exI, rule conjI, rule step_join, rule JoinWait[of 0 _ 0 0])
    (simp_all add: join_goto_def waitOn_sem_def, simp_all)

lemma sample_process: "sample_at pc ps (JProcess 0) sem proc ret \<Longrightarrow> sample_at pc ps (JRead 0) sem proc ret"
  by (erule sample_at_step, rule exI, rule conjI, rule step_join, rule JoinProcess[of 0 _ 0 0 True])
    (simp_all add: join_goto_def waitOn_again_def)

lemma sample_join: "sample_at pc ps JFind (Suc 0) proc ret \<Longrightarrow> sample_at pc ps (JRead 0) 0 proc ret"
  by (rule sample_process[OF sample_wait[OF sample_sem[OF sample_find]]])

lemma sample_read: "sample_at pc ps (JRead 0) sem proc ret \<Longrightarrow> sample_at pc ps (JDone ret) sem proc ret"
  by (erule sample_at_step, rule exI, rule conjI, rule step_join, rule JoinRead[of 0 _ 0 0]) (simp_all add: join_goto_def)

lemma sample_done: "\<exists>ret. sample_at SEnd [] (JDone ret) 0 False ret"
  using sample_runs by (metis One_nat_def add_0 sample_return sample_commit sample_exit sample_join sample_read)


text \<open>
  The original thread may store its null pointer after the process has stored the result: the call then gives zero, though the
  routine returned seven.
\<close>

lemma late_parent_overwrites:
  "\<exists>s. sample_steps (th_start 1 [0] sample_lib) s \<and> rs_starts s = [SEnd] \<and> rs_joins s = [(0, JDone (Some 0))]"
proof -
  obtain ret where "sample_at SRun [] JFind 0 False ret" using sample_runs by blast
  then have "sample_at SEnd [(0, PPid 5)] JFind (Suc 0) False (Some 7)"
    using sample_exit[of _ _ 0] by (metis One_nat_def add_0 sample_fork sample_report sample_return sample_commit)
  then have "sample_at SEnd [(0, PTest)] (JDone (Some 0)) 0 True (Some 0)"
    by (metis sample_pid sample_flag sample_ret sample_join sample_read)
  then show ?thesis unfolding sample_at_def by blast
qed

text \<open>
  A process that calls \<^verbatim>\<open>pthread_exit\<close> waits for ever without posting its semaphore, so a call for its identifier never returns;
  and a run gets there.
\<close>

lemma hang_stays:
  assumes "th_reach self kern routine s s'" "i < length (rs_starts s)" "start_at (rs_starts s ! i) = SHang"
  shows "start_at (rs_starts s' ! i) = SHang \<and> i < length (rs_starts s')"
  using assms
proof (induction rule: th_reach.induct)
  case (th_more s s1 s2)
  from th_more(2) show ?case using th_more(3-)
    by (elim th_step.cases start_step.cases parent_step.cases join_step.cases)
      (auto simp: start_goto_def parent_goto_def join_goto_def nth_list_update split: if_splits)
qed simp

lemma exit_of_process_hangs:
  assumes "th_reach self kern routine (th_start n qs lt) s" "th_reach self kern routine s s'" "inj self"
    and "i < length (rs_starts s)" "start_at (rs_starts s ! i) = SHang" "j < length (rs_joins s')"
  shows "rs_joins s' ! j \<noteq> (self i, JDone r)"
proof
  assume "rs_joins s' ! j = (self i, JDone r)"
  with th_inv_joinD[OF th_inv_reach[OF assms(2) th_inv_reach[OF assms(1) th_inv_init]] assms(6)] assms(3)
  have "start_at (rs_starts s' ! i) = SEnd" by (auto simp: join_ok_def dest: injD)
  then show False using hang_stays[OF assms(2,4,5)] by simp
qed

lemma process_reaches_hang: "\<exists>s. sample_steps (th_start 1 [0] sample_lib) s \<and> rs_starts s = [SHang]"
proof -
  obtain ret where "sample_at SRun [] JFind 0 False ret" using sample_runs by blast
  then have "sample_at SHang [(0, PRet)] JFind 0 True (Some 7)"
    by (metis sample_fork sample_report sample_pid sample_flag sample_quit sample_hang)
  then show ?thesis unfolding sample_at_def by blast
qed

end
