(* ===== verification/LA_Mutex.thy ===== *)
theory LA_Mutex
  imports Huron_Prelude
begin

text \<open>
  The mutex of the allocator under \<^verbatim>\<open>others/tmi\<close> (\<^verbatim>\<open>src/ll_alloc.c\<close>): a word whose low byte says that the
  lock is taken and whose second byte that somebody may be asleep. Every access to the word is one step of a
  transition system over the word and the program points of the threads; the waiting list of the kernel is
  the set of blocked threads. The lemmas show mutual exclusion and that no wake-up is lost.
\<close>

unbundle bit_operations_syntax

section \<open>The word\<close>

definition mx_locked :: "u32 \<Rightarrow> u32" where
  "mx_locked u = u AND 255"

definition set_locked :: "u32 \<Rightarrow> u32 \<Rightarrow> u32" where
  "set_locked b u = (u AND NOT 255) OR b"

definition set_contended :: "u32 \<Rightarrow> u32 \<Rightarrow> u32" where
  "set_contended b u = (u AND NOT 65280) OR push_bit 8 b"

section \<open>Program points and steps\<close>

text \<open>
  \<open>LSpin\<close>, \<open>LSleep\<close> and \<open>LWait\<close> are the two loops of \<^verbatim>\<open>mutex_lock\<close> and its call of the kernel, \<open>Blocked\<close> a
  thread asleep in the kernel. \<open>URead\<close>, \<open>UCas\<close>, \<open>UStore\<close>, \<open>USpin\<close>, \<open>UClear\<close> and \<open>UWake\<close> are the accesses of
  \<^verbatim>\<open>mutex_unlock\<close> in their order, \<open>TRead\<close> and \<open>TXchg\<close> those of \<^verbatim>\<open>mutex_trylock\<close>. The counters are those of
  the two bounded spins.
\<close>

datatype mutex_pc = MIdle | LSpin nat | LSleep | LWait | Blocked | TRead | TXchg | MHeld
  | URead | UCas | UStore | USpin nat | UClear | UWake

record mutex =
  mx_u :: u32
  mx_pc :: "nat \<Rightarrow> mutex_pc"

definition mutex_init :: mutex where
  "mutex_init = \<lparr>mx_u = 0, mx_pc = (\<lambda>_. MIdle)\<rparr>"

definition mx_goto :: "nat \<Rightarrow> mutex_pc \<Rightarrow> u32 \<Rightarrow> mutex \<Rightarrow> mutex" where
  "mx_goto t p u m = m\<lparr>mx_u := u, mx_pc := (mx_pc m)(t := p)\<rparr>"

inductive lock_step :: "mutex \<Rightarrow> mutex \<Rightarrow> bool" where
  Call: "mx_pc m t = MIdle \<Longrightarrow> lock_step m (mx_goto t (LSpin 0) (mx_u m) m)"
| Spin: "mx_pc m t = LSpin i \<Longrightarrow>
    lock_step m (mx_goto t (if mx_locked (mx_u m) = 0 then MHeld else if Suc i < 100 then LSpin (Suc i) else LSleep)
      (set_locked 1 (mx_u m)) m)"
| Sleep: "mx_pc m t = LSleep \<Longrightarrow> lock_step m (mx_goto t (if mx_u m AND 1 \<noteq> 0 then LWait else MHeld) 257 m)"
| Wait: "mx_pc m t = LWait \<Longrightarrow> lock_step m (mx_goto t (if mx_u m = 257 then Blocked else LSleep) (mx_u m) m)"
| Interrupted: "mx_pc m t = Blocked \<Longrightarrow> lock_step m (mx_goto t LSleep (mx_u m) m)"

inductive trylock_step :: "mutex \<Rightarrow> mutex \<Rightarrow> bool" where
  Call: "mx_pc m t = MIdle \<Longrightarrow> trylock_step m (mx_goto t TRead (mx_u m) m)"
| Read: "mx_pc m t = TRead \<Longrightarrow>
    trylock_step m (mx_goto t (if mx_locked (mx_u m) \<noteq> 0 then MIdle else TXchg) (mx_u m) m)"
| Xchg: "mx_pc m t = TXchg \<Longrightarrow>
    trylock_step m (mx_goto t (if mx_locked (mx_u m) = 0 then MHeld else MIdle) (set_locked 1 (mx_u m)) m)"

inductive unlock_step :: "mutex \<Rightarrow> mutex \<Rightarrow> bool" where
  Call: "mx_pc m t = MHeld \<Longrightarrow> unlock_step m (mx_goto t URead (mx_u m) m)"
| Read: "mx_pc m t = URead \<Longrightarrow> unlock_step m (mx_goto t (if mx_u m = 1 then UCas else UStore) (mx_u m) m)"
| Cas: "mx_pc m t = UCas \<Longrightarrow>
    unlock_step m (if mx_u m = 1 then mx_goto t MIdle 0 m else mx_goto t UStore (mx_u m) m)"
| Store: "mx_pc m t = UStore \<Longrightarrow> unlock_step m (mx_goto t (USpin 0) (set_locked 0 (mx_u m)) m)"
| Spin: "mx_pc m t = USpin i \<Longrightarrow>
    unlock_step m (mx_goto t (if mx_locked (mx_u m) \<noteq> 0 then MIdle else if Suc i < 200 then USpin (Suc i) else UClear)
      (mx_u m) m)"
| Clear: "mx_pc m t = UClear \<Longrightarrow> unlock_step m (mx_goto t UWake (set_contended 0 (mx_u m)) m)"
| Wake: "mx_pc m t = UWake \<Longrightarrow> mx_pc m w = Blocked \<Longrightarrow>
    unlock_step m (mx_goto t MIdle (mx_u m) (mx_goto w LSleep (mx_u m) m))"
| WakeNone: "mx_pc m t = UWake \<Longrightarrow> \<forall>w. mx_pc m w \<noteq> Blocked \<Longrightarrow> unlock_step m (mx_goto t MIdle (mx_u m) m)"

inductive mx_reach :: "mutex \<Rightarrow> bool" where
  Init: "mx_reach mutex_init"
| Lock: "mx_reach m \<Longrightarrow> lock_step m m' \<Longrightarrow> mx_reach m'"
| Trylock: "mx_reach m \<Longrightarrow> trylock_step m m' \<Longrightarrow> mx_reach m'"
| Unlock: "mx_reach m \<Longrightarrow> unlock_step m m' \<Longrightarrow> mx_reach m'"

section \<open>Invariants\<close>

definition holds :: "mutex_pc \<Rightarrow> bool" where
  "holds p \<longleftrightarrow> p = MHeld \<or> p = URead \<or> p = UCas \<or> p = UStore"

text \<open>The points of an unlock between the release and the clearing of the second byte.\<close>

definition releasing :: "mutex_pc \<Rightarrow> bool" where
  "releasing p \<longleftrightarrow> (\<exists>i. p = USpin i) \<or> p = UClear"

text \<open>A thread that will look at the word again before it sleeps, or that is about to wake another.\<close>

definition awake :: "mutex_pc \<Rightarrow> bool" where
  "awake p \<longleftrightarrow> p = LSleep \<or> p = LWait \<or> p = UWake"

definition excl :: "mutex \<Rightarrow> bool" where
  "excl m \<longleftrightarrow> mx_u m \<in> {0, 1, 256, 257} \<and> (mx_u m \<in> {1, 257} \<longleftrightarrow> (\<exists>t. holds (mx_pc m t))) \<and>
     (\<forall>t t'. holds (mx_pc m t) \<longrightarrow> holds (mx_pc m t') \<longrightarrow> t = t')"

definition no_lost :: "mutex \<Rightarrow> bool" where
  "no_lost m \<longleftrightarrow> ((\<exists>t. mx_pc m t = Blocked) \<longrightarrow>
     (\<exists>t. awake (mx_pc m t)) \<or> mx_u m \<in> {256, 257} \<and> (\<exists>t. holds (mx_pc m t) \<or> releasing (mx_pc m t)))"

lemma mx_goto_sel [simp]: "mx_u (mx_goto t p u m) = u" "mx_pc (mx_goto t p u m) = (mx_pc m)(t := p)"
  by (simp_all add: mx_goto_def)

lemma word_values [simp]:
  "mx_locked 0 = 0" "mx_locked 1 = 1" "mx_locked 256 = 0" "mx_locked 257 = 1"
  "set_locked 1 0 = 1" "set_locked 1 1 = 1" "set_locked 1 256 = 257" "set_locked 1 257 = 257"
  "set_locked 0 0 = 0" "set_locked 0 1 = 0" "set_locked 0 256 = 256" "set_locked 0 257 = 256"
  "set_contended 0 0 = 0" "set_contended 0 1 = 1" "set_contended 0 256 = 0" "set_contended 0 257 = 1"
  by (simp_all add: mx_locked_def set_locked_def set_contended_def)

lemma holds_simps [simp]:
  "holds MHeld" "holds URead" "holds UCas" "holds UStore" "\<not> holds MIdle" "\<not> holds (LSpin i)" "\<not> holds LSleep"
  "\<not> holds LWait" "\<not> holds Blocked" "\<not> holds TRead" "\<not> holds TXchg" "\<not> holds (USpin i)" "\<not> holds UClear" "\<not> holds UWake"
  by (simp_all add: holds_def)

text \<open>
  A thread moves and the word changes: what has to be checked for exclusion is only whether the thread
  held the lock before and after, and the low byte.
\<close>

lemma excl_goto:
  assumes "excl m" "u \<in> {0, 1, 256, 257}"
    and "holds p \<Longrightarrow> u \<in> {1, 257} \<and> (holds (mx_pc m t) \<or> mx_u m \<in> {0, 256})"
    and "\<not> holds p \<Longrightarrow> holds (mx_pc m t) \<Longrightarrow> u \<in> {0, 256}"
    and "\<not> holds p \<Longrightarrow> \<not> holds (mx_pc m t) \<Longrightarrow> (u \<in> {1, 257} \<longleftrightarrow> mx_u m \<in> {1, 257})"
  shows "excl (mx_goto t p u m)"
proof (cases "holds p")
  case True
  then have "\<forall>t'. t' \<noteq> t \<longrightarrow> \<not> holds (mx_pc m t')" using assms(1,3) unfolding excl_def by auto
  with True assms(2,3) show ?thesis unfolding excl_def by auto
next
  case p: False
  show ?thesis
  proof (cases "holds (mx_pc m t)")
    case True
    then have "\<forall>t'. t' \<noteq> t \<longrightarrow> \<not> holds (mx_pc m t')" using assms(1) unfolding excl_def by auto
    with True p assms(4) show ?thesis unfolding excl_def by auto
  next
    case False
    then have "(\<exists>t'. holds (((mx_pc m)(t := p)) t')) \<longleftrightarrow> (\<exists>t'. holds (mx_pc m t'))" using p by auto
    with False p assms(1,2,5) show ?thesis unfolding excl_def by auto
  qed
qed

lemma excl_values: "excl m \<Longrightarrow> mx_u m = 0 \<or> mx_u m = 1 \<or> mx_u m = 256 \<or> mx_u m = 257"
  by (auto simp: excl_def)

lemma excl_held: "excl m \<Longrightarrow> holds (mx_pc m t) \<Longrightarrow> mx_u m = 1 \<or> mx_u m = 257"
  by (auto simp: excl_def)

lemma excl_lock: "lock_step m m' \<Longrightarrow> excl m \<Longrightarrow> excl m'"
proof (induction rule: lock_step.induct)
  case (Call m t)
  then show ?case using excl_values[OF Call.prems] by (intro excl_goto) (auto split: if_splits)
next
  case (Spin m t i)
  then show ?case using excl_values[OF Spin.prems] by (intro excl_goto) (auto split: if_splits)
next
  case (Sleep m t)
  then show ?case using excl_values[OF Sleep.prems] by (intro excl_goto) (auto split: if_splits)
next
  case (Wait m t)
  then show ?case using excl_values[OF Wait.prems] by (intro excl_goto) (auto split: if_splits)
next
  case (Interrupted m t)
  then show ?case using excl_values[OF Interrupted.prems] by (intro excl_goto) (auto split: if_splits)
qed

lemma excl_trylock: "trylock_step m m' \<Longrightarrow> excl m \<Longrightarrow> excl m'"
proof (induction rule: trylock_step.induct)
  case (Call m t)
  then show ?case using excl_values[OF Call.prems] by (intro excl_goto) (auto split: if_splits)
next
  case (Read m t)
  then show ?case using excl_values[OF Read.prems] by (intro excl_goto) (auto split: if_splits)
next
  case (Xchg m t)
  then show ?case using excl_values[OF Xchg.prems] by (intro excl_goto) (auto split: if_splits)
qed

lemma excl_unlock: "unlock_step m m' \<Longrightarrow> excl m \<Longrightarrow> excl m'"
proof (induction rule: unlock_step.induct)
  case (Call m t)
  then show ?case using excl_held[OF Call.prems, of t] by (intro excl_goto) (auto split: if_splits)
next
  case (Read m t)
  then show ?case using excl_held[OF Read.prems, of t] by (intro excl_goto) (auto split: if_splits)
next
  case (Cas m t)
  then show ?case using excl_held[OF Cas.prems, of t] excl_goto[OF Cas.prems, of 0 MIdle t] excl_goto[OF Cas.prems, of 257 UStore t]
    by auto
next
  case (Store m t)
  then show ?case using excl_held[OF Store.prems, of t] by (intro excl_goto) (auto split: if_splits)
next
  case (Spin m t i)
  then show ?case using excl_values[OF Spin.prems] by (intro excl_goto) (auto split: if_splits)
next
  case (Clear m t)
  then show ?case using excl_values[OF Clear.prems] by (intro excl_goto) (auto split: if_splits)
next
  case (Wake m t w)
  have "excl (mx_goto w LSleep (mx_u m) m)"
    using Wake excl_values[OF Wake.prems] by (intro excl_goto) auto
  then show ?case using Wake excl_values[OF Wake.prems] by (intro excl_goto) (auto split: if_splits)
next
  case (WakeNone m t)
  then show ?case using excl_values[OF WakeNone.prems] by (intro excl_goto) (auto split: if_splits)
qed

lemma reach_excl: "mx_reach m \<Longrightarrow> excl m"
proof (induction rule: mx_reach.induct)
  case Init
  then show ?case by (simp add: excl_def mutex_init_def)
qed (blast intro: excl_lock excl_trylock excl_unlock)+

section \<open>Wake-ups\<close>

lemma point_simps [simp]:
  "awake LSleep" "awake LWait" "awake UWake" "\<not> awake MIdle" "\<not> awake (LSpin i)" "\<not> awake Blocked" "\<not> awake TRead"
  "\<not> awake TXchg" "\<not> awake MHeld" "\<not> awake URead" "\<not> awake UCas" "\<not> awake UStore" "\<not> awake (USpin i)" "\<not> awake UClear"
  "releasing (USpin i)" "releasing UClear" "\<not> releasing MIdle" "\<not> releasing (LSpin i)" "\<not> releasing TRead"
  "\<not> releasing TXchg"
  by (simp_all add: awake_def releasing_def)

text \<open>
  The three ways in which a step keeps a blocked thread from being forgotten: the moving thread is awake
  afterwards, somebody holds or releases the lock with the second byte set, or nothing relevant changes.
\<close>

lemma no_lost_awake: "awake p \<Longrightarrow> no_lost (mx_goto t p u m)"
  unfolding no_lost_def by auto

lemma no_lost_byte:
  assumes "u \<in> {256, 257}" "holds p \<or> releasing p \<or> (\<exists>t'. t' \<noteq> t \<and> holds (mx_pc m t'))"
  shows "no_lost (mx_goto t p u m)"
  using assms unfolding no_lost_def by auto

lemma no_lost_keep:
  assumes "no_lost m" "p \<noteq> Blocked" "\<not> awake (mx_pc m t)" "mx_u m \<in> {256, 257} \<Longrightarrow> u \<in> {256, 257}"
    and "holds (mx_pc m t) \<or> releasing (mx_pc m t) \<Longrightarrow> mx_u m \<in> {256, 257} \<Longrightarrow> holds p \<or> releasing p"
  shows "no_lost (mx_goto t p u m)"
proof (cases "\<exists>t'. ((mx_pc m)(t := p)) t' = Blocked")
  case True
  then obtain b where b: "b \<noteq> t" "mx_pc m b = Blocked" using assms(2) by (auto split: if_splits)
  from assms(1) b(2) consider t' where "awake (mx_pc m t')"
    | t' where "mx_u m \<in> {256, 257}" "holds (mx_pc m t') \<or> releasing (mx_pc m t')" unfolding no_lost_def by blast
  then show ?thesis
  proof cases
    case (1 t')
    then have "t' \<noteq> t" using assms(3) by auto
    with 1 show ?thesis unfolding no_lost_def by auto
  next
    case (2 t')
    have "\<exists>t''. holds (((mx_pc m)(t := p)) t'') \<or> releasing (((mx_pc m)(t := p)) t'')"
      using 2 assms(5) by (cases "t' = t") auto
    with assms(4)[OF 2(1)] show ?thesis unfolding no_lost_def mx_goto_sel by blast
  qed
qed (simp add: no_lost_def)

lemma no_lost_lock: "lock_step m m' \<Longrightarrow> excl m \<Longrightarrow> no_lost m \<Longrightarrow> no_lost m'"
proof (induction rule: lock_step.induct)
  case (Call m t)
  then show ?case by (intro no_lost_keep) auto
next
  case (Spin m t i)
  show ?case
  proof (cases "mx_locked (mx_u m) = 0 \<or> Suc i < 100")
    case True
    with Spin excl_values[OF Spin.prems(1)] show ?thesis by (intro no_lost_keep) auto
  next
    case False
    then show ?thesis by (simp add: no_lost_awake)
  qed
next
  case (Sleep m t)
  then show ?case by (auto intro: no_lost_awake no_lost_byte)
next
  case (Wait m t)
  have "\<exists>t'. t' \<noteq> t \<and> holds (mx_pc m t')" if "mx_u m = 257"
    using Wait that unfolding excl_def by (metis holds_simps(8) insertCI)
  then show ?case by (auto intro: no_lost_awake no_lost_byte)
next
  case (Interrupted m t)
  then show ?case by (simp add: no_lost_awake)
qed

lemma no_lost_trylock: "trylock_step m m' \<Longrightarrow> excl m \<Longrightarrow> no_lost m \<Longrightarrow> no_lost m'"
proof (induction rule: trylock_step.induct)
  case (Xchg m t)
  then show ?case using excl_values[OF Xchg.prems(1)] by (intro no_lost_keep) auto
qed (intro no_lost_keep; simp)+

lemma no_lost_unlock: "unlock_step m m' \<Longrightarrow> excl m \<Longrightarrow> no_lost m \<Longrightarrow> no_lost m'"
proof (induction rule: unlock_step.induct)
  case (Cas m t)
  then show ?case using no_lost_keep[OF Cas.prems(2), of MIdle t 0] no_lost_keep[OF Cas.prems(2), of UStore t "mx_u m"] by auto
next
  case (Store m t)
  then show ?case using excl_held[OF Store.prems(1), of t] by (intro no_lost_keep) auto
next
  case (Spin m t i)
  have other: "\<exists>t'. t' \<noteq> t \<and> holds (mx_pc m t')" if "mx_u m = 257"
    using Spin that unfolding excl_def by (metis holds_simps(12) insertCI)
  show ?case
  proof (cases "mx_u m = 257")
    case True
    with other show ?thesis by (intro no_lost_byte) auto
  next
    case False
    with Spin excl_values[OF Spin.prems(1)] show ?thesis by (intro no_lost_keep) (auto split: if_splits)
  qed
next
  case (Wake m t w)
  then have "w \<noteq> t" by auto
  then show ?case unfolding no_lost_def by auto
next
  case (WakeNone m t)
  then show ?case unfolding no_lost_def by auto
next
  case (Clear m t)
  then show ?case by (simp add: no_lost_awake)
qed (intro no_lost_keep; simp)+

lemma reach_no_lost: "mx_reach m \<Longrightarrow> no_lost m"
proof (induction rule: mx_reach.induct)
  case Init
  then show ?case by (simp add: no_lost_def mutex_init_def)
qed (blast intro: reach_excl no_lost_lock no_lost_trylock no_lost_unlock)+

section \<open>Properties\<close>

text \<open>
  \<^bold>\<open>C28.\<close> Mutual exclusion: in every interleaving of lock, trylock and unlock calls, at most one thread is
  between a successful acquisition and its release.
\<close>

theorem mutex_exclusion:
  assumes "mx_reach m" "holds (mx_pc m t)" "holds (mx_pc m t')"
  shows "t = t'"
  using reach_excl[OF assms(1)] assms(2,3) by (simp add: excl_def)

text \<open>A run: thread 0 takes the lock, thread 2 spins in vain, goes to sleep and is blocked.\<close>

definition contended_lock :: "mutex_pc \<Rightarrow> mutex" where
  "contended_lock p = \<lparr>mx_u = 1, mx_pc = (\<lambda>_. MIdle)(0 := MHeld, 2 := p)\<rparr>"

lemma mutex_eqI: "mx_u a = mx_u b \<Longrightarrow> mx_pc a = mx_pc b \<Longrightarrow> a = (b :: mutex)"
  by simp

lemma first_lock: "mx_reach (contended_lock MIdle)"
proof -
  let ?m = "mx_goto 0 (LSpin 0) 0 mutex_init"
  have "lock_step mutex_init ?m" using lock_step.Call[of mutex_init 0] by (simp add: mutex_init_def)
  moreover have "lock_step ?m (mx_goto 0 MHeld 1 ?m)" using lock_step.Spin[of ?m 0 0] by simp
  moreover have "mx_goto 0 MHeld 1 ?m = contended_lock MIdle"
    by (rule mutex_eqI) (auto simp: contended_lock_def mutex_init_def fun_eq_iff)
  ultimately show ?thesis using mx_reach.Init mx_reach.Lock by metis
qed

lemma contended_goto: "mx_goto 2 p 1 (contended_lock q) = contended_lock p"
  by (rule mutex_eqI) (auto simp: contended_lock_def fun_eq_iff)

lemma contended_sel [simp]: "mx_u (contended_lock p) = 1" "mx_pc (contended_lock p) 2 = p" "mx_pc (contended_lock p) 0 = MHeld"
  by (simp_all add: contended_lock_def)

lemma spins: "i \<le> 99 \<Longrightarrow> mx_reach (contended_lock (LSpin i))"
proof (induction i)
  case 0
  have "lock_step (contended_lock MIdle) (contended_lock (LSpin 0))"
    using lock_step.Call[of "contended_lock MIdle" 2] by (simp only: contended_sel contended_goto)
  with first_lock show ?case by (rule mx_reach.Lock)
next
  case (Suc i)
  have "lock_step (contended_lock (LSpin i)) (contended_lock (LSpin (Suc i)))"
    using lock_step.Spin[of "contended_lock (LSpin i)" 2 i] Suc.prems by (simp add: contended_goto)
  with Suc show ?case by (auto intro: mx_reach.Lock)
qed

definition blocked_lock :: mutex where
  "blocked_lock = \<lparr>mx_u = 257, mx_pc = (\<lambda>_. MIdle)(0 := MHeld, 2 := Blocked)\<rparr>"

lemma blocked_reach: "mx_reach blocked_lock"
proof -
  let ?m1 = "contended_lock LSleep" and ?m2 = "mx_goto 2 LWait 257 (contended_lock LSleep)"
  have "lock_step (contended_lock (LSpin 99)) ?m1"
    using lock_step.Spin[of "contended_lock (LSpin 99)" 2 99] by (simp add: contended_goto)
  moreover have "lock_step ?m1 ?m2" using lock_step.Sleep[of ?m1 2] by simp
  moreover have "lock_step ?m2 (mx_goto 2 Blocked 257 ?m2)" using lock_step.Wait[of ?m2 2] by simp
  moreover have "mx_goto 2 Blocked 257 ?m2 = blocked_lock"
    by (rule mutex_eqI) (auto simp: contended_lock_def blocked_lock_def fun_eq_iff)
  ultimately show ?thesis using spins[of 99] mx_reach.Lock by (metis order_refl)
qed

theorem mutex_exclusion_witness: "mx_reach blocked_lock \<and> holds (mx_pc blocked_lock 0) \<and> {t. holds (mx_pc blocked_lock t)} = {0}"
proof -
  have "holds (mx_pc blocked_lock 0)" by (simp add: blocked_lock_def)
  with mutex_exclusion[OF blocked_reach] blocked_reach show ?thesis by blast
qed

text \<open>
  \<^bold>\<open>C38.\<close> No wake-up is lost: whenever a thread is asleep in the kernel, some thread holds the lock, is
  still releasing it, is about to wake a sleeper, or will try to take the lock itself. When every thread is
  outside the mutex or asleep, none is asleep.
\<close>

theorem mutex_no_lost_wakeup:
  assumes "mx_reach m" "mx_pc m b = Blocked"
  shows "\<exists>t. holds (mx_pc m t) \<or> releasing (mx_pc m t) \<or> awake (mx_pc m t)"
  using reach_no_lost[OF assms(1)] assms(2) by (auto simp: no_lost_def)

theorem mutex_no_lost_wakeup_witness:
  "mx_pc blocked_lock 2 = Blocked \<and> (\<exists>t. holds (mx_pc blocked_lock t) \<or> releasing (mx_pc blocked_lock t) \<or> awake (mx_pc blocked_lock t))"
proof -
  have "mx_pc blocked_lock 2 = Blocked" by (simp add: blocked_lock_def)
  with mutex_no_lost_wakeup[OF blocked_reach] show ?thesis by blast
qed

end
