(* ===== verification/LA_Sizes.thy ===== *)
theory LA_Sizes
  imports Huron_Prelude "HOL-Library.Signed_Division"
begin

text \<open>
  The size arithmetic of the allocator under \<^verbatim>\<open>others/tmi\<close> (\<^verbatim>\<open>src/ll_alloc.c\<close>, \<^verbatim>\<open>include/ll_asm.h\<close>), in the
  64-bit build: rounding to pages, separators and slabs, the index of a fast list, the product of \<^verbatim>\<open>calloc\<close>
  and the random offsets that spread objects over cache sets. Everything is computed in 64-bit words.
\<close>

unbundle bit_operations_syntax

section \<open>Constants and rounding\<close>

definition PAGESIZE :: u64 where "PAGESIZE = 4096"
definition SEPSIZE :: u64 where "SEPSIZE = 16"
definition HEADERSIZE :: u64 where "HEADERSIZE = 32"
definition SLABSIZE :: u64 where "SLABSIZE = push_bit 17 1"
abbreviation TOP_SIZE :: u64 where "TOP_SIZE \<equiv> - (PAGESIZE * 2)"
definition FAST_64_BIN :: u64 where "FAST_64_BIN = 67108863"

definition page_start :: "u64 \<Rightarrow> u64" where
  "page_start p = (- PAGESIZE) AND p"

definition page_align :: "u64 \<Rightarrow> u64" where
  "page_align s = (- PAGESIZE) AND (s + PAGESIZE - 1)"

definition sep_align :: "u64 \<Rightarrow> u64" where
  "sep_align s = (s + 7 + 16) AND NOT 15"

definition slab_start :: "u64 \<Rightarrow> u64" where
  "slab_start p = (- SLABSIZE) AND p"

text \<open>One unsigned comparison tests both ends of the range of slab memory.\<close>

definition is_slab :: "u64 \<Rightarrow> u64 \<Rightarrow> u64 \<Rightarrow> bool" where
  "is_slab sbrk_start sbrk_size p \<longleftrightarrow> p - sbrk_start < sbrk_size"

definition safemul :: "u64 \<Rightarrow> u64 \<Rightarrow> u64" where
  "safemul n sz =
     (let drsize = (ucast n * ucast sz :: 128 word)
      in if drop_bit 64 drsize \<noteq> 0 then TOP_SIZE + 1 else ucast drsize)"

section \<open>Bit scans\<close>

text \<open>\<^verbatim>\<open>bsr\<close> and \<^verbatim>\<open>bsf\<close>; their result for 0 is undefined.\<close>

fun fls :: "nat \<Rightarrow> nat" where
  "fls n = (if n < 2 then 0 else Suc (fls (n div 2)))"

declare fls.simps [simp del]

definition flsq :: "u64 \<Rightarrow> nat result" where
  "flsq x = (if x = 0 then Inl (Undefined ''bsr of 0'') else Inr (fls (unat x)))"

definition ffsq :: "u64 \<Rightarrow> nat result" where
  "ffsq x = (case find (bit x) [0..<64] of None \<Rightarrow> Inl (Undefined ''bsf of 0'') | Some n \<Rightarrow> Inr n)"

definition size2fl :: "u64 \<Rightarrow> nat result" where
  "size2fl sz =
     (let n = word_of_int (sint sz sdiv 32) :: u64
      in if sz = 16 then Inr 0
         else if sint sz > sint FAST_64_BIN then Inr (64 - 1)
         else flsq (n * n * n))"

section \<open>Random offsets\<close>

definition rnd_ptr :: "u64 \<Rightarrow> u32" where
  "rnd_ptr p =
     (let s1 = p * 7319936632422683443;
          s2 = s1 XOR drop_bit 32 s1;
          s3 = s2 * 7319936632422683443
      in ucast (s3 XOR drop_bit 32 s3))"

definition rnd_offset :: "u64 \<Rightarrow> u64 \<Rightarrow> u64 \<Rightarrow> u64" where
  "rnd_offset p region sz =
     (let slack_space = region - sz;
          offset = ucast (drop_bit 32 (slack_space * ucast (rnd_ptr p))) :: u32
      in p + ucast (offset AND NOT 15))"

section \<open>Rounding, in natural numbers\<close>

lemma unat_and_not_mask: "unat (x AND NOT (mask n) :: u64) = unat x div 2 ^ n * 2 ^ n"
proof -
  have "x AND NOT (mask n) = push_bit n (drop_bit n x)"
    by (rule bit_word_eqI) (auto simp: bit_simps)
  moreover have "unat (push_bit n (drop_bit n x)) = unat x div 2 ^ n * 2 ^ n"
  proof -
    have "unat x div 2 ^ n * 2 ^ n < 2 ^ 64"
      using unsigned_less[of x, where ?'a = nat] le_less_trans[OF div_times_less_eq_dividend] by simp
    moreover have "unat (push_bit n (drop_bit n x)) = take_bit 64 (push_bit n (drop_bit n (unat x)))"
      using unsigned_less[of x, where ?'a = nat] by (simp add: unsigned_push_bit_eq unsigned_drop_bit_eq take_bit_nat_eq_self)
    ultimately show ?thesis by (simp add: push_bit_eq_mult drop_bit_eq_div take_bit_nat_eq_self)
  qed
  ultimately show ?thesis by simp
qed

lemma neg_pow_mask: "- (2 ^ n) = (NOT (mask n) :: u64)"
  by (simp add: mask_eq_exp_minus_1 not_eq_complement)

lemma sep_align_nat:
  assumes "unat s + 23 < 2 ^ 64"
  shows "unat (sep_align s) = (unat s + 23) div 16 * 16"
proof -
  have "(15 :: u64) = mask 4" by (simp add: mask_eq_exp_minus_1)
  then have "unat (sep_align s) = unat (s + 7 + 16) div 2 ^ 4 * 2 ^ 4" unfolding sep_align_def by (simp only: unat_and_not_mask)
  moreover have "unat (s + 7 + 16) = unat s + 23" using assms by (simp add: unat_word_ariths)
  ultimately show ?thesis by simp
qed

lemma page_align_nat:
  assumes "unat s + 4095 < 2 ^ 64"
  shows "unat (page_align s) = (unat s + 4095) div 4096 * 4096"
proof -
  have "- PAGESIZE = NOT (mask 12)" using neg_pow_mask[of 12] by (simp add: PAGESIZE_def)
  then have "unat (page_align s) = unat (s + PAGESIZE - 1) div 2 ^ 12 * 2 ^ 12"
    unfolding page_align_def by (simp only: and.commute[of "NOT (mask 12)"] unat_and_not_mask)
  moreover have "s + PAGESIZE - 1 = s + 4095" by (simp add: PAGESIZE_def)
  moreover have "unat (s + 4095) = unat s + 4095" using assms by (simp add: unat_word_ariths)
  ultimately show ?thesis by simp
qed

lemma slab_start_nat: "unat (slab_start p) = unat p div 2 ^ 17 * 2 ^ 17"
proof -
  have "- SLABSIZE = NOT (mask 17)" using neg_pow_mask[of 17] by (simp add: SLABSIZE_def)
  then show ?thesis unfolding slab_start_def by (simp only: and.commute[of "NOT (mask 17)"] unat_and_not_mask)
qed

lemma sep_align_table:
  "map sep_align [0, 8, 9, 16, 24, 25, 32, 40] = [16, 16, 32, 32, 32, 48, 48, 48]"
  by (simp add: sep_align_def)

text \<open>The aligned size holds the object and the eight bytes of the next separator that are not free.\<close>

lemma sep_align_fits:
  assumes "unat s + 23 < 2 ^ 64"
  shows "unat s + 8 \<le> unat (sep_align s)" "unat (sep_align s) < unat s + 24" "unat (sep_align s) mod 16 = 0"
  using sep_align_nat[OF assms] by simp_all

lemma page_align_fits:
  assumes "unat s + 4095 < 2 ^ 64"
  shows "unat s \<le> unat (page_align s)" "unat (page_align s) < unat s + 4096" "unat (page_align s) mod 4096 = 0"
  using page_align_nat[OF assms] by simp_all

lemma slab_start_object:
  assumes "unat b mod 2 ^ 17 = 0" "unat b + 2 ^ 17 \<le> 2 ^ 64" "unat b \<le> unat p" "unat p < unat b + 2 ^ 17"
  shows "slab_start p = b"
proof -
  have "unat p div 2 ^ 17 = unat b div 2 ^ 17" using assms(1,3,4) by (auto simp: div_nat_eqI algebra_simps)
  then have "unat (slab_start p) = unat b" unfolding slab_start_nat using assms(1) by auto
  then show ?thesis by (rule word_unat_eq_iff[THEN iffD2])
qed

section \<open>Products\<close>

lemma unat_ucast_mod: "unat (ucast (w :: 'a::len word) :: 'b::len word) = unat w mod 2 ^ LENGTH('b)"
  by (simp add: unsigned_ucast_eq take_bit_eq_mod)

lemma safemul_exact:
  "safemul n sz = (if unat n * unat sz < 2 ^ 64 then n * sz else TOP_SIZE + 1)"
proof -
  define d :: "128 word" where "d = ucast n * ucast sz"
  have b: "unat n < 2 ^ 64" "unat sz < 2 ^ 64" using unsigned_less[of n, where ?'a = nat] unsigned_less[of sz, where ?'a = nat] by simp_all
  then have "unat n * unat sz < 2 ^ 64 * 2 ^ 64" by (rule mult_strict_mono') simp_all
  then have d: "unat d = unat n * unat sz" unfolding d_def using b by (simp add: unat_word_ariths unat_ucast_mod)
  have "unat (drop_bit 64 d) = unat n * unat sz div 2 ^ 64" unfolding unat_drop_bit d ..
  then have "drop_bit 64 d = 0 \<longleftrightarrow> unat n * unat sz < 2 ^ 64"
    using word_unat_eq_iff[of "drop_bit 64 d" 0] by (simp only: unat_0 div_eq_0_iff) simp
  moreover have "unat (ucast d :: u64) = unat (n * sz)" by (simp add: unat_ucast_mod d unat_word_ariths)
  then have "ucast d = n * sz" by (rule word_unat_eq_iff[THEN iffD2])
  ultimately show ?thesis by (simp add: safemul_def Let_def d_def[symmetric])
qed

section \<open>Random offsets stay in the slack\<close>

lemma rnd_offset_bounds:
  assumes "sz \<le> region" "region - sz < 2 ^ 32"
  shows "\<exists>k. rnd_offset p region sz = p + word_of_nat (16 * k) \<and> 16 * k \<le> unat (region - sz)"
proof -
  let ?slack = "region - sz"
  define r where "r = unat (ucast (rnd_ptr p) :: u64)"
  define q :: u64 where "q = drop_bit 32 (?slack * ucast (rnd_ptr p))"
  define off :: u32 where "off = ucast q"
  have s: "unat ?slack < 2 ^ 32" using assms(2) by (simp add: word_less_nat_alt)
  have r: "r < 2 ^ 32" using unsigned_less[of "rnd_ptr p", where ?'a = nat] by (simp add: r_def unat_ucast_mod)
  have "unat ?slack * r < 2 ^ 32 * 2 ^ 32" using s r by (rule mult_strict_mono') simp_all
  then have "unat (?slack * ucast (rnd_ptr p)) = unat ?slack * r" by (simp add: unat_word_ariths r_def)
  then have q: "unat q = unat ?slack * r div 2 ^ 32" unfolding q_def unat_drop_bit by simp
  have le: "unat ?slack * r div 2 ^ 32 \<le> unat ?slack"
    using div_le_mono[of "unat ?slack * r" "unat ?slack * 2 ^ 32" "2 ^ 32"] r by simp
  then have off: "unat off = unat ?slack * r div 2 ^ 32" using s by (simp add: off_def unat_ucast_mod q)
  have "unat (off AND NOT 15) = unat off div 16 * 16"
  proof -
    have "off AND NOT (mask 4) = push_bit 4 (drop_bit 4 off)" by (rule bit_word_eqI) (auto simp: bit_simps)
    moreover have "unat (push_bit 4 (drop_bit 4 off)) = take_bit 32 (unat off div 16 * 16)"
      by (subst unsigned_push_bit_eq) (simp add: unat_drop_bit push_bit_eq_mult)
    moreover have "unat off div 16 * 16 < 2 ^ 32" using unsigned_less[of off, where ?'a = nat] by simp
    ultimately show ?thesis by (simp add: take_bit_nat_eq_self mask_eq_exp_minus_1)
  qed
  then have u: "unat (ucast (off AND NOT 15) :: u64) = 16 * (unat off div 16)" using unsigned_less[of "off AND NOT 15", where ?'a = nat] by (simp add: unat_ucast_mod)
  have "rnd_offset p region sz = p + ucast (off AND NOT 15)" by (simp add: rnd_offset_def off_def q_def Let_def)
  also have "ucast (off AND NOT 15) = (word_of_nat (16 * (unat off div 16)) :: u64)" using arg_cong[OF u, of "word_of_nat :: nat \<Rightarrow> u64"] by simp
  finally show ?thesis using off le by (intro exI[of _ "unat off div 16"]) (simp add: le_trans[OF times_div_less_eq_dividend])
qed

section \<open>The index of a fast list\<close>

lemma fls_bounds: "0 < n \<Longrightarrow> 2 ^ fls n \<le> n \<and> n < 2 ^ Suc (fls n)"
proof (induction n rule: fls.induct)
  case (1 n)
  show ?case
  proof (cases "n < 2")
    case True
    with 1 show ?thesis by (simp add: fls.simps)
  next
    case False
    with 1 have "2 ^ fls (n div 2) \<le> n div 2" "n div 2 < 2 ^ Suc (fls (n div 2))" by auto
    moreover have "fls n = Suc (fls (n div 2))" using False by (simp add: fls.simps[of n])
    ultimately show ?thesis by auto
  qed
qed

lemma fls_mono: "0 < m \<Longrightarrow> m \<le> n \<Longrightarrow> fls m \<le> fls n"
proof (rule ccontr)
  assume "0 < m" "m \<le> n" "\<not> fls m \<le> fls n"
  then have "Suc (fls n) \<le> fls m" "n < 2 ^ Suc (fls n)" "2 ^ fls m \<le> m" using fls_bounds[of n] fls_bounds[of m] by simp_all
  then have "(2 :: nat) ^ Suc (fls n) \<le> 2 ^ fls m" using power_increasing[of "Suc (fls n)" "fls m" "2 :: nat"] by simp
  then show False using \<open>n < 2 ^ Suc (fls n)\<close> \<open>2 ^ fls m \<le> m\<close> \<open>m \<le> n\<close> by linarith
qed

lemma sint_unat_small: "unat (w :: u64) < 2 ^ 63 \<Longrightarrow> sint w = int (unat w)"
proof -
  assume "unat w < 2 ^ 63"
  then have "int (unat w) < int (2 ^ 63)" by (simp only: of_nat_less_iff)
  then have "uint w < 2 ^ 63" by simp
  then have "signed_take_bit 63 (uint w) = uint w" using uint_ge_0[of w] by (intro signed_take_bit_int_eq_self) linarith+
  then show ?thesis by (simp add: sint_uint)
qed

lemma fast_bin: "sint FAST_64_BIN = 67108863"
  by (simp add: FAST_64_BIN_def)

lemma unat_cube: "m \<le> 2097151 \<Longrightarrow> unat (word_of_nat m * word_of_nat m * word_of_nat m :: u64) = m ^ 3"
proof -
  assume m: "m \<le> 2097151"
  then have "m * m \<le> 2097151 * 2097151" by (intro mult_le_mono)
  moreover from this m have "m * m * m \<le> 2097151 * 2097151 * 2097151" by (intro mult_le_mono)
  ultimately show ?thesis using m by (simp add: unat_word_ariths unat_of_nat power3_eq_cube)
qed

lemma size2fl_value:
  assumes "32 \<le> unat sz" "unat sz \<le> 67108863"
  shows "size2fl sz = Inr (fls ((unat sz div 32) ^ 3))"
proof -
  define m where "m = unat sz"
  have s: "sint sz = int m" unfolding m_def using assms(2) by (intro sint_unat_small) simp
  have n: "m div 32 \<le> 2097151" "0 < m div 32" using assms by (auto simp: m_def)
  have "word_of_int (int m sdiv 32) = (word_of_nat (m div 32) :: u64)"
    by (simp add: signed_divide_int_def zdiv_int[of m 32, simplified, symmetric])
  moreover have "word_of_nat (m div 32) * word_of_nat (m div 32) * word_of_nat (m div 32) \<noteq> (0 :: u64)"
    using unat_cube[OF n(1)] n(2) by (metis unat_0 power_eq_0_iff not_gr_zero)
  moreover have "sz \<noteq> 16" using assms(1) by auto
  moreover have "\<not> int m > sint FAST_64_BIN" using assms(2) fast_bin unfolding m_def by linarith
  ultimately show ?thesis unfolding size2fl_def Let_def s flsq_def using unat_cube[OF n(1)] by (simp add: m_def)
qed

lemma size2fl_big: "67108863 < unat sz \<Longrightarrow> unat sz < 2 ^ 63 \<Longrightarrow> size2fl sz = Inr 63"
proof -
  assume a: "67108863 < unat sz" "unat sz < 2 ^ 63"
  then have "sint FAST_64_BIN < sint sz" using sint_unat_small[OF a(2)] fast_bin by linarith
  moreover have "sz \<noteq> 16" using a(1) by auto
  ultimately show ?thesis by (simp add: size2fl_def Let_def)
qed

lemma size2fl_16: "size2fl 16 = Inr 0"
  by (simp add: size2fl_def)

text \<open>Every size that a block can have has a list, and larger blocks are in later lists.\<close>

definition block_size :: "u64 \<Rightarrow> bool" where
  "block_size sz \<longleftrightarrow> 16 \<le> unat sz \<and> unat sz < 2 ^ 63 \<and> unat sz mod 16 = 0"

lemma block_size_cases:
  assumes "block_size sz"
  obtains "sz = 16" | "32 \<le> unat sz" "unat sz \<le> 67108863" | "67108863 < unat sz" "unat sz < 2 ^ 63"
proof -
  have "unat sz = 16 \<or> 32 \<le> unat sz" using assms unfolding block_size_def by presburger
  then have "sz = 16 \<or> 32 \<le> unat sz" by (auto simp: word_unat_eq_iff)
  with that assms show thesis by (force simp: block_size_def)
qed

lemma fls_below: "n < 2 ^ k \<Longrightarrow> 0 < n \<Longrightarrow> fls n < k"
  using fls_bounds[of n] power_less_imp_less_exp[of "2 :: nat" "fls n" k] by linarith

lemma cube_below: "(m :: nat) \<le> 67108863 \<Longrightarrow> (m div 32) ^ 3 < 2 ^ 63"
proof -
  assume "m \<le> 67108863"
  then have "(m div 32) ^ 3 \<le> 2097151 ^ 3" by (intro power_mono) simp_all
  then show ?thesis by simp
qed

lemma size2fl_total:
  assumes "block_size sz"
  shows "\<exists>n < 64. size2fl sz = Inr n"
  using assms
proof (cases rule: block_size_cases)
  case 2
  have "fls ((unat sz div 32) ^ 3) < 63" using cube_below[OF 2(2)] 2(1) by (intro fls_below) auto
  with size2fl_value[OF 2] show ?thesis by (intro exI[of _ "fls ((unat sz div 32) ^ 3)"]) simp
qed (auto simp: size2fl_16 size2fl_big)

lemma size2fl_mono:
  assumes "block_size a" "block_size b" "a \<le> b" "size2fl a = Inr i" "size2fl b = Inr j"
  shows "i \<le> j"
  using assms(1)
proof (cases rule: block_size_cases)
  case 1
  with assms(4) show ?thesis by (simp add: size2fl_16)
next
  case a: 2
  show ?thesis using assms(2)
  proof (cases rule: block_size_cases)
    case 1
    with a assms(3) show ?thesis by (simp add: word_le_nat_alt)
  next
    case 2
    have "0 < unat a div 32" using a by simp
    moreover have "unat a div 32 \<le> unat b div 32" using assms(3) by (simp add: word_le_nat_alt div_le_mono)
    ultimately show ?thesis using size2fl_value[OF a] size2fl_value[OF 2] assms(4,5) by (simp add: fls_mono power_mono)
  next
    case 3
    have "i < 63" using cube_below[OF a(2)] a(1) size2fl_value[OF a] assms(4) fls_below[of "(unat a div 32) ^ 3" 63] by auto
    with size2fl_big[OF 3] assms(5) show ?thesis by simp
  qed
next
  case 3
  then have "67108863 < unat b" "unat b < 2 ^ 63" using assms(2,3) by (auto simp: word_le_nat_alt block_size_def)
  with size2fl_big 3 assms(4,5) show ?thesis by simp
qed

end
