(* ===== verification/LA_Slab.thy ===== *)
theory LA_Slab
  imports LA_Sizes TMI_Memory
begin

text \<open>
  The slab layer of the allocator under \<^verbatim>\<open>others/tmi\<close> (\<^verbatim>\<open>src/ll_alloc.c\<close>): small objects of one size are cut
  from blocks of 128 KB. A block is either a slab with its header or the head of a chunk of free blocks; both
  uses share the memory of the block. The double lists of slabs are lists of their addresses, from the head
  on; the implementation of the list operations is the subject of \<^verbatim>\<open>TMI_List\<close>. The memory comes from
  the slab region of \<^verbatim>\<open>TMI_Memory\<close>.
\<close>

unbundle bit_operations_syntax

section \<open>State\<close>

record sbheader =
  sb_tail :: u64
  sb_max :: u64
  sb_size :: u32
  sb_first :: u64
  sb_used :: u32

record freesb =
  fb_count :: u32
  fb_blocks :: "u64 list"

datatype sblock = Slab sbheader | Chunk freesb

abbreviation SLABBMAX :: nat where "SLABBMAX \<equiv> 64"

abbreviation NUM_SB :: nat where "NUM_SB \<equiv> 33"

text \<open>
  The part of \<^verbatim>\<open>atls\<close> that belongs to the slabs: its address of \<^verbatim>\<open>tail\<close>, the partial lists, the full list,
  the current chunk and the hash; then what all threads share: the memory, the lists of free chunks and the
  data about the slab region. \<open>sh_queued\<close> collects the objects handed to their owners' queues.
\<close>

record slab_heap =
  sh_tail :: u64
  sh_slab :: "u64 list list"
  sh_full :: "u64 list"
  sh_chunk :: "u64 option"
  sh_percpu_hash :: nat
  sh_block :: "u64 \<Rightarrow> sblock"
  sh_mem :: "u64 \<Rightarrow> u64"
  sh_queued :: "(u64 \<times> u64) list"
  sh_pc_slab :: "u64 list list"
  sh_sbrk_start :: u64
  sh_sbrk_size :: u64
  sh_tmi :: tmi_memory

section \<open>Blocks\<close>

definition sltotal :: "nat \<Rightarrow> u32" where
  "sltotal i = (if i = 0 then 0 else let sz = of_nat i * 16 in ucast ((SLABSIZE - 80) div ucast (sz :: u32)) * sz)"

definition clip_hash :: "slab_heap \<Rightarrow> slab_heap" where
  "clip_hash h = (if sh_percpu_hash h > length (sh_pc_slab h)
     then h\<lparr>sh_percpu_hash := sh_percpu_hash h mod length (sh_pc_slab h)\<rparr> else h)"

definition scan_order :: "slab_heap \<Rightarrow> nat list" where
  "scan_order h = [sh_percpu_hash h..<length (sh_pc_slab h)] @ [0..<sh_percpu_hash h]"

text \<open>
  A fresh chunk, cut from \<open>fsb\<close> on, where \<open>amount\<close> bytes were obtained: the address of its head and the
  number of blocks behind it.
\<close>

definition align_chunk :: "u64 \<Rightarrow> u64 \<Rightarrow> u64 \<times> nat" where
  "align_chunk amount fsb =
     (if (SLABSIZE - 1) AND fsb \<noteq> 0 then
        let fsb_new = slab_start (fsb + (SLABSIZE - 1))
        in (fsb_new, if fsb_new - fsb > amount - SLABSIZE * of_nat (SLABBMAX + 1) then SLABBMAX - 1 else SLABBMAX)
      else (fsb, SLABBMAX))"

definition chunk_amount :: "u64 \<Rightarrow> u64" where
  "chunk_amount sbrk_end =
     SLABSIZE * of_nat (SLABBMAX + 1) +
     (if sbrk_end AND (SLABSIZE - 1) \<noteq> 0 then SLABSIZE - (sbrk_end AND (SLABSIZE - 1)) else 0)"

text \<open>
  \<open>trylock i\<close> says whether list \<open>i\<close> can be locked at once; \<open>pers\<close> and \<open>slab\<close> are where the kernel maps the
  heap when it is first used. The region never reports that it is full, so \<^verbatim>\<open>sbrk_oom\<close> stays 0.
\<close>

definition slab_alloc_chunk :: "(nat \<Rightarrow> bool) \<Rightarrow> u64 \<Rightarrow> u64 \<Rightarrow> slab_heap \<Rightarrow> u64 \<times> slab_heap" where
  "slab_alloc_chunk trylock pers slab h0 =
     (let h = clip_hash h0
      in case find (\<lambda>i. sh_pc_slab h ! i \<noteq> [] \<and> trylock i) (scan_order h) of
           Some i \<Rightarrow> (hd (sh_pc_slab h ! i), h\<lparr>sh_pc_slab := (sh_pc_slab h)[i := tl (sh_pc_slab h ! i)]\<rparr>)
         | None \<Rightarrow>
             let amount = chunk_amount (sh_sbrk_start h + sh_sbrk_size h);
                 (fsb, tmi) = adjust_slab_memory pers slab amount (sh_tmi h);
                 (head, alloced) = align_chunk amount fsb;
                 blocks = map (\<lambda>i. head + SLABSIZE * of_nat (i + 1)) [0..<alloced]
             in (head, h\<lparr>sh_tmi := tmi, sh_sbrk_size := amount + fsb - sh_sbrk_start h,
                         sh_block := (sh_block h)(head := Chunk \<lparr>fb_count = of_nat alloced,
                           fb_blocks = blocks @ replicate (SLABBMAX - alloced) 0\<rparr>)\<rparr>))"

text \<open>Memory given back to the kernel reads as zero: the blocks of the chunk lose their headers.\<close>

definition zero_slab :: sblock where
  "zero_slab = Slab \<lparr>sb_tail = 0, sb_max = 0, sb_size = 0, sb_first = 0, sb_used = 0\<rparr>"

definition slab_free_chunk :: "(nat \<Rightarrow> bool) \<Rightarrow> u64 \<Rightarrow> slab_heap \<Rightarrow> slab_heap result" where
  "slab_free_chunk trylock fsb h0 =
     (case sh_block h0 fsb of Slab _ \<Rightarrow> Inl (Undefined ''not a chunk'')
      | Chunk c \<Rightarrow>
          let h = clip_hash h0;
              gone = set (take (unat (fb_count c)) (fb_blocks c));
              i = (case find trylock (scan_order h) of Some i \<Rightarrow> i | None \<Rightarrow> sh_percpu_hash h)
          in bindE (guardE (i < length (sh_pc_slab h)) (Undefined ''pc_slab index'')) (\<lambda>_.
             Inr (h\<lparr>sh_percpu_hash := i, sh_block := (\<lambda>b. if b \<in> gone then zero_slab else sh_block h b),
                    sh_pc_slab := (sh_pc_slab h)[i := fsb # sh_pc_slab h ! i]\<rparr>)))"

text \<open>
  The last block taken from a chunk is its head. Its memory was overwritten, so only the size, which the code
  sets to 0, is known; \<open>junk\<close> is what the other fields hold.
\<close>

definition slab_alloc_block :: "(nat \<Rightarrow> bool) \<Rightarrow> u64 \<Rightarrow> u64 \<Rightarrow> sbheader \<Rightarrow> slab_heap \<Rightarrow> (u64 \<times> slab_heap) result" where
  "slab_alloc_block trylock pers slab junk h0 =
     (let (fsb, h) = (case sh_chunk h0 of Some fsb \<Rightarrow> (fsb, h0)
            | None \<Rightarrow> let (fsb, h1) = slab_alloc_chunk trylock pers slab h0 in (fsb, h1\<lparr>sh_chunk := Some fsb\<rparr>))
      in case sh_block h fsb of Slab _ \<Rightarrow> Inl (Undefined ''not a chunk'')
         | Chunk c \<Rightarrow>
             if fb_count c = 0 then
               Inr (fsb, h\<lparr>sh_chunk := None, sh_block := (sh_block h)(fsb := Slab (junk\<lparr>sb_size := 0\<rparr>))\<rparr>)
             else
               Inr (fb_blocks c ! unat (fb_count c - 1),
                    h\<lparr>sh_block := (sh_block h)(fsb := Chunk (c\<lparr>fb_count := fb_count c - 1\<rparr>))\<rparr>))"

definition slab_free_block :: "(nat \<Rightarrow> bool) \<Rightarrow> u64 \<Rightarrow> slab_heap \<Rightarrow> slab_heap result" where
  "slab_free_block trylock sb h =
     (let fresh = h\<lparr>sh_block := (sh_block h)(sb := Chunk \<lparr>fb_count = 0, fb_blocks = replicate SLABBMAX 0\<rparr>), sh_chunk := Some sb\<rparr>
      in case sh_chunk h of None \<Rightarrow> Inr fresh
         | Some ofsb \<Rightarrow> (case sh_block h ofsb of Slab _ \<Rightarrow> Inl (Undefined ''not a chunk'')
             | Chunk c \<Rightarrow>
                 if fb_count c < of_nat (SLABBMAX - 1) then
                   Inr (h\<lparr>sh_block := (sh_block h)(ofsb := Chunk (c\<lparr>fb_count := fb_count c + 1,
                     fb_blocks := (fb_blocks c)[unat (fb_count c) := sb]\<rparr>))\<rparr>)
                 else slab_free_chunk trylock ofsb fresh))"

section \<open>Objects\<close>

text \<open>Where the objects of a slab start: behind the header, moved by a random offset except for two sizes.\<close>

definition slab_offset :: "u64 \<Rightarrow> u32 \<Rightarrow> u32 \<Rightarrow> u64" where
  "slab_offset sb sz tot =
     (if sz = 64 \<or> sz = 256 then sb + 128 + 1
      else let offset = (- 16) AND (sb + 80)
           in rnd_offset offset (sb + SLABSIZE - offset) (ucast tot) + 1)"

definition slab_header :: "u64 \<Rightarrow> u64 \<Rightarrow> u32 \<Rightarrow> u32 \<Rightarrow> sbheader" where
  "slab_header owner sb sz tot =
     \<lparr>sb_tail = owner, sb_max = sb + SLABSIZE - ucast sz, sb_size = sz, sb_first = slab_offset sb sz tot, sb_used = 0\<rparr>"

definition slab_create :: "(nat \<Rightarrow> bool) \<Rightarrow> u64 \<Rightarrow> u64 \<Rightarrow> sbheader \<Rightarrow> u32 \<Rightarrow> slab_heap \<Rightarrow> (u64 \<times> slab_heap) result" where
  "slab_create trylock pers slab junk size0 h =
     (let index = unat (size0 div 16)
      in bindE (guardE (index < NUM_SB) (Undefined ''sltotal index'')) (\<lambda>_.
         let tot = sltotal index; sz = of_nat index * 16
         in bindE (slab_alloc_block trylock pers slab junk h) (\<lambda>(sb, h1).
            case sh_block h1 sb of Chunk _ \<Rightarrow> Inl (Undefined ''not a slab'')
            | Slab s \<Rightarrow>
                let s1 = (if sb_size s = sz then s\<lparr>sb_tail := sh_tail h1\<rparr> else slab_header (sh_tail h1) sb sz tot)
                in Inr (sb, h1\<lparr>sh_slab := (sh_slab h1)[index := sb # sh_slab h1 ! index],
                               sh_block := (sh_block h1)(sb := Slab s1)\<rparr>))))"

text \<open>
  Taking an object out of a slab. An odd value of \<open>first\<close> is one more than the address from which on
  no object was used yet; otherwise it is the first object of a linked list of free ones.
\<close>

definition slab_take :: "(u64 \<Rightarrow> u64) \<Rightarrow> sbheader \<Rightarrow> u64 \<times> sbheader" where
  "slab_take mem s =
     (let p = sb_first s; s1 = s\<lparr>sb_used := sb_used s + 1\<rparr>
      in if p AND 1 = 0 then (p, s1\<lparr>sb_first := mem p\<rparr>)
         else let nxt = sb_first s + ucast (sb_size s)
              in (p - 1, s1\<lparr>sb_first := (if nxt > sb_max s then 0 else nxt)\<rparr>))"

definition slab_alloc_aux :: "nat \<Rightarrow> slab_heap \<Rightarrow> (u64 \<times> slab_heap) result" where
  "slab_alloc_aux index h =
     (case sh_slab h ! index of [] \<Rightarrow> Inl (Undefined ''empty list'')
      | sb # rest \<Rightarrow> (case sh_block h sb of Chunk _ \<Rightarrow> Inl (Undefined ''not a slab'')
          | Slab s \<Rightarrow>
              let (p, s1) = slab_take (sh_mem h) s;
                  h1 = h\<lparr>sh_block := (sh_block h)(sb := Slab s1)\<rparr>
              in Inr (p, if sb_first s1 = 0
                         then h1\<lparr>sh_slab := (sh_slab h)[index := rest], sh_full := sb # sh_full h\<rparr> else h1)))"

definition slab_alloc_safe :: "(nat \<Rightarrow> bool) \<Rightarrow> u64 \<Rightarrow> u64 \<Rightarrow> sbheader \<Rightarrow> u64 \<Rightarrow> slab_heap \<Rightarrow> (u64 \<times> slab_heap) result" where
  "slab_alloc_safe trylock pers slab junk size0 h =
     (let sz = size0 + 15; index = unat (sz div 16)
      in bindE (guardE (index < NUM_SB) (Undefined ''slab index'')) (\<lambda>_.
         if sh_slab h ! index = []
         then bindE (slab_create trylock pers slab junk (ucast sz) h) (\<lambda>(sb, h1). slab_alloc_aux index h1)
         else slab_alloc_aux index h))"

text \<open>Giving an object back to its slab.\<close>

definition slab_give :: "u64 \<Rightarrow> (u64 \<Rightarrow> u64) \<Rightarrow> sbheader \<Rightarrow> (u64 \<Rightarrow> u64) \<times> sbheader" where
  "slab_give p mem s = (mem(p := sb_first s), s\<lparr>sb_first := p, sb_used := sb_used s - 1\<rparr>)"

definition slab_free :: "(nat \<Rightarrow> bool) \<Rightarrow> u64 \<Rightarrow> slab_heap \<Rightarrow> slab_heap result" where
  "slab_free trylock p h =
     (let sb = slab_start p
      in case sh_block h sb of Chunk _ \<Rightarrow> Inl (Undefined ''not a slab'')
         | Slab s \<Rightarrow>
             if sb_tail s \<noteq> sh_tail h then Inr (h\<lparr>sh_queued := sh_queued h @ [(sb_tail s, p)]\<rparr>)
             else let (mem, s1) = slab_give p (sh_mem h) s;
                      h1 = h\<lparr>sh_mem := mem, sh_block := (sh_block h)(sb := Slab s1)\<rparr>
                  in if sb_used s1 \<noteq> 0 then Inr h1
                     else if sh_full h = [sb] \<or> [sb] \<in> set (sh_slab h) then Inr h1
                     else slab_free_block trylock sb
                       (h1\<lparr>sh_slab := map (filter (\<lambda>b. b \<noteq> sb)) (sh_slab h), sh_full := filter (\<lambda>b. b \<noteq> sb) (sh_full h)\<rparr>))"

end
