(* ===== verification/LA_SlabObjects.thy ===== *)
theory LA_SlabObjects
  imports LA_Slab
begin

text \<open>
  What the slab layer of the allocator guarantees: the objects of a slab do not overlap and stay behind its
  header, an object is handed out only while it is free, and the blocks cut from a fresh chunk lie inside the
  memory that was obtained for it.
\<close>

unbundle bit_operations_syntax

section \<open>The free objects of a slab\<close>

inductive free_chain :: "(u64 \<Rightarrow> u64) \<Rightarrow> u64 \<Rightarrow> u64 list \<Rightarrow> u64 \<Rightarrow> bool" for mem where
  Last: "f = 0 \<or> f AND 1 \<noteq> 0 \<Longrightarrow> free_chain mem f [] f"
| Link: "f \<noteq> 0 \<Longrightarrow> f AND 1 = 0 \<Longrightarrow> free_chain mem (mem f) os e \<Longrightarrow> free_chain mem f (f # os) e"

inductive_cases free_chain_Nil: "free_chain mem f [] e"
inductive_cases free_chain_Cons: "free_chain mem f (p # os) e"

lemma free_chain_update: "free_chain mem f os e \<Longrightarrow> p \<notin> set os \<Longrightarrow> free_chain (mem(p := v)) f os e"
  by (induction rule: free_chain.induct) (auto intro: free_chain.intros)

text \<open>Where the slab lies, where its objects start and how large they are.\<close>

record slab_geom =
  ge_sb :: nat
  ge_start :: nat
  ge_size :: nat

definition geom_ok :: "slab_geom \<Rightarrow> bool" where
  "geom_ok g \<longleftrightarrow> ge_sb g + 2 ^ 17 < 2 ^ 64 \<and> 16 \<le> ge_size g \<and> ge_size g \<le> 512 \<and> 16 dvd ge_size g \<and>
     ge_sb g + 80 \<le> ge_start g \<and> ge_start g + ge_size g < ge_sb g + 2 ^ 17 \<and> 16 dvd ge_start g"

definition obj_nat :: "slab_geom \<Rightarrow> nat \<Rightarrow> nat" where
  "obj_nat g i = ge_start g + i * ge_size g"

definition obj :: "slab_geom \<Rightarrow> nat \<Rightarrow> u64" where
  "obj g i = word_of_nat (obj_nat g i)"

text \<open>An object is used when it ends before the last byte of the slab.\<close>

definition ge_cap :: "slab_geom \<Rightarrow> nat" where
  "ge_cap g = (ge_sb g + 2 ^ 17 - ge_size g - ge_start g + ge_size g - 1) div ge_size g"

lemma less_cap_iff:
  assumes "geom_ok g"
  shows "i < ge_cap g \<longleftrightarrow> obj_nat g i + ge_size g < ge_sb g + 2 ^ 17"
proof -
  let ?d = "ge_sb g + 2 ^ 17 - ge_size g - ge_start g"
  have d: "0 < ?d" "0 < ge_size g" "?d + ge_size g + ge_start g = ge_sb g + 2 ^ 17"
    using assms by (auto simp: geom_ok_def)
  have "i < (?d + ge_size g - 1) div ge_size g \<longleftrightarrow> Suc i * ge_size g \<le> ?d + ge_size g - 1"
    using d(2) by (simp only: less_eq_Suc_le[of i] less_eq_div_iff_mult_less_eq)
  also have "\<dots> \<longleftrightarrow> i * ge_size g < ?d" using d by auto
  also have "\<dots> \<longleftrightarrow> obj_nat g i + ge_size g < ge_sb g + 2 ^ 17" unfolding obj_nat_def using d(3) by linarith
  finally show ?thesis unfolding ge_cap_def by simp
qed

lemma obj_below:
  assumes "geom_ok g" "i \<le> ge_cap g"
  shows "obj_nat g i < ge_sb g + 2 ^ 17"
proof (cases "i < ge_cap g")
  case False
  then have "0 < i \<longrightarrow> i - 1 < ge_cap g" using assms(2) by auto
  then show ?thesis using less_cap_iff[OF assms(1), of "i - 1"] assms(1)
    by (cases i) (auto simp: obj_nat_def geom_ok_def)
qed (use less_cap_iff[OF assms(1), of i] in simp)

lemma unat_obj:
  assumes "geom_ok g" "i \<le> ge_cap g"
  shows "unat (obj g i) = obj_nat g i"
  using obj_below[OF assms] assms(1) by (simp add: obj_def unat_of_nat geom_ok_def)

lemma obj_inj: "geom_ok g \<Longrightarrow> inj_on (obj g) {..ge_cap g}"
  by (rule inj_onI) (metis atMost_iff unat_obj obj_nat_def add_left_cancel geom_ok_def mult_right_cancel not_numeral_le_zero)

lemma even_and: "even (unat p) \<longleftrightarrow> (p :: u64) AND 1 = 0"
proof -
  have "unat (p AND 1) = unat p mod 2" by (simp add: and_one_eq unat_mod_distrib)
  then show ?thesis by (metis even_iff_mod_2_eq_zero unat_eq_0)
qed

lemma obj_even:
  assumes "geom_ok g" "i \<le> ge_cap g"
  shows "obj g i AND 1 = 0" "obj g i \<noteq> 0" "(obj g i + 1) AND 1 \<noteq> 0" "16 dvd unat (obj g i)"
proof -
  have "16 dvd obj_nat g i" using assms(1) by (auto simp: obj_nat_def geom_ok_def)
  then show d: "16 dvd unat (obj g i)" using unat_obj[OF assms] by simp
  then have "even (unat (obj g i))" by (rule dvd_trans[rotated]) simp
  then show e: "obj g i AND 1 = 0" by (simp add: even_and)
  have "0 < obj_nat g i" using assms(1) by (auto simp: obj_nat_def geom_ok_def)
  then show "obj g i \<noteq> 0" using unat_obj[OF assms] by auto
  have "unat (obj g i + 1) = unat (obj g i) + 1"
    using unat_obj[OF assms] obj_below[OF assms] assms(1) by (simp add: unat_word_ariths geom_ok_def)
  then show "(obj g i + 1) AND 1 \<noteq> 0" using \<open>even (unat (obj g i))\<close> even_and[of "obj g i + 1"] by simp
qed

section \<open>The invariant of a slab\<close>

text \<open>
  \<open>live\<close> are the objects in use. The first \<open>k\<close> objects have been handed out at least once; those of them that are
  not in use are linked from \<open>first\<close>, and the chain ends in 0 or in the mark for the unused rest.
\<close>

definition slab_inv :: "slab_geom \<Rightarrow> (u64 \<Rightarrow> u64) \<Rightarrow> sbheader \<Rightarrow> u64 set \<Rightarrow> bool" where
  "slab_inv g mem s live \<longleftrightarrow>
     unat (sb_size s) = ge_size g \<and> unat (sb_max s) = ge_sb g + 2 ^ 17 - ge_size g \<and> unat (sb_used s) = card live \<and>
     (\<exists>k os e. k \<le> ge_cap g \<and> free_chain mem (sb_first s) os e \<and> distinct os \<and> set os \<subseteq> obj g ` {..<k} \<and>
        live = obj g ` {..<k} - set os \<and> (if k = ge_cap g then e = 0 else e = obj g k + 1))"

lemma cap_small: "geom_ok g \<Longrightarrow> ge_cap g \<le> 2 ^ 13"
proof -
  assume g: "geom_ok g"
  have "\<not> 2 ^ 13 < ge_cap g"
  proof
    assume "2 ^ 13 < ge_cap g"
    then have "ge_start g + 2 ^ 13 * ge_size g + ge_size g < ge_sb g + 2 ^ 17"
      using less_cap_iff[OF g, of "2 ^ 13"] by (simp add: obj_nat_def)
    moreover have "2 ^ 13 * 16 \<le> 2 ^ 13 * ge_size g" using g by (simp add: geom_ok_def)
    ultimately show False using g by (simp add: geom_ok_def)
  qed
  then show ?thesis by simp
qed

lemma card_live: "k \<le> ge_cap g \<Longrightarrow> geom_ok g \<Longrightarrow> card (obj g ` {..<k} - X) \<le> 2 ^ 13"
proof -
  assume k: "k \<le> ge_cap g" "geom_ok g"
  have "card (obj g ` {..<k} - X) \<le> card (obj g ` {..<k})" by (intro card_mono) auto
  also have "\<dots> \<le> k" using card_image_le[of "{..<k}" "obj g"] by simp
  finally show ?thesis using k cap_small[OF k(2)] by simp
qed

lemma slab_invI:
  assumes "unat (sb_size s) = ge_size g" "unat (sb_max s) = ge_sb g + 2 ^ 17 - ge_size g" "unat (sb_used s) = card live"
    and "k \<le> ge_cap g" "free_chain mem (sb_first s) os e" "distinct os" "set os \<subseteq> obj g ` {..<k}"
    and "live = obj g ` {..<k} - set os" "if k = ge_cap g then e = 0 else e = obj g k + 1"
  shows "slab_inv g mem s live"
  unfolding slab_inv_def using assms by blast

lemma slab_invE:
  assumes "slab_inv g mem s live"
  obtains k os e where "unat (sb_size s) = ge_size g" "unat (sb_max s) = ge_sb g + 2 ^ 17 - ge_size g"
    "unat (sb_used s) = card live" "k \<le> ge_cap g" "free_chain mem (sb_first s) os e" "distinct os"
    "set os \<subseteq> obj g ` {..<k}" "live = obj g ` {..<k} - set os" "if k = ge_cap g then e = 0 else e = obj g k + 1"
  using assms unfolding slab_inv_def by blast

lemma obj_step:
  assumes "unat (z :: u32) = ge_size g"
  shows "obj g k + 1 + ucast z = obj g (Suc k) + 1"
proof -
  have "ucast z = (word_of_nat (ge_size g) :: u64)" by (simp add: of_nat_unat flip: assms)
  then show ?thesis by (simp add: obj_def obj_nat_def)
qed

lemma obj_succ: "geom_ok g \<Longrightarrow> i \<le> ge_cap g \<Longrightarrow> unat (obj g i + 1) = obj_nat g i + 1"
  using unat_obj[of g i] obj_below[of g i] by (simp add: unat_word_ariths geom_ok_def)

text \<open>Handing out the first free object.\<close>

lemma slab_take_inv:
  assumes g: "geom_ok g" and inv: "slab_inv g mem s live" and nz: "sb_first s \<noteq> 0"
    and take: "slab_take mem s = (p, s')"
  shows "p \<notin> live \<and> slab_inv g mem s' (insert p live)"
proof -
  obtain k os e where s: "unat (sb_size s) = ge_size g" "unat (sb_max s) = ge_sb g + 2 ^ 17 - ge_size g"
      "unat (sb_used s) = card live"
    and k: "k \<le> ge_cap g" "free_chain mem (sb_first s) os e" "distinct os" "set os \<subseteq> obj g ` {..<k}"
      "live = obj g ` {..<k} - set os" "if k = ge_cap g then e = 0 else e = obj g k + 1"
    using inv by (rule slab_invE)
  have used: "unat (sb_used s + 1) = card (insert p live)" if "p \<notin> live"
    using that card_live[OF k(1) g, of "set os"] s(3) k(5) by (simp add: unat_word_ariths)
  show ?thesis
  proof (cases os)
    case (Cons q qs)
    with k(2) have q: "q = sb_first s" "sb_first s AND 1 = 0" "free_chain mem (mem q) qs e"
      by (auto elim: free_chain_Cons)
    then have t: "p = q" "s' = s\<lparr>sb_first := mem q, sb_used := sb_used s + 1\<rparr>"
      using take by (auto simp: slab_take_def Let_def)
    have l: "insert p live = obj g ` {..<k} - set qs" "p \<notin> live" using k(3,4,5) Cons t by auto
    have "slab_inv g mem s' (insert p live)"
      by (rule slab_invI[where k = k and os = qs and e = e]) (use k Cons q t l s used[OF l(2)] in simp_all)
    with l(2) show ?thesis by simp
  next
    case Nil
    with k(2) have e: "e = sb_first s" by (auto elim: free_chain_Nil)
    with k(1,6) nz have kc: "k < ge_cap g" and f: "sb_first s = obj g k + 1" by (auto split: if_splits)
    have kc': "k \<le> ge_cap g" "Suc k \<le> ge_cap g" using kc by simp_all
    let ?n = "if Suc k = ge_cap g then 0 else obj g (Suc k) + 1"
    have "obj g (Suc k) + 1 > sb_max s \<longleftrightarrow> Suc k = ge_cap g"
      using less_cap_iff[OF g, of "Suc k"] kc'(2) g
      by (auto simp: word_less_nat_alt obj_succ[OF g kc'(2)] s(2) geom_ok_def)
    then have t: "p = obj g k" "s' = s\<lparr>sb_used := sb_used s + 1, sb_first := ?n\<rparr>"
      using take f obj_even(3)[OF g kc'(1)] by (auto simp: slab_take_def Let_def obj_step[OF s(1)])
    have l: "p \<notin> live" using inj_onD[OF obj_inj[OF g], of k] kc k(5) t by fastforce
    have c: "free_chain mem ?n [] ?n" by (rule free_chain.Last) (use obj_even(3)[OF g kc'(2)] in simp)
    have "slab_inv g mem s' (insert p live)"
      by (rule slab_invI[where k = "Suc k" and os = "[]" and e = ?n])
        (use k Nil t c kc'(2) s used[OF l] in \<open>simp_all add: lessThan_Suc\<close>)
    with l show ?thesis by simp
  qed
qed

text \<open>Giving an object back, and writes of the program to the objects it holds.\<close>

lemma live_obj:
  assumes "slab_inv g mem s live" "p \<in> live"
  obtains i where "i < ge_cap g" "p = obj g i"
proof -
  obtain k os where "k \<le> ge_cap g" "live = obj g ` {..<k} - set os" using assms(1) by (rule slab_invE)
  with assms(2) show thesis by (auto intro!: that)
qed

lemma slab_give_inv:
  assumes g: "geom_ok g" and inv: "slab_inv g mem s live" and p: "p \<in> live"
    and give: "slab_give p mem s = (mem', s')"
  shows "slab_inv g mem' s' (live - {p})"
proof -
  obtain k os e where s: "unat (sb_size s) = ge_size g" "unat (sb_max s) = ge_sb g + 2 ^ 17 - ge_size g"
      "unat (sb_used s) = card live"
    and k: "k \<le> ge_cap g" "free_chain mem (sb_first s) os e" "distinct os" "set os \<subseteq> obj g ` {..<k}"
      "live = obj g ` {..<k} - set os" "if k = ge_cap g then e = 0 else e = obj g k + 1"
    using inv by (rule slab_invE)
  obtain i where i: "i < ge_cap g" "p = obj g i" using inv p by (rule live_obj)
  have fin: "finite live" using k(5) by simp
  then have "0 < card live" using p card_gt_0_iff[of live] by auto
  then have "unat (sb_used s - 1) = card live - 1" using s(3) unat_minus_one[of "sb_used s"] by fastforce
  then have used: "unat (sb_used s - 1) = card (live - {p})" using p fin by simp
  have "p \<notin> set os" using p k(5) by simp
  then have c: "free_chain (mem(p := sb_first s)) p (p # os) e"
    using obj_even(1,2)[OF g, of i] i free_chain_update[OF k(2)] by (intro free_chain.Link) simp_all
  show ?thesis
    by (rule slab_invI[where k = k and os = "p # os" and e = e])
      (use give k s used c p in \<open>auto simp: slab_give_def Let_def\<close>)
qed

lemma slab_write_inv:
  assumes "slab_inv g mem s live" "p \<in> live"
  shows "slab_inv g (mem(p := v)) s live"
  using assms by (elim slab_invE, intro slab_invI) (auto intro!: free_chain_update)

section \<open>A fresh slab\<close>

lemma sltotal_nat:
  assumes "0 < i" "i \<le> 32"
  shows "unat (sltotal i) = 130992 div (16 * i) * (16 * i)"
proof -
  have z: "unat (word_of_nat i * 16 :: u32) = 16 * i" using assms by (simp add: unat_word_ariths unat_of_nat)
  then have z': "unat (ucast (word_of_nat i * 16 :: u32) :: u64) = 16 * i" using assms by (simp add: unat_ucast_mod)
  have d: "unat ((SLABSIZE - 80) div ucast (word_of_nat i * 16 :: u32)) = 130992 div (16 * i)"
    using z' by (simp add: unat_div_distrib SLABSIZE_def)
  define q :: nat where "q = 130992 div (16 * i)"
  have q: "q \<le> 130992" "q * (16 * i) \<le> 130992"
    unfolding q_def by (rule div_le_dividend, rule div_times_less_eq_dividend)
  have "unat (ucast ((SLABSIZE - 80) div ucast (word_of_nat i * 16 :: u32)) :: u32) = q"
    unfolding unat_ucast_mod d q_def[symmetric] using q(1) by simp
  then show ?thesis unfolding q_def[symmetric] using assms(1) z q(2)
    by (simp add: sltotal_def Let_def unat_word_ariths(2)[of _ "word_of_nat i * 16"])
qed

lemma sltotal_bounds:
  assumes "0 < i" "i \<le> 32"
  shows "unat (sltotal i) \<le> 130992" "130992 < unat (sltotal i) + 16 * i"
proof -
  show "unat (sltotal i) \<le> 130992" using sltotal_nat[OF assms] by simp
  have "(130992 :: nat) mod (16 * i) < 16 * i" using assms by simp
  then show "130992 < unat (sltotal i) + 16 * i"
    using sltotal_nat[OF assms] div_mult_mod_eq[of "130992 :: nat" "16 * i"] by linarith
qed

text \<open>The place of the first object: behind the header, aligned, with room for at least two objects.\<close>

lemma slab_offset_bounds:
  assumes i: "0 < i" "i \<le> 32" and sb: "unat sb + 2 ^ 17 < 2 ^ 64" "16 dvd unat sb"
  shows "\<exists>o'. slab_offset sb (of_nat i * 16) (sltotal i) = sb + word_of_nat o' + 1 \<and> 80 \<le> o' \<and> o' + 16 * i < 2 ^ 17 \<and> 16 dvd o'"
proof -
  have z: "unat (word_of_nat i * 16 :: u32) = 16 * i" using i by (simp add: unat_word_ariths unat_of_nat)
  show ?thesis
  proof (cases "word_of_nat i * 16 = (64 :: u32) \<or> word_of_nat i * 16 = (256 :: u32)")
    case True
    then show ?thesis using i by (intro exI[of _ 128]) (auto simp: slab_offset_def)
  next
    case False
    have "unat (sb + 80) = unat sb + 80" using sb by (simp add: unat_word_ariths)
    then have "16 dvd unat (sb + 80)" using sb(2) by simp
    then have "unat ((sb + 80) AND NOT (mask 4)) = unat (sb + 80)" by (simp add: unat_and_not_mask[of _ 4])
    then have "(sb + 80) AND NOT (mask 4) = sb + 80" by (simp only: word_unat_eq_iff)
    then have al: "(- 16) AND (sb + 80) = sb + 80" using neg_pow_mask[of 4] by (simp add: and.commute)
    have reg: "sb + SLABSIZE - (sb + 80) = SLABSIZE - 80" by simp
    let ?t = "ucast (sltotal i) :: u64"
    have t: "unat ?t = unat (sltotal i)" using unsigned_less[of "sltotal i", where ?'a = nat] by (simp add: unat_ucast_mod)
    have le: "?t \<le> SLABSIZE - 80" using sltotal_bounds(1)[OF i] t by (simp add: word_le_nat_alt SLABSIZE_def)
    have sl: "unat (SLABSIZE - 80 - ?t) = 130992 - unat (sltotal i)"
      using le t by (simp add: unat_sub SLABSIZE_def)
    then have "SLABSIZE - 80 - ?t < 2 ^ 32" by (simp add: word_less_nat_alt)
    then obtain k where k: "rnd_offset (sb + 80) (SLABSIZE - 80) ?t = sb + 80 + word_of_nat (16 * k)"
        "16 * k \<le> 130992 - unat (sltotal i)"
      using rnd_offset_bounds[OF le] sl by metis
    have "16 * k < 16 * i" using k(2) sltotal_bounds[OF i] by linarith
    then show ?thesis using False k(1) i
      by (intro exI[of _ "80 + 16 * k"]) (auto simp: slab_offset_def al reg algebra_simps)
  qed
qed

lemma slab_header_inv:
  assumes i: "0 < i" "i \<le> 32" and sb: "unat sb + 2 ^ 17 < 2 ^ 64" "16 dvd unat sb"
  obtains g where "geom_ok g" "ge_sb g = unat sb" "ge_size g = 16 * i"
    "\<And>mem owner. slab_inv g mem (slab_header owner sb (of_nat i * 16) (sltotal i)) {}"
proof -
  obtain d where d: "slab_offset sb (of_nat i * 16) (sltotal i) = sb + word_of_nat d + 1" "80 \<le> d"
      "d + 16 * i < 2 ^ 17" "16 dvd d"
    using slab_offset_bounds[OF assms] by blast
  define g where "g = \<lparr>ge_sb = unat sb, ge_start = unat sb + d, ge_size = 16 * i\<rparr>"
  have g: "geom_ok g" using d i sb by (auto simp: g_def geom_ok_def)
  have first: "slab_offset sb (of_nat i * 16) (sltotal i) = obj g 0 + 1" by (simp add: d(1) g_def obj_def obj_nat_def)
  have c: "0 < ge_cap g" using less_cap_iff[OF g, of 0] d(3) by (simp add: g_def obj_nat_def)
  have z: "unat (word_of_nat i * 16 :: u32) = 16 * i" using i by (simp add: unat_word_ariths unat_of_nat)
  then have mx: "unat (sb + SLABSIZE - ucast (word_of_nat i * 16 :: u32)) = unat sb + 2 ^ 17 - 16 * i"
    using sb i by (simp add: unat_sub_if' unat_word_ariths unat_ucast_mod SLABSIZE_def)
  have "slab_inv g mem (slab_header owner sb (of_nat i * 16) (sltotal i)) {}" for mem owner
    by (rule slab_invI[where k = 0 and os = "[]" and e = "obj g 0 + 1"])
      (use z mx c first obj_even(3)[OF g, of 0] in \<open>auto simp: slab_header_def g_def intro: free_chain.Last\<close>)
  with g show thesis by (intro that[of g]) (simp_all add: g_def)
qed

section \<open>Use of a slab\<close>

text \<open>
  A slab from its creation on, for any sequence of allocations, frees of objects in use and writes of the
  program to the objects it holds.
\<close>

inductive slab_run :: "u64 \<Rightarrow> nat \<Rightarrow> (u64 \<Rightarrow> u64) \<Rightarrow> sbheader \<Rightarrow> u64 set \<Rightarrow> bool" for sb i where
  Create: "slab_run sb i mem (slab_header owner sb (of_nat i * 16) (sltotal i)) {}"
| Take: "slab_run sb i mem s live \<Longrightarrow> sb_first s \<noteq> 0 \<Longrightarrow> slab_take mem s = (p, s') \<Longrightarrow> slab_run sb i mem s' (insert p live)"
| Give: "slab_run sb i mem s live \<Longrightarrow> p \<in> live \<Longrightarrow> slab_give p mem s = (mem', s') \<Longrightarrow> slab_run sb i mem' s' (live - {p})"
| Write: "slab_run sb i mem s live \<Longrightarrow> p \<in> live \<Longrightarrow> slab_run sb i (mem(p := v)) s live"

lemma slab_run_inv:
  assumes "slab_run sb i mem s live" "0 < i" "i \<le> 32" "unat sb + 2 ^ 17 < 2 ^ 64" "16 dvd unat sb"
  obtains g where "geom_ok g" "ge_sb g = unat sb" "ge_size g = 16 * i" "slab_inv g mem s live"
proof -
  obtain g where g: "geom_ok g" "ge_sb g = unat sb" "ge_size g = 16 * i"
    "\<And>mem owner. slab_inv g mem (slab_header owner sb (of_nat i * 16) (sltotal i)) {}"
    using slab_header_inv[OF assms(2-5)] by blast
  have "slab_inv g mem s live" using assms(1)
    by (induction rule: slab_run.induct)
      (blast intro: g(4) slab_take_inv[OF g(1), THEN conjunct2] slab_give_inv[OF g(1)] slab_write_inv)+
  with g show thesis by (intro that)
qed

lemma live_objects_apart:
  assumes g: "geom_ok g" and inv: "slab_inv g mem s live" and "p \<in> live" "q \<in> live" "p \<noteq> q"
  shows "unat p + ge_size g \<le> unat q \<or> unat q + ge_size g \<le> unat p"
proof -
  obtain a where a: "a < ge_cap g" "p = obj g a" using inv assms(3) by (rule live_obj)
  obtain b where b: "b < ge_cap g" "q = obj g b" using inv assms(4) by (rule live_obj)
  have "unat p = ge_start g + a * ge_size g" "unat q = ge_start g + b * ge_size g"
    using a b unat_obj[OF g, of a] unat_obj[OF g, of b] by (simp_all add: obj_nat_def)
  moreover have "Suc a * ge_size g \<le> b * ge_size g \<or> Suc b * ge_size g \<le> a * ge_size g"
    using a b assms(5) by (metis Suc_leI linorder_neqE_nat mult_le_mono1)
  ultimately show ?thesis by auto
qed

lemma live_object_inside:
  assumes g: "geom_ok g" and inv: "slab_inv g mem s live" and "p \<in> live"
  shows "ge_sb g + 80 \<le> unat p" "unat p + ge_size g < ge_sb g + 2 ^ 17" "16 dvd unat p"
proof -
  obtain a where a: "a < ge_cap g" "p = obj g a" using inv assms(3) by (rule live_obj)
  then show "16 dvd unat p" using obj_even(4)[OF g] by simp
  have "unat p = obj_nat g a" using a unat_obj[OF g, of a] by simp
  then show "ge_sb g + 80 \<le> unat p" "unat p + ge_size g < ge_sb g + 2 ^ 17"
    using a(1) less_cap_iff[OF g, of a] g by (auto simp: obj_nat_def geom_ok_def)
qed

text \<open>
  \<^bold>\<open>C37.\<close> However a slab is used after its creation, the objects in use are aligned, lie behind the header and
  inside the slab and do not overlap, the header counts exactly them, and the next object handed out is not one of them.
\<close>

theorem slab_objects_disjoint:
  assumes "slab_run sb i mem s live" "0 < i" "i \<le> 32" "unat sb + 2 ^ 17 < 2 ^ 64" "16 dvd unat sb"
  shows "(\<forall>p\<in>live. unat sb + 80 \<le> unat p \<and> unat p + 16 * i < unat sb + 2 ^ 17 \<and> 16 dvd unat p) \<and>
    (\<forall>p\<in>live. \<forall>q\<in>live. p \<noteq> q \<longrightarrow> unat p + 16 * i \<le> unat q \<or> unat q + 16 * i \<le> unat p) \<and>
    unat (sb_used s) = card live \<and> (sb_first s \<noteq> 0 \<longrightarrow> fst (slab_take mem s) \<notin> live)"
proof -
  obtain g where g: "geom_ok g" "ge_sb g = unat sb" "ge_size g = 16 * i" "slab_inv g mem s live"
    using slab_run_inv[OF assms] by blast
  have "unat (sb_used s) = card live" using g(4) by (rule slab_invE)
  moreover have "sb_first s \<noteq> 0 \<longrightarrow> fst (slab_take mem s) \<notin> live"
    using slab_take_inv[OF g(1,4)] by (metis prod.collapse)
  ultimately show ?thesis
    using live_object_inside[OF g(1,4)] live_objects_apart[OF g(1,4)] g(2,3) by simp
qed

definition sample_slab :: "u64 \<Rightarrow> u32 \<Rightarrow> sbheader" where
  "sample_slab f n = \<lparr>sb_tail = 7, sb_max = 262080, sb_size = 64, sb_first = f, sb_used = n\<rparr>"

lemma sample_slab_run: "slab_run 131072 4 ((\<lambda>_. 0)(131200 := 131329)) (sample_slab 131200 1) {131264}"
proof -
  let ?m = "(\<lambda>_. 0) :: u64 \<Rightarrow> u64"
  have "slab_header 7 131072 (of_nat 4 * 16) (sltotal 4) = sample_slab 131201 0"
    by (simp add: slab_header_def slab_offset_def sample_slab_def SLABSIZE_def)
  then have "slab_run 131072 4 ?m (sample_slab 131201 0) {}" using slab_run.Create[of 131072 4 ?m 7] by simp
  then have "slab_run 131072 4 ?m (sample_slab 131265 1) {131200}"
    by (rule slab_run.Take) (simp_all add: slab_take_def sample_slab_def)
  then have "slab_run 131072 4 ?m (sample_slab 131329 2) (insert 131264 {131200})"
    by (rule slab_run.Take) (simp_all add: slab_take_def sample_slab_def)
  then have "slab_run 131072 4 (?m(131200 := 131329)) (sample_slab 131200 1) (insert 131264 {131200} - {131200})"
    by (rule slab_run.Give) (simp_all add: slab_give_def sample_slab_def)
  moreover have "insert 131264 {131200} - {131200} = {131264 :: u64}" by auto
  ultimately show ?thesis by simp
qed

theorem slab_objects_disjoint_witness:
  "fst (slab_take ((\<lambda>_. 0)(131200 := 131329)) (sample_slab 131200 1)) \<notin> {131264} \<and>
   unat (131264 :: u64) + 16 * 4 < unat (131072 :: u64) + 2 ^ 17"
  using slab_objects_disjoint[OF sample_slab_run] by (simp add: sample_slab_def)

section \<open>Fresh chunks\<close>

lemma and_slab_mask: "unat (x AND (SLABSIZE - 1)) = unat x mod 2 ^ 17"
proof -
  have m: "SLABSIZE - 1 = mask 17" by (simp add: SLABSIZE_def mask_eq_decr_exp)
  have "unat (take_bit 17 x) = take_bit 17 (unat x)" by (rule unsigned_take_bit_eq)
  then show ?thesis unfolding m by (simp only: take_bit_eq_mask[symmetric] take_bit_eq_mod[of 17 "unat x"])
qed

lemma chunk_amount_nat:
  "unat (chunk_amount e) = 65 * 2 ^ 17 + (2 ^ 17 - unat e mod 2 ^ 17) mod 2 ^ 17"
proof -
  have r: "unat e mod 2 ^ 17 < 2 ^ 17" by simp
  have "unat (SLABSIZE - (e AND (SLABSIZE - 1))) = 2 ^ 17 - unat e mod 2 ^ 17"
    using r and_slab_mask[of e] by (subst unat_sub) (simp_all add: word_le_nat_alt SLABSIZE_def)
  moreover have "e AND (SLABSIZE - 1) = 0 \<longleftrightarrow> unat e mod 2 ^ 17 = 0" by (metis and_slab_mask unat_eq_0)
  ultimately show ?thesis using r
    by (auto simp: chunk_amount_def unat_word_ariths SLABSIZE_def)
qed

text \<open>The head of the chunk and all blocks behind it lie inside the memory that was obtained, on slab boundaries.\<close>

lemma align_chunk_inside:
  assumes fit: "unat fsb + unat (chunk_amount e) < 2 ^ 64" and al: "align_chunk (chunk_amount e) fsb = (head, n)"
  shows "2 ^ 17 dvd unat head" "unat fsb \<le> unat head"
    "unat head + (n + 1) * 2 ^ 17 \<le> unat fsb + unat (chunk_amount e)" "63 \<le> n"
proof -
  define x where "x = (2 ^ 17 - unat e mod 2 ^ 17) mod (2 ^ 17 :: nat)"
  have am: "unat (chunk_amount e) = 65 * 2 ^ 17 + x" using chunk_amount_nat[of e] by (simp add: x_def)
  have m: "(SLABSIZE - 1) AND fsb = 0 \<longleftrightarrow> unat fsb mod 2 ^ 17 = 0" by (metis and.commute and_slab_mask unat_eq_0)
  have sz: "unat SLABSIZE = 2 ^ 17" by (simp add: SLABSIZE_def)
  have "2 ^ 17 dvd unat head \<and> unat fsb \<le> unat head \<and> 63 \<le> n \<and> unat head + (n + 1) * 2 ^ 17 \<le> unat fsb + (65 * 2 ^ 17 + x)"
  proof (cases "unat fsb mod 2 ^ 17 = 0")
    case True
    then show ?thesis using al m by (auto simp: align_chunk_def)
  next
    case False
    have nw: "unat (fsb + (SLABSIZE - 1)) = unat fsb + (2 ^ 17 - 1)"
      using fit am by (simp add: unat_word_ariths SLABSIZE_def)
    have h: "head = slab_start (fsb + (SLABSIZE - 1))"
      and n: "n = (if head - fsb > chunk_amount e - SLABSIZE * 65 then 63 else 64)"
      using al m False by (auto simp: align_chunk_def Let_def)
    have hn: "unat head = (unat fsb + (2 ^ 17 - 1)) div 2 ^ 17 * 2 ^ 17" unfolding h slab_start_nat nw ..
    have "(unat fsb + (2 ^ 17 - 1)) mod 2 ^ 17 < 2 ^ 17" by simp
    then have le: "unat fsb \<le> unat head" "unat head \<le> unat fsb + (2 ^ 17 - 1)"
      using hn div_mult_mod_eq[of "unat fsb + (2 ^ 17 - 1)" "2 ^ 17"] by simp_all
    have d: "unat (head - fsb) = unat head - unat fsb" using le by (simp add: unat_sub word_le_nat_alt)
    have "SLABSIZE * 65 = 8519680" by (simp add: SLABSIZE_def)
    then have a: "unat (chunk_amount e - SLABSIZE * 65) = x" using am by (simp add: unat_sub word_le_nat_alt)
    show ?thesis using le hn n by (auto simp: word_less_nat_alt d a)
  qed
  then show "2 ^ 17 dvd unat head" "unat fsb \<le> unat head" "63 \<le> n"
    "unat head + (n + 1) * 2 ^ 17 \<le> unat fsb + unat (chunk_amount e)" by (simp_all only: am)
qed

section \<open>Places where the code differs from its comments\<close>

text \<open>
  A slab whose last object is freed while it is the only one of the \<open>full\<close> list stays there: it holds no object and
  is on no list from which objects are taken. The comment speaks of the partial list only.
\<close>

lemma slab_free_stranded:
  assumes "sh_block h (slab_start p) = Slab s" "sb_tail s = sh_tail h" "sb_used s = 1" "sh_full h = [slab_start p]"
  obtains h' s' where "slab_free trylock p h = Inr h'" "sh_full h' = [slab_start p]" "sh_slab h' = sh_slab h"
    "sh_block h' (slab_start p) = Slab s'" "sb_used s' = 0" "sb_first s' = p"
proof -
  let ?s = "s\<lparr>sb_first := p, sb_used := 0\<rparr>"
  have "slab_free trylock p h = Inr (h\<lparr>sh_mem := (sh_mem h)(p := sb_first s),
      sh_block := (sh_block h)(slab_start p := Slab ?s)\<rparr>)"
    using assms by (simp add: slab_free_def slab_give_def Let_def)
  then show thesis by (rule that[where s' = ?s]) (use assms(4) in simp_all)
qed

text \<open>
  The hash is reduced only when it is greater than the number of lists. When it equals that number and every
  lock is taken, the chunk is put on a list behind the last one.
\<close>

lemma slab_free_chunk_out_of_range:
  assumes "sh_block h fsb = Chunk c" "sh_percpu_hash h = length (sh_pc_slab h)" "\<And>i. \<not> trylock i"
  shows "slab_free_chunk trylock fsb h = Inl (Undefined ''pc_slab index'')"
proof -
  have "find trylock (scan_order h) = None" using assms(3) by (simp add: find_None_iff)
  then show ?thesis using assms(1,2) by (simp add: slab_free_chunk_def clip_hash_def Let_def err_simps)
qed

text \<open>
  The mark for the unused rest is one more than the address it stands for, so an object that ends exactly with the
  slab is never handed out: after the last but one object of 64 bytes the slab counts as full.
\<close>

lemma slab_last_object_unused:
  assumes "sb_size s = 64" "sb_max s = 262080" "sb_first s = 262080 - 64 + 1"
  shows "slab_take mem s = (262016, s\<lparr>sb_used := sb_used s + 1, sb_first := 0\<rparr>)"
  using assms by (simp add: slab_take_def)

end
