(* ===== verification/LA_Queue.thy ===== *)
theory LA_Queue
  imports LA_Sizes
begin

text \<open>
  Memory that another thread owns (\<^verbatim>\<open>prepend_queue\<close>, \<^verbatim>\<open>free_nomem\<close>, \<^verbatim>\<open>scan_queue\<close> and \<^verbatim>\<open>reap_dead\<close> of
  \<^verbatim>\<open>src/others/tmi/src/ll_alloc.c\<close>): a freed object is put on the queue of its owner with one exchange of the tail
  pointer, the owner frees what it finds on the queue, and the data of a dead thread is released once no thread
  announces a use of it in its hazard pointer. The steps of the threads interleave in every possible order.
\<close>

section \<open>The queue\<close>

text \<open>
  \<open>QClear p\<close>: before \<^verbatim>\<open>p->next = NULL\<close>; \<open>QSwap p\<close>: before the exchange; \<open>QLink p a\<close>: before \<^verbatim>\<open>tail->next = p\<close>
  where \<open>a\<close> is the old tail.
\<close>

datatype queue_pc = QIdle | QClear u64 | QSwap u64 | QLink u64 u64

text \<open>
  \<open>mq_scan\<close> is the element at which the owner's \<^verbatim>\<open>scan_queue\<close> stands. \<open>mq_freed\<close> and \<open>mq_hist\<close> record, for the
  theorems only, what the owner has freed and what was put on the queue.
\<close>

record mqueue =
  mq_next :: "u64 \<Rightarrow> u64"
  mq_head :: u64
  mq_tail :: u64
  mq_pc :: "nat \<Rightarrow> queue_pc"
  mq_scan :: "u64 option"
  mq_freed :: "u64 list"
  mq_hist :: "u64 list"

definition queue_init :: "(u64 \<Rightarrow> u64) \<Rightarrow> u64 \<Rightarrow> mqueue" where
  "queue_init mem d = \<lparr>mq_next = mem(d := 0), mq_head = d, mq_tail = d, mq_pc = (\<lambda>_. QIdle), mq_scan = None,
     mq_freed = [], mq_hist = [d]\<rparr>"

definition prepend_step :: "nat \<Rightarrow> mqueue \<Rightarrow> mqueue" where
  "prepend_step t s = (case mq_pc s t of
       QIdle \<Rightarrow> s
     | QClear p \<Rightarrow> s\<lparr>mq_next := (mq_next s)(p := 0), mq_pc := (mq_pc s)(t := QSwap p)\<rparr>
     | QSwap p \<Rightarrow> s\<lparr>mq_tail := p, mq_pc := (mq_pc s)(t := QLink p (mq_tail s)), mq_hist := mq_hist s @ [p]\<rparr>
     | QLink p a \<Rightarrow> s\<lparr>mq_next := (mq_next s)(a := p), mq_pc := (mq_pc s)(t := QIdle)\<rparr>)"

text \<open>One round of the loop of \<^verbatim>\<open>scan_queue\<close>: the last element is kept and becomes the head.\<close>

definition scan_step :: "mqueue \<Rightarrow> mqueue" where
  "scan_step s = (case mq_scan s of
       None \<Rightarrow> s\<lparr>mq_scan := Some (mq_head s)\<rparr>
     | Some q \<Rightarrow> let qn = mq_next s q
         in if qn \<noteq> 0 then s\<lparr>mq_scan := Some qn, mq_freed := mq_freed s @ [q]\<rparr>
            else s\<lparr>mq_scan := None, mq_head := q\<rparr>)"

definition queued :: "mqueue \<Rightarrow> u64 list" where
  "queued s = drop (length (mq_freed s)) (mq_hist s)"

definition held :: "mqueue \<Rightarrow> u64 \<Rightarrow> bool" where
  "held s p \<longleftrightarrow> (\<exists>t. mq_pc s t = QClear p \<or> mq_pc s t = QSwap p)"

text \<open>
  A thread frees only an object that is not being freed already, and the program writes only to objects that
  are neither queued nor being freed.
\<close>

inductive mq_reach :: "mqueue \<Rightarrow> bool" where
  Init: "d \<noteq> 0 \<Longrightarrow> mq_reach (queue_init mem d)"
| Begin: "mq_reach s \<Longrightarrow> mq_pc s t = QIdle \<Longrightarrow> p \<noteq> 0 \<Longrightarrow> p \<notin> set (queued s) \<Longrightarrow> \<not> held s p \<Longrightarrow>
    mq_reach (s\<lparr>mq_pc := (mq_pc s)(t := QClear p)\<rparr>)"
| Prepend: "mq_reach s \<Longrightarrow> mq_reach (prepend_step t s)"
| Scan: "mq_reach s \<Longrightarrow> mq_reach (scan_step s)"
| Write: "mq_reach s \<Longrightarrow> p \<notin> set (queued s) \<Longrightarrow> \<not> held s p \<Longrightarrow> mq_reach (s\<lparr>mq_next := (mq_next s)(p := v)\<rparr>)"

section \<open>The queue is a list\<close>

definition pairs :: "'a list \<Rightarrow> ('a \<times> 'a) set" where
  "pairs xs = set (zip xs (tl xs))"

lemma pairs_Cons: "pairs (x # y # ys) = insert (x, y) (pairs (y # ys))" and pairs_single: "pairs [x] = {}"
  by (simp_all add: pairs_def)

lemma pairs_append: "xs \<noteq> [] \<Longrightarrow> pairs (xs @ [p]) = insert (last xs, p) (pairs xs)"
proof (induction xs)
  case (Cons x xs)
  then show ?case by (cases xs) (auto simp: pairs_Cons pairs_single)
qed simp

lemma pairs_mem: "(a, b) \<in> pairs xs \<Longrightarrow> a \<in> set xs \<and> b \<in> set xs"
  by (auto simp: pairs_def dest: set_zip_leftD set_zip_rightD intro: list.set_sel)

lemma pairs_unique: "distinct xs \<Longrightarrow> (a, b) \<in> pairs xs \<Longrightarrow> (a, c) \<in> pairs xs \<Longrightarrow> b = c"
proof (induction xs)
  case (Cons x xs)
  then show ?case by (cases xs) (auto simp: pairs_Cons pairs_single dest: pairs_mem)
qed (simp add: pairs_def)

lemma pairs_not_last: "distinct xs \<Longrightarrow> (a, b) \<in> pairs xs \<Longrightarrow> a \<noteq> last xs"
proof (induction xs)
  case (Cons x xs)
  then show ?case by (cases xs) (auto simp: pairs_Cons pairs_single dest: pairs_mem split: if_splits)
qed (simp add: pairs_def)

text \<open>
  \<open>xs\<close> are the elements on the queue in the order of the exchanges. A link that is missing is about to be
  written by the thread that did the exchange.
\<close>

definition links_ok :: "(u64 \<Rightarrow> u64) \<Rightarrow> (nat \<Rightarrow> queue_pc) \<Rightarrow> u64 list \<Rightarrow> bool" where
  "links_ok nx pc xs \<longleftrightarrow>
     (\<forall>(a, b) \<in> pairs xs. nx a = b \<or> (\<exists>t. pc t = QLink b a)) \<and>
     (\<forall>t p a. pc t = QLink p a \<longrightarrow> (a, p) \<in> pairs xs \<and> nx a = 0) \<and>
     (\<forall>t t' p a. pc t = QLink p a \<longrightarrow> pc t' = QLink p a \<longrightarrow> t = t')"

definition held_ok :: "(u64 \<Rightarrow> u64) \<Rightarrow> (nat \<Rightarrow> queue_pc) \<Rightarrow> u64 list \<Rightarrow> bool" where
  "held_ok nx pc xs \<longleftrightarrow>
     (\<forall>t p. pc t \<in> {QClear p, QSwap p} \<longrightarrow> p \<noteq> 0 \<and> p \<notin> set xs) \<and>
     (\<forall>t p. pc t = QSwap p \<longrightarrow> nx p = 0) \<and>
     (\<forall>t t' p. pc t \<in> {QClear p, QSwap p} \<longrightarrow> pc t' \<in> {QClear p, QSwap p} \<longrightarrow> t = t')"

definition mq_inv :: "mqueue \<Rightarrow> u64 list \<Rightarrow> bool" where
  "mq_inv s xs \<longleftrightarrow>
     mq_hist s = mq_freed s @ xs \<and> xs \<noteq> [] \<and> distinct xs \<and> 0 \<notin> set xs \<and> mq_tail s = last xs \<and> mq_next s (last xs) = 0 \<and>
     (mq_scan s = None \<longrightarrow> mq_head s = hd xs) \<and> (\<forall>q. mq_scan s = Some q \<longrightarrow> q = hd xs) \<and>
     links_ok (mq_next s) (mq_pc s) xs \<and> held_ok (mq_next s) (mq_pc s) xs"

lemma mq_inv_queued: "mq_inv s xs \<Longrightarrow> queued s = xs"
  by (simp add: mq_inv_def queued_def)

lemma links_okD:
  assumes "links_ok nx pc xs"
  shows "(a, b) \<in> pairs xs \<Longrightarrow> nx a = b \<or> (\<exists>t. pc t = QLink b a)"
    and "pc t = QLink p a \<Longrightarrow> (a, p) \<in> pairs xs" and "pc t = QLink p a \<Longrightarrow> nx a = 0"
    and "pc t = QLink p a \<Longrightarrow> pc t' = QLink p a \<Longrightarrow> t = t'"
  using assms unfolding links_ok_def by fast+

lemma links_okI:
  assumes "\<And>a b. (a, b) \<in> pairs xs \<Longrightarrow> nx a = b \<or> (\<exists>t. pc t = QLink b a)"
    and "\<And>t p a. pc t = QLink p a \<Longrightarrow> (a, p) \<in> pairs xs \<and> nx a = 0"
    and "\<And>t t' p a. pc t = QLink p a \<Longrightarrow> pc t' = QLink p a \<Longrightarrow> t = t'"
  shows "links_ok nx pc xs"
  unfolding links_ok_def using assms by blast

lemma links_write:
  assumes "links_ok nx pc xs" "p \<notin> set xs"
  shows "links_ok (nx(p := v)) pc xs"
proof (rule links_okI)
  fix a b assume "(a, b) \<in> pairs xs"
  then show "(nx(p := v)) a = b \<or> (\<exists>t. pc t = QLink b a)"
    using links_okD(1)[OF assms(1)] pairs_mem[of a b] assms(2) by auto
next
  fix t q a assume "pc t = QLink q a"
  then show "(a, q) \<in> pairs xs \<and> (nx(p := v)) a = 0"
    using links_okD(2,3)[OF assms(1)] pairs_mem[of a q] assms(2) by auto
qed (rule links_okD(4)[OF assms(1)])

text \<open>The thread moves between program points that write no link.\<close>

lemma links_pc:
  assumes "links_ok nx pc xs" "\<And>b a. pc t \<noteq> QLink b a" "\<And>b a. c \<noteq> QLink b a"
  shows "links_ok nx (pc(t := c)) xs"
proof (rule links_okI)
  fix a b assume "(a, b) \<in> pairs xs"
  then show "nx a = b \<or> (\<exists>u. (pc(t := c)) u = QLink b a)"
    using links_okD(1)[OF assms(1), of a b] assms(2) by (metis fun_upd_other)
qed (use assms(2,3) links_okD(2-4)[OF assms(1)] in \<open>auto split: if_splits\<close>)

lemma links_swap:
  assumes ok: "links_ok nx pc xs" and xs: "xs \<noteq> []" "nx (last xs) = 0" "p \<notin> set xs" and "\<And>b a. pc t \<noteq> QLink b a"
  shows "links_ok nx (pc(t := QLink p (last xs))) (xs @ [p])"
proof (rule links_okI)
  fix a b assume "(a, b) \<in> pairs (xs @ [p])"
  then consider "a = last xs" "b = p" | "(a, b) \<in> pairs xs" using xs(1) by (auto simp: pairs_append)
  then show "nx a = b \<or> (\<exists>u. (pc(t := QLink p (last xs))) u = QLink b a)"
    using links_okD(1)[OF ok, of a b] assms(5) by cases (auto, metis)
next
  fix u q a assume "(pc(t := QLink p (last xs))) u = QLink q a"
  then show "(a, q) \<in> pairs (xs @ [p]) \<and> nx a = 0"
    using links_okD(2,3)[OF ok] xs by (auto simp: pairs_append split: if_splits)
next
  fix u u' q a assume "(pc(t := QLink p (last xs))) u = QLink q a" "(pc(t := QLink p (last xs))) u' = QLink q a"
  moreover have "pc v \<noteq> QLink p (last xs)" for v using links_okD(2)[OF ok, of v p] xs(3) pairs_mem by metis
  ultimately show "u = u'" using links_okD(4)[OF ok] by (auto split: if_splits)
qed

lemma links_link:
  assumes ok: "links_ok nx pc xs" and d: "distinct xs" and pc: "pc t = QLink p a"
  shows "links_ok (nx(a := p)) (pc(t := QIdle)) xs"
proof (rule links_okI)
  have ap: "(a, p) \<in> pairs xs" using links_okD(2)[OF ok pc] .
  {
    fix c b assume cb: "(c, b) \<in> pairs xs"
    show "(nx(a := p)) c = b \<or> (\<exists>u. (pc(t := QIdle)) u = QLink b c)"
    proof (cases "c = a")
      case True
      then show ?thesis using pairs_unique[OF d ap] cb by auto
    next
      case False
      then have "nx c = b \<or> (\<exists>u. u \<noteq> t \<and> pc u = QLink b c)" using links_okD(1)[OF ok cb] pc by (metis queue_pc.inject(3))
      then show ?thesis using False by auto
    qed
  next
    fix u q c assume "(pc(t := QIdle)) u = QLink q c"
    then have u: "u \<noteq> t" "pc u = QLink q c" by (auto split: if_splits)
    then have "c \<noteq> a" using links_okD(2)[OF ok u(2)] pairs_unique[OF d ap] links_okD(4)[OF ok pc] by blast
    then show "(c, q) \<in> pairs xs \<and> (nx(a := p)) c = 0" using links_okD(2,3)[OF ok u(2)] by simp
  }
qed (use links_okD(4)[OF ok] in \<open>auto split: if_splits\<close>)

text \<open>An element is freed only when its successor is linked, so no thread will write to it any more.\<close>

lemma links_tl:
  assumes ok: "links_ok nx pc (q # y # ys)" and "nx q \<noteq> 0"
  shows "links_ok nx pc (y # ys)" and "nx q = y"
proof -
  show "links_ok nx pc (y # ys)"
  proof (rule links_okI)
    fix t p a assume pc: "pc t = QLink p a"
    then have "nx a = 0" "(a, p) \<in> pairs (q # y # ys)" using links_okD(2,3)[OF ok] by blast+
    then show "(a, p) \<in> pairs (y # ys) \<and> nx a = 0" using assms(2) by (auto simp: pairs_Cons)
  qed (use links_okD(1,4)[OF ok] in \<open>auto simp: pairs_Cons\<close>)
  have "nx q = y \<or> (\<exists>t. pc t = QLink y q)" by (rule links_okD(1)[OF ok]) (simp add: pairs_Cons)
  then show "nx q = y" using links_okD(3)[OF ok] assms(2) by blast
qed

section \<open>Every step keeps the invariant\<close>

lemma held_okD:
  assumes "held_ok nx pc xs"
  shows "pc t = QClear p \<or> pc t = QSwap p \<Longrightarrow> p \<noteq> 0 \<and> p \<notin> set xs" and "pc t = QSwap p \<Longrightarrow> nx p = 0"
    and "pc t = QClear p \<or> pc t = QSwap p \<Longrightarrow> pc t' = QClear p \<or> pc t' = QSwap p \<Longrightarrow> t = t'"
  using assms unfolding held_ok_def by blast+

lemma held_okI:
  assumes "\<And>t p. pc t = QClear p \<or> pc t = QSwap p \<Longrightarrow> p \<noteq> 0 \<and> p \<notin> set xs"
    and "\<And>t p. pc t = QSwap p \<Longrightarrow> nx p = 0"
    and "\<And>t t' p. pc t = QClear p \<or> pc t = QSwap p \<Longrightarrow> pc t' = QClear p \<or> pc t' = QSwap p \<Longrightarrow> t = t'"
  shows "held_ok nx pc xs"
  unfolding held_ok_def using assms by blast

lemma init_inv: "d \<noteq> 0 \<Longrightarrow> mq_inv (queue_init mem d) [d]"
  by (auto simp: mq_inv_def links_ok_def held_ok_def queue_init_def pairs_single)

lemma begin_inv:
  assumes inv: "mq_inv s xs" and pc: "mq_pc s t = QIdle" and p: "p \<noteq> 0" "p \<notin> set (queued s)" "\<not> held s p"
  shows "mq_inv (s\<lparr>mq_pc := (mq_pc s)(t := QClear p)\<rparr>) xs"
proof -
  have "links_ok (mq_next s) ((mq_pc s)(t := QClear p)) xs"
    by (rule links_pc) (use inv pc in \<open>auto simp: mq_inv_def\<close>)
  moreover have h: "held_ok (mq_next s) (mq_pc s) xs" using inv by (simp add: mq_inv_def)
  have "held_ok (mq_next s) ((mq_pc s)(t := QClear p)) xs"
    by (rule held_okI) (use held_okD[OF h] p mq_inv_queued[OF inv] in \<open>auto simp: held_def split: if_splits\<close>)
  ultimately show ?thesis using inv by (simp add: mq_inv_def)
qed

lemma write_inv:
  assumes inv: "mq_inv s xs" and p: "p \<notin> set (queued s)" "\<not> held s p"
  shows "mq_inv (s\<lparr>mq_next := (mq_next s)(p := v)\<rparr>) xs"
proof -
  have p': "p \<notin> set xs" using p(1) mq_inv_queued[OF inv] by simp
  moreover have "links_ok ((mq_next s)(p := v)) (mq_pc s) xs"
    by (rule links_write) (use inv p' in \<open>auto simp: mq_inv_def\<close>)
  moreover have h: "held_ok (mq_next s) (mq_pc s) xs" using inv by (simp add: mq_inv_def)
  have "held_ok ((mq_next s)(p := v)) (mq_pc s) xs"
    by (rule held_okI) (use held_okD[OF h] p(2) in \<open>auto simp: held_def\<close>)
  ultimately show ?thesis using inv by (auto simp: mq_inv_def)
qed

lemma prepend_inv:
  assumes inv: "mq_inv s xs"
  shows "\<exists>ys. mq_inv (prepend_step t s) ys"
proof -
  have ok: "links_ok (mq_next s) (mq_pc s) xs" and h: "held_ok (mq_next s) (mq_pc s) xs"
    and xs: "xs \<noteq> []" "distinct xs" "mq_next s (last xs) = 0" "mq_tail s = last xs" using inv by (auto simp: mq_inv_def)
  show ?thesis
  proof (cases "mq_pc s t")
    case QIdle
    then show ?thesis using inv by (auto simp: prepend_step_def)
  next
    case (QClear p)
    then have p: "p \<notin> set xs" using held_okD(1)[OF h] by blast
    have "links_ok ((mq_next s)(p := 0)) ((mq_pc s)(t := QSwap p)) xs"
      by (rule links_pc[OF links_write[OF ok p]]) (simp_all add: QClear)
    moreover have "held_ok ((mq_next s)(p := 0)) ((mq_pc s)(t := QSwap p)) xs"
      by (rule held_okI) (use held_okD[OF h] QClear in \<open>auto split: if_splits\<close>)
    ultimately have "mq_inv (prepend_step t s) xs" using inv p by (auto simp: mq_inv_def prepend_step_def QClear)
    then show ?thesis ..
  next
    case (QSwap p)
    then have p: "p \<notin> set xs" "p \<noteq> 0" "mq_next s p = 0" using held_okD(1,2)[OF h] by blast+
    have "links_ok (mq_next s) ((mq_pc s)(t := QLink p (last xs))) (xs @ [p])"
      by (rule links_swap[OF ok xs(1,3) p(1)]) (simp add: QSwap)
    moreover have "held_ok (mq_next s) ((mq_pc s)(t := QLink p (last xs))) (xs @ [p])"
      by (rule held_okI) (use held_okD[OF h] QSwap in \<open>auto split: if_splits\<close>)
    ultimately have "mq_inv (prepend_step t s) (xs @ [p])" using inv p by (auto simp: mq_inv_def prepend_step_def QSwap)
    then show ?thesis ..
  next
    case (QLink p a)
    have a: "(a, p) \<in> pairs xs" by (rule links_okD(2)[OF ok QLink])
    have "links_ok ((mq_next s)(a := p)) ((mq_pc s)(t := QIdle)) xs" by (rule links_link[OF ok xs(2) QLink])
    moreover have "held_ok ((mq_next s)(a := p)) ((mq_pc s)(t := QIdle)) xs"
      by (rule held_okI) (use held_okD[OF h] pairs_mem[OF a] in \<open>auto split: if_splits\<close>)
    ultimately have "mq_inv (prepend_step t s) xs" using inv pairs_not_last[OF xs(2) a]
      by (auto simp: mq_inv_def prepend_step_def QLink)
    then show ?thesis ..
  qed
qed

lemma scan_inv:
  assumes inv: "mq_inv s xs"
  shows "\<exists>ys. mq_inv (scan_step s) ys"
proof (cases "mq_scan s")
  case None
  then show ?thesis using inv by (intro exI[of _ xs]) (simp add: mq_inv_def scan_step_def)
next
  case (Some q)
  then have q: "q = hd xs" "xs \<noteq> []" "links_ok (mq_next s) (mq_pc s) xs" "held_ok (mq_next s) (mq_pc s) xs"
    "mq_next s (last xs) = 0" using inv by (auto simp: mq_inv_def)
  show ?thesis
  proof (cases "mq_next s q = 0")
    case True
    with Some inv show ?thesis by (intro exI[of _ xs]) (simp add: mq_inv_def scan_step_def)
  next
    case False
    with q obtain y ys where xs: "xs = q # y # ys" by (cases xs; cases "tl xs") auto
    note l = links_tl[OF q(3)[unfolded xs] False]
    have "held_ok (mq_next s) (mq_pc s) (y # ys)" using q(4) unfolding held_ok_def xs by auto
    then have "mq_inv (scan_step s) (y # ys)" using inv l False Some by (simp add: mq_inv_def scan_step_def xs)
    then show ?thesis ..
  qed
qed

lemma mq_reach_inv: "mq_reach s \<Longrightarrow> \<exists>xs. mq_inv s xs"
  by (induction rule: mq_reach.induct) (blast intro: init_inv begin_inv write_inv scan_inv prepend_inv)+

text \<open>
  \<^bold>\<open>C22.\<close> However the threads that free objects of an owner interleave with its scan of the queue, the owner frees
  the objects in the order in which they were exchanged into the tail, each once and none that was not given to it,
  what is queued has no duplicates and ends with the tail, and the element a thread is about to link is still queued,
  so the link is not written into memory that was freed.
\<close>

theorem remote_free_exact:
  assumes "mq_reach s"
  shows "mq_hist s = mq_freed s @ queued s \<and> distinct (queued s) \<and> queued s \<noteq> [] \<and> mq_tail s = last (queued s) \<and>
    (\<forall>t p a. mq_pc s t = QLink p a \<longrightarrow> a \<in> set (queued s) \<and> p \<in> set (queued s))"
proof -
  obtain xs where inv: "mq_inv s xs" using mq_reach_inv[OF assms] by blast
  then have "links_ok (mq_next s) (mq_pc s) xs" by (simp add: mq_inv_def)
  note l = links_okD(2)[OF this]
  have "a \<in> set xs \<and> p \<in> set xs" if "mq_pc s t = QLink p a" for t p a using pairs_mem[OF l[OF that]] .
  then show ?thesis using inv mq_inv_queued[OF inv] by (simp add: mq_inv_def)
qed

definition sample_queue :: mqueue where
  "sample_queue = \<lparr>mq_next = (\<lambda>_. 0)(32 := 48), mq_head = 16, mq_tail = 48,
     mq_pc = (\<lambda>_. QIdle)(2 := QLink 32 16), mq_scan = None, mq_freed = [], mq_hist = [16, 32, 48]\<rparr>"

lemma sample_queue_reach: "mq_reach sample_queue"
proof -
  let ?i = "queue_init (\<lambda>_. 0) 16" and ?go = "\<lambda>t p s. s\<lparr>mq_pc := (mq_pc s)(t := QClear p)\<rparr>"
  let ?a = "prepend_step 2 (prepend_step 2 (?go 2 32 ?i))"
  have "mq_reach (?go 2 32 ?i)"
    by (rule mq_reach.Begin[OF mq_reach.Init]) (auto simp: queue_init_def queued_def held_def)
  then have a: "mq_reach ?a" by (intro mq_reach.Prepend)
  then have "mq_reach (?go 3 48 ?a)"
    by (rule mq_reach.Begin) (auto simp: queue_init_def queued_def held_def prepend_step_def split: if_splits)
  then have "mq_reach (prepend_step 3 (prepend_step 3 (prepend_step 3 (?go 3 48 ?a))))" by (intro mq_reach.Prepend)
  moreover have "prepend_step 3 (prepend_step 3 (prepend_step 3 (?go 3 48 ?a))) = sample_queue"
    by (simp add: queue_init_def prepend_step_def sample_queue_def fun_eq_iff)
  ultimately show ?thesis by simp
qed

theorem remote_free_exact_witness: "16 \<in> set (queued sample_queue) \<and> queued sample_queue = [16, 32, 48]"
  using remote_free_exact[OF sample_queue_reach] by (simp add: sample_queue_def queued_def)

section \<open>The end of a queue\<close>

text \<open>The whole loop: it stops at the first element without a successor, and the queue bounds its rounds.\<close>

fun scan_loop :: "nat \<Rightarrow> mqueue \<Rightarrow> mqueue" where
  "scan_loop 0 s = s"
| "scan_loop (Suc n) s = (let s1 = scan_step s in if mq_scan s1 = None then s1 else scan_loop n s1)"

lemma scan_loop_ends:
  assumes "mq_inv s xs" "mq_scan s = Some (hd xs)"
  shows "mq_scan (scan_loop (length xs) s) = None"
  using assms
proof (induction "length xs" arbitrary: s xs)
  case (Suc n)
  from \<open>Suc n = length xs\<close> obtain x ys where xs: "xs = x # ys" "n = length ys" by (cases xs) auto
  have n: "length xs = Suc n" using Suc.hyps(2) by simp
  show ?case
  proof (cases "mq_next s x = 0")
    case True
    then show ?thesis using Suc.prems(2) by (simp add: xs scan_step_def)
  next
    case False
    have last: "mq_next s (last xs) = 0" using Suc.prems(1) by (simp add: mq_inv_def)
    with False obtain y zs where ys: "ys = y # zs" using xs by (cases ys) auto
    have "links_ok (mq_next s) (mq_pc s) (x # y # zs)" "held_ok (mq_next s) (mq_pc s) (x # y # zs)"
      using Suc.prems(1) by (simp_all add: mq_inv_def xs ys)
    note l = links_tl[OF this(1) False] and h = this(2)
    let ?s = "s\<lparr>mq_scan := Some y, mq_freed := mq_freed s @ [x]\<rparr>"
    have "held_ok (mq_next s) (mq_pc s) (y # zs)" using h unfolding held_ok_def by auto
    then have "mq_inv ?s ys" using Suc.prems(1) l by (simp add: mq_inv_def xs ys)
    then have "mq_scan (scan_loop n ?s) = None" using Suc.hyps(1)[of ys ?s] xs(2) ys by simp
    moreover have "scan_step s = ?s" using Suc.prems(2) False l by (simp add: scan_step_def xs)
    ultimately show ?thesis by (simp add: n)
  qed
qed (simp add: mq_inv_def)

text \<open>A scan while no link is missing frees everything but the last element.\<close>

lemma scan_drains:
  assumes "mq_inv s xs" "\<And>t p a. mq_pc s t \<noteq> QLink p a" "mq_scan s = Some (hd xs)"
  shows "scan_loop (length xs) s = s\<lparr>mq_scan := None, mq_head := last xs, mq_freed := mq_freed s @ butlast xs\<rparr>"
  using assms
proof (induction xs arbitrary: s rule: induct_list012)
  case (2 x)
  then show ?case by (simp add: mq_inv_def scan_step_def)
next
  case (3 x y zs)
  let ?s = "s\<lparr>mq_scan := Some y, mq_freed := mq_freed s @ [x]\<rparr>"
  have ok: "links_ok (mq_next s) (mq_pc s) (x # y # zs)" and h: "held_ok (mq_next s) (mq_pc s) (x # y # zs)"
    and nz: "y \<noteq> 0" using "3.prems"(1) by (auto simp: mq_inv_def)
  have nx: "mq_next s x = y" using links_okD(1)[OF ok, of x y] "3.prems"(2) by (auto simp: pairs_Cons)
  then have step: "scan_step s = ?s" using "3.prems"(3) nz by (simp add: scan_step_def)
  have "held_ok (mq_next s) (mq_pc s) (y # zs)" using h unfolding held_ok_def by auto
  then have "mq_inv ?s (y # zs)" using "3.prems"(1) links_tl(1)[OF ok] nx nz by (simp add: mq_inv_def)
  from "3.IH"(2)[OF this] "3.prems"(2) show ?case by (simp add: step)
qed (simp add: mq_inv_def)

text \<open>
  The end of \<^verbatim>\<open>reap_dead\<close>: the queue of the dead thread is scanned and its head freed.
\<close>

definition reap_queue :: "mqueue \<Rightarrow> mqueue" where
  "reap_queue s = (let s1 = scan_loop (Suc (length (queued s))) s in s1\<lparr>mq_freed := mq_freed s1 @ [mq_head s1]\<rparr>)"

lemma reap_frees_all:
  assumes "mq_reach s" "mq_scan s = None" "\<And>t p a. mq_pc s t \<noteq> QLink p a"
  shows "mq_freed (reap_queue s) = mq_hist s"
proof -
  obtain xs where inv: "mq_inv s xs" using mq_reach_inv[OF assms(1)] by blast
  let ?s = "s\<lparr>mq_scan := Some (mq_head s)\<rparr>"
  have "scan_step s = ?s" using assms(2) by (simp add: scan_step_def)
  moreover have "scan_loop (length xs) ?s = ?s\<lparr>mq_scan := None, mq_head := last xs, mq_freed := mq_freed ?s @ butlast xs\<rparr>"
    by (rule scan_drains) (use inv assms(2,3) in \<open>simp_all add: mq_inv_def\<close>)
  ultimately have "mq_freed (reap_queue s) = mq_freed s @ butlast xs @ [last xs]"
    by (simp add: reap_queue_def Let_def mq_inv_queued[OF inv])
  then show ?thesis using inv by (simp add: mq_inv_def)
qed

text \<open>
  \<^verbatim>\<open>free_nomem\<close> has no hazard pointer and gives up the lock that holds off \<^verbatim>\<open>reap_dead\<close> before it writes the link.
  When the data of the owner is released in between, the element it is about to write to has been freed and the
  object it frees is lost.
\<close>

lemma free_nomem_race:
  "\<exists>s. mq_reach s \<and> mq_pc s 2 = QLink 32 16 \<and> mq_freed (reap_queue s) = [16] \<and> mq_pc (reap_queue s) 2 = QLink 32 16"
proof (intro exI conjI)
  show "mq_reach sample_queue" by (rule sample_queue_reach)
qed (simp_all add: sample_queue_def reap_queue_def queued_def scan_step_def)

section \<open>Hazard pointers\<close>

text \<open>
  \<open>True\<close> stands for the tail of a dead thread whose data is being released and \<open>False\<close> for the tail of the thread
  that takes over its blocks. \<open>HWrite b v\<close>: \<open>v\<close> was read from the header of block \<open>b\<close> and is about to be written to
  the hazard pointer; \<open>HCheck b v\<close>: before the header is read again; \<open>HUse v\<close>: the tail is being used.
\<close>

datatype hazard_pc = HIdle | HWrite nat bool | HCheck nat bool | HUse bool

text \<open>
  \<open>RMerge\<close>: the headers that still have to be changed; \<open>RWait\<close>: the threads whose hazard pointer still has to be
  looked at; \<open>RFinal\<close>: the data is released.
\<close>

datatype reap_pc = RMerge "nat list" | RWait "nat list" | RFinal

text \<open>
  \<open>hz_buf\<close> are stores to headers that are still in the store buffer of the releasing thread: other threads do not see
  them yet.
\<close>

record hazards =
  hz_tail :: "nat \<Rightarrow> bool"
  hz_buf :: "nat list"
  hz_ptr :: "nat \<Rightarrow> bool option"
  hz_pc :: "nat \<Rightarrow> hazard_pc"
  hz_reaper :: reap_pc

definition hazard_step :: "nat \<Rightarrow> hazards \<Rightarrow> hazards" where
  "hazard_step t s = (case hz_pc s t of
       HIdle \<Rightarrow> s
     | HWrite b v \<Rightarrow> s\<lparr>hz_ptr := (hz_ptr s)(t := Some v), hz_pc := (hz_pc s)(t := HCheck b v)\<rparr>
     | HCheck b v \<Rightarrow> s\<lparr>hz_pc := (hz_pc s)(t := if v \<noteq> hz_tail s b then HWrite b (hz_tail s b) else HUse v)\<rparr>
     | HUse v \<Rightarrow> s\<lparr>hz_ptr := (hz_ptr s)(t := None), hz_pc := (hz_pc s)(t := HIdle)\<rparr>)"

text \<open>
  \<open>fence\<close> says whether an instruction that empties the store buffer runs between the last change of a header and
  the first look at a hazard pointer; \<open>ts\<close> are the threads on the hazard list.
\<close>

definition reap_step :: "bool \<Rightarrow> nat list \<Rightarrow> hazards \<Rightarrow> hazards" where
  "reap_step fence ts s = (case hz_reaper s of
       RMerge [] \<Rightarrow> if fence \<and> hz_buf s \<noteq> [] then s else s\<lparr>hz_reaper := RWait ts\<rparr>
     | RMerge (b # bs) \<Rightarrow> s\<lparr>hz_buf := hz_buf s @ [b], hz_reaper := RMerge bs\<rparr>
     | RWait [] \<Rightarrow> s\<lparr>hz_reaper := RFinal\<rparr>
     | RWait (t # us) \<Rightarrow> if hz_ptr s t = Some True then s else s\<lparr>hz_reaper := RWait us\<rparr>
     | RFinal \<Rightarrow> s)"

definition drain_step :: "hazards \<Rightarrow> hazards" where
  "drain_step s = (case hz_buf s of [] \<Rightarrow> s | b # bs \<Rightarrow> s\<lparr>hz_tail := (hz_tail s)(b := False), hz_buf := bs\<rparr>)"

inductive hz_reach :: "bool \<Rightarrow> nat list \<Rightarrow> hazards \<Rightarrow> bool" for fence ts where
  Init: "{b. tails b} = set bs \<Longrightarrow>
    hz_reach fence ts \<lparr>hz_tail = tails, hz_buf = [], hz_ptr = (\<lambda>_. None), hz_pc = (\<lambda>_. HIdle), hz_reaper = RMerge bs\<rparr>"
| Free: "hz_reach fence ts s \<Longrightarrow> t \<in> set ts \<Longrightarrow> hz_pc s t = HIdle \<Longrightarrow>
    hz_reach fence ts (s\<lparr>hz_pc := (hz_pc s)(t := HWrite b (hz_tail s b))\<rparr>)"
| Thread: "hz_reach fence ts s \<Longrightarrow> hz_reach fence ts (hazard_step t s)"
| Reap: "hz_reach fence ts s \<Longrightarrow> hz_reach fence ts (reap_step fence ts s)"
| Drain: "hz_reach fence ts s \<Longrightarrow> hz_reach fence ts (drain_step s)"

text \<open>
  The headers of the dead thread that are not changed yet are in the buffer or still to be merged; a thread that
  uses the tail announces it; from the wait on no header names the dead thread.
\<close>

definition hz_inv :: "nat list \<Rightarrow> hazards \<Rightarrow> bool" where
  "hz_inv ts s \<longleftrightarrow>
     (\<forall>t. hz_pc s t = HUse True \<longrightarrow> hz_ptr s t = Some True \<and> t \<in> set ts) \<and>
     (\<forall>t b v. hz_pc s t = HCheck b v \<longrightarrow> hz_ptr s t = Some v) \<and>
     (\<forall>t. t \<notin> set ts \<longrightarrow> hz_pc s t = HIdle) \<and>
     (case hz_reaper s of
        RMerge bs \<Rightarrow> {b. hz_tail s b} \<subseteq> set bs \<union> set (hz_buf s)
      | RWait us \<Rightarrow> (\<forall>b. \<not> hz_tail s b) \<and> (\<forall>t. hz_pc s t = HUse True \<longrightarrow> t \<in> set us)
      | RFinal \<Rightarrow> (\<forall>b. \<not> hz_tail s b) \<and> (\<forall>t. hz_pc s t \<noteq> HUse True))"

lemma hz_reach_inv: "hz_reach True ts s \<Longrightarrow> hz_inv ts s"
proof (induction rule: hz_reach.induct)
  case (Init tails bs)
  then show ?case by (auto simp: hz_inv_def)
next
  case (Free s t b)
  then show ?case by (auto simp: hz_inv_def split: reap_pc.splits)
next
  case (Thread s t)
  then show ?case
    by (cases "hz_pc s t") (auto simp: hz_inv_def hazard_step_def split: reap_pc.splits if_splits)
next
  case (Reap s)
  note inv = Reap.IH[unfolded hz_inv_def]
  show ?case
  proof (cases "hz_reaper s")
    case (RMerge bs)
    then show ?thesis using inv by (cases bs) (auto simp: hz_inv_def reap_step_def)
  next
    case (RWait us)
    then show ?thesis using inv by (cases us) (auto simp: hz_inv_def reap_step_def)
  next
    case RFinal
    then show ?thesis using Reap.IH by (simp add: reap_step_def)
  qed
next
  case (Drain s)
  then show ?case by (auto simp: hz_inv_def drain_step_def split: reap_pc.splits list.splits)
qed

text \<open>
  \<^bold>\<open>C36.\<close> When the changed headers have left the store buffer before the hazard pointers are looked at, the
  data of a dead thread is released only while no thread uses its tail, however the threads interleave, even for
  those that read a header before it was changed.
\<close>

theorem hazard_protects:
  assumes "hz_reach True ts s" "hz_reaper s = RFinal"
  shows "hz_pc s t \<noteq> HUse True \<and> \<not> hz_tail s b"
  using hz_reach_inv[OF assms(1)] assms(2) by (simp add: hz_inv_def)

definition sample_hazards :: "hazard_pc \<Rightarrow> bool option \<Rightarrow> bool \<Rightarrow> nat list \<Rightarrow> reap_pc \<Rightarrow> hazards" where
  "sample_hazards pc v dead buf rp = \<lparr>hz_tail = (\<lambda>b. b = 5 \<and> dead), hz_buf = buf, hz_ptr = (\<lambda>_. None)(2 := v),
     hz_pc = (\<lambda>_. HIdle)(2 := pc), hz_reaper = rp\<rparr>"

lemma sample_hazards_init: "hz_reach fence [2] (sample_hazards HIdle None True [] (RMerge [5]))"
  using hz_reach.Init[of "\<lambda>b. b = 5" "[5]" fence "[2]"] by (simp add: sample_hazards_def fun_upd_idem)

lemma sample_hazards_free:
  "hz_reach fence [2] (sample_hazards HIdle None dead buf rp) \<Longrightarrow>
   hz_reach fence [2] (sample_hazards (HWrite 5 dead) None dead buf rp)"
  by (drule hz_reach.Free[where t = 2 and b = 5]) (simp_all add: sample_hazards_def)

lemma sample_tail: "(\<lambda>b. b = (5 :: nat))(5 := False) = (\<lambda>b. False)"
  by (auto simp: fun_eq_iff)

lemmas sample_hazards_simps = sample_hazards_def hazard_step_def reap_step_def drain_step_def sample_tail

text \<open>The thread announces the old tail, sees that the header has changed, and uses the new one.\<close>

theorem hazard_protects_witness:
  "hz_reaper (sample_hazards (HUse False) (Some False) False [] RFinal) = RFinal \<and>
   hz_pc (sample_hazards (HUse False) (Some False) False [] RFinal) 2 \<noteq> HUse True"
proof -
  have "hz_reach True [2] (sample_hazards (HWrite 5 True) None True [] (RMerge [5]))"
    by (rule sample_hazards_free[OF sample_hazards_init])
  then have "hz_reach True [2] (reap_step True [2] (hazard_step 2 (sample_hazards (HWrite 5 True) None True [] (RMerge [5]))))"
    by (intro hz_reach.Reap hz_reach.Thread)
  then have "hz_reach True [2] (sample_hazards (HCheck 5 True) (Some True) True [5] (RMerge []))"
    by (simp add: sample_hazards_simps)
  then have "hz_reach True [2] (hazard_step 2 (hazard_step 2 (hazard_step 2 (drain_step
      (sample_hazards (HCheck 5 True) (Some True) True [5] (RMerge []))))))"
    by (intro hz_reach.Thread hz_reach.Drain)
  then have "hz_reach True [2] (sample_hazards (HUse False) (Some False) False [] (RMerge []))"
    by (simp add: sample_hazards_simps)
  then have "hz_reach True [2] (reap_step True [2] (reap_step True [2] (reap_step True [2]
      (sample_hazards (HUse False) (Some False) False [] (RMerge [])))))" by (intro hz_reach.Reap)
  then have "hz_reach True [2] (sample_hazards (HUse False) (Some False) False [] RFinal)"
    by (simp add: sample_hazards_simps)
  from hazard_protects[OF this] show ?thesis by (simp add: sample_hazards_def)
qed

text \<open>
  \<^verbatim>\<open>reap_dead\<close> has no such instruction of its own: one runs only when the dead thread had a chunk of free slabs to
  give back. Without it the changed header can still be in the store buffer while the hazard pointers are
  read, and the data is released under a thread that uses it.
\<close>

lemma hazard_store_buffer_race:
  "\<exists>s. hz_reach False [2] s \<and> hz_reaper s = RFinal \<and> hz_pc s 2 = HUse True"
proof -
  let ?last = "\<lambda>pc v. sample_hazards pc v True [5] RFinal"
  have "hz_reach False [2] (reap_step False [2] (reap_step False [2] (reap_step False [2] (reap_step False [2]
      (sample_hazards HIdle None True [] (RMerge [5]))))))"
    by (intro hz_reach.Reap sample_hazards_init)
  then have "hz_reach False [2] (?last HIdle None)" by (simp add: sample_hazards_simps)
  then have "hz_reach False [2] (?last (HWrite 5 True) None)" by (rule sample_hazards_free)
  then have "hz_reach False [2] (hazard_step 2 (hazard_step 2 (?last (HWrite 5 True) None)))" by (intro hz_reach.Thread)
  then have "hz_reach False [2] (?last (HUse True) (Some True))" by (simp add: sample_hazards_simps)
  then show ?thesis by (intro exI[of _ "?last (HUse True) (Some True)"]) (simp add: sample_hazards_def)
qed

end
