(* ===== verification/LA_Fast.thy ===== *)
theory LA_Fast
  imports LA_Sizes "HOL-Library.Multiset"
begin

text \<open>
  The fast lists of the allocator under \<^verbatim>\<open>others/tmi\<close> (\<^verbatim>\<open>src/ll_alloc.c\<close>): 64 stacks of freed blocks,
  with a mask that has a bit for every list that may hold something. An allocation looks at four lists
  from the one of its size on, and moves blocks that turn out too small one list down. A stack is the list of the
  blocks on it, from the top; \<open>sz\<close> gives the sizes in the separators of the blocks.
\<close>

unbundle bit_operations_syntax

record fast_lists =
  fa_fl :: "u64 list list"
  fa_mask :: u64

definition fast_add :: "u64 \<Rightarrow> nat \<Rightarrow> fast_lists \<Rightarrow> fast_lists" where
  "fast_add b n fa = fa\<lparr>fa_fl := (fa_fl fa)[n := b # fa_fl fa ! n], fa_mask := fa_mask fa OR push_bit n 1\<rparr>"

definition fast_free :: "u64 \<Rightarrow> u64 \<Rightarrow> fast_lists \<Rightarrow> fast_lists result" where
  "fast_free b ms fa = bindE (size2fl ms) (\<lambda>n. Inr (fast_add b n fa))"

text \<open>
  The inner loop of \<^verbatim>\<open>fast_alloc\<close> takes the blocks of list \<open>n\<close> one by one. A block that is too small is
  pushed on the list before; for list 0 that is memory in front of the array.
\<close>

fun fast_bin :: "(u64 \<Rightarrow> u64) \<Rightarrow> u64 \<Rightarrow> nat \<Rightarrow> u64 \<Rightarrow> u64 list \<Rightarrow> fast_lists \<Rightarrow> (u64 option \<times> fast_lists) result" where
  "fast_bin sz want n tmask [] fa = Inr (None, fa\<lparr>fa_fl := (fa_fl fa)[n := []]\<rparr>)"
| "fast_bin sz want n tmask (b # rest) fa =
     (if sz b \<ge> want then Inr (Some b, fa\<lparr>fa_fl := (fa_fl fa)[n := rest]\<rparr>)
      else if n = 0 then Inl (Undefined ''fl[-1]'')
      else let t = tmask div 2
           in fast_bin sz want n tmask rest
                (fa\<lparr>fa_fl := (fa_fl fa)[n - 1 := b # fa_fl fa ! (n - 1)], fa_mask := fa_mask fa OR (t AND - t)\<rparr>))"

lemma and_pred_less: "(t :: u64) \<noteq> 0 \<Longrightarrow> t AND ((t - 1) OR NOT t) < t"
proof -
  assume t: "t \<noteq> 0"
  have "t AND ((t - 1) OR NOT t) = t AND (t - 1)" by (rule bit_word_eqI) (auto simp: bit_simps)
  also have "\<dots> \<le> t - 1" by (rule word_and_le1)
  also have "\<dots> < t" using t by (simp add: word_less_nat_alt unat_minus_one unat_gt_0)
  finally show ?thesis .
qed

function fast_loop :: "(u64 \<Rightarrow> u64) \<Rightarrow> u64 \<Rightarrow> u64 \<Rightarrow> fast_lists \<Rightarrow> (u64 option \<times> fast_lists) result" where
  "fast_loop sz want tmask fa =
     (if tmask = 0 then Inr (None, fa)
      else bindE (ffsq tmask) (\<lambda>n.
           bindE (fast_bin sz want n tmask (fa_fl fa ! n) fa) (\<lambda>(r, fa').
             case r of Some b \<Rightarrow> Inr (Some b, fa')
             | None \<Rightarrow> (let m = (tmask - 1) OR NOT tmask
                       in fast_loop sz want (tmask AND m) (fa'\<lparr>fa_mask := fa_mask fa' AND m\<rparr>)))))"
  by pat_completeness auto
termination
  by (relation "measure (\<lambda>(sz, want, tmask, fa). unat tmask)") (auto simp: word_less_nat_alt[symmetric] and_pred_less)

declare fast_loop.simps [simp del]

definition fast_alloc :: "(u64 \<Rightarrow> u64) \<Rightarrow> u64 \<Rightarrow> fast_lists \<Rightarrow> (u64 option \<times> fast_lists) result" where
  "fast_alloc sz want fa =
     (if want > FAST_64_BIN then Inr (None, fa)
      else bindE (size2fl want) (\<lambda>n. fast_loop sz want (fa_mask fa AND push_bit n 15) fa))"

section \<open>Masks\<close>

definition lowest :: "u64 \<Rightarrow> nat \<Rightarrow> bool" where
  "lowest w n \<longleftrightarrow> n < 64 \<and> bit w n \<and> (\<forall>k < n. \<not> bit w k)"

lemma bit_pred:
  assumes "lowest w n" "k < 64"
  shows "bit (w - 1) k \<longleftrightarrow> (if k < n then True else if k = n then False else bit w k)"
proof -
  let ?h = "w AND NOT (mask (Suc n))"
  have n: "n < 64" "bit w n" "\<And>k. k < n \<Longrightarrow> \<not> bit w k" using assms(1) by (auto simp: lowest_def)
  have "w = ?h OR push_bit n 1"
    by (rule bit_word_eqI) (use n in \<open>auto simp: bit_simps not_less less_Suc_eq_le\<close>)
  also have "\<dots> = ?h + push_bit n 1"
    by (rule disjunctive_add[symmetric]) (auto simp: bit_simps)
  finally have "w - 1 = ?h + mask n" by (simp add: mask_eq_exp_minus_1 push_bit_eq_mult algebra_simps)
  also have "\<dots> = ?h OR mask n"
    by (rule disjunctive_add) (auto simp: bit_simps)
  finally have "bit (w - 1) k \<longleftrightarrow> bit (?h OR mask n) k" by simp
  then show ?thesis using n assms(2) by (auto simp: bit_simps)
qed

lemma ffsq_lowest: "w \<noteq> 0 \<Longrightarrow> \<exists>n. ffsq w = Inr n \<and> lowest w n"
proof -
  assume "w \<noteq> 0"
  then obtain k where "bit w k" by (auto simp: bit_eq_iff)
  then have "k < 64" using bit_imp_le_length[of w k] by simp
  with \<open>bit w k\<close> have "find (bit w) [0..<64] \<noteq> None" unfolding find_None_iff by auto
  then obtain n where n: "find (bit w) [0..<64] = Some n" by auto
  then have "ffsq w = Inr n" by (simp add: ffsq_def)
  moreover have "lowest w n" using n by (auto simp: lowest_def find_Some_iff)
  ultimately show ?thesis by blast
qed

lemma clear_lowest:
  assumes "lowest w n" "k < 64"
  shows "bit ((w - 1) OR NOT w) k \<longleftrightarrow> k \<noteq> n"
  using bit_pred[OF assms] assms by (auto simp: bit_simps lowest_def)

lemma lowest_half:
  assumes "lowest w n" "0 < n" "k < 64"
  shows "bit ((w div 2) AND - (w div 2)) k \<longleftrightarrow> k = n - 1"
proof -
  have half: "bit (w div 2) j \<longleftrightarrow> bit w (Suc j)" for j by (simp add: bit_Suc)
  have "lowest (w div 2) (n - 1)" using assms(1,2) unfolding lowest_def half by auto
  from bit_pred[OF this assms(3)] assms show ?thesis
    unfolding lowest_def minus_eq_not_minus_1 by (auto simp: bit_simps half)
qed

section \<open>Blocks on the lists\<close>

definition fast_blocks :: "fast_lists \<Rightarrow> u64 multiset" where
  "fast_blocks fa = mset (concat (fa_fl fa))"

definition fast_ok :: "fast_lists \<Rightarrow> bool" where
  "fast_ok fa \<longleftrightarrow> length (fa_fl fa) = 64 \<and> (\<forall>n < 64. fa_fl fa ! n \<noteq> [] \<longrightarrow> bit (fa_mask fa) n)"

lemma mset_concat_update:
  "n < length xss \<Longrightarrow> mset (concat (xss[n := ys])) + mset (xss ! n) = mset (concat xss) + mset ys"
proof (induction xss arbitrary: n)
  case (Cons xs xss)
  then show ?case by (cases n) (auto simp: ac_simps)
qed simp

lemma concat_update_Cons:
  "n < length xss \<Longrightarrow> mset (concat (xss[n := b # ys])) = add_mset b (mset (concat (xss[n := ys])))"
  using mset_concat_update[of n xss "b # ys"] mset_concat_update[of n xss ys] by (metis add_mset_add_single
      add_right_cancel mset.simps(2) union_mset_add_mset_left union_mset_add_mset_right)

text \<open>What one pass over list \<open>n\<close> does, where \<open>rest\<close> is what is left of the list.\<close>

lemma fast_bin_run:
  assumes "length (fa_fl fa) = 64" "n < 64" "0 < n" "lowest tmask n"
    and "\<forall>k < 64. k \<noteq> n \<longrightarrow> fa_fl fa ! k \<noteq> [] \<longrightarrow> bit (fa_mask fa) k"
  shows "\<exists>r fa'. fast_bin sz want n tmask rest fa = Inr (r, fa') \<and> length (fa_fl fa') = 64 \<and>
    (\<forall>k < 64. k \<noteq> n \<longrightarrow> fa_fl fa' ! k \<noteq> [] \<longrightarrow> bit (fa_mask fa') k) \<and>
    (\<forall>k < 64. bit (fa_mask fa) k \<longrightarrow> bit (fa_mask fa') k) \<and>
    (\<forall>k. k \<noteq> n \<longrightarrow> k \<noteq> n - 1 \<longrightarrow> fa_fl fa' ! k = fa_fl fa ! k) \<and>
    (case r of
       None \<Rightarrow> fast_blocks fa' = mset (concat ((fa_fl fa)[n := rest])) \<and> fa_fl fa' ! n = [] \<and> (\<forall>b \<in> set rest. sz b < want)
     | Some b \<Rightarrow> mset (concat ((fa_fl fa)[n := rest])) = add_mset b (fast_blocks fa') \<and> b \<in> set rest \<and> want \<le> sz b)"
  using assms(1,5)
proof (induction rest arbitrary: fa)
  case Nil
  then show ?case using assms(2) by (auto simp: fast_blocks_def)
next
  case (Cons b rest)
  show ?case
  proof (cases "want \<le> sz b")
    case True
    let ?fa = "fa\<lparr>fa_fl := (fa_fl fa)[n := rest]\<rparr>"
    have "fast_bin sz want n tmask (b # rest) fa = Inr (Some b, ?fa)" using True by simp
    moreover have "mset (concat ((fa_fl fa)[n := b # rest])) = add_mset b (fast_blocks ?fa)"
      unfolding fast_blocks_def using concat_update_Cons[of n "fa_fl fa" b rest] Cons.prems(1) assms(2) by simp
    ultimately show ?thesis using True Cons.prems by (intro exI[of _ "Some b"] exI[of _ ?fa]) simp
  next
    case False
    let ?t = "tmask div 2"
    let ?fa = "fa\<lparr>fa_fl := (fa_fl fa)[n - 1 := b # fa_fl fa ! (n - 1)], fa_mask := fa_mask fa OR (?t AND - ?t)\<rparr>"
    have bits: "bit (fa_mask ?fa) k \<longleftrightarrow> bit (fa_mask fa) k \<or> k = n - 1" if "k < 64" for k
      using lowest_half[OF assms(4,3) that] by (simp add: bit_simps)
    have "\<forall>k < 64. k \<noteq> n \<longrightarrow> fa_fl ?fa ! k \<noteq> [] \<longrightarrow> bit (fa_mask ?fa) k"
      using Cons.prems(2) bits by (metis (no_types, lifting) nth_list_update_neq select_convs(1) surjective update_convs(1,2))
    then obtain r fa' where r: "fast_bin sz want n tmask rest ?fa = Inr (r, fa')" "length (fa_fl fa') = 64"
      "\<forall>k < 64. k \<noteq> n \<longrightarrow> fa_fl fa' ! k \<noteq> [] \<longrightarrow> bit (fa_mask fa') k"
      "\<forall>k < 64. bit (fa_mask ?fa) k \<longrightarrow> bit (fa_mask fa') k"
      "\<forall>k. k \<noteq> n \<longrightarrow> k \<noteq> n - 1 \<longrightarrow> fa_fl fa' ! k = fa_fl ?fa ! k"
      "case r of
         None \<Rightarrow> fast_blocks fa' = mset (concat ((fa_fl ?fa)[n := rest])) \<and> fa_fl fa' ! n = [] \<and> (\<forall>b \<in> set rest. sz b < want)
       | Some b \<Rightarrow> mset (concat ((fa_fl ?fa)[n := rest])) = add_mset b (fast_blocks fa') \<and> b \<in> set rest \<and> want \<le> sz b"
      using Cons.IH[of ?fa] Cons.prems(1) by auto
    have "fast_bin sz want n tmask (b # rest) fa = Inr (r, fa')" using False r(1) assms(3) by (simp add: Let_def)
    moreover have "mset (concat ((fa_fl ?fa)[n := rest])) = mset (concat ((fa_fl fa)[n := b # rest]))"
    proof -
      have "(fa_fl ?fa)[n := rest] = ((fa_fl fa)[n := rest])[n - 1 := b # (fa_fl fa)[n := rest] ! (n - 1)]"
        using assms(3) by (simp add: list_update_swap)
      also have "mset (concat \<dots>) = add_mset b (mset (concat ((fa_fl fa)[n := rest])))"
        using concat_update_Cons[of "n - 1" "(fa_fl fa)[n := rest]" b "(fa_fl fa)[n := rest] ! (n - 1)"] Cons.prems(1) assms(2)
        by simp
      finally show ?thesis using concat_update_Cons[of n "fa_fl fa" b rest] Cons.prems(1) assms(2) by simp
    qed
    moreover have "\<forall>k < 64. bit (fa_mask fa) k \<longrightarrow> bit (fa_mask fa') k" using r(4) bits by blast
    moreover have "\<forall>k. k \<noteq> n \<longrightarrow> k \<noteq> n - 1 \<longrightarrow> fa_fl fa' ! k = fa_fl fa ! k" using r(5) by simp
    ultimately show ?thesis using r(2,3,6) False by (intro exI[of _ r] exI[of _ fa']) (auto split: option.splits)
  qed
qed

lemma fast_loop_run:
  assumes "fast_ok fa" "\<And>k. bit tmask k \<Longrightarrow> 0 < k"
  shows "\<exists>r fa'. fast_loop sz want tmask fa = Inr (r, fa') \<and> fast_ok fa' \<and>
    (case r of
       None \<Rightarrow> fast_blocks fa' = fast_blocks fa \<and> (\<forall>k. bit tmask k \<longrightarrow> (\<forall>b \<in> set (fa_fl fa ! k). sz b < want))
     | Some b \<Rightarrow> fast_blocks fa = add_mset b (fast_blocks fa') \<and> want \<le> sz b)"
  using assms
proof (induction "unat tmask" arbitrary: tmask fa rule: less_induct)
  case less
  show ?case
  proof (cases "tmask = 0")
    case True
    with less.prems(1) show ?thesis by (simp add: fast_loop.simps[of _ _ 0])
  next
    case False
    then obtain n where n: "ffsq tmask = Inr n" "lowest tmask n" using ffsq_lowest by blast
    then have n0: "n < 64" "0 < n" "bit tmask n" using less.prems(2) by (auto simp: lowest_def)
    have len: "length (fa_fl fa) = 64" and ok: "\<forall>k < 64. fa_fl fa ! k \<noteq> [] \<longrightarrow> bit (fa_mask fa) k"
      using less.prems(1) by (auto simp: fast_ok_def)
    then have ok': "\<forall>k < 64. k \<noteq> n \<longrightarrow> fa_fl fa ! k \<noteq> [] \<longrightarrow> bit (fa_mask fa) k" by blast
    let ?m = "(tmask - 1) OR NOT tmask"
    obtain r fa1 where r: "fast_bin sz want n tmask (fa_fl fa ! n) fa = Inr (r, fa1)" "length (fa_fl fa1) = 64"
      "\<forall>k < 64. k \<noteq> n \<longrightarrow> fa_fl fa1 ! k \<noteq> [] \<longrightarrow> bit (fa_mask fa1) k"
      "\<forall>k < 64. bit (fa_mask fa) k \<longrightarrow> bit (fa_mask fa1) k"
      "\<forall>k. k \<noteq> n \<longrightarrow> k \<noteq> n - 1 \<longrightarrow> fa_fl fa1 ! k = fa_fl fa ! k"
      "case r of
         None \<Rightarrow> fast_blocks fa1 = fast_blocks fa \<and> fa_fl fa1 ! n = [] \<and> (\<forall>b \<in> set (fa_fl fa ! n). sz b < want)
       | Some b \<Rightarrow> fast_blocks fa = add_mset b (fast_blocks fa1) \<and> b \<in> set (fa_fl fa ! n) \<and> want \<le> sz b"
      using fast_bin_run[OF len n0(1,2) n(2) ok', of sz want "fa_fl fa ! n", unfolded list_update_id, folded fast_blocks_def]
      by blast
    show ?thesis
    proof (cases r)
      case (Some b)
      have "fa_fl fa ! n \<noteq> []" using r(6) Some by auto
      then have "bit (fa_mask fa1) n" using r(4) ok n0(1) by blast
      then have "fast_ok fa1" using r(2,3) unfolding fast_ok_def by metis
      moreover have "fast_loop sz want tmask fa = Inr (Some b, fa1)"
        using False n(1) r(1) Some by (simp add: fast_loop.simps[of _ _ tmask])
      ultimately show ?thesis using r(6) Some by auto
    next
      case None
      let ?fa = "fa1\<lparr>fa_mask := fa_mask fa1 AND ?m\<rparr>" and ?t = "tmask AND ?m"
      have cl: "bit ?t k \<longleftrightarrow> bit tmask k \<and> k \<noteq> n" for k
        using clear_lowest[OF n(2), of k] bit_imp_le_length[of tmask k] by (auto simp: bit_simps)
      have "fast_ok ?fa"
        unfolding fast_ok_def using r(2,3,6) None clear_lowest[OF n(2)] by (auto simp: bit_simps)
      moreover have "\<And>k. bit ?t k \<Longrightarrow> 0 < k" using less.prems(2) cl by blast
      moreover have "unat ?t < unat tmask" using and_pred_less[OF False] by (simp add: word_less_nat_alt)
      ultimately obtain r' fa' where r': "fast_loop sz want ?t ?fa = Inr (r', fa')" "fast_ok fa'"
        "case r' of
           None \<Rightarrow> fast_blocks fa' = fast_blocks ?fa \<and> (\<forall>k. bit ?t k \<longrightarrow> (\<forall>b \<in> set (fa_fl ?fa ! k). sz b < want))
         | Some b \<Rightarrow> fast_blocks ?fa = add_mset b (fast_blocks fa') \<and> want \<le> sz b"
        using less.hyps[of ?t ?fa] by blast
      have "fast_loop sz want tmask fa = Inr (r', fa')"
        using False n(1) r(1) None r'(1) by (simp add: fast_loop.simps[of _ _ tmask] Let_def)
      moreover have "fast_blocks ?fa = fast_blocks fa" using r(6) None by (simp add: fast_blocks_def)
      moreover have "\<forall>k. bit tmask k \<longrightarrow> (\<forall>b \<in> set (fa_fl fa ! k). sz b < want)" if "r' = None"
      proof (intro allI impI)
        fix k assume k: "bit tmask k"
        then have "k = n \<or> k \<noteq> n \<and> k \<noteq> n - 1" using n(2) by (auto simp: lowest_def)
        then show "\<forall>b \<in> set (fa_fl fa ! k). sz b < want" using r(5,6) r'(3) that None cl[of k] k by auto
      qed
      ultimately show ?thesis using r'(2,3) by (intro exI[of _ r'] exI[of _ fa']) (auto split: option.splits)
    qed
  qed
qed

lemma bit_15: "bit (15 :: u64) j \<longleftrightarrow> j < 4"
proof -
  have "(15 :: u64) = mask 4" by (simp add: mask_eq_exp_minus_1)
  then show ?thesis by (simp only: bit_mask_iff) auto
qed

lemma size2fl_64:
  assumes "block_size want" "64 \<le> unat want" "want \<le> FAST_64_BIN" "size2fl want = Inr n"
  shows "3 \<le> n"
proof -
  have b: "32 \<le> unat want" "unat want \<le> 67108863" using assms(2,3) by (simp_all add: FAST_64_BIN_def word_le_nat_alt)
  have "(2 :: nat) ^ 3 \<le> (unat want div 32) ^ 3" using assms(2) by (intro power_mono) auto
  then have "fls (2 ^ 3) \<le> fls ((unat want div 32) ^ 3)" by (intro fls_mono) simp_all
  moreover have "fls (2 ^ 3) = 3" by (simp add: fls.simps)
  ultimately show ?thesis using size2fl_value[OF b] assms(4) by simp
qed

text \<open>
  Taking a block from the fast lists, for a request of at least 64 bytes: the search ends without
  leaving the lists, a block it returns is large enough and is the only one taken away, and when it
  returns nothing, all blocks are still there and none of the lists it has to look at holds one that is
  large enough. The mask keeps a bit for every list that is not empty.
\<close>

lemma fast_alloc_run:
  assumes "fast_ok fa" "block_size want" "64 \<le> unat want"
  shows "\<exists>r fa'. fast_alloc sz want fa = Inr (r, fa') \<and> fast_ok fa' \<and>
    (case r of
       Some b \<Rightarrow> fast_blocks fa = add_mset b (fast_blocks fa') \<and> want \<le> sz b
     | None \<Rightarrow> fast_blocks fa' = fast_blocks fa \<and>
         (\<forall>n k. want \<le> FAST_64_BIN \<longrightarrow> size2fl want = Inr n \<longrightarrow> n \<le> k \<longrightarrow> k < n + 4 \<longrightarrow> k < 64 \<longrightarrow>
            (\<forall>b \<in> set (fa_fl fa ! k). sz b < want)))"
proof (cases "want > FAST_64_BIN")
  case True
  then have "\<not> want \<le> FAST_64_BIN" by simp
  with True assms(1) show ?thesis by (simp add: fast_alloc_def)
next
  case False
  obtain n where n: "size2fl want = Inr n" "n < 64" using size2fl_total[OF assms(2)] by blast
  let ?t = "fa_mask fa AND push_bit n 15"
  have t: "bit ?t k \<longleftrightarrow> bit (fa_mask fa) k \<and> n \<le> k \<and> k < n + 4" if "k < 64" for k
    unfolding bit_and_iff bit_push_bit_iff bit_15 using that by auto
  have "0 < k" if "bit ?t k" for k
    using that t[of k] bit_imp_le_length[OF that] size2fl_64[OF assms(2,3) leI[OF False] n(1)] by auto
  then obtain r fa' where r: "fast_loop sz want ?t fa = Inr (r, fa')" "fast_ok fa'"
    "case r of
       None \<Rightarrow> fast_blocks fa' = fast_blocks fa \<and> (\<forall>k. bit ?t k \<longrightarrow> (\<forall>b \<in> set (fa_fl fa ! k). sz b < want))
     | Some b \<Rightarrow> fast_blocks fa = add_mset b (fast_blocks fa') \<and> want \<le> sz b"
    using fast_loop_run[OF assms(1)] by blast
  have "fast_alloc sz want fa = Inr (r, fa')" using False n(1) r(1) by (simp add: fast_alloc_def)
  moreover have "\<forall>b \<in> set (fa_fl fa ! k). sz b < want" if "r = None" "n \<le> k" "k < n + 4" "k < 64" for k
    using r(3) that t[OF that(4)] assms(1) by (cases "fa_fl fa ! k = []") (auto simp: fast_ok_def)
  ultimately show ?thesis using r(2,3) n(1) by (intro exI[of _ r] exI[of _ fa']) (auto split: option.splits)
qed

text \<open>
  Requests of 32 or 48 bytes look at list 0, which also holds the blocks of 16 bytes. The first such block
  is pushed on the list before list 0.
\<close>

lemma fast_alloc_underflow:
  assumes "fa_fl fa ! 0 = b # rest" "bit (fa_mask fa) 0" "sz b < want" "want = 32 \<or> want = 48"
  shows "fast_alloc sz want fa = Inl (Undefined ''fl[-1]'')"
proof -
  let ?t = "fa_mask fa AND 15"
  have fl: "size2fl want = Inr 0" using assms(4) size2fl_value[of 32] size2fl_value[of 48] by (auto simp: fls.simps)
  have t: "bit ?t 0" using assms(2) by (simp add: bit_simps)
  then have "?t \<noteq> 0" by auto
  moreover from this obtain n where "ffsq ?t = Inr n" "lowest ?t n" using ffsq_lowest by blast
  moreover have "n = 0" using t calculation(3) unfolding lowest_def by (cases n) auto
  ultimately have "fast_loop sz want ?t fa = Inl (Undefined ''fl[-1]'')"
    using assms(1,3) by (simp add: fast_loop.simps[of _ _ ?t] not_le)
  moreover have "want \<le> FAST_64_BIN" using assms(4) by (auto simp: FAST_64_BIN_def)
  ultimately show ?thesis using fl by (simp add: fast_alloc_def not_less[symmetric] leD)
qed

end
