(* ===== verification/LA_Blocks.thy ===== *)
theory LA_Blocks
  imports LA_Fast
begin

text \<open>
  The blocks of the allocator that are not slabs (\<^verbatim>\<open>src/others/tmi/src/ll_alloc.c\<close>): a block is cut into nodes,
  each with a separator in front of it. The separator holds the offset of the node in its block, flags for the
  node and for the node to its left, and the size; while a node of 16 bytes is free, a link of the list of such
  nodes takes the place of offset and size. The functions split nodes, merge freed nodes with free neighbours, and
  take free nodes out of the lists of their size. Nodes of more than 1008 bytes are kept in a B-tree; the calls to
  it are recorded.
\<close>

unbundle bit_operations_syntax

section \<open>Separators\<close>

datatype btree_call = BtreeInsert u64 u64 | BtreeNodeDel u64

text \<open>
  A separator has the words \<^verbatim>\<open>left\<close> and \<open>tag\<close>; the low half of \<open>tag\<close> is \<^verbatim>\<open>bs_offset\<close> and the high half \<^verbatim>\<open>size\<close>,
  and the whole word is \<^verbatim>\<open>prev\<close>. \<open>bh_data\<close> is the first word behind the separator. For a node of 16 bytes that is
  also the word \<^verbatim>\<open>left\<close> of the next separator; it is read as the former only when the node is free and as the latter
  only when a node of another size is to its left. \<open>bh_q8\<close> is the address of the
  head of the list of 16-byte nodes, \<open>bh_qs\<close> the lists of larger nodes.
\<close>

record bheap =
  bh_left :: "u64 \<Rightarrow> u64"
  bh_tag :: "u64 \<Rightarrow> u64"
  bh_data :: "u64 \<Rightarrow> u64"
  bh_q8 :: u64
  bh_qs :: "u64 list list"
  bh_q_mask :: u64
  bh_fast :: fast_lists
  bh_btree :: "btree_call list"
  bh_bl :: "u64 list"
  bh_a_alloced :: u64
  bh_s_wanted :: u64
  bh_returned :: "(u64 \<times> u64) list"

definition mk_tag :: "u32 \<Rightarrow> u32 \<Rightarrow> u64" where
  "mk_tag off sz = push_bit 32 (ucast sz) OR ucast off"

definition tag_off :: "u64 \<Rightarrow> u32" where
  "tag_off w = ucast w"

definition tag_size :: "u64 \<Rightarrow> u32" where
  "tag_size w = ucast (drop_bit 32 w)"

abbreviation FLG_UNUSED :: u32 where "FLG_UNUSED \<equiv> 1"
abbreviation FLG_LUNUSED :: u32 where "FLG_LUNUSED \<equiv> 2"
abbreviation FLG_LSIZE8 :: u32 where "FLG_LSIZE8 \<equiv> 4"
abbreviation FLG_SIZE8 :: u32 where "FLG_SIZE8 \<equiv> 8"
abbreviation QS_MAX :: u64 where "QS_MAX \<equiv> 1008"

abbreviation bs_offset :: "bheap \<Rightarrow> u64 \<Rightarrow> u32" where
  "bs_offset h b \<equiv> tag_off (bh_tag h b)"

abbreviation bsize :: "bheap \<Rightarrow> u64 \<Rightarrow> u32" where
  "bsize h b \<equiv> tag_size (bh_tag h b)"

abbreviation set_bs_offset :: "u64 \<Rightarrow> u32 \<Rightarrow> bheap \<Rightarrow> bheap" where
  "set_bs_offset b v h \<equiv> h\<lparr>bh_tag := (bh_tag h)(b := mk_tag v (bsize h b))\<rparr>"

abbreviation set_bsize :: "u64 \<Rightarrow> u32 \<Rightarrow> bheap \<Rightarrow> bheap" where
  "set_bsize b v h \<equiv> h\<lparr>bh_tag := (bh_tag h)(b := mk_tag (bs_offset h b) v)\<rparr>"

definition un_used :: "bheap \<Rightarrow> u64 \<Rightarrow> bool" where
  "un_used h b \<longleftrightarrow> bs_offset h b AND FLG_UNUSED \<noteq> 0"

definition left_unused :: "bheap \<Rightarrow> u64 \<Rightarrow> bool" where
  "left_unused h b \<longleftrightarrow> bs_offset h b AND FLG_LUNUSED \<noteq> 0"

definition set_unused :: "u64 \<Rightarrow> u64 \<Rightarrow> bheap \<Rightarrow> bheap" where
  "set_unused b br h =
     (let h1 = set_bs_offset br (bs_offset h br OR FLG_LUNUSED) h;
          h2 = h1\<lparr>bh_left := (bh_left h1)(br := b)\<rparr>
      in set_bs_offset b (bs_offset h2 b OR FLG_UNUSED) h2)"

definition set_used :: "u64 \<Rightarrow> u64 \<Rightarrow> bheap \<Rightarrow> bheap" where
  "set_used b sz h =
     (let br = b + sz; h1 = set_bs_offset br (bs_offset h br AND NOT FLG_LUNUSED) h
      in set_bs_offset b (bs_offset h1 b AND NOT FLG_UNUSED) h1)"

definition set_size8 :: "u64 \<Rightarrow> bheap \<Rightarrow> bheap" where
  "set_size8 b h =
     (let br = b + 16; h1 = set_bs_offset br (bs_offset h br OR FLG_LSIZE8) h
      in set_bs_offset b (bs_offset h1 b OR FLG_SIZE8) h1)"

definition unset_size8 :: "u64 \<Rightarrow> bheap \<Rightarrow> bheap" where
  "unset_size8 b h =
     (let br = b + 16; h1 = set_bs_offset br (bs_offset h br AND NOT FLG_LSIZE8) h;
          h2 = set_bs_offset b (bs_offset h1 b AND NOT FLG_SIZE8) h1;
          h3 = set_bsize b 16 h2;
          h4 = set_bs_offset b (bs_offset h3 b AND 15) h3
      in set_bs_offset b (bs_offset h4 b + ((bs_offset h4 br AND NOT 15) - 16)) h4)"

definition small_prev :: "bheap \<Rightarrow> u64 \<Rightarrow> u64" where
  "small_prev h b = bh_tag h b AND NOT 15"

definition set_small_prev :: "u64 \<Rightarrow> u64 \<Rightarrow> bheap \<Rightarrow> bheap" where
  "set_small_prev b prev h = h\<lparr>bh_tag := (bh_tag h)(b := (bh_tag h b AND 15) + prev)\<rparr>"

abbreviation small_next :: "bheap \<Rightarrow> u64 \<Rightarrow> u64" where
  "small_next h b \<equiv> bh_data h b"

abbreviation set_small_next :: "u64 \<Rightarrow> u64 \<Rightarrow> bheap \<Rightarrow> bheap" where
  "set_small_next b nxt h \<equiv> h\<lparr>bh_data := (bh_data h)(b := nxt)\<rparr>"

definition set_sep :: "u64 \<Rightarrow> u32 \<Rightarrow> u64 \<Rightarrow> bheap \<Rightarrow> bheap" where
  "set_sep b sz bo h =
     (let offset = bs_offset h bo AND NOT 15;
          h1 = set_bs_offset b (offset + ucast (b - bo)) h
      in set_bsize b sz h1)"

section \<open>The list of 16-byte nodes\<close>

definition small_insert :: "u64 \<Rightarrow> bheap \<Rightarrow> bheap" where
  "small_insert b h0 =
     (let h = set_size8 b h0; q8 = bh_q8 h; qp = small_prev h q8;
          h1 = set_small_next qp b (set_small_prev b qp h)
      in set_small_prev q8 b (set_small_next b q8 h1))"

definition small_remove :: "u64 \<Rightarrow> bheap \<Rightarrow> bheap" where
  "small_remove b h =
     (let qn = small_next h b; qp = small_prev h b
      in unset_size8 b (set_small_prev qn qp (set_small_next qp qn h)))"

definition small_del_first :: "bheap \<Rightarrow> u64 option \<times> bheap" where
  "small_del_first h =
     (let q8 = bh_q8 h; b = small_next h q8; qn = small_next h b
      in if b = q8 then (None, h)
         else (Some b, unset_size8 b (set_small_prev qn q8 (set_small_next q8 qn h))))"

section \<open>Splitting and merging\<close>

definition free_rest :: "u64 \<Rightarrow> u64 \<Rightarrow> bheap \<Rightarrow> bheap result" where
  "free_rest b ms h = bindE (fast_free b ms (bh_fast h)) (\<lambda>fa. Inr (h\<lparr>bh_fast := fa\<rparr>))"

definition split_node_rhs :: "u64 \<Rightarrow> u64 \<Rightarrow> u64 \<Rightarrow> bheap \<Rightarrow> (u64 \<times> bheap) result" where
  "split_node_rhs b t_size msize h =
     (let r_size = t_size - msize; bm = b + msize
      in if r_size = 0 then Inr (b, h)
         else bindE (free_rest b msize (set_sep bm (ucast r_size) b (set_bsize b (ucast msize) h))) (\<lambda>h1. Inr (bm, h1)))"

definition split_node :: "u64 \<Rightarrow> u64 \<Rightarrow> u64 \<Rightarrow> bheap \<Rightarrow> (u64 \<times> bheap) result" where
  "split_node b t_size msize h =
     (let r_size = t_size - msize; bm = b + msize
      in if r_size * 4 < msize then Inr (b + 16, h)
         else bindE (free_rest bm r_size (set_sep bm (ucast r_size) b (set_bsize b (ucast msize) h))) (\<lambda>h1. Inr (b + 16, h1)))"

definition node_insert :: "u64 \<Rightarrow> bheap \<Rightarrow> bheap" where
  "node_insert b h =
     (let sz = ucast (bsize h b)
      in if sz > QS_MAX then h\<lparr>bh_btree := bh_btree h @ [BtreeInsert b sz]\<rparr>
         else if sz = 16 then small_insert b h
         else h\<lparr>bh_qs := (bh_qs h)[unat (sz div 16) - 1 := b # bh_qs h ! (unat (sz div 16) - 1)],
                bh_q_mask := bh_q_mask h OR push_bit (unat ((sz - 8) div 16)) 1\<rparr>)"

definition take_out :: "u64 \<Rightarrow> bheap \<Rightarrow> bheap" where
  "take_out b h =
     (if ucast (bsize h b) > QS_MAX then h\<lparr>bh_btree := bh_btree h @ [BtreeNodeDel b]\<rparr>
      else h\<lparr>bh_qs := map (removeAll b) (bh_qs h)\<rparr>)"

text \<open>A block that is wholly free goes back to the kernel unless it is a large share of what the thread has.\<close>

definition merge_node_aux :: "u64 \<Rightarrow> bheap \<Rightarrow> bheap" where
  "merge_node_aux bl h =
     (let msize = ucast (bsize h bl); br = bl + msize;
          save = (\<lambda>h. node_insert bl (set_unused bl br h))
      in if ucast (bs_offset h bl) \<ge> HEADERSIZE \<or> bsize h br \<noteq> 0 \<or> msize * 4 > bh_a_alloced h then save h
         else if bh_s_wanted h \<noteq> 0 \<and> bh_s_wanted h \<le> ucast (bsize h bl) then save (h\<lparr>bh_s_wanted := 0\<rparr>)
         else let m = page_start bl; total = ucast (bsize h (m + 16)) + HEADERSIZE
              in h\<lparr>bh_bl := removeAll m (bh_bl h), bh_a_alloced := bh_a_alloced h - total,
                   bh_returned := bh_returned h @ [(m, total)]\<rparr>)"

definition merge_right :: "u64 \<Rightarrow> bheap \<Rightarrow> bheap" where
  "merge_right b h =
     (let br = b + ucast (bsize h b)
      in if un_used h br then
           let (tsize, h1) = (if bs_offset h br AND FLG_SIZE8 \<noteq> 0 then (16, small_remove br h)
                              else (bsize h br, take_out br h))
           in set_bsize b (bsize h1 b + tsize) h1
         else h)"

definition merge_left :: "u64 \<Rightarrow> bheap \<Rightarrow> u64 \<times> bheap" where
  "merge_left b h =
     (if left_unused h b then
        let (bl, h1) = (if bs_offset h b AND FLG_LSIZE8 \<noteq> 0 then (b - 16, small_remove (b - 16) h)
                        else (bh_left h b, take_out (bh_left h b) h))
        in (bl, set_bsize bl (bsize h1 bl + bsize h1 b) h1)
      else (b, h))"

definition merge_node :: "u64 \<Rightarrow> bheap \<Rightarrow> bheap" where
  "merge_node p h = (let (bl, h1) = merge_left (p - 16) (merge_right (p - 16) h) in merge_node_aux bl h1)"

section \<open>Allocation from the lists\<close>

text \<open>A new block: one node in use and the separator at its end.\<close>

definition new_block :: "u64 \<Rightarrow> u64 \<Rightarrow> bheap \<Rightarrow> bheap" where
  "new_block m tasize h =
     (let rsize = tasize - HEADERSIZE; b = m + 16; br = b + rsize;
          h1 = h\<lparr>bh_a_alloced := bh_a_alloced h + tasize, bh_bl := m # bh_bl h\<rparr>;
          h2 = set_bs_offset b 16 (set_bsize b (ucast rsize) h1)
      in set_bs_offset br (ucast (tasize - SEPSIZE)) h2)"

function slow_loop :: "u64 \<Rightarrow> u64 \<Rightarrow> bheap \<Rightarrow> (u64 option \<times> bheap) result" where
  "slow_loop want tmask h =
     (if tmask = 0 then Inr (None, h)
      else bindE (ffsq tmask) (\<lambda>n. case bh_qs h ! n of
             b # rest \<Rightarrow>
               let rsize = word_of_nat (16 * (n + 1))
               in bindE (split_node b rsize want (set_used b rsize (h\<lparr>bh_qs := (bh_qs h)[n := rest]\<rparr>)))
                    (\<lambda>(p, h1). Inr (Some p, h1))
           | [] \<Rightarrow>
               let m = (tmask - 1) OR NOT tmask
               in slow_loop want (tmask AND m) (h\<lparr>bh_q_mask := bh_q_mask h AND m\<rparr>)))"
  by pat_completeness auto
termination
  by (relation "measure (\<lambda>(want, tmask, h). unat tmask)") (auto simp: word_less_nat_alt[symmetric] and_pred_less)

declare slow_loop.simps [simp del]

definition slow_alloc_aux :: "u64 \<Rightarrow> bheap \<Rightarrow> (u64 option \<times> bheap) result" where
  "slow_alloc_aux want h =
     (if want = 16 then (case small_del_first h of
          (Some b, h1) \<Rightarrow> Inr (Some (b + 16), set_used b 16 h1)
        | (None, h1) \<Rightarrow> slow_loop want (bh_q_mask h1 AND push_bit 1 (NOT 0)) h1)
      else slow_loop want (bh_q_mask h AND push_bit (unat (want div 16 - 1)) (NOT 0)) h)"

section \<open>Emptying the fast lists\<close>

text \<open>Everything on list \<open>n\<close> is merged with its neighbours, from the top of the stack on.\<close>

definition clear_list :: "nat \<Rightarrow> bheap \<Rightarrow> bheap" where
  "clear_list n h =
     fold (\<lambda>b. merge_node (b + 16)) (fa_fl (bh_fast h) ! n)
       (h\<lparr>bh_fast := (bh_fast h)\<lparr>fa_fl := (fa_fl (bh_fast h))[n := []]\<rparr>\<rparr>)"

lemma small_fast: "bh_fast (small_insert b h) = bh_fast h" "bh_fast (small_remove b h) = bh_fast h"
  by (simp_all add: small_insert_def small_remove_def set_size8_def unset_size8_def set_small_prev_def Let_def)

lemma node_fast: "bh_fast (node_insert b h) = bh_fast h" "bh_fast (take_out b h) = bh_fast h" "bh_fast (set_unused b c h) = bh_fast h"
  by (simp_all add: node_insert_def take_out_def set_unused_def small_fast Let_def)

lemma merge_aux_fast: "bh_fast (merge_node_aux b h) = bh_fast h"
  by (simp add: merge_node_aux_def node_fast Let_def)

lemma merge_sides_fast: "bh_fast (merge_right b h) = bh_fast h" "bh_fast (snd (merge_left b h)) = bh_fast h"
  by (simp_all add: merge_right_def merge_left_def node_fast small_fast Let_def)

lemma merge_node_fast: "bh_fast (merge_node p h) = bh_fast h"
  using merge_sides_fast(2)[of "p - 16" "merge_right (p - 16) h"] by (simp add: merge_node_def merge_aux_fast merge_sides_fast split_beta)

lemma clear_list_fast: "bh_fast (clear_list n h) = (bh_fast h)\<lparr>fa_fl := (fa_fl (bh_fast h))[n := []]\<rparr>"
proof -
  have "bh_fast (fold (\<lambda>b. merge_node (b + 16)) bs h) = bh_fast h" for bs h
    by (induction bs arbitrary: h) (simp_all add: merge_node_fast)
  then show ?thesis by (simp add: clear_list_def)
qed

lemma clear_bottom: "(t :: u64) AND NOT (t AND - t) = t AND ((t - 1) OR NOT t)"
proof -
  have "- t = NOT (t - 1)" by (simp add: not_eq_complement)
  then show ?thesis by (simp add: bit_eq_iff bit_simps) blast
qed

lemma clear_less: "(t :: u64) \<noteq> 0 \<Longrightarrow> unat (t AND NOT (t AND - t)) < unat t"
  unfolding clear_bottom word_less_nat_alt[symmetric] by (rule and_pred_less)

function clear_fast :: "bheap \<Rightarrow> bheap result" where
  "clear_fast h =
     (let mask = fa_mask (bh_fast h)
      in if mask = 0 then Inr h
         else bindE (ffsq mask) (\<lambda>n.
           let h1 = clear_list n h
           in clear_fast (h1\<lparr>bh_fast := (bh_fast h1)\<lparr>fa_mask := fa_mask (bh_fast h1) AND NOT (mask AND - mask)\<rparr>\<rparr>)))"
  by pat_completeness auto
termination
proof (relation "measure (\<lambda>h. unat (fa_mask (bh_fast h)))", simp)
  fix h :: bheap and mask n h1
  assume m: "mask = fa_mask (bh_fast h)" "mask \<noteq> 0" and "h1 = clear_list n h"
  then have h1: "fa_mask (bh_fast h1) = mask" by (simp add: clear_list_fast)
  have "fa_mask (bh_fast (h1\<lparr>bh_fast := (bh_fast h1)\<lparr>fa_mask := x\<rparr>\<rparr>)) = x" for x by simp
  then show "(h1\<lparr>bh_fast := (bh_fast h1)\<lparr>fa_mask := fa_mask (bh_fast h1) AND NOT (mask AND - mask)\<rparr>\<rparr>, h)
      \<in> measure (\<lambda>h. unat (fa_mask (bh_fast h)))"
    unfolding in_measure h1 m(1)[symmetric] using clear_less[OF m(2)] by (simp only:)
qed

declare clear_fast.simps [simp del]

section \<open>A new block\<close>

abbreviation BTMALLOC :: u64 where "BTMALLOC \<equiv> push_bit 27 1 - HEADERSIZE"
abbreviation MINALLOC :: u64 where "MINALLOC \<equiv> push_bit 21 1"

definition block_tasize :: "u64 \<Rightarrow> u64 \<Rightarrow> u64" where
  "block_tasize a_alloced sz =
     (let t1 = page_align (sz + (sz + a_alloced) div 3);
          t2 = (if t1 > BTMALLOC then BTMALLOC else t1)
      in if t2 < MINALLOC then MINALLOC else t2)"

text \<open>
  \<open>big_alloc_aux\<close> answers a request for memory; it changes the state \<open>k\<close> of the provider. Requests of \<open>BTMALLOC\<close> bytes
  or more have a mapping of their own, with its size in front.
\<close>

definition big_alloc :: "(u64 \<Rightarrow> 'k \<Rightarrow> u64 option \<times> 'k) \<Rightarrow> u64 \<Rightarrow> bheap \<Rightarrow> 'k \<Rightarrow> (u64 option \<times> bheap \<times> 'k) result" where
  "big_alloc big_alloc_aux sz h k =
     (if sz > TOP_SIZE then Inr (None, h, k)
      else let psize = page_align (sz + SEPSIZE)
           in case big_alloc_aux psize k of
                (Some p, k1) \<Rightarrow> Inr (Some (p + SEPSIZE), h\<lparr>bh_left := (bh_left h)(p := psize)\<rparr>, k1)
              | (None, k1) \<Rightarrow> Inr (None, h, k1))"

definition block_alloc_aux :: "(u64 \<Rightarrow> 'k \<Rightarrow> u64 option \<times> 'k) \<Rightarrow> u64 \<Rightarrow> bheap \<Rightarrow> 'k \<Rightarrow> (u64 option \<times> bheap \<times> 'k) result" where
  "block_alloc_aux big_alloc_aux sz h k =
     (let tasize = block_tasize (bh_a_alloced h) sz; smaller = page_align (sz + HEADERSIZE);
          fill = (\<lambda>ma t k. bindE (split_node (ma + 16) (t - HEADERSIZE) sz (new_block ma t h)) (\<lambda>(p, h1). Inr (Some p, h1, k)))
      in case big_alloc_aux tasize k of (Some ma, k1) \<Rightarrow> fill ma tasize k1
         | (None, k1) \<Rightarrow> (case big_alloc_aux smaller k1 of (Some ma, k2) \<Rightarrow> fill ma smaller k2 | (None, k2) \<Rightarrow> Inr (None, h, k2)))"

section \<open>Allocating and freeing\<close>

text \<open>
  \<open>best\<close> is the node that a search of the B-tree ends in, after the given calls. The object of a node starts behind its
  separator.
\<close>

definition fast_take :: "u64 \<Rightarrow> bheap \<Rightarrow> (u64 option \<times> bheap) result" where
  "fast_take sz h = bindE (fast_alloc (\<lambda>b. ucast (bsize h b)) sz (bh_fast h)) (\<lambda>(r, fa).
     Inr (map_option (\<lambda>b. b + 16) r, h\<lparr>bh_fast := fa\<rparr>))"

definition btree_get :: "(btree_call list \<Rightarrow> u64 \<Rightarrow> u64 option) \<Rightarrow> u64 \<Rightarrow> bheap \<Rightarrow> u64 option \<times> bheap" where
  "btree_get best sz h =
     (case best (bh_btree h) sz of None \<Rightarrow> (None, h)
      | Some b \<Rightarrow> (Some b, set_used b (ucast (bsize h b)) (h\<lparr>bh_btree := bh_btree h @ [BtreeNodeDel b]\<rparr>)))"

definition block_search :: "(btree_call list \<Rightarrow> u64 \<Rightarrow> u64 option) \<Rightarrow> u64 \<Rightarrow> bheap \<Rightarrow> (u64 option \<times> bheap) result" where
  "block_search best sz h =
     bindE
       (if sz \<le> QS_MAX then bindE (slow_alloc_aux sz h) (\<lambda>(r, h1). case r of Some p \<Rightarrow> Inr (Some p, h1)
                               | None \<Rightarrow> bindE (clear_fast h1) (slow_alloc_aux sz))
        else bindE (clear_fast h) (\<lambda>h1. Inr (None, h1)))
       (\<lambda>(r, h1). case r of Some p \<Rightarrow> Inr (Some p, h1)
        | None \<Rightarrow> (case btree_get best sz h1 of
            (Some b, h2) \<Rightarrow> bindE (split_node b (ucast (bsize h2 b)) sz h2) (\<lambda>(p, h3). Inr (Some p, h3))
          | (None, h2) \<Rightarrow> Inr (None, h2)))"

text \<open>
  \<open>q\<close> has the objects that other threads freed, in the order in which the queue links them. All but the last one are
  taken over, those in slabs by \<open>slab_free\<close>; the last one stays and is made small.
\<close>

definition scan_queue :: "(u64 \<Rightarrow> bool) \<Rightarrow> (u64 \<Rightarrow> 'k \<Rightarrow> 'k) \<Rightarrow> u64 \<Rightarrow> u64 list \<Rightarrow> bheap \<Rightarrow> 'k \<Rightarrow> (bool \<times> u64 list \<times> bheap \<times> 'k) result" where
  "scan_queue slab slab_free wanted q h k =
     (let (h1, k1) = fold (\<lambda>p (h, k). if slab p then (h, slab_free p k) else (merge_node p h, k)) (butlast q) (h\<lparr>bh_s_wanted := wanted\<rparr>, k);
          flag = (butlast q \<noteq> []); qp = last q; h2 = h1\<lparr>bh_s_wanted := 0\<rparr>; b = qp - 16; msize = ucast (bsize h2 b)
      in if slab qp \<or> msize \<le> push_bit 16 1 then Inr (flag, [qp], h2, k1)
         else bindE (split_node b msize 32 h2) (\<lambda>(_, h3). Inr (True, [qp], h3, k1)))"

text \<open>
  The whole search for a node, as long as no other thread has ended. It starts again when other threads sent objects
  back, at most \<open>n\<close> times.
\<close>

fun slow_alloc :: "nat \<Rightarrow> (btree_call list \<Rightarrow> u64 \<Rightarrow> u64 option) \<Rightarrow> (u64 \<Rightarrow> 'k \<Rightarrow> u64 option \<times> 'k) \<Rightarrow> (u64 \<Rightarrow> bool) \<Rightarrow> (u64 \<Rightarrow> 'k \<Rightarrow> 'k) \<Rightarrow>
    u64 \<Rightarrow> u64 list \<Rightarrow> bheap \<Rightarrow> 'k \<Rightarrow> (u64 option \<times> u64 list \<times> bheap \<times> 'k) result"
  and block_alloc :: "nat \<Rightarrow> (btree_call list \<Rightarrow> u64 \<Rightarrow> u64 option) \<Rightarrow> (u64 \<Rightarrow> 'k \<Rightarrow> u64 option \<times> 'k) \<Rightarrow> (u64 \<Rightarrow> bool) \<Rightarrow> (u64 \<Rightarrow> 'k \<Rightarrow> 'k) \<Rightarrow>
    u64 \<Rightarrow> u64 list \<Rightarrow> bheap \<Rightarrow> 'k \<Rightarrow> (u64 option \<times> u64 list \<times> bheap \<times> 'k) result" where
  "slow_alloc n best big_alloc_aux slab slab_free sz q h k =
     bindE (if sz \<le> QS_MAX then slow_alloc_aux sz h else Inr (None, h)) (\<lambda>(r, h1). case r of Some p \<Rightarrow> Inr (Some p, q, h1, k)
       | None \<Rightarrow> block_alloc n best big_alloc_aux slab slab_free sz q h1 k)"
| "block_alloc n best big_alloc_aux slab slab_free sz q h k =
     (if sz \<ge> BTMALLOC then bindE (big_alloc big_alloc_aux sz h k) (\<lambda>(r, h1, k1). Inr (r, q, h1, k1))
      else bindE (block_search best sz h) (\<lambda>(r, h1). case r of Some p \<Rightarrow> Inr (Some p, q, h1, k)
        | None \<Rightarrow> bindE (scan_queue slab slab_free sz q h1 k) (\<lambda>(flag, q2, h2, k2).
            if flag then (case n of 0 \<Rightarrow> Inl (Undefined ''rounds'') | Suc m \<Rightarrow> slow_alloc m best big_alloc_aux slab slab_free sz q2 h2 k2)
            else bindE (block_alloc_aux big_alloc_aux sz h2 k2) (\<lambda>(r, h3, k3). Inr (r, q2, h3, k3)))))"

declare slow_alloc.simps [simp del] block_alloc.simps [simp del]

text \<open>A request of \<open>n\<close> bytes that is too large for the slabs.\<close>

definition malloc_block :: "(btree_call list \<Rightarrow> u64 \<Rightarrow> u64 option) \<Rightarrow> (u64 \<Rightarrow> 'k \<Rightarrow> u64 option \<times> 'k) \<Rightarrow> (u64 \<Rightarrow> bool) \<Rightarrow> (u64 \<Rightarrow> 'k \<Rightarrow> 'k) \<Rightarrow>
    u64 \<Rightarrow> u64 list \<Rightarrow> bheap \<Rightarrow> 'k \<Rightarrow> (u64 option \<times> u64 list \<times> bheap \<times> 'k) result" where
  "malloc_block best big_alloc_aux slab slab_free n q h k =
     (if n > BTMALLOC then bindE (big_alloc big_alloc_aux n h k) (\<lambda>(r, h1, k1). Inr (r, q, h1, k1))
      else let sz = sep_align n
           in bindE (fast_take sz h) (\<lambda>(r, h1). case r of Some p \<Rightarrow> Inr (Some p, q, h1, k)
                | None \<Rightarrow> slow_alloc 1 best big_alloc_aux slab slab_free sz q h1 k))"

abbreviation FREE_FAST :: u32 where "FREE_FAST \<equiv> 65535"

text \<open>An object of this thread in a block is freed; now and then the fast lists are emptied.\<close>

definition free_block :: "u64 \<Rightarrow> u32 \<Rightarrow> bheap \<Rightarrow> (u32 \<times> bheap) result" where
  "free_block p fcount h =
     (let b = p - 16
      in bindE (free_rest b (ucast (bsize h b)) h) (\<lambda>h1.
           let fcount = fcount + 1
           in if fcount AND FREE_FAST = 0 then bindE (clear_fast h1) (\<lambda>h2. Inr (fcount, h2)) else Inr (fcount, h1)))"

text \<open>
  An object in a block of this thread gets a new size in place: a smaller one by cutting off the rest, a larger one
  when the node to its right is free. An object of another thread can only become smaller; the rest is sent back.
\<close>

definition realloc_grow :: "u64 \<Rightarrow> u64 \<Rightarrow> bheap \<Rightarrow> u64 \<times> bheap" where
  "realloc_grow b msize h =
     (let br = b + msize
      in if un_used h br then
           if bs_offset h br AND FLG_SIZE8 \<noteq> 0 then
             let h1 = small_remove br h; h2 = set_bsize b (bsize h1 b + 16) h1; br2 = br + 16
             in (msize + 16, set_bs_offset br2 (bs_offset h2 br2 AND NOT FLG_LUNUSED) h2)
           else
             let rsize = bsize h br
             in if rsize \<noteq> 0 then
                  let h1 = take_out br h; h2 = set_bsize b (bsize h1 b + rsize) h1; br2 = br + ucast rsize
                  in (msize + ucast rsize, set_bs_offset br2 (bs_offset h2 br2 AND NOT FLG_LUNUSED) h2)
                else (msize, h)
         else (msize, h))"

definition realloc_local :: "u64 \<Rightarrow> u64 \<Rightarrow> bheap \<Rightarrow> (u64 option \<times> bheap) result" where
  "realloc_local p n h =
     (let b = p - 16; msize = ucast (bsize h b); sz = sep_align n
      in if msize \<le> sz * 2 \<and> msize \<ge> sz then Inr (Some p, h)
         else if sz \<le> msize then bindE (split_node b msize sz h) (\<lambda>(r, h1). Inr (Some r, h1))
         else bindE (clear_fast h) (\<lambda>h1.
           let (msize, h2) = realloc_grow b msize h1
           in if sz \<le> msize then bindE (split_node b msize sz h2) (\<lambda>(r, h3). Inr (Some r, h3)) else Inr (None, h2)))"

definition realloc_foreign :: "u64 \<Rightarrow> u64 \<Rightarrow> bheap \<Rightarrow> u64 option \<times> u64 option \<times> bheap" where
  "realloc_foreign p n h =
     (let b = p - 16; msize = ucast (bsize h b); sz = sep_align n
      in if msize \<le> sz * 2 \<and> msize \<ge> sz then (Some p, None, h)
         else if sz \<le> msize then
           let bm = b + sz in (Some p, Some (bm + 16), set_sep bm (ucast (msize - sz)) b (set_bsize b (ucast sz) h))
         else (None, None, h))"

text \<open>
  The first block of a thread, from which the first element of its queue is cut. The structure of the thread is
  zeroed memory; \<open>q8\<close> is the head of the list of 16-byte nodes in it.
\<close>

definition thread_heap :: "(u64 \<Rightarrow> u64) \<Rightarrow> (u64 \<Rightarrow> u64) \<Rightarrow> (u64 \<Rightarrow> u64) \<Rightarrow> u64 \<Rightarrow> bheap" where
  "thread_heap left tag data q8 =
     set_small_prev q8 q8 (set_small_next q8 q8
       \<lparr>bh_left = left, bh_tag = tag, bh_data = data, bh_q8 = q8, bh_qs = replicate 64 [], bh_q_mask = 0,
        bh_fast = \<lparr>fa_fl = replicate 64 [], fa_mask = 0\<rparr>, bh_btree = [], bh_bl = [], bh_a_alloced = 0,
        bh_s_wanted = 0, bh_returned = []\<rparr>)"

definition first_block :: "u64 \<Rightarrow> bheap \<Rightarrow> (u64 \<times> bheap) result" where
  "first_block m h = split_node (m + 16) (PAGESIZE - HEADERSIZE) SEPSIZE (new_block m PAGESIZE h)"

definition init_atls :: "(u64 \<Rightarrow> 'k \<Rightarrow> u64 option \<times> 'k) \<Rightarrow> bheap \<Rightarrow> 'k \<Rightarrow> ((u64 \<times> bheap) option \<times> 'k) result" where
  "init_atls big_alloc_aux h k = (case big_alloc_aux PAGESIZE k of
       (None, k1) \<Rightarrow> Inr (None, k1)
     | (Some m, k1) \<Rightarrow> bindE (first_block m h) (\<lambda>(head, h1). Inr (Some (head, set_small_next (head - 16) 0 h1), k1)))"

end
