(* ===== verification/LA_BlockLayout.thy ===== *)
theory LA_BlockLayout
  imports LA_Blocks TMI_List
begin

text \<open>
  What the separators of a block say: the nodes tile the block, the flags agree on both sides of a separator, no
  two neighbours are free, and exactly the free nodes of 16 bytes are on their list. Splitting and merging keep it.
\<close>

unbundle bit_operations_syntax

section \<open>Tags\<close>

lemma tag_sel [simp]: "tag_off (mk_tag f z) = f" "tag_size (mk_tag f z) = z"
proof -
  show "tag_off (mk_tag f z) = f"
    by (rule bit_word_eqI) (auto simp: tag_off_def mk_tag_def bit_simps)
  show "tag_size (mk_tag f z) = z"
    by (rule bit_word_eqI) (auto simp: tag_size_def mk_tag_def bit_simps dest: bit_imp_le_length)
qed

lemma tag_ext: "mk_tag (tag_off w) (tag_size w) = w"
  by (rule bit_word_eqI) (auto simp: tag_off_def tag_size_def mk_tag_def bit_simps)

definition fl :: "bool \<Rightarrow> bool \<Rightarrow> bool \<Rightarrow> bool \<Rightarrow> u32" where
  "fl u l l8 s8 = (if u then 1 else 0) OR (if l then 2 else 0) OR (if l8 then 4 else 0) OR (if s8 then 8 else 0)"

lemma fl_set:
  "fl u l l8 s8 OR 1 = fl True l l8 s8" "fl u l l8 s8 OR 2 = fl u True l8 s8"
  "fl u l l8 s8 OR 4 = fl u l True s8" "fl u l l8 s8 OR 8 = fl u l l8 True"
  "fl u l l8 s8 AND NOT 1 = fl False l l8 s8" "fl u l l8 s8 AND NOT 2 = fl u False l8 s8"
  "fl u l l8 s8 AND NOT 4 = fl u l False s8" "fl u l l8 s8 AND NOT 8 = fl u l l8 False"
  by (cases u; cases l; cases l8; cases s8; simp add: fl_def)+

lemma fl_test:
  "fl u l l8 s8 AND 1 \<noteq> 0 \<longleftrightarrow> u" "fl u l l8 s8 AND 2 \<noteq> 0 \<longleftrightarrow> l"
  "fl u l l8 s8 AND 4 \<noteq> 0 \<longleftrightarrow> l8" "fl u l l8 s8 AND 8 \<noteq> 0 \<longleftrightarrow> s8"
  "fl u l l8 s8 AND 15 = fl u l l8 s8" "fl u l l8 s8 AND NOT 15 = 0"
  by (cases u; cases l; cases l8; cases s8; simp add: fl_def)+

text \<open>A multiple of 16 with flags in its low bits.\<close>

definition off_fl :: "nat \<Rightarrow> bool \<Rightarrow> bool \<Rightarrow> bool \<Rightarrow> bool \<Rightarrow> u32" where
  "off_fl k u l l8 s8 = word_of_nat (16 * k) OR fl u l l8 s8"

lemma of_nat_low: "(word_of_nat (16 * k) :: u32) AND 15 = 0"
proof -
  have "word_of_nat (16 * k) = (push_bit 4 (word_of_nat k) :: u32)" by (simp add: push_bit_eq_mult)
  moreover have "push_bit 4 w AND 15 = (0 :: u32)" for w :: u32
  proof -
    have "(15 :: u32) = mask 4" by (simp add: mask_eq_decr_exp)
    then show ?thesis by (metis take_bit_eq_mask take_bit_push_bit cancel_comm_monoid_add_class.diff_cancel take_bit_0 push_bit_of_0)
  qed
  ultimately show ?thesis by simp
qed

lemma low_part: "x AND 15 = 0 \<Longrightarrow> c AND 15 = c \<Longrightarrow> x AND c = (0 :: u32)"
proof -
  assume a: "x AND 15 = 0" "c AND 15 = c"
  have "x AND c = x AND (c AND 15)" using a(2) by simp
  also have "\<dots> = (x AND 15) AND c" by (simp only: and.assoc and.commute and.left_commute)
  finally show ?thesis using a(1) by simp
qed

lemma off_fl_or:
  "off_fl k u l l8 s8 OR 1 = off_fl k True l l8 s8" "off_fl k u l l8 s8 OR 2 = off_fl k u True l8 s8"
  "off_fl k u l l8 s8 OR 4 = off_fl k u l True s8" "off_fl k u l l8 s8 OR 8 = off_fl k u l l8 True"
  unfolding off_fl_def or.assoc by (simp_all only: fl_set)

lemma and_not_low: "x AND 15 = 0 \<Longrightarrow> c AND 15 = c \<Longrightarrow> (x OR f) AND NOT c = x OR (f AND NOT (c :: u32))"
proof -
  assume "x AND 15 = 0" "c AND 15 = c"
  then have z: "x AND c = 0" by (rule low_part)
  have "\<not> (bit x n \<and> bit c n)" for n using arg_cong[OF z, of "\<lambda>w. bit w n"] by (simp add: bit_and_iff)
  then have "x AND NOT c = x" by (intro bit_word_eqI) (auto simp: bit_and_iff bit_not_iff)
  then show ?thesis by (simp add: bit.conj_disj_distrib2)
qed

lemma off_fl_and_not:
  "off_fl k u l l8 s8 AND NOT 1 = off_fl k False l l8 s8" "off_fl k u l l8 s8 AND NOT 2 = off_fl k u False l8 s8"
  "off_fl k u l l8 s8 AND NOT 4 = off_fl k u l False s8" "off_fl k u l l8 s8 AND NOT 8 = off_fl k u l l8 False"
  "off_fl k u l l8 s8 AND NOT 15 = word_of_nat (16 * k)"
  unfolding off_fl_def by (subst and_not_low[OF of_nat_low], simp, simp only: fl_set fl_test or.right_neutral)+

lemma off_fl_test:
  "off_fl k u l l8 s8 AND 1 \<noteq> 0 \<longleftrightarrow> u" "off_fl k u l l8 s8 AND 2 \<noteq> 0 \<longleftrightarrow> l"
  "off_fl k u l l8 s8 AND 4 \<noteq> 0 \<longleftrightarrow> l8" "off_fl k u l l8 s8 AND 8 \<noteq> 0 \<longleftrightarrow> s8"
  "off_fl k u l l8 s8 AND 15 = fl u l l8 s8"
proof -
  have low: "off_fl k u l l8 s8 AND c = fl u l l8 s8 AND c" if "c AND 15 = c" for c
    using low_part[OF of_nat_low that] by (simp add: off_fl_def bit.conj_disj_distrib2)
  show "off_fl k u l l8 s8 AND 1 \<noteq> 0 \<longleftrightarrow> u" "off_fl k u l l8 s8 AND 2 \<noteq> 0 \<longleftrightarrow> l"
    "off_fl k u l l8 s8 AND 4 \<noteq> 0 \<longleftrightarrow> l8" "off_fl k u l l8 s8 AND 8 \<noteq> 0 \<longleftrightarrow> s8"
    "off_fl k u l l8 s8 AND 15 = fl u l l8 s8"
    by (subst low, simp, rule fl_test)+
qed

lemmas off_fl_simps = off_fl_or off_fl_and_not off_fl_test

section \<open>The layout of a block\<close>

text \<open>
  The node at offset \<open>16 k\<close> of block \<open>m\<close>, of size \<open>16 z\<close> and free or not, right of a node of size \<open>16 lz\<close>. \<open>S\<close> are
  the nodes on the list of 16-byte nodes; of their tag only the flags are known, and none is inside another node.
\<close>

definition node_at :: "u64 \<Rightarrow> nat \<Rightarrow> u64" where
  "node_at m k = m + word_of_nat (16 * k)"

definition node_ok :: "u64 set \<Rightarrow> bheap \<Rightarrow> u64 \<Rightarrow> nat \<Rightarrow> bool \<Rightarrow> nat \<Rightarrow> nat \<times> bool \<Rightarrow> bool" where
  "node_ok S h m k lf lz n = (case n of (z, fr) \<Rightarrow>
     let a = node_at m k
     in (a \<in> S \<longleftrightarrow> fr \<and> z = 1) \<and> (\<forall>i. 0 < i \<longrightarrow> i < z \<longrightarrow> node_at m (k + i) \<notin> S) \<and>
        (if fr \<and> z = 1 then bs_offset h a AND 15 = fl True lf (lf \<and> lz = 1) True
         else bh_tag h a = mk_tag (off_fl k fr lf (lf \<and> lz = 1) False) (word_of_nat (16 * z))) \<and>
        (lf \<and> lz \<noteq> 1 \<longrightarrow> bh_left h a = node_at m (k - lz)))"

fun tiled :: "u64 set \<Rightarrow> bheap \<Rightarrow> u64 \<Rightarrow> nat \<Rightarrow> bool \<Rightarrow> nat \<Rightarrow> (nat \<times> bool) list \<Rightarrow> bool" where
  "tiled S h m k lf lz [] \<longleftrightarrow> True"
| "tiled S h m k lf lz (n # ns) \<longleftrightarrow> node_ok S h m k lf lz n \<and> tiled S h m (k + fst n) (snd n) (fst n) ns"

definition width :: "(nat \<times> bool) list \<Rightarrow> nat" where
  "width ns = sum_list (map fst ns)"

lemma width_simps [simp]: "width [] = 0" "width (n # ns) = fst n + width ns" "width (ns @ ms) = width ns + width ms"
  by (simp_all add: width_def)

lemma tiled_append:
  "tiled S h m k lf lz (ns @ ms) \<longleftrightarrow> tiled S h m k lf lz ns \<and>
     tiled S h m (k + width ns) (if ns = [] then lf else snd (last ns)) (if ns = [] then lz else fst (last ns)) ms"
  by (induction ns arbitrary: k lf lz) (auto simp: add.assoc)

text \<open>The addresses of the nodes, with their insides in steps of 16.\<close>

fun cover :: "u64 \<Rightarrow> nat \<Rightarrow> (nat \<times> bool) list \<Rightarrow> u64 set" where
  "cover m k [] = {}"
| "cover m k (n # ns) = insert (node_at m k) {node_at m (k + i) |i. i < fst n} \<union> cover m (k + fst n) ns"

definition agree :: "u64 set \<Rightarrow> bheap \<Rightarrow> u64 set \<Rightarrow> bheap \<Rightarrow> u64 \<Rightarrow> bool" where
  "agree S h S' h' a \<longleftrightarrow> (a \<in> S \<longleftrightarrow> a \<in> S') \<and> bh_left h' a = bh_left h a \<and>
     (if a \<in> S then bs_offset h' a AND 15 = bs_offset h a AND 15 else bh_tag h' a = bh_tag h a)"

lemma node_ok_agree:
  assumes "node_ok S h m k lf lz n" "agree S h S' h' (node_at m k)" "\<And>i. i < fst n \<Longrightarrow> agree S h S' h' (node_at m (k + i))"
  shows "node_ok S' h' m k lf lz n"
proof -
  obtain z fr where n: "n = (z, fr)" by (cases n)
  have "\<forall>i. 0 < i \<longrightarrow> i < z \<longrightarrow> node_at m (k + i) \<notin> S'" using assms(1,3) by (auto simp: n node_ok_def agree_def Let_def)
  then show ?thesis using assms(1,2) by (auto simp: n node_ok_def agree_def Let_def split: if_splits)
qed

lemma tiled_agree:
  assumes "tiled S h m k lf lz ns" "\<And>a. a \<in> cover m k ns \<Longrightarrow> agree S h S' h' a"
  shows "tiled S' h' m k lf lz ns"
  using assms
proof (induction ns arbitrary: k lf lz)
  case (Cons n ns)
  have "node_ok S' h' m k lf lz n" by (rule node_ok_agree[of S h]) (use Cons.prems in auto)
  then show ?case using Cons by simp
qed simp

lemma of_nat_inj64: "x < 2 ^ 64 \<Longrightarrow> y < 2 ^ 64 \<Longrightarrow> (word_of_nat x :: u64) = word_of_nat y \<longleftrightarrow> x = y"
  by (simp add: word_of_nat_eq_iff take_bit_nat_eq_self)

lemma node_at_inj: "16 * i < 2 ^ 64 \<Longrightarrow> 16 * j < 2 ^ 64 \<Longrightarrow> node_at m i = node_at m j \<longleftrightarrow> i = j"
  unfolding node_at_def add_left_cancel using of_nat_inj64[of "16 * i" "16 * j"] by simp

lemma node_at_add: "node_at m k + word_of_nat (16 * z) = node_at m (k + z)"
  by (simp add: node_at_def algebra_simps)

section \<open>The list of 16-byte nodes\<close>

text \<open>
  Its links are the first words of the nodes and the upper bits of their tags. In terms of these it is one of the
  double lists of \<^verbatim>\<open>ll_list.h\<close>.
\<close>

definition small_store :: "bheap \<Rightarrow> node_store" where
  "small_store h = \<lparr>ns_next = bh_data h, ns_prev = small_prev h\<rparr>"

definition small_rep :: "bheap \<Rightarrow> u64 list \<Rightarrow> bool" where
  "small_rep h sl \<longleftrightarrow> dlist_rep (small_store h) (bh_q8 h) sl \<and> (\<forall>a \<in> set (bh_q8 h # sl). a AND 15 = 0)"

lemma bit_low4: "bit (15 :: 'a :: len word) n \<longleftrightarrow> n < 4 \<and> n < LENGTH('a)"
proof -
  have "(15 :: 'a word) = mask 4" by (simp add: mask_eq_decr_exp)
  then show ?thesis by (simp only: bit_mask_iff) auto
qed

lemma low_clear: "p AND 15 = (0 :: u64) \<Longrightarrow> n < 4 \<Longrightarrow> \<not> bit p n"
proof -
  assume "p AND 15 = 0" "n < 4"
  then show ?thesis using arg_cong[OF \<open>p AND 15 = 0\<close>, of "\<lambda>w. bit w n"] unfolding bit_and_iff bit_low4 by simp
qed

lemma sum_or:
  assumes "p AND 15 = (0 :: u64)"
  shows "(w AND 15) + p = (w AND 15) OR p"
proof (rule disjunctive_add)
  fix n show "\<not> bit (w AND 15) n \<or> \<not> bit p n" unfolding bit_and_iff bit_low4 using low_clear[OF assms] by auto
qed

lemma prev_of_sum:
  assumes "p AND 15 = 0"
  shows "((w AND 15) + p) AND NOT 15 = (p :: u64)"
  unfolding sum_or[OF assms]
proof (rule bit_word_eqI)
  fix n assume "n < LENGTH(64)"
  then show "bit (((w AND 15) OR p) AND NOT 15) n = bit p n"
    unfolding bit_and_iff bit_or_iff bit_not_iff bit_low4 using low_clear[OF assms, of n] by auto
qed

lemma low_of_sum:
  assumes "p AND 15 = 0"
  shows "tag_off ((w AND 15) + p) AND 15 = tag_off w AND 15"
  unfolding sum_or[OF assms] tag_off_def
proof (rule bit_word_eqI)
  fix n assume "n < LENGTH(32)"
  then show "bit (ucast ((w AND 15) OR p) AND 15 :: u32) n = bit (ucast w AND 15 :: u32) n"
    unfolding bit_and_iff bit_or_iff bit_low4 bit_ucast_iff using low_clear[OF assms, of n] by auto
qed

text \<open>A change of flags keeps the link.\<close>

lemma prev_flags:
  assumes "x AND NOT 15 = tag_off w AND NOT 15"
  shows "mk_tag x (tag_size w) AND NOT 15 = w AND NOT (15 :: u64)"
proof (rule bit_word_eqI)
  fix n assume n: "n < LENGTH(64)"
  have "bit (x AND NOT 15) n = bit (tag_off w AND NOT 15) n" by (simp only: assms)
  then have x: "bit x n = bit w n" if "n < 32" "4 \<le> n"
    using that unfolding bit_and_iff bit_not_iff bit_low4 tag_off_def bit_ucast_iff by auto
  show "bit (mk_tag x (tag_size w) AND NOT 15) n = bit (w AND NOT 15) n"
    using n x bit_imp_le_length[of x n] unfolding mk_tag_def tag_size_def bit_and_iff bit_or_iff bit_not_iff bit_low4
    by (cases "n < 32") (auto simp: bit_simps)
qed

section \<open>What the operations change\<close>

lemma set_size8_tags:
  assumes "b + 16 \<noteq> b"
  shows "bh_tag (set_size8 b h) = (bh_tag h)(b + 16 := mk_tag (bs_offset h (b + 16) OR 4) (bsize h (b + 16)),
      b := mk_tag (bs_offset h b OR 8) (bsize h b))"
    and "bh_left (set_size8 b h) = bh_left h" "bh_data (set_size8 b h) = bh_data h" "bh_q8 (set_size8 b h) = bh_q8 h"
  using assms by (simp_all add: set_size8_def Let_def fun_eq_iff)

lemma prev_or:
  assumes "k AND 15 = k"
  shows "(x OR k) AND NOT 15 = x AND NOT (15 :: u32)"
proof -
  have "k AND NOT 15 = (k AND 15) AND NOT 15" using assms by simp
  also have "\<dots> = 0" by (simp only: and.assoc bit.conj_cancel_right and_zero_eq)
  finally show ?thesis by (simp only: bit.conj_disj_distrib2 or.right_neutral)
qed

lemma prev_and_not:
  assumes "k AND 15 = k"
  shows "(x AND NOT k) AND NOT 15 = x AND NOT (15 :: u32)"
proof -
  have k: "bit k n \<Longrightarrow> n < 4" for n using arg_cong[OF assms, of "\<lambda>w. bit w n"] unfolding bit_and_iff bit_low4 by simp
  show ?thesis
    by (rule bit_word_eqI, unfold bit_and_iff bit_not_iff bit_low4) (use k in auto)
qed

lemma prev_low: "(w AND NOT 15) AND 15 = (0 :: u64)"
  by (simp only: and.assoc and.commute[of "NOT 15"] bit.conj_cancel_right and_zero_eq)

text \<open>Appending a node: it is on the list, its flag and the flag right of it are set, other nodes keep their tags.\<close>

lemma small_insert_fields:
  assumes b: "b + 16 \<noteq> b" "b \<noteq> bh_q8 h" "b + 16 \<noteq> bh_q8 h"
  shows "bh_tag (small_insert b h) = (bh_tag h)(b + 16 := mk_tag (bs_offset h (b + 16) OR 4) (bsize h (b + 16)),
      b := (mk_tag (bs_offset h b OR 8) (bsize h b) AND 15) + small_prev h (bh_q8 h),
      bh_q8 h := (bh_tag h (bh_q8 h) AND 15) + b)"
    and "bh_data (small_insert b h) = (bh_data h)(small_prev h (bh_q8 h) := b, b := bh_q8 h)"
    and "bh_left (small_insert b h) = bh_left h" "bh_q8 (small_insert b h) = bh_q8 h"
  using b by (simp_all add: small_insert_def set_small_prev_def small_prev_def Let_def set_size8_tags[OF b(1)])

lemma small_insert_store:
  assumes b: "b + 16 \<noteq> b" "b AND 15 = 0" "b \<noteq> bh_q8 h" "b + 16 \<noteq> bh_q8 h" "small_prev h (bh_q8 h) \<noteq> b"
  shows "small_store (small_insert b h) = dlist_add_end (bh_q8 h) b (small_store h)"
proof -
  let ?q = "bh_q8 h" and ?h = "small_insert b h"
  note f = small_insert_fields[OF b(1,3,4)]
  have "small_prev ?h a = ((small_prev h)(b := small_prev h ?q, ?q := b)) a" for a
  proof -
    consider "a = ?q" | "a = b" "a \<noteq> ?q" | "a = b + 16" "a \<noteq> b" "a \<noteq> ?q" | "a \<noteq> ?q" "a \<noteq> b" "a \<noteq> b + 16" by blast
    then show ?thesis
    proof cases
      case 1
      then show ?thesis unfolding small_prev_def f(1) using prev_of_sum[OF b(2)] by simp
    next
      case 2
      then show ?thesis unfolding small_prev_def f(1) using prev_of_sum[OF prev_low] by simp
    next
      case 3
      then show ?thesis unfolding small_prev_def f(1) using prev_flags[OF prev_or[of 4 "bs_offset h (b + 16)"]] by simp
    next
      case 4
      then show ?thesis unfolding small_prev_def f(1) by simp
    qed
  qed
  then have "small_prev ?h = (small_prev h)(b := small_prev h ?q, ?q := b)" by blast
  then show ?thesis using b(5) f(2)
    by (simp add: small_store_def dlist_add_end_def set_next_def set_prev_def Let_def fun_upd_twist)
qed

lemma small_rep_distinct:
  assumes "small_rep h sl"
  shows "small_prev h (bh_q8 h) = last (bh_q8 h # sl)"
  using rep_ends(2)[of "small_store h" "bh_q8 h" sl] assms by (simp add: small_rep_def small_store_def)

lemma small_insert_rep:
  assumes rep: "small_rep h sl" and b: "b AND 15 = 0" "b \<noteq> 0" "b \<notin> set (bh_q8 h # sl)" "b + 16 \<noteq> bh_q8 h"
  shows "small_rep (small_insert b h) (sl @ [b])"
    and "bh_tag (small_insert b h) (b + 16) = mk_tag (bs_offset h (b + 16) OR 4) (bsize h (b + 16))"
    and "bs_offset (small_insert b h) b AND 15 = (bs_offset h b OR 8) AND 15"
    and "bh_left (small_insert b h) = bh_left h"
    and "a \<noteq> b \<Longrightarrow> a \<noteq> b + 16 \<Longrightarrow> a \<noteq> bh_q8 h \<Longrightarrow> bh_tag (small_insert b h) a = bh_tag h a"
proof -
  have nb: "b + 16 \<noteq> b" by simp
  have q: "b \<noteq> bh_q8 h" using b(3) by auto
  note f = small_insert_fields[OF nb q b(4)]
  have "small_prev h (bh_q8 h) \<noteq> b" unfolding small_rep_distinct[OF rep] using b(3) by (metis last_in_set list.discI)
  note st = small_insert_store[OF nb b(1) q b(4) this]
  have "dlist_rep (small_store (small_insert b h)) (bh_q8 h) (sl @ [b])" unfolding st
    by (rule dlist_add_end_rep) (use rep b in \<open>simp_all add: small_rep_def\<close>)
  then show "small_rep (small_insert b h) (sl @ [b])" using rep b(1) by (auto simp: small_rep_def f(4))
  show "bh_tag (small_insert b h) (b + 16) = mk_tag (bs_offset h (b + 16) OR 4) (bsize h (b + 16))" using f(1) b(4) by simp
  show "bs_offset (small_insert b h) b AND 15 = (bs_offset h b OR 8) AND 15"
    using f(1) q low_of_sum[OF prev_low] by (simp add: small_prev_def)
  show "bh_left (small_insert b h) = bh_left h" by (rule f(3))
  show "a \<noteq> b \<Longrightarrow> a \<noteq> b + 16 \<Longrightarrow> a \<noteq> bh_q8 h \<Longrightarrow> bh_tag (small_insert b h) a = bh_tag h a" using f(1) by simp
qed

text \<open>Taking a node off the list restores its offset from the separator right of it.\<close>

lemma unset_size8_fields:
  shows "bh_tag (unset_size8 b h) = (bh_tag h)(b + 16 := mk_tag (bs_offset h (b + 16) AND NOT 4) (bsize h (b + 16)),
      b := mk_tag (((bs_offset h b AND NOT 8) AND 15) + (((bs_offset h (b + 16) AND NOT 4) AND NOT 15) - 16)) 16)"
    and "bh_left (unset_size8 b h) = bh_left h" "bh_data (unset_size8 b h) = bh_data h" "bh_q8 (unset_size8 b h) = bh_q8 h"
  by (simp_all add: unset_size8_def Let_def fun_eq_iff)

lemma small_remove_fields:
  assumes "small_next h b \<noteq> b" "small_next h b \<noteq> b + 16"
  defines "qn \<equiv> small_next h b" and "qp \<equiv> small_prev h b"
  shows "bh_tag (small_remove b h) = (bh_tag h)(qn := (bh_tag h qn AND 15) + qp,
      b + 16 := mk_tag (bs_offset h (b + 16) AND NOT 4) (bsize h (b + 16)),
      b := mk_tag (((bs_offset h b AND NOT 8) AND 15) + (((bs_offset h (b + 16) AND NOT 4) AND NOT 15) - 16)) 16)"
    and "bh_data (small_remove b h) = (bh_data h)(qp := qn)"
    and "bh_left (small_remove b h) = bh_left h" "bh_q8 (small_remove b h) = bh_q8 h"
  using assms by (simp_all add: small_remove_def Let_def unset_size8_fields set_small_prev_def)

lemma small_neighbours:
  assumes rep: "small_rep h sl" and b: "b \<in> set sl"
  shows "small_next h b \<in> set (bh_q8 h # sl) - {b}" "small_prev h b \<in> set (bh_q8 h # sl) - {b}"
proof -
  let ?st = "small_store h" and ?q = "bh_q8 h"
  obtain u v where sl: "sl = u @ b # v" using split_list[OF b] by blast
  have d: "distinct (?q # u @ b # v)" and l: "links ?st ((?q # u) @ b # v @ [?q])"
    using rep by (auto simp: small_rep_def dlist_rep_def sl)
  have "ns_prev ?st b = last (?q # u)" "links ?st ([b] @ v @ [?q])" using links_cut[of "?q # u" "b # v @ [?q]" ?st] l by simp_all
  moreover have "ns_next ?st b = hd (v @ [?q])" using links_cut[of "[b]" "v @ [?q]" ?st] calculation(2) by simp
  moreover have "last (?q # u) \<in> set (?q # u)" "hd (v @ [?q]) \<in> set (v @ [?q])" by (rule last_in_set, simp) (rule hd_in_set, simp)
  ultimately have n: "small_next h b \<in> set (v @ [?q])" and p: "small_prev h b \<in> set (?q # u)"
    by (simp_all add: small_store_def)
  show "small_next h b \<in> set (bh_q8 h # sl) - {b}" using n d by (auto simp: sl)
  show "small_prev h b \<in> set (bh_q8 h # sl) - {b}" using p d by (auto simp: sl)
qed

lemma small_remove_rep:
  assumes rep: "small_rep h sl" and b: "b \<in> set sl" "b + 16 \<notin> set (bh_q8 h # sl)"
  shows "small_rep (small_remove b h) (remove1 b sl)"
    and "bh_tag (small_remove b h) (b + 16) = mk_tag (bs_offset h (b + 16) AND NOT 4) (bsize h (b + 16))"
    and "bh_tag (small_remove b h) b =
      mk_tag (((bs_offset h b AND NOT 8) AND 15) + (((bs_offset h (b + 16) AND NOT 4) AND NOT 15) - 16)) 16"
    and "bh_left (small_remove b h) = bh_left h"
    and "a \<noteq> b \<Longrightarrow> a \<noteq> b + 16 \<Longrightarrow> a \<notin> set (bh_q8 h # sl) \<Longrightarrow> bh_tag (small_remove b h) a = bh_tag h a"
    and "a \<noteq> b \<Longrightarrow> a \<noteq> b + 16 \<Longrightarrow> bs_offset (small_remove b h) a AND 15 = bs_offset h a AND 15"
    and "bh_q8 (small_remove b h) = bh_q8 h"
proof -
  let ?q = "bh_q8 h" and ?h = "small_remove b h" and ?st = "small_store h"
  define qn qp where "qn = small_next h b" and "qp = small_prev h b"
  have qn: "qn \<in> set (?q # sl)" "qn \<noteq> b" and qp: "qp \<in> set (?q # sl)" "qp \<noteq> b"
    using small_neighbours[OF rep b(1)] by (simp_all add: qn_def qp_def)
  have al: "qp AND 15 = 0" "0 \<notin> set (?q # sl)" "distinct (?q # sl)" using rep qp by (auto simp: small_rep_def dlist_rep_def)
  have "small_next h b \<noteq> b" "small_next h b \<noteq> b + 16" using qn b(2) by (auto simp: qn_def)
  note f = small_remove_fields[OF this, folded qn_def qp_def]
  have del: "dlist_del b ?st = \<lparr>ns_next = (bh_data h)(qp := qn), ns_prev = (small_prev h)(qn := qp)\<rparr>"
    using qn qp al(2) by (auto simp: dlist_del_def small_store_def set_next_def set_prev_def Let_def qn_def[symmetric] qp_def[symmetric])
  have pv: "small_prev ?h a = ((small_prev h)(qn := qp)) a" if "a \<noteq> b" "a \<noteq> b + 16" for a
    using that prev_of_sum[OF al(1)] by (simp add: small_prev_def f(1))
  have "dlist_rep (dlist_del b ?st) ?q (remove1 b sl)" by (rule dlist_del_rep) (use rep b(1) in \<open>simp_all add: small_rep_def\<close>)
  then have "dlist_rep (small_store ?h) ?q (remove1 b sl)"
  proof (rule dlist_rep_frame)
    show "\<forall>x\<in>set (?q # remove1 b sl). ns_next (small_store ?h) x = ns_next (dlist_del b ?st) x \<and>
        ns_prev (small_store ?h) x = ns_prev (dlist_del b ?st) x"
    proof
      fix x assume "x \<in> set (?q # remove1 b sl)"
      then have "x \<noteq> b" "x \<noteq> b + 16" using al(3) b by auto
      then show "ns_next (small_store ?h) x = ns_next (dlist_del b ?st) x \<and> ns_prev (small_store ?h) x = ns_prev (dlist_del b ?st) x"
        unfolding del using pv[of x] by (simp add: small_store_def f(2))
    qed
  qed
  then show "small_rep ?h (remove1 b sl)" using rep by (auto simp: small_rep_def f(4) dest: notin_set_remove1)
  show "bh_tag ?h (b + 16) = mk_tag (bs_offset h (b + 16) AND NOT 4) (bsize h (b + 16))"
    "bh_tag ?h b = mk_tag (((bs_offset h b AND NOT 8) AND 15) + (((bs_offset h (b + 16) AND NOT 4) AND NOT 15) - 16)) 16"
    by (simp_all add: f(1))
  show "bh_left ?h = bh_left h" "bh_q8 ?h = bh_q8 h" by (rule f(3), rule f(4))
  show "a \<noteq> b \<Longrightarrow> a \<noteq> b + 16 \<Longrightarrow> a \<notin> set (bh_q8 h # sl) \<Longrightarrow> bh_tag ?h a = bh_tag h a" using qn by (auto simp: f(1))
  show "a \<noteq> b \<Longrightarrow> a \<noteq> b + 16 \<Longrightarrow> bs_offset ?h a AND 15 = bs_offset h a AND 15"
    using low_of_sum[OF al(1)] by (simp add: f(1))
qed

lemma small_rep_frame:
  assumes "small_rep h sl" "bh_data h' = bh_data h" "bh_q8 h' = bh_q8 h" "\<And>a. a \<in> set (bh_q8 h # sl) \<Longrightarrow> bh_tag h' a = bh_tag h a"
  shows "small_rep h' sl"
proof -
  have "dlist_rep (small_store h') (bh_q8 h) sl"
    by (rule dlist_rep_frame[of "small_store h"])
      (use assms in \<open>auto simp: small_rep_def small_store_def small_prev_def\<close>)
  then show ?thesis using assms by (simp add: small_rep_def)
qed

section \<open>Merging\<close>

lemma fl_plus: "fl u l l8 False + word_of_nat (16 * k) = off_fl k u l l8 False"
proof -
  have z: "fl u l l8 False AND word_of_nat (16 * k) = 0"
    using low_part[OF of_nat_low[of k], of "fl u l l8 False"] fl_test(5) by (simp only: and.commute)
  have "fl u l l8 False + word_of_nat (16 * k) = fl u l l8 False OR word_of_nat (16 * k)"
    using word_plus_and_or[of "fl u l l8 False" "word_of_nat (16 * k)"] unfolding z by (simp only: add_0)
  then show ?thesis by (simp only: off_fl_def or.commute)
qed

text \<open>The tag of a 16-byte node comes back whole when it leaves the list.\<close>

lemma restored_tag:
  assumes "bs_offset h b AND 15 = fl True l l8 True" "bs_offset h (b + 16) = off_fl (Suc k) u l' l8' s8'"
  shows "mk_tag (((bs_offset h b AND NOT 8) AND 15) + (((bs_offset h (b + 16) AND NOT 4) AND NOT 15) - 16)) 16
    = mk_tag (off_fl k True l l8 False) (word_of_nat (16 * 1))"
proof -
  have "(bs_offset h b AND NOT 8) AND 15 = (bs_offset h b AND 15) AND NOT 8" by (simp only: and.assoc and.commute and.left_commute)
  also have "\<dots> = fl True l l8 False" by (simp only: assms(1) fl_set)
  finally have 1: "(bs_offset h b AND NOT 8) AND 15 = fl True l l8 False" .
  have "((bs_offset h (b + 16) AND NOT 4) AND NOT 15) - 16 = word_of_nat (16 * k)"
    by (simp only: assms(2) off_fl_simps) simp
  then show ?thesis by (simp only: 1 fl_plus) simp
qed

definition near :: "u64 \<Rightarrow> nat \<Rightarrow> u64 set" where
  "near m n = node_at m ` {..n}"

lemma near_inj: "i \<le> n \<Longrightarrow> j \<le> n \<Longrightarrow> 16 * n < 2 ^ 32 \<Longrightarrow> node_at m i = node_at m j \<longleftrightarrow> i = j"
  by (rule node_at_inj) simp_all

lemma cover_below:
  assumes "\<forall>n \<in> set ns. 0 < fst n" "a \<in> cover m k ns"
  shows "\<exists>i. k \<le> i \<and> i < k + width ns \<and> a = node_at m i"
  using assms
proof (induction ns arbitrary: k)
  case (Cons n ns)
  consider i where "i < fst n" "a = node_at m (k + i)" | "a = node_at m k" | "a \<in> cover m (k + fst n) ns" using Cons.prems(2) by auto
  then show ?case
  proof cases
    case (1 i)
    then show ?thesis by (intro exI[of _ "k + i"]) simp
  next
    case 2
    then show ?thesis using Cons.prems(1) by (intro exI[of _ k]) simp
  next
    case 3
    then obtain i where "k + fst n \<le> i" "i < k + fst n + width ns" "a = node_at m i" using Cons by fastforce
    then show ?thesis by (intro exI[of _ i]) simp
  qed
qed simp

lemma cover_upto: "a \<in> cover m k ns \<Longrightarrow> \<exists>i. k \<le> i \<and> i \<le> k + width ns \<and> a = node_at m i"
proof (induction ns arbitrary: k)
  case (Cons n ns)
  consider i where "i < fst n" "a = node_at m (k + i)" | "a = node_at m k" | "a \<in> cover m (k + fst n) ns" using Cons.prems by auto
  then show ?case
  proof cases
    case (1 i)
    then show ?thesis by (intro exI[of _ "k + i"]) simp
  next
    case 2
    then show ?thesis by (intro exI[of _ k]) simp
  next
    case 3
    then obtain i where "k + fst n \<le> i" "i \<le> k + fst n + width ns" "a = node_at m i" using Cons.IH by blast
    then show ?thesis by (intro exI[of _ i]) simp
  qed
qed simp

definition ends_free :: "(nat \<times> bool) list \<Rightarrow> bool" where
  "ends_free ns \<longleftrightarrow> ns \<noteq> [] \<and> snd (last ns)"

definition last_size :: "(nat \<times> bool) list \<Rightarrow> nat" where
  "last_size ns = (if ns = [] then 0 else fst (last ns))"

text \<open>
  A block while a node is being merged: the nodes left of it and from the second to its right on are as they should
  be, and its right neighbour, which is in use, may still have a flag for a free left neighbour.
\<close>

definition merging :: "u64 set \<Rightarrow> bheap \<Rightarrow> u64 \<Rightarrow> (nat \<times> bool) list \<Rightarrow> bool \<Rightarrow> nat \<Rightarrow> bool \<Rightarrow> nat \<Rightarrow> (nat \<times> bool) list \<Rightarrow> bool" where
  "merging S h m ls u z x s rs \<longleftrightarrow>
     (let k = Suc (width ls); lf = ends_free ls; lz = last_size ls
      in tiled S h m 1 False 0 ls \<and> (\<forall>i < z + s. node_at m (k + i) \<notin> S) \<and>
         node_at m k \<notin> S \<and> bh_tag h (node_at m k) = mk_tag (off_fl k u lf (lf \<and> lz = 1) False) (word_of_nat (16 * z)) \<and>
         (lf \<and> lz \<noteq> 1 \<longrightarrow> bh_left h (node_at m k) = node_at m (k - lz)) \<and>
         node_at m (k + z) \<notin> S \<and> bh_tag h (node_at m (k + z)) = mk_tag (off_fl (k + z) False x False False) (word_of_nat (16 * s)) \<and>
         tiled S h m (k + z + s) False s rs)"

text \<open>The list of 16-byte nodes, with a head outside the block; the offsets in the block fit in 32 bits.\<close>

definition env_ok :: "bheap \<Rightarrow> u64 \<Rightarrow> u64 list \<Rightarrow> nat \<Rightarrow> bool" where
  "env_ok h m sl n \<longleftrightarrow> small_rep h sl \<and> 16 * n < 2 ^ 32 \<and> bh_q8 h \<notin> near m n \<and> 0 \<notin> near m n \<and> m AND 15 = 0"

lemma near_at: "i \<le> n \<Longrightarrow> node_at m i \<in> near m n"
  by (simp add: near_def)

definition inner :: "u64 \<Rightarrow> nat \<Rightarrow> u64 set" where
  "inner m n = node_at m ` {1..n}"

lemma inner_at: "0 < i \<Longrightarrow> i \<le> n \<Longrightarrow> node_at m i \<in> inner m n"
  by (simp add: inner_def)

lemma inner_near: "inner m n \<subseteq> near m n"
  by (auto simp: inner_def near_def)

text \<open>An operation on a block leaves the separators of other blocks alone.\<close>

definition outside_ok :: "u64 \<Rightarrow> nat \<Rightarrow> u64 list \<Rightarrow> bheap \<Rightarrow> u64 list \<Rightarrow> bheap \<Rightarrow> bool" where
  "outside_ok m n sl h sl' h' \<longleftrightarrow> bh_q8 h' = bh_q8 h \<and>
     (\<forall>a. a \<notin> inner m n \<longrightarrow> a \<noteq> bh_q8 h \<longrightarrow> agree (set sl) h (set sl') h' a)"

lemma agree_trans: "agree S h S' h' a \<Longrightarrow> agree S' h' S'' h'' a \<Longrightarrow> agree S h S'' h'' a"
  by (auto simp: agree_def)

lemma outside_trans: "outside_ok m n sl h sl' h' \<Longrightarrow> outside_ok m n sl' h' sl'' h'' \<Longrightarrow> outside_ok m n sl h sl'' h''"
  unfolding outside_ok_def using agree_trans by metis

lemma outside_refl: "outside_ok m n sl h sl h"
  by (simp add: outside_ok_def agree_def)

lemma agree_tag: "a \<noteq> b \<Longrightarrow> agree S h S (h\<lparr>bh_tag := (bh_tag h)(b := w)\<rparr>) a"
  by (simp add: agree_def)

lemma agree_same: "bh_tag h' = bh_tag h \<Longrightarrow> bh_left h' = bh_left h \<Longrightarrow> agree S h S h' a"
  by (simp add: agree_def)

lemma agree_small_remove:
  assumes rep: "small_rep h sl" and b: "b \<in> set sl" "b + 16 \<notin> set (bh_q8 h # sl)" and a: "a \<noteq> b" "a \<noteq> b + 16" "a \<noteq> bh_q8 h"
  shows "agree (set sl) h (set (remove1 b sl)) (small_remove b h) a"
proof -
  note f = small_remove_rep[OF rep b]
  have "distinct sl" using rep by (simp add: small_rep_def dlist_rep_def)
  then show ?thesis using f(4) f(5)[of a] f(6)[of a] a by (auto simp: agree_def)
qed

lemma agree_small_insert:
  assumes rep: "small_rep h sl" and b: "b AND 15 = 0" "b \<noteq> 0" "b \<notin> set (bh_q8 h # sl)" "b + 16 \<noteq> bh_q8 h"
    and a: "a \<noteq> b" "a \<noteq> b + 16" "a \<noteq> bh_q8 h"
  shows "agree (set sl) h (set (sl @ [b])) (small_insert b h) a"
  using small_insert_rep(4,5)[OF rep b] a by (auto simp: agree_def)

lemma ucast_size: "16 * z < 2 ^ 32 \<Longrightarrow> (ucast (word_of_nat (16 * z) :: u32) :: u64) = word_of_nat (16 * z)"
proof -
  have "n < 2 ^ 32 \<Longrightarrow> (ucast (word_of_nat n :: u32) :: u64) = word_of_nat n" for n
    by (simp add: unsigned_of_nat take_bit_nat_eq_self)
  then show "16 * z < 2 ^ 32 \<Longrightarrow> ?thesis" by blast
qed

lemma low_and: "c AND 15 = c \<Longrightarrow> x AND c = (x AND 15) AND (c :: u32)"
  by (metis and.assoc and.commute)

lemma size_add: "word_of_nat (16 * y) + word_of_nat (16 * z) = (word_of_nat (16 * (y + z)) :: u32)"
  by (simp add: algebra_simps)

text \<open>The right neighbour is in use: nothing changes.\<close>

lemma clear_append:
  assumes "\<forall>i < z. node_at m (k + i) \<notin> S" "\<forall>i < s. node_at m (k + z + i) \<notin> S"
  shows "\<forall>i < z + s. node_at m (k + i) \<notin> S"
proof (intro allI impI)
  fix i assume "i < z + s"
  then show "node_at m (k + i) \<notin> S" using assms(1) assms(2)[rule_format, of "i - z"] by (cases "i < z") auto
qed

lemma node_clear: "node_ok S h m k lf lz (z, False) \<Longrightarrow> \<forall>i < z. node_at m (k + i) \<notin> S"
proof (intro allI impI)
  fix i assume "node_ok S h m k lf lz (z, False)" "i < z"
  then show "node_at m (k + i) \<notin> S" by (cases "i = 0") (auto simp: node_ok_def Let_def)
qed

lemma free_clear:
  assumes "node_ok S h m k lf lz (r, True)" "node_at m k \<notin> S'" "S' \<subseteq> S"
  shows "\<forall>i < r. node_at m (k + i) \<notin> S'"
proof (intro allI impI)
  fix i assume "i < r"
  then show "node_at m (k + i) \<notin> S'" using assms by (cases "i = 0") (auto simp: node_ok_def Let_def)
qed

lemma tiled_merging:
  assumes "tiled S h m 1 False 0 (ls @ (z, False) # (s, False) # rs)"
  shows "merging S h m ls False z False s rs"
proof -
  let ?k = "Suc (width ls)"
  have ok: "tiled S h m 1 False 0 ls" "node_ok S h m ?k (ends_free ls) (last_size ls) (z, False)"
    "node_ok S h m (?k + z) False z (s, False)" "tiled S h m (?k + z + s) False s rs"
    using assms by (auto simp: tiled_append ends_free_def last_size_def)
  have "\<forall>i < z + s. node_at m (?k + i) \<notin> S" by (rule clear_append[OF node_clear[OF ok(2)] node_clear[OF ok(3)]])
  then show ?thesis using ok by (auto simp: merging_def node_ok_def Let_def)
qed

lemma merge_right_used:
  assumes t: "tiled S h m 1 False 0 (ls @ (z, False) # (s, False) # rs)" and n: "16 * z < 2 ^ 32"
  shows "merge_right (node_at m (Suc (width ls))) h = h"
proof -
  let ?k = "Suc (width ls)"
  have mg: "merging S h m ls False z False s rs" by (rule tiled_merging[OF t])
  then have "node_at m ?k + ucast (bsize h (node_at m ?k)) = node_at m (?k + z)"
    using n by (simp add: merging_def Let_def ucast_size node_at_add del: of_nat_mult)
  moreover have "\<not> un_used h (node_at m (?k + z))"
    using mg by (simp only: merging_def Let_def un_used_def tag_sel off_fl_simps) simp
  ultimately show ?thesis by (simp add: merge_right_def Let_def)
qed

text \<open>The right neighbour is free: it is taken out of its list and its room added.\<close>

lemma un_used_free:
  assumes "tiled S h m k lf lz ((r, True) # ns)"
  shows "un_used h (node_at m k)" "bs_offset h (node_at m k) AND 8 \<noteq> 0 \<longleftrightarrow> r = 1"
proof -
  let ?o = "bs_offset h (node_at m k)"
  have "?o AND 15 = fl True lf (lf \<and> lz = 1) (r = 1)"
    using assms by (cases "r = 1") (simp_all add: node_ok_def Let_def off_fl_test(5))
  then have "?o AND 1 = fl True lf (lf \<and> lz = 1) (r = 1) AND 1" "?o AND 8 = fl True lf (lf \<and> lz = 1) (r = 1) AND 8"
    using low_and[of 1 ?o] low_and[of 8 ?o] by simp_all
  then show "un_used h (node_at m k)" "?o AND 8 \<noteq> 0 \<longleftrightarrow> r = 1" unfolding un_used_def by (simp_all only: fl_test)
qed

lemma take_out_fields [simp]:
  "bh_tag (take_out b h) = bh_tag h" "bh_left (take_out b h) = bh_left h" "bh_data (take_out b h) = bh_data h"
  "bh_q8 (take_out b h) = bh_q8 h"
  by (simp_all add: take_out_def)

definition unlink :: "nat \<Rightarrow> u64 \<Rightarrow> bheap \<Rightarrow> bheap" where
  "unlink r b h = (if r = 1 then small_remove b h else take_out b h)"

definition unlisted :: "nat \<Rightarrow> u64 \<Rightarrow> u64 list \<Rightarrow> u64 list" where
  "unlisted r b sl = (if r = 1 then remove1 b sl else sl)"

text \<open>
  A free node leaves its list: its tag is whole again, the flag for 16 bytes right of it is cleared, and nothing else
  in the block changes.
\<close>

lemma unlink_free:
  assumes env: "env_ok h m sl n" and j: "j + r \<le> n" "0 < r"
    and nd: "node_ok (set sl) h m j lf lz (r, True)"
    and nx: "bh_tag h (node_at m (j + r)) = mk_tag (off_fl (j + r) u True (r = 1) False) w" "node_at m (j + r) \<notin> set sl"
  defines "h1 \<equiv> unlink r (node_at m j) h" and "sl1 \<equiv> unlisted r (node_at m j) sl"
  shows "env_ok h1 m sl1 n"
    and "bh_tag h1 (node_at m j) = mk_tag (off_fl j True lf (lf \<and> lz = 1) False) (word_of_nat (16 * r))"
    and "bh_tag h1 (node_at m (j + r)) = mk_tag (off_fl (j + r) u True False False) w"
    and "bh_left h1 = bh_left h" "node_at m j \<notin> set sl1" "set sl1 \<subseteq> set sl"
    and "a \<noteq> bh_q8 h \<Longrightarrow> a \<noteq> node_at m j \<Longrightarrow> a \<noteq> node_at m (j + r) \<Longrightarrow> agree (set sl) h (set sl1) h1 a"
    and "bh_q8 h1 = bh_q8 h"
proof -
  let ?b = "node_at m j"
  have rep: "small_rep h sl" and q: "bh_q8 h \<notin> near m n" using env by (auto simp: env_ok_def)
  have d: "distinct sl" using rep by (simp add: small_rep_def dlist_rep_def)
  have all: "env_ok h1 m sl1 n \<and> bh_tag h1 ?b = mk_tag (off_fl j True lf (lf \<and> lz = 1) False) (word_of_nat (16 * r)) \<and>
    bh_tag h1 (node_at m (j + r)) = mk_tag (off_fl (j + r) u True False False) w \<and> bh_left h1 = bh_left h \<and>
    ?b \<notin> set sl1 \<and> set sl1 \<subseteq> set sl \<and>
    (\<forall>a. a \<noteq> bh_q8 h \<longrightarrow> a \<noteq> ?b \<longrightarrow> a \<noteq> node_at m (j + r) \<longrightarrow> agree (set sl) h (set sl1) h1 a) \<and> bh_q8 h1 = bh_q8 h"
  proof (cases "r = 1")
    case True
    have b: "?b \<in> set sl" "bs_offset h ?b AND 15 = fl True lf (lf \<and> lz = 1) True" using nd True by (auto simp: node_ok_def Let_def)
    have nxt: "?b + 16 = node_at m (j + r)" using True by (simp add: node_at_def algebra_simps)
    have "?b + 16 \<notin> set (bh_q8 h # sl)" unfolding nxt using nx(2) q near_at[OF j(1), of m] by auto
    note f = small_remove_rep[OF rep b(1) this] and ag = agree_small_remove[OF rep b(1) this]
    have tg: "bs_offset h (?b + 16) = off_fl (Suc j) u True True False" "bsize h (?b + 16) = w"
      unfolding nxt nx(1) using True by simp_all
    have h1: "h1 = small_remove ?b h" "sl1 = remove1 ?b sl" using True by (simp_all add: h1_def sl1_def unlink_def unlisted_def)
    have "bh_tag h1 ?b = mk_tag (off_fl j True lf (lf \<and> lz = 1) False) (word_of_nat (16 * r))"
      unfolding h1 f(3) restored_tag[OF b(2) tg(1)] using True by simp
    moreover have "bh_tag h1 (node_at m (j + r)) = mk_tag (off_fl (j + r) u True False False) w"
      using f(2) True unfolding h1 nxt[symmetric] tg by (simp only: off_fl_simps) simp
    moreover have "env_ok h1 m sl1 n" using env f(1,7) by (auto simp: env_ok_def h1)
    moreover have "agree (set sl) h (set sl1) h1 a" if "a \<noteq> bh_q8 h" "a \<noteq> ?b" "a \<noteq> node_at m (j + r)" for a
      unfolding h1 using ag[of a] that nxt by metis
    ultimately show ?thesis using f(4,7) d by (auto simp: h1)
  next
    case False
    have h1: "h1 = take_out ?b h" "sl1 = sl" using False by (simp_all add: h1_def sl1_def unlink_def unlisted_def)
    have "small_rep (take_out ?b h) sl" by (rule small_rep_frame[OF rep]) simp_all
    then have "env_ok h1 m sl1 n" using env by (simp add: env_ok_def h1)
    then show ?thesis using nd nx False unfolding h1 by (auto simp: node_ok_def Let_def intro: agree_same)
  qed
  then show "env_ok h1 m sl1 n"
    "bh_tag h1 (node_at m j) = mk_tag (off_fl j True lf (lf \<and> lz = 1) False) (word_of_nat (16 * r))"
    "bh_tag h1 (node_at m (j + r)) = mk_tag (off_fl (j + r) u True False False) w"
    "bh_left h1 = bh_left h" "node_at m j \<notin> set sl1" "set sl1 \<subseteq> set sl"
    "a \<noteq> bh_q8 h \<Longrightarrow> a \<noteq> node_at m j \<Longrightarrow> a \<noteq> node_at m (j + r) \<Longrightarrow> agree (set sl) h (set sl1) h1 a"
    "bh_q8 h1 = bh_q8 h"
    by blast+
qed

lemma env_tag:
  assumes "env_ok h m sl n" "b \<in> near m n" "b \<notin> set sl"
  shows "env_ok (h\<lparr>bh_tag := (bh_tag h)(b := w)\<rparr>) m sl n"
proof -
  have "small_rep (h\<lparr>bh_tag := (bh_tag h)(b := w)\<rparr>) sl"
    by (rule small_rep_frame[of h]) (use assms in \<open>auto simp: env_ok_def\<close>)
  then show ?thesis using assms by (simp add: env_ok_def)
qed

lemma tiled_left:
  assumes "tiled S h m 1 False 0 ls" "\<forall>x \<in> set ls. 0 < fst x" "Suc (width ls) \<le> n" "16 * n < 2 ^ 32"
    and "\<And>i. 0 < i \<Longrightarrow> i \<le> width ls \<Longrightarrow> agree S h S' h' (node_at m i)"
  shows "tiled S' h' m 1 False 0 ls"
proof (rule tiled_agree[OF assms(1)])
  fix a assume "a \<in> cover m 1 ls"
  then obtain i where "1 \<le> i" "i < 1 + width ls" "a = node_at m i" using cover_below[OF assms(2)] by blast
  then show "agree S h S' h' a" using assms(5)[of i] by simp
qed

lemma tiled_right:
  assumes "tiled S h m k lf lz rs" "k + width rs \<le> n" "\<And>i. rs \<noteq> [] \<Longrightarrow> k \<le> i \<Longrightarrow> i \<le> n \<Longrightarrow> agree S h S' h' (node_at m i)"
  shows "tiled S' h' m k lf lz rs"
proof (rule tiled_agree[OF assms(1)])
  fix a assume a: "a \<in> cover m k rs"
  then obtain i where "k \<le> i" "i \<le> k + width rs" "a = node_at m i" using cover_upto by blast
  moreover have "rs \<noteq> []" using a by auto
  ultimately show "agree S h S' h' a" using assms(2) assms(3)[of i] by simp
qed

lemma merge_right_free:
  assumes env: "env_ok h m sl n" and t: "tiled (set sl) h m 1 False 0 (ls @ (z, False) # (r, True) # (s, False) # rs)"
    and n: "Suc (width ls) + z + r + s + width rs \<le> n"
    and pos: "\<forall>x \<in> set ls. 0 < fst x" "0 < z" "0 < r" "rs \<noteq> [] \<longrightarrow> 0 < s"
  obtains sl' where "env_ok (merge_right (node_at m (Suc (width ls))) h) m sl' n"
    "merging (set sl') (merge_right (node_at m (Suc (width ls))) h) m ls False (z + r) True s rs"
    "outside_ok m n sl h sl' (merge_right (node_at m (Suc (width ls))) h)"
proof -
  let ?k = "Suc (width ls)"
  let ?b = "node_at m ?k" and ?r = "node_at m (?k + z)" and ?s = "node_at m (?k + z + r)"
  let ?S = "set sl" and ?h1 = "unlink r ?r h" and ?sl = "unlisted r ?r sl"
  have lim: "16 * n < 2 ^ 32" using env by (auto simp: env_ok_def)
  note inj = near_inj[OF _ _ lim, of _ _ m]
  have ne: "?b \<noteq> ?r" "?b \<noteq> ?s" "?r \<noteq> ?s" using inj n pos(2,3) by simp_all
  have near: "?b \<in> near m n" "?r \<in> near m n" "?s \<in> near m n" by (rule near_at, use n in simp)+
  have q: "bh_q8 h \<notin> near m n" using env by (simp add: env_ok_def)
  have ls: "tiled ?S h m 1 False 0 ls" and b: "node_ok ?S h m ?k (ends_free ls) (last_size ls) (z, False)"
    and r: "node_ok ?S h m (?k + z) False z (r, True)" and s: "node_ok ?S h m (?k + z + r) True r (s, False)"
    and rs: "tiled ?S h m (?k + z + r + s) False s rs" and rt: "tiled ?S h m (?k + z) False z ((r, True) # (s, False) # rs)"
    using t by (auto simp: tiled_append ends_free_def last_size_def)
  have tb: "bh_tag h ?b = mk_tag (off_fl ?k False (ends_free ls) (ends_free ls \<and> last_size ls = 1) False) (word_of_nat (16 * z))"
    "?b \<notin> ?S" "ends_free ls \<and> last_size ls \<noteq> 1 \<longrightarrow> bh_left h ?b = node_at m (?k - last_size ls)"
    using b by (auto simp: node_ok_def Let_def)
  have ts: "bh_tag h ?s = mk_tag (off_fl (?k + z + r) False True (r = 1) False) (word_of_nat (16 * s))" "?s \<notin> ?S"
    using s by (auto simp: node_ok_def Let_def)
  have jr: "?k + z + r \<le> n" using n by simp
  note u = unlink_free[OF env jr pos(3) r ts]
  have "agree ?S h (set ?sl) ?h1 ?b" by (rule u(7)) (use near q ne in auto)
  then have tb1: "bh_tag ?h1 ?b = bh_tag h ?b" using tb(2) by (simp add: agree_def)
  have br: "?b + ucast (bsize h ?b) = ?r" using n lim by (simp add: tb(1) ucast_size node_at_add del: of_nat_mult)
  have tz: "(if bs_offset h ?r AND 8 \<noteq> 0 then (16, small_remove ?r h) else (bsize h ?r, take_out ?r h)) = (word_of_nat (16 * r), ?h1)"
    using un_used_free(2)[OF rt] r by (auto simp: unlink_def node_ok_def Let_def)
  have mr: "merge_right ?b h = ?h1\<lparr>bh_tag := (bh_tag ?h1)(?b := mk_tag (bs_offset h ?b) (word_of_nat (16 * (z + r))))\<rparr>"
    unfolding merge_right_def Let_def br tz prod.case using un_used_free(1)[OF rt]
    by (simp only: if_True tb1 tb(1) tag_sel size_add)
  have sub: "?b \<notin> set ?sl" "?s \<notin> set ?sl" using u(6) tb(2) ts(2) by auto
  have ag: "agree ?S h (set ?sl) (merge_right ?b h) (node_at m i)" if "i \<le> n" "i \<notin> {?k, ?k + z, ?k + z + r}" for i
  proof (rule agree_trans[OF u(7)])
    show "node_at m i \<noteq> bh_q8 h" using near_at[OF that(1), of m] q by auto
    show "node_at m i \<noteq> ?r" "node_at m i \<noteq> ?s" using that n inj by simp_all
    have "node_at m i \<noteq> ?b" using that n inj by simp
    then show "agree (set ?sl) ?h1 (set ?sl) (merge_right ?b h) (node_at m i)" unfolding mr by (rule agree_tag)
  qed
  show thesis
  proof (rule that[of ?sl])
    show "env_ok (merge_right ?b h) m ?sl n" unfolding mr by (rule env_tag[OF u(1) near(1) sub(1)])
    show "outside_ok m n sl h ?sl (merge_right ?b h)" unfolding outside_ok_def
    proof (intro conjI allI impI)
      show "bh_q8 (merge_right ?b h) = bh_q8 h" unfolding mr by (subst u(8)[symmetric]) simp
      fix a assume a: "a \<notin> inner m n" "a \<noteq> bh_q8 h"
      then have "a \<noteq> ?b" "a \<noteq> ?r" "a \<noteq> ?s" using inner_at[of _ n m] n by auto
      then show "agree ?S h (set ?sl) (merge_right ?b h) a" unfolding mr using u(7)[OF a(2)] agree_tag agree_trans by blast
    qed
    have "tiled (set ?sl) (merge_right ?b h) m 1 False 0 ls" by (rule tiled_left[OF ls pos(1) _ lim ag]) (use n in simp_all)
    moreover have "tiled (set ?sl) (merge_right ?b h) m (?k + z + r + s) False s rs"
      by (rule tiled_right[OF rs n ag]) (use pos(4) in auto)
    moreover have "\<forall>i < z + r + s. node_at m (?k + i) \<notin> set ?sl"
    proof (rule clear_append[OF clear_append])
      show "\<forall>i < z. node_at m (?k + i) \<notin> set ?sl" using node_clear[OF b] u(6) by blast
      show "\<forall>i < r. node_at m (?k + z + i) \<notin> set ?sl" by (rule free_clear[OF r u(5,6)])
      show "\<forall>i < s. node_at m (?k + (z + r) + i) \<notin> set ?sl" using node_clear[OF s] u(6) by (auto simp: add.assoc)
    qed
    ultimately show "merging (set ?sl) (merge_right ?b h) m ls False (z + r) True s rs"
      using sub tb u(3,4) ne unfolding merging_def mr Let_def by (simp add: add.assoc)
  qed
qed

lemma merge_left_used:
  assumes "merging S h m ls u z x s rs" "\<not> ends_free ls"
  shows "merge_left (node_at m (Suc (width ls))) h = (node_at m (Suc (width ls)), h)"
proof -
  have "\<not> left_unused h (node_at m (Suc (width ls)))"
    using assms by (simp only: merging_def Let_def left_unused_def tag_sel off_fl_simps) simp
  then show ?thesis by (simp add: merge_left_def)
qed

lemma merge_left_free:
  assumes env: "env_ok h m sl n" and mg: "merging (set sl) h m (ls @ [(l, True)]) u z x s rs" and nf: "\<not> ends_free ls"
    and n: "Suc (width ls) + l + z + s + width rs \<le> n"
    and pos: "\<forall>x \<in> set ls. 0 < fst x" "0 < l" "0 < z"
  obtains sl' h' where "merge_left (node_at m (Suc (width ls) + l)) h = (node_at m (Suc (width ls)), h')"
    "env_ok h' m sl' n" "merging (set sl') h' m ls True (l + z) x s rs" "outside_ok m n sl h sl' h'"
proof -
  let ?j = "Suc (width ls)"
  let ?a = "node_at m ?j" and ?b = "node_at m (?j + l)" and ?s = "node_at m (?j + l + z)"
  let ?S = "set sl" and ?h1 = "unlink l ?a h" and ?sl = "unlisted l ?a sl"
  have lim: "16 * n < 2 ^ 32" using env by (auto simp: env_ok_def)
  note inj = near_inj[OF _ _ lim, of _ _ m]
  have ne: "?a \<noteq> ?b" "?a \<noteq> ?s" "?b \<noteq> ?s" using inj n pos(2,3) by simp_all
  have near: "?a \<in> near m n" "?s \<in> near m n" "?b \<in> near m n" by (rule near_at, use n in simp)+
  have q: "bh_q8 h \<notin> near m n" using env by (simp add: env_ok_def)
  have k: "Suc (width (ls @ [(l, True)])) = ?j + l" "ends_free (ls @ [(l, True)])" "last_size (ls @ [(l, True)]) = l"
    by (simp_all add: ends_free_def last_size_def)
  note mg' = mg[unfolded merging_def Let_def k]
  have ls: "tiled ?S h m 1 False 0 ls" and a: "node_ok ?S h m ?j False (last_size ls) (l, True)"
    using mg' nf by (auto simp: tiled_append ends_free_def last_size_def split: if_splits)
  have tb: "bh_tag h ?b = mk_tag (off_fl (?j + l) u True (l = 1) False) (word_of_nat (16 * z))" "?b \<notin> ?S"
    and lft: "l \<noteq> 1 \<longrightarrow> bh_left h ?b = ?a" using mg' by (auto simp: k(2))
  have ts: "bh_tag h ?s = mk_tag (off_fl (?j + l + z) False x False False) (word_of_nat (16 * s))" "?s \<notin> ?S"
    and rs: "tiled ?S h m (?j + l + z + s) False s rs" using mg' by auto
  have jl: "?j + l \<le> n" using n by simp
  note f = unlink_free[OF env jl pos(2) a tb]
  have lu: "left_unused h ?b" "bs_offset h ?b AND 4 \<noteq> 0 \<longleftrightarrow> l = 1"
    by (simp_all only: left_unused_def tb(1) tag_sel off_fl_simps)
  have "?b - 16 = ?a" if "l = 1" using that by (simp add: node_at_def algebra_simps)
  then have bl: "(if bs_offset h ?b AND 4 \<noteq> 0 then (?b - 16, small_remove (?b - 16) h) else (bh_left h ?b, take_out (bh_left h ?b) h))
      = (?a, ?h1)" unfolding lu(2) using lft by (simp add: unlink_def)
  let ?h = "?h1\<lparr>bh_tag := (bh_tag ?h1)(?a := mk_tag (off_fl ?j True False False False) (word_of_nat (16 * (l + z))))\<rparr>"
  have ml: "merge_left ?b h = (?a, ?h)"
    unfolding merge_left_def Let_def bl prod.case using lu(1) by (simp only: if_True f(2,3) tag_sel size_add) simp
  have sub: "?a \<notin> set ?sl" "?s \<notin> set ?sl" using f(5,6) ts(2) by auto
  have ag: "agree ?S h (set ?sl) ?h (node_at m i)" if "i \<le> n" "i \<notin> {?j, ?j + l}" for i
  proof (rule agree_trans[OF f(7)])
    show "node_at m i \<noteq> bh_q8 h" using near_at[OF that(1), of m] q by auto
    show "node_at m i \<noteq> ?a" "node_at m i \<noteq> ?b" using that n inj by simp_all
    then show "agree (set ?sl) ?h1 (set ?sl) ?h (node_at m i)" by (intro agree_tag)
  qed
  have "agree ?S h (set ?sl) ?h ?s" by (rule ag) (use n pos in auto)
  then have tss: "bh_tag ?h ?s = bh_tag h ?s" using ts(2) by (simp only: agree_def if_False)
  show thesis
  proof (rule that[OF ml, of ?sl])
    show "env_ok ?h m ?sl n" by (rule env_tag[OF f(1) near(1) sub(1)])
    show "outside_ok m n sl h ?sl ?h" unfolding outside_ok_def
    proof (intro conjI allI impI)
      show "bh_q8 ?h = bh_q8 h" using f(8) by simp
      fix a assume a: "a \<notin> inner m n" "a \<noteq> bh_q8 h"
      then have "a \<noteq> ?a" "a \<noteq> ?b" using inner_at[of _ n m] n by auto
      then show "agree ?S h (set ?sl) ?h a" using f(7)[OF a(2)] agree_tag agree_trans by blast
    qed
    have "tiled (set ?sl) ?h m 1 False 0 ls" by (rule tiled_left[OF ls pos(1) _ lim ag]) (use n in simp_all)
    moreover have "tiled (set ?sl) ?h m (?j + l + z + s) False s rs" by (rule tiled_right[OF rs n ag]) (use pos in auto)
    moreover have "\<forall>i < l + (z + s). node_at m (?j + i) \<notin> set ?sl"
    proof (rule clear_append)
      show "\<forall>i < l. node_at m (?j + i) \<notin> set ?sl" by (rule free_clear[OF a f(5,6)])
      show "\<forall>i < z + s. node_at m (?j + l + i) \<notin> set ?sl" using mg' f(6) by blast
    qed
    ultimately show "merging (set ?sl) ?h m ls True (l + z) x s rs"
      using sub nf tss ts(1) unfolding merging_def Let_def by (simp add: add.assoc)
  qed
qed

text \<open>The merged node is marked free on both sides and put on the list of its size.\<close>

lemma set_unused_fields:
  assumes "b \<noteq> br"
  shows "bh_tag (set_unused b br h) = (bh_tag h)(br := mk_tag (bs_offset h br OR 2) (bsize h br), b := mk_tag (bs_offset h b OR 1) (bsize h b))"
    and "bh_left (set_unused b br h) = (bh_left h)(br := b)" "bh_data (set_unused b br h) = bh_data h"
    "bh_q8 (set_unused b br h) = bh_q8 h"
  using assms by (simp_all add: set_unused_def Let_def)

lemma node_insert_large:
  assumes "bsize h b = word_of_nat (16 * z)" "z \<noteq> 1" "16 * z < 2 ^ 32"
  shows "bh_tag (node_insert b h) = bh_tag h" "bh_left (node_insert b h) = bh_left h" "bh_data (node_insert b h) = bh_data h"
    "bh_q8 (node_insert b h) = bh_q8 h"
proof -
  have "word_of_nat (16 * z) \<noteq> (16 :: u64)" using of_nat_inj64[of "16 * z" 16] assms(2,3) by auto
  then show "bh_tag (node_insert b h) = bh_tag h" "bh_left (node_insert b h) = bh_left h"
    "bh_data (node_insert b h) = bh_data h" "bh_q8 (node_insert b h) = bh_q8 h"
    unfolding node_insert_def Let_def assms(1) ucast_size[OF assms(3)] by auto
qed

text \<open>The lists of the larger nodes: where a free node of \<open>z\<close> units goes, and how it leaves.\<close>

type_synonym big_lists = "u64 list list \<times> btree_call list"

definition bigs :: "bheap \<Rightarrow> big_lists" where
  "bigs h = (bh_qs h, bh_btree h)"

lemma bigs_updates [simp]:
  "bigs (h\<lparr>bh_tag := t\<rparr>) = bigs h" "bigs (h\<lparr>bh_left := l\<rparr>) = bigs h" "bigs (h\<lparr>bh_data := d\<rparr>) = bigs h"
  "bigs (h\<lparr>bh_q_mask := q\<rparr>) = bigs h" "bigs (h\<lparr>bh_fast := fa\<rparr>) = bigs h" "bigs (h\<lparr>bh_bl := bl\<rparr>) = bigs h"
  "bigs (h\<lparr>bh_a_alloced := a\<rparr>) = bigs h" "bigs (h\<lparr>bh_s_wanted := w\<rparr>) = bigs h" "bigs (h\<lparr>bh_returned := r\<rparr>) = bigs h"
  by (simp_all add: bigs_def)

definition qs_insert :: "u64 \<Rightarrow> nat \<Rightarrow> big_lists \<Rightarrow> big_lists" where
  "qs_insert b z Q = (case Q of (qs, cs) \<Rightarrow>
     if 63 < z then (qs, cs @ [BtreeInsert b (word_of_nat (16 * z))])
     else if z = 1 then Q else (qs[z - 1 := b # qs ! (z - 1)], cs))"

definition qs_remove :: "u64 \<Rightarrow> nat \<Rightarrow> big_lists \<Rightarrow> big_lists" where
  "qs_remove b z Q = (case Q of (qs, cs) \<Rightarrow>
     if 63 < z then (qs, cs @ [BtreeNodeDel b]) else if z = 1 then Q else (map (removeAll b) qs, cs))"

lemma node_insert_qs:
  assumes "bsize h b = word_of_nat (16 * z)" "0 < z" "16 * z < 2 ^ 32"
  shows "bigs (node_insert b h) = qs_insert b z (bigs h)" "bh_fast (node_insert b h) = bh_fast h"
proof -
  let ?w = "word_of_nat (16 * z) :: u64"
  have "y < 2 ^ 32 \<Longrightarrow> unat (word_of_nat y :: u64) = y" for y by (simp add: unat_of_nat)
  then have u: "unat ?w = 16 * z" using assms(3) by blast
  have "?w > QS_MAX \<longleftrightarrow> 63 < z" using u by (simp add: word_less_nat_alt del: of_nat_mult)
  moreover have "?w = 16 \<longleftrightarrow> z = 1" using of_nat_inj64[of "16 * z" 16] assms(3) by simp
  moreover have "unat (?w div 16) = z" using u by (simp add: unat_div_distrib del: of_nat_mult)
  ultimately show "bigs (node_insert b h) = qs_insert b z (bigs h)" "bh_fast (node_insert b h) = bh_fast h"
    unfolding node_insert_def Let_def assms(1) ucast_size[OF assms(3)] qs_insert_def bigs_def
    by (simp_all add: small_insert_def set_size8_def set_small_prev_def Let_def)
qed

lemma node_insert_small: "bsize h b = word_of_nat (16 * 1) \<Longrightarrow> node_insert b h = small_insert b h"
  by (simp add: node_insert_def Let_def)

lemma node_at_low:
  assumes m: "m AND 15 = 0"
  shows "node_at m k AND 15 = 0"
proof -
  have "m = push_bit 4 (drop_bit 4 m)"
  proof (rule bit_word_eqI)
    fix n assume "n < LENGTH(64)"
    moreover have "bit m n \<Longrightarrow> 4 \<le> n" using low_clear[OF m, of n] by (cases "n < 4") simp_all
    ultimately show "bit m n = bit (push_bit 4 (drop_bit 4 m)) n" by (auto simp: bit_push_bit_iff bit_drop_bit_eq)
  qed
  then have "node_at m k = push_bit 4 (drop_bit 4 m + word_of_nat k)" by (simp add: node_at_def push_bit_eq_mult algebra_simps)
  moreover have "push_bit 4 w AND 15 = 0" for w :: u64
    by (rule bit_word_eqI, unfold bit_and_iff bit_low4 bit_push_bit_iff) auto
  ultimately show ?thesis by simp
qed

lemma tiled_middle:
  "tiled S h m 1 False 0 (ls @ n # ns) \<longleftrightarrow> tiled S h m 1 False 0 ls \<and>
     node_ok S h m (Suc (width ls)) (ends_free ls) (last_size ls) n \<and> tiled S h m (Suc (width ls) + fst n) (snd n) (fst n) ns"
  by (auto simp: tiled_append ends_free_def last_size_def)

lemma save_tiled:
  assumes env: "env_ok h m sl n" and mg: "merging (set sl) h m ls u z x s rs" and nf: "\<not> ends_free ls"
    and n: "Suc (width ls) + z + s + width rs \<le> n" and pos: "\<forall>x \<in> set ls. 0 < fst x" "0 < z" "rs \<noteq> [] \<longrightarrow> 0 < s"
  defines "b \<equiv> node_at m (Suc (width ls))"
  obtains sl' where "env_ok (node_insert b (set_unused b (b + word_of_nat (16 * z)) h)) m sl' n"
    "tiled (set sl') (node_insert b (set_unused b (b + word_of_nat (16 * z)) h)) m 1 False 0 (ls @ (z, True) # (s, False) # rs)"
    "outside_ok m n sl h sl' (node_insert b (set_unused b (b + word_of_nat (16 * z)) h))"
proof -
  define k where "k = Suc (width ls)"
  define c where "c = node_at m (k + z)"
  define h1 where "h1 = set_unused b c h"
  define h2 where "h2 = node_insert b h1"
  let ?S = "set sl"
  have lim: "16 * n < 2 ^ 32" and rep: "small_rep h sl" and q: "bh_q8 h \<notin> near m n" "0 \<notin> near m n" "m AND 15 = 0"
    using env by (auto simp: env_ok_def)
  note inj = near_inj[OF _ _ lim, of _ _ m]
  have b: "b = node_at m k" by (simp add: b_def k_def)
  have kn: "k + z + s + width rs \<le> n" "k + z \<le> n" using n by (simp_all add: k_def)
  have ne: "b \<noteq> c" using inj kn pos(2) by (simp add: b c_def)
  have near: "b \<in> near m n" "c \<in> near m n" unfolding b c_def by (rule near_at, use kn in simp)+
  have bc: "b + word_of_nat (16 * z) = c" unfolding b c_def by (rule node_at_add)
  note mg' = mg[unfolded merging_def Let_def, folded b_def, folded k_def c_def]
  have tb: "bh_tag h b = mk_tag (off_fl k u False False False) (word_of_nat (16 * z))" "b \<notin> ?S"
    and tc: "bh_tag h c = mk_tag (off_fl (k + z) False x False False) (word_of_nat (16 * s))" "c \<notin> ?S"
    and ls: "tiled ?S h m 1 False 0 ls" and rs: "tiled ?S h m (k + z + s) False s rs"
    using mg' nf by (auto simp: c_def)
  have clr: "node_at m (k + i) \<notin> ?S" if "i < z + s" for i using mg' that by blast
  note f = set_unused_fields[OF ne, of h, folded h1_def]
  have t1: "bh_tag h1 b = mk_tag (off_fl k True False False False) (word_of_nat (16 * z))"
    "bh_tag h1 c = mk_tag (off_fl (k + z) False True False False) (word_of_nat (16 * s))"
    using ne unfolding f(1) tb(1) tc(1) by (simp_all add: off_fl_simps)
  have rep1: "small_rep h1 sl"
    by (rule small_rep_frame[OF rep]) (use f tb(2) tc(2) near q(1) in auto)
  then have env1: "env_ok h1 m sl n" using env f(4) by (simp add: env_ok_def)
  have ag1: "agree ?S h ?S h1 a" if "a \<noteq> b" "a \<noteq> c" for a using that f by (simp add: agree_def)
  define sl' where "sl' = (if z = 1 then sl @ [b] else sl)"
  have fin: "env_ok h2 m sl' n \<and> node_ok (set sl') h2 m k (ends_free ls) (last_size ls) (z, True) \<and>
    node_ok (set sl') h2 m (k + z) True z (s, False) \<and>
    (\<forall>a. a \<noteq> bh_q8 h \<longrightarrow> a \<noteq> b \<longrightarrow> a \<noteq> c \<longrightarrow> agree ?S h1 (set sl') h2 a) \<and> bh_q8 h2 = bh_q8 h"
  proof (cases "z = 1")
    case True
    have h2: "h2 = small_insert b h1" unfolding h2_def by (rule node_insert_small) (simp add: t1(1) True)
    have b16: "b + 16 = c" using bc True by simp
    have q1: "bh_q8 h1 \<noteq> b" "bh_q8 h1 \<noteq> c" using near q(1) f(4) by auto
    have "b AND 15 = 0" "b \<noteq> 0" "b \<notin> set (bh_q8 h1 # sl)" "b + 16 \<noteq> bh_q8 h1"
      using node_at_low[OF q(3), of k] q(2) q1 near tb(2) b16 by (auto simp: b)
    note g = small_insert_rep[OF rep1 this] and ag = agree_small_insert[OF rep1 this]
    have q2: "bh_q8 h2 = bh_q8 h1" unfolding h2 by (rule small_insert_fields(4)) (use ne b16 q1 in auto)
    then have "env_ok h2 m sl' n" using env1 g(1) by (simp add: env_ok_def h2 sl'_def True)
    moreover have "node_ok (set sl') h2 m k (ends_free ls) (last_size ls) (z, True)"
      using g(3) nf True unfolding h2 t1(1) tag_sel off_fl_simps by (simp add: node_ok_def Let_def sl'_def flip: b)
    moreover have "node_ok (set sl') h2 m (k + z) True z (s, False)"
    proof -
      have "node_at m (k + z + i) \<notin> set sl'" if "0 < i" "i < s" for i
        using clr[of "z + i"] that inj[of "k + z + i" k] kn True by (simp add: sl'_def b add.assoc)
      then show ?thesis
        using g(2) True tc(2) ne unfolding h2 b16 t1(2) tag_sel off_fl_simps by (simp add: node_ok_def Let_def sl'_def c_def)
    qed
    moreover have "agree ?S h1 (set sl') h2 a" if "a \<noteq> bh_q8 h" "a \<noteq> b" "a \<noteq> c" for a
    proof -
      have "a \<noteq> b + 16" "a \<noteq> bh_q8 h1" using that b16 f(4) by auto
      then show ?thesis using ag[OF that(2)] True by (simp add: h2 sl'_def)
    qed
    ultimately show ?thesis using q2 f(4) by simp
  next
    case False
    have "16 * z < 2 ^ 32" using kn lim by simp
    note g = node_insert_large[OF _ False this, of h1 b, folded h2_def, unfolded t1(1), OF tag_sel(2)]
    have "small_rep h2 sl" by (rule small_rep_frame[OF rep1]) (simp_all add: g)
    then have "env_ok h2 m sl n" using env1 g(4) by (simp add: env_ok_def)
    moreover have "node_ok (set sl') h2 m k (ends_free ls) (last_size ls) (z, True)"
      using False t1(1) tb(2) nf g(1) clr by (simp add: sl'_def node_ok_def Let_def flip: b)
    moreover have "node_ok (set sl') h2 m (k + z) True z (s, False)"
      using False t1(2) tc(2) g(1,2) f(2) clr[of "z + _"] by (simp add: sl'_def node_ok_def Let_def b add.assoc c_def)
    ultimately show ?thesis using False agree_same[OF g(1,2)] g(4) f(4) by (simp add: sl'_def)
  qed
  have ag: "agree ?S h (set sl') h2 (node_at m i)" if "i \<le> n" "i \<notin> {k, k + z}" for i
  proof -
    have "node_at m i \<noteq> b" "node_at m i \<noteq> c" unfolding b c_def using that kn inj by simp_all
    moreover have "node_at m i \<noteq> bh_q8 h" using near_at[OF that(1), of m] q(1) by auto
    ultimately show ?thesis using ag1 fin agree_trans by blast
  qed
  show thesis
  proof (rule that[of sl'], unfold bc, fold h1_def, fold h2_def)
    show "env_ok h2 m sl' n" using fin by blast
    show "outside_ok m n sl h sl' h2" unfolding outside_ok_def
    proof (intro conjI allI impI)
      show "bh_q8 h2 = bh_q8 h" using fin by blast
      fix a assume a: "a \<notin> inner m n" "a \<noteq> bh_q8 h"
      then have "a \<noteq> b" "a \<noteq> c" using inner_at[of _ n m] kn unfolding b c_def k_def by auto
      then show "agree ?S h (set sl') h2 a" using a(2) ag1 fin agree_trans by blast
    qed
    have "tiled (set sl') h2 m 1 False 0 ls" by (rule tiled_left[OF ls pos(1) _ lim ag]) (use n kn in \<open>simp_all add: k_def\<close>)
    moreover have "tiled (set sl') h2 m (k + z + s) False s rs" by (rule tiled_right[OF rs kn(1) ag]) (use pos in auto)
    ultimately show "tiled (set sl') h2 m 1 False 0 (ls @ (z, True) # (s, False) # rs)"
      unfolding tiled_middle k_def[symmetric] using fin by simp
  qed
qed

section \<open>The whole of a merge\<close>

text \<open>
  The nodes of a block: the last is the separator at its end, the others have room, and no two neighbours are free.
\<close>

definition shape :: "(nat \<times> bool) list \<Rightarrow> bool" where
  "shape ns \<longleftrightarrow> ns \<noteq> [] \<and> last ns = (0, False) \<and> (\<forall>x \<in> set (butlast ns). 0 < fst x) \<and>
     successively (\<lambda>a b. \<not> (snd a \<and> snd b)) ns"

definition absorb_right :: "nat \<Rightarrow> (nat \<times> bool) list \<Rightarrow> nat \<times> (nat \<times> bool) list" where
  "absorb_right z rs = (case rs of [] \<Rightarrow> (z, rs) | (r, f) # rs' \<Rightarrow> if f then (z + r, rs') else (z, rs))"

definition absorb_left :: "(nat \<times> bool) list \<Rightarrow> nat \<Rightarrow> (nat \<times> bool) list \<times> nat" where
  "absorb_left ls z = (if ends_free ls then (butlast ls, last_size ls + z) else (ls, z))"

text \<open>What the block looks like after the node between \<open>ls\<close> and \<open>rs\<close> is freed.\<close>

definition merged :: "(nat \<times> bool) list \<Rightarrow> nat \<Rightarrow> (nat \<times> bool) list \<Rightarrow> (nat \<times> bool) list" where
  "merged ls z rs = (let (z1, rs1) = absorb_right z rs; (ls1, z2) = absorb_left ls z1 in ls1 @ (z2, True) # rs1)"

lemma merging_frame:
  assumes "merging S h m ls u z x s rs" "bh_tag h' = bh_tag h" "bh_left h' = bh_left h"
  shows "merging S h' m ls u z x s rs"
proof -
  have "tiled S h m k lf lz ns \<Longrightarrow> tiled S h' m k lf lz ns" for k lf lz ns
    using tiled_agree[of S h m k lf lz ns S h'] agree_same[OF assms(2,3), of S] by blast
  then show ?thesis using assms unfolding merging_def Let_def by auto
qed

lemma shape_right:
  assumes "shape (ls @ (z, False) # rs)" "rs \<noteq> []"
  obtains s rs1 where "snd (absorb_right z rs) = (s, False) # rs1" "rs1 \<noteq> [] \<longrightarrow> 0 < s"
    "rs = (s, False) # rs1 \<and> fst (absorb_right z rs) = z \<or> (\<exists>r. rs = (r, True) # (s, False) # rs1 \<and> 0 < r \<and> fst (absorb_right z rs) = z + r)"
proof -
  have l: "last rs = (0, False)" and p: "\<forall>x \<in> set (butlast rs). 0 < fst x" and c: "successively (\<lambda>a b. \<not> (snd a \<and> snd b)) rs"
    using assms by (auto simp: shape_def butlast_append successively_append_iff successively_Cons)
  obtain r f rs' where rs: "rs = (r, f) # rs'" using assms(2) by (cases rs) auto
  show thesis
  proof (cases f)
    case True
    then obtain s g rs1 where rs': "rs' = (s, g) # rs1" using l rs by (cases rs') auto
    then have "\<not> g" using c rs True by (simp add: successively_Cons)
    then show ?thesis using p True rs rs' by (intro that[of s rs1]) (auto simp: absorb_right_def split: if_splits)
  next
    case False
    then show ?thesis using p rs by (intro that[of r rs']) (auto simp: absorb_right_def split: if_splits)
  qed
qed

lemma shape_pos: "shape (ls @ n # ns) \<Longrightarrow> \<forall>x \<in> set ls. 0 < fst x"
  by (auto simp: shape_def butlast_append)

lemma merge_right_block:
  assumes env: "env_ok h m sl n" and t: "tiled (set sl) h m 1 False 0 (ls @ (z, False) # rs)"
    and sh: "shape (ls @ (z, False) # rs)" and z: "0 < z" and n: "Suc (width (ls @ (z, False) # rs)) \<le> n"
  obtains sl1 z1 x s rs1 where "absorb_right z rs = (z1, (s, False) # rs1)" "rs1 \<noteq> [] \<longrightarrow> 0 < s"
    "env_ok (merge_right (node_at m (Suc (width ls))) h) m sl1 n"
    "merging (set sl1) (merge_right (node_at m (Suc (width ls))) h) m ls False z1 x s rs1"
    "Suc (width ls) + z1 + s + width rs1 = Suc (width (ls @ (z, False) # rs))" "0 < z1"
    "outside_ok m n sl h sl1 (merge_right (node_at m (Suc (width ls))) h)"
proof -
  have "rs \<noteq> []" using sh z by (auto simp: shape_def)
  then obtain s rs1 where s: "snd (absorb_right z rs) = (s, False) # rs1" "rs1 \<noteq> [] \<longrightarrow> 0 < s"
    and cases: "rs = (s, False) # rs1 \<and> fst (absorb_right z rs) = z \<or> (\<exists>r. rs = (r, True) # (s, False) # rs1 \<and> 0 < r \<and> fst (absorb_right z rs) = z + r)"
    by (rule shape_right[OF sh])
  from cases show thesis
  proof (elim disjE exE conjE)
    assume rs: "rs = (s, False) # rs1" and "fst (absorb_right z rs) = z"
    then have "absorb_right z rs = (z, (s, False) # rs1)" using s(1) by (metis prod.collapse)
    moreover have "merge_right (node_at m (Suc (width ls))) h = h"
      by (rule merge_right_used[OF t[unfolded rs]]) (use env n in \<open>simp add: env_ok_def rs\<close>)
    ultimately show thesis using tiled_merging[OF t[unfolded rs]] env s(2) z by (intro that[of z s rs1 sl False]) (simp_all add: rs outside_refl)
  next
    fix r assume rs: "rs = (r, True) # (s, False) # rs1" and "0 < r" and "fst (absorb_right z rs) = z + r"
    then have a: "absorb_right z rs = (z + r, (s, False) # rs1)" using s(1) by (metis prod.collapse)
    obtain sl' where "env_ok (merge_right (node_at m (Suc (width ls))) h) m sl' n"
      "merging (set sl') (merge_right (node_at m (Suc (width ls))) h) m ls False (z + r) True s rs1"
      "outside_ok m n sl h sl' (merge_right (node_at m (Suc (width ls))) h)"
      by (rule merge_right_free[OF env t[unfolded rs] _ shape_pos[OF sh] z \<open>0 < r\<close> s(2)]) (use n in \<open>simp add: rs\<close>)
    then show thesis using a s(2) z by (intro that[of "z + r" s rs1 sl' True]) (simp_all add: rs)
  qed
qed

lemma merge_left_block:
  assumes env: "env_ok h m sl n" and mg: "merging (set sl) h m ls False z x s rs" and z: "0 < z"
    and n: "Suc (width ls) + z + s + width rs \<le> n" and pos: "\<forall>x \<in> set ls. 0 < fst x"
    and c: "successively (\<lambda>a b. \<not> (snd a \<and> snd b)) ls"
  obtains ls1 z1 sl1 h1 u where "absorb_left ls z = (ls1, z1)"
    "merge_left (node_at m (Suc (width ls))) h = (node_at m (Suc (width ls1)), h1)"
    "env_ok h1 m sl1 n" "merging (set sl1) h1 m ls1 u z1 x s rs" "\<not> ends_free ls1" "0 < z1"
    "width ls1 + z1 = width ls + z" "\<forall>x \<in> set ls1. 0 < fst x" "outside_ok m n sl h sl1 h1"
proof (cases "ends_free ls")
  case True
  then obtain l ls1 where ls: "ls = ls1 @ [(l, True)]" by (cases ls rule: rev_cases) (auto simp: ends_free_def)
  have nf: "\<not> ends_free ls1" using c ls by (auto simp: ends_free_def successively_append_iff)
  have l: "0 < l" "\<forall>x \<in> set ls1. 0 < fst x" using pos ls by auto
  have n': "Suc (width ls1) + l + z + s + width rs \<le> n" using n ls by simp
  obtain sl' h' where "merge_left (node_at m (Suc (width ls1) + l)) h = (node_at m (Suc (width ls1)), h')"
    "env_ok h' m sl' n" "merging (set sl') h' m ls1 True (l + z) x s rs" "outside_ok m n sl h sl' h'"
    by (rule merge_left_free[OF env mg[unfolded ls] nf n' l(2,1) z])
  then show thesis using True nf l z by (intro that[of ls1 "l + z" h' sl' True]) (simp_all add: absorb_left_def ls last_size_def)
next
  case False
  then show thesis using env mg z pos merge_left_used[OF mg False]
    by (intro that[of ls z h sl False]) (simp_all add: absorb_left_def outside_refl)
qed

lemma page_start_block:
  assumes "m AND 4095 = 0"
  shows "page_start (m + 16) = m"
proof -
  have "unat (take_bit 12 m) = take_bit 12 (unat m)" by (rule unsigned_take_bit_eq)
  moreover have "take_bit 12 m = 0" using assms by (simp add: take_bit_eq_mask mask_eq_decr_exp)
  ultimately have "2 ^ 12 dvd unat m" by (simp add: take_bit_eq_mod mod_eq_0_iff_dvd)
  then obtain q where q: "unat m = 2 ^ 12 * q" by (elim dvdE)
  have "unat m < 2 ^ 64" using unsigned_less[of m, where ?'a = nat] by simp
  then have "q < 2 ^ 52" using q by simp
  then have "unat (m + 16) = unat m + 16" using q by (simp add: unat_word_ariths)
  moreover have "- PAGESIZE = NOT (mask 12)" using neg_pow_mask[of 12] by (simp add: PAGESIZE_def)
  ultimately have "unat (page_start (m + 16)) = (unat m + 16) div 2 ^ 12 * 2 ^ 12"
    unfolding page_start_def by (simp only: and.commute[of "NOT (mask 12)"] unat_and_not_mask)
  also have "\<dots> = unat m" using q by simp
  finally show ?thesis by (rule word_unat_eq_iff[THEN iffD2])
qed

lemma unat_of_small: "n < 2 ^ 32 \<Longrightarrow> unat (word_of_nat n :: u32) = n"
  by (simp add: unat_of_nat)

lemma off_fl_ge:
  assumes "16 * k + 16 < 2 ^ 32"
  shows "16 * k \<le> unat (off_fl k u l l8 False)"
proof -
  have "unat (fl u l l8 False) \<le> 7" by (cases u; cases l; cases l8; simp add: fl_def)
  moreover have "unat (word_of_nat (16 * k) :: u32) = 16 * k" by (rule unat_of_small) (use assms in simp)
  ultimately have "unat (fl u l l8 False + word_of_nat (16 * k)) = unat (fl u l l8 False) + 16 * k"
    using assms by (simp add: unat_word_ariths del: of_nat_mult)
  then show ?thesis unfolding fl_plus by simp
qed

text \<open>The block is given back only when the node is all of it; otherwise it is kept as a free node.\<close>

lemma merge_aux_block:
  assumes env: "env_ok h m sl n" and mg: "merging (set sl) h m ls u z x s rs" and nf: "\<not> ends_free ls"
    and n: "Suc (width ls) + z + s + width rs \<le> n" and pos: "\<forall>x \<in> set ls. 0 < fst x" "0 < z" "rs \<noteq> [] \<longrightarrow> 0 < s"
    and m: "m AND 4095 = 0"
  obtains (kept) sl' where "env_ok (merge_node_aux (node_at m (Suc (width ls))) h) m sl' n"
      "tiled (set sl') (merge_node_aux (node_at m (Suc (width ls))) h) m 1 False 0 (ls @ (z, True) # (s, False) # rs)"
      "outside_ok m n sl h sl' (merge_node_aux (node_at m (Suc (width ls))) h)"
      "bh_fast (merge_node_aux (node_at m (Suc (width ls))) h) = bh_fast h"
      "bh_returned (merge_node_aux (node_at m (Suc (width ls))) h) = bh_returned h"
      "bh_a_alloced (merge_node_aux (node_at m (Suc (width ls))) h) = bh_a_alloced h"
      "bigs (merge_node_aux (node_at m (Suc (width ls))) h) = qs_insert (node_at m (Suc (width ls))) z (bigs h)"
  | (returned) bl al where "ls = []" "s = 0" "rs = []" "al \<le> bh_a_alloced h"
      "merge_node_aux (node_at m (Suc (width ls))) h =
         h\<lparr>bh_bl := bl, bh_a_alloced := al, bh_returned := bh_returned h @ [(m, word_of_nat (16 * z + 32))]\<rparr>"
proof -
  define b where "b = node_at m (Suc (width ls))"
  define save where "save h' = node_insert b (set_unused b (b + word_of_nat (16 * z)) h')" for h'
  have lim: "16 * n < 2 ^ 32" using env by (simp add: env_ok_def)
  have sz: "16 * z < 2 ^ 32" "16 * s < 2 ^ 32" "16 * Suc (width ls) + 16 < 2 ^ 32" using n lim pos(2) by simp_all
  note mg' = mg[unfolded merging_def Let_def, folded b_def]
  have tb: "bh_tag h b = mk_tag (off_fl (Suc (width ls)) u False False False) (word_of_nat (16 * z))" using mg' nf by auto
  have bc: "b + word_of_nat (16 * z) = node_at m (Suc (width ls) + z)" unfolding b_def by (rule node_at_add)
  have tc: "bsize h (b + word_of_nat (16 * z)) = word_of_nat (16 * s)" unfolding bc using mg' by simp
  have aux: "merge_node_aux b h =
      (if 32 \<le> unat (off_fl (Suc (width ls)) u False False False) \<or> s \<noteq> 0 \<or> word_of_nat (16 * z) * 4 > bh_a_alloced h then save h
       else if bh_s_wanted h \<noteq> 0 \<and> bh_s_wanted h \<le> word_of_nat (16 * z) then save (h\<lparr>bh_s_wanted := 0\<rparr>)
       else let m' = page_start b; total = ucast (bsize h (m' + 16)) + HEADERSIZE
            in h\<lparr>bh_bl := removeAll m' (bh_bl h), bh_a_alloced := bh_a_alloced h - total, bh_returned := bh_returned h @ [(m', total)]\<rparr>)"
  proof -
    have "HEADERSIZE \<le> ucast x \<longleftrightarrow> 32 \<le> unat x" for x :: u32
      using unsigned_less[of x, where ?'a = nat] by (simp add: word_le_nat_alt unat_ucast_mod HEADERSIZE_def)
    moreover have "s = 0" if "word_of_nat (16 * s) = (0 :: u32)" using unat_of_small[OF sz(2)] unfolding that by simp
    then have "word_of_nat (16 * s) \<noteq> (0 :: u32) \<longleftrightarrow> s \<noteq> 0" by (cases "s = 0") auto
    ultimately show ?thesis unfolding merge_node_aux_def save_def by (simp only: Let_def tb tag_sel ucast_size[OF sz(1)] tc)
  qed
  have keep: thesis if "merge_node_aux b h = save h'" "bh_tag h' = bh_tag h" "bh_left h' = bh_left h" "bh_data h' = bh_data h" "bh_q8 h' = bh_q8 h"
    "bh_fast h' = bh_fast h" "bigs h' = bigs h" "bh_returned h' = bh_returned h" "bh_a_alloced h' = bh_a_alloced h" for h'
  proof -
    have "small_rep h' sl" by (rule small_rep_frame[of h]) (use env that in \<open>simp_all add: env_ok_def\<close>)
    then have "env_ok h' m sl n" using env that by (simp add: env_ok_def)
    note st = save_tiled[OF this merging_frame[OF mg that(2,3)] nf n pos, folded b_def, folded save_def]
    obtain sl' where k: "env_ok (save h') m sl' n" "tiled (set sl') (save h') m 1 False 0 (ls @ (z, True) # (s, False) # rs)"
      "outside_ok m n sl h' sl' (save h')" by (rule st)
    have "outside_ok m n sl h sl h'" using agree_same[OF that(2,3)] that(5) by (simp add: outside_ok_def)
    moreover have "bh_fast (save h') = bh_fast h" "bigs (save h') = qs_insert b z (bigs h)"
    proof -
      have "bsize (set_unused b (b + word_of_nat (16 * z)) h') b = word_of_nat (16 * z)"
        using tb that(2) by (simp add: set_unused_def Let_def)
      note q = node_insert_qs[OF this pos(2) sz(1)]
      show "bh_fast (save h') = bh_fast h" "bigs (save h') = qs_insert b z (bigs h)"
        unfolding save_def q using that(6,7) by (simp_all add: set_unused_def Let_def)
    qed
    moreover have "bh_returned (save h') = bh_returned h" "bh_a_alloced (save h') = bh_a_alloced h"
      using that(8,9) by (simp_all add: save_def set_unused_def node_insert_def small_insert_def set_size8_def set_small_prev_def Let_def)
    ultimately show thesis using kept[folded b_def, unfolded that(1)] k outside_trans by blast
  qed
  show thesis
  proof (cases "32 \<le> unat (off_fl (Suc (width ls)) u False False False) \<or> s \<noteq> 0 \<or> word_of_nat (16 * z) * 4 > bh_a_alloced h")
    case True
    then show thesis using keep[of h] aux by simp
  next
    case small: False
    show thesis
    proof (cases "bh_s_wanted h \<noteq> 0 \<and> bh_s_wanted h \<le> word_of_nat (16 * z)")
      case True
      then show thesis using keep[of "h\<lparr>bh_s_wanted := 0\<rparr>"] aux small by simp
    next
      case False
      have "width ls = 0" using small off_fl_ge[OF sz(3), of u False False] by simp
      then have ls: "ls = []" using pos(1) by (cases ls) auto
      have b: "b = m + 16" by (simp add: b_def ls node_at_def)
      have "merge_node_aux b h = (let m' = page_start b; total = ucast (bsize h (m' + 16)) + HEADERSIZE
          in h\<lparr>bh_bl := removeAll m' (bh_bl h), bh_a_alloced := bh_a_alloced h - total, bh_returned := bh_returned h @ [(m', total)]\<rparr>)"
        using aux unfolding if_not_P[OF small] if_not_P[OF False] .
      also have "\<dots> = h\<lparr>bh_bl := removeAll m (bh_bl h), bh_a_alloced := bh_a_alloced h - (ucast (bsize h b) + HEADERSIZE),
          bh_returned := bh_returned h @ [(m, ucast (bsize h b) + HEADERSIZE)]\<rparr>"
        using page_start_block[OF m] by (simp add: Let_def b)
      also have total: "ucast (bsize h b) + HEADERSIZE = word_of_nat (16 * z + 32)"
        by (simp only: tb tag_sel ucast_size[OF sz(1)]) (simp add: HEADERSIZE_def)
      finally have eq: "merge_node_aux b h = h\<lparr>bh_bl := removeAll m (bh_bl h), bh_a_alloced := bh_a_alloced h - word_of_nat (16 * z + 32),
          bh_returned := bh_returned h @ [(m, word_of_nat (16 * z + 32))]\<rparr>" .
      have "bh_a_alloced h - word_of_nat (16 * z + 32) \<le> bh_a_alloced h"
      proof -
        have below: "y < 2 ^ 35 \<Longrightarrow> unat (word_of_nat y :: u64) = y" for y by (simp add: unat_of_nat)
        have up: "word_of_nat (64 * z) \<le> bh_a_alloced h" using small by (simp add: not_less)
        have "64 * z < 2 ^ 35" "16 * z + 32 < 2 ^ 35" "16 * z + 32 \<le> 64 * z" using sz(1) pos(2) by simp_all
        then have "(word_of_nat (16 * z + 32) :: u64) \<le> word_of_nat (64 * z)"
          unfolding word_le_nat_alt using below[of "64 * z"] below[of "16 * z + 32"] by (simp only:)
        from order_trans[OF this up] show ?thesis by (rule word_sub_le)
      qed
      then show thesis using returned eq ls small pos(3) unfolding b_def by blast
    qed
  qed
qed

text \<open>What freeing does to the shape of a block.\<close>

lemma shape_middle:
  "shape (ls @ n # (s, False) # rs) \<longleftrightarrow> (\<forall>x \<in> set ls. 0 < fst x) \<and> 0 < fst n \<and> shape ((s, False) # rs) \<and>
     successively (\<lambda>a b. \<not> (snd a \<and> snd b)) ls \<and> \<not> (ends_free ls \<and> snd n)"
  by (auto simp: shape_def butlast_append successively_append_iff successively_Cons ends_free_def)

lemma shape_free_right:
  "shape (ls @ (z, False) # (r, True) # (s, False) # rs) \<Longrightarrow> shape (ls @ (z + r, False) # (s, False) # rs)"
  by (auto simp: shape_def butlast_append successively_append_iff successively_Cons)

lemma merged_shape:
  assumes sh: "shape (ls @ (z, False) # rs)" and z: "0 < z"
  shows "shape (merged ls z rs) \<and> width (merged ls z rs) = width (ls @ (z, False) # rs)"
proof -
  have "rs \<noteq> []" using sh z by (auto simp: shape_def)
  then obtain s rs1 where s: "snd (absorb_right z rs) = (s, False) # rs1" and "rs1 \<noteq> [] \<longrightarrow> 0 < s"
    and cs: "rs = (s, False) # rs1 \<and> fst (absorb_right z rs) = z \<or> (\<exists>r. rs = (r, True) # (s, False) # rs1 \<and> 0 < r \<and> fst (absorb_right z rs) = z + r)"
    by (rule shape_right[OF sh])
  obtain z1 where z1: "absorb_right z rs = (z1, (s, False) # rs1)" using s by (metis prod.collapse)
  have sh1: "shape (ls @ (z1, False) # (s, False) # rs1)" and w1: "width (ls @ (z1, False) # (s, False) # rs1) = width (ls @ (z, False) # rs)"
  proof -
    have "shape (ls @ (z1, False) # (s, False) # rs1) \<and> width (ls @ (z1, False) # (s, False) # rs1) = width (ls @ (z, False) # rs)"
      using cs
    proof (elim disjE exE conjE)
      assume "rs = (s, False) # rs1" "fst (absorb_right z rs) = z"
      then show ?thesis using sh z1 by simp
    next
      fix r assume rs: "rs = (r, True) # (s, False) # rs1" and "fst (absorb_right z rs) = z + r"
      then have "z1 = z + r" using z1 by simp
      then show ?thesis using shape_free_right[of ls z r s rs1] sh by (simp add: rs)
    qed
    then show "shape (ls @ (z1, False) # (s, False) # rs1)" "width (ls @ (z1, False) # (s, False) # rs1) = width (ls @ (z, False) # rs)"
      by blast+
  qed
  note sh2 = sh1[unfolded shape_middle]
  show ?thesis
  proof (cases "ends_free ls")
    case True
    then obtain l ls1 where ls: "ls = ls1 @ [(l, True)]" by (cases ls rule: rev_cases) (auto simp: ends_free_def)
    have "successively (\<lambda>a b. \<not> (snd a \<and> snd b)) ls1 \<and> \<not> ends_free ls1"
      using sh2 by (auto simp: ls ends_free_def successively_append_iff)
    then have "shape (ls1 @ (l + z1, True) # (s, False) # rs1)" unfolding shape_middle using sh2 by (simp add: ls)
    then show ?thesis using w1 True unfolding merged_def z1 by (simp add: absorb_left_def last_size_def ls)
  next
    case False
    then have "shape (ls @ (z1, True) # (s, False) # rs1)" unfolding shape_middle using sh2 by simp
    then show ?thesis using w1 False unfolding merged_def z1 by (simp add: absorb_left_def)
  qed
qed

lemma returned_unchanged:
  "bh_returned (merge_right b h) = bh_returned h" "bh_returned (snd (merge_left b h)) = bh_returned h"
  "bh_a_alloced (merge_right b h) = bh_a_alloced h" "bh_a_alloced (snd (merge_left b h)) = bh_a_alloced h"
  by (simp_all add: merge_right_def merge_left_def small_remove_def unset_size8_def set_small_prev_def take_out_def Let_def)

text \<open>What a merge does to the other lists.\<close>

lemma unlinked_qs:
  assumes "bsize h b = word_of_nat (16 * r) \<or> r = 1" "16 * r < 2 ^ 32"
  shows "bigs (if r = 1 then small_remove b h else take_out b h) = qs_remove b r (bigs h)"
    "bh_fast (if r = 1 then small_remove b h else take_out b h) = bh_fast h"
proof -
  have "y < 2 ^ 32 \<Longrightarrow> unat (word_of_nat y :: u64) = y" for y by (simp add: unat_of_nat)
  then have "unat (word_of_nat (16 * r) :: u64) = 16 * r" using assms(2) by blast
  then have "r \<noteq> 1 \<Longrightarrow> ucast (bsize h b) > QS_MAX \<longleftrightarrow> 63 < r"
    using assms ucast_size[OF assms(2)] by (simp add: word_less_nat_alt del: of_nat_mult)
  then show "bigs (if r = 1 then small_remove b h else take_out b h) = qs_remove b r (bigs h)"
    "bh_fast (if r = 1 then small_remove b h else take_out b h) = bh_fast h"
    by (auto simp: bigs_def qs_remove_def take_out_def small_remove_def unset_size8_def set_small_prev_def Let_def)
qed

definition qs_right :: "u64 \<Rightarrow> nat \<Rightarrow> (nat \<times> bool) list \<Rightarrow> big_lists \<Rightarrow> big_lists" where
  "qs_right m k rs qs = (case rs of (r, True) # _ \<Rightarrow> qs_remove (node_at m k) r qs | _ \<Rightarrow> qs)"

definition qs_left :: "u64 \<Rightarrow> (nat \<times> bool) list \<Rightarrow> big_lists \<Rightarrow> big_lists" where
  "qs_left m ls qs = (if ends_free ls then qs_remove (node_at m (Suc (width (butlast ls)))) (last_size ls) qs else qs)"

lemma merge_right_qs:
  assumes t: "tiled S h m 1 False 0 (ls @ (z, False) # rs)" and rs: "rs \<noteq> []" and n: "16 * Suc (width (ls @ (z, False) # rs)) < 2 ^ 32"
  shows "bigs (merge_right (node_at m (Suc (width ls))) h) = qs_right m (Suc (width ls) + z) rs (bigs h)"
    "bh_fast (merge_right (node_at m (Suc (width ls))) h) = bh_fast h"
proof -
  let ?k = "Suc (width ls)"
  obtain r f rs' where r: "rs = (r, f) # rs'" using rs by (cases rs) auto
  have b: "node_ok S h m ?k (ends_free ls) (last_size ls) (z, False)" and tr: "tiled S h m (?k + z) False z ((r, f) # rs')"
    using t unfolding r tiled_middle by simp_all
  have sz: "16 * z < 2 ^ 32" "16 * r < 2 ^ 32" using n by (simp_all add: r)
  have "bsize h (node_at m ?k) = word_of_nat (16 * z)" using b by (simp add: node_ok_def Let_def)
  then have br: "node_at m ?k + ucast (bsize h (node_at m ?k)) = node_at m (?k + z)"
    using ucast_size[OF sz(1)] by (simp only: node_at_add)
  have "bigs (merge_right (node_at m ?k) h) = qs_right m (?k + z) rs (bigs h) \<and> bh_fast (merge_right (node_at m ?k) h) = bh_fast h"
  proof (cases f)
    case True
    then have f: "f = True" by simp
    note u = un_used_free[OF tr[unfolded f]]
    have "bsize h (node_at m (?k + z)) = word_of_nat (16 * r) \<or> r = 1"
      using tr True by (auto simp: node_ok_def Let_def split: if_splits)
    note q = unlinked_qs[OF this sz(2)]
    show ?thesis unfolding merge_right_def Let_def br using q u by (auto simp: qs_right_def r f split: if_splits)
  next
    case False
    then show ?thesis using merge_right_used[of S h m ls z r rs'] t sz(1) by (simp add: r qs_right_def)
  qed
  then show "bigs (merge_right (node_at m ?k) h) = qs_right m (?k + z) rs (bigs h)" "bh_fast (merge_right (node_at m ?k) h) = bh_fast h"
    by blast+
qed

lemma merge_left_qs:
  assumes mg: "merging S h m ls u z x s rs" and n: "16 * Suc (width ls) < 2 ^ 32"
  shows "bigs (snd (merge_left (node_at m (Suc (width ls))) h)) = qs_left m ls (bigs h)"
    "bh_fast (snd (merge_left (node_at m (Suc (width ls))) h)) = bh_fast h"
proof -
  let ?b = "node_at m (Suc (width ls))"
  have "bigs (snd (merge_left ?b h)) = qs_left m ls (bigs h) \<and> bh_fast (snd (merge_left ?b h)) = bh_fast h"
  proof (cases "ends_free ls")
    case True
    then obtain l ls1 where ls: "ls = ls1 @ [(l, True)]" by (cases ls rule: rev_cases) (auto simp: ends_free_def)
    let ?a = "node_at m (Suc (width ls1))"
    have k: "Suc (width ls) = Suc (width ls1) + l" "last_size ls = l" by (simp_all add: ls last_size_def)
    note mg' = mg[unfolded merging_def Let_def k]
    have tb: "bh_tag h ?b = mk_tag (off_fl (Suc (width ls)) u True (l = 1) False) (word_of_nat (16 * z))"
      and lft: "l \<noteq> 1 \<longrightarrow> bh_left h ?b = ?a" using mg' True unfolding k by auto
    have lu: "left_unused h ?b" "bs_offset h ?b AND 4 \<noteq> 0 \<longleftrightarrow> l = 1"
      by (simp_all only: left_unused_def tb tag_sel off_fl_simps)
    have "node_ok S h m (Suc (width ls1)) (ends_free ls1) (last_size ls1) (l, True)"
      using mg' unfolding ls tiled_middle by simp
    then have sa: "bsize h ?a = word_of_nat (16 * l) \<or> l = 1" by (auto simp: node_ok_def Let_def split: if_splits)
    have l16: "16 * l < 2 ^ 32" using n by (simp add: ls)
    have "?b - 16 = ?a" if "l = 1" using that by (simp add: node_at_def ls algebra_simps)
    then have "(if bs_offset h ?b AND 4 \<noteq> 0 then (?b - 16, small_remove (?b - 16) h) else (bh_left h ?b, take_out (bh_left h ?b) h))
        = (?a, if l = 1 then small_remove ?a h else take_out ?a h)" unfolding lu(2) using lft by simp
    then have "bigs (snd (merge_left ?b h)) = bigs (if l = 1 then small_remove ?a h else take_out ?a h) \<and>
        bh_fast (snd (merge_left ?b h)) = bh_fast (if l = 1 then small_remove ?a h else take_out ?a h)"
      unfolding merge_left_def Let_def using lu(1) by simp
    then show ?thesis using unlinked_qs[OF sa l16] True by (simp add: qs_left_def k(2)) (simp add: ls)
  next
    case False
    then show ?thesis using merge_left_used[OF mg False] by (simp add: qs_left_def)
  qed
  then show "bigs (snd (merge_left ?b h)) = qs_left m ls (bigs h)" "bh_fast (snd (merge_left ?b h)) = bh_fast h" by blast+
qed

lemma outside_tiled:
  assumes "outside_ok m n sl h sl' h'" "tiled (set sl) h m2 k lf lz ns" "cover m2 k ns \<inter> near m n = {}" "bh_q8 h \<notin> cover m2 k ns"
  shows "tiled (set sl') h' m2 k lf lz ns"
proof (rule tiled_agree[OF assms(2)])
  fix a assume "a \<in> cover m2 k ns"
  then have "a \<notin> inner m n" "a \<noteq> bh_q8 h" using assms(3,4) inner_near[of m n] by auto
  then show "agree (set sl) h (set sl') h' a" using assms(1) by (simp add: outside_ok_def)
qed

lemma merge_node_cases:
  assumes env: "env_ok h m sl n" and t: "tiled (set sl) h m 1 False 0 (ls @ (z, False) # rs)"
    and sh: "shape (ls @ (z, False) # rs)" and z: "0 < z" and n: "Suc (width (ls @ (z, False) # rs)) \<le> n"
    and m: "m AND 4095 = 0"
  defines "h' \<equiv> merge_node (node_at m (Suc (width ls)) + 16) h"
  defines "qs \<equiv> qs_left m ls (qs_right m (Suc (width ls) + z) rs (bigs h))"
  obtains (kept) sl' ls1 z2 rs1 where "merged ls z rs = ls1 @ (z2, True) # rs1" "absorb_left ls (fst (absorb_right z rs)) = (ls1, z2)"
      "env_ok h' m sl' n" "tiled (set sl') h' m 1 False 0 (merged ls z rs)" "outside_ok m n sl h sl' h'" "bh_fast h' = bh_fast h"
      "bigs h' = qs_insert (node_at m (Suc (width ls1))) z2 qs" "bh_returned h' = bh_returned h" "bh_a_alloced h' = bh_a_alloced h"
  | (returned) sl' w where "merged ls z rs = [(w, True), (0, False)]" "bh_returned h' = bh_returned h @ [(m, word_of_nat (16 * w + 32))]"
      "env_ok h' m sl' n" "\<And>i. 1 \<le> i \<Longrightarrow> i \<le> Suc w \<Longrightarrow> node_at m i \<notin> set sl'" "outside_ok m n sl h sl' h'" "bh_fast h' = bh_fast h" "bigs h' = qs" "bh_a_alloced h' \<le> bh_a_alloced h"
proof -
  let ?b = "node_at m (Suc (width ls))"
  have lim: "16 * n < 2 ^ 32" using env by (simp add: env_ok_def)
  have rs: "rs \<noteq> []" using sh z by (auto simp: shape_def)
  obtain sl1 z1 x s rs1 where r: "absorb_right z rs = (z1, (s, False) # rs1)" "rs1 \<noteq> [] \<longrightarrow> 0 < s"
    "env_ok (merge_right ?b h) m sl1 n" "merging (set sl1) (merge_right ?b h) m ls False z1 x s rs1"
    "Suc (width ls) + z1 + s + width rs1 = Suc (width (ls @ (z, False) # rs))" "0 < z1"
    "outside_ok m n sl h sl1 (merge_right ?b h)"
    by (rule merge_right_block[OF env t sh z n])
  have n1: "Suc (width ls) + z1 + s + width rs1 \<le> n" using r(5) n by simp
  have c: "successively (\<lambda>a b. \<not> (snd a \<and> snd b)) ls" using sh by (simp add: shape_def successively_append_iff)
  obtain ls1 z2 sl2 h2 u where l: "absorb_left ls z1 = (ls1, z2)"
    "merge_left ?b (merge_right ?b h) = (node_at m (Suc (width ls1)), h2)"
    "env_ok h2 m sl2 n" "merging (set sl2) h2 m ls1 u z2 x s rs1" "\<not> ends_free ls1" "0 < z2"
    "width ls1 + z2 = width ls + z1" "\<forall>x \<in> set ls1. 0 < fst x" "outside_ok m n sl1 (merge_right ?b h) sl2 h2"
    by (rule merge_left_block[OF r(3,4,6) n1 shape_pos[OF sh] c])
  have n2: "Suc (width ls1) + z2 + s + width rs1 \<le> n" using l(7) n1 by simp
  have mn: "h' = merge_node_aux (node_at m (Suc (width ls1))) h2" by (simp add: h'_def merge_node_def l(2))
  have ret: "bh_returned h2 = bh_returned h" "bh_a_alloced h2 = bh_a_alloced h"
    using returned_unchanged(2,4)[of ?b "merge_right ?b h"] unfolding l(2) returned_unchanged(1,3) snd_conv by simp_all
  have mr: "merged ls z rs = ls1 @ (z2, True) # (s, False) # rs1" by (simp add: merged_def r(1) l(1))
  have out2: "outside_ok m n sl h sl2 h2" by (rule outside_trans[OF r(7) l(9)])
  have q2: "bigs h2 = qs" "bh_fast h2 = bh_fast h"
    using merge_left_qs[OF r(4)] merge_right_qs[OF t rs] n lim unfolding l(2) snd_conv qs_def by simp_all
  show thesis
  proof (rule merge_aux_block[OF l(3,4,5) n2 l(8,6) r(2) m], fold mn)
    fix sl' assume "env_ok h' m sl' n" "tiled (set sl') h' m 1 False 0 (ls1 @ (z2, True) # (s, False) # rs1)"
      "outside_ok m n sl2 h2 sl' h'" "bh_fast h' = bh_fast h2" "bh_returned h' = bh_returned h2" "bh_a_alloced h' = bh_a_alloced h2"
      "bigs h' = qs_insert (node_at m (Suc (width ls1))) z2 (bigs h2)"
    then show thesis using kept[OF mr] outside_trans[OF out2] q2 ret l(1) r(1) by (simp add: mr)
  next
    fix bl al assume e: "ls1 = []" "s = 0" "rs1 = []" and al: "al \<le> bh_a_alloced h2"
      and h': "h' = h2\<lparr>bh_bl := bl, bh_a_alloced := al, bh_returned := bh_returned h2 @ [(m, word_of_nat (16 * z2 + 32))]\<rparr>"
    have "env_ok h' m sl2 n"
    proof -
      have "small_rep h' sl2" by (rule small_rep_frame[of h2]) (use l(3) in \<open>simp_all add: h' env_ok_def\<close>)
      then show ?thesis using l(3) by (simp add: env_ok_def h')
    qed
    moreover have "node_at m i \<notin> set sl2" if i: "1 \<le> i" "i \<le> Suc z2" for i
    proof -
      have "\<forall>j < z2. node_at m (Suc j) \<notin> set sl2" "node_at m (Suc z2) \<notin> set sl2"
        using l(4) unfolding merging_def Let_def e by auto
      then show ?thesis using i by (cases i) (auto simp: less_Suc_eq_le le_less)
    qed
    moreover have "outside_ok m n sl h sl2 h'" using outside_trans[OF out2, of sl2 h'] agree_same[of h' h2] by (simp add: h' outside_ok_def)
    ultimately show thesis using returned[of z2 sl2] q2 ret al by (simp add: mr e h')
  qed
qed

text \<open>
  \<^bold>\<open>C19.\<close> Freeing a node of a block, whatever its neighbours are, merges it with the free ones: afterwards the
  separators describe the same room cut into nodes of which no two neighbours are free, the flags on both sides of
  every separator agree, exactly the free nodes of 16 bytes are on their list, and every other block is as it was; or
  the freed node was the last one in use, and the whole block was returned to the kernel.
\<close>

theorem merge_node_coalesces:
  assumes env: "env_ok h m sl n" and t: "tiled (set sl) h m 1 False 0 (ls @ (z, False) # rs)"
    and sh: "shape (ls @ (z, False) # rs)" and z: "0 < z" and n: "Suc (width (ls @ (z, False) # rs)) \<le> n"
    and m: "m AND 4095 = 0"
  shows "shape (merged ls z rs) \<and> width (merged ls z rs) = width (ls @ (z, False) # rs) \<and>
    (let h' = merge_node (node_at m (Suc (width ls)) + 16) h
     in (\<exists>sl'. env_ok h' m sl' n \<and> tiled (set sl') h' m 1 False 0 (merged ls z rs) \<and>
           (\<forall>m2 ns. tiled (set sl) h m2 1 False 0 ns \<longrightarrow> cover m2 1 ns \<inter> near m n = {} \<longrightarrow>
              bh_q8 h \<notin> cover m2 1 ns \<longrightarrow> tiled (set sl') h' m2 1 False 0 ns)) \<or>
        (\<exists>w. merged ls z rs = [(w, True), (0, False)] \<and> bh_returned h' = bh_returned h @ [(m, word_of_nat (16 * w + 32))]))"
proof (rule merge_node_cases[OF env t sh z n m])
  let ?h = "merge_node (node_at m (Suc (width ls)) + 16) h"
  fix sl'
  assume *: "env_ok ?h m sl' n" "tiled (set sl') ?h m 1 False 0 (merged ls z rs)" and "outside_ok m n sl h sl' ?h"
  from outside_tiled[OF this(3)] show ?thesis using * merged_shape[OF sh z] unfolding Let_def by blast
next
  fix w
  assume "merged ls z rs = [(w, True), (0, False)]"
    "bh_returned (merge_node (node_at m (Suc (width ls)) + 16) h) = bh_returned h @ [(m, word_of_nat (16 * w + 32))]"
  then show ?thesis using merged_shape[OF sh z] unfolding Let_def by blast
qed

definition sample_block :: bheap where
  "sample_block = \<lparr>bh_left = (\<lambda>_. 0),
     bh_tag = (\<lambda>_. 0)(160 := 65552, 65552 := 169, 65568 := mk_tag 38 32, 65600 := mk_tag 64 48, 65648 := mk_tag 112 0),
     bh_data = (\<lambda>_. 0)(160 := 65552, 65552 := 160), bh_q8 = 160, bh_qs = replicate 64 [], bh_q_mask = 0,
     bh_fast = \<lparr>fa_fl = replicate 64 [], fa_mask = 0\<rparr>, bh_btree = [], bh_bl = [65536], bh_a_alloced = 4096,
     bh_s_wanted = 0, bh_returned = []\<rparr>"

lemma sample_near: "a \<in> near 65536 7 \<Longrightarrow> a \<in> set (map (node_at 65536) [0..<8])"
  by (auto simp: near_def)

lemma sample_block_env: "env_ok sample_block 65536 [65552] 7"
proof -
  have "small_rep sample_block [65552]"
    by (simp add: small_rep_def dlist_rep_def small_store_def small_prev_def sample_block_def)
  moreover have "160 \<notin> near 65536 7" "0 \<notin> near 65536 7"
    using sample_near[of 160] sample_near[of 0] by (auto simp: node_at_def upt_rec)
  ultimately show ?thesis by (simp add: env_ok_def sample_block_def)
qed

lemma sample_block_tiled:
  "tiled (set [65552]) sample_block 65536 1 False 0 ([(1, True)] @ (2, False) # [(3, False), (0, False)])"
proof -
  have "65568 + 16 * word_of_nat i \<noteq> (65552 :: u64)" if "0 < i" "i < 2" for i
  proof -
    have "i = 1" using that by simp
    then show ?thesis by simp
  qed
  moreover have "65600 + 16 * word_of_nat i \<noteq> (65552 :: u64)" if "0 < i" "i < 3" for i
    using that by (auto simp: less_Suc_eq numeral_3_eq_3)
  ultimately show ?thesis
    by (simp add: node_ok_def node_at_def sample_block_def Let_def off_fl_def fl_def tag_off_def)
qed

theorem merge_node_coalesces_witness:
  "merged [(1, True)] 2 [(3, False), (0, False)] = [(3, True), (3, False), (0, False)] \<and>
   (\<exists>sl'. tiled (set sl') (merge_node 65584 sample_block) 65536 1 False 0 [(3, True), (3, False), (0, False)])"
proof -
  have sh: "shape ([(1, True)] @ (2, False) # [(3, False), (0, False)])" by (simp add: shape_def)
  have m: "merged [(1, True)] 2 [(3, False), (0, False)] = [(3, True), (3, False), (0, False)]"
    by (simp add: merged_def absorb_right_def absorb_left_def ends_free_def last_size_def)
  have "node_at 65536 (Suc (width [(1, True)])) + 16 = 65584" by (simp add: node_at_def)
  then show ?thesis using merge_node_coalesces[OF sample_block_env sample_block_tiled sh] unfolding m by (auto simp: Let_def)
qed

section \<open>Splitting and taking\<close>

text \<open>A node in use is cut in two unless the rest would be less than a quarter of what is wanted.\<close>

definition split_nodes :: "nat \<Rightarrow> nat \<Rightarrow> (nat \<times> bool) list" where
  "split_nodes t a = (if 4 * (t - a) < a then [(t, False)] else [(a, False), (t - a, False)])"

lemma node_ok_used_left: "node_ok S h m k False lz n \<Longrightarrow> node_ok S h m k False lz' n"
  by (auto simp: node_ok_def Let_def split: prod.splits)

lemma tiled_used_left: "tiled S h m k False lz ns \<Longrightarrow> tiled S h m k False lz' ns"
  by (cases ns) (auto intro: node_ok_used_left)

lemma free_rest_fields:
  assumes "free_rest b w h = Inr h'"
  shows "bh_tag h' = bh_tag h" "bh_left h' = bh_left h" "bh_data h' = bh_data h" "bh_q8 h' = bh_q8 h"
  using assms by (auto simp: free_rest_def bindE_def split: sum.splits)

lemma set_sep_fields:
  shows "bh_tag (set_sep b z bo h) = (bh_tag h)(b := mk_tag ((bs_offset h bo AND NOT 15) + ucast (b - bo)) z)"
    and "bh_left (set_sep b z bo h) = bh_left h" "bh_data (set_sep b z bo h) = bh_data h" "bh_q8 (set_sep b z bo h) = bh_q8 h"
  by (simp_all add: set_sep_def Let_def)

lemma off_fl_plain: "off_fl k False False False False = word_of_nat (16 * k)"
  by (simp add: off_fl_def fl_def)

lemma unat_of_size: "16 * x < 2 ^ 32 \<Longrightarrow> unat (word_of_nat (16 * x) :: u64) = 16 * x"
proof -
  have "y < 2 ^ 32 \<Longrightarrow> unat (word_of_nat y :: u64) = y" for y by (simp add: unat_of_nat)
  then show "16 * x < 2 ^ 32 \<Longrightarrow> ?thesis" by blast
qed

lemma ucast_size_down: "16 * x < 2 ^ 32 \<Longrightarrow> (ucast (word_of_nat (16 * x) :: u64) :: u32) = word_of_nat (16 * x)"
proof -
  have "y < 2 ^ 32 \<Longrightarrow> (ucast (word_of_nat y :: u64) :: u32) = word_of_nat y" for y
    by (simp add: unsigned_of_nat take_bit_nat_eq_self)
  then show "16 * x < 2 ^ 32 \<Longrightarrow> ?thesis" by blast
qed

lemma size_diff: "y \<le> x \<Longrightarrow> word_of_nat (16 * x) - word_of_nat (16 * y) = (word_of_nat (16 * (x - y)) :: u64)"
  by (simp add: of_nat_diff algebra_simps)

lemma split_tiled:
  assumes env: "env_ok h m sl n" and t: "tiled (set sl) h m 1 False 0 (ls @ (t, False) # rs)"
    and n: "Suc (width (ls @ (t, False) # rs)) \<le> n" and a: "0 < a" "a \<le> t" and pos: "\<forall>x \<in> set ls. 0 < fst x"
  obtains h' where "split_node (node_at m (Suc (width ls))) (word_of_nat (16 * t)) (word_of_nat (16 * a)) h =
      Inr (node_at m (Suc (width ls)) + 16, h')"
    "env_ok h' m sl n" "tiled (set sl) h' m 1 False 0 (ls @ split_nodes t a @ rs)" "outside_ok m n sl h sl h'"
proof -
  define k where "k = Suc (width ls)"
  define b where "b = node_at m k"
  define c where "c = node_at m (k + a)"
  have lim: "16 * n < 2 ^ 32" using env by (simp add: env_ok_def)
  have kn: "k + t + width rs \<le> n" using n by (simp add: k_def)
  have sz: "16 * (t - a) < 2 ^ 32" "16 * a < 2 ^ 32" "64 * (t - a) < 2 ^ 64" using kn lim a by simp_all
  have "unat (word_of_nat (16 * (t - a)) * (4 :: u64)) = 64 * (t - a)"
    using unat_of_size[OF sz(1)] sz(3) by (simp add: unat_word_ariths del: of_nat_mult)
  then have cmp: "word_of_nat (16 * (t - a)) * 4 < (word_of_nat (16 * a) :: u64) \<longleftrightarrow> 4 * (t - a) < a"
    using unat_of_size[OF sz(2)] by (simp add: word_less_nat_alt del: of_nat_mult)
  show thesis
  proof (cases "4 * (t - a) < a")
    case True
    then show thesis using cmp env t
      by (intro that[of h]) (simp_all add: split_node_def Let_def size_diff[OF a(2)] split_nodes_def outside_refl del: of_nat_mult)
  next
    case False
    then have ta: "a < t" using a by simp
    have "block_size (word_of_nat (16 * (t - a)))" using unat_of_size[OF sz(1)] sz ta by (simp add: block_size_def del: of_nat_mult)
    then obtain i where "size2fl (word_of_nat (16 * (t - a))) = Inr i" using size2fl_total by blast
    define h2 where "h2 = set_sep c (word_of_nat (16 * (t - a))) b (set_bsize b (word_of_nat (16 * a)) h)"
    obtain h3 where h3: "free_rest c (word_of_nat (16 * (t - a))) h2 = Inr h3"
      using \<open>size2fl _ = _\<close> by (simp add: free_rest_def fast_free_def)
    have bc: "b + word_of_nat (16 * a) = c" unfolding b_def c_def by (rule node_at_add)
    have sp: "split_node b (word_of_nat (16 * t)) (word_of_nat (16 * a)) h = Inr (b + 16, h3)"
      using cmp False h3 unfolding split_node_def Let_def size_diff[OF a(2)] bc ucast_size_down[OF sz(1)] ucast_size_down[OF sz(2)] h2_def by simp
    have ok: "tiled (set sl) h m 1 False 0 ls" "node_ok (set sl) h m k (ends_free ls) (last_size ls) (t, False)"
      "tiled (set sl) h m (k + t) False t rs" using t unfolding tiled_middle k_def by simp_all
    have tb: "bh_tag h b = mk_tag (off_fl k False (ends_free ls) (ends_free ls \<and> last_size ls = 1) False) (word_of_nat (16 * t))"
      and lb: "ends_free ls \<and> last_size ls \<noteq> 1 \<longrightarrow> bh_left h b = node_at m (k - last_size ls)"
      using ok(2) by (auto simp: node_ok_def Let_def b_def)
    have clr: "node_at m (k + i) \<notin> set sl" if "i < t" for i using node_clear[OF ok(2)] that by blast
    note inj = near_inj[OF _ _ lim, of _ _ m]
    have ne: "c \<noteq> b" "c \<notin> set sl" "b \<notin> set sl" using inj[of "k + a" k] kn a ta clr[of a] clr[of 0] by (auto simp: b_def c_def)
    have near: "b \<in> near m n" "c \<in> near m n" unfolding b_def c_def by (rule near_at, use kn ta in simp)+
    have "c - b = word_of_nat (16 * a)" using bc by (metis add_diff_cancel_left')
    then have off: "(bs_offset h b AND NOT 15) + ucast (c - b) = off_fl (k + a) False False False False"
      by (simp only: tb tag_sel off_fl_simps ucast_size_down[OF sz(2)] size_add off_fl_plain)
    have "bh_tag h2 = (bh_tag h)(b := mk_tag (bs_offset h b) (word_of_nat (16 * a)),
        c := mk_tag ((bs_offset h b AND NOT 15) + ucast (c - b)) (word_of_nat (16 * (t - a))))"
      unfolding h2_def set_sep_fields by (simp del: of_nat_mult)
    then have tg: "bh_tag h3 = (bh_tag h)(b := mk_tag (bs_offset h b) (word_of_nat (16 * a)),
        c := mk_tag (off_fl (k + a) False False False False) (word_of_nat (16 * (t - a))))"
      unfolding free_rest_fields[OF h3] off .
    have q3: "bh_left h3 = bh_left h" "bh_data h3 = bh_data h" "bh_q8 h3 = bh_q8 h"
      unfolding free_rest_fields[OF h3] h2_def set_sep_fields by simp_all
    have "small_rep h3 sl"
      by (rule small_rep_frame[of h]) (use env near ne tg q3 in \<open>auto simp: env_ok_def\<close>)
    then have env3: "env_ok h3 m sl n" using env q3 by (simp add: env_ok_def)
    have ag: "agree (set sl) h (set sl) h3 x" if "x \<noteq> b" "x \<noteq> c" for x using that tg q3 by (simp add: agree_def)
    have agi: "agree (set sl) h (set sl) h3 (node_at m i)" if "i \<le> n" "i \<noteq> k" "i \<noteq> k + a" for i
      by (rule ag) (use that inj kn ta in \<open>simp_all add: b_def c_def\<close>)
    have "tiled (set sl) h3 m 1 False 0 ls" by (rule tiled_left[OF ok(1) pos _ lim agi]) (use kn in \<open>simp_all add: k_def\<close>)
    moreover have "tiled (set sl) h3 m (k + t) False t rs" by (rule tiled_right[OF ok(3) kn agi]) (use a ta in auto)
    moreover have "node_ok (set sl) h3 m k (ends_free ls) (last_size ls) (a, False)"
      using tg tb lb ne q3(1) clr ta unfolding node_ok_def b_def[symmetric] by (simp add: Let_def)
    moreover have "node_ok (set sl) h3 m (k + a) False a (t - a, False)"
      using tg ne(2) clr[of "a + _"] unfolding node_ok_def c_def[symmetric] by (simp add: Let_def add.assoc)
    ultimately have "tiled (set sl) h3 m 1 False 0 (ls @ split_nodes t a @ rs)"
      using False ta tiled_used_left[of "set sl" h3 m "k + t" t rs "t - a"]
      unfolding split_nodes_def if_not_P[OF False] append.simps tiled_middle k_def[symmetric] by simp
    moreover have "b \<in> inner m n" "c \<in> inner m n" unfolding b_def c_def by (rule inner_at, use kn ta in \<open>simp_all add: k_def\<close>)+
    then have "outside_ok m n sl h sl h3" using ag q3(3) unfolding outside_ok_def by metis
    ultimately show thesis using that sp env3 unfolding b_def k_def by blast
  qed
qed

end
