(* ===== verification/LA_BlockAlloc.thy ===== *)
theory LA_BlockAlloc
  imports LA_BlockLayout
begin

text \<open>
  What taking a free node out of its list and setting up a new block do to the separators of the block.
\<close>

unbundle bit_operations_syntax

section \<open>Taking a free node\<close>

lemma set_used_fields:
  assumes "b + w \<noteq> b"
  shows "bh_tag (set_used b w h) = (bh_tag h)(b + w := mk_tag (bs_offset h (b + w) AND NOT 2) (bsize h (b + w)),
      b := mk_tag (bs_offset h b AND NOT 1) (bsize h b))"
    and "bh_left (set_used b w h) = bh_left h" "bh_data (set_used b w h) = bh_data h" "bh_q8 (set_used b w h) = bh_q8 h"
    "bh_qs (set_used b w h) = bh_qs h"
  using assms by (simp_all add: set_used_def Let_def)

text \<open>\<open>h1\<close> is the heap after the node left its list.\<close>

lemma take_tiled:
  assumes env: "env_ok h m sl n" and t: "tiled (set sl) h m 1 False 0 (ls @ (z, True) # rs)"
    and sh: "shape (ls @ (z, True) # rs)" and n: "Suc (width (ls @ (z, True) # rs)) \<le> n"
  defines "b \<equiv> node_at m (Suc (width ls))"
  assumes h1: "bh_tag h1 = bh_tag (unlink z b h)" "bh_left h1 = bh_left h" "bh_data h1 = bh_data (unlink z b h)" "bh_q8 h1 = bh_q8 h"
  defines "h2 \<equiv> set_used b (word_of_nat (16 * z)) h1" and "sl1 \<equiv> unlisted z b sl"
  shows "env_ok h2 m sl1 n" "tiled (set sl1) h2 m 1 False 0 (ls @ (z, False) # rs)" "outside_ok m n sl h sl1 h2"
proof -
  define k where "k = Suc (width ls)"
  define c where "c = node_at m (k + z)"
  have b: "b = node_at m k" by (simp add: b_def k_def)
  obtain s rs' where rs: "rs = (s, False) # rs'" using sh by (cases rs) (auto simp: shape_def successively_append_iff successively_Cons)
  have z: "0 < z" and pos: "\<forall>x \<in> set ls. 0 < fst x" and ps: "rs' \<noteq> [] \<longrightarrow> 0 < s"
    using sh by (auto simp: shape_def butlast_append rs split: if_splits)
  have lim: "16 * n < 2 ^ 32" and q: "bh_q8 h \<notin> near m n" using env by (auto simp: env_ok_def)
  note inj = near_inj[OF _ _ lim, of _ _ m]
  have kn: "k + z + s + width rs' \<le> n" "k + z \<le> n" using n by (simp_all add: k_def rs)
  have bc: "b + word_of_nat (16 * z) = c" unfolding b c_def by (rule node_at_add)
  have ne: "b \<noteq> c" using inj[of k "k + z"] kn z by (simp add: b c_def)
  have near: "b \<in> near m n" "c \<in> near m n" unfolding b c_def by (rule near_at, use kn in simp)+
  have ok: "tiled (set sl) h m 1 False 0 ls" "node_ok (set sl) h m k (ends_free ls) (last_size ls) (z, True)"
    "node_ok (set sl) h m (k + z) True z (s, False)" "tiled (set sl) h m (k + z + s) False s rs'"
    using t unfolding rs tiled_middle k_def by simp_all
  have tc: "bh_tag h (node_at m (k + z)) = mk_tag (off_fl (k + z) False True (z = 1) False) (word_of_nat (16 * s))"
    "node_at m (k + z) \<notin> set sl" using ok(3) by (auto simp: node_ok_def Let_def)
  note u = unlink_free[OF env kn(2) z ok(2) tc, folded b, folded c_def sl1_def]
  have nw: "b + word_of_nat (16 * z) \<noteq> b" unfolding bc using ne by simp
  note f = set_used_fields[OF nw, of h1, folded h2_def, unfolded bc h1]
  have tg: "bh_tag h2 = (bh_tag (unlink z b h))(c := mk_tag (off_fl (k + z) False False False False) (word_of_nat (16 * s)),
      b := mk_tag (off_fl k False (ends_free ls) (ends_free ls \<and> last_size ls = 1) False) (word_of_nat (16 * z)))"
    unfolding f(1) u(2,3) by (simp only: tag_sel off_fl_simps)
  have rep: "small_rep (unlink z b h) sl1" using u(1) by (simp add: env_ok_def)
  have sub: "b \<notin> set sl1" "c \<notin> set sl1" using u(5,6) tc(2) by (auto simp: c_def)
  have "small_rep h2 sl1"
    by (rule small_rep_frame[OF rep]) (use f u(8) tg sub near q in auto)
  then show env2: "env_ok h2 m sl1 n" using env f(4) by (simp add: env_ok_def)
  have ag: "agree (set sl) h (set sl1) h2 x" if "x \<noteq> bh_q8 h" "x \<noteq> b" "x \<noteq> c" for x
  proof (rule agree_trans[OF u(7)[OF that]])
    show "agree (set sl1) (unlink z b h) (set sl1) h2 x" using that tg f(2) u(4) by (simp add: agree_def)
  qed
  have "b \<in> inner m n" "c \<in> inner m n" unfolding b c_def by (rule inner_at, use kn in \<open>simp_all add: k_def\<close>)+
  then show "outside_ok m n sl h sl1 h2" using ag f(4) unfolding outside_ok_def by metis
  have agi: "agree (set sl) h (set sl1) h2 (node_at m i)" if "i \<le> n" "i \<noteq> k" "i \<noteq> k + z" for i
    by (rule ag) (use that inj[of i k] inj[of i "k + z"] kn near_at[OF that(1), of m] q in \<open>auto simp: b c_def\<close>)
  have "tiled (set sl1) h2 m 1 False 0 ls" by (rule tiled_left[OF ok(1) pos _ lim agi]) (use kn in \<open>simp_all add: k_def\<close>)
  moreover have "tiled (set sl1) h2 m (k + z + s) False s rs'" by (rule tiled_right[OF ok(4) kn(1) agi]) (use z ps in auto)
  moreover have "node_ok (set sl1) h2 m k (ends_free ls) (last_size ls) (z, False)"
    using tg sub ok(2) f(2) free_clear[OF ok(2) _ u(6)] unfolding node_ok_def b[symmetric] by (auto simp: Let_def b)
  moreover have "node_ok (set sl1) h2 m (k + z) False z (s, False)"
    using tg sub ne node_clear[OF ok(3)] u(6) unfolding node_ok_def c_def[symmetric] by (auto simp: Let_def c_def)
  ultimately show "tiled (set sl1) h2 m 1 False 0 (ls @ (z, False) # rs)"
    unfolding rs tiled_middle k_def[symmetric] by simp
qed

lemma small_del_first_rep:
  assumes "small_rep h sl"
  shows "small_del_first h = (case sl of [] \<Rightarrow> (None, h) | b # _ \<Rightarrow> (Some b, small_remove b h))"
proof (cases sl)
  case Nil
  then show ?thesis using assms rep_ends(1)[of "small_store h" "bh_q8 h" sl]
    by (simp add: small_del_first_def Let_def small_rep_def small_store_def)
next
  case (Cons b ys)
  have l: "links (small_store h) (bh_q8 h # b # ys @ [bh_q8 h])" and d: "bh_q8 h \<noteq> b"
    using assms Cons by (auto simp: small_rep_def dlist_rep_def)
  then have "small_next h (bh_q8 h) = b" "small_prev h b = bh_q8 h" by (simp_all add: small_store_def)
  then show ?thesis using Cons d by (simp add: small_del_first_def small_remove_def Let_def)
qed

section \<open>New blocks\<close>

lemma new_block_tiled:
  assumes env: "env_ok h m sl (Suc w)" and w: "0 < w" and m: "bsize h (node_at m (Suc w)) = 0"
    and clear: "\<forall>i \<le> Suc w. node_at m i \<notin> set sl"
  defines "h' \<equiv> new_block m (word_of_nat (16 * w + 32)) h"
  shows "env_ok h' m sl (Suc w)" "tiled (set sl) h' m 1 False 0 [(w, False), (0, False)]" "shape [(w, False), (0, False)]"
    "outside_ok m (Suc w) sl h sl h'"
proof -
  define b where "b = node_at m 1"
  define c where "c = node_at m (Suc w)"
  have lim: "16 * Suc w < 2 ^ 32" and q: "bh_q8 h \<notin> near m (Suc w)" using env by (auto simp: env_ok_def)
  have sz: "16 * w < 2 ^ 32" using lim by simp
  have ne: "b \<noteq> c" using near_inj[of 1 "Suc w" "Suc w" m] lim w by (simp add: b_def c_def)
  have near: "b \<in> near m (Suc w)" "c \<in> near m (Suc w)" unfolding b_def c_def by (rule near_at, simp)+
  have b: "m + 16 = b" by (simp add: b_def node_at_def)
  have rs: "word_of_nat (16 * w + 32) - HEADERSIZE = word_of_nat (16 * w)" by (simp add: HEADERSIZE_def)
  have bc: "b + word_of_nat (16 * w) = c" unfolding b_def c_def by (simp only: node_at_add) simp
  have "word_of_nat (16 * w + 32) - SEPSIZE = word_of_nat (16 * Suc w)" by (simp add: SEPSIZE_def)
  then have so: "ucast (word_of_nat (16 * w + 32) - SEPSIZE) = off_fl (Suc w) False False False False"
    by (simp only: ucast_size_down[OF lim] off_fl_plain)
  have s16: "16 = off_fl 1 False False False False" by (simp add: off_fl_plain)
  have tg: "bh_tag h' = (bh_tag h)(b := mk_tag (off_fl 1 False False False False) (word_of_nat (16 * w)),
      c := mk_tag (off_fl (Suc w) False False False False) 0)"
    using ne m unfolding h'_def new_block_def Let_def rs b bc so ucast_size_down[OF sz] s16[symmetric] by (simp add: c_def)
  have f: "bh_left h' = bh_left h" "bh_data h' = bh_data h" "bh_q8 h' = bh_q8 h" by (simp_all add: h'_def new_block_def Let_def)
  have cl: "b \<notin> set sl" "c \<notin> set sl" using clear w by (auto simp: b_def c_def)
  have "small_rep h' sl" by (rule small_rep_frame[of h]) (use env f tg near q cl in \<open>auto simp: env_ok_def\<close>)
  then show "env_ok h' m sl (Suc w)" using env f by (simp add: env_ok_def)
  have "\<forall>i. i < w \<longrightarrow> node_at m (1 + i) \<notin> set sl" using clear by simp
  then show "tiled (set sl) h' m 1 False 0 [(w, False), (0, False)]"
    using tg ne cl by (simp add: node_ok_def Let_def b_def c_def)
  show "shape [(w, False), (0, False)]" using w by (simp add: shape_def)
  have "b \<in> inner m (Suc w)" "c \<in> inner m (Suc w)" unfolding b_def c_def by (rule inner_at, simp_all)+
  then show "outside_ok m (Suc w) sl h sl h'" using tg f by (auto simp: outside_ok_def agree_def)
qed

end
