(* ===== verification/LA_Heap.thy ===== *)
theory LA_Heap
  imports LA_BlockAlloc
begin

text \<open>
  The blocks of a thread together with its lists: every node on a list is a free node of the size of the list, the
  fast lists hold nodes in use that nobody owns, and what the program owns are other nodes in use. Allocating from
  the lists, freeing, emptying the fast lists and adding a block keep this, and so the objects that the program
  owns never overlap.
\<close>

unbundle bit_operations_syntax

section \<open>The nodes of all blocks\<close>

type_synonym blocks = "(u64 \<times> (nat \<times> bool) list) list"

fun segs :: "u64 \<Rightarrow> nat \<Rightarrow> (nat \<times> bool) list \<Rightarrow> (u64 \<times> nat \<times> bool) set" where
  "segs m k [] = {}"
| "segs m k (n # ns) = insert (node_at m k, n) (segs m (k + fst n) ns)"

definition nodes :: "blocks \<Rightarrow> (u64 \<times> nat \<times> bool) set" where
  "nodes Bs = {(b, z, f) |b z f m ns. (m, ns) \<in> set Bs \<and> (b, z, f) \<in> segs m 1 ns \<and> 0 < z}"

lemma segs_append: "segs m k (xs @ ys) = segs m k xs \<union> segs m (k + width xs) ys"
  by (induction xs arbitrary: k) (auto simp: add.assoc)

lemma segs_split: "(b, n) \<in> segs m k ns \<longleftrightarrow> (\<exists>ls rs. ns = ls @ n # rs \<and> b = node_at m (k + width ls))"
proof
  show "(b, n) \<in> segs m k ns \<Longrightarrow> \<exists>ls rs. ns = ls @ n # rs \<and> b = node_at m (k + width ls)"
  proof (induction ns arbitrary: k)
    case (Cons n' ns)
    consider "n = n'" "b = node_at m k" | "(b, n) \<in> segs m (k + fst n') ns" using Cons.prems by auto
    then show ?case
    proof cases
      case 1
      then show ?thesis by (intro exI[of _ "[]"] exI[of _ ns]) simp
    next
      case 2
      then obtain ls rs where "ns = ls @ n # rs" "b = node_at m (k + fst n' + width ls)" using Cons.IH by blast
      then show ?thesis by (intro exI[of _ "n' # ls"] exI[of _ rs]) (simp add: add.assoc)
    qed
  qed simp
qed (auto simp: segs_append)

lemma segs_pos:
  assumes "(b, z, f) \<in> segs m k ns"
  obtains q where "b = node_at m q" "k \<le> q" "q + z \<le> k + width ns"
  using assms unfolding segs_split by (auto intro: that[of "k + width _"])

lemma node_at_node_at: "node_at (node_at m k) i = node_at m (k + i)"
  by (simp add: node_at_def algebra_simps)

lemma segs_disjoint:
  assumes "(b, z, f) \<in> segs m k ns" "(c, w, g) \<in> segs m k ns" "i < z" "j < w" "node_at b i = node_at c j"
    and "16 * (k + width ns) < 2 ^ 64"
  shows "(b, z, f) = (c, w, g) \<and> i = j"
  using assms
proof (induction ns arbitrary: k)
  case (Cons n ns)
  have apart: False if x: "(y, v, e) \<in> segs m (k + fst n) ns" and "p < v" "q < fst n" "node_at y p = node_at m (k + q)" for y v e p q
  proof -
    obtain r where r: "y = node_at m r" "k + fst n \<le> r" "r + v \<le> k + fst n + width ns" using segs_pos[OF x] by metis
    then have "node_at m (r + p) = node_at m (k + q)" using that by (simp add: node_at_node_at)
    moreover have "16 * (r + p) < 2 ^ 64" "16 * (k + q) < 2 ^ 64" using r that Cons.prems(6) by simp_all
    ultimately have "r + p = k + q" using node_at_inj by blast
    then show False using r that by simp
  qed
  show ?case
  proof (cases "(b, z, f) = (node_at m k, n)")
    case True
    show ?thesis
    proof (cases "(c, w, g) = (node_at m k, n)")
      case True
      then have "node_at m (k + i) = node_at m (k + j)" using \<open>(b, z, f) = _\<close> Cons.prems(5) by (simp add: node_at_node_at)
      moreover have "16 * (k + i) < 2 ^ 64" "16 * (k + j) < 2 ^ 64" using True \<open>(b, z, f) = _\<close> Cons.prems(3,4,6) by auto
      ultimately have "k + i = k + j" using node_at_inj by blast
      then show ?thesis using True \<open>(b, z, f) = _\<close> by simp
    next
      case False
      then have "(c, w, g) \<in> segs m (k + fst n) ns" using Cons.prems(2) by auto
      then show ?thesis using apart[of c w g j i] Cons.prems(3-5) True by (auto simp: node_at_node_at)
    qed
  next
    case False
    then have b: "(b, z, f) \<in> segs m (k + fst n) ns" using Cons.prems(1) by auto
    show ?thesis
    proof (cases "(c, w, g) = (node_at m k, n)")
      case True
      then show ?thesis using apart[OF b, of i j] Cons.prems(3-5) by (auto simp: node_at_node_at)
    next
      case False
      then have "(c, w, g) \<in> segs m (k + fst n) ns" using Cons.prems(2) by auto
      then show ?thesis using Cons.IH[OF b] Cons.prems(3-6) by (simp add: add.assoc)
    qed
  qed
qed simp

definition block_ok :: "bheap \<Rightarrow> u64 list \<Rightarrow> u64 \<times> (nat \<times> bool) list \<Rightarrow> bool" where
  "block_ok h sl B = (case B of (m, ns) \<Rightarrow>
     env_ok h m sl (Suc (width ns)) \<and> tiled (set sl) h m 1 False 0 ns \<and> shape ns \<and> m AND 4095 = 0)"

definition room :: "u64 \<times> (nat \<times> bool) list \<Rightarrow> u64 set" where
  "room B = near (fst B) (Suc (width (snd B)))"

definition apart :: "blocks \<Rightarrow> bool" where
  "apart Bs \<longleftrightarrow> distinct Bs \<and> pairwise (\<lambda>B C. room B \<inter> room C = {}) (set Bs) \<and> (\<forall>B \<in> set Bs. 16 * Suc (width (snd B)) < 2 ^ 28)"

lemma nodesE:
  assumes "(b, z, f) \<in> nodes Bs"
  obtains m ls rs where "(m, ls @ (z, f) # rs) \<in> set Bs" "b = node_at m (Suc (width ls))" "0 < z"
proof -
  obtain m ns where m: "(m, ns) \<in> set Bs" "(b, z, f) \<in> segs m 1 ns" "0 < z" using assms by (auto simp: nodes_def)
  then obtain ls rs where "ns = ls @ (z, f) # rs" "b = node_at m (1 + width ls)" by (auto simp: segs_split)
  then show thesis using that[of m ls rs] m by simp
qed

lemma segs_room: "(b, z, f) \<in> segs m 1 ns \<Longrightarrow> i \<le> z \<Longrightarrow> node_at b i \<in> room (m, ns)"
  by (elim segs_pos) (auto simp: room_def node_at_node_at intro!: near_at)

text \<open>Different nodes have no cell in common.\<close>

lemma nodes_disjoint:
  assumes "apart Bs" "(b, z, f) \<in> nodes Bs" "(c, w, g) \<in> nodes Bs" "i < z" "j < w" "node_at b i = node_at c j"
  shows "(b, z, f) = (c, w, g) \<and> i = j"
proof -
  obtain m ns where B: "(m, ns) \<in> set Bs" "(b, z, f) \<in> segs m 1 ns" using assms(2) by (auto simp: nodes_def)
  obtain m' ns' where C: "(m', ns') \<in> set Bs" "(c, w, g) \<in> segs m' 1 ns'" using assms(3) by (auto simp: nodes_def)
  have "node_at b i \<in> room (m, ns)" "node_at b i \<in> room (m', ns')"
    using segs_room[OF B(2), of i] segs_room[OF C(2), of j] assms(4-6) by simp_all
  then have "(m', ns') = (m, ns)" using assms(1) B(1) C(1) unfolding apart_def pairwise_def disjoint_iff by blast
  then have eq: "m' = m" "ns' = ns" by simp_all
  have "16 * (1 + width ns) < 2 ^ 64" using assms(1) B(1) by (fastforce simp: apart_def)
  with segs_disjoint[OF B(2) _ assms(4-6)] C(2) show ?thesis by (simp add: eq)
qed

lemma nodes_unique: "apart Bs \<Longrightarrow> (b, z, f) \<in> nodes Bs \<Longrightarrow> (b, w, g) \<in> nodes Bs \<Longrightarrow> w = z \<and> g = f"
  using nodes_disjoint[of Bs b z f b w g 0 0] by (auto simp: nodes_def)

section \<open>The heap of a thread\<close>

text \<open>
  What the calls to the B-tree leave in it: nothing is inserted that is in it, and only what is in it is deleted.
\<close>

fun tree_step :: "btree_call \<Rightarrow> (u64 \<times> u64) set \<Rightarrow> (u64 \<times> u64) set option" where
  "tree_step (BtreeInsert b s) T = (if b \<in> fst ` T then None else Some (insert (b, s) T))"
| "tree_step (BtreeNodeDel b) T = (if b \<in> fst ` T then Some {x \<in> T. fst x \<noteq> b} else None)"

definition tree_of :: "btree_call list \<Rightarrow> (u64 \<times> u64) set option" where
  "tree_of cs = fold (\<lambda>c t. Option.bind t (tree_step c)) cs (Some {})"

lemma tree_of_snoc: "tree_of (cs @ [c]) = Option.bind (tree_of cs) (tree_step c)"
  by (simp add: tree_of_def)

text \<open>Every free node of more than 16 bytes is on the list of its size or in the B-tree, and nothing else is there.\<close>

definition large :: "(u64 \<times> nat \<times> bool) set \<Rightarrow> (u64 \<times> nat) set" where
  "large N = {(b, z). (b, z, True) \<in> N \<and> 63 < z}"

abbreviation in_bytes :: "(u64 \<times> nat) set \<Rightarrow> (u64 \<times> u64) set" where
  "in_bytes T \<equiv> (\<lambda>(b, z). (b, word_of_nat (16 * z))) ` T"

definition qs_ok :: "big_lists \<Rightarrow> (u64 \<times> nat \<times> bool) set \<Rightarrow> bool" where
  "qs_ok Q N \<longleftrightarrow> length (fst Q) = 64 \<and>
     (\<forall>i < 64. distinct (fst Q ! i) \<and> set (fst Q ! i) = {b. 0 < i \<and> i < 63 \<and> (b, Suc i, True) \<in> N}) \<and>
     tree_of (snd Q) = Some (in_bytes (large N))"

text \<open>\<open>F\<close> are the nodes on the fast lists, \<open>L\<close> the objects of the program with their sizes, in units of 16 bytes.\<close>

definition owned_ok :: "u64 multiset \<Rightarrow> (u64 \<times> nat) set \<Rightarrow> (u64 \<times> nat \<times> bool) set \<Rightarrow> bool" where
  "owned_ok F L N \<longleftrightarrow> (\<forall>b. count F b \<le> 1) \<and> (\<forall>b \<in># F. \<exists>z. (b, z, False) \<in> N) \<and> inj_on fst L \<and>
     (\<forall>(p, a) \<in> L. p - 16 \<notin># F \<and> (p - 16, a, False) \<in> N)"

text \<open>
  \<open>G\<close> has the regions that the thread was given, those of the blocks and those that it returned, the address of the
  head of the list of 16-byte nodes, and the addresses that were never used before the thread began. What it was not
  given of the latter is still zero.
\<close>

definition region :: "u64 \<times> (nat \<times> bool) list \<Rightarrow> u64 \<times> u64" where
  "region B = (fst B, word_of_nat (16 * width (snd B) + 32))"

type_synonym ledger = "((u64 \<times> u64) multiset \<times> u64) \<times> u64 set"

definition lent :: "blocks \<Rightarrow> bheap \<Rightarrow> (u64 \<times> u64) multiset \<times> u64" where
  "lent Bs h = (image_mset region (mset Bs) + mset (bh_returned h), bh_q8 h)"

definition cells :: "(u64 \<times> u64) multiset \<Rightarrow> u64 set" where
  "cells R = (\<Union>x \<in> set_mset R. node_at (fst x) ` {..<unat (snd x) div 16})"

definition total :: "(u64 \<times> u64) multiset \<Rightarrow> nat" where
  "total R = sum_mset (image_mset (\<lambda>x. unat (snd x)) R)"

definition clean :: "bheap \<Rightarrow> ledger \<Rightarrow> bool" where
  "clean h G \<longleftrightarrow> (\<forall>x \<in> snd G. x \<notin> cells (fst (fst G)) \<longrightarrow> x \<noteq> snd (fst G) \<longrightarrow> bh_tag h x = 0)"

definition heap_ok :: "bheap \<Rightarrow> u64 list \<Rightarrow> blocks \<Rightarrow> (u64 \<times> nat) set \<Rightarrow> ledger \<Rightarrow> bool" where
  "heap_ok h sl Bs L G \<longleftrightarrow> small_rep h sl \<and> (\<forall>B \<in> set Bs. block_ok h sl B) \<and> apart Bs \<and> (\<forall>b \<in> set sl. (b, 1, True) \<in> nodes Bs) \<and>
     qs_ok (bigs h) (nodes Bs) \<and> fast_ok (bh_fast h) \<and> owned_ok (fast_blocks (bh_fast h)) L (nodes Bs) \<and>
     lent Bs h = fst G \<and> clean h G \<and> unat (bh_a_alloced h) \<le> total (fst (fst G))"

lemma heap_okD:
  assumes "heap_ok h sl Bs L G"
  shows "small_rep h sl" "B \<in> set Bs \<Longrightarrow> block_ok h sl B" "apart Bs" "b \<in> set sl \<Longrightarrow> (b, 1, True) \<in> nodes Bs"
    "qs_ok (bigs h) (nodes Bs)" "fast_ok (bh_fast h)" "owned_ok (fast_blocks (bh_fast h)) L (nodes Bs)" "lent Bs h = fst G" "clean h G"
    "unat (bh_a_alloced h) \<le> total (fst (fst G))"
  using assms by (auto simp: heap_ok_def)

lemma unat_below: "y < 2 ^ 32 \<Longrightarrow> unat (word_of_nat y :: u64) = y"
  by (simp add: unat_of_nat)

lemma room_cells:
  assumes "heap_ok h sl Bs L G" "B \<in> set Bs"
  shows "room B \<subseteq> cells (fst (fst G))"
proof -
  have "region B \<in># fst (lent Bs h)" using assms(2) by (simp add: lent_def)
  then have "region B \<in># fst (fst G)" using heap_okD(8)[OF assms(1)] by simp
  moreover have "16 * Suc (width (snd B)) < 2 ^ 28" using heap_okD(3)[OF assms(1)] assms(2) by (simp add: apart_def)
  then have "unat (word_of_nat (16 * width (snd B) + 32) :: u64) = 16 * width (snd B) + 32" by (intro unat_below) simp
  then have "room B \<subseteq> node_at (fst (region B)) ` {..<unat (snd (region B)) div 16}" by (auto simp: room_def near_def region_def)
  ultimately show ?thesis unfolding cells_def by blast
qed

lemma listed_cells:
  assumes "heap_ok h sl Bs L G" "x \<in> set sl"
  shows "x \<in> cells (fst (fst G))"
proof -
  have "(x, 1, True) \<in> nodes Bs" by (rule heap_okD(4)[OF assms])
  then obtain m ns where "(m, ns) \<in> set Bs" "(x, 1, True) \<in> segs m 1 ns" by (auto simp: nodes_def)
  then show ?thesis using segs_room[of x 1 True m ns 0] room_cells[OF assms(1)] by (fastforce simp: node_at_def)
qed

lemma qs_ok_cong: "qs_ok Q N \<Longrightarrow> (\<And>b z. 1 < z \<Longrightarrow> (b, z, True) \<in> N' \<longleftrightarrow> (b, z, True) \<in> N) \<Longrightarrow> qs_ok Q N'"
proof -
  assume Q: "qs_ok Q N" and N: "\<And>b z. 1 < z \<Longrightarrow> (b, z, True) \<in> N' \<longleftrightarrow> (b, z, True) \<in> N"
  have "{b. 0 < i \<and> i < 63 \<and> (b, Suc i, True) \<in> N'} = {b. 0 < i \<and> i < 63 \<and> (b, Suc i, True) \<in> N}" for i using N[of "Suc i"] by auto
  moreover have "large N' = large N" using N by (auto simp: large_def)
  ultimately show ?thesis using Q unfolding qs_ok_def by simp
qed

lemma owned_ok_mono: "owned_ok F L N \<Longrightarrow> (\<And>b z. (b, z, False) \<in> N \<Longrightarrow> (b, z, False) \<in> N') \<Longrightarrow> owned_ok F L N'"
  unfolding owned_ok_def by fast

lemma block_ok_outside:
  assumes B: "block_ok h sl B" and out: "outside_ok m n sl h sl' h'" and rep: "small_rep h' sl'"
    and dis: "room B \<inter> near m n = {}"
  shows "block_ok h' sl' B"
proof -
  obtain m2 ns where B': "B = (m2, ns)" by (cases B)
  have cov: "cover m2 1 ns \<subseteq> near m2 (Suc (width ns))" using cover_upto[of _ m2 1 ns] by (auto simp: near_def)
  have b: "env_ok h m2 sl (Suc (width ns))" "tiled (set sl) h m2 1 False 0 ns" "shape ns" "m2 AND 4095 = 0"
    using B by (auto simp: B' block_ok_def)
  have "tiled (set sl') h' m2 1 False 0 ns"
    by (rule outside_tiled[OF out b(2)]) (use cov dis b(1) in \<open>auto simp: B' env_ok_def room_def\<close>)
  moreover have "env_ok h' m2 sl' (Suc (width ns))" using b(1) rep out by (simp add: env_ok_def outside_ok_def)
  ultimately show ?thesis using b(3,4) by (simp add: B' block_ok_def)
qed

text \<open>On the list of 16-byte nodes a tiled block has its free nodes of that size and nothing else.\<close>

lemma tiled_listed:
  assumes "tiled S h m k lf lz ns" "k \<le> i" "i < k + width ns" "node_at m i \<in> S"
  shows "(node_at m i, 1, True) \<in> segs m k ns"
  using assms
proof (induction ns arbitrary: k lf lz)
  case (Cons n ns)
  obtain z f where n: "n = (z, f)" by (cases n)
  show ?case
  proof (cases "i < k + z")
    case True
    have "\<forall>j. 0 < j \<longrightarrow> j < z \<longrightarrow> node_at m (k + j) \<notin> S" using Cons.prems(1) by (auto simp: n node_ok_def Let_def)
    from this[rule_format, of "i - k"] have "i = k" using Cons.prems(2,4) True less_diff_conv2[of k i z] by (cases "i = k") (auto simp: add.commute)
    then show ?thesis using Cons.prems(1,4) by (auto simp: n node_ok_def Let_def)
  next
    case False
    then show ?thesis using Cons.IH[of "k + z" f z] Cons.prems by (auto simp: n)
  qed
qed simp

lemma block_listed:
  assumes B: "block_ok h sl (m, ns)" and b: "b \<in> set sl" "b \<in> inner m (Suc (width ns))"
  shows "(b, 1, True) \<in> segs m 1 ns"
proof -
  have t: "tiled (set sl) h m 1 False 0 ns" and sh: "shape ns" using B by (simp_all add: block_ok_def)
  obtain i where i: "b = node_at m i" "1 \<le> i" "i \<le> Suc (width ns)" using b(2) by (auto simp: inner_def)
  obtain ns' where ns: "ns = ns' @ [(0, False)]" using sh unfolding shape_def by (metis append_butlast_last_id)
  have "node_ok (set sl) h m (Suc (width ns')) (ends_free ns') (last_size ns') (0, False)"
    using t unfolding ns tiled_middle by simp
  then have "node_at m (Suc (width ns')) \<notin> set sl" by (simp add: node_ok_def Let_def)
  then have "i < 1 + width ns" using i b(1) by (cases "i = Suc (width ns)") (auto simp: ns)
  then show ?thesis using tiled_listed[OF t i(2)] i(1) b(1) by simp
qed

text \<open>
  One block changes: it gets other nodes or goes back to the kernel. What remains to be shown for the new heap are
  the lists.
\<close>

definition replaced :: "u64 \<times> (nat \<times> bool) list \<Rightarrow> (nat \<times> bool) list option \<Rightarrow> blocks \<Rightarrow> blocks" where
  "replaced B r Bs = (case r of None \<Rightarrow> [] | Some ns \<Rightarrow> [(fst B, ns)]) @ removeAll B Bs"

lemma apart_replaced:
  assumes "apart Bs" "(m, ns) \<in> set Bs" "\<And>ns'. r = Some ns' \<Longrightarrow> width ns' = width ns"
  shows "apart (replaced (m, ns) r Bs)"
proof (cases r)
  case None
  have "pairwise P (set Bs) \<Longrightarrow> pairwise P (set Bs - {B})" for P and B by (rule pairwise_subset) auto
  then show ?thesis using assms(1) None by (simp add: apart_def replaced_def distinct_removeAll)
next
  case (Some ns')
  have r: "room (m, ns') = room (m, ns)" using assms(3) Some by (simp add: room_def)
  have d: "room C \<inter> room (m, ns) = {}" if "C \<in> set Bs" "C \<noteq> (m, ns)" for C
    using assms(1,2) that unfolding apart_def pairwise_def by blast
  have "room (m, ns) \<noteq> {}" by (simp add: room_def near_def)
  then have "(m, ns') \<notin> set (removeAll (m, ns) Bs)" using d[of "(m, ns')"] r by auto
  moreover have "pairwise (\<lambda>B C. room B \<inter> room C = {}) (set Bs - {(m, ns)})"
    using assms(1) unfolding apart_def by (elim conjE pairwise_subset) auto
  ultimately show ?thesis using assms d Some r by (auto simp: apart_def replaced_def pairwise_insert distinct_removeAll)
qed

lemma nodes_replaced:
  assumes "x \<in> nodes Bs" "x \<notin> segs m 1 ns"
  shows "x \<in> nodes (replaced (m, ns) r Bs)"
proof -
  obtain b z f m' ns' where x: "x = (b, z, f)" "(m', ns') \<in> set Bs" "(b, z, f) \<in> segs m' 1 ns'" "0 < z"
    using assms(1) by (auto simp: nodes_def)
  then have "(m', ns') \<in> set (replaced (m, ns) r Bs)" using assms(2) by (auto simp: replaced_def)
  then show ?thesis using x unfolding nodes_def by blast
qed

lemma nodes_replaced_new: "(b, z, f) \<in> segs m 1 ns' \<Longrightarrow> 0 < z \<Longrightarrow> (b, z, f) \<in> nodes (replaced (m, ns) (Some ns') Bs)"
  by (auto simp: nodes_def replaced_def)

lemma heap_change:
  assumes ok: "heap_ok h sl Bs L G" and mem: "(m, ns) \<in> set Bs" and out: "outside_ok m (Suc (width ns)) sl h sl' h'"
    and rep: "small_rep h' sl'"
    and new: "\<And>ns'. r = Some ns' \<Longrightarrow> width ns' = width ns \<and> block_ok h' sl' (m, ns')"
    and ret: "bh_returned h' = bh_returned h @ (if r = None then [region (m, ns)] else [])"
    and al: "bh_a_alloced h' \<le> bh_a_alloced h"
    and old: "r = None \<Longrightarrow> set sl' \<inter> inner m (Suc (width ns)) = {}"
    and lists: "qs_ok (bigs h') (nodes (replaced (m, ns) r Bs))" "fast_ok (bh_fast h')"
      "owned_ok (fast_blocks (bh_fast h')) L' (nodes (replaced (m, ns) r Bs))"
  shows "heap_ok h' sl' (replaced (m, ns) r Bs) L' G"
proof -
  note ok' = heap_okD[OF ok]
  have "block_ok h' sl' B" if "B \<in> set (replaced (m, ns) r Bs)" for B
  proof (cases "\<exists>ns'. r = Some ns' \<and> B = (m, ns')")
    case True
    then show ?thesis using new by blast
  next
    case False
    then have B: "B \<in> set Bs" "B \<noteq> (m, ns)" using that by (auto simp: replaced_def split: option.splits)
    then have "room B \<inter> room (m, ns) = {}" using ok'(3) mem unfolding apart_def pairwise_def by blast
    then show ?thesis using block_ok_outside[OF ok'(2)[OF B(1)] out rep] by (simp add: room_def)
  qed
  moreover have "(b, 1, True) \<in> nodes (replaced (m, ns) r Bs)" if b: "b \<in> set sl'" for b
  proof (cases "b \<in> inner m (Suc (width ns))")
    case True
    then obtain ns' where r: "r = Some ns'" using old b by (cases r) auto
    then show ?thesis using nodes_replaced_new[OF block_listed[of h' sl' m ns' b]] new[OF r] b True by simp
  next
    case False
    have "b \<noteq> bh_q8 h" using rep b out by (auto simp: small_rep_def dlist_rep_def outside_ok_def)
    then have "b \<in> set sl" using out False b by (simp add: outside_ok_def agree_def)
    moreover have "(b, 1, True) \<notin> segs m 1 ns"
    proof
      assume "(b, 1, True) \<in> segs m 1 ns"
      then obtain q where "b = node_at m q" "1 \<le> q" "q + 1 \<le> 1 + width ns" by (rule segs_pos)
      then show False using False inner_at[of q "Suc (width ns)" m] by simp
    qed
    ultimately show ?thesis using nodes_replaced ok'(4) by blast
  qed
  moreover have "apart (replaced (m, ns) r Bs)" by (rule apart_replaced[OF ok'(3) mem]) (use new in blast)
  moreover have "lent (replaced (m, ns) r Bs) h' = fst G"
  proof -
    have "mset Bs = add_mset (m, ns) (mset (removeAll (m, ns) Bs))"
      using ok'(3) mem distinct_remove1_removeAll[of Bs "(m, ns)"] mset_remove1[of "(m, ns)" Bs]
      by (simp add: apart_def del: mset_remove1)
    moreover have "region (m, ns') = region (m, ns)" if "r = Some ns'" for ns' using new[OF that] by (simp add: region_def)
    moreover have "bh_q8 h' = bh_q8 h" using out by (simp add: outside_ok_def)
    ultimately show ?thesis using ok'(8) ret by (cases r) (auto simp: lent_def replaced_def)
  qed
  moreover have "clean h' G"
    unfolding clean_def
  proof (intro ballI impI)
    fix x assume x: "x \<in> snd G" "x \<notin> cells (fst (fst G))" "x \<noteq> snd (fst G)"
    have "x \<noteq> bh_q8 h" using x(3) ok'(8) by (metis lent_def snd_conv)
    moreover have "x \<notin> inner m (Suc (width ns))" using x(2) room_cells[OF ok mem] inner_near[of m "Suc (width ns)"] by (auto simp: room_def)
    moreover have "x \<notin> set sl" using listed_cells[OF ok] x(2) by blast
    ultimately have "bh_tag h' x = bh_tag h x" using out by (simp add: outside_ok_def agree_def)
    then show "bh_tag h' x = 0" using ok'(9) x by (simp add: clean_def)
  qed
  moreover have "unat (bh_a_alloced h') \<le> total (fst (fst G))" using al ok'(10) by (simp add: word_le_nat_alt)
  ultimately show ?thesis using rep lists by (simp add: heap_ok_def)
qed

lemma nodes_swap:
  assumes "x \<in> nodes Bs" "x \<notin> segs m (Suc (width ls)) X" "width Y = width X"
  shows "x \<in> nodes (replaced (m, ls @ X @ rs) (Some (ls @ Y @ rs)) Bs)"
proof (cases "x \<in> segs m 1 (ls @ X @ rs)")
  case True
  moreover obtain b z f where x: "x = (b, z, f)" by (cases x) auto
  moreover have "0 < z" using assms(1) x by (auto simp: nodes_def)
  ultimately show ?thesis using assms(2,3) by (intro nodes_replaced_new[of b z f, folded x]) (auto simp: segs_append)
qed (rule nodes_replaced[OF assms(1)])

lemma nodes_swap_new:
  assumes "(b, z, f) \<in> segs m (Suc (width ls)) Y" "0 < z"
  shows "(b, z, f) \<in> nodes (replaced (m, ls @ X @ rs) (Some (ls @ Y @ rs)) Bs)"
  by (rule nodes_replaced_new) (use assms in \<open>auto simp: segs_append\<close>)

lemma segs_apart:
  assumes "(b, z, f) \<in> segs m k xs" "(b, z, f) \<in> segs m (k + width xs + j) ys" "0 < z" "16 * (k + width xs + j + width ys) < 2 ^ 64"
  shows False
proof -
  obtain q where q: "b = node_at m q" "q + z \<le> k + width xs" using segs_pos[OF assms(1)] by metis
  obtain r where r: "b = node_at m r" "k + width xs + j \<le> r" "r + z \<le> k + width xs + j + width ys" using segs_pos[OF assms(2)] by metis
  have "16 * q < 2 ^ 64" "16 * r < 2 ^ 64" using q r assms(4) by simp_all
  then have "q = r" using node_at_inj q(1) r(1) by metis
  then show False using q r assms(3) by simp
qed

lemma nodes_other:
  assumes "apart Bs" "(m, ns) \<in> set Bs" "C \<in> set Bs" "C \<noteq> (m, ns)" "(b, z, f) \<in> segs (fst C) 1 (snd C)"
  shows "(b, z, f) \<notin> segs m 1 ns"
proof
  assume "(b, z, f) \<in> segs m 1 ns"
  then have "node_at b 0 \<in> room (m, ns)" "node_at b 0 \<in> room C"
    using segs_room[of b z f _ _ 0] assms(5) by (metis le0 prod.collapse)+
  then show False using assms(1-4) unfolding apart_def pairwise_def by blast
qed

lemma nodes_gone:
  assumes "apart Bs" "(m, ns) \<in> set Bs"
  shows "nodes (replaced (m, ns) None Bs) = nodes Bs - segs m 1 ns"
proof (intro set_eqI iffI)
  fix x assume x: "x \<in> nodes (replaced (m, ns) None Bs)"
  then obtain b z f C where "x = (b, z, f)" "C \<in> set Bs" "C \<noteq> (m, ns)" "(b, z, f) \<in> segs (fst C) 1 (snd C)" "0 < z"
    by (auto simp: nodes_def replaced_def)
  then show "x \<in> nodes Bs - segs m 1 ns" using nodes_other[OF assms, of C b z f] unfolding nodes_def by (cases C) auto
qed (auto intro: nodes_replaced)

text \<open>Exactly the nodes of the part that was replaced are others.\<close>

lemma nodes_exact:
  assumes ap: "apart Bs" and mem: "(m, ls @ X @ rs) \<in> set Bs" and w: "width Y = width X"
  shows "nodes (replaced (m, ls @ X @ rs) (Some (ls @ Y @ rs)) Bs) =
    (nodes Bs - segs m (Suc (width ls)) X) \<union> {x \<in> segs m (Suc (width ls)) Y. 0 < fst (snd x)}" (is "?l = ?r")
proof
  show "?r \<subseteq> ?l"
  proof
    fix x assume "x \<in> ?r"
    then consider "x \<in> nodes Bs" "x \<notin> segs m (Suc (width ls)) X" | "x \<in> segs m (Suc (width ls)) Y" "0 < fst (snd x)" by auto
    then show "x \<in> ?l"
    proof cases
      case 1
      then show ?thesis by (rule nodes_swap[OF _ _ w])
    next
      case 2
      then show ?thesis using nodes_swap_new[of "fst x" "fst (snd x)" "snd (snd x)" m ls Y X rs Bs] by simp
    qed
  qed
  have lim: "16 * (1 + width (ls @ X @ rs)) < 2 ^ 64" using ap mem by (fastforce simp: apart_def)
  show "?l \<subseteq> ?r"
  proof
    fix x assume "x \<in> ?l"
    then obtain b z f m' ns' where x: "x = (b, z, f)" "(m', ns') \<in> set (replaced (m, ls @ X @ rs) (Some (ls @ Y @ rs)) Bs)"
      "(b, z, f) \<in> segs m' 1 ns'" "0 < z" unfolding nodes_def by blast
    have own: "x \<in> ?r" if "(b, z, f) \<in> segs m 1 (ls @ Y @ rs)"
    proof -
      have "segs m 1 (ls @ Y @ rs) = segs m 1 ls \<union> segs m (Suc (width ls)) Y \<union> segs m (Suc (width ls) + width X) rs"
        unfolding segs_append by (simp add: w Un_assoc)
      from that[unfolded this]
      consider "(b, z, f) \<in> segs m 1 ls" | "(b, z, f) \<in> segs m (Suc (width ls)) Y" | "(b, z, f) \<in> segs m (Suc (width ls) + width X) rs"
        unfolding Un_iff by blast
      then show ?thesis
      proof cases
        case 1
        then have "(b, z, f) \<notin> segs m (Suc (width ls)) X" using segs_apart[of b z f m 1 ls 0 X] x(4) lim by auto
        moreover have "(b, z, f) \<in> segs m 1 (ls @ X @ rs)" using 1 by (simp add: segs_append)
        then have "(b, z, f) \<in> nodes Bs" using mem x(4) unfolding nodes_def by blast
        ultimately show ?thesis using x(1) by simp
      next
        case 2
        then show ?thesis using x(1,4) by simp
      next
        case 3
        then have "(b, z, f) \<notin> segs m (Suc (width ls)) X" using segs_apart[of b z f m "Suc (width ls)" X 0 rs] x(4) lim by auto
        moreover have "(b, z, f) \<in> segs m 1 (ls @ X @ rs)" using 3 by (simp add: segs_append)
        then have "(b, z, f) \<in> nodes Bs" using mem x(4) unfolding nodes_def by blast
        ultimately show ?thesis using x(1) by simp
      qed
    qed
    show "x \<in> ?r"
    proof (cases "(m', ns') = (m, ls @ Y @ rs)")
      case True
      then show ?thesis using own x(3) by simp
    next
      case False
      then have C: "(m', ns') \<in> set Bs" "(m', ns') \<noteq> (m, ls @ X @ rs)" using x(2) by (auto simp: replaced_def)
      have "(b, z, f) \<notin> segs m 1 (ls @ X @ rs)" by (rule nodes_other[OF ap mem C]) (use x(3) in simp)
      then have "(b, z, f) \<notin> segs m (Suc (width ls)) X" by (simp add: segs_append)
      moreover have "(b, z, f) \<in> nodes Bs" using C(1) x(3,4) unfolding nodes_def by blast
      ultimately show ?thesis using x(1) by simp
    qed
  qed
qed

lemma nodes_exact_one:
  assumes "apart Bs" "(m, ls @ X @ rs) \<in> set Bs" "0 < width X"
  shows "nodes (replaced (m, ls @ X @ rs) (Some (ls @ [(width X, f)] @ rs)) Bs) =
    insert (node_at m (Suc (width ls)), width X, f) (nodes Bs - segs m (Suc (width ls)) X)"
proof -
  have "{x \<in> segs m (Suc (width ls)) [(width X, f)]. 0 < fst (snd x)} = {(node_at m (Suc (width ls)), width X, f)}"
    using assms(3) by auto
  with nodes_exact[OF assms(1,2), of "[(width X, f)]"] show ?thesis by simp
qed

section \<open>Taking a free node\<close>

lemma split_shape:
  assumes "shape (ls @ (z, f) # rs)" "0 < a" "a \<le> z" "f \<or> 0 < z"
  shows "shape (ls @ split_nodes z a @ rs)" "width (ls @ split_nodes z a @ rs) = width (ls @ (z, f) # rs)"
  using assms by (auto simp: shape_def split_nodes_def butlast_append successively_append_iff successively_Cons split: if_splits)

lemma fast_add_blocks:
  assumes "fast_ok fa" "n < 64"
  shows "fast_blocks (fast_add b n fa) = add_mset b (fast_blocks fa)" "fast_ok (fast_add b n fa)"
proof -
  have l: "n < length (fa_fl fa)" using assms by (simp add: fast_ok_def)
  show "fast_blocks (fast_add b n fa) = add_mset b (fast_blocks fa)"
    using concat_update_Cons[OF l, of b "fa_fl fa ! n"] by (simp add: fast_blocks_def fast_add_def)
  show "fast_ok (fast_add b n fa)"
    using assms by (auto simp: fast_ok_def fast_add_def bit_or_iff bit_push_bit_iff nth_list_update bit_1_iff bit_exp_iff)
qed

lemma split_node_lists:
  assumes s: "split_node b (word_of_nat (16 * z)) (word_of_nat (16 * a)) h = Inr (p, h')" and a: "0 < a" "a \<le> z" "16 * z < 2 ^ 32"
    and f: "fast_ok (bh_fast h)"
  shows "bigs h' = bigs h" "fast_ok (bh_fast h')" "bh_returned h' = bh_returned h" "bh_a_alloced h' = bh_a_alloced h"
    "fast_blocks (bh_fast h') = (if 4 * (z - a) < a then fast_blocks (bh_fast h) else add_mset (node_at b a) (fast_blocks (bh_fast h)))"
proof -
  have sz: "16 * (z - a) < 2 ^ 32" "16 * a < 2 ^ 32" "64 * (z - a) < 2 ^ 64" using a by simp_all
  have "unat (word_of_nat (16 * (z - a)) * (4 :: u64)) = 64 * (z - a)"
    using unat_of_size[OF sz(1)] sz(3) by (simp add: unat_word_ariths del: of_nat_mult)
  then have cmp: "word_of_nat (16 * (z - a)) * 4 < (word_of_nat (16 * a) :: u64) \<longleftrightarrow> 4 * (z - a) < a"
    using unat_of_size[OF sz(2)] by (simp add: word_less_nat_alt del: of_nat_mult)
  note sp = s[unfolded split_node_def Let_def size_diff[OF a(2)] cmp]
  have "bigs h' = bigs h \<and> fast_ok (bh_fast h') \<and> bh_returned h' = bh_returned h \<and> bh_a_alloced h' = bh_a_alloced h \<and>
    fast_blocks (bh_fast h') = (if 4 * (z - a) < a then fast_blocks (bh_fast h) else add_mset (node_at b a) (fast_blocks (bh_fast h)))"
  proof (cases "4 * (z - a) < a")
    case True
    then show ?thesis using sp f by simp
  next
    case False
    have "block_size (word_of_nat (16 * (z - a)))"
      using unat_of_size[OF sz(1)] sz False a by (simp add: block_size_def del: of_nat_mult)
    then obtain i where i: "size2fl (word_of_nat (16 * (z - a))) = Inr i" "i < 64" using size2fl_total by blast
    have "bigs h' = bigs h \<and> bh_returned h' = bh_returned h \<and> bh_a_alloced h' = bh_a_alloced h \<and> bh_fast h' = fast_add (node_at b a) i (bh_fast h)"
      using sp False i(1) by (auto simp: err_simps free_rest_def fast_free_def set_sep_def Let_def node_at_def)
    then show ?thesis using False fast_add_blocks[OF f i(2)] by simp
  qed
  then show "bigs h' = bigs h" "fast_ok (bh_fast h')" "bh_returned h' = bh_returned h" "bh_a_alloced h' = bh_a_alloced h"
    "fast_blocks (bh_fast h') = (if 4 * (z - a) < a then fast_blocks (bh_fast h) else add_mset (node_at b a) (fast_blocks (bh_fast h)))"
    by blast+
qed

text \<open>
  A free node \<open>b\<close> becomes an object of \<open>a\<close> units; the rest goes to the fast lists, unless it is small.
\<close>

definition cut_size :: "nat \<Rightarrow> nat \<Rightarrow> nat" where
  "cut_size z a = (if 4 * (z - a) < a then z else a)"

lemma cut_le: "a \<le> z \<Longrightarrow> a \<le> cut_size z a \<and> cut_size z a \<le> z"
  by (simp add: cut_size_def)

lemma owned_take:
  assumes ow: "owned_ok F L N" and ap: "\<And>c w i j. (c, w, False) \<in> N \<Longrightarrow> i < w \<Longrightarrow> j < z \<Longrightarrow> node_at c i \<noteq> node_at b j"
    and pos: "\<And>c w f. (c, w, f) \<in> N \<Longrightarrow> 0 < w"
    and keep: "\<And>c w. (c, w, False) \<in> N \<Longrightarrow> (c, w, False) \<in> N'" and b: "(b, e, False) \<in> N'" and a: "0 < a" "a \<le> z"
    and F': "F' = (if r then F else add_mset (node_at b a) F)"
    and r: "\<not> r \<Longrightarrow> (node_at b a, z - a, False) \<in> N' \<and> a < z"  "node_at b a \<noteq> b \<or> r"
  shows "owned_ok F' (insert (b + 16, e) L) N'" "b + 16 \<notin> fst ` L"
proof -
  have nb: "c \<noteq> b" if "(c, w, False) \<in> N" for c w using ap[OF that, of 0 0] pos[OF that] a by (auto simp: node_at_def)
  have nc: "c \<noteq> node_at b a" if "(c, w, False) \<in> N" "\<not> r" for c w
    using ap[OF that(1), of 0 a] pos[OF that(1)] r(1)[OF that(2)] by (auto simp: node_at_def)
  have F: "\<forall>b. count F b \<le> 1" "\<forall>c \<in># F. \<exists>w. (c, w, False) \<in> N" and L: "inj_on fst L"
    "\<And>p e. (p, e) \<in> L \<Longrightarrow> p - 16 \<notin># F \<and> (p - 16, e, False) \<in> N"
    using ow unfolding owned_ok_def by auto
  show bL: "b + 16 \<notin> fst ` L" using L(2) nb by force
  have bF: "b \<notin># F" using F(2) nb by blast
  have cF: "node_at b a \<notin># F" if "\<not> r" using F(2) nc that by blast
  have "inj_on fst (insert (b + 16, e) L)" using L(1) bL by (auto simp only: inj_on_insert fst_conv)
  moreover have "\<forall>c. count F' c \<le> 1" using F(1) cF F' by (auto simp: not_in_iff)
  moreover have "\<exists>w. (c, w, False) \<in> N'" if "c \<in># F'" for c
  proof -
    have "c \<in># F \<or> \<not> r \<and> c = node_at b a" using that F' by (auto split: if_splits)
    then show ?thesis using F(2) keep r(1) by blast
  qed
  moreover have "b \<notin># F'" using bF r(2) F' by (auto split: if_splits)
  moreover have "p - 16 \<notin># F' \<and> (p - 16, e, False) \<in> N'" if "(p, e) \<in> L" for p e
    using L(2)[OF that] keep nc F' by (auto split: if_splits)
  ultimately show "owned_ok F' (insert (b + 16, e) L) N'" using b unfolding owned_ok_def by auto
qed

lemma nodes_pos: "(b, z, f) \<in> nodes Bs \<Longrightarrow> 0 < z"
  by (auto simp: nodes_def)

lemma nodes_mem: "(m, ls @ (z, f) # rs) \<in> set Bs \<Longrightarrow> 0 < z \<Longrightarrow> (node_at m (Suc (width ls)), z, f) \<in> nodes Bs"
  unfolding nodes_def by (fastforce simp: segs_split)

lemma owned_without:
  assumes "owned_ok F L N" "b \<notin># F" "b + 16 \<notin> fst ` L"
  shows "owned_ok F L (N - {(b, z, False)})"
proof -
  have "p - 16 \<noteq> b" if "(p, a) \<in> L" for p a using assms(3) that by (metis diff_add_cancel fst_conv imageI)
  then show ?thesis using assms(1,2) unfolding owned_ok_def by fastforce
qed

lemma heap_split:
  assumes ok: "heap_ok h sl Bs L G" and mem: "(m, ls @ (z, False) # rs) \<in> set Bs" and a: "0 < a" "a \<le> z"
  defines "b \<equiv> node_at m (Suc (width ls))"
  assumes free: "b \<notin># fast_blocks (bh_fast h)" "b + 16 \<notin> fst ` L"
  obtains h' Bs' where "split_node b (word_of_nat (16 * z)) (word_of_nat (16 * a)) h = Inr (b + 16, h')"
    "heap_ok h' sl Bs' (insert (b + 16, cut_size z a) L) G"
proof -
  let ?ns = "ls @ (z, False) # rs" and ?ns' = "ls @ split_nodes z a @ rs"
  let ?n = "Suc (width ?ns)" and ?N = "nodes Bs - {(b, z, False)}" and ?Bs = "replaced (m, ?ns) (Some ?ns') Bs"
  note ok' = heap_okD[OF ok]
  have B: "env_ok h m sl ?n" "tiled (set sl) h m 1 False 0 ?ns" "shape ?ns" "m AND 4095 = 0"
    using ok'(2)[OF mem] by (simp_all add: block_ok_def)
  have lim: "16 * ?n < 2 ^ 32" using B(1) by (simp add: env_ok_def)
  obtain h' where h': "split_node b (word_of_nat (16 * z)) (word_of_nat (16 * a)) h = Inr (b + 16, h')"
    "env_ok h' m sl ?n" "tiled (set sl) h' m 1 False 0 ?ns'" "outside_ok m ?n sl h sl h'"
    unfolding b_def by (rule split_tiled[OF B(1,2) order_refl a shape_pos[OF B(3)]])
  have "16 * z < 2 ^ 32" using lim by simp
  note l = split_node_lists[OF h'(1) a this ok'(6)]
  have z: "0 < z" using a by simp
  note bN = nodes_mem[OF mem z, folded b_def]
  have w: "width (split_nodes z a) = width [(z, False)]" using a by (simp add: split_nodes_def)
  have keep: "x \<in> nodes ?Bs" if "x \<in> ?N" for x
    using nodes_swap[of x Bs m ls "[(z, False)]" "split_nodes z a" rs] that w by (simp add: b_def)
  have c: "node_at b a = node_at m (Suc (width ls) + a)" by (simp add: b_def node_at_node_at)
  have new: "(b, cut_size z a, False) \<in> nodes ?Bs" "\<not> 4 * (z - a) < a \<Longrightarrow> (node_at b a, z - a, False) \<in> nodes ?Bs \<and> a < z"
    using nodes_swap_new[of b z False m ls "split_nodes z a" "[(z, False)]" rs Bs]
      nodes_swap_new[of b a False m ls "split_nodes z a" "[(z, False)]" rs Bs]
      nodes_swap_new[of "node_at b a" "z - a" False m ls "split_nodes z a" "[(z, False)]" rs Bs] a
    unfolding c by (auto simp: b_def split_nodes_def cut_size_def split: if_splits)
  have ne: "node_at b a \<noteq> b \<or> 4 * (z - a) < a"
    unfolding c using near_inj[of "Suc (width ls) + a" ?n "Suc (width ls)" m] lim a by (simp add: b_def)
  have sep: "node_at c i \<noteq> node_at b j" if "(c, w, False) \<in> ?N" "i < w" "j < z" for c w i j
    using nodes_disjoint[OF ok'(3) _ bN that(2,3)] that(1) by auto
  have pos: "0 < w" if "(c, w, f) \<in> ?N" for c w f using that nodes_pos by blast
  note ow = owned_take[OF owned_without[OF ok'(7) free] sep pos keep new(1) a l(5) new(2) ne]
  have "heap_ok h' sl ?Bs (insert (b + 16, cut_size z a) L) G"
  proof (rule heap_change[OF ok mem h'(4)])
    show "small_rep h' sl" using h'(2) by (simp add: env_ok_def)
    show "width ns' = width ?ns \<and> block_ok h' sl (m, ns')" if "Some ?ns' = Some ns'" for ns'
      using that h'(2,3) B(4) split_shape[OF B(3) a] z by (auto simp: block_ok_def)
    have "nodes ?Bs = (nodes Bs - {(b, z, False)}) \<union> {x \<in> segs m (Suc (width ls)) (split_nodes z a). 0 < fst (snd x)}"
      using nodes_exact[OF ok'(3), of m ls "[(z, False)]" rs "split_nodes z a"] mem w by (simp add: b_def)
    then have "(c, r, True) \<in> nodes ?Bs \<longleftrightarrow> (c, r, True) \<in> nodes Bs" for c r by (auto simp: split_nodes_def split: if_splits)
    then show "qs_ok (bigs h') (nodes ?Bs)" unfolding l(1) by (intro qs_ok_cong[OF ok'(5)])
    show "fast_ok (bh_fast h')" by (rule l(2))
    show "bh_returned h' = bh_returned h @ (if Some ?ns' = None then [region (m, ?ns)] else [])" using l(3) by simp
    show "bh_a_alloced h' \<le> bh_a_alloced h" using l(4) by simp
    show "owned_ok (fast_blocks (bh_fast h')) (insert (b + 16, cut_size z a) L) (nodes ?Bs)" by (rule ow(1)) simp_all
  qed simp
  then show thesis using that h'(1) by blast
qed

lemma used_apart:
  assumes "owned_ok F L N" "\<And>w. (b, w, False) \<notin> N"
  shows "b \<notin># F" "b + 16 \<notin> fst ` L"
  using assms unfolding owned_ok_def by fastforce+

lemma heap_use:
  assumes ok: "heap_ok h sl Bs L G" and mem: "(m, ls @ (z, True) # rs) \<in> set Bs" and z: "0 < z"
  defines "b \<equiv> node_at m (Suc (width ls))"
  assumes h1: "bh_tag h1 = bh_tag (unlink z b h)" "bh_left h1 = bh_left h" "bh_data h1 = bh_data (unlink z b h)" "bh_q8 h1 = bh_q8 h"
    and fa: "bh_fast h1 = bh_fast h" "bh_returned h1 = bh_returned h" "bh_a_alloced h1 = bh_a_alloced h" and qs: "qs_ok (bigs h1) (nodes Bs - {(b, z, True)})"
  shows "heap_ok (set_used b (word_of_nat (16 * z)) h1) (unlisted z b sl) (replaced (m, ls @ (z, True) # rs) (Some (ls @ (z, False) # rs)) Bs) L G"
    "b \<notin># fast_blocks (bh_fast h)" "b + 16 \<notin> fst ` L"
proof -
  let ?ns = "ls @ (z, True) # rs" and ?ns' = "ls @ (z, False) # rs"
  let ?n = "Suc (width ?ns)" and ?sl = "unlisted z b sl" and ?h2 = "set_used b (word_of_nat (16 * z)) h1"
  let ?Bs = "replaced (m, ?ns) (Some ?ns') Bs"
  note ok' = heap_okD[OF ok]
  have B: "env_ok h m sl ?n" "tiled (set sl) h m 1 False 0 ?ns" "shape ?ns" "m AND 4095 = 0"
    using ok'(2)[OF mem] by (simp_all add: block_ok_def)
  note t = take_tiled[OF B(1,2,3) order_refl h1[unfolded b_def], folded b_def]
  have f2: "bh_fast ?h2 = bh_fast h" "bigs ?h2 = bigs h1" "bh_returned ?h2 = bh_returned h" "bh_a_alloced ?h2 = bh_a_alloced h" using fa by (simp_all add: set_used_def bigs_def Let_def)
  note bN = nodes_mem[OF mem z, folded b_def]
  have "(b, w, False) \<notin> nodes Bs" for w using nodes_unique[OF ok'(3) bN] by blast
  note un = used_apart[OF ok'(7) this]
  have keep: "x \<in> nodes ?Bs" if "x \<in> nodes Bs" "x \<noteq> (b, z, True)" for x
    using nodes_swap[OF that(1), of m ls "[(z, True)]" "[(z, False)]" rs] that(2) by (simp add: b_def)
  show "heap_ok ?h2 ?sl ?Bs L G"
  proof (rule heap_change[OF ok mem t(3)])
    show "small_rep ?h2 ?sl" using t(1) by (simp add: env_ok_def)
    show "width ns' = width ?ns \<and> block_ok ?h2 ?sl (m, ns')" if "Some ?ns' = Some ns'" for ns'
    proof -
      have "shape ?ns'" using B(3) by (auto simp: shape_def butlast_append successively_append_iff successively_Cons split: if_splits)
      then show ?thesis using that t(1,2) B(4) by (auto simp: block_ok_def)
    qed
    have "nodes ?Bs = insert (b, z, False) (nodes Bs - {(b, z, True)})"
      using nodes_exact_one[OF ok'(3), of m ls "[(z, True)]" rs False] mem z by (simp add: b_def)
    then show "qs_ok (bigs ?h2) (nodes ?Bs)" unfolding f2 by (intro qs_ok_cong[OF qs]) auto
    show "bh_returned ?h2 = bh_returned h @ (if Some ?ns' = None then [region (m, ?ns)] else [])" using f2(3) by simp
    show "bh_a_alloced ?h2 \<le> bh_a_alloced h" using f2(4) by simp
    show "fast_ok (bh_fast ?h2)" "owned_ok (fast_blocks (bh_fast ?h2)) L (nodes ?Bs)"
      unfolding f2 using ok'(6) owned_ok_mono[OF ok'(7)] keep by blast+
  qed simp
  show "b \<notin># fast_blocks (bh_fast h)" "b + 16 \<notin> fst ` L" by (rule un)+
qed

lemma heap_take:
  assumes ok: "heap_ok h sl Bs L G" and mem: "(m, ls @ (z, True) # rs) \<in> set Bs" and a: "0 < a" "a \<le> z"
  defines "b \<equiv> node_at m (Suc (width ls))"
  assumes h1: "bh_tag h1 = bh_tag (unlink z b h)" "bh_left h1 = bh_left h" "bh_data h1 = bh_data (unlink z b h)" "bh_q8 h1 = bh_q8 h"
    and fa: "bh_fast h1 = bh_fast h" "bh_returned h1 = bh_returned h" "bh_a_alloced h1 = bh_a_alloced h" and qs: "qs_ok (bigs h1) (nodes Bs - {(b, z, True)})"
  obtains h' sl' Bs' where "split_node b (word_of_nat (16 * z)) (word_of_nat (16 * a)) (set_used b (word_of_nat (16 * z)) h1) = Inr (b + 16, h')"
    "heap_ok h' sl' Bs' (insert (b + 16, cut_size z a) L) G" "b + 16 \<notin> fst ` L"
proof -
  let ?h2 = "set_used b (word_of_nat (16 * z)) h1" and ?Bs = "replaced (m, ls @ (z, True) # rs) (Some (ls @ (z, False) # rs)) Bs"
  have z: "0 < z" using a by simp
  note u = heap_use[OF ok mem z h1[unfolded b_def] fa qs[unfolded b_def], folded b_def]
  have mem2: "(m, ls @ (z, False) # rs) \<in> set ?Bs" by (simp add: replaced_def)
  have f2: "bh_fast ?h2 = bh_fast h" using fa by (simp add: set_used_def Let_def)
  obtain h' Bs' where "split_node b (word_of_nat (16 * z)) (word_of_nat (16 * a)) ?h2 = Inr (b + 16, h')"
    "heap_ok h' (unlisted z b sl) Bs' (insert (b + 16, cut_size z a) L) G"
    unfolding b_def by (rule heap_split[OF u(1) mem2 a, unfolded b_def]) (use u(2,3) f2 in \<open>simp_all add: b_def\<close>)
  then show thesis using that u(3) by blast
qed

lemma heap_ok_frame:
  assumes ok: "heap_ok h sl Bs L G" and f: "bh_tag h' = bh_tag h" "bh_left h' = bh_left h" "bh_data h' = bh_data h" "bh_q8 h' = bh_q8 h"
      "bh_returned h' = bh_returned h" "bh_a_alloced h' = bh_a_alloced h"
    and l: "qs_ok (bigs h') (nodes Bs)" "fast_ok (bh_fast h')" "owned_ok (fast_blocks (bh_fast h')) L' (nodes Bs)"
  shows "heap_ok h' sl Bs L' G"
proof -
  note ok' = heap_okD[OF ok]
  have rep: "small_rep h' sl" by (rule small_rep_frame[OF ok'(1)]) (use f in simp_all)
  have "block_ok h' sl B" if "B \<in> set Bs" for B
  proof -
    obtain m ns where B: "B = (m, ns)" by (cases B)
    have b: "env_ok h m sl (Suc (width ns))" "tiled (set sl) h m 1 False 0 ns" "shape ns" "m AND 4095 = 0"
      using ok'(2)[OF that] by (auto simp: block_ok_def B)
    have "tiled (set sl) h' m 1 False 0 ns" by (rule tiled_agree[OF b(2)]) (rule agree_same[OF f(1,2)])
    then show ?thesis using b rep f by (simp add: B block_ok_def env_ok_def)
  qed
  then show ?thesis using ok'(3,4,8-10) rep l f(1,4-6) by (simp add: heap_ok_def lent_def clean_def)
qed

lemma qs_ok_rest:
  assumes "qs_ok (qs, cs) N" "qs ! i = b # rest" "i < 63"
  shows "qs_ok (qs[i := rest], cs) (N - {(b, Suc i, True)})"
proof -
  note Q = assms(1)[unfolded qs_ok_def fst_conv snd_conv]
  have "distinct (qs[i := rest] ! j) \<and> set (qs[i := rest] ! j) = {c. 0 < j \<and> j < 63 \<and> (c, Suc j, True) \<in> N - {(b, Suc i, True)}}"
    if j: "j < 64" for j
  proof (cases "j = i")
    case True
    have "distinct (b # rest)" "set (b # rest) = {c. 0 < i \<and> i < 63 \<and> (c, Suc i, True) \<in> N}" using Q assms(2) j True by metis+
    then have "distinct rest" "set rest = {c. 0 < i \<and> i < 63 \<and> (c, Suc i, True) \<in> N - {(b, Suc i, True)}}" by auto
    then show ?thesis using Q True assms(3) by simp
  next
    case False
    then show ?thesis using Q j by auto
  qed
  moreover have "large (N - {(b, Suc i, True)}) = large N" using assms(3) by (auto simp: large_def)
  ultimately show ?thesis using Q unfolding qs_ok_def by simp
qed

text \<open>What an allocation promises: it returns an object that nobody holds, or it leaves the objects as they are.\<close>

definition served :: "nat \<Rightarrow> (u64 \<times> nat) set \<Rightarrow> ledger \<Rightarrow> u64 option \<Rightarrow> bheap \<Rightarrow> bool" where
  "served a L G r h = (case r of
     None \<Rightarrow> \<exists>sl Bs. heap_ok h sl Bs L G
   | Some p \<Rightarrow> p \<notin> fst ` L \<and> (\<exists>z \<ge> a. \<exists>sl Bs. heap_ok h sl Bs (insert (p, z) L) G))"

lemma servedI: "heap_ok h sl Bs (insert (p, cut_size z a) L) G \<Longrightarrow> p \<notin> fst ` L \<Longrightarrow> a \<le> z \<Longrightarrow> served a L G (Some p) h"
  using cut_le[of a z] unfolding served_def by auto

lemma slow_loop_ok:
  assumes "heap_ok h sl Bs L G" "0 < a" "\<And>i. bit tmask i \<Longrightarrow> a \<le> Suc i"
  shows "\<exists>r h'. slow_loop (word_of_nat (16 * a)) tmask h = Inr (r, h') \<and> served a L G r h'"
  using assms
proof (induction "word_of_nat (16 * a) :: u64" tmask h rule: slow_loop.induct)
  case (1 tmask h)
  note ok = heap_okD[OF "1.prems"(1)]
  show ?case
  proof (cases "tmask = 0")
    case True
    then show ?thesis using "1.prems"(1) by (auto simp: slow_loop.simps served_def)
  next
    case False
    then obtain i where i: "ffsq tmask = Inr i" "lowest tmask i" using ffsq_lowest by blast
    then have bi: "bit tmask i" "i < 64" by (simp_all add: lowest_def)
    show ?thesis
    proof (cases "bh_qs h ! i")
      case Nil
      let ?m = "(tmask - 1) OR NOT tmask"
      have "heap_ok (h\<lparr>bh_q_mask := bh_q_mask h AND ?m\<rparr>) sl Bs L G" by (rule heap_ok_frame[OF "1.prems"(1)]) (use ok in simp_all)
      moreover have "a \<le> Suc j" if "bit (tmask AND ?m) j" for j using that "1.prems"(3) by (simp add: bit_and_iff)
      ultimately show ?thesis using "1.hyps"[OF False i(1) Nil refl] "1.prems"(2) False i(1) Nil
        by (subst slow_loop.simps) (simp add: Let_def)
    next
      case (Cons b rest)
      let ?h1 = "h\<lparr>bh_qs := (bh_qs h)[i := rest]\<rparr>"
      have "b \<in> set (bh_qs h ! i)" using Cons by simp
      then have i0: "i \<noteq> 0" "(b, Suc i, True) \<in> nodes Bs" "i < 63" using ok(5) bi(2) unfolding qs_ok_def bigs_def by auto
      obtain m ls rs where b: "(m, ls @ (Suc i, True) # rs) \<in> set Bs" "b = node_at m (Suc (width ls))" using nodesE[OF i0(2)] by blast
      have u: "bh_tag (unlink (Suc i) c h) = bh_tag h" "bh_data (unlink (Suc i) c h) = bh_data h" for c
        using i0(1) by (simp_all add: unlink_def)
      obtain h' sl' Bs' where h': "split_node b (word_of_nat (16 * Suc i)) (word_of_nat (16 * a)) (set_used b (word_of_nat (16 * Suc i)) ?h1) = Inr (b + 16, h')"
        "heap_ok h' sl' Bs' (insert (b + 16, cut_size (Suc i) a) L) G" "b + 16 \<notin> fst ` L"
        unfolding b(2) by (rule heap_take[OF "1.prems"(1) b(1) "1.prems"(2) "1.prems"(3)[OF bi(1)], of ?h1])
          (use qs_ok_rest[OF ok(5)[unfolded bigs_def] Cons i0(3)] b(2) in \<open>simp_all add: u bigs_def\<close>)
      then have "slow_loop (word_of_nat (16 * a)) tmask h = Inr (Some (b + 16), h')"
        using False i(1) Cons by (subst slow_loop.simps) (simp add: Let_def del: of_nat_mult of_nat_Suc)
      then show ?thesis using servedI[OF h'(2,3) "1.prems"(3)[OF bi(1)]] by simp
    qed
  qed
qed

lemma slow_alloc_ok:
  assumes hp: "heap_ok h sl Bs L G" and a: "0 < a" "a \<le> 63"
  shows "\<exists>r h'. slow_alloc_aux (word_of_nat (16 * a)) h = Inr (r, h') \<and> served a L G r h'"
proof (cases "a = 1")
  case True
  note ok = heap_okD[OF hp]
  show ?thesis
  proof (cases sl)
    case Nil
    then have "slow_alloc_aux 16 h = slow_loop 16 (bh_q_mask h AND push_bit 1 (NOT 0)) h"
      using small_del_first_rep[OF ok(1)] by (simp add: slow_alloc_aux_def)
    then show ?thesis unfolding True using slow_loop_ok[OF hp, of 1 "bh_q_mask h AND push_bit 1 (NOT 0)"] by simp
  next
    case (Cons b ys)
    then have bN: "(b, 1, True) \<in> nodes Bs" using ok(4) by simp
    obtain m ls rs where b: "(m, ls @ (1, True) # rs) \<in> set Bs" "b = node_at m (Suc (width ls))" using nodesE[OF bN] by blast
    have f: "bh_left (small_remove c h) = bh_left h" "bh_q8 (small_remove c h) = bh_q8 h" "bigs (small_remove c h) = bigs h"
      "bh_returned (small_remove c h) = bh_returned h" "bh_a_alloced (small_remove c h) = bh_a_alloced h" for c
      by (simp_all add: small_remove_def Let_def unset_size8_def set_small_prev_def bigs_def)
    have q: "qs_ok (bigs h) (nodes Bs - {(b, 1, True)})" by (rule qs_ok_cong[OF ok(5)]) auto
    obtain h' sl' Bs' where h': "split_node b (word_of_nat (16 * 1)) (word_of_nat (16 * 1)) (set_used b (word_of_nat (16 * 1)) (small_remove b h)) = Inr (b + 16, h')"
      "heap_ok h' sl' Bs' (insert (b + 16, cut_size 1 1) L) G" "b + 16 \<notin> fst ` L"
      unfolding b(2) by (rule heap_take[OF hp b(1), of 1 "small_remove b h"]) (use q in \<open>simp_all add: unlink_def f b(2) small_fast\<close>)
    then have "slow_alloc_aux 16 h = Inr (Some (b + 16), h')"
      using small_del_first_rep[OF ok(1)] Cons by (simp add: slow_alloc_aux_def split_node_def Let_def)
    then show ?thesis using servedI[OF h'(2,3)] True by simp
  qed
next
  case False
  let ?w = "word_of_nat (16 * a) :: u64"
  have u: "unat ?w = 16 * a" by (rule unat_of_size) (use a in simp)
  have ne: "?w \<noteq> 16" using u False by auto
  have d: "unat (?w div 16) = a" using u by (simp add: unat_div_distrib del: of_nat_mult)
  then have "?w div 16 \<noteq> 0" using a(1) by (metis unat_0 less_irrefl)
  then have n: "unat (?w div 16 - 1) = a - 1" using unat_minus_one[of "?w div 16"] unfolding d by blast
  have "a \<le> Suc i" if "bit (bh_q_mask h AND push_bit (a - 1) (NOT 0)) i" for i
    using that unfolding bit_and_iff bit_push_bit_iff by linarith
  note l = slow_loop_ok[OF hp a(1) this]
  show ?thesis unfolding slow_alloc_aux_def if_not_P[OF ne] n by (rule l)
qed

section \<open>Merging\<close>

lemma qs_ok_remove:
  assumes Q: "qs_ok Q N" and c: "(c, r, True) \<in> N" "\<And>w. (c, w, True) \<in> N \<Longrightarrow> w = r"
  shows "qs_ok (qs_remove c r Q) (N - {(c, r, True)})"
proof -
  obtain qs cs where [simp]: "Q = (qs, cs)" by (cases Q)
  have q: "length qs = 64" "\<And>i. i < 64 \<Longrightarrow> distinct (qs ! i)" "\<And>i. i < 64 \<Longrightarrow> set (qs ! i) = {b. 0 < i \<and> i < 63 \<and> (b, Suc i, True) \<in> N}"
    "tree_of cs = Some (in_bytes (large N))" using Q by (simp_all add: qs_ok_def)
  consider "63 < r" | "r = 1" | "r \<le> 63" "r \<noteq> 1" by linarith
  then show ?thesis
  proof cases
    case 1
    have "c \<in> fst ` in_bytes (large N)"
    proof -
      have "(c, r) \<in> large N" using c(1) 1 by (simp add: large_def)
      then have "(c, word_of_nat (16 * r)) \<in> in_bytes (large N)" by (rule rev_image_eqI) (rule split[symmetric])
      from imageI[OF this, of fst] show ?thesis by (simp only: fst_conv)
    qed
    moreover have "large (N - {(c, r, True)}) = {x \<in> large N. fst x \<noteq> c}"
    proof (intro set_eqI)
      fix x :: "u64 \<times> nat"
      have "(c, snd x, True) \<in> N \<longleftrightarrow> snd x = r" using c by blast
      then show "x \<in> large (N - {(c, r, True)}) \<longleftrightarrow> x \<in> {x \<in> large N. fst x \<noteq> c}"
        by (cases "fst x = c") (simp_all add: large_def split_beta)
    qed
    moreover have "{x \<in> in_bytes T. fst x \<noteq> c} = in_bytes {x \<in> T. fst x \<noteq> c}" for T by (auto simp del: of_nat_mult)
    ultimately have "tree_of (cs @ [BtreeNodeDel c]) = Some (in_bytes (large (N - {(c, r, True)})))"
      using q(4) by (simp only: tree_of_snoc Option.bind.simps tree_step.simps if_True)
    moreover have "{b. 0 < i \<and> i < 63 \<and> (b, Suc i, True) \<in> N - {(c, r, True)}} = {b. 0 < i \<and> i < 63 \<and> (b, Suc i, True) \<in> N}" for i
      using 1 by auto
    ultimately show ?thesis using q 1 by (simp add: qs_remove_def qs_ok_def)
  next
    case 2
    then show ?thesis using Q by (auto simp: qs_remove_def intro: qs_ok_cong)
  next
    case 3
    have "large (N - {(c, r, True)}) = large N" using 3 by (auto simp: large_def)
    moreover have "set (removeAll c (qs ! i)) = {b. 0 < i \<and> i < 63 \<and> (b, Suc i, True) \<in> N - {(c, r, True)}}" if "i < 64" for i
      using q(3)[OF that] c(2) by auto
    ultimately show ?thesis using q 3 by (simp add: qs_remove_def qs_ok_def distinct_removeAll)
  qed
qed

lemma qs_ok_insert:
  assumes Q: "qs_ok Q N" and c: "\<And>r. (c, r, True) \<notin> N" and z: "0 < z"
  shows "qs_ok (qs_insert c z Q) (insert (c, z, True) N)"
proof -
  obtain qs cs where [simp]: "Q = (qs, cs)" by (cases Q)
  have q: "length qs = 64" "\<And>i. i < 64 \<Longrightarrow> distinct (qs ! i)" "\<And>i. i < 64 \<Longrightarrow> set (qs ! i) = {b. 0 < i \<and> i < 63 \<and> (b, Suc i, True) \<in> N}"
    "tree_of cs = Some (in_bytes (large N))" using Q by (simp_all add: qs_ok_def)
  consider "63 < z" | "z = 1" | "z \<le> 63" "z \<noteq> 1" by linarith
  then show ?thesis
  proof cases
    case 1
    have "c \<notin> fst ` in_bytes (large N)" using c by (auto simp: large_def)
    moreover have "large (insert (c, z, True) N) = insert (c, z) (large N)" using 1 by (auto simp: large_def)
    ultimately have "tree_of (cs @ [BtreeInsert c (word_of_nat (16 * z))]) = Some (in_bytes (large (insert (c, z, True) N)))"
      using q(4) by (simp only: tree_of_snoc Option.bind.simps tree_step.simps if_False image_insert split)
    moreover have "{b. 0 < i \<and> i < 63 \<and> (b, Suc i, True) \<in> insert (c, z, True) N} = {b. 0 < i \<and> i < 63 \<and> (b, Suc i, True) \<in> N}" for i
      using 1 by auto
    ultimately show ?thesis using q 1 by (simp add: qs_insert_def qs_ok_def del: of_nat_mult)
  next
    case 2
    then show ?thesis using Q by (auto simp: qs_insert_def intro: qs_ok_cong)
  next
    case 3
    let ?qs = "qs[z - 1 := c # qs ! (z - 1)]"
    have "large (insert (c, z, True) N) = large N" using 3 by (auto simp: large_def)
    moreover have "distinct (?qs ! i) \<and> set (?qs ! i) = {b. 0 < i \<and> i < 63 \<and> (b, Suc i, True) \<in> insert (c, z, True) N}" if "i < 64" for i
    proof (cases "i = z - 1")
      case True
      then have i: "0 < i" "i < 63" "Suc i = z" using 3 z by simp_all
      have "c \<notin> set (qs ! i)" using q(3)[OF that] c by simp
      moreover have "?qs ! i = c # qs ! i" using q(1) True that by simp
      moreover have "{b. 0 < i \<and> i < 63 \<and> (b, Suc i, True) \<in> insert (c, z, True) N} = insert c (set (qs ! i))" using q(3)[OF that] i by auto
      ultimately show ?thesis using q(2)[OF that] by simp
    next
      case False
      then have "Suc i \<noteq> z" "?qs ! i = qs ! i" using z by auto
      then show ?thesis using q(2,3)[OF that] by simp
    qed
    ultimately show ?thesis using q 3 by (simp add: qs_insert_def qs_ok_def)
  qed
qed

text \<open>The nodes that a merge makes one of.\<close>

lemma shape_free_pos: "shape (ls @ n # rs) \<Longrightarrow> x \<in> set rs \<Longrightarrow> snd x \<Longrightarrow> 0 < fst x"
  by (cases rs rule: rev_cases) (auto simp: shape_def butlast_append)

lemma merge_parts:
  assumes "rs \<noteq> []" "0 < z" "\<forall>x \<in> set ls. 0 < fst x" "\<forall>x \<in> set rs. snd x \<longrightarrow> 0 < fst x"
  obtains ls0 X rs0 x where "ls @ (z, False) # rs = ls0 @ X @ rs0" "merged ls z rs = ls0 @ [(width X, True)] @ rs0"
    "absorb_left ls (fst (absorb_right z rs)) = (ls0, width X)" "hd X = x" "X \<noteq> []" "\<forall>x \<in> set X. 0 < fst x" "width ls0 \<le> width ls"
    "\<forall>m c w. (c, w, False) \<in> segs m (Suc (width ls0)) X \<longrightarrow> (c, w) = (node_at m (Suc (width ls)), z)"
    "\<forall>m Q N. qs_ok Q N \<longrightarrow> (\<forall>b v w. (b, v, True) \<in> N \<longrightarrow> (b, w, True) \<in> N \<longrightarrow> w = v) \<longrightarrow> segs m (Suc (width ls0)) X \<subseteq> N \<longrightarrow>
       node_at m (Suc (width ls0)) \<noteq> node_at m (Suc (width ls) + z) \<longrightarrow>
       qs_ok (qs_left m ls (qs_right m (Suc (width ls) + z) rs Q)) (N - segs m (Suc (width ls0)) X)"
proof -
  obtain r g rs1 where rs: "rs = (r, g) # rs1" using assms(1) by (cases rs) auto
  define R where "R = (if g then [(r, g)] else [])"
  define rs0 where "rs0 = (if g then rs1 else rs)"
  have r: "rs = R @ rs0" "absorb_right z rs = (z + width R, rs0)" "\<And>x. x \<in> set R \<Longrightarrow> snd x"
    by (simp_all add: rs R_def rs0_def absorb_right_def split: if_splits)
  have qr: "qs_ok (qs_right m k rs Q) (N - segs m k R)"
    if "qs_ok Q N" "\<And>b v w. (b, v, True) \<in> N \<Longrightarrow> (b, w, True) \<in> N \<Longrightarrow> w = v" "segs m k R \<subseteq> N" for m k Q N
  proof (cases g)
    case True
    then show ?thesis using qs_ok_remove[OF that(1), of "node_at m k" r] that(2,3) by (simp add: rs R_def qs_right_def)
  qed (use that in \<open>simp add: rs R_def qs_right_def\<close>)
  define Lf where "Lf = (if ends_free ls then [last ls] else [])"
  define ls0 where "ls0 = (if ends_free ls then butlast ls else ls)"
  have l: "ls = ls0 @ Lf" "absorb_left ls y = (ls0, width Lf + y)" "\<And>x. x \<in> set Lf \<Longrightarrow> snd x \<and> 0 < fst x" for y
    using assms(3) by (auto simp: Lf_def ls0_def absorb_left_def ends_free_def last_size_def)
  have ql: "qs_ok (qs_left m ls Q) (N - segs m (Suc (width ls0)) Lf)"
    if "qs_ok Q N" "\<And>b v w. (b, v, True) \<in> N \<Longrightarrow> (b, w, True) \<in> N \<Longrightarrow> w = v" "segs m (Suc (width ls0)) Lf \<subseteq> N" for m Q N
  proof (cases "ends_free ls")
    case True
    then have "last ls = (last_size ls, True)" by (cases "last ls") (auto simp: ends_free_def last_size_def)
    then have s: "segs m (Suc (width ls0)) Lf = {(node_at m (Suc (width (butlast ls))), last_size ls, True)}"
      using True by (simp add: Lf_def ls0_def)
    have "qs_ok (qs_remove (node_at m (Suc (width (butlast ls)))) (last_size ls) Q) (N - segs m (Suc (width ls0)) Lf)"
      unfolding s by (rule qs_ok_remove[OF that(1)]) (use that(2,3) s in blast)+
    then show ?thesis using True by (simp add: qs_left_def)
  qed (use that in \<open>simp add: qs_left_def Lf_def\<close>)
  define X where "X = Lf @ [(z, False)] @ R"
  have free: "segs m k Y \<subseteq> {(b, w, f). f}" if "\<forall>x \<in> set Y. snd x" for m k Y
    using that by (induction Y arbitrary: k) auto
  have sx: "segs m (Suc (width ls0)) X = segs m (Suc (width ls0)) Lf \<union> {(node_at m (Suc (width ls)), z, False)} \<union> segs m (Suc (width ls) + z) R" for m
    by (simp add: X_def segs_append l(1) add.assoc insert_commute)
  show thesis
  proof (rule that[of ls0 X rs0 "hd X"])
    show "ls @ (z, False) # rs = ls0 @ X @ rs0" using l(1) r(1) by (simp add: X_def)
    show "absorb_left ls (fst (absorb_right z rs)) = (ls0, width X)" by (simp add: r(2) l(2) X_def)
    then show "merged ls z rs = ls0 @ [(width X, True)] @ rs0" by (simp add: merged_def r(2))
    show "X \<noteq> []" by (simp add: X_def)
    have "0 < fst x" if "x \<in> set R" for x using that r(1,3) assms(4) by simp
    then show "\<forall>x \<in> set X. 0 < fst x" using l(3) assms(2) by (auto simp: X_def)
    show "width ls0 \<le> width ls" by (simp add: l(1))
    show "\<forall>m c w. (c, w, False) \<in> segs m (Suc (width ls0)) X \<longrightarrow> (c, w) = (node_at m (Suc (width ls)), z)"
    proof (intro allI impI)
      fix m c w assume "(c, w, False) \<in> segs m (Suc (width ls0)) X"
      moreover have "(c, w, False) \<notin> segs m k Lf" "(c, w, False) \<notin> segs m k R" for k
        using free[of Lf m k] free[of R m k] l(3) r(3) by auto
      ultimately show "(c, w) = (node_at m (Suc (width ls)), z)" unfolding sx by simp
    qed
    show "\<forall>m Q N. qs_ok Q N \<longrightarrow> (\<forall>b v w. (b, v, True) \<in> N \<longrightarrow> (b, w, True) \<in> N \<longrightarrow> w = v) \<longrightarrow> segs m (Suc (width ls0)) X \<subseteq> N \<longrightarrow>
       node_at m (Suc (width ls0)) \<noteq> node_at m (Suc (width ls) + z) \<longrightarrow>
       qs_ok (qs_left m ls (qs_right m (Suc (width ls) + z) rs Q)) (N - segs m (Suc (width ls0)) X)"
    proof (intro allI impI)
      fix m Q N
      let ?l = "segs m (Suc (width ls0)) Lf" and ?r = "segs m (Suc (width ls) + z) R"
      assume Q: "qs_ok Q N" and u: "\<forall>b v w. (b, v, True) \<in> N \<longrightarrow> (b, w, True) \<in> N \<longrightarrow> w = v"
        and X: "segs m (Suc (width ls0)) X \<subseteq> N" and ne: "node_at m (Suc (width ls0)) \<noteq> node_at m (Suc (width ls) + z)"
      have sub: "?l \<subseteq> N" "?r \<subseteq> N" using X unfolding sx by auto
      have "qs_ok (qs_right m (Suc (width ls) + z) rs Q) (N - ?r)" by (rule qr[OF Q]) (use u sub in blast)+
      moreover have "?l \<subseteq> N - ?r" using sub(1) ne by (auto simp: Lf_def R_def split: if_splits)
      ultimately have "qs_ok (qs_left m ls (qs_right m (Suc (width ls) + z) rs Q)) (N - ?r - ?l)" by (intro ql) (use u in blast)+
      then show "qs_ok (qs_left m ls (qs_right m (Suc (width ls) + z) rs Q)) (N - segs m (Suc (width ls0)) X)"
        by (rule qs_ok_cong) (auto simp: sx)
    qed
  qed simp
qed

lemma heap_merge:
  assumes ok: "heap_ok h sl Bs L G" and b: "(b, z, False) \<in> nodes Bs" "b \<notin># fast_blocks (bh_fast h)" "b + 16 \<notin> fst ` L"
  shows "\<exists>sl' Bs'. heap_ok (merge_node (b + 16) h) sl' Bs' L G"
proof -
  note ok' = heap_okD[OF ok]
  obtain m ls rs where mem: "(m, ls @ (z, False) # rs) \<in> set Bs" and bm: "b = node_at m (Suc (width ls))" and z: "0 < z"
    using nodesE[OF b(1)] by blast
  let ?ns = "ls @ (z, False) # rs" and ?h = "merge_node (b + 16) h" and ?N = "nodes Bs"
  let ?n = "Suc (width ?ns)" and ?qs = "qs_left m ls (qs_right m (Suc (width ls) + z) rs (bigs h))"
  have B: "env_ok h m sl ?n" "tiled (set sl) h m 1 False 0 ?ns" "shape ?ns" "m AND 4095 = 0"
    using ok'(2)[OF mem] by (simp_all add: block_ok_def)
  have rs: "rs \<noteq> []" using B(3) z by (auto simp: shape_def)
  obtain ls0 X rs0 x where p: "?ns = ls0 @ X @ rs0" "merged ls z rs = ls0 @ [(width X, True)] @ rs0"
    "absorb_left ls (fst (absorb_right z rs)) = (ls0, width X)" "hd X = x" "X \<noteq> []" "\<forall>x \<in> set X. 0 < fst x" "width ls0 \<le> width ls"
    "\<forall>m c w. (c, w, False) \<in> segs m (Suc (width ls0)) X \<longrightarrow> (c, w) = (node_at m (Suc (width ls)), z)"
    "\<forall>m Q N. qs_ok Q N \<longrightarrow> (\<forall>b v w. (b, v, True) \<in> N \<longrightarrow> (b, w, True) \<in> N \<longrightarrow> w = v) \<longrightarrow> segs m (Suc (width ls0)) X \<subseteq> N \<longrightarrow>
       node_at m (Suc (width ls0)) \<noteq> node_at m (Suc (width ls) + z) \<longrightarrow>
       qs_ok (qs_left m ls (qs_right m (Suc (width ls) + z) rs Q)) (N - segs m (Suc (width ls0)) X)"
  proof (rule merge_parts[OF rs z shape_pos[OF B(3)]])
    show "\<forall>x \<in> set rs. snd x \<longrightarrow> 0 < fst x" using shape_free_pos[OF B(3)] by auto
  qed
  let ?c = "node_at m (Suc (width ls0))" and ?X = "segs m (Suc (width ls0)) X"
  have mem': "(m, ls0 @ X @ rs0) \<in> set Bs" using mem unfolding p(1) .
  have XN: "?X \<subseteq> ?N"
  proof
    fix y assume y: "y \<in> ?X"
    obtain c w f where c: "y = (c, w, f)" by (cases y) auto
    then have "0 < w" using y p(6) segs_split[of c "(w, f)" m "Suc (width ls0)" X] by auto
    moreover have "y \<in> segs m 1 (ls0 @ X @ rs0)" using y by (simp add: segs_append)
    ultimately show "y \<in> ?N" using mem' unfolding c nodes_def by blast
  qed
  have "?c \<noteq> node_at m (Suc (width ls) + z)"
  proof -
    have lim: "16 * ?n < 2 ^ 32" using B(1) by (simp add: env_ok_def)
    show ?thesis using near_inj[of "Suc (width ls0)" ?n "Suc (width ls) + z" m] lim z p(7) by simp
  qed
  then have q: "qs_ok ?qs (?N - ?X)" using p(9) ok'(5) XN nodes_unique[OF ok'(3)] by blast
  have own: "owned_ok (fast_blocks (bh_fast h)) L (?N - ?X)"
    by (rule owned_ok_mono[OF owned_without[OF ok'(7) b(2,3), of z]]) (use p(8) bm in auto)
  note cases = merge_node_cases[OF B(1,2,3) z order_refl B(4), folded bm]
  show ?thesis
  proof (rule cases)
    fix sl' ls1 z2 rs1
    assume k: "absorb_left ls (fst (absorb_right z rs)) = (ls1, z2)"
      "env_ok ?h m sl' ?n" "tiled (set sl') ?h m 1 False 0 (merged ls z rs)" "outside_ok m ?n sl h sl' ?h" "bh_fast ?h = bh_fast h"
      "bigs ?h = qs_insert (node_at m (Suc (width ls1))) z2 ?qs" "bh_returned ?h = bh_returned h" "bh_a_alloced ?h = bh_a_alloced h"
    have e: "ls1 = ls0" "z2 = width X" using k(1) p(3) by simp_all
    let ?Bs = "replaced (m, ?ns) (Some (ls0 @ [(width X, True)] @ rs0)) Bs"
    have x0: "0 < fst x" using p(4-6) by (cases X) auto
    have wX: "0 < width X" using p(4-6) by (cases X) auto
    have keep: "y \<in> nodes ?Bs" if "y \<in> ?N - ?X" for y
      using nodes_swap[of y Bs m ls0 X "[(width X, True)]" rs0] that by (simp add: p(1))
    have new: "(?c, width X, True) \<in> nodes ?Bs"
      using nodes_swap_new[of ?c "width X" True m ls0 "[(width X, True)]" X rs0 Bs] wX by (simp add: p(1))
    have "(?c, r, True) \<notin> ?N - ?X" for r
    proof
      assume r: "(?c, r, True) \<in> ?N - ?X"
      have hX: "(?c, x) \<in> ?X" using p(4,5) by (cases X) auto
      then have "(?c, fst x, snd x) \<in> segs m 1 (ls0 @ X @ rs0)" by (simp add: segs_append)
      then have "(?c, fst x, snd x) \<in> ?N" using mem' x0 unfolding nodes_def by blast
      then have "(r, True) = x" using nodes_unique[OF ok'(3), of ?c "fst x" "snd x" r True] r by (cases x) auto
      then show False using r hX by simp
    qed
    from qs_ok_insert[OF q this wX] have "qs_ok (bigs ?h) (insert (?c, width X, True) (?N - ?X))" unfolding k(6) e .
    moreover have "nodes ?Bs = insert (?c, width X, True) (?N - ?X)"
      unfolding p(1) by (rule nodes_exact_one[OF ok'(3) mem' wX])
    ultimately have "qs_ok (bigs ?h) (nodes ?Bs)" by (simp only:)
    moreover have "owned_ok (fast_blocks (bh_fast ?h)) L (nodes ?Bs)" unfolding k(5) by (rule owned_ok_mono[OF own]) (use keep in auto)
    moreover have "block_ok ?h sl' (m, merged ls z rs)" "width (merged ls z rs) = width ?ns"
      using merged_shape[OF B(3) z] k(2,3) B(4) by (simp_all add: block_ok_def)
    ultimately have "heap_ok ?h sl' ?Bs L G"
      using k(2) ok'(6) unfolding p(2) by (intro heap_change[OF ok mem k(4)]) (auto simp: env_ok_def k(5,7,8))
    then show ?thesis by blast
  next
    fix sl' w
    assume rt: "bh_returned ?h = bh_returned h @ [(m, word_of_nat (16 * w + 32))]"
    assume k: "merged ls z rs = [(w, True), (0, False)]" "env_ok ?h m sl' ?n" "\<And>i. 1 \<le> i \<Longrightarrow> i \<le> Suc w \<Longrightarrow> node_at m i \<notin> set sl'"
      "outside_ok m ?n sl h sl' ?h" "bh_fast ?h = bh_fast h" "bigs ?h = ?qs" "bh_a_alloced ?h \<le> bh_a_alloced h"
    have "ls0 @ (width X, True) # rs0 = [] @ (w, True) # [(0, False)]" using k(1) unfolding p(2) by simp
    then have e: "ls0 = []" "rs0 = [(0, False)]" "w = width X"
      by (cases ls0 rule: list.exhaust[case_product list.exhaust[of "tl ls0"]]; simp add: Cons_eq_append_conv)+
    let ?Bs = "replaced (m, ?ns) None Bs"
    have keep: "y \<in> nodes ?Bs" if "y \<in> ?N - ?X" for y
    proof (rule nodes_replaced)
      show "y \<in> ?N" using that by simp
      show "y \<notin> segs m 1 ?ns" unfolding p(1) e using that by (auto simp: segs_append e nodes_def)
    qed
    have "nodes ?Bs = ?N - ?X"
      using nodes_gone[OF ok'(3) mem'] unfolding p(1) e by (auto simp: segs_append e nodes_def)
    then have "qs_ok (bigs ?h) (nodes ?Bs)" unfolding k(6) using q by (simp only:)
    moreover have "owned_ok (fast_blocks (bh_fast ?h)) L (nodes ?Bs)" unfolding k(5) by (rule owned_ok_mono[OF own]) (use keep in auto)
    moreover have w: "width ?ns = w" unfolding p(1) e by simp
    then have "set sl' \<inter> inner m ?n = {}" using k(3) by (auto simp: inner_def)
    moreover have "bh_returned ?h = bh_returned h @ [region (m, ?ns)]" unfolding rt region_def snd_conv w by simp
    ultimately have "heap_ok ?h sl' ?Bs L G"
      using k(2,7) ok'(6) by (intro heap_change[OF ok mem k(4)]) (simp_all add: env_ok_def k(5))
    then show ?thesis by blast
  qed
qed

section \<open>Emptying the fast lists\<close>

lemma owned_ok_less: "owned_ok F L N \<Longrightarrow> L' \<subseteq> L \<Longrightarrow> owned_ok F L' N"
  unfolding owned_ok_def by (blast intro: inj_on_subset)

lemma heap_ok_less: "heap_ok h sl Bs L G \<Longrightarrow> L' \<subseteq> L \<Longrightarrow> heap_ok h sl Bs L' G"
  unfolding heap_ok_def using owned_ok_less by blast

text \<open>Nodes that wait to be merged count as objects.\<close>

lemma merge_waiting:
  assumes "heap_ok h sl Bs (L \<union> W) G" "distinct ps" "fst ` W = set ps" "fst ` L \<inter> set ps = {}"
  shows "\<exists>sl' Bs'. heap_ok (fold merge_node ps h) sl' Bs' L G"
  using assms
proof (induction ps arbitrary: h sl Bs W)
  case (Cons p ps)
  let ?W = "{x \<in> W. fst x \<noteq> p}"
  note ow = heap_okD(7)[OF Cons.prems(1)]
  have "p \<in> fst ` W" unfolding Cons.prems(3) by simp
  then obtain z where "(p, z) \<in> W" by force
  then have b: "p - 16 \<notin># fast_blocks (bh_fast h)" "(p - 16, z, False) \<in> nodes Bs" using ow unfolding owned_ok_def by blast+
  have "heap_ok h sl Bs (L \<union> ?W) G" by (rule heap_ok_less[OF Cons.prems(1)]) auto
  moreover have "p - 16 + 16 \<notin> fst ` (L \<union> ?W)" using Cons.prems(4) by auto
  ultimately obtain sl' Bs' where "heap_ok (merge_node (p - 16 + 16) h) sl' Bs' (L \<union> ?W) G"
    using heap_merge[OF _ b(2,1)] by blast
  then have "heap_ok (merge_node p h) sl' Bs' (L \<union> ?W) G" by simp
  moreover have "fst ` ?W = set ps" "fst ` L \<inter> set ps = {}" using Cons.prems(2-4) by auto
  ultimately show ?case using Cons.IH Cons.prems(2) by simp
qed auto

lemma clear_list_ok:
  assumes ok: "heap_ok h sl Bs L G" and n: "n < 64"
  shows "\<exists>sl' Bs'. heap_ok (clear_list n h) sl' Bs' L G"
proof -
  note ok' = heap_okD[OF ok]
  let ?fa = "bh_fast h" and ?ps = "fa_fl (bh_fast h) ! n"
  let ?fa1 = "?fa\<lparr>fa_fl := (fa_fl ?fa)[n := []]\<rparr>"
  let ?h1 = "h\<lparr>bh_fast := ?fa1\<rparr>"
  have len: "n < length (fa_fl ?fa)" using ok'(6) n by (simp add: fast_ok_def)
  have F: "fast_blocks ?fa = fast_blocks ?fa1 + mset ?ps"
    using mset_concat_update[OF len, of "[]"] by (simp add: fast_blocks_def)
  have ow: "\<And>b. count (fast_blocks ?fa) b \<le> 1" "\<And>b. b \<in># fast_blocks ?fa \<Longrightarrow> \<exists>z. (b, z, False) \<in> nodes Bs" "inj_on fst L"
    "\<And>p a. (p, a) \<in> L \<Longrightarrow> p - 16 \<notin># fast_blocks ?fa \<and> (p - 16, a, False) \<in> nodes Bs"
    using ok'(7) unfolding owned_ok_def by auto
  have d: "distinct ?ps"
  proof -
    have "count (mset ?ps) b \<le> 1" for b using ow(1)[of b] unfolding F by simp
    then show ?thesis by (simp add: distinct_count_atmost_1 le_Suc_eq count_eq_zero_iff)
  qed
  have out: "b \<notin># fast_blocks ?fa1" if "b \<in> set ?ps" for b
  proof -
    have "count (mset ?ps) b \<noteq> 0" using that by simp
    moreover have "count (fast_blocks ?fa1) b + count (mset ?ps) b \<le> 1" using ow(1)[of b] unfolding F by simp
    ultimately have "count (fast_blocks ?fa1) b = 0" by linarith
    then show ?thesis by (simp add: count_eq_zero_iff)
  qed
  define W where "W = {(b + 16, z) |b z. b \<in> set ?ps \<and> (b, z, False) \<in> nodes Bs}"
  have W: "fst ` W = (\<lambda>b. b + 16) ` set ?ps" using ow(2) unfolding F W_def by force
  have dis: "fst ` L \<inter> (\<lambda>b. b + 16) ` set ?ps = {}" using ow(4) unfolding F by fastforce
  have "inj_on fst W" using nodes_unique[OF ok'(3)] unfolding W_def inj_on_def by fastforce
  then have inj: "inj_on fst (L \<union> W)" unfolding inj_on_Un using ow(3) dis W by blast
  have "count (fast_blocks ?fa1) b \<le> 1" for b using ow(1)[of b] unfolding F by simp
  then have "owned_ok (fast_blocks ?fa1) (L \<union> W) (nodes Bs)"
    using ow(2,4) out inj unfolding owned_ok_def F W_def by auto
  moreover have "fast_ok ?fa1"
  proof -
    have "fa_fl ?fa1 ! i \<noteq> [] \<Longrightarrow> fa_fl ?fa ! i \<noteq> []" for i using len by (cases "i = n") auto
    then show ?thesis using ok'(6) by (simp add: fast_ok_def)
  qed
  ultimately have "heap_ok ?h1 sl Bs (L \<union> W) G" by (intro heap_ok_frame[OF ok]) (use ok'(5) in simp_all)
  from merge_waiting[OF this, of "map (\<lambda>b. b + 16) ?ps"] show ?thesis
    using d W dis by (simp add: clear_list_def distinct_map inj_on_def fold_map comp_def)
qed

lemma clear_fast_ok:
  assumes "heap_ok h sl Bs L G"
  shows "\<exists>h' sl' Bs'. clear_fast h = Inr h' \<and> heap_ok h' sl' Bs' L G \<and> fast_blocks (bh_fast h') = {#}"
  using assms
proof (induction h arbitrary: sl Bs rule: clear_fast.induct)
  case (1 h)
  let ?mask = "fa_mask (bh_fast h)"
  note ok = heap_okD[OF "1.prems"]
  show ?case
  proof (cases "?mask = 0")
    case True
    have "fa_fl (bh_fast h) ! i = []" if "i < 64" for i using ok(6) that unfolding fast_ok_def True by auto
    then have "concat (fa_fl (bh_fast h)) = []" using ok(6) by (auto simp: fast_ok_def in_set_conv_nth)
    then have "fast_blocks (bh_fast h) = {#}" by (simp add: fast_blocks_def)
    then show ?thesis using "1.prems" True by (subst clear_fast.simps) auto
  next
    case False
    then obtain n where n: "ffsq ?mask = Inr n" "lowest ?mask n" using ffsq_lowest by blast
    then have n64: "n < 64" by (simp add: lowest_def)
    let ?h1 = "clear_list n h"
    let ?h2 = "?h1\<lparr>bh_fast := (bh_fast ?h1)\<lparr>fa_mask := fa_mask (bh_fast ?h1) AND NOT (?mask AND - ?mask)\<rparr>\<rparr>"
    obtain sl1 Bs1 where ok1: "heap_ok ?h1 sl1 Bs1 L G" using clear_list_ok[OF "1.prems" n64] by blast
    note o1 = heap_okD[OF ok1]
    have f1: "bh_fast ?h1 = (bh_fast h)\<lparr>fa_fl := (fa_fl (bh_fast h))[n := []]\<rparr>" by (rule clear_list_fast)
    have bit: "bit (?mask AND NOT (?mask AND - ?mask)) k \<longleftrightarrow> bit ?mask k \<and> k \<noteq> n" if "k < 64" for k
      unfolding clear_bottom bit_and_iff using clear_lowest[OF n(2) that] by blast
    have "fast_ok (bh_fast ?h2)"
    proof -
      have "bit (fa_mask (bh_fast ?h2)) k" if "k < 64" "fa_fl (bh_fast ?h2) ! k \<noteq> []" for k
      proof -
        have "k \<noteq> n" "fa_fl (bh_fast h) ! k \<noteq> []" using that ok(6) n64 by (auto simp: f1 fast_ok_def nth_list_update split: if_splits)
        then have "bit (?mask AND NOT (?mask AND - ?mask)) k" using bit[OF that(1)] ok(6) that(1) by (simp only: fast_ok_def) blast
        moreover have "fa_mask (bh_fast (?h1\<lparr>bh_fast := (bh_fast ?h1)\<lparr>fa_mask := x\<rparr>\<rparr>)) = x" "fa_mask (bh_fast ?h1) = ?mask" for x
          by (simp_all add: f1)
        ultimately show ?thesis by (simp only:)
      qed
      then show ?thesis using o1(6) by (simp add: fast_ok_def)
    qed
    moreover have "fast_blocks (bh_fast ?h2) = fast_blocks (bh_fast ?h1)" by (simp add: fast_blocks_def)
    ultimately have ok2: "heap_ok ?h2 sl1 Bs1 L G" by (intro heap_ok_frame[OF ok1]) (use o1 in simp_all)
    have "clear_fast h = clear_fast ?h2" using n(1) False by (subst clear_fast.simps) (simp only: Let_def bindE_def sum.case if_False)
    then show ?thesis using "1.IH"[OF refl False n(1) refl ok2] by simp
  qed
qed

end
