(* ===== verification/LA_Btree.thy ===== *)
theory LA_Btree
  imports Huron_Prelude
begin

text \<open>
  The B-tree in which the allocator keeps its free nodes of more than 1008 bytes (\<^verbatim>\<open>src/others/tmi/src/ll_alloc.c\<close>).
  The leaves are the free nodes themselves. An inner node has up to 16 daughters, each with the largest size below
  it; these sizes are kept in a linked list inside the node, which is a list here. A node knows its parent: an
  operation that works upwards from a node gets the nodes above it as frames, nearest first. The leaves from left to
  right are sorted by size, and an operation inserts, finds or removes one of them.
\<close>

section \<open>The tree\<close>

datatype btree = BLeaf u64 | BNode "(u32 \<times> btree) list"

type_synonym kids = "(u32 \<times> btree) list"

text \<open>A frame has the daughters left of the one below, the size stored for it, and the daughters right of it.\<close>

type_synonym frame = "kids \<times> u32 \<times> kids"

text \<open>The root is part of the thread; \<open>b_cnt\<close> counts the spare inner nodes on \<^verbatim>\<open>btree_freenode\<close>.\<close>

record btree_top =
  bt_kids :: kids
  b_hgt :: nat
  b_cnt :: nat

abbreviation BT_MAX :: nat where "BT_MAX \<equiv> 16"

fun zip_up :: "frame list \<Rightarrow> kids \<Rightarrow> kids" where
  "zip_up [] cs = cs"
| "zip_up ((ls, k, rs) # fs) cs = zip_up fs (ls @ (k, BNode cs) # rs)"

fun btree_update_psize :: "u32 \<Rightarrow> frame list \<Rightarrow> frame list" where
  "btree_update_psize s [] = []"
| "btree_update_psize s ((ls, k, rs) # fs) = (ls, s, rs) # (if rs = [] then btree_update_psize s fs else fs)"

lemma psize_length [simp]: "length (btree_update_psize s fs) = length fs"
  by (induction s fs rule: btree_update_psize.induct) simp_all

lemma psize_next: "(if P then btree_update_psize s fs else fs) = f # gs \<Longrightarrow> length gs < length fs"
  by (metis length_Cons lessI psize_length)

section \<open>Searching\<close>

lemma daughter_size: "(k, BNode ds) \<in> set cs \<Longrightarrow> size_list (\<lambda>p. size (snd p)) ds < size_list (\<lambda>p. size (snd p)) cs"
proof (induction cs)
  case (Cons c cs)
  have "size_list (\<lambda>p. size (snd p)) es \<le> size_list (size_prod (\<lambda>x. 0) size) es" for es :: kids
    by (induction es) auto
  from this[of ds] show ?case using Cons by auto
qed simp

lemma searched_size [termination_simp]:
  "dropWhile P cs = (k, BNode ds) # rs \<Longrightarrow> size_list (\<lambda>p. size (snd p)) ds < size_list (\<lambda>p. size (snd p)) cs"
  by (rule daughter_size[of k]) (metis list.set_intros(1) set_dropWhileD)

lemma last_size [termination_simp]:
  "cs \<noteq> [] \<Longrightarrow> (k, BNode ds) = last cs \<Longrightarrow> size_list (\<lambda>p. size (snd p)) ds < size_list (\<lambda>p. size (snd p)) cs"
  by (rule daughter_size[of k]) (metis last_in_set)

text \<open>
  The first daughter that is large enough, level by level. The result is the node that the search ends in, with its
  place; it is the root when that has no daughter that is large enough.
\<close>

fun btree_search :: "u32 \<Rightarrow> frame list \<Rightarrow> kids \<Rightarrow> (frame list \<times> kids \<times> u32 \<times> btree \<times> kids) option" where
  "btree_search s fs cs =
     (case dropWhile (\<lambda>c. fst c < s) cs of
        [] \<Rightarrow> (case fs of [] \<Rightarrow> None | (ls, k, rs) # gs \<Rightarrow> Some (gs, ls, k, BNode cs, rs))
      | (k, BLeaf a) # rs \<Rightarrow> Some (fs, takeWhile (\<lambda>c. fst c < s) cs, k, BLeaf a, rs)
      | (k, BNode ds) # rs \<Rightarrow> btree_search s ((takeWhile (\<lambda>c. fst c < s) cs, k, rs) # fs) ds)"

declare btree_search.simps [simp del]

text \<open>The place behind the last leaf.\<close>

fun btree_end :: "frame list \<Rightarrow> kids \<Rightarrow> frame list \<times> kids \<times> nat" where
  "btree_end fs cs =
     (if cs = [] then (fs, cs, 0)
      else case last cs of (k, BLeaf a) \<Rightarrow> (fs, cs, length cs)
           | (k, BNode ds) \<Rightarrow> if ds = [] then (fs, cs, length cs) else btree_end ((butlast cs, k, []) # fs) ds)"

declare btree_end.simps [simp del]

definition btree_find :: "u32 \<Rightarrow> kids \<Rightarrow> frame list \<times> kids \<times> nat" where
  "btree_find s cs =
     (case btree_search s [] cs of
        Some (fs, ls, k, b, rs) \<Rightarrow> (fs, ls @ (k, b) # rs, length ls)
      | None \<Rightarrow> btree_end [] cs)"

section \<open>Insertion\<close>

text \<open>
  A full node is cut in two: the lower half of its daughters moves to a spare node, and the new daughter goes where
  it belongs. The result is what the spare node gets, what remains, and whether the new daughter is in the former.
\<close>

definition btree_cut :: "kids \<Rightarrow> nat \<Rightarrow> u32 \<times> btree \<Rightarrow> kids \<times> kids \<times> bool" where
  "btree_cut cs loc c =
     (if loc < BT_MAX div 2 then (take loc cs @ c # take (BT_MAX div 2 - 1 - loc) (drop loc cs), drop (BT_MAX div 2 - 1) cs, True)
      else if loc = BT_MAX div 2 then (take loc cs @ [c], drop loc cs, True)
      else (take (BT_MAX div 2) cs, drop (BT_MAX div 2) cs, False))"

function btree_node_insert :: "frame list \<Rightarrow> kids \<Rightarrow> nat \<Rightarrow> u32 \<Rightarrow> btree \<Rightarrow> nat \<Rightarrow> nat \<Rightarrow> btree_top result"
  and btree_node_insert_aux :: "frame list \<Rightarrow> kids \<Rightarrow> nat \<Rightarrow> u32 \<Rightarrow> btree \<Rightarrow> nat \<Rightarrow> nat \<Rightarrow> btree_top result" where
  "btree_node_insert fs cs loc s node hgt cnt =
     (if length cs = BT_MAX then btree_node_insert_aux fs cs loc s node hgt cnt
      else Inr \<lparr>bt_kids = zip_up (if loc = length cs then btree_update_psize s fs else fs) (take loc cs @ (s, node) # drop loc cs),
                b_hgt = hgt, b_cnt = cnt\<rparr>)"
| "btree_node_insert_aux fs cs loc s node hgt cnt =
     bindE (guardE (0 < cnt) (Undefined ''btree_freenode'')) (\<lambda>_.
       let (tmp, rest, inserted) = btree_cut cs loc (s, node);
           n = loc - BT_MAX div 2;
           b = (if inserted then rest else take n rest @ (s, node) # drop n rest);
           tsize = fst (last tmp)
       in case (if \<not> inserted \<and> loc = length cs then btree_update_psize s fs else fs) of
            (ls, k, rs) # gs \<Rightarrow> btree_node_insert gs (ls @ (k, BNode b) # rs) (length ls) tsize (BNode tmp) hgt (cnt - 1)
          | [] \<Rightarrow> bindE (guardE (1 < cnt) (Undefined ''btree_freenode'')) (\<lambda>_.
              Inr \<lparr>bt_kids = [(tsize, BNode tmp), (fst (last b), BNode b)], b_hgt = hgt + 1, b_cnt = cnt - 2\<rparr>))"
  by pat_completeness auto
termination
  by (relation "measure (case_sum (\<lambda>(fs, _). 2 * length fs + 1) (\<lambda>(fs, _). 2 * length fs))") (auto dest!: psize_next)

declare btree_node_insert.simps [simp del] btree_node_insert_aux.simps [simp del]

text \<open>After an insertion the spare nodes are filled up again, from a slab.\<close>

definition btree_insert :: "u64 \<Rightarrow> u64 \<Rightarrow> btree_top \<Rightarrow> btree_top result" where
  "btree_insert n sz t =
     (let s = ucast (sz * 16); (fs, cs, ip) = btree_find s (bt_kids t)
      in bindE (btree_node_insert fs cs ip s (BLeaf n) (b_hgt t) (b_cnt t)) (\<lambda>t1.
           Inr (t1\<lparr>b_cnt := max (b_cnt t1) (b_hgt t1)\<rparr>)))"

section \<open>Deletion\<close>

text \<open>
  A node that is left with three daughters takes some from a neighbour or becomes one with it. In the frame \<open>fs\<close> of
  the parent, \<open>xs\<close> are the daughters left of the two and \<open>ys\<close> those right of them.
\<close>

definition btree_spare :: "nat \<Rightarrow> nat \<Rightarrow> nat" where
  "btree_spare hgt cnt = (if hgt < cnt then cnt - 1 else cnt)"

function btree_node_del :: "frame list \<Rightarrow> kids \<Rightarrow> kids \<Rightarrow> nat \<Rightarrow> nat \<Rightarrow> btree_top result"
  and btree_node_del_aux :: "frame list \<Rightarrow> frame \<Rightarrow> kids \<Rightarrow> nat \<Rightarrow> nat \<Rightarrow> btree_top result"
  and btree_merge_aux :: "frame list \<Rightarrow> kids \<Rightarrow> u32 \<times> btree \<Rightarrow> u32 \<times> btree \<Rightarrow> kids \<Rightarrow> nat \<Rightarrow> nat \<Rightarrow> btree_top result" where
  "btree_node_del fs ls rs hgt cnt =
     (if fs = [] then Inr \<lparr>bt_kids = ls @ rs, b_hgt = hgt, b_cnt = cnt\<rparr>
      else bindE (guardE (rs \<noteq> [] \<or> ls \<noteq> []) (Undefined ''bsize'')) (\<lambda>_.
        let gs = (if rs = [] then btree_update_psize (fst (last ls)) fs else fs)
        in if length (ls @ rs) > 3 then Inr \<lparr>bt_kids = zip_up gs (ls @ rs), b_hgt = hgt, b_cnt = cnt\<rparr>
           else btree_node_del_aux (tl gs) (hd gs) (ls @ rs) hgt cnt))"
| "btree_node_del_aux fs f cs hgt cnt =
     (case f of (ls, k, rs) \<Rightarrow>
        (case rs of r # ys \<Rightarrow> btree_merge_aux fs ls (k, BNode cs) r ys hgt cnt
         | [] \<Rightarrow> if ls \<noteq> [] then btree_merge_aux fs (butlast ls) (last ls) (k, BNode cs) [] hgt cnt
                 else Inr \<lparr>bt_kids = zip_up fs cs, b_hgt = hgt - 1, b_cnt = btree_spare (hgt - 1) cnt\<rparr>))"
| "btree_merge_aux fs xs l r ys hgt cnt =
     (case (l, r) of
        ((kl, BNode L), (kr, BNode R)) \<Rightarrow>
          if length R + length L > BT_MAX then
            let (L', R') = (if length R > length L then (L @ take (length R div 3) R, drop (length R div 3) R)
                            else (take (length L - length L div 3) L, drop (length L - length L div 3) L @ R))
            in bindE (guardE (L' \<noteq> []) (Undefined ''bsize'')) (\<lambda>_.
                 Inr \<lparr>bt_kids = zip_up fs (xs @ (fst (last L'), BNode L') # (kr, BNode R') # ys), b_hgt = hgt, b_cnt = cnt\<rparr>)
          else btree_node_del fs xs ((kr, BNode (L @ R)) # ys) hgt cnt
      | _ \<Rightarrow> Inl (Undefined ''btree leaf''))"
  by pat_completeness auto
termination
  by (relation "measure (case_sum (\<lambda>(fs, _). 3 * length fs) (case_sum (\<lambda>(fs, _). 3 * length fs + 2) (\<lambda>(fs, _). 3 * length fs + 1)))")
    (auto simp: neq_Nil_conv)

declare btree_node_del.simps [simp del] btree_node_del_aux.simps [simp del] btree_merge_aux.simps [simp del]

definition btree_remove :: "u32 \<Rightarrow> btree_top \<Rightarrow> (btree option \<times> btree_top) result" where
  "btree_remove s t =
     (case btree_search s [] (bt_kids t) of
        None \<Rightarrow> Inr (None, t)
      | Some (fs, ls, k, b, rs) \<Rightarrow> bindE (btree_node_del fs ls rs (b_hgt t) (b_cnt t)) (\<lambda>t1. Inr (Some b, t1)))"

text \<open>Where a leaf is, as its parent pointer and its index in the parent say.\<close>

fun leaf_in :: "u64 \<Rightarrow> btree \<Rightarrow> bool" where
  "leaf_in a (BLeaf b) \<longleftrightarrow> b = a"
| "leaf_in a (BNode cs) \<longleftrightarrow> (\<exists>c \<in> set cs. leaf_in a (snd c))"

fun leaf_place :: "u64 \<Rightarrow> frame list \<Rightarrow> kids \<Rightarrow> (frame list \<times> kids \<times> kids) option" where
  "leaf_place a fs cs =
     (case dropWhile (\<lambda>c. \<not> leaf_in a (snd c)) cs of
        [] \<Rightarrow> None
      | (k, BLeaf b) # rs \<Rightarrow> Some (fs, takeWhile (\<lambda>c. \<not> leaf_in a (snd c)) cs, rs)
      | (k, BNode ds) # rs \<Rightarrow> leaf_place a ((takeWhile (\<lambda>c. \<not> leaf_in a (snd c)) cs, k, rs) # fs) ds)"

declare leaf_place.simps [simp del]

definition btree_leaf_del :: "u64 \<Rightarrow> btree_top \<Rightarrow> btree_top result" where
  "btree_leaf_del a t =
     (case leaf_place a [] (bt_kids t) of
        None \<Rightarrow> Inl (Undefined ''parent'')
      | Some (fs, ls, rs) \<Rightarrow> btree_node_del fs ls rs (b_hgt t) (b_cnt t))"

section \<open>The leaves\<close>

fun leaves :: "u32 \<Rightarrow> btree \<Rightarrow> (u32 \<times> u64) list" where
  "leaves k (BLeaf a) = [(k, a)]"
| "leaves k (BNode cs) = concat (map (\<lambda>(k, c). leaves k c) cs)"

definition flat :: "kids \<Rightarrow> (u32 \<times> u64) list" where
  "flat cs = concat (map (\<lambda>(k, c). leaves k c) cs)"

lemma flat_simps [simp]:
  "flat [] = []" "flat (c # cs) = leaves (fst c) (snd c) @ flat cs" "flat (cs @ ds) = flat cs @ flat ds" "leaves k (BNode cs) = flat cs"
  by (simp_all add: flat_def split_beta)

declare leaves.simps(2) [simp del]

lemma flat_split: "flat (take n cs) @ flat (drop n cs) = flat cs"
  by (metis append_take_drop_id flat_simps(3))

text \<open>A daughter \<open>n\<close> levels above the leaves: its size is that of its last leaf, and its nodes have 4 to 16 daughters.\<close>

primrec level :: "nat \<Rightarrow> u32 \<times> btree \<Rightarrow> bool" where
  "level 0 c \<longleftrightarrow> (case snd c of BLeaf a \<Rightarrow> True | BNode ds \<Rightarrow> False)"
| "level (Suc n) c \<longleftrightarrow> (case snd c of BLeaf a \<Rightarrow> False
     | BNode ds \<Rightarrow> 4 \<le> length ds \<and> length ds \<le> BT_MAX \<and> fst c = fst (last ds) \<and> (\<forall>d \<in> set ds. level n d))"

declare level.simps [simp del]

lemma level_node: "level (Suc n) (k, BNode ds) \<longleftrightarrow> 4 \<le> length ds \<and> length ds \<le> BT_MAX \<and> k = fst (last ds) \<and> (\<forall>d \<in> set ds. level n d)"
  by (simp add: level.simps)

lemma level_SucE:
  assumes "level (Suc n) c"
  obtains ds where "c = (fst (last ds), BNode ds)" "4 \<le> length ds" "length ds \<le> BT_MAX" "\<forall>d \<in> set ds. level n d"
  using assms by (cases c; cases "snd c") (auto simp: level.simps)

fun fok :: "nat \<Rightarrow> frame list \<Rightarrow> bool" where
  "fok n [] \<longleftrightarrow> True"
| "fok n ((ls, k, rs) # fs) \<longleftrightarrow> (\<forall>c \<in> set ls \<union> set rs. level (Suc n) c) \<and> length ls + length rs < BT_MAX \<and>
     (fs \<noteq> [] \<longrightarrow> 3 \<le> length ls + length rs) \<and> fok (Suc n) fs"

fun keyed :: "u32 \<Rightarrow> frame list \<Rightarrow> bool" where
  "keyed s [] \<longleftrightarrow> True"
| "keyed s ((ls, k, rs) # fs) \<longleftrightarrow> k = s \<and> keyed (if rs = [] then s else fst (last rs)) fs"

fun lefts :: "frame list \<Rightarrow> (u32 \<times> u64) list" where
  "lefts [] = []"
| "lefts ((ls, k, rs) # fs) = lefts fs @ flat ls"

fun rights :: "frame list \<Rightarrow> (u32 \<times> u64) list" where
  "rights [] = []"
| "rights ((ls, k, rs) # fs) = flat rs @ rights fs"

text \<open>A node at height \<open>n\<close> below its frames.\<close>

definition placed :: "nat \<Rightarrow> frame list \<Rightarrow> kids \<Rightarrow> bool" where
  "placed n fs cs \<longleftrightarrow> (\<forall>c \<in> set cs. level n c) \<and> length cs \<le> BT_MAX \<and> fok n fs \<and>
     (fs \<noteq> [] \<longrightarrow> 4 \<le> length cs \<and> keyed (fst (last cs)) fs)"

lemma psize_keeps [simp]:
  "fok n (btree_update_psize s fs) = fok n fs" "lefts (btree_update_psize s fs) = lefts fs"
  "rights (btree_update_psize s fs) = rights fs" "btree_update_psize s fs = [] \<longleftrightarrow> fs = []"
proof -
  have e: "btree_update_psize s fs = [] \<longleftrightarrow> fs = []" for s fs by (metis length_0_conv psize_length)
  then show "btree_update_psize s fs = [] \<longleftrightarrow> fs = []" .
  show "fok n (btree_update_psize s fs) = fok n fs" "lefts (btree_update_psize s fs) = lefts fs"
    "rights (btree_update_psize s fs) = rights fs"
    by (induction s fs arbitrary: n rule: btree_update_psize.induct) (simp_all add: e)
qed

lemma psize_keyed: "keyed k fs \<Longrightarrow> keyed s (btree_update_psize s fs)"
  by (induction s fs arbitrary: k rule: btree_update_psize.induct) auto

lemma zip_up_flat: "flat (zip_up fs cs) = lefts fs @ flat cs @ rights fs"
  by (induction fs cs rule: zip_up.induct) simp_all

lemma placed_up:
  assumes "placed n ((ls, k, rs) # fs) cs"
  shows "placed (Suc n) fs (ls @ (k, BNode cs) # rs)"
  using assms by (auto simp: placed_def level_node)

lemma zip_up_placed:
  assumes "placed n fs cs"
  shows "placed (n + length fs) [] (zip_up fs cs) \<and> (fs \<noteq> [] \<longrightarrow> zip_up fs cs \<noteq> [])"
  using assms
proof (induction fs cs arbitrary: n rule: zip_up.induct)
  case (2 ls k rs fs cs)
  from "2.IH"[OF placed_up[OF "2.prems"]] show ?case by (cases fs) auto
qed (simp add: placed_def)

section \<open>Insertion and deletion are exact\<close>

lemma cut_ok:
  assumes "length cs = BT_MAX" "loc \<le> BT_MAX" "btree_cut cs loc c = (tmp, rest, ins)"
  shows "tmp @ (if ins then rest else take (loc - 8) rest @ c # drop (loc - 8) rest) = take loc cs @ c # drop loc cs"
    and "length tmp = 8 \<or> length tmp = 9" and "ins \<Longrightarrow> loc \<noteq> BT_MAX"
proof -
  consider "loc < 8" | "loc = 8" | "8 < loc" by linarith
  then have "tmp @ (if ins then rest else take (loc - 8) rest @ c # drop (loc - 8) rest) = take loc cs @ c # drop loc cs \<and>
    (length tmp = 8 \<or> length tmp = 9) \<and> (ins \<longrightarrow> loc \<noteq> BT_MAX)"
  proof cases
    case 1
    then have "tmp = take loc cs @ c # take (7 - loc) (drop loc cs)" "rest = drop 7 cs" "ins" using assms(3) by (auto simp: btree_cut_def)
    moreover have "take (7 - loc) (drop loc cs) @ drop 7 cs = drop loc cs"
      using 1 append_take_drop_id[of "7 - loc" "drop loc cs"] by simp
    ultimately show ?thesis using 1 assms(1) by simp
  next
    case 2
    then show ?thesis using assms by (auto simp: btree_cut_def)
  next
    case 3
    then have "tmp = take 8 cs" "rest = drop 8 cs" "\<not> ins" using assms(3) by (auto simp: btree_cut_def)
    moreover have "take 8 cs @ take (loc - 8) (drop 8 cs) = take loc cs" using 3 take_add[of 8 "loc - 8" cs] by simp
    ultimately show ?thesis using 3 assms(1) by (simp flip: append_assoc)
  qed
  then show "tmp @ (if ins then rest else take (loc - 8) rest @ c # drop (loc - 8) rest) = take loc cs @ c # drop loc cs"
    "length tmp = 8 \<or> length tmp = 9" "ins \<Longrightarrow> loc \<noteq> BT_MAX" by blast+
qed

text \<open>What an insertion below \<open>fs\<close> leaves at the root.\<close>

definition grown :: "nat \<Rightarrow> nat \<Rightarrow> btree_top \<Rightarrow> bool" where
  "grown n hgt t \<longleftrightarrow> bt_kids t \<noteq> [] \<and>
     (placed n [] (bt_kids t) \<and> b_hgt t = hgt \<or> placed (Suc n) [] (bt_kids t) \<and> b_hgt t = Suc hgt)"

lemma node_insert_ok:
  assumes "placed n fs cs" "level n (s, node)" "loc \<le> length cs" "length fs + 2 \<le> cnt \<or> length cs < BT_MAX"
  shows "\<exists>t. btree_node_insert fs cs loc s node hgt cnt = Inr t \<and> grown (n + length fs) hgt t \<and>
    flat (bt_kids t) = lefts fs @ flat (take loc cs) @ leaves s node @ flat (drop loc cs) @ rights fs"
  using assms
proof (induction "length fs" arbitrary: n fs cs loc s node cnt rule: less_induct)
  case less
  let ?fs = "if loc = length cs then btree_update_psize s fs else fs"
  let ?cs = "take loc cs @ (s, node) # drop loc cs"
  have lev: "\<forall>c \<in> set ?cs. level n c"
    using less.prems(1,2) by (auto simp: placed_def dest: in_set_takeD in_set_dropD)
  have key: "keyed (fst (last ?cs)) ?fs" if "fs \<noteq> []"
    using that less.prems(1,3) psize_keyed by (auto simp: placed_def)
  show ?case
  proof (cases "length cs = BT_MAX")
    case False
    then have "length cs < BT_MAX" using less.prems(1) by (simp add: placed_def)
    then have p: "placed n ?fs ?cs" using less.prems(1) lev key by (auto simp: placed_def)
    show ?thesis
      using zip_up_placed[OF p] False by (subst btree_node_insert.simps) (auto simp: grown_def zip_up_flat split: if_splits)
  next
    case True
    obtain tmp rest ins where cut: "btree_cut cs loc (s, node) = (tmp, rest, ins)" by (cases "btree_cut cs loc (s, node)")
    define b where "b = (if ins then rest else take (loc - 8) rest @ (s, node) # drop (loc - 8) rest)"
    have loc: "loc \<le> BT_MAX" using less.prems(3) True by simp
    note c = cut_ok[OF True loc cut, folded b_def]
    have "length tmp + length b = 17" using arg_cong[OF c(1), of length] True loc by simp
    then have len: "4 \<le> length tmp" "length tmp \<le> BT_MAX" "4 \<le> length b" "length b \<le> BT_MAX" using c(2) by auto
    have last: "last b = last ?cs" using c(1) len(3) by (metis last_appendR list.size(3) not_numeral_le_zero)
    have lt: "\<forall>c \<in> set tmp. level n c" "\<forall>c \<in> set b. level n c" using lev unfolding c(1)[symmetric] by auto
    have tmp: "level (Suc n) (fst (last tmp), BNode tmp)" using len lt by (simp add: level_node)
    have fl: "flat tmp @ flat b = flat ?cs" using arg_cong[OF c(1), of flat] by simp
    have cnt: "length fs + 2 \<le> cnt" using less.prems(4) True by simp
    have "(if \<not> ins \<and> loc = length cs then btree_update_psize s fs else fs) = ?fs" using c(3) True by auto
    then have eq: "btree_node_insert fs cs loc s node hgt cnt =
        (case ?fs of (ls, k, rs) # gs \<Rightarrow> btree_node_insert gs (ls @ (k, BNode b) # rs) (length ls) (fst (last tmp)) (BNode tmp) hgt (cnt - 1)
         | [] \<Rightarrow> Inr \<lparr>bt_kids = [(fst (last tmp), BNode tmp), (fst (last b), BNode b)], b_hgt = hgt + 1, b_cnt = cnt - 2\<rparr>)"
      unfolding b_def using True cnt
      by (cases ?fs) (simp_all add: btree_node_insert.simps[of fs] btree_node_insert_aux.simps cut guardE_True Let_def split del: if_split)
    show ?thesis
    proof (cases ?fs)
      case Nil
      then have "fs = []" by (auto split: if_splits)
      moreover have "placed (Suc n) [] [(fst (last tmp), BNode tmp), (fst (last b), BNode b)]"
        using tmp len lt by (simp add: placed_def level_node)
      ultimately show ?thesis using fl unfolding eq Nil by (simp add: grown_def)
    next
      case (Cons f gs)
      obtain ls k rs where f: "f = (ls, k, rs)" by (cases f)
      have fs: "fs \<noteq> []" "length gs < length fs" "length fs = Suc (length gs)" "lefts fs = lefts gs @ flat ls" "rights fs = flat rs @ rights gs"
      proof -
        have "length ?fs = length fs" "lefts ?fs = lefts fs" "rights ?fs = rights fs" by simp_all
        then show "length gs < length fs" "length fs = Suc (length gs)" "lefts fs = lefts gs @ flat ls" "rights fs = flat rs @ rights gs"
          unfolding Cons f by simp_all
        then show "fs \<noteq> []" by auto
      qed
      have "fok n ?fs" using less.prems(1) by (auto simp: placed_def)
      then have "placed n ((ls, k, rs) # gs) b" using key[OF fs(1)] lt len unfolding Cons f last by (simp add: placed_def last)
      note p = placed_up[OF this]
      obtain t where "btree_node_insert gs (ls @ (k, BNode b) # rs) (length ls) (fst (last tmp)) (BNode tmp) hgt (cnt - 1) = Inr t"
        "grown (Suc n + length gs) hgt t" "flat (bt_kids t) = lefts gs @ flat ls @ flat tmp @ (flat b @ flat rs) @ rights gs"
      proof -
        have "length gs + 2 \<le> cnt - 1" using cnt fs(3) by simp
        then show thesis using less.hyps[OF fs(2) p tmp, of "length ls" "cnt - 1"] that by auto
      qed
      then show ?thesis using fl unfolding eq Cons f by (simp add: fs(3-5) flip: append_assoc)
    qed
  qed
qed

text \<open>What a deletion below the root leaves there: the tree may be shorter by a level.\<close>

definition shrunk :: "nat \<Rightarrow> nat \<Rightarrow> nat \<Rightarrow> btree_top \<Rightarrow> bool" where
  "shrunk n hgt cnt t \<longleftrightarrow>
     placed n [] (bt_kids t) \<and> (0 < n \<longrightarrow> bt_kids t \<noteq> []) \<and> b_hgt t = hgt \<and> b_cnt t = cnt \<or>
     0 < n \<and> placed (n - 1) [] (bt_kids t) \<and> bt_kids t \<noteq> [] \<and> b_hgt t = hgt - 1 \<and> b_cnt t = btree_spare (hgt - 1) cnt"

text \<open>Two neighbours of which one has three daughters. \<open>del\<close> is what is known of a deletion in the parent.\<close>

lemma merge_ok:
  assumes lev: "\<forall>c \<in> set L \<union> set R. level n c" "\<forall>c \<in> set xs \<union> set ys. level (Suc n) c"
    and len: "3 \<le> length L" "3 \<le> length R" "length L = 3 \<or> length R = 3" "7 \<le> length L + length R" "length L \<le> BT_MAX" "length R \<le> BT_MAX"
    and par: "length xs + 2 + length ys \<le> BT_MAX" "fs \<noteq> [] \<longrightarrow> 4 \<le> length xs + 2 + length ys"
      "fok (Suc n) fs" "fs \<noteq> [] \<longrightarrow> keyed (fst (last ((kr, BNode R) # ys))) fs" and kr: "kr = fst (last R)"
    and del: "\<And>x rs. placed (Suc n) fs (xs @ x # rs) \<Longrightarrow> rs \<noteq> [] \<Longrightarrow> \<exists>t. btree_node_del fs xs rs hgt cnt = Inr t \<and>
      shrunk (Suc n + length fs) hgt cnt t \<and> flat (bt_kids t) = lefts fs @ flat (xs @ rs) @ rights fs"
  shows "\<exists>t. btree_merge_aux fs xs (kl, BNode L) (kr, BNode R) ys hgt cnt = Inr t \<and>
    shrunk (Suc n + length fs) hgt cnt t \<and> flat (bt_kids t) = lefts fs @ flat xs @ flat L @ flat R @ flat ys @ rights fs"
proof (cases "length R + length L > BT_MAX")
  case True
  define L' R' where "L' = (if length R > length L then L @ take (length R div 3) R else take (length L - length L div 3) L)"
    and "R' = (if length R > length L then drop (length R div 3) R else drop (length L - length L div 3) L @ R)"
  have split: "L' @ R' = L @ R" by (simp add: L'_def R'_def)
  have len': "4 \<le> length L'" "length L' \<le> BT_MAX" "4 \<le> length R'" "length R' \<le> BT_MAX"
    using len True by (auto simp: L'_def R'_def)
  have R': "last R' = last R" using arg_cong[OF split, of last] len len' by (metis last_appendR list.size(3) not_numeral_le_zero)
  have lev': "\<forall>c \<in> set L' \<union> set R'. level n c" using lev(1) arg_cong[OF split, of set] by auto
  have p: "placed (Suc n) fs (xs @ (fst (last L'), BNode L') # (kr, BNode R') # ys)"
    using lev' lev(2) len' par kr by (auto simp: placed_def level_node R')
  have "L' \<noteq> []" using len'(1) by auto
  moreover have "(if length R > length L then (L @ take (length R div 3) R, drop (length R div 3) R)
      else (take (length L - length L div 3) L, drop (length L - length L div 3) L @ R)) = (L', R')"
    by (simp add: L'_def R'_def)
  ultimately have "btree_merge_aux fs xs (kl, BNode L) (kr, BNode R) ys hgt cnt =
      Inr \<lparr>bt_kids = zip_up fs (xs @ (fst (last L'), BNode L') # (kr, BNode R') # ys), b_hgt = hgt, b_cnt = cnt\<rparr>"
    using True by (simp add: btree_merge_aux.simps guardE_True split del: if_split)
  moreover have "flat L' @ flat R' = flat L @ flat R" using arg_cong[OF split, of flat] by simp
  ultimately show ?thesis using zip_up_placed[OF p] by (simp add: shrunk_def zip_up_flat flip: append_assoc) (cases fs; simp)
next
  case False
  let ?c = "(kr, BNode (L @ R))"
  have "last (L @ R) = last R" using len(2) by (intro last_appendR) auto
  then have c: "level (Suc n) ?c" using lev(1) len False kr by (auto simp: level_node)
  have "placed (Suc n) fs (xs @ ?c # ?c # ys)" using c lev(2) par by (auto simp: placed_def)
  from del[OF this] show ?thesis using False by (simp add: btree_merge_aux.simps)
qed

lemma node_del_ok:
  assumes "placed n fs (ls @ x # rs)" "fs = [] \<Longrightarrow> 0 < n \<Longrightarrow> ls @ rs \<noteq> []"
  shows "\<exists>t. btree_node_del fs ls rs hgt cnt = Inr t \<and> shrunk (n + length fs) hgt cnt t \<and>
    flat (bt_kids t) = lefts fs @ flat (ls @ rs) @ rights fs"
  using assms
proof (induction "length fs" arbitrary: n fs ls x rs rule: less_induct)
  case less
  show ?case
  proof (cases "fs = []")
    case True
    then show ?thesis using less.prems by (auto simp: btree_node_del.simps shrunk_def placed_def)
  next
    case False
    let ?gs = "if rs = [] then btree_update_psize (fst (last ls)) fs else fs" and ?cs = "ls @ rs"
    have lev: "\<forall>c \<in> set ?cs. level n c" and len: "3 \<le> length ?cs" "length ?cs < BT_MAX" and fok: "fok n ?gs"
      using less.prems(1) False by (auto simp: placed_def)
    have ne: "rs \<noteq> [] \<or> ls \<noteq> []" using len by auto
    have key: "keyed (fst (last ?cs)) ?gs" using less.prems(1) False psize_keyed by (auto simp: placed_def)
    have keeps: "length ?gs = length fs" "lefts ?gs = lefts fs" "rights ?gs = rights fs" by simp_all
    show ?thesis
    proof (cases "length ?cs > 3")
      case True
      then have "placed n ?gs ?cs" using lev len fok key by (simp add: placed_def)
      note z = zip_up_placed[OF this]
      have "btree_node_del fs ls rs hgt cnt = Inr \<lparr>bt_kids = zip_up ?gs ?cs, b_hgt = hgt, b_cnt = cnt\<rparr>"
        using True False ne by (subst btree_node_del.simps) (simp add: guardE_True)
      then show ?thesis using z False keeps by (simp add: shrunk_def zip_up_flat split del: if_split) (simp split: if_splits)
    next
      case short: False
      then have len3: "length ?cs = 3" using len by simp
      obtain pl k pr gs where gs: "?gs = (pl, k, pr) # gs" using False keeps(1) by (cases ?gs) auto
      have f: "length gs < length fs" "length fs = Suc (length gs)" "lefts fs = lefts gs @ flat pl" "rights fs = flat pr @ rights gs"
        using keeps unfolding gs by simp_all
      have k: "k = fst (last ?cs)" "keyed (if pr = [] then k else fst (last pr)) gs" using key unfolding gs by auto
      have up: "\<forall>c \<in> set pl \<union> set pr. level (Suc n) c" "length pl + length pr < BT_MAX" "gs \<noteq> [] \<longrightarrow> 3 \<le> length pl + length pr" "fok (Suc n) gs"
        using fok unfolding gs by auto
      have eq: "btree_node_del fs ls rs hgt cnt = btree_node_del_aux gs (pl, k, pr) ?cs hgt cnt"
        using short False ne by (subst btree_node_del.simps) (simp add: guardE_True gs)
      have del: "\<exists>t. btree_node_del gs xs zs hgt cnt = Inr t \<and> shrunk (Suc n + length gs) hgt cnt t \<and>
          flat (bt_kids t) = lefts gs @ flat (xs @ zs) @ rights gs" if "placed (Suc n) gs (xs @ y # zs)" "zs \<noteq> []" for xs y zs
        by (rule less.hyps[OF f(1) that(1)]) (use that(2) in simp)
      show ?thesis
      proof (cases pr)
        case (Cons r ys)
        then have "level (Suc n) r" using up(1) by simp
        then obtain R where r: "r = (fst (last R), BNode R)" "4 \<le> length R" "length R \<le> BT_MAX" "\<forall>d \<in> set R. level n d"
          by (rule level_SucE)
        let ?r = "(fst (last R), BNode R)"
        have "\<exists>t. btree_merge_aux gs pl (k, BNode ?cs) ?r ys hgt cnt = Inr t \<and>
            shrunk (Suc n + length gs) hgt cnt t \<and> flat (bt_kids t) = lefts gs @ flat pl @ flat ?cs @ flat R @ flat ys @ rights gs"
        proof (rule merge_ok[OF _ _ _ _ _ _ _ _ _ _ up(4) _ refl])
          show "gs \<noteq> [] \<longrightarrow> keyed (fst (last (?r # ys))) gs" using k(2) Cons r(1) by auto
          show "\<forall>c \<in> set ?cs \<union> set R. level n c" "\<forall>c \<in> set pl \<union> set ys. level (Suc n) c" using lev r(4) up(1) Cons by auto
          show "length pl + 2 + length ys \<le> BT_MAX" "gs \<noteq> [] \<longrightarrow> 4 \<le> length pl + 2 + length ys" using up(2,3) Cons by auto
          show "\<exists>t. btree_node_del gs pl zs hgt cnt = Inr t \<and> shrunk (Suc n + length gs) hgt cnt t \<and>
              flat (bt_kids t) = lefts gs @ flat (pl @ zs) @ rights gs" if "placed (Suc n) gs (pl @ y # zs)" "zs \<noteq> []" for y zs
            by (rule del[OF that])
        qed (use len3 r(2,3) in simp_all)
        then show ?thesis unfolding eq by (simp add: btree_node_del_aux.simps Cons r(1) f(2-4))
      next
        case Nil
        show ?thesis
        proof (cases "pl = []")
          case True
          then have "gs = []" using up(3) Nil by auto
          moreover have "placed n [] ?cs" using lev len by (simp add: placed_def)
          ultimately show ?thesis unfolding eq using len3 by (auto simp: btree_node_del_aux.simps Nil True f(2-4) shrunk_def)
        next
          case pl: False
          then have "level (Suc n) (last pl)" using up(1) by simp
          then obtain L where l: "last pl = (fst (last L), BNode L)" "4 \<le> length L" "length L \<le> BT_MAX" "\<forall>d \<in> set L. level n d"
            by (rule level_SucE)
          let ?l = "(fst (last L), BNode L)"
          have bl: "pl = butlast pl @ [?l]" using pl l(1) by (metis append_butlast_last_id)
          have lb: "length (butlast pl) = length pl - 1" "0 < length pl" using pl by simp_all
          have "\<exists>t. btree_merge_aux gs (butlast pl) ?l (k, BNode ?cs) [] hgt cnt = Inr t \<and>
              shrunk (Suc n + length gs) hgt cnt t \<and> flat (bt_kids t) = lefts gs @ flat (butlast pl) @ flat L @ flat ?cs @ flat [] @ rights gs"
          proof (rule merge_ok[OF _ _ _ _ _ _ _ _ _ _ up(4) _ k(1)])
            show "gs \<noteq> [] \<longrightarrow> keyed (fst (last [(k, BNode ?cs)])) gs" using k(2) Nil by auto
            show "\<forall>c \<in> set (butlast pl) \<union> set []. level (Suc n) c" using up(1) by (auto dest: in_set_butlastD)
            show "\<forall>c \<in> set L \<union> set ?cs. level n c" using lev l(4) by auto
            show "length (butlast pl) + 2 + length [] \<le> BT_MAX" "gs \<noteq> [] \<longrightarrow> 4 \<le> length (butlast pl) + 2 + length []" using up(2,3) lb Nil by auto
            show "\<exists>t. btree_node_del gs (butlast pl) zs hgt cnt = Inr t \<and> shrunk (Suc n + length gs) hgt cnt t \<and>
                flat (bt_kids t) = lefts gs @ flat (butlast pl @ zs) @ rights gs" if "placed (Suc n) gs (butlast pl @ y # zs)" "zs \<noteq> []" for y zs
              by (rule del[OF that])
          qed (use len3 l(2,3) in simp_all)
          moreover have "flat pl = flat (butlast pl) @ flat L" using arg_cong[OF bl, of flat] by simp
          ultimately show ?thesis unfolding eq using pl l(1) by (simp add: btree_node_del_aux.simps Nil f(2-4))
        qed
      qed
    qed
  qed
qed

section \<open>Searching finds the best fit\<close>

lemma placed_down:
  assumes "placed (Suc n) fs (ls @ (k, BNode ds) # rs)"
  shows "placed n ((ls, k, rs) # fs) ds"
  using assms by (auto simp: placed_def level_node)

lemma level_leaves: "level n c \<Longrightarrow> leaves (fst c) (snd c) \<noteq> [] \<and> fst (last (leaves (fst c) (snd c))) = fst c"
proof (induction n arbitrary: c)
  case 0
  then show ?case by (cases c; cases "snd c") (auto simp: level.simps)
next
  case (Suc n)
  obtain ds where ds: "c = (fst (last ds), BNode ds)" "4 \<le> length ds" "\<forall>d \<in> set ds. level n d" by (rule level_SucE[OF Suc.prems])
  then obtain es e where e: "ds = es @ [e]" by (cases ds rule: rev_cases) auto
  then show ?case using Suc.IH[of e] ds by simp
qed

lemma sorted_last: "sorted (map fst xs) \<Longrightarrow> x \<in> set xs \<Longrightarrow> fst x \<le> fst (last xs)" for xs :: "(u32 \<times> u64) list"
  by (induction xs) (auto split: if_splits)

lemma small_leaves:
  assumes "\<forall>c \<in> set cs. level n c \<and> fst c < s" "sorted (map fst (flat cs))" "x \<in> set (flat cs)"
  shows "fst x < s"
  using assms
proof (induction cs)
  case (Cons c cs)
  have c: "leaves (fst c) (snd c) \<noteq> []" "fst (last (leaves (fst c) (snd c))) = fst c" using level_leaves Cons.prems(1) by auto
  have s: "sorted (map fst (leaves (fst c) (snd c)))" "sorted (map fst (flat cs))" using Cons.prems(2) by (simp_all add: sorted_append)
  show ?case
  proof (cases "x \<in> set (leaves (fst c) (snd c))")
    case True
    then have "fst x \<le> fst c" using sorted_last[OF s(1)] c(2) by metis
    also have "\<dots> < s" using Cons.prems(1) by simp
    finally show ?thesis .
  next
    case False
    then show ?thesis using Cons s(2) by simp
  qed
qed simp

text \<open>\<open>xs\<close> are the leaves left of the one that is found, and \<open>ys\<close> those right of it.\<close>

definition at_leaf :: "frame list \<Rightarrow> kids \<Rightarrow> frame list \<Rightarrow> kids \<Rightarrow> u32 \<Rightarrow> u64 \<Rightarrow> kids \<Rightarrow> (u32 \<times> u64) list \<Rightarrow> (u32 \<times> u64) list \<Rightarrow> bool" where
  "at_leaf fs cs gs ls k a rs xs ys \<longleftrightarrow> placed 0 gs (ls @ (k, BLeaf a) # rs) \<and> flat cs = xs @ (k, a) # ys \<and>
     lefts gs @ flat ls = lefts fs @ xs \<and> flat rs @ rights gs = ys @ rights fs"

lemma at_leaf_down:
  assumes "at_leaf ((ls, k, rs) # fs) ds gs us l a vs xs ys"
  shows "at_leaf fs (ls @ (k, BNode ds) # rs) gs us l a vs (flat ls @ xs) (ys @ flat rs)"
  using assms by (simp add: at_leaf_def)

lemma search_ok:
  assumes "placed n fs cs" "sorted (map fst (flat cs))" "fs \<noteq> [] \<longrightarrow> s \<le> fst (last cs)"
  shows "case btree_search s fs cs of
      None \<Rightarrow> fs = [] \<and> (\<forall>x \<in> set (flat cs). fst x < s)
    | Some (gs, ls, k, b, rs) \<Rightarrow> s \<le> k \<and> length gs = n + length fs \<and>
        (\<exists>a xs ys. b = BLeaf a \<and> at_leaf fs cs gs ls k a rs xs ys \<and> (\<forall>x \<in> set xs. fst x < s))"
  using assms
proof (induction s fs cs arbitrary: n rule: btree_search.induct)
  case (1 s fs cs)
  let ?t = "takeWhile (\<lambda>c. fst c < s) cs" and ?d = "dropWhile (\<lambda>c. fst c < s) cs"
  have cs: "cs = ?t @ ?d" by simp
  have lev: "\<forall>c \<in> set cs. level n c" using "1.prems"(1) by (simp add: placed_def)
  have st: "sorted (map fst (flat ?t))" "sorted (map fst (flat ?d))" using "1.prems"(2) by (subst (asm) cs, simp add: sorted_append del: takeWhile_dropWhile_id)+
  have t: "\<forall>c \<in> set ?t. level n c \<and> fst c < s" using lev by (auto dest: set_takeWhileD)
  show ?case
  proof (cases ?d)
    case Nil
    then have all: "\<forall>c \<in> set cs. fst c < s" by (simp add: dropWhile_eq_Nil_conv)
    have "fs = []"
    proof (rule ccontr)
      assume "fs \<noteq> []"
      then have "cs \<noteq> []" "s \<le> fst (last cs)" using "1.prems"(1,3) by (auto simp: placed_def)
      then show False using all last_in_set[of cs] by (meson not_less)
    qed
    moreover have "\<forall>x \<in> set (flat cs). fst x < s" using small_leaves[OF _ "1.prems"(2)] lev all by blast
    ultimately show ?thesis by (subst btree_search.simps) (simp add: Nil)
  next
    case (Cons c rs)
    have k: "s \<le> fst c" using hd_dropWhile[of "\<lambda>c. fst c < s" cs] Cons by simp
    have cs': "cs = ?t @ c # rs" using cs Cons by simp
    have lc: "level n c" using lev by (subst (asm) cs') simp
    show ?thesis
    proof (cases "snd c")
      case (BLeaf a)
      then have n: "n = 0" using lc by (cases n) (auto simp: level.simps)
      have c: "c = (fst c, BLeaf a)" using BLeaf by (metis prod.collapse)
      have "at_leaf fs cs fs ?t (fst c) a rs (flat ?t) (flat rs)"
        using "1.prems"(1) c unfolding at_leaf_def n by (metis cs' append_Nil append_assoc append_Cons flat_simps leaves.simps(1) fst_conv snd_conv)
      then have "\<exists>xs ys. at_leaf fs cs fs ?t (fst c) a rs xs ys \<and> (\<forall>x \<in> set xs. fst x < s)"
        using small_leaves[OF t st(1)] by blast
      moreover have "btree_search s fs cs = Some (fs, ?t, fst c, BLeaf a, rs)"
        using c Cons by (subst btree_search.simps) (auto simp: BLeaf split: prod.splits)
      ultimately show ?thesis using k n by simp
    next
      case (BNode ds)
      then obtain m where m: "n = Suc m" using lc by (cases n) (auto simp: level.simps)
      have c: "c = (fst c, BNode ds)" using BNode by (metis prod.collapse)
      have p: "placed m ((?t, fst c, rs) # fs) ds" by (rule placed_down) (use "1.prems"(1) m c cs' in metis)
      have key: "fst c = fst (last ds)" using lc c m by (metis level_node)
      have so: "sorted (map fst (flat ds))" using st(2) unfolding Cons by (subst (asm) c) (simp add: sorted_append)
      have "(?t, fst c, rs) # fs \<noteq> [] \<longrightarrow> s \<le> fst (last ds)" using k key by simp
      note IH = "1.IH"[OF Cons c[symmetric] refl p so this]
      then obtain gs us l a vs xs ys where r: "btree_search s ((?t, fst c, rs) # fs) ds = Some (gs, us, l, BLeaf a, vs)" "s \<le> l"
        "length gs = n + length fs" "at_leaf ((?t, fst c, rs) # fs) ds gs us l a vs xs ys" "\<forall>x \<in> set xs. fst x < s"
        using IH by (auto simp: m split: option.splits)
      have "at_leaf fs cs gs us l a vs (flat ?t @ xs) (ys @ flat rs)" using at_leaf_down[OF r(4)] c cs' by metis
      moreover have "btree_search s fs cs = Some (gs, us, l, BLeaf a, vs)"
        using r(1) c Cons by (subst btree_search.simps) (auto simp: BNode split: prod.splits)
      moreover have "\<forall>x \<in> set (flat ?t @ xs). fst x < s" using r(5) small_leaves[OF t st(1)] by auto
      ultimately have "\<exists>xs ys. at_leaf fs cs gs us l a vs xs ys \<and> (\<forall>x \<in> set xs. fst x < s)"
        "btree_search s fs cs = Some (gs, us, l, BLeaf a, vs)" by blast+
      then show ?thesis using r(2,3) by simp
    qed
  qed
qed

lemma end_ok:
  assumes "placed n fs cs" "rights fs = []" "n = 0 \<or> cs \<noteq> []"
  shows "case btree_end fs cs of (gs, ds, i) \<Rightarrow> i = length ds \<and> placed 0 gs ds \<and> length gs = n + length fs \<and>
    lefts gs @ flat ds = lefts fs @ flat cs \<and> rights gs = []"
  using assms
proof (induction fs cs arbitrary: n rule: btree_end.induct)
  case (1 fs cs)
  show ?case
  proof (cases "cs = []")
    case True
    then show ?thesis using "1.prems" by (subst btree_end.simps) simp
  next
    case False
    obtain k b where l: "last cs = (k, b)" by (cases "last cs")
    have cs: "cs = butlast cs @ [(k, b)]" using False l by (metis append_butlast_last_id)
    have lev: "level n (k, b)" using "1.prems"(1) False l last_in_set[of cs] by (auto simp: placed_def)
    show ?thesis
    proof (cases b)
      case (BLeaf a)
      then have "n = 0" using lev by (cases n) (simp_all add: level.simps)
      then show ?thesis using "1.prems" False l BLeaf by (subst btree_end.simps) simp
    next
      case (BNode ds)
      then obtain m where m: "n = Suc m" using lev by (cases n) (simp_all add: level.simps)
      have ne: "ds \<noteq> []" using lev unfolding m BNode level_node by auto
      have p: "placed m ((butlast cs, k, []) # fs) ds" by (rule placed_down) (use "1.prems"(1) m cs BNode in metis)
      have e: "btree_end fs cs = btree_end ((butlast cs, k, []) # fs) ds" using False l BNode ne by (subst btree_end.simps) simp
      have "flat cs = flat (butlast cs) @ flat ds" using arg_cong[OF cs, of flat] by (simp add: BNode)
      then show ?thesis unfolding e using "1.IH"[OF False l[symmetric] BNode ne p] "1.prems"(2) ne by (auto simp: m)
    qed
  qed
qed

lemma find_ok:
  assumes "placed n [] cs" "sorted (map fst (flat cs))" "n = 0 \<or> cs \<noteq> []" "btree_find s cs = (gs, ds, loc)"
  obtains xs ys where "placed 0 gs ds" "loc \<le> length ds" "length gs = n" "flat cs = xs @ ys" "lefts gs @ flat (take loc ds) = xs"
    "flat (drop loc ds) @ rights gs = ys" "\<forall>x \<in> set xs. fst x < s" "ys \<noteq> [] \<longrightarrow> s \<le> fst (hd ys)"
proof (cases "btree_search s [] cs")
  case None
  then have "btree_end [] cs = (gs, ds, loc)" using assms(4) by (simp add: btree_find_def)
  then have "loc = length ds" "placed 0 gs ds" "length gs = n" "lefts gs @ flat ds = flat cs" "rights gs = []"
    using end_ok[OF assms(1) _ assms(3)] by auto
  moreover have "\<forall>x \<in> set (flat cs). fst x < s" using search_ok[OF assms(1,2), of s] None by simp
  ultimately show thesis using that[of "flat cs" "[]"] by simp
next
  case (Some r)
  obtain hs ls k b rs where r: "r = (hs, ls, k, b, rs)" by (cases r)
  obtain a xs ys where l: "s \<le> k" "length hs = n" "b = BLeaf a" "at_leaf [] cs hs ls k a rs xs ys" "\<forall>x \<in> set xs. fst x < s"
    using search_ok[OF assms(1,2), of s] Some r by auto
  have "gs = hs" "ds = ls @ (k, BLeaf a) # rs" "loc = length ls" using assms(4) Some r l(3) by (auto simp: btree_find_def)
  then show thesis using that[of xs "(k, a) # ys"] l by (simp add: at_leaf_def)
qed

lemma insort_split:
  fixes s :: u32
  assumes "\<forall>x \<in> set xs. fst x < s" "ys \<noteq> [] \<longrightarrow> s \<le> fst (hd ys)"
  shows "insort_key fst (s, a) (xs @ ys) = xs @ (s, a) # ys"
  using assms(1)
proof (induction xs)
  case Nil
  then show ?case using assms(2) by (cases ys) auto
qed auto

lemma leaf_in_leaves: "leaf_in a c \<longleftrightarrow> a \<in> snd ` set (leaves k c)"
proof (induction a c arbitrary: k rule: leaf_in.induct)
  case (2 a cs)
  have "a \<in> snd ` set (flat ds) \<longleftrightarrow> (\<exists>c \<in> set ds. leaf_in a (snd c))" if "set ds \<subseteq> set cs" for ds
    using that "2.IH" by (induction ds) (auto simp: image_Un)
  from this[of cs] show ?case by simp
qed auto

lemma flat_leaf_in: "a \<in> snd ` set (flat cs) \<longleftrightarrow> (\<exists>c \<in> set cs. leaf_in a (snd c))"
  by (induction cs) (auto simp: image_Un leaf_in_leaves[symmetric])

lemma leaf_place_ok:
  assumes "placed n fs cs" "a \<in> snd ` set (flat cs)"
  shows "\<exists>gs ls k rs xs ys. leaf_place a fs cs = Some (gs, ls, rs) \<and> length gs = n + length fs \<and>
    at_leaf fs cs gs ls k a rs xs ys \<and> a \<notin> snd ` set xs"
  using assms
proof (induction a fs cs arbitrary: n rule: leaf_place.induct)
  case (1 a fs cs)
  let ?t = "takeWhile (\<lambda>c. \<not> leaf_in a (snd c)) cs" and ?d = "dropWhile (\<lambda>c. \<not> leaf_in a (snd c)) cs"
  have "\<exists>c \<in> set cs. leaf_in a (snd c)" using "1.prems"(2) unfolding flat_leaf_in .
  then obtain c rs where d: "?d = c # rs" by (cases ?d) (auto simp: dropWhile_eq_Nil_conv)
  have cs: "cs = ?t @ c # rs" using takeWhile_dropWhile_id[of "\<lambda>c. \<not> leaf_in a (snd c)" cs] d by simp
  have a: "leaf_in a (snd c)" using hd_dropWhile[of "\<lambda>c. \<not> leaf_in a (snd c)" cs] d by simp
  have nt: "a \<notin> snd ` set (flat ?t)" unfolding flat_leaf_in by (auto dest: set_takeWhileD)
  have lev: "level n c" using "1.prems"(1) unfolding placed_def by (subst (asm) cs) simp
  show ?case
  proof (cases "snd c")
    case (BLeaf b)
    then have n: "n = 0" "b = a" using lev a by (cases n; simp add: level.simps)+
    have c: "c = (fst c, BLeaf a)" using BLeaf n(2) by (metis prod.collapse)
    have "at_leaf fs cs fs ?t (fst c) a rs (flat ?t) (flat rs)"
      using "1.prems"(1) c unfolding at_leaf_def n by (metis cs append_Nil append_assoc append_Cons flat_simps leaves.simps(1) fst_conv snd_conv)
    moreover have "leaf_place a fs cs = Some (fs, ?t, rs)"
      using c d by (subst leaf_place.simps) (auto simp: BLeaf split: prod.splits)
    ultimately show ?thesis using nt n by auto
  next
    case (BNode ds)
    then obtain m where m: "n = Suc m" using lev by (cases n) (simp_all add: level.simps)
    have c: "c = (fst c, BNode ds)" using BNode by (metis prod.collapse)
    have p: "placed m ((?t, fst c, rs) # fs) ds" by (rule placed_down) (use "1.prems"(1) m c cs in metis)
    have "a \<in> snd ` set (flat ds)" using a c leaf_in_leaves[of a "BNode ds" "fst c"] by (metis flat_simps(4) snd_conv)
    from "1.IH"[OF d c[symmetric] refl p this]
    obtain gs us l vs xs ys where r: "leaf_place a ((?t, fst c, rs) # fs) ds = Some (gs, us, vs)" "length gs = m + Suc (length fs)"
      "at_leaf ((?t, fst c, rs) # fs) ds gs us l a vs xs ys" "a \<notin> snd ` set xs" by auto
    have "at_leaf fs cs gs us l a vs (flat ?t @ xs) (ys @ flat rs)" using at_leaf_down[OF r(3)] c cs by metis
    moreover have "leaf_place a fs cs = Some (gs, us, vs)"
      using r(1) c d by (subst leaf_place.simps) (auto simp: BNode split: prod.splits)
    moreover have "a \<notin> snd ` set (flat ?t @ xs)" using nt r(4) by (simp add: image_Un)
    moreover have "length gs = n + length fs" using r(2) m by simp
    ultimately show ?thesis by blast
  qed
qed

section \<open>The invariant\<close>

definition btree_ok :: "btree_top \<Rightarrow> bool" where
  "btree_ok t \<longleftrightarrow> (\<exists>n. placed n [] (bt_kids t) \<and> (n = 0 \<or> bt_kids t \<noteq> []) \<and> b_hgt t = n + 2) \<and>
     sorted (map fst (flat (bt_kids t))) \<and> (b_hgt t \<le> b_cnt t \<or> bt_kids t = [])"

definition btree_init :: btree_top where
  "btree_init = \<lparr>bt_kids = [], b_hgt = 2, b_cnt = 0\<rparr>"

lemma btree_init_ok: "btree_ok btree_init"
  by (simp add: btree_ok_def btree_init_def placed_def)

lemma btree_insert_ok:
  assumes "btree_ok t"
  shows "\<exists>t'. btree_insert a sz t = Inr t' \<and> btree_ok t' \<and>
    flat (bt_kids t') = insort_key fst (ucast (sz * 16), a) (flat (bt_kids t))"
proof -
  let ?s = "ucast (sz * 16) :: u32"
  obtain n where t: "placed n [] (bt_kids t)" "n = 0 \<or> bt_kids t \<noteq> []" "b_hgt t = n + 2" "sorted (map fst (flat (bt_kids t)))"
    "b_hgt t \<le> b_cnt t \<or> bt_kids t = []" using assms by (auto simp: btree_ok_def)
  obtain gs ds loc where f: "btree_find ?s (bt_kids t) = (gs, ds, loc)" by (cases "btree_find ?s (bt_kids t)")
  obtain xs ys where p: "placed 0 gs ds" "loc \<le> length ds" "length gs = n" "flat (bt_kids t) = xs @ ys" "lefts gs @ flat (take loc ds) = xs"
    "flat (drop loc ds) @ rights gs = ys" "\<forall>x \<in> set xs. fst x < ?s" "ys \<noteq> [] \<longrightarrow> ?s \<le> fst (hd ys)"
    by (rule find_ok[OF t(1,4,2) f])
  have ins: "insort_key fst (?s, a) (flat (bt_kids t)) = xs @ (?s, a) # ys" unfolding p(4) by (rule insort_split[OF p(7,8)])
  have "length gs + 2 \<le> b_cnt t \<or> length ds < BT_MAX"
  proof (cases "bt_kids t = []")
    case True
    then have "ds = []" using f by (simp add: btree_find_def btree_search.simps btree_end.simps)
    then show ?thesis by simp
  qed (use t(3,5) p(3) in simp)
  from node_insert_ok[OF p(1) _ p(2) this, of ?s "BLeaf a" "b_hgt t"]
  obtain t1 where t1: "btree_node_insert gs ds loc ?s (BLeaf a) (b_hgt t) (b_cnt t) = Inr t1" "grown n (b_hgt t) t1"
    "flat (bt_kids t1) = xs @ (?s, a) # ys" using p(3,5,6) by (auto simp: level.simps)
  have "sorted (map fst (flat (bt_kids t1)))"
    using sorted_insort_key[of fst "(?s, a)" "flat (bt_kids t)"] t(4) unfolding t1(3) ins by simp
  then have "btree_ok (t1\<lparr>b_cnt := max (b_cnt t1) (b_hgt t1)\<rparr>)" using t1(2) t(3) by (auto simp: btree_ok_def grown_def)
  then show ?thesis using t1 ins f by (simp add: btree_insert_def)
qed

lemma del_ok:
  assumes "btree_ok t" "at_leaf [] (bt_kids t) gs ls k a rs xs ys" "\<forall>n. placed n [] (bt_kids t) \<and> b_hgt t = n + 2 \<longrightarrow> length gs = n"
  shows "\<exists>t'. btree_node_del gs ls rs (b_hgt t) (b_cnt t) = Inr t' \<and> btree_ok t' \<and> flat (bt_kids t') = xs @ ys"
proof -
  obtain n where t: "placed n [] (bt_kids t)" "n = 0 \<or> bt_kids t \<noteq> []" "b_hgt t = n + 2" "sorted (map fst (flat (bt_kids t)))"
    "b_hgt t \<le> b_cnt t \<or> bt_kids t = []" using assms(1) by (auto simp: btree_ok_def)
  have p: "placed 0 gs (ls @ (k, BLeaf a) # rs)" "flat (bt_kids t) = xs @ (k, a) # ys" "lefts gs @ flat ls = xs" "flat rs @ rights gs = ys"
    and n: "length gs = n" using assms t by (auto simp: at_leaf_def)
  have cnt: "b_hgt t \<le> b_cnt t" using t(5) p(2) by auto
  obtain t1 where t1: "btree_node_del gs ls rs (b_hgt t) (b_cnt t) = Inr t1" "shrunk n (b_hgt t) (b_cnt t) t1" "flat (bt_kids t1) = xs @ ys"
    using node_del_ok[OF p(1), of "b_hgt t" "b_cnt t"] n p(3,4) by auto
  have "sorted (map fst (flat (bt_kids t1)))" using t(4) unfolding t1(3) p(2) by (auto simp: sorted_append)
  then have "btree_ok t1" using t1(2) t(3) cnt by (auto simp: btree_ok_def shrunk_def btree_spare_def)
  then show ?thesis using t1 by blast
qed

text \<open>A removal gives the smallest leaf that is large enough.\<close>

lemma btree_remove_ok:
  assumes "btree_ok t"
  shows "(\<forall>x \<in> set (flat (bt_kids t)). fst x < s) \<and> btree_remove s t = Inr (None, t) \<or>
    (\<exists>xs k a ys t'. flat (bt_kids t) = xs @ (k, a) # ys \<and> (\<forall>x \<in> set xs. fst x < s) \<and> s \<le> k \<and>
       btree_remove s t = Inr (Some (BLeaf a), t') \<and> btree_ok t' \<and> flat (bt_kids t') = xs @ ys)"
proof -
  obtain n where t: "placed n [] (bt_kids t)" "b_hgt t = n + 2" "sorted (map fst (flat (bt_kids t)))" using assms by (auto simp: btree_ok_def)
  show ?thesis
  proof (cases "btree_search s [] (bt_kids t)")
    case None
    then show ?thesis using search_ok[OF t(1,3), of s] by (simp add: btree_remove_def)
  next
    case (Some r)
    obtain gs ls k b rs where r: "r = (gs, ls, k, b, rs)" by (cases r)
    obtain a xs ys where l: "s \<le> k" "length gs = n" "b = BLeaf a" "at_leaf [] (bt_kids t) gs ls k a rs xs ys" "\<forall>x \<in> set xs. fst x < s"
      using search_ok[OF t(1,3), of s] Some r by auto
    obtain t' where "btree_node_del gs ls rs (b_hgt t) (b_cnt t) = Inr t'" "btree_ok t'" "flat (bt_kids t') = xs @ ys"
      using del_ok[OF assms l(4)] l(2) t(2) by auto
    then have "flat (bt_kids t) = xs @ (k, a) # ys \<and> (\<forall>x \<in> set xs. fst x < s) \<and> s \<le> k \<and>
        btree_remove s t = Inr (Some (BLeaf a), t') \<and> btree_ok t' \<and> flat (bt_kids t') = xs @ ys"
      using l Some r by (simp add: btree_remove_def at_leaf_def)
    then show ?thesis by blast
  qed
qed

lemma btree_leaf_del_ok:
  assumes "btree_ok t" "a \<in> snd ` set (flat (bt_kids t))"
  shows "\<exists>xs k ys t'. flat (bt_kids t) = xs @ (k, a) # ys \<and> a \<notin> snd ` set xs \<and> btree_leaf_del a t = Inr t' \<and> btree_ok t' \<and>
    flat (bt_kids t') = xs @ ys"
proof -
  obtain n where t: "placed n [] (bt_kids t)" "b_hgt t = n + 2" using assms by (auto simp: btree_ok_def)
  obtain gs ls k rs xs ys where l: "leaf_place a [] (bt_kids t) = Some (gs, ls, rs)" "length gs = n" "at_leaf [] (bt_kids t) gs ls k a rs xs ys"
    "a \<notin> snd ` set xs" using leaf_place_ok[OF t(1) assms(2)] by auto
  obtain t' where "btree_node_del gs ls rs (b_hgt t) (b_cnt t) = Inr t'" "btree_ok t'" "flat (bt_kids t') = xs @ ys"
    using del_ok[OF assms(1) l(3)] l(2) t(2) by auto
  then show ?thesis using l by (auto simp: btree_leaf_del_def at_leaf_def)
qed

section \<open>The tree as a sorted list\<close>

text \<open>
  What the allocator asks of the tree: to insert a node, to take out the smallest node that is large enough, and to take
  out a node that is in the tree. On the list of the sizes and nodes, in the order of the sizes, these are simple.
\<close>

datatype tree_op = TreeInsert u64 u64 | TreeRemove u32 | TreeDelete u64

primrec tree_do :: "tree_op \<Rightarrow> btree_top \<times> btree list \<Rightarrow> (btree_top \<times> btree list) result" where
  "tree_do (TreeInsert a sz) s = bindE (btree_insert a sz (fst s)) (\<lambda>t. Inr (t, snd s))"
| "tree_do (TreeRemove k) s = bindE (btree_remove k (fst s)) (\<lambda>(r, t). Inr (t, snd s @ (case r of None \<Rightarrow> [] | Some b \<Rightarrow> [b])))"
| "tree_do (TreeDelete a) s = (if a \<in> snd ` set (flat (bt_kids (fst s))) then bindE (btree_leaf_del a (fst s)) (\<lambda>t. Inr (t, snd s)) else Inr s)"

definition drop_first :: "('a \<Rightarrow> bool) \<Rightarrow> 'a list \<Rightarrow> 'a list" where
  "drop_first P xs = takeWhile (\<lambda>x. \<not> P x) xs @ tl (dropWhile (\<lambda>x. \<not> P x) xs)"

lemma drop_first_split: "\<forall>x \<in> set xs. \<not> P x \<Longrightarrow> P y \<Longrightarrow> drop_first P (xs @ y # ys) = xs @ ys"
  by (simp add: drop_first_def)

lemma drop_first_none: "\<forall>x \<in> set xs. \<not> P x \<Longrightarrow> drop_first P xs = xs"
  by (simp add: drop_first_def dropWhile_eq_Nil_conv[THEN iffD2] takeWhile_eq_all_conv[THEN iffD2])

primrec list_do :: "tree_op \<Rightarrow> (u32 \<times> u64) list \<times> btree list \<Rightarrow> (u32 \<times> u64) list \<times> btree list" where
  "list_do (TreeInsert a sz) s = (insort_key fst (ucast (sz * 16), a) (fst s), snd s)"
| "list_do (TreeRemove k) s = (drop_first (\<lambda>x. k \<le> fst x) (fst s), snd s @ (case find (\<lambda>x. k \<le> fst x) (fst s) of None \<Rightarrow> [] | Some x \<Rightarrow> [BLeaf (snd x)]))"
| "list_do (TreeDelete a) s = (drop_first (\<lambda>x. snd x = a) (fst s), snd s)"

lemma tree_do_ok:
  assumes "btree_ok t"
  shows "\<exists>t' rs'. tree_do c (t, rs) = Inr (t', rs') \<and> btree_ok t' \<and> (flat (bt_kids t'), rs') = list_do c (flat (bt_kids t), rs)"
proof (cases c)
  case (TreeInsert a sz)
  then show ?thesis using btree_insert_ok[OF assms, of a sz] by auto
next
  case (TreeRemove k)
  have none: "find (\<lambda>x. k \<le> fst x) xs = None" if "\<forall>x \<in> set xs. fst x < k" for xs :: "(u32 \<times> u64) list"
    using that by (auto simp: find_None_iff not_le)
  have found: "find (\<lambda>x. k \<le> fst x) (xs @ y # ys) = Some y" if "\<forall>x \<in> set xs. fst x < k" "k \<le> fst y" for xs ys and y :: "u32 \<times> u64"
    using that by (induction xs) (auto simp: not_le)
  show ?thesis
    using btree_remove_ok[OF assms, of k]
  proof (elim disjE conjE exE)
    assume a: "\<forall>x \<in> set (flat (bt_kids t)). fst x < k" "btree_remove k t = Inr (None, t)"
    then have "drop_first (\<lambda>x. k \<le> fst x) (flat (bt_kids t)) = flat (bt_kids t)" by (intro drop_first_none) (simp add: not_le)
    then show ?thesis using a none[OF a(1)] assms TreeRemove by simp
  next
    fix xs l a ys t'
    assume a: "flat (bt_kids t) = xs @ (l, a) # ys" "\<forall>x \<in> set xs. fst x < k" "k \<le> l" "btree_remove k t = Inr (Some (BLeaf a), t')"
      "btree_ok t'" "flat (bt_kids t') = xs @ ys"
    then have "drop_first (\<lambda>x. k \<le> fst x) (flat (bt_kids t)) = xs @ ys" unfolding a(1) by (intro drop_first_split) (simp_all add: not_le)
    then show ?thesis using a found[OF a(2), of "(l, a)" ys] TreeRemove by simp
  qed
next
  case (TreeDelete a)
  show ?thesis
  proof (cases "a \<in> snd ` set (flat (bt_kids t))")
    case True
    then obtain xs k ys t' where d: "flat (bt_kids t) = xs @ (k, a) # ys" "a \<notin> snd ` set xs" "btree_leaf_del a t = Inr t'" "btree_ok t'"
      "flat (bt_kids t') = xs @ ys" using btree_leaf_del_ok[OF assms] by blast
    then have "drop_first (\<lambda>x. snd x = a) (flat (bt_kids t)) = xs @ ys" unfolding d(1) by (intro drop_first_split) auto
    then show ?thesis using d True TreeDelete by simp
  next
    case False
    then have "drop_first (\<lambda>x. snd x = a) (flat (bt_kids t)) = flat (bt_kids t)" by (intro drop_first_none) auto
    then show ?thesis using False TreeDelete assms by simp
  qed
qed

lemma tree_runs_ok:
  assumes "btree_ok t"
  shows "\<exists>t' rs'. foldE tree_do cs (t, rs) = Inr (t', rs') \<and> btree_ok t' \<and> (flat (bt_kids t'), rs') = fold list_do cs (flat (bt_kids t), rs)"
  using assms
proof (induction cs arbitrary: t rs)
  case (Cons c cs)
  obtain t1 rs1 where c: "tree_do c (t, rs) = Inr (t1, rs1)" "btree_ok t1" "(flat (bt_kids t1), rs1) = list_do c (flat (bt_kids t), rs)"
    using tree_do_ok[OF Cons.prems] by blast
  then show ?case using Cons.IH[OF c(2), of rs1] by (simp flip: c(3))
qed simp

text \<open>\<^bold>\<open>C18.\<close> The allocator's B-tree refines a list in the order of the sizes: no operation fails whatever the sequence, the
  tree always has all leaves at the same depth, nodes of 4 (at the root, 0) to 16 entries whose keys are the largest below them, and enough
  spare nodes for the next insertion, its leaves are those of the list, and each removal answers the
  smallest entry that is large enough, the first of those of equal size.
\<close>

theorem btree_refines_list:
  "\<exists>t rs. foldE tree_do cs (btree_init, []) = Inr (t, rs) \<and> btree_ok t \<and> fold list_do cs ([], []) = (flat (bt_kids t), rs)"
proof -
  have "flat (bt_kids btree_init) = []" by (simp add: btree_init_def)
  then show ?thesis using tree_runs_ok[OF btree_init_ok, of cs "[]"] by metis
qed

end
