(* ===== verification/LA_Alloc.thy ===== *)
theory LA_Alloc
  imports LA_Heap LA_Btree TMI_Memory
begin

text \<open>
  The block allocator of a thread as a whole: requests are served from the fast lists, from the lists by size, from
  the B-tree, from the objects that other threads freed, or from a new block that TMI takes from its heap. Every operation
  succeeds and keeps the invariant of the heap.
\<close>

unbundle bit_operations_syntax

section \<open>The fast lists\<close>

lemma node_size:
  assumes ok: "heap_ok h sl Bs L G" and b: "(b, z, f) \<in> nodes Bs" "f \<longrightarrow> 1 < z"
  shows "bsize h b = word_of_nat (16 * z)" "16 * z < 2 ^ 28" "ucast (bsize h b) = (word_of_nat (16 * z) :: u64)"
proof -
  obtain m ls rs where m: "(m, ls @ (z, f) # rs) \<in> set Bs" "b = node_at m (Suc (width ls))" "0 < z" using nodesE[OF b(1)] by blast
  have "tiled (set sl) h m 1 False 0 (ls @ (z, f) # rs)" using heap_okD(2)[OF ok m(1)] by (simp add: block_ok_def)
  then have "node_ok (set sl) h m (Suc (width ls)) (ends_free ls) (last_size ls) (z, f)" unfolding tiled_middle by simp
  then show s: "bsize h b = word_of_nat (16 * z)" using b(2) m(2) by (auto simp: node_ok_def Let_def)
  have "16 * Suc (width (snd (m, ls @ (z, f) # rs))) < 2 ^ 28" using heap_okD(3)[OF ok] m(1) unfolding apart_def by blast
  then show "16 * z < 2 ^ 28" by simp
  then show "ucast (bsize h b) = (word_of_nat (16 * z) :: u64)" unfolding s by (intro ucast_size) simp
qed

lemma of_size_le: "16 * a < 2 ^ 32 \<Longrightarrow> 16 * z < 2 ^ 32 \<Longrightarrow> (word_of_nat (16 * a) :: u64) \<le> word_of_nat (16 * z) \<longleftrightarrow> a \<le> z"
proof -
  assume "16 * a < 2 ^ 32" "16 * z < 2 ^ 32"
  moreover have "unat (word_of_nat (16 * x) :: u64) = 16 * x" if "16 * x < 2 ^ 32" for x by (rule unat_of_size) (use that in simp)
  ultimately show ?thesis unfolding word_le_nat_alt by simp
qed

lemma owned_from_fast:
  assumes "owned_ok (add_mset b F) L N" "(b, z, False) \<in> N"
  shows "owned_ok F (insert (b + 16, z) L) N" "b + 16 \<notin> fst ` L"
proof -
  have o: "\<And>c. count (add_mset b F) c \<le> 1" "\<And>c. c \<in># add_mset b F \<Longrightarrow> \<exists>z. (c, z, False) \<in> N" "inj_on fst L"
    "\<And>p a. (p, a) \<in> L \<Longrightarrow> p - 16 \<notin># add_mset b F \<and> (p - 16, a, False) \<in> N" using assms(1) by (auto simp: owned_ok_def)
  have nF: "b \<notin># F" using o(1)[of b] by (simp add: count_eq_zero_iff)
  show new: "b + 16 \<notin> fst ` L" using o(4) by fastforce
  have "count F c \<le> 1" for c using o(1)[of c] by (simp split: if_splits)
  moreover have "inj_on fst (insert (b + 16, z) L)" using o(3) new by (auto simp: inj_on_def image_iff)
  ultimately show "owned_ok F (insert (b + 16, z) L) N" using o(2,4) nF assms(2) unfolding owned_ok_def by auto
qed

lemma fast_take_ok:
  assumes ok: "heap_ok h sl Bs L G" and a: "4 \<le> a" "16 * a < 2 ^ 32"
  shows "\<exists>r h'. fast_take (word_of_nat (16 * a)) h = Inr (r, h') \<and> served a L G r h'"
proof -
  let ?w = "word_of_nat (16 * a) :: u64" and ?sz = "\<lambda>b. ucast (bsize h b) :: u64"
  note ok' = heap_okD[OF ok]
  have u: "unat ?w = 16 * a" by (rule unat_of_size) (use a in simp)
  have "block_size ?w" using u a by (simp add: block_size_def del: of_nat_mult)
  moreover have "64 \<le> unat ?w" using u a by simp
  ultimately obtain r fa where r: "fast_alloc ?sz ?w (bh_fast h) = Inr (r, fa)" "fast_ok fa"
    "case r of Some b \<Rightarrow> fast_blocks (bh_fast h) = add_mset b (fast_blocks fa) \<and> ?w \<le> ?sz b | None \<Rightarrow> fast_blocks fa = fast_blocks (bh_fast h)"
    using fast_alloc_run[OF ok'(6), of ?w ?sz] by (force split: option.splits)
  have h': "fast_take ?w h = Inr (map_option (\<lambda>b. b + 16) r, h\<lparr>bh_fast := fa\<rparr>)" using r(1) by (simp add: fast_take_def)
  have "served a L G (map_option (\<lambda>b. b + 16) r) (h\<lparr>bh_fast := fa\<rparr>)"
  proof (cases r)
    case None
    then have "heap_ok (h\<lparr>bh_fast := fa\<rparr>) sl Bs L G" using r(2,3) ok' by (intro heap_ok_frame[OF ok]) simp_all
    then show ?thesis using None by (auto simp: served_def)
  next
    case (Some b)
    then have F: "fast_blocks (bh_fast h) = add_mset b (fast_blocks fa)" "?w \<le> ?sz b" using r(3) by simp_all
    have "b \<in># fast_blocks (bh_fast h)" using F(1) by simp
    then obtain z where z: "(b, z, False) \<in> nodes Bs" using ok'(7) unfolding owned_ok_def by blast
    note n = node_size[OF ok z]
    have az: "a \<le> z" using F(2) n a(2) of_size_le[of a z] by simp
    note o = owned_from_fast[OF ok'(7)[unfolded F(1)] z]
    have "heap_ok (h\<lparr>bh_fast := fa\<rparr>) sl Bs (insert (b + 16, z) L) G" using r(2) ok' o(1) by (intro heap_ok_frame[OF ok]) simp_all
    then show ?thesis using Some o(2) az by (auto simp: served_def)
  qed
  then show ?thesis using h' by blast
qed

section \<open>Freeing\<close>

lemma free_block_ok:
  assumes ok: "heap_ok h sl Bs L G" and p: "(p, a) \<in> L"
  shows "\<exists>n h' sl' Bs'. free_block p fcount h = Inr (n, h') \<and> heap_ok h' sl' Bs' (L - {(p, a)}) G"
proof -
  let ?b = "p - 16" and ?L = "L - {(p, a)}"
  note ok' = heap_okD[OF ok]
  have z: "(?b, a, False) \<in> nodes Bs" "a \<le> a" "?b \<notin># fast_blocks (bh_fast h)" using ok'(7) p unfolding owned_ok_def by blast+
  have pos: "0 < a" using nodes_pos[OF z(1)] .
  note n = node_size[OF ok z(1)]
  have "unat (word_of_nat (16 * a) :: u64) = 16 * a" by (rule unat_of_size) (use n(2) in simp)
  then have "block_size (word_of_nat (16 * a))" using pos n(2) by (simp add: block_size_def del: of_nat_mult)
  then obtain i where i: "size2fl (word_of_nat (16 * a)) = Inr i" "i < 64" using size2fl_total by blast
  let ?h = "h\<lparr>bh_fast := fast_add ?b i (bh_fast h)\<rparr>"
  have fr: "free_rest ?b (ucast (bsize h ?b)) h = Inr ?h" using n i(1) by (simp add: free_rest_def fast_free_def)
  note fa = fast_add_blocks[OF ok'(6) i(2), of ?b]
  have o: "\<And>c. count (fast_blocks (bh_fast h)) c \<le> 1" "\<And>c. c \<in># fast_blocks (bh_fast h) \<Longrightarrow> \<exists>z. (c, z, False) \<in> nodes Bs" "inj_on fst L"
    "\<And>q b. (q, b) \<in> L \<Longrightarrow> q - 16 \<notin># fast_blocks (bh_fast h) \<and> (q - 16, b, False) \<in> nodes Bs" using ok'(7) by (auto simp: owned_ok_def)
  have "q \<noteq> p" if "(q, b) \<in> ?L" for q b using that p inj_onD[OF o(3), of "(q, b)" "(p, a)"] by auto
  then have "q - 16 \<noteq> ?b" if "(q, b) \<in> ?L" for q b using that by (metis diff_add_cancel)
  moreover have "inj_on fst ?L" using o(3) by (rule inj_on_subset) auto
  moreover have "count (add_mset ?b (fast_blocks (bh_fast h))) c \<le> 1" for c using o(1)[of c] z(3) by (auto simp: count_eq_zero_iff)
  ultimately have "owned_ok (fast_blocks (fast_add ?b i (bh_fast h))) ?L (nodes Bs)"
    using o(2,4) z(1) unfolding owned_ok_def fa(1) by auto
  then have h: "heap_ok ?h sl Bs ?L G" using ok' fa(2) by (intro heap_ok_frame[OF ok]) simp_all
  obtain h2 sl2 Bs2 where "clear_fast ?h = Inr h2" "heap_ok h2 sl2 Bs2 ?L G" using clear_fast_ok[OF h] by blast
  then show ?thesis using fr h by (cases "(fcount + 1) AND FREE_FAST = 0") (auto simp: free_block_def Let_def)
qed

section \<open>The program writes into its objects\<close>

text \<open>
  An object of \<open>16 a\<close> bytes with its separator can hold \<open>16 a - 8\<close> bytes: the last word is the link to the left that the
  next separator needs only while the node is free. The words of the object are the tags of the cells inside the node
  and the links of those and of the next separator.
\<close>

definition writes :: "u64 \<Rightarrow> nat \<Rightarrow> bheap \<Rightarrow> bheap \<Rightarrow> bool" where
  "writes p a h h' \<longleftrightarrow> (\<exists>t l d. h' = h\<lparr>bh_tag := t, bh_left := l, bh_data := d\<rparr> \<and>
     (\<forall>x. x \<notin> node_at (p - 16) ` {0<..<a} \<longrightarrow> t x = bh_tag h x) \<and>
     (\<forall>x. x \<notin> node_at (p - 16) ` {0<..a} \<longrightarrow> l x = bh_left h x) \<and>
     (\<forall>x. x \<notin> node_at (p - 16) ` {..<a} \<longrightarrow> d x = bh_data h x))"

lemma written_tiled:
  assumes t: "tiled S h m 1 False 0 (ls @ (z, False) # rs)" and sh: "shape (ls @ (z, False) # rs)" and z: "0 < z"
    and lim: "16 * Suc (width (ls @ (z, False) # rs)) < 2 ^ 32" and a: "a \<le> z"
    and w: "\<And>x. x \<notin> node_at (node_at m (Suc (width ls))) ` {0<..<a} \<Longrightarrow> bh_tag h' x = bh_tag h x"
      "\<And>x. x \<notin> node_at (node_at m (Suc (width ls))) ` {0<..a} \<Longrightarrow> bh_left h' x = bh_left h x"
  shows "tiled S h' m 1 False 0 (ls @ (z, False) # rs)"
proof -
  let ?k = "Suc (width ls)" and ?n = "Suc (width (ls @ (z, False) # rs))"
  obtain s g rs' where rs: "rs = (s, g) # rs'" using sh z by (cases rs) (auto simp: shape_def)
  have pos: "rs' \<noteq> [] \<longrightarrow> 0 < s" using sh by (auto simp: shape_def butlast_append rs split: if_splits)
  have cell: "node_at m j \<notin> node_at (node_at m ?k) ` {0<..a}" if "j \<le> ?n" "j \<le> ?k \<or> ?k + a < j" for j
  proof
    assume "node_at m j \<in> node_at (node_at m ?k) ` {0<..a}"
    then obtain i where i: "0 < i" "i \<le> a" "node_at m j = node_at m (?k + i)" by (auto simp: node_at_node_at)
    have "?k + i \<le> ?n" using i a by simp
    then have "j = ?k + i" using near_inj[OF that(1) _ lim] i(3) by blast
    then show False using that(2) i by auto
  qed
  have tag: "bh_tag h' (node_at m j) = bh_tag h (node_at m j)" if "j \<le> ?n" "j \<le> ?k \<or> ?k + a \<le> j" for j
  proof (rule w(1))
    show "node_at m j \<notin> node_at (node_at m ?k) ` {0<..<a}"
    proof
      assume "node_at m j \<in> node_at (node_at m ?k) ` {0<..<a}"
      then obtain i where i: "0 < i" "i < a" "node_at m j = node_at m (?k + i)" by (auto simp: node_at_node_at)
      have "?k + i \<le> ?n" using i a by simp
      then have "j = ?k + i" using near_inj[OF that(1) _ lim] i(3) by blast
      then show False using that(2) i by auto
    qed
  qed
  have ag: "agree S h S h' (node_at m j)" if "j \<le> ?n" "j \<le> ?k \<or> ?k + a < j" for j
    using tag[of j] w(2)[OF cell[OF that]] that by (auto simp: agree_def)
  have ok: "tiled S h m 1 False 0 ls" "node_ok S h m ?k (ends_free ls) (last_size ls) (z, False)"
    "node_ok S h m (?k + z) False z (s, g)" "tiled S h m (?k + z + s) g s rs'"
    using t unfolding rs tiled_middle by simp_all
  have n: "?k + z + s + width rs' \<le> ?n" by (simp add: rs)
  have "tiled S h' m 1 False 0 ls" by (rule tiled_left[OF ok(1) shape_pos[OF sh] _ lim ag]) auto
  moreover have "node_ok S h' m ?k (ends_free ls) (last_size ls) (z, False)"
    using ok(2) ag[of ?k] by (auto simp: node_ok_def agree_def Let_def)
  moreover have "node_ok S h' m (?k + z) False z (s, g)"
    using ok(3) tag[of "?k + z"] a by (auto simp: node_ok_def Let_def rs)
  moreover have "tiled S h' m (?k + z + s) g s rs'" by (rule tiled_right[OF ok(4) n ag]) (use a z pos in auto)
  ultimately show ?thesis unfolding rs tiled_middle by simp
qed

lemma write_ok:
  assumes ok: "heap_ok h sl Bs L G" and p: "(p, a) \<in> L" and w: "writes p a h h'"
  shows "heap_ok h' sl Bs L G"
proof -
  let ?b = "p - 16"
  note ok' = heap_okD[OF ok]
  obtain t l d where h': "h' = h\<lparr>bh_tag := t, bh_left := l, bh_data := d\<rparr>" "\<And>x. x \<notin> node_at ?b ` {0<..<a} \<Longrightarrow> t x = bh_tag h x"
    "\<And>x. x \<notin> node_at ?b ` {0<..a} \<Longrightarrow> l x = bh_left h x" "\<And>x. x \<notin> node_at ?b ` {..<a} \<Longrightarrow> d x = bh_data h x"
    using w by (auto simp: writes_def)
  have z: "(?b, a, False) \<in> nodes Bs" "a \<le> a" using ok'(7) p unfolding owned_ok_def by blast+
  obtain m ls rs where m: "(m, ls @ (a, False) # rs) \<in> set Bs" "?b = node_at m (Suc (width ls))" "0 < a" using nodesE[OF z(1)] by blast
  let ?B = "(m, ls @ (a, False) # rs)"
  have seg: "(?b, a, False) \<in> segs m 1 (ls @ (a, False) # rs)" unfolding segs_split using m(2) by auto
  have cells: "node_at ?b i \<in> room ?B" if "i \<le> a" for i using segs_room[OF seg, of i] that z(2) by simp
  have small: "x \<notin> node_at ?b ` {..<a}" if x: "x \<in> set (bh_q8 h # sl)" for x
  proof
    assume "x \<in> node_at ?b ` {..<a}"
    then obtain i where i: "i < a" "x = node_at ?b i" by auto
    show False
    proof (cases "x = bh_q8 h")
      case True
      then show False using cells[of i] i ok'(2)[OF m(1)] by (simp add: block_ok_def env_ok_def room_def)
    next
      case False
      then have "(x, 1, True) \<in> nodes Bs" using x ok'(4) by simp
      from nodes_disjoint[OF ok'(3) this z(1), of 0 i] show False using i z(2) by (simp add: node_at_def)
    qed
  qed
  then have tg: "t x = bh_tag h x" if "x \<in> set (bh_q8 h # sl)" for x using that h'(2)[of x] by fastforce
  have rep: "small_rep h' sl"
  proof -
    have "dlist_rep (small_store h') (bh_q8 h) sl"
      by (rule dlist_rep_frame[of "small_store h"])
        (use ok'(1) h'(1,4) small tg in \<open>auto simp: small_rep_def small_store_def small_prev_def\<close>)
    then show ?thesis using ok'(1) h'(1) by (simp add: small_rep_def)
  qed
  have "block_ok h' sl B" if B: "B \<in> set Bs" for B
  proof -
    obtain m2 ns where B': "B = (m2, ns)" by (cases B)
    have b: "env_ok h m2 sl (Suc (width ns))" "tiled (set sl) h m2 1 False 0 ns" "shape ns" "m2 AND 4095 = 0"
      using ok'(2)[OF B] by (simp_all add: block_ok_def B')
    have "tiled (set sl) h' m2 1 False 0 ns"
    proof (cases "B = ?B")
      case True
      then have e: "m2 = m" "ns = ls @ (a, False) # rs" by (simp_all add: B')
      have lim: "16 * Suc (width ns) < 2 ^ 32" using b(1) by (simp add: env_ok_def)
      have "bh_tag h' = t" "bh_left h' = l" by (simp_all add: h'(1))
      then show ?thesis using h'(2,3) unfolding e m(2) by (intro written_tiled[OF b(2,3)[unfolded e] m(3) lim[unfolded e] z(2)]) simp_all
    next
      case False
      then have dis: "room ?B \<inter> room B = {}" using ok'(3) B m(1) unfolding apart_def pairwise_def by blast
      show ?thesis
      proof (rule tiled_agree[OF b(2)])
        fix x assume "x \<in> cover m2 1 ns"
        then obtain i where "i \<le> Suc (width ns)" "x = node_at m2 i" using cover_upto[of x m2 1 ns] by auto
        then have "x \<in> room B" by (simp add: B' room_def near_at)
        then have "x \<notin> node_at ?b ` {..a}" using cells dis by blast
        moreover have "node_at ?b ` {0<..<a} \<subseteq> node_at ?b ` {..a}" "node_at ?b ` {0<..a} \<subseteq> node_at ?b ` {..a}" by (intro image_mono; auto)+
        ultimately have "x \<notin> node_at ?b ` {0<..<a}" "x \<notin> node_at ?b ` {0<..a}" by blast+
        then show "agree (set sl) h (set sl) h' x" using h'(2)[of x] h'(3)[of x] by (simp add: h'(1) agree_def)
      qed
    qed
    then show ?thesis using b rep h'(1) by (simp add: B' block_ok_def env_ok_def)
  qed
  moreover have "clean h' G"
    unfolding clean_def
  proof (intro ballI impI)
    fix x assume x: "x \<in> snd G" "x \<notin> cells (fst (fst G))" "x \<noteq> snd (fst G)"
    have "x \<notin> node_at ?b ` {0<..<a}"
    proof
      assume "x \<in> node_at ?b ` {0<..<a}"
      then obtain i where "i < a" "x = node_at ?b i" by auto
      then show False using x(2) cells[of i] room_cells[OF ok m(1)] by auto
    qed
    then show "bh_tag h' x = 0" using ok'(9) x h'(1,2) by (simp add: clean_def)
  qed
  ultimately show ?thesis using ok'(3-8,10) rep h'(1) by (simp add: heap_ok_def lent_def bigs_def)
qed

section \<open>The B-tree as an index by size\<close>

text \<open>
  What the allocator asks of the tree: among what the calls so far have left in it, the smallest node that is large
  enough.
\<close>

locale size_index =
  fixes best :: "btree_call list \<Rightarrow> u64 \<Rightarrow> u64 option"
  assumes best_fit: "tree_of cs = Some T \<Longrightarrow> \<forall>x \<in> T. unat (snd x) < 2 ^ 28 \<Longrightarrow> unat sz < 2 ^ 28 \<Longrightarrow> best cs sz = Some b \<Longrightarrow>
      \<exists>s. (b, s) \<in> T \<and> sz \<le> s \<and> (\<forall>x \<in> T. sz \<le> snd x \<longrightarrow> s \<le> snd x)"
    and best_none: "tree_of cs = Some T \<Longrightarrow> \<forall>x \<in> T. unat (snd x) < 2 ^ 28 \<Longrightarrow> unat sz < 2 ^ 28 \<Longrightarrow> best cs sz = None \<Longrightarrow>
      x \<in> T \<Longrightarrow> snd x < sz"
begin

lemma tree_alloc_ok:
  assumes ok: "heap_ok h sl Bs L G" and a: "0 < a" "16 * a < 2 ^ 28"
  shows "case btree_get best (word_of_nat (16 * a)) h of
      (Some b, h2) \<Rightarrow> \<exists>p h3. split_node b (ucast (bsize h2 b)) (word_of_nat (16 * a)) h2 = Inr (p, h3) \<and> served a L G (Some p) h3
    | (None, h2) \<Rightarrow> h2 = h \<and> (\<forall>b z. (b, z) \<in> large (nodes Bs) \<longrightarrow> z < a)"
proof -
  let ?w = "word_of_nat (16 * a) :: u64" and ?T = "in_bytes (large (nodes Bs))"
  note ok' = heap_okD[OF ok]
  have T: "tree_of (bh_btree h) = Some ?T" using ok'(5) by (simp add: qs_ok_def bigs_def)
  have un: "unat (word_of_nat (16 * z) :: u64) = 16 * z" if "16 * z < 2 ^ 28" for z by (rule unat_of_size) (use that in simp)
  have in_T: "16 * z < 2 ^ 28" if "(b, z) \<in> large (nodes Bs)" for b z using node_size(2)[OF ok, of b z True] that by (simp add: large_def)
  have lim: "\<forall>x \<in> ?T. unat (snd x) < 2 ^ 28" using in_T un by (auto simp del: of_nat_mult)
  have w: "unat ?w < 2 ^ 28" using un[OF a(2)] a(2) by simp
  show ?thesis
  proof (cases "best (bh_btree h) ?w")
    case None
    have "z < a" if z: "(b, z) \<in> large (nodes Bs)" for b z
    proof -
      have "(b, word_of_nat (16 * z)) \<in> ?T" using z by (rule rev_image_eqI) (rule split[symmetric])
      from best_none[OF T lim w None this] show ?thesis
        unfolding snd_conv using un[OF in_T[OF z]] un[OF a(2)] by (simp add: word_less_nat_alt del: of_nat_mult)
    qed
    then show ?thesis using None by (simp add: btree_get_def)
  next
    case (Some b)
    obtain s where s: "(b, s) \<in> ?T" "?w \<le> s" using best_fit[OF T lim w Some] by blast
    then obtain z where z: "(b, z) \<in> large (nodes Bs)" "s = word_of_nat (16 * z)" by (auto simp del: of_nat_mult)
    have bN: "(b, z, True) \<in> nodes Bs" "63 < z" using z(1) by (auto simp: large_def)
    have az: "a \<le> z" using s(2) un[OF in_T[OF z(1)]] un[OF a(2)] unfolding z(2) by (simp add: word_le_nat_alt del: of_nat_mult)
    obtain m ls rs where m: "(m, ls @ (z, True) # rs) \<in> set Bs" "b = node_at m (Suc (width ls))" using nodesE[OF bN(1)] by blast
    let ?h1 = "h\<lparr>bh_btree := bh_btree h @ [BtreeNodeDel b]\<rparr>" and ?z = "word_of_nat (16 * z) :: u64"
    have sz: "ucast (bsize h b) = ?z" using node_size(3)[OF ok bN(1)] bN(2) by simp
    have "bigs ?h1 = qs_remove b z (bigs h)" using bN(2) by (simp add: bigs_def qs_remove_def)
    then have q: "qs_ok (bigs ?h1) (nodes Bs - {(b, z, True)})"
      using qs_ok_remove[OF ok'(5) bN(1)] nodes_unique[OF ok'(3) bN(1)] by (metis (full_types))
    have u: "bh_tag (unlink z b h) = bh_tag h" "bh_data (unlink z b h) = bh_data h" using bN(2) by (simp_all add: unlink_def)
    obtain h' sl' Bs' where h': "split_node b ?z ?w (set_used b ?z ?h1) = Inr (b + 16, h')"
      "heap_ok h' sl' Bs' (insert (b + 16, cut_size z a) L) G" "b + 16 \<notin> fst ` L"
      unfolding m(2) by (rule heap_take[OF ok m(1) a(1) az, of ?h1]) (use q u m(2) in simp_all)
    have "?z \<noteq> 0" using un[OF in_T[OF z(1)]] bN(2) by (metis mult_is_0 not_less_zero unat_0 zero_neq_numeral)
    then have "b + ?z \<noteq> b" by simp
    note f = set_used_fields(1)[OF this, of ?h1]
    have "ucast (bsize (set_used b ?z ?h1) b) = ?z" unfolding f using sz by simp
    then show ?thesis using Some h'(1) servedI[OF h'(2,3) az] sz by (simp add: btree_get_def)
  qed
qed

end

text \<open>The tree of the model, after the given calls.\<close>

primrec btree_apply :: "btree_call \<Rightarrow> btree_top \<Rightarrow> btree_top result" where
  "btree_apply (BtreeInsert b sz) t = btree_insert b sz t"
| "btree_apply (BtreeNodeDel b) t = btree_leaf_del b t"

definition btree_after :: "btree_call list \<Rightarrow> btree_top result" where
  "btree_after cs = foldE btree_apply cs btree_init"

definition btree_best :: "btree_call list \<Rightarrow> u64 \<Rightarrow> u64 option" where
  "btree_best cs sz = (case bindE (btree_after cs) (btree_remove (ucast (sz * 16))) of
     Inr (Some (BLeaf b), t) \<Rightarrow> Some b | _ \<Rightarrow> None)"

abbreviation entries :: "(u64 \<times> u64) set \<Rightarrow> (u32 \<times> u64) set" where
  "entries T \<equiv> (\<lambda>(b, s). (ucast (s * 16), b)) ` T"

lemma btree_after_ok:
  assumes "tree_of cs = Some T"
  shows "\<exists>t. btree_after cs = Inr t \<and> btree_ok t \<and> set (flat (bt_kids t)) = entries T \<and> distinct (map snd (flat (bt_kids t)))"
  using assms
proof (induction cs arbitrary: T rule: rev_induct)
  case Nil
  then show ?case using btree_init_ok by (simp add: tree_of_def btree_after_def) (simp add: btree_init_def)
next
  case (snoc c cs)
  obtain T0 where T0: "tree_of cs = Some T0" "tree_step c T0 = Some T" using snoc.prems by (auto simp: tree_of_snoc bind_eq_Some_conv)
  obtain t where t: "btree_after cs = Inr t" "btree_ok t" "set (flat (bt_kids t)) = entries T0" "distinct (map snd (flat (bt_kids t)))"
    using snoc.IH[OF T0(1)] by blast
  have addrs: "snd ` set (flat (bt_kids t)) = fst ` T0" unfolding t(3) by force
  have step: "btree_after (cs @ [c]) = btree_apply c t" using t(1) by (cases "btree_apply c t") (simp_all add: btree_after_def foldE_append)
  show ?case
  proof (cases c)
    case (BtreeInsert b s)
    then have b: "b \<notin> fst ` T0" "T = insert (b, s) T0" using T0(2) by (auto split: if_splits)
    obtain t' where "btree_insert b s t = Inr t'" "btree_ok t'" "flat (bt_kids t') = insort_key fst (ucast (s * 16), b) (flat (bt_kids t))"
      using btree_insert_ok[OF t(2)] by blast
    moreover have "distinct (map snd (insort_key fst (ucast (s * 16), b) (flat (bt_kids t))))"
    proof -
      have "mset (map snd (insort_key fst (ucast (s * 16), b) (flat (bt_kids t)))) = add_mset b (mset (map snd (flat (bt_kids t))))" by simp
      moreover have "b \<notin> set (map snd (flat (bt_kids t)))" using b(1) addrs by simp
      ultimately show ?thesis using t(4) by (metis distinct.simps(2) mset.simps(2) mset_eq_imp_distinct_iff)
    qed
    ultimately show ?thesis unfolding step unfolding BtreeInsert using t(3) b(2) by (simp add: set_insort_key)
  next
    case (BtreeNodeDel b)
    then have b: "b \<in> fst ` T0" "T = {x \<in> T0. fst x \<noteq> b}" using T0(2) by (auto split: if_splits)
    then have "b \<in> snd ` set (flat (bt_kids t))" unfolding addrs by simp
    then obtain xs k ys t' where d: "flat (bt_kids t) = xs @ (k, b) # ys" "btree_leaf_del b t = Inr t'" "btree_ok t'" "flat (bt_kids t') = xs @ ys"
      using btree_leaf_del_ok[OF t(2)] by blast
    have nb: "b \<notin> snd ` set (xs @ ys)" using t(4) unfolding d(1) by auto
    have "set (xs @ ys) = {x \<in> entries T0. snd x \<noteq> b}" using nb unfolding t(3)[symmetric] d(1) by auto
    also have "\<dots> = entries T" unfolding b(2) by auto
    finally show ?thesis unfolding step unfolding BtreeNodeDel using d t(4) by simp
  qed
qed

lemma size_key: "unat (s :: u64) < 2 ^ 28 \<Longrightarrow> unat (ucast (s * 16) :: u32) = 16 * unat s"
proof -
  assume "unat s < 2 ^ 28"
  then have "unat (s * 16) = 16 * unat s" by (simp add: unat_word_ariths)
  then show ?thesis using \<open>unat s < 2 ^ 28\<close> by (simp add: unat_ucast_mod)
qed

interpretation bt: size_index btree_best
proof
  fix cs T and sz b :: u64 and x :: "u64 \<times> u64"
  assume T: "tree_of cs = Some T" and lim: "\<forall>x \<in> T. unat (snd x) < 2 ^ 28" and sz: "unat sz < 2 ^ 28"
  let ?s = "ucast (sz * 16) :: u32"
  obtain t where t: "btree_after cs = Inr t" "btree_ok t" "set (flat (bt_kids t)) = entries T" "distinct (map snd (flat (bt_kids t)))"
    using btree_after_ok[OF T] by blast
  have le: "ucast (r * 16) \<le> (ucast (q * 16) :: u32) \<longleftrightarrow> r \<le> q" if "unat r < 2 ^ 28" "unat q < 2 ^ 28" for r q :: u64
    using size_key[OF that(1)] size_key[OF that(2)] by (simp add: word_le_nat_alt)
  have best: "btree_best cs sz = (case btree_remove ?s t of Inr (Some (BLeaf b), t) \<Rightarrow> Some b | _ \<Rightarrow> None)"
    using t(1) by (simp add: btree_best_def)
  have keys: "sorted (map fst (flat (bt_kids t)))" using t(2) by (simp add: btree_ok_def)
  show "\<exists>s. (b, s) \<in> T \<and> sz \<le> s \<and> (\<forall>x \<in> T. sz \<le> snd x \<longrightarrow> s \<le> snd x)" if "btree_best cs sz = Some b"
  proof -
    have "btree_remove ?s t \<noteq> Inr (None, t)" using that unfolding best by auto
    then obtain xs k a ys t' where g: "flat (bt_kids t) = xs @ (k, a) # ys" "\<forall>x \<in> set xs. fst x < ?s" "?s \<le> k"
      "btree_remove ?s t = Inr (Some (BLeaf a), t')" using btree_remove_ok[OF t(2), of ?s] by blast
    then have f: "flat (bt_kids t) = xs @ (k, b) # ys" "\<forall>x \<in> set xs. fst x < ?s" "?s \<le> k" using that unfolding best by simp_all
    have "(k, b) \<in> entries T" unfolding t(3)[symmetric] f(1) by simp
    then obtain s where s: "(b, s) \<in> T" "k = ucast (s * 16)" by auto
    have "s \<le> snd x" if x: "x \<in> T" "sz \<le> snd x" for x
    proof -
      have "(ucast (snd x * 16), fst x) \<in> set (xs @ (k, b) # ys)" unfolding f(1)[symmetric] t(3) using x(1) by force
      moreover have "\<not> (ucast (snd x * 16) :: u32) < ?s" using le[of sz "snd x"] x lim sz by auto
      ultimately have "k \<le> ucast (snd x * 16)" using f(2) keys unfolding f(1) by (auto simp: sorted_append)
      then show ?thesis unfolding s(2) using le[of s "snd x"] s(1) x(1) lim by auto
    qed
    moreover have "sz \<le> s" using f(3) le[of sz s] s lim sz by auto
    ultimately show ?thesis using s(1) by blast
  qed
  show "snd x < sz" if "btree_best cs sz = None" "x \<in> T"
  proof -
    have "\<forall>y \<in> set (flat (bt_kids t)). fst y < ?s" using btree_remove_ok[OF t(2), of ?s] that(1) unfolding best by auto
    moreover have "(ucast (snd x * 16), fst x) \<in> set (flat (bt_kids t))" unfolding t(3) using that(2) by force
    ultimately have "(ucast (snd x * 16) :: u32) < ?s" by fastforce
    then show ?thesis using le[of sz "snd x"] sz lim that(2) by (auto simp: not_le[symmetric])
  qed
qed

section \<open>A new block\<close>

lemma aligned_low: "m AND 4095 = 0 \<Longrightarrow> m AND 15 = (0 :: u64)"
proof -
  assume "m AND 4095 = 0"
  then have "(m AND 4095) AND 15 = 0" by simp
  then show ?thesis by (simp add: and.assoc)
qed

lemma nodes_Cons: "nodes (B # Bs) = {x \<in> segs (fst B) 1 (snd B). 0 < fst (snd x)} \<union> nodes Bs"
proof -
  have "(b, z, f) \<in> nodes Cs \<longleftrightarrow> (\<exists>C \<in> set Cs. (b, z, f) \<in> segs (fst C) 1 (snd C)) \<and> 0 < z" for b z f Cs
    unfolding nodes_def by force
  then have "(b, z, f) \<in> nodes (B # Bs) \<longleftrightarrow> (b, z, f) \<in> {x \<in> segs (fst B) 1 (snd B). 0 < fst (snd x)} \<union> nodes Bs" for b z f
    by auto
  then show ?thesis by auto
qed

lemma heap_new_block:
  assumes ok: "heap_ok h sl Bs L G" and m: "m AND 4095 = 0" and w: "0 < w" "16 * Suc w < 2 ^ 28"
    and new: "\<forall>B \<in> set Bs. room B \<inter> near m (Suc w) = {}" "bh_q8 h \<notin> near m (Suc w)" "0 \<notin> near m (Suc w)"
    and zero: "bsize h (node_at m (Suc w)) = 0"
  defines "h' \<equiv> new_block m (word_of_nat (16 * w + 32)) h" and "B \<equiv> (m, [(w, False), (0, False)])"
  shows "heap_ok h' sl (B # Bs) L ((add_mset (m, word_of_nat (16 * w + 32)) (fst (fst G)), snd (fst G)), snd G)"
    "node_at m 1 + 16 \<notin> fst ` L" "node_at m 1 \<notin># fast_blocks (bh_fast h')"
proof -
  let ?G = "((add_mset (m, word_of_nat (16 * w + 32)) (fst (fst G)), snd (fst G)), snd G)"
  note ok' = heap_okD[OF ok]
  have far: "x \<notin> near m (Suc w)" if "(x, z, f) \<in> nodes Bs" for x z f
  proof -
    obtain m2 ns where "(m2, ns) \<in> set Bs" "(x, z, f) \<in> segs m2 1 ns" using \<open>(x, z, f) \<in> nodes Bs\<close> by (auto simp: nodes_def)
    then have "x \<in> room (m2, ns)" using segs_room[of x z f m2 ns 0] by (simp add: node_at_def)
    then show ?thesis using new(1) \<open>(m2, ns) \<in> set Bs\<close> by blast
  qed
  have clear: "\<forall>i \<le> Suc w. node_at m i \<notin> set sl" using far ok'(4) near_at by blast
  have env: "env_ok h m sl (Suc w)" using ok'(1) w new aligned_low[OF m] by (simp add: env_ok_def)
  note t = new_block_tiled[OF env w(1) zero clear, folded h'_def]
  have f: "bh_fast h' = bh_fast h" "bigs h' = bigs h" "bh_returned h' = bh_returned h" "bh_q8 h' = bh_q8 h"
    by (simp_all add: h'_def new_block_def Let_def bigs_def)
  have rep: "small_rep h' sl" using t(1) by (simp add: env_ok_def)
  have rm: "room B = near m (Suc w)" by (simp add: B_def room_def)
  have "block_ok h' sl C" if "C \<in> set (B # Bs)" for C
  proof (cases "C = B")
    case True
    then show ?thesis using t(1-3) m by (simp add: B_def block_ok_def)
  next
    case False
    then show ?thesis using that block_ok_outside[OF ok'(2) t(4) rep] new(1) by simp
  qed
  moreover have "near m (Suc w) \<noteq> {}" by (simp add: near_def)
  then have "B \<notin> set Bs" using new(1) rm by blast
  then have "apart (B # Bs)" using ok'(3) new(1) w(2) rm by (auto simp: apart_def pairwise_insert Int_commute B_def)
  moreover have N: "nodes (B # Bs) = insert (node_at m 1, w, False) (nodes Bs)"
    unfolding nodes_Cons using w(1) by (auto simp: B_def)
  moreover have "qs_ok (bigs h') (nodes (B # Bs))" unfolding f(2) N by (rule qs_ok_cong[OF ok'(5)]) simp
  moreover have "owned_ok (fast_blocks (bh_fast h')) L (nodes (B # Bs))" unfolding f(1) N by (rule owned_ok_mono[OF ok'(7)]) simp
  moreover have "lent (B # Bs) h' = fst ?G" using ok'(8) f(3,4) by (simp add: lent_def region_def B_def prod_eq_iff)
  moreover have "clean h' ?G"
    unfolding clean_def
  proof (intro ballI impI)
    fix x assume x: "x \<in> snd ?G" "x \<notin> cells (fst (fst ?G))" "x \<noteq> snd (fst ?G)"
    have "unat (word_of_nat (16 * w + 32) :: u64) = 16 * w + 32" by (rule unat_below) (use w(2) in simp)
    then have "near m (Suc w) \<subseteq> cells (fst (fst ?G))" by (auto simp: near_def cells_def)
    then have "x \<notin> inner m (Suc w)" using x(2) inner_near[of m "Suc w"] by blast
    moreover have x': "x \<notin> cells (fst (fst G))" using x(2) by (simp add: cells_def)
    moreover have "x \<noteq> bh_q8 h" using x(3) ok'(8) by (metis lent_def fst_conv snd_conv)
    moreover have "x \<notin> set sl" using listed_cells[OF ok] x' by blast
    ultimately have "bh_tag h' x = bh_tag h x" using t(4) by (simp add: outside_ok_def agree_def)
    then show "bh_tag h' x = 0" using ok'(9) x x' by (simp add: clean_def)
  qed
  moreover have "unat (bh_a_alloced h') \<le> total (fst (fst ?G))"
  proof -
    have "unat (word_of_nat (16 * w + 32) :: u64) = 16 * w + 32" by (rule unat_below) (use w(2) in simp)
    moreover have "bh_a_alloced h' = bh_a_alloced h + word_of_nat (16 * w + 32)" by (simp add: h'_def new_block_def Let_def)
    ultimately show ?thesis using ok'(10) by (simp add: total_def unat_word_ariths)
  qed
  ultimately show "heap_ok h' sl (B # Bs) L ?G" using rep ok'(4,6) f(1) by (auto simp: heap_ok_def)
  have no: "(node_at m 1, z, False) \<notin> nodes Bs" for z using far[of "node_at m 1"] near_at[of 1 "Suc w" m] by auto
  show "node_at m 1 + 16 \<notin> fst ` L" "node_at m 1 \<notin># fast_blocks (bh_fast h')"
    using used_apart[OF ok'(7) no] f(1) by simp_all
qed

lemma tasize_ok:
  assumes "0 < a" "16 * a \<le> 2 ^ 27 - 64" "unat al < 2 ^ 62"
  shows "\<exists>w. block_tasize al (word_of_nat (16 * a)) = word_of_nat (16 * w + 32) \<and> a \<le> w \<and> 16 * w + 32 \<le> 2 ^ 27"
proof -
  let ?s = "word_of_nat (16 * a) :: u64"
  define e where "e = 16 * a + (16 * a + unat al) div 3"
  define t where "t = (e + 4095) div 4096 * 4096"
  have s: "unat ?s = 16 * a" by (rule unat_below) (use assms in simp)
  have "unat (?s + al) = 16 * a + unat al" using s assms by (simp add: unat_word_ariths del: of_nat_mult)
  then have "unat ((?s + al) div 3) = (16 * a + unat al) div 3" by (simp add: unat_div)
  then have "unat (?s + (?s + al) div 3) = e" using s assms by (simp add: unat_word_ariths e_def del: of_nat_mult)
  moreover have "e + 4095 < 2 ^ 64" using assms by (simp add: e_def)
  ultimately have t1: "unat (page_align (?s + (?s + al) div 3)) = t" by (simp add: page_align_nat t_def)
  define n where "n = (if (if t > 2 ^ 27 - 32 then 2 ^ 27 - 32 else t) < 2 ^ 21 then 2 ^ 21 else if t > 2 ^ 27 - 32 then 2 ^ 27 - 32 else t)"
  have "unat (block_tasize al ?s) = n"
    unfolding block_tasize_def Let_def n_def by (simp add: word_less_nat_alt t1 HEADERSIZE_def del: of_nat_mult)
  moreover have "word_of_nat (unat x) = x" for x :: u64 by simp
  ultimately have b: "block_tasize al ?s = word_of_nat n" by metis
  have t16: "t mod 16 = 0" "e \<le> t"
  proof -
    have "t = 16 * ((e + 4095) div 4096 * 256)" by (simp add: t_def)
    then show "t mod 16 = 0" by simp
    have "e + 4095 = t + (e + 4095) mod 4096" "(e + 4095) mod 4096 < 4096" unfolding t_def by simp_all
    then show "e \<le> t" by linarith
  qed
  have fit: "16 * a + 32 \<le> e \<or> 16 * a < 96" using div_le_mono[of 96 "16 * a + unat al" 3] by (auto simp: e_def)
  then have "16 * a + 32 \<le> n" using t16(2) assms(2) by (auto simp: n_def)
  moreover have "n mod 16 = 0" using t16(1) by (auto simp: n_def)
  moreover have "n \<le> 2 ^ 27" by (simp add: n_def)
  ultimately obtain w where "n = 16 * w + 32" "a \<le> w" by (intro that[of "(n - 32) div 16"]) (auto simp: mod_eq_0_iff_dvd elim!: dvdE)
  then show ?thesis using b \<open>n \<le> 2 ^ 27\<close> by auto
qed

text \<open>
  The limit on the size is exact: for 16 bytes more the block is too small, the size of the rest wraps around, and its list
  is not defined.
\<close>

lemma block_alloc_aux_short:
  assumes "unat (bh_a_alloced h) < 2 ^ 62" "big_alloc_aux (word_of_nat (2 ^ 27 - 32)) k = (Some m, k1)"
  shows "\<exists>e. block_alloc_aux big_alloc_aux (word_of_nat (2 ^ 27 - 48)) h k = Inl (Undefined e)"
proof -
  let ?s = "word_of_nat (2 ^ 27 - 48) :: u64" and ?al = "bh_a_alloced h"
  define e where "e = 2 ^ 27 - 48 + (2 ^ 27 - 48 + unat ?al) div 3"
  have "unat (?s + ?al) = 2 ^ 27 - 48 + unat ?al" using assms(1) by (simp add: unat_word_ariths)
  then have "unat ((?s + ?al) div 3) = (2 ^ 27 - 48 + unat ?al) div 3" by (simp add: unat_div)
  then have u: "unat (?s + (?s + ?al) div 3) = e" using assms(1) by (simp add: unat_word_ariths e_def)
  then have "e \<le> unat (page_align (?s + (?s + ?al) div 3))"
    using page_align_fits(1)[of "?s + (?s + ?al) div 3"] assms(1) by (simp add: e_def)
  moreover have "2 ^ 27 < e" using div_le_mono[of "2 ^ 27 - 48" "2 ^ 27 - 48 + unat ?al" 3] by (simp add: e_def)
  ultimately have "page_align (?s + (?s + ?al) div 3) > BTMALLOC" by (simp add: word_less_nat_alt HEADERSIZE_def)
  then have t: "block_tasize ?al ?s = word_of_nat (2 ^ 27 - 32)" by (simp add: block_tasize_def HEADERSIZE_def)
  have "size2fl (- 16) = Inl (Undefined ''bsr of 0'')" by (simp add: size2fl_def flsq_def fast_bin)
  then show ?thesis using assms(2) unfolding block_alloc_aux_def Let_def t
    by (simp add: split_node_def free_rest_def fast_free_def HEADERSIZE_def)
qed

section \<open>Memory from TMI\<close>

text \<open>\<open>big_alloc_aux\<close> takes memory from the upper end of the heap that TMI keeps; what is returned is not used again.\<close>

definition tmi_big_alloc :: "u64 \<Rightarrow> u64 \<Rightarrow> u64 \<Rightarrow> tmi_memory \<Rightarrow> u64 option \<times> tmi_memory" where
  "tmi_big_alloc pers slab sz M =
     (let (p, M1) = get_mmap_memory pers slab sz M in (if p = - 1 then None else Some p, M1))"

abbreviation gap :: "tmi_memory \<Rightarrow> u64 set" where
  "gap M \<equiv> {x. unat (tm_slabPos M) \<le> unat x \<and> unat x < unat (tm_mmapPos M)}"

text \<open>\<open>A\<close> is the memory that others were given. What the thread was given is given only once.\<close>

definition in_region :: "nat \<Rightarrow> u64 \<times> u64 \<Rightarrow> bool" where
  "in_region x r \<longleftrightarrow> unat (fst r) \<le> x \<and> x < unat (fst r) + unat (snd r)"

definition mem_ok :: "u64 set \<Rightarrow> tmi_memory \<Rightarrow> ledger \<Rightarrow> bool" where
  "mem_ok A M G \<longleftrightarrow> tm_initialized M \<and> unat (tm_mmapPos M) mod 4096 = 0 \<and> 0 < unat (tm_slabPos M) \<and>
     (\<forall>x \<in># fst (fst G). unat (tm_mmapPos M) \<le> unat (fst x) \<and> unat (fst x) + unat (snd x) \<le> 2 ^ 64) \<and>
     unat (tm_mmapPos M) \<le> unat (snd (fst G)) \<and> gap M \<subseteq> snd G \<and> total (fst (fst G)) + unat (tm_mmapPos M) \<le> 2 ^ 62 \<and>
     A \<inter> gap M = {} \<and> (\<forall>r \<in># fst (fst G). \<forall>y \<in> A. \<not> in_region (unat y) r) \<and> {snd (fst G), snd (fst G) + 16} \<inter> A = {} \<and>
     unat (snd (fst G)) < 2 ^ 63 \<and> (\<forall>x. size (filter_mset (in_region x) (fst (fst G))) \<le> 1)"

lemma mem_okD:
  assumes "mem_ok A M G"
  shows "tm_initialized M" "unat (tm_mmapPos M) mod 4096 = 0" "0 < unat (tm_slabPos M)"
    "\<forall>x \<in># fst (fst G). unat (tm_mmapPos M) \<le> unat (fst x) \<and> unat (fst x) + unat (snd x) \<le> 2 ^ 64"
    "unat (tm_mmapPos M) \<le> unat (snd (fst G))" "gap M \<subseteq> snd G" "total (fst (fst G)) + unat (tm_mmapPos M) \<le> 2 ^ 62"
    "A \<inter> gap M = {}" "\<forall>r \<in># fst (fst G). \<forall>y \<in> A. \<not> in_region (unat y) r" "{snd (fst G), snd (fst G) + 16} \<inter> A = {}"
    "unat (snd (fst G)) < 2 ^ 63" "size (filter_mset (in_region x) (fst (fst G))) \<le> 1"
  using assms by (simp_all add: mem_ok_def)

abbreviation lend :: "u64 \<times> u64 \<Rightarrow> ledger \<Rightarrow> ledger" where
  "lend x G \<equiv> ((add_mset x (fst (fst G)), snd (fst G)), snd G)"

lemma page_aligned: "unat (m :: u64) mod 4096 = 0 \<Longrightarrow> m AND 4095 = 0"
proof -
  assume "unat m mod 4096 = 0"
  then have "unat (m mod 4096) = 0" by (simp add: unat_mod)
  moreover have "m AND 4095 = take_bit 12 m" by (simp add: take_bit_eq_mask mask_eq_exp_minus_1)
  ultimately show ?thesis by (simp add: unat_eq_0 take_bit_eq_mod)
qed

lemma near_unat:
  assumes "unat m + 16 * n < 2 ^ 64" "x \<in> near m n"
  shows "unat m \<le> unat x \<and> unat x \<le> unat m + 16 * n"
proof -
  obtain i where i: "i \<le> n" "x = m + word_of_nat (16 * i)" using assms(2) by (auto simp: near_def node_at_def)
  have "unat (word_of_nat (16 * i) :: u64) = 16 * i" using i assms(1) by (simp add: unsigned_of_nat take_bit_nat_eq_self del: of_nat_mult)
  then have "unat x = unat m + 16 * i" unfolding i(2) using assms(1) i(1) by (simp add: unat_word_ariths del: of_nat_mult)
  then show ?thesis using i(1) by simp
qed

lemma tmi_block:
  assumes mem: "mem_ok A M G" and w: "16 * w + 32 \<le> 2 ^ 27"
    and fits: "unat (tm_slabPos M) + 2 ^ 27 \<le> unat (tm_mmapPos M)"
  defines "t \<equiv> word_of_nat (16 * w + 32) :: u64"
  obtains m M' where "tmi_big_alloc pers slab t M = (Some m, M')" "m AND 4095 = 0" "mem_ok A M' (lend (m, t) G)"
    "near m (Suc w) \<subseteq> gap M" "0 \<notin> near m (Suc w)" "tm_slabPos M' = tm_slabPos M" "tm_mmapPos M' = m" "unat m + 2 ^ 27 \<ge> unat (tm_mmapPos M)"
proof -
  note M = mem_okD[OF mem]
  have t: "unat t = 16 * w + 32" unfolding t_def by (rule unat_below) (use w in simp)
  define r where "r = (unat t + 4095) div 4096 * 4096"
  have r: "unat t \<le> r" "r \<le> 2 ^ 27" "r mod 4096 = 0"
  proof -
    have "unat t + 4095 = r + (unat t + 4095) mod 4096" "(unat t + 4095) mod 4096 < 4096" unfolding r_def by simp_all
    then show "unat t \<le> r" by linarith
    have "(unat t + 4095) div 4096 \<le> (2 ^ 27 + 4095) div 4096" by (rule div_le_mono) (use w t in simp)
    then show "r \<le> 2 ^ 27" by (simp add: r_def)
    show "r mod 4096 = 0" by (simp add: r_def)
  qed
  define s :: u64 where "s = (if t mod of_nat TMI_PAGESIZE \<noteq> 0 then (t div of_nat TMI_PAGESIZE + 1) * of_nat TMI_PAGESIZE else t)"
  have s: "unat s = r" unfolding s_def r_def by (rule mmap_size) (use r(2) in \<open>simp add: r_def\<close>)
  define m where "m = tm_mmapPos M - s"
  have "s \<le> tm_mmapPos M" using s r(2) fits by (simp add: word_le_nat_alt)
  then have m: "unat m = unat (tm_mmapPos M) - r" by (simp add: m_def unat_sub s)
  have "unat m mod 4096 = 0" unfolding m using M(2) r(3) fits r(2) by (simp add: mod_eq_0_iff_dvd dvd_diff_nat)
  note al = this page_aligned[OF this]
  have "memory_init pers slab M = M" using M(1) by (simp add: memory_init_def)
  then have g: "get_mmap_memory pers slab t M = (m, M\<lparr>tm_mmapPos := m\<rparr>)" by (simp add: get_mmap_memory_def Let_def m_def s_def)
  have "unat (- 1 :: u64) = 2 ^ 64 - 1" by (simp add: unsigned_minus_1_eq_mask mask_eq_exp_minus_1)
  then have "unat (- 1 :: u64) mod 4096 \<noteq> 0" by simp
  then have "m \<noteq> - 1" using al(1) by auto
  then have a: "tmi_big_alloc pers slab t M = (Some m, M\<lparr>tm_mmapPos := m\<rparr>)" by (simp add: tmi_big_alloc_def g)
  have top: "unat (tm_mmapPos M) < 2 ^ 64" using unsigned_less[of "tm_mmapPos M"] by simp
  have up: "unat m + unat t \<le> unat (tm_mmapPos M)" "unat (tm_slabPos M) \<le> unat m" using m r fits by simp_all
  have nx: "unat m \<le> unat x \<and> unat x < unat (tm_mmapPos M)" if "x \<in> near m (Suc w)" for x
    using near_unat[OF _ that] up t top by simp
  have "gap (M\<lparr>tm_mmapPos := m\<rparr>) \<subseteq> snd G" using M(6) up(1) by auto
  moreover have nr: "near m (Suc w) \<subseteq> gap M" "0 \<notin> near m (Suc w)" using nx up(2) M(3) by fastforce+
  moreover have "\<not> in_region (unat y) (m, t)" if "y \<in> A" for y using M(8) that up by (force simp: in_region_def)
  then have "\<forall>r \<in># add_mset (m, t) (fst (fst G)). \<forall>y \<in> A. \<not> in_region (unat y) r" using M(9) by simp
  moreover have "A \<inter> gap (M\<lparr>tm_mmapPos := m\<rparr>) = {}" using M(8) up(1) by auto
  moreover have "size (filter_mset (in_region x) (add_mset (m, t) (fst (fst G)))) \<le> 1" for x
  proof (cases "in_region x (m, t)")
    case True
    then have "\<not> in_region x r" if "r \<in># fst (fst G)" for r using M(4) that up(1) by (force simp: in_region_def)
    then show ?thesis using True by (simp add: filter_mset_eq_conv filter_mset_False)
  qed (use M(12) in simp)
  ultimately have "mem_ok A (M\<lparr>tm_mmapPos := m\<rparr>) (lend (m, t) G)"
    using M al(1) up top t by (simp add: mem_ok_def total_def) force
  with nr show thesis using that[OF a al(2)] m r(2) by simp
qed

section \<open>Where the objects are\<close>

lemma cells_in_region:
  assumes "mem_ok A M G" "x \<in> cells (fst (fst G))"
  shows "\<exists>r \<in># fst (fst G). in_region (unat x) r"
proof -
  obtain m s i where ms: "(m, s) \<in># fst (fst G)" "i < unat s div 16" "x = node_at m i" using assms(2) by (auto simp: cells_def)
  then have r: "unat m + unat s \<le> 2 ^ 64" using assms(1) by (auto simp: mem_ok_def)
  have "16 * i < unat s" using ms(2) by (simp add: less_mult_imp_div_less mult.commute div_less_iff_less_mult)
  then have "in_region (unat x) (m, s)" using near_unat[of m i x] near_at[of i i m] r ms(3) by (simp add: in_region_def)
  then show ?thesis using ms(1) by blast
qed

lemma cells_above:
  assumes "mem_ok A M G" "x \<in> cells (fst (fst G))"
  shows "unat (tm_mmapPos M) \<le> unat x" "x \<notin> A"
  using cells_in_region[OF assms] assms(1) by (force simp: mem_ok_def in_region_def)+

definition object_bytes :: "u64 \<times> nat \<Rightarrow> nat set" where
  "object_bytes x = {unat (fst x) ..< unat (fst x) + 16 * snd x - 8}"

lemma object_place:
  assumes ok: "heap_ok h sl Bs L G" and mem: "mem_ok A M G" and p: "(p, a) \<in> L"
  obtains B b where "B \<in> set Bs" "(p - 16, a, False) \<in> nodes Bs" "unat p = 16 * b + 16" "p - 16 = word_of_nat (16 * b)"
    "\<And>x. x \<in> object_bytes (p, a) \<Longrightarrow> in_region x (region B)"
proof -
  note ok' = heap_okD[OF ok]
  have z: "(p - 16, a, False) \<in> nodes Bs" using ok'(7) p unfolding owned_ok_def by blast
  obtain m ls rs where m: "(m, ls @ (a, False) # rs) \<in> set Bs" "p - 16 = node_at m (Suc (width ls))" "0 < a" using nodesE[OF z] by blast
  let ?B = "(m, ls @ (a, False) # rs)" and ?w = "width (ls @ (a, False) # rs)"
  have "region ?B \<in># fst (fst G)" using m(1) unfolding ok'(8)[symmetric] lent_def by simp
  then have "unat m + unat (word_of_nat (16 * ?w + 32) :: u64) \<le> 2 ^ 64" using mem by (force simp: mem_ok_def region_def)
  moreover have "16 * Suc ?w < 2 ^ 28" using ok'(3) m(1) by (force simp: apart_def)
  then have s: "unat (word_of_nat (16 * ?w + 32) :: u64) = 16 * ?w + 32" by (intro unat_below) simp
  ultimately have top: "unat m + 16 * ?w + 32 \<le> 2 ^ 64" by simp
  have at: "unat (node_at m j) = unat m + 16 * j" if "j \<le> Suc ?w" for j
  proof -
    have "unat (word_of_nat (16 * j) :: u64) = 16 * j" using that top by (simp add: unsigned_of_nat take_bit_nat_eq_self del: of_nat_mult)
    then show ?thesis unfolding node_at_def using that top by (simp add: unat_word_ariths del: of_nat_mult)
  qed
  have "m AND 4095 = 0" using ok'(2)[OF m(1)] by (simp add: block_ok_def)
  then have "take_bit 12 m = 0" by (simp add: take_bit_eq_mask mask_eq_exp_minus_1)
  then have "unat m mod 2 ^ 12 = 0" by (metis take_bit_eq_mod unat_0 unsigned_take_bit_eq)
  then obtain c where c: "unat m = 16 * c" using dvd_trans[of 16 "2 ^ 12" "unat m"] by (auto simp: mod_eq_0_iff_dvd)
  define b where "b = c + Suc (width ls)"
  have p': "p = node_at m (Suc (Suc (width ls)))" using m(2) by (simp add: node_at_def algebra_simps)
  have up: "unat p = 16 * b + 16" "unat (p - 16) = 16 * b" unfolding p' b_def using at m(2,3) c p' by simp_all
  show thesis
  proof (rule that[OF m(1) z up(1)])
    show "p - 16 = word_of_nat (16 * b)" unfolding up(2)[symmetric] by simp
    show "in_region x (region ?B)" if "x \<in> object_bytes (p, a)" for x
      using that up s c unfolding b_def by (auto simp: object_bytes_def in_region_def region_def)
  qed
qed

lemma object_above:
  assumes ok: "heap_ok h sl Bs L G" and mem: "mem_ok A M G" and p: "(p, a) \<in> L"
  shows "unat (tm_mmapPos M) \<le> unat p"
proof -
  have "0 < a" using heap_okD(7)[OF ok] p nodes_pos unfolding owned_ok_def by blast
  then have "unat p \<in> object_bytes (p, a)" by (simp add: object_bytes_def)
  then obtain B where B: "B \<in> set Bs" "in_region (unat p) (region B)" using object_place[OF ok mem p] by metis
  then have "region B \<in># fst (fst G)" unfolding heap_okD(8)[OF ok, symmetric] lent_def by simp
  then show ?thesis using mem_okD(4)[OF mem] B(2) by (force simp: in_region_def)
qed

lemma not_slab:
  assumes "unat st + unat sz \<le> unat (tm_slabPos M)" "unat (tm_slabPos M) \<le> unat (tm_mmapPos M)" "unat (tm_mmapPos M) \<le> unat p"
  shows "\<not> is_slab st sz p"
proof -
  have "unat (p - st) = unat p - unat st" using assms by (intro unat_sub) (simp add: word_le_nat_alt)
  then show ?thesis using assms by (simp add: is_slab_def word_less_nat_alt)
qed

section \<open>Allocation\<close>

definition granted :: "u64 set \<Rightarrow> u64 \<Rightarrow> nat \<Rightarrow> (u64 \<times> nat) set \<Rightarrow> bheap \<Rightarrow> tmi_memory \<Rightarrow> ledger \<Rightarrow> bool" where
  "granted A p a L h M G \<longleftrightarrow> served a L G (Some p) h \<and> mem_ok A M G"

lemma served_granted: "served a L G (Some p) h \<Longrightarrow> mem_ok A M G \<Longrightarrow> granted A p a L h M G"
  by (simp add: granted_def)

text \<open>A new block, of which the first node is given out.\<close>

lemma fresh_block_ok:
  assumes ok: "heap_ok h sl Bs L G" and mem: "mem_ok A M G" and a: "0 < a" "a \<le> w" and w: "16 * w + 32 \<le> 2 ^ 27"
    and fits: "unat (tm_slabPos M) + 2 ^ 27 \<le> unat (tm_mmapPos M)"
  defines "t \<equiv> word_of_nat (16 * w + 32) :: u64"
  shows "\<exists>m M' h'. tmi_big_alloc pers slab t M = (Some m, M') \<and>
    split_node (m + 16) (word_of_nat (16 * w)) (word_of_nat (16 * a)) (new_block m t h) = Inr (m + 16 + 16, h') \<and>
    granted A (m + 16 + 16) a L h' M' (lend (m, t) G)"
proof -
  note ok' = heap_okD[OF ok]
  obtain m M' where m: "tmi_big_alloc pers slab t M = (Some m, M')" "m AND 4095 = 0" "mem_ok A M' (lend (m, t) G)"
    "near m (Suc w) \<subseteq> gap M" "0 \<notin> near m (Suc w)"
    unfolding t_def by (rule tmi_block[OF mem w fits])
  have far: "x \<notin> near m (Suc w)" if "unat (tm_mmapPos M) \<le> unat x" for x using m(4) that by auto
  have out: "near m (Suc w) \<inter> cells (fst (fst G)) = {}" using far cells_above(1)[OF mem] by blast
  have q8: "bh_q8 h = snd (fst G)" using ok'(8) by (metis lent_def snd_conv)
  have q: "bh_q8 h \<notin> near m (Suc w)" by (rule far) (use mem q8 in \<open>simp add: mem_ok_def\<close>)
  have "bh_tag h (node_at m (Suc w)) = 0"
  proof -
    have e: "node_at m (Suc w) \<in> near m (Suc w)" by (rule near_at) simp
    have "gap M \<subseteq> snd G" using mem by (simp add: mem_ok_def)
    then have "node_at m (Suc w) \<in> snd G" using e m(4) by (meson subsetD)
    moreover have "node_at m (Suc w) \<notin> cells (fst (fst G))" "node_at m (Suc w) \<noteq> snd (fst G)" using e out q q8 by auto
    ultimately show ?thesis using ok'(9) by (simp add: clean_def)
  qed
  then have zero: "bsize h (node_at m (Suc w)) = 0" by (simp add: tag_size_def)
  have w0: "0 < w" "16 * Suc w < 2 ^ 28" using w a by simp_all
  have "\<forall>B \<in> set Bs. room B \<inter> near m (Suc w) = {}" using room_cells[OF ok] out by blast
  note nb = heap_new_block[OF ok m(2) w0 this q m(5) zero, folded t_def]
  have mem1: "(m, [] @ (w, False) # [(0, False)]) \<in> set ((m, [(w, False), (0, False)]) # Bs)" by simp
  have b: "m + 16 = node_at m (Suc (width []))" by (simp add: node_at_def)
  obtain h' Bs' where h': "split_node (m + 16) (word_of_nat (16 * w)) (word_of_nat (16 * a)) (new_block m t h) = Inr (m + 16 + 16, h')"
    "heap_ok h' sl Bs' (insert (m + 16 + 16, cut_size w a) L) (lend (m, t) G)"
    unfolding b by (rule heap_split[OF nb(1) mem1 a]) (use nb(2,3) in simp_all)
  moreover have "granted A (m + 16 + 16) a L h' M' (lend (m, t) G)"
    using servedI[OF h'(2) _ a(2)] nb(2) by (intro served_granted[OF _ m(3)]) (simp add: b)
  ultimately show ?thesis using m(1) by blast
qed

lemma block_alloc_aux_ok:
  assumes ok: "heap_ok h sl Bs L G" and mem: "mem_ok A M G" and a: "0 < a" "16 * a \<le> 2 ^ 27 - 64"
    and fits: "unat (tm_slabPos M) + 2 ^ 27 \<le> unat (tm_mmapPos M)"
  shows "\<exists>p h' M' G'. block_alloc_aux (tmi_big_alloc pers slab) (word_of_nat (16 * a)) h M = Inr (Some p, h', M') \<and> granted A p a L h' M' G'"
proof -
  have "unat (bh_a_alloced h) < 2 ^ 62" using heap_okD(10)[OF ok] mem fits unfolding mem_ok_def by simp
  then obtain w where w: "block_tasize (bh_a_alloced h) (word_of_nat (16 * a)) = word_of_nat (16 * w + 32)" "a \<le> w" "16 * w + 32 \<le> 2 ^ 27"
    using tasize_ok[OF a] by blast
  let ?t = "word_of_nat (16 * w + 32) :: u64"
  obtain m M' h' where m: "tmi_big_alloc pers slab ?t M = (Some m, M')"
    "split_node (m + 16) (word_of_nat (16 * w)) (word_of_nat (16 * a)) (new_block m ?t h) = Inr (m + 16 + 16, h')"
    "granted A (m + 16 + 16) a L h' M' (lend (m, ?t) G)"
    using fresh_block_ok[OF ok mem a(1) w(2,3) fits, of pers slab] by blast
  have ts: "?t - HEADERSIZE = word_of_nat (16 * w)" by (simp add: HEADERSIZE_def)
  have "block_alloc_aux (tmi_big_alloc pers slab) (word_of_nat (16 * a)) h M = Inr (Some (m + 16 + 16), h', M')"
    unfolding block_alloc_aux_def Let_def w(1) using m(1,2) by (simp only: ts prod.case option.case bindE.simps)
  then show ?thesis using m(3) by blast
qed

lemma size_small: "16 * a \<le> 2 ^ 27 - 64 \<Longrightarrow> (word_of_nat (16 * a) :: u64) \<le> QS_MAX \<longleftrightarrow> a \<le> 63"
  "16 * a \<le> 2 ^ 27 - 64 \<Longrightarrow> \<not> (word_of_nat (16 * a) :: u64) \<ge> BTMALLOC"
proof -
  assume a: "16 * a \<le> 2 ^ 27 - 64"
  have u: "unat (word_of_nat (16 * a) :: u64) = 16 * a" by (rule unat_below) (use a in simp)
  show "(word_of_nat (16 * a) :: u64) \<le> QS_MAX \<longleftrightarrow> a \<le> 63" using u by (simp add: word_le_nat_alt del: of_nat_mult)
  show "\<not> (word_of_nat (16 * a) :: u64) \<ge> BTMALLOC" using u a by (simp add: word_le_nat_alt HEADERSIZE_def del: of_nat_mult)
qed

lemma block_search_ok:
  assumes ok: "heap_ok h sl Bs L G" and a: "0 < a" "16 * a \<le> 2 ^ 27 - 64"
  shows "\<exists>r h'. block_search btree_best (word_of_nat (16 * a)) h = Inr (r, h') \<and> served a L G r h'"
proof -
  let ?w = "word_of_nat (16 * a) :: u64"
  define first where "first = (if ?w \<le> QS_MAX then bindE (slow_alloc_aux ?w h) (\<lambda>(r, h1). case r of Some p \<Rightarrow> Inr (Some p, h1)
      | None \<Rightarrow> bindE (clear_fast h1) (slow_alloc_aux ?w)) else bindE (clear_fast h) (\<lambda>h1. Inr (None, h1)))"
  have "\<exists>r h1. first = Inr (r, h1) \<and> served a L G r h1"
  proof (cases "a \<le> 63")
    case True
    then have le: "?w \<le> QS_MAX" using size_small(1)[OF a(2)] by simp
    obtain r h1 where r: "slow_alloc_aux ?w h = Inr (r, h1)" "served a L G r h1" using slow_alloc_ok[OF ok a(1) True] by blast
    show ?thesis
    proof (cases r)
      case (Some p)
      then show ?thesis using r le by (simp add: first_def)
    next
      case None
      then obtain sl1 Bs1 where "heap_ok h1 sl1 Bs1 L G" using r(2) by (auto simp: served_def)
      then obtain h2 sl2 Bs2 where h2: "clear_fast h1 = Inr h2" "heap_ok h2 sl2 Bs2 L G" using clear_fast_ok by blast
      then show ?thesis using slow_alloc_ok[OF h2(2) a(1) True] r(1) None le by (auto simp: first_def)
    qed
  next
    case False
    then have le: "\<not> ?w \<le> QS_MAX" using size_small(1)[OF a(2)] by simp
    obtain h2 sl2 Bs2 where "clear_fast h = Inr h2" "heap_ok h2 sl2 Bs2 L G" using clear_fast_ok[OF ok] by blast
    then show ?thesis using le by (auto simp: first_def served_def)
  qed
  then obtain r h1 where r: "first = Inr (r, h1)" "served a L G r h1" by blast
  have eq: "block_search btree_best ?w h = (case r of Some p \<Rightarrow> Inr (Some p, h1)
      | None \<Rightarrow> (case btree_get btree_best ?w h1 of
          (Some b, h2) \<Rightarrow> bindE (split_node b (ucast (bsize h2 b)) ?w h2) (\<lambda>(p, h3). Inr (Some p, h3))
        | (None, h2) \<Rightarrow> Inr (None, h2)))"
    unfolding block_search_def first_def[symmetric] r(1) by simp
  show ?thesis
  proof (cases r)
    case (Some p)
    then show ?thesis using r(2) unfolding eq by simp
  next
    case None
    then obtain sl1 Bs1 where ok1: "heap_ok h1 sl1 Bs1 L G" using r(2) by (auto simp: served_def)
    have "16 * a < 2 ^ 28" using a(2) by simp
    note t = bt.tree_alloc_ok[OF ok1 a(1) this]
    show ?thesis
    proof (cases "btree_get btree_best ?w h1")
      case (Pair r2 h2)
      show ?thesis
      proof (cases r2)
        case None
        then have "h2 = h1" using t Pair by simp
        then show ?thesis using \<open>r = None\<close> r(2) unfolding eq Pair None by simp
      next
        case (Some b)
        then show ?thesis using t Pair \<open>r = None\<close> unfolding eq by fastforce
      qed
    qed
  qed
qed

section \<open>The objects that other threads freed\<close>

text \<open>\<open>W\<close> are the objects in the queue, which the program does not use any more.\<close>

definition queue_ok :: "(u64 \<times> nat) set \<Rightarrow> (u64 \<times> nat) set \<Rightarrow> u64 list \<Rightarrow> bool" where
  "queue_ok L W q \<longleftrightarrow> fst ` W = set q \<and> fst ` L \<inter> set q = {} \<and> distinct q \<and> q \<noteq> []"

lemma scan_fold: "\<forall>p \<in> set ps. \<not> slab p \<Longrightarrow>
  fold (\<lambda>p (h, k). if slab p then (h, slab_free p k) else (merge_node p h, k)) ps (h, k) = (fold merge_node ps h, k)"
  by (induction ps arbitrary: h) auto

lemma heap_ok_wanted: "heap_ok h sl Bs L G \<Longrightarrow> heap_ok (h\<lparr>bh_s_wanted := x\<rparr>) sl Bs L G"
  by (rule heap_ok_frame) (auto simp: heap_ok_def bigs_def)

lemma split_object:
  assumes ok: "heap_ok h sl Bs L G" and p: "(p, z) \<in> L" and a: "0 < a" "a \<le> z"
  shows "\<exists>h' Bs'. split_node (p - 16) (word_of_nat (16 * z)) (word_of_nat (16 * a)) h = Inr (p, h') \<and>
    heap_ok h' sl Bs' (insert (p, cut_size z a) (L - {(p, z)})) G"
proof -
  have o: "inj_on fst L" "p - 16 \<notin># fast_blocks (bh_fast h)" "(p - 16, z, False) \<in> nodes Bs"
    using heap_okD(7)[OF ok] p unfolding owned_ok_def by blast+
  have "x = (p, z)" if "x \<in> L" "fst x = p" for x using inj_onD[OF o(1), of x "(p, z)"] that p by simp
  then have nL: "p - 16 + 16 \<notin> fst ` (L - {(p, z)})" by force
  obtain m ls rs where m: "(m, ls @ (z, False) # rs) \<in> set Bs" "p - 16 = node_at m (Suc (width ls))" using nodesE[OF o(3)] by blast
  have ok2: "heap_ok h sl Bs (L - {(p, z)}) G" by (rule heap_ok_less[OF ok]) auto
  obtain h' Bs' where "split_node (p - 16) (word_of_nat (16 * z)) (word_of_nat (16 * a)) h = Inr (p - 16 + 16, h')"
    "heap_ok h' sl Bs' (insert (p - 16 + 16, cut_size z a) (L - {(p, z)})) G"
    using heap_split[OF ok2 m(1) a, folded m(2)] o(2) nL by blast
  then show ?thesis by (auto simp del: of_nat_mult)
qed

lemma scan_queue_ok:
  assumes ok: "heap_ok h sl Bs (L \<union> W) G" and q: "queue_ok L W q" "\<forall>p \<in> set q. \<not> slab p"
  shows "\<exists>flag h' z sl' Bs'. scan_queue slab slab_free wanted q h k = Inr (flag, [last q], h', k) \<and>
    heap_ok h' sl' Bs' (insert (last q, z) L) G \<and> 16 * z \<le> 2 ^ 16 \<and>
    (flag \<longrightarrow> 1 < length q \<or> (\<forall>z. (last q, z) \<in> W \<longrightarrow> 2 ^ 16 < 16 * z))"
proof -
  let ?p = "last q" and ?ps = "butlast q"
  have W: "fst ` W = set q" "fst ` L \<inter> set q = {}" "distinct q" "q \<noteq> []" using q(1) by (simp_all add: queue_ok_def)
  have q': "q = ?ps @ [?p]" using W(4) by simp
  have ps: "set ?ps = set q - {?p}" "distinct ?ps" "?p \<in> set q" "length q = Suc (length ?ps)"
  proof -
    have "distinct (?ps @ [?p])" "set q = set (?ps @ [?p])" using W(3) q' by simp_all
    then show "set ?ps = set q - {?p}" by auto
  qed (use W in \<open>simp_all add: distinct_butlast\<close>)
  have "?p \<in> fst ` W" using ps(3) W(1) by simp
  then obtain z where z: "(?p, z) \<in> W" by force
  let ?W = "{x \<in> W. fst x \<noteq> ?p}" and ?h0 = "h\<lparr>bh_s_wanted := wanted\<rparr>"
  have ok0: "heap_ok ?h0 sl Bs (insert (?p, z) L \<union> ?W) G" by (rule heap_ok_wanted[OF heap_ok_less[OF ok]]) (use z in auto)
  have w: "fst ` ?W = set ?ps" "fst ` insert (?p, z) L \<inter> set ?ps = {}" using W(1,2) ps(1) by auto
  obtain sl1 Bs1 where "heap_ok (fold merge_node ?ps ?h0) sl1 Bs1 (insert (?p, z) L) G" using merge_waiting[OF ok0 ps(2) w] by blast
  from heap_ok_wanted[OF this, of 0] obtain h2 where h2: "h2 = (fold merge_node ?ps ?h0)\<lparr>bh_s_wanted := 0\<rparr>" "heap_ok h2 sl1 Bs1 (insert (?p, z) L) G" by blast
  have ns: "\<not> slab ?p" "\<forall>p \<in> set ?ps. \<not> slab p" using q(2) ps by auto
  have nz: "(?p - 16, z, False) \<in> nodes Bs1" "?p - 16 \<notin># fast_blocks (bh_fast h2)" using heap_okD(7)[OF h2(2)] unfolding owned_ok_def by blast+
  note n = node_size[OF h2(2) nz(1)]
  have u: "unat (word_of_nat (16 * z) :: u64) = 16 * z" by (rule unat_below) (use n(2) in simp)
  have eq: "scan_queue slab slab_free wanted q h k = (if 16 * z \<le> 2 ^ 16 then Inr (?ps \<noteq> [], [?p], h2, k)
      else bindE (split_node (?p - 16) (word_of_nat (16 * z)) 32 h2) (\<lambda>(_, h3). Inr (True, [?p], h3, k)))"
    unfolding scan_queue_def scan_fold[OF ns(2)] prod.case Let_def h2(1)[symmetric] n(3)[OF impI] using ns(1) u n(3)
    by (simp add: word_le_nat_alt del: of_nat_mult)
  show ?thesis
  proof (cases "16 * z \<le> 2 ^ 16")
    case True
    moreover have "?ps \<noteq> [] \<longrightarrow> 1 < length q" by (cases q rule: rev_cases) auto
    ultimately show ?thesis using h2(2) unfolding eq by (intro exI[of _ "?ps \<noteq> []"] exI[of _ h2] exI[of _ z]) auto
  next
    case False
    have inj: "inj_on fst (L \<union> W)" using heap_okD(7)[OF ok] by (simp add: owned_ok_def)
    then have only: "z' = z" if "(?p, z') \<in> W" for z' using z that by (metis UnI2 fst_conv inj_onD prod.inject)
    obtain h3 Bs3 where h3: "split_node (?p - 16) (word_of_nat (16 * z)) (word_of_nat (16 * 2)) h2 = Inr (?p, h3)"
      "heap_ok h3 sl1 Bs3 (insert (?p, cut_size z 2) (insert (?p, z) L - {(?p, z)})) G"
      using split_object[OF h2(2) insertI1, of 2] False by auto
    have "(?p, z) \<notin> L" using W(2) ps(3) by force
    then have "heap_ok h3 sl1 Bs3 (insert (?p, cut_size z 2) L) G" using h3(2) by simp
    moreover have "cut_size z 2 = 2" using False by (simp add: cut_size_def)
    ultimately show ?thesis using h3(1) False only unfolding eq by (intro exI[of _ True] exI[of _ h3] exI[of _ 2]) auto
  qed
qed

text \<open>An allocation with the queue \<open>q\<close> that is left: the object is new, and the rest is as it should be.\<close>

definition given :: "u64 set \<Rightarrow> u64 \<Rightarrow> nat \<Rightarrow> (u64 \<times> nat) set \<Rightarrow> u64 list \<Rightarrow> bheap \<Rightarrow> tmi_memory \<Rightarrow> bool" where
  "given A p a L q h M \<longleftrightarrow> (\<exists>W G. queue_ok L W q \<and> granted A p a (L \<union> W) h M G)"

lemma served_given: "served a (L \<union> W) G (Some p) h \<Longrightarrow> mem_ok A M G \<Longrightarrow> queue_ok L W q \<Longrightarrow> given A p a L q h M"
  unfolding given_def using served_granted by blast

text \<open>The setting of an allocation: slabs lie below the memory of blocks, and TMI has room for a block.\<close>

definition roomy :: "tmi_memory \<Rightarrow> u64 \<Rightarrow> u64 \<Rightarrow> bool" where
  "roomy M st sz \<longleftrightarrow> unat (tm_slabPos M) + 2 ^ 27 \<le> unat (tm_mmapPos M) \<and> unat st + unat sz \<le> unat (tm_slabPos M)"

lemma queue_not_slab:
  assumes "heap_ok h sl Bs (L \<union> W) G" "mem_ok A M G" "queue_ok L W q" "roomy M st sz"
  shows "\<forall>p \<in> set q. \<not> is_slab st sz p"
proof
  fix p assume "p \<in> set q"
  then have "p \<in> fst ` W" using assms(3) by (simp add: queue_ok_def)
  then obtain z where "(p, z) \<in> L \<union> W" by force
  from object_above[OF assms(1,2) this] show "\<not> is_slab st sz p" using assms(4) by (intro not_slab[of st sz M]) (simp_all add: roomy_def)
qed

abbreviation tmi_slow_alloc where
  "tmi_slow_alloc pers slab st sz slab_free n a q h M \<equiv>
     slow_alloc n btree_best (tmi_big_alloc pers slab) (is_slab st sz) slab_free (word_of_nat (16 * a)) q h M"

abbreviation tmi_block_alloc where
  "tmi_block_alloc pers slab st sz slab_free n a q h M \<equiv>
     block_alloc n btree_best (tmi_big_alloc pers slab) (is_slab st sz) slab_free (word_of_nat (16 * a)) q h M"

text \<open>An allocation either succeeds at once or starts again, with a single small object in the queue.\<close>

lemma block_alloc_cases:
  assumes ok: "heap_ok h sl Bs (L \<union> W) G" and mem: "mem_ok A M G" and q: "queue_ok L W q" and r: "roomy M st sz"
    and a: "0 < a" "16 * a \<le> 2 ^ 27 - 64"
  shows "(\<exists>p q' h' M'. tmi_block_alloc pers slab st sz slab_free n a q h M = Inr (Some p, q', h', M') \<and> given A p a L q' h' M') \<or>
    (\<exists>h2 z sl2 Bs2. heap_ok h2 sl2 Bs2 (insert (last q, z) L) G \<and> 16 * z \<le> 2 ^ 16 \<and> last q \<notin> fst ` L \<and>
      (1 < length q \<or> (\<forall>z. (last q, z) \<in> W \<longrightarrow> 2 ^ 16 < 16 * z)) \<and>
      (\<forall>m. n = Suc m \<longrightarrow> tmi_block_alloc pers slab st sz slab_free n a q h M =
         tmi_slow_alloc pers slab st sz slab_free m a [last q] h2 M))"
proof -
  let ?w = "word_of_nat (16 * a) :: u64" and ?k = "tmi_big_alloc pers slab" and ?s = "is_slab st sz"
  have "last q \<in> set q" "fst ` L \<inter> set q = {}" using q by (simp_all add: queue_ok_def)
  then have lq: "last q \<notin> fst ` L" by blast
  obtain r h1 where r1: "block_search btree_best ?w h = Inr (r, h1)" "served a (L \<union> W) G r h1" using block_search_ok[OF ok a] by blast
  have eq: "tmi_block_alloc pers slab st sz slab_free n a q h M = (case r of Some p \<Rightarrow> Inr (Some p, q, h1, M)
      | None \<Rightarrow> bindE (scan_queue ?s slab_free ?w q h1 M) (\<lambda>(flag, q2, h2, k2).
          if flag then (case n of 0 \<Rightarrow> Inl (Undefined ''rounds'') | Suc m \<Rightarrow> slow_alloc m btree_best ?k ?s slab_free ?w q2 h2 k2)
          else bindE (block_alloc_aux ?k ?w h2 k2) (\<lambda>(r, h3, k3). Inr (r, q2, h3, k3))))"
    unfolding block_alloc.simps if_not_P[OF size_small(2)[OF a(2)]] r1(1) by simp
  show ?thesis
  proof (cases r)
    case (Some p)
    then show ?thesis using served_given[OF r1(2)[unfolded Some] mem q] unfolding eq by auto
  next
    case None
    then obtain sl1 Bs1 where ok1: "heap_ok h1 sl1 Bs1 (L \<union> W) G" using r1(2) by (auto simp: served_def)
    obtain flag h2 z sl2 Bs2 where sc: "scan_queue ?s slab_free ?w q h1 M = Inr (flag, [last q], h2, M)"
      "heap_ok h2 sl2 Bs2 (insert (last q, z) L) G" "16 * z \<le> 2 ^ 16"
      "flag \<longrightarrow> 1 < length q \<or> (\<forall>z. (last q, z) \<in> W \<longrightarrow> 2 ^ 16 < 16 * z)"
      using scan_queue_ok[OF ok1 q queue_not_slab[OF ok1 mem q r], of slab_free ?w M] by blast
    show ?thesis
    proof (cases flag)
      case True
      then have "tmi_block_alloc pers slab st sz slab_free n a q h M = slow_alloc m btree_best ?k ?s slab_free ?w [last q] h2 M" if "n = Suc m" for m
        unfolding eq None using sc(1) that by simp
      then show ?thesis using sc(2-4) lq True by blast
    next
      case False
      have fits: "unat (tm_slabPos M) + 2 ^ 27 \<le> unat (tm_mmapPos M)" using r by (simp add: roomy_def)
      have u: "insert (last q, z) L = L \<union> {(last q, z)}" by simp
      obtain p h' M' G' where p: "block_alloc_aux ?k ?w h2 M = Inr (Some p, h', M')" "granted A p a (insert (last q, z) L) h' M' G'"
        using block_alloc_aux_ok[OF sc(2) mem a fits] by blast
      have "given A p a L [last q] h' M'" unfolding given_def using p(2) lq unfolding u by (intro exI[of _ "{(last q, z)}"] exI[of _ G']) (simp add: queue_ok_def)
      moreover have "tmi_block_alloc pers slab st sz slab_free n a q h M = Inr (Some p, [last q], h', M')" unfolding eq None using sc(1) False p(1) by simp
      ultimately show ?thesis by blast
    qed
  qed
qed

lemma slow_alloc_cases:
  assumes ok: "heap_ok h sl Bs (L \<union> W) G" and mem: "mem_ok A M G" and q: "queue_ok L W q"
    and a: "0 < a" "16 * a \<le> 2 ^ 27 - 64"
  shows "(\<exists>p h'. slow_alloc n btree_best big slab slab_free (word_of_nat (16 * a)) q h M = Inr (Some p, q, h', M) \<and> given A p a L q h' M) \<or>
    (\<exists>h1 sl1 Bs1. heap_ok h1 sl1 Bs1 (L \<union> W) G \<and> slow_alloc n btree_best big slab slab_free (word_of_nat (16 * a)) q h M =
       block_alloc n btree_best big slab slab_free (word_of_nat (16 * a)) q h1 M)"
proof (cases "a \<le> 63")
  case True
  let ?w = "word_of_nat (16 * a) :: u64"
  have le: "?w \<le> QS_MAX" using size_small(1)[OF a(2)] True by simp
  obtain r h1 where r: "slow_alloc_aux ?w h = Inr (r, h1)" "served a (L \<union> W) G r h1" using slow_alloc_ok[OF ok a(1) True] by blast
  show ?thesis
  proof (cases r)
    case (Some p)
    then show ?thesis using served_given[OF r(2)[unfolded Some] mem q] r(1) le by (simp add: slow_alloc.simps)
  next
    case None
    then obtain sl1 Bs1 where "heap_ok h1 sl1 Bs1 (L \<union> W) G" using r(2) by (auto simp: served_def)
    moreover have "slow_alloc n btree_best big slab slab_free ?w q h M = block_alloc n btree_best big slab slab_free ?w q h1 M"
      using r(1) None le by (simp add: slow_alloc.simps)
    ultimately show ?thesis by blast
  qed
next
  case False
  then have "\<not> (word_of_nat (16 * a) :: u64) \<le> QS_MAX" using size_small(1)[OF a(2)] by simp
  then have "slow_alloc n btree_best big slab slab_free (word_of_nat (16 * a)) q h M = block_alloc n btree_best big slab slab_free (word_of_nat (16 * a)) q h M"
    by (simp add: slow_alloc.simps)
  then show ?thesis using ok by blast
qed

lemma slow_alloc_quiet:
  assumes ok: "heap_ok h sl Bs (insert (p0, z) L) G" and z: "16 * z \<le> 2 ^ 16" "p0 \<notin> fst ` L" and mem: "mem_ok A M G" and r: "roomy M st sz"
    and a: "0 < a" "16 * a \<le> 2 ^ 27 - 64"
  shows "\<exists>p q' h' M'. tmi_slow_alloc pers slab st sz slab_free n a [p0] h M = Inr (Some p, q', h', M') \<and>
    given A p a L q' h' M'"
proof -
  have q: "queue_ok L {(p0, z)} [p0]" using z(2) by (simp add: queue_ok_def)
  have ok': "heap_ok h sl Bs (L \<union> {(p0, z)}) G" using ok by simp
  show ?thesis
    using slow_alloc_cases[OF ok' mem q a, of n "tmi_big_alloc pers slab" "is_slab st sz" slab_free]
  proof (elim disjE exE conjE)
    fix h1 sl1 Bs1 assume h1: "heap_ok h1 sl1 Bs1 (L \<union> {(p0, z)}) G"
      and e: "tmi_slow_alloc pers slab st sz slab_free n a [p0] h M =
        tmi_block_alloc pers slab st sz slab_free n a [p0] h1 M"
    show ?thesis unfolding e using block_alloc_cases[OF h1 mem q r a, of n pers slab slab_free] z(1) by auto
  qed blast
qed

lemma slow_alloc_given:
  assumes ok: "heap_ok h sl Bs (L \<union> W) G" and mem: "mem_ok A M G" and q: "queue_ok L W q" and r: "roomy M st sz"
    and a: "0 < a" "16 * a \<le> 2 ^ 27 - 64"
  shows "\<exists>p q' h' M'. tmi_slow_alloc pers slab st sz slab_free (Suc n) a q h M = Inr (Some p, q', h', M') \<and>
    given A p a L q' h' M'"
  using slow_alloc_cases[OF ok mem q a, of "Suc n" "tmi_big_alloc pers slab" "is_slab st sz" slab_free]
proof (elim disjE exE conjE)
  fix h1 sl1 Bs1 assume h1: "heap_ok h1 sl1 Bs1 (L \<union> W) G"
    and e: "tmi_slow_alloc pers slab st sz slab_free (Suc n) a q h M =
      tmi_block_alloc pers slab st sz slab_free (Suc n) a q h1 M"
  show ?thesis
    unfolding e using block_alloc_cases[OF h1 mem q r a, of "Suc n" pers slab slab_free]
  proof (rule disjE)
    assume "\<exists>h2 z sl2 Bs2. heap_ok h2 sl2 Bs2 (insert (last q, z) L) G \<and> 16 * z \<le> 2 ^ 16 \<and> last q \<notin> fst ` L \<and>
      (1 < length q \<or> (\<forall>z. (last q, z) \<in> W \<longrightarrow> 2 ^ 16 < 16 * z)) \<and>
      (\<forall>m. Suc n = Suc m \<longrightarrow> tmi_block_alloc pers slab st sz slab_free (Suc n) a q h1 M = tmi_slow_alloc pers slab st sz slab_free m a [last q] h2 M)"
    then obtain h2 z sl2 Bs2 where h2: "heap_ok h2 sl2 Bs2 (insert (last q, z) L) G" "16 * z \<le> 2 ^ 16" "last q \<notin> fst ` L"
      and m: "tmi_block_alloc pers slab st sz slab_free (Suc n) a q h1 M = tmi_slow_alloc pers slab st sz slab_free n a [last q] h2 M" by blast
    show "\<exists>p q' h' M'. tmi_block_alloc pers slab st sz slab_free (Suc n) a q h1 M = Inr (Some p, q', h', M') \<and> given A p a L q' h' M'"
      unfolding m by (rule slow_alloc_quiet[OF h2 mem r a])
  qed
qed blast

lemma malloc_ok:
  assumes ok: "heap_ok h sl Bs (L \<union> W) G" and mem: "mem_ok A M G" and q: "queue_ok L W q" and r: "roomy M st sz"
    and n: "512 < unat n" "unat n \<le> 2 ^ 27 - 72"
  shows "\<exists>p q' h' M'. malloc_block btree_best (tmi_big_alloc pers slab) (is_slab st sz) slab_free n q h M = Inr (Some p, q', h', M') \<and>
    given A p ((unat n + 23) div 16) L q' h' M'"
proof -
  let ?a = "(unat n + 23) div 16"
  have "(512 + 23) div 16 \<le> ?a" by (rule div_le_mono) (use n in simp)
  moreover have "?a \<le> (2 ^ 27 - 49) div 16" by (rule div_le_mono) (use n in simp)
  ultimately have a: "4 \<le> ?a" "0 < ?a" "16 * ?a \<le> 2 ^ 27 - 64" "16 * ?a < 2 ^ 32" by simp_all
  have "unat (sep_align n) = 16 * ?a" using sep_align_nat[of n] n by simp
  moreover have "word_of_nat (unat x) = x" for x :: u64 by simp
  ultimately have sz: "sep_align n = word_of_nat (16 * ?a)" by metis
  have nb: "\<not> n > BTMALLOC" using n by (simp add: word_less_nat_alt HEADERSIZE_def)
  obtain r1 h1 where r1: "fast_take (word_of_nat (16 * ?a)) h = Inr (r1, h1)" "served ?a (L \<union> W) G r1 h1" using fast_take_ok[OF ok a(1,4)] by blast
  have eq: "malloc_block btree_best (tmi_big_alloc pers slab) (is_slab st sz) slab_free n q h M = (case r1 of Some p \<Rightarrow> Inr (Some p, q, h1, M)
      | None \<Rightarrow> tmi_slow_alloc pers slab st sz slab_free 1 ?a q h1 M)"
    unfolding malloc_block_def if_not_P[OF nb] Let_def sz r1(1) by simp
  show ?thesis
  proof (cases r1)
    case (Some p)
    then show ?thesis using served_given[OF r1(2)[unfolded Some] mem q] unfolding eq by simp
  next
    case None
    then obtain sl1 Bs1 where ok1: "heap_ok h1 sl1 Bs1 (L \<union> W) G" using r1(2) by (auto simp: served_def)
    show ?thesis unfolding eq None using slow_alloc_given[OF ok1 mem q r a(2,3), of 0] by simp
  qed
qed

end
