(* ===== verification/LA_Realloc.thy ===== *)
theory LA_Realloc
  imports LA_Alloc
begin

text \<open>
  New sizes for objects in blocks, in place (\<^verbatim>\<open>realloc_aux2\<close> of \<^verbatim>\<open>src/others/tmi/src/ll_alloc.c\<close>): both ways keep the
  invariant of the heap, and an answer other than the null pointer is an object that is large enough.
\<close>

unbundle bit_operations_syntax

section \<open>Two nodes become one\<close>

lemma join_tiled:
  assumes env: "env_ok h m sl n" and t: "tiled (set sl) h m 1 False 0 (ls @ (z, False) # (r, False) # rs)"
    and n: "Suc (width (ls @ (z, False) # (r, False) # rs)) \<le> n" and pos: "\<forall>x \<in> set ls. 0 < fst x" "0 < z" "0 < r"
  defines "b \<equiv> node_at m (Suc (width ls))"
  defines "h' \<equiv> set_bsize b (word_of_nat (16 * (z + r))) h"
  shows "env_ok h' m sl n" "tiled (set sl) h' m 1 False 0 (ls @ (z + r, False) # rs)" "outside_ok m n sl h sl h'"
proof -
  let ?k = "Suc (width ls)" and ?S = "set sl"
  have lim: "16 * n < 2 ^ 32" using env by (simp add: env_ok_def)
  have ok: "tiled ?S h m 1 False 0 ls" "node_ok ?S h m ?k (ends_free ls) (last_size ls) (z, False)"
    "node_ok ?S h m (?k + z) False z (r, False)" "tiled ?S h m (?k + z + r) False r rs"
    using t by (auto simp: tiled_append ends_free_def last_size_def)
  have bS: "b \<notin> ?S" using ok(2) by (simp add: node_ok_def Let_def b_def)
  have bn: "b \<in> near m n" unfolding b_def by (rule near_at) (use n in simp)
  show env': "env_ok h' m sl n" unfolding h'_def by (rule env_tag[OF env bn bS])
  have ag: "agree ?S h ?S h' x" if "x \<noteq> b" for x unfolding h'_def using that by (rule agree_tag)
  have at: "node_at m i \<noteq> b" if "i \<le> n" "i \<noteq> ?k" for i unfolding b_def using near_inj[OF that(1) _ lim, of ?k m] n that(2) by simp
  have "tiled ?S h' m 1 False 0 ls" by (rule tiled_left[OF ok(1) pos(1) _ lim]) (use n ag at in auto)
  moreover have "node_ok ?S h' m ?k (ends_free ls) (last_size ls) (z + r, False)"
  proof -
    have "node_at m (?k + i) \<notin> ?S" if "0 < i" "i < z + r" for i
    proof (cases "i < z")
      case True
      then show ?thesis using ok(2) that(1) by (simp add: node_ok_def Let_def)
    next
      case False
      then have "?k + i = ?k + z + (i - z)" by simp
      then show ?thesis using node_clear[OF ok(3)] that(2) False by (metis less_diff_conv2 linorder_not_less add.commute)
    qed
    then show ?thesis using ok(2) by (simp add: node_ok_def Let_def h'_def b_def)
  qed
  moreover have "tiled ?S h' m (?k + (z + r)) False (z + r) rs"
  proof (cases rs)
    case (Cons x xs)
    have "tiled ?S h' m (?k + z + r) False r rs" by (rule tiled_right[OF ok(4), of n]) (use n ag at pos in auto)
    then have "node_ok ?S h' m (?k + (z + r)) False r x" "tiled ?S h' m (?k + (z + r) + fst x) (snd x) (fst x) xs"
      using Cons by (simp_all add: add.assoc)
    then show ?thesis unfolding Cons using node_ok_used_left[of ?S h' m "?k + (z + r)" r x "z + r"] by simp
  qed simp
  ultimately show "tiled ?S h' m 1 False 0 (ls @ (z + r, False) # rs)" unfolding tiled_middle by simp
  show "outside_ok m n sl h sl h'"
  proof -
    have "b \<in> inner m n" unfolding inner_def b_def using n by auto
    moreover have "bh_q8 h' = bh_q8 h" by (simp add: h'_def)
    ultimately show ?thesis unfolding outside_ok_def using ag by metis
  qed
qed

lemma heap_join:
  assumes ok: "heap_ok h sl Bs L G" and mem: "(m, ls @ (z, False) # (r, False) # rs) \<in> set Bs" and pos: "0 < z" "0 < r"
  defines "b \<equiv> node_at m (Suc (width ls))" and "c \<equiv> node_at m (Suc (width ls) + z)"
  assumes b: "(b + 16, z) \<in> L" and c: "c \<notin># fast_blocks (bh_fast h)" "c + 16 \<notin> fst ` L"
  shows "\<exists>Bs'. heap_ok (set_bsize b (word_of_nat (16 * (z + r))) h) sl Bs' (insert (b + 16, z + r) (L - {(b + 16, z)})) G"
proof -
  let ?ns = "ls @ (z, False) # (r, False) # rs" and ?ns' = "ls @ (z + r, False) # rs" and ?h = "set_bsize b (word_of_nat (16 * (z + r))) h"
  let ?Bs = "replaced (m, ?ns) (Some ?ns') Bs" and ?L = "insert (b + 16, z + r) (L - {(b + 16, z)})"
  note ok' = heap_okD[OF ok]
  have B: "env_ok h m sl (Suc (width ?ns))" "tiled (set sl) h m 1 False 0 ?ns" "shape ?ns" "m AND 4095 = 0"
    using ok'(2)[OF mem] by (simp_all add: block_ok_def)
  note j = join_tiled[OF B(1,2) order_refl shape_pos[OF B(3)] pos, folded b_def]
  have sh: "shape ?ns'" using B(3) pos by (auto simp: shape_def butlast_append successively_append_iff successively_Cons split: if_splits)
  have seg: "segs m (Suc (width ls)) [(z, False), (r, False)] = {(b, z, False), (c, r, False)}" by (auto simp: b_def c_def)
  have N: "nodes ?Bs = insert (b, z + r, False) (nodes Bs - {(b, z, False), (c, r, False)})"
    using nodes_exact_one[OF ok'(3), of m ls "[(z, False), (r, False)]" rs False] mem pos unfolding seg by (simp flip: b_def)
  have o: "\<And>x. count (fast_blocks (bh_fast h)) x \<le> 1" "\<And>x. x \<in># fast_blocks (bh_fast h) \<Longrightarrow> \<exists>z. (x, z, False) \<in> nodes Bs" "inj_on fst L"
    "\<And>p a. (p, a) \<in> L \<Longrightarrow> p - 16 \<notin># fast_blocks (bh_fast h) \<and> (p - 16, a, False) \<in> nodes Bs" using ok'(7) by (auto simp: owned_ok_def)
  have bF: "b \<notin># fast_blocks (bh_fast h)" using o(4)[OF b] by simp
  have other: "p - 16 \<noteq> b \<and> p - 16 \<noteq> c" if "(p, a) \<in> L - {(b + 16, z)}" for p a
  proof -
    have "p \<noteq> b + 16" using inj_onD[OF o(3), of "(p, a)" "(b + 16, z)"] that b by auto
    moreover have "p \<noteq> c + 16" using c(2) that by force
    ultimately show ?thesis by (metis diff_add_cancel)
  qed
  have ow: "owned_ok (fast_blocks (bh_fast h)) ?L (nodes ?Bs)"
    unfolding owned_ok_def
  proof (intro conjI allI ballI)
    show "count (fast_blocks (bh_fast h)) x \<le> 1" for x by (rule o(1))
    show "\<exists>z. (x, z, False) \<in> nodes ?Bs" if "x \<in># fast_blocks (bh_fast h)" for x
    proof -
      have "x \<noteq> b" "x \<noteq> c" using that bF c(1) by auto
      then show ?thesis using o(2)[OF that] unfolding N by auto
    qed
    show "inj_on fst ?L"
    proof -
      have "inj_on fst (L - {(b + 16, z)})" by (rule inj_on_subset[OF o(3)]) auto
      moreover have "b + 16 \<notin> fst ` (L - {(b + 16, z)})" using other by fastforce
      ultimately show ?thesis unfolding inj_on_insert by auto
    qed
    show "case x of (p, a) \<Rightarrow> p - 16 \<notin># fast_blocks (bh_fast h) \<and> (p - 16, a, False) \<in> nodes ?Bs" if "x \<in> ?L" for x
    proof (cases "x = (b + 16, z + r)")
      case True
      then show ?thesis using bF unfolding N by simp
    next
      case False
      obtain p a where x: "x = (p, a)" by (cases x)
      then have "(p, a) \<in> L - {(b + 16, z)}" using that False by blast
      then show ?thesis using other[of p a] o(4)[of p a] unfolding x N by simp
    qed
  qed
  have "heap_ok ?h sl ?Bs ?L G"
  proof (rule heap_change[OF ok mem j(3)])
    show "small_rep ?h sl" using j(1) by (simp add: env_ok_def)
    show "width ns' = width ?ns \<and> block_ok ?h sl (m, ns')" if "Some ?ns' = Some ns'" for ns'
      using that j(1,2) sh B(4) by (auto simp: block_ok_def add.assoc)
    have "(x, w, True) \<in> nodes ?Bs \<longleftrightarrow> (x, w, True) \<in> nodes Bs" for x w unfolding N by auto
    then show "qs_ok (bigs ?h) (nodes ?Bs)" using qs_ok_cong[OF ok'(5), of "nodes ?Bs"] by (simp add: bigs_def)
    show "fast_ok (bh_fast ?h)" "owned_ok (fast_blocks (bh_fast ?h)) ?L (nodes ?Bs)" using ok'(6) ow by simp_all
  qed simp_all
  then show ?thesis by blast
qed

section \<open>A larger size\<close>

lemma not_un_used:
  assumes "node_ok S h m k lf lz (r, False)"
  shows "\<not> un_used h (node_at m k)"
proof -
  have "bh_tag h (node_at m k) = mk_tag (off_fl k False lf (lf \<and> lz = 1) False) (word_of_nat (16 * r))" using assms by (simp add: node_ok_def Let_def)
  then show ?thesis by (simp only: un_used_def tag_sel off_fl_simps) simp
qed

lemma grow_writes:
  assumes ne: "b \<noteq> c" "b \<noteq> c + w" "c + w \<noteq> c" and c: "c \<in> node_at b ` {0<..<y}" and sz: "bsize h1 b + v = s"
  shows "writes (b + 16) y (set_bsize b s (set_used c w h1))
    (set_bs_offset (c + w) (bs_offset (set_bsize b (bsize h1 b + v) h1) (c + w) AND NOT FLG_LUNUSED) (set_bsize b (bsize h1 b + v) h1))"
    (is "writes _ _ ?H ?h3")
proof -
  have "bh_tag ?h3 x = bh_tag ?H x" if "x \<noteq> c" for x unfolding sz using that ne by (simp add: set_used_fields(1)[OF ne(3)])
  then have "\<forall>x. x \<notin> node_at (b + 16 - 16) ` {0<..<y} \<longrightarrow> bh_tag ?h3 x = bh_tag ?H x" using c by (metis add_diff_cancel)
  moreover have "?h3 = ?H\<lparr>bh_tag := bh_tag ?h3, bh_left := bh_left ?H, bh_data := bh_data ?H\<rparr>" by (simp add: set_used_def Let_def)
  ultimately show ?thesis unfolding writes_def by (intro exI[of _ "bh_tag ?h3"] exI[of _ "bh_left ?H"] exI[of _ "bh_data ?H"]) blast
qed

lemma grow_result:
  assumes un: "un_used h c" "bs_offset h c AND 8 \<noteq> 0 \<longleftrightarrow> r = 1" and sz: "r \<noteq> 1 \<Longrightarrow> bsize h c = word_of_nat (16 * r)"
    and r: "0 < r" "16 * r < 2 ^ 28" and bc: "b + msize = c"
  defines "h1 \<equiv> unlink r c h" and "d \<equiv> c + word_of_nat (16 * r)"
  defines "h2 \<equiv> set_bsize b (bsize h1 b + word_of_nat (16 * r)) h1"
  shows "realloc_grow b msize h = (msize + word_of_nat (16 * r), set_bs_offset d (bs_offset h2 d AND NOT FLG_LUNUSED) h2)"
proof (cases "r = 1")
  case True
  then show ?thesis using un bc by (simp add: realloc_grow_def Let_def h2_def h1_def d_def unlink_def)
next
  case False
  have u: "ucast (word_of_nat (16 * r) :: u32) = (word_of_nat (16 * r) :: u64)" by (rule ucast_size) (use r in simp)
  have "unat (word_of_nat (16 * r) :: u32) = 16 * r" using r by (simp add: unsigned_of_nat take_bit_nat_eq_self del: of_nat_mult)
  then have "(word_of_nat (16 * r) :: u32) \<noteq> 0" using r(1) by (metis mult_is_0 not_less_zero unat_0 zero_neq_numeral)
  then show ?thesis using un False bc sz by (simp add: realloc_grow_def Let_def h2_def h1_def d_def unlink_def u del: of_nat_mult)
qed

lemma realloc_grow_ok:
  assumes ok: "heap_ok h sl Bs L G" and p: "(p, z) \<in> L"
  shows "\<exists>y h' sl' Bs'. realloc_grow (p - 16) (word_of_nat (16 * z)) h = (word_of_nat (16 * y), h') \<and>
    heap_ok h' sl' Bs' (insert (p, y) (L - {(p, z)})) G \<and> z \<le> y"
proof -
  let ?b = "p - 16"
  note ok' = heap_okD[OF ok]
  have bN: "(?b, z, False) \<in> nodes Bs" using ok'(7) p unfolding owned_ok_def by blast
  obtain m ls rs where mem: "(m, ls @ (z, False) # rs) \<in> set Bs" and b: "?b = node_at m (Suc (width ls))" and z: "0 < z" using nodesE[OF bN] by blast
  have B: "env_ok h m sl (Suc (width (ls @ (z, False) # rs)))" "tiled (set sl) h m 1 False 0 (ls @ (z, False) # rs)" "shape (ls @ (z, False) # rs)"
    using ok'(2)[OF mem] by (simp_all add: block_ok_def)
  have lim: "16 * Suc (width (ls @ (z, False) # rs)) < 2 ^ 28" using ok'(3) mem by (force simp: apart_def)
  obtain r f rs' where rs: "rs = (r, f) # rs'" using B(3) z by (cases rs) (auto simp: shape_def)
  let ?k = "Suc (width ls)" let ?c = "node_at m (?k + z)"
  have c: "?b + word_of_nat (16 * z) = ?c" unfolding b by (rule node_at_add)
  have tr: "tiled (set sl) h m (?k + z) False z ((r, f) # rs')" using B(2) unfolding rs tiled_middle by simp
  show ?thesis
  proof (cases f)
    case False
    then have "\<not> un_used h ?c" using tr not_un_used by auto
    then have "realloc_grow ?b (word_of_nat (16 * z)) h = (word_of_nat (16 * z), h)" unfolding realloc_grow_def Let_def c by simp
    moreover have "insert (p, z) (L - {(p, z)}) = L" using p by auto
    ultimately show ?thesis using ok by (intro exI[of _ z] exI[of _ h]) auto
  next
    case True
    let ?L = "insert (p, z + r) (L - {(p, z)})" and ?h1 = "unlink r ?c h" and ?w = "word_of_nat (16 * r) :: u64"
    have r: "0 < r" using shape_free_pos[OF B(3), of "(r, f)"] True by (simp add: rs)
    then have rs'0: "rs' \<noteq> []" using B(3) by (auto simp: shape_def rs)
    have r28: "16 * r < 2 ^ 28" using lim by (simp add: rs)
    have "tiled (set sl) h m (?k + z) False z ((r, True) # rs')" using tr True by simp
    note un = un_used_free[OF this]
    have sz: "bsize h ?c = word_of_nat (16 * r)" if "r \<noteq> 1" using tr that True by (simp add: node_ok_def Let_def)
    have mem': "(m, (ls @ [(z, False)]) @ (r, True) # rs') \<in> set Bs" using mem True by (simp add: rs)
    have cN: "(?c, r, True) \<in> nodes Bs" using nodes_mem[OF mem' r] by (simp add: add.commute)
    have h1: "bh_left ?h1 = bh_left h" "bh_q8 ?h1 = bh_q8 h" "bh_fast ?h1 = bh_fast h" "bh_returned ?h1 = bh_returned h" "bh_a_alloced ?h1 = bh_a_alloced h"
      by (simp_all add: unlink_def take_out_def small_remove_def Let_def unset_size8_def set_small_prev_def)
    have "bigs ?h1 = qs_remove ?c r (bigs h)" using unlinked_qs(1)[of h ?c r] sz r28 unfolding unlink_def by auto
    then have q: "qs_ok (bigs ?h1) (nodes Bs - {(?c, r, True)})" using qs_ok_remove[OF ok'(5) cN] nodes_unique[OF ok'(3) cN] by (metis (full_types))
    have cs: "node_at m (Suc (width (ls @ [(z, False)]))) = ?c" by (simp add: add.commute)
    obtain sl1 Bs1 where ok1: "heap_ok (set_used ?c ?w ?h1) sl1 Bs1 L G" and mem1: "(m, ls @ (z, False) # (r, False) # rs') \<in> set Bs1"
      and cF: "?c \<notin># fast_blocks (bh_fast h)" "?c + 16 \<notin> fst ` L"
      using heap_use[OF ok mem' r, of ?h1, unfolded cs, OF refl h1(1) refl h1(2-5) q] by (auto simp: replaced_def)
    let ?d = "?c + ?w" and ?u = "set_used ?c ?w ?h1"
    have d: "?d = node_at m (?k + z + r)" by (rule node_at_add)
    have lim32: "16 * Suc (width (ls @ (z, False) # rs)) < 2 ^ 32" using lim by simp
    have ne: "?b \<noteq> ?c" "?b \<noteq> ?d" "?d \<noteq> ?c" unfolding b d
      using near_inj[OF _ _ lim32, of ?k "?k + z" m] near_inj[OF _ _ lim32, of ?k "?k + z + r" m] near_inj[OF _ _ lim32, of "?k + z + r" "?k + z" m] z r
      by (simp_all add: rs)
    note su = set_used_fields[OF ne(3), of ?h1]
    have bz: "bsize ?h1 ?b = word_of_nat (16 * z)"
    proof -
      have "(?b, z, False) \<in> nodes Bs1" using heap_okD(7)[OF ok1] p unfolding owned_ok_def by blast
      from node_size(1)[OF ok1 this] have "bsize ?u ?b = word_of_nat (16 * z)" by simp
      then show ?thesis unfolding su(1) using ne by simp
    qed
    have pb: "?b + 16 = p" by simp
    have fu: "bh_fast ?u = bh_fast h" using h1(3) by (simp add: set_used_def Let_def)
    let ?H = "set_bsize ?b (word_of_nat (16 * (z + r))) ?u" and ?h2 = "set_bsize ?b (bsize ?h1 ?b + word_of_nat (16 * r)) ?h1"
    let ?h3 = "set_bs_offset ?d (bs_offset ?h2 ?d AND NOT FLG_LUNUSED) ?h2"
    obtain Bs2 where ok2: "heap_ok ?H sl1 Bs2 ?L G"
      using heap_join[OF ok1 mem1 z r, folded b, unfolded pb fu, OF p cF] by blast
    have "?c = node_at ?b z" unfolding b by (simp add: node_at_node_at)
    then have c_in: "?c \<in> node_at ?b ` {0<..<z + r}" using z r by simp
    have sum: "bsize ?h1 ?b + word_of_nat (16 * r) = word_of_nat (16 * (z + r))" unfolding bz by (simp add: distrib_left)
    have w: "writes p (z + r) ?H ?h3" by (rule grow_writes[OF ne(1,2,3) c_in sum, unfolded pb])
    from write_ok[OF ok2 insertI1 w] have "heap_ok ?h3 sl1 Bs2 ?L G" .
    moreover have "realloc_grow ?b (word_of_nat (16 * z)) h = (word_of_nat (16 * z) + ?w, ?h3)" by (rule grow_result[OF un sz r r28 c])
    moreover have "word_of_nat (16 * z) + ?w = word_of_nat (16 * (z + r))" by (simp add: distrib_left)
    ultimately have "realloc_grow ?b (word_of_nat (16 * z)) h = (word_of_nat (16 * (z + r)), ?h3) \<and> heap_ok ?h3 sl1 Bs2 ?L G \<and> z \<le> z + r"
      by (metis le_add1)
    then show ?thesis by blast
  qed
qed

section \<open>New sizes\<close>

lemma new_size:
  assumes "unat n \<le> 2 ^ 62"
  shows "sep_align n = word_of_nat (16 * ((unat n + 23) div 16))" "0 < (unat n + 23) div 16" "16 * ((unat n + 23) div 16) < 2 ^ 63"
    "unat (word_of_nat (16 * ((unat n + 23) div 16)) :: u64) = 16 * ((unat n + 23) div 16)"
proof -
  let ?a = "(unat n + 23) div 16"
  have "16 * ?a \<le> unat n + 23" by simp
  then show l: "16 * ?a < 2 ^ 63" using assms by simp
  show "0 < ?a" by (simp add: div_greater_zero_iff)
  have "unat (sep_align n) = 16 * ?a" using sep_align_nat[of n] assms by simp
  moreover have "word_of_nat (unat x) = x" for x :: u64 by simp
  ultimately show e: "sep_align n = word_of_nat (16 * ?a)" by metis
  show "unat (word_of_nat (16 * ?a) :: u64) = 16 * ?a" unfolding e[symmetric] by fact
qed

lemma new_size_tests:
  assumes "16 * a < 2 ^ 63" "16 * z < 2 ^ 28"
  shows "(word_of_nat (16 * a) :: u64) \<le> word_of_nat (16 * z) \<longleftrightarrow> a \<le> z"
    "(word_of_nat (16 * z) :: u64) \<le> word_of_nat (16 * a) * 2 \<longleftrightarrow> z \<le> 2 * a"
proof -
  have u: "unat (word_of_nat (16 * a) :: u64) = 16 * a" "unat (word_of_nat (16 * z) :: u64) = 16 * z"
    using assms by (simp_all add: unsigned_of_nat take_bit_nat_eq_self del: of_nat_mult)
  have "unat (word_of_nat (16 * a) * 2 :: u64) = 32 * a" using u(1) assms(1) by (simp add: unat_word_ariths del: of_nat_mult)
  then show "(word_of_nat (16 * a) :: u64) \<le> word_of_nat (16 * z) \<longleftrightarrow> a \<le> z"
    "(word_of_nat (16 * z) :: u64) \<le> word_of_nat (16 * a) * 2 \<longleftrightarrow> z \<le> 2 * a"
    using u by (auto simp: word_le_nat_alt simp del: of_nat_mult)
qed

lemma object_size:
  assumes "heap_ok h sl Bs L G" "(p, z) \<in> L"
  shows "ucast (bsize h (p - 16)) = (word_of_nat (16 * z) :: u64)" "16 * z < 2 ^ 28"
proof -
  have "(p - 16, z, False) \<in> nodes Bs" using heap_okD(7)[OF assms(1)] assms(2) unfolding owned_ok_def by blast
  from node_size(2,3)[OF assms(1) this] show "ucast (bsize h (p - 16)) = (word_of_nat (16 * z) :: u64)" "16 * z < 2 ^ 28" by simp_all
qed

lemma realloc_local_ok:
  assumes ok: "heap_ok h sl Bs L G" and p: "(p, z) \<in> L" and n: "unat n \<le> 2 ^ 62"
  shows "\<exists>r h' y sl' Bs'. realloc_local p n h = Inr (r, h') \<and> heap_ok h' sl' Bs' (insert (p, y) (L - {(p, z)})) G \<and>
    (r = None \<and> z \<le> y \<or> r = Some p \<and> (unat n + 23) div 16 \<le> y)"
proof -
  let ?a = "(unat n + 23) div 16" and ?b = "p - 16"
  note a = new_size[OF n] and z = object_size[OF ok p]
  note t = new_size_tests[OF a(3) z(2)]
  have same: "insert (p, z) (L - {(p, z)}) = L" using p by auto
  consider "z \<le> 2 * ?a" "?a \<le> z" | "\<not> (z \<le> 2 * ?a \<and> ?a \<le> z)" "?a \<le> z" | "\<not> ?a \<le> z" by blast
  then show ?thesis
  proof cases
    case 1
    then have "realloc_local p n h = Inr (Some p, h)" by (simp add: realloc_local_def Let_def a(1) z(1) t del: of_nat_mult)
    then show ?thesis using ok same 1 by (intro exI[of _ "Some p"] exI[of _ h] exI[of _ z]) auto
  next
    case 2
    obtain h' Bs' where h': "split_node ?b (word_of_nat (16 * z)) (word_of_nat (16 * ?a)) h = Inr (p, h')"
      "heap_ok h' sl Bs' (insert (p, cut_size z ?a) (L - {(p, z)})) G" using split_object[OF ok p a(2) 2(2)] by blast
    have "realloc_local p n h = Inr (Some p, h')" using 2 h'(1) by (simp add: realloc_local_def Let_def a(1) z(1) t del: of_nat_mult)
    then show ?thesis using h'(2) cut_le[OF 2(2)] by blast
  next
    case 3
    obtain h1 sl1 Bs1 where h1: "clear_fast h = Inr h1" "heap_ok h1 sl1 Bs1 L G" using clear_fast_ok[OF ok] by blast
    obtain y h2 sl2 Bs2 where h2: "realloc_grow ?b (word_of_nat (16 * z)) h1 = (word_of_nat (16 * y), h2)"
      "heap_ok h2 sl2 Bs2 (insert (p, y) (L - {(p, z)})) G" "z \<le> y" using realloc_grow_ok[OF h1(2) p] by blast
    have o: "inj_on fst L" using heap_okD(7)[OF ok] by (simp add: owned_ok_def)
    have "(p, y) \<notin> L - {(p, z)}" using inj_onD[OF o, of "(p, y)" "(p, z)"] p by auto
    then have L2: "insert (p, y) (L - {(p, z)}) - {(p, y)} = L - {(p, z)}" by simp
    note t2 = new_size_tests[OF a(3) object_size(2)[OF h2(2) insertI1]]
    have eq: "realloc_local p n h = (if ?a \<le> y then bindE (split_node ?b (word_of_nat (16 * y)) (word_of_nat (16 * ?a)) h2) (\<lambda>(r, h3). Inr (Some r, h3)) else Inr (None, h2))"
      using 3 h1(1) h2(1) by (simp add: realloc_local_def Let_def a(1) z(1) t t2 del: of_nat_mult)
    show ?thesis
    proof (cases "?a \<le> y")
      case True
      obtain h3 Bs3 where h3: "split_node ?b (word_of_nat (16 * y)) (word_of_nat (16 * ?a)) h2 = Inr (p, h3)"
        "heap_ok h3 sl2 Bs3 (insert (p, cut_size y ?a) (L - {(p, z)})) G"
        using split_object[OF h2(2) insertI1 a(2) True] unfolding L2 by blast
      then have "realloc_local p n h = Inr (Some p, h3)" unfolding eq using True by simp
      then show ?thesis using h3(2) cut_le[OF True] by blast
    next
      case False
      then have "realloc_local p n h = Inr (None, h2)" unfolding eq by simp
      then show ?thesis using h2(2,3) by blast
    qed
  qed
qed

lemma realloc_foreign_ok:
  assumes ok: "heap_ok h sl Bs L G" and p: "(p, z) \<in> L" and n: "unat n \<le> 2 ^ 62"
    and r: "realloc_foreign p n h = (r, Some x, h')"
  shows "\<exists>y w sl' Bs'. r = Some p \<and> heap_ok h' sl' Bs' (insert (x, w) (insert (p, y) (L - {(p, z)}))) G \<and> x \<notin> fst ` L \<and> (unat n + 23) div 16 \<le> y"
proof -
  let ?a = "(unat n + 23) div 16" and ?b = "p - 16"
  let ?w = "word_of_nat (16 * ?a) :: u64" and ?z = "word_of_nat (16 * z) :: u64"
  note a = new_size[OF n] and z = object_size[OF ok p]
  note t = new_size_tests[OF a(3) z(2)]
  let ?H = "set_sep (?b + ?w) (ucast (?z - ?w)) ?b (set_bsize ?b (ucast ?w) h)"
  have az: "?a \<le> z" "\<not> z \<le> 2 * ?a" and e: "r = Some p" "x = ?b + ?w + 16" "h' = ?H"
    using r by (auto simp: realloc_foreign_def Let_def a(1) z(1) t simp del: of_nat_mult split: if_splits)
  obtain h2 Bs2 where h2: "split_node ?b ?z ?w h = Inr (p, h2)" "heap_ok h2 sl Bs2 (insert (p, cut_size z ?a) (L - {(p, z)})) G"
    using split_object[OF ok p a(2) az(1)] by blast
  have cut: "cut_size z ?a = ?a" "\<not> 4 * (z - ?a) < ?a" using az by (simp_all add: cut_size_def)
  have z32: "16 * z < 2 ^ 32" using z(2) by simp
  have h2': "split_node ?b ?z ?w h = Inr (?b + 16, h2)" using h2(1) by simp
  note l = split_node_lists[OF h2' a(2) az(1) z32 heap_okD(6)[OF ok]]
  have bm: "node_at ?b ?a = ?b + ?w" by (simp add: node_at_def)
  have F: "fast_blocks (bh_fast h2) = add_mset (?b + ?w) (fast_blocks (bh_fast h))" using l(5) cut(2) bm by simp
  then have ne: "h2 \<noteq> h" by auto
  obtain fa where fa: "h2 = ?H\<lparr>bh_fast := fa\<rparr>"
    using h2(1) ne by (auto simp: split_node_def Let_def free_rest_def bindE_eq_Inr simp del: of_nat_mult split: if_splits)
  have H: "?H = h2\<lparr>bh_fast := bh_fast h\<rparr>" unfolding fa by (simp add: set_sep_def Let_def)
  note own = heap_okD(7)[OF h2(2), unfolded F]
  obtain w where "(?b + ?w, w, False) \<in> nodes Bs2" using own unfolding owned_ok_def by auto
  note new = owned_from_fast[OF own this]
  have "heap_ok ?H sl Bs2 (insert (x, w) (insert (p, ?a) (L - {(p, z)}))) G" unfolding H e(2)
    by (rule heap_ok_frame[OF h2(2)]) (use new(1) heap_okD(5)[OF h2(2)] heap_okD(6)[OF ok] cut(1) in \<open>simp_all add: bigs_def del: of_nat_mult\<close>)
  moreover have "x \<notin> fst ` L" using new(2) unfolding e(2) by (auto simp: image_iff simp del: of_nat_mult)
  ultimately show ?thesis using e(1,3) by blast
qed

end
