(* ===== verification/LA_Runs.thy ===== *)
theory LA_Runs
  imports LA_Realloc
begin

text \<open>
  Runs of a thread's block heap: the thread starts, allocates and frees, other threads send objects back and take memory of
  their own, and the program writes into its objects. The objects that the program holds never overlap, and no step runs
  into undefined behaviour.
\<close>

unbundle bit_operations_syntax

section \<open>Runs\<close>

text \<open>What others write in their own memory.\<close>

definition foreign :: "u64 set \<Rightarrow> bheap \<Rightarrow> bheap \<Rightarrow> bool" where
  "foreign A h h' \<longleftrightarrow> (\<exists>t l d. h' = h\<lparr>bh_tag := t, bh_left := l, bh_data := d\<rparr> \<and>
     (\<forall>x. x \<notin> A \<longrightarrow> t x = bh_tag h x \<and> l x = bh_left h x) \<and> (\<forall>x. x + 16 \<notin> A \<longrightarrow> d x = bh_data h x))"

lemma foreign_ok:
  assumes ok: "heap_ok h sl Bs L G" and mem: "mem_ok A M G" and f: "foreign A h h'"
  shows "heap_ok h' sl Bs L (fst G, gap M)"
proof -
  note ok' = heap_okD[OF ok]
  obtain t l d where h': "h' = h\<lparr>bh_tag := t, bh_left := l, bh_data := d\<rparr>" "\<And>x. x \<notin> A \<Longrightarrow> t x = bh_tag h x \<and> l x = bh_left h x"
    "\<And>x. x + 16 \<notin> A \<Longrightarrow> d x = bh_data h x" using f by (auto simp: foreign_def)
  have A: "A \<inter> gap M = {}" "A \<inter> cells (fst (fst G)) = {}" "{snd (fst G), snd (fst G) + 16} \<inter> A = {}" "gap M \<subseteq> snd G"
    using mem cells_above(2)[OF mem] by (auto simp: mem_ok_def)
  have q8: "bh_q8 h = snd (fst G)" using ok'(8) by (metis lent_def snd_conv)
  have own: "x \<notin> A" if "x \<in> room B" "B \<in> set Bs" for x B using room_cells[OF ok that(2)] that(1) A(2) by blast
  have small: "x \<notin> A \<and> x + 16 \<notin> A" if x: "x \<in> set (bh_q8 h # sl)" for x
  proof (cases "x = bh_q8 h")
    case True
    then show ?thesis using A(3) q8 by auto
  next
    case False
    then have "(x, 1, True) \<in> nodes Bs" using x ok'(4) by simp
    then obtain m ns where m: "(m, ns) \<in> set Bs" "(x, 1, True) \<in> segs m 1 ns" by (auto simp: nodes_def)
    then have "node_at x 0 \<notin> A" "node_at x 1 \<notin> A" using segs_room[OF m(2)] own[OF _ m(1)] by simp_all
    then show ?thesis by (simp add: node_at_def)
  qed
  have rep: "small_rep h' sl"
  proof -
    have "dlist_rep (small_store h') (bh_q8 h) sl"
      by (rule dlist_rep_frame[of "small_store h"])
        (use ok'(1) h' small in \<open>auto simp: small_rep_def small_store_def small_prev_def\<close>)
    then show ?thesis using ok'(1) h'(1) by (simp add: small_rep_def)
  qed
  have "block_ok h' sl B" if B: "B \<in> set Bs" for B
  proof -
    obtain m ns where B': "B = (m, ns)" by (cases B)
    have b: "env_ok h m sl (Suc (width ns))" "tiled (set sl) h m 1 False 0 ns" "shape ns" "m AND 4095 = 0"
      using ok'(2)[OF B] by (simp_all add: block_ok_def B')
    have "tiled (set sl) h' m 1 False 0 ns"
    proof (rule tiled_agree[OF b(2)])
      fix x assume "x \<in> cover m 1 ns"
      then obtain i where "i \<le> Suc (width ns)" "x = node_at m i" using cover_upto[of x m 1 ns] by auto
      then have "x \<in> room B" by (simp add: B' room_def near_at)
      then show "agree (set sl) h (set sl) h' x" using h'(2)[OF own[OF _ B]] by (simp add: h'(1) agree_def)
    qed
    then show ?thesis using b rep h'(1) by (simp add: B' block_ok_def env_ok_def)
  qed
  moreover have "clean h' (fst G, gap M)"
    unfolding clean_def fst_conv snd_conv
  proof (intro ballI impI)
    fix x assume x: "x \<in> gap M" "x \<notin> cells (fst (fst G))" "x \<noteq> snd (fst G)"
    then have "x \<notin> A" "x \<in> snd G" using A(1,4) by blast+
    then show "bh_tag h' x = 0" using ok'(9) x(2,3) h'(1,2) by (simp add: clean_def)
  qed
  ultimately show ?thesis using ok' rep by (simp add: heap_ok_def h'(1) lent_def)
qed

lemma mem_ok_gap: "mem_ok A M G \<Longrightarrow> mem_ok A M (fst G, gap M)"
  by (simp add: mem_ok_def)

lemma others_ok:
  assumes mem: "mem_ok A M G" and r: "heap_serve pers slab r M = (x, M')"
    and fits: "unat (tm_slabPos M) + req_size r \<le> unat (tm_mmapPos M)"
  shows "mem_ok (A \<union> (gap M - gap M')) M' G"
proof -
  note M = mem_okD[OF mem]
  have st: "tm_initialized M'" "unat (tm_slabPos M) \<le> unat (tm_slabPos M')" "unat (tm_mmapPos M') \<le> unat (tm_mmapPos M)"
    using heap_serve_step[OF _ r, of 0] M fits by simp_all
  have "unat (tm_mmapPos M') mod 4096 = 0"
  proof (cases r)
    case (SlabReq n)
    then have "tm_mmapPos M' = tm_mmapPos M" using r M by (auto simp: adjust_slab_memory_def memory_init_def Let_def)
    then show ?thesis using M by simp
  next
    case (MmapReq n)
    have sz: "(unat n + 4095) div 4096 * 4096 \<le> unat (tm_mmapPos M)" using fits MmapReq by simp
    have "unat (tm_mmapPos M) < 2 ^ 64" using unsigned_less[of "tm_mmapPos M"] by simp
    with sz have lt: "(unat n + 4095) div 4096 * 4096 < 2 ^ 64" by (rule le_less_trans)
    note u = mmap_size[OF lt]
    have "tm_mmapPos M' = tm_mmapPos M - (if n mod of_nat TMI_PAGESIZE \<noteq> 0 then (n div of_nat TMI_PAGESIZE + 1) * of_nat TMI_PAGESIZE else n)"
      using r MmapReq M by (auto simp: get_mmap_memory_def memory_init_def Let_def)
    then have "unat (tm_mmapPos M') = unat (tm_mmapPos M) - (unat n + 4095) div 4096 * 4096" using u sz by (simp add: unat_sub word_le_nat_alt)
    then show ?thesis using M sz by (simp add: mod_eq_0_iff_dvd dvd_diff_nat)
  qed
  moreover have "\<forall>r \<in># fst (fst G). \<forall>y \<in> A \<union> (gap M - gap M'). \<not> in_region (unat y) r"
  proof (intro ballI)
    fix r y assume r: "r \<in># fst (fst G)" and y: "y \<in> A \<union> (gap M - gap M')"
    have "unat (tm_mmapPos M) \<le> unat (fst r)" "y \<in> A \<longrightarrow> \<not> in_region (unat y) r" using M(4,9) r by blast+
    then show "\<not> in_region (unat y) r" using y by (auto simp: in_region_def)
  qed
  moreover have "unat (snd (fst G) + 16) = unat (snd (fst G)) + 16" using M by (simp add: unat_word_ariths)
  then have "{snd (fst G), snd (fst G) + 16} \<inter> (gap M - gap M') = {}" using M(5) by auto
  then have "{snd (fst G), snd (fst G) + 16} \<inter> (A \<union> (gap M - gap M')) = {}" using M(10) by blast
  moreover have g: "gap M' \<subseteq> gap M" using st by auto
  then have "(A \<union> (gap M - gap M')) \<inter> gap M' = {}" "gap M' \<subseteq> snd G" using M(6,8) by blast+
  moreover have "\<forall>x \<in># fst (fst G). unat (tm_mmapPos M') \<le> unat (fst x) \<and> unat (fst x) + unat (snd x) \<le> 2 ^ 64" using M(4) st(3) by fastforce
  moreover have "0 < unat (tm_slabPos M')" "unat (tm_mmapPos M') \<le> unat (snd (fst G))" "total (fst (fst G)) + unat (tm_mmapPos M') \<le> 2 ^ 62"
    using M(3,5,7) st by simp_all
  ultimately show ?thesis using M(11,12) st(1) unfolding mem_ok_def by (intro conjI allI)
qed

lemma writes_mono: "writes p a h h' \<Longrightarrow> a \<le> b \<Longrightarrow> writes p b h h'"
proof -
  assume w: "writes p a h h'" "a \<le> b"
  have "node_at (p - 16) ` {0<..<a} \<subseteq> node_at (p - 16) ` {0<..<b}" "node_at (p - 16) ` {0<..a} \<subseteq> node_at (p - 16) ` {0<..b}"
    "node_at (p - 16) ` {..<a} \<subseteq> node_at (p - 16) ` {..<b}" using w(2) by (intro image_mono; auto)+
  moreover obtain t l d where "h' = h\<lparr>bh_tag := t, bh_left := l, bh_data := d\<rparr>"
    "\<forall>x. x \<notin> node_at (p - 16) ` {0<..<a} \<longrightarrow> t x = bh_tag h x" "\<forall>x. x \<notin> node_at (p - 16) ` {0<..a} \<longrightarrow> l x = bh_left h x"
    "\<forall>x. x \<notin> node_at (p - 16) ` {..<a} \<longrightarrow> d x = bh_data h x" using w(1) unfolding writes_def by blast
  ultimately show ?thesis unfolding writes_def by (intro exI[of _ t] exI[of _ l] exI[of _ d]) (meson subsetD)
qed

text \<open>
  The states of a run: the thread's heap, TMI's memory, the objects of the program with their sizes in units of 16 bytes,
  the queue of the objects that other threads freed, and the memory that others were given. A thread begins with its
  list heads at \<open>q8\<close>, above the memory that was not given out yet, which is zero.
\<close>

definition start_ok :: "tmi_memory \<Rightarrow> u64 \<Rightarrow> (u64 \<Rightarrow> u64) \<Rightarrow> bool" where
  "start_ok M q8 tag \<longleftrightarrow> tm_initialized M \<and> unat (tm_mmapPos M) mod 4096 = 0 \<and> 0 < unat (tm_slabPos M) \<and>
     unat (tm_slabPos M) + 2 ^ 27 \<le> unat (tm_mmapPos M) \<and> unat (tm_mmapPos M) \<le> 2 ^ 62 \<and>
     unat (tm_mmapPos M) \<le> unat q8 \<and> unat q8 < 2 ^ 63 \<and> q8 AND 15 = 0 \<and> (\<forall>x \<in> gap M. tag x = 0)"

type_synonym la_state = "bheap \<times> tmi_memory \<times> (u64 \<times> nat) set \<times> u64 list \<times> u64 set"

definition units :: "bheap \<Rightarrow> u64 \<Rightarrow> nat" where
  "units h p = unat (bsize h (p - 16)) div 16"

inductive la_run :: "u64 \<Rightarrow> u64 \<Rightarrow> (u64 \<Rightarrow> tmi_memory \<Rightarrow> tmi_memory) \<Rightarrow> la_state \<Rightarrow> bool" for pers slab slab_free where
  la_start: "start_ok M q8 tag \<Longrightarrow> init_atls (tmi_big_alloc pers slab) (thread_heap left tag data q8) M = Inr (Some (head, h), M') \<Longrightarrow>
    la_run pers slab slab_free (h, M', {}, [head], {})"
| la_malloc: "la_run pers slab slab_free (h, M, L, q, A) \<Longrightarrow> 512 < unat n \<Longrightarrow> unat n \<le> 2 ^ 27 - 72 \<Longrightarrow> roomy M st sz \<Longrightarrow>
    malloc_block btree_best (tmi_big_alloc pers slab) (is_slab st sz) slab_free n q h M = Inr (Some p, q', h', M') \<Longrightarrow>
    la_run pers slab slab_free (h', M', insert (p, units h' p) L, q', A)"
| la_free: "la_run pers slab slab_free (h, M, L, q, A) \<Longrightarrow> (p, a) \<in> L \<Longrightarrow> free_block p fcount h = Inr (fcount', h') \<Longrightarrow>
    la_run pers slab slab_free (h', M, L - {(p, a)}, q, A)"
| la_remote: "la_run pers slab slab_free (h, M, L, q, A) \<Longrightarrow> (p, a) \<in> L \<Longrightarrow> la_run pers slab slab_free (h, M, L - {(p, a)}, q @ [p], A)"
| la_link: "la_run pers slab slab_free (h, M, L, q, A) \<Longrightarrow> p \<in> set q \<Longrightarrow> writes p 1 h h' \<Longrightarrow> la_run pers slab slab_free (h', M, L, q, A)"
| la_realloc: "la_run pers slab slab_free (h, M, L, q, A) \<Longrightarrow> (p, a) \<in> L \<Longrightarrow> unat n \<le> 2 ^ 62 \<Longrightarrow> realloc_local p n h = Inr (r, h') \<Longrightarrow>
    la_run pers slab slab_free (h', M, insert (p, units h' p) (L - {(p, a)}), q, A)"
| la_shrink: "la_run pers slab slab_free (h, M, L, q, A) \<Longrightarrow> (p, a) \<in> L \<Longrightarrow> unat n \<le> 2 ^ 62 \<Longrightarrow> realloc_foreign p n h = (r, Some x, h') \<Longrightarrow>
    la_run pers slab slab_free (h', M, insert (p, units h' p) (L - {(p, a)}), q @ [x], A)"
| la_write: "la_run pers slab slab_free (h, M, L, q, A) \<Longrightarrow> (p, a) \<in> L \<Longrightarrow> writes p a h h' \<Longrightarrow> la_run pers slab slab_free (h', M, L, q, A)"
| la_request: "la_run pers slab slab_free (h, M, L, q, A) \<Longrightarrow> unat (tm_slabPos M) + req_size r \<le> unat (tm_mmapPos M) \<Longrightarrow>
    heap_serve pers slab r M = (x, M') \<Longrightarrow> la_run pers slab slab_free (h, M', L, q, A \<union> (gap M - gap M'))"
| la_foreign: "la_run pers slab slab_free (h, M, L, q, A) \<Longrightarrow> foreign A h h' \<Longrightarrow> la_run pers slab slab_free (h', M, L, q, A)"

fun la_ok :: "la_state \<Rightarrow> bool" where
  "la_ok (h, M, L, q, A) \<longleftrightarrow> (\<exists>sl Bs W G. heap_ok h sl Bs (L \<union> W) G \<and> mem_ok A M G \<and> queue_ok L W q)"

declare la_ok.simps [simp del]

lemma la_okE:
  assumes "la_ok (h, M, L, q, A)"
  obtains sl Bs W G where "heap_ok h sl Bs (L \<union> W) G" "mem_ok A M G" "queue_ok L W q"
  using assms unfolding la_ok.simps by blast

lemma la_okI: "heap_ok h sl Bs (L \<union> W) G \<Longrightarrow> mem_ok A M G \<Longrightarrow> queue_ok L W q \<Longrightarrow> la_ok (h, M, L, q, A)"
  unfolding la_ok.simps by blast

lemma units_ok:
  assumes "heap_ok h sl Bs L G" "(p, z) \<in> L"
  shows "units h p = z"
proof -
  have "(p - 16, z, False) \<in> nodes Bs" using heap_okD(7)[OF assms(1)] assms(2) unfolding owned_ok_def by blast
  note n = node_size[OF assms(1) this]
  have "unat (bsize h (p - 16)) = 16 * z" using n(1,2) by (simp add: unsigned_of_nat take_bit_nat_eq_self del: of_nat_mult)
  then show ?thesis by (simp add: units_def)
qed

lemma given_ok:
  assumes "given A p a L q h M"
  shows "a \<le> units h p \<and> p \<notin> fst ` L \<and> la_ok (h, M, insert (p, units h p) L, q, A)"
proof -
  obtain W G z sl Bs where g: "queue_ok L W q" "mem_ok A M G" "p \<notin> fst ` (L \<union> W)" "a \<le> z" "heap_ok h sl Bs (insert (p, z) (L \<union> W)) G"
    using assms unfolding given_def granted_def served_def by auto
  have z: "units h p = z" by (rule units_ok[OF g(5)]) simp
  have "heap_ok h sl Bs (insert (p, z) L \<union> W) G" using g(5) by simp
  moreover have "queue_ok (insert (p, z) L) W q" using g(1,3) unfolding queue_ok_def by auto
  ultimately show ?thesis unfolding z using g(2-4) by (auto intro: la_okI)
qed

lemma start_heap:
  assumes "start_ok M q8 tag"
  shows "heap_ok (thread_heap left tag data q8) [] [] {} (({#}, q8), gap M)" "mem_ok {} M (({#}, q8), gap M)"
proof -
  let ?h = "thread_heap left tag data q8"
  have "q8 \<noteq> 0" "q8 AND 15 = 0" using assms by (auto simp: start_ok_def)
  then have "dlist_rep (small_store ?h) q8 []"
    using prev_of_sum[of q8 "tag q8"] by (simp add: thread_heap_def small_store_def small_prev_def dlist_rep_def set_small_prev_def)
  then have "small_rep ?h []" using assms by (simp add: small_rep_def start_ok_def thread_heap_def set_small_prev_def)
  moreover have "clean ?h (({#}, q8), gap M)" using assms by (auto simp: clean_def start_ok_def thread_heap_def set_small_prev_def)
  moreover have "qs_ok (bigs ?h) (nodes [])"
    by (simp add: qs_ok_def thread_heap_def set_small_prev_def bigs_def nodes_def large_def tree_of_def)
  moreover have "fast_ok (bh_fast ?h)" "fast_blocks (bh_fast ?h) = {#}" by (simp_all add: thread_heap_def set_small_prev_def fast_ok_def fast_blocks_def)
  ultimately show "heap_ok ?h [] [] {} (({#}, q8), gap M)"
    by (simp add: heap_ok_def apart_def owned_ok_def lent_def thread_heap_def set_small_prev_def)
  show "mem_ok {} M (({#}, q8), gap M)" using assms by (simp add: mem_ok_def start_ok_def cells_def total_def)
qed

lemma start_runs:
  assumes "start_ok M q8 tag"
  shows "\<exists>head h M'. init_atls (tmi_big_alloc pers slab) (thread_heap left tag data q8) M = Inr (Some (head, h), M') \<and>
    la_ok (h, M', {}, [head], {})"
proof -
  let ?h = "thread_heap left tag data q8" and ?G = "(({#}, q8), gap M)"
  have sz: "PAGESIZE = word_of_nat (16 * 254 + 32)" "PAGESIZE - HEADERSIZE = word_of_nat (16 * 254)" "SEPSIZE = word_of_nat (16 * 1)"
    by (simp_all add: PAGESIZE_def HEADERSIZE_def SEPSIZE_def)
  have fits: "unat (tm_slabPos M) + 2 ^ 27 \<le> unat (tm_mmapPos M)" using assms by (simp add: start_ok_def)
  obtain m M' h' where m: "tmi_big_alloc pers slab PAGESIZE M = (Some m, M')"
    "split_node (m + 16) (PAGESIZE - HEADERSIZE) SEPSIZE (new_block m PAGESIZE ?h) = Inr (m + 16 + 16, h')"
    "granted {} (m + 16 + 16) 1 {} h' M' (lend (m, PAGESIZE) ?G)"
    using fresh_block_ok[OF start_heap[OF assms] _ _ _ fits, of 1 254, folded sz] by fastforce
  let ?p = "m + 16 + 16" and ?h' = "set_small_next (m + 16) 0 h'"
  have e: "init_atls (tmi_big_alloc pers slab) ?h M = Inr (Some (?p, ?h'), M')" by (simp add: init_atls_def first_block_def m add.commute)
  obtain z sl Bs where ok: "heap_ok h' sl Bs {(?p, z)} (lend (m, PAGESIZE) ?G)" "1 \<le> z" and mem: "mem_ok {} M' (lend (m, PAGESIZE) ?G)"
    using m(3) unfolding granted_def served_def by auto
  have "writes ?p 1 h' ?h'"
    unfolding writes_def by (rule exI[of _ "bh_tag h'"], rule exI[of _ "bh_left h'"], rule exI[of _ "(bh_data h')(m + 16 := 0)"])
      (auto simp: node_at_def)
  from write_ok[OF ok(1) _ writes_mono[OF this ok(2)]] have "heap_ok ?h' sl Bs ({} \<union> {(?p, z)}) (lend (m, PAGESIZE) ?G)" by simp
  from la_okI[OF this mem] have "la_ok (?h', M', {}, [?p], {})" by (simp add: queue_ok_def)
  then show ?thesis using e by blast
qed

lemma remote_ok:
  assumes "la_ok (h, M, L, q, A)" "(p, a) \<in> L"
  shows "la_ok (h, M, L - {(p, a)}, q @ [p], A)"
proof -
  obtain sl Bs W G where ok: "heap_ok h sl Bs (L \<union> W) G" "mem_ok A M G" "queue_ok L W q" using assms(1) by (rule la_okE)
  have inj: "inj_on fst (L \<union> W)" using heap_okD(7)[OF ok(1)] by (simp add: owned_ok_def)
  have "x = (p, a)" if "x \<in> L" "fst x = p" for x using inj_onD[OF inj, of x "(p, a)"] that assms(2) by simp
  then have "p \<notin> fst ` (L - {(p, a)})" by blast
  moreover have W: "fst ` W = set q" "fst ` L \<inter> set q = {}" "distinct q" using ok(3) by (simp_all add: queue_ok_def)
  moreover have "p \<notin> set q" using W(2) imageI[OF assms(2), of fst] by auto
  moreover have "fst ` (L - {(p, a)}) \<inter> set q = {}" using W(2) by blast
  ultimately have "queue_ok (L - {(p, a)}) (insert (p, a) W) (q @ [p])" unfolding queue_ok_def by simp
  moreover have "L - {(p, a)} \<union> insert (p, a) W = L \<union> W" using assms(2) by auto
  ultimately show ?thesis using ok(1,2) by (metis la_okI)
qed

lemma link_ok:
  assumes "la_ok (h, M, L, q, A)" "p \<in> set q" "writes p 1 h h'"
  shows "la_ok (h', M, L, q, A)"
proof -
  obtain sl Bs W G where ok: "heap_ok h sl Bs (L \<union> W) G" "mem_ok A M G" "queue_ok L W q" using assms(1) by (rule la_okE)
  have "p \<in> fst ` W" using ok(3) assms(2) by (simp add: queue_ok_def)
  then obtain z where z: "(p, z) \<in> L \<union> W" by force
  then have "0 < z" using heap_okD(7)[OF ok(1)] nodes_pos unfolding owned_ok_def by blast
  then have "writes p z h h'" by (intro writes_mono[OF assms(3)]) simp
  from la_okI[OF write_ok[OF ok(1) z this] ok(2,3)] show ?thesis .
qed

lemma local_ok:
  assumes "la_ok (h, M, L, q, A)" "(p, a) \<in> L"
  shows "\<exists>fcount' h'. free_block p fcount h = Inr (fcount', h') \<and> la_ok (h', M, L - {(p, a)}, q, A)"
proof -
  obtain sl Bs W G where ok: "heap_ok h sl Bs (L \<union> W) G" "mem_ok A M G" "queue_ok L W q" using assms(1) by (rule la_okE)
  have "(p, a) \<notin> W" using ok(3) assms(2) unfolding queue_ok_def by force
  then have "L \<union> W - {(p, a)} = L - {(p, a)} \<union> W" by auto
  moreover have "queue_ok (L - {(p, a)}) W q" using ok(3) unfolding queue_ok_def by auto
  ultimately show ?thesis using free_block_ok[OF ok(1), of p a fcount] assms(2) ok(2) la_okI by (metis UnI1)
qed

lemma queue_resize: "queue_ok L W q \<Longrightarrow> (p, a) \<in> L \<Longrightarrow> queue_ok (insert (p, y) (L - {(p, a)})) W q \<and> insert (p, y) (L \<union> W - {(p, a)}) = insert (p, y) (L - {(p, a)}) \<union> W"
  unfolding queue_ok_def by force

lemma resize_ok:
  assumes "la_ok (h, M, L, q, A)" "(p, a) \<in> L" "unat n \<le> 2 ^ 62"
  shows "\<exists>r h'. realloc_local p n h = Inr (r, h') \<and> la_ok (h', M, insert (p, units h' p) (L - {(p, a)}), q, A) \<and>
    (r = None \<and> a \<le> units h' p \<or> r = Some p \<and> (unat n + 23) div 16 \<le> units h' p)"
proof -
  obtain sl Bs W G where ok: "heap_ok h sl Bs (L \<union> W) G" "mem_ok A M G" "queue_ok L W q" using assms(1) by (rule la_okE)
  obtain r h' y sl' Bs' where r: "realloc_local p n h = Inr (r, h')" "heap_ok h' sl' Bs' (insert (p, y) (L \<union> W - {(p, a)})) G"
    "r = None \<and> a \<le> y \<or> r = Some p \<and> (unat n + 23) div 16 \<le> y" using realloc_local_ok[OF ok(1) UnI1[OF assms(2)] assms(3)] by blast
  note q = queue_resize[OF ok(3) assms(2), of y]
  have "la_ok (h', M, insert (p, y) (L - {(p, a)}), q, A)" using r(2) q ok(2) by (metis la_okI)
  then show ?thesis using r(1,3) units_ok[OF r(2), of p y] by auto
qed

lemma shrink_ok:
  assumes "la_ok (h, M, L, q, A)" "(p, a) \<in> L" "unat n \<le> 2 ^ 62" "realloc_foreign p n h = (r, Some x, h')"
  shows "la_ok (h', M, insert (p, units h' p) (L - {(p, a)}), q @ [x], A)"
proof -
  obtain sl Bs W G where ok: "heap_ok h sl Bs (L \<union> W) G" "mem_ok A M G" "queue_ok L W q" using assms(1) by (rule la_okE)
  obtain y w sl' Bs' where r: "heap_ok h' sl' Bs' (insert (x, w) (insert (p, y) (L \<union> W - {(p, a)}))) G" "x \<notin> fst ` (L \<union> W)"
    using realloc_foreign_ok[OF ok(1) UnI1[OF assms(2)] assms(3,4)] by blast
  note q = queue_resize[OF ok(3) assms(2), of y]
  have "p \<in> fst ` L" using imageI[OF assms(2), of fst] by simp
  then have "fst ` insert (p, y) (L - {(p, a)}) \<subseteq> fst ` L" by auto
  then have "x \<notin> fst ` insert (p, y) (L - {(p, a)})" "x \<notin> fst ` W" using r(2) by blast+
  then have "queue_ok (insert (p, y) (L - {(p, a)})) (insert (x, w) W) (q @ [x])" using q unfolding queue_ok_def by auto
  moreover have "heap_ok h' sl' Bs' (insert (p, y) (L - {(p, a)}) \<union> insert (x, w) W) G" using r(1) q by simp
  moreover have "units h' p = y" by (rule units_ok[OF r(1)]) simp
  ultimately show ?thesis using ok(2) by (metis la_okI)
qed

lemma la_run_ok: "la_run pers slab slab_free s \<Longrightarrow> la_ok s"
proof (induction rule: la_run.induct)
  case (la_start M q8 tag left data head h M')
  then show ?case using start_runs[OF la_start(1), of pers slab left data] by auto
next
  case (la_malloc h M L q A n st sz p q' h' M')
  obtain sl Bs W G where ok: "heap_ok h sl Bs (L \<union> W) G" "mem_ok A M G" "queue_ok L W q" using la_malloc.IH by (rule la_okE)
  have "given A p ((unat n + 23) div 16) L q' h' M'"
    using malloc_ok[OF ok la_malloc(4,2,3), of pers slab slab_free] unfolding la_malloc(5) by auto
  then show ?case using given_ok by blast
next
  case (la_free h M L q A p a fcount fcount' h')
  then show ?case using local_ok[OF la_free(4,2), of fcount] by auto
next
  case (la_remote h M L q A p a)
  then show ?case by (intro remote_ok)
next
  case (la_link h M L q A p h')
  then show ?case using link_ok[OF la_link.IH] by blast
next
  case (la_realloc h M L q A p a n r h')
  then show ?case using resize_ok[OF la_realloc.IH la_realloc(2,3)] by auto
next
  case (la_shrink h M L q A p a n r x h')
  then show ?case using shrink_ok[OF la_shrink.IH] by blast
next
  case (la_write h M L q A p a h')
  obtain sl Bs W G where ok: "heap_ok h sl Bs (L \<union> W) G" "mem_ok A M G" "queue_ok L W q" using la_write.IH by (rule la_okE)
  from la_okI[OF write_ok[OF ok(1) _ la_write(3)] ok(2,3)] show ?case using la_write(2) by simp
next
  case (la_request h M L q A r x M')
  obtain sl Bs W G where ok: "heap_ok h sl Bs (L \<union> W) G" "mem_ok A M G" "queue_ok L W q" using la_request.IH by (rule la_okE)
  from la_okI[OF ok(1) others_ok[OF ok(2) la_request(3,2)] ok(3)] show ?case .
next
  case (la_foreign h M L q A h')
  obtain sl Bs W G where ok: "heap_ok h sl Bs (L \<union> W) G" "mem_ok A M G" "queue_ok L W q" using la_foreign.IH by (rule la_okE)
  from la_okI[OF foreign_ok[OF ok(1,2) la_foreign(2)] mem_ok_gap[OF ok(2)] ok(3)] show ?case .
qed

section \<open>The objects of a run\<close>

lemma objects_disjoint:
  assumes ok: "heap_ok h sl Bs L G" and mem: "mem_ok A M G" and p: "(p, a) \<in> L" and q: "(q, c) \<in> L"
    and x: "x \<in> object_bytes (p, a)" "x \<in> object_bytes (q, c)"
  shows "(p, a) = (q, c)"
proof -
  obtain b where b: "(p - 16, a, False) \<in> nodes Bs" "a \<le> a" "unat p = 16 * b + 16" "p - 16 = word_of_nat (16 * b)"
    using object_place[OF ok mem p] by blast
  obtain d where d: "(q - 16, c, False) \<in> nodes Bs" "c \<le> c" "unat q = 16 * d + 16" "q - 16 = word_of_nat (16 * d)"
    using object_place[OF ok mem q] by blast
  define k where "k = (x - 8) div 16"
  have "x - 8 = 16 * k + (x - 8) mod 16" "(x - 8) mod 16 < 16" by (simp_all add: k_def)
  then have k: "b \<le> k" "k - b < a" "d \<le> k" "k - d < c" using x unfolding object_bytes_def fst_conv snd_conv b(3) d(3) atLeastLessThan_iff by linarith+
  have "node_at (p - 16) (k - b) = word_of_nat (16 * b + 16 * (k - b))" unfolding node_at_def b(4) by simp
  moreover have "node_at (q - 16) (k - d) = word_of_nat (16 * d + 16 * (k - d))" unfolding node_at_def d(4) by simp
  ultimately have "node_at (p - 16) (k - b) = node_at (q - 16) (k - d)" using k by simp
  with nodes_disjoint[OF heap_okD(3)[OF ok] b(1) d(1), of "k - b" "k - d"] have "p - 16 = q - 16" using k b(2) d(2) by simp
  then have "p = q" by simp
  moreover have "inj_on fst L" using heap_okD(7)[OF ok] by (simp add: owned_ok_def)
  ultimately show ?thesis using p q by (metis fst_conv inj_onD)
qed

lemma returned_ok:
  assumes ok: "heap_ok h sl Bs L G" and mem: "mem_ok A M G"
  shows "length (filter (in_region x) (bh_returned h)) \<le> 1"
    "r \<in> set (bh_returned h) \<Longrightarrow> (p, a) \<in> L \<Longrightarrow> x \<in> object_bytes (p, a) \<Longrightarrow> \<not> in_region x r"
    "(p, a) \<in> L \<Longrightarrow> x \<in> object_bytes (p, a) \<Longrightarrow> x \<notin> unat ` A"
proof -
  have R: "fst (fst G) = image_mset region (mset Bs) + mset (bh_returned h)" unfolding heap_okD(8)[OF ok, symmetric] by (simp add: lent_def)
  have le: "size (filter_mset (in_region x) (image_mset region (mset Bs))) + length (filter (in_region x) (bh_returned h)) \<le> 1"
    using mem_okD(12)[OF mem, of x] unfolding R by (simp flip: mset_filter)
  then show "length (filter (in_region x) (bh_returned h)) \<le> 1" by simp
  assume p: "(p, a) \<in> L" "x \<in> object_bytes (p, a)"
  obtain B where B: "B \<in> set Bs" "in_region x (region B)" using object_place[OF ok mem p(1)] p(2) by metis
  then have "region B \<in># filter_mset (in_region x) (image_mset region (mset Bs))" by simp
  then have "0 < size (filter_mset (in_region x) (image_mset region (mset Bs)))" by (metis empty_iff nonempty_has_size set_mset_empty)
  then have none: "filter (in_region x) (bh_returned h) = []" using le by (metis add_is_1 le_Suc_eq length_0_conv less_numeral_extra(3) le_zero_eq One_nat_def add_eq_0_iff_both_eq_0)
  show "\<not> in_region x r" if "r \<in> set (bh_returned h)" using none that by (simp add: filter_empty_conv)
  show "x \<notin> unat ` A" using mem_okD(9)[OF mem] B unfolding R by auto
qed

lemma asked_bytes: "(unat n + 23) div 16 \<le> z \<Longrightarrow> {unat p ..< unat p + unat n} \<subseteq> object_bytes (p, z)"
proof -
  assume z: "(unat n + 23) div 16 \<le> z"
  have "unat n + 23 = 16 * ((unat n + 23) div 16) + (unat n + 23) mod 16" "(unat n + 23) mod 16 < 16" by simp_all
  then have "unat n + 8 \<le> 16 * ((unat n + 23) div 16)" by linarith
  then show ?thesis using z by (auto simp: object_bytes_def)
qed

text \<open>\<^bold>\<open>C12.\<close> In every run of a thread's heap with the memory that TMI gives, with objects between 512 bytes and just under
  128 MB, in which the thread allocates, frees and resizes in place, other threads free and shrink objects of this one, the
  program writes within its objects, and others take memory from TMI and write there: no two objects of the program have a
  byte in common, nor has an object one in common with the memory of others or with a block that was returned; no byte is
  returned twice; freeing an object succeeds; resizing it in place runs through, either with at least the new size at the
  same address or, when it declines, with all of the old size left; and as long as TMI has room, an allocation succeeds,
  with a new object of at least the size that was asked for.
\<close>

theorem block_heap_sound:
  assumes "la_run pers slab slab_free (h, M, L, q, A)"
  shows "pairwise (\<lambda>x y. object_bytes x \<inter> object_bytes y = {}) L \<and>
    (\<forall>y \<in> L. object_bytes y \<inter> unat ` A = {} \<and> (\<forall>r \<in> set (bh_returned h). \<forall>x \<in> object_bytes y. \<not> in_region x r)) \<and>
    (\<forall>x. length (filter (in_region x) (bh_returned h)) \<le> 1) \<and>
    (\<forall>(p, a) \<in> L. p \<notin> set q \<and> (\<forall>fcount. \<exists>fcount' h'. free_block p fcount h = Inr (fcount', h'))) \<and>
    (\<forall>(p, a) \<in> L. \<forall>n. unat n \<le> 2 ^ 62 \<longrightarrow> (\<exists>r h'. realloc_local p n h = Inr (r, h') \<and>
       (r = None \<and> a \<le> units h' p \<or> r = Some p \<and> {unat p ..< unat p + unat n} \<subseteq> object_bytes (p, units h' p)))) \<and>
    (\<forall>n st sz. 512 < unat n \<longrightarrow> unat n \<le> 2 ^ 27 - 72 \<longrightarrow> roomy M st sz \<longrightarrow>
       (\<exists>p q' h' M'. malloc_block btree_best (tmi_big_alloc pers slab) (is_slab st sz) slab_free n q h M = Inr (Some p, q', h', M') \<and>
          p \<notin> fst ` L \<and> {unat p ..< unat p + unat n} \<subseteq> object_bytes (p, units h' p)))"
proof -
  have la: "la_ok (h, M, L, q, A)" by (rule la_run_ok[OF assms])
  obtain sl Bs W G where ok: "heap_ok h sl Bs (L \<union> W) G" "mem_ok A M G" "queue_ok L W q" using la by (rule la_okE)
  have "pairwise (\<lambda>x y. object_bytes x \<inter> object_bytes y = {}) L" using objects_disjoint[OF ok(1,2)] by (fastforce simp: pairwise_def)
  moreover have "\<forall>y \<in> L. object_bytes y \<inter> unat ` A = {} \<and> (\<forall>r \<in> set (bh_returned h). \<forall>x \<in> object_bytes y. \<not> in_region x r)"
    using returned_ok(2,3)[OF ok(1,2)] by fast
  moreover have "\<forall>(p, a) \<in> L. p \<notin> set q \<and> (\<forall>fcount. \<exists>fcount' h'. free_block p fcount h = Inr (fcount', h'))"
    using local_ok[OF la] ok(3) unfolding queue_ok_def by fastforce
  moreover have "\<forall>(p, a) \<in> L. \<forall>n. unat n \<le> 2 ^ 62 \<longrightarrow> (\<exists>r h'. realloc_local p n h = Inr (r, h') \<and>
      (r = None \<and> a \<le> units h' p \<or> r = Some p \<and> {unat p ..< unat p + unat n} \<subseteq> object_bytes (p, units h' p)))"
  proof (intro ballI, clarify)
    fix p a and n :: u64 assume p: "(p, a) \<in> L" "unat n \<le> 2 ^ 62"
    show "\<exists>r h'. realloc_local p n h = Inr (r, h') \<and>
      (r = None \<and> a \<le> units h' p \<or> r = Some p \<and> {unat p ..< unat p + unat n} \<subseteq> object_bytes (p, units h' p))"
      using resize_ok[OF la p] asked_bytes[of n _ p] by blast
  qed
  moreover have "\<exists>p q' h' M'. malloc_block btree_best (tmi_big_alloc pers slab) (is_slab st sz) slab_free n q h M = Inr (Some p, q', h', M') \<and>
      p \<notin> fst ` L \<and> {unat p ..< unat p + unat n} \<subseteq> object_bytes (p, units h' p)"
    if n: "512 < unat n" "unat n \<le> 2 ^ 27 - 72" and r: "roomy M st sz" for n st sz
    using malloc_ok[OF ok r n, of pers slab slab_free] given_ok asked_bytes by metis
  ultimately show ?thesis using returned_ok(1)[OF ok(1,2)] by blast
qed

theorem block_heap_sound_witness:
  "\<exists>p z q h M. la_run 0x100000000 0x300000000 (\<lambda>_ M. M) (h, M, {(p, z)}, q, {}) \<and> {unat p ..< unat p + 1000} \<subseteq> object_bytes (p, z) \<and>
    p \<notin> set q \<and> (\<exists>fcount h'. free_block p 0 h = Inr (fcount, h')) \<and> (\<exists>r h'. realloc_local p 3000 h = Inr (r, h'))"
proof -
  let ?pers = "0x100000000 :: u64" and ?slab = "0x300000000 :: u64" and ?h = "thread_heap (\<lambda>_. 0) (\<lambda>_. 0) (\<lambda>_. 0) 0x400000010"
  have s: "start_ok sample_memory 0x400000010 (\<lambda>_. 0)" by (simp add: start_ok_def sample_memory_def)
  obtain head h M where i: "init_atls (tmi_big_alloc ?pers ?slab) ?h sample_memory = Inr (Some (head, h), M)"
    using start_runs[OF s, of ?pers ?slab] by blast
  note r = la_start[OF s i]
  have "tmi_big_alloc ?pers ?slab PAGESIZE sample_memory = (Some 0x3FFFFF000, sample_memory\<lparr>tm_mmapPos := 0x3FFFFF000\<rparr>)"
    by (simp add: tmi_big_alloc_def get_mmap_memory_def memory_init_def sample_memory_def TMI_PAGESIZE_def PAGESIZE_def)
  then have "M = sample_memory\<lparr>tm_mmapPos := 0x3FFFFF000\<rparr>" using i by (auto simp: init_atls_def bindE_eq_Inr)
  then have fits: "roomy M 0x300000000 0x100000" by (simp add: roomy_def sample_memory_def)
  have n: "512 < unat (1000 :: u64)" "unat (1000 :: u64) \<le> 2 ^ 27 - 72" by simp_all
  obtain p q' h' M' where m: "malloc_block btree_best (tmi_big_alloc ?pers ?slab) (is_slab 0x300000000 0x100000) (\<lambda>_ M. M) 1000 [head] h M = Inr (Some p, q', h', M')"
    "{unat p ..< unat p + unat (1000 :: u64)} \<subseteq> object_bytes (p, units h' p)"
    using block_heap_sound[OF r[of "\<lambda>_ M. M"], THEN conjunct2, THEN conjunct2, THEN conjunct2, THEN conjunct2, THEN conjunct2, rule_format, OF n fits] by blast
  have r': "la_run ?pers ?slab (\<lambda>_ M. M) (h', M', {(p, units h' p)}, q', {})" using la_malloc[OF r n fits m(1)] by simp
  have "p \<notin> set q' \<and> (\<forall>fcount. \<exists>fcount' h2. free_block p fcount h' = Inr (fcount', h2))"
    using block_heap_sound[OF r', THEN conjunct2, THEN conjunct2, THEN conjunct2, THEN conjunct1] by simp
  moreover have "unat (3000 :: u64) \<le> 2 ^ 62" by simp
  then have "\<exists>r h2. realloc_local p 3000 h' = Inr (r, h2)"
    using block_heap_sound[OF r', THEN conjunct2, THEN conjunct2, THEN conjunct2, THEN conjunct2, THEN conjunct1] by blast
  ultimately show ?thesis using r' m(2) by (intro exI[of _ p] exI[of _ "units h' p"] exI[of _ q'] exI[of _ h'] exI[of _ M']) simp
qed

end
