(* ===== verification/Spec2Isabelle.thy ===== *)
theory Spec2Isabelle
  imports PL_Pipeline PP_Main PP_Input PP_Stream PP_Bins RT_Runtime RT_SpinLock IN_Dynamic MA_MemoryAnalysis KM_Kmeans TMI_List TMI_Lock TMI_Threads
    LA_Mutex LA_SlabObjects LA_Queue LA_Runs
begin

text \<open>
  Huron finds false sharing in multi-threaded programs and repairs it: data of different threads that lie in one
  cache line are moved apart.

  \<^bold>\<open>The program.\<close> A compiler pass (\<^verbatim>\<open>Instrumenter/\<close>) puts a call of the runtime in front of every memory access and
  replaces the allocation functions. The runtime (\<^verbatim>\<open>runtime/\<close>) keeps a table of the allocations and counts the
  accesses of every thread, and writes both to files at exit. The post-processor (\<^verbatim>\<open>postprocess/\<close>) has two passes:
  detection groups the logged accesses by allocation and cache line and estimates the false sharing of each line;
  repair computes for every allocation a layout in which ranges used by different sets of threads are a cache line
  apart, and prints by how much every access of every thread has to move. A second compiler pass (\<^verbatim>\<open>RedirectPtr/\<close>)
  loads this file, clones the functions that threads run once per thread and moves the pointers. \<^verbatim>\<open>second_pass/\<close> is a
  runtime that redirects addresses while the program runs, \<^verbatim>\<open>MemoryAnalysis/\<close> an analysis of the ranges that
  instructions access, \<^verbatim>\<open>kmeans_repair/\<close> a draft of another repair. \<^verbatim>\<open>others/tmi/\<close> is a system that is compared with:
  it samples accesses with hardware counters, turns the threads of the program into processes when it sees false
  sharing, gives each a private copy of the pages concerned, and merges the copies at every synchronisation.

  \<^bold>\<open>Conventions.\<close> Machine integers are words of their width, so sums wrap. A function that can throw, fail an
  assertion, abort or run into undefined behaviour returns a sum with a \<open>cxx_error\<close> on the left
  (theory \<^verbatim>\<open>Huron_Prelude\<close>). A \<^verbatim>\<open>std::map\<close> is an association list with increasing keys, a \<^verbatim>\<open>std::unordered_map\<close> one with
  distinct keys; where a result can depend on its order, the order is an argument. The locales \<open>keyed_store\<close> and
  \<open>ordered_store\<close> state what the clients of these containers use, and both models interpret them. Text is read and
  written as in theory \<^verbatim>\<open>Cxx_Text\<close>. Compiler modules are those of theory \<^verbatim>\<open>LL_Ir\<close>. Concurrent code is a step function or
  an inductive step relation in which every access to shared memory is one step; its theorems are about all
  reachable states. What comes from the compiler, the C library or the kernel is an argument of the definitions.

  \<^bold>\<open>Theories and sources.\<close>
  \<^item> \<^verbatim>\<open>PP_Utils\<close>, \<^verbatim>\<open>PP_Detect\<close>, \<^verbatim>\<open>PP_Bins\<close>: \<^verbatim>\<open>Utils.h\<close>, \<^verbatim>\<open>Utils.cpp\<close>, \<^verbatim>\<open>Detect.cpp\<close>, \<^verbatim>\<open>Stats.h\<close> of \<^verbatim>\<open>postprocess/\<close>. Every record lands in
    one bin, and a line without false sharing is estimated at zero.
  \<^item> \<^verbatim>\<open>PP_Repair\<close>, \<^verbatim>\<open>PP_Layout\<close>, \<^verbatim>\<open>PP_Input\<close>: \<^verbatim>\<open>Repair.cpp\<close>, \<^verbatim>\<open>Repair.h\<close>. The pass returns a layout for every input in
    range; no cache line of it is used by two different sets of threads, no two bytes fall together, every
    access has its line, and the order of the input does not matter.
  \<^item> \<^verbatim>\<open>PP_Stream\<close>, \<^verbatim>\<open>PP_Main\<close>: the file between the two passes, and \<^verbatim>\<open>main.cpp\<close>. What one pass prints the other reads, and the
    two commands in a row do what the combined one does.
  \<^item> \<^verbatim>\<open>RT_MallocInfo\<close>, \<^verbatim>\<open>RT_Logging\<close>, \<^verbatim>\<open>RT_Runtime\<close>, \<^verbatim>\<open>RT_SpinLock\<close>: \<^verbatim>\<open>runtime/\<close>. The table answers with the block that
    holds an address, the log has the number of accesses, and the lock excludes.
  \<^item> \<^verbatim>\<open>IN_Instrumenter\<close>, \<^verbatim>\<open>IN_Dynamic\<close>: \<^verbatim>\<open>Instrumenter.cpp\<close>, \<^verbatim>\<open>AlignMalloc.cpp\<close>, \<^verbatim>\<open>DynamicInst.h\<close> and the assembly pass of TMI.
    Instrumenting keeps the program, is well typed, and numbers accesses as the redirecting pass does.
  \<^item> \<^verbatim>\<open>RP_Profile\<close>, \<^verbatim>\<open>RP_CallGraph\<close>, \<^verbatim>\<open>RP_Redirect\<close>: \<^verbatim>\<open>RedirectPtr/\<close>. The pass loads what was printed, finds the threads
    of every function, and moves an access by exactly the printed offset.
  \<^item> \<^verbatim>\<open>PL_Pipeline\<close> and this theory: the composition of repair, its file and the redirecting pass.
  \<^item> \<^verbatim>\<open>MA_MemoryAnalysis\<close>, \<^verbatim>\<open>SP_SecondPass\<close>, \<^verbatim>\<open>KM_Kmeans\<close>: \<^verbatim>\<open>MemoryAnalysis.cpp\<close>, \<^verbatim>\<open>second_pass/\<close>, \<^verbatim>\<open>kmeans.h\<close>.
  \<^item> \<^verbatim>\<open>TMI_Detector\<close>, \<^verbatim>\<open>TMI_Perf\<close>: \<^verbatim>\<open>include/detector\<close>, \<^verbatim>\<open>detector.cpp\<close>, \<^verbatim>\<open>perf.cpp\<close>. Events are counted in the class they belong to,
    and the reader of the ring of records ends.
  \<^item> \<^verbatim>\<open>TMI_Memory\<close>, \<^verbatim>\<open>TMI_Commit\<close>: \<^verbatim>\<open>tmimem.cpp\<close>, \<^verbatim>\<open>internalmem.cpp\<close>, \<^verbatim>\<open>tmiutil.cpp\<close>. \<^verbatim>\<open>TMI_Commit\<close> has the runs of a process and the invariant
    of its mappings and page states; a commit changes no byte that no active state reaches, and merges the private page into
    the shared one where the page was recorded at its start.
  \<^item> \<^verbatim>\<open>TMI_Sync\<close>, \<^verbatim>\<open>TMI_Lock\<close>: \<^verbatim>\<open>tmisync.cpp\<close> and \<^verbatim>\<open>get_shared\<close>. All threads agree on the shared copy of a synchronisation object; processes
    that store to a byte only inside a lock read there what was stored last.
  \<^item> \<^verbatim>\<open>TMI_Loader\<close>, \<^verbatim>\<open>TMI_Threads\<close>: \<^verbatim>\<open>tmildr.cpp\<close>, \<^verbatim>\<open>tmithread.cpp\<close>, \<^verbatim>\<open>libtmi.cpp\<close>. A conversion gives every process the registers of
    its thread if the threads stop in time, for which the loader does not wait. A join returns what the thread returned, or for a converted
    thread a null pointer: after the fork the original thread and the process write to one context, in any order.
  \<^item> \<^verbatim>\<open>TMI_List\<close>: \<^verbatim>\<open>ll_list.h\<close>, a refinement of lists.
  \<^item> \<^verbatim>\<open>LA_Mutex\<close>, \<^verbatim>\<open>LA_Sizes\<close>, \<^verbatim>\<open>LA_Fast\<close>, \<^verbatim>\<open>LA_Slab\<close>, \<^verbatim>\<open>LA_SlabObjects\<close>, \<^verbatim>\<open>LA_Queue\<close>: the allocator \<^verbatim>\<open>ll_alloc.c\<close>. The mutex excludes
    and loses no wake-up; the fast lists lose no block; the objects of a slab are disjoint; an object freed by another
    thread is freed once; a hazard pointer protects the queue it names.
  \<^item> \<^verbatim>\<open>LA_Blocks\<close>, \<^verbatim>\<open>LA_BlockLayout\<close>, \<^verbatim>\<open>LA_BlockAlloc\<close>: the blocks of the allocator for larger objects, cut into nodes with
    separators. Splitting and merging keep every block tiled by nodes whose separators agree.
  \<^item> \<^verbatim>\<open>LA_Btree\<close>: the B-tree of large free nodes, a refinement of a list sorted by size.
  \<^item> \<^verbatim>\<open>LA_Heap\<close>, \<^verbatim>\<open>LA_Alloc\<close>, \<^verbatim>\<open>LA_Realloc\<close>, \<^verbatim>\<open>LA_Runs\<close>: all of it at work. \<^verbatim>\<open>LA_Heap\<close> has the invariant of a thread's heap (every free node is in exactly one
    list or in the tree, every object in a node of its own) and that each operation keeps it. \<^verbatim>\<open>LA_Alloc\<close> adds the memory that \<^verbatim>\<open>TMI_Memory\<close> gives
    out and the objects that other threads freed; the locale \<open>size_index\<close> states what the search of the tree promises. \<^verbatim>\<open>LA_Realloc\<close> has new
    sizes in place, where the object may swallow the free node behind it. \<^verbatim>\<open>LA_Runs\<close> has the runs,
    in which other threads and the program act as well.

  \<^bold>\<open>Bounds and loops.\<close> Where an iteration of the source could run for ever, the model is a partial function into
  \<open>option\<close> or has a bound. \<^verbatim>\<open>MemoryAnalysis.cpp\<close> and the reader of the ring have theorems that they end. The recursions of
  the call graph carry the number of functions of the module, which no acyclic path exceeds. \<open>scan_loop\<close> carries the
  length of the queue and \<open>scan_loop_ends\<close> shows that it is enough. The repair theorems ask for inputs in range: allocations below \<open>2 ^ 63\<close> bytes,
  accessed segments that end at \<open>2 ^ 57\<close> at most, threads below 31, and fewer than \<open>2 ^ 64\<close> accesses, so that no sum of the placement
  wraps and a thread has a bit below the sign bit of its mask. The runs of \<^verbatim>\<open>TMI_Commit\<close> have no stores in the last 16384 bytes of the heap, since a commit
  compares that many bytes from a recorded address on (\<open>commit_overruns_page\<close>). The runs of the allocator have objects of up to
  \<open>2 ^ 27 - 72\<close> bytes, which is exact: \<open>block_alloc_aux_short\<close> shows what happens above. They start with TMI's memory below \<open>2 ^ 62\<close>. An
  allocation that takes over freed objects starts again; \<open>slow_alloc_given\<close> shows that once is enough.

  \<^bold>\<open>Not modelled.\<close> \<^verbatim>\<open>CustomUnrollLoop.cpp\<close> is a copy of a transformation of the compiler; unrolling and cloning are
  arguments of \<^verbatim>\<open>RP_Redirect\<close>. Of \<^verbatim>\<open>ll_alloc.c\<close>: the choice between slab, block and mapping at the entry points, the adoption of the memory of threads
  that have ended, spare B-tree nodes when no slab can be had, the index of a child that the B-tree packs into the low bits of a size (nodes are values here,
  so sizes that leave no room for it are covered too), \<^verbatim>\<open>realloc\<close> of mappings by \<^verbatim>\<open>mremap\<close>
  (where an object has to move, \<^verbatim>\<open>realloc\<close> is an allocation, a copy and a free, which the runs have as steps), aligned allocation, leak reports, the Windows and 32-bit builds; \<^verbatim>\<open>ll_alloc_original.c\<close> is the file it was
  made from. Of TMI: the report of the detector (shell commands), patching of machine code (\<^verbatim>\<open>funchook.c\<close>), symbol
  lookups (\<^verbatim>\<open>hooks.cpp\<close>), timers, launchers, and the start-up code. \<^verbatim>\<open>SymbolCache.h\<close> and \<^verbatim>\<open>LibFuncs.h\<close> only call the C library. The disassembler under
  \<^verbatim>\<open>xed/\<close>, benchmarks, tests and scripts are inputs or tools and no part of the system. Terminal messages are left out
  throughout.
\<close>

section \<open>From the detected accesses to the rewritten program\<close>

text \<open>
  \<^bold>\<open>C1.\<close> The stages of the repair compose. For every input in range the repair pass computes a layout,
  prints it, and the compiler pass loads the printed file. Take any access of the input, by a thread at an
  instruction that is no allocation site. One of the printed lines of that instruction and thread is meant
  for it: the line of its segment, or the common one when all segments of the thread at that instruction
  move by the same distance. An instruction with one line is rewritten by it as it stands. One with several
  lines is unrolled into one copy per line, and the copy that the pass rewrites by this line is the one whose
  number is how many lines of that instruction and thread are smaller. Rewritten by it, an address of the old
  layout becomes the address at which the layout places that byte.
\<close>

theorem repaired_access_moves:
  assumes "pass_input_ok input" "mo \<in> set input" "(s, pc, t) \<in> set (mo_accesses mo)" "x \<in> seg_bytes s"
    and "pc \<notin> mo_pc ` set input"
    and "pointer_index (in_op i) = Some (k, w)" "k < length (in_args i)" "val_of oth env (in_args i ! k) = origin + x"
  shows "\<exists>rp prof info ly after rm u segs r a b n e pre i'.
    repair_compute junk (- 1) analysis_init input = Inr rp \<and>
    loadProfile (open_in (repair_print_result rp)) = Inr prof \<and> map_of prof (pc_key pc) = Some info \<and>
    mk_layout junk (mo_accesses mo) (mo_pc mo) (- 1) None = Inr ly \<and>
    ly_table (ly_access_relation ly) = Inr (after, rm) \<and> new_pos rm x = Some u \<and>
    ((pc, t), segs) \<in> set (ly_access_relation ly) \<and> r \<in> set segs \<and> x \<in> seg_bytes r \<and>
    (pc, t, a, b) \<in> set (rp_all_pcs_layout rp) \<and>
    (a = seg_start r \<or> (\<forall>q \<in> set segs. \<forall>y \<in> seg_bytes q. new_pos rm y = Some (y + (b - a)))) \<and>
    n = length (filter (\<lambda>l. fst l = pc \<and> fst (snd l) = t \<and> snd (snd l) < (a, b)) (rp_all_pcs_layout rp)) \<and>
    applied_in (threaded_of info t) n e \<and>
    act_on M next i e = Inr (pre @ [i']) \<and> in_op i' = in_op i \<and> in_ptr i' = in_ptr i \<and>
    (\<forall>j. j \<noteq> k \<longrightarrow> in_args i' ! j = in_args i ! j) \<and>
    val_of oth (fold (exec_inst oth) pre env) (in_args i' ! k) = origin + u"
proof (rule pass_runs[OF assms(1), of junk])
  fix rp
  let ?api = "mo_accesses mo"
  assume rp: "repair_compute junk (- 1) analysis_init input = Inr rp" "pass_inv junk input rp"
    and small: "length (rp_all_fixed_mallocs rp) < 2 ^ 64" "length (rp_all_pcs_layout rp) < 2 ^ 64"
      "\<forall>m \<in> set (rp_all_fixed_mallocs rp). small_malloc m"
  have ok: "input_ok ?api" "mo_size mo < 2 ^ 63" using assms(1,2) by (simp_all add: pass_input_ok_def)
  obtain ly merged rm rp' where ly: "mk_layout junk ?api (mo_pc mo) (- 1) None = Inr ly" "ly_access_relation ly = input_relation ?api"
    "ly_table (ly_access_relation ly) = Inr (ly_after_mapped ly, rm)"
    "table_places (input_relation ?api) merged (ly_after_mapped ly) rm"
    "set (ly_remapping_lines ly) = {(fst (fst e), l) |e l. e \<in> set (input_relation ?api) \<and> l \<in> set (entry_lines rm e)}"
    by (rule repair_malloc_run[OF ok, of junk rp])
  obtain segs r where r: "((pc, t), segs) \<in> set (input_relation ?api)" "r \<in> set segs" "x \<in> seg_bytes r"
    by (rule input_relation_member[OF ok(1) assms(3,4)])
  obtain a b where ab: "(t, a, b) \<in> set (entry_lines rm ((pc, t), segs))" "a < 2 ^ 63" "b < 2 ^ 63"
    "new_pos rm x = Some (x + (b - a))"
    "a = seg_start r \<or> (\<forall>q \<in> set segs. \<forall>y \<in> seg_bytes q. new_pos rm y = Some (y + (b - a)))"
    by (rule access_line[OF ok(1) ly(4) r])
  have "(pc, t, a, b) \<in> set (ly_remapping_lines ly)" unfolding ly(5) using r(1) ab(1) by force
  then have line: "(pc, t, a, b) \<in> set (rp_all_pcs_layout rp)" using rp(2) assms(2) ly(1) by (auto simp: pass_inv_def)
  let ?ls = "sort (map snd (filter (\<lambda>p. fst p = pc) (rp_all_pcs_layout rp)))"
  have sites: "fst ` set (rp_all_fixed_mallocs rp) \<subseteq> mo_pc ` set input"
    using rp(2) unfolding pass_inv_def image_subset_iff by blast
  have listed: "pc \<in> fst ` set (rp_all_pcs_layout rp)" using imageI[OF line, of fst] by simp
  obtain prof where prof: "loadProfile (open_in (repair_print_result rp)) = Inr prof" "map_of prof (pc_key pc) = Some (pc_info_lines ?ls)"
    by (rule loaded_lines[OF small sites assms(5) listed])
  define n where "n = length (filter (\<lambda>l. l < (a, b)) (map snd (filter (\<lambda>l. fst l = t) ?ls)))"
  have n: "n = length (filter (\<lambda>l. fst l = pc \<and> fst (snd l) = t \<and> snd (snd l) < (a, b)) (rp_all_pcs_layout rp))"
    unfolding n_def by (rule printed_rank)
  have "(t, a, b) \<in> set ?ls" using line by force
  then obtain e where e: "expanded_of (threaded_of (pc_info_lines ?ls) t) n = Inr e" "ex_triSwitch e = 0" "ex_redirect e = (a, b)"
    "tp_triSwitch (threaded_of (pc_info_lines ?ls) t) = 0" unfolding n_def by (rule offset_of_line)
  have "val_of oth env (in_args i ! k) = (origin + x - a) + a" using assms(8) by simp
  from offset_rewrites[OF assms(6,7) ab(2,3) e(2,3) this, of M "next"] obtain pre i' where
    act: "act_on M next i e = Inr (pre @ [i'])" "in_op i' = in_op i" "in_ptr i' = in_ptr i" "\<forall>j. j \<noteq> k \<longrightarrow> in_args i' ! j = in_args i ! j"
    and val: "val_of oth (fold (exec_inst oth) pre env) (in_args i' ! k) = origin + x - a + b" by blast
  have "val_of oth (fold (exec_inst oth) pre env) (in_args i' ! k) = origin + (x + (b - a))" using val by simp
  moreover have "((pc, t), segs) \<in> set (ly_access_relation ly)" using r(1) ly(2) by simp
  ultimately show ?thesis
    using rp(1) prof ly(1,3) r(2,3) ab(4,5) line n expanded_applied[OF e(1,4)] act by (intro exI conjI) assumption+
qed

definition sample_input :: "malloc_output list" where
  "sample_input = [\<lparr>mo_accesses = [(Segment 8 16, PC 2 4, 2), (Segment 0 8, PC 2 3, 1)], mo_pc = PC 7 8, mo_size = 64\<rparr>]"

theorem repaired_access_moves_witness:
  "\<exists>rp prof info ly after rm u n e pre i'.
    repair_compute 0 (- 1) analysis_init sample_input = Inr rp \<and>
    loadProfile (open_in (repair_print_result rp)) = Inr prof \<and> map_of prof (pc_key (PC 2 4)) = Some info \<and>
    mk_layout 0 (mo_accesses (hd sample_input)) (PC 7 8) (- 1) None = Inr ly \<and>
    ly_table (ly_access_relation ly) = Inr (after, rm) \<and> new_pos rm 8 = Some u \<and>
    applied_in (threaded_of info 2) n e \<and> act_on [] 100 RP_Redirect.sample_load e = Inr (pre @ [i']) \<and>
    val_of (\<lambda>_. 4104) (fold (exec_inst (\<lambda>_. 4104)) pre (\<lambda>_. 0)) (in_args i' ! 1) = 4096 + u"
proof -
  have "pass_input_ok sample_input" by (simp add: pass_input_ok_def sample_input_def input_ok_def seg_wf_def)
  moreover have "hd sample_input \<in> set sample_input" "(Segment 8 16, PC 2 4, 2) \<in> set (mo_accesses (hd sample_input))"
    "PC 2 4 \<notin> mo_pc ` set sample_input" and pc: "mo_pc (hd sample_input) = PC 7 8"
    by (simp_all add: sample_input_def)
  moreover have "8 \<in> seg_bytes (Segment 8 16)" by (simp add: seg_bytes_def)
  moreover have "pointer_index (in_op RP_Redirect.sample_load) = Some (1, True)" "1 < length (in_args RP_Redirect.sample_load)"
    "val_of (\<lambda>_. 4104) (\<lambda>_. 0) (in_args RP_Redirect.sample_load ! 1) = 4096 + 8"
    by (simp_all add: RP_Redirect.sample_load_def pointer_index_def val_of_def)
  ultimately show ?thesis
    using repaired_access_moves[of sample_input "hd sample_input" "Segment 8 16" "PC 2 4" 2 8 RP_Redirect.sample_load 1 True
        "\<lambda>_. 4104" "\<lambda>_. 0" 4096 0 "[]" 100] unfolding pc by blast
qed

end
